(* ===== verification/CPrelude.thy ===== *)
theory CPrelude
  imports Main "HOL-Library.Word" "HOL-Library.Monad_Syntax"
begin

text \<open>
  The prelude of the development: the memory model and the parts of the C standard library
  that the modelled files use.

  A pointer is an object number and an offset into that object; a store maps each object
  number to the bytes of the object. Loads and stores outside an object, and pointers moved
  before the start of an object, are undefined behaviour in C and are the value \<open>None\<close> here,
  so a theorem that a function returns \<open>Some\<close> says that it stays inside its objects. Two
  pointers into the same object alias, exactly as in the code.

  A C string that is only read is a HOL \<open>string\<close> without its terminating NUL; a pointer into
  it is then a suffix of that string, and the empty suffix is the terminator.
  Characters are classified as in the "C" locale (the code never calls \<open>setlocale\<close> here).
\<close>

named_theorems cmem_simps "loads, stores and C strings of an updated store"

section \<open>Characters\<close>

abbreviation NUL :: char where
  "NUL \<equiv> CHR 0x00"

definition ccode :: "char \<Rightarrow> nat" where
  "ccode c = of_char c"

definition isupper :: "char \<Rightarrow> bool" where
  "isupper c \<longleftrightarrow> 65 \<le> ccode c \<and> ccode c \<le> 90"

definition islower :: "char \<Rightarrow> bool" where
  "islower c \<longleftrightarrow> 97 \<le> ccode c \<and> ccode c \<le> 122"

definition isalpha :: "char \<Rightarrow> bool" where
  "isalpha c \<longleftrightarrow> isupper c \<or> islower c"

definition isdigit :: "char \<Rightarrow> bool" where
  "isdigit c \<longleftrightarrow> 48 \<le> ccode c \<and> ccode c \<le> 57"

definition isalnum :: "char \<Rightarrow> bool" where
  "isalnum c \<longleftrightarrow> isalpha c \<or> isdigit c"

definition iscntrl :: "char \<Rightarrow> bool" where
  "iscntrl c \<longleftrightarrow> ccode c < 32 \<or> ccode c = 127"

definition isspace :: "char \<Rightarrow> bool" where
  "isspace c \<longleftrightarrow> ccode c = 32 \<or> (9 \<le> ccode c \<and> ccode c \<le> 13)"

definition toupper :: "char \<Rightarrow> char" where
  "toupper c = (if islower c then char_of (ccode c - 32) else c)"

lemmas ctype_defs = ccode_def isupper_def islower_def isalpha_def isdigit_def isalnum_def
  iscntrl_def isspace_def toupper_def

lemma ccode_NUL [simp]: "ccode NUL = 0"
  by (simp add: ccode_def)

lemma toupper_NUL_iff [simp]: "toupper c = NUL \<longleftrightarrow> c = NUL"
proof -
  have "c = NUL" if "islower c" and "char_of (ccode c - 32) = NUL"
  proof -
    have "of_char (char_of (ccode c - 32) :: char) = (0::nat)"
      using that(2) by simp
    then have "(ccode c - 32) mod 256 = 0" by simp
    moreover have "0 < ccode c - 32" "ccode c - 32 < 256"
      using that(1) by (auto simp: islower_def)
    ultimately show ?thesis by simp
  qed
  then show ?thesis by (auto simp: toupper_def islower_def)
qed

lemma toupper_NUL [simp]: "toupper NUL = NUL"
  by simp

lemma ccode_inject [simp]: "ccode c = ccode d \<longleftrightarrow> c = d"
  by (simp add: ccode_def)

lemma ccode_toupper: "ccode (toupper c) = (if islower c then ccode c - 32 else ccode c)"
  by (auto simp: toupper_def ccode_def islower_def)

lemma toupper_idem [simp]: "toupper (toupper c) = toupper c"
  by (auto simp: toupper_def [of "toupper c"] islower_def ccode_toupper)

lemma toupper_other: "\<not> isalpha d \<Longrightarrow> toupper c = toupper d \<longleftrightarrow> c = d"
proof -
  assume d: "\<not> isalpha d"
  then have "toupper d = d" by (simp add: toupper_def isalpha_def)
  moreover have "islower c \<Longrightarrow> ccode c - 32 \<noteq> ccode d"
    using d by (auto simp: isalpha_def isupper_def islower_def)
  ultimately show ?thesis
    using ccode_toupper [of c] by (metis ccode_inject)
qed

lemma isdigit_not_NUL [simp]: "\<not> isdigit NUL"
  by (simp add: isdigit_def)

lemma isalnum_not_NUL [simp]: "\<not> isalnum NUL"
  by (simp add: isalnum_def isalpha_def isupper_def islower_def)

section \<open>Objects, pointers and stores\<close>

type_synonym ptr = "nat \<times> nat"

type_synonym store = "nat \<Rightarrow> char list"

fun padd :: "ptr \<Rightarrow> nat \<Rightarrow> ptr" where
  "padd (ob, i) k = (ob, i + k)"

fun pdec :: "ptr \<Rightarrow> ptr option" where
  "pdec (ob, 0) = None"
| "pdec (ob, Suc i) = Some (ob, i)"

fun ld :: "store \<Rightarrow> ptr \<Rightarrow> char option" where
  "ld h (ob, i) = (if i < length (h ob) then Some (h ob ! i) else None)"

fun st :: "store \<Rightarrow> ptr \<Rightarrow> char \<Rightarrow> store option" where
  "st h (ob, i) c = (if i < length (h ob) then Some (h(ob := (h ob)[i := c])) else None)"

text \<open>\<open>p[i]\<close> for an \<open>int\<close> index, which may be negative.\<close>

fun ld_at :: "store \<Rightarrow> ptr \<Rightarrow> int \<Rightarrow> char option" where
  "ld_at h (ob, i) k = (if 0 \<le> int i + k then ld h (ob, nat (int i + k)) else None)"

fun st_at :: "store \<Rightarrow> ptr \<Rightarrow> int \<Rightarrow> char \<Rightarrow> store option" where
  "st_at h (ob, i) k c = (if 0 \<le> int i + k then st h (ob, nat (int i + k)) c else None)"

definition bytes_at :: "store \<Rightarrow> ptr \<Rightarrow> char list" where
  "bytes_at h p = drop (snd p) (h (fst p))"

definition room :: "store \<Rightarrow> ptr \<Rightarrow> nat" where
  "room h p = length (h (fst p)) - snd p"

text \<open>The C string at a pointer (\<open>strlen\<close> is its length); \<open>None\<close> when the object has no NUL
  behind the pointer, so that reading the string leaves the object.\<close>

definition cstr :: "store \<Rightarrow> ptr \<Rightarrow> string option" where
  "cstr h p = (if NUL \<in> set (bytes_at h p) then Some (takeWhile (\<lambda>c. c \<noteq> NUL) (bytes_at h p))
               else None)"

text \<open>The effect of writing a block of bytes at a pointer.\<close>

definition put :: "store \<Rightarrow> ptr \<Rightarrow> char list \<Rightarrow> store" where
  "put h p xs = h(fst p := take (snd p) (h (fst p)) @ xs @ drop (snd p + length xs) (h (fst p)))"

text \<open>\<open>memcpy\<close>/\<open>memmove\<close> of a block that has been read before it is written.\<close>

definition blk_ld :: "store \<Rightarrow> ptr \<Rightarrow> nat \<Rightarrow> char list option" where
  "blk_ld h p n = (if snd p + n \<le> length (h (fst p)) then Some (take n (bytes_at h p)) else None)"

definition blk_st :: "store \<Rightarrow> ptr \<Rightarrow> char list \<Rightarrow> store option" where
  "blk_st h p xs = (if snd p + length xs \<le> length (h (fst p)) then Some (put h p xs) else None)"

definition memmove :: "store \<Rightarrow> ptr \<Rightarrow> ptr \<Rightarrow> nat \<Rightarrow> store option" where
  "memmove h d s n = do { xs \<leftarrow> blk_ld h s n; blk_st h d xs }"

definition fits :: "store \<Rightarrow> ptr \<Rightarrow> nat \<Rightarrow> bool" where
  "fits h p n \<longleftrightarrow> snd p + n \<le> length (h (fst p))"

lemma put_Nil [simp]: "put h p [] = h"
  by (simp add: put_def)

lemma length_put [simp]: "fits h p (length xs) \<Longrightarrow> length (put h p xs ob) = length (h ob)"
  by (auto simp: put_def fits_def)

lemma put_other [simp]: "ob \<noteq> fst p \<Longrightarrow> put h p xs ob = h ob"
  by (simp add: put_def)

lemma fits_put [simp]: "fits h q (length xs) \<Longrightarrow> fits (put h q xs) p n \<longleftrightarrow> fits h p n"
  by (simp add: fits_def [of _ p])

lemma fits_mono: "fits h p n \<Longrightarrow> m \<le> n \<Longrightarrow> fits h p m"
  by (simp add: fits_def)

lemma fits_padd: "fits h p (k + n) \<Longrightarrow> fits h (padd p k) n"
  by (cases p) (simp add: fits_def)

lemma padd_0 [simp]: "padd p 0 = p"
  by (cases p) simp

lemma padd_padd [simp]: "padd (padd p j) k = padd p (j + k)"
  by (cases p) simp

lemma padd_fst [simp]: "fst (padd p k) = fst p"
  by (cases p) simp

lemma padd_snd [simp]: "snd (padd p k) = snd p + k"
  by (cases p) simp

lemma st_put: "fits h p 1 \<Longrightarrow> st h p c = Some (put h p [c])"
  by (cases p) (simp add: fits_def put_def upd_conv_take_nth_drop)

lemma ld_room: "ld h p = Some c \<Longrightarrow> snd p < length (h (fst p))"
  by (cases p) (simp split: if_splits)

lemma st_None_iff: "st h p c = None \<longleftrightarrow> \<not> fits h p 1"
  by (cases p) (simp add: fits_def)

lemma ld_None_iff: "ld h p = None \<longleftrightarrow> \<not> fits h p 1"
  by (cases p) (simp add: fits_def)

lemma put_append:
  assumes "fits h p (length xs + length ys)"
  shows "put (put h p xs) (padd p (length xs)) ys = put h p (xs @ ys)"
proof -
  let ?b = "h (fst p)" and ?i = "snd p"
  have le: "?i + length xs \<le> length ?b"
    using assms by (simp add: fits_def)
  have "take (?i + length xs) (take ?i ?b @ xs @ drop (?i + length xs) ?b) = take ?i ?b @ xs"
    using le by simp
  moreover have "drop (?i + length xs + length ys) (take ?i ?b @ xs @ drop (?i + length xs) ?b)
      = drop (?i + length (xs @ ys)) ?b"
    using le by (simp add: ac_simps)
  ultimately show ?thesis
    by (simp add: put_def fun_upd_def fun_eq_iff)
qed

lemma blk_st_put: "fits h p (length xs) \<Longrightarrow> blk_st h p xs = Some (put h p xs)"
  by (simp add: blk_st_def fits_def)

lemma st_put_snoc:
  "fits h t (Suc (length y)) \<Longrightarrow> st (put h t y) (padd t (length y)) c = Some (put h t (y @ [c]))"
  using fits_padd [of h t "length y" 1] put_append [of h t y "[c]"] fits_mono [of h t "Suc (length y)" "length y"]
  by (subst st_put) simp_all

lemma put_overwrite: "length x = length y \<Longrightarrow> fits h p (length y) \<Longrightarrow> put (put h p x) p y = put h p y"
  by (auto simp: put_def fits_def fun_eq_iff)

lemma put_Cons:
  assumes "fits h p (Suc (length ys))"
  shows "put (put h p [c]) (padd p 1) ys = put h p (c # ys)"
  using put_append [of h p "[c]" ys] assms by simp

lemma bytes_at_padd: "bytes_at h (padd p k) = drop k (bytes_at h p)"
  by (cases p) (simp add: bytes_at_def add.commute)

lemma bytes_at_ld: "bytes_at h p = c # t \<Longrightarrow> ld h p = Some c"
  by (cases p) (metis (no_types, lifting) bytes_at_def drop_eq_Nil fst_conv hd_drop_conv_nth
      ld.simps leI list.sel(1) neq_Nil_conv snd_conv)

lemma ld_bytes_at: "ld h p = (case bytes_at h p of [] \<Rightarrow> None | c # _ \<Rightarrow> Some c)"
proof (cases "bytes_at h p")
  case Nil
  then show ?thesis by (cases p) (simp add: bytes_at_def)
next
  case (Cons c t)
  then show ?thesis using bytes_at_ld [OF Cons] by simp
qed

lemma length_bytes_at: "length (bytes_at h p) = length (h (fst p)) - snd p"
  by (simp add: bytes_at_def)

lemma fits_bytes_at: "snd p \<le> length (h (fst p)) \<Longrightarrow> fits h p n \<longleftrightarrow> n \<le> length (bytes_at h p)"
  by (auto simp: fits_def length_bytes_at)

section \<open>C strings\<close>

lemma cstr_Some_iff:
  "cstr h p = Some s \<longleftrightarrow> (\<exists>t. bytes_at h p = s @ NUL # t \<and> NUL \<notin> set s)"
proof
  assume a: "cstr h p = Some s"
  then have N: "NUL \<in> set (bytes_at h p)" and s: "s = takeWhile (\<lambda>c. c \<noteq> NUL) (bytes_at h p)"
    by (auto simp: cstr_def split: if_splits)
  from N obtain u t where ut: "bytes_at h p = u @ NUL # t" "NUL \<notin> set u"
    using split_list_first by metis
  then have "s = u"
    using s by (simp add: takeWhile_tail) (metis takeWhile_eq_all_conv)
  then show "\<exists>t. bytes_at h p = s @ NUL # t \<and> NUL \<notin> set s"
    using ut by blast
next
  assume "\<exists>t. bytes_at h p = s @ NUL # t \<and> NUL \<notin> set s"
  then obtain t where "bytes_at h p = s @ NUL # t" "NUL \<notin> set s" by blast
  moreover have "takeWhile (\<lambda>c. c \<noteq> NUL) (s @ NUL # t) = s"
    using calculation(2) by (induction s) auto
  ultimately show "cstr h p = Some s" by (simp add: cstr_def)
qed

lemma cstr_NUL: "cstr h p = Some s \<Longrightarrow> NUL \<notin> set s"
  by (auto simp: cstr_Some_iff)

lemma cstr_fits: "cstr h p = Some s \<Longrightarrow> fits h p (Suc (length s))"
proof -
  assume "cstr h p = Some s"
  then obtain t where "bytes_at h p = s @ NUL # t" by (auto simp: cstr_Some_iff)
  then have "length (h (fst p)) - snd p = length s + Suc (length t)"
    using length_bytes_at [of h p] by simp
  then show ?thesis by (simp add: fits_def)
qed

lemma cstr_ld: "cstr h p = Some s \<Longrightarrow> ld h p = Some (case s of [] \<Rightarrow> NUL | c # _ \<Rightarrow> c)"
  by (auto simp: cstr_Some_iff ld_bytes_at split: list.splits)

lemma cstr_padd: "cstr h p = Some s \<Longrightarrow> k \<le> length s \<Longrightarrow> cstr h (padd p k) = Some (drop k s)"
  by (auto simp: cstr_Some_iff bytes_at_padd dest: in_set_dropD)

lemma bytes_at_put_same:
  "fits h p (length xs) \<Longrightarrow> bytes_at (put h p xs) p = xs @ drop (length xs) (bytes_at h p)"
  by (simp add: bytes_at_def put_def fits_def add.commute)

lemma bytes_at_put_other: "fst p \<noteq> fst q \<Longrightarrow> bytes_at (put h p xs) q = bytes_at h q"
  by (simp add: bytes_at_def)

lemma bytes_at_put_below:
  assumes "fits h p (length xs)" and "fst p = fst q" and "snd p + length xs \<le> snd q"
  shows "bytes_at (put h p xs) q = bytes_at h q"
  using assms by (simp add: bytes_at_def put_def fits_def add.commute)

lemma cstr_cong: "bytes_at h p = bytes_at h' p \<Longrightarrow> cstr h p = cstr h' p"
  by (simp add: cstr_def)

lemma cstr_put_same [cmem_simps]:
  "fits h p (Suc (length xs)) \<Longrightarrow> NUL \<notin> set xs \<Longrightarrow> cstr (put h p (xs @ [NUL])) p = Some xs"
  by (auto simp: cstr_Some_iff bytes_at_put_same)

text \<open>Writing before or beside a string does not change it.\<close>

definition apart :: "ptr \<Rightarrow> nat \<Rightarrow> ptr \<Rightarrow> bool" where
  "apart p n q \<longleftrightarrow> fst p \<noteq> fst q \<or> snd p + n \<le> snd q"

lemma cstr_put_apart [cmem_simps]:
  assumes "fits h p (length xs)" and "apart p (length xs) q"
  shows "cstr (put h p xs) q = cstr h q"
proof (cases "fst p = fst q")
  case True
  then show ?thesis
    using assms by (intro cstr_cong bytes_at_put_below) (auto simp: apart_def)
next
  case False
  then show ?thesis by (intro cstr_cong bytes_at_put_other)
qed

text \<open>A NUL stored inside a string cuts it off.\<close>

lemma cstr_truncate:
  assumes "cstr h p = Some (x @ y)"
  shows "cstr (put h (padd p (length x)) [NUL]) p = Some x"
proof -
  obtain t where t: "bytes_at h p = x @ y @ NUL # t" and N: "NUL \<notin> set x"
    using assms by (auto simp: cstr_Some_iff)
  let ?b = "h (fst p)" and ?i = "snd p"
  have d: "drop ?i ?b = x @ y @ NUL # t" using t by (simp add: bytes_at_def)
  have i: "?i \<le> length ?b" using cstr_fits [OF assms] by (simp add: fits_def)
  have "take (?i + length x) ?b = take ?i ?b @ x" using d i by (simp add: take_add)
  then have "bytes_at (put h (padd p (length x)) [NUL]) p
      = x @ NUL # drop (?i + length x + 1) ?b"
    using i by (simp add: bytes_at_def put_def)
  then show ?thesis using N by (auto simp: cstr_Some_iff)
qed

lemma cstr_object: "NUL \<notin> set s \<Longrightarrow> h ob = s @ NUL # r \<Longrightarrow> cstr h (ob, 0) = Some s"
  by (auto simp: cstr_Some_iff bytes_at_def)

lemma pdec_padd_Suc: "pdec (padd p (Suc k)) = Some (padd p k)"
  by (cases p) simp

lemma ld_cstr_at: "cstr h p = Some s \<Longrightarrow> k < length s \<Longrightarrow> ld h (padd p k) = Some (s ! k)"
  using cstr_ld [OF cstr_padd, of h p s k] by (cases "drop k s") (auto simp: nth_via_drop)

lemma ld_put_below:
  "fits h q (length xs) \<Longrightarrow> fst p \<noteq> fst q \<or> snd p < snd q \<Longrightarrow> ld (put h q xs) p = ld h p"
  by (cases p; cases q) (auto simp: put_def fits_def nth_append)

lemma ld_at_nat [simp]: "ld_at h p (int k) = ld h (padd p k)"
  by (cases p) (simp add: nat_int_add)

lemma st_at_nat [simp]: "st_at h p (int k) c = st h (padd p k) c"
  by (cases p) (simp add: nat_int_add)

lemma ld_at_0 [simp]: "ld_at h p 0 = ld h p"
  by (cases p) simp

lemma st_at_0 [simp]: "st_at h p 0 c = st h p c"
  by (cases p) simp

lemma ld_at_nonneg: "ld_at h p k = Some c \<Longrightarrow> 0 \<le> int (snd p) + k"
  by (cases p) (simp split: if_splits)

text \<open>Copying upwards is correct when the target does not lie behind the source.\<close>

definition upward :: "ptr \<Rightarrow> ptr \<Rightarrow> bool" where
  "upward d s \<longleftrightarrow> fst d \<noteq> fst s \<or> snd d \<le> snd s"

lemma upward_padd [simp]: "upward (padd d k) (padd s k) \<longleftrightarrow> upward d s"
  by (simp add: upward_def)

lemma upward_right: "upward d s \<Longrightarrow> upward d (padd s k)"
  by (auto simp: upward_def)

lemma nat_diff_Suc: "b \<le> a \<Longrightarrow> nat (int a - int b + 1) = Suc (a - b)"
  by simp

lemma bytes_at_put_upward:
  assumes "upward d s" and "fits h d 1"
  shows "bytes_at (put h d [c]) (padd s 1) = bytes_at h (padd s 1)"
proof (cases "fst d = fst s")
  case True
  then show ?thesis
    using assms by (intro bytes_at_put_below) (auto simp: upward_def)
next
  case False
  then show ?thesis by (intro bytes_at_put_other) simp
qed

section \<open>The interface of a bounded string copy\<close>

text \<open>
  What the path functions rely on when they copy a part of their argument into the result
  buffer: of a string at least as long as the copied part at most \<open>n - 1\<close> characters and a
  terminator are written, nothing else, also when source and target overlap with the target in
  front.
\<close>

locale bounded_copy =
  fixes copy :: "store \<Rightarrow> ptr \<Rightarrow> ptr \<Rightarrow> nat \<Rightarrow> (store \<times> nat) option"
  assumes copy_put:
    "cstr h s = Some x \<Longrightarrow> upward d s \<Longrightarrow> 0 < n \<Longrightarrow> fits h d (min n (Suc (length x))) \<Longrightarrow>
     \<exists>r. copy h d s n = Some (put h d (take (n - 1) x @ [NUL]), r)"
begin

lemma copy_part:
  assumes "cstr h s = Some x" and "upward d (padd s i)" and "i + k \<le> length x" and "0 < sz"
    and "fits h d (min (Suc k) sz)"
  shows "\<exists>h' r. copy h d (padd s i) (min (Suc k) sz) = Some (h', r)
    \<and> cstr h' d = Some (take (sz - 1) (take k (drop i x)))
    \<and> (\<forall>ob. ob \<noteq> fst d \<longrightarrow> h' ob = h ob)"
proof -
  let ?n = "min (Suc k) sz" and ?y = "drop i x"
  have y: "cstr h (padd s i) = Some ?y" using cstr_padd [OF assms(1)] assms(3) by simp
  have le: "?n - 1 \<le> length ?y" using assms(3) by simp
  have "fits h d (min ?n (Suc (length ?y)))" using assms(5) by (rule fits_mono) (auto simp: min_def)
  then obtain r where r: "copy h d (padd s i) ?n = Some (put h d (take (?n - 1) ?y @ [NUL]), r)"
    using copy_put [OF y assms(2), of ?n] assms(4) by auto
  have "fits h d (Suc (length (take (?n - 1) ?y)))"
    using assms(4,5) by (rule_tac fits_mono) auto
  then have "cstr (put h d (take (?n - 1) ?y @ [NUL])) d = Some (take (?n - 1) ?y)"
    using cstr_NUL [OF y] by (intro cstr_put_same) (auto dest: in_set_takeD)
  moreover have "take (?n - 1) ?y = take (sz - 1) (take k ?y)"
    using assms(4) by (cases sz) (simp_all add: min.commute)
  ultimately show ?thesis using r by auto
qed

end

section \<open>Read-only strings\<close>

text \<open>\<open>*p\<close> for a pointer given as the rest of the string.\<close>

fun deref :: "string \<Rightarrow> char" where
  "deref [] = NUL"
| "deref (c # _) = c"

lemma deref_drop: "n < length s \<Longrightarrow> deref (drop n s) = s ! n"
  by (simp add: Cons_nth_drop_Suc [symmetric])

text \<open>\<open>p[k]\<close>: reading behind the terminator is \<open>None\<close>.\<close>

definition sat :: "string \<Rightarrow> nat \<Rightarrow> char option" where
  "sat s k = (if k \<le> length s then Some (deref (drop k s)) else None)"

text \<open>\<open>strnicmp(s, t, n) == 0\<close>.\<close>

fun strnicmp_eq :: "string \<Rightarrow> string \<Rightarrow> nat \<Rightarrow> bool" where
  "strnicmp_eq s t 0 = True"
| "strnicmp_eq [] t (Suc n) = (t = [])"
| "strnicmp_eq (c # s) [] (Suc n) = False"
| "strnicmp_eq (c # s) (d # t) (Suc n) = (toupper c = toupper d \<and> strnicmp_eq s t n)"

lemma strnicmp_eq_nth:
  "strnicmp_eq s t n \<Longrightarrow> i < n \<Longrightarrow> i < length t \<Longrightarrow> i < length s \<and> toupper (s ! i) = toupper (t ! i)"
proof (induction s t n arbitrary: i rule: strnicmp_eq.induct)
  case (4 c s d t n)
  then show ?case by (cases i) auto
qed auto

definition starts_with :: "string \<Rightarrow> string \<Rightarrow> bool" where
  "starts_with t s \<longleftrightarrow> strnicmp_eq s t (length t)"

lemma starts_with_iff:
  "starts_with t s \<longleftrightarrow> map toupper (take (length t) s) = map toupper t"
proof (induction t arbitrary: s)
  case Nil
  then show ?case by (simp add: starts_with_def)
next
  case (Cons c t)
  then show ?case by (cases s) (auto simp: starts_with_def)
qed

lemma starts_with_length: "starts_with t s \<Longrightarrow> length t \<le> length s"
proof -
  assume "starts_with t s"
  then have "length (map toupper (take (length t) s)) = length (map toupper t)"
    by (simp add: starts_with_iff)
  then show ?thesis by simp
qed

text \<open>\<open>strchr\<close>: the offset of the first occurrence; the terminator itself can be found.\<close>

fun strchr :: "string \<Rightarrow> char \<Rightarrow> nat option" where
  "strchr [] c = (if c = NUL then Some 0 else None)"
| "strchr (d # s) c = (if d = c then Some 0 else map_option Suc (strchr s c))"

lemma strchr_Some: "strchr s c = Some k \<Longrightarrow> k \<le> length s \<and> deref (drop k s) = c"
  by (induction s arbitrary: k) (auto split: if_splits)

lemma strchr_None: "strchr s c = None \<longleftrightarrow> c \<noteq> NUL \<and> c \<notin> set s"
  by (induction s) auto

lemma strchr_first: "strchr s c = Some k \<Longrightarrow> c \<notin> set (take k s)"
  by (induction s arbitrary: k) (auto split: if_splits)

end
