(* ===== verification/StrUtils.thy ===== *)
theory StrUtils
  imports CPrelude
begin

text \<open>
  The string helpers of \<^verbatim>\<open>src/utils\<close>: \<^verbatim>\<open>strnlen.c\<close>, \<^verbatim>\<open>strlcpy.c\<close>, \<^verbatim>\<open>strlcat.c\<close>, \<^verbatim>\<open>strnchr.c\<close>,
  \<^verbatim>\<open>strchomp.c\<close>, \<^verbatim>\<open>memcmpcpy.c\<close> and \<^verbatim>\<open>strutils.c\<close>. Each loop is a recursive function on the store;
  a loop variable that walks through memory is a pointer, and \<open>None\<close> is an access outside the
  object. The specification of each routine is an equation for the resulting store.
\<close>

section \<open>Loops over memory\<close>

text \<open>\<open>while (P(*p)) ++p;\<close> over the bytes behind \<open>p\<close>: the number of steps.\<close>

fun scan :: "(char \<Rightarrow> bool) \<Rightarrow> char list \<Rightarrow> nat option" where
  "scan P [] = None"
| "scan P (c # b) = (if P c then map_option Suc (scan P b) else Some 0)"

lemma scan_append_NUL:
  "\<not> P NUL \<Longrightarrow> scan P (s @ NUL # t) = Some (length (takeWhile P s))"
  by (induction s) auto

lemma scan_string:
  assumes "cstr h p = Some s" and "\<not> P NUL"
  shows "scan P (bytes_at h p) = Some (length (takeWhile P s))"
  using assms by (auto simp: cstr_Some_iff scan_append_NUL)

text \<open>\<open>for (e = 0; e < n; e++) d[e] = s[e];\<close>\<close>

fun copy_up :: "store \<Rightarrow> ptr \<Rightarrow> ptr \<Rightarrow> nat \<Rightarrow> store option" where
  "copy_up h d s 0 = Some h"
| "copy_up h d s (Suc n) =
     do { c \<leftarrow> ld h s; h' \<leftarrow> st h d c; copy_up h' (padd d 1) (padd s 1) n }"

lemma copy_up_put:
  "upward d s \<Longrightarrow> fits h d n \<Longrightarrow> n \<le> length (bytes_at h s) \<Longrightarrow>
   copy_up h d s n = Some (put h d (take n (bytes_at h s)))"
proof (induction n arbitrary: h d s)
  case 0
  then show ?case by simp
next
  case (Suc n)
  then obtain c t where ct: "bytes_at h s = c # t" by (cases "bytes_at h s") auto
  have f1: "fits h d 1" using Suc.prems(2) by (rule fits_mono) simp
  let ?h = "put h d [c]"
  have rest: "bytes_at ?h (padd s 1) = t"
    using bytes_at_put_upward [OF Suc.prems(1) f1, of c] ct by (simp add: bytes_at_padd)
  have "copy_up ?h (padd d 1) (padd s 1) n = Some (put ?h (padd d 1) (take n t))"
    using Suc.IH [of "padd d 1" "padd s 1" ?h] Suc.prems rest f1 ct fits_padd [of h d 1 n]
    by simp
  moreover have "put ?h (padd d 1) (take n t) = put h d (c # take n t)"
    using Suc.prems ct by (intro put_Cons) (auto elim: fits_mono)
  ultimately show ?case
    using ct by (simp add: bytes_at_ld [OF ct] st_put [OF f1])
qed

section \<open>strnlen\<close>

fun strnlen :: "store \<Rightarrow> ptr \<Rightarrow> nat \<Rightarrow> nat option" where
  "strnlen h cp 0 = Some 0"
| "strnlen h cp (Suc n) =
     do { c \<leftarrow> ld h cp;
          if c = NUL then Some 0 else map_option Suc (strnlen h (padd cp 1) n) }"

lemma strnlen_bytes:
  "strnlen h cp n =
     (if n \<le> length (bytes_at h cp) \<or> NUL \<in> set (bytes_at h cp)
      then Some (length (takeWhile (\<lambda>c. c \<noteq> NUL) (take n (bytes_at h cp)))) else None)"
proof (induction n arbitrary: cp)
  case 0
  then show ?case by simp
next
  case (Suc n)
  show ?case
  proof (cases "bytes_at h cp")
    case Nil
    then show ?thesis by (simp add: ld_bytes_at)
  next
    case (Cons c t)
    then have "bytes_at h (padd cp 1) = t" by (simp add: bytes_at_padd)
    then show ?thesis
      using Suc.IH [of "padd cp 1"] Cons by (simp add: ld_bytes_at)
  qed
qed

lemma strnlen_cstr: "cstr h p = Some s \<Longrightarrow> strnlen h p n = Some (min n (length s))"
proof -
  assume "cstr h p = Some s"
  then obtain t where t: "bytes_at h p = s @ NUL # t" and s: "NUL \<notin> set s"
    by (auto simp: cstr_Some_iff)
  have "takeWhile (\<lambda>c. c \<noteq> NUL) (take n (s @ NUL # t)) = take n s"
  proof (cases "n \<le> length s")
    case True
    then show ?thesis using s by (auto simp: takeWhile_eq_all_conv dest: in_set_takeD)
  next
    case False
    then obtain m where "n - length s = Suc m" by (cases "n - length s") auto
    then show ?thesis using s False by (simp add: takeWhile_append2 takeWhile_tail) (metis takeWhile_append2 takeWhile.simps(2) append_Nil2)
  qed
  then show ?thesis by (simp add: strnlen_bytes t min_def)
qed

section \<open>strlcpy\<close>

text \<open>\<open>while (--n != 0) { if ((*d++ = *s++) == '\0') break; }\<close>, entered with \<open>n \<noteq> 0\<close>; the
  result is the store, both pointers and \<open>n\<close> behind the loop.\<close>

fun strlcpy_loop :: "store \<Rightarrow> ptr \<Rightarrow> ptr \<Rightarrow> nat \<Rightarrow> (store \<times> ptr \<times> ptr \<times> nat) option" where
  "strlcpy_loop h d s (Suc (Suc m)) =
     do { c \<leftarrow> ld h s;
          h' \<leftarrow> st h d c;
          if c = NUL then Some (h', padd d 1, padd s 1, Suc m)
          else strlcpy_loop h' (padd d 1) (padd s 1) (Suc m) }"
| "strlcpy_loop h d s _ = Some (h, d, s, 0)"

definition strlcpy :: "store \<Rightarrow> ptr \<Rightarrow> ptr \<Rightarrow> nat \<Rightarrow> (store \<times> nat) option" where
  "strlcpy h dst src siz =
     do { (h1, d, s, n) \<leftarrow> (if siz \<noteq> 0 then strlcpy_loop h dst src siz else Some (h, dst, src, siz));
          if n = 0 then
            do { h2 \<leftarrow> (if siz \<noteq> 0 then st h1 d NUL else Some h1);
                 r \<leftarrow> cstr h2 s;  \<comment> \<open>\<open>while (*s++);\<close>\<close>
                 Some (h2, snd s + length r + 1 - snd src - 1) }
          else Some (h1, snd s - snd src - 1) }"

lemma cstr_put_upward:
  assumes "cstr h s = Some (c # x)" and "upward d s" and "fits h d 1"
  shows "cstr (put h d [b]) (padd s 1) = Some x"
proof -
  have "cstr (put h d [b]) (padd s 1) = cstr h (padd s 1)"
    by (intro cstr_cong bytes_at_put_upward assms)
  then show ?thesis using cstr_padd [OF assms(1), of 1] by simp
qed

lemma strlcpy_loop_whole:
  "cstr h s = Some x \<Longrightarrow> upward d s \<Longrightarrow> fits h d (Suc (length x)) \<Longrightarrow> length x < m \<Longrightarrow>
   strlcpy_loop h d s (Suc m)
     = Some (put h d (x @ [NUL]), padd d (Suc (length x)), padd s (Suc (length x)), m - length x)"
proof (induction x arbitrary: h d s m)
  case Nil
  then obtain k where "m = Suc k" by (cases m) auto
  then show ?case using Nil cstr_ld [OF Nil.prems(1)] by (simp add: st_put)
next
  case (Cons c x)
  then obtain k where m: "m = Suc k" by (cases m) auto
  have f1: "fits h d 1" using Cons.prems(3) by (rule fits_mono) simp
  have f: "fits h d (1 + Suc (length x))" using Cons.prems(3) by simp
  have cN: "c \<noteq> NUL" using cstr_NUL [OF Cons.prems(1)] by auto
  have "strlcpy_loop (put h d [c]) (padd d 1) (padd s 1) (Suc k)
      = Some (put (put h d [c]) (padd d 1) (x @ [NUL]), padd (padd d 1) (Suc (length x)),
              padd (padd s 1) (Suc (length x)), k - length x)"
    using Cons.prems m f1 fits_padd [OF f]
    by (intro Cons.IH cstr_put_upward [OF Cons.prems(1,2)]) simp_all
  moreover have "put (put h d [c]) (padd d 1) (x @ [NUL]) = put h d (c # x @ [NUL])"
    using f by (intro put_Cons) simp
  ultimately show ?case
    using cstr_ld [OF Cons.prems(1)] cN m by (simp add: st_put [OF f1])
qed

lemma strlcpy_loop_truncated:
  "cstr h s = Some x \<Longrightarrow> upward d s \<Longrightarrow> fits h d m \<Longrightarrow> m \<le> length x \<Longrightarrow>
   strlcpy_loop h d s (Suc m) = Some (put h d (take m x), padd d m, padd s m, 0)"
proof (induction m arbitrary: h d s x)
  case 0
  then show ?case by simp
next
  case (Suc m)
  then obtain c y where x: "x = c # y" by (cases x) auto
  have f1: "fits h d 1" using Suc.prems(3) by (rule fits_mono) simp
  have f: "fits h d (1 + m)" using Suc.prems(3) by simp
  have cN: "c \<noteq> NUL" using cstr_NUL [OF Suc.prems(1)] x by auto
  have "strlcpy_loop (put h d [c]) (padd d 1) (padd s 1) (Suc m)
      = Some (put (put h d [c]) (padd d 1) (take m y), padd (padd d 1) m, padd (padd s 1) m, 0)"
    using Suc.prems x f1 fits_padd [OF f]
    by (intro Suc.IH [of _ _ y] cstr_put_upward [OF Suc.prems(1)[unfolded x]]) simp_all
  moreover have "put (put h d [c]) (padd d 1) (take m y) = put h d (c # take m y)"
    using f by (intro put_Cons) (auto elim: fits_mono)
  ultimately show ?case
    using cstr_ld [OF Suc.prems(1)] cN x by (simp add: st_put [OF f1])
qed

text \<open>The source may share its object with the target as long as it does not start before it;
  only the returned length of a truncated copy onto itself is then that of the truncated string.\<close>

lemma strlcpy_put:
  assumes "cstr h s = Some x" and "upward d s" and "0 < n" and "fits h d (min n (Suc (length x)))"
  shows "\<exists>r. strlcpy h d s n = Some (put h d (take (n - 1) x @ [NUL]), r)
           \<and> (d \<noteq> s \<or> length x < n \<longrightarrow> r = length x)"
proof (cases "Suc (length x) < n")
  case True
  then obtain m where n: "n = Suc m" "length x < m" by (cases n) auto
  have "strlcpy_loop h d s n = Some (put h d (x @ [NUL]), padd d (Suc (length x)),
      padd s (Suc (length x)), m - length x)"
    using n assms by (simp add: strlcpy_loop_whole)
  then show ?thesis using n by (simp add: strlcpy_def)
next
  case False
  with assms(3) obtain m where n: "n = Suc m" and mx: "m \<le> length x" by (cases n) auto
  have fm: "fits h d (Suc m)" using assms(4) n mx by (simp add: min_def split: if_splits)
  then have fm': "fits h d m" by (rule fits_mono) simp
  have loop: "strlcpy_loop h d s n = Some (put h d (take m x), padd d m, padd s m, 0)"
    using n assms mx fm' by (simp add: strlcpy_loop_truncated)
  let ?h1 = "put h d (take m x)" and ?h2 = "put h d (take m x @ [NUL])"
  have f1: "fits ?h1 (padd d m) 1"
    using fm fm' mx fits_padd [of h d m 1] by (simp add: min_absorb2)
  have h2: "st ?h1 (padd d m) NUL = Some ?h2"
    using put_append [of h d "take m x" "[NUL]"] fm mx st_put [OF f1, of NUL] by (simp add: min_absorb2)
  have "\<exists>r. cstr ?h2 (padd s m) = Some r \<and> (d \<noteq> s \<or> length x < n \<longrightarrow> length r = length x - m)"
  proof (cases "d = s")
    case True
    obtain t where t: "bytes_at h s = x @ NUL # t" using assms(1) by (auto simp: cstr_Some_iff)
    have "bytes_at ?h2 (padd s m) = NUL # drop (Suc m) (bytes_at h s)"
      using True fm mx by (simp add: bytes_at_padd bytes_at_put_same min_absorb2)
    then have "cstr ?h2 (padd s m) = Some []" by (simp add: cstr_Some_iff)
    then show ?thesis using True n mx by auto
  next
    case False
    have "apart d (length (take m x @ [NUL])) (padd s m)"
      using False assms(2) mx by (cases d; cases s) (auto simp: apart_def upward_def)
    then have "cstr ?h2 (padd s m) = cstr h (padd s m)"
      using fm mx by (intro cstr_put_apart) (auto simp: min_absorb2)
    then show ?thesis using cstr_padd [OF assms(1) mx] by simp
  qed
  then obtain r where r: "cstr ?h2 (padd s m) = Some r"
    "d \<noteq> s \<or> length x < n \<longrightarrow> length r = length x - m" by blast
  have "strlcpy h d s n = Some (?h2, m + length r)"
    using n loop h2 r(1) by (simp add: strlcpy_def)
  then show ?thesis using r(2) mx n by auto
qed

lemma strlcpy_0: "cstr h s = Some x \<Longrightarrow> strlcpy h d s 0 = Some (h, length x)"
  by (simp add: strlcpy_def)

section \<open>strlcat\<close>

text \<open>The first loop, \<open>while (n-- != 0 && *d != '\0') d++;\<close>, yields \<open>dlen\<close>; it is the loop of
  \<open>strnlen\<close>. The second loop advances \<open>s\<close> to its end and \<open>d\<close> while \<open>n \<noteq> 1\<close>; the result holds the
  final \<open>d\<close> and the number of steps of \<open>s\<close>.\<close>

lemma st_length: "st h p c = Some h' \<Longrightarrow> length (h' ob) = length (h ob)"
  by (cases p) (auto split: if_splits)

function strlcat_loop :: "store \<Rightarrow> ptr \<Rightarrow> ptr \<Rightarrow> nat \<Rightarrow> nat \<Rightarrow> (store \<times> ptr \<times> nat) option" where
  "strlcat_loop h d s n k =
     (case ld h s of
        None \<Rightarrow> None
      | Some c \<Rightarrow>
          if c = NUL then Some (h, d, k)
          else if n \<noteq> 1 then
            (case st h d c of
               None \<Rightarrow> None
             | Some h' \<Rightarrow> strlcat_loop h' (padd d 1) (padd s 1) (n - 1) (Suc k))
          else strlcat_loop h d (padd s 1) n (Suc k))"
  by pat_completeness auto
termination
  by (relation "measure (\<lambda>(h, d, s, n, k). length (h (fst s)) - snd s)")
    (auto simp: st_length simp del: st.simps ld.simps dest!: ld_room)

declare strlcat_loop.simps [simp del]

definition strlcat :: "store \<Rightarrow> ptr \<Rightarrow> ptr \<Rightarrow> nat \<Rightarrow> (store \<times> nat) option" where
  "strlcat h dst src siz =
     do { dlen \<leftarrow> strnlen h dst siz;
          if siz - dlen = 0 then map_option (\<lambda>x. (h, dlen + length x)) (cstr h src)
          else do { (h1, d, k) \<leftarrow> strlcat_loop h (padd dst dlen) src (siz - dlen) 0;
                    h2 \<leftarrow> st h1 d NUL;
                    Some (h2, dlen + k) } }"

lemma strlcat_loop_full: \<comment> \<open>no more room: \<open>s\<close> walks to its end\<close>
  "cstr h s = Some x \<Longrightarrow> strlcat_loop h d s 1 k = Some (h, d, k + length x)"
proof (induction x arbitrary: s k)
  case Nil
  then show ?case using cstr_ld [OF Nil] by (subst strlcat_loop.simps) simp
next
  case (Cons c x)
  have "c \<noteq> NUL" using cstr_NUL [OF Cons.prems] by auto
  moreover have "cstr h (padd s 1) = Some x" using cstr_padd [OF Cons.prems, of 1] by simp
  ultimately show ?case
    using cstr_ld [OF Cons.prems] Cons.IH [of "padd s 1" "Suc k"]
    by (subst strlcat_loop.simps) simp
qed

lemma strlcat_loop_put:
  "cstr h s = Some x \<Longrightarrow> fst d \<noteq> fst s \<Longrightarrow> fits h d (min (length x) n) \<Longrightarrow>
   strlcat_loop h d s (Suc n) k
     = Some (put h d (take n x), padd d (min (length x) n), k + length x)"
proof (induction x arbitrary: h d s n k)
  case Nil
  then show ?case using cstr_ld [OF Nil.prems(1)] by (subst strlcat_loop.simps) simp
next
  case (Cons c x)
  have cN: "c \<noteq> NUL" using cstr_NUL [OF Cons.prems(1)] by auto
  have cx: "cstr h (padd s 1) = Some x" using cstr_padd [OF Cons.prems(1), of 1] by simp
  show ?case
  proof (cases n)
    case 0
    then show ?thesis
      using cstr_ld [OF Cons.prems(1)] cN strlcat_loop_full [OF cx, of d "Suc k"]
      by (subst strlcat_loop.simps) simp
  next
    case (Suc m)
    have f1: "fits h d 1" using Cons.prems(3) Suc by (auto elim: fits_mono)
    have f: "fits h d (1 + min (length x) m)" using Cons.prems(3) Suc by simp
    have "strlcat_loop (put h d [c]) (padd d 1) (padd s 1) (Suc m) (Suc k)
        = Some (put (put h d [c]) (padd d 1) (take m x), padd (padd d 1) (min (length x) m),
                Suc k + length x)"
      using Cons.IH [of "put h d [c]" "padd s 1" "padd d 1" m "Suc k"] Cons.prems f1 fits_padd [OF f]
        cstr_put_upward [OF Cons.prems(1) _ f1] upward_def
      by auto
    moreover have "put (put h d [c]) (padd d 1) (take m x) = put h d (c # take m x)"
      using f by (intro put_Cons) (auto simp: min.commute elim: fits_mono)
    ultimately show ?thesis
      using cstr_ld [OF Cons.prems(1)] cN Suc
      by (subst strlcat_loop.simps) (simp add: st_put [OF f1])
  qed
qed

lemma strlcat_put:
  assumes "cstr h d = Some x" and "cstr h s = Some y" and "fst d \<noteq> fst s"
    and "length x < n" and "fits h d (min n (Suc (length x + length y)))"
  shows "strlcat h d s n
    = Some (put h d (take (n - 1) (x @ y) @ [NUL]), length x + length y)"
proof -
  let ?e = "padd d (length x)" and ?m = "n - length x - 1"
  have e: "n - length x = Suc ?m" using assms(4) by simp
  have fe: "fits h ?e (Suc (min (length y) ?m))"
    using assms(4,5) by (intro fits_padd) (auto simp: min_def fits_def split: if_splits)
  have loop: "strlcat_loop h ?e s (n - length x) 0
      = Some (put h ?e (take ?m y), padd ?e (min (length y) ?m), length y)"
    using strlcat_loop_put [OF assms(2), of ?e ?m 0] assms(3) fits_mono [OF fe] e
    by auto
  have f0: "fits h ?e (length (take ?m y))" using fe by (rule fits_mono) simp
  have "fits (put h ?e (take ?m y)) (padd ?e (length (take ?m y))) 1"
    using f0 fe fits_padd [of h ?e "length (take ?m y)" 1] by (simp add: min.commute)
  then have "st (put h ?e (take ?m y)) (padd ?e (min (length y) ?m)) NUL
      = Some (put h ?e (take ?m y @ [NUL]))"
    using fe put_append [of h ?e "take ?m y" "[NUL]"] st_put by (simp add: min.commute)
  moreover have "put h ?e (take ?m y @ [NUL]) = put h d (x @ take ?m y @ [NUL])"
  proof -
    obtain t where t: "bytes_at h d = x @ NUL # t" using assms(1) by (auto simp: cstr_Some_iff)
    have "put h d x = h"
      using t cstr_fits [OF assms(1)]
      by (auto simp: put_def bytes_at_def fits_def fun_eq_iff intro!: nth_equalityI)
        (metis append_take_drop_id drop_drop append_eq_conv_conj add.commute)
    then show ?thesis
      using put_append [of h d x "take ?m y @ [NUL]"] fe
      by (simp add: fits_def min_def add.assoc split: if_splits)
  qed
  moreover have "take (n - 1) (x @ y) = x @ take ?m y"
    using assms(4) by simp
  ultimately show ?thesis
    using loop assms(4) strnlen_cstr [OF assms(1), of n] by (simp add: strlcat_def)
qed

section \<open>strnchr and strnrchr\<close>

fun strnchr :: "string \<Rightarrow> char \<Rightarrow> nat \<Rightarrow> nat option" where
  "strnchr s c 0 = None"
| "strnchr [] c (Suc siz) = None"
| "strnchr (d # s) c (Suc siz) = (if d = c then Some 0 else map_option Suc (strnchr s c siz))"

text \<open>The loop of \<open>strnrchr\<close> carries the offset of \<open>str\<close> and the last hit \<open>ret\<close>.\<close>

fun strnrchr_loop :: "string \<Rightarrow> char \<Rightarrow> nat \<Rightarrow> nat \<Rightarrow> nat option \<Rightarrow> nat option" where
  "strnrchr_loop s c 0 k ret = ret"
| "strnrchr_loop [] c (Suc siz) k ret = ret"
| "strnrchr_loop (d # s) c (Suc siz) k ret =
     strnrchr_loop s c siz (Suc k) (if d = c then Some k else ret)"

definition strnrchr :: "string \<Rightarrow> char \<Rightarrow> nat \<Rightarrow> nat option" where
  "strnrchr s c siz = strnrchr_loop s c siz 0 None"

lemma strnchr_Some_iff:
  "strnchr s c n = Some k \<longleftrightarrow> k < n \<and> k < length s \<and> s ! k = c \<and> c \<notin> set (take k s)"
proof (induction s c n arbitrary: k rule: strnchr.induct)
  case (3 d s c n)
  then show ?case by (cases k) auto
qed auto

lemma strnchr_None_iff: "strnchr s c n = None \<longleftrightarrow> c \<notin> set (take n s)"
  by (induction s c n rule: strnchr.induct) auto

lemma strnrchr_loop_None: "c \<notin> set (take n s) \<Longrightarrow> strnrchr_loop s c n k ret = ret"
  by (induction s c n k ret rule: strnrchr_loop.induct) auto

lemma strnrchr_loop_Some:
  "c \<in> set (take n s) \<Longrightarrow> \<exists>j. strnrchr_loop s c n k ret = Some (k + j) \<and> j < n \<and> j < length s
     \<and> s ! j = c \<and> c \<notin> set (drop (Suc j) (take n s))"
proof (induction s c n k ret rule: strnrchr_loop.induct)
  case (3 d s c n k ret)
  show ?case
  proof (cases "c \<in> set (take n s)")
    case True
    with "3.IH" obtain j where "strnrchr_loop s c n (Suc k) (if d = c then Some k else ret) = Some (Suc k + j)"
      "j < n" "j < length s" "s ! j = c" "c \<notin> set (drop (Suc j) (take n s))" by blast
    then show ?thesis by (intro exI [of _ "Suc j"]) simp
  next
    case False
    then show ?thesis
      using "3.prems" by (intro exI [of _ 0]) (auto simp: strnrchr_loop_None)
  qed
qed auto

lemma strnrchr_last:
  "strnrchr s c n = Some k \<Longrightarrow>
   k < n \<and> k < length s \<and> s ! k = c \<and> c \<notin> set (drop (Suc k) (take n s))"
  using strnrchr_loop_Some [of c n s 0 None] strnrchr_loop_None [of c n s 0 None]
  by (cases "c \<in> set (take n s)") (auto simp: strnrchr_def)

lemma strnrchr_None_iff: "strnrchr s c n = None \<longleftrightarrow> c \<notin> set (take n s)"
  using strnrchr_loop_Some [of c n s 0 None] strnrchr_loop_None [of c n s 0 None]
  by (auto simp: strnrchr_def)

section \<open>strchomp\<close>

definition strchomp :: "store \<Rightarrow> ptr \<Rightarrow> store option" where
  "strchomp h str =
     do { s \<leftarrow> cstr h str;
          e \<leftarrow> pdec (padd str (length s));
          c \<leftarrow> ld h e;
          h1 \<leftarrow> (if c = CHR 0x0A then st h e NUL else Some h);
          e' \<leftarrow> pdec e;
          d \<leftarrow> ld h1 e';
          (if d = CHR 0x0D then st h1 e' NUL else Some h1) }"

text \<open>Of a string of at least two characters, a trailing line feed is cut off, and then a carriage
  return at the last but one position, whether or not a line feed followed it.\<close>

lemma strchomp_put:
  assumes "cstr h p = Some (s @ [a, b])"
  shows "strchomp h p = Some
    (let h1 = (if b = CHR 0x0A then put h (padd p (Suc (length s))) [NUL] else h)
     in if a = CHR 0x0D then put h1 (padd p (length s)) [NUL] else h1)"
proof -
  let ?q = "padd p (Suc (length s))" and ?r = "padd p (length s)"
  have f: "fits h p (Suc (Suc (Suc (length s))))" using cstr_fits [OF assms] by simp
  have fq: "fits h ?q 1" using f by (intro fits_padd) (auto elim: fits_mono)
  have fr: "fits h ?r 1" using f by (intro fits_padd) (auto elim: fits_mono)
  have a: "ld h ?r = Some a" using ld_cstr_at [OF assms, of "length s"] by (simp add: nth_append)
  have b: "ld h ?q = Some b" using ld_cstr_at [OF assms, of "Suc (length s)"] by (simp add: nth_append)
  have a': "ld (put h ?q [NUL]) ?r = Some a" using a fq by (subst ld_put_below) simp_all
  show ?thesis
    using a b a' fq fr by (simp add: strchomp_def assms pdec_padd_Suc st_put Let_def)
qed

section \<open>blank_strip\<close>

definition is_blank :: "char \<Rightarrow> bool" where
  "is_blank c \<longleftrightarrow> c = CHR '' '' \<or> c = CHR 0x09 \<or> c = CHR 0x0A \<or> c = CHR 0x0D"

text \<open>\<open>while (string[i] is blank) { string[i] = 0; i--; }\<close>\<close>

function blank_trim :: "store \<Rightarrow> ptr \<Rightarrow> int \<Rightarrow> store option" where
  "blank_trim h p i =
     (case ld_at h p i of
        None \<Rightarrow> None
      | Some c \<Rightarrow>
          if is_blank c then
            (case st_at h p i NUL of None \<Rightarrow> None | Some h' \<Rightarrow> blank_trim h' p (i - 1))
          else Some h)"
  by pat_completeness auto
termination
  by (relation "measure (\<lambda>(h, p, i). nat (int (snd p) + i + 1))")
    (auto simp del: ld_at.simps st_at.simps dest!: ld_at_nonneg)

declare blank_trim.simps [simp del]

definition blank_strip :: "store \<Rightarrow> ptr \<Rightarrow> store option" where
  "blank_strip h string =
     do { n \<leftarrow> scan is_blank (bytes_at h string);
          let pos = padd string n;
          s \<leftarrow> cstr h pos;
          let i = length s + 1;
          h1 \<leftarrow> (if pos \<noteq> string then memmove h string pos i else Some h);
          blank_trim h1 string (int i - 2) }"

definition strip_by :: "(char \<Rightarrow> bool) \<Rightarrow> string \<Rightarrow> string" where
  "strip_by P s = rev (dropWhile P (rev (dropWhile P s)))"

lemma not_blank_NUL [simp]: "\<not> is_blank NUL"
  by (simp add: is_blank_def)

lemma blank_trim_cstr:
  "cstr h p = Some (u @ c # v) \<Longrightarrow> \<not> is_blank c \<Longrightarrow> \<forall>b \<in> set v. is_blank b \<Longrightarrow>
   \<exists>h'. blank_trim h p (int (length u + length v)) = Some h' \<and> cstr h' p = Some (u @ [c])
     \<and> (\<forall>ob. ob \<noteq> fst p \<longrightarrow> h' ob = h ob)"
proof (induction v arbitrary: h rule: rev_induct)
  case Nil
  have "ld h (padd p (length u)) = Some c"
    using ld_cstr_at [OF Nil(1), of "length u"] by simp
  then show ?case
    using Nil by (subst blank_trim.simps) simp
next
  case (snoc b v)
  let ?k = "length u + Suc (length v)"
  let ?h = "put h (padd p ?k) [NUL]"
  have b: "ld h (padd p ?k) = Some b"
    using ld_cstr_at [OF snoc.prems(1), of ?k] by (simp add: nth_append)
  have "fits h p (?k + 1 + 1)" using cstr_fits [OF snoc.prems(1)] by simp
  then have f: "fits h (padd p ?k) 1" by (intro fits_padd) (auto elim: fits_mono)
  have "cstr ?h p = Some (u @ c # v)"
    using cstr_truncate [of h p "u @ c # v" "[b]"] snoc.prems(1) by simp
  then obtain h' where h': "blank_trim ?h p (int (length u + length v)) = Some h'"
    "cstr h' p = Some (u @ [c])" "\<forall>ob. ob \<noteq> fst p \<longrightarrow> h' ob = ?h ob"
    using snoc.IH [of ?h] snoc.prems(2,3) by auto
  have "blank_trim h p (int ?k) = Some h'"
    using b f h'(1) snoc.prems(3) by (subst blank_trim.simps) (simp add: st_put del: of_nat_add of_nat_Suc, simp)
  then show ?case using h' by auto
qed

lemma memmove_down:
  assumes "cstr h p = Some s" and "n \<le> length s"
  shows "\<exists>h'. memmove h p (padd p n) (length s - n + 1) = Some h'
    \<and> cstr h' p = Some (drop n s) \<and> (\<forall>ob. ob \<noteq> fst p \<longrightarrow> h' ob = h ob)"
proof -
  obtain t where t: "bytes_at h p = s @ NUL # t" and N: "NUL \<notin> set s"
    using assms(1) by (auto simp: cstr_Some_iff)
  let ?x = "drop n s @ [NUL]"
  have f: "fits h p (Suc (length s))" by (rule cstr_fits [OF assms(1)])
  then have "blk_ld h (padd p n) (length s - n + 1) = Some ?x"
    using assms(2) by (simp add: blk_ld_def fits_def bytes_at_padd t)
  moreover have fx: "fits h p (length ?x)" using f by (rule fits_mono) simp
  ultimately have "memmove h p (padd p n) (length s - n + 1) = Some (put h p ?x)"
    by (simp add: memmove_def blk_st_def fits_def)
  moreover have "cstr (put h p ?x) p = Some (drop n s)"
    using fx N by (intro cstr_put_same) (auto dest: in_set_dropD)
  ultimately show ?thesis by simp
qed

lemma strip_by_split:
  assumes "\<not> (\<forall>c \<in> set s. P c)"
  obtains u c v where "dropWhile P s = u @ c # v" "\<not> P c" "\<forall>b \<in> set v. P b" "strip_by P s = u @ [c]"
proof -
  let ?d = "dropWhile P s"
  let ?e = "dropWhile P (rev ?d)"
  have "?d \<noteq> []" using assms by auto
  then have "\<not> P (hd ?d)" "hd ?d \<in> set (rev ?d)" by (auto simp: hd_dropWhile)
  then have "?e \<noteq> []" by (metis dropWhile_eq_Nil_conv)
  then obtain c w where e: "?e = c # w" by (cases ?e) auto
  then have c: "\<not> P c" using hd_dropWhile [of P "rev ?d"] by simp
  obtain t where r: "rev ?d = t @ c # w" and t: "\<forall>b \<in> set t. P b"
    using that e takeWhile_dropWhile_id [of P "rev ?d"] by (metis set_takeWhileD)
  have "?d = rev (t @ c # w)" by (simp only: r [symmetric] rev_rev_ident)
  then have "?d = rev w @ c # rev t" by simp
  moreover have "\<forall>b \<in> set (rev t). P b" using t by simp
  ultimately show ?thesis using that c e by (simp add: strip_by_def)
qed

lemma blank_strip_cstr:
  assumes "cstr h p = Some s" and "\<exists>c \<in> set s. \<not> is_blank c"
  shows "\<exists>h'. blank_strip h p = Some h' \<and> cstr h' p = Some (strip_by is_blank s)
     \<and> (\<forall>ob. ob \<noteq> fst p \<longrightarrow> h' ob = h ob)"
proof -
  let ?n = "length (takeWhile is_blank s)" and ?d = "dropWhile is_blank s"
  obtain u c v where ucv: "?d = u @ c # v" "\<not> is_blank c" "\<forall>b \<in> set v. is_blank b"
    "strip_by is_blank s = u @ [c]"
    using strip_by_split [of s is_blank] assms(2) by blast
  have le: "?n \<le> length s" by (rule length_takeWhile_le)
  have d: "?d = drop ?n s" by (rule dropWhile_eq_drop)
  have ld: "length ?d = length s - ?n" unfolding d by simp
  have sc: "scan is_blank (bytes_at h p) = Some ?n" using scan_string [OF assms(1)] by simp
  have cpos: "cstr h (padd p ?n) = Some ?d" using cstr_padd [OF assms(1) le] d by simp
  obtain h1 where h1: "(if padd p ?n \<noteq> p then memmove h p (padd p ?n) (length ?d + 1) else Some h) = Some h1"
    "cstr h1 p = Some ?d" "\<forall>ob. ob \<noteq> fst p \<longrightarrow> h1 ob = h ob"
  proof (cases "padd p ?n = p")
    case True
    then show ?thesis using that cpos by simp
  next
    case False
    then show ?thesis using that memmove_down [OF assms(1) le] ld d by auto
  qed
  have "int (length ?d + 1) - 2 = int (length u + length v)" using ucv(1) by simp
  then show ?thesis
    using blank_trim_cstr [of h1 p u c v] h1 ucv sc cpos by (auto simp: blank_strip_def Let_def)
qed

lemma blank_strip_all_blank:
  assumes "cstr h p = Some s" and "\<forall>c \<in> set s. is_blank c" and "snd p = 0"
  shows "blank_strip h p = None"
proof -
  have tw: "takeWhile is_blank s = s" using assms(2) by (simp add: takeWhile_eq_all_conv)
  have "scan is_blank (bytes_at h p) = Some (length s)"
    using scan_string [OF assms(1), of is_blank] by (simp add: tw)
  moreover have "cstr h (padd p (length s)) = Some []" using cstr_padd [OF assms(1), of "length s"] by simp
  moreover have "blank_trim h1 p (-1) = None" for h1
    using assms(3) by (cases p) (subst blank_trim.simps, simp)
  ultimately show ?thesis by (simp add: blank_strip_def Let_def bind_eq_None_conv)
qed

section \<open>control_strip\<close>

text \<open>\<open>s\<close> reads and \<open>t\<close> writes in the same string.\<close>

lemma scan_step: "P c \<Longrightarrow> bytes_at h p = c # b \<Longrightarrow> scan P (bytes_at h p) = Some k \<Longrightarrow> 0 < k"
  by auto

function control_strip_loop :: "store \<Rightarrow> ptr \<Rightarrow> ptr \<Rightarrow> store option" where
  "control_strip_loop h s t =
     (case ld h s of
        None \<Rightarrow> None
      | Some c \<Rightarrow>
          if c = NUL then st h t NUL
          else if iscntrl c then
            (case scan (\<lambda>d. d \<noteq> NUL \<and> iscntrl d) (bytes_at h (padd s 1)) of
               None \<Rightarrow> None
             | Some k \<Rightarrow>
                 (case ld h (padd s (Suc k)) of
                    None \<Rightarrow> None
                  | Some d \<Rightarrow>
                      if d \<noteq> NUL then
                        (case st h t (CHR '' '') of
                           None \<Rightarrow> None
                         | Some h' \<Rightarrow> control_strip_loop h' (padd s (Suc k)) (padd t 1))
                      else control_strip_loop h (padd s (Suc k)) t))
          else
            (case st h t c of
               None \<Rightarrow> None
             | Some h' \<Rightarrow> control_strip_loop h' (padd s 1) (padd t 1)))"
  by pat_completeness auto
termination
  by (relation "measure (\<lambda>(h, s, t). length (h (fst s)) - snd s)")
    (auto simp: st_length simp del: st.simps ld.simps dest!: ld_room)

declare control_strip_loop.simps [simp del]

definition control_strip :: "store \<Rightarrow> ptr \<Rightarrow> store option" where
  "control_strip h string = control_strip_loop h string string"

text \<open>What it computes: every run of control characters becomes one space, a run at the end
  nothing.\<close>

function squeeze :: "string \<Rightarrow> string" where
  "squeeze [] = []"
| "squeeze (c # s) =
     (if iscntrl c then
        (if dropWhile iscntrl s = [] then [] else CHR '' '' # squeeze (dropWhile iscntrl s))
      else c # squeeze s)"
  by pat_completeness auto
termination
  by (relation "measure length") (auto intro: le_imp_less_Suc length_dropWhile_le)

lemma length_squeeze: "length (squeeze s) \<le> length s"
proof (induction s rule: squeeze.induct)
  case (2 c s)
  then show ?case
    using length_dropWhile_le [of iscntrl s] by (auto intro: le_trans)
qed simp

lemma space_not_cntrl [simp]: "\<not> iscntrl (CHR '' '')"
  by (simp add: ctype_defs)

lemma NUL_cntrl [simp]: "iscntrl NUL"
  by (simp add: ctype_defs)

lemma squeeze_clean: "d \<in> set (squeeze s) \<Longrightarrow> \<not> iscntrl d"
proof (induction s rule: squeeze.induct)
  case (2 c s)
  show ?case
  proof (cases "iscntrl c")
    case True
    show ?thesis
    proof (cases "dropWhile iscntrl s = []")
      case False
      with True "2.prems" have "d = CHR '' '' \<or> d \<in> set (squeeze (dropWhile iscntrl s))"
        by (auto split: if_splits)
      then show ?thesis using "2.IH"(1) [OF True False] by auto
    qed (use True "2.prems" in simp)
  next
    case False
    then show ?thesis using "2.IH"(2) "2.prems" by auto
  qed
qed simp

lemma squeeze_NUL: "NUL \<notin> set (squeeze s)"
  using squeeze_clean [of NUL s] by auto

lemma squeeze_id: "\<forall>c \<in> set s. \<not> iscntrl c \<Longrightarrow> squeeze s = s"
  by (induction s) auto

lemma takeWhile_cntrl:
  "NUL \<notin> set s \<Longrightarrow> takeWhile (\<lambda>d. d \<noteq> NUL \<and> iscntrl d) s = takeWhile iscntrl s"
  by (induction s) auto

lemma cstr_put_upward_n:
  assumes "cstr h s = Some x" and "upward t s" and "fits h t 1" and "0 < k" and "k \<le> length x"
  shows "cstr (put h t [b]) (padd s k) = Some (drop k x)"
proof -
  have "apart t (length [b]) (padd s k)"
    using assms(2,4) by (auto simp: apart_def upward_def)
  then have "cstr (put h t [b]) (padd s k) = cstr h (padd s k)"
    using assms(3) by (intro cstr_put_apart) simp_all
  then show ?thesis using cstr_padd [OF assms(1,5)] by simp
qed

lemma control_strip_loop_put:
  "cstr h s = Some x \<Longrightarrow> upward t s \<Longrightarrow> fits h t (Suc (length x)) \<Longrightarrow>
   control_strip_loop h s t = Some (put h t (squeeze x @ [NUL]))"
proof (induction x arbitrary: h s t rule: squeeze.induct)
  case 1
  then show ?case
    using cstr_ld [OF "1"(1)] by (subst control_strip_loop.simps) (simp add: st_put)
next
  case (2 c x)
  have cN: "c \<noteq> NUL" and xN: "NUL \<notin> set x" using cstr_NUL [OF "2.prems"(1)] by auto
  have f1: "fits h t 1" using "2.prems"(3) by (rule fits_mono) simp
  have ld: "ld h s = Some c" using cstr_ld [OF "2.prems"(1)] by simp
  have cx: "cstr h (padd s 1) = Some x" using cstr_padd [OF "2.prems"(1), of 1] by simp
  show ?case
  proof (cases "iscntrl c")
    case False
    have "control_strip_loop (put h t [c]) (padd s 1) (padd t 1)
        = Some (put (put h t [c]) (padd t 1) (squeeze x @ [NUL]))"
      using "2.prems"(2,3) f1 fits_padd [of h t 1 "Suc (length x)"]
      by (intro "2.IH"(2) False cstr_put_upward [OF "2.prems"(1,2)]) simp_all
    moreover have "fits h t (Suc (length (squeeze x @ [NUL])))"
      using "2.prems"(3) by (rule fits_mono) (simp add: length_squeeze)
    ultimately show ?thesis
      using ld cN False put_Cons [of h t "squeeze x @ [NUL]" c]
      by (subst control_strip_loop.simps) (simp add: st_put [OF f1])
  next
    case True
    let ?k = "length (takeWhile iscntrl x)" and ?r = "dropWhile iscntrl x"
    have le: "?k \<le> length x" by (rule length_takeWhile_le)
    have r: "?r = drop (Suc ?k) (c # x)" by (simp add: dropWhile_eq_drop)
    have sc: "scan (\<lambda>d. d \<noteq> NUL \<and> iscntrl d) (bytes_at h (padd s 1)) = Some ?k"
      using scan_string [OF cx] by (simp add: takeWhile_cntrl [OF xN])
    have cr: "cstr h (padd s (Suc ?k)) = Some ?r"
      using cstr_padd [OF "2.prems"(1), of "Suc ?k"] le r by simp
    show ?thesis
    proof (cases "?r")
      case Nil
      have "ld h (padd s (Suc ?k)) = Some NUL" using cstr_ld [OF cr] Nil by simp
      moreover have "control_strip_loop h (padd s (Suc ?k)) t = Some (put h t [NUL])"
        using cr Nil f1 calculation by (subst control_strip_loop.simps) (simp add: st_put)
      ultimately show ?thesis
        using ld cN True sc Nil by (subst control_strip_loop.simps) simp
    next
      case (Cons d y)
      have dN: "d \<noteq> NUL" using cstr_NUL [OF cr] Cons by auto
      have ldd: "ld h (padd s (Suc ?k)) = Some d" using cstr_ld [OF cr] Cons by simp
      let ?h = "put h t [CHR '' '']"
      have lr: "length ?r \<le> length x" by (rule length_dropWhile_le)
      have fr: "fits h (padd t 1) (Suc (length ?r))"
        using "2.prems"(3) lr by (intro fits_padd) (auto elim: fits_mono)
      have "control_strip_loop ?h (padd s (Suc ?k)) (padd t 1)
          = Some (put ?h (padd t 1) (squeeze ?r @ [NUL]))"
      proof (rule "2.IH"(1) [OF True])
        show "?r \<noteq> []" using Cons by simp
        show "cstr ?h (padd s (Suc ?k)) = Some ?r"
          using cstr_put_upward_n [OF "2.prems"(1,2) f1, of "Suc ?k"] le r by simp
        show "upward (padd t 1) (padd s (Suc ?k))"
          using "2.prems"(2) by (auto simp: upward_def)
        show "fits ?h (padd t 1) (Suc (length ?r))" using fr f1 by simp
      qed
      moreover have "fits h t (Suc (length (squeeze ?r @ [NUL])))"
        using "2.prems"(3) by (rule fits_mono) (use length_squeeze [of ?r] lr in simp)
      ultimately show ?thesis
        using ld cN True sc Cons dN ldd put_Cons [of h t "squeeze ?r @ [NUL]"]
        by (subst control_strip_loop.simps) (simp add: st_put [OF f1])
    qed
  qed
qed

lemma control_strip_put:
  "cstr h p = Some s \<Longrightarrow> control_strip h p = Some (put h p (squeeze s @ [NUL]))"
  using control_strip_loop_put [of h p s p] cstr_fits [of h p s]
  by (simp add: control_strip_def upward_def)

lemma control_strip_cstr:
  assumes "cstr h p = Some s"
  shows "\<exists>h'. control_strip h p = Some h' \<and> cstr h' p = Some (squeeze s)
    \<and> (\<forall>ob. ob \<noteq> fst p \<longrightarrow> h' ob = h ob)"
proof -
  have "fits h p (Suc (length (squeeze s)))"
    using cstr_fits [OF assms] by (rule fits_mono) (simp add: length_squeeze)
  then show ?thesis
    using control_strip_put [OF assms] by (auto simp: cstr_put_same squeeze_NUL)
qed

section \<open>quote_strip\<close>

definition is_blank3 :: "char \<Rightarrow> bool" where
  "is_blank3 c \<longleftrightarrow> c = CHR '' '' \<or> c = CHR 0x09 \<or> c = CHR 0x0A"

text \<open>\<open>for (i = strlen(pos) - 1; i > 0; i--) if (pos[i] is no blank) break;\<close>\<close>

fun quote_end :: "string \<Rightarrow> nat \<Rightarrow> nat" where
  "quote_end s 0 = 0"
| "quote_end s (Suc i) = (if \<not> is_blank3 (s ! Suc i) then Suc i else quote_end s i)"

definition quote_finish :: "store \<Rightarrow> ptr \<Rightarrow> ptr \<Rightarrow> int \<Rightarrow> store option" where
  "quote_finish h string pos i =
     do { h1 \<leftarrow> copy_up h string pos (nat (i + 1));
          st_at h1 string (int (nat (i + 1))) NUL }"

definition quote_strip :: "store \<Rightarrow> ptr \<Rightarrow> store option" where
  "quote_strip h string =
     do { n \<leftarrow> scan is_blank3 (bytes_at h string);
          let pos = padd string n;
          s \<leftarrow> cstr h pos;
          let i = (if s = [] then - 1 else int (quote_end s (length s - 1)));
          (pos, i) \<leftarrow>
            (if deref s = CHR 0x22 then
               do { c \<leftarrow> ld_at h pos i;
                    Some (if c = CHR 0x22 then (padd pos 1, i - 2) else (pos, i)) }
             else Some (pos, i));
          quote_finish h string pos i }"

text \<open>The result: blanks cut off at both ends, then one pair of enclosing quotes removed.\<close>

definition unquote :: "string \<Rightarrow> string" where
  "unquote s = (if deref s = CHR 0x22 \<and> last s = CHR 0x22 then butlast (tl s) else s)"

lemma not_blank3_NUL [simp]: "\<not> is_blank3 NUL"
  by (simp add: is_blank3_def)

lemma quote_end_strip:
  assumes "\<not> is_blank3 c" and "n \<le> length s"
  shows "take (Suc (quote_end (c # s) n)) (c # s)
    = rev (dropWhile is_blank3 (rev (take (Suc n) (c # s))))
    \<and> quote_end (c # s) n \<le> n"
  using assms(2)
proof (induction n)
  case 0
  then show ?case using assms(1) by simp
next
  case (Suc n)
  have t: "take (Suc (Suc n)) (c # s) = take (Suc n) (c # s) @ [s ! n]"
    using Suc.prems by (simp add: take_Suc_conv_app_nth)
  show ?case
  proof (cases "is_blank3 (s ! n)")
    case True
    then show ?thesis using Suc t by simp
  next
    case False
    then show ?thesis using t by simp
  qed
qed

lemma strip_by_quote_end:
  assumes "dropWhile is_blank3 x = c # s"
  shows "strip_by is_blank3 x = take (Suc (quote_end (c # s) (length s))) (c # s)"
    and "quote_end (c # s) (length s) \<le> length s"
proof -
  have "\<not> is_blank3 c" using hd_dropWhile [of is_blank3 x] assms by simp
  from quote_end_strip [OF this, of "length s" s] assms
  show "strip_by is_blank3 x = take (Suc (quote_end (c # s) (length s))) (c # s)"
    and "quote_end (c # s) (length s) \<le> length s"
    by (simp_all add: strip_by_def)
qed

lemma copy_up_cstr:
  assumes "cstr h p = Some s" and "n + m \<le> length s"
  shows "copy_up h p (padd p n) m = Some (put h p (take m (drop n s)))"
    and "st (put h p (take m (drop n s))) (padd p m) NUL = Some (put h p (take m (drop n s) @ [NUL]))"
    and "cstr (put h p (take m (drop n s) @ [NUL])) p = Some (take m (drop n s))"
proof -
  obtain t where t: "bytes_at h p = s @ NUL # t" and N: "NUL \<notin> set s"
    using assms(1) by (auto simp: cstr_Some_iff)
  let ?x = "take m (drop n s)"
  have lx: "length ?x = m" using assms(2) by simp
  have f: "fits h p (Suc m)" using cstr_fits [OF assms(1)] by (rule fits_mono) (use assms(2) in simp)
  have fm: "fits h p m" using f by (rule fits_mono) simp
  have x: "take m (bytes_at h (padd p n)) = ?x"
    using assms(2) by (simp add: bytes_at_padd t)
  have "m \<le> length (bytes_at h (padd p n))" using assms(2) by (simp add: bytes_at_padd t)
  then show "copy_up h p (padd p n) m = Some (put h p ?x)"
    using copy_up_put [of p "padd p n" h m] fm x by (simp add: upward_def)
  have "fits (put h p ?x) (padd p m) 1" using fits_padd [of h p m 1] f fm lx by (simp add: lx)
  then show "st (put h p ?x) (padd p m) NUL = Some (put h p (?x @ [NUL]))"
    using put_append [of h p ?x "[NUL]"] st_put f lx by (simp add: lx)
  show "cstr (put h p (?x @ [NUL])) p = Some ?x"
    using f lx N by (intro cstr_put_same) (auto dest!: in_set_takeD in_set_dropD)
qed

lemma quote_finish_cstr:
  assumes "cstr h p = Some s" and "n + nat (i + 1) \<le> length s"
  shows "\<exists>h'. quote_finish h p (padd p n) i = Some h' \<and> cstr h' p = Some (take (nat (i + 1)) (drop n s))
    \<and> (\<forall>ob. ob \<noteq> fst p \<longrightarrow> h' ob = h ob)"
proof -
  obtain m where m: "nat (i + 1) = m" by blast
  show ?thesis
    using copy_up_cstr [OF assms(1), of n m] assms(2) unfolding quote_finish_def m by simp
qed

lemma quote_strip_cstr:
  assumes "cstr h p = Some x"
  shows "\<exists>h'. quote_strip h p = Some h' \<and> cstr h' p = Some (unquote (strip_by is_blank3 x))
     \<and> (\<forall>ob. ob \<noteq> fst p \<longrightarrow> h' ob = h ob)"
proof -
  let ?n = "length (takeWhile is_blank3 x)" and ?d = "dropWhile is_blank3 x"
  have le: "?n \<le> length x" by (rule length_takeWhile_le)
  have d: "?d = drop ?n x" by (rule dropWhile_eq_drop)
  have sc: "scan is_blank3 (bytes_at h p) = Some ?n" using scan_string [OF assms] by simp
  have cpos: "cstr h (padd p ?n) = Some ?d" using cstr_padd [OF assms le] d by simp
  show ?thesis
  proof (cases ?d)
    case Nil
    then have "strip_by is_blank3 x = []" by (simp only: strip_by_def Nil) simp
    then show ?thesis
      using sc cpos Nil quote_finish_cstr [OF assms, of ?n "-1"] le
      by (simp add: quote_strip_def Let_def unquote_def)
  next
    case (Cons c s)
    let ?i = "quote_end (c # s) (length s)"
    obtain q where q: "(c # s) ! ?i = q" by blast
    have ile: "?i \<le> length s" and y: "strip_by is_blank3 x = take (Suc ?i) (c # s)"
      using strip_by_quote_end [OF Cons] by simp_all
    have lx: "length x = ?n + Suc (length s)"
      using Cons d le by (metis length_Cons length_drop le_add_diff_inverse)
    have last: "last (take (Suc ?i) (c # s)) = q"
      using ile by (subst q [symmetric]) (simp add: last_conv_nth)
    have ld: "ld_at h (padd p ?n) (int ?i) = Some q"
      using ld_cstr_at [OF cpos, of ?i] Cons ile q by simp
    have ds: "drop (Suc ?n) x = s" using Cons d by (metis drop_Suc drop_tl list.sel(3) tl_drop)
    show ?thesis
    proof (cases "c = CHR 0x22 \<and> q = CHR 0x22")
      case False
      then have "unquote (strip_by is_blank3 x) = take (nat (int ?i + 1)) (drop ?n x)"
        using last Cons d unfolding y unquote_def by (auto simp: nat_add_distrib)
      moreover have "quote_strip h p = quote_finish h p (padd p ?n) (int ?i)"
        using sc cpos Cons ld False by (auto simp: quote_strip_def Let_def)
      ultimately show ?thesis
        using quote_finish_cstr [OF assms, of ?n "int ?i"] lx ile by (simp add: nat_add_distrib)
    next
      case True
      have "unquote (strip_by is_blank3 x) = butlast (tl (take (Suc ?i) (c # s)))"
        unfolding y unquote_def last using True by simp
      also have "\<dots> = take (?i - 1) s" using butlast_take [OF ile] by simp
      also have "\<dots> = take (nat (int ?i - 2 + 1)) (drop (Suc ?n) x)"
      proof -
        have "nat (int ?i - 2 + 1) = ?i - 1" by arith
        then show ?thesis using ds by (simp only:)
      qed
      finally have "unquote (strip_by is_blank3 x) = take (nat (int ?i - 2 + 1)) (drop (Suc ?n) x)" .
      moreover have "quote_strip h p = quote_finish h p (padd p (Suc ?n)) (int ?i - 2)"
        using sc cpos Cons ld True by (simp add: quote_strip_def Let_def)
      ultimately show ?thesis
        using quote_finish_cstr [OF assms, of "Suc ?n" "int ?i - 2"] lx ile by simp
    qed
  qed
qed

section \<open>uncomment\<close>

text \<open>The loop of \<open>uncomment\<close>: the offset at which it stores the terminator, if it does.\<close>

fun uncomment_loop :: "string \<Rightarrow> nat \<Rightarrow> bool \<Rightarrow> nat option" where
  "uncomment_loop [] source inquotes = None"
| "uncomment_loop (c # s) source inquotes =
     (if c = CHR 0x22 then uncomment_loop s (Suc source) (\<not> inquotes)
      else if c = CHR ''#'' \<and> \<not> inquotes then Some source
      else uncomment_loop s (Suc source) inquotes)"

definition uncomment :: "store \<Rightarrow> ptr \<Rightarrow> store option" where
  "uncomment h string =
     do { s \<leftarrow> cstr h string;
          (case uncomment_loop s 0 False of
             None \<Rightarrow> Some h
           | Some k \<Rightarrow> st h (padd string k) NUL) }"

text \<open>The quote state before each position, and the result: the text up to the first \<open>#\<close> that is
  not inside quotes.\<close>

definition in_quotes :: "string \<Rightarrow> bool" where
  "in_quotes s \<longleftrightarrow> odd (length (filter (\<lambda>c. c = CHR 0x22) s))"

lemma uncomment_loop_Some:
  "uncomment_loop s n q = Some k \<Longrightarrow>
   n \<le> k \<and> k - n < length s \<and> s ! (k - n) = CHR ''#'' \<and> (q \<longleftrightarrow> in_quotes (take (k - n) s))"
proof (induction s n q arbitrary: k rule: uncomment_loop.induct)
  case (2 c s n q)
  show ?case
  proof (cases "c \<noteq> CHR 0x22 \<and> c = CHR ''#'' \<and> \<not> q")
    case True
    then show ?thesis using "2.prems" by (simp add: in_quotes_def)
  next
    case False
    then have step: "uncomment_loop s (Suc n) (if c = CHR 0x22 then \<not> q else q) = Some k"
      using "2.prems" by (auto split: if_splits)
    then have IH: "Suc n \<le> k \<and> k - Suc n < length s \<and> s ! (k - Suc n) = CHR ''#''
        \<and> ((if c = CHR 0x22 then \<not> q else q) \<longleftrightarrow> in_quotes (take (k - Suc n) s))"
      using "2.IH" False by (auto split: if_splits)
    then obtain j where k: "k = Suc n + j" using le_iff_add by blast
    then have "Suc (n + j) - n = Suc j" "Suc (n + j) - Suc n = j" by simp_all
    then show ?thesis using IH k by (auto simp: in_quotes_def split: if_splits)
  qed
qed simp

section \<open>memcmpcpy\<close>

text \<open>\<open>size_t\<close> and \<open>long\<close> have 32 bits, so \<open>~0\<close> is \<open>SIZE_MAX\<close> and words of four bytes are compared.\<close>

definition SIZE_MAX :: nat where
  "SIZE_MAX = 4294967295"

fun memcmpcpy_bytes :: "store \<Rightarrow> ptr \<Rightarrow> ptr \<Rightarrow> nat \<Rightarrow> nat \<Rightarrow> (store \<times> nat) option" where
  "memcmpcpy_bytes h dst src 0 ret = Some (h, SIZE_MAX)"
| "memcmpcpy_bytes h dst src (Suc len) ret =
     do { a \<leftarrow> ld h dst;
          b \<leftarrow> ld h src;
          if a \<noteq> b then map_option (\<lambda>h'. (h', ret - Suc len)) (copy_up h dst src (Suc len))
          else memcmpcpy_bytes h (padd dst 1) (padd src 1) len ret }"

function memcmpcpy_words :: "store \<Rightarrow> ptr \<Rightarrow> ptr \<Rightarrow> nat \<Rightarrow> nat \<Rightarrow> (store \<times> nat) option" where
  "memcmpcpy_words h dst src len ret =
     (if 4 \<le> len then
        (case (blk_ld h dst 4, blk_ld h src 4) of
           (Some a, Some b) \<Rightarrow>
             (if a \<noteq> b then
                (let ret1 = (if a ! 0 = b ! 0
                             then (if a ! 1 = b ! 1
                                   then (if a ! 2 = b ! 2 then ret + 3 else ret + 2)
                                   else ret + 1)
                             else ret)
                 in map_option (\<lambda>h'. (h', ret1 - len)) (memmove h dst src len))
              else memcmpcpy_words h (padd dst 4) (padd src 4) (len - 4) ret)
         | _ \<Rightarrow> None)
      else memcmpcpy_bytes h dst src len ret)"
  by pat_completeness auto
termination
  by (relation "measure (\<lambda>(h, dst, src, len, ret). len)") auto

declare memcmpcpy_words.simps [simp del]

definition memcmpcpy :: "store \<Rightarrow> ptr \<Rightarrow> ptr \<Rightarrow> nat \<Rightarrow> (store \<times> nat) option" where
  "memcmpcpy h dst src len = memcmpcpy_words h dst src len len"

text \<open>The specification: the first index at which the blocks differ.\<close>

fun first_diff :: "'a list \<Rightarrow> 'a list \<Rightarrow> nat" where
  "first_diff (a # as) (b # bs) = (if a = b then Suc (first_diff as bs) else 0)"
| "first_diff _ _ = 0"

lemma first_diff_append:
  "length a = length b \<Longrightarrow>
   first_diff (a @ x) (b @ y) = (if a = b then length a + first_diff x y else first_diff a b)"
  by (induction a b rule: list_induct2) auto

definition memcmpcpy_spec :: "store \<Rightarrow> ptr \<Rightarrow> char list \<Rightarrow> char list \<Rightarrow> store \<times> nat" where
  "memcmpcpy_spec h dst x y = (if x = y then (h, SIZE_MAX) else (put h dst y, first_diff x y))"

lemma blk_ld_Some: "blk_ld h p n = Some x \<Longrightarrow> x = take n (bytes_at h p) \<and> length x = n \<and> fits h p n"
  by (auto simp: blk_ld_def fits_def length_bytes_at split: if_splits)

lemma blk_ld_split:
  "blk_ld h p (m + n) = Some x \<Longrightarrow>
   blk_ld h p m = Some (take m x) \<and> blk_ld h (padd p m) n = Some (drop m x)"
  by (auto simp: blk_ld_def bytes_at_padd take_drop ac_simps split: if_splits)

lemma blk_ld_put_same: "blk_ld h p (length x) = Some x \<Longrightarrow> put h p x = h"
proof -
  assume a: "blk_ld h p (length x) = Some x"
  then have x: "x = take (length x) (drop (snd p) (h (fst p)))"
    by (auto simp: blk_ld_def bytes_at_def split: if_splits)
  have "x @ drop (length x) (drop (snd p) (h (fst p))) = drop (snd p) (h (fst p))"
    using x by (metis append_take_drop_id)
  then have "take (snd p) (h (fst p)) @ x @ drop (snd p + length x) (h (fst p)) = h (fst p)"
    by (simp add: add.commute)
  then show ?thesis by (simp add: put_def)
qed

lemma memcmpcpy_bytes_spec:
  "blk_ld h d n = Some x \<Longrightarrow> blk_ld h s n = Some y \<Longrightarrow> fst d \<noteq> fst s \<Longrightarrow> n \<le> ret \<Longrightarrow>
   memcmpcpy_bytes h d s n ret =
     Some (if x = y then (h, SIZE_MAX) else (put h d y, ret - n + first_diff x y))"
proof (induction n arbitrary: d s x y)
  case 0
  then show ?case by (simp add: blk_ld_def split: if_splits)
next
  case (Suc n)
  have x: "x = take (Suc n) (bytes_at h d)" "length x = Suc n"
    and fd: "fits h d (Suc n)" using blk_ld_Some [OF Suc.prems(1)] by auto
  have y: "y = take (Suc n) (bytes_at h s)" "length y = Suc n"
    using blk_ld_Some [OF Suc.prems(2)] by auto
  obtain a x' where xa: "x = a # x'" using x(2) by (cases x) auto
  obtain b y' where yb: "y = b # y'" using y(2) by (cases y) auto
  have a: "ld h d = Some a" using x(1) xa by (cases "bytes_at h d") (auto simp: ld_bytes_at)
  have b: "ld h s = Some b" using y(1) yb by (cases "bytes_at h s") (auto simp: ld_bytes_at)
  have x': "blk_ld h (padd d 1) n = Some x'"
    using blk_ld_split [of h d 1 n x] Suc.prems(1) xa by simp
  have y': "blk_ld h (padd s 1) n = Some y'"
    using blk_ld_split [of h s 1 n y] Suc.prems(2) yb by simp
  show ?case
  proof (cases "a = b")
    case False
    have "copy_up h d s (Suc n) = Some (put h d y)"
      using copy_up_put [of d s h "Suc n"] Suc.prems(3) fd y by (simp add: upward_def del: copy_up.simps)
    then show ?thesis using False a b xa yb by simp
  next
    case True
    have "put h (padd d 1) y' = put h d y"
    proof -
      have "put h d [a] = h"
        using blk_ld_put_same [of h d "[a]"] blk_ld_split [of h d 1 n x] Suc.prems(1) xa by simp
      moreover have "fits h d (Suc (length y'))" using fd y(2) yb by simp
      ultimately show ?thesis using put_Cons [of h d y' a] yb True by simp
    qed
    then show ?thesis
      using Suc.IH [OF x' y'] Suc.prems(3,4) a b True xa yb by (simp add: Suc_diff_Suc)
  qed
qed

lemma first_diff_four:
  assumes "length a = 4" and "length b = 4" and "a \<noteq> b"
  shows "first_diff a b = (if a ! 0 = b ! 0 then (if a ! 1 = b ! 1 then
    (if a ! 2 = b ! 2 then 3 else 2) else 1) else 0)"
proof -
  obtain a0 a1 a2 a3 where a: "a = [a0, a1, a2, a3]"
    using assms(1) by (auto simp: numeral_eq_Suc length_Suc_conv)
  obtain b0 b1 b2 b3 where b: "b = [b0, b1, b2, b3]"
    using assms(2) by (auto simp: numeral_eq_Suc length_Suc_conv)
  show ?thesis using assms(3) by (auto simp: a b)
qed

lemma memcmpcpy_words_spec:
  "blk_ld h d n = Some x \<Longrightarrow> blk_ld h s n = Some y \<Longrightarrow> fst d \<noteq> fst s \<Longrightarrow> n \<le> ret \<Longrightarrow>
   memcmpcpy_words h d s n ret =
     Some (if x = y then (h, SIZE_MAX) else (put h d y, ret - n + first_diff x y))"
proof (induction n arbitrary: d s x y rule: less_induct)
  case (less n)
  show ?case
  proof (cases "4 \<le> n")
    case False
    then show ?thesis
      using memcmpcpy_bytes_spec [OF less.prems] by (subst memcmpcpy_words.simps) simp
  next
    case True
    then obtain m where n: "n = 4 + m" using le_iff_add by blast
    have xs: "blk_ld h d 4 = Some (take 4 x)" "blk_ld h (padd d 4) m = Some (drop 4 x)"
      using blk_ld_split [of h d 4 m x] less.prems(1) n by auto
    have ys: "blk_ld h s 4 = Some (take 4 y)" "blk_ld h (padd s 4) m = Some (drop 4 y)"
      using blk_ld_split [of h s 4 m y] less.prems(2) n by auto
    have lx: "length x = n" and ly: "length y = n" and fd: "fits h d n"
      using blk_ld_Some [OF less.prems(1)] blk_ld_Some [OF less.prems(2)] by auto
    have fdx: "first_diff x y = (if take 4 x = take 4 y then 4 + first_diff (drop 4 x) (drop 4 y)
        else first_diff (take 4 x) (take 4 y))"
      using first_diff_append [of "take 4 x" "take 4 y" "drop 4 x" "drop 4 y"] lx ly n by simp
    show ?thesis
    proof (cases "take 4 x = take 4 y")
      case False
      have "memmove h d s n = Some (put h d y)"
        using less.prems(2) fd ly by (simp add: memmove_def blk_st_def fits_def)
      then show ?thesis
        using False True xs ys fdx first_diff_four [OF _ _ False] lx ly n less.prems(4)
        by (subst memcmpcpy_words.simps) (auto simp: Let_def)
    next
      case eq: True
      have "put h (padd d 4) (drop 4 y) = put h d y"
      proof -
        have "put h d (take 4 x) = h"
          using blk_ld_put_same [of h d "take 4 x"] xs lx n by simp
        moreover have "fits h d (length (take 4 y) + length (drop 4 y))" using fd ly n by simp
        ultimately show ?thesis using put_append [of h d "take 4 y" "drop 4 y"] eq ly n by simp
      qed
      moreover have "x = y \<longleftrightarrow> drop 4 x = drop 4 y"
        using eq by (metis append_take_drop_id)
      ultimately show ?thesis
        using less.IH [OF _ xs(2) ys(2)] less.prems(3,4) eq fdx True xs ys n
        by (subst memcmpcpy_words.simps) auto
    qed
  qed
qed

section \<open>The bounded copy as an interface\<close>

interpretation lcpy: bounded_copy strlcpy
  by unfold_locales (use strlcpy_put in blast)

section \<open>Properties\<close>

lemma bytes_at_put_behind:
  "fits h p (length xs) \<Longrightarrow> length xs \<le> k \<Longrightarrow> bytes_at (put h p xs) (padd p k) = bytes_at h (padd p k)"
  by (simp add: bytes_at_padd bytes_at_put_same)

text \<open>C24: \<open>strlcpy\<close> stores the first \<open>siz - 1\<close> characters of the source and a terminator and touches
  neither the bytes behind them nor another object; its value is the length of the source, so a
  value of at least \<open>siz\<close> tells that the copy is truncated.\<close>

theorem strlcpy_correct:
  assumes "cstr h src = Some x" and "upward dst src" and "0 < siz"
    and "fits h dst (min siz (Suc (length x)))"
  shows "\<exists>h' r. strlcpy h dst src siz = Some (h', r) \<and> cstr h' dst = Some (take (siz - 1) x)
    \<and> bytes_at h' (padd dst (min siz (Suc (length x)))) = bytes_at h (padd dst (min siz (Suc (length x))))
    \<and> (\<forall>ob. ob \<noteq> fst dst \<longrightarrow> h' ob = h ob)
    \<and> (dst \<noteq> src \<or> length x < siz \<longrightarrow> r = length x)"
proof -
  let ?y = "take (siz - 1) x @ [NUL]"
  obtain r where r: "strlcpy h dst src siz = Some (put h dst ?y, r)"
    "dst \<noteq> src \<or> length x < siz \<longrightarrow> r = length x"
    using strlcpy_put [OF assms] by blast
  have l: "length ?y = min siz (Suc (length x))" using assms(3) by auto
  then have f: "fits h dst (length ?y)" using assms(4) by simp
  have "cstr (put h dst ?y) dst = Some (take (siz - 1) x)"
    using f cstr_NUL [OF assms(1)] by (intro cstr_put_same) (auto dest: in_set_takeD)
  then show ?thesis using r bytes_at_put_behind [OF f] l by auto
qed

lemma strlcpy_correct_witness:
  "\<exists>h' r. strlcpy (\<lambda>_. ''abc'' @ [NUL]) (0, 0) (1, 0) 3 = Some (h', r) \<and> cstr h' (0, 0) = Some ''ab'' \<and> r = 3"
proof -
  have "cstr (\<lambda>_. ''abc'' @ [NUL]) (1, 0) = Some ''abc''" by (simp add: cstr_def bytes_at_def)
  from strlcpy_correct [OF this, of "(0, 0)" 3] show ?thesis
    by (auto simp: upward_def fits_def)
qed

text \<open>\<open>strlcat\<close> appends as much of the source as fits into \<open>siz\<close> bytes, always terminates the
  result and returns the length it tried to create; a target that fills all \<open>siz\<close> bytes is left
  alone.\<close>

lemma strlcat_correct:
  assumes "cstr h dst = Some x" and "cstr h src = Some y" and "fst dst \<noteq> fst src"
    and "fits h dst (min siz (Suc (length x + length y)))"
  shows "\<exists>h'. strlcat h dst src siz = Some (h', min siz (length x) + length y)
    \<and> (if siz \<le> length x then h' = h else cstr h' dst = Some (take (siz - 1) (x @ y)))
    \<and> (\<forall>ob. ob \<noteq> fst dst \<longrightarrow> h' ob = h ob)"
proof (cases "siz \<le> length x")
  case True
  then show ?thesis using strnlen_cstr [OF assms(1), of siz] assms(2) by (simp add: strlcat_def min_def)
next
  case False
  let ?z = "take (siz - 1) (x @ y)"
  have "fits h dst (Suc (length ?z))" using assms(4) False by (rule_tac fits_mono) auto
  then have "cstr (put h dst (?z @ [NUL])) dst = Some ?z"
    using cstr_NUL [OF assms(1)] cstr_NUL [OF assms(2)]
    by (intro cstr_put_same) (auto dest: in_set_takeD)
  then show ?thesis using strlcat_put [OF assms(1-3) _ assms(4)] False by simp
qed

lemma strlcat_correct_witness:
  "\<exists>h'. strlcat (\<lambda>i. if i = 0 then ''ab'' @ replicate 4 NUL else ''cde'' @ [NUL]) (0, 0) (1, 0) 5 = Some (h', 5)
    \<and> cstr h' (0, 0) = Some ''abcd''" (is "\<exists>h'. strlcat ?h _ _ _ = _ \<and> _")
proof -
  have "cstr ?h (0, 0) = Some ''ab''" "cstr ?h (1, 0) = Some ''cde''"
    by (simp_all add: cstr_def bytes_at_def)
  from strlcat_correct [OF this, of 5] show ?thesis by (auto simp: fits_def eval_nat_numeral)
qed

text \<open>\<open>strchomp\<close> removes a line feed and a carriage return before it; but the character before
  the last one is cut off too when it is a carriage return and the last one is no line feed, and a
  single carriage return at the end stays.\<close>

lemma strchomp_correct:
  assumes "cstr h str = Some (s @ [a, b])"
  shows "\<exists>h'. strchomp h str = Some h' \<and> cstr h' str = Some
    (if a = CHR 0x0D then s else if b = CHR 0x0A then s @ [a] else s @ [a, b])"
proof -
  have f: "fits h (padd str (Suc (length s))) 1"
    using cstr_fits [OF assms] by (auto simp: fits_def)
  have lf: "cstr (put h (padd str (Suc (length s))) [NUL]) str = Some (s @ [a])"
    using cstr_truncate [of h str "s @ [a]" "[b]"] assms by simp
  have "cstr (put h (padd str (length s)) [NUL]) str = Some s"
    using cstr_truncate [of h str s "[a, b]"] assms by simp
  moreover have "cstr (put (put h (padd str (Suc (length s))) [NUL]) (padd str (length s)) [NUL]) str = Some s"
    using cstr_truncate [OF lf] .
  ultimately show ?thesis using strchomp_put [OF assms] lf assms by (auto simp: Let_def)
qed

lemma strchomp_correct_witness:
  "\<exists>h'. strchomp (\<lambda>_. [CHR ''x'', CHR 0x0D, CHR ''y'', NUL]) (0, 0) = Some h' \<and> cstr h' (0, 0) = Some ''x''"
  using strchomp_correct [of "\<lambda>_. [CHR ''x'', CHR 0x0D, CHR ''y'', NUL]" "(0, 0)" "''x''" "CHR 0x0D" "CHR ''y''"]
  by (simp add: cstr_def bytes_at_def)

text \<open>\<open>blank_strip\<close> removes exactly the leading and trailing blanks of a string that has another
  character; a string of blanks at the start of its object makes it read before the object.\<close>

lemma blank_strip_correct:
  assumes "cstr h string = Some s"
  shows "((\<exists>c \<in> set s. \<not> is_blank c) \<longrightarrow>
      (\<exists>h'. blank_strip h string = Some h' \<and> cstr h' string = Some (strip_by is_blank s)))
    \<and> ((\<forall>c \<in> set s. is_blank c) \<and> snd string = 0 \<longrightarrow> blank_strip h string = None)"
  using blank_strip_cstr [OF assms] blank_strip_all_blank [OF assms] by blast

lemma blank_strip_correct_witness:
  "(\<exists>h'. blank_strip (\<lambda>_. '' a b '' @ [NUL]) (0, 0) = Some h' \<and> cstr h' (0, 0) = Some ''a b'')
    \<and> blank_strip (\<lambda>_. ''  '' @ [NUL]) (0, 0) = None"
proof -
  have "cstr (\<lambda>_. '' a b '' @ [NUL]) (0, 0) = Some '' a b ''" "cstr (\<lambda>_. ''  '' @ [NUL]) (0, 0) = Some ''  ''"
    by (simp_all add: cstr_def bytes_at_def)
  from blank_strip_correct [OF this(1)] blank_strip_correct [OF this(2)] show ?thesis
    by (auto simp: is_blank_def strip_by_def)
qed

text \<open>\<open>control_strip\<close> leaves no control character, keeps a string without any as it is, and its
  result is the string with each inner series of them replaced by one space.\<close>

lemma control_strip_correct:
  assumes "cstr h string = Some s"
  shows "\<exists>h' t. control_strip h string = Some h' \<and> cstr h' string = Some t \<and> t = squeeze s
    \<and> (\<forall>c \<in> set t. \<not> iscntrl c) \<and> ((\<forall>c \<in> set s. \<not> iscntrl c) \<longrightarrow> t = s)
    \<and> (\<forall>ob. ob \<noteq> fst string \<longrightarrow> h' ob = h ob)"
  using control_strip_cstr [OF assms] squeeze_clean squeeze_id by metis

lemma control_strip_correct_witness:
  "\<exists>h' t. control_strip (\<lambda>_. [CHR ''a'', CHR 0x0D, CHR 0x0A, CHR ''b'', NUL]) (0, 0) = Some h'
    \<and> cstr h' (0, 0) = Some t \<and> (\<forall>c \<in> set t. \<not> iscntrl c)"
proof -
  have "cstr (\<lambda>_. [CHR ''a'', CHR 0x0D, CHR 0x0A, CHR ''b'', NUL]) (0, 0)
      = Some [CHR ''a'', CHR 0x0D, CHR 0x0A, CHR ''b'']"
    by (simp add: cstr_def bytes_at_def)
  from control_strip_correct [OF this] show ?thesis by metis
qed

text \<open>\<open>quote_strip\<close> removes the blanks around a string and then, when it starts and ends with a
  quote, the two quotes; it never leaves its object, whatever the string.\<close>

lemma quote_strip_correct:
  assumes "cstr h string = Some x"
  shows "\<exists>h'. quote_strip h string = Some h' \<and> cstr h' string = Some (unquote (strip_by is_blank3 x))
    \<and> length (unquote (strip_by is_blank3 x)) \<le> length x
    \<and> (\<forall>ob. ob \<noteq> fst string \<longrightarrow> h' ob = h ob)"
proof -
  have "length (strip_by f x) \<le> length x" for f
    using length_dropWhile_le [of f "rev (dropWhile f x)"] length_dropWhile_le [of f x]
    by (simp add: strip_by_def)
  then have "length (unquote (strip_by is_blank3 x)) \<le> length x"
    by (auto simp: unquote_def intro: order_trans [OF diff_le_self])
  then show ?thesis using quote_strip_cstr [OF assms] by blast
qed

lemma quote_strip_correct_witness:
  "\<exists>h'. quote_strip (\<lambda>_. '' '' @ [CHR 0x22] @ ''ab'' @ [CHR 0x22, NUL]) (0, 0) = Some h'
    \<and> cstr h' (0, 0) = Some ''ab''"
proof -
  have "cstr (\<lambda>_. '' '' @ [CHR 0x22] @ ''ab'' @ [CHR 0x22, NUL]) (0, 0)
      = Some ('' '' @ [CHR 0x22] @ ''ab'' @ [CHR 0x22])"
    by (simp add: cstr_def bytes_at_def)
  from quote_strip_correct [OF this] show ?thesis
    by (auto simp: is_blank3_def strip_by_def unquote_def)
qed

text \<open>\<open>memcmpcpy\<close> compares and copies by machine words and then by bytes, but behaves like a
  comparison of whole blocks: equal blocks give \<open>~0\<close> and an unchanged memory, others are copied and
  the value is the index of the first difference.\<close>

lemma memcmpcpy_correct:
  assumes "blk_ld h dst len = Some x" and "blk_ld h src len = Some y" and "fst dst \<noteq> fst src"
  shows "memcmpcpy h dst src len =
    Some (if x = y then (h, SIZE_MAX) else (put h dst y, first_diff x y))"
  using memcmpcpy_words_spec [OF assms order_refl] by (simp add: memcmpcpy_def)

lemma memcmpcpy_correct_witness:
  "memcmpcpy (\<lambda>i. if i = 0 then ''abcdefg'' else ''abcdeXg'') (0, 0) (1, 0) 7
    = Some (put (\<lambda>i. if i = 0 then ''abcdefg'' else ''abcdeXg'') (0, 0) ''abcdeXg'', 5)"
  using memcmpcpy_correct [of "\<lambda>i. if i = 0 then ''abcdefg'' else ''abcdeXg''" "(0, 0)" 7 "''abcdefg''" "(1, 0)" "''abcdeXg''"]
  by (simp add: blk_ld_def bytes_at_def)

end
