(* ===== verification/Wildcards.thy ===== *)
theory Wildcards
  imports CPrelude
begin

text \<open>
  \<^verbatim>\<open>src/utils/wildcards.c\<close>: matching a name against a list of wildcard patterns separated by
  semicolons, with \<^verbatim>\<open>?\<close> for one character and \<^verbatim>\<open>*\<close> for any number of characters, ignoring case.
  Both strings are only read, so a pointer is the rest of its string. The code's backtracking
  matcher is proved to decide the denotational meaning \<open>glob\<close> of a pattern.
\<close>

section \<open>The matcher\<close>

text \<open>End of one pattern: the terminator or a semicolon.\<close>

definition pat_end :: "string \<Rightarrow> bool" where
  "pat_end w \<longleftrightarrow> deref w = NUL \<or> deref w = CHR '';''"

text \<open>The part of \<open>asterisk\<close> before it searches: skip the leading asterisk's followers. While the
  test string is not empty, question marks and asterisks are consumed, then asterisks.\<close>

fun star_skip :: "string \<Rightarrow> string \<Rightarrow> string \<times> string" where
  "star_skip (c # w) (d # t) =
     (if c = CHR ''?'' then star_skip w t
      else if c = CHR ''*'' then star_skip w (d # t)
      else (c # w, d # t))"
| "star_skip w t = (w, t)"

definition star_rest :: "string \<Rightarrow> string \<Rightarrow> string \<times> string" where
  "star_rest w t = (case star_skip w t of (w', t') \<Rightarrow> (dropWhile (\<lambda>c. c = CHR ''*'') w', t'))"

text \<open>\<open>while (toupper(*wildcard) != toupper(*test) && *test) test++;\<close>\<close>

fun skip_to :: "string \<Rightarrow> string \<Rightarrow> string" where
  "skip_to w [] = []"
| "skip_to w (d # t) = (if toupper (deref w) \<noteq> toupper d then skip_to w t else d # t)"

text \<open>The end of \<open>pattern\<close>: trailing asterisks are skipped, then both strings must be at an end.\<close>

fun pattern_end :: "bool \<times> string \<times> string \<Rightarrow> bool" where
  "pattern_end (fit, w, t) \<longleftrightarrow>
     fit \<and> t = [] \<and> pat_end (dropWhile (\<lambda>c. c = CHR ''*'') w)"

lemma star_skip_length: "length (fst (star_skip w t)) \<le> length w"
  by (induction w t rule: star_skip.induct) auto

lemma star_rest_length: "length (fst (star_rest w t)) \<le> length w"
  using star_skip_length [of w t] length_dropWhile_le [of "\<lambda>c. c = CHR ''*''" "fst (star_skip w t)"]
  by (auto simp: star_rest_def split: prod.splits)

lemma skip_to_length: "length (skip_to w t) \<le> length t"
  by (induction w t rule: skip_to.induct) auto

lemma skip_to_tl_less:
  "skip_to w (tl t) \<noteq> [] \<Longrightarrow> length (skip_to w (tl t)) < length t"
  using skip_to_length [of w "tl t"] by (cases t) auto

lemma star_rest_less:
  "2 * length (fst (star_rest w t)) < Suc (2 * length w)"
  "2 * length (fst (star_rest w t)) < Suc (Suc (2 * length w))"
  using star_rest_length [of w t] by simp_all

text \<open>
  The three loops call each other. \<open>pattern_loop\<close> is the \<open>for\<close> loop of \<open>pattern\<close>, \<open>asterisk\<close> the function
  of that name (its new \<open>*wildcard\<close> is always the one of \<open>star_rest\<close>, so only \<open>fit\<close> and the new \<open>*test\<close> are
  returned) and \<open>asterisk_scan\<close> its \<open>do \<dots> while\<close> loop, entered after the first attempt failed.
\<close>

function (sequential)
  pattern_loop :: "string \<Rightarrow> string \<Rightarrow> bool \<times> string \<times> string" and
  asterisk :: "string \<Rightarrow> string \<Rightarrow> bool \<times> string" and
  asterisk_scan :: "string \<Rightarrow> string \<Rightarrow> bool \<times> string" where
  "pattern_loop [] t = (True, [], t)"
| "pattern_loop (c # w) t =
     (if c = CHR '';'' \<or> t = [] then (True, c # w, t)
      else if c = CHR ''?'' then pattern_loop w (tl t)
      else if c = CHR ''*'' then
        (let (fit, t') = asterisk w t; w' = fst (star_rest w t)
         in if fit then pattern_loop w' t' else (False, w', t'))
      else if toupper c = toupper (hd t) then pattern_loop w (tl t)
      else (False, w, tl t))"
| "asterisk w t =
     (let w' = fst (star_rest w t); t' = snd (star_rest w t)
      in if t' = [] then (pat_end w', t')
         else if pattern_end (pattern_loop w' t') then (True, t')
         else (let (fit, t'') = asterisk_scan w' t'
               in (fit \<or> t'' = [] \<and> pat_end w', t'')))"
| "asterisk_scan w t =
     (let t' = skip_to w (tl t)
      in if t' = [] then (False, [])
         else if pattern_end (pattern_loop w t') then (True, t')
         else asterisk_scan w t')"
  by pat_completeness auto

termination
  by (relation "measures
      [\<lambda>x. case x of Inl p \<Rightarrow> 2 * length (fst p) | Inr (Inl p) \<Rightarrow> 2 * length (fst p) + 1
                   | Inr (Inr p) \<Rightarrow> 2 * length (fst p),
       \<lambda>x. case x of Inl p \<Rightarrow> length (snd p) | Inr (Inl p) \<Rightarrow> length (snd p)
                   | Inr (Inr p) \<Rightarrow> length (snd p)]")
    (auto simp: star_rest_less skip_to_tl_less)

definition pattern :: "string \<Rightarrow> string \<Rightarrow> bool" where
  "pattern w t = pattern_end (pattern_loop w t)"

lemma strchr_less: "strchr s c = Some k \<Longrightarrow> c \<noteq> NUL \<Longrightarrow> k < length s"
  using strchr_Some [of s c k] by (cases "k = length s") auto

function wildcardfit :: "string \<Rightarrow> string \<Rightarrow> bool" where
  "wildcardfit w t =
     (if pattern w t then True
      else (case strchr w (CHR '';'') of
              None \<Rightarrow> False
            | Some k \<Rightarrow> wildcardfit (drop (Suc k) w) t))"
  by pat_completeness auto
termination
  by (relation "measure (\<lambda>(w, t). length w)") (auto dest: strchr_less)

declare pattern_loop.simps [simp del] asterisk.simps [simp del] asterisk_scan.simps [simp del]
  wildcardfit.simps [simp del]

section \<open>The meaning of a pattern\<close>

fun glob :: "string \<Rightarrow> string \<Rightarrow> bool" where
  "glob [] t \<longleftrightarrow> t = []"
| "glob (c # p) [] \<longleftrightarrow> c = CHR ''*'' \<and> glob p []"
| "glob (c # p) (d # t) \<longleftrightarrow>
     (if c = CHR ''*'' then glob p (d # t) \<or> glob (c # p) t
      else if c = CHR ''?'' then glob p t
      else toupper c = toupper d \<and> glob p t)"

definition head_pat :: "string \<Rightarrow> string" where
  "head_pat w = takeWhile (\<lambda>c. c \<noteq> CHR '';'') w"

fun split_pats :: "string \<Rightarrow> string list" where
  "split_pats [] = [[]]"
| "split_pats (c # w) =
     (if c = CHR '';'' then [] # split_pats w
      else (case split_pats w of [] \<Rightarrow> [[c]] | p # ps \<Rightarrow> (c # p) # ps))"

text \<open>What the asterisk means: some suffix of the test string matches the rest.\<close>

lemma glob_star: "glob (CHR ''*'' # p) t \<longleftrightarrow> (\<exists>k \<le> length t. glob p (drop k t))"
proof (induction t)
  case Nil
  then show ?case by simp
next
  case (Cons d t)
  have "(\<exists>k \<le> length (d # t). glob p (drop k (d # t)))
      \<longleftrightarrow> glob p (d # t) \<or> (\<exists>k \<le> length t. glob p (drop k t))"
    by (metis Suc_le_mono drop0 drop_Suc_Cons length_Cons le0 not0_implies_Suc)
  then show ?case using Cons by simp
qed

lemma glob_Nil: "glob p [] \<longleftrightarrow> (\<forall>c \<in> set p. c = CHR ''*'')"
  by (induction p) auto

lemma pat_end_iff: "NUL \<notin> set w \<Longrightarrow> pat_end w \<longleftrightarrow> head_pat w = []"
  by (cases w) (auto simp: pat_end_def head_pat_def)

lemma head_pat_Cons: "head_pat (c # w) = (if c = CHR '';'' then [] else c # head_pat w)"
  by (simp add: head_pat_def)

lemma head_pat_Nil [simp]: "head_pat [] = []"
  by (simp add: head_pat_def)

lemma glob_star_star: "glob (CHR ''*'' # CHR ''*'' # p) t \<longleftrightarrow> glob (CHR ''*'' # p) t"
  by (induction t) auto

lemma glob_star_quest: "glob (CHR ''*'' # CHR ''?'' # p) t \<longleftrightarrow> t \<noteq> [] \<and> glob (CHR ''*'' # p) (tl t)"
proof (induction t)
  case (Cons d t)
  then show ?case by (cases t) auto
qed simp

lemma star_skip_glob:
  "star_skip w t = (w', t') \<Longrightarrow>
   glob (CHR ''*'' # head_pat w) t \<longleftrightarrow> glob (CHR ''*'' # head_pat w') t'"
proof (induction w t arbitrary: w' t' rule: star_skip.induct)
  case (1 c w d t)
  show ?case
  proof (cases "c = CHR ''?''")
    case True
    then show ?thesis
      using "1.IH"(1) "1.prems" glob_star_quest [of "head_pat w" "d # t"]
      by (simp add: head_pat_Cons del: glob.simps)
  next
    case nq: False
    show ?thesis
    proof (cases "c = CHR ''*''")
      case True
      then show ?thesis
        using "1.IH"(2) "1.prems" glob_star_star [of "head_pat w" "d # t"]
        by (simp add: head_pat_Cons del: glob.simps)
    qed (use nq "1.prems" in simp)
  qed
qed simp_all

lemma dropWhile_star_glob:
  "glob (CHR ''*'' # head_pat (dropWhile (\<lambda>c. c = CHR ''*'') w)) t \<longleftrightarrow> glob (CHR ''*'' # head_pat w) t"
  by (induction w) (auto simp: head_pat_Cons glob_star_star simp del: glob.simps)

lemma star_rest_glob:
  "glob (CHR ''*'' # head_pat (fst (star_rest w t))) (snd (star_rest w t))
   \<longleftrightarrow> glob (CHR ''*'' # head_pat w) t"
  using star_skip_glob [of w t] dropWhile_star_glob
  by (auto simp: star_rest_def split: prod.splits simp del: glob.simps)

lemma star_skip_stop:
  "star_skip w t = (w', t') \<Longrightarrow> t' \<noteq> [] \<Longrightarrow> deref w' \<noteq> CHR ''?'' \<and> deref w' \<noteq> CHR ''*''"
  by (induction w t arbitrary: w' t' rule: star_skip.induct) (auto split: if_splits)

lemma star_rest_stop:
  "deref (fst (star_rest w t)) \<noteq> CHR ''*''"
  "snd (star_rest w t) \<noteq> [] \<Longrightarrow> deref (fst (star_rest w t)) \<noteq> CHR ''?''"
proof -
  obtain w' t' where s: "star_skip w t = (w', t')" by fastforce
  have d: "deref (dropWhile (\<lambda>c. c = CHR ''*'') x) \<noteq> CHR ''*''" for x
    by (induction x) auto
  then show "deref (fst (star_rest w t)) \<noteq> CHR ''*''" by (simp add: star_rest_def s)
  assume "snd (star_rest w t) \<noteq> []"
  then have "t' \<noteq> []" by (simp add: star_rest_def s)
  from star_skip_stop [OF s this] have "deref w' \<noteq> CHR ''?''" "dropWhile (\<lambda>c. c = CHR ''*'') w' = w'"
    by (cases w'; auto)+
  then show "deref (fst (star_rest w t)) \<noteq> CHR ''?''" by (simp add: star_rest_def s)
qed

lemma star_rest_set: "set (fst (star_rest w t)) \<subseteq> set w"
proof -
  have "set (fst (star_skip w t)) \<subseteq> set w" by (induction w t rule: star_skip.induct) auto
  then show ?thesis by (auto simp: star_rest_def split: prod.splits dest!: set_dropWhileD)
qed

section \<open>The matcher decides the meaning\<close>

text \<open>No match can start at a position that \<open>skip_to\<close> passes over.\<close>

lemma skip_to_glob:
  assumes "deref w \<noteq> CHR ''*''" and "deref w \<noteq> CHR ''?''" and "NUL \<notin> set w"
  shows "(\<exists>k < length t. glob (head_pat w) (drop k t))
    \<longleftrightarrow> (\<exists>k < length (skip_to w t). glob (head_pat w) (drop k (skip_to w t)))"
proof (induction t)
  case (Cons d t)
  show ?case
  proof (cases "toupper (deref w) = toupper d")
    case False
    have "\<not> glob (head_pat w) (d # t)"
      using False assms by (cases w) (auto simp: head_pat_Cons)
    then have "(\<exists>k < length (d # t). glob (head_pat w) (drop k (d # t)))
        \<longleftrightarrow> (\<exists>k < length t. glob (head_pat w) (drop k t))"
      by (metis Suc_less_eq drop0 drop_Suc_Cons length_Cons not0_implies_Suc)
    then show ?thesis using Cons False by simp
  qed simp
qed simp

lemma asterisk_scan_glob:
  assumes ind: "\<And>u. pattern_end (pattern_loop w u) \<longleftrightarrow> glob (head_pat w) u"
    and w: "deref w \<noteq> CHR ''*''" "deref w \<noteq> CHR ''?''" "NUL \<notin> set w"
  shows "(case asterisk_scan w t of (fit, t') \<Rightarrow>
      (fit \<longrightarrow> pattern_end (pattern_loop w t')) \<and> (\<not> fit \<longrightarrow> t' = [])
      \<and> (fit \<longleftrightarrow> (\<exists>k < length (tl t). glob (head_pat w) (drop k (tl t)))))"
proof (induction "length t" arbitrary: t rule: less_induct)
  case less
  let ?t = "skip_to w (tl t)"
  have sk: "(\<exists>k < length (tl t). glob (head_pat w) (drop k (tl t)))
      \<longleftrightarrow> (\<exists>k < length ?t. glob (head_pat w) (drop k ?t))"
    by (rule skip_to_glob [OF w])
  show ?case
  proof (cases "?t = []")
    case True
    then show ?thesis using sk by (subst asterisk_scan.simps) (simp add: Let_def)
  next
    case ne: False
    have split: "(\<exists>k < length ?t. glob (head_pat w) (drop k ?t))
        \<longleftrightarrow> glob (head_pat w) ?t \<or> (\<exists>k < length (tl ?t). glob (head_pat w) (drop k (tl ?t)))"
      using ne by (cases ?t) (simp, metis Suc_less_eq drop0 drop_Suc_Cons length_Cons list.sel(3) not0_implies_Suc zero_less_Suc)
    show ?thesis
    proof (cases "glob (head_pat w) ?t")
      case True
      then show ?thesis using ne ind sk split by (subst asterisk_scan.simps) (simp add: Let_def)
    next
      case False
      then show ?thesis
        using less [OF skip_to_tl_less [OF ne]] ne ind sk split
        by (subst asterisk_scan.simps) (simp add: Let_def)
    qed
  qed
qed

lemma glob_head_Nil:
  assumes "deref w \<noteq> CHR ''*''"
  shows "glob (head_pat w) [] \<longleftrightarrow> head_pat w = []"
  using assms by (cases w) (auto simp: head_pat_Cons)

lemma glob_star_cases:
  assumes "deref w \<noteq> CHR ''*''" and "t \<noteq> []"
  shows "glob (CHR ''*'' # head_pat w) t \<longleftrightarrow> glob (head_pat w) t
    \<or> (\<exists>k < length (tl t). glob (head_pat w) (drop k (tl t))) \<or> head_pat w = []"
proof -
  obtain d u where t: "t = d # u" using assms(2) by (cases t) auto
  have "(\<exists>k \<le> length t. glob (head_pat w) (drop k t))
      \<longleftrightarrow> glob (head_pat w) t \<or> (\<exists>k \<le> length u. glob (head_pat w) (drop k u))"
    unfolding t by (metis Suc_le_mono drop0 drop_Suc_Cons length_Cons le0 not0_implies_Suc)
  moreover have "(\<exists>k \<le> length u. glob (head_pat w) (drop k u))
      \<longleftrightarrow> (\<exists>k < length u. glob (head_pat w) (drop k u)) \<or> glob (head_pat w) []"
    by (metis drop_all le_eq_less_or_eq order_refl)
  ultimately show ?thesis
    using glob_head_Nil [OF assms(1)] t by (simp add: glob_star del: glob.simps)
qed

lemma asterisk_glob:
  assumes ind: "\<And>u. pattern_end (pattern_loop (fst (star_rest w t)) u)
      \<longleftrightarrow> glob (head_pat (fst (star_rest w t))) u" and N: "NUL \<notin> set w"
  shows "(fst (asterisk w t) \<and> pattern_end (pattern_loop (fst (star_rest w t)) (snd (asterisk w t))))
    \<longleftrightarrow> glob (CHR ''*'' # head_pat w) t"
proof -
  let ?w = "fst (star_rest w t)" and ?t = "snd (star_rest w t)"
  have N': "NUL \<notin> set ?w" using N star_rest_set by blast
  have star: "deref ?w \<noteq> CHR ''*''" by (rule star_rest_stop)
  have endw: "pat_end ?w \<longleftrightarrow> head_pat ?w = []" by (rule pat_end_iff [OF N'])
  have goal: "glob (CHR ''*'' # head_pat w) t \<longleftrightarrow> glob (CHR ''*'' # head_pat ?w) ?t"
    by (rule star_rest_glob [symmetric])
  show ?thesis
  proof (cases "?t = []")
    case True
    then show ?thesis
      using ind goal endw glob_head_Nil [OF star] by (simp add: asterisk.simps Let_def)
  next
    case ne: False
    have rhs: "glob (CHR ''*'' # head_pat ?w) ?t \<longleftrightarrow> glob (head_pat ?w) ?t
      \<or> (\<exists>k < length (tl ?t). glob (head_pat ?w) (drop k (tl ?t))) \<or> head_pat ?w = []"
      by (rule glob_star_cases [OF star ne])
    show ?thesis
    proof (cases "glob (head_pat ?w) ?t")
      case True
      then show ?thesis using ind goal rhs ne by (simp add: asterisk.simps Let_def)
    next
      case False
      obtain fit u where fu: "asterisk_scan ?w ?t = (fit, u)" by fastforce
      from asterisk_scan_glob [OF ind star star_rest_stop(2) [OF ne] N', of ?t]
      have sc: "fit \<longrightarrow> pattern_end (pattern_loop ?w u)" "\<not> fit \<longrightarrow> u = []"
        "fit \<longleftrightarrow> (\<exists>k < length (tl ?t). glob (head_pat ?w) (drop k (tl ?t)))"
        unfolding fu by blast+
      have "asterisk w t = (fit \<or> u = [] \<and> pat_end ?w, u)"
        using False ne ind fu by (simp add: asterisk.simps Let_def)
      then show ?thesis
        using goal rhs False sc endw ind glob_head_Nil [OF star] by auto
    qed
  qed
qed

lemma pattern_glob: "NUL \<notin> set w \<Longrightarrow> pattern w t \<longleftrightarrow> glob (head_pat w) t"
  unfolding pattern_def
proof (induction "length w" arbitrary: w t rule: less_induct)
  case less
  show ?case
  proof (cases w)
    case Nil
    then show ?thesis by (simp add: pattern_loop.simps pat_end_def)
  next
    case (Cons c v)
    have N: "NUL \<notin> set v" using less.prems Cons by simp
    have IH: "pattern_end (pattern_loop v u) \<longleftrightarrow> glob (head_pat v) u" for u
      using less.hyps [of v u] N Cons by simp
    have dropstar: "pat_end (dropWhile (\<lambda>c. c = CHR ''*'') x) \<longleftrightarrow> glob (head_pat x) []"
      if "NUL \<notin> set x" for x
      using that
    proof (induction x)
      case (Cons a x)
      then show ?case by (auto simp: head_pat_Cons pat_end_def)
    qed (simp add: pat_end_def)
    show ?thesis
    proof (cases "c = CHR '';'' \<or> t = []")
      case True
      then have "pattern_loop w t = (True, w, t)" using Cons by (simp add: pattern_loop.simps)
      moreover have "glob (head_pat w) t \<longleftrightarrow> t = [] \<and> glob (head_pat w) []"
        using True Cons by (auto simp: head_pat_Cons)
      ultimately show ?thesis using dropstar [OF less.prems] by simp
    next
      case nt: False
      then obtain d u where t: "t = d # u" by (cases t) auto
      show ?thesis
      proof (cases "c = CHR ''*''")
        case False
        then show ?thesis
          using nt IH t Cons by (auto simp: pattern_loop.simps head_pat_Cons)
      next
        case True
        let ?w = "fst (star_rest v t)"
        have N': "NUL \<notin> set ?w" using N star_rest_set by blast
        have lw: "length ?w < length w" using star_rest_length [of v t] Cons by simp
        have ind: "pattern_end (pattern_loop ?w x) \<longleftrightarrow> glob (head_pat ?w) x" for x
          using less.hyps [OF lw N'] .
        have "pattern_end (pattern_loop w t)
            \<longleftrightarrow> fst (asterisk v t) \<and> pattern_end (pattern_loop ?w (snd (asterisk v t)))"
          using True nt Cons by (auto simp: pattern_loop.simps Let_def split: prod.splits)
        then show ?thesis
          using asterisk_glob [OF ind N] True Cons by (simp add: head_pat_Cons)
      qed
    qed
  qed
qed

lemma split_pats_strchr:
  "split_pats w = (case strchr w (CHR '';'') of None \<Rightarrow> [w] | Some k \<Rightarrow> take k w # split_pats (drop (Suc k) w))"
  by (induction w) (auto split: option.splits)

lemma head_pat_strchr:
  "head_pat w = (case strchr w (CHR '';'') of None \<Rightarrow> w | Some k \<Rightarrow> take k w)"
  by (induction w) (auto simp: head_pat_Cons split: option.splits)

text \<open>\<open>wildcardfit\<close> succeeds exactly when one of the patterns between the semicolons matches.\<close>

lemma wildcardfit_glob:
  "NUL \<notin> set w \<Longrightarrow> wildcardfit w t \<longleftrightarrow> (\<exists>p \<in> set (split_pats w). glob p t)"
proof (induction w t rule: wildcardfit.induct)
  case (1 w t)
  show ?case
  proof (cases "strchr w (CHR '';'')")
    case None
    then show ?thesis
      using "1.prems" pattern_glob [of w t] split_pats_strchr [of w] head_pat_strchr [of w]
      by (subst wildcardfit.simps) simp
  next
    case (Some k)
    have "NUL \<notin> set (drop (Suc k) w)" using "1.prems" by (auto dest: in_set_dropD)
    then show ?thesis
      using "1.IH" [OF _ Some] "1.prems" Some pattern_glob [of w t] split_pats_strchr [of w]
        head_pat_strchr [of w]
      by (subst wildcardfit.simps) auto
  qed
qed

section \<open>Properties\<close>

text \<open>C4: \<open>wildcardfit\<close> accepts a string exactly when one of the patterns between the semicolons of
  the wildcard describes all of it, where a question mark stands for one character, an asterisk for
  any number of characters and letters match in either case; the greedy search of \<open>asterisk\<close> with
  its skipping loops loses no match and always ends.\<close>

theorem wildcardfit_correct:
  "NUL \<notin> set wildcard \<Longrightarrow> wildcardfit wildcard test \<longleftrightarrow> (\<exists>p \<in> set (split_pats wildcard). glob p test)"
  by (rule wildcardfit_glob)

lemma wildcardfit_correct_witness: "wildcardfit ''*.txt;x?z*'' ''XYZ.mp3'' \<and> \<not> wildcardfit ''*.txt;x?z'' ''XYZ.mp3''"
proof -
  have "\<exists>p \<in> set (split_pats ''*.txt;x?z*''). glob p ''XYZ.mp3''"
    "\<not> (\<exists>p \<in> set (split_pats ''*.txt;x?z''). glob p ''XYZ.mp3'')"
    by code_simp+
  then show ?thesis
    using wildcardfit_correct [of "''*.txt;x?z*''" "''XYZ.mp3''"] wildcardfit_correct [of "''*.txt;x?z''" "''XYZ.mp3''"]
    by (simp del: split_pats.simps glob.simps)
qed

end
