(* ===== verification/FileUtil.thy ===== *)
theory FileUtil
  imports StrUtils
begin

text \<open>
  \<^verbatim>\<open>src/utils/fileutil.c\<close>: classification of locations (CD tracks, URLs, files), the functions
  that cut a location into drive, scheme, directory, file name and extension, URL decoding and
  normalisation.

  The analysis of a location reads one string and is a function on strings and offsets; each
  routine then copies a part of the location into the result buffer with \<^verbatim>\<open>strlcpy\<close>. The result
  buffer may be the location itself, as the header \<^verbatim>\<open>fileutil.h\<close> promises.
\<close>

section \<open>Classification\<close>

definition isslash :: "char \<Rightarrow> bool" where
  "isslash c \<longleftrightarrow> c = CHR ''/'' \<or> c = CHR 0x5C"

definition is_cdda :: "string \<Rightarrow> bool" where
  "is_cdda location \<longleftrightarrow> strnicmp_eq location ''cd://'' 5 \<or> strnicmp_eq location ''cdda://'' 7"

text \<open>\<open>do --cp; while (!P(*cp));\<close> from offset \<open>k\<close>: the offset found, \<open>None\<close> before the start.\<close>

fun back_to :: "(char \<Rightarrow> bool) \<Rightarrow> string \<Rightarrow> nat \<Rightarrow> nat option" where
  "back_to P s 0 = None"
| "back_to P s (Suc k) = (if P (s ! k) then Some k else back_to P s k)"

definition is_track :: "string \<Rightarrow> bool" where
  "is_track location \<longleftrightarrow>
     is_cdda location \<and>
     (case back_to isslash location (length location) of
        None \<Rightarrow> False  \<comment> \<open>not reached, see \<open>is_cdda_back_to\<close>\<close>
      | Some cp \<Rightarrow> strnicmp_eq (drop (Suc cp) location) ''track'' 5)"

definition is_scheme_char :: "char \<Rightarrow> bool" where
  "is_scheme_char c \<longleftrightarrow> isalnum c \<or> c = CHR ''+'' \<or> c = CHR ''-'' \<or> c = CHR ''.''"

definition has_drive :: "string \<Rightarrow> bool" where
  "has_drive location \<longleftrightarrow> isalpha (deref location) \<and> deref (tl location) = CHR '':''"

definition is_url :: "string \<Rightarrow> bool" where
  "is_url location \<longleftrightarrow>
     \<not> is_track location \<and> \<not> has_drive location
     \<and> deref (dropWhile is_scheme_char location) = CHR '':''"

definition is_file :: "string \<Rightarrow> bool" where
  "is_file location \<longleftrightarrow>
     location \<noteq> [] \<and>
     (strnicmp_eq location ''file://'' 7 \<or> \<not> is_track location \<and> \<not> is_url location)"

definition is_root :: "string \<Rightarrow> bool" where
  "is_root location \<longleftrightarrow>
     (let loc = (if strnicmp_eq location ''file:///'' 8 then drop 8 location else location)
      in length loc = 3 \<and> loc ! 1 = CHR '':'' \<and> isslash (loc ! 2))"

definition surl2file :: "string \<Rightarrow> string" where
  "surl2file location =
     (let loc = (if strnicmp_eq location ''file:'' 5 then drop 5 location else location)
      in if take 3 loc = ''///'' then drop 3 loc else loc)"

text \<open>\<open>stat\<close> is the operating system's: its result is \<open>S_IFDIR\<close> of a path, or nothing.\<close>

definition is_dir :: "(string \<Rightarrow> bool option) \<Rightarrow> string \<Rightarrow> bool" where
  "is_dir stat location \<longleftrightarrow> stat (surl2file location) = Some True"

text \<open>\<open>atol\<close>: white space, a sign, decimal digits; \<open>location + 15\<close> must lie inside the string.\<close>

fun digits_val :: "int \<Rightarrow> string \<Rightarrow> int" where
  "digits_val v [] = v"
| "digits_val v (c # s) = (if isdigit c then digits_val (10 * v + int (ccode c - 48)) s else v)"

definition atol :: "string \<Rightarrow> int" where
  "atol s = (let t = dropWhile isspace s
             in if deref t = CHR ''-'' then - digits_val 0 (tl t)
                else if deref t = CHR ''+'' then digits_val 0 (tl t)
                else digits_val 0 t)"

definition strack :: "string \<Rightarrow> int option" where
  "strack location =
     (if is_track location then (if 15 \<le> length location then Some (atol (drop 15 location)) else None)
      else Some 0)"

text \<open>\<open>sfnameext2\<close>: the offset of the name behind the last separator or colon.\<close>

fun sfnameext2_loop :: "string \<Rightarrow> nat \<Rightarrow> nat" where
  "sfnameext2_loop file 0 = 0"
| "sfnameext2_loop file (Suc k) =
     (if file ! k \<noteq> CHR 0x5C \<and> file ! k \<noteq> CHR '':'' \<and> file ! k \<noteq> CHR ''/''
      then sfnameext2_loop file k else Suc k)"

definition sfnameext2 :: "string \<Rightarrow> nat" where
  "sfnameext2 file = sfnameext2_loop file (length file)"

section \<open>The parts of a location\<close>

text \<open>The first steps common to \<open>sfnameext\<close>, \<open>sfext\<close>, \<open>sfname\<close> and \<open>sdrivedir\<close>: the scheme or drive, then the
  host of a URL or the server of a UNC path; the result is \<open>phead\<close> and \<open>is_url\<close>.\<close>

definition scan_scheme :: "string \<Rightarrow> nat \<times> bool" where
  "scan_scheme location =
     (let n = length (takeWhile is_scheme_char location)
      in if deref (drop n location) \<noteq> CHR '':'' then (0, False)
         else (Suc n, Suc n > 2 \<or> \<not> isalpha (deref location)))"

definition scan_host :: "string \<Rightarrow> nat \<times> bool" where
  "scan_host location =
     (let (phead, url) = scan_scheme location; p = drop phead location
      in if (url \<or> phead = 0) \<and> isslash (deref p) \<and> isslash (deref (tl p))
         then (phead + 2 + length (takeWhile (\<lambda>c. \<not> isslash c) (drop (phead + 2) location)), url)
         else (phead, url))"

text \<open>\<open>ptail\<close>: the fragment, parameters and query of a URL are cut off.\<close>

definition scan_tail :: "string \<Rightarrow> nat" where
  "scan_tail location =
     (let (phead, url) = scan_host location
      in if url
         then phead + length (takeWhile (\<lambda>c. c \<noteq> CHR ''#'' \<and> c \<noteq> CHR ''?'') (drop phead location))
         else length location)"

text \<open>\<open>for (pc = phead; *pc && pc < ptail; pc++) if (isslash(*pc)) phead = pc + 1;\<close>\<close>

fun skip_path :: "string \<Rightarrow> nat \<Rightarrow> nat \<Rightarrow> nat \<Rightarrow> nat" where
  "skip_path [] pc ptail phead = phead"
| "skip_path (c # s) pc ptail phead =
     (if pc < ptail then skip_path s (Suc pc) ptail (if isslash c then Suc pc else phead)
      else phead)"

definition name_head :: "string \<Rightarrow> nat" where
  "name_head location =
     (let phead = fst (scan_host location)
      in skip_path (drop phead location) phead (scan_tail location) phead)"

text \<open>\<open>for (pc = ptail - 1; pc > phead && *pc != '.'; pc--);\<close> from an offset \<open>pc \<ge> 0\<close>\<close>

fun back_dot :: "string \<Rightarrow> nat \<Rightarrow> nat \<Rightarrow> nat" where
  "back_dot s phead 0 = 0"
| "back_dot s phead (Suc pc) =
     (if Suc pc > phead \<and> s ! Suc pc \<noteq> CHR ''.'' then back_dot s phead pc else Suc pc)"

text \<open>\<open>pc\<close> behind that loop; \<open>-1\<close> is the byte before the string.\<close>

definition ext_pos :: "string \<Rightarrow> int" where
  "ext_pos location =
     (case scan_tail location of
        0 \<Rightarrow> - 1
      | Suc t \<Rightarrow> int (back_dot location (name_head location) t))"

text \<open>\<open>for (pc = ptail - 1; pc >= phead && !isslash(*pc); pc--);\<close>\<close>

fun back_slash :: "string \<Rightarrow> nat \<Rightarrow> nat \<Rightarrow> int" where
  "back_slash s phead 0 = - 1"
| "back_slash s phead (Suc pc) =
     (if pc \<ge> phead \<and> \<not> isslash (s ! pc) then back_slash s phead pc else int pc)"

definition dir_pos :: "string \<Rightarrow> int" where
  "dir_pos location = back_slash location (fst (scan_host location)) (scan_tail location)"

fun poff :: "ptr \<Rightarrow> int \<Rightarrow> ptr" where
  "poff (ob, i) k = (ob, nat (int i + k))"

section \<open>The routines\<close>

definition sdrive :: "store \<Rightarrow> ptr \<Rightarrow> ptr \<Rightarrow> nat \<Rightarrow> store option" where
  "sdrive h result location sz =
     do { loc \<leftarrow> cstr h location;
          if is_track loc then map_option fst (strlcpy h result (padd location 6) (min 3 sz))
          else if has_drive loc then map_option fst (strlcpy h result location (min 3 sz))
          else st h result NUL }"

definition scheme :: "store \<Rightarrow> ptr \<Rightarrow> ptr \<Rightarrow> nat \<Rightarrow> store option" where
  "scheme h result location sz =
     do { loc \<leftarrow> cstr h location;
          if \<not> has_drive loc then
            (let n = length (takeWhile is_scheme_char loc)
             in if deref (drop n loc) = CHR '':''
                then map_option fst (strlcpy h result location (min (n + 2) sz))
                else Some h)
          else if sz \<noteq> 0 then st h result NUL
          else Some h }"

definition sfnameext :: "store \<Rightarrow> ptr \<Rightarrow> ptr \<Rightarrow> nat \<Rightarrow> store option" where
  "sfnameext h result location sz =
     do { loc \<leftarrow> cstr h location;
          let phead = name_head loc;
          map_option fst (strlcpy h result (padd location phead) (min (scan_tail loc - phead + 1) sz)) }"

definition sfext :: "store \<Rightarrow> ptr \<Rightarrow> ptr \<Rightarrow> nat \<Rightarrow> store option" where
  "sfext h result location sz =
     do { loc \<leftarrow> cstr h location;
          let pc = ext_pos loc;
          c \<leftarrow> ld_at h location pc;
          if c = CHR ''.'' \<and> pc \<noteq> int (name_head loc)
          then map_option fst (strlcpy h result (poff location pc) (min (nat (int (scan_tail loc) - pc + 1)) sz))
          else if sz \<noteq> 0 then st h result NUL
          else Some h }"

definition sfname :: "store \<Rightarrow> ptr \<Rightarrow> ptr \<Rightarrow> nat \<Rightarrow> store option" where
  "sfname h result location sz =
     do { loc \<leftarrow> cstr h location;
          let pc = ext_pos loc;
          let phead = name_head loc;
          c \<leftarrow> ld_at h location pc;
          let ptail = (if c = CHR ''.'' \<and> pc \<noteq> int phead then pc else int (scan_tail loc));
          map_option fst (strlcpy h result (padd location phead) (min (nat (ptail - int phead + 1)) sz)) }"

definition sdrivedir :: "store \<Rightarrow> ptr \<Rightarrow> ptr \<Rightarrow> nat \<Rightarrow> store option" where
  "sdrivedir h result location sz =
     do { loc \<leftarrow> cstr h location;
          let pc = dir_pos loc;
          c \<leftarrow> ld_at h location pc;
          let ptail = (if isslash c then pc + 1 else int (scan_tail loc));
          map_option fst (strlcpy h result location (min (nat (ptail + 1)) sz)) }"

section \<open>URL decoding and normalisation\<close>

abbreviation xdigits :: string where
  "xdigits \<equiv> ''0123456789ABCDEF''"

text \<open>The loop of \<open>sdecode\<close>: \<open>strchr\<close> also finds the terminator of \<open>digits\<close>, as digit 16; an escape
  with a wrong digit advances both pointers and stores nothing.\<close>

function sdecode_loop :: "store \<Rightarrow> ptr \<Rightarrow> ptr \<Rightarrow> nat \<Rightarrow> (store \<times> ptr) option" where
  "sdecode_loop h ps pr sz =
     (case ld h ps of
        None \<Rightarrow> None
      | Some c \<Rightarrow>
          if c = NUL \<or> sz = 0 then Some (h, pr)
          else if c = CHR ''%'' then
            (case ld h (padd ps 1) of
               None \<Rightarrow> None
             | Some c1 \<Rightarrow>
                 (case strchr xdigits (toupper c1) of
                    None \<Rightarrow> sdecode_loop h (padd ps 2) (padd pr 1) (sz - 1)
                  | Some i \<Rightarrow>
                      if c1 = NUL then sdecode_loop h (padd ps 2) (padd pr 1) (sz - 1)
                      else (case ld h (padd ps 2) of
                              None \<Rightarrow> None
                            | Some c2 \<Rightarrow>
                                (case strchr xdigits (toupper c2) of
                                   None \<Rightarrow> sdecode_loop h (padd ps 3) (padd pr 1) (sz - 1)
                                 | Some j \<Rightarrow>
                                     (case st h pr (char_of (i * 16 + j)) of
                                        None \<Rightarrow> None
                                      | Some h' \<Rightarrow> sdecode_loop h' (padd ps 3) (padd pr 1) (sz - 1))))))
          else
            (case st h pr c of
               None \<Rightarrow> None
             | Some h' \<Rightarrow> sdecode_loop h' (padd ps 1) (padd pr 1) (sz - 1)))"
  by pat_completeness auto
termination
  by (relation "measure (\<lambda>(h, ps, pr, sz). sz)") auto

declare sdecode_loop.simps [simp del]

definition sdecode :: "store \<Rightarrow> ptr \<Rightarrow> ptr \<Rightarrow> nat \<Rightarrow> store option" where
  "sdecode h result location sz =
     (if sz \<noteq> 0
      then do { (h', pr) \<leftarrow> sdecode_loop h location result (sz - 1); st h' pr NUL }
      else Some h)"

definition sdnameext :: "store \<Rightarrow> ptr \<Rightarrow> ptr \<Rightarrow> nat \<Rightarrow> store option" where
  "sdnameext h result location sz =
     do { loc \<leftarrow> cstr h location;
          if is_url loc
          then do { h' \<leftarrow> sfnameext h result location sz; sdecode h' result result sz }
          else sfnameext h result location sz }"

definition sdname :: "store \<Rightarrow> ptr \<Rightarrow> ptr \<Rightarrow> nat \<Rightarrow> store option" where
  "sdname h result location sz =
     do { loc \<leftarrow> cstr h location;
          if is_url loc
          then do { h' \<leftarrow> sfname h result location sz; sdecode h' result result sz }
          else sfname h result location sz }"

text \<open>The last loop of \<open>snormal\<close>: \<open>strchr\<close> for the next backslash, which becomes a slash.\<close>

function conv_slashes :: "store \<Rightarrow> ptr \<Rightarrow> store option" where
  "conv_slashes h p =
     (case cstr h p of
        None \<Rightarrow> None
      | Some s \<Rightarrow>
          (case strchr s (CHR 0x5C) of
             None \<Rightarrow> Some h
           | Some k \<Rightarrow>
               (case st h (padd p k) (CHR ''/'') of
                  None \<Rightarrow> None
                | Some h' \<Rightarrow> conv_slashes h' (padd p (Suc k)))))"
  by pat_completeness auto
termination
proof (relation "measure (\<lambda>(h, p). length (h (fst p)) - snd p)")
  fix h :: store and p :: ptr and s k h'
  assume a: "cstr h p = Some s" "strchr s (CHR 0x5C) = Some k" "st h (padd p k) (CHR ''/'') = Some h'"
  have "length (h' (fst p)) = length (h (fst p))" by (rule st_length [OF a(3)])
  moreover have "snd p < length (h (fst p))" using cstr_fits [OF a(1)] by (simp add: fits_def)
  ultimately show "((h', padd p (Suc k)), h, p) \<in> measure (\<lambda>(h, p). length (h (fst p)) - snd p)"
    by simp
qed simp

declare conv_slashes.simps [simp del]

text \<open>\<open>snormal\<close>: \<open>sch\<close> is the local array of five bytes, whose contents are not initialised; the
  second component of the result says whether \<open>result\<close> (and not \<open>NULL\<close>) is returned.\<close>

definition snormal :: "store \<Rightarrow> ptr \<Rightarrow> ptr \<Rightarrow> ptr \<Rightarrow> nat \<Rightarrow> (store \<times> bool) option" where
  "snormal h sch result location sz =
     (if sz \<le> 8 then Some (h, False)
      else do {
        h1 \<leftarrow> scheme h sch location 5;
        c \<leftarrow> ld h1 sch;
        loc \<leftarrow> cstr h1 location;
        h2 \<leftarrow> (if c \<noteq> NUL then
                 do { s \<leftarrow> cstr h1 sch;
                      if strnicmp_eq s ''cd:'' 3 then
                        (if 3 \<le> length loc then
                           (let len = min (length loc - 3) (sz - 5 - 1)
                            in do { h2 \<leftarrow> memmove h1 (padd result 5) location len;
                                    h3 \<leftarrow> st h2 (padd result (len + 5)) NUL;
                                    blk_st h3 result ''cdda:'' })
                         else None)
                      else if result \<noteq> location then map_option fst (strlcpy h1 result location sz)
                      else Some h1 }
               else
                 (let len = min (length loc) (sz - 8 - 1)
                  in do { h2 \<leftarrow> memmove h1 (padd result 8) location len;
                          h3 \<leftarrow> st h2 (padd result (len + 8)) NUL;
                          blk_st h3 result ''file:///'' }));
        h3 \<leftarrow> conv_slashes h2 result;
        Some (h3, True) })"

section \<open>CD parameters\<close>

record cdda_region =
  drive :: string
  track :: int
  sectors :: "int \<times> int"

text \<open>The directives of \<open>sscanf\<close> that \<open>scdparams\<close> uses: a literal, \<open>%c\<close>, \<open>%*1[set]\<close>, \<open>%d\<close> and \<open>%n\<close>;
  the arguments are the places where the results go.\<close>

datatype arg = ADrive | ATrack | ASec0 | ASec1

datatype scan_dir = SLit char | SChr | SSkip string | SInt arg | SPos

fun set_int :: "arg \<Rightarrow> int \<Rightarrow> cdda_region \<Rightarrow> cdda_region" where
  "set_int ADrive v r = r"
| "set_int ATrack v r = r\<lparr>track := v\<rparr>"
| "set_int ASec0 v r = r\<lparr>sectors := (v, snd (sectors r))\<rparr>"
| "set_int ASec1 v r = r\<lparr>sectors := (fst (sectors r), v)\<rparr>"

text \<open>Sign and digits of \<open>%d\<close> behind white space: the value and the rest of the input.\<close>

definition scan_int :: "string \<Rightarrow> (int \<times> string) option" where
  "scan_int s =
     (let t = dropWhile isspace s;
          sg = deref t = CHR ''-'';
          u = (if sg \<or> deref t = CHR ''+'' then tl t else t)
      in if isdigit (deref u)
         then Some (if sg then - digits_val 0 u else digits_val 0 u, dropWhile isdigit u)
         else None)"

text \<open>State: the input, its whole length, the number of conversions, the region and \<open>len\<close>. Running
  out of input before the first conversion is \<open>EOF\<close>, \<open>-1\<close>.\<close>

definition scan_stop :: "string \<Rightarrow> int \<Rightarrow> int" where
  "scan_stop s n = (if s = [] \<and> n = 0 then - 1 else n)"

fun sscanf :: "scan_dir list \<Rightarrow> string \<Rightarrow> nat \<Rightarrow> int \<Rightarrow> cdda_region \<Rightarrow> nat \<Rightarrow> int \<times> cdda_region \<times> nat" where
  "sscanf [] s L n r len = (n, r, len)"
| "sscanf (SLit c # f) s L n r len =
     (if s \<noteq> [] \<and> hd s = c then sscanf f (tl s) L n r len else (scan_stop s n, r, len))"
| "sscanf (SSkip cs # f) s L n r len =
     (if s \<noteq> [] \<and> hd s \<in> set cs then sscanf f (tl s) L n r len else (scan_stop s n, r, len))"
| "sscanf (SChr # f) s L n r len =
     (if s \<noteq> [] then sscanf f (tl s) L (n + 1) (r\<lparr>drive := (drive r)[0 := hd s]\<rparr>) len
      else (scan_stop s n, r, len))"
| "sscanf (SInt a # f) s L n r len =
     (case scan_int s of
        Some (v, t) \<Rightarrow> sscanf f t L (n + 1) (set_int a v r) len
      | None \<Rightarrow> (scan_stop (dropWhile isspace s) n, r, len))"
| "sscanf (SPos # f) s L n r len = sscanf f s L n r (L - length s)"

definition track_fmt :: "scan_dir list" where
  "track_fmt = [SLit (CHR ''/''), SChr, SLit (CHR '':''), SSkip [CHR ''/'', CHR 0x5C], SPos,
     SSkip ''Tt'', SSkip ''Rr'', SSkip ''Aa'', SSkip ''Cc'', SSkip ''Kk'', SInt ATrack, SPos]"

definition frame_fmt :: "scan_dir list" where
  "frame_fmt = [SLit (CHR ''/''), SChr, SLit (CHR '':''), SSkip [CHR ''/'', CHR 0x5C],
     SSkip ''Ff'', SSkip ''Rr'', SSkip ''Aa'', SSkip ''Mm'', SSkip ''Ee'',
     SInt ASec0, SLit (CHR ''-''), SInt ASec1, SPos]"

text \<open>The region after the call and whether it (and not \<open>NULL\<close>) is returned; \<open>len\<close> starts
  uninitialised, with the value \<open>len0\<close>.\<close>

definition scdparams :: "cdda_region \<Rightarrow> nat \<Rightarrow> string \<Rightarrow> cdda_region \<times> bool" where
  "scdparams result len0 location =
     (if \<not> is_cdda location then (result, False)
      else
        (let r0 = result\<lparr>track := 0, sectors := (0, 0)\<rparr>;
             cp = (case strchr location (CHR '':'') of None \<Rightarrow> [] | Some k \<Rightarrow> drop (k + 3) location);
             (n1, r1, len1) = sscanf track_fmt cp (length cp) 0 r0 len0;
             (ok, r2, len2) =
               (if n1 < 1
                then (let (n2, r2, len2) = sscanf frame_fmt cp (length cp) 0 r1 len1 in (n2 = 3, r2, len2))
                else (True, r1, len1))
         in if \<not> ok \<or> len2 \<noteq> length cp then (r2, False)
            else (r2\<lparr>drive := (drive r2)[1 := CHR '':'', 2 := NUL]\<rparr>, True)))"

section \<open>What the analysis finds\<close>

lemma back_to_None: "back_to P s k = None \<longleftrightarrow> (\<forall>i < k. \<not> P (s ! i))"
  by (induction k) (auto simp: less_Suc_eq)

lemma back_to_Some:
  "back_to P s k = Some i \<Longrightarrow> i < k \<and> P (s ! i) \<and> (\<forall>j. i < j \<and> j < k \<longrightarrow> \<not> P (s ! j))"
  by (induction k) (auto simp: less_Suc_eq split: if_splits)

lemma is_cdda_back_to: "is_cdda location \<Longrightarrow> back_to isslash location (length location) \<noteq> None"
proof -
  assume "is_cdda location"
  then consider "strnicmp_eq location ''cd://'' 5" | "strnicmp_eq location ''cdda://'' 7"
    by (auto simp: is_cdda_def)
  then have "\<exists>k < length location. toupper (location ! k) = toupper (CHR ''/'')"
  proof cases
    case 1
    then show ?thesis using strnicmp_eq_nth [OF 1, of 4] by auto
  next
    case 2
    then show ?thesis using strnicmp_eq_nth [OF 2, of 6] by auto
  qed
  moreover have "toupper c = toupper (CHR ''/'') \<longleftrightarrow> c = CHR ''/''" for c
    by (rule toupper_other) (simp add: ctype_defs)
  ultimately show ?thesis by (auto simp: back_to_None isslash_def)
qed

lemma scan_scheme_le: "fst (scan_scheme loc) \<le> length loc"
proof -
  let ?n = "length (takeWhile is_scheme_char loc)"
  have "?n < length loc" if "deref (drop ?n loc) = CHR '':''"
    using that by (cases "?n < length loc") auto
  then show ?thesis by (auto simp: scan_scheme_def Let_def)
qed

lemma scan_host_le: "fst (scan_host loc) \<le> length loc"
proof -
  obtain p u where pu: "scan_scheme loc = (p, u)" by fastforce
  have p: "p \<le> length loc" using scan_scheme_le [of loc] pu by simp
  have "p + 2 + length (takeWhile f (drop (p + 2) loc)) \<le> length loc"
    if "isslash (deref (tl (drop p loc)))" for f
  proof -
    have "2 \<le> length (drop p loc)"
      using that by (cases "drop p loc" rule: list.exhaust; cases "tl (drop p loc)") (auto simp: isslash_def)
    moreover have "length (takeWhile f (drop (p + 2) loc)) \<le> length (drop (p + 2) loc)"
      by (rule length_takeWhile_le)
    ultimately show ?thesis by simp
  qed
  then show ?thesis using p by (auto simp: scan_host_def pu Let_def)
qed

lemma scan_tail_le: "fst (scan_host loc) \<le> scan_tail loc" "scan_tail loc \<le> length loc"
proof -
  obtain p u where pu: "scan_host loc = (p, u)" by fastforce
  have "p \<le> length loc" using scan_host_le [of loc] pu by simp
  moreover have "length (takeWhile f (drop p loc)) \<le> length loc - p" for f
    using length_takeWhile_le [of f "drop p loc"] by simp
  ultimately show "fst (scan_host loc) \<le> scan_tail loc" "scan_tail loc \<le> length loc"
    by (auto simp: scan_tail_def pu le_diff_conv2 add.commute)
qed

text \<open>The head of the name is just behind the last slash of the path.\<close>

lemma skip_path_spec:
  assumes "s = drop pc loc" and "pc \<le> length loc" and "ptail \<le> length loc" and "ph \<le> pc"
    and "\<And>k. ph \<le> k \<Longrightarrow> k < pc \<Longrightarrow> \<not> isslash (loc ! k)" and "pc \<le> ptail"
  shows "ph \<le> skip_path s pc ptail ph \<and> skip_path s pc ptail ph \<le> ptail
    \<and> (\<forall>k. skip_path s pc ptail ph \<le> k \<and> k < ptail \<longrightarrow> \<not> isslash (loc ! k))
    \<and> (skip_path s pc ptail ph = ph \<or>
        (ph < skip_path s pc ptail ph \<and> isslash (loc ! (skip_path s pc ptail ph - 1))))"
  using assms
proof (induction s pc ptail ph rule: skip_path.induct)
  case (1 pc ptail ph)
  then have "pc = length loc" by simp
  then show ?case using 1 by auto
next
  case (2 c s pc ptail ph)
  show ?case
  proof (cases "pc < ptail")
    case False
    then have e: "skip_path (c # s) pc ptail ph = ph" by simp
    show ?thesis unfolding e using 2(3-) False by auto
  next
    case True
    have pl: "pc < length loc" using True 2(4) by simp
    have c: "loc ! pc = c" and s: "s = drop (Suc pc) loc"
      using 2(2) pl by (simp_all add: Cons_nth_drop_Suc [symmetric])
    let ?ph = "if isslash c then Suc pc else ph"
    have "?ph \<le> skip_path s (Suc pc) ptail ?ph \<and> skip_path s (Suc pc) ptail ?ph \<le> ptail
      \<and> (\<forall>k. skip_path s (Suc pc) ptail ?ph \<le> k \<and> k < ptail \<longrightarrow> \<not> isslash (loc ! k))
      \<and> (skip_path s (Suc pc) ptail ?ph = ?ph \<or>
          (?ph < skip_path s (Suc pc) ptail ?ph \<and> isslash (loc ! (skip_path s (Suc pc) ptail ?ph - 1))))"
      using 2(3-7) True s pl c by (intro "2.IH" [OF True]) (auto simp: less_Suc_eq split: if_splits)
    then show ?thesis using True c 2(5) by (auto split: if_splits)
  qed
qed

lemma name_head_spec:
  "fst (scan_host loc) \<le> name_head loc" "name_head loc \<le> scan_tail loc"
  "\<And>k. name_head loc \<le> k \<Longrightarrow> k < scan_tail loc \<Longrightarrow> \<not> isslash (loc ! k)"
  "name_head loc = fst (scan_host loc) \<or>
     fst (scan_host loc) < name_head loc \<and> isslash (loc ! (name_head loc - 1))"
  using skip_path_spec [OF refl scan_host_le scan_tail_le(2) order_refl _ scan_tail_le(1), of loc]
  by (auto simp: name_head_def Let_def)

definition name_part :: "string \<Rightarrow> string" where
  "name_part loc = take (scan_tail loc - name_head loc) (drop (name_head loc) loc)"

lemma name_part_no_slash: "c \<in> set (name_part loc) \<Longrightarrow> \<not> isslash c"
  using name_head_spec(2,3) [of loc] by (auto simp: name_part_def in_set_conv_nth)

lemma length_name_part: "length (name_part loc) = scan_tail loc - name_head loc"
  using name_head_spec(2) [of loc] scan_tail_le(2) [of loc] by (simp add: name_part_def)

lemma sfnameext_cstr:
  assumes "cstr h location = Some loc" and "upward result location" and "0 < sz"
    and "fits h result (min (Suc (length (name_part loc))) sz)"
  shows "\<exists>h'. sfnameext h result location sz = Some h'
    \<and> cstr h' result = Some (take (sz - 1) (name_part loc)) \<and> (\<forall>ob. ob \<noteq> fst result \<longrightarrow> h' ob = h ob)"
proof -
  have "name_head loc + (scan_tail loc - name_head loc) \<le> length loc"
    using name_head_spec(2) [of loc] scan_tail_le(2) [of loc] by simp
  from lcpy.copy_part [OF assms(1) upward_right [OF assms(2)] this assms(3) assms(4) [unfolded length_name_part]]
  show ?thesis using assms(1) by (auto simp: sfnameext_def name_part_def Let_def)
qed

lemma back_slash_spec:
  "ph \<le> k \<Longrightarrow>
   (\<exists>i. back_slash s ph k = int i \<and> ph \<le> i \<and> i < k \<and> isslash (s ! i) \<and> (\<forall>j. i < j \<and> j < k \<longrightarrow> \<not> isslash (s ! j)))
   \<or> back_slash s ph k = int ph - 1 \<and> (\<forall>j. ph \<le> j \<and> j < k \<longrightarrow> \<not> isslash (s ! j))"
proof (induction k)
  case (Suc k)
  show ?case
  proof (cases "ph \<le> k \<and> \<not> isslash (s ! k)")
    case True
    then show ?thesis using Suc.IH by (auto simp: less_Suc_eq)
  next
    case False
    then show ?thesis using Suc.prems by (cases "ph = Suc k") auto
  qed
qed auto

text \<open>When the path has a slash, \<open>sdrivedir\<close> and \<open>sfnameext\<close> cut the location at the same place.\<close>

lemma dir_pos_name_head:
  assumes "fst (scan_host loc) \<le> k" and "k < scan_tail loc" and "isslash (loc ! k)"
  shows "0 < name_head loc \<and> dir_pos loc = int (name_head loc - 1) \<and> isslash (loc ! (name_head loc - 1))"
proof -
  have nh: "fst (scan_host loc) < name_head loc" "isslash (loc ! (name_head loc - 1))"
    using name_head_spec [of loc] assms by (auto simp: not_less)
  obtain i where i: "dir_pos loc = int i" "fst (scan_host loc) \<le> i" "i < scan_tail loc" "isslash (loc ! i)"
    "\<forall>j. i < j \<and> j < scan_tail loc \<longrightarrow> \<not> isslash (loc ! j)"
    using back_slash_spec [OF scan_tail_le(1) [of loc], of loc] assms unfolding dir_pos_def by blast
  have "i < name_head loc" using i(3,4) name_head_spec(3) [of loc i] by (metis not_le)
  moreover have "\<not> i < name_head loc - 1"
    using i(5) nh name_head_spec(2) [of loc] by auto
  ultimately have "i = name_head loc - 1" by simp
  then show ?thesis using i nh by simp
qed

lemma sdrivedir_cstr:
  assumes "cstr h location = Some loc" and "upward result location" and "0 < sz"
    and "fst (scan_host loc) \<le> k" and "k < scan_tail loc" and "isslash (loc ! k)"
    and "fits h result (min (Suc (name_head loc)) sz)"
  shows "\<exists>h'. sdrivedir h result location sz = Some h'
    \<and> cstr h' result = Some (take (sz - 1) (take (name_head loc) loc))
    \<and> (\<forall>ob. ob \<noteq> fst result \<longrightarrow> h' ob = h ob)"
proof -
  have d: "0 < name_head loc" "dir_pos loc = int (name_head loc - 1)" "isslash (loc ! (name_head loc - 1))"
    using dir_pos_name_head [OF assms(4-6)] by auto
  have le: "name_head loc \<le> length loc"
    using name_head_spec(2) [of loc] scan_tail_le(2) [of loc] by simp
  have "ld h (padd location (name_head loc - 1)) = Some (loc ! (name_head loc - 1))"
    using ld_cstr_at [OF assms(1)] d(1) le by simp
  moreover obtain n where "name_head loc = Suc n" using d(1) by (cases "name_head loc") auto
  ultimately have "sdrivedir h result location sz
      = map_option fst (strlcpy h result location (min (Suc (name_head loc)) sz))"
    using assms(1) d by (simp add: sdrivedir_def nat_add_distrib)
  then show ?thesis
    using lcpy.copy_part [OF assms(1), of result 0 "name_head loc" sz] assms(2,3,7) le by auto
qed

lemma back_dot_spec:
  "ph \<le> k \<Longrightarrow> ph \<le> back_dot s ph k \<and> back_dot s ph k \<le> k
   \<and> (\<forall>j. back_dot s ph k < j \<and> j \<le> k \<longrightarrow> s ! j \<noteq> CHR ''.'')
   \<and> (back_dot s ph k = ph \<or> s ! back_dot s ph k = CHR ''.'')"
proof (induction k)
  case (Suc k)
  then show ?case by (cases "Suc k = ph") (auto simp: le_Suc_eq)
qed simp

text \<open>Where the extension of a location with a name starts.\<close>

definition ext_head :: "string \<Rightarrow> nat" where
  "ext_head loc =
     (let pc = back_dot loc (name_head loc) (scan_tail loc - 1)
      in if loc ! pc = CHR ''.'' \<and> pc \<noteq> name_head loc then pc else scan_tail loc)"

lemma ext_head_spec:
  assumes "name_head loc < scan_tail loc"
  shows "name_head loc < ext_head loc" "ext_head loc \<le> scan_tail loc"
    "ext_head loc < scan_tail loc \<Longrightarrow> loc ! ext_head loc = CHR ''.''"
    "\<And>k. ext_head loc < k \<Longrightarrow> k < scan_tail loc \<Longrightarrow> loc ! k \<noteq> CHR ''.''"
proof -
  let ?pc = "back_dot loc (name_head loc) (scan_tail loc - 1)"
  have b: "name_head loc \<le> ?pc" "?pc \<le> scan_tail loc - 1"
    "\<forall>j. ?pc < j \<and> j \<le> scan_tail loc - 1 \<longrightarrow> loc ! j \<noteq> CHR ''.''"
    using back_dot_spec [of "name_head loc" "scan_tail loc - 1" loc] assms by auto
  then show "name_head loc < ext_head loc" "ext_head loc \<le> scan_tail loc"
    "ext_head loc < scan_tail loc \<Longrightarrow> loc ! ext_head loc = CHR ''.''"
    using assms by (auto simp: ext_head_def Let_def)
  fix k
  assume "ext_head loc < k" "k < scan_tail loc"
  then have "?pc < k" "k \<le> scan_tail loc - 1" using b by (auto simp: ext_head_def Let_def split: if_splits)
  then show "loc ! k \<noteq> CHR ''.''" using b(3) by blast
qed

lemma ext_pos_name:
  assumes "name_head loc < scan_tail loc"
  shows "ext_pos loc = int (back_dot loc (name_head loc) (scan_tail loc - 1))"
  using assms by (cases "scan_tail loc") (auto simp: ext_pos_def)

lemma ext_ld:
  assumes "cstr h location = Some loc" and "name_head loc < scan_tail loc"
  shows "ld_at h location (ext_pos loc) = Some (loc ! nat (ext_pos loc))"
    "nat (ext_pos loc) < length loc"
proof -
  have "back_dot loc (name_head loc) (scan_tail loc - 1) \<le> scan_tail loc - 1"
    using back_dot_spec [of "name_head loc" "scan_tail loc - 1" loc] assms(2) by auto
  then have "back_dot loc (name_head loc) (scan_tail loc - 1) < length loc"
    using scan_tail_le(2) [of loc] assms(2) by linarith
  then show "ld_at h location (ext_pos loc) = Some (loc ! nat (ext_pos loc))"
    "nat (ext_pos loc) < length loc"
    using ld_cstr_at [OF assms(1)] by (simp_all add: ext_pos_name [OF assms(2)])
qed

lemma sfext_cstr:
  assumes "cstr h location = Some loc" and "upward result location" and "0 < sz"
    and "name_head loc < scan_tail loc"
    and "fits h result (min (Suc (scan_tail loc - ext_head loc)) sz)"
  shows "\<exists>h'. sfext h result location sz = Some h'
    \<and> cstr h' result = Some (take (sz - 1) (take (scan_tail loc - ext_head loc) (drop (ext_head loc) loc)))
    \<and> (\<forall>ob. ob \<noteq> fst result \<longrightarrow> h' ob = h ob)"
proof -
  let ?pc = "back_dot loc (name_head loc) (scan_tail loc - 1)"
  have pc: "ext_pos loc = int ?pc" by (rule ext_pos_name [OF assms(4)])
  note l = ext_ld [OF assms(1,4)]
  note t = scan_tail_le(2) [of loc] ext_head_spec [OF assms(4)]
  show ?thesis
  proof (cases "loc ! ?pc = CHR ''.'' \<and> ?pc \<noteq> name_head loc")
    case True
    then have e: "ext_head loc = ?pc" by (simp add: ext_head_def)
    have po: "poff location (int ?pc) = padd location ?pc" by (cases location) (simp add: nat_int_add)
    have "sfext h result location sz
        = map_option fst (strlcpy h result (padd location ?pc) (min (Suc (scan_tail loc - ?pc)) sz))"
      using assms(1) l pc True t(3) e po by (simp add: sfext_def Let_def nat_diff_Suc)
    then show ?thesis
      using lcpy.copy_part [OF assms(1) upward_right [OF assms(2)], of ?pc "scan_tail loc - ?pc" sz]
        assms(3,5) t e by auto
  next
    case False
    then have e: "ext_head loc = scan_tail loc" by (auto simp: ext_head_def Let_def)
    have f1: "fits h result 1" using assms(5,3) by (rule_tac fits_mono) auto
    have "sfext h result location sz = Some (put h result [NUL])"
      using assms(1,3) l pc False st_put [OF f1] by (auto simp: sfext_def Let_def)
    then show ?thesis using e f1 cstr_put_same [of h result "[]"] by auto
  qed
qed

lemma sfname_cstr:
  assumes "cstr h location = Some loc" and "upward result location" and "0 < sz"
    and "name_head loc < scan_tail loc"
    and "fits h result (min (Suc (ext_head loc - name_head loc)) sz)"
  shows "\<exists>h'. sfname h result location sz = Some h'
    \<and> cstr h' result = Some (take (sz - 1) (take (ext_head loc - name_head loc) (drop (name_head loc) loc)))
    \<and> (\<forall>ob. ob \<noteq> fst result \<longrightarrow> h' ob = h ob)"
proof -
  let ?pc = "back_dot loc (name_head loc) (scan_tail loc - 1)"
  have pc: "ext_pos loc = int ?pc" by (rule ext_pos_name [OF assms(4)])
  note l = ext_ld [OF assms(1,4)]
  note t = scan_tail_le(2) [of loc] ext_head_spec [OF assms(4)]
  have "sfname h result location sz = map_option fst (strlcpy h result (padd location (name_head loc))
      (min (Suc (ext_head loc - name_head loc)) sz))"
    using assms(1,4) l pc t(2) by (auto simp: sfname_def ext_head_def Let_def nat_diff_Suc)
  then show ?thesis
    using lcpy.copy_part [OF assms(1) upward_right [OF assms(2)], of "name_head loc" "ext_head loc - name_head loc" sz]
      assms(3,5) t by auto
qed

section \<open>What is decoded\<close>

definition hex_digit :: "char \<Rightarrow> nat option" where
  "hex_digit c = (if c = NUL then None else strchr xdigits (toupper c))"

fun url_decode :: "string \<Rightarrow> string option" where
  "url_decode [] = Some []"
| "url_decode (c # s) =
     (if c = CHR ''%'' then
        (case s of
           a # b # t \<Rightarrow>
             (case (hex_digit a, hex_digit b) of
                (Some i, Some j) \<Rightarrow> map_option (Cons (char_of (i * 16 + j))) (url_decode t)
              | _ \<Rightarrow> None)
         | _ \<Rightarrow> None)
      else map_option (Cons c) (url_decode s))"

lemma url_decode_escape:
  assumes "url_decode (CHR ''%'' # s) = Some y"
  obtains a b t i j z where "s = a # b # t" "hex_digit a = Some i" "hex_digit b = Some j"
    "url_decode t = Some z" "y = char_of (i * 16 + j) # z"
  using assms by (auto split: list.splits option.splits)

lemma sdecode_step: \<comment> \<open>one character stored at \<open>pr\<close>, the string behind \<open>ps + k\<close> untouched\<close>
  assumes "cstr h ps = Some x" and "upward pr ps" and "fits h pr 1" and "0 < k" and "k \<le> length x"
  shows "cstr (put h pr [c]) (padd ps k) = Some (drop k x)" and "upward (padd pr 1) (padd ps k)"
proof -
  have "apart pr (length [c]) (padd ps k)" using assms(2,4) by (auto simp: apart_def upward_def)
  then have "cstr (put h pr [c]) (padd ps k) = cstr h (padd ps k)"
    using assms(3) by (intro cstr_put_apart) simp_all
  then show "cstr (put h pr [c]) (padd ps k) = Some (drop k x)"
    using cstr_padd [OF assms(1,5)] by simp
  show "upward (padd pr 1) (padd ps k)" using assms(2,4) by (auto simp: upward_def)
qed

lemma sdecode_loop_put:
  "cstr h ps = Some x \<Longrightarrow> url_decode x = Some y \<Longrightarrow> upward pr ps \<Longrightarrow> fits h pr (min sz (length y)) \<Longrightarrow>
   sdecode_loop h ps pr sz = Some (put h pr (take sz y), padd pr (min sz (length y)))"
proof (induction "length x" arbitrary: x h ps pr sz y rule: less_induct)
  case less
  note ld = cstr_ld [OF less.prems(1)]
  show ?case
  proof (cases "x = [] \<or> sz = 0")
    case True
    then show ?thesis using ld less.prems(2) by (subst sdecode_loop.simps) (auto split: list.splits)
  next
    case False
    then obtain c s m where x: "x = c # s" and m: "sz = Suc m" by (cases x; cases sz) auto
    have cN: "c \<noteq> NUL" using cstr_NUL [OF less.prems(1)] x by auto
    have ldc: "ld h ps = Some c" using ld x by simp
    have rest: "sdecode_loop (put h pr [d]) (padd ps k) (padd pr 1) m
        = Some (put h pr (d # take m z), padd pr (min sz (length y)))"
      if y: "y = d # z" and z: "url_decode (drop k x) = Some z" and k: "0 < k" "k \<le> length x" for d z k
    proof -
      have f1: "fits h pr 1" using less.prems(4) y m by (auto elim: fits_mono)
      have f: "fits h pr (1 + min m (length z))" using less.prems(4) y m by simp
      note s = sdecode_step [OF less.prems(1,3) f1 k]
      have "length (drop k x) < length x" using k by simp
      from less.hyps [OF this s(1) [of d] z s(2)] f1 fits_padd [OF f]
      have "sdecode_loop (put h pr [d]) (padd ps k) (padd pr 1) m
          = Some (put (put h pr [d]) (padd pr 1) (take m z), padd (padd pr 1) (min m (length z)))"
        by simp
      moreover have "put (put h pr [d]) (padd pr 1) (take m z) = put h pr (d # take m z)"
        using f by (intro put_Cons) (simp add: min.commute)
      ultimately show ?thesis using y m by simp
    qed
    have st: "st h pr d = Some (put h pr [d])" if "y = d # z" for d z
      using less.prems(4) that m by (intro st_put) (auto elim: fits_mono)
    show ?thesis
    proof (cases "c = CHR ''%''")
      case True
      have "url_decode (CHR ''%'' # s) = Some y" using less.prems(2) x True by (simp del: url_decode.simps)
      then obtain a b t i j z where e: "s = a # b # t" "hex_digit a = Some i" "hex_digit b = Some j"
        "url_decode t = Some z" "y = char_of (i * 16 + j) # z"
        by (rule url_decode_escape)
      have "ld h (padd ps 1) = Some a" "ld h (padd ps 2) = Some b"
        using ld_cstr_at [OF less.prems(1)] x e(1) by simp_all
      then have "sdecode_loop h ps pr sz
          = sdecode_loop (put h pr [char_of (i * 16 + j)]) (padd ps 3) (padd pr 1) m"
        using ldc cN True m e(2,3) st [OF e(5)]
        by (subst sdecode_loop.simps) (simp add: hex_digit_def del: strchr.simps split: if_splits)
      then show ?thesis using rest [OF e(5), of 3] e(1,4,5) x m by simp
    next
      case False
      then obtain z where z: "url_decode s = Some z" "y = c # z"
        using less.prems(2) x by auto
      have "sdecode_loop h ps pr sz = sdecode_loop (put h pr [c]) (padd ps 1) (padd pr 1) m"
        using ldc cN False m st [OF z(2)] by (subst sdecode_loop.simps) simp
      then show ?thesis using rest [OF z(2), of 1] z x m by simp
    qed
  qed
qed

lemma sdecode_put:
  assumes "cstr h location = Some x" and "url_decode x = Some y" and "upward result location"
    and "0 < sz" and "fits h result (min sz (Suc (length y)))"
  shows "sdecode h result location sz = Some (put h result (take (sz - 1) y @ [NUL]))"
proof -
  obtain m where m: "sz = Suc m" using assms(4) by (cases sz) auto
  have f: "fits h result (min m (length y))" using assms(5) m by (auto elim: fits_mono)
  have f1: "fits h result (min m (length y) + 1)" using assms(5) m by simp
  have l: "length (take m y) = min m (length y)" by (simp add: min.commute)
  have "st (put h result (take m y)) (padd result (min m (length y))) NUL
      = Some (put (put h result (take m y)) (padd result (min m (length y))) [NUL])"
    using f fits_padd [OF f1] l by (intro st_put) simp
  also have "put (put h result (take m y)) (padd result (min m (length y))) [NUL]
      = put h result (take m y @ [NUL])"
    using put_append [of h result "take m y" "[NUL]"] f1 l by simp
  finally show ?thesis
    using sdecode_loop_put [OF assms(1,2,3) f] m by (simp add: sdecode_def)
qed

section \<open>CD parameters are never frames\<close>

lemma sscanf_positive: "0 < n \<Longrightarrow> n \<le> fst (sscanf f s L n r len)"
proof (induction f s L n r len rule: sscanf.induct)
  case (5 a f s L n r len)
  show ?case
  proof (cases "scan_int s")
    case None
    then show ?thesis using 5(2) by (simp add: scan_stop_def)
  next
    case (Some vt)
    obtain v t where "vt = (v, t)" by fastforce
    then show ?thesis using Some 5(1) [OF Some] 5(2) by fastforce
  qed
qed (auto simp: scan_stop_def)

text \<open>Only the drive is scanned before the two formats differ.\<close>

lemma track_fmt_fails:
  assumes "fst (sscanf track_fmt cp L 0 r len) < 1"
  shows "fst (sscanf frame_fmt cp L 0 r' len') < 1"
proof -
  have "\<not> (\<exists>d s. cp = CHR ''/'' # d # s)"
  proof
    assume "\<exists>d s. cp = CHR ''/'' # d # s"
    then obtain d s where cp: "cp = CHR ''/'' # d # s" by blast
    obtain f where f: "track_fmt = SLit (CHR ''/'') # SChr # f" by (simp add: track_fmt_def)
    have "1 \<le> fst (sscanf track_fmt cp L 0 r len)"
      unfolding cp f using sscanf_positive [of 1 f s L] by simp
    then show False using assms by simp
  qed
  moreover obtain f where f: "frame_fmt = SLit (CHR ''/'') # SChr # f" by (simp add: frame_fmt_def)
  ultimately show ?thesis unfolding f
    by (cases cp; cases "tl cp") (auto simp: scan_stop_def)
qed

fun keeps_sectors :: "scan_dir \<Rightarrow> bool" where
  "keeps_sectors (SInt a) \<longleftrightarrow> a \<noteq> ASec0 \<and> a \<noteq> ASec1"
| "keeps_sectors _ \<longleftrightarrow> True"

lemma sscanf_sectors:
  "list_all keeps_sectors f \<Longrightarrow> sectors (fst (snd (sscanf f s L n r len))) = sectors r"
proof (induction f s L n r len rule: sscanf.induct)
  case (5 a f s L n r len)
  then show ?case by (cases a) (auto split: option.splits)
qed auto

section \<open>Properties\<close>

text \<open>When the path of a location has a slash, \<open>sdrivedir\<close> and \<open>sfnameext\<close> cut the location (less
  the query and fragment of a URL) into a directory that ends with the last slash and a name that
  contains none; both are correct when the result overwrites the location.\<close>

lemma sdrivedir_sfnameext:
  assumes "cstr h location = Some loc"
    and "fst (scan_host loc) \<le> k" and "k < scan_tail loc" and "isslash (loc ! k)"
    and "upward r1 location" and "length loc < sz1" and "fits h r1 sz1"
    and "upward r2 location" and "length loc < sz2" and "fits h r2 sz2"
  shows "\<exists>h1 h2 d n. sdrivedir h r1 location sz1 = Some h1 \<and> cstr h1 r1 = Some d
    \<and> sfnameext h r2 location sz2 = Some h2 \<and> cstr h2 r2 = Some n
    \<and> d @ n = take (scan_tail loc) loc \<and> d \<noteq> [] \<and> isslash (last d) \<and> (\<forall>c \<in> set n. \<not> isslash c)"
proof -
  note t = name_head_spec(2) [of loc] scan_tail_le(2) [of loc] dir_pos_name_head [OF assms(2-4)]
  have "fits h r1 (min (Suc (name_head loc)) sz1)" "fits h r2 (min (Suc (length (name_part loc))) sz2)"
    using assms(7,10) by (auto elim: fits_mono)
  with sdrivedir_cstr [OF assms(1,5) _ assms(2-4)] sfnameext_cstr [OF assms(1,8)] assms(6,9)
  obtain h1 h2 where h: "sdrivedir h r1 location sz1 = Some h1"
    "cstr h1 r1 = Some (take (sz1 - 1) (take (name_head loc) loc))"
    "sfnameext h r2 location sz2 = Some h2" "cstr h2 r2 = Some (take (sz2 - 1) (name_part loc))"
    by (metis gr_implies_not0 neq0_conv)
  have "take (sz1 - 1) (take (name_head loc) loc) = take (name_head loc) loc"
    "take (sz2 - 1) (name_part loc) = name_part loc"
    using t assms(6,9) by (simp_all add: length_name_part)
  moreover have "take (name_head loc) loc @ name_part loc = take (scan_tail loc) loc"
    using t(1) by (metis le_add_diff_inverse name_part_def take_add)
  moreover have "last (take (name_head loc) loc) = loc ! (name_head loc - 1)"
    using t by (subst last_conv_nth) auto
  ultimately show ?thesis using h t name_part_no_slash by (metis le_zero_eq length_0_conv neq0_conv order_trans take_eq_Nil)
qed

lemma sdrivedir_sfnameext_witness:
  "\<exists>h1 h2 d n. sdrivedir (\<lambda>_. ''http://h/a/b.c?x'' @ [NUL]) (1, 0) (0, 0) 17 = Some h1 \<and> cstr h1 (1, 0) = Some d
    \<and> sfnameext (\<lambda>_. ''http://h/a/b.c?x'' @ [NUL]) (0, 0) (0, 0) 17 = Some h2 \<and> cstr h2 (0, 0) = Some n
    \<and> d @ n = ''http://h/a/b.c''"
proof -
  have "cstr (\<lambda>_. ''http://h/a/b.c?x'' @ [NUL]) (0, 0) = Some ''http://h/a/b.c?x''"
    by (simp add: cstr_def bytes_at_def)
  moreover have "scan_host ''http://h/a/b.c?x'' = (8, True)" by code_simp
  moreover have "scan_tail ''http://h/a/b.c?x'' = 14" by code_simp
  ultimately show ?thesis
    using sdrivedir_sfnameext [of "\<lambda>_. ''http://h/a/b.c?x'' @ [NUL]" "(0, 0)" "''http://h/a/b.c?x''" 8
        "(1, 0)" 17 "(0, 0)" 17]
    by (fastforce simp: isslash_def upward_def fits_def)
qed

text \<open>\<open>sfname\<close> and \<open>sfext\<close> cut a non-empty file name into a non-empty stem and an extension that
  is empty or starts with the last dot of the name; put together they are what \<open>sfnameext\<close> yields.\<close>

lemma sfname_sfext:
  assumes "cstr h location = Some loc" and "name_head loc < scan_tail loc"
    and "upward r1 location" and "length loc < sz1" and "fits h r1 sz1"
    and "upward r2 location" and "length loc < sz2" and "fits h r2 sz2"
  shows "\<exists>h1 h2 stem ext. sfname h r1 location sz1 = Some h1 \<and> cstr h1 r1 = Some stem
    \<and> sfext h r2 location sz2 = Some h2 \<and> cstr h2 r2 = Some ext
    \<and> stem @ ext = name_part loc \<and> stem \<noteq> []
    \<and> (ext \<noteq> [] \<longrightarrow> hd ext = CHR ''.'' \<and> CHR ''.'' \<notin> set (tl ext))"
proof -
  note t = scan_tail_le(2) [of loc] ext_head_spec [OF assms(2)]
  let ?s = "take (ext_head loc - name_head loc) (drop (name_head loc) loc)"
    and ?e = "take (scan_tail loc - ext_head loc) (drop (ext_head loc) loc)"
  have "fits h r1 (min (Suc (ext_head loc - name_head loc)) sz1)"
    "fits h r2 (min (Suc (scan_tail loc - ext_head loc)) sz2)"
    using assms(5,8) by (auto elim: fits_mono)
  with sfname_cstr [OF assms(1,3) _ assms(2)] sfext_cstr [OF assms(1,6) _ assms(2)] assms(4,7)
  obtain h1 h2 where h: "sfname h r1 location sz1 = Some h1" "cstr h1 r1 = Some (take (sz1 - 1) ?s)"
    "sfext h r2 location sz2 = Some h2" "cstr h2 r2 = Some (take (sz2 - 1) ?e)"
    by (metis gr_implies_not0 neq0_conv)
  have "take (sz1 - 1) ?s = ?s" "take (sz2 - 1) ?e = ?e"
    by (rule take_all, use assms(4,7) in simp)+
  moreover have "?s @ ?e = name_part loc"
  proof -
    obtain a b where ab: "ext_head loc = name_head loc + a" "scan_tail loc = ext_head loc + b"
      using t(2,3) by (metis le_iff_add less_imp_le)
    then show ?thesis by (simp add: name_part_def take_add add.commute)
  qed
  moreover have "?s \<noteq> []" using t by simp
  moreover have "?e \<noteq> [] \<longrightarrow> hd ?e = CHR ''.'' \<and> CHR ''.'' \<notin> set (tl ?e)"
    using t by (auto simp: hd_drop_conv_nth in_set_conv_nth nth_tl)
  ultimately show ?thesis using h by metis
qed

lemma sfname_sfext_witness:
  "\<exists>h1 h2 stem ext. sfname (\<lambda>_. ''C:a.tar.gz'' @ [NUL]) (1, 0) (0, 0) 11 = Some h1 \<and> cstr h1 (1, 0) = Some stem
    \<and> sfext (\<lambda>_. ''C:a.tar.gz'' @ [NUL]) (0, 0) (0, 0) 11 = Some h2 \<and> cstr h2 (0, 0) = Some ext
    \<and> stem @ ext = ''a.tar.gz''"
proof -
  have "cstr (\<lambda>_. ''C:a.tar.gz'' @ [NUL]) (0, 0) = Some ''C:a.tar.gz''"
    by (simp add: cstr_def bytes_at_def)
  moreover have "name_head ''C:a.tar.gz'' = 2" "scan_tail ''C:a.tar.gz'' = 10" by code_simp+
  moreover have "name_part ''C:a.tar.gz'' = ''a.tar.gz''" by code_simp
  ultimately show ?thesis
    using sfname_sfext [of "\<lambda>_. ''C:a.tar.gz'' @ [NUL]" "(0, 0)" "''C:a.tar.gz''" "(1, 0)" 11 "(0, 0)" 11]
    by (fastforce simp: upward_def fits_def)
qed

text \<open>For a location without slash and colon at the start of its object, \<open>sdrivedir\<close> reads the
  byte before the location, and for the empty location \<open>sfext\<close> and \<open>sfname\<close> do.\<close>

lemma part_before_location:
  assumes "cstr h location = Some loc" and "snd location = 0"
  shows "((\<forall>c \<in> set loc. \<not> isslash c \<and> c \<noteq> CHR '':'') \<longrightarrow> sdrivedir h result location sz = None)
    \<and> (loc = [] \<longrightarrow> sfext h result location sz = None \<and> sfname h result location sz = None)"
proof (intro conjI impI)
  have before: "ld_at h location (- 1) = None" using assms(2) by (cases location) simp
  show "sdrivedir h result location sz = None" if all: "\<forall>c \<in> set loc. \<not> isslash c \<and> c \<noteq> CHR '':''"
  proof -
    have in_loc: "deref (drop n loc) = NUL \<or> deref (drop n loc) \<in> set loc" for n
      by (cases "n < length loc") (simp_all add: deref_drop)
    have plain: "c \<noteq> CHR '':'' \<and> \<not> isslash c" if "c = NUL \<or> c \<in> set loc" for c
      using that all by (auto simp: isslash_def)
    have "deref (drop n loc) \<noteq> CHR '':''" "\<not> isslash (deref loc)" for n
      using plain [OF in_loc [of n]] plain [OF in_loc [of 0]] by simp_all
    then have host: "scan_host loc = (0, False)" by (simp add: scan_host_def scan_scheme_def Let_def)
    have tail: "scan_tail loc = length loc" by (simp add: scan_tail_def host)
    have "\<not> isslash (loc ! i)" if "i < length loc" for i using that all by simp
    then have "dir_pos loc = - 1"
      using back_slash_spec [of 0 "length loc" loc] host tail by (auto simp: dir_pos_def)
    then show ?thesis using assms(1) before by (simp add: sdrivedir_def)
  qed
  show "sfext h result location sz = None" "sfname h result location sz = None" if "loc = []"
    using that assms(1) before
    by (simp_all add: sfext_def sfname_def ext_pos_def scan_tail_def scan_host_def scan_scheme_def)
qed

lemma part_before_location_witness:
  "sdrivedir (\<lambda>_. ''foo.mp3'' @ [NUL]) (1, 0) (0, 0) 8 = None \<and> sfext (\<lambda>_. [NUL]) (1, 0) (0, 0) 8 = None"
proof -
  have "cstr (\<lambda>_. ''foo.mp3'' @ [NUL]) (0, 0) = Some ''foo.mp3''" "cstr (\<lambda>_. [NUL]) (0, 0) = Some []"
    by (simp_all add: cstr_def bytes_at_def)
  from part_before_location [OF this(1)] part_before_location [OF this(2)] show ?thesis
    by (simp add: isslash_def)
qed

text \<open>C27: \<open>sdecode\<close> stores the decoded text of a location whose escapes are complete, cut at
  \<open>size - 1\<close> characters and terminated, also when it decodes in place.\<close>

theorem sdecode_correct:
  assumes "cstr h location = Some x" and "url_decode x = Some y" and "upward result location"
    and "0 < sz" and "fits h result (min sz (Suc (length y)))" and "NUL \<notin> set y"
  shows "\<exists>h'. sdecode h result location sz = Some h' \<and> cstr h' result = Some (take (sz - 1) y)
    \<and> (\<forall>ob. ob \<noteq> fst result \<longrightarrow> h' ob = h ob)"
proof -
  have "fits h result (Suc (length (take (sz - 1) y)))" using assms(4,5) by (rule_tac fits_mono) auto
  then have "cstr (put h result (take (sz - 1) y @ [NUL])) result = Some (take (sz - 1) y)"
    using assms(6) by (intro cstr_put_same) (auto dest: in_set_takeD)
  then show ?thesis using sdecode_put [OF assms(1-5)] by simp
qed

lemma sdecode_correct_witness:
  "\<exists>h'. sdecode (\<lambda>_. ''a%20b%2fc'' @ [NUL]) (0, 0) (0, 0) 10 = Some h' \<and> cstr h' (0, 0) = Some ''a b/c''"
proof -
  have "cstr (\<lambda>_. ''a%20b%2fc'' @ [NUL]) (0, 0) = Some ''a%20b%2fc''" by (simp add: cstr_def bytes_at_def)
  moreover have "url_decode ''a%20b%2fc'' = Some ''a b/c''" by code_simp
  ultimately show ?thesis
    using sdecode_correct [of "\<lambda>_. ''a%20b%2fc'' @ [NUL]" "(0, 0)" "''a%20b%2fc''" "''a b/c''" "(0, 0)" 10]
    by (auto simp: upward_def fits_def)
qed

text \<open>\<open>scdparams\<close> never accepts the frame form of a CD location: what it accepts has the
  sectors zero, because the second \<open>sscanf\<close> is tried only when the first has not even found the
  drive.\<close>

lemma scdparams_no_frames:
  "scdparams result len0 location = (r, True) \<Longrightarrow> sectors r = (0, 0)"
proof -
  assume a: "scdparams result len0 location = (r, True)"
  define cp where "cp = (case strchr location (CHR '':'') of None \<Rightarrow> [] | Some k \<Rightarrow> drop (k + 3) location)"
  define r0 where "r0 = result\<lparr>track := 0, sectors := (0, 0)\<rparr>"
  obtain n1 r1 l1 where s1: "sscanf track_fmt cp (length cp) 0 r0 len0 = (n1, r1, l1)"
    by (metis prod_cases3)
  obtain n2 r2 l2 where s2: "sscanf frame_fmt cp (length cp) 0 r1 l1 = (n2, r2, l2)"
    by (metis prod_cases3)
  have "n2 < 1" if "n1 < 1"
    using track_fmt_fails [of cp "length cp" r0 len0 r1 l1] that s1 s2 by simp
  then have "\<not> n1 < 1" "sectors r = sectors r1"
    using a s1 s2 unfolding scdparams_def cp_def [symmetric] r0_def [symmetric]
    by (auto simp: Let_def split: if_splits)
  moreover have "sectors r1 = (0, 0)"
    using sscanf_sectors [of track_fmt cp "length cp" 0 r0 len0] s1 by (simp add: track_fmt_def r0_def)
  ultimately show ?thesis by simp
qed

lemma scdparams_no_frames_witness:
  "scdparams \<lparr>drive = ''???'', track = 9, sectors = (7, 8)\<rparr> 0 ''cd:///E:/track12''
    = (\<lparr>drive = [CHR ''E'', CHR '':'', NUL], track = 12, sectors = (0, 0)\<rparr>, True)
  \<and> \<not> snd (scdparams \<lparr>drive = ''???'', track = 9, sectors = (7, 8)\<rparr> 0 ''cd:///E:/frame1-2'')"
proof -
  have a: "scdparams \<lparr>drive = ''???'', track = 9, sectors = (7, 8)\<rparr> 0 ''cd:///E:/track12''
      = (\<lparr>drive = [CHR ''E'', CHR '':'', NUL], track = 12, sectors = (0, 0)\<rparr>, True)"
    by code_simp
  have "\<not> snd (scdparams \<lparr>drive = ''???'', track = 9, sectors = (7, 8)\<rparr> 0 ''cd:///E:/frame1-2'')"
    by code_simp
  then show ?thesis using a scdparams_no_frames [OF a] by simp
qed

end
