(* ===== verification/RelPath.thy ===== *)
theory RelPath
  imports FileUtil
begin

text \<open>
  \<^verbatim>\<open>src/utils/abs2rel.c\<close> and \<^verbatim>\<open>src/utils/rel2abs.c\<close>: conversion between absolute and relative path
  names. The arguments \<open>base\<close> and \<open>path\<close> are read only and not part of the result buffer; the
  result buffer is written byte by byte through pointers. The second component of a result says
  whether \<open>result\<close> (and not \<open>NULL\<close>) is returned.
\<close>

section \<open>abs2rel\<close>

abbreviation DIR_SEP :: char where
  "DIR_SEP \<equiv> CHR 0x5C"

text \<open>The search for the common part: \<open>pbase\<close> and \<open>ppath\<close>, the offset of \<open>ppath\<close> in \<open>path\<close>, \<open>bdiff\<close> and
  the offset of \<open>pdiff\<close>.\<close>

fun common_part :: "string \<Rightarrow> string \<Rightarrow> nat \<Rightarrow> string \<Rightarrow> nat \<Rightarrow> string \<times> nat" where
  "common_part pbase [] i bdiff pdiff = (bdiff, pdiff)"
| "common_part [] (c # ppath) i bdiff pdiff =
     (if c = DIR_SEP then ([], Suc i) else (bdiff, pdiff))"
| "common_part (b # pbase) (c # ppath) i bdiff pdiff =
     (if b = c then
        (if c = DIR_SEP then common_part pbase ppath (Suc i) pbase (Suc i)
         else common_part pbase ppath (Suc i) bdiff pdiff)
      else (bdiff, pdiff))"

lemma dropWhile_tl_less: "s \<noteq> [] \<Longrightarrow> length (dropWhile P (tl s)) < length s"
  using length_dropWhile_le [of P "tl s"] by (cases s) auto

lemma dropWhile_drop2_less: "s \<noteq> [] \<Longrightarrow> length (dropWhile P (drop 2 s)) < length s"
  using length_dropWhile_le [of P "drop 2 s"] by (cases s) auto

text \<open>Climbing up: the store, \<open>rp\<close>, \<open>rsize\<close> and whether the loop ends without \<open>return NULL\<close>.\<close>

function climb :: "store \<Rightarrow> ptr \<Rightarrow> nat \<Rightarrow> nat \<Rightarrow> string \<Rightarrow> string \<Rightarrow> (store \<times> ptr \<times> nat \<times> bool) option" where
  "climb h rp rsize sz bdiff pdiff =
     (if bdiff = [] then Some (h, rp, rsize, True)
      else if sz - rsize < 3 then Some (h, rp, rsize, False)
      else do {
        h \<leftarrow> st h rp (CHR ''.'');
        h \<leftarrow> st h (padd rp 1) (CHR ''.'');
        let rest = dropWhile (\<lambda>c. c \<noteq> DIR_SEP) (tl bdiff);
        if rest \<noteq> [] \<or> pdiff \<noteq> [] then
          do { h \<leftarrow> st h (padd rp 2) DIR_SEP;
               if rsize + 3 = sz then Some (h, padd rp 3, rsize + 3, False)
               else if rest = [DIR_SEP] then Some (h, padd rp 3, rsize + 3, True)
               else climb h (padd rp 3) (rsize + 3) sz rest pdiff }
        else Some (h, padd rp 2, rsize + 2, True) })"
  by pat_completeness auto
termination
  by (relation "measure (\<lambda>(h, rp, rsize, sz, bdiff, pdiff). length bdiff)")
    (auto simp: dropWhile_tl_less simp del: st.simps)

declare climb.simps [simp del]

text \<open>\<open>while (*pdiff) { *rp++ = *pdiff++; if (++rsize == size) return NULL; }\<close>\<close>

fun copy_rest :: "store \<Rightarrow> ptr \<Rightarrow> nat \<Rightarrow> nat \<Rightarrow> string \<Rightarrow> (store \<times> ptr \<times> bool) option" where
  "copy_rest h rp rsize sz [] = Some (h, rp, True)"
| "copy_rest h rp rsize sz (c # pdiff) =
     do { h' \<leftarrow> st h rp c;
          if Suc rsize = sz then Some (h', padd rp 1, False)
          else copy_rest h' (padd rp 1) (Suc rsize) sz pdiff }"

definition abs2rel :: "store \<Rightarrow> string \<Rightarrow> string \<Rightarrow> ptr \<Rightarrow> nat \<Rightarrow> (store \<times> bool) option" where
  "abs2rel h base path result sz =
     (let (bdiff, pdiff) = common_part base path 0 base 0
      in if pdiff = 0 \<or> pdiff = 2 \<and> path ! 1 = DIR_SEP \<and> path ! 0 = DIR_SEP
         then (if length path \<ge> sz then Some (h, False)
               else map_option (\<lambda>h'. (h', True)) (blk_st h result (path @ [NUL])))
         else
           do { (h1, rp, rsize, ok) \<leftarrow> climb h result 0 sz bdiff (drop pdiff path);
                if \<not> ok then Some (h1, False)
                else do { (h2, rp, ok) \<leftarrow> copy_rest h1 rp rsize sz (drop pdiff path);
                          if \<not> ok then Some (h2, False)
                          else do { h3 \<leftarrow> st h2 rp NUL; Some (h3, True) } } })"

section \<open>rel2abs\<close>

text \<open>Positions in the result buffer are offsets from \<open>result\<close>; \<open>rroot\<close> starts at \<open>result - 1\<close>.
  \<open>rsize\<close> is a \<open>size_t\<close>: it never exceeds \<open>size\<close>, but counting down wraps around.\<close>

definition u32_dec :: "nat \<Rightarrow> nat" where
  "u32_dec k = (if k = 0 then 2 ^ 32 - 1 else k - 1)"

text \<open>The root of the base (\<open>rroot\<close>) and the separator to use; \<open>h\<close> already holds the base.\<close>

definition find_root :: "store \<Rightarrow> ptr \<Rightarrow> string \<Rightarrow> (int \<times> char) option" where
  "find_root h result base =
     (if length base > 1 \<and> isslash (base ! 0) \<and> isslash (base ! 1)
      then map_option (\<lambda>k. (3 + int k, DIR_SEP)) (scan (\<lambda>c. \<not> isslash c) (bytes_at h (padd result 3)))
      else
        (let n = length (takeWhile is_scheme_char base)
         in if deref (drop n base) \<noteq> CHR '':'' then Some (- 1, DIR_SEP)
            else if n > 2 \<or> \<not> isalpha (deref base) then
              (if isslash (deref (drop (n + 1) base)) \<and> isslash (deref (drop (n + 2) base))
               then Some (int (n + 3 + length (takeWhile (\<lambda>c. \<not> isslash c) (drop (n + 3) base))), CHR ''/'')
               else Some (int n, CHR ''/''))
            else if length base > 2 \<and> isslash (base ! 2) then Some (2, DIR_SEP)
            else Some (1, DIR_SEP)))"

text \<open>\<open>while (rtail != rroot && !isslash(*--rtail)) --rsize;\<close>\<close>

function climb_back :: "store \<Rightarrow> ptr \<Rightarrow> int \<Rightarrow> int \<Rightarrow> nat \<Rightarrow> (int \<times> nat) option" where
  "climb_back h result rroot rtail rsize =
     (if rtail = rroot then Some (rtail, rsize)
      else (case ld_at h result (rtail - 1) of
              None \<Rightarrow> None
            | Some c \<Rightarrow> if isslash c then Some (rtail - 1, rsize)
                       else climb_back h result rroot (rtail - 1) (u32_dec rsize)))"
  by pat_completeness auto
termination
  by (relation "measure (\<lambda>(h, result, rroot, rtail, rsize). nat (int (snd result) + rtail))")
    (auto dest: ld_at_nonneg simp del: ld_at.simps)

declare climb_back.simps [simp del]

text \<open>\<open>while (!isslash(*path) && *path && rsize < size) { *rtail++ = *path++; rsize++; }\<close>\<close>

fun copy_name :: "store \<Rightarrow> ptr \<Rightarrow> int \<Rightarrow> nat \<Rightarrow> nat \<Rightarrow> string \<Rightarrow> (store \<times> int \<times> nat \<times> string) option" where
  "copy_name h result rtail rsize sz [] = Some (h, rtail, rsize, [])"
| "copy_name h result rtail rsize sz (c # path) =
     (if \<not> isslash c \<and> rsize < sz then
        do { h' \<leftarrow> st_at h result rtail c; copy_name h' result (rtail + 1) (Suc rsize) sz path }
      else Some (h, rtail, rsize, c # path))"

lemma copy_name_path:
  "copy_name h result rtail rsize sz path = Some (h', rtail', rsize', path') \<Longrightarrow>
   length path' \<le> length path \<and> (path' = path \<longrightarrow> rsize' = rsize) \<and> (path' \<noteq> path \<longrightarrow> length path' < length path)"
  by (induction h result rtail rsize sz path rule: copy_name.induct)
    (fastforce simp del: st_at.simps split: if_splits bind_splits)+

text \<open>A separator is put behind the buffer contents unless they are empty or end with one.\<close>

definition put_slash :: "store \<Rightarrow> ptr \<Rightarrow> char \<Rightarrow> int \<Rightarrow> nat \<Rightarrow> (store \<times> int \<times> nat) option" where
  "put_slash h result slash rtail rsize =
     (if rtail = 0 then Some (h, rtail, rsize)
      else do { c \<leftarrow> ld_at h result (rtail - 1);
                if isslash c then Some (h, rtail, rsize)
                else do { h' \<leftarrow> st_at h result rtail slash; Some (h', rtail + 1, Suc rsize) } })"

lemma put_slash_rsize: "put_slash h result slash rtail rsize = Some (h', rtail', rsize') \<Longrightarrow> rsize \<le> rsize' \<and> rsize' \<le> Suc rsize"
  by (auto simp: put_slash_def simp del: ld_at.simps st_at.simps split: if_splits bind_splits)

lemma copy_name_less:
  assumes "copy_name h result rtail rsize1 sz path = Some (h', rtail', rsize', path')" and "path \<noteq> []"
    and "put_slash h0 result slash rtail0 rsize = Some (h, rtail, rsize1)" and "rsize < sz"
  shows "length (dropWhile isslash path') < length path
    \<or> length (dropWhile isslash path') = length path \<and> sz - rsize' < sz - rsize"
proof -
  note p = copy_name_path [OF assms(1)]
  have le: "length (dropWhile isslash path') \<le> length path'" by (rule length_dropWhile_le)
  obtain c q where path: "path = c # q" using assms(2) by (cases path) auto
  show ?thesis
  proof (cases "path' = path")
    case False
    then show ?thesis using p le by auto
  next
    case True
    show ?thesis
    proof (cases "isslash c")
      case True
      then show ?thesis using \<open>path' = path\<close> path length_dropWhile_le [of isslash q] by simp
    next
      case False
      have "sz \<le> rsize'"
      proof (rule ccontr)
        assume "\<not> sz \<le> rsize'"
        then have "rsize1 < sz" using p True by simp
        then obtain h2 where "copy_name h2 result (rtail + 1) (Suc rsize1) sz q = Some (h', rtail', rsize', path')"
          using assms(1) False path by (auto simp del: st_at.simps split: bind_splits)
        then show False using copy_name_path [of h2 result "rtail + 1" "Suc rsize1" sz q] True path by auto
      qed
      then show ?thesis using True path False assms(4) by auto
    qed
  qed
qed

definition is_dot :: "string \<Rightarrow> bool" where
  "is_dot path \<longleftrightarrow> deref path = CHR ''.'' \<and> (isslash (deref (tl path)) \<or> tl path = [])"

definition is_dotdot :: "string \<Rightarrow> bool" where
  "is_dotdot path \<longleftrightarrow> deref path = CHR ''.'' \<and> deref (tl path) = CHR ''.''
     \<and> (isslash (deref (drop 2 path)) \<or> drop 2 path = [])"

function rel2abs_loop ::
  "ptr \<Rightarrow> int \<Rightarrow> char \<Rightarrow> nat \<Rightarrow> store \<Rightarrow> string \<Rightarrow> int \<Rightarrow> nat \<Rightarrow> (store \<times> int \<times> nat) option" where
  "rel2abs_loop result rroot slash sz h path rtail rsize =
     (if path = [] \<or> rsize \<ge> sz then Some (h, rtail, rsize)
      else if is_dot path then
        rel2abs_loop result rroot slash sz h (dropWhile isslash (tl path)) rtail rsize
      else if is_dotdot path then
        (case climb_back h result rroot rtail rsize of
           None \<Rightarrow> None
         | Some (rtail', rsize') \<Rightarrow>
             rel2abs_loop result rroot slash sz h (dropWhile isslash (drop 2 path)) rtail' rsize')
      else
        (case put_slash h result slash rtail rsize of
           None \<Rightarrow> None
         | Some (h1, rtail1, rsize1) \<Rightarrow>
             (case copy_name h1 result rtail1 rsize1 sz path of
                None \<Rightarrow> None
              | Some (h2, rtail2, rsize2, path2) \<Rightarrow>
                  rel2abs_loop result rroot slash sz h2 (dropWhile isslash path2) rtail2 rsize2)))"
  by pat_completeness auto
termination
  by (relation "measures [\<lambda>(result, rroot, slash, sz, h, path, rtail, rsize). length path,
      \<lambda>(result, rroot, slash, sz, h, path, rtail, rsize). sz - rsize]")
    (auto simp: dropWhile_tl_less dropWhile_drop2_less dest: copy_name_less)

declare rel2abs_loop.simps [simp del]

definition rel2abs :: "store \<Rightarrow> string \<Rightarrow> string \<Rightarrow> ptr \<Rightarrow> nat \<Rightarrow> (store \<times> bool) option" where
  "rel2abs h base path result sz =
     (if length base \<ge> sz then Some (h, False)
      else if deref (dropWhile is_scheme_char path) = CHR '':''
            \<or> length path > 1 \<and> isslash (path ! 0) \<and> isslash (path ! 1)
      then (if length path \<ge> sz then Some (h, False)
            else map_option (\<lambda>h'. (h', True)) (blk_st h result (path @ [NUL])))
      else do {
        h1 \<leftarrow> blk_st h result (base @ [NUL]);
        (rroot, slash) \<leftarrow> find_root h1 result base;
        let rtail = int (length base);
        (h2, rtail, rsize) \<leftarrow>
          (if base \<noteq> [] \<and> rtail - 1 \<noteq> rroot \<and> isslash (last base)
           then do { h2 \<leftarrow> st_at h1 result (rtail - 1) NUL; Some (h2, rtail - 1, length base - 1) }
           else Some (h1, rtail, length base));
        if path = [] then Some (h2, True)
        else do {
          (h3, rroot, rtail, rsize, path) \<leftarrow>
            (if isslash (hd path) then
               do { (h3, rroot, rsize) \<leftarrow>
                      (if rsize = 0
                       then do { h3 \<leftarrow> st_at h2 result (rroot + 1) (hd path); Some (h3, rroot + 1, Suc rsize) }
                       else Some (h2, rroot, rsize));
                    Some (h3, rroot, rroot + 1, rsize, tl path) }
             else Some (h2, rroot, rtail, rsize, path));
          (h4, rtail, rsize) \<leftarrow> rel2abs_loop result rroot slash sz h3 path rtail rsize;
          if rsize \<ge> sz then Some (h4, False)
          else do { h5 \<leftarrow> st_at h4 result rtail NUL; Some (h5, True) } } })"

section \<open>The relative path\<close>

function ups :: "string \<Rightarrow> bool \<Rightarrow> string" where
  "ups bdiff m =
     (if bdiff = [] then []
      else (let rest = dropWhile (\<lambda>c. c \<noteq> DIR_SEP) (tl bdiff)
            in ''..'' @ (if rest \<noteq> [] \<or> m
                        then DIR_SEP # (if rest = [DIR_SEP] then [] else ups rest m) else [])))"
  by pat_completeness auto
termination
  by (relation "measure (\<lambda>(bdiff, m). length bdiff)") (auto simp: dropWhile_tl_less)

declare ups.simps [simp del]

definition rel_path :: "string \<Rightarrow> string \<Rightarrow> string" where
  "rel_path base path =
     (let (bdiff, pdiff) = common_part base path 0 base 0
      in if pdiff = 0 \<or> pdiff = 2 \<and> path ! 1 = DIR_SEP \<and> path ! 0 = DIR_SEP then path
         else ups bdiff (drop pdiff path \<noteq> []) @ drop pdiff path)"

lemma st_put_append:
  "fits h p (Suc (length xs)) \<Longrightarrow> st (put h p xs) (padd p (length xs)) c = Some (put h p (xs @ [c]))"
  using put_append [of h p xs "[c]"] fits_padd [of h p "length xs" 1]
  by (simp add: st_put fits_mono)

text \<open>Three stores in a row, as the climbing loop does.\<close>

lemma st_dots:
  assumes "fits h rp 3"
  shows "st h rp (CHR ''.'') = Some (put h rp ''.'')"
    "st (put h rp ''.'') (padd rp 1) (CHR ''.'') = Some (put h rp ''..'')"
    "st (put h rp ''..'') (padd rp 2) DIR_SEP = Some (put h rp (''..'' @ [DIR_SEP]))"
  using st_put_append [of h rp "[]"] st_put_append [of h rp "''.''"] st_put_append [of h rp "''..''"]
    fits_mono [OF assms] by (simp_all add: numeral_2_eq_2)

definition wrote :: "store \<Rightarrow> ptr \<Rightarrow> nat \<Rightarrow> store \<Rightarrow> bool" where
  "wrote h p n h' \<longleftrightarrow> (\<exists>xs. length xs \<le> n \<and> h' = put h p xs)"

lemma wrote_put: "length xs \<le> n \<Longrightarrow> wrote h p n (put h p xs)"
  by (auto simp: wrote_def)

lemma wrote_append:
  assumes "wrote (put h p xs) (padd p (length xs)) m h'" and "length xs + m \<le> n" and "fits h p n"
  shows "wrote h p n h'"
proof -
  obtain ys where ys: "length ys \<le> m" "h' = put (put h p xs) (padd p (length xs)) ys"
    using assms(1) by (auto simp: wrote_def)
  then have "h' = put h p (xs @ ys)"
    using put_append [of h p xs ys] assms(2,3) by (simp add: fits_mono)
  moreover have "length (xs @ ys) \<le> n" using ys assms(2) by simp
  ultimately show ?thesis unfolding wrote_def by blast
qed

lemma climb_ups:
  "rsize < sz \<Longrightarrow> fits h rp (sz - rsize) \<Longrightarrow>
   (if rsize + length (ups bdiff (pdiff \<noteq> [])) < sz
    then climb h rp rsize sz bdiff pdiff
      = Some (put h rp (ups bdiff (pdiff \<noteq> [])), padd rp (length (ups bdiff (pdiff \<noteq> []))),
              rsize + length (ups bdiff (pdiff \<noteq> [])), True)
    else \<exists>h' rp' r'. climb h rp rsize sz bdiff pdiff = Some (h', rp', r', False) \<and> wrote h rp (sz - rsize) h')"
proof (induction "length bdiff" arbitrary: bdiff h rp rsize rule: less_induct)
  case less
  let ?u = "ups bdiff (pdiff \<noteq> [])"
  let ?rest = "dropWhile (\<lambda>c. c \<noteq> DIR_SEP) (tl bdiff)"
  show ?case
  proof (cases "bdiff = []")
    case True
    then show ?thesis using less.prems by (simp add: climb.simps ups.simps)
  next
    case ne: False
    show ?thesis
    proof (cases "sz - rsize < 3")
      case True
      then have "\<not> rsize + length ?u < sz" using ne less.prems by (subst ups.simps) (auto simp: Let_def)
      moreover have "climb h rp rsize sz bdiff pdiff = Some (h, rp, rsize, False)"
        using ne True by (subst climb.simps) simp
      moreover have "wrote h rp (sz - rsize) h" using wrote_put [of "[]"] by simp
      ultimately show ?thesis by simp
    next
      case big: False
      then have f3: "fits h rp 3" using less.prems(2) by (auto elim: fits_mono)
      note d = st_dots [OF f3]
      show ?thesis
      proof (cases "?rest \<noteq> [] \<or> pdiff \<noteq> []")
        case False
        then have u: "?u = ''..''" using ne by (subst ups.simps) simp
        have "climb h rp rsize sz bdiff pdiff = Some (put h rp ''..'', padd rp 2, rsize + 2, True)"
          using ne big d(1,2) False by (subst climb.simps) simp
        moreover have "rsize + 2 < sz" using big by linarith
        ultimately show ?thesis unfolding u by (simp add: numeral_2_eq_2)
      next
        case more: True
        let ?h = "put h rp (''..'' @ [DIR_SEP])"
        have w3: "wrote h rp (sz - rsize) ?h" using big by (intro wrote_put) simp
        show ?thesis
        proof (cases "rsize + 3 = sz")
          case True
          then have "\<not> rsize + length ?u < sz" using ne more by (subst ups.simps) (simp add: Let_def)
          moreover have "climb h rp rsize sz bdiff pdiff = Some (?h, padd rp 3, rsize + 3, False)"
            using ne big d more True by (subst climb.simps) (auto simp: Let_def)
          ultimately show ?thesis using w3 by simp
        next
          case n3: False
          show ?thesis
          proof (cases "?rest = [DIR_SEP]")
            case True
            then have "?u = ''..'' @ [DIR_SEP]" using ne by (subst ups.simps) simp
            moreover have "climb h rp rsize sz bdiff pdiff = Some (?h, padd rp 3, rsize + 3, True)"
              using ne big d n3 True by (subst climb.simps) (auto simp: Let_def)
            moreover have "rsize + 3 < sz" using big n3 by linarith
            ultimately show ?thesis by (simp add: numeral_3_eq_3)
          next
            case rec: False
            let ?v = "ups ?rest (pdiff \<noteq> [])"
            have u: "?u = ''..'' @ [DIR_SEP] @ ?v" using ne more rec by (subst ups.simps) (simp add: Let_def)
            have c: "climb h rp rsize sz bdiff pdiff = climb ?h (padd rp 3) (rsize + 3) sz ?rest pdiff"
              using ne big d more n3 rec by (subst climb.simps) (auto simp: Let_def)
            have f: "fits h rp (3 + (sz - (rsize + 3)))" using less.prems(2) big by simp
            have fl: "fits h rp (length (''..'' @ [DIR_SEP]))" using f3 by (simp add: numeral_3_eq_3)
            have f': "fits ?h (padd rp 3) (sz - (rsize + 3))"
              using fits_padd [OF f] by (simp only: fits_put [OF fl])
            have pv: "put ?h (padd rp 3) ?v = put h rp (''..'' @ [DIR_SEP] @ ?v)"
              if "rsize + 3 + length ?v < sz"
            proof -
              have "fits h rp (length (''..'' @ [DIR_SEP]) + length ?v)"
                by (rule fits_mono [OF f]) (use that in simp)
              from put_append [OF this] show ?thesis by (simp add: numeral_3_eq_3)
            qed
            have wr: "wrote h rp (sz - rsize) h'" if "wrote ?h (padd rp 3) (sz - (rsize + 3)) h'" for h'
              using wrote_append [of h rp "''..'' @ [DIR_SEP]" "sz - (rsize + 3)" h' "sz - rsize"] that less.prems(2) big
              by (simp add: numeral_3_eq_3)
            have "length ?rest < length bdiff" by (rule dropWhile_tl_less [OF ne])
            moreover have "rsize + 3 < sz" using n3 big by linarith
            ultimately show ?thesis using less.hyps [of ?rest "rsize + 3" ?h "padd rp 3"] c u pv wr f' by (auto simp: add.assoc numeral_3_eq_3 split: if_splits)
          qed
        qed
      qed
    qed
  qed
qed

lemma copy_rest_put:
  "rsize < sz \<Longrightarrow> fits h rp (sz - rsize) \<Longrightarrow>
   (if rsize + length p < sz
    then copy_rest h rp rsize sz p = Some (put h rp p, padd rp (length p), True)
    else \<exists>h' rp'. copy_rest h rp rsize sz p = Some (h', rp', False) \<and> wrote h rp (sz - rsize) h')"
proof (induction p arbitrary: h rp rsize)
  case Nil
  then show ?case by simp
next
  case (Cons c p)
  have f1: "fits h rp 1" using Cons.prems by (auto elim: fits_mono)
  show ?case
  proof (cases "Suc rsize = sz")
    case True
    then show ?thesis using st_put [OF f1] wrote_put [of "[c]" "sz - rsize" h rp] by auto
  next
    case False
    have "1 + (sz - Suc rsize) = sz - rsize" using Cons.prems(1) by simp
    then have f: "fits h rp (1 + (sz - Suc rsize))" using Cons.prems(2) by simp
    have f': "fits (put h rp [c]) (padd rp 1) (sz - Suc rsize)" using fits_padd [OF f] f1 by simp
    have "put (put h rp [c]) (padd rp 1) p = put h rp (c # p)" if "rsize + length (c # p) < sz"
      using f that by (intro put_Cons) (auto elim: fits_mono)
    moreover have "wrote h rp (sz - rsize) h'" if "wrote (put h rp [c]) (padd rp 1) (sz - Suc rsize) h'" for h'
      using wrote_append [of h rp "[c]" "sz - Suc rsize" h' "sz - rsize"] that Cons.prems by simp
    ultimately show ?thesis
      using Cons.IH [of "Suc rsize" "put h rp [c]" "padd rp 1"] st_put [OF f1] f' False Cons.prems(1)
      by (auto split: if_splits)
  qed
qed

lemma abs2rel_rel_path:
  assumes "0 < sz" and "fits h result sz"
  shows "if length (rel_path base path) < sz
    then abs2rel h base path result sz = Some (put h result (rel_path base path @ [NUL]), True)
    else \<exists>h'. abs2rel h base path result sz = Some (h', False) \<and> wrote h result sz h'"
proof -
  obtain bdiff pdiff where bp: "common_part base path 0 base 0 = (bdiff, pdiff)" by fastforce
  show ?thesis
  proof (cases "pdiff = 0 \<or> pdiff = 2 \<and> path ! 1 = DIR_SEP \<and> path ! 0 = DIR_SEP")
    case True
    then have "rel_path base path = path" using bp by (simp add: rel_path_def)
    moreover have "wrote h result sz h" using wrote_put [of "[]"] by simp
    moreover have "blk_st h result (path @ [NUL]) = Some (put h result (path @ [NUL]))" if "length path < sz"
      using assms(2) that by (simp add: blk_st_def fits_def)
    ultimately show ?thesis using True bp by (auto simp: abs2rel_def)
  next
    case nc: False
    let ?u = "ups bdiff (drop pdiff path \<noteq> [])" and ?p = "drop pdiff path"
    have r: "rel_path base path = ?u @ ?p"
      by (simp only: rel_path_def bp Let_def prod.case if_not_P [OF nc])
    have ab: "abs2rel h base path result sz =
        do { (h1, rp, rsize, ok) \<leftarrow> climb h result 0 sz bdiff ?p;
             if \<not> ok then Some (h1, False)
             else do { (h2, rp, ok) \<leftarrow> copy_rest h1 rp rsize sz ?p;
                       if \<not> ok then Some (h2, False)
                       else do { h3 \<leftarrow> st h2 rp NUL; Some (h3, True) } } }"
      by (simp only: abs2rel_def bp Let_def prod.case if_not_P [OF nc])
    note c = climb_ups [of 0 sz h result bdiff ?p, simplified, OF assms]
    show ?thesis
    proof (cases "length ?u < sz")
      case False
      then show ?thesis unfolding ab using c r by auto
    next
      case True
      let ?h = "put h result ?u"
      have fu: "fits h result (length ?u)" using assms(2) True by (auto elim: fits_mono)
      have f: "fits h result (length ?u + (sz - length ?u))" using assms(2) True by simp
      have f': "fits ?h (padd result (length ?u)) (sz - length ?u)" using fits_padd [OF f] fu by simp
      note k = copy_rest_put [OF True f', of ?p]
      show ?thesis
      proof (cases "length ?u + length ?p < sz")
        case False
        then show ?thesis
          unfolding ab using True c k r wrote_append [of h result ?u "sz - length ?u" _ sz] assms(2)
          by auto
      next
        case le: True
        have "put ?h (padd result (length ?u)) ?p = put h result (?u @ ?p)"
          by (rule put_append, rule fits_mono [OF assms(2)], use le in simp)
        moreover have "fits h result (Suc (length (?u @ ?p)))" using assms(2) le by (auto elim: fits_mono)
        from st_put_append [OF this, of NUL]
        have "st (put h result (?u @ ?p)) (padd result (length ?u + length ?p)) NUL
            = Some (put h result (?u @ ?p @ [NUL]))" by simp
        ultimately show ?thesis unfolding ab using True c k r le by simp
      qed
    qed
  qed
qed

section \<open>The absolute path\<close>

function pop :: "nat \<Rightarrow> string \<Rightarrow> string" where
  "pop root s =
     (if length s \<le> root then s
      else if isslash (last s) then butlast s else pop root (butlast s))"
  by pat_completeness auto
termination
  by (relation "measure (\<lambda>(root, s). length s)") auto

declare pop.simps [simp del]

lemma next_less:
  "path \<noteq> [] \<Longrightarrow> length (dropWhile isslash (dropWhile (\<lambda>c. \<not> isslash c) path)) < length path"
  using length_dropWhile_le [of isslash "tl path"] length_dropWhile_le [of "\<lambda>c. \<not> isslash c" "tl path"]
    length_dropWhile_le [of isslash "dropWhile (\<lambda>c. \<not> isslash c) (tl path)"]
  by (cases path) auto

function segments :: "string \<Rightarrow> string list" where
  "segments path =
     (if path = [] then []
      else takeWhile (\<lambda>c. \<not> isslash c) path # segments (dropWhile isslash (dropWhile (\<lambda>c. \<not> isslash c) path)))"
  by pat_completeness auto
termination
  by (relation "measure length") (auto simp: next_less)

declare segments.simps [simp del]

text \<open>How one segment of the relative path changes the absolute path.\<close>

definition resolve_step :: "nat \<Rightarrow> char \<Rightarrow> string \<Rightarrow> string \<Rightarrow> string" where
  "resolve_step root slash s seg =
     (if seg = ''.'' then s
      else if seg = ''..'' then pop root s
      else s @ (if s \<noteq> [] \<and> \<not> isslash (last s) then [slash] else []) @ seg)"

definition resolve :: "nat \<Rightarrow> char \<Rightarrow> string \<Rightarrow> string \<Rightarrow> string" where
  "resolve root slash s path = foldl (resolve_step root slash) s (segments path)"

text \<open>The buffer holds a string (without terminator); nothing outside \<open>n\<close> bytes is changed.\<close>

definition holds :: "store \<Rightarrow> ptr \<Rightarrow> string \<Rightarrow> bool" where
  "holds h p s \<longleftrightarrow> fits h p (length s) \<and> take (length s) (bytes_at h p) = s"

definition within :: "store \<Rightarrow> ptr \<Rightarrow> nat \<Rightarrow> store \<Rightarrow> bool" where
  "within h p n h' \<longleftrightarrow> (\<forall>ob. ob \<noteq> fst p \<longrightarrow> h' ob = h ob) \<and> length (h' (fst p)) = length (h (fst p))
     \<and> take (snd p) (h' (fst p)) = take (snd p) (h (fst p))
     \<and> drop (snd p + n) (h' (fst p)) = drop (snd p + n) (h (fst p))"

lemma within_refl [simp]: "within h p n h"
  by (simp add: within_def)

lemma within_trans: "within h p n h' \<Longrightarrow> within h' p n h'' \<Longrightarrow> within h p n h''"
  by (simp add: within_def)

lemma within_put:
  assumes "fits h p n" and "k + length xs \<le> n"
  shows "within h p n (put h (padd p k) xs)"
proof -
  obtain ob i where p: "p = (ob, i)" by (cases p)
  have le: "i + k + length xs \<le> i + n" "i + n \<le> length (h ob)" using assms p by (simp_all add: fits_def)
  then have "drop (i + n) (take (i + k) (h ob) @ xs @ drop (i + k + length xs) (h ob)) = drop (i + n) (h ob)"
    by (simp add: drop_append add.commute)
  then show ?thesis using le p by (simp add: within_def put_def)
qed

lemma wrote_within: "wrote h p n h' \<Longrightarrow> fits h p n \<Longrightarrow> within h p n h'"
  using within_put [of h p n 0] by (auto simp: wrote_def)

lemma within_fits: "within h p n h' \<Longrightarrow> fits h' p m \<longleftrightarrow> fits h p m"
  by (simp add: within_def fits_def)

lemma within_fits_any: "within h p n h' \<Longrightarrow> fits h' q m \<longleftrightarrow> fits h q m"
  by (cases "fst q = fst p") (auto simp: within_def fits_def)

lemma holds_prefix: "holds h p (s @ t) \<Longrightarrow> holds h p s"
proof -
  assume "holds h p (s @ t)"
  then have a: "fits h p (length (s @ t))" "take (length (s @ t)) (bytes_at h p) = s @ t"
    by (simp_all add: holds_def)
  have "take (length s) (take (length (s @ t)) (bytes_at h p)) = take (length s) (s @ t)"
    by (simp only: a(2))
  then have "take (length s) (bytes_at h p) = s" by simp
  moreover have "fits h p (length s)" by (rule fits_mono [OF a(1)]) simp
  ultimately show ?thesis by (simp add: holds_def)
qed

lemma holds_last:
  assumes "holds h p s" and "s \<noteq> []"
  shows "ld_at h p (int (length s) - 1) = Some (last s)"
proof -
  obtain t c where s: "s = t @ [c]" using assms(2) by (cases s rule: rev_cases) auto
  obtain b where b: "bytes_at h p = s @ b"
    using assms(1) by (metis append_take_drop_id holds_def)
  have "bytes_at h (padd p (length t)) = c # b" using b s by (simp add: bytes_at_padd)
  then have "ld h (padd p (length t)) = Some c" by (rule bytes_at_ld)
  moreover have "int (length s) - 1 = int (length t)" using s by simp
  ultimately show ?thesis using s by simp
qed

lemma holds_st:
  assumes "holds h p s" and "length s < n" and "fits h p n"
  shows "\<exists>h'. st_at h p (int (length s)) c = Some h' \<and> holds h' p (s @ [c]) \<and> within h p n h'"
proof -
  have f: "fits h p (length s + 1)" by (rule fits_mono [OF assms(3)]) (use assms(2) in simp)
  have b: "take (length s) (bytes_at h p) = s" using assms(1) by (simp add: holds_def)
  let ?h = "put h (padd p (length s)) [c]"
  have st: "st_at h p (int (length s)) c = Some ?h" using st_put [OF fits_padd [OF f]] by simp
  have w: "within h p n ?h" using assms(2) by (intro within_put [OF assms(3)]) simp
  have "bytes_at h p = s @ drop (length s) (bytes_at h p)" by (metis b append_take_drop_id)
  moreover have "put h p (take (length s) (bytes_at h p)) = h"
    using f by (cases p) (auto simp: put_def bytes_at_def fits_def fun_eq_iff min_def drop_drop
        simp flip: take_add append_assoc intro!: ext)
  then have "?h = put h p (s @ [c])" using put_append [of h p s "[c]"] f b by simp
  then have "bytes_at ?h p = (s @ [c]) @ drop (length (s @ [c])) (bytes_at h p)"
    using f by (simp add: bytes_at_put_same)
  then have "take (length (s @ [c])) (bytes_at ?h p) = s @ [c]" by simp
  then have "holds ?h p (s @ [c])" using f within_fits [OF w] by (simp add: holds_def)
  then show ?thesis using st w by blast
qed

lemma pop_prefix: "root \<le> length s \<Longrightarrow> root \<le> length (pop root s) \<and> (\<exists>t. s = pop root s @ t)"
proof (induction root s rule: pop.induct)
  case (1 root s)
  show ?case
  proof (cases "length s \<le> root")
    case True
    then show ?thesis by (simp add: pop.simps [of root s] "1.prems")
  next
    case False
    then obtain t c where s: "s = t @ [c]" by (cases s rule: rev_cases) auto
    show ?thesis
    proof (cases "isslash c")
      case True
      then show ?thesis using False s by (simp add: pop.simps [of root "t @ [c]"])
    next
      case n: False
      then have "pop root s = pop root t" using False s by (simp add: pop.simps [of root "t @ [c]"])
      moreover have "root \<le> length (pop root t) \<and> (\<exists>u. t = pop root t @ u)"
        using "1.IH" False n s by simp
      ultimately show ?thesis using s by (metis append_assoc)
    qed
  qed
qed

lemma climb_back_pop:
  "holds h result s \<Longrightarrow> root \<le> length s \<Longrightarrow> length s \<le> rsize \<Longrightarrow>
   \<exists>r. climb_back h result (int root) (int (length s)) rsize = Some (int (length (pop root s)), r)
     \<and> length (pop root s) \<le> r \<and> r \<le> rsize"
proof (induction s arbitrary: rsize rule: rev_induct)
  case Nil
  then show ?case by (simp add: climb_back.simps pop.simps)
next
  case (snoc c t)
  show ?case
  proof (cases "length (t @ [c]) = root")
    case True
    then show ?thesis using snoc.prems by (simp add: climb_back.simps pop.simps)
  next
    case False
    have l: "ld_at h result (int (length (t @ [c])) - 1) = Some c"
      using holds_last [OF snoc.prems(1)] by simp
    have ht: "holds h result t" using holds_prefix [OF snoc.prems(1)] .
    show ?thesis
    proof (cases "isslash c")
      case True
      then have "climb_back h result (int root) (int (length (t @ [c]))) rsize = Some (int (length t), rsize)"
        using False l by (subst climb_back.simps) simp
      moreover have "pop root (t @ [c]) = t" using True False snoc.prems(2) by (simp add: pop.simps)
      ultimately show ?thesis using snoc.prems(3) by simp
    next
      case n: False
      have "climb_back h result (int root) (int (length (t @ [c]))) rsize
          = climb_back h result (int root) (int (length t)) (rsize - 1)"
        using False l n snoc.prems(3) by (subst climb_back.simps) (auto simp: u32_dec_def)
      moreover have "pop root (t @ [c]) = pop root t" using n False snoc.prems(2) by (simp add: pop.simps)
      moreover have "root \<le> length t" "length t \<le> rsize - 1" using False snoc.prems by auto
      ultimately show ?thesis using snoc.IH [OF ht, of "rsize - 1"] by fastforce
    qed
  qed
qed

lemma put_slash_holds:
  assumes "holds h result s" and "fits h result sz" and "length s \<le> rsize" and "rsize < sz"
  shows "\<exists>h' rsize'. put_slash h result slash (int (length s)) rsize
      = Some (h', int (length (s @ (if s \<noteq> [] \<and> \<not> isslash (last s) then [slash] else []))), rsize')
    \<and> holds h' result (s @ (if s \<noteq> [] \<and> \<not> isslash (last s) then [slash] else [])) \<and> within h result sz h'
    \<and> length (s @ (if s \<noteq> [] \<and> \<not> isslash (last s) then [slash] else [])) \<le> rsize' \<and> rsize \<le> rsize' \<and> rsize' \<le> sz \<and> rsize' \<le> Suc rsize"
proof (cases "s \<noteq> [] \<and> \<not> isslash (last s)")
  case True
  then have l: "ld_at h result (int (length s) - 1) = Some (last s)" using holds_last [OF assms(1)] by simp
  obtain h' where h': "st_at h result (int (length s)) slash = Some h'" "holds h' result (s @ [slash])"
    "within h result sz h'"
    using holds_st [OF assms(1) _ assms(2)] assms(3,4) by (meson le_less_trans)
  then have "put_slash h result slash (int (length s)) rsize = Some (h', int (length s) + 1, Suc rsize)"
    using True l by (simp add: put_slash_def del: ld_at.simps st_at.simps)
  then show ?thesis using True h' assms(3,4) by auto
next
  case False
  then have "put_slash h result slash (int (length s)) rsize = Some (h, int (length s), rsize)"
    using holds_last [OF assms(1)] by (auto simp: put_slash_def simp del: ld_at.simps)
  then show ?thesis using False assms by auto
qed

lemma copy_name_holds:
  "holds h result s \<Longrightarrow> fits h result sz \<Longrightarrow> length s \<le> rsize \<Longrightarrow> rsize \<le> sz \<Longrightarrow>
   \<exists>h' rtail' rsize' path'. copy_name h result (int (length s)) rsize sz path = Some (h', rtail', rsize', path')
     \<and> within h result sz h' \<and> rsize' \<le> sz \<and> rsize' + length path' = rsize + length path
     \<and> (rsize' < sz \<longrightarrow> rtail' = int (length (s @ takeWhile (\<lambda>c. \<not> isslash c) path))
          \<and> holds h' result (s @ takeWhile (\<lambda>c. \<not> isslash c) path)
          \<and> length (s @ takeWhile (\<lambda>c. \<not> isslash c) path) \<le> rsize'
          \<and> path' = dropWhile (\<lambda>c. \<not> isslash c) path)"
proof (induction path arbitrary: h s rsize)
  case (Cons c path)
  show ?case
  proof (cases "\<not> isslash c \<and> rsize < sz")
    case True
    then have "length s < sz" using Cons.prems(3) by simp
    then obtain h1 where h1: "st_at h result (int (length s)) c = Some h1" "holds h1 result (s @ [c])"
      "within h result sz h1"
      using holds_st [OF Cons.prems(1) _ Cons.prems(2)] by blast
    have "fits h1 result sz" using within_fits [OF h1(3)] Cons.prems(2) by simp
    from Cons.IH [OF h1(2) this, of "Suc rsize"] True Cons.prems(3)
    obtain h' rtail' rsize' path' where r: "copy_name h1 result (int (length s) + 1) (Suc rsize) sz path
        = Some (h', rtail', rsize', path')" "within h1 result sz h'" "rsize' \<le> sz"
      "rsize' + length path' = Suc rsize + length path"
      "rsize' < sz \<longrightarrow> rtail' = int (length (s @ c # takeWhile (\<lambda>c. \<not> isslash c) path))
          \<and> holds h' result (s @ c # takeWhile (\<lambda>c. \<not> isslash c) path)
          \<and> length (s @ c # takeWhile (\<lambda>c. \<not> isslash c) path) \<le> rsize'
          \<and> path' = dropWhile (\<lambda>c. \<not> isslash c) path"
      by (auto simp: add.commute)
    show ?thesis
      using True h1(1) r(1,3,4,5) within_trans [OF h1(3) r(2)] by (simp del: st_at.simps)
  next
    case False
    then show ?thesis using Cons.prems by auto
  qed
qed auto

lemma dot_segment:
  assumes "path \<noteq> []"
  shows "is_dot path \<longleftrightarrow> takeWhile (\<lambda>c. \<not> isslash c) path = ''.''"
    and "is_dotdot path \<longleftrightarrow> takeWhile (\<lambda>c. \<not> isslash c) path = ''..''"
proof -
  obtain a p where path: "path = a # p" using assms by (cases path) auto
  have ns: "\<not> isslash (CHR ''.'')" "\<not> isslash NUL" by (simp_all add: isslash_def)
  show "is_dot path \<longleftrightarrow> takeWhile (\<lambda>c. \<not> isslash c) path = ''.''"
    using ns by (cases p) (auto simp: is_dot_def path)
  show "is_dotdot path \<longleftrightarrow> takeWhile (\<lambda>c. \<not> isslash c) path = ''..''"
  proof (cases p)
    case Nil
    then show ?thesis using ns by (auto simp: is_dotdot_def path)
  next
    case (Cons b q)
    then show ?thesis using ns by (cases q) (auto simp: is_dotdot_def path)
  qed
qed

lemma resolve_Cons:
  "path \<noteq> [] \<Longrightarrow> resolve root slash s path
     = resolve root slash (resolve_step root slash s (takeWhile (\<lambda>c. \<not> isslash c) path))
         (dropWhile isslash (dropWhile (\<lambda>c. \<not> isslash c) path))"
  by (simp add: resolve_def segments.simps [of path])

lemma resolve_Nil [simp]: "resolve root slash s [] = s"
  by (simp add: resolve_def segments.simps)

lemma dropWhile_behind:
  "dropWhile isslash (dropWhile (\<lambda>c. \<not> isslash c) p) \<noteq> [] \<Longrightarrow>
   length (dropWhile isslash (dropWhile (\<lambda>c. \<not> isslash c) p)) < length (dropWhile (\<lambda>c. \<not> isslash c) p)"
proof (cases "dropWhile (\<lambda>c. \<not> isslash c) p")
  case (Cons c q)
  then have "isslash c" using hd_dropWhile [of "\<lambda>c. \<not> isslash c" p] by simp
  then show ?thesis using Cons length_dropWhile_le [of isslash q] by simp
qed simp

lemma rel2abs_loop_resolve:
  "rroot = int root \<Longrightarrow> rtail = int (length s) \<Longrightarrow>
   holds h result s \<Longrightarrow> fits h result sz \<Longrightarrow> length s \<le> rsize \<Longrightarrow> root \<le> length s \<Longrightarrow>
   \<exists>h' rtail' rsize'. rel2abs_loop result rroot slash sz h path rtail rsize = Some (h', rtail', rsize')
     \<and> within h result sz h' \<and> rsize' \<le> rsize + (if path = [] then 0 else Suc (length path))
     \<and> (rsize' < sz \<longrightarrow> rtail' = int (length (resolve root slash s path))
          \<and> holds h' result (resolve root slash s path) \<and> length (resolve root slash s path) \<le> rsize')"
proof (induction result rroot slash sz h path rtail rsize arbitrary: s rule: rel2abs_loop.induct)
  case (1 result rroot slash sz h path rtail rsize)
  note prems = "1.prems"
  have dl: "length (dropWhile P p) \<le> length p" for P and p :: string by (rule length_dropWhile_le)
  let ?seg = "takeWhile (\<lambda>c. \<not> isslash c) path"
    and ?next = "dropWhile isslash (dropWhile (\<lambda>c. \<not> isslash c) path)"
  show ?case
  proof (cases "path = [] \<or> rsize \<ge> sz")
    case True
    then show ?thesis using prems by (subst rel2abs_loop.simps) auto
  next
    case ne: False
    note res = resolve_Cons [of path root slash s]
    have nb: "(if ?next = [] then 0 else Suc (length ?next)) \<le> (if path = [] then 0 else Suc (length path))"
      using next_less [of path] ne by auto
    note dots = dot_segment [of path]
    show ?thesis
    proof (cases "is_dot path")
      case True
      then have nx: "dropWhile isslash (tl path) = ?next"
        using ne by (cases path; cases "tl path") (auto simp: is_dot_def isslash_def)
      have st: "resolve_step root slash s ?seg = s" using True dots ne by (simp add: resolve_step_def)
      have step: "rel2abs_loop result rroot slash sz h path rtail rsize
          = rel2abs_loop result rroot slash sz h ?next rtail rsize"
        using ne True nx by (subst rel2abs_loop.simps) simp
      obtain h' t' r' where "rel2abs_loop result rroot slash sz h ?next rtail rsize = Some (h', t', r')"
        "within h result sz h'" "r' \<le> rsize + (if ?next = [] then 0 else Suc (length ?next))"
        "r' < sz \<longrightarrow> t' = int (length (resolve root slash s ?next)) \<and> holds h' result (resolve root slash s ?next)
           \<and> length (resolve root slash s ?next) \<le> r'"
        using "1.IH"(1) [OF ne True prems] unfolding nx by blast
      moreover from this nb have "r' \<le> rsize + (if path = [] then 0 else Suc (length path))" by linarith
      ultimately show ?thesis using step res ne st by simp
    next
      case nd: False
      show ?thesis
      proof (cases "is_dotdot path")
        case True
        then have nx: "dropWhile isslash (drop 2 path) = ?next"
          using ne by (cases path; cases "tl path"; cases "drop 2 path") (auto simp: is_dotdot_def isslash_def numeral_2_eq_2)
        have st: "resolve_step root slash s ?seg = pop root s" using True dots ne by (simp add: resolve_step_def)
        obtain r where r: "climb_back h result rroot rtail rsize = Some (int (length (pop root s)), r)"
          "length (pop root s) \<le> r" "r \<le> rsize"
          using climb_back_pop [of h result s root rsize] prems by blast
        have "holds h result (pop root s)" "root \<le> length (pop root s)"
          using pop_prefix [OF prems(6)] prems(3) holds_prefix by metis+
        note IH = "1.IH"(2) [OF ne nd True r(1) refl prems(1) refl this(1) prems(4) r(2) this(2)]
        have step: "rel2abs_loop result rroot slash sz h path rtail rsize
            = rel2abs_loop result rroot slash sz h ?next (int (length (pop root s))) r"
          using ne nd True r(1) nx by (subst rel2abs_loop.simps) simp
        obtain h' t' r' where
          "rel2abs_loop result rroot slash sz h ?next (int (length (pop root s))) r = Some (h', t', r')"
          "within h result sz h'" "r' \<le> r + (if ?next = [] then 0 else Suc (length ?next))"
          "r' < sz \<longrightarrow> t' = int (length (resolve root slash (pop root s) ?next))
             \<and> holds h' result (resolve root slash (pop root s) ?next)
             \<and> length (resolve root slash (pop root s) ?next) \<le> r'"
          using IH unfolding nx by blast
        moreover from this nb r(3) have "r' \<le> rsize + (if path = [] then 0 else Suc (length path))" by linarith
        ultimately show ?thesis using step res ne st by simp
      next
        case ndd: False
        let ?s1 = "s @ (if s \<noteq> [] \<and> \<not> isslash (last s) then [slash] else [])"
        have st: "resolve_step root slash s ?seg = ?s1 @ ?seg"
          using nd ndd dots ne by (simp add: resolve_step_def)
        obtain h1 r1 where p: "put_slash h result slash rtail rsize = Some (h1, int (length ?s1), r1)"
          "holds h1 result ?s1" "within h result sz h1" "length ?s1 \<le> r1" "rsize \<le> r1" "r1 \<le> sz" "r1 \<le> Suc rsize"
          using put_slash_holds [OF prems(3,4,5)] ne prems(2) by force
        have f1: "fits h1 result sz" using within_fits [OF p(3)] prems(4) by simp
        obtain h2 t2 r2 path2 where c: "copy_name h1 result (int (length ?s1)) r1 sz path = Some (h2, t2, r2, path2)"
          "within h1 result sz h2" "r2 \<le> sz" "r2 + length path2 = r1 + length path"
          "r2 < sz \<longrightarrow> t2 = int (length (?s1 @ ?seg)) \<and> holds h2 result (?s1 @ ?seg)
             \<and> length (?s1 @ ?seg) \<le> r2 \<and> path2 = dropWhile (\<lambda>c. \<not> isslash c) path"
          using copy_name_holds [OF p(2) f1 p(4,6)] by blast
        have w: "within h result sz h2" by (rule within_trans [OF p(3) c(2)])
        have step: "rel2abs_loop result rroot slash sz h path rtail rsize
            = rel2abs_loop result rroot slash sz h2 (dropWhile isslash path2) t2 r2"
          using ne nd ndd p(1) c(1) by (subst rel2abs_loop.simps) simp
        show ?thesis
        proof (cases "r2 < sz")
          case False
          then have "rel2abs_loop result rroot slash sz h2 (dropWhile isslash path2) t2 r2 = Some (h2, t2, r2)"
            by (subst rel2abs_loop.simps) simp
          then show ?thesis using step w False c(4) p(7) ne by auto
        next
          case True
          then have q: "t2 = int (length (?s1 @ ?seg))" "holds h2 result (?s1 @ ?seg)"
            "length (?s1 @ ?seg) \<le> r2" "path2 = dropWhile (\<lambda>c. \<not> isslash c) path"
            using c(5) by simp_all
          have rt: "root \<le> length (?s1 @ ?seg)" "fits h2 result sz"
            using prems(6) within_fits [OF w] prems(4) by simp_all
          note IH = "1.IH"(3) [OF ne nd ndd p(1) refl refl c(1) refl refl refl prems(1) q(1,2) rt(2) q(3) rt(1)]
          obtain h' t' r' where r: "rel2abs_loop result rroot slash sz h2 ?next t2 r2 = Some (h', t', r')"
            "within h2 result sz h'" "r' \<le> r2 + (if ?next = [] then 0 else Suc (length ?next))"
            "r' < sz \<longrightarrow> t' = int (length (resolve root slash (?s1 @ ?seg) ?next))
               \<and> holds h' result (resolve root slash (?s1 @ ?seg) ?next)
               \<and> length (resolve root slash (?s1 @ ?seg) ?next) \<le> r'"
            using IH unfolding q(4) by blast
          have "(if ?next = [] then 0 else Suc (length ?next)) \<le> length path2"
          proof (cases "?next = []")
            case True
            then show ?thesis by (simp only: refl if_True le0)
          next
            case False
            then show ?thesis unfolding q(4) using dropWhile_behind [OF False] by (simp only: if_False Suc_le_eq)
          qed
          then have "r' \<le> rsize + (if path = [] then 0 else Suc (length path))"
            using r(3) c(4) p(7) ne by simp
          then show ?thesis
            using step [unfolded q(4)] r(1,4) within_trans [OF w r(2)] res ne st by simp
        qed
      qed
    qed
  qed
qed

definition base_root :: "string \<Rightarrow> (nat \<times> char) option" where
  "base_root base =
     (if length base > 1 \<and> isslash (base ! 0) \<and> isslash (base ! 1)
      then (if \<exists>c \<in> set (drop 3 base). isslash c
            then Some (3 + length (takeWhile (\<lambda>c. \<not> isslash c) (drop 3 base)), DIR_SEP) else None)
      else
        (let n = length (takeWhile is_scheme_char base)
         in if deref (drop n base) \<noteq> CHR '':'' then None
            else if n > 2 \<or> \<not> isalpha (deref base) then
              (if isslash (deref (drop (n + 1) base)) \<and> isslash (deref (drop (n + 2) base))
               then Some (n + 3 + length (takeWhile (\<lambda>c. \<not> isslash c) (drop (n + 3) base)), CHR ''/'')
               else Some (n, CHR ''/''))
            else if length base > 2 \<and> isslash (base ! 2) then Some (2, DIR_SEP)
            else Some (1, DIR_SEP)))"

lemma find_root_base:
  assumes "base_root base = Some (root, slash)" and "cstr h result = Some base"
  shows "find_root h result base = Some (int root, slash)"
proof (cases "length base > 1 \<and> isslash (base ! 0) \<and> isslash (base ! 1)")
  case False
  then show ?thesis using assms(1)
    by (auto simp: base_root_def find_root_def Let_def split: if_splits)
next
  case True
  then have sl: "\<exists>c \<in> set (drop 3 base). isslash c"
    "root = 3 + length (takeWhile (\<lambda>c. \<not> isslash c) (drop 3 base))" "slash = DIR_SEP"
    using assms(1) by (auto simp: base_root_def split: if_splits)
  obtain t where t: "bytes_at h result = base @ NUL # t" using assms(2) by (auto simp: cstr_Some_iff)
  have "3 \<le> length base" using sl(1) by (cases "3 \<le> length base") auto
  then have "bytes_at h (padd result 3) = drop 3 base @ NUL # t" using t by (simp add: bytes_at_padd)
  moreover have "scan (\<lambda>c. \<not> isslash c) (x @ y) = Some (length (takeWhile (\<lambda>c. \<not> isslash c) x))"
    if "\<exists>c \<in> set x. isslash c" for x y
    using that by (induction x) auto
  ultimately show ?thesis using True sl by (simp add: find_root_def)
qed

lemma scheme_colon: "deref (drop (length (takeWhile is_scheme_char s)) s) = CHR '':'' \<Longrightarrow>
  length (takeWhile is_scheme_char s) < length s"
  by (cases "length (takeWhile is_scheme_char s) < length s") auto

lemma base_root_le:
  assumes "base_root base = Some (root, slash)"
  shows "root \<le> length base" and "0 < length base" and "root = 0 \<longrightarrow> \<not> isslash (hd base)"
proof -
  let ?n = "length (takeWhile is_scheme_char base)"
  have tl: "k + length (takeWhile f (drop k base)) \<le> length base" if "k \<le> length base" for f k
    using length_takeWhile_le [of f "drop k base"] that by simp
  have sl: "Suc k \<le> length base" if "isslash (deref (drop k base))" for k
    using that by (cases "k < length base") (auto simp: isslash_def)
  show "root \<le> length base"
  proof (cases "length base > 1 \<and> isslash (base ! 0) \<and> isslash (base ! 1)")
    case True
    moreover have "3 \<le> length base" if "c \<in> set (drop 3 base)" for c
      using that by (cases "3 \<le> length base") auto
    ultimately show ?thesis using assms tl [of 3] by (auto simp: base_root_def split: if_splits)
  next
    case nu: False
    then have n: "?n < length base"
      using assms scheme_colon [of base] by (auto simp: base_root_def Let_def split: if_splits)
    show ?thesis
    proof (cases "isslash (deref (drop (?n + 1) base)) \<and> isslash (deref (drop (?n + 2) base))")
      case True
      then have "?n + 3 \<le> length base" using sl [of "?n + 2"] by simp
      then show ?thesis using assms nu n tl [of "?n + 3"]
        by (auto simp: base_root_def Let_def split: if_splits)
    next
      case False
      then show ?thesis using assms nu n
        by (simp add: base_root_def Let_def split: if_splits)
    qed
  qed
  show "0 < length base" using assms by (auto simp: base_root_def Let_def split: if_splits)
  show "root = 0 \<longrightarrow> \<not> isslash (hd base)" 
    using assms by (cases base) (auto simp: base_root_def Let_def isslash_def split: if_splits)
qed

definition base_trim :: "nat \<Rightarrow> string \<Rightarrow> string" where
  "base_trim root base =
     (if base \<noteq> [] \<and> length base \<noteq> Suc root \<and> isslash (last base) then butlast base else base)"

lemma set_resolve:
  "set (resolve root slash s path) \<subseteq> insert slash (set s \<union> set path)"
proof (induction "length path" arbitrary: s path rule: less_induct)
  case less
  show ?case
  proof (cases "path = []")
    case False
    let ?seg = "takeWhile (\<lambda>c. \<not> isslash c) path"
      and ?next = "dropWhile isslash (dropWhile (\<lambda>c. \<not> isslash c) path)"
    have "set (pop root t) \<subseteq> set t" for t
    proof (cases "root \<le> length t")
      case True
      from pop_prefix [OF this] obtain u where "t = pop root t @ u" by blast
      then show ?thesis by (metis Un_upper1 set_append)
    next
      case False
      then show ?thesis by (simp add: pop.simps)
    qed
    then have "set (resolve_step root slash s ?seg) \<subseteq> insert slash (set s \<union> set path)"
      by (auto simp: resolve_step_def dest: set_takeWhileD)
    moreover have "set ?next \<subseteq> set path" by (auto dest!: set_dropWhileD)
    ultimately show ?thesis
      using less [OF next_less [OF False], of "resolve_step root slash s ?seg"] resolve_Cons [OF False, of root slash s]
      by auto
  qed auto
qed

lemma holds_cstr:
  assumes "holds h p (s @ [NUL])" and "NUL \<notin> set s"
  shows "cstr h p = Some s"
proof -
  have "bytes_at h p = (s @ [NUL]) @ drop (length (s @ [NUL])) (bytes_at h p)"
    using assms(1) by (metis append_take_drop_id holds_def)
  then show ?thesis using assms(2) by (auto simp: cstr_Some_iff)
qed

lemma base_root_slash: "base_root base = Some (root, slash) \<Longrightarrow> slash \<noteq> NUL"
  by (auto simp: base_root_def Let_def split: if_splits)

text \<open>The buffer when the loop starts: it holds the base without a separator at its end.\<close>

lemma rel2abs_base:
  assumes "base_root base = Some (root, slash)" and "NUL \<notin> set base" and "length base < sz" and "fits h result sz"
  shows "\<exists>h1 h2. blk_st h result (base @ [NUL]) = Some h1 \<and> find_root h1 result base = Some (int root, slash)
    \<and> (if base \<noteq> [] \<and> int (length base) - 1 \<noteq> int root \<and> isslash (last base)
        then st_at h1 result (int (length base) - 1) NUL = Some h2 else h2 = h1)
    \<and> holds h2 result (base_trim root base @ [NUL]) \<and> within h result sz h2"
proof -
  let ?h1 = "put h result (base @ [NUL])"
  have f: "fits h result (length (base @ [NUL]))" using assms(3,4) by (auto elim: fits_mono)
  then have b: "blk_st h result (base @ [NUL]) = Some ?h1" by (simp add: blk_st_def fits_def)
  have c: "cstr ?h1 result = Some base" using f assms(2) by (intro cstr_put_same) simp_all
  have w: "within h result sz ?h1" using within_put [OF assms(4), of 0 "base @ [NUL]"] assms(3) by simp
  have hd: "holds ?h1 result (base @ [NUL])" using f by (simp add: holds_def bytes_at_put_same)
  note r = find_root_base [OF assms(1) c]
  have ne: "base \<noteq> []" using base_root_le [OF assms(1)] by auto
  have cond: "int (length base) - 1 \<noteq> int root \<longleftrightarrow> length base \<noteq> Suc root" by auto
  show ?thesis
  proof (cases "base \<noteq> [] \<and> length base \<noteq> Suc root \<and> isslash (last base)")
    case False
    then show ?thesis using b r w hd cond by (auto simp: base_trim_def)
  next
    case True
    obtain x c where x: "base = x @ [c]" using ne by (cases base rule: rev_cases) auto
    have "holds ?h1 result x" using hd holds_prefix [of ?h1 result x "[c, NUL]"] x by simp
    then obtain h2 where h2: "st_at ?h1 result (int (length x)) NUL = Some h2" "holds h2 result (x @ [NUL])"
      "within ?h1 result sz h2"
      using holds_st [of ?h1 result x sz NUL] assms(3) x within_fits [OF w] assms(4) by auto
    have "int (length base) - 1 = int (length x)" using x by simp
    then show ?thesis
      using True b r h2 within_trans [OF w h2(3)] cond x by (auto simp: base_trim_def simp del: st_at.simps)
  qed
qed

lemma rel2abs_resolve:
  assumes root: "base_root base = Some (root, slash)" and N: "NUL \<notin> set base" "NUL \<notin> set path"
    and sz: "length base < sz" "fits h result sz"
    and rel: "deref (dropWhile is_scheme_char path) \<noteq> CHR '':''"
      "\<not> (length path > 1 \<and> isslash (path ! 0) \<and> isslash (path ! 1))" "path \<noteq> []"
    and in_base: "root \<le> length (base_trim root base)"
      "isslash (hd path) \<Longrightarrow> root < length (base_trim root base)"
  shows "\<exists>h' ok. rel2abs h base path result sz = Some (h', ok) \<and> within h result sz h'
    \<and> (length base + length path + 1 < sz \<longrightarrow> ok)
    \<and> (ok \<longrightarrow> cstr h' result = Some
        (if isslash (hd path) then resolve root slash (take (Suc root) (base_trim root base)) (tl path)
         else resolve root slash (base_trim root base) path))"
proof -
  let ?s0 = "base_trim root base"
  obtain h1 h2 where h: "blk_st h result (base @ [NUL]) = Some h1" "find_root h1 result base = Some (int root, slash)"
    "if base \<noteq> [] \<and> int (length base) - 1 \<noteq> int root \<and> isslash (last base)
        then st_at h1 result (int (length base) - 1) NUL = Some h2 else h2 = h1"
    "holds h2 result (?s0 @ [NUL])" "within h result sz h2"
    using rel2abs_base [OF root N(1) sz] by blast
  define start where "start = (if isslash (hd path) then take (Suc root) ?s0 else ?s0)"
  define p where "p = (if isslash (hd path) then tl path else path)"
  have l0: "length ?s0 = (if base \<noteq> [] \<and> int (length base) - 1 \<noteq> int root \<and> isslash (last base)
      then length base - 1 else length base)"
    by (auto simp: base_trim_def)
  have hs0: "holds h2 result ?s0" using holds_prefix [OF h(4)] .
  then have hs: "holds h2 result start"
    using holds_prefix [of h2 result "take (Suc root) ?s0" "drop (Suc root) ?s0"] by (simp add: start_def)
  have f2: "fits h2 result sz" using within_fits [OF h(5)] sz(2) by simp
  have st: "length start \<le> length ?s0" "root \<le> length start" using in_base by (auto simp: start_def)
  obtain h3 t r where loop: "rel2abs_loop result (int root) slash sz h2 p (int (length start)) (length ?s0) = Some (h3, t, r)"
    "within h2 result sz h3" "r \<le> length ?s0 + (if p = [] then 0 else Suc (length p))"
    "r < sz \<longrightarrow> t = int (length (resolve root slash start p)) \<and> holds h3 result (resolve root slash start p)
       \<and> length (resolve root slash start p) \<le> r"
    using rel2abs_loop_resolve [OF refl refl hs f2 st] by blast
  have pos: "isslash (hd path) \<Longrightarrow> length ?s0 \<noteq> 0" using in_base(2) by auto
  have start_len: "isslash (hd path) \<Longrightarrow> int (length start) = int root + 1" using in_base(2) by (auto simp: start_def)
  have c1: "\<not> sz \<le> length base" using sz(1) by simp
  have c2: "\<not> (deref (dropWhile is_scheme_char path) = CHR '':''
      \<or> 1 < length path \<and> isslash (path ! 0) \<and> isslash (path ! 1))" using rel by simp
  have m1: "(if base \<noteq> [] \<and> int (length base) - 1 \<noteq> int root \<and> isslash (last base)
      then do { h2 \<leftarrow> st_at h1 result (int (length base) - 1) NUL; Some (h2, int (length base) - 1, length base - 1) }
      else Some (h1, int (length base), length base)) = Some (h2, int (length ?s0), length ?s0)"
    using h(3) l0 by (cases base) (auto simp del: st_at.simps split: if_splits)
  have m2: "(if isslash (hd path)
      then do { (h3, rroot, rsize) \<leftarrow>
                  (if length ?s0 = 0
                   then do { h3 \<leftarrow> st_at h2 result (int root + 1) (hd path); Some (h3, int root + 1, Suc (length ?s0)) }
                   else Some (h2, int root, length ?s0));
                Some (h3, rroot, rroot + 1, rsize, tl path) }
      else Some (h2, int root, int (length ?s0), length ?s0, path))
    = Some (h2, if isslash (hd path) then int root else int root, int (length start), length ?s0, p)"
    using pos start_len by (auto simp: p_def start_def)
  have run: "rel2abs h base path result sz
      = (if r \<ge> sz then Some (h3, False) else do { h5 \<leftarrow> st_at h3 result t NUL; Some (h5, True) })"
    by (simp only: rel2abs_def if_not_P [OF c1] if_not_P [OF c2] h(1,2) Option.bind.simps prod.case Let_def
        m1 if_not_P [OF rel(3)] m2 loop(1) if_cancel)
  have le: "length ?s0 \<le> length base" "length p \<le> length path" by (auto simp: l0 p_def)
  have w: "within h result sz h3" by (rule within_trans [OF h(5) loop(2)])
  show ?thesis
  proof (cases "r < sz")
    case False
    then show ?thesis using run w loop(3) le by (auto split: if_splits)
  next
    case True
    then have q: "t = int (length (resolve root slash start p))" "holds h3 result (resolve root slash start p)"
      "length (resolve root slash start p) < sz" using loop(4) by auto
    obtain h5 where h5: "st_at h3 result t NUL = Some h5" "holds h5 result (resolve root slash start p @ [NUL])"
      "within h3 result sz h5"
      using holds_st [OF q(2,3), of NUL] q(1) within_fits [OF w] sz(2) by auto
    have "set start \<subseteq> set base" "set p \<subseteq> set path"
      using rel(3) by (auto simp: start_def p_def base_trim_def dest: in_set_takeD in_set_butlastD list.set_sel(2)
          split: if_splits)
    then have "NUL \<notin> set (resolve root slash start p)"
      using set_resolve [of root slash start p] N base_root_slash [OF root] by auto
    then have "cstr h5 result = Some (resolve root slash start p)" by (rule holds_cstr [OF h5(2)])
    then show ?thesis using run True h5(1) within_trans [OF w h5(3)] by (auto simp: start_def p_def)
  qed
qed

section \<open>There and back again\<close>

text \<open>Paths as lists of names; \<open>fl\<close> puts a separator before each name, \<open>jn\<close> between the names.\<close>

definition fl :: "string list \<Rightarrow> string" where
  "fl xs = concat (map (\<lambda>x. DIR_SEP # x) xs)"

fun jn :: "string list \<Rightarrow> string" where
  "jn [] = []"
| "jn (x # xs) = x @ fl xs"

definition clean :: "string \<Rightarrow> bool" where
  "clean x \<longleftrightarrow> x \<noteq> [] \<and> x \<noteq> ''.'' \<and> x \<noteq> ''..'' \<and> (\<forall>c \<in> set x. \<not> isslash c \<and> c \<noteq> CHR '':'' \<and> c \<noteq> NUL)"

lemma fl_simps [simp]: "fl [] = []" "fl (x # xs) = DIR_SEP # x @ fl xs" "fl (xs @ ys) = fl xs @ fl ys"
  by (simp_all add: fl_def)

lemma fl_append [simp]: "concat (map (\<lambda>x. DIR_SEP # x) xs) = fl xs"
  by (simp add: fl_def)

lemma clean_slash: "clean x \<Longrightarrow> \<forall>c \<in> set x. \<not> isslash c" "clean x \<Longrightarrow> DIR_SEP \<notin> set x" "clean x \<Longrightarrow> x \<noteq> []"
  by (auto simp: clean_def isslash_def)

lemma common_same:
  "DIR_SEP \<notin> set b \<Longrightarrow> common_part (b @ x) (b @ y) i bd pd = common_part x y (i + length b) bd pd"
  by (induction b arbitrary: i) auto

lemma common_diff:
  "DIR_SEP \<notin> set b \<Longrightarrow> DIR_SEP \<notin> set p \<Longrightarrow> b \<noteq> p \<Longrightarrow>
   common_part (b @ fl bs) (p @ fl ps) i bd pd = (bd, pd)"
proof (induction b arbitrary: p i)
  case Nil
  then obtain c q where "p = c # q" by (cases p) auto
  then show ?case using Nil by (cases bs) auto
next
  case (Cons a b)
  show ?case
  proof (cases p)
    case Nil
    then show ?thesis using Cons.prems by (cases ps) auto
  next
    case (Cons c q)
    then show ?thesis using Cons.prems Cons.IH by auto
  qed
qed

text \<open>The common part ends behind a separator of both paths.\<close>

lemma common_fl:
  "list_all clean bs \<Longrightarrow> list_all clean ps \<Longrightarrow> ps \<noteq> [] \<Longrightarrow>
   \<exists>cs bd' pd'. bs = cs @ bd' \<and> ps = cs @ pd' \<and> pd' \<noteq> []
     \<and> common_part (fl bs) (fl ps) i bd pd = (jn bd', i + length (fl cs) + 1)"
proof (induction bs arbitrary: ps i bd pd)
  case Nil
  then obtain p ps' where "ps = p # ps'" by (cases ps) auto
  then show ?case by auto
next
  case (Cons b bs)
  obtain p ps' where ps: "ps = p # ps'" using Cons.prems by (cases ps) auto
  have c: "DIR_SEP \<notin> set b" "DIR_SEP \<notin> set p" "list_all clean bs" "list_all clean ps'"
    using Cons.prems ps clean_slash by auto
  have step: "common_part (fl (b # bs)) (fl ps) i bd pd
      = common_part (b @ fl bs) (p @ fl ps') (Suc i) (b @ fl bs) (Suc i)"
    using ps by simp
  show ?case
  proof (cases "b = p \<and> ps' \<noteq> []")
    case True
    then obtain cs bd' pd' where IH: "bs = cs @ bd'" "ps' = cs @ pd'" "pd' \<noteq> []"
      "common_part (fl bs) (fl ps') (Suc i + length b) (b @ fl bs) (Suc i)
        = (jn bd', Suc i + length b + length (fl cs) + 1)"
      using Cons.IH [OF c(3,4)] by metis
    then show ?thesis using step True ps common_same [OF c(1)]
      by (intro exI [of _ "b # cs"] exI [of _ bd'] exI [of _ pd']) simp
  next
    case False
    have "common_part (b @ fl bs) (p @ fl ps') (Suc i) (b @ fl bs) (Suc i) = (b @ fl bs, Suc i)"
    proof (cases "b = p")
      case True
      then have "ps' = []" using False by simp
      then show ?thesis using common_same [OF c(1), of "fl bs" "[]"] True by simp
    next
      case False
      then show ?thesis using common_diff [OF c(1,2)] by simp
    qed
    then show ?thesis using step ps by (intro exI [of _ "[]"] exI [of _ "b # bs"] exI [of _ ps]) simp
  qed
qed

lemma ups_fl:
  "s \<noteq> [] \<Longrightarrow> DIR_SEP \<notin> set (tl s) \<Longrightarrow> list_all clean xs \<Longrightarrow>
   ups (s @ fl xs) True = concat (replicate (Suc (length xs)) (''..'' @ [DIR_SEP]))"
proof (induction xs arbitrary: s)
  case Nil
  then have d: "dropWhile (\<lambda>c. c \<noteq> DIR_SEP) (tl s) = []" by (auto simp: dropWhile_eq_Nil_conv)
  show ?case using Nil(1) by (subst ups.simps) (simp add: d Let_def ups.simps [of "[]"])
next
  case (Cons x xs)
  have x: "x \<noteq> []" "DIR_SEP \<notin> set x" "list_all clean xs" using Cons.prems clean_slash by auto
  have "dropWhile (\<lambda>c. c \<noteq> DIR_SEP) (tl s @ DIR_SEP # y) = DIR_SEP # y" for y
    using Cons.prems(2) by (subst dropWhile_append2) auto
  then have rest: "dropWhile (\<lambda>c. c \<noteq> DIR_SEP) (tl (s @ fl (x # xs))) = (DIR_SEP # x) @ fl xs"
    using Cons.prems(1) by (cases s) auto
  then show ?case using Cons.IH [of "DIR_SEP # x"] x Cons.prems(1)
    by (subst ups.simps) (simp add: Let_def)
qed

lemma ups_jn: "list_all clean xs \<Longrightarrow> ups (jn xs) True = concat (replicate (length xs) (''..'' @ [DIR_SEP]))"
proof (cases xs)
  case Nil
  then show ?thesis by (simp add: ups.simps)
next
  case (Cons x ys)
  moreover assume "list_all clean xs"
  ultimately have "x \<noteq> []" "DIR_SEP \<notin> set (tl x)" "list_all clean ys"
    using clean_slash(2,3) [of x] by (cases x; auto)+
  then show ?thesis using ups_fl [of x ys] Cons by simp
qed

lemma segments_Cons:
  assumes "\<forall>c \<in> set s. \<not> isslash c" and "y \<noteq> [] \<Longrightarrow> \<not> isslash (hd y)"
  shows "segments (s @ DIR_SEP # y) = s # segments y"
proof -
  have sep: "isslash DIR_SEP" by (simp add: isslash_def)
  have "takeWhile (\<lambda>c. \<not> isslash c) (s @ DIR_SEP # y) = s"
    "dropWhile (\<lambda>c. \<not> isslash c) (s @ DIR_SEP # y) = DIR_SEP # y"
    using assms(1) sep by (simp_all add: takeWhile_append2 dropWhile_append2)
  moreover have "dropWhile isslash (DIR_SEP # y) = y" using assms(2) sep by (cases y) auto
  ultimately show ?thesis by (subst segments.simps) simp
qed

lemma segments_jn: "list_all clean xs \<Longrightarrow> segments (jn xs) = xs"
proof (induction xs)
  case Nil
  then show ?case by (simp add: segments.simps)
next
  case (Cons x xs)
  note x = clean_slash [of x]
  show ?case
  proof (cases xs)
    case Nil
    have w: "takeWhile (\<lambda>c. \<not> isslash c) x = x" "dropWhile (\<lambda>c. \<not> isslash c) x = []"
      using x Cons.prems by (auto simp: takeWhile_eq_all_conv dropWhile_eq_Nil_conv)
    show ?thesis using Nil x(3) Cons.prems
      by (subst segments.simps) (simp add: w segments.simps [of "[]"])
  next
    case y: (Cons y ys)
    have "clean y" using Cons.prems y by simp
    then have "\<not> isslash (hd (jn xs))" using y clean_slash [of y] by (cases y) auto
    then have "segments (x @ DIR_SEP # jn xs) = x # segments (jn xs)"
      using x Cons.prems by (intro segments_Cons) auto
    then show ?thesis using Cons y by simp
  qed
qed

lemma segments_ups:
  assumes "list_all clean xs"
  shows "segments (concat (replicate n (''..'' @ [DIR_SEP])) @ jn xs) = replicate n ''..'' @ xs"
proof (induction n)
  case 0
  then show ?case using segments_jn [OF assms] by simp
next
  case (Suc n)
  let ?y = "concat (replicate n (''..'' @ [DIR_SEP])) @ jn xs"
  have "\<not> isslash (hd ?y)" if "?y \<noteq> []"
  proof (cases n)
    case 0
    have "jn xs \<noteq> []" using that unfolding 0 by simp
    then obtain x ys where "xs = x # ys" by (cases xs) simp_all
    then show ?thesis using 0 assms clean_slash [of x] by (cases x) auto
  qed (simp add: isslash_def)
  then have "segments (''..'' @ DIR_SEP # ?y) = ''..'' # segments ?y"
    by (intro segments_Cons) (auto simp: isslash_def)
  then show ?case using Suc by simp
qed

lemma pop_name:
  assumes "\<forall>c \<in> set x. \<not> isslash c"
  shows "pop (length r) (r @ y @ DIR_SEP # x) = r @ y"
  using assms
proof (induction x rule: rev_induct)
  case Nil
  then show ?case by (subst pop.simps) (simp add: isslash_def butlast_append)
next
  case (snoc c x)
  then show ?case by (subst pop.simps) (simp add: butlast_append)
qed

lemma resolve_dotdots:
  "list_all clean bd \<Longrightarrow>
   foldl (resolve_step (length r) slash) (r @ fl (cs @ bd)) (replicate (length bd) ''..'' @ ps)
     = foldl (resolve_step (length r) slash) (r @ fl cs) ps"
proof (induction bd rule: rev_induct)
  case Nil
  then show ?case by simp
next
  case (snoc b bd)
  have "pop (length r) (r @ (fl (cs @ bd)) @ DIR_SEP # b) = r @ fl (cs @ bd)"
    using pop_name [of b r "fl (cs @ bd)"] clean_slash(1) [of b] snoc.prems by simp
  then show ?case using snoc by (simp add: resolve_step_def)
qed

lemma resolve_names:
  "list_all clean ps \<Longrightarrow> s \<noteq> [] \<Longrightarrow> \<not> isslash (last s) \<Longrightarrow>
   foldl (resolve_step root DIR_SEP) s ps = s @ fl ps"
proof (induction ps arbitrary: s)
  case (Cons p ps)
  have "resolve_step root DIR_SEP s p = s @ DIR_SEP # p"
    using Cons.prems by (auto simp: resolve_step_def clean_def)
  moreover have "\<not> isslash (last (s @ DIR_SEP # p))"
    using Cons.prems clean_slash [of p] by (cases p rule: rev_cases) auto
  ultimately show ?case using Cons by simp
qed simp

section \<open>Properties\<close>

lemma base_root_drive:
  assumes "isalpha d" and "base = d # CHR '':'' # DIR_SEP # y"
  shows "base_root base = Some (2, DIR_SEP)"
proof -
  have d: "is_scheme_char d" "\<not> isslash d" using assms(1)
    by (auto simp: is_scheme_char_def isalnum_def isslash_def ctype_defs)
  have c: "\<not> is_scheme_char (CHR '':'')" "isslash DIR_SEP"
    by (simp_all add: is_scheme_char_def isslash_def ctype_defs)
  show ?thesis using assms d c by (simp add: base_root_def)
qed

lemma clean_NUL: "list_all clean xs \<Longrightarrow> NUL \<notin> set (fl xs)" "list_all clean xs \<Longrightarrow> NUL \<notin> set (jn xs)"
proof -
  show fl: "NUL \<notin> set (fl xs)" if "list_all clean xs" for xs
    using that by (induction xs) (auto simp: clean_def)
  show "NUL \<notin> set (jn xs)" if "list_all clean xs"
    using that fl by (cases xs) (auto simp: clean_def)
qed

lemma clean_scheme:
  assumes "list_all clean xs"
  shows "deref (dropWhile is_scheme_char (concat (replicate n (''..'' @ [DIR_SEP])) @ jn xs)) \<noteq> CHR '':''"
proof (cases n)
  case (Suc m)
  have "is_scheme_char (CHR ''.'')" "\<not> is_scheme_char DIR_SEP" by (simp_all add: is_scheme_char_def ctype_defs)
  then show ?thesis using Suc by simp
next
  case 0
  have fl: "deref (dropWhile is_scheme_char (x @ fl ys)) \<noteq> CHR '':''" if "CHR '':'' \<notin> set x" for x ys
  proof (cases "\<exists>c \<in> set x. \<not> is_scheme_char c")
    case True
    then have "dropWhile is_scheme_char (x @ fl ys) = dropWhile is_scheme_char x @ fl ys"
      "dropWhile is_scheme_char x \<noteq> []" by (auto simp: dropWhile_append1)
    moreover from this obtain c r where "dropWhile is_scheme_char x = c # r"
      by (cases "dropWhile is_scheme_char x") auto
    moreover from this have "c \<in> set x" using set_dropWhileD [of c is_scheme_char x] by simp
    ultimately show ?thesis using that by auto
  next
    case False
    then have "dropWhile is_scheme_char (x @ fl ys) = dropWhile is_scheme_char (fl ys)"
      by (intro dropWhile_append2) auto
    moreover have "\<not> is_scheme_char DIR_SEP" by (simp add: is_scheme_char_def ctype_defs)
    moreover have e: "dropWhile is_scheme_char x = []" using False by (auto simp: dropWhile_eq_Nil_conv)
    ultimately show ?thesis by (cases ys) (simp_all add: e)
  qed
  show ?thesis using 0 assms fl by (cases xs) (auto simp: clean_def)
qed

text \<open>C25: \<open>abs2rel\<close> never writes more than \<open>size\<close> bytes when \<open>size\<close> is not zero, returns \<open>NULL\<close>
  exactly when the relative path does not fit and otherwise stores it with its terminator.\<close>

theorem abs2rel_bounded:
  assumes "0 < sz" and "fits h result sz" and "NUL \<notin> set base" and "NUL \<notin> set path"
  shows "\<exists>h' ok. abs2rel h base path result sz = Some (h', ok) \<and> within h result sz h'
    \<and> (ok \<longleftrightarrow> length (rel_path base path) < sz) \<and> (ok \<longrightarrow> cstr h' result = Some (rel_path base path))"
proof -
  have ups: "set (ups b m) \<subseteq> {CHR ''.'', DIR_SEP}" for b m
  proof (induction b m rule: ups.induct)
    case (1 b m)
    then show ?case by (subst ups.simps) (auto simp: Let_def)
  qed
  have N: "NUL \<notin> set (rel_path base path)"
  proof -
    obtain b k where bk: "common_part base path 0 base 0 = (b, k)" by fastforce
    have "NUL \<notin> set (ups b (drop k path \<noteq> []) @ drop k path)"
      using ups [of b "drop k path \<noteq> []"] assms(4) by (auto dest: in_set_dropD)
    then show ?thesis using assms(4) by (simp only: rel_path_def bk Let_def prod.case split: if_split) simp
  qed
  have w: "within h result sz (put h result (rel_path base path @ [NUL]))" if "length (rel_path base path) < sz"
    using that within_put [OF assms(2), of 0 "rel_path base path @ [NUL]"] by simp
  have "fits h result (Suc (length (rel_path base path)))" if "length (rel_path base path) < sz"
    using that assms(2) by (auto elim: fits_mono)
  note f = this
  show ?thesis
  proof (cases "length (rel_path base path) < sz")
    case True
    then show ?thesis
      using abs2rel_rel_path [OF assms(1,2), of base path] w cstr_put_same [OF f [OF True] N]
      by (intro exI [of _ "put h result (rel_path base path @ [NUL])"] exI [of _ True]) simp
  next
    case False
    then obtain h' where "abs2rel h base path result sz = Some (h', False)" "wrote h result sz h'"
      using abs2rel_rel_path [OF assms(1,2), of base path] by auto
    then show ?thesis using False wrote_within [OF _ assms(2)] by auto
  qed
qed

lemma abs2rel_bounded_witness:
  "\<exists>h'. abs2rel (\<lambda>_. replicate 9 NUL) (''C:'' @ fl [''a'', ''b'']) (''C:'' @ fl [''a'', ''c'', ''d'']) (0, 0) 9 = Some (h', True)
    \<and> cstr h' (0, 0) = Some (''..'' @ fl [''c'', ''d''])"
proof -
  have "rel_path (''C:'' @ fl [''a'', ''b'']) (''C:'' @ fl [''a'', ''c'', ''d'']) = ''..'' @ fl [''c'', ''d'']"
    by code_simp
  then show ?thesis
    using abs2rel_bounded [of 9 "\<lambda>_. replicate 9 NUL" "(0, 0)" "''C:'' @ fl [''a'', ''b'']" "''C:'' @ fl [''a'', ''c'', ''d'']"]
    by (auto simp: fits_def)
qed

text \<open>C9: For a base with a drive, a scheme or a computer name, \<open>rel2abs\<close> stays inside the \<open>size\<close>
  bytes of the result, succeeds when they are enough for base, path and a separator, and its
  pointer loop yields the base changed by one segment of the path after the other.\<close>

theorem rel2abs_correct:
  assumes "base_root base = Some (root, slash)" and "NUL \<notin> set base" and "NUL \<notin> set path"
    and "length base < sz" and "fits h result sz"
    and "deref (dropWhile is_scheme_char path) \<noteq> CHR '':''"
    and "\<not> (length path > 1 \<and> isslash (path ! 0) \<and> isslash (path ! 1))" and "path \<noteq> []"
    and "root < length (base_trim root base)"
  shows "\<exists>h' ok. rel2abs h base path result sz = Some (h', ok) \<and> within h result sz h'
    \<and> (length base + length path + 1 < sz \<longrightarrow> ok)
    \<and> (ok \<longrightarrow> cstr h' result = Some
        (if isslash (hd path) then resolve root slash (take (Suc root) (base_trim root base)) (tl path)
         else resolve root slash (base_trim root base) path))"
  by (rule rel2abs_resolve [OF assms(1-8)]) (use assms(9) in simp_all)

lemma rel2abs_correct_witness:
  "\<exists>h'. rel2abs (\<lambda>_. replicate 30 NUL) ''http://h/a/b'' ''../c/./d'' (0, 0) 30 = Some (h', True)
    \<and> cstr h' (0, 0) = Some ''http://h/a/c/d''"
proof -
  have "base_root ''http://h/a/b'' = Some (8, CHR ''/'')" "base_trim 8 ''http://h/a/b'' = ''http://h/a/b''"
    "resolve 8 (CHR ''/'') ''http://h/a/b'' ''../c/./d'' = ''http://h/a/c/d''"
    "deref (dropWhile is_scheme_char ''../c/./d'') = CHR ''/''" "\<not> isslash (CHR ''.'')"
    by code_simp+
  then show ?thesis
    using rel2abs_correct [of "''http://h/a/b''" 8 "CHR ''/''" "''../c/./d''" 30 "\<lambda>_. replicate 30 NUL" "(0, 0)"]
    by (auto simp: fits_def)
qed

text \<open>C3: On a drive, \<open>rel2abs\<close> undoes \<open>abs2rel\<close>: the relative path that \<open>abs2rel\<close> stores for an
  absolute path and a base directory is resolved by \<open>rel2abs\<close> against the same base to that path,
  for all paths of plain names.\<close>

theorem abs2rel_rel2abs:
  assumes "isalpha d" and "list_all clean bs" and "list_all clean ps" and "bs \<noteq> []" and "ps \<noteq> []"
    and "base = d # CHR '':'' # fl bs" and "path = d # CHR '':'' # fl ps"
    and "3 * length bs + length path < sz1" and "fits h buf sz1"
    and "length base + 3 * length bs + length path + 1 < sz2" and "fits h out sz2"
  shows "\<exists>h1 rel h2. abs2rel h base path buf sz1 = Some (h1, True) \<and> cstr h1 buf = Some rel
    \<and> rel2abs h1 base rel out sz2 = Some (h2, True) \<and> cstr h2 out = Some path"
proof -
  obtain cs bd pd where cp: "bs = cs @ bd" "ps = cs @ pd" "pd \<noteq> []"
    "common_part (fl bs) (fl ps) 2 base 0 = (jn bd, 2 + length (fl cs) + 1)"
    using common_fl [OF assms(2,3,5)] by blast
  have d: "d \<noteq> DIR_SEP" "\<not> isslash d" "d \<noteq> NUL" using assms(1) by (auto simp: ctype_defs isslash_def)
  have common: "common_part base path 0 base 0 = (jn bd, 2 + length (fl cs) + 1)"
    using cp(4) assms(6,7) d by (simp add: numeral_2_eq_2)
  have clean: "list_all clean bd" "list_all clean pd" using assms(2,3) cp by simp_all
  obtain p pd' where pd: "pd = p # pd'" using cp(3) by (cases pd) auto
  have dropped: "drop (2 + length (fl cs) + 1) path = jn pd" using assms(7) cp(2) pd by simp
  have pne: "jn pd \<noteq> []" using pd clean clean_slash [of p] by auto
  let ?rel = "concat (replicate (length bd) (''..'' @ [DIR_SEP])) @ jn pd"
  have "path ! 0 \<noteq> DIR_SEP" using assms(7) d by simp
  then have rel: "rel_path base path = ?rel"
    using common dropped ups_jn [OF clean(1)] pne by (simp add: rel_path_def del: drop_eq_Nil)
  have lens: "length ?rel \<le> 3 * length bs + length path"
  proof -
    have "length (concat (replicate n (''..'' @ [DIR_SEP]))) = 3 * n" for n by (induction n) simp_all
    moreover have "length (jn pd) \<le> length path" using dropped by (metis diff_le_self length_drop)
    ultimately show ?thesis using cp(1) by simp
  qed
  have N: "NUL \<notin> set base" "NUL \<notin> set path" "NUL \<notin> set ?rel"
    using clean_NUL(1) [OF assms(2)] clean_NUL(1) [OF assms(3)] clean_NUL(2) [OF clean(2)] assms(6,7) d by auto
  have fr: "fits h buf (Suc (length ?rel))" using assms(8,9) lens by (auto elim: fits_mono)
  have lt: "length ?rel < sz1" using lens assms(8) by linarith
  obtain h1 where h1: "abs2rel h base path buf sz1 = Some (h1, True)" "within h buf sz1 h1" "cstr h1 buf = Some ?rel"
    using abs2rel_rel_path [of sz1 h buf base path] lt assms(9) rel
      within_put [OF assms(9), of 0 "?rel @ [NUL]"] cstr_put_same [OF fr N(3)]
    by auto
  have root: "base_root base = Some (2, DIR_SEP)"
    using base_root_drive [OF assms(1), of base] assms(4,6) by (cases bs) auto
  have last: "\<not> isslash (last base)"
  proof -
    obtain xs x where "bs = xs @ [x]" using assms(4) by (cases bs rule: rev_cases) auto
    then show ?thesis using assms(2,6) clean_slash [of x] by (cases x rule: rev_cases) auto
  qed
  then have trim: "base_trim 2 base = base" by (simp add: base_trim_def)
  have hdrel: "\<not> isslash (hd ?rel)" "?rel \<noteq> []"
    using pd clean clean_slash [of p] by (cases "length bd"; cases p; auto simp: isslash_def)+
  have "\<not> (length ?rel > 1 \<and> isslash (?rel ! 0) \<and> isslash (?rel ! 1))"
    using hdrel by (metis hd_conv_nth)
  moreover have "fits h1 out sz2" using within_fits_any [OF h1(2)] assms(11) by simp
  moreover have "2 < length base" using assms(4,6) by (cases bs) auto
  ultimately obtain h2 where h2: "rel2abs h1 base ?rel out sz2 = Some (h2, True)"
    "cstr h2 out = Some (resolve 2 DIR_SEP base ?rel)"
    using rel2abs_resolve [OF root N(1,3), of sz2 h1 out] clean_scheme [OF clean(2)] hdrel trim lens assms(10) by fastforce
  have "resolve 2 DIR_SEP base ?rel = foldl (resolve_step 2 DIR_SEP) ((d # '':'') @ fl cs) pd"
    using resolve_dotdots [OF clean(1), of "d # '':''" DIR_SEP cs pd] segments_ups [OF clean(2)] assms(6) cp(1)
    by (simp add: resolve_def numeral_2_eq_2)
  also have "\<dots> = path"
  proof -
    have "\<not> isslash (last ((d # '':'') @ fl cs))"
    proof (cases cs rule: rev_cases)
      case Nil
      then show ?thesis by (simp add: isslash_def)
    next
      case (snoc xs x)
      then have "clean x" using assms(2) cp(1) by simp
      then show ?thesis using snoc clean_slash [of x] by (cases x rule: rev_cases) auto
    qed
    then show ?thesis using resolve_names [OF clean(2), of "(d # '':'') @ fl cs"] assms(7) cp(2) by simp
  qed
  finally show ?thesis using h1 h2 by auto
qed

lemma abs2rel_rel2abs_witness:
  "\<exists>h1 rel h2. abs2rel (\<lambda>_. replicate 60 NUL) (''C:'' @ fl [''a'', ''b'']) (''C:'' @ fl [''a'', ''c'', ''d'']) (0, 0) 20 = Some (h1, True)
    \<and> cstr h1 (0, 0) = Some rel \<and> rel2abs h1 (''C:'' @ fl [''a'', ''b'']) rel (1, 0) 40 = Some (h2, True)
    \<and> cstr h2 (1, 0) = Some (''C:'' @ fl [''a'', ''c'', ''d''])"
proof -
  have c: "isalpha (CHR ''C'')" "list_all clean [''a'', ''b'']" "list_all clean [''a'', ''c'', ''d'']" by code_simp+
  have l: "length (fl [''a'', ''b'']) = 4" "length (fl [''a'', ''c'', ''d'']) = 6" by code_simp+
  have "\<exists>h1 rel h2. abs2rel (\<lambda>_. replicate 60 NUL) (CHR ''C'' # CHR '':'' # fl [''a'', ''b''])
      (CHR ''C'' # CHR '':'' # fl [''a'', ''c'', ''d'']) (0, 0) 20 = Some (h1, True)
    \<and> cstr h1 (0, 0) = Some rel \<and> rel2abs h1 (CHR ''C'' # CHR '':'' # fl [''a'', ''b'']) rel (1, 0) 40 = Some (h2, True)
    \<and> cstr h2 (1, 0) = Some (CHR ''C'' # CHR '':'' # fl [''a'', ''c'', ''d''])"
    by (rule abs2rel_rel2abs [OF c _ _ refl refl]) (simp_all add: l fits_def)
  then show ?thesis by simp
qed

text \<open>Where the two functions go wrong: an absolute path resolved against a URL without a path
  leaves the base unchanged (the path is stored behind the terminator), going up from the only
  directory of a drive loses the root, and \<open>abs2rel\<close> ignores a buffer size of zero.\<close>

lemma path_edge_cases:
  "map_option (\<lambda>(h, ok). (cstr h (0, 0), ok)) (rel2abs (\<lambda>_. replicate 30 NUL) ''http://h'' ''/x'' (0, 0) 30)
     = Some (Some ''http://h'', True)
   \<and> map_option (\<lambda>(h, ok). (cstr h (0, 0), ok))
       (rel2abs (\<lambda>_. replicate 30 NUL) (''C:'' @ fl [''a'']) ''..'' (0, 0) 30)
     = Some (Some ''C:'', True)
   \<and> map_option (\<lambda>(h, ok). (cstr h (0, 0), ok))
       (abs2rel (\<lambda>_. replicate 9 NUL) (''C:'' @ [DIR_SEP]) (''C:'' @ fl [''ab'']) (0, 0) 0)
     = Some (Some ''ab'', True)"
proof (intro conjI)
  show "map_option (\<lambda>(h, ok). (cstr h (0, 0), ok)) (rel2abs (\<lambda>_. replicate 30 NUL) ''http://h'' ''/x'' (0, 0) 30)
     = Some (Some ''http://h'', True)" by code_simp
  show "map_option (\<lambda>(h, ok). (cstr h (0, 0), ok))
       (rel2abs (\<lambda>_. replicate 30 NUL) (''C:'' @ fl [''a'']) ''..'' (0, 0) 30)
     = Some (Some ''C:'', True)" by code_simp
  show "map_option (\<lambda>(h, ok). (cstr h (0, 0), ok))
       (abs2rel (\<lambda>_. replicate 9 NUL) (''C:'' @ [DIR_SEP]) (''C:'' @ fl [''ab'']) (0, 0) 0)
     = Some (Some ''ab'', True)" by code_simp
qed

end
