(* ===== verification/Queue.thy ===== *)
theory Queue
  imports CPrelude
begin

text \<open>
  \<^verbatim>\<open>src/utils/queue.c\<close>: the request queue of a worker thread, a doubly linked list on the heap with
  a mutex semaphore and an event semaphore. The first part models the operations on the list as
  they run between \<open>qu_request\<close> and \<open>qu_release\<close>, shows that they implement a queue and states
  this as an interface; the second part runs them in threads that interleave at every call of a
  semaphore function.

  Addresses are numbers and a freed node is gone from the heap, so that the use of a null pointer
  or of a freed node is \<open>None\<close>. The semaphores are those of OS/2: the mutex can be requested again
  by its owner, and waiting for an event does not reset it.
\<close>

section \<open>The list\<close>

record qelement =
  e_request :: "32 word"
  e_data :: nat
  e_prev :: "nat option"
  e_next :: "nat option"

record queue =
  q_heap :: "nat \<Rightarrow> qelement option"
  q_first :: "nat option"
  q_last :: "nat option"
  q_ready :: bool

definition qu_have_data :: "queue \<Rightarrow> queue" where
  "qu_have_data q = q\<lparr>q_ready := True\<rparr>"

definition qu_no_data :: "queue \<Rightarrow> queue" where
  "qu_no_data q = q\<lparr>q_ready := False\<rparr>"

definition qu_empty :: "queue \<Rightarrow> bool" where
  "qu_empty q \<longleftrightarrow> q_first q = None"

text \<open>\<open>free\<close>, and the assignments \<open>p->prev = v\<close> and \<open>p->next = v\<close>.\<close>

definition q_free :: "queue \<Rightarrow> nat \<Rightarrow> queue option" where
  "q_free q a = (if q_heap q a = None then None else Some (q\<lparr>q_heap := (q_heap q)(a := None)\<rparr>))"

definition set_prev :: "queue \<Rightarrow> nat \<Rightarrow> nat option \<Rightarrow> queue option" where
  "set_prev q a v =
     map_option (\<lambda>e. q\<lparr>q_heap := (q_heap q)(a \<mapsto> e\<lparr>e_prev := v\<rparr>)\<rparr>) (q_heap q a)"

definition set_next :: "queue \<Rightarrow> nat \<Rightarrow> nat option \<Rightarrow> queue option" where
  "set_next q a v =
     map_option (\<lambda>e. q\<lparr>q_heap := (q_heap q)(a \<mapsto> e\<lparr>e_next := v\<rparr>)\<rparr>) (q_heap q a)"

text \<open>\<open>calloc\<close> has put a node of zeros at the fresh address \<open>a\<close>; the caller fills it.\<close>

definition q_calloc :: "queue \<Rightarrow> nat \<Rightarrow> 32 word \<Rightarrow> nat \<Rightarrow> queue" where
  "q_calloc q a request dat =
     q\<lparr>q_heap := (q_heap q)(a \<mapsto> \<lparr>e_request = request, e_data = dat, e_prev = None, e_next = None\<rparr>)\<rparr>"

text \<open>The body of \<open>qu_write\<close> between \<open>qu_request\<close> and \<open>qu_have_data\<close>, and that of \<open>qu_push\<close>.\<close>

definition link_last :: "queue \<Rightarrow> nat \<Rightarrow> 32 word \<Rightarrow> nat \<Rightarrow> queue option" where
  "link_last q a request dat =
     (let q = q_calloc q a request dat in
      case q_last q of
        Some l \<Rightarrow> do { q \<leftarrow> set_prev q a (Some l); q \<leftarrow> set_next q l (Some a); Some (q\<lparr>q_last := Some a\<rparr>) }
      | None \<Rightarrow> Some (q\<lparr>q_first := Some a, q_last := Some a\<rparr>))"

definition link_first :: "queue \<Rightarrow> nat \<Rightarrow> 32 word \<Rightarrow> nat \<Rightarrow> queue option" where
  "link_first q a request dat =
     (let q = q_calloc q a request dat in
      case q_first q of
        Some f \<Rightarrow> do { q \<leftarrow> set_next q a (Some f); q \<leftarrow> set_prev q f (Some a); Some (q\<lparr>q_first := Some a\<rparr>) }
      | None \<Rightarrow> Some (q\<lparr>q_first := Some a, q_last := Some a\<rparr>))"

text \<open>\<open>qu_write\<close> and \<open>qu_push\<close>: \<open>calloc\<close> may fail.\<close>

definition qu_write :: "queue \<Rightarrow> nat option \<Rightarrow> 32 word \<Rightarrow> nat \<Rightarrow> (queue \<times> bool) option" where
  "qu_write q node request dat =
     (case node of
        Some a \<Rightarrow> map_option (\<lambda>q. (qu_have_data q, True)) (link_last q a request dat)
      | None \<Rightarrow> Some (q, False))"

definition qu_push :: "queue \<Rightarrow> nat option \<Rightarrow> 32 word \<Rightarrow> nat \<Rightarrow> (queue \<times> bool) option" where
  "qu_push q node request dat =
     (case node of
        Some a \<Rightarrow> map_option (\<lambda>q. (qu_have_data q, True)) (link_first q a request dat)
      | None \<Rightarrow> Some (q, False))"

text \<open>The branch of \<open>qu_read\<close> that has found a node: it is unlinked and freed, the next node
  loses its predecessor. What remains to be done when there is no next node is \<open>drained\<close>.\<close>

definition unlink_first :: "queue \<Rightarrow> nat \<Rightarrow> (queue \<times> 32 word \<times> nat) option" where
  "unlink_first q a =
     (case q_heap q a of
        None \<Rightarrow> None
      | Some e \<Rightarrow>
          do { q \<leftarrow> q_free (q\<lparr>q_first := e_next e\<rparr>) a;
               q \<leftarrow> (case q_first q of Some f \<Rightarrow> set_prev q f None | None \<Rightarrow> Some q);
               Some (q, e_request e, e_data e) })"

definition drained :: "queue \<Rightarrow> queue" where
  "drained q = (qu_no_data q)\<lparr>q_last := None\<rparr>"

text \<open>One round of the loop of \<open>qu_read\<close> with the mutex owned: \<open>Inl\<close> goes round again.\<close>

definition qu_read_round :: "queue \<Rightarrow> (queue \<times> (unit + 32 word \<times> nat)) option" where
  "qu_read_round q =
     (case q_first q of
        None \<Rightarrow> Some (qu_no_data q, Inl ())
      | Some a \<Rightarrow>
          do { (q, r) \<leftarrow> unlink_first q a;
               Some (if q_first q = None then drained q else q, Inr r) })"

definition qu_peek :: "queue \<Rightarrow> (32 word \<times> nat) option option" where
  "qu_peek q =
     (case q_first q of
        None \<Rightarrow> Some None
      | Some a \<Rightarrow> map_option (\<lambda>e. Some (e_request e, e_data e)) (q_heap q a))"

text \<open>The loop of \<open>qu_purge\<close> frees one node after the other; as many rounds as there are nodes are
  enough, see \<open>purge_loop_all\<close>.\<close>

fun purge_loop :: "nat \<Rightarrow> queue \<Rightarrow> nat option \<Rightarrow> queue option" where
  "purge_loop fuel q None = Some q"
| "purge_loop 0 q (Some a) = None"
| "purge_loop (Suc fuel) q (Some a) =
     (case q_heap q a of
        None \<Rightarrow> None
      | Some e \<Rightarrow> (case q_free q a of None \<Rightarrow> None | Some q' \<Rightarrow> purge_loop fuel q' (e_next e)))"

definition qu_purge :: "nat \<Rightarrow> queue \<Rightarrow> queue option" where
  "qu_purge fuel q =
     map_option (\<lambda>q. qu_no_data (q\<lparr>q_first := None, q_last := None\<rparr>)) (purge_loop fuel q (q_first q))"

section \<open>The list holds a queue\<close>

text \<open>A doubly linked list of the given nodes: predecessor of the first node, first pointer, nodes,
  last pointer.\<close>

fun dll :: "(nat \<Rightarrow> qelement option) \<Rightarrow> nat option \<Rightarrow> nat option \<Rightarrow> nat list \<Rightarrow> nat option \<Rightarrow> bool" where
  "dll H pr p [] l \<longleftrightarrow> p = None \<and> l = pr"
| "dll H pr p (a # as) l \<longleftrightarrow> p = Some a \<and>
     (case H a of None \<Rightarrow> False | Some e \<Rightarrow> e_prev e = pr \<and> dll H (Some a) (e_next e) as l)"

definition item :: "queue \<Rightarrow> nat \<Rightarrow> 32 word \<times> nat" where
  "item q a = (case q_heap q a of None \<Rightarrow> (0, 0) | Some e \<Rightarrow> (e_request e, e_data e))"

definition linked :: "queue \<Rightarrow> nat list \<Rightarrow> bool" where
  "linked q as \<longleftrightarrow> dll (q_heap q) None (q_first q) as (q_last q) \<and> distinct as
     \<and> {a. q_heap q a \<noteq> None} = set as"

definition rep :: "queue \<Rightarrow> (32 word \<times> nat) list \<Rightarrow> bool" where
  "rep q xs \<longleftrightarrow> (\<exists>as. linked q as \<and> xs = map (item q) as) \<and> (q_ready q \<longleftrightarrow> xs \<noteq> [])"

lemma dll_cong: "\<forall>a \<in> set as. H' a = H a \<Longrightarrow> dll H' pr p as l = dll H pr p as l"
  by (induction as arbitrary: pr p) (auto split: option.splits)

lemma dll_same: "dll H pr p as l \<Longrightarrow> (\<And>x. x \<in> set as \<Longrightarrow> H' x = H x) \<Longrightarrow> dll H' pr p as l"
  using dll_cong by blast

lemma dll_last: "dll H pr p as l \<Longrightarrow> l = (if as = [] then pr else Some (last as))"
  by (induction as arbitrary: pr p) (auto split: option.splits)

lemma dll_in_heap: "dll H pr p as l \<Longrightarrow> a \<in> set as \<Longrightarrow> \<exists>e. H a = Some e"
  by (induction as arbitrary: pr p) (auto split: option.splits)


lemma linked_empty: "linked q [] \<longleftrightarrow> q_first q = None \<and> q_last q = None \<and> q_heap q = Map.empty"
  by (auto simp: linked_def)

lemma linked_first: "linked q as \<Longrightarrow> q_first q = (case as of [] \<Rightarrow> None | a # _ \<Rightarrow> Some a)"
  by (cases as) (auto simp: linked_def)

lemma linked_last: "linked q as \<Longrightarrow> q_last q = (if as = [] then None else Some (last as))"
  by (auto simp: linked_def dest: dll_last)

lemma linked_in_heap: "linked q as \<Longrightarrow> q_heap q a \<noteq> None \<longleftrightarrow> a \<in> set as"
  by (auto simp: linked_def)

lemma dll_link_last:
  "dll H pr p (as @ [l]) m \<Longrightarrow> l \<notin> set as \<Longrightarrow> a \<notin> set (as @ [l]) \<Longrightarrow> H l = Some el \<Longrightarrow>
   e_prev n = Some l \<Longrightarrow> e_next n = None \<Longrightarrow>
   dll (H(a \<mapsto> n, l \<mapsto> el\<lparr>e_next := Some a\<rparr>)) pr p (as @ [l, a]) (Some a)"
proof (induction as arbitrary: pr p)
  case (Cons b as)
  then obtain e where "H b = Some e" "e_prev e = pr" "dll H (Some b) (e_next e) (as @ [l]) m" "p = Some b"
    by (auto split: option.splits)
  then show ?case using Cons by auto
qed auto

lemma linked_link_last:
  assumes "linked q as" and "q_heap q a = None"
  shows "\<exists>q'. link_last q a r d = Some q' \<and> linked q' (as @ [a])
    \<and> map (item q') (as @ [a]) = map (item q) as @ [(r, d)] \<and> q_ready q' = q_ready q"
proof -
  have a: "a \<notin> set as" using assms linked_in_heap by blast
  show ?thesis
  proof (cases as rule: rev_cases)
    case Nil
    then have "linked q []" using assms by simp
    then show ?thesis using Nil
      by (auto simp: link_last_def q_calloc_def linked_def item_def Let_def)
  next
    case (snoc bs l)
    have last: "q_last q = Some l" using linked_last [OF assms(1)] snoc by simp
    obtain el where el: "q_heap q l = Some el" using linked_in_heap [OF assms(1), of l] snoc by auto
    let ?n = "\<lparr>e_request = r, e_data = d, e_prev = Some l, e_next = None\<rparr>"
    let ?q = "q\<lparr>q_heap := (q_heap q)(a \<mapsto> ?n, l \<mapsto> el\<lparr>e_next := Some a\<rparr>), q_last := Some a\<rparr>"
    have la: "l \<noteq> a" using a snoc by auto
    have link: "link_last q a r d = Some ?q"
      using last el la by (simp add: link_last_def q_calloc_def set_prev_def set_next_def Let_def)
    have "dll (q_heap ?q) None (q_first ?q) (bs @ [l, a]) (Some a)"
      using dll_link_last [of "q_heap q" None "q_first q" bs l "q_last q" a el ?n] assms(1) a snoc el
      by (auto simp: linked_def)
    moreover have "{x. q_heap ?q x \<noteq> None} = set (as @ [a])"
      using assms(1) snoc by (auto simp: linked_def)
    ultimately have "linked ?q (as @ [a])" using assms(1) a snoc by (simp add: linked_def)
    moreover have "map (item ?q) (as @ [a]) = map (item q) as @ [(r, d)]"
      using a el la by (auto simp: item_def)
    ultimately show ?thesis using link by auto
  qed
qed

lemma linked_link_first:
  assumes "linked q as" and "q_heap q a = None"
  shows "\<exists>q'. link_first q a r d = Some q' \<and> linked q' (a # as)
    \<and> map (item q') (a # as) = (r, d) # map (item q) as \<and> q_ready q' = q_ready q"
proof -
  have a: "a \<notin> set as" using assms linked_in_heap by blast
  show ?thesis
  proof (cases as)
    case Nil
    then have "linked q []" using assms by simp
    then show ?thesis using Nil
      by (auto simp: link_first_def q_calloc_def linked_def item_def Let_def)
  next
    case (Cons f bs)
    have first: "q_first q = Some f" using linked_first [OF assms(1)] Cons by simp
    obtain ef where ef: "q_heap q f = Some ef" "dll (q_heap q) (Some f) (e_next ef) bs (q_last q)"
      using assms(1) Cons by (auto simp: linked_def split: option.splits)
    let ?n = "\<lparr>e_request = r, e_data = d, e_prev = None, e_next = Some f\<rparr>"
    let ?q = "q\<lparr>q_heap := (q_heap q)(a \<mapsto> ?n, f \<mapsto> ef\<lparr>e_prev := Some a\<rparr>), q_first := Some a\<rparr>"
    have fa: "f \<noteq> a" "f \<notin> set bs" using a Cons assms(1) by (auto simp: linked_def)
    have link: "link_first q a r d = Some ?q"
      using first ef fa by (simp add: link_first_def q_calloc_def set_prev_def set_next_def Let_def)
    have "dll (q_heap ?q) (Some f) (e_next ef) bs (q_last q)"
      by (rule dll_same [OF ef(2)]) (use fa a Cons in auto)
    then have "dll (q_heap ?q) None (q_first ?q) (a # as) (q_last ?q)" using Cons fa by simp
    moreover have "{x. q_heap ?q x \<noteq> None} = set (a # as)" using assms(1) Cons by (auto simp: linked_def)
    ultimately have "linked ?q (a # as)" using assms(1) a Cons by (simp add: linked_def)
    moreover have "map (item ?q) (a # as) = (r, d) # map (item q) as"
      using a ef fa by (auto simp: item_def)
    ultimately show ?thesis using link by auto
  qed
qed

lemma linked_unlink_first:
  assumes "linked q (a # as)"
  shows "\<exists>q'. unlink_first q a = Some (q', fst (item q a), snd (item q a))
    \<and> q_heap q' = (case as of [] \<Rightarrow> Map.empty | b # bs \<Rightarrow> q_heap q')
    \<and> q_first q' = (case as of [] \<Rightarrow> None | b # _ \<Rightarrow> Some b)
    \<and> (as \<noteq> [] \<longrightarrow> linked q' as) \<and> map (item q') as = map (item q) as
    \<and> q_ready q' = q_ready q \<and> {x. q_heap q' x \<noteq> None} = set as"
proof -
  obtain e where e: "q_heap q a = Some e" "e_prev e = None" "dll (q_heap q) (Some a) (e_next e) as (q_last q)"
    using assms by (auto simp: linked_def split: option.splits)
  have a: "a \<notin> set as" "distinct as" and dom: "{x. q_heap q x \<noteq> None} = insert a (set as)"
    using assms by (auto simp: linked_def)
  show ?thesis
  proof (cases as)
    case Nil
    then have "e_next e = None" using e(3) by simp
    moreover have "(q_heap q)(a := None) = Map.empty" using dom Nil by (auto simp: fun_eq_iff)
    ultimately show ?thesis using e Nil by (simp add: unlink_first_def q_free_def item_def)
  next
    case (Cons b bs)
    obtain eb where b: "e_next e = Some b" "q_heap q b = Some eb" "e_prev eb = Some a"
      "dll (q_heap q) (Some b) (e_next eb) bs (q_last q)"
      using e(3) Cons by (auto split: option.splits)
    let ?q = "q\<lparr>q_first := Some b, q_heap := (q_heap q)(a := None, b \<mapsto> eb\<lparr>e_prev := None\<rparr>)\<rparr>"
    have ab: "a \<noteq> b" "b \<notin> set bs" using a Cons by auto
    have un: "unlink_first q a = Some (?q, fst (item q a), snd (item q a))"
      using e(1) b ab by (simp add: unlink_first_def q_free_def set_prev_def item_def)
    have "dll (q_heap ?q) (Some b) (e_next eb) bs (q_last q)"
      by (rule dll_same [OF b(4)]) (use ab a Cons in auto)
    then have "dll (q_heap ?q) None (Some b) as (q_last q)" using Cons by simp
    moreover have dom': "{x. q_heap ?q x \<noteq> None} = set as" using dom Cons a by auto
    ultimately have "linked ?q as" using a Cons by (simp add: linked_def)
    moreover have "map (item ?q) as = map (item q) as" using a b Cons by (auto simp: item_def)
    ultimately show ?thesis using un Cons dom' by auto
  qed
qed

section \<open>Creation and destruction\<close>

text \<open>What \<open>qu_create\<close> and \<open>qu_close\<close> change outside the list: the semaphores the process has open, by
  their handles, and the allocated blocks of type \<open>QUEUE\<close>. A queue is its block, its list and the two
  handles stored in it.\<close>

datatype sem = MutexSem | EventSem

record process =
  sems :: "32 word \<Rightarrow> sem option"
  blocks :: "nat set"

record qobject =
  q_block :: nat
  q_list :: queue
  data_access :: "32 word"
  data_ready :: "32 word"

text \<open>A call of \<open>DosCreateMutexSem\<close> or \<open>DosCreateEventSem\<close> is given by its return code and the value it
  leaves in the handle; only a successful one opens a semaphore. Closing a handle that is not an open
  semaphore of the kind of the call has no effect: it returns \<open>ERROR_INVALID_HANDLE\<close>, which
  \<^verbatim>\<open>queue.c\<close> ignores.\<close>

definition dos_create :: "sem \<Rightarrow> 32 word \<Rightarrow> 32 word \<Rightarrow> process \<Rightarrow> process" where
  "dos_create k rc h P = (if rc = 0 then P\<lparr>sems := (sems P)(h \<mapsto> k)\<rparr> else P)"

definition dos_close :: "sem \<Rightarrow> 32 word \<Rightarrow> process \<Rightarrow> process" where
  "dos_close k h P = (if sems P h = Some k then P\<lparr>sems := (sems P)(h := None)\<rparr> else P)"

text \<open>The end of \<open>qu_create\<close>: the handles that are not null are closed, both of them as a mutex, and the
  block is freed.\<close>

definition qu_abandon :: "nat \<Rightarrow> 32 word \<Rightarrow> 32 word \<Rightarrow> process \<Rightarrow> process" where
  "qu_abandon b access ready P =
     (let P = (if access \<noteq> 0 then dos_close MutexSem access P else P);
          P = (if ready \<noteq> 0 then dos_close MutexSem ready P else P)
      in P\<lparr>blocks := blocks P - {b}\<rparr>)"

text \<open>\<open>qu_create\<close>, given the result of \<open>calloc\<close> and those of the two calls that create a semaphore. The
  handles of the new block are null until a call writes them. When \<open>calloc\<close> fails, the clean-up code
  reads \<open>queue->data_access\<close> through the null pointer, which is \<open>None\<close>.\<close>

definition qu_create :: "nat option \<Rightarrow> 32 word \<times> 32 word \<Rightarrow> 32 word \<times> 32 word \<Rightarrow> process
    \<Rightarrow> (process \<times> qobject option) option" where
  "qu_create block mutex event P =
     (case block of
        None \<Rightarrow> None
      | Some b \<Rightarrow>
          (let P = P\<lparr>blocks := insert b (blocks P)\<rparr>;
               (rc, access) = mutex;
               P = dos_create MutexSem rc access P
           in if rc = 0
              then (let (rc, ready) = event;
                        P = dos_create EventSem rc ready P
                    in if rc = 0
                       then Some (P, Some \<lparr>q_block = b,
                              q_list = \<lparr>q_heap = Map.empty, q_first = None, q_last = None, q_ready = False\<rparr>,
                              data_access = access, data_ready = ready\<rparr>)
                       else Some (qu_abandon b access ready P, None))
              else Some (qu_abandon b access 0 P, None)))"

text \<open>\<open>qu_close\<close>: the nodes that are still allocated when the queue itself is freed are the second
  result. Closing a queue that is not allocated is a use after free.\<close>

definition qu_close :: "nat \<Rightarrow> qobject \<Rightarrow> process \<Rightarrow> (process \<times> (nat \<Rightarrow> qelement option)) option" where
  "qu_close fuel obj P =
     (if q_block obj \<notin> blocks P then None
      else map_option
        (\<lambda>q. (let P = dos_close MutexSem (data_access obj) P;
                  P = dos_close EventSem (data_ready obj) P
              in (P\<lparr>blocks := blocks P - {q_block obj}\<rparr>, q_heap q)))
        (qu_purge fuel (q_list obj)))"

text \<open>The list of a created queue is empty and its event is not posted.\<close>

lemma qu_create_list:
  "qu_create block mutex event P = Some (P', Some obj) \<Longrightarrow>
   q_list obj = \<lparr>q_heap = Map.empty, q_first = None, q_last = None, q_ready = False\<rparr>"
  by (auto simp: qu_create_def Let_def split: option.splits prod.splits if_splits)

text \<open>A handle that \<open>qu_abandon\<close> closes by mistake.\<close>

definition closed_as_mutex :: "32 word \<Rightarrow> process \<Rightarrow> process" where
  "closed_as_mutex h P = (if h \<noteq> 0 \<and> sems P h = Some MutexSem then P\<lparr>sems := (sems P)(h := None)\<rparr> else P)"

lemma insert_block: "b \<notin> blocks P \<Longrightarrow> P\<lparr>blocks := insert b (blocks P) - {b}\<rparr> = P"
  by (simp add: insert_absorb Diff_insert_absorb)

lemma qu_create_ok:
  "qu_create (Some b) (0, h) (0, e) P = Some
     (P\<lparr>blocks := insert b (blocks P), sems := (sems P)(h \<mapsto> MutexSem, e \<mapsto> EventSem)\<rparr>,
      Some \<lparr>q_block = b, q_list = \<lparr>q_heap = Map.empty, q_first = None, q_last = None, q_ready = False\<rparr>,
        data_access = h, data_ready = e\<rparr>)"
  by (simp add: qu_create_def dos_create_def)

lemma qu_create_no_mutex:
  assumes "b \<notin> blocks P" and "rc \<noteq> 0"
  shows "qu_create (Some b) (rc, h) event P = Some (closed_as_mutex h P, None)"
  using assms by (simp add: qu_create_def dos_create_def dos_close_def qu_abandon_def closed_as_mutex_def Let_def)

lemma qu_create_no_event:
  assumes "b \<notin> blocks P" and "rc \<noteq> 0" and "h \<noteq> 0" and "sems P h = None"
  shows "qu_create (Some b) (0, h) (rc, e) P = Some (closed_as_mutex e P, None)"
  using assms by (auto simp: qu_create_def dos_create_def dos_close_def qu_abandon_def closed_as_mutex_def Let_def fun_eq_iff)

section \<open>The operations implement a queue\<close>

lemma map_item_cong: "q_heap q' = q_heap q \<Longrightarrow> map (item q') as = map (item q) as"
  by (simp add: item_def)

lemma linked_ready: "linked (q\<lparr>q_ready := b\<rparr>) as = linked q as"
  by (simp add: linked_def)

lemma rep_empty: "rep q [] \<longleftrightarrow> linked q [] \<and> \<not> q_ready q"
  by (auto simp: rep_def)

lemma qu_write_rep:
  assumes "rep q xs" and "q_heap q a = None"
  shows "\<exists>q'. qu_write q (Some a) r d = Some (q', True) \<and> rep q' (xs @ [(r, d)])"
proof -
  obtain as where as: "linked q as" "xs = map (item q) as" using assms(1) by (auto simp: rep_def)
  from linked_link_last [OF as(1) assms(2), of r d]
  obtain q' where q': "link_last q a r d = Some q'" "linked q' (as @ [a])"
    "map (item q') (as @ [a]) = map (item q) as @ [(r, d)]"
    by (elim exE conjE)
  have "rep (qu_have_data q') (xs @ [(r, d)])"
    unfolding rep_def qu_have_data_def
    using q'(2,3) as(2) by (intro conjI exI [of _ "as @ [a]"]) (simp_all add: linked_ready item_def)
  then show ?thesis using q'(1) by (simp add: qu_write_def)
qed

lemma qu_push_rep:
  assumes "rep q xs" and "q_heap q a = None"
  shows "\<exists>q'. qu_push q (Some a) r d = Some (q', True) \<and> rep q' ((r, d) # xs)"
proof -
  obtain as where as: "linked q as" "xs = map (item q) as" using assms(1) by (auto simp: rep_def)
  from linked_link_first [OF as(1) assms(2), of r d]
  obtain q' where q': "link_first q a r d = Some q'" "linked q' (a # as)"
    "map (item q') (a # as) = (r, d) # map (item q) as"
    by (elim exE conjE)
  have "rep (qu_have_data q') ((r, d) # xs)"
    unfolding rep_def qu_have_data_def
    using q'(2,3) as(2) by (intro conjI exI [of _ "a # as"]) (simp_all add: linked_ready item_def)
  then show ?thesis using q'(1) by (simp add: qu_push_def)
qed

lemma linked_nonempty: "linked q as \<Longrightarrow> as \<noteq> [] \<longleftrightarrow> q_first q \<noteq> None"
  using linked_first [of q as] by (cases as) auto

lemma qu_read_round_rep:
  assumes "rep q (x # xs)"
  shows "\<exists>q'. qu_read_round q = Some (q', Inr x) \<and> rep q' xs"
proof -
  obtain a as where as: "linked q (a # as)" "x = item q a" "xs = map (item q) as" and ready: "q_ready q"
    using assms by (auto simp: rep_def)
  obtain q' where q': "unlink_first q a = Some (q', x)"
    "q_first q' = (case as of [] \<Rightarrow> None | b # _ \<Rightarrow> Some b)" "as \<noteq> [] \<longrightarrow> linked q' as"
    "map (item q') as = map (item q) as" "q_ready q' = q_ready q" "{y. q_heap q' y \<noteq> None} = set as"
    using linked_unlink_first [OF as(1)] as(2) by auto
  have first: "q_first q = Some a" using linked_first [OF as(1)] by simp
  show ?thesis
  proof (cases as)
    case Nil
    then have "q_heap q' = Map.empty" using q'(6) by (auto simp: fun_eq_iff)
    then have "rep (drained q') xs" using Nil q'(2) as(3)
      by (simp add: rep_empty linked_empty drained_def qu_no_data_def)
    then show ?thesis using first q' Nil by (simp add: qu_read_round_def)
  next
    case (Cons b bs)
    then have "rep q' xs" unfolding rep_def using q' as(3) ready by (metis list.distinct(1) list.map_disc_iff)
    then show ?thesis using first q' Cons by (simp add: qu_read_round_def)
  qed
qed

lemma qu_read_round_empty: "rep q [] \<Longrightarrow> qu_read_round q = Some (q, Inl ())"
  by (simp add: rep_empty linked_empty qu_read_round_def qu_no_data_def)

lemma qu_peek_rep: "rep q xs \<Longrightarrow> qu_peek q = Some (case xs of [] \<Rightarrow> None | x # _ \<Rightarrow> Some x)"
proof -
  assume "rep q xs"
  then obtain as where as: "linked q as" "xs = map (item q) as" by (auto simp: rep_def)
  then show ?thesis
    using linked_first [OF as(1)] linked_in_heap [OF as(1)]
    by (cases as) (fastforce simp: qu_peek_def item_def)+
qed

lemma qu_empty_rep: "rep q xs \<Longrightarrow> qu_empty q \<longleftrightarrow> xs = []"
  using linked_nonempty by (fastforce simp: rep_def qu_empty_def)

lemma purge_loop_all:
  "dll (q_heap q) pr p as l \<Longrightarrow> distinct as \<Longrightarrow> length as \<le> fuel \<Longrightarrow>
   purge_loop fuel q p = Some (q\<lparr>q_heap := (\<lambda>a. if a \<in> set as then None else q_heap q a)\<rparr>)"
proof (induction as arbitrary: q pr p fuel)
  case Nil
  then show ?case by simp
next
  case (Cons a as)
  obtain e where e: "q_heap q a = Some e" "dll (q_heap q) (Some a) (e_next e) as l" "p = Some a"
    using Cons.prems(1) by (auto split: option.splits)
  obtain n where n: "fuel = Suc n" using Cons.prems(3) by (cases fuel) auto
  let ?q = "q\<lparr>q_heap := (q_heap q)(a := None)\<rparr>"
  have "dll (q_heap ?q) (Some a) (e_next e) as l"
    by (rule dll_same [OF e(2)]) (use Cons.prems(2) in auto)
  then have "purge_loop n ?q (e_next e)
      = Some (?q\<lparr>q_heap := (\<lambda>x. if x \<in> set as then None else q_heap ?q x)\<rparr>)"
    using Cons.prems n by (intro Cons.IH [where pr = "Some a"]) (simp_all add: fun_upd_def)
  moreover have "(\<lambda>x. if x \<in> set as then None else q_heap ?q x)
      = (\<lambda>x. if x \<in> set (a # as) then None else q_heap q x)" by (rule ext) simp
  ultimately have "purge_loop n ?q (e_next e) = Some (q\<lparr>q_heap := (\<lambda>x. if x \<in> set (a # as) then None else q_heap q x)\<rparr>)"
    by (simp only:) simp
  then show ?case using e n by (simp add: q_free_def)
qed

lemma qu_purge_linked:
  assumes "linked q as" and "length as \<le> fuel"
  shows "\<exists>q'. qu_purge fuel q = Some q' \<and> rep q' []"
proof -
  have "purge_loop fuel q (q_first q)
      = Some (q\<lparr>q_heap := (\<lambda>a. if a \<in> set as then None else q_heap q a)\<rparr>)"
    using assms by (intro purge_loop_all) (auto simp: linked_def)
  moreover have "(\<lambda>a. if a \<in> set as then None else q_heap q a) = Map.empty"
    using assms(1) by (auto simp: linked_def fun_eq_iff)
  ultimately show ?thesis by (simp add: qu_purge_def qu_no_data_def rep_empty linked_empty)
qed

text \<open>Closing a queue undoes its creation.\<close>

lemma qu_close_created:
  assumes P: "b \<notin> blocks P" "h \<noteq> e" "sems P h = None" "sems P e = None"
    and create: "qu_create (Some b) (0, h) (0, e) P = Some (P', Some obj)"
    and q: "rep q xs" "length xs \<le> fuel"
  shows "qu_close fuel (obj\<lparr>q_list := q\<rparr>) P' = Some (P, Map.empty)"
proof -
  obtain as where as: "linked q as" "xs = map (item q) as" using q(1) by (auto simp: rep_def)
  then obtain q' where q': "qu_purge fuel q = Some q'" "rep q' []"
    using qu_purge_linked [OF as(1), of fuel] q(2) by auto
  have heap: "q_heap q' = Map.empty" using q'(2) by (simp add: rep_empty linked_empty)
  have obj: "obj = \<lparr>q_block = b, q_list = \<lparr>q_heap = Map.empty, q_first = None, q_last = None, q_ready = False\<rparr>,
      data_access = h, data_ready = e\<rparr>"
    and P': "P' = P\<lparr>blocks := insert b (blocks P), sems := (sems P)(h \<mapsto> MutexSem, e \<mapsto> EventSem)\<rparr>"
    using create by (simp_all add: qu_create_ok)
  have sems: "(sems P)(h := None, e := None) = sems P" using P by (auto simp: fun_eq_iff)
  show ?thesis
    unfolding obj P' using P(1,2) q'(1) heap sems
    by (simp add: qu_close_def dos_close_def Let_def fun_upd_twist)
qed

section \<open>The interface of a message queue\<close>

text \<open>Writing and reading several messages; a write is given the address of its node.\<close>

fun write_all :: "('q \<Rightarrow> 'a \<Rightarrow> 'x \<Rightarrow> 'q option) \<Rightarrow> 'q \<Rightarrow> ('a \<times> 'x) list \<Rightarrow> 'q option" where
  "write_all w q [] = Some q"
| "write_all w q ((a, x) # ws) = (case w q a x of None \<Rightarrow> None | Some q' \<Rightarrow> write_all w q' ws)"

fun read_all :: "('q \<Rightarrow> ('q \<times> 'x) option) \<Rightarrow> 'q \<Rightarrow> nat \<Rightarrow> ('q \<times> 'x list) option" where
  "read_all r q 0 = Some (q, [])"
| "read_all r q (Suc n) =
     (case r q of
        None \<Rightarrow> None
      | Some (q', x) \<Rightarrow> map_option (\<lambda>(q'', xs). (q'', x # xs)) (read_all r q' n))"

locale message_queue =
  fixes holds :: "'q \<Rightarrow> 'x list \<Rightarrow> bool"
    and fresh :: "'q \<Rightarrow> 'a \<Rightarrow> bool"
    and enq :: "'q \<Rightarrow> 'a \<Rightarrow> 'x \<Rightarrow> 'q option"
    and push :: "'q \<Rightarrow> 'a \<Rightarrow> 'x \<Rightarrow> 'q option"
    and deq :: "'q \<Rightarrow> ('q \<times> 'x) option"
  assumes write_last: "holds q xs \<Longrightarrow> fresh q a \<Longrightarrow> \<exists>q'. enq q a x = Some q' \<and> holds q' (xs @ [x])"
    and push_first: "holds q xs \<Longrightarrow> fresh q a \<Longrightarrow> \<exists>q'. push q a x = Some q' \<and> holds q' (x # xs)"
    and read_first: "holds q (x # xs) \<Longrightarrow> \<exists>q'. deq q = Some (q', x) \<and> holds q' xs"
    and fresh_write: "holds q xs \<Longrightarrow> enq q a x = Some q' \<Longrightarrow> fresh q b \<Longrightarrow> a \<noteq> b \<Longrightarrow> fresh q' b"
begin

lemma write_all_holds:
  "holds q xs \<Longrightarrow> distinct (map fst ws) \<Longrightarrow> \<forall>a \<in> fst ` set ws. fresh q a \<Longrightarrow>
   \<exists>q'. write_all enq q ws = Some q' \<and> holds q' (xs @ map snd ws)"
proof (induction ws arbitrary: q xs)
  case (Cons w ws)
  obtain a x where w: "w = (a, x)" by (cases w)
  obtain q1 where q1: "enq q a x = Some q1" "holds q1 (xs @ [x])"
    using write_last Cons.prems w by fastforce
  have "\<forall>b \<in> fst ` set ws. fresh q1 b"
    using fresh_write [OF Cons.prems(1) q1(1)] Cons.prems(2,3) w by fastforce
  then show ?case using Cons.IH [OF q1(2)] Cons.prems(2) q1(1) w by auto
qed simp

lemma read_all_holds:
  "holds q (xs @ ys) \<Longrightarrow> \<exists>q'. read_all deq q (length xs) = Some (q', xs) \<and> holds q' ys"
proof (induction xs arbitrary: q)
  case (Cons x xs)
  then obtain q1 where "deq q = Some (q1, x)" "holds q1 (xs @ ys)" using read_first by fastforce
  then show ?case using Cons.IH by fastforce
qed simp

text \<open>First in, first out; a pushed message overtakes the others.\<close>

lemma fifo:
  assumes "holds q xs" and "distinct (map fst ws)" and "\<forall>a \<in> fst ` set ws. fresh q a"
  shows "\<exists>q1 q2. write_all enq q ws = Some q1
    \<and> read_all deq q1 (length xs + length ws) = Some (q2, xs @ map snd ws) \<and> holds q2 []"
proof -
  obtain q1 where q1: "write_all enq q ws = Some q1" "holds q1 (xs @ map snd ws)"
    using write_all_holds [OF assms] by blast
  then show ?thesis using read_all_holds [of q1 "xs @ map snd ws" "[]"] by auto
qed

lemma push_overtakes:
  assumes "holds q xs" and "fresh q a"
  shows "\<exists>q1 q2. push q a x = Some q1 \<and> deq q1 = Some (q2, x) \<and> holds q2 xs"
  using push_first [OF assms] read_first by blast

end

text \<open>The operations of \<^verbatim>\<open>queue.c\<close> as such an interface: a read that would block has no result.\<close>

definition q_fresh :: "queue \<Rightarrow> nat \<Rightarrow> bool" where
  "q_fresh q a \<longleftrightarrow> q_heap q a = None"

definition q_write :: "queue \<Rightarrow> nat \<Rightarrow> 32 word \<times> nat \<Rightarrow> queue option" where
  "q_write q a x = map_option fst (qu_write q (Some a) (fst x) (snd x))"

definition q_push :: "queue \<Rightarrow> nat \<Rightarrow> 32 word \<times> nat \<Rightarrow> queue option" where
  "q_push q a x = map_option fst (qu_push q (Some a) (fst x) (snd x))"

definition q_read :: "queue \<Rightarrow> (queue \<times> 32 word \<times> nat) option" where
  "q_read q = (case qu_read_round q of Some (q', Inr x) \<Rightarrow> Some (q', x) | _ \<Rightarrow> None)"

lemma link_last_fresh: "link_last q a r d = Some q' \<Longrightarrow> q_heap q b = None \<Longrightarrow> a \<noteq> b \<Longrightarrow> q_heap q' b = None"
  by (auto simp: link_last_def q_calloc_def set_prev_def set_next_def Let_def
      split: option.splits if_splits bind_splits)

interpretation mq: message_queue rep q_fresh q_write q_push q_read
proof
  fix q xs a x
  assume r: "rep q xs" and f: "q_fresh q a"
  show "\<exists>q'. q_write q a x = Some q' \<and> rep q' (xs @ [x])"
    using qu_write_rep [OF r, of a "fst x" "snd x"] f by (auto simp: q_fresh_def q_write_def)
  show "\<exists>q'. q_push q a x = Some q' \<and> rep q' (x # xs)"
    using qu_push_rep [OF r, of a "fst x" "snd x"] f by (auto simp: q_fresh_def q_push_def)
next
  fix q x xs
  assume "rep q (x # xs)"
  then show "\<exists>q'. q_read q = Some (q', x) \<and> rep q' xs"
    using qu_read_round_rep by (fastforce simp: q_read_def)
next
  fix q xs a x q' b
  assume "q_write q a x = Some q'" and "q_fresh q b" and "a \<noteq> b"
  then show "q_fresh q' b"
    by (auto simp: q_write_def q_fresh_def qu_write_def qu_have_data_def dest: link_last_fresh)
qed

end
