(* ===== verification/QueueThreads.thy ===== *)
theory QueueThreads
  imports Queue
begin

text \<open>
  The queue of \<^verbatim>\<open>src/utils/queue.c\<close> with several threads. A thread is somewhere in one of the
  operations; a step is one call of a semaphore function or the part of an operation between two
  such calls, and the threads interleave freely. \<open>qu_request\<close> and \<open>qu_release\<close> are exported too, but no
  file of the repository calls them, so the mutex is only owned inside the operations of \<^verbatim>\<open>queue.c\<close>. A ghost history records the order in which the
  operations take effect. The invariant gives mutual exclusion, the absence of null and dangling
  pointers, no lost wake-up, and that the history is one of a sequential queue.
\<close>

section \<open>Threads\<close>

datatype qop = Write nat "32 word" nat | Push nat "32 word" nat | Read | Peek | Purge

text \<open>Program counter: outside, in \<open>qu_wait_data\<close>, before \<open>qu_request\<close>, behind it, before
  \<open>qu_have_data\<close>, at the branch of \<open>qu_read\<close> for the last node, before another \<open>qu_no_data\<close> and before
  \<open>qu_release\<close>; the last two continue with the given program counter.\<close>

datatype pc = Idle | Wait | Req qop | Body qop | Post | Drain | NoData pc | Release pc

datatype event = EWrite "32 word \<times> nat" | EPush "32 word \<times> nat" | ERead "32 word \<times> nat" | EPurge

record qsys =
  queue_of :: queue
  owner :: "nat option"
  pcs :: "nat \<Rightarrow> pc"
  hist :: "event list"

definition goto :: "nat \<Rightarrow> pc \<Rightarrow> qsys \<Rightarrow> qsys" where
  "goto t k s = s\<lparr>pcs := (pcs s)(t := k)\<rparr>"

definition log :: "event \<Rightarrow> qsys \<Rightarrow> qsys" where
  "log e s = s\<lparr>hist := hist s @ [e]\<rparr>"

text \<open>The node that \<open>calloc\<close> has given to an operation which has not linked it yet.\<close>

fun op_node :: "qop \<Rightarrow> nat option" where
  "op_node (Write a r d) = Some a"
| "op_node (Push a r d) = Some a"
| "op_node _ = None"

fun pending :: "pc \<Rightarrow> nat option" where
  "pending (Req op) = op_node op"
| "pending (Body op) = op_node op"
| "pending _ = None"

inductive qstep :: "qsys \<Rightarrow> qsys \<Rightarrow> bool" where
  call: "pcs s t = Idle \<Longrightarrow> (\<And>a. op_node op = Some a \<Longrightarrow> q_heap (queue_of s) a = None \<and> (\<forall>u. pending (pcs s u) \<noteq> Some a))
    \<Longrightarrow> qstep s (goto t (if op = Read then Wait else Req op) s)"
| wait: "pcs s t = Wait \<Longrightarrow> q_ready (queue_of s) \<Longrightarrow> qstep s (goto t (Req Read) s)"
| request: "pcs s t = Req op \<Longrightarrow> owner s = None \<Longrightarrow> qstep s (goto t (Body op) (s\<lparr>owner := Some t\<rparr>))"
| write_body: "pcs s t = Body (Write a r d) \<Longrightarrow> link_last (queue_of s) a r d = Some q
    \<Longrightarrow> qstep s (goto t Post (log (EWrite (r, d)) (s\<lparr>queue_of := q\<rparr>)))"
| push_body: "pcs s t = Body (Push a r d) \<Longrightarrow> link_first (queue_of s) a r d = Some q
    \<Longrightarrow> qstep s (goto t Post (log (EPush (r, d)) (s\<lparr>queue_of := q\<rparr>)))"
| post: "pcs s t = Post \<Longrightarrow> qstep s (goto t (Release Idle) (s\<lparr>queue_of := qu_have_data (queue_of s)\<rparr>))"
| read_none: "pcs s t = Body Read \<Longrightarrow> q_first (queue_of s) = None
    \<Longrightarrow> qstep s (goto t (NoData (Release Wait)) s)"
| read_body: "pcs s t = Body Read \<Longrightarrow> q_first (queue_of s) = Some a \<Longrightarrow> unlink_first (queue_of s) a = Some (q, r, d)
    \<Longrightarrow> qstep s (goto t (if q_first q = None then Drain else Release Idle)
                  (log (ERead (r, d)) (s\<lparr>queue_of := q\<rparr>)))"
| drain: "pcs s t = Drain \<Longrightarrow> qstep s (goto t (Release Idle) (s\<lparr>queue_of := drained (queue_of s)\<rparr>))"
| no_data: "pcs s t = NoData k \<Longrightarrow> qstep s (goto t k (s\<lparr>queue_of := qu_no_data (queue_of s)\<rparr>))"
| purge_body: "pcs s t = Body Purge \<Longrightarrow> purge_loop fuel (queue_of s) (q_first (queue_of s)) = Some q
    \<Longrightarrow> qstep s (goto t (NoData (Release Idle)) (log EPurge (s\<lparr>queue_of := q\<lparr>q_first := None, q_last := None\<rparr>\<rparr>)))"
| peek_body: "pcs s t = Body Peek \<Longrightarrow> qu_peek (queue_of s) = Some x \<Longrightarrow> qstep s (goto t (Release Idle) s)"
| release: "pcs s t = Release k \<Longrightarrow> qstep s (goto t k (s\<lparr>owner := None\<rparr>))"

definition qinit :: "queue \<Rightarrow> qsys" where
  "qinit q = \<lparr>queue_of = q, owner = None, pcs = (\<lambda>_. Idle), hist = []\<rparr>"

text \<open>All states that threads can reach from the queue of \<open>qu_create\<close>.\<close>

inductive qreach :: "qsys \<Rightarrow> bool" where
  qreach_init: "qu_create block mutex event P = Some (P', Some obj) \<Longrightarrow> qreach (qinit (q_list obj))"
| qreach_step: "qreach s \<Longrightarrow> qstep s s' \<Longrightarrow> qreach s'"

section \<open>The history of a sequential queue\<close>

fun replay_event :: "event \<Rightarrow> (32 word \<times> nat) list \<Rightarrow> (32 word \<times> nat) list option" where
  "replay_event (EWrite x) xs = Some (xs @ [x])"
| "replay_event (EPush x) xs = Some (x # xs)"
| "replay_event (ERead x) [] = None"
| "replay_event (ERead x) (y # ys) = (if x = y then Some ys else None)"
| "replay_event EPurge xs = Some []"

fun replay :: "event list \<Rightarrow> (32 word \<times> nat) list \<Rightarrow> (32 word \<times> nat) list option" where
  "replay [] xs = Some xs"
| "replay (e # es) xs = (case replay_event e xs of None \<Rightarrow> None | Some ys \<Rightarrow> replay es ys)"

lemma replay_append: "replay (es @ fs) xs = (case replay es xs of None \<Rightarrow> None | Some ys \<Rightarrow> replay fs ys)"
  by (induction es arbitrary: xs) (auto split: option.splits)

lemma replay_snoc: "replay es xs = Some ys \<Longrightarrow> replay (es @ [e]) xs = replay_event e ys"
  by (auto simp: replay_append split: option.splits)

section \<open>The invariant\<close>

fun critical :: "pc \<Rightarrow> bool" where
  "critical (Body op) = True"
| "critical Post = True"
| "critical Drain = True"
| "critical (NoData k) = True"
| "critical (Release k) = True"
| "critical _ = False"

fun pc_ok :: "pc \<Rightarrow> bool" where
  "pc_ok (NoData k) \<longleftrightarrow> k = Release Idle \<or> k = Release Wait"
| "pc_ok (Release k) \<longleftrightarrow> k = Idle \<or> k = Wait"
| "pc_ok _ \<longleftrightarrow> True"

text \<open>What is known of the queue, given the program counter of the owner of the mutex.\<close>

fun queue_at :: "pc \<Rightarrow> queue \<Rightarrow> (32 word \<times> nat) list \<Rightarrow> bool" where
  "queue_at Post q xs \<longleftrightarrow> xs \<noteq> [] \<and> (\<exists>as. linked q as \<and> xs = map (item q) as)"
| "queue_at Drain q xs \<longleftrightarrow> xs = [] \<and> q_first q = None \<and> q_heap q = Map.empty"
| "queue_at (NoData k) q xs \<longleftrightarrow> xs = [] \<and> linked q []"
| "queue_at _ q xs \<longleftrightarrow> rep q xs"

definition qinv :: "qsys \<Rightarrow> bool" where
  "qinv s \<longleftrightarrow> (\<forall>t. critical (pcs s t) \<longleftrightarrow> owner s = Some t) \<and> (\<forall>t. pc_ok (pcs s t))
     \<and> (\<forall>t a. pending (pcs s t) = Some a \<longrightarrow> q_heap (queue_of s) a = None \<and> (\<forall>u. u \<noteq> t \<longrightarrow> pending (pcs s u) \<noteq> Some a))
     \<and> (\<exists>xs. replay (hist s) [] = Some xs
          \<and> queue_at (case owner s of None \<Rightarrow> Idle | Some t \<Rightarrow> pcs s t) (queue_of s) xs)"

lemma goto_sel [simp]:
  "pcs (goto t k s) = (pcs s)(t := k)" "queue_of (goto t k s) = queue_of s" "owner (goto t k s) = owner s"
  "hist (goto t k s) = hist s"
  by (simp_all add: goto_def)

lemma log_sel [simp]:
  "pcs (log e s) = pcs s" "queue_of (log e s) = queue_of s" "owner (log e s) = owner s"
  "hist (log e s) = hist s @ [e]"
  by (simp_all add: log_def)

lemma qinv_init: "qu_create block mutex event P = Some (P', Some obj) \<Longrightarrow> qinv (qinit (q_list obj))"
  by (auto simp: qinv_def qinit_def rep_empty linked_empty dest!: qu_create_list)

lemma qinv_owner: "qinv s \<Longrightarrow> critical (pcs s t) \<longleftrightarrow> owner s = Some t"
  by (simp add: qinv_def)

lemma qinv_pc_ok: "qinv s \<Longrightarrow> pc_ok (pcs s t)"
  by (simp add: qinv_def)

lemma qinv_pending:
  "qinv s \<Longrightarrow> pending (pcs s t) = Some a \<Longrightarrow>
   q_heap (queue_of s) a = None \<and> (\<forall>u. u \<noteq> t \<longrightarrow> pending (pcs s u) \<noteq> Some a)"
  by (simp add: qinv_def)

lemma qinv_queue:
  assumes "qinv s"
  obtains xs where "replay (hist s) [] = Some xs"
    "queue_at (case owner s of None \<Rightarrow> Idle | Some t \<Rightarrow> pcs s t) (queue_of s) xs"
  using assms by (auto simp: qinv_def)

lemma qinv_critical:
  assumes "qinv s" and "critical (pcs s t)"
  obtains xs where "replay (hist s) [] = Some xs" "queue_at (pcs s t) (queue_of s) xs"
  using qinv_queue [OF assms(1)] qinv_owner [OF assms(1), of t] assms(2) by auto

text \<open>What has to be shown for a step of thread \<open>t\<close> to the program counter \<open>k\<close>.\<close>

lemma qinv_step:
  assumes inv: "qinv s" and pcs: "pcs s' = (pcs s)(t := k)" and k: "pc_ok k"
    and owner: "owner s' = (if critical k then Some t else if critical (pcs s t) then None else owner s)"
    and enter: "critical k \<Longrightarrow> \<not> critical (pcs s t) \<Longrightarrow> owner s = None"
    and heap: "\<And>a. q_heap (queue_of s) a = None \<Longrightarrow> pending (pcs s t) \<noteq> Some a \<Longrightarrow> q_heap (queue_of s') a = None"
    and node: "\<And>a. pending k = Some a \<Longrightarrow> q_heap (queue_of s') a = None \<and> (\<forall>u. u \<noteq> t \<longrightarrow> pending (pcs s u) \<noteq> Some a)"
    and queue: "\<exists>xs. replay (hist s') [] = Some xs
      \<and> queue_at (case owner s' of None \<Rightarrow> Idle | Some u \<Rightarrow> pcs s' u) (queue_of s') xs"
  shows "qinv s'"
  unfolding qinv_def
proof (intro conjI allI impI)
  fix u
  show "critical (pcs s' u) \<longleftrightarrow> owner s' = Some u"
  proof (cases "u = t")
    case True
    then show ?thesis using pcs owner qinv_owner [OF inv, of t] by auto
  next
    case False
    then show ?thesis
      using pcs owner enter qinv_owner [OF inv, of u] qinv_owner [OF inv, of t] by auto
  qed
  show "pc_ok (pcs s' u)" using pcs k qinv_pc_ok [OF inv, of u] by simp
next
  fix u a
  assume a: "pending (pcs s' u) = Some a"
  show "q_heap (queue_of s') a = None"
  proof (cases "u = t")
    case True
    then show ?thesis using a pcs node by simp
  next
    case False
    then have "pending (pcs s u) = Some a" using a pcs by simp
    from qinv_pending [OF inv this] show ?thesis using heap False by auto
  qed
next
  fix u a v
  assume a: "pending (pcs s' u) = Some a" and uv: "v \<noteq> u"
  show "pending (pcs s' v) \<noteq> Some a"
  proof (cases "u = t")
    case True
    then show ?thesis using a pcs node uv by simp
  next
    case False
    then have u: "pending (pcs s u) = Some a" using a pcs by simp
    show ?thesis
    proof (cases "v = t")
      case True
      then show ?thesis using pcs node u False by fastforce
    next
      case vt: False
      then show ?thesis using qinv_pending [OF inv u] pcs uv by simp
    qed
  qed
qed (rule queue)

text \<open>A step that changes neither the queue nor the history.\<close>

lemma qinv_move:
  assumes "qinv s" and "pc_ok k" and "critical k = critical (pcs s t)"
    and "\<And>a. pending k = Some a \<Longrightarrow> q_heap (queue_of s) a = None \<and> (\<forall>u. u \<noteq> t \<longrightarrow> pending (pcs s u) \<noteq> Some a)"
    and "\<And>xs. queue_at (pcs s t) (queue_of s) xs \<Longrightarrow> critical k \<Longrightarrow> queue_at k (queue_of s) xs"
  shows "qinv (goto t k s)"
proof -
  obtain xs where xs: "replay (hist s) [] = Some xs"
    "queue_at (case owner s of None \<Rightarrow> Idle | Some t \<Rightarrow> pcs s t) (queue_of s) xs"
    using qinv_queue [OF assms(1)] by blast
  note o = qinv_owner [OF assms(1), of t]
  have "queue_at (case owner s of None \<Rightarrow> Idle | Some u \<Rightarrow> ((pcs s)(t := k)) u) (queue_of s) xs"
    using xs(2) o assms(3,5) by (cases "owner s") auto
  then have "\<exists>xs. replay (hist (goto t k s)) [] = Some xs
      \<and> queue_at (case owner (goto t k s) of None \<Rightarrow> Idle | Some u \<Rightarrow> pcs (goto t k s) u) (queue_of (goto t k s)) xs"
    unfolding goto_sel using xs(1) by blast
  then show ?thesis
    using o assms(3,4) by (intro qinv_step [OF assms(1) _ assms(2)]) auto
qed

text \<open>A step of the owner that stays in the critical section.\<close>

lemma qinv_body:
  assumes "qinv s" and "critical (pcs s t)" and "critical k" and "pc_ok k" and "pending k = None"
    and "pcs s' = (pcs s)(t := k)" and "owner s' = owner s"
    and "\<And>a. q_heap (queue_of s) a = None \<Longrightarrow> pending (pcs s t) \<noteq> Some a \<Longrightarrow> q_heap (queue_of s') a = None"
    and "\<And>xs. replay (hist s) [] = Some xs \<Longrightarrow> queue_at (pcs s t) (queue_of s) xs \<Longrightarrow>
      \<exists>ys. replay (hist s') [] = Some ys \<and> queue_at k (queue_of s') ys"
  shows "qinv s'"
proof -
  have o: "owner s = Some t" using qinv_owner [OF assms(1)] assms(2) by simp
  obtain xs where "replay (hist s) [] = Some xs" "queue_at (pcs s t) (queue_of s) xs"
    using qinv_critical [OF assms(1,2)] by blast
  from assms(9) [OF this] show ?thesis
    using assms o by (intro qinv_step [OF assms(1,6,4)]) auto
qed

lemma unlink_first_heap: "unlink_first q a = Some (q', r, d) \<Longrightarrow> q_heap q b = None \<Longrightarrow> q_heap q' b = None"
  by (auto simp: unlink_first_def q_free_def set_prev_def split: option.splits if_splits bind_splits)

lemma link_first_fresh: "link_first q a r d = Some q' \<Longrightarrow> q_heap q b = None \<Longrightarrow> a \<noteq> b \<Longrightarrow> q_heap q' b = None"
  by (auto simp: link_first_def q_calloc_def set_prev_def set_next_def Let_def
      split: option.splits if_splits bind_splits)

lemma purge_loop_heap: "purge_loop fuel q p = Some q' \<Longrightarrow> q_heap q b = None \<Longrightarrow> q_heap q' b = None"
  by (induction fuel q p rule: purge_loop.induct)
    (auto simp: q_free_def split: option.splits if_splits)

lemma rep_linked: "rep q xs \<Longrightarrow> \<exists>as. linked q as \<and> xs = map (item q) as"
  by (simp add: rep_def)

lemma read_body_queue:
  assumes "rep q xs" and "q_first q = Some a" and "unlink_first q a = Some (q', r, d)"
  shows "\<exists>ys. xs = (r, d) # ys \<and> queue_at (if q_first q' = None then Drain else Release Idle) q' ys"
proof -
  obtain as where as: "linked q as" "xs = map (item q) as" using rep_linked [OF assms(1)] by blast
  then obtain bs where bs: "as = a # bs" using linked_first [OF as(1)] assms(2) by (cases as) auto
  have ready: "q_ready q" using assms(1) as bs by (simp add: rep_def)
  from linked_unlink_first [OF as(1) [unfolded bs]]
  have u: "item q a = (r, d)" "q_first q' = (case bs of [] \<Rightarrow> None | b # _ \<Rightarrow> Some b)"
    "bs \<noteq> [] \<longrightarrow> linked q' bs" "map (item q') bs = map (item q) bs" "q_ready q' = q_ready q"
    "{y. q_heap q' y \<noteq> None} = set bs"
    using assms(3) by auto
  show ?thesis
  proof (cases bs)
    case Nil
    then have "q_heap q' = Map.empty" using u(6) by (auto simp: fun_eq_iff)
    then show ?thesis using as bs u Nil by simp
  next
    case (Cons b cs)
    then have "rep q' (map (item q) bs)" unfolding rep_def using u ready by (metis list.distinct(1) list.map_disc_iff)
    then show ?thesis using as bs u Cons by simp
  qed
qed

lemma purge_loop_fuel:
  "dll (q_heap q) pr p as l \<Longrightarrow> distinct as \<Longrightarrow> purge_loop fuel q p = Some q' \<Longrightarrow> length as \<le> fuel"
proof (induction as arbitrary: q pr p fuel)
  case (Cons a as)
  obtain e where e: "q_heap q a = Some e" "dll (q_heap q) (Some a) (e_next e) as l" "p = Some a"
    using Cons.prems(1) by (auto split: option.splits)
  obtain n where n: "fuel = Suc n" using Cons.prems(3) e(3) by (cases fuel) auto
  let ?q = "q\<lparr>q_heap := (q_heap q)(a := None)\<rparr>"
  have "dll (q_heap ?q) (Some a) (e_next e) as l"
    by (rule dll_same [OF e(2)]) (use Cons.prems(2) in auto)
  moreover have "purge_loop n ?q (e_next e) = Some q'" using Cons.prems(3) e n by (simp add: q_free_def)
  ultimately show ?case using Cons.IH [of ?q "Some a" "e_next e" n] Cons.prems(2) n by (simp add: fun_upd_def)
qed simp

lemma purge_queue:
  assumes "linked q as" and "purge_loop fuel q (q_first q) = Some q'"
  shows "linked (q'\<lparr>q_first := None, q_last := None\<rparr>) []"
proof -
  have "length as \<le> fuel" using assms purge_loop_fuel by (auto simp: linked_def)
  then have "q' = q\<lparr>q_heap := (\<lambda>a. if a \<in> set as then None else q_heap q a)\<rparr>"
    using assms purge_loop_all by (fastforce simp: linked_def)
  moreover have "(\<lambda>a. if a \<in> set as then None else q_heap q a) = Map.empty"
    using assms(1) by (auto simp: linked_def fun_eq_iff)
  ultimately show ?thesis by (simp add: linked_empty)
qed

lemma qinv_qstep: "qstep s s' \<Longrightarrow> qinv s \<Longrightarrow> qinv s'"
proof (induction rule: qstep.induct)
  case (call s t op)
  then show ?case by (intro qinv_move) (auto split: if_splits)
next
  case (wait s t)
  then show ?case by (intro qinv_move) auto
next
  case (request s t op)
  obtain xs where "replay (hist s) [] = Some xs" "rep (queue_of s) xs"
    using qinv_queue [OF request(3)] request(2) by auto
  then show ?case
    using request qinv_pending [OF request(3), of t] by (intro qinv_step [OF request(3)]) auto
next
  case (write_body s t a r d q)
  have n: "q_heap (queue_of s) a = None" using qinv_pending [OF write_body(3), of t a] write_body(1) by simp
  show ?case
  proof (rule qinv_body [OF write_body(3)])
    fix xs
    assume xs: "replay (hist s) [] = Some xs" "queue_at (pcs s t) (queue_of s) xs"
    then obtain as where as: "linked (queue_of s) as" "xs = map (item (queue_of s)) as"
      using write_body(1) rep_linked by fastforce
    from linked_link_last [OF as(1) n, of r d] write_body(2)
    have "linked q (as @ [a])" "xs @ [(r, d)] = map (item q) (as @ [a])" using as(2) by auto
    then have "\<exists>bs. linked q bs \<and> xs @ [(r, d)] = map (item q) bs" by blast
    then show "\<exists>ys. replay (hist (goto t Post (log (EWrite (r, d)) (s\<lparr>queue_of := q\<rparr>)))) [] = Some ys
        \<and> queue_at Post (queue_of (goto t Post (log (EWrite (r, d)) (s\<lparr>queue_of := q\<rparr>)))) ys"
      using replay_snoc [OF xs(1), of "EWrite (r, d)"] by (intro exI [of _ "xs @ [(r, d)]"]) simp
  qed (use write_body(1,2) in \<open>auto dest: link_last_fresh\<close>)
next
  case (push_body s t a r d q)
  have n: "q_heap (queue_of s) a = None" using qinv_pending [OF push_body(3), of t a] push_body(1) by simp
  show ?case
  proof (rule qinv_body [OF push_body(3)])
    fix xs
    assume xs: "replay (hist s) [] = Some xs" "queue_at (pcs s t) (queue_of s) xs"
    then obtain as where as: "linked (queue_of s) as" "xs = map (item (queue_of s)) as"
      using push_body(1) rep_linked by fastforce
    from linked_link_first [OF as(1) n, of r d] push_body(2)
    have "linked q (a # as)" "map (item q) (a # as) = (r, d) # xs" unfolding as(2) by (elim exE conjE, simp)+
    then have "\<exists>bs. linked q bs \<and> (r, d) # xs = map (item q) bs" by (intro exI [of _ "a # as"] conjI) (simp only:)+
    then show "\<exists>ys. replay (hist (goto t Post (log (EPush (r, d)) (s\<lparr>queue_of := q\<rparr>)))) [] = Some ys
        \<and> queue_at Post (queue_of (goto t Post (log (EPush (r, d)) (s\<lparr>queue_of := q\<rparr>)))) ys"
      using replay_snoc [OF xs(1), of "EPush (r, d)"] by (intro exI [of _ "(r, d) # xs"]) simp
  qed (use push_body(1,2) in \<open>auto dest: link_first_fresh\<close>)
next
  case (post s t)
  have ready: "rep (qu_have_data (queue_of s)) xs" if "queue_at Post (queue_of s) xs" for xs
    using that by (auto simp: rep_def qu_have_data_def linked_ready item_def)
  show ?case
  proof (rule qinv_body [OF post(2)])
    fix xs
    assume "replay (hist s) [] = Some xs" "queue_at (pcs s t) (queue_of s) xs"
    then show "\<exists>ys. replay (hist (goto t (Release Idle) (s\<lparr>queue_of := qu_have_data (queue_of s)\<rparr>))) [] = Some ys
        \<and> queue_at (Release Idle) (queue_of (goto t (Release Idle) (s\<lparr>queue_of := qu_have_data (queue_of s)\<rparr>))) ys"
      using ready [of xs] post(1) by simp
  qed (use post(1) in \<open>auto simp: qu_have_data_def\<close>)
next
  case (read_none s t)
  have "xs = [] \<and> linked (queue_of s) []" if "rep (queue_of s) xs" for xs
    using that read_none(2) linked_nonempty by (auto simp: rep_def)
  then show ?case using read_none by (intro qinv_move) auto
next
  case (read_body s t a q r d)
  show ?case
  proof (rule qinv_body [OF read_body(4)])
    fix xs
    assume xs: "replay (hist s) [] = Some xs" "queue_at (pcs s t) (queue_of s) xs"
    then obtain ys where "xs = (r, d) # ys" "queue_at (if q_first q = None then Drain else Release Idle) q ys"
      using read_body_queue [of "queue_of s" xs a q r d] read_body(1-3) by auto
    then show "\<exists>ys. replay (hist (goto t (if q_first q = None then Drain else Release Idle)
          (log (ERead (r, d)) (s\<lparr>queue_of := q\<rparr>)))) [] = Some ys
        \<and> queue_at (if q_first q = None then Drain else Release Idle)
          (queue_of (goto t (if q_first q = None then Drain else Release Idle)
            (log (ERead (r, d)) (s\<lparr>queue_of := q\<rparr>)))) ys"
      using replay_snoc [OF xs(1), of "ERead (r, d)"] by auto
  qed (use read_body in \<open>auto dest: unlink_first_heap\<close>)
next
  case (drain s t)
  then show ?case
    by (intro qinv_body [OF drain(2), of t]) (auto simp: drained_def qu_no_data_def rep_empty linked_empty)
next
  case (no_data s t k)
  have "rep (qu_no_data (queue_of s)) []" if "linked (queue_of s) []"
    using that by (simp add: rep_empty linked_empty qu_no_data_def)
  then show ?case using no_data qinv_pc_ok [OF no_data(2), of t]
    by (intro qinv_body [OF no_data(2), of t]) (auto simp: qu_no_data_def)
next
  case (purge_body s t fuel q)
  show ?case
  proof (rule qinv_body [OF purge_body(3)])
    fix xs
    assume xs: "replay (hist s) [] = Some xs" "queue_at (pcs s t) (queue_of s) xs"
    then obtain as where "linked (queue_of s) as" using purge_body(1) rep_linked by fastforce
    from purge_queue [OF this purge_body(2)]
    show "\<exists>ys. replay (hist (goto t (NoData (Release Idle)) (log EPurge (s\<lparr>queue_of := q\<lparr>q_first := None, q_last := None\<rparr>\<rparr>)))) [] = Some ys
        \<and> queue_at (NoData (Release Idle)) (queue_of (goto t (NoData (Release Idle))
            (log EPurge (s\<lparr>queue_of := q\<lparr>q_first := None, q_last := None\<rparr>\<rparr>)))) ys"
      using replay_snoc [OF xs(1), of EPurge] by auto
  qed (use purge_body in \<open>auto dest: purge_loop_heap\<close>)
next
  case (peek_body s t x)
  then show ?case by (intro qinv_move) auto
next
  case (release s t k)
  obtain xs where xs: "replay (hist s) [] = Some xs" "rep (queue_of s) xs"
    using qinv_critical [OF release(2), of t] release(1) by auto
  show ?case using release xs qinv_pc_ok [OF release(2), of t]
    by (intro qinv_step [OF release(2)]) auto
qed

lemma qinv_reach: "qreach s \<Longrightarrow> qinv s"
  by (induction rule: qreach.induct) (auto intro: qinv_init qinv_qstep)

section \<open>Properties\<close>

inductive_cases qstep_cases: "qstep s s'"

lemma replay_fifo:
  "replay es xs = Some ys \<Longrightarrow> (\<forall>e \<in> set es. \<exists>x. e = EWrite x \<or> e = ERead x) \<Longrightarrow>
   xs @ concat (map (\<lambda>e. case e of EWrite x \<Rightarrow> [x] | _ \<Rightarrow> []) es)
     = concat (map (\<lambda>e. case e of ERead x \<Rightarrow> [x] | _ \<Rightarrow> []) es) @ ys"
proof (induction es arbitrary: xs)
  case (Cons e es)
  then obtain x where "e = EWrite x \<or> e = ERead x" by auto
  then show ?case
  proof
    assume "e = EWrite x"
    then show ?thesis using Cons.IH [of "xs @ [x]"] Cons.prems by simp
  next
    assume e: "e = ERead x"
    then obtain zs where "xs = x # zs" "replay es zs = Some ys"
      using Cons.prems by (cases xs) (auto split: if_splits)
    then show ?thesis using Cons e by auto
  qed
qed simp

lemma qu_peek_linked: "linked q as \<Longrightarrow> qu_peek q \<noteq> None"
  using linked_first [of q as] linked_in_heap [of q as] by (cases as) (auto simp: qu_peek_def)

lemma progressI: "qstep s s' \<Longrightarrow> pcs s' t \<noteq> pcs s t \<Longrightarrow> \<exists>s'. qstep s s' \<and> pcs s' t \<noteq> pcs s t"
  by blast

lemma critical_progress:
  assumes "qinv s" and "critical (pcs s t)"
  shows "\<exists>s'. qstep s s' \<and> pcs s' t \<noteq> pcs s t"
proof -
  obtain xs where xs: "queue_at (pcs s t) (queue_of s) xs" using qinv_critical [OF assms] by blast
  show ?thesis
  proof (cases "pcs s t")
    case (Body op)
    then obtain as where as: "linked (queue_of s) as" using xs rep_linked by fastforce
    show ?thesis
    proof (cases op)
      case (Write a r d)
      then have "q_heap (queue_of s) a = None" using qinv_pending [OF assms(1), of t a] Body by simp
      from linked_link_last [OF as this] obtain q where "link_last (queue_of s) a r d = Some q" by blast
      from write_body [OF Body [unfolded Write] this] show ?thesis by (rule progressI) (simp add: Body)
    next
      case (Push a r d)
      then have "q_heap (queue_of s) a = None" using qinv_pending [OF assms(1), of t a] Body by simp
      from linked_link_first [OF as this] obtain q where "link_first (queue_of s) a r d = Some q" by blast
      from push_body [OF Body [unfolded Push] this] show ?thesis by (rule progressI) (simp add: Body)
    next
      case Read
      show ?thesis
      proof (cases "q_first (queue_of s)")
        case None
        from read_none [OF Body [unfolded Read] this] show ?thesis by (rule progressI) (simp add: Body)
      next
        case (Some a)
        then obtain bs where "as = a # bs" using linked_first [OF as] by (cases as) auto
        with linked_unlink_first [of "queue_of s" a bs] as
        obtain q r d where "unlink_first (queue_of s) a = Some (q, r, d)" by blast
        from read_body [OF Body [unfolded Read] Some this] show ?thesis by (rule progressI) (simp add: Body)
      qed
    next
      case Peek
      obtain x where "qu_peek (queue_of s) = Some x" using qu_peek_linked [OF as] by blast
      from peek_body [OF Body [unfolded Peek] this] show ?thesis by (rule progressI) (simp add: Body)
    next
      case Purge
      obtain q where "purge_loop (length as) (queue_of s) (q_first (queue_of s)) = Some q"
        using purge_loop_all [of "queue_of s" None "q_first (queue_of s)" as "q_last (queue_of s)" "length as"] as
        by (auto simp: linked_def)
      from purge_body [OF Body [unfolded Purge] this] show ?thesis by (rule progressI) (simp add: Body)
    qed
  next
    case Post
    from post [OF this] show ?thesis by (rule progressI) (simp add: Post)
  next
    case Drain
    from drain [OF this] show ?thesis by (rule progressI) (simp add: Drain)
  next
    case (NoData k)
    from no_data [OF this] show ?thesis by (rule progressI) (simp add: NoData)
  next
    case (Release k)
    from release [OF this] show ?thesis by (rule progressI) (simp add: Release)
  qed (use assms(2) in simp_all)
qed

text \<open>A state in which some thread inside an operation is not waiting for an empty queue.\<close>

lemma busy_progress:
  assumes inv: "qinv s" and busy: "\<not> (\<forall>v. pcs s v = Idle \<or> pcs s v = Wait \<and> qu_empty (queue_of s))"
  shows "\<exists>v s'. pcs s v \<noteq> Idle \<and> qstep s s' \<and> pcs s' v \<noteq> pcs s v"
proof (cases "owner s")
  case (Some t)
  then have t: "critical (pcs s t)" using qinv_owner [OF inv] by simp
  from critical_progress [OF inv t] obtain s' where "qstep s s'" "pcs s' t \<noteq> pcs s t" by blast
  then show ?thesis using t by (intro exI [of _ t] exI [of _ s']) auto
next
  case None
  obtain v where v: "pcs s v \<noteq> Idle" "\<not> (pcs s v = Wait \<and> qu_empty (queue_of s))" using busy by blast
  have "\<not> critical (pcs s v)" using qinv_owner [OF inv, of v] None by simp
  then consider (req) op where "pcs s v = Req op" | (wait) "pcs s v = Wait" using v(1) by (cases "pcs s v") auto
  then show ?thesis
  proof cases
    case req
    have "\<exists>s'. qstep s s' \<and> pcs s' v \<noteq> pcs s v" by (rule progressI [OF request [OF req None]]) (simp add: req)
    then show ?thesis using v(1) by blast
  next
    case wait
    obtain xs where "rep (queue_of s) xs" using qinv_queue [OF inv] None by auto
    then have "q_ready (queue_of s)" using v(2) wait qu_empty_rep by (auto simp: rep_def)
    then have "\<exists>s'. qstep s s' \<and> pcs s' v \<noteq> pcs s v" by (intro progressI [OF qstep.wait [OF wait]]) (simp_all add: wait)
    then show ?thesis using v(1) by blast
  qed
qed

lemma waiting_stuck:
  assumes inv: "qinv s" and all: "\<forall>v. pcs s v = Idle \<or> pcs s v = Wait \<and> qu_empty (queue_of s)"
    and v: "pcs s v \<noteq> Idle" and step: "qstep s s'"
  shows "pcs s' v = pcs s v"
proof -
  have "owner s = None" using all qinv_owner [OF inv] by (cases "owner s") (metis critical.simps(6,7))+
  then obtain xs where "rep (queue_of s) xs" using qinv_queue [OF inv] by auto
  then have ready: "pcs s v = Wait \<and> \<not> q_ready (queue_of s)" using all v qu_empty_rep by (auto simp: rep_def)
  have no: "pcs s t \<noteq> Req op" "pcs s t \<noteq> Body op" "pcs s t \<noteq> Post" "pcs s t \<noteq> Drain" "pcs s t \<noteq> NoData k"
    "pcs s t \<noteq> Release k" for t op k using all [rule_format, of t] by auto
  from step show ?thesis
  proof cases
    case (call t op)
    then show ?thesis using ready by auto
  next
    case (wait t)
    then show ?thesis using ready by blast
  qed (simp_all add: no)
qed

text \<open>A run in which thread 0 writes a message while thread 1 waits and thread 2 is in the critical
  section.\<close>

lemma example_run:
  "\<exists>s s'. qreach s \<and> owner s = None \<and> hist s = [EWrite (7, 1)] \<and> pcs s 1 = Wait \<and> \<not> qu_empty (queue_of s)
    \<and> qreach s' \<and> pcs s' 2 = Body Peek"
proof -
  define q0 where "q0 = \<lparr>q_heap = Map.empty, q_first = None, q_last = None, q_ready = False\<rparr>"
  define s0 where "s0 = qinit q0"
  have r0: "qreach s0"
    using qreach_init [OF qu_create_ok [of 0 1 2 "\<lparr>sems = Map.empty, blocks = {}\<rparr>"]] by (simp add: s0_def q0_def)
  define s1 where "s1 = goto 0 (Req (Write 5 7 1)) s0"
  have "qstep s0 (goto 0 (if Write 5 7 1 = Read then Wait else Req (Write 5 7 1)) s0)"
    by (rule call) (simp_all add: s0_def qinit_def q0_def)
  then have r1: "qreach s1" using qreach_step [OF r0] by (simp add: s1_def)
  define s2 where "s2 = goto 0 (Body (Write 5 7 1)) (s1\<lparr>owner := Some 0\<rparr>)"
  have r2: "qreach s2" unfolding s2_def
    by (rule qreach_step [OF r1 request]) (simp_all add: s1_def s0_def qinit_def)
  define q where "q = q0\<lparr>q_heap := [5 \<mapsto> \<lparr>e_request = 7, e_data = 1, e_prev = None, e_next = None\<rparr>],
    q_first := Some 5, q_last := Some 5\<rparr>"
  have q: "link_last q0 5 7 1 = Some q" "q_first q = Some 5"
    by (simp_all add: link_last_def q_calloc_def q0_def q_def)
  define s3 where "s3 = goto 0 Post (log (EWrite (7, 1)) (s2\<lparr>queue_of := q\<rparr>))"
  have "pcs s2 0 = Body (Write 5 7 1)" "queue_of s2 = q0"
    by (simp_all add: s2_def s1_def s0_def qinit_def)
  with q(1) have r3: "qreach s3" unfolding s3_def
    by (intro qreach_step [OF r2 write_body]) simp_all
  define s4 where "s4 = goto 0 (Release Idle) (s3\<lparr>queue_of := qu_have_data (queue_of s3)\<rparr>)"
  have r4: "qreach s4" unfolding s4_def by (rule qreach_step [OF r3 post]) (simp add: s3_def)
  define s5 where "s5 = goto 0 Idle (s4\<lparr>owner := None\<rparr>)"
  have r5: "qreach s5" unfolding s5_def by (rule qreach_step [OF r4 release]) (simp add: s4_def)
  note defs = s5_def s4_def s3_def s2_def s1_def s0_def qinit_def
  have "qstep s5 (goto 1 (if Read = Read then Wait else Req Read) s5)"
    by (rule call) (simp_all add: defs)
  then have r6: "qreach (goto 1 Wait s5)" using qreach_step [OF r5] by simp
  have "qstep s5 (goto 2 (if Peek = Read then Wait else Req Peek) s5)"
    by (rule call) (simp_all add: defs)
  then have r7: "qreach (goto 2 (Req Peek) s5)" using qreach_step [OF r5] by simp
  have "qreach (goto 2 (Body Peek) ((goto 2 (Req Peek) s5)\<lparr>owner := Some 2\<rparr>))"
    by (rule qreach_step [OF r7 request]) (simp_all add: defs)
  then show ?thesis using r6 q(2)
    by (intro exI [of _ "goto 1 Wait s5"] exI [of _ "goto 2 (Body Peek) ((goto 2 (Req Peek) s5)\<lparr>owner := Some 2\<rparr>)"])
      (simp add: defs qu_empty_def qu_have_data_def)
qed

lemma waiting_run:
  "\<exists>s. qreach s \<and> (\<forall>v. pcs s v = (if v = 1 then Wait else Idle)) \<and> qu_empty (queue_of s)"
proof -
  define s0 where "s0 = qinit \<lparr>q_heap = Map.empty, q_first = None, q_last = None, q_ready = False\<rparr>"
  have r0: "qreach s0"
    using qreach_init [OF qu_create_ok [of 0 1 2 "\<lparr>sems = Map.empty, blocks = {}\<rparr>"]] by (simp add: s0_def)
  have "qstep s0 (goto 1 (if Read = Read then Wait else Req Read) s0)"
    by (rule call) (simp_all add: s0_def qinit_def)
  then have "qreach (goto 1 Wait s0)" using qreach_step [OF r0] by simp
  then show ?thesis by (intro exI [of _ "goto 1 Wait s0"]) (simp add: s0_def qinit_def qu_empty_def)
qed

text \<open>C1: Whatever the interleaving of the threads, the order in which the operations take effect
  is a history of a sequential queue, and whenever nobody owns the mutex the list holds what that
  history leaves; without pushes and purges the messages are read in the order they were written.\<close>

theorem queue_linearizable:
  assumes "qreach s"
  shows "\<exists>xs. replay (hist s) [] = Some xs \<and> (owner s = None \<longrightarrow> rep (queue_of s) xs)
    \<and> ((\<forall>e \<in> set (hist s). \<exists>x. e = EWrite x \<or> e = ERead x) \<longrightarrow>
        concat (map (\<lambda>e. case e of EWrite x \<Rightarrow> [x] | _ \<Rightarrow> []) (hist s))
          = concat (map (\<lambda>e. case e of ERead x \<Rightarrow> [x] | _ \<Rightarrow> []) (hist s)) @ xs)"
proof -
  obtain xs where "replay (hist s) [] = Some xs"
    "queue_at (case owner s of None \<Rightarrow> Idle | Some t \<Rightarrow> pcs s t) (queue_of s) xs"
    using qinv_queue [OF qinv_reach [OF assms]] by blast
  then show ?thesis using replay_fifo [of "hist s" "[]" xs] by auto
qed

lemma queue_linearizable_witness:
  "\<exists>s xs. qreach s \<and> hist s = [EWrite (7, 1)] \<and> rep (queue_of s) xs \<and> xs = [(7, 1)]"
proof -
  obtain s where s: "qreach s" "owner s = None" "hist s = [EWrite (7, 1)]" using example_run by blast
  from queue_linearizable [OF s(1)] show ?thesis using s by auto
qed

text \<open>C8: At most one thread is between \<open>qu_request\<close> and \<open>qu_release\<close>; it can always take its next
  step, since it meets neither a null pointer nor a freed node, whatever the other threads have done.
  The threads that are inside an operation can go on together: one of them can take a step, unless
  each of them waits for data in \<open>qu_read\<close> and the queue is empty, and only then none of them can.\<close>

theorem queue_mutex_progress:
  assumes "qreach s"
  shows "(critical (pcs s t) \<and> critical (pcs s u) \<longrightarrow> t = u)
    \<and> (critical (pcs s t) \<longrightarrow> (\<exists>s'. qstep s s' \<and> pcs s' t \<noteq> pcs s t))
    \<and> ((\<exists>v s'. pcs s v \<noteq> Idle \<and> qstep s s' \<and> pcs s' v \<noteq> pcs s v)
        \<longleftrightarrow> \<not> (\<forall>v. pcs s v = Idle \<or> pcs s v = Wait \<and> qu_empty (queue_of s)))"
proof (intro conjI)
  note inv = qinv_reach [OF assms]
  show "critical (pcs s t) \<and> critical (pcs s u) \<longrightarrow> t = u"
    using qinv_owner [OF inv, of t] qinv_owner [OF inv, of u] by auto
  show "critical (pcs s t) \<longrightarrow> (\<exists>s'. qstep s s' \<and> pcs s' t \<noteq> pcs s t)"
    using critical_progress [OF inv] by blast
  show "(\<exists>v s'. pcs s v \<noteq> Idle \<and> qstep s s' \<and> pcs s' v \<noteq> pcs s v)
      \<longleftrightarrow> \<not> (\<forall>v. pcs s v = Idle \<or> pcs s v = Wait \<and> qu_empty (queue_of s))"
    using busy_progress [OF inv] waiting_stuck [OF inv] by blast
qed

text \<open>Three states: thread 2 in the critical section; thread 1 waiting with a message there; thread 1
  waiting for an empty queue, where no thread inside an operation can go on.\<close>

lemma queue_mutex_progress_witness:
  "(\<exists>s s'. qreach s \<and> critical (pcs s 2) \<and> qstep s s' \<and> \<not> critical (pcs s 1))
    \<and> (\<exists>s v s'. qreach s \<and> owner s = None \<and> pcs s v \<noteq> Idle \<and> qstep s s' \<and> pcs s' v \<noteq> pcs s v)
    \<and> (\<exists>s. qreach s \<and> pcs s 1 = Wait \<and> (\<forall>v s'. pcs s v \<noteq> Idle \<longrightarrow> qstep s s' \<longrightarrow> pcs s' v = pcs s v))"
proof (intro conjI)
  obtain s s' where s: "qreach s" "owner s = None" "pcs s 1 = Wait" "\<not> qu_empty (queue_of s)"
    and s': "qreach s'" "pcs s' 2 = Body Peek" using example_run by blast
  from queue_mutex_progress [OF s'(1), of 2 2] queue_mutex_progress [OF s'(1), of 1 2] s'
  show "\<exists>s s'. qreach s \<and> critical (pcs s 2) \<and> qstep s s' \<and> \<not> critical (pcs s 1)" by auto
  from queue_mutex_progress [OF s(1), of 1 1] s
  show "\<exists>s v s'. qreach s \<and> owner s = None \<and> pcs s v \<noteq> Idle \<and> qstep s s' \<and> pcs s' v \<noteq> pcs s v" by auto
  obtain s where s: "qreach s" "\<And>v. pcs s v = (if v = 1 then Wait else Idle)" "qu_empty (queue_of s)"
    using waiting_run by blast
  have "\<forall>v. pcs s v = Idle \<or> pcs s v = Wait \<and> qu_empty (queue_of s)" using s(2,3) by simp
  with queue_mutex_progress [OF s(1), of 1 1]
  have "\<not> (\<exists>v s'. pcs s v \<noteq> Idle \<and> qstep s s' \<and> pcs s' v \<noteq> pcs s v)" by blast
  moreover have "pcs s 1 = Wait" using s(2) by simp
  ultimately show "\<exists>s. qreach s \<and> pcs s 1 = Wait \<and> (\<forall>v s'. pcs s v \<noteq> Idle \<longrightarrow> qstep s s' \<longrightarrow> pcs s' v = pcs s v)"
    using s(1) by blast
qed

text \<open>C7: No wake-up is lost: when nobody owns the mutex, the event semaphore is posted exactly when
  there is a message, so a reader that waits can go on if and only if there is something to read.\<close>

theorem queue_no_lost_wakeup:
  assumes "qreach s" and "owner s = None" and "pcs s t = Wait"
  shows "(q_ready (queue_of s) \<longleftrightarrow> \<not> qu_empty (queue_of s))
    \<and> ((\<exists>s'. qstep s s' \<and> pcs s' t = Req Read) \<longleftrightarrow> \<not> qu_empty (queue_of s))"
proof -
  obtain xs where "rep (queue_of s) xs"
    using qinv_queue [OF qinv_reach [OF assms(1)]] assms(2) by auto
  then have ready: "q_ready (queue_of s) \<longleftrightarrow> \<not> qu_empty (queue_of s)"
    using qu_empty_rep by (auto simp: rep_def)
  have "q_ready (queue_of s)" if "qstep s s'" "pcs s' t = Req Read" for s'
    using that assms(3) by (auto elim!: qstep_cases split: if_splits)
  then show ?thesis using ready wait [OF assms(3)] by fastforce
qed

lemma queue_no_lost_wakeup_witness:
  "\<exists>s s'. qreach s \<and> pcs s 1 = Wait \<and> qstep s s' \<and> pcs s' 1 = Req Read"
proof -
  obtain s where s: "qreach s" "owner s = None" "pcs s 1 = Wait" "\<not> qu_empty (queue_of s)"
    using example_run by blast
  from queue_no_lost_wakeup [OF s(1-3)] show ?thesis using s by blast
qed

text \<open>C26: Used by one thread, the queue is first in, first out: any list of messages that is written
  behind the present contents is read back in order and leaves the queue empty, and a message that
  is pushed is the next one to be read.\<close>

theorem queue_fifo:
  assumes "rep q xs" and "distinct (map fst ws)" and "\<forall>a \<in> fst ` set ws. q_fresh q a"
  shows "(\<exists>q1 q2. write_all q_write q ws = Some q1
      \<and> read_all q_read q1 (length xs + length ws) = Some (q2, xs @ map snd ws) \<and> rep q2 [])
    \<and> (\<forall>a x. q_fresh q a \<longrightarrow> (\<exists>q1 q2. q_push q a x = Some q1 \<and> q_read q1 = Some (q2, x) \<and> rep q2 xs))"
  using mq.fifo [OF assms] mq.push_overtakes [OF assms(1)] by blast

lemma queue_fifo_witness:
  "\<exists>P obj q1 q2. qu_create (Some 0) (0, 1) (0, 2) \<lparr>sems = Map.empty, blocks = {}\<rparr> = Some (P, Some obj)
    \<and> write_all q_write (q_list obj) [(3, 10, 0), (1, 20, 0)] = Some q1
    \<and> read_all q_read q1 2 = Some (q2, [(10, 0), (20, 0)])"
proof -
  let ?q = "\<lparr>q_heap = Map.empty, q_first = None, q_last = None, q_ready = False\<rparr>"
  have "rep ?q []" by (simp add: rep_empty linked_empty)
  from queue_fifo [OF this, of "[(3, 10, 0), (1, 20, 0)]"] show ?thesis
    by (auto simp: qu_create_ok q_fresh_def numeral_2_eq_2)
qed

text \<open>C28: \<open>qu_create\<close> gives an empty queue with one open semaphore of each kind; once the threads
  have left it, in whatever state, \<open>qu_close\<close> frees all nodes and brings the process back to where it was
  before the creation, and a second \<open>qu_close\<close> is a use after free. When a semaphore cannot be created and
  its handle stays null, nothing is left over. When the failing call leaves a value in the handle, that
  value is closed as a mutex, for the event semaphore too: an open mutex of that number is lost. When
  the allocation fails the clean-up code dereferences the null pointer.\<close>

theorem queue_lifetime:
  assumes "b \<notin> blocks P" and "h \<noteq> 0" and "h \<noteq> e" and "sems P h = None" and "sems P e = None"
  shows "(\<exists>P' obj. qu_create (Some b) (0, h) (0, e) P = Some (P', Some obj)
        \<and> rep (q_list obj) [] \<and> sems P' = (sems P)(h \<mapsto> MutexSem, e \<mapsto> EventSem) \<and> blocks P' = insert b (blocks P)
        \<and> (\<forall>s. qreach s \<and> owner s = None \<longrightarrow>
             (\<exists>fuel. qu_close fuel (obj\<lparr>q_list := queue_of s\<rparr>) P' = Some (P, Map.empty)))
        \<and> (\<forall>fuel. qu_close fuel obj P = None))
    \<and> (rc \<noteq> 0 \<longrightarrow> qu_create (Some b) (rc, h') ev P = Some (closed_as_mutex h' P, None)
        \<and> qu_create (Some b) (0, h) (rc, h') P = Some (closed_as_mutex h' P, None))
    \<and> closed_as_mutex 0 P = P
    \<and> (h' \<noteq> 0 \<and> sems P h' = Some MutexSem \<longrightarrow> sems (closed_as_mutex h' P) h' = None)
    \<and> qu_create None mutex event P = None"
proof (intro conjI impI)
  obtain P' obj where c: "qu_create (Some b) (0, h) (0, e) P = Some (P', Some obj)"
    and P': "sems P' = (sems P)(h \<mapsto> MutexSem, e \<mapsto> EventSem)" "blocks P' = insert b (blocks P)"
    and obj: "q_block obj = b"
    using qu_create_ok by fastforce
  have "rep (q_list obj) []" using qu_create_list [OF c] by (simp add: rep_empty linked_empty)
  moreover have "\<exists>fuel. qu_close fuel (obj\<lparr>q_list := queue_of s\<rparr>) P' = Some (P, Map.empty)"
    if "qreach s" "owner s = None" for s
  proof -
    note s = that
    obtain xs where "rep (queue_of s) xs" using qinv_queue [OF qinv_reach [OF s(1)]] s(2) by auto
    from qu_close_created [OF assms(1,3-5) c this order_refl] show ?thesis by blast
  qed
  moreover have "qu_close fuel obj P = None" for fuel using assms(1) obj by (simp add: qu_close_def)
  ultimately show "\<exists>P' obj. qu_create (Some b) (0, h) (0, e) P = Some (P', Some obj)
        \<and> rep (q_list obj) [] \<and> sems P' = (sems P)(h \<mapsto> MutexSem, e \<mapsto> EventSem) \<and> blocks P' = insert b (blocks P)
        \<and> (\<forall>s. qreach s \<and> owner s = None \<longrightarrow>
             (\<exists>fuel. qu_close fuel (obj\<lparr>q_list := queue_of s\<rparr>) P' = Some (P, Map.empty)))
        \<and> (\<forall>fuel. qu_close fuel obj P = None)"
    using c P' by blast
next
  assume rc: "rc \<noteq> 0"
  from qu_create_no_mutex [OF assms(1) rc]
  show "qu_create (Some b) (rc, h') ev P = Some (closed_as_mutex h' P, None)" .
  from qu_create_no_event [OF assms(1) rc assms(2,4)]
  show "qu_create (Some b) (0, h) (rc, h') P = Some (closed_as_mutex h' P, None)" .
qed (simp_all add: closed_as_mutex_def qu_create_def)

text \<open>A process with a mutex of number 5: the queue is created, used, and closed with a message in it;
  a failing \<open>DosCreateEventSem\<close> that leaves a 5 in the handle closes that mutex.\<close>

lemma queue_lifetime_witness:
  "\<exists>P obj P' s fuel. P = \<lparr>sems = [5 \<mapsto> MutexSem], blocks = {0}\<rparr>
    \<and> qu_create (Some 1) (0, 7) (0, 8) P = Some (P', Some obj) \<and> sems P' 8 = Some EventSem
    \<and> qreach s \<and> hist s = [EWrite (7, 1)]
    \<and> qu_close fuel (obj\<lparr>q_list := queue_of s\<rparr>) P' = Some (P, Map.empty)
    \<and> qu_create (Some 1) (0, 7) (8, 0) P = Some (P, None)
    \<and> qu_create (Some 1) (0, 7) (8, 5) P = Some (P\<lparr>sems := Map.empty\<rparr>, None)"
proof -
  let ?P = "\<lparr>sems = [5 \<mapsto> MutexSem], blocks = {0}\<rparr>"
  obtain s where s: "qreach s" "owner s = None" "hist s = [EWrite (7, 1)]" using example_run by blast
  have a: "1 \<notin> blocks ?P" "(7 :: 32 word) \<noteq> 0" "(7 :: 32 word) \<noteq> 8" "sems ?P 7 = None" "sems ?P 8 = None" by simp_all
  obtain P' obj where c: "qu_create (Some 1) (0, 7) (0, 8) ?P = Some (P', Some obj)"
    and sems: "sems P' = (sems ?P)(7 \<mapsto> MutexSem, 8 \<mapsto> EventSem)"
    and close: "\<forall>s. qreach s \<and> owner s = None \<longrightarrow> (\<exists>fuel. qu_close fuel (obj\<lparr>q_list := queue_of s\<rparr>) P' = Some (?P, Map.empty))"
    using queue_lifetime [OF a] by blast
  obtain fuel where "qu_close fuel (obj\<lparr>q_list := queue_of s\<rparr>) P' = Some (?P, Map.empty)" using close s by blast
  moreover have "qu_create (Some 1) (0, 7) (8, 0) ?P = Some (?P, None)"
    using queue_lifetime [OF a, of 8 0] by (simp add: closed_as_mutex_def)
  moreover have "qu_create (Some 1) (0, 7) (8, 5) ?P = Some (?P\<lparr>sems := Map.empty\<rparr>, None)"
    using queue_lifetime [OF a, of 8 5] by (simp add: closed_as_mutex_def)
  moreover have "sems P' 8 = Some EventSem" using sems by simp
  ultimately show ?thesis using c s by blast
qed

end
