(* ===== verification/Os2Audio.thy ===== *)
theory Os2Audio
  imports CPrelude
begin

text \<open>
  \<^verbatim>\<open>src/plug-ins/os2audio/os2audio.c\<close>: the output plug-in for the DART mixer. The decoder thread
  fills a ring of buffers, the mixer plays them and calls \<open>dart_event\<close> after each one; the control
  thread opens, closes, pauses and trashes.

  The state is the \<open>OS2AUDIO\<close> structure. \<open>int\<close> and \<open>ULONG\<close> fields that take part in unsigned
  arithmetic are 32 bit words; \<open>None\<close> is an access outside an array or to freed memory. The
  commands of the multimedia system are parameters: a record of the return codes and results that
  one call of an operation meets. What an operation tells the outside is a list of messages.

  The operations are first modelled one by one; \<open>audio_step\<close> cuts them where a thread does not own the
  mutex and lets the control thread, the decoder thread and the mixer interleave. What runs with the mutex, and
  the callback with respect to a loop that runs with it, is one step.
\<close>

section \<open>The structure\<close>

type_synonym ulong = "32 word"

record format_info =
  f_size :: ulong
  f_samplerate :: int
  f_channels :: int
  f_bits :: int
  f_format :: int

definition DEVICE_OPENING :: ulong where "DEVICE_OPENING = 1"
definition DEVICE_OPENED :: ulong where "DEVICE_OPENED = 2"
definition DEVICE_CLOSING :: ulong where "DEVICE_CLOSING = 3"
definition DEVICE_CLOSED :: ulong where "DEVICE_CLOSED = 4"
definition DEVICE_FAILED :: ulong where "DEVICE_FAILED = 5"

lemmas device_defs = DEVICE_OPENING_def DEVICE_OPENED_def DEVICE_CLOSING_def DEVICE_CLOSED_def DEVICE_FAILED_def

lemma device_distinct [simp]:
  "DEVICE_OPENED \<noteq> DEVICE_OPENING" "DEVICE_OPENED \<noteq> DEVICE_CLOSING" "DEVICE_OPENED \<noteq> DEVICE_CLOSED"
  "DEVICE_OPENED \<noteq> DEVICE_FAILED" "DEVICE_CLOSED \<noteq> DEVICE_OPENED" "DEVICE_CLOSING \<noteq> DEVICE_OPENED"
  "DEVICE_FAILED \<noteq> DEVICE_OPENED" "DEVICE_OPENING \<noteq> DEVICE_OPENED" "DEVICE_CLOSED \<noteq> DEVICE_FAILED"
  "DEVICE_FAILED \<noteq> DEVICE_CLOSED" "DEVICE_CLOSING \<noteq> DEVICE_CLOSED" "DEVICE_CLOSED \<noteq> DEVICE_CLOSING"
  by (simp_all add: device_defs)

datatype mci_call = McOpen | McMixSetup | McBufAlloc | McWrite | McPosition | McStop | McBufFree
  | McMixDeinit | McClose | McPause | McResume

datatype message = MciError ulong | OutOfData | SetVolume nat | Priority nat bool

text \<open>A buffer of the mixer: its memory, which the mixer allocates and frees, and \<open>ulBufferLength\<close>.\<close>

record mix_buffer =
  b_mem :: "char list option"
  b_len :: ulong

record os2audio =
  a_kludge :: bool
  a_noprecpos :: bool
  a_logvolume :: bool
  a_numbuffers :: int
  a_low :: int
  a_high :: int
  a_volume :: nat
  a_trashed :: bool
  a_nomore :: bool
  a_played :: bool
  a_status :: ulong
  a_info :: format_info
  a_thread :: nat
  a_boosted :: bool
  a_device :: nat
  a_mixrate :: int
  a_num :: ulong
  a_bufsize :: ulong
  a_bufs :: "mix_buffer list option"
  a_pos :: "ulong list option"
  a_fill :: ulong
  a_play :: ulong
  a_time :: ulong
  a_msgs :: "message list"

text \<open>What the environment answers during one call: return codes, the device id, the number and
  size of the buffers that were really allocated, the position, whether each of the two calls of \<open>calloc\<close> succeeds, the
  settings of the plug-in, two error codes, and the logarithmic volume.\<close>

record mci_env =
  rc :: "mci_call \<Rightarrow> ulong"
  dev_id :: nat
  got_num :: ulong
  got_size :: ulong
  mci_pos :: ulong
  mem_bufs :: bool
  mem_pos :: bool
  set_numbuffers :: int
  set_kludge :: bool
  set_noprecpos :: bool
  set_logvolume :: bool
  unsupp_format :: ulong
  out_of_memory :: ulong
  log_level :: "nat \<Rightarrow> nat"

definition LOUSHORT :: "ulong \<Rightarrow> ulong" where
  "LOUSHORT w = and w 0xFFFF"

definition say :: "message \<Rightarrow> os2audio \<Rightarrow> os2audio" where
  "say m a = a\<lparr>a_msgs := a_msgs a @ [m]\<rparr>"

definition output_error :: "ulong \<Rightarrow> os2audio \<Rightarrow> os2audio" where
  "output_error e a = say (MciError e) a"

definition limit2 :: "int \<Rightarrow> int \<Rightarrow> int \<Rightarrow> int" where
  "limit2 a mn mx = (if a < mn then mn else if a > mx then mx else a)"

section \<open>Priority and position\<close>

definition output_boost_priority :: "os2audio \<Rightarrow> os2audio" where
  "output_boost_priority a =
     (if a_thread a \<noteq> 0 \<and> \<not> a_boosted a
      then say (Priority (a_thread a) True) (a\<lparr>a_boosted := True\<rparr>) else a)"

definition output_normal_priority :: "os2audio \<Rightarrow> os2audio" where
  "output_normal_priority a =
     (if a_thread a \<noteq> 0 \<and> a_boosted a
      then say (Priority (a_thread a) False) (a\<lparr>a_boosted := False\<rparr>) else a)"

text \<open>The result is the return code and the position, if there is one.\<close>

definition output_position :: "mci_env \<Rightarrow> ulong \<times> ulong option" where
  "output_position env =
     (let r = LOUSHORT (rc env McPosition) in (r, if r = 0 then Some (mci_pos env) else None))"

section \<open>The mixer's callback\<close>

definition list_set :: "'a list \<Rightarrow> ulong \<Rightarrow> 'a \<Rightarrow> 'a list option" where
  "list_set xs i v = (if unat i < length xs then Some (xs[unat i := v]) else None)"

definition list_get :: "'a list \<Rightarrow> ulong \<Rightarrow> 'a option" where
  "list_get xs i = (if unat i < length xs then Some (xs ! unat i) else None)"

text \<open>\<open>memset(b->pBuffer, 0, n)\<close> and \<open>memcpy(b->pBuffer, data, len)\<close>.\<close>

definition fill_mem :: "mix_buffer \<Rightarrow> char list \<Rightarrow> mix_buffer option" where
  "fill_mem b dat =
     (case b_mem b of
        None \<Rightarrow> None
      | Some m \<Rightarrow> if length dat \<le> length m
                  then Some (b\<lparr>b_mem := Some (dat @ drop (length dat) m)\<rparr>) else None)"

definition filled_buffers :: "os2audio \<Rightarrow> ulong" where
  "filled_buffers a = (a_fill a - a_play a) mod a_num a"

definition dart_event :: "os2audio \<Rightarrow> ulong \<Rightarrow> ulong \<Rightarrow> bool \<Rightarrow> os2audio option" where
  "dart_event a current time write_complete =
     (if \<not> write_complete then Some a
      else do {
        let a = a\<lparr>a_play := (current + 1) mod a_num a, a_time := time\<rparr>;
        let filled = sint (filled_buffers a);
        let a = (if filled \<le> a_low a \<and> \<not> a_nomore a then output_boost_priority a
                 else if filled \<ge> a_high a then output_normal_priority a
                 else a);
        let a = (if filled = 0
                 then say OutOfData (a\<lparr>a_fill := (a_play a + 1) mod a_num a, a_nomore := True\<rparr>) else a);
        bufs \<leftarrow> a_bufs a;
        b \<leftarrow> list_get bufs current;
        b \<leftarrow> fill_mem b (replicate (unat (a_bufsize a)) NUL);
        bufs \<leftarrow> list_set bufs current b;
        ps \<leftarrow> a_pos a;
        p \<leftarrow> list_get ps ((current - 1) mod a_num a);
        ps \<leftarrow> list_set ps current p;
        Some (a\<lparr>a_bufs := Some bufs, a_pos := Some ps, a_played := True\<rparr>) })"

section \<open>Volume, pause, close and open\<close>

definition output_set_volume :: "mci_env \<Rightarrow> os2audio \<Rightarrow> nat \<Rightarrow> os2audio" where
  "output_set_volume env a setvolume =
     (let a = a\<lparr>a_volume := min setvolume 100\<rparr>
      in if a_status a = DEVICE_OPENED
         then say (SetVolume (if a_logvolume a then log_level env (a_volume a) else a_volume a)) a
         else a)"

definition output_pause :: "mci_env \<Rightarrow> os2audio \<Rightarrow> bool \<Rightarrow> os2audio \<times> ulong" where
  "output_pause env a pause =
     (if a_status a = DEVICE_OPENED
      then (let r = LOUSHORT (rc env (if pause then McPause else McResume))
            in (if r \<noteq> 0 then output_error r a else a, r))
      else (a, 0))"

text \<open>\<open>output_close\<close> up to the release of the mutex, the commands without the mutex, and the rest.\<close>

definition close_begin :: "os2audio \<Rightarrow> os2audio option" where
  "close_begin a =
     (if a_status a \<noteq> DEVICE_OPENED \<and> a_status a \<noteq> DEVICE_FAILED then None
      else Some (a\<lparr>a_status := DEVICE_CLOSING, a_played := True\<rparr>))"

definition check :: "ulong \<Rightarrow> os2audio \<Rightarrow> os2audio" where
  "check r a = (if LOUSHORT r \<noteq> 0 then output_error r a else a)"

definition free_mem :: "os2audio \<Rightarrow> os2audio" where
  "free_mem a = a\<lparr>a_bufs := map_option (map (\<lambda>b. b\<lparr>b_mem := None\<rparr>)) (a_bufs a)\<rparr>"

definition close_commands :: "mci_env \<Rightarrow> os2audio \<Rightarrow> os2audio" where
  "close_commands env a =
     (let a = check (rc env McStop) a;
          a = (if a_num a \<noteq> 0
               then (let a = (if LOUSHORT (rc env McBufFree) = 0 then free_mem a else a) in check (rc env McBufFree) a)
               else a);
          a = check (rc env McMixDeinit) a
      in check (rc env McClose) a)"

definition close_end :: "os2audio \<Rightarrow> os2audio" where
  "close_end a = a\<lparr>a_pos := None, a_bufs := None, a_device := 0, a_status := DEVICE_CLOSED, a_nomore := True\<rparr>"

definition output_close :: "mci_env \<Rightarrow> os2audio \<Rightarrow> os2audio \<times> ulong" where
  "output_close env a =
     (case close_begin a of
        None \<Rightarrow> (a, 0)
      | Some a \<Rightarrow> (close_end (close_commands env a), rc env McClose))"

text \<open>The initialisation of the buffers: \<open>pBuffer\<close> of every buffer is cleared.\<close>

definition init_buffers :: "ulong \<Rightarrow> ulong \<Rightarrow> mix_buffer list" where
  "init_buffers n sz = replicate (unat n) \<lparr>b_mem = Some (replicate (unat sz) NUL), b_len = sz\<rparr>"

text \<open>The settings that \<open>output_open\<close> takes over before it checks the format.\<close>

definition open_settings :: "mci_env \<Rightarrow> os2audio \<Rightarrow> os2audio" where
  "open_settings env a =
     a\<lparr>a_status := DEVICE_OPENING, a_logvolume := set_logvolume env, a_numbuffers := set_numbuffers env,
       a_kludge := set_kludge env, a_noprecpos := set_noprecpos env, a_low := 4, a_high := 7,
       a_device := 0, a_thread := 0, a_boosted := False, a_nomore := True\<rparr>"

text \<open>The body of \<open>output_open\<close> before its label \<open>end\<close>: each \<open>goto end\<close> is a branch.\<close>

definition open_body :: "mci_env \<Rightarrow> os2audio \<Rightarrow> os2audio \<times> ulong" where
  "open_body env a =
     (let info = a_info a in
      if f_format info \<noteq> 1 \<or> f_samplerate info \<le> 0 \<or> f_bits info \<noteq> 16 \<or> f_channels info \<le> 0 \<or> f_channels info > 2
      then (a, unsupp_format env)
      else
        let a = a\<lparr>a_num := 0, a_bufsize := 0\<rparr> in
        if LOUSHORT (rc env McOpen) \<noteq> 0 then (a, LOUSHORT (rc env McOpen))
        else
          let a = a\<lparr>a_device := dev_id env,
                    a_mixrate := (if a_kludge a \<and> f_samplerate info = 48000 then 44100 else f_samplerate info)\<rparr> in
          if LOUSHORT (rc env McMixSetup) \<noteq> 0 then (a, LOUSHORT (rc env McMixSetup))
          else
            let a = a\<lparr>a_numbuffers := limit2 (a_numbuffers a) 16 200\<rparr> in
            let a = a\<lparr>a_bufs := (if mem_bufs env then Some (replicate (nat (a_numbuffers a)) \<lparr>b_mem = None, b_len = 0\<rparr>) else None),
                      a_pos := (if mem_pos env then Some (replicate (nat (a_numbuffers a)) 0) else None)\<rparr> in
            if \<not> mem_bufs env \<or> \<not> mem_pos env then (a, out_of_memory env)
            else
              let a = a\<lparr>a_num := word_of_int (a_numbuffers a)\<rparr> in
              if LOUSHORT (rc env McBufAlloc) \<noteq> 0 then (a, LOUSHORT (rc env McBufAlloc))
              else
                let a = a\<lparr>a_num := got_num env, a_bufsize := got_size env, a_play := 0, a_fill := 2,
                          a_bufs := Some (init_buffers (got_num env) (got_size env)
                            @ drop (unat (got_num env)) (replicate (nat (a_numbuffers a)) \<lparr>b_mem = None, b_len = 0\<rparr>))\<rparr> in
                if LOUSHORT (rc env McWrite) \<noteq> 0 then (a, LOUSHORT (rc env McWrite))
                else (case snd (output_position env) of
                        None \<Rightarrow> (a, 0)
                      | Some p \<Rightarrow> (a\<lparr>a_time := p\<rparr>, 0)))"

definition output_open :: "mci_env \<Rightarrow> os2audio \<Rightarrow> os2audio \<times> ulong" where
  "output_open env a =
     (if a_status a \<noteq> DEVICE_CLOSED then (a, 0)
      else
        (let (a, r) = open_body env (open_settings env a)
         in if r \<noteq> 0
            then (let a = output_error r a
                  in if a_device a \<noteq> 0 then (fst (output_close env (a\<lparr>a_status := DEVICE_FAILED\<rparr>)), r)
                     else (a\<lparr>a_status := DEVICE_CLOSED\<rparr>, r))
            else (let a = a\<lparr>a_status := DEVICE_OPENED\<rparr>
                  in (output_set_volume env a (a_volume a), 0))))"

section \<open>Playing\<close>

text \<open>The loop of \<open>output_trash_buffers\<close> over the first \<open>n\<close> buffers.\<close>

fun trash_loop :: "nat \<Rightarrow> nat \<Rightarrow> ulong \<Rightarrow> mix_buffer list \<Rightarrow> ulong list \<Rightarrow> (mix_buffer list \<times> ulong list) option" where
  "trash_loop 0 sz pos bufs ps = Some (bufs, ps)"
| "trash_loop (Suc n) sz pos bufs ps =
     do { (bufs, ps) \<leftarrow> trash_loop n sz pos bufs ps;
          if n < length bufs \<and> n < length ps
          then do { b \<leftarrow> fill_mem (bufs ! n) (replicate sz NUL); Some (bufs[n := b], ps[n := pos]) }
          else None }"

definition output_trash_buffers :: "os2audio \<Rightarrow> ulong \<Rightarrow> os2audio option" where
  "output_trash_buffers a temp_playingpos =
     (if and (a_status a) DEVICE_OPENED = 0 then Some a
      else do {
        bufs \<leftarrow> a_bufs a;
        ps \<leftarrow> a_pos a;
        (bufs, ps) \<leftarrow> trash_loop (unat (a_num a)) (unat (a_bufsize a)) temp_playingpos bufs ps;
        Some (a\<lparr>a_bufs := Some bufs, a_pos := Some ps, a_nomore := False, a_trashed := True,
                a_fill := (a_play a + 1) mod a_num a\<rparr>) })"

text \<open>What happens while the decoder thread waits for the event \<open>dataplayed\<close>: a buffer has been played,
  another thread trashes the buffers or starts to close the device, or the decoder thread is given the
  processor. Trashing does not post the event.\<close>

datatype wait_event = Played ulong ulong | Trashing ulong | Closing | Woken

fun do_event :: "wait_event \<Rightarrow> os2audio \<Rightarrow> os2audio option" where
  "do_event (Played current time) a = dart_event a current time True"
| "do_event (Trashing pos) a = output_trash_buffers a pos"
| "do_event Closing a = Some (case close_begin a of None \<Rightarrow> a | Some a' \<Rightarrow> a')"
| "do_event Woken a = Some (a\<lparr>a_played := False\<rparr>)"

datatype wait_result = GoOn os2audio | Stopped os2audio | Waiting os2audio

text \<open>The thread inside \<open>DosWaitEventSem\<close>. When it gets the processor and the event is posted it resets the
  event, leaves when the device is not open any more, and goes on when there is room; the remaining
  events are not consumed.\<close>

fun asleep :: "wait_event list \<Rightarrow> os2audio \<Rightarrow> wait_result option" where
  "asleep [] a = Some (Waiting a)"
| "asleep (e # es) a =
     (if e = Woken \<and> \<not> a_played a then asleep es a
      else (case do_event e a of
              None \<Rightarrow> None
            | Some a \<Rightarrow>
                (if e \<noteq> Woken then asleep es a
                 else if a_status a \<noteq> DEVICE_OPENED then Some (Stopped a)
                 else if a_fill a \<noteq> a_play a then Some (GoOn a)
                 else asleep es a)))"

definition wait_played :: "wait_event list \<Rightarrow> os2audio \<Rightarrow> wait_result option" where
  "wait_played es a = (if a_fill a \<noteq> a_play a then Some (GoOn a) else asleep es a)"

text \<open>Behind the loop: the samples are trashed, too many, or copied to the buffer.\<close>

definition play_copy :: "os2audio \<Rightarrow> ulong \<Rightarrow> char list \<Rightarrow> ulong \<Rightarrow> (os2audio \<times> int) option" where
  "play_copy a current buf posmarker =
     (if a_trashed a then Some (a\<lparr>a_trashed := False\<rparr>, int (length buf))
      else do {
        bufs \<leftarrow> a_bufs a;
        b \<leftarrow> list_get bufs current;
        if length buf > unat (a_bufsize a) then Some (a, 0)
        else do {
          b \<leftarrow> fill_mem b buf;
          bufs \<leftarrow> list_set bufs current b;
          ps \<leftarrow> a_pos a;
          ps \<leftarrow> list_set ps current posmarker;
          Some (a\<lparr>a_bufs := Some bufs, a_pos := Some ps, a_nomore := False, a_trashed := False\<rparr>,
                int (length buf)) } })"

definition play_thread :: "os2audio \<Rightarrow> nat \<Rightarrow> os2audio" where
  "play_thread a tid =
     (if a_thread a \<noteq> tid
      then (let a = a\<lparr>a_thread := tid\<rparr> in if a_boosted a then say (Priority tid True) a else a)
      else a)"

text \<open>The device is closed and opened again when the format changes; \<open>False\<close> is a \<open>return 0\<close>.\<close>

definition play_format :: "mci_env \<Rightarrow> os2audio \<Rightarrow> format_info \<Rightarrow> os2audio \<times> bool" where
  "play_format env a format =
     (if format \<noteq> a_info a \<or> a_status a = DEVICE_CLOSED
      then (let (a, r) = output_close env a
            in if r \<noteq> 0 then (a, False)
               else (let (a, r) = output_open env (a\<lparr>a_info := format\<rparr>) in (a, r = 0)))
      else (a, True))"

text \<open>The result is the number of bytes taken, or the thread still waits.\<close>

definition output_play_samples ::
  "mci_env \<Rightarrow> os2audio \<Rightarrow> nat \<Rightarrow> format_info \<Rightarrow> char list \<Rightarrow> ulong \<Rightarrow> wait_event list \<Rightarrow> (os2audio \<times> int option) option" where
  "output_play_samples env a tid format buf posmarker es =
     (let (a, ok) = play_format env (play_thread a tid) format
      in if \<not> ok \<or> a_status a \<noteq> DEVICE_OPENED then Some (a, Some 0)
         else if buf = [] then Some (a, Some 0)
         else (let current = a_fill a
               in case wait_played es (a\<lparr>a_fill := (current + 1) mod a_num a\<rparr>) of
                    None \<Rightarrow> None
                  | Some (Waiting a) \<Rightarrow> Some (a, None)
                  | Some (Stopped a) \<Rightarrow> Some (a, Some 0)
                  | Some (GoOn a) \<Rightarrow> map_option (\<lambda>(a, n). (a, Some n)) (play_copy a current buf posmarker)))"

section \<open>Inspection and control\<close>

definition output_playing_pos :: "mci_env \<Rightarrow> os2audio \<Rightarrow> ulong option" where
  "output_playing_pos env a =
     (if a_status a = DEVICE_CLOSED then Some 0
      else do {
        ps \<leftarrow> a_pos a;
        p \<leftarrow> list_get ps (a_play a);
        if a_noprecpos a \<or> a_trashed a \<or> a_nomore a then Some p
        else (case snd (output_position env) of
                None \<Rightarrow> Some p
              | Some position \<Rightarrow> Some (p - a_time a + position)) })"

text \<open>The search for the buffer that is heard: \<open>offset\<close> is a \<open>LONG\<close>, but the comparison with a
  \<open>ULONG\<close> is unsigned. The result is \<open>current\<close>, \<open>next\<close> and \<open>offset\<close>; the number of rounds is bounded by
  the number of buffers, see \<open>seek_fuel\<close>.\<close>

fun seek :: "nat \<Rightarrow> os2audio \<Rightarrow> mix_buffer list \<Rightarrow> ulong \<Rightarrow> ulong \<Rightarrow> (ulong \<times> ulong \<times> ulong) option" where
  "seek 0 a bufs current offset = None"
| "seek (Suc fuel) a bufs current offset =
     do { b \<leftarrow> list_get bufs current;
          b0 \<leftarrow> list_get bufs 0;
          let next = (current + 1) mod a_num a;
          if next = a_fill a \<or> offset \<le> b_len b then Some (current, next, offset)
          else seek fuel a bufs next (offset - b_len b0) }"

text \<open>The copying loop: \<open>buf\<close> is what has been written so far; \<open>len\<close> bytes are still wanted.\<close>

fun copy_heard :: "nat \<Rightarrow> os2audio \<Rightarrow> mix_buffer list \<Rightarrow> ulong \<Rightarrow> ulong \<Rightarrow> ulong \<Rightarrow> nat \<Rightarrow> char list \<Rightarrow> (char list \<times> nat) option" where
  "copy_heard fuel a bufs current next offset len out =
     (if len = 0 \<or> next = a_fill a then Some (out, len)
      else (case fuel of
              0 \<Rightarrow> None
            | Suc fuel \<Rightarrow>
                do { b \<leftarrow> list_get bufs current;
                     mem \<leftarrow> b_mem b;
                     let chunk = sint (b_len b - offset);
                     let chunk = (if chunk > int len then int len else chunk);
                     if chunk < 0 \<or> unat offset + nat chunk > length mem then None
                     else copy_heard fuel a bufs next ((next + 1) mod a_num a) 0 (len - nat chunk)
                            (out @ take (nat chunk) (drop (unat offset) mem)) }))"

declare copy_heard.simps [simp del]

text \<open>\<open>output_playing_samples\<close>: \<open>None\<close> instead of a buffer is \<open>PLUGIN_FAILED\<close>; the bytes that are missing
  are set to zero.\<close>

definition output_playing_samples :: "mci_env \<Rightarrow> os2audio \<Rightarrow> nat \<Rightarrow> char list option option" where
  "output_playing_samples env a len =
     (if a_status a \<noteq> DEVICE_OPENED \<or> a_nomore a then Some None
      else if len = 0 then Some (Some [])
      else
        (let pos = snd (output_position env) in
         if \<not> a_noprecpos a \<and> pos = None then Some None
         else
           (let offset = (if a_noprecpos a then 0
                          else (the pos - a_time a) * word_of_int (a_mixrate a) div 1000
                            * word_of_int (f_channels (a_info a)) * word_of_int (f_bits (a_info a)) div 8)
            in do { bufs \<leftarrow> a_bufs a;
                    (current, next, offset) \<leftarrow> seek (unat (a_num a)) a bufs (a_play a) offset;
                    (out, rest) \<leftarrow> copy_heard (unat (a_num a)) a bufs current next offset len [];
                    Some (Some (out @ replicate rest NUL)) })))"

definition output_init :: os2audio where
  "output_init =
     \<lparr>a_kludge = False, a_noprecpos = False, a_logvolume = False, a_numbuffers = 64, a_low = 0, a_high = 0,
      a_volume = 100, a_trashed = False, a_nomore = True, a_played = False, a_status = DEVICE_CLOSED,
      a_info = \<lparr>f_size = 0, f_samplerate = 0, f_channels = 0, f_bits = 0, f_format = 0\<rparr>,
      a_thread = 0, a_boosted = False, a_device = 0, a_mixrate = 0, a_num = 0, a_bufsize = 0,
      a_bufs = None, a_pos = None, a_fill = 0, a_play = 0, a_time = 0, a_msgs = []\<rparr>"

definition output_playing_data :: "os2audio \<Rightarrow> bool" where
  "output_playing_data a \<longleftrightarrow> \<not> a_nomore a"

text \<open>The dispatcher of the player's commands with the fields of \<open>OUTPUT_PARAMS\<close> that each one reads;
  \<open>unsupported\<close> is \<open>MCIERR_UNSUPPORTED_FUNCTION\<close>.\<close>

datatype output_msg = OutputOpen | OutputPause bool | OutputClose | OutputVolume nat | OutputSetup format_info
  | OutputTrash ulong | OutputOther

fun output_command :: "mci_env \<Rightarrow> ulong \<Rightarrow> os2audio \<Rightarrow> output_msg \<Rightarrow> (os2audio \<times> ulong) option" where
  "output_command env unsupported a OutputOpen = Some (output_open env a)"
| "output_command env unsupported a (OutputPause on) = Some (output_pause env a on)"
| "output_command env unsupported a OutputClose = Some (output_close env a)"
| "output_command env unsupported a (OutputVolume v) = Some (output_set_volume env a v, 0)"
| "output_command env unsupported a (OutputSetup info) =
     Some (if a_status a \<noteq> DEVICE_OPENED then a\<lparr>a_info := info\<rparr> else a, 0)"
| "output_command env unsupported a (OutputTrash pos) = map_option (\<lambda>a. (a, 0)) (output_trash_buffers a pos)"
| "output_command env unsupported a OutputOther = Some (a, unsupported)"

text \<open>The plug-in is released: what remains is what the last \<open>output_close\<close> left.\<close>

definition output_uninit :: "mci_env \<Rightarrow> os2audio \<Rightarrow> os2audio" where
  "output_uninit env a = fst (output_close env a)"

section \<open>The ring\<close>

lemma ring_next:
  fixes x n :: ulong
  assumes "unat x < unat n"
  shows "unat ((x + 1) mod n) = (unat x + 1) mod unat n" and "unat ((x + 1) mod n) < unat n"
proof -
  have "unat n < 2 ^ 32" using unsigned_less [of n] by simp
  then have "unat x + 1 < 2 ^ 32" using assms by linarith
  then have "unat (x + 1) = unat x + 1" by (simp add: unat_word_ariths)
  then show "unat ((x + 1) mod n) = (unat x + 1) mod unat n" by (simp add: unat_mod)
  then show "unat ((x + 1) mod n) < unat n" using assms by simp
qed

lemma ring_mod: "0 < unat n \<Longrightarrow> unat ((x :: ulong) mod n) < unat n"
  by (simp add: unat_mod)

text \<open>The number of filled buffers is right when the size of the ring divides \<open>2\<^sup>3\<^sup>2\<close>.\<close>

lemma filled_mod:
  fixes f p n :: ulong
  assumes "unat n dvd 2 ^ 32" and "0 < unat n"
  shows "uint ((f - p) mod n) = (uint f - uint p) mod uint n"
proof -
  have "uint n dvd 2 ^ 32"
    using assms(1) by (metis int_dvd_int_iff of_nat_numeral of_nat_power uint_nat)
  then have "(uint f - uint p) mod 2 ^ 32 mod uint n = (uint f - uint p) mod uint n"
    by (rule mod_mod_cancel)
  then show ?thesis by (simp add: uint_mod uint_word_ariths)
qed

definition buffer_ok :: "os2audio \<Rightarrow> mix_buffer \<Rightarrow> bool" where
  "buffer_ok a b \<longleftrightarrow> b_len b = a_bufsize a \<and> (\<exists>m. b_mem b = Some m \<and> length m = unat (a_bufsize a))"

definition ring_ok :: "os2audio \<Rightarrow> bool" where
  "ring_ok a \<longleftrightarrow> 3 \<le> unat (a_num a) \<and> unat (a_play a) < unat (a_num a) \<and> unat (a_fill a) < unat (a_num a)
     \<and> a_fill a \<noteq> a_play a
     \<and> (\<exists>bufs ps. a_bufs a = Some bufs \<and> a_pos a = Some ps \<and> unat (a_num a) \<le> length bufs
          \<and> unat (a_num a) \<le> length ps \<and> (\<forall>i < unat (a_num a). buffer_ok a (bufs ! i)))"

text \<open>A ring whose decoder thread has advanced \<open>buf_to_fill\<close> and may have to wait.\<close>

definition ring_filling :: "os2audio \<Rightarrow> bool" where
  "ring_filling a \<longleftrightarrow> 3 \<le> unat (a_num a) \<and> unat (a_play a) < unat (a_num a) \<and> unat (a_fill a) < unat (a_num a)
     \<and> (\<exists>bufs ps. a_bufs a = Some bufs \<and> a_pos a = Some ps \<and> unat (a_num a) \<le> length bufs
          \<and> unat (a_num a) \<le> length ps \<and> (\<forall>i < unat (a_num a). buffer_ok a (bufs ! i)))"

lemma ring_ok_filling: "ring_ok a \<longleftrightarrow> ring_filling a \<and> a_fill a \<noteq> a_play a"
  by (auto simp: ring_ok_def ring_filling_def)

lemma ring_fillingE:
  assumes "ring_filling a"
  obtains bufs ps where "a_bufs a = Some bufs" "a_pos a = Some ps" "unat (a_num a) \<le> length bufs"
    "unat (a_num a) \<le> length ps" "\<And>i. i < unat (a_num a) \<Longrightarrow> buffer_ok a (bufs ! i)"
  using assms by (auto simp: ring_filling_def)

lemma fill_mem_ok:
  assumes "buffer_ok a b" and "length dat \<le> unat (a_bufsize a)"
  shows "\<exists>m. b_mem b = Some m \<and> fill_mem b dat = Some (b\<lparr>b_mem := Some (dat @ drop (length dat) m)\<rparr>)
    \<and> buffer_ok a (b\<lparr>b_mem := Some (dat @ drop (length dat) m)\<rparr>)"
  using assms by (auto simp: buffer_ok_def fill_mem_def)

text \<open>The first part of \<open>dart_event\<close> changes indices, priority and messages only.\<close>

definition dart_indices :: "os2audio \<Rightarrow> ulong \<Rightarrow> ulong \<Rightarrow> os2audio" where
  "dart_indices a current time =
     (let a = a\<lparr>a_play := (current + 1) mod a_num a, a_time := time\<rparr>;
          filled = sint (filled_buffers a);
          a = (if filled \<le> a_low a \<and> \<not> a_nomore a then output_boost_priority a
               else if filled \<ge> a_high a then output_normal_priority a
               else a)
      in if filled = 0
         then say OutOfData (a\<lparr>a_fill := (a_play a + 1) mod a_num a, a_nomore := True\<rparr>) else a)"

lemma dart_event_indices:
  "dart_event a current time True =
     (let a = dart_indices a current time in
      do { bufs \<leftarrow> a_bufs a;
           b \<leftarrow> list_get bufs current;
           b \<leftarrow> fill_mem b (replicate (unat (a_bufsize a)) NUL);
           bufs \<leftarrow> list_set bufs current b;
           ps \<leftarrow> a_pos a;
           p \<leftarrow> list_get ps ((current - 1) mod a_num a);
           ps \<leftarrow> list_set ps current p;
           Some (a\<lparr>a_bufs := Some bufs, a_pos := Some ps, a_played := True\<rparr>) })"
  by (simp add: dart_event_def dart_indices_def Let_def)

lemma priority_sel [simp]:
  "a_num (output_boost_priority a) = a_num a" "a_num (output_normal_priority a) = a_num a"
  "a_play (output_boost_priority a) = a_play a" "a_play (output_normal_priority a) = a_play a"
  "a_fill (output_boost_priority a) = a_fill a" "a_fill (output_normal_priority a) = a_fill a"
  "a_bufs (output_boost_priority a) = a_bufs a" "a_bufs (output_normal_priority a) = a_bufs a"
  "a_pos (output_boost_priority a) = a_pos a" "a_pos (output_normal_priority a) = a_pos a"
  "a_bufsize (output_boost_priority a) = a_bufsize a" "a_bufsize (output_normal_priority a) = a_bufsize a"
  "a_status (output_boost_priority a) = a_status a" "a_status (output_normal_priority a) = a_status a"
  "a_info (output_boost_priority a) = a_info a" "a_info (output_normal_priority a) = a_info a"
  "a_trashed (output_boost_priority a) = a_trashed a" "a_trashed (output_normal_priority a) = a_trashed a"
  by (simp_all add: output_boost_priority_def output_normal_priority_def say_def)

lemma say_sel [simp]:
  "a_num (say m a) = a_num a" "a_play (say m a) = a_play a" "a_fill (say m a) = a_fill a"
  "a_bufs (say m a) = a_bufs a" "a_pos (say m a) = a_pos a" "a_bufsize (say m a) = a_bufsize a"
  "a_status (say m a) = a_status a" "a_info (say m a) = a_info a" "a_trashed (say m a) = a_trashed a"
  "a_nomore (say m a) = a_nomore a" "a_device (say m a) = a_device a"
  by (simp_all add: say_def)

lemma dart_indices_sel [simp]:
  "a_num (dart_indices a c t) = a_num a" "a_play (dart_indices a c t) = (c + 1) mod a_num a"
  "a_bufs (dart_indices a c t) = a_bufs a" "a_pos (dart_indices a c t) = a_pos a"
  "a_bufsize (dart_indices a c t) = a_bufsize a" "a_status (dart_indices a c t) = a_status a"
  "a_info (dart_indices a c t) = a_info a" "a_trashed (dart_indices a c t) = a_trashed a"
  by (simp_all add: dart_indices_def Let_def)

lemma dart_indices_fill:
  "a_fill (dart_indices a c t) =
     (if (a_fill a - (c + 1) mod a_num a) mod a_num a = 0 then ((c + 1) mod a_num a + 1) mod a_num a else a_fill a)"
  by (simp add: dart_indices_def Let_def filled_buffers_def signed_eq_0_iff)

lemma ring_next_neq:
  fixes x n :: ulong
  assumes "unat x < unat n" and "2 \<le> unat n"
  shows "(x + 1) mod n \<noteq> x"
proof
  assume "(x + 1) mod n = x"
  then have "(unat x + 1) mod unat n = unat x" using ring_next(1) [OF assms(1)] by simp
  then show False using assms by (cases "unat x + 1 = unat n") auto
qed

lemma dart_indices_ring:
  assumes "3 \<le> unat (a_num a)" and "unat c < unat (a_num a)" and "unat (a_fill a) < unat (a_num a)"
  shows "unat (a_play (dart_indices a c t)) < unat (a_num a)" "unat (a_fill (dart_indices a c t)) < unat (a_num a)"
    "a_fill (dart_indices a c t) \<noteq> a_play (dart_indices a c t)"
proof -
  have p: "unat ((c + 1) mod a_num a) < unat (a_num a)" by (rule ring_next(2) [OF assms(2)])
  then show "unat (a_play (dart_indices a c t)) < unat (a_num a)" by simp
  show "unat (a_fill (dart_indices a c t)) < unat (a_num a)"
    using ring_next(2) [OF p] assms(3) by (simp add: dart_indices_fill)
  show "a_fill (dart_indices a c t) \<noteq> a_play (dart_indices a c t)"
    using ring_next_neq [OF p] assms(1) by (auto simp: dart_indices_fill)
qed

lemma dart_event_ring:
  assumes "ring_filling a" and "unat c < unat (a_num a)"
  shows "\<exists>a'. dart_event a c t True = Some a' \<and> ring_ok a' \<and> a_num a' = a_num a \<and> a_bufsize a' = a_bufsize a
    \<and> a_status a' = a_status a \<and> a_info a' = a_info a \<and> a_trashed a' = a_trashed a
    \<and> a_play a' = (c + 1) mod a_num a \<and> a_fill a' = a_fill (dart_indices a c t)
    \<and> a_pos a' = map_option (\<lambda>ps. ps[unat c := ps ! unat ((c - 1) mod a_num a)]) (a_pos a) \<and> a_played a'"
proof -
  obtain bufs ps where r: "a_bufs a = Some bufs" "a_pos a = Some ps" "unat (a_num a) \<le> length bufs"
    "unat (a_num a) \<le> length ps" "\<And>i. i < unat (a_num a) \<Longrightarrow> buffer_ok a (bufs ! i)"
    using ring_fillingE [OF assms(1)] by blast
  have n: "3 \<le> unat (a_num a)" "unat (a_fill a) < unat (a_num a)" using assms(1) by (auto simp: ring_filling_def)
  note ix = dart_indices_ring [OF n(1) assms(2) n(2)]
  let ?a = "dart_indices a c t"
  have bc: "buffer_ok a (bufs ! unat c)" using r(5) assms(2) by simp
  obtain m where m: "fill_mem (bufs ! unat c) (replicate (unat (a_bufsize a)) NUL)
      = Some ((bufs ! unat c)\<lparr>b_mem := Some m\<rparr>)" "buffer_ok a ((bufs ! unat c)\<lparr>b_mem := Some m\<rparr>)"
    using fill_mem_ok [OF bc, of "replicate (unat (a_bufsize a)) NUL"] by auto
  have pm: "unat ((c - 1) mod a_num a) < length ps" using ring_mod [of "a_num a" "c - 1"] n(1) r(4) by linarith
  let ?b = "bufs[unat c := (bufs ! unat c)\<lparr>b_mem := Some m\<rparr>]"
    and ?p = "ps[unat c := ps ! unat ((c - 1) mod a_num a)]"
  let ?r = "?a\<lparr>a_bufs := Some ?b, a_pos := Some ?p, a_played := True\<rparr>"
  have e: "dart_event a c t True = Some ?r"
    using r m(1) pm assms(2) by (simp add: dart_event_indices list_get_def list_set_def)
  have "buffer_ok ?r (?b ! i)" if "i < unat (a_num a)" for i
    using that r(3,5) m(2) by (cases "i = unat c") (auto simp: buffer_ok_def)
  then have "ring_ok ?r" using n r(3,4) ix by (auto simp: ring_ok_def)
  then show ?thesis using e r(2) by auto
qed

lemma dart_event_value:
  assumes "ring_filling a" and "unat c < unat (a_num a)" and "a_bufs a = Some bufs" and "a_pos a = Some ps"
  shows "dart_event a c t True = Some ((dart_indices a c t)\<lparr>
      a_bufs := Some (bufs[unat c := (bufs ! unat c)\<lparr>b_mem := Some (replicate (unat (a_bufsize a)) NUL)\<rparr>]),
      a_pos := Some (ps[unat c := ps ! unat ((c - 1) mod a_num a)]), a_played := True\<rparr>)"
proof -
  have b: "buffer_ok a (bufs ! unat c)" using assms(1,2,3) by (auto simp: ring_filling_def)
  then obtain m where m: "b_mem (bufs ! unat c) = Some m" "length m = unat (a_bufsize a)" by (auto simp: buffer_ok_def)
  have l: "unat c < length bufs" "unat c < length ps" "unat ((c - 1) mod a_num a) < length ps"
    using assms ring_mod [of "a_num a" "c - 1"] by (auto simp: ring_filling_def)
  then show ?thesis using m assms(3,4) by (simp add: dart_event_indices list_get_def list_set_def fill_mem_def)
qed

text \<open>Trashing.\<close>

lemma trash_loop_ok:
  assumes "\<And>i. i < n \<Longrightarrow> buffer_ok a (bufs ! i)" and "n \<le> length bufs" and "n \<le> length ps"
  shows "\<exists>bufs'. trash_loop n (unat (a_bufsize a)) pos bufs ps = Some (bufs', replicate n pos @ drop n ps)
    \<and> length bufs' = length bufs
    \<and> (\<forall>i < length bufs. bufs' ! i = (if i < n then (bufs ! i)\<lparr>b_mem := Some (replicate (unat (a_bufsize a)) NUL)\<rparr> else bufs ! i))"
  using assms
proof (induction n)
  case (Suc n)
  then obtain bufs' where b: "trash_loop n (unat (a_bufsize a)) pos bufs ps = Some (bufs', replicate n pos @ drop n ps)"
    "length bufs' = length bufs"
    "\<And>i. i < length bufs \<Longrightarrow> bufs' ! i = (if i < n then (bufs ! i)\<lparr>b_mem := Some (replicate (unat (a_bufsize a)) NUL)\<rparr> else bufs ! i)"
    by auto
  have n: "n < length bufs" "n < length ps" using Suc.prems(2,3) by auto
  have "buffer_ok a (bufs ! n)" using Suc.prems(1) by simp
  then have f: "fill_mem (bufs' ! n) (replicate (unat (a_bufsize a)) NUL)
      = Some ((bufs ! n)\<lparr>b_mem := Some (replicate (unat (a_bufsize a)) NUL)\<rparr>)"
    using b(3) [OF n(1)] by (auto simp: buffer_ok_def fill_mem_def)
  have p: "(replicate n pos @ drop n ps)[n := pos] = replicate (Suc n) pos @ drop (Suc n) ps"
    using n(2) by (simp add: list_update_append Cons_nth_drop_Suc [symmetric] replicate_append_same [symmetric])
  show ?case using b(1,2,3) n f p by (auto simp: nth_list_update less_Suc_eq)
qed simp

lemma trash_ring:
  assumes "ring_filling a" and "a_status a = DEVICE_OPENED \<or> a_status a = DEVICE_CLOSING"
  shows "\<exists>a' bufs. output_trash_buffers a pos = Some a' \<and> ring_ok a' \<and> a_status a' = a_status a
    \<and> a_num a' = a_num a \<and> a_bufsize a' = a_bufsize a \<and> a_play a' = a_play a \<and> a_fill a' = (a_play a + 1) mod a_num a
    \<and> a_trashed a' \<and> \<not> a_nomore a' \<and> a_bufs a' = Some bufs
    \<and> (\<forall>i < unat (a_num a). b_mem (bufs ! i) = Some (replicate (unat (a_bufsize a)) NUL))
    \<and> a_pos a' = map_option (\<lambda>ps. replicate (unat (a_num a)) pos @ drop (unat (a_num a)) ps) (a_pos a)
    \<and> a_info a' = a_info a \<and> a_played a' = a_played a"
proof -
  obtain bufs ps where r: "a_bufs a = Some bufs" "a_pos a = Some ps" "unat (a_num a) \<le> length bufs"
    "unat (a_num a) \<le> length ps" "\<And>i. i < unat (a_num a) \<Longrightarrow> buffer_ok a (bufs ! i)"
    using ring_fillingE [OF assms(1)] by blast
  have n: "3 \<le> unat (a_num a)" "unat (a_play a) < unat (a_num a)" using assms(1) by (auto simp: ring_filling_def)
  obtain bufs' where b: "trash_loop (unat (a_num a)) (unat (a_bufsize a)) pos bufs ps
      = Some (bufs', replicate (unat (a_num a)) pos @ drop (unat (a_num a)) ps)" "length bufs' = length bufs"
    "\<And>i. i < length bufs \<Longrightarrow> bufs' ! i = (if i < unat (a_num a)
       then (bufs ! i)\<lparr>b_mem := Some (replicate (unat (a_bufsize a)) NUL)\<rparr> else bufs ! i)"
    using trash_loop_ok [OF r(5,3,4), of pos] by auto
  let ?a = "a\<lparr>a_bufs := Some bufs', a_pos := Some (replicate (unat (a_num a)) pos @ drop (unat (a_num a)) ps),
    a_nomore := False, a_trashed := True, a_fill := (a_play a + 1) mod a_num a\<rparr>"
  have e: "output_trash_buffers a pos = Some ?a"
    using assms(2) r(1,2) b(1) by (auto simp: output_trash_buffers_def device_defs)
  have m: "b_mem (bufs' ! i) = Some (replicate (unat (a_bufsize a)) NUL)" "buffer_ok ?a (bufs' ! i)"
    if "i < unat (a_num a)" for i
    using b(3) [of i] that r(3) r(5) [OF that] by (auto simp: buffer_ok_def)
  have "ring_ok ?a" using n ring_next [OF n(2)] ring_next_neq [OF n(2)] m(2) r(3,4) b(2) by (auto simp: ring_ok_def)
  then show ?thesis using e m(1) r(2) by auto
qed

text \<open>With a ring size that divides \<open>2\<^sup>3\<^sup>2\<close> the callback starves exactly when the next buffer is the one to
  be filled; otherwise \<open>buf_to_fill\<close> stays.\<close>

lemma filled_zero:
  fixes f p n :: ulong
  assumes "unat n dvd 2 ^ 32" and "unat f < unat n" and "unat p < unat n" and "(f - p) mod n = 0"
  shows "f = p"
proof (rule word_uint_eqI)
  have lt: "uint f < uint n" "uint p < uint n"
    using assms(2,3) by (simp_all add: word_less_nat_alt [symmetric] word_less_def)
  have "(uint f - uint p) mod uint n = 0"
    using filled_mod [OF assms(1), of f p] assms(2,4) by simp
  then have "uint f mod uint n = uint p mod uint n" by (simp add: mod_eq_dvd_iff mod_eq_0_iff_dvd)
  then show "uint f = uint p" using lt by simp
qed

lemma dart_fill_stays:
  assumes "unat (a_num a) dvd 2 ^ 32" and "unat (a_fill a) < unat (a_num a)"
    and "unat ((c + 1) mod a_num a) < unat (a_num a)" and "a_fill a \<noteq> (c + 1) mod a_num a"
  shows "a_fill (dart_indices a c t) = a_fill a"
proof -
  have "(a_fill a - (c + 1) mod a_num a) mod a_num a \<noteq> 0" 
    using assms(4) by (rule contrapos_nn) (rule filled_zero [OF assms(1-3)])
  then show ?thesis unfolding dart_indices_fill by (rule if_not_P)
qed

definition valid_events :: "os2audio \<Rightarrow> wait_event list \<Rightarrow> bool" where
  "valid_events a es \<longleftrightarrow> (\<forall>c t. Played c t \<in> set es \<longrightarrow> unat c < unat (a_num a))"

fun wait_state :: "wait_result \<Rightarrow> os2audio" where
  "wait_state (GoOn a) = a"
| "wait_state (Stopped a) = a"
| "wait_state (Waiting a) = a"

text \<open>The events that were consumed, one after the other.\<close>

fun run_events :: "wait_event list \<Rightarrow> os2audio \<Rightarrow> os2audio option" where
  "run_events [] a = Some a"
| "run_events (e # es) a = (case do_event e a of None \<Rightarrow> None | Some b \<Rightarrow> run_events es b)"

definition is_played :: "wait_event \<Rightarrow> bool" where
  "is_played e \<longleftrightarrow> (\<exists>c t. e = Played c t)"

definition is_trashing :: "wait_event \<Rightarrow> bool" where
  "is_trashing e \<longleftrightarrow> (\<exists>pos. e = Trashing pos)"

text \<open>The same device: what no event changes.\<close>

definition same_device :: "os2audio \<Rightarrow> os2audio \<Rightarrow> bool" where
  "same_device a b \<longleftrightarrow> a_num b = a_num a \<and> a_bufsize b = a_bufsize a \<and> a_info b = a_info a"

lemma same_device_refl [simp]: "same_device a a"
  by (simp add: same_device_def)

lemma same_device_trans: "same_device a b \<Longrightarrow> same_device b c \<Longrightarrow> same_device a c"
  by (simp add: same_device_def)

lemma do_event_ring:
  assumes "ring_filling a" and "a_status a = DEVICE_OPENED \<or> a_status a = DEVICE_CLOSING"
    and "\<forall>c t. e = Played c t \<longrightarrow> unat c < unat (a_num a)"
  shows "\<exists>b. do_event e a = Some b \<and> ring_filling b \<and> same_device a b
    \<and> a_status b = (if e = Closing then DEVICE_CLOSING else a_status a)
    \<and> a_trashed b = (a_trashed a \<or> is_trashing e)
    \<and> a_played b = (e \<noteq> Woken \<and> (a_played a \<or> is_played e \<or> e = Closing \<and> a_status a = DEVICE_OPENED))
    \<and> (is_played e \<or> is_trashing e \<or> a_fill a \<noteq> a_play a \<longrightarrow> a_fill b \<noteq> a_play b)"
proof (cases e)
  case (Played c t)
  then have "unat c < unat (a_num a)" using assms(3) by simp
  from dart_event_ring [OF assms(1) this, of t] show ?thesis
    using Played ring_ok_filling by (auto simp: is_played_def is_trashing_def same_device_def)
next
  case (Trashing pos)
  from trash_ring [OF assms(1,2), of pos] show ?thesis
    using Trashing ring_ok_filling by (auto simp: is_played_def is_trashing_def same_device_def)
next
  case Closing
  show ?thesis
  proof (cases "a_status a = DEVICE_OPENED")
    case True
    let ?b = "a\<lparr>a_status := DEVICE_CLOSING, a_played := True\<rparr>"
    have "ring_filling ?b" using assms(1) by (simp add: ring_filling_def buffer_ok_def)
    then show ?thesis using Closing True
      by (auto simp: close_begin_def is_played_def is_trashing_def same_device_def)
  next
    case False
    then have "close_begin a = None" using assms(2) by (auto simp: close_begin_def device_defs)
    then show ?thesis using Closing False assms(1,2)
      by (auto simp: is_played_def is_trashing_def same_device_def)
  qed
next
  case Woken
  have "ring_filling (a\<lparr>a_played := False\<rparr>)" using assms(1) by (simp add: ring_filling_def buffer_ok_def)
  then show ?thesis using Woken by (auto simp: is_played_def is_trashing_def same_device_def)
qed

text \<open>The thread wakes up when it is given the processor after a buffer was played or the device closed.\<close>

lemma asleep_posted:
  "ring_filling a \<Longrightarrow> valid_events a es \<Longrightarrow> a_status a = DEVICE_OPENED \<or> a_status a = DEVICE_CLOSING \<Longrightarrow>
   a_played a \<Longrightarrow> a_fill a \<noteq> a_play a \<or> a_status a \<noteq> DEVICE_OPENED \<Longrightarrow>
   asleep es a = Some (Waiting d) \<Longrightarrow> Woken \<notin> set es"
proof (induction es arbitrary: a)
  case (Cons e es)
  have v: "\<forall>c t. e = Played c t \<longrightarrow> unat c < unat (a_num a)" using Cons.prems(2) by (auto simp: valid_events_def)
  obtain b where b: "do_event e a = Some b" "ring_filling b" "same_device a b"
    "a_status b = (if e = Closing then DEVICE_CLOSING else a_status a)"
    "a_played b = (e \<noteq> Woken \<and> (a_played a \<or> is_played e \<or> e = Closing \<and> a_status a = DEVICE_OPENED))"
    "is_played e \<or> is_trashing e \<or> a_fill a \<noteq> a_play a \<longrightarrow> a_fill b \<noteq> a_play b"
    using do_event_ring [OF Cons.prems(1,3) v] by blast
  have st: "a_fill b \<noteq> a_play b \<or> a_status b \<noteq> DEVICE_OPENED" using Cons.prems(5) b(4,6) by auto
  have e: "e \<noteq> Woken"
  proof
    assume "e = Woken"
    then show False using Cons.prems(4,6) b(1) st by (auto split: if_splits)
  qed
  then have "asleep es b = Some (Waiting d)" using Cons.prems(6) b(1) by simp
  moreover have "valid_events b es" using Cons.prems(2) b(3) by (auto simp: valid_events_def same_device_def)
  moreover have "a_status b = DEVICE_OPENED \<or> a_status b = DEVICE_CLOSING" using b(4) Cons.prems(3) by auto
  moreover have "a_played b" using b(5) e Cons.prems(4) by simp
  ultimately have "Woken \<notin> set es" using Cons.IH [OF b(2) _ _ _ st] by blast
  then show ?case using e by auto
qed simp

text \<open>Every way out of the wait: the state is that after the events consumed, and these tell which way it is.\<close>

lemma asleep_run:
  "ring_filling a \<Longrightarrow> valid_events a es \<Longrightarrow> a_status a = DEVICE_OPENED \<or> a_status a = DEVICE_CLOSING \<Longrightarrow>
   \<exists>es1 es2 d. es = es1 @ es2 \<and> run_events es1 a = Some d \<and> ring_filling d \<and> same_device a d
     \<and> a_status d = (if Closing \<in> set es1 then DEVICE_CLOSING else a_status a)
     \<and> a_trashed d = (a_trashed a \<or> (\<exists>pos. Trashing pos \<in> set es1))
     \<and> (asleep es a = Some (Waiting d) \<and> es2 = []
        \<or> asleep es a = Some (Stopped d) \<and> a_status d \<noteq> DEVICE_OPENED
        \<or> asleep es a = Some (GoOn d) \<and> a_status d = DEVICE_OPENED \<and> a_fill d \<noteq> a_play d)"
proof (induction es arbitrary: a)
  case Nil
  then show ?case by simp
next
  case (Cons e es)
  have v: "\<forall>c t. e = Played c t \<longrightarrow> unat c < unat (a_num a)" using Cons.prems(2) by (auto simp: valid_events_def)
  obtain b where b: "do_event e a = Some b" "ring_filling b" "same_device a b"
    "a_status b = (if e = Closing then DEVICE_CLOSING else a_status a)"
    "a_trashed b = (a_trashed a \<or> is_trashing e)"
    using do_event_ring [OF Cons.prems(1,3) v] by blast
  have same: "b = a" if "e = Woken" "\<not> a_played a" using that b(1) by auto
  show ?case
  proof (cases "e = Woken \<and> a_played a \<and> (a_status b \<noteq> DEVICE_OPENED \<or> a_fill b \<noteq> a_play b)")
    case True
    then have o: "asleep (e # es) a = Some (Stopped b) \<and> a_status b \<noteq> DEVICE_OPENED
        \<or> asleep (e # es) a = Some (GoOn b) \<and> a_status b = DEVICE_OPENED \<and> a_fill b \<noteq> a_play b"
      using b(1) by auto
    have "run_events [e] a = Some b" using b(1) by simp
    moreover have "a_status b = (if Closing \<in> set [e] then DEVICE_CLOSING else a_status a)" using b(4) by auto
    moreover have "a_trashed b = (a_trashed a \<or> (\<exists>pos. Trashing pos \<in> set [e]))"
      using b(5) by (auto simp: is_trashing_def)
    ultimately show ?thesis using b(2,3) o
      by (intro exI [of _ "[e]"] exI [of _ es] exI [of _ b]) simp
  next
    case False
    have w: "asleep (e # es) a = asleep es b"
    proof (cases "e = Woken \<and> \<not> a_played a")
      case True
      then show ?thesis using same by simp
    next
      case n: False
      then show ?thesis using False b(1) by auto
    qed
    have vb: "valid_events b es" using Cons.prems(2) b(3) by (auto simp: valid_events_def same_device_def)
    have sb: "a_status b = DEVICE_OPENED \<or> a_status b = DEVICE_CLOSING" using b(4) Cons.prems(3) by auto
    obtain es1 es2 d where d: "es = es1 @ es2" "run_events es1 b = Some d" "ring_filling d" "same_device b d"
      "a_status d = (if Closing \<in> set es1 then DEVICE_CLOSING else a_status b)"
      "a_trashed d = (a_trashed b \<or> (\<exists>pos. Trashing pos \<in> set es1))"
      "asleep es b = Some (Waiting d) \<and> es2 = []
        \<or> asleep es b = Some (Stopped d) \<and> a_status d \<noteq> DEVICE_OPENED
        \<or> asleep es b = Some (GoOn d) \<and> a_status d = DEVICE_OPENED \<and> a_fill d \<noteq> a_play d"
      using Cons.IH [OF b(2) vb sb] by blast
    have "a_status d = (if Closing \<in> set (e # es1) then DEVICE_CLOSING else a_status a)" using d(5) b(4) by auto
    moreover have "a_trashed d = (a_trashed a \<or> (\<exists>pos. Trashing pos \<in> set (e # es1)))"
      using d(6) b(5) by (auto simp: is_trashing_def)
    moreover have "run_events (e # es1) a = Some d" using b(1) d(2) by simp
    ultimately show ?thesis using d(1,3,7) w same_device_trans [OF b(3) d(4)]
      by (intro exI [of _ "e # es1"] exI [of _ es2] exI [of _ d]) simp
  qed
qed

lemma asleep_wakes:
  "ring_filling a \<Longrightarrow> valid_events a es \<Longrightarrow> a_status a = DEVICE_OPENED \<Longrightarrow> asleep es a = Some (Waiting d) \<Longrightarrow>
   es = xs @ Woken # ys \<Longrightarrow> e \<in> set xs \<Longrightarrow> \<not> is_played e \<and> e \<noteq> Closing"
proof (induction es arbitrary: a xs)
  case (Cons f es)
  then obtain zs where zs: "xs = f # zs" "es = zs @ Woken # ys" by (cases xs) auto
  have v: "\<forall>c t. f = Played c t \<longrightarrow> unat c < unat (a_num a)" using Cons.prems(2) by (auto simp: valid_events_def)
  have live: "a_status a = DEVICE_OPENED \<or> a_status a = DEVICE_CLOSING" using Cons.prems(3) by simp
  obtain b where b: "do_event f a = Some b" "ring_filling b" "same_device a b"
    "a_status b = (if f = Closing then DEVICE_CLOSING else a_status a)"
    "a_played b = (f \<noteq> Woken \<and> (a_played a \<or> is_played f \<or> f = Closing \<and> a_status a = DEVICE_OPENED))"
    "is_played f \<or> is_trashing f \<or> a_fill a \<noteq> a_play a \<longrightarrow> a_fill b \<noteq> a_play b"
    using do_event_ring [OF Cons.prems(1) live v] by blast
  have vb: "valid_events b es" using Cons.prems(2) b(3) by (auto simp: valid_events_def same_device_def)
  have same: "b = a" if "f = Woken" "\<not> a_played a" using that b(1) by auto
  have w: "asleep es b = Some (Waiting d)"
  proof (cases "f = Woken \<and> \<not> a_played a")
    case True
    then show ?thesis using same Cons.prems(4) by simp
  next
    case n: False
    then show ?thesis using Cons.prems(4) b(1) by (auto split: if_splits)
  qed
  have f: "\<not> is_played f \<and> f \<noteq> Closing"
  proof (rule ccontr)
    assume n: "\<not> (\<not> is_played f \<and> f \<noteq> Closing)"
    then have "f \<noteq> Woken" by (auto simp: is_played_def)
    then have "a_played b" using b(5) n Cons.prems(3) by auto
    moreover have "a_fill b \<noteq> a_play b \<or> a_status b \<noteq> DEVICE_OPENED" using b(4,6) n by auto
    moreover have "a_status b = DEVICE_OPENED \<or> a_status b = DEVICE_CLOSING" using b(4) Cons.prems(3) by auto
    ultimately have "Woken \<notin> set es" using asleep_posted [OF b(2) vb _ _ _ w] by blast
    then show False using zs(2) by simp
  qed
  then have "a_status b = DEVICE_OPENED" using b(4) Cons.prems(3) by simp
  from Cons.IH [OF b(2) vb this w zs(2)] show ?case using f Cons.prems(6) zs(1) by auto
qed simp

lemma play_thread_sel [simp]:
  "a_num (play_thread a tid) = a_num a" "a_play (play_thread a tid) = a_play a" "a_fill (play_thread a tid) = a_fill a"
  "a_bufs (play_thread a tid) = a_bufs a" "a_pos (play_thread a tid) = a_pos a"
  "a_bufsize (play_thread a tid) = a_bufsize a" "a_status (play_thread a tid) = a_status a"
  "a_info (play_thread a tid) = a_info a" "a_trashed (play_thread a tid) = a_trashed a"
  by (simp_all add: play_thread_def Let_def)

lemma ring_cong:
  assumes "ring_filling a" and "a_num b = a_num a" and "a_play b = a_play a" and "unat (a_fill b) < unat (a_num a)"
    and "a_bufs b = a_bufs a" and "a_pos b = a_pos a" and "a_bufsize b = a_bufsize a"
  shows "ring_filling b"
  using assms by (simp add: ring_filling_def buffer_ok_def)

section \<open>Playing samples back\<close>

text \<open>Distance from a buffer to the one that is filled next, going round the ring.\<close>

definition ring_dist :: "os2audio \<Rightarrow> ulong \<Rightarrow> nat" where
  "ring_dist a c = (unat (a_fill a) + unat (a_num a) - unat c) mod unat (a_num a)"

lemma ring_dist_step:
  fixes c f n :: nat
  assumes "c < n" and "f < n" and "c \<noteq> f"
  shows "(f + n - (c + 1) mod n) mod n + 1 = (f + n - c) mod n"
proof (cases "c < f")
  case True
  then have e: "f + n - (c + 1) = (f - (c + 1)) + n" "f + n - c = (f - c) + n" "(c + 1) mod n = c + 1"
    using assms(2) by auto
  have "((f - (c + 1)) + n) mod n = f - (c + 1)" "((f - c) + n) mod n = f - c" using assms(2) by simp_all
  then show ?thesis unfolding e using True by linarith
next
  case False
  then show ?thesis using assms by (cases "c + 1 = n") auto
qed

lemma ring_dist_next:
  assumes "unat c < unat (a_num a)" and "unat (a_fill a) < unat (a_num a)" and "c \<noteq> a_fill a"
  shows "ring_dist a ((c + 1) mod a_num a) + 1 = ring_dist a c"
proof -
  let ?n = "unat (a_num a)" and ?f = "unat (a_fill a)" and ?c = "unat c"
  have nx: "unat ((c + 1) mod a_num a) = (?c + 1) mod ?n" by (rule ring_next(1) [OF assms(1)])
  have cf: "?c \<noteq> ?f" using assms(3) unsigned_word_eqI by blast
  have "(?f + ?n - (?c + 1) mod ?n) mod ?n + 1 = (?f + ?n - ?c) mod ?n"
    using ring_dist_step [OF assms(1,2) cf] .
  then show "ring_dist a ((c + 1) mod a_num a) + 1 = ring_dist a c" by (simp add: ring_dist_def nx)
qed

lemma ring_dist_less: "0 < unat (a_num a) \<Longrightarrow> ring_dist a c < unat (a_num a)"
  by (simp add: ring_dist_def)

lemma ring_dist_fill: "unat (a_fill a) < unat (a_num a) \<Longrightarrow> ring_dist a (a_fill a) = 0"
  by (simp add: ring_dist_def)

text \<open>What the buffers from \<open>c\<close> on hold: \<open>k\<close> of them, going round the ring.\<close>

fun ring_bytes :: "nat \<Rightarrow> os2audio \<Rightarrow> mix_buffer list \<Rightarrow> ulong \<Rightarrow> char list" where
  "ring_bytes 0 a bufs c = []"
| "ring_bytes (Suc k) a bufs c = the (b_mem (bufs ! unat c)) @ ring_bytes k a bufs ((c + 1) mod a_num a)"

text \<open>The samples that wait to be heard from buffer \<open>c\<close> on: the last filled buffer is not read.\<close>

definition waiting_bytes :: "os2audio \<Rightarrow> mix_buffer list \<Rightarrow> ulong \<Rightarrow> char list" where
  "waiting_bytes a bufs c = ring_bytes (ring_dist a c - 1) a bufs c"

definition ring_mem :: "os2audio \<Rightarrow> mix_buffer list \<Rightarrow> bool" where
  "ring_mem a bufs \<longleftrightarrow> 3 \<le> unat (a_num a) \<and> unat (a_fill a) < unat (a_num a)
     \<and> unat (a_num a) \<le> length bufs \<and> (\<forall>i < unat (a_num a). buffer_ok a (bufs ! i))"

lemma waiting_bytes_last: "(c + 1) mod a_num a = a_fill a \<Longrightarrow> ring_mem a bufs \<Longrightarrow> unat c < unat (a_num a) \<Longrightarrow>
    c \<noteq> a_fill a \<Longrightarrow> waiting_bytes a bufs c = []"
  using ring_dist_next [of c a] ring_dist_fill [of a] by (simp add: waiting_bytes_def ring_mem_def)

lemma waiting_bytes_step:
  assumes "ring_mem a bufs" and "unat c < unat (a_num a)" and "c \<noteq> a_fill a" and "(c + 1) mod a_num a \<noteq> a_fill a"
  shows "waiting_bytes a bufs c = the (b_mem (bufs ! unat c)) @ waiting_bytes a bufs ((c + 1) mod a_num a)"
proof -
  have f: "unat (a_fill a) < unat (a_num a)" using assms(1) by (simp add: ring_mem_def)
  have d: "ring_dist a ((c + 1) mod a_num a) + 1 = ring_dist a c" by (rule ring_dist_next [OF assms(2) f assms(3)])
  have "ring_dist a (((c + 1) mod a_num a + 1) mod a_num a) + 1 = ring_dist a ((c + 1) mod a_num a)"
    by (rule ring_dist_next [OF ring_next(2) [OF assms(2)] f assms(4)])
  then obtain k where k: "ring_dist a ((c + 1) mod a_num a) = Suc k" by (metis Suc_eq_plus1)
  then have "ring_dist a c = Suc (Suc k)" using d by simp
  then show ?thesis using k by (simp add: waiting_bytes_def)
qed

text \<open>The search stops in front of \<open>buf_to_fill\<close> and does not change which byte is the next one.\<close>

lemma seek_stops:
  assumes "ring_mem a bufs"
  shows "ring_dist a c \<le> fuel \<Longrightarrow> unat c < unat (a_num a) \<Longrightarrow> c \<noteq> a_fill a \<Longrightarrow>
    \<exists>c' off'. seek fuel a bufs c off = Some (c', (c' + 1) mod a_num a, off') \<and> unat c' < unat (a_num a)
      \<and> c' \<noteq> a_fill a \<and> ((c' + 1) mod a_num a = a_fill a \<or> unat off' \<le> unat (a_bufsize a))
      \<and> drop (unat off') (waiting_bytes a bufs c') = drop (unat off) (waiting_bytes a bufs c)"
proof (induction fuel arbitrary: c off)
  case 0
  have "unat (a_fill a) < unat (a_num a)" using assms by (simp add: ring_mem_def)
  then show ?case using ring_dist_next [of c a] 0 by simp
next
  case (Suc fuel)
  let ?n = "(c + 1) mod a_num a"
  have m: "unat (a_fill a) < unat (a_num a)" "unat (a_num a) \<le> length bufs" "0 < unat (a_num a)"
    "\<And>i. i < unat (a_num a) \<Longrightarrow> buffer_ok a (bufs ! i)" using assms by (auto simp: ring_mem_def)
  have b: "b_len (bufs ! unat c) = a_bufsize a" "b_len (bufs ! 0) = a_bufsize a"
    "length (the (b_mem (bufs ! unat c))) = unat (a_bufsize a)"
    using m(3) m(4) [of "unat c"] m(4) [of 0] Suc.prems(2) by (auto simp: buffer_ok_def)
  have g: "list_get bufs c = Some (bufs ! unat c)" "list_get bufs 0 = Some (bufs ! 0)"
    using m(2,3) Suc.prems(2) by (auto simp: list_get_def)
  show ?case
  proof (cases "?n = a_fill a \<or> off \<le> a_bufsize a")
    case True
    then show ?thesis using g b(1) Suc.prems by (auto simp: word_le_nat_alt)
  next
    case False
    have d: "ring_dist a ?n \<le> fuel" using ring_dist_next [OF Suc.prems(2) m(1) Suc.prems(3)] Suc.prems(1) by linarith
    have s: "seek (Suc fuel) a bufs c off = seek fuel a bufs ?n (off - a_bufsize a)"
      using False g b by (simp add: Let_def)
    have "a_bufsize a \<le> off" using False by auto
    then have o: "unat (off - a_bufsize a) = unat off - unat (a_bufsize a)" by (rule unat_sub)
    have w: "waiting_bytes a bufs c = the (b_mem (bufs ! unat c)) @ waiting_bytes a bufs ?n"
      using waiting_bytes_step [OF assms Suc.prems(2,3)] False by simp
    have lt: "unat (a_bufsize a) < unat off" using False by (simp add: word_le_nat_alt not_le)
    have dr: "drop (unat off) (waiting_bytes a bufs c) = drop (unat (off - a_bufsize a)) (waiting_bytes a bufs ?n)"
      unfolding w o using b(3) lt by simp
    obtain c' off' where r: "seek fuel a bufs ?n (off - a_bufsize a) = Some (c', (c' + 1) mod a_num a, off')"
      "unat c' < unat (a_num a)" "c' \<noteq> a_fill a"
      "(c' + 1) mod a_num a = a_fill a \<or> unat off' \<le> unat (a_bufsize a)"
      "drop (unat off') (waiting_bytes a bufs c') = drop (unat (off - a_bufsize a)) (waiting_bytes a bufs ?n)"
      using Suc.IH [OF d ring_next(2) [OF Suc.prems(2)], of "off - a_bufsize a"] False by blast
    show ?thesis unfolding s dr using r by blast
  qed
qed

text \<open>The copying loop takes the next bytes, at most \<open>len\<close>.\<close>

lemma copy_heard_takes:
  assumes "ring_mem a bufs" and "unat (a_bufsize a) < 2 ^ 31"
  shows "ring_dist a c \<le> fuel \<Longrightarrow> unat c < unat (a_num a) \<Longrightarrow> c \<noteq> a_fill a \<Longrightarrow>
    (c + 1) mod a_num a = a_fill a \<or> unat off \<le> unat (a_bufsize a) \<Longrightarrow>
    \<exists>x rest. copy_heard fuel a bufs c ((c + 1) mod a_num a) off len out = Some (out @ x, rest)
      \<and> x = take len (drop (unat off) (waiting_bytes a bufs c)) \<and> length x + rest = len"
proof (induction fuel arbitrary: c off len out)
  case 0
  have "unat (a_fill a) < unat (a_num a)" using assms by (simp add: ring_mem_def)
  then show ?case using ring_dist_next [of c a] 0 by simp
next
  case (Suc fuel)
  let ?n = "(c + 1) mod a_num a"
  have m: "unat (a_fill a) < unat (a_num a)" "unat (a_num a) \<le> length bufs" "0 < unat (a_num a)"
    "\<And>i. i < unat (a_num a) \<Longrightarrow> buffer_ok a (bufs ! i)" using assms by (auto simp: ring_mem_def)
  show ?case
  proof (cases "len = 0 \<or> ?n = a_fill a")
    case True
    then show ?thesis using waiting_bytes_last [OF _ assms(1) Suc.prems(2,3)]
      by (subst copy_heard.simps) auto
  next
    case False
    obtain mem where mem: "b_len (bufs ! unat c) = a_bufsize a" "b_mem (bufs ! unat c) = Some mem"
      "length mem = unat (a_bufsize a)" using m(4) [OF Suc.prems(2)] by (auto simp: buffer_ok_def)
    have off: "unat off \<le> unat (a_bufsize a)" using Suc.prems(4) False by blast
    have ch: "sint (a_bufsize a - off) = int (unat (a_bufsize a) - unat off)"
    proof -
      have "unat (a_bufsize a - off) = unat (a_bufsize a) - unat off" using off by (simp add: unat_sub word_le_nat_alt)
      moreover have "unat (a_bufsize a) - unat off < 2 ^ 31" using assms(2) by linarith
      ultimately show ?thesis by (simp add: sint_uint uint_nat signed_take_bit_int_eq_self)
    qed
    obtain D where D: "sint (a_bufsize a - off) = int D" "unat off + D = length mem"
      by (rule that [OF ch]) (use mem(3) off in simp)
    let ?k = "min D len"
    have d: "ring_dist a ?n \<le> fuel" using ring_dist_next [OF Suc.prems(2) m(1) Suc.prems(3)] Suc.prems(1) by linarith
    have w: "waiting_bytes a bufs c = mem @ waiting_bytes a bufs ?n"
      using waiting_bytes_step [OF assms(1) Suc.prems(2,3)] False mem(2) by simp
    have s: "copy_heard (Suc fuel) a bufs c ?n off len out
        = copy_heard fuel a bufs ?n ((?n + 1) mod a_num a) 0 (len - ?k) (out @ take ?k (drop (unat off) mem))"
      using False m(2) Suc.prems(2) mem(1,2) D
      by (subst copy_heard.simps) (simp add: list_get_def Let_def min_def not_less)
    obtain x rest where r: "copy_heard fuel a bufs ?n ((?n + 1) mod a_num a) 0 (len - ?k) (out @ take ?k (drop (unat off) mem))
        = Some ((out @ take ?k (drop (unat off) mem)) @ x, rest)"
      "x = take (len - ?k) (drop (unat (0 :: ulong)) (waiting_bytes a bufs ?n))" "length x + rest = len - ?k"
      using Suc.IH [OF d ring_next(2) [OF Suc.prems(2)], of 0 "len - ?k" "out @ take ?k (drop (unat off) mem)"] False
      by auto
    have "drop (unat off) (waiting_bytes a bufs c) = drop (unat off) mem @ waiting_bytes a bufs ?n"
      unfolding w using D(2) by simp
    moreover obtain z where z: "z = drop (unat off) mem" "length z = D" using D(2) by simp
    ultimately have "take ?k (drop (unat off) mem) @ x = take len (drop (unat off) (waiting_bytes a bufs c))"
      unfolding z(1) [symmetric] using r(2) z(2) by (simp add: min_def)
    moreover have "length (take ?k (drop (unat off) mem)) = ?k" using D(2) by simp
    then have "length (take ?k (drop (unat off) mem) @ x) + rest = len" using r(3) by simp
    ultimately show ?thesis unfolding s r(1) append_assoc by blast
  qed
qed

lemma playing_samples_bytes:
  assumes "ring_ok a" and "unat (a_bufsize a) < 2 ^ 31" and "a_bufs a = Some bufs"
  shows "\<exists>c next off' out rest. seek (unat (a_num a)) a bufs (a_play a) off = Some (c, next, off')
    \<and> copy_heard (unat (a_num a)) a bufs c next off' len [] = Some (out, rest)
    \<and> out @ replicate rest NUL = take len (drop (unat off) (waiting_bytes a bufs (a_play a)) @ replicate len NUL)"
proof -
  have m: "ring_mem a bufs" "unat (a_play a) < unat (a_num a)" "a_play a \<noteq> a_fill a" "0 < unat (a_num a)"
    using assms(1,3) by (auto simp: ring_ok_def ring_mem_def)
  have d: "ring_dist a c \<le> unat (a_num a)" for c using ring_dist_less [of a c] m(4) by simp
  obtain c off' where c: "seek (unat (a_num a)) a bufs (a_play a) off = Some (c, (c + 1) mod a_num a, off')"
    "unat c < unat (a_num a)" "c \<noteq> a_fill a"
    "(c + 1) mod a_num a = a_fill a \<or> unat off' \<le> unat (a_bufsize a)"
    "drop (unat off') (waiting_bytes a bufs c) = drop (unat off) (waiting_bytes a bufs (a_play a))"
    using seek_stops [OF m(1) d m(2,3)] by blast
  obtain x rest where g: "copy_heard (unat (a_num a)) a bufs c ((c + 1) mod a_num a) off' len [] = Some ([] @ x, rest)"
    "x = take len (drop (unat off') (waiting_bytes a bufs c))" "length x + rest = len"
    using copy_heard_takes [OF m(1) assms(2) d c(2,3,4)] by blast
  have "x @ replicate rest NUL = take len (drop (unat off) (waiting_bytes a bufs (a_play a)) @ replicate len NUL)"
  proof -
    obtain w where w: "w = drop (unat off) (waiting_bytes a bufs (a_play a))" by simp
    have x: "x = take len w" using g(2) c(5) w by simp
    then have "rest = len - length w" using g(3) by simp
    then show ?thesis unfolding x w [symmetric] by simp
  qed
  then show ?thesis using c(1) g(1) by auto
qed

text \<open>The byte at which the inspection starts.\<close>

definition play_offset :: "mci_env \<Rightarrow> os2audio \<Rightarrow> nat" where
  "play_offset env a =
     (if a_noprecpos a then 0
      else unat ((mci_pos env - a_time a) * word_of_int (a_mixrate a) div 1000
        * word_of_int (f_channels (a_info a)) * word_of_int (f_bits (a_info a)) div 8))"

lemma playing_samples_value:
  assumes "ring_ok a" and "unat (a_bufsize a) < 2 ^ 31" and "a_bufs a = Some bufs"
  shows "output_playing_samples env a len =
    (if a_status a \<noteq> DEVICE_OPENED \<or> a_nomore a then Some None
     else if len = 0 then Some (Some [])
     else if \<not> a_noprecpos a \<and> fst (output_position env) \<noteq> 0 then Some None
     else Some (Some (take len (drop (play_offset env a) (waiting_bytes a bufs (a_play a)) @ replicate len NUL))))"
proof -
  have "\<exists>c next off' out rest. seek (unat (a_num a)) a bufs (a_play a) off = Some (c, next, off')
    \<and> copy_heard (unat (a_num a)) a bufs c next off' len [] = Some (out, rest)
    \<and> out @ replicate rest NUL = take len (drop (unat off) (waiting_bytes a bufs (a_play a)) @ replicate len NUL)" for off
    by (rule playing_samples_bytes [OF assms])
  then have v: "do { (current, next, offset) \<leftarrow> seek (unat (a_num a)) a bufs (a_play a) off;
      (out, rest) \<leftarrow> copy_heard (unat (a_num a)) a bufs current next offset len [];
      Some (Some (out @ replicate rest NUL)) }
    = Some (Some (take len (drop (unat off) (waiting_bytes a bufs (a_play a)) @ replicate len NUL)))" for off
    by (metis (mono_tags, lifting) Option.bind.bind_lunit case_prod_conv)
  show ?thesis
    unfolding output_playing_samples_def Let_def assms(3) Option.bind.bind_lunit v play_offset_def
    by (auto simp: output_position_def Let_def)
qed

section \<open>Opening and closing\<close>

text \<open>What the commands of the multimedia system promise.\<close>

definition mixer_contract :: "mci_env \<Rightarrow> bool" where
  "mixer_contract env \<longleftrightarrow> 3 \<le> unat (got_num env) \<and> unat (got_num env) \<le> nat (limit2 (set_numbuffers env) 16 200)
     \<and> unat (got_size env) < 2 ^ 31 \<and> dev_id env \<noteq> 0 \<and> unsupp_format env \<noteq> 0 \<and> out_of_memory env \<noteq> 0"

lemma check_sel [simp]:
  "a_status (check r a) = a_status a" "a_bufs (check r a) = a_bufs a" "a_pos (check r a) = a_pos a"
  "set (a_msgs a) \<subseteq> set (a_msgs (check r a))"
  by (auto simp: check_def output_error_def say_def)

lemma close_commands_msgs: "set (a_msgs a) \<subseteq> set (a_msgs (close_commands env a))"
proof -
  have f: "a_msgs (free_mem b) = a_msgs b" for b by (simp add: free_mem_def)
  have c: "x \<in> set (a_msgs b) \<Longrightarrow> x \<in> set (a_msgs (check r b))" for x b r using check_sel(4) by blast
  show ?thesis unfolding close_commands_def Let_def by (auto simp: f intro!: c)
qed

lemma close_end_sel [simp]:
  "a_status (close_end a) = DEVICE_CLOSED" "a_bufs (close_end a) = None" "a_pos (close_end a) = None"
  "a_msgs (close_end a) = a_msgs a"
  by (simp_all add: close_end_def)

lemma output_close_result:
  "a_status (fst (output_close env a)) = (if a_status a = DEVICE_OPENED \<or> a_status a = DEVICE_FAILED then DEVICE_CLOSED else a_status a)"
  "set (a_msgs a) \<subseteq> set (a_msgs (fst (output_close env a)))"
  "a_status a = DEVICE_OPENED \<or> a_status a = DEVICE_FAILED \<Longrightarrow>
     a_bufs (fst (output_close env a)) = None \<and> a_pos (fst (output_close env a)) = None"
proof -
  show "a_status (fst (output_close env a)) = (if a_status a = DEVICE_OPENED \<or> a_status a = DEVICE_FAILED then DEVICE_CLOSED else a_status a)"
    by (simp add: output_close_def close_begin_def)
  show "set (a_msgs a) \<subseteq> set (a_msgs (fst (output_close env a)))"
    using close_commands_msgs [of "a\<lparr>a_status := DEVICE_CLOSING, a_played := True\<rparr>" env]
    by (auto simp: output_close_def close_begin_def)
qed (auto simp: output_close_def close_begin_def)

text \<open>The two ways out of the body of \<open>output_open\<close>.\<close>

lemma open_body_ok:
  assumes "mixer_contract env" and "open_body env a = (a', 0)" and "a_numbuffers a = set_numbuffers env"
  shows "ring_ok a'" "a_play a' = 0" "a_fill a' = 2" "unat (a_bufsize a') < 2 ^ 31" "a_nomore a' = a_nomore a"
    "a_num a' = got_num env" "a_volume a' = a_volume a" "a_info a' = a_info a"
proof -
  let ?n = "limit2 (set_numbuffers env) 16 200"
  have n: "3 \<le> unat (got_num env)" "unat (got_num env) \<le> nat ?n" "unat (got_size env) < 2 ^ 31"
    using assms(1) by (auto simp: mixer_contract_def)
  define b where "b = a\<lparr>a_device := dev_id env,
    a_mixrate := (if a_kludge a \<and> f_samplerate (a_info a) = 48000 then 44100 else f_samplerate (a_info a)),
    a_numbuffers := ?n, a_pos := Some (replicate (nat ?n) 0), a_num := got_num env, a_bufsize := got_size env,
    a_play := 0, a_fill := 2, a_bufs := Some (init_buffers (got_num env) (got_size env)
      @ drop (unat (got_num env)) (replicate (nat ?n) \<lparr>b_mem = None, b_len = 0\<rparr>))\<rparr>"
  have e: "a' = b \<or> (\<exists>t. a' = b\<lparr>a_time := t\<rparr>)"
  proof -
    note o = assms(2) [unfolded open_body_def Let_def]
    have nz: "unsupp_format env \<noteq> 0" "out_of_memory env \<noteq> 0" using assms(1) by (auto simp: mixer_contract_def)
    have c: "\<not> (f_format (a_info a) \<noteq> 1 \<or> f_samplerate (a_info a) \<le> 0 \<or> f_bits (a_info a) \<noteq> 16
        \<or> f_channels (a_info a) \<le> 0 \<or> f_channels (a_info a) > 2)"
      using o nz(1) by (metis prod.inject)
    note o = o [unfolded if_not_P [OF c]]
    have c1: "\<not> LOUSHORT (rc env McOpen) \<noteq> 0" using o by (metis prod.inject)
    note o = o [unfolded if_not_P [OF c1]]
    have c2: "\<not> LOUSHORT (rc env McMixSetup) \<noteq> 0" using o by (metis prod.inject)
    note o = o [unfolded if_not_P [OF c2]]
    have c3: "\<not> (\<not> mem_bufs env \<or> \<not> mem_pos env)" using o nz(2) by (metis prod.inject)
    note o = o [unfolded if_not_P [OF c3]]
    have c4: "\<not> LOUSHORT (rc env McBufAlloc) \<noteq> 0" using o by (metis prod.inject)
    note o = o [unfolded if_not_P [OF c4]]
    have c5: "\<not> LOUSHORT (rc env McWrite) \<noteq> 0" using o by (metis prod.inject)
    note o = o [unfolded if_not_P [OF c5]]
    show ?thesis
    proof (cases "snd (output_position env)")
      case None
      then have "a' = b" using o c3 assms(3) unfolding b_def by simp
      then show ?thesis ..
    next
      case (Some t)
      then have "a' = b\<lparr>a_time := t\<rparr>" using o c3 assms(3) unfolding b_def by simp
      then show ?thesis by blast
    qed
  qed
  have "ring_ok b"
    using n unfolding b_def
    by (auto simp: ring_ok_def buffer_ok_def init_buffers_def nth_append)
  then show "ring_ok a'" using e by (auto simp: ring_ok_def buffer_ok_def)
  show "a_play a' = 0" "a_fill a' = 2" "unat (a_bufsize a') < 2 ^ 31" "a_nomore a' = a_nomore a"
    "a_num a' = got_num env" "a_volume a' = a_volume a" "a_info a' = a_info a"
    using e n(3) by (auto simp: b_def)
qed

lemma open_body_failed:
  assumes "open_body env a = (a', r)" and "a_bufs a = None" and "a_pos a = None" and "a_device a = 0" and "mixer_contract env"
  shows "a_device a' \<noteq> 0 \<or> a_bufs a' = None \<and> a_pos a' = None"
  using assms unfolding open_body_def Let_def mixer_contract_def
  by (auto split: if_splits option.splits)

definition opened :: "os2audio \<Rightarrow> bool" where
  "opened a \<longleftrightarrow> a_status a = DEVICE_OPENED \<and> ring_ok a \<and> unat (a_bufsize a) < 2 ^ 31"

definition closed :: "os2audio \<Rightarrow> bool" where
  "closed a \<longleftrightarrow> a_status a = DEVICE_CLOSED \<and> a_bufs a = None \<and> a_pos a = None"

definition closing :: "os2audio \<Rightarrow> bool" where
  "closing a \<longleftrightarrow> a_status a = DEVICE_CLOSING \<and> ring_filling a \<and> unat (a_bufsize a) < 2 ^ 31"

lemma ring_ok_fields:
  "a_num b = a_num a \<Longrightarrow> a_play b = a_play a \<Longrightarrow> a_fill b = a_fill a \<Longrightarrow> a_bufs b = a_bufs a \<Longrightarrow> a_pos b = a_pos a
    \<Longrightarrow> a_bufsize b = a_bufsize a \<Longrightarrow> ring_ok b = ring_ok a"
  by (simp add: ring_ok_def buffer_ok_def)

lemma set_volume_sel [simp]:
  "a_num (output_set_volume env a v) = a_num a" "a_play (output_set_volume env a v) = a_play a"
  "a_fill (output_set_volume env a v) = a_fill a" "a_bufs (output_set_volume env a v) = a_bufs a"
  "a_pos (output_set_volume env a v) = a_pos a" "a_bufsize (output_set_volume env a v) = a_bufsize a"
  "a_status (output_set_volume env a v) = a_status a" "a_nomore (output_set_volume env a v) = a_nomore a"
  "a_info (output_set_volume env a v) = a_info a"
  by (simp_all add: output_set_volume_def Let_def)

lemma open_result:
  assumes "mixer_contract env" and "closed a"
  shows "(\<exists>a'. output_open env a = (a', 0) \<and> opened a' \<and> a_play a' = 0 \<and> a_fill a' = 2 \<and> a_nomore a'
      \<and> a_num a' = got_num env \<and> a_info a' = a_info a)
    \<or> (\<exists>a' r. output_open env a = (a', r) \<and> r \<noteq> 0 \<and> closed a' \<and> MciError r \<in> set (a_msgs a'))"
proof -
  obtain b r where b: "open_body env (open_settings env a) = (b, r)" by fastforce
  have st: "a_status a = DEVICE_CLOSED" "a_bufs a = None" "a_pos a = None" using assms(2) by (auto simp: closed_def)
  show ?thesis
  proof (cases "r = 0")
    case True
    have nb: "a_numbuffers (open_settings env a) = set_numbuffers env" by (simp add: open_settings_def)
    note o = open_body_ok [OF assms(1) b [unfolded True] nb]
    let ?b = "b\<lparr>a_status := DEVICE_OPENED\<rparr>"
    have "output_open env a = (output_set_volume env ?b (a_volume ?b), 0)"
      using b True st(1) by (simp add: output_open_def Let_def)
    moreover have "ring_ok (output_set_volume env ?b (a_volume ?b))"
      using o(1) ring_ok_fields [of "output_set_volume env ?b (a_volume ?b)" b] by simp
    ultimately show ?thesis using o by (auto simp: opened_def open_settings_def)
  next
    case False
    let ?e = "output_error r b"
    have m: "MciError r \<in> set (a_msgs ?e)" by (simp add: output_error_def say_def)
    show ?thesis
    proof (cases "a_device b = 0")
      case True
      then have "a_bufs b = None \<and> a_pos b = None"
        using open_body_failed [OF b _ _ _ assms(1)] st by (auto simp: open_settings_def)
      then show ?thesis using b False True st(1) m
        by (auto simp: output_open_def Let_def closed_def output_error_def)
    next
      case dev: False
      let ?f = "?e\<lparr>a_status := DEVICE_FAILED\<rparr>"
      have e: "output_open env a = (fst (output_close env ?f), r)"
        using b False dev st(1) by (simp add: output_open_def Let_def output_error_def)
      have "MciError r \<in> set (a_msgs (fst (output_close env ?f)))" using output_close_result(2) [of ?f env] m by auto
      moreover have "closed (fst (output_close env ?f))"
        using output_close_result(1) [of env ?f] output_close_result(3) [of ?f env] by (simp add: closed_def)
      ultimately show ?thesis using e False by blast
    qed
  qed
qed

section \<open>The device between two operations\<close>

lemma ring_filling_fields:
  "a_num b = a_num a \<Longrightarrow> a_play b = a_play a \<Longrightarrow> a_fill b = a_fill a \<Longrightarrow> a_bufs b = a_bufs a \<Longrightarrow> a_pos b = a_pos a
    \<Longrightarrow> a_bufsize b = a_bufsize a \<Longrightarrow> ring_filling b = ring_filling a"
  by (simp add: ring_filling_def buffer_ok_def)

lemma inv_fields:
  assumes "a_num b = a_num a" and "a_play b = a_play a" and "a_fill b = a_fill a" and "a_bufs b = a_bufs a"
    and "a_pos b = a_pos a" and "a_bufsize b = a_bufsize a" and "a_status b = a_status a"
  shows "opened b = opened a" and "closing b = closing a" and "closed b = closed a"
  using assms ring_ok_fields [OF assms(1-6)] ring_filling_fields [OF assms(1-6)]
  by (simp_all add: opened_def closing_def closed_def)

lemma close_end_closed: "closed (close_end a)"
  by (simp add: closed_def)

lemma advance_filling:
  assumes "ring_ok a"
  shows "ring_filling (a\<lparr>a_fill := (a_fill a + 1) mod a_num a\<rparr>)"
proof -
  have "unat ((a_fill a + 1) mod a_num a) < unat (a_num a)" by (rule ring_next(2)) (use assms in \<open>simp add: ring_ok_def\<close>)
  then show ?thesis using ring_cong [of a "a\<lparr>a_fill := (a_fill a + 1) mod a_num a\<rparr>"] assms ring_ok_filling by auto
qed

text \<open>What the part of \<open>output_play_samples\<close> behind the loop has to do with the samples, in the buffer it
  was given before the wait.\<close>

definition samples_taken :: "os2audio \<Rightarrow> ulong \<Rightarrow> char list \<Rightarrow> ulong \<Rightarrow> os2audio \<Rightarrow> int \<Rightarrow> bool" where
  "samples_taken d c buf pos a' n \<longleftrightarrow>
     (if a_trashed d then a' = d\<lparr>a_trashed := False\<rparr> \<and> n = int (length buf)
      else if length buf > unat (a_bufsize d) then a' = d \<and> n = 0
      else n = int (length buf) \<and> (\<exists>bufs ps m. a_bufs d = Some bufs \<and> a_pos d = Some ps \<and> b_mem (bufs ! unat c) = Some m
        \<and> a' = d\<lparr>a_bufs := Some (bufs[unat c := (bufs ! unat c)\<lparr>b_mem := Some (buf @ drop (length buf) m)\<rparr>]),
                 a_pos := Some (ps[unat c := pos]), a_nomore := False, a_trashed := False\<rparr>))"

lemma play_copy_taken:
  assumes "ring_filling d" and "unat c < unat (a_num d)"
  shows "\<exists>a' n. play_copy d c buf pos = Some (a', n) \<and> samples_taken d c buf pos a' n"
proof -
  obtain bufs ps where r: "a_bufs d = Some bufs" "a_pos d = Some ps" "unat (a_num d) \<le> length bufs"
    "unat (a_num d) \<le> length ps" "\<And>i. i < unat (a_num d) \<Longrightarrow> buffer_ok d (bufs ! i)"
    using ring_fillingE [OF assms(1)] by blast
  obtain m where m: "b_mem (bufs ! unat c) = Some m" "length m = unat (a_bufsize d)"
    using r(5) [OF assms(2)] by (auto simp: buffer_ok_def)
  show ?thesis using r m assms(2) by (auto simp: play_copy_def samples_taken_def list_get_def list_set_def fill_mem_def)
qed

lemma taken_ring:
  assumes "ring_filling d" and "unat c < unat (a_num d)" and "samples_taken d c buf pos a' n"
  shows "ring_filling a'" and "a_status a' = a_status d" and "same_device d a'" and "a_fill a' = a_fill d" and "a_play a' = a_play d"
proof -
  consider (same) "a' = d" | (trashed) "a' = d\<lparr>a_trashed := False\<rparr>" | (stored) bufs ps m where
    "a_bufs d = Some bufs" "a_pos d = Some ps" "b_mem (bufs ! unat c) = Some m" "length buf \<le> unat (a_bufsize d)"
    "a' = d\<lparr>a_bufs := Some (bufs[unat c := (bufs ! unat c)\<lparr>b_mem := Some (buf @ drop (length buf) m)\<rparr>]),
       a_pos := Some (ps[unat c := pos]), a_nomore := False, a_trashed := False\<rparr>"
    using assms(3) by (auto simp: samples_taken_def split: if_splits)
  then have "ring_filling a' \<and> a_status a' = a_status d \<and> same_device d a' \<and> a_fill a' = a_fill d \<and> a_play a' = a_play d"
  proof cases
    case stored
    have bc: "buffer_ok d (bufs ! unat c)" using assms(1,2) stored(1) by (auto simp: ring_filling_def)
    have "buffer_ok a' (bufs[unat c := (bufs ! unat c)\<lparr>b_mem := Some (buf @ drop (length buf) m)\<rparr>] ! i)"
      if i: "i < unat (a_num d)" for i
    proof (cases "i = unat c")
      case True
      then show ?thesis using bc stored assms(1) i by (auto simp: buffer_ok_def ring_filling_def)
    next
      case False
      have "buffer_ok d (bufs ! i)" using assms(1) stored(1) i by (auto simp: ring_filling_def)
      then show ?thesis using False stored(5) by (simp add: buffer_ok_def)
    qed
    then have "ring_filling a'" using assms(1) stored(1,2,5) by (auto simp: ring_filling_def)
    moreover have "a_status a' = a_status d" "same_device d a'" "a_fill a' = a_fill d" "a_play a' = a_play d"
      unfolding stored(5) by (simp_all add: same_device_def)
    ultimately show ?thesis by blast
  qed (use assms(1) in \<open>auto simp: same_device_def ring_filling_def buffer_ok_def\<close>)
  then show "ring_filling a'" "a_status a' = a_status d" "same_device d a'" "a_fill a' = a_fill d" "a_play a' = a_play d"
    by blast+
qed

text \<open>The state in which \<open>output_play_samples\<close> enters its loop.\<close>

definition play_begun :: "os2audio \<Rightarrow> nat \<Rightarrow> os2audio" where
  "play_begun a tid = (play_thread a tid)\<lparr>a_fill := (a_fill a + 1) mod a_num a\<rparr>"

lemma play_begun_sel [simp]:
  "a_num (play_begun a tid) = a_num a" "a_play (play_begun a tid) = a_play a"
  "a_fill (play_begun a tid) = (a_fill a + 1) mod a_num a"
  "a_status (play_begun a tid) = a_status a" "a_bufsize (play_begun a tid) = a_bufsize a"
  "a_info (play_begun a tid) = a_info a" "a_trashed (play_begun a tid) = a_trashed a"
  "a_bufs (play_begun a tid) = a_bufs a" "a_pos (play_begun a tid) = a_pos a"
  by (simp_all add: play_begun_def)

lemma play_begun_ring: "ring_ok a \<Longrightarrow> ring_filling (play_begun a tid)"
  using advance_filling [of "play_thread a tid"] ring_ok_fields [of "play_thread a tid" a] by (simp add: play_begun_def)

text \<open>A call on an open device of the same format.\<close>

lemma play_samples_value:
  assumes "a_status a = DEVICE_OPENED" and "fmt = a_info a" and "buf \<noteq> []"
  shows "output_play_samples env a tid fmt buf pos es =
      (case wait_played es (play_begun a tid) of None \<Rightarrow> None | Some (Waiting d) \<Rightarrow> Some (d, None)
       | Some (Stopped d) \<Rightarrow> Some (d, Some 0)
       | Some (GoOn d) \<Rightarrow> map_option (\<lambda>(a, n). (a, Some n)) (play_copy d (a_fill a) buf pos))"
  using assms by (simp add: output_play_samples_def play_format_def play_begun_def device_defs Let_def)

lemma play_samples_go_on:
  assumes "a_status a = DEVICE_OPENED" and "ring_ok a" and "unat (a_bufsize a) < 2 ^ 31" and "fmt = a_info a" and "buf \<noteq> []"
    and "wait_played es (play_begun a tid) = Some (GoOn d)" and "ring_filling d" and "same_device a d"
    and "a_status d = DEVICE_OPENED" and "a_fill d \<noteq> a_play d"
  shows "\<exists>a' n. output_play_samples env a tid fmt buf pos es = Some (a', Some n) \<and> opened a'
    \<and> samples_taken d (a_fill a) buf pos a' n"
proof -
  have c: "unat (a_fill a) < unat (a_num d)" using assms(2,8) by (simp add: ring_ok_def same_device_def)
  obtain a' n where p: "play_copy d (a_fill a) buf pos = Some (a', n)" "samples_taken d (a_fill a) buf pos a' n"
    using play_copy_taken [OF assms(7) c] by blast
  note t = taken_ring [OF assms(7) c p(2)]
  have "opened a'" using t assms(3,8,9,10) ring_ok_filling by (auto simp: opened_def same_device_def)
  then show ?thesis using p play_samples_value [OF assms(1,4,5)] assms(6) by auto
qed

text \<open>The ways out of a full ring.\<close>

lemma play_samples_full:
  assumes "opened a" and "fmt = a_info a" and "buf \<noteq> []" and "valid_events (play_begun a tid) es"
    and "(a_fill a + 1) mod a_num a = a_play a"
  shows "\<exists>es1 es2 d. es = es1 @ es2 \<and> run_events es1 (play_begun a tid) = Some d \<and> same_device a d \<and> ring_filling d
      \<and> (a_trashed d \<longleftrightarrow> a_trashed a \<or> (\<exists>q. Trashing q \<in> set es1))
      \<and> (output_play_samples env a tid fmt buf pos es = Some (d, None) \<and> es2 = []
           \<and> (\<forall>xs ys e. es = xs @ Woken # ys \<and> e \<in> set xs \<longrightarrow> \<not> is_played e \<and> e \<noteq> Closing)
         \<or> output_play_samples env a tid fmt buf pos es = Some (d, Some 0) \<and> Closing \<in> set es1 \<and> closing d
         \<or> (\<exists>a' n. output_play_samples env a tid fmt buf pos es = Some (a', Some n) \<and> Closing \<notin> set es1
              \<and> a_fill d \<noteq> a_play d \<and> samples_taken d (a_fill a) buf pos a' n \<and> opened a'))"
proof -
  have o: "a_status a = DEVICE_OPENED" "ring_ok a" "unat (a_bufsize a) < 2 ^ 31" using assms(1) by (auto simp: opened_def)
  let ?c = "play_begun a tid"
  have rc: "ring_filling ?c" by (rule play_begun_ring [OF o(2)])
  have sc: "a_status ?c = DEVICE_OPENED" using o(1) by simp
  have w: "wait_played es ?c = asleep es ?c" using assms(5) by (simp add: wait_played_def)
  obtain es1 es2 d where d: "es = es1 @ es2" "run_events es1 ?c = Some d" "ring_filling d" "same_device ?c d"
    "a_status d = (if Closing \<in> set es1 then DEVICE_CLOSING else a_status ?c)"
    "a_trashed d = (a_trashed ?c \<or> (\<exists>pos. Trashing pos \<in> set es1))"
    and ways: "asleep es ?c = Some (Waiting d) \<and> es2 = []
        \<or> asleep es ?c = Some (Stopped d) \<and> a_status d \<noteq> DEVICE_OPENED
        \<or> asleep es ?c = Some (GoOn d) \<and> a_status d = DEVICE_OPENED \<and> a_fill d \<noteq> a_play d"
    using asleep_run [OF rc assms(4) disjI1 [OF sc]] by blast
  have sd: "same_device a d" using d(4) by (simp add: same_device_def)
  have td: "a_trashed d \<longleftrightarrow> a_trashed a \<or> (\<exists>q. Trashing q \<in> set es1)" using d(6) by simp
  note val = play_samples_value [OF o(1) assms(2,3), of env tid pos es, unfolded w]
  from ways show ?thesis
  proof (elim disjE conjE)
    assume a: "asleep es ?c = Some (Waiting d)" "es2 = []"
    have "\<forall>xs ys e. es = xs @ Woken # ys \<and> e \<in> set xs \<longrightarrow> \<not> is_played e \<and> e \<noteq> Closing"
      using asleep_wakes [OF rc assms(4) sc a(1)] by blast
    then show ?thesis using a d(1,2,3) sd td val by auto
  next
    assume a: "asleep es ?c = Some (Stopped d)" "a_status d \<noteq> DEVICE_OPENED"
    then have "Closing \<in> set es1" "closing d"
      using d(3,5) sc sd o(3) by (auto simp: closing_def same_device_def split: if_splits)
    then show ?thesis using a d(1,2,3) sd td val by auto
  next
    assume a: "asleep es ?c = Some (GoOn d)" "a_status d = DEVICE_OPENED" "a_fill d \<noteq> a_play d"
    from play_samples_go_on [OF o assms(2,3) _ d(3) sd a(2,3), of es tid env pos] a(1) w
    obtain a' n where "output_play_samples env a tid fmt buf pos es = Some (a', Some n)" "opened a'"
      "samples_taken d (a_fill a) buf pos a' n" by auto
    moreover have "Closing \<notin> set es1" using d(5) a(2) by (auto simp: device_defs)
    ultimately show ?thesis using d(1,2,3) sd td a(3) by blast
  qed
qed

text \<open>Two particular waits: the playing buffer is finished; the same after a trash.\<close>

lemma wait_in_order:
  assumes "a_status a = DEVICE_OPENED" and "ring_ok a" and "(a_fill a + 1) mod a_num a = a_play a"
    and "unat (a_num a) dvd 2 ^ 32"
  shows "\<exists>d. wait_played (Played (a_play a) t # Woken # es') (play_begun a tid) = Some (GoOn d) \<and> ring_filling d
    \<and> same_device a d \<and> a_status d = DEVICE_OPENED \<and> a_fill d = a_play a \<and> a_play d = (a_play a + 1) mod a_num a
    \<and> a_trashed d = a_trashed a"
proof -
  let ?c = "play_begun a tid"
  have n: "3 \<le> unat (a_num a)" "unat (a_play a) < unat (a_num a)" using assms(2) by (auto simp: ring_ok_def)
  have rc: "ring_filling ?c" by (rule play_begun_ring [OF assms(2)])
  have "unat (a_play a) < unat (a_num ?c)" using n(2) by simp
  from dart_event_ring [OF rc this, of t] obtain d where d: "dart_event ?c (a_play a) t True = Some d" "ring_ok d"
    "a_num d = a_num a" "a_bufsize d = a_bufsize a" "a_status d = a_status a" "a_info d = a_info a" "a_trashed d = a_trashed a"
    "a_play d = (a_play a + 1) mod a_num a" "a_fill d = a_fill (dart_indices ?c (a_play a) t)" "a_played d" by auto
  have ne: "a_fill ?c \<noteq> (a_play a + 1) mod a_num ?c" using assms(3) ring_next_neq [OF n(2)] n(1) by auto
  have "a_fill (dart_indices ?c (a_play a) t) = a_fill ?c"
    by (rule dart_fill_stays) (use assms(4) rc ring_next(2) [OF n(2)] ne in \<open>auto simp: ring_filling_def\<close>)
  then have f: "a_fill d = a_play a" using d(9) assms(3) by simp
  let ?d = "d\<lparr>a_played := False\<rparr>"
  have "ring_ok ?d" using d(2) ring_ok_fields [of ?d d] by simp
  then have "ring_filling ?d" "a_fill d \<noteq> a_play d" using ring_ok_filling by auto
  then show ?thesis using d f assms(1,3) by (intro exI [of _ ?d]) (simp add: wait_played_def same_device_def)
qed

lemma wait_trashed:
  assumes "a_status a = DEVICE_OPENED" and "ring_ok a" and "(a_fill a + 1) mod a_num a = a_play a"
  shows "\<exists>d bufs. wait_played (Trashing q # Played (a_play a) t # Woken # es') (play_begun a tid) = Some (GoOn d) \<and> ring_filling d
    \<and> same_device a d \<and> a_status d = DEVICE_OPENED \<and> a_fill d \<noteq> a_play d \<and> a_trashed d \<and> a_bufs d = Some bufs
    \<and> (\<forall>i < unat (a_num a). b_mem (bufs ! i) = Some (replicate (unat (a_bufsize a)) NUL))"
proof -
  let ?c = "play_begun a tid"
  have rc: "ring_filling ?c" by (rule play_begun_ring [OF assms(2)])
  have sc: "a_status ?c = DEVICE_OPENED \<or> a_status ?c = DEVICE_CLOSING" using assms(1) by simp
  from trash_ring [OF rc sc, of q] obtain b bufs where b: "output_trash_buffers ?c q = Some b" "ring_ok b" "a_status b = DEVICE_OPENED"
    "a_num b = a_num a" "a_bufsize b = a_bufsize a" "a_info b = a_info a" "a_trashed b" "a_bufs b = Some bufs" "a_play b = a_play a"
    "\<And>i. i < unat (a_num a) \<Longrightarrow> b_mem (bufs ! i) = Some (replicate (unat (a_bufsize a)) NUL)"
    using assms(1) by auto
  have rb: "ring_filling b" and c: "unat (a_play a) < unat (a_num b)" and pos: "\<exists>ps. a_pos b = Some ps"
    using b(2,9) by (auto simp: ring_ok_filling ring_filling_def)
  obtain ps where ps: "a_pos b = Some ps" using pos by blast
  note e = dart_event_value [OF rb c b(8) ps, of t]
  from dart_event_ring [OF rb c, of t] obtain d where d: "dart_event b (a_play a) t True = Some d" "ring_ok d"
    "a_num d = a_num a" "a_bufsize d = a_bufsize a" "a_status d = DEVICE_OPENED" "a_info d = a_info a" "a_trashed d" "a_played d"
    using b by auto
  have "a_bufs d = Some (bufs[unat (a_play a) := (bufs ! unat (a_play a))\<lparr>b_mem := Some (replicate (unat (a_bufsize b)) NUL)\<rparr>])"
    using d(1) e by auto
  moreover have "b_mem (bufs[unat (a_play a) := (bufs ! unat (a_play a))\<lparr>b_mem := Some (replicate (unat (a_bufsize b)) NUL)\<rparr>] ! i)
      = Some (replicate (unat (a_bufsize a)) NUL)" if "i < unat (a_num a)" for i
    using that b(2,5,8,10) b(4) by (cases "i = unat (a_play a)") (auto simp: ring_ok_def)
  moreover have "ring_ok (d\<lparr>a_played := False\<rparr>)" using d(2) ring_ok_fields [of "d\<lparr>a_played := False\<rparr>" d] by simp
  ultimately show ?thesis using b(1,3) d assms(3) ring_ok_filling
    by (intro exI [of _ "d\<lparr>a_played := False\<rparr>"] exI) (auto simp: wait_played_def same_device_def)
qed

section \<open>Every interleaving\<close>

text \<open>The operations of the control thread, the mixer's callback and the decoder thread, cut where a thread
  does not own the mutex: \<open>output_close\<close> in front of its commands and behind them, \<open>output_play_samples\<close> in
  front of \<open>output_close\<close> and \<open>output_open\<close>, at each round of its loop and in front of the copy. The other
  operations run with the mutex or are a single command. Only one thread at a time is inside
  \<open>output_close\<close>: the control thread or the decoder thread.\<close>

datatype closer = Control | Decoder

text \<open>No close under way; the commands are still to come; they have been sent: whether the memory of the mixer
  has been freed, and the return code of the last command.\<close>

datatype close_pc = NotClosing | CloseBegun closer | CloseDone closer bool ulong

text \<open>The decoder thread: outside, in front of \<open>output_close\<close>, in front of \<open>output_open\<close>, in front of the
  reservation of a buffer, at the loop, in \<open>DosWaitEventSem\<close> and behind the loop.\<close>

datatype dec_pc = DIdle | DClose format_info "char list" ulong | DOpen format_info "char list" ulong
  | DReserve "char list" ulong | DLoop ulong "char list" ulong | DSleep ulong "char list" ulong
  | DCopy ulong "char list" ulong

text \<open>The ghost field \<open>stale\<close> says that the device has been closed since the decoder reserved its buffer.\<close>

record dart_sys =
  au :: os2audio
  cl :: close_pc
  de :: dec_pc
  stale :: bool

fun reserved :: "dec_pc \<Rightarrow> ulong option" where
  "reserved (DLoop c b p) = Some c"
| "reserved (DSleep c b p) = Some c"
| "reserved (DCopy c b p) = Some c"
| "reserved _ = None"

fun in_loop :: "dec_pc \<Rightarrow> bool" where
  "in_loop (DLoop c b p) = True"
| "in_loop (DSleep c b p) = True"
| "in_loop _ = False"

fun after_close :: "close_pc \<Rightarrow> dec_pc \<Rightarrow> dec_pc" where
  "after_close (CloseDone Decoder freed r) (DClose f b p) = (if r = 0 then DOpen f b p else DIdle)"
| "after_close _ d = d"

inductive audio_step :: "dart_sys \<Rightarrow> dart_sys \<Rightarrow> bool" where
  command: "mixer_contract env \<Longrightarrow> cmd \<noteq> OutputClose \<Longrightarrow> output_command env u (au s) cmd = Some (a, r)
    \<Longrightarrow> audio_step s (s\<lparr>au := a\<rparr>)"
| control_close: "close_begin (au s) = Some a \<Longrightarrow> audio_step s (s\<lparr>au := a, cl := CloseBegun Control\<rparr>)"
| commands: "cl s = CloseBegun w
    \<Longrightarrow> audio_step s (s\<lparr>au := close_commands env (au s), cl := CloseDone w (LOUSHORT (rc env McBufFree) = 0) (rc env McClose)\<rparr>)"
| finish_close: "cl s = CloseDone w freed r
    \<Longrightarrow> audio_step s (s\<lparr>au := close_end (au s), cl := NotClosing, de := after_close (cl s) (de s), stale := True\<rparr>)"
| played: "a_status (au s) \<noteq> DEVICE_CLOSED \<Longrightarrow> unat c < unat (a_num (au s)) \<Longrightarrow> dart_event (au s) c t w = Some a
    \<Longrightarrow> audio_step s (s\<lparr>au := a\<rparr>)"
| call: "de s = DIdle \<Longrightarrow> audio_step s (s\<lparr>au := play_thread (au s) tid,
      de := (if f \<noteq> a_info (au s) \<or> a_status (au s) = DEVICE_CLOSED then DClose f b p else DReserve b p)\<rparr>)"
| decoder_close: "de s = DClose f b p \<Longrightarrow> close_begin (au s) = Some a
    \<Longrightarrow> audio_step s (s\<lparr>au := a, cl := CloseBegun Decoder\<rparr>)"
| no_close: "de s = DClose f b p \<Longrightarrow> close_begin (au s) = None \<Longrightarrow> cl s \<noteq> CloseBegun Decoder
    \<Longrightarrow> (\<And>freed r. cl s \<noteq> CloseDone Decoder freed r) \<Longrightarrow> audio_step s (s\<lparr>de := DOpen f b p\<rparr>)"
| reopen: "de s = DOpen f b p \<Longrightarrow> mixer_contract env \<Longrightarrow> output_open env ((au s)\<lparr>a_info := f\<rparr>) = (a, r)
    \<Longrightarrow> audio_step s (s\<lparr>au := a, de := (if r = 0 then DReserve b p else DIdle)\<rparr>)"
| refuse: "de s = DReserve b p \<Longrightarrow> a_status (au s) \<noteq> DEVICE_OPENED \<or> b = [] \<Longrightarrow> audio_step s (s\<lparr>de := DIdle\<rparr>)"
| reserve: "de s = DReserve b p \<Longrightarrow> a_status (au s) = DEVICE_OPENED \<Longrightarrow> b \<noteq> []
    \<Longrightarrow> audio_step s (s\<lparr>au := (au s)\<lparr>a_fill := (a_fill (au s) + 1) mod a_num (au s)\<rparr>,
          de := DLoop (a_fill (au s)) b p, stale := False\<rparr>)"
| loop: "de s = DLoop c b p
    \<Longrightarrow> audio_step s (s\<lparr>de := (if a_fill (au s) = a_play (au s) then DSleep c b p else DCopy c b p)\<rparr>)"
| wake: "de s = DSleep c b p \<Longrightarrow> a_played (au s)
    \<Longrightarrow> audio_step s (s\<lparr>au := (au s)\<lparr>a_played := False\<rparr>,
          de := (if a_status (au s) \<noteq> DEVICE_OPENED then DIdle else DLoop c b p)\<rparr>)"
| copy: "de s = DCopy c b p \<Longrightarrow> play_copy (au s) c b p = Some (a, n) \<Longrightarrow> audio_step s (s\<lparr>au := a, de := DIdle\<rparr>)"

inductive audio_reach :: "dart_sys \<Rightarrow> bool" where
  reach_init: "audio_reach \<lparr>au = output_init, cl = NotClosing, de = DIdle, stale = False\<rparr>"
| reach_step: "audio_reach s \<Longrightarrow> audio_step s s' \<Longrightarrow> audio_reach s'"

text \<open>A ring whose memory the mixer has freed: the structures are still there.\<close>

definition freed_ring :: "os2audio \<Rightarrow> bool" where
  "freed_ring a \<longleftrightarrow> 3 \<le> unat (a_num a) \<and> unat (a_play a) < unat (a_num a) \<and> unat (a_fill a) < unat (a_num a)
     \<and> (\<exists>bufs ps. a_bufs a = Some bufs \<and> a_pos a = Some ps \<and> unat (a_num a) \<le> length bufs
          \<and> unat (a_num a) \<le> length ps \<and> (\<forall>b \<in> set bufs. b_mem b = None))"

text \<open>What holds of the structure at each stage of a close.\<close>

fun stage_ok :: "close_pc \<Rightarrow> bool \<Rightarrow> os2audio \<Rightarrow> bool" where
  "stage_ok NotClosing full a \<longleftrightarrow> closed a
     \<or> a_status a = DEVICE_OPENED \<and> ring_filling a \<and> unat (a_bufsize a) < 2 ^ 31 \<and> (full \<or> a_fill a \<noteq> a_play a)"
| "stage_ok (CloseBegun w) full a \<longleftrightarrow> closing a"
| "stage_ok (CloseDone w freed r) full a \<longleftrightarrow>
     (if freed then a_status a = DEVICE_CLOSING \<and> freed_ring a \<and> unat (a_bufsize a) < 2 ^ 31 else closing a)"

definition sys_inv :: "dart_sys \<Rightarrow> bool" where
  "sys_inv s \<longleftrightarrow> stage_ok (cl s) (in_loop (de s)) (au s)
     \<and> (\<forall>c. \<not> stale s \<longrightarrow> reserved (de s) = Some c \<longrightarrow> a_status (au s) \<noteq> DEVICE_CLOSED \<and> unat c < unat (a_num (au s)))"

lemma freed_ring_fields:
  "a_num b = a_num a \<Longrightarrow> a_play b = a_play a \<Longrightarrow> a_fill b = a_fill a \<Longrightarrow> a_bufs b = a_bufs a \<Longrightarrow> a_pos b = a_pos a
    \<Longrightarrow> freed_ring b = freed_ring a"
  by (simp add: freed_ring_def)

lemma stage_fields:
  assumes "a_num b = a_num a" and "a_play b = a_play a" and "a_fill b = a_fill a" and "a_bufs b = a_bufs a"
    and "a_pos b = a_pos a" and "a_bufsize b = a_bufsize a" and "a_status b = a_status a"
  shows "stage_ok k full b = stage_ok k full a"
  using assms ring_filling_fields [OF assms(1-6)] freed_ring_fields [OF assms(1-5)] inv_fields [OF assms]
  by (cases k) simp_all

lemma stage_full: "stage_ok k full a \<Longrightarrow> stage_ok k True a"
  by (cases k) auto

text \<open>The ring is alive.\<close>

definition live :: "dart_sys \<Rightarrow> bool" where
  "live s \<longleftrightarrow> (\<forall>w r. cl s \<noteq> CloseDone w True r)"

lemma live_ring:
  assumes "stage_ok (cl s) full (au s)" and "live s" and "a_status (au s) \<noteq> DEVICE_CLOSED"
  shows "ring_filling (au s)" and "a_status (au s) = DEVICE_OPENED \<or> a_status (au s) = DEVICE_CLOSING"
    and "unat (a_bufsize (au s)) < 2 ^ 31"
  using assms by (cases "cl s"; auto simp: live_def closed_def closing_def split: if_splits)+

text \<open>A change that leaves the ring alive and well formed.\<close>

lemma stage_ring:
  assumes "stage_ok k full a" and "a_status a \<noteq> DEVICE_CLOSED" and "\<And>w r. k \<noteq> CloseDone w True r"
    and "ring_filling b" and "a_status b = a_status a" and "a_bufsize b = a_bufsize a"
    and "a_fill b \<noteq> a_play b \<or> full'"
  shows "stage_ok k full' b"
  using assms by (cases k) (auto simp: closed_def closing_def split: if_splits)

lemma freed_dart: "freed_ring a \<Longrightarrow> unat c < unat (a_num a) \<Longrightarrow> dart_event a c t True = None"
  by (auto simp: freed_ring_def dart_event_indices Let_def list_get_def fill_mem_def split: bind_splits)

lemma freed_trash_loop:
  "\<forall>b \<in> set bufs. b_mem b = None \<Longrightarrow> bufs \<noteq> [] \<Longrightarrow> trash_loop (Suc n) sz pos bufs ps = None"
proof (induction n)
  case 0
  then show ?case by (simp add: fill_mem_def)
next
  case (Suc n)
  then have "trash_loop (Suc n) sz pos bufs ps = None" by simp
  then show ?case by (subst trash_loop.simps(2)) (simp del: trash_loop.simps)
qed

lemma freed_trash: "freed_ring a \<Longrightarrow> a_status a = DEVICE_CLOSING \<Longrightarrow> output_trash_buffers a pos = None"
proof -
  assume a: "freed_ring a" "a_status a = DEVICE_CLOSING"
  obtain bufs ps where b: "a_bufs a = Some bufs" "a_pos a = Some ps" "3 \<le> unat (a_num a)" "unat (a_num a) \<le> length bufs"
    "\<forall>b \<in> set bufs. b_mem b = None" using a(1) by (auto simp: freed_ring_def)
  have "bufs \<noteq> []" using b(3,4) by auto
  obtain n where "unat (a_num a) = Suc n" using b(3) by (cases "unat (a_num a)") auto
  then show ?thesis using freed_trash_loop [OF b(5) \<open>bufs \<noteq> []\<close>] b(1,2) a(2)
    by (simp add: output_trash_buffers_def device_defs del: trash_loop.simps)
qed

text \<open>In a freed ring the copy goes through only when it does not touch the buffer.\<close>

lemma freed_copy:
  assumes "freed_ring a"
  shows "play_copy a c buf pos = Some (a', n) \<Longrightarrow> a' = a \<or> a' = a\<lparr>a_trashed := False\<rparr>"
    and "\<not> a_trashed a \<Longrightarrow> length buf \<le> unat (a_bufsize a) \<Longrightarrow> play_copy a c buf pos = None"
  using assms by (auto simp: freed_ring_def play_copy_def list_get_def fill_mem_def split: if_splits bind_splits)

text \<open>The copy into any buffer, also one that was reserved before the device was opened again.\<close>

lemma copy_ring:
  assumes "ring_filling a" and "play_copy a c buf pos = Some (a', n)"
  shows "ring_filling a' \<and> same_device a a' \<and> a_status a' = a_status a \<and> a_fill a' = a_fill a \<and> a_play a' = a_play a"
proof (cases "unat c < unat (a_num a)")
  case True
  from play_copy_taken [OF assms(1) True, of buf pos] assms(2) have "samples_taken a c buf pos a' n" by auto
  from taken_ring [OF assms(1) True this] show ?thesis by blast
next
  case False
  then show ?thesis using assms
    by (auto simp: play_copy_def ring_filling_def buffer_ok_def same_device_def list_get_def list_set_def fill_mem_def
        nth_list_update split: if_splits bind_splits option.splits)
qed

lemma close_commands_sel:
  "a_num (close_commands env a) = a_num a" "a_play (close_commands env a) = a_play a"
  "a_fill (close_commands env a) = a_fill a" "a_pos (close_commands env a) = a_pos a"
  "a_bufsize (close_commands env a) = a_bufsize a" "a_status (close_commands env a) = a_status a"
  "a_bufs (close_commands env a) = (if a_num a \<noteq> 0 \<and> LOUSHORT (rc env McBufFree) = 0
     then map_option (map (\<lambda>b. b\<lparr>b_mem := None\<rparr>)) (a_bufs a) else a_bufs a)"
  by (simp_all add: close_commands_def Let_def check_def output_error_def say_def free_mem_def)

lemma commands_stage:
  assumes "closing a"
  shows "stage_ok (CloseDone w (LOUSHORT (rc env McBufFree) = 0) r) full (close_commands env a)"
proof (cases "LOUSHORT (rc env McBufFree) = 0")
  case True
  have n: "a_num a \<noteq> 0" using assms by (auto simp: closing_def ring_filling_def)
  have "freed_ring (close_commands env a)"
    using assms True n by (auto simp: freed_ring_def close_commands_sel closing_def ring_filling_def)
  then show ?thesis using assms True by (simp add: close_commands_sel closing_def)
next
  case False
  have "closing (close_commands env a) = closing a"
    using False by (intro inv_fields(2)) (simp_all add: close_commands_sel)
  then show ?thesis using False assms by simp
qed

text \<open>Every step keeps the invariant.\<close>

lemma sys_invI:
  assumes "stage_ok (cl s) (in_loop (de s)) (au s)"
    and "\<And>c. \<not> stale s \<Longrightarrow> reserved (de s) = Some c \<Longrightarrow> a_status (au s) \<noteq> DEVICE_CLOSED \<and> unat c < unat (a_num (au s))"
  shows "sys_inv s"
  using assms by (simp add: sys_inv_def)

lemma sys_stage: "sys_inv s \<Longrightarrow> stage_ok (cl s) (in_loop (de s)) (au s)"
  by (simp add: sys_inv_def)

lemma sys_reserved:
  "sys_inv s \<Longrightarrow> \<not> stale s \<Longrightarrow> reserved (de s) = Some c \<Longrightarrow> a_status (au s) \<noteq> DEVICE_CLOSED \<and> unat c < unat (a_num (au s))"
  by (simp add: sys_inv_def)

text \<open>A step that keeps the device.\<close>

lemma sys_inv_au:
  assumes "sys_inv s" and "stage_ok (cl s) (in_loop (de s)) a"
    and "a_status (au s) \<noteq> DEVICE_CLOSED \<Longrightarrow> a_status a \<noteq> DEVICE_CLOSED \<and> a_num a = a_num (au s)"
  shows "sys_inv (s\<lparr>au := a\<rparr>)"
  using assms by (auto simp: sys_inv_def)

lemma sys_inv_fields:
  assumes "sys_inv s" and "a_num b = a_num (au s)" and "a_play b = a_play (au s)" and "a_fill b = a_fill (au s)"
    and "a_bufs b = a_bufs (au s)" and "a_pos b = a_pos (au s)" and "a_bufsize b = a_bufsize (au s)"
    and "a_status b = a_status (au s)"
  shows "sys_inv (s\<lparr>au := b\<rparr>)"
  using assms stage_fields [OF assms(2-8)] by (auto simp: sys_inv_def)

lemma sys_open:
  assumes "sys_inv s" and "mixer_contract env"
  shows "stage_ok (cl s) (in_loop (de s)) (fst (output_open env ((au s)\<lparr>a_info := f\<rparr>)))"
    and "a_status (au s) \<noteq> DEVICE_CLOSED \<Longrightarrow> fst (output_open env ((au s)\<lparr>a_info := f\<rparr>)) = (au s)\<lparr>a_info := f\<rparr>"
proof -
  show same: "fst (output_open env ((au s)\<lparr>a_info := f\<rparr>)) = (au s)\<lparr>a_info := f\<rparr>" if "a_status (au s) \<noteq> DEVICE_CLOSED"
    using that by (simp add: output_open_def)
  have st: "stage_ok (cl s) (in_loop (de s)) ((au s)\<lparr>a_info := f\<rparr>)"
    using sys_stage [OF assms(1)] stage_fields [of "(au s)\<lparr>a_info := f\<rparr>" "au s"] by simp
  show "stage_ok (cl s) (in_loop (de s)) (fst (output_open env ((au s)\<lparr>a_info := f\<rparr>)))"
  proof (cases "a_status (au s) = DEVICE_CLOSED")
    case True
    then have k: "cl s = NotClosing" using sys_stage [OF assms(1)]
      by (cases "cl s") (auto simp: closing_def device_defs split: if_splits)
    then have "closed ((au s)\<lparr>a_info := f\<rparr>)" using st True by auto
    from open_result [OF assms(2) this] show ?thesis
      using k by (auto simp: opened_def ring_ok_filling)
  next
    case False
    then show ?thesis using same st by simp
  qed
qed

lemma sys_command:
  assumes "sys_inv s" and "mixer_contract env" and "cmd \<noteq> OutputClose" and "output_command env u (au s) cmd = Some (a, r)"
  shows "sys_inv (s\<lparr>au := a\<rparr>)"
proof (cases cmd)
  case OutputOpen
  have i: "(au s)\<lparr>a_info := a_info (au s)\<rparr> = au s" by simp
  have "a = fst (output_open env (au s))" using assms(4) OutputOpen by simp
  then show ?thesis using sys_open [OF assms(1,2), of "a_info (au s)", unfolded i]
    by (intro sys_inv_au [OF assms(1)]) auto
next
  case (OutputPause on)
  have "a = fst (output_pause env (au s) on)" using assms(4) OutputPause by simp
  then show ?thesis
    by (intro sys_inv_fields [OF assms(1)]) (simp_all add: output_pause_def Let_def output_error_def)
next
  case OutputClose
  then show ?thesis using assms(3) by simp
next
  case (OutputVolume v)
  then have "a = output_set_volume env (au s) v" using assms(4) by simp
  then show ?thesis by (intro sys_inv_fields [OF assms(1)]) simp_all
next
  case (OutputSetup f)
  then have "a = (if a_status (au s) \<noteq> DEVICE_OPENED then (au s)\<lparr>a_info := f\<rparr> else au s)" using assms(4) by simp
  then show ?thesis by (intro sys_inv_fields [OF assms(1)]) simp_all
next
  case (OutputTrash pos)
  then have t: "output_trash_buffers (au s) pos = Some a" using assms(4) by auto
  show ?thesis
  proof (cases "a_status (au s) = DEVICE_CLOSED")
    case True
    then have "a = au s" using t by (simp add: output_trash_buffers_def device_defs)
    then show ?thesis using assms(1) by simp
  next
    case False
    have l: "live s"
    proof (rule ccontr)
      assume "\<not> live s"
      then have "freed_ring (au s)" "a_status (au s) = DEVICE_CLOSING" using sys_stage [OF assms(1)] by (auto simp: live_def)
      from freed_trash [OF this, of pos] t show False by simp
    qed
    note r = live_ring [OF sys_stage [OF assms(1)] l False]
    from trash_ring [OF r(1,2), of pos] t have "ring_ok a" "a_status a = a_status (au s)" "a_num a = a_num (au s)"
      "a_bufsize a = a_bufsize (au s)" by auto
    then show ?thesis using False l
      by (intro sys_inv_au [OF assms(1)] stage_ring [OF sys_stage [OF assms(1)] False])
        (auto simp: ring_ok_filling live_def)
  qed
next
  case OutputOther
  then have "a = au s" using assms(4) by simp
  then show ?thesis using sys_inv_fields [OF assms(1), of "au s"] by simp
qed

lemma sys_played:
  assumes "sys_inv s" and "a_status (au s) \<noteq> DEVICE_CLOSED" and "unat c < unat (a_num (au s))"
    and "dart_event (au s) c t w = Some a"
  shows "sys_inv (s\<lparr>au := a\<rparr>)"
proof (cases w)
  case True
  have l: "live s"
  proof (rule ccontr)
    assume "\<not> live s"
    then have "freed_ring (au s)" using sys_stage [OF assms(1)] by (auto simp: live_def)
    from freed_dart [OF this assms(3), of t] assms(4) True show False by simp
  qed
  note r = live_ring [OF sys_stage [OF assms(1)] l assms(2)]
  from dart_event_ring [OF r(1) assms(3), of t] assms(4) True have "ring_ok a" "a_status a = a_status (au s)"
    "a_num a = a_num (au s)" "a_bufsize a = a_bufsize (au s)" by auto
  then show ?thesis using assms(2) l
    by (intro sys_inv_au [OF assms(1)] stage_ring [OF sys_stage [OF assms(1)] assms(2)])
      (auto simp: ring_ok_filling live_def)
next
  case False
  then have "a = au s" using assms(4) by (simp add: dart_event_def)
  then show ?thesis using sys_inv_fields [OF assms(1), of "au s"] by simp
qed

lemma sys_begin:
  assumes "sys_inv s" and "close_begin (au s) = Some a"
  shows "sys_inv (s\<lparr>au := a, cl := CloseBegun w\<rparr>)"
proof -
  have st: "a_status (au s) = DEVICE_OPENED \<or> a_status (au s) = DEVICE_FAILED"
    and a: "a = (au s)\<lparr>a_status := DEVICE_CLOSING, a_played := True\<rparr>"
    using assms(2) by (auto simp: close_begin_def split: if_splits)
  have o: "a_status (au s) = DEVICE_OPENED" "ring_filling (au s)" "unat (a_bufsize (au s)) < 2 ^ 31"
    using sys_stage [OF assms(1)] st
    by (cases "cl s"; auto simp: closed_def closing_def device_defs split: if_splits)+
  have "ring_filling a" using ring_filling_fields [of a "au s"] o(2) unfolding a by simp
  then have "closing a" using o(3) unfolding closing_def a by simp
  then show ?thesis using assms(1) o(1) unfolding a by (auto simp: sys_inv_def)
qed

lemma sys_copy:
  assumes "sys_inv s" and "de s = DCopy c b p" and "play_copy (au s) c b p = Some (a, n)"
  shows "sys_inv (s\<lparr>au := a, de := DIdle\<rparr>)"
proof (rule sys_invI)
  have st: "stage_ok (cl s) False (au s)" using sys_stage [OF assms(1)] assms(2) by simp
  have "stage_ok (cl s) False a"
  proof (cases "a_status (au s) = DEVICE_CLOSED")
    case True
    then have "closed (au s)" using st by (cases "cl s") (auto simp: closing_def device_defs split: if_splits)
    then have "a = (au s)\<lparr>a_trashed := False\<rparr>" using assms(3)
      by (auto simp: closed_def play_copy_def split: if_splits)
    then show ?thesis using st stage_fields [of a "au s"] by simp
  next
    case alive: False
    show ?thesis
    proof (cases "live s")
      case True
      note r = live_ring [OF st True alive]
      have c: "ring_filling a \<and> same_device (au s) a \<and> a_status a = a_status (au s) \<and> a_fill a = a_fill (au s) \<and> a_play a = a_play (au s)"
        by (rule copy_ring [OF r(1) assms(3)])
      then show ?thesis using st True alive by (cases "cl s") (auto simp: closed_def closing_def same_device_def live_def split: if_splits)
    next
      case False
      then have "freed_ring (au s)" using st by (auto simp: live_def)
      from freed_copy(1) [OF this assms(3)] show ?thesis using st stage_fields [of a "au s"] by auto
    qed
  qed
  then show "stage_ok (cl (s\<lparr>au := a, de := DIdle\<rparr>)) (in_loop (de (s\<lparr>au := a, de := DIdle\<rparr>))) (au (s\<lparr>au := a, de := DIdle\<rparr>))"
    by simp
qed simp

lemma after_close_free: "reserved (after_close k d) = Some c \<Longrightarrow> reserved d = Some c"
  by (cases "(k, d)" rule: after_close.cases) (auto split: if_splits)

lemma audio_step_inv: "audio_step s s' \<Longrightarrow> sys_inv s \<Longrightarrow> sys_inv s'"
proof (induction rule: audio_step.induct)
  case (command env cmd u s a r)
  then show ?case by (intro sys_command)
next
  case (control_close s a)
  then show ?case by (intro sys_begin)
next
  case (commands s w env)
  then have "closing (au s)" using sys_stage [of s] by simp
  from commands_stage [OF this, of w env] show ?case
    by (intro sys_invI) (use sys_reserved [OF commands(2)] in \<open>simp_all add: close_commands_sel\<close>)
next
  case (finish_close s w freed r)
  then show ?case by (simp add: sys_inv_def close_end_closed)
next
  case (played s c t w a)
  then show ?case by (intro sys_played)
next
  case (call s f b p tid)
  have "sys_inv (s\<lparr>au := play_thread (au s) tid\<rparr>)" by (rule sys_inv_fields [OF call(2)]) simp_all
  then show ?case using call(1) by (auto simp: sys_inv_def)
next
  case (decoder_close s f b p a)
  then show ?case by (intro sys_begin)
next
  case (no_close s f b p)
  then show ?case by (auto simp: sys_inv_def)
next
  case (reopen s f b p env a r)
  have "a = fst (output_open env ((au s)\<lparr>a_info := f\<rparr>))" using reopen(3) by simp
  then show ?case using sys_open(1) [OF reopen(4,2), of f] reopen(1) by (auto simp: sys_inv_def)
next
  case (refuse s b p)
  then show ?case by (auto simp: sys_inv_def)
next
  case (reserve s b p)
  let ?a = "(au s)\<lparr>a_fill := (a_fill (au s) + 1) mod a_num (au s)\<rparr>"
  have k: "cl s = NotClosing" using sys_stage [OF reserve(4)] reserve(2)
    by (cases "cl s") (auto simp: closing_def split: if_splits)
  have r: "ring_filling (au s)" "unat (a_bufsize (au s)) < 2 ^ 31"
    using sys_stage [OF reserve(4)] reserve(2) k by (auto simp: closed_def)
  have f: "unat (a_fill (au s)) < unat (a_num (au s))" using r(1) by (simp add: ring_filling_def)
  have "ring_filling ?a" by (rule ring_cong [OF r(1)]) (use ring_next(2) [OF f] in simp_all)
  then show ?case using k r(2) f reserve(2) by (simp add: sys_inv_def)
next
  case (loop s c b p)
  have "stage_ok (cl s) (a_fill (au s) = a_play (au s)) (au s)" using sys_stage [OF loop(2)] loop(1) by (cases "cl s") auto
  then show ?case using loop by (auto simp: sys_inv_def)
next
  case (wake s c b p)
  have "sys_inv (s\<lparr>au := (au s)\<lparr>a_played := False\<rparr>\<rparr>)" by (rule sys_inv_fields [OF wake(3)]) simp_all
  then have i: "stage_ok (cl s) True ((au s)\<lparr>a_played := False\<rparr>)" using wake(1) by (simp add: sys_inv_def)
  have "stage_ok (cl s) False ((au s)\<lparr>a_played := False\<rparr>)" if "a_status (au s) \<noteq> DEVICE_OPENED"
    using that i by (cases "cl s") auto
  then show ?case using i wake by (auto simp: sys_inv_def)
next
  case (copy s c b p a n)
  then show ?case by (intro sys_copy)
qed

lemma reach_inv: "audio_reach s \<Longrightarrow> sys_inv s"
proof (induction rule: audio_reach.induct)
  case reach_init
  show ?case by (simp add: sys_inv_def closed_def output_init_def)
next
  case (reach_step s s')
  then show ?case using audio_step_inv by blast
qed

text \<open>The inspection of a full ring, which the decoder leaves while it waits: the first round is unrolled.\<close>

lemma copy_heard_full:
  assumes "ring_mem a bufs" and "unat (a_bufsize a) < 2 ^ 31" and "unat c < unat (a_num a)"
    and "(c + 1) mod a_num a \<noteq> a_fill a" and "unat off \<le> unat (a_bufsize a)"
  shows "copy_heard (unat (a_num a)) a bufs c ((c + 1) mod a_num a) off len out \<noteq> None"
proof (cases "len = 0")
  case True
  then show ?thesis by (simp add: copy_heard.simps)
next
  case False
  let ?n = "(c + 1) mod a_num a"
  have m: "unat (a_num a) \<le> length bufs" "0 < unat (a_num a)" "\<And>i. i < unat (a_num a) \<Longrightarrow> buffer_ok a (bufs ! i)"
    using assms(1) by (auto simp: ring_mem_def)
  obtain mem where mem: "b_len (bufs ! unat c) = a_bufsize a" "b_mem (bufs ! unat c) = Some mem"
    "length mem = unat (a_bufsize a)" using m(3) [OF assms(3)] by (auto simp: buffer_ok_def)
  have u: "unat (a_bufsize a - off) = unat (a_bufsize a) - unat off" using assms(5) by (simp add: unat_sub word_le_nat_alt)
  moreover have "unat (a_bufsize a) - unat off < 2 ^ 31" using assms(2) by linarith
  ultimately have ch: "sint (a_bufsize a - off) = int (unat (a_bufsize a) - unat off)"
    by (simp add: sint_uint uint_nat signed_take_bit_int_eq_self)
  obtain D where D: "sint (a_bufsize a - off) = int D" "unat off + D = length mem"
    by (rule that [OF ch]) (use mem(3) assms(5) in simp)
  obtain k where k: "unat (a_num a) = Suc k" using m(2) by (cases "unat (a_num a)") auto
  have d: "ring_dist a ?n \<le> k" using ring_dist_less [OF m(2), of ?n] k by simp
  have "copy_heard (Suc k) a bufs c ?n off len out
      = copy_heard k a bufs ?n ((?n + 1) mod a_num a) 0 (len - min D len) (out @ take (min D len) (drop (unat off) mem))"
    using False assms(3,4) m(1) mem(1,2) D
    by (subst copy_heard.simps) (simp add: list_get_def Let_def min_def not_less)
  then show ?thesis
    using copy_heard_takes [OF assms(1,2) d ring_next(2) [OF assms(3)] assms(4), of 0 "len - min D len"
        "out @ take (min D len) (drop (unat off) mem)"] k by auto
qed

lemma playing_samples_full:
  assumes "ring_filling a" and "unat (a_bufsize a) < 2 ^ 31" and "a_fill a = a_play a"
  shows "output_playing_samples env a len \<noteq> None"
proof -
  obtain bufs where b: "a_bufs a = Some bufs" and m: "ring_mem a bufs" and p: "unat (a_play a) < unat (a_num a)"
    and n: "2 \<le> unat (a_num a)"
    using assms(1) by (auto simp: ring_filling_def ring_mem_def)
  let ?n = "(a_play a + 1) mod a_num a"
  have ne: "?n \<noteq> a_fill a" using ring_next_neq [OF p n] assms(3) by simp
  obtain k where k: "unat (a_num a) = Suc k" using n by (cases "unat (a_num a)") auto
  have d: "ring_dist a c \<le> k" for c using ring_dist_less [of a c] n k by simp
  have bb: "b_len (bufs ! unat (a_play a)) = a_bufsize a" "list_get bufs (a_play a) = Some (bufs ! unat (a_play a))"
    "b_len (bufs ! 0) = a_bufsize a" "list_get bufs 0 = Some (bufs ! 0)"
    using m p by (auto simp: ring_mem_def buffer_ok_def list_get_def)
  have r: "\<exists>c next off' out rest. seek (unat (a_num a)) a bufs (a_play a) off = Some (c, next, off')
      \<and> copy_heard (unat (a_num a)) a bufs c next off' len [] = Some (out, rest)" for off
  proof (cases "off \<le> a_bufsize a")
    case True
    have "seek (unat (a_num a)) a bufs (a_play a) off = Some (a_play a, ?n, off)"
      unfolding k using True bb by (simp add: Let_def)
    moreover have "unat off \<le> unat (a_bufsize a)" using True by (simp add: word_le_nat_alt)
    ultimately show ?thesis using copy_heard_full [OF m assms(2) p ne, of off len "[]"] by fastforce
  next
    case False
    have s: "seek (unat (a_num a)) a bufs (a_play a) off = seek k a bufs ?n (off - a_bufsize a)"
      unfolding k using False bb ne by (simp add: Let_def)
    obtain c off' where c: "seek k a bufs ?n (off - a_bufsize a) = Some (c, (c + 1) mod a_num a, off')"
      "unat c < unat (a_num a)" "c \<noteq> a_fill a" "(c + 1) mod a_num a = a_fill a \<or> unat off' \<le> unat (a_bufsize a)"
      using seek_stops [OF m d ring_next(2) [OF p] ne] by blast
    have "ring_dist a c \<le> unat (a_num a)" using d [of c] k by simp
    from copy_heard_takes [OF m assms(2) this c(2,3,4), of len "[]"] show ?thesis using s c(1) by fastforce
  qed
  show ?thesis
    unfolding output_playing_samples_def Let_def b
    using r [of 0] r [of "(the (snd (output_position env)) - a_time a) * word_of_int (a_mixrate a) div 1000
      * word_of_int (f_channels (a_info a)) * word_of_int (f_bits (a_info a)) div 8"]
    by auto
qed

lemma playing_samples_total:
  assumes "stage_ok k full a"
  shows "output_playing_samples env a len \<noteq> None"
proof (cases "a_status a = DEVICE_OPENED")
  case True
  then have o: "ring_filling a" "unat (a_bufsize a) < 2 ^ 31"
    using assms by (cases k; auto simp: closed_def closing_def split: if_splits)+
  show ?thesis
  proof (cases "a_fill a = a_play a")
    case True
    then show ?thesis by (rule playing_samples_full [OF o])
  next
    case False
    then have r: "ring_ok a" using o(1) ring_ok_filling by blast
    then obtain bufs where "a_bufs a = Some bufs" by (auto simp: ring_ok_def)
    then show ?thesis using playing_samples_value [OF r o(2), of bufs env len] by simp
  qed
qed (simp add: output_playing_samples_def)

lemma playing_pos_total:
  assumes "stage_ok k full a"
  shows "output_playing_pos env a \<noteq> None"
proof (cases "a_status a = DEVICE_CLOSED")
  case False
  then have "ring_filling a \<or> freed_ring a" using assms by (cases k) (auto simp: closed_def closing_def split: if_splits)
  then obtain ps where "a_pos a = Some ps" "unat (a_play a) < length ps" by (auto simp: ring_filling_def freed_ring_def)
  then show ?thesis using False by (simp add: output_playing_pos_def list_get_def split: option.splits)
qed (simp add: output_playing_pos_def)

section \<open>One call as steps\<close>

text \<open>A call of \<open>output_play_samples\<close> on an open device, with the events of its wait, is a sequence of steps: what is
  proved of all interleavings holds of the states it passes through.\<close>

lemma asleep_steps:
  "audio_reach s \<Longrightarrow> de s = DSleep c b p \<Longrightarrow> mixer_contract env \<Longrightarrow> ring_filling (au s) \<Longrightarrow> valid_events (au s) es \<Longrightarrow>
   a_status (au s) = DEVICE_OPENED \<or> a_status (au s) = DEVICE_CLOSING \<Longrightarrow> asleep es (au s) = Some w \<Longrightarrow>
   \<exists>s'. audio_reach s' \<and> au s' = wait_state w
     \<and> de s' = (case w of GoOn d \<Rightarrow> DCopy c b p | Stopped d \<Rightarrow> DIdle | Waiting d \<Rightarrow> DSleep c b p)"
proof (induction es arbitrary: s)
  case Nil
  then show ?case by auto
next
  case (Cons e es)
  have v: "\<forall>c t. e = Played c t \<longrightarrow> unat c < unat (a_num (au s))" using Cons.prems(5) by (auto simp: valid_events_def)
  obtain a where a: "do_event e (au s) = Some a" "ring_filling a" "same_device (au s) a"
    "a_status a = (if e = Closing then DEVICE_CLOSING else a_status (au s))"
    using do_event_ring [OF Cons.prems(4,6) v] by blast
  have va: "valid_events a es" using Cons.prems(5) a(3) by (auto simp: valid_events_def same_device_def)
  have sa: "a_status a = DEVICE_OPENED \<or> a_status a = DEVICE_CLOSING" using a(4) Cons.prems(6) by auto
  have nc: "a_status (au s) \<noteq> DEVICE_CLOSED" using Cons.prems(6) by auto
  show ?case
  proof (cases "e = Woken")
    case False
    obtain s' where s': "audio_reach s'" "au s' = a" "de s' = DSleep c b p"
    proof (cases e)
      case (Played k t)
      then have "audio_step s (s\<lparr>au := a\<rparr>)" using a(1) v nc by (intro audio_step.played [of s k t True]) auto
      then show ?thesis using that [of "s\<lparr>au := a\<rparr>"] reach_step [OF Cons.prems(1)] Cons.prems(2) by simp
    next
      case (Trashing q)
      then have "audio_step s (s\<lparr>au := a\<rparr>)" using a(1)
        by (intro audio_step.command [OF Cons.prems(3), of "OutputTrash q" 0 s a 0]) auto
      then show ?thesis using that [of "s\<lparr>au := a\<rparr>"] reach_step [OF Cons.prems(1)] Cons.prems(2) by simp
    next
      case Closing
      show ?thesis
      proof (cases "close_begin (au s)")
        case None
        then show ?thesis using that [of s] a(1) Closing Cons.prems(1,2) by simp
      next
        case (Some a2)
        then have "a2 = a" using a(1) Closing by simp
        with audio_step.control_close [OF Some] show ?thesis
          using that [of "s\<lparr>au := a, cl := CloseBegun Control\<rparr>"] reach_step [OF Cons.prems(1)] Cons.prems(2) by simp
      qed
    qed (use False in simp)
    have "asleep es (au s') = Some w" using Cons.prems(7) False a(1) s'(2) by simp
    then show ?thesis using Cons.IH [OF s'(1,3) Cons.prems(3)] s'(2) a(2) va sa by simp
  next
    case woken: True
    show ?thesis
    proof (cases "a_played (au s)")
      case False
      then have "a = au s" "asleep es (au s) = Some w" using woken a(1) Cons.prems(7) by auto
      then show ?thesis using Cons.IH [OF Cons.prems(1,2,3)] a(2) va sa by simp
    next
      case True
      let ?s = "s\<lparr>au := (au s)\<lparr>a_played := False\<rparr>, de := (if a_status (au s) \<noteq> DEVICE_OPENED then DIdle else DLoop c b p)\<rparr>"
      have r: "audio_reach ?s" by (rule reach_step [OF Cons.prems(1) audio_step.wake [OF Cons.prems(2) True]])
      have ea: "a = (au s)\<lparr>a_played := False\<rparr>" using woken a(1) by simp
      show ?thesis
      proof (cases "a_status (au s) = DEVICE_OPENED")
        case False
        then have "w = Stopped a" using Cons.prems(7) woken True ea by simp
        then show ?thesis using r False ea by (intro exI [of _ ?s]) simp
      next
        case op: True
        let ?t = "?s\<lparr>de := (if a_fill (au ?s) = a_play (au ?s) then DSleep c b p else DCopy c b p)\<rparr>"
        have "audio_step ?s ?t" by (rule audio_step.loop) (use op in simp)
        then have t: "audio_reach ?t" by (rule reach_step [OF r])
        show ?thesis
        proof (cases "a_fill (au s) = a_play (au s)")
          case False
          then have "w = GoOn a" using Cons.prems(7) woken True op ea by simp
          then show ?thesis using t False ea by (intro exI [of _ ?t]) simp
        next
          case full: True
          then have "asleep es (au ?t) = Some w" using Cons.prems(7) woken True op by simp
          moreover have "ring_filling (au ?t)" "valid_events (au ?t) es" using a(2) va ea by simp_all
          ultimately show ?thesis using Cons.IH [OF t] full Cons.prems(3) op by simp
        qed
      qed
    qed
  qed
qed

lemma play_samples_steps:
  assumes "audio_reach s" and "de s = DIdle" and "opened (au s)" and "mixer_contract env" and "buf \<noteq> []"
    and "valid_events (au s) es" and "output_play_samples env (au s) tid (a_info (au s)) buf pos es = Some (a', n)"
  shows "\<exists>s'. audio_reach s' \<and> au s' = a' \<and> de s' = (case n of None \<Rightarrow> DSleep (a_fill (au s)) buf pos | Some k \<Rightarrow> DIdle)"
proof -
  have o: "a_status (au s) = DEVICE_OPENED" "ring_ok (au s)" using assms(3) by (auto simp: opened_def)
  let ?c = "play_begun (au s) tid" and ?k = "a_fill (au s)"
  have rc: "ring_filling ?c" by (rule play_begun_ring [OF o(2)])
  have i: "a_fill (play_thread (au s) tid) = a_fill (au s)" by simp
  define s1 where "s1 = s\<lparr>au := play_thread (au s) tid, de := DReserve buf pos\<rparr>"
  have "audio_step s s1"
    using audio_step.call [OF assms(2), of "a_info (au s)" buf pos tid] o(1) by (simp add: s1_def)
  then have r1: "audio_reach s1" by (rule reach_step [OF assms(1)])
  define s2 where "s2 = s\<lparr>au := ?c, de := DLoop ?k buf pos, stale := False\<rparr>"
  have "audio_step s1 s2"
    using audio_step.reserve [of s1 buf pos] o(1) assms(5) by (simp add: s1_def s2_def play_begun_def)
  then have r2: "audio_reach s2" by (rule reach_step [OF r1])
  define s3 where "s3 = s2\<lparr>de := (if a_fill ?c = a_play ?c then DSleep ?k buf pos else DCopy ?k buf pos)\<rparr>"
  have "audio_step s2 s3" using audio_step.loop [of s2 ?k buf pos] by (simp add: s2_def s3_def)
  then have r3: "audio_reach s3" by (rule reach_step [OF r2])
  have val: "output_play_samples env (au s) tid (a_info (au s)) buf pos es =
      (case wait_played es ?c of None \<Rightarrow> None | Some (Waiting d) \<Rightarrow> Some (d, None) | Some (Stopped d) \<Rightarrow> Some (d, Some 0)
       | Some (GoOn d) \<Rightarrow> map_option (\<lambda>(a, n). (a, Some n)) (play_copy d ?k buf pos))"
    by (rule play_samples_value [OF o(1) refl assms(5)])
  obtain w where w: "wait_played es ?c = Some w" using val assms(7) by (cases "wait_played es ?c") auto
  have "\<exists>s'. audio_reach s' \<and> au s' = wait_state w
     \<and> de s' = (case w of GoOn d \<Rightarrow> DCopy ?k buf pos | Stopped d \<Rightarrow> DIdle | Waiting d \<Rightarrow> DSleep ?k buf pos)"
  proof (cases "a_fill ?c = a_play ?c")
    case True
    have d3: "de s3 = DSleep ?k buf pos" "au s3 = ?c" using True by (simp_all add: s3_def s2_def)
    have "asleep es ?c = Some w" using w True by (simp add: wait_played_def)
    then show ?thesis
      using asleep_steps [OF r3 d3(1) assms(4), of es w] d3(2) rc o(1) assms(6) by (simp add: valid_events_def)
  next
    case False
    then have "w = GoOn ?c" "de s3 = DCopy ?k buf pos" "au s3 = ?c" using w by (auto simp: wait_played_def s3_def s2_def)
    then show ?thesis using r3 by auto
  qed
  then obtain s4 where s4: "audio_reach s4" "au s4 = wait_state w"
    "de s4 = (case w of GoOn d \<Rightarrow> DCopy ?k buf pos | Stopped d \<Rightarrow> DIdle | Waiting d \<Rightarrow> DSleep ?k buf pos)" by blast
  show ?thesis
  proof (cases w)
    case (GoOn d)
    then have "map_option (\<lambda>(a, n). (a, Some n)) (play_copy d ?k buf pos) = Some (a', n)" using val w assms(7) by simp
    then obtain m where m: "play_copy d ?k buf pos = Some (a', m)" "n = Some m" by (cases "play_copy d ?k buf pos") auto
    have "audio_step s4 (s4\<lparr>au := a', de := DIdle\<rparr>)"
      by (rule audio_step.copy [of s4 ?k buf pos]) (use s4 GoOn m in simp_all)
    then show ?thesis using reach_step [OF s4(1)] m(2) by (intro exI [of _ "s4\<lparr>au := a', de := DIdle\<rparr>"]) simp
  next
    case (Stopped d)
    then show ?thesis using s4 val w assms(7) by (intro exI [of _ s4]) auto
  next
    case (Waiting d)
    then show ?thesis using s4 val w assms(7) by (intro exI [of _ s4]) auto
  qed
qed

section \<open>An example\<close>

definition demo_env :: mci_env where
  "demo_env = \<lparr>rc = (\<lambda>_. 0), dev_id = 1, got_num = 4, got_size = 2, mci_pos = 5, mem_bufs = True, mem_pos = True, set_numbuffers = 16,
     set_kludge = False, set_noprecpos = False, set_logvolume = False, unsupp_format = 7, out_of_memory = 8,
     log_level = (\<lambda>v. v)\<rparr>"

definition demo_format :: format_info where
  "demo_format = \<lparr>f_size = 20, f_samplerate = 44100, f_channels = 2, f_bits = 16, f_format = 1\<rparr>"

definition demo :: os2audio where
  "demo = fst (output_open demo_env (output_init\<lparr>a_info := demo_format\<rparr>))"

lemma demo_contract: "mixer_contract demo_env"
  by (simp add: mixer_contract_def demo_env_def limit2_def)

lemma demo_closed: "closed (output_init\<lparr>a_info := demo_format\<rparr>)"
  by (simp add: closed_def output_init_def)

lemma demo_open: "output_open demo_env (output_init\<lparr>a_info := demo_format\<rparr>) = (demo, 0)"
proof -
  have "snd (output_open demo_env (output_init\<lparr>a_info := demo_format\<rparr>)) = 0" by code_simp
  then show ?thesis unfolding demo_def by (metis prod.collapse)
qed

lemma demo_opened: "opened demo" "a_play demo = 0" "a_fill demo = 2" "a_nomore demo" "a_num demo = 4" "a_info demo = demo_format"
proof -
  have "got_num demo_env = 4" "a_info (output_init\<lparr>a_info := demo_format\<rparr>) = demo_format" by (simp_all add: demo_env_def)
  with open_result [OF demo_contract demo_closed] show "opened demo" "a_play demo = 0" "a_fill demo = 2" "a_nomore demo"
    "a_num demo = 4" "a_info demo = demo_format" unfolding demo_open by auto
qed

lemma demo_status: "a_status demo = DEVICE_OPENED" "ring_ok demo"
  using demo_opened(1) by (auto simp: opened_def)

lemma demo_fields: "a_bufsize demo = 2" "\<not> a_trashed demo" "a_high demo = 7" "a_low demo = 4" "\<not> a_noprecpos demo"
  by code_simp+

lemma demo_boosted: "\<not> a_boosted demo" "a_thread demo = 0"
  by code_simp+

section \<open>Properties\<close>


text \<open>A run in which the decoder has reserved a buffer and the control thread closes the device: before the
  close, after the memory of the mixer has been freed, and after the close, where the decoder goes on with a buffer
  that does not exist any more.\<close>

lemma demo_runs:
  "\<exists>s1 s2 s3. audio_reach s1 \<and> live s1 \<and> au s1 = demo\<lparr>a_fill := 3\<rparr> \<and> de s1 = DCopy 2 ''ab'' 7 \<and> \<not> stale s1
     \<and> audio_reach s2 \<and> \<not> live s2 \<and> a_num (au s2) = 4
     \<and> audio_reach s3 \<and> live s3 \<and> de s3 = DCopy 2 ''ab'' 7 \<and> play_copy (au s3) 2 ''ab'' 7 = None"
proof -
  define s0 where "s0 = \<lparr>au = output_init, cl = NotClosing, de = DIdle, stale = False\<rparr>"
  have r0: "audio_reach s0" unfolding s0_def by (rule reach_init)
  have i: "a_status output_init = DEVICE_CLOSED" "play_thread output_init 0 = output_init" "close_begin output_init = None"
    by (simp_all add: output_init_def play_thread_def close_begin_def)
  define s1 where "s1 = s0\<lparr>de := DClose demo_format ''ab'' 7\<rparr>"
  have r1: "audio_reach s1"
    using reach_step [OF r0 audio_step.call [of s0 demo_format "''ab''" 7 0]] i by (simp add: s0_def s1_def)
  define s2 where "s2 = s0\<lparr>de := DOpen demo_format ''ab'' 7\<rparr>"
  have r2: "audio_reach s2"
    using reach_step [OF r1 audio_step.no_close [of s1 demo_format "''ab''" 7]] i by (simp add: s0_def s1_def s2_def)
  define s3 where "s3 = s0\<lparr>au := demo, de := DReserve ''ab'' 7\<rparr>"
  have r3: "audio_reach s3"
    using reach_step [OF r2 audio_step.reopen [of s2 demo_format "''ab''" 7 demo_env demo 0]] demo_open demo_contract
    by (simp add: s0_def s2_def s3_def)
  define s4 where "s4 = s0\<lparr>au := demo\<lparr>a_fill := 3\<rparr>, de := DLoop 2 ''ab'' 7\<rparr>"
  have r4: "audio_reach s4"
    using reach_step [OF r3 audio_step.reserve [of s3 "''ab''" 7]] demo_status by (simp add: s0_def s3_def s4_def demo_opened)
  define s5 where "s5 = s0\<lparr>au := demo\<lparr>a_fill := 3\<rparr>, de := DCopy 2 ''ab'' 7\<rparr>"
  have r5: "audio_reach s5"
    using reach_step [OF r4 audio_step.loop [of s4 2 "''ab''" 7]] by (simp add: s0_def s4_def s5_def demo_opened)
  obtain a where a: "close_begin (demo\<lparr>a_fill := 3\<rparr>) = Some a" "a = demo\<lparr>a_fill := 3, a_status := DEVICE_CLOSING, a_played := True\<rparr>"
    by (simp add: close_begin_def demo_status)
  define s6 where "s6 = s5\<lparr>au := a, cl := CloseBegun Control\<rparr>"
  have r6: "audio_reach s6"
    using reach_step [OF r5 audio_step.control_close [of s5 a]] a(1) by (simp add: s5_def s6_def)
  have z: "LOUSHORT (rc demo_env McBufFree) = 0" by code_simp
  define s7 where "s7 = s6\<lparr>au := close_commands demo_env a, cl := CloseDone Control True (rc demo_env McClose)\<rparr>"
  have r7: "audio_reach s7"
    using reach_step [OF r6 audio_step.commands [of s6 Control demo_env]] z by (simp add: s6_def s7_def)
  define s8 where "s8 = s7\<lparr>au := close_end (close_commands demo_env a), cl := NotClosing, stale := True\<rparr>"
  have r8: "audio_reach s8"
    using reach_step [OF r7 audio_step.finish_close [of s7 Control True "rc demo_env McClose"]] by (simp add: s7_def s8_def s6_def s5_def s0_def)
  have tr: "\<not> a_trashed (close_end (close_commands demo_env a))"
    using demo_fields(2) by (simp add: a(2) close_end_def close_commands_def check_def free_mem_def output_error_def say_def Let_def)
  have "play_copy (au s8) 2 ''ab'' 7 = None" using tr by (simp add: s8_def play_copy_def)
  then show ?thesis using r5 r7 r8
    by (intro exI [of _ s5] exI [of _ s7] exI [of _ s8])
      (simp add: s5_def s6_def s7_def s8_def s0_def live_def close_commands_sel a(2) demo_opened)
qed


text \<open>C10: with a mixer that keeps its promises \<open>output_open\<close> on a closed device opens it with a well formed
  ring, buffer 0 being played and buffer 2 next to fill, or reports the error and leaves the device closed
  with no buffers; on any other device it does nothing. \<open>output_close\<close> frees everything.\<close>

theorem open_close_correct:
  assumes "mixer_contract env"
  shows "(closed a \<longrightarrow>
      (\<exists>a'. output_open env a = (a', 0) \<and> opened a' \<and> a_play a' = 0 \<and> a_fill a' = 2 \<and> \<not> output_playing_data a'
        \<and> a_num a' = got_num env \<and> a_info a' = a_info a)
      \<or> (\<exists>a' r. output_open env a = (a', r) \<and> r \<noteq> 0 \<and> closed a' \<and> MciError r \<in> set (a_msgs a')))
    \<and> (a_status a \<noteq> DEVICE_CLOSED \<longrightarrow> output_open env a = (a, 0))
    \<and> (opened a \<longrightarrow> closed (fst (output_close env a)) \<and> snd (output_close env a) = rc env McClose)
    \<and> (opened a \<or> closed a \<longrightarrow> closed (output_uninit env a))
    \<and> (closed a \<or> closing a \<longrightarrow> output_close env a = (a, 0))"
proof (intro conjI impI)
  assume "closed a"
  from open_result [OF assms this] show "(\<exists>a'. output_open env a = (a', 0) \<and> opened a' \<and> a_play a' = 0 \<and> a_fill a' = 2
        \<and> \<not> output_playing_data a' \<and> a_num a' = got_num env \<and> a_info a' = a_info a)
      \<or> (\<exists>a' r. output_open env a = (a', r) \<and> r \<noteq> 0 \<and> closed a' \<and> MciError r \<in> set (a_msgs a'))"
    by (simp add: output_playing_data_def)
next
  assume "opened a"
  then show "closed (fst (output_close env a))" "snd (output_close env a) = rc env McClose"
    by (simp_all add: opened_def output_close_def close_begin_def close_end_closed)
next
  assume "opened a \<or> closed a"
  then show "closed (output_uninit env a)"
    by (auto simp: output_uninit_def opened_def output_close_def close_begin_def close_end_closed closed_def device_defs)
qed (auto simp: output_open_def output_close_def close_begin_def closed_def closing_def device_defs)

lemma open_close_correct_witness:
  "output_open demo_env (output_init\<lparr>a_info := demo_format\<rparr>) = (demo, 0) \<and> opened demo \<and> closed (fst (output_close demo_env demo))"
  using open_close_correct [OF demo_contract, of demo] demo_opened(1) demo_open by simp

text \<open>C11: when the mixer has played buffer \<open>c\<close>, \<open>dart_event\<close> makes the following buffer the playing one,
  notes the time, silences buffer \<open>c\<close>, gives it the position of its predecessor, posts \<open>dataplayed\<close> and keeps
  the ring well formed; the number of filled buffers is the unsigned difference modulo the number of
  buffers, for every number of them. When it is at most the low water mark and data is still to come, the
  decoder thread is boosted, otherwise, when it reaches the high water mark, the thread gets its normal
  priority back, each at most once. When no buffer is filled, the player is told, the mark for missing data
  is set and playing goes on with the next buffer; otherwise \<open>buf_to_fill\<close> stays. If the number of buffers
  is a power of two, no buffer is filled exactly when the one to fill is being played. An event that is
  not the completion of a buffer does nothing.\<close>

theorem dart_event_correct:
  assumes "ring_filling a" and "unat c < unat (a_num a)" and "a_bufs a = Some bufs" and "a_pos a = Some ps"
    and "p = (c + 1) mod a_num a" and "left = (a_fill a - p) mod a_num a"
    and "low \<longleftrightarrow> sint left \<le> a_low a \<and> \<not> a_nomore a" and "high \<longleftrightarrow> \<not> low \<and> sint left \<ge> a_high a"
  shows "dart_event a c t False = Some a
    \<and> (\<exists>a'. dart_event a c t True = Some a' \<and> ring_ok a' \<and> same_device a a' \<and> a_status a' = a_status a
      \<and> a_time a' = t \<and> a_played a' \<and> a_play a' = p
      \<and> a_bufs a' = Some (bufs[unat c := (bufs ! unat c)\<lparr>b_mem := Some (replicate (unat (a_bufsize a)) NUL)\<rparr>])
      \<and> a_pos a' = Some (ps[unat c := ps ! unat ((c - 1) mod a_num a)])
      \<and> a_fill a' = (if left = 0 then (p + 1) mod a_num a else a_fill a)
      \<and> a_nomore a' = (a_nomore a \<or> left = 0) \<and> a_trashed a' = a_trashed a \<and> a_thread a' = a_thread a
      \<and> a_boosted a' = (if low \<and> a_thread a \<noteq> 0 then True else if high \<and> a_thread a \<noteq> 0 then False else a_boosted a)
      \<and> a_msgs a' = a_msgs a @ (if a_boosted a' \<noteq> a_boosted a then [Priority (a_thread a) (a_boosted a')] else [])
          @ (if left = 0 then [OutOfData] else []))
    \<and> (unat (a_num a) dvd 2 ^ 32 \<longrightarrow> (left = 0 \<longleftrightarrow> a_fill a = p) \<and> uint left = (uint (a_fill a) - uint p) mod uint (a_num a))"
proof (intro conjI)
  show "dart_event a c t False = Some a" by (simp add: dart_event_def)
  let ?r = "(dart_indices a c t)\<lparr>
      a_bufs := Some (bufs[unat c := (bufs ! unat c)\<lparr>b_mem := Some (replicate (unat (a_bufsize a)) NUL)\<rparr>]),
      a_pos := Some (ps[unat c := ps ! unat ((c - 1) mod a_num a)]), a_played := True\<rparr>"
  have e: "dart_event a c t True = Some ?r" by (rule dart_event_value [OF assms(1-4)])
  from dart_event_ring [OF assms(1,2), of t] have ring: "ring_ok ?r" unfolding e by auto
  have fb: "filled_buffers (a\<lparr>a_play := p, a_time := t\<rparr>) = left" using assms(6) by (simp add: filled_buffers_def)
  have di: "dart_indices a c t =
      (let a = a\<lparr>a_play := p, a_time := t\<rparr>;
           a = (if low then output_boost_priority a else if high then output_normal_priority a else a)
       in if left = 0 then say OutOfData (a\<lparr>a_fill := (p + 1) mod a_num a, a_nomore := True\<rparr>) else a)"
  proof -
    have hi: "(if low then x else if high then y else z) = (if low then x else if sint left \<ge> a_high a then y else z)" for x y z :: os2audio
      using assms(8) by simp
    show ?thesis
      unfolding dart_indices_def Let_def assms(5) [symmetric] fb hi using assms(7) by (simp add: signed_eq_0_iff)
  qed
  have priority: "a_boosted (dart_indices a c t) = (if low \<and> a_thread a \<noteq> 0 then True else if high \<and> a_thread a \<noteq> 0 then False else a_boosted a)"
    "a_msgs (dart_indices a c t) = a_msgs a
       @ (if a_boosted (dart_indices a c t) \<noteq> a_boosted a then [Priority (a_thread a) (a_boosted (dart_indices a c t))] else [])
       @ (if left = 0 then [OutOfData] else [])"
    unfolding di using assms(8) by (auto simp: output_boost_priority_def output_normal_priority_def say_def Let_def)
  have others: "a_time (dart_indices a c t) = t" "a_thread (dart_indices a c t) = a_thread a"
    "a_nomore (dart_indices a c t) = (a_nomore a \<or> left = 0)"
    "a_fill (dart_indices a c t) = (if left = 0 then (p + 1) mod a_num a else a_fill a)"
    unfolding di by (simp_all add: output_boost_priority_def output_normal_priority_def say_def Let_def)
  show "\<exists>a'. dart_event a c t True = Some a' \<and> ring_ok a' \<and> same_device a a' \<and> a_status a' = a_status a
      \<and> a_time a' = t \<and> a_played a' \<and> a_play a' = p
      \<and> a_bufs a' = Some (bufs[unat c := (bufs ! unat c)\<lparr>b_mem := Some (replicate (unat (a_bufsize a)) NUL)\<rparr>])
      \<and> a_pos a' = Some (ps[unat c := ps ! unat ((c - 1) mod a_num a)])
      \<and> a_fill a' = (if left = 0 then (p + 1) mod a_num a else a_fill a)
      \<and> a_nomore a' = (a_nomore a \<or> left = 0) \<and> a_trashed a' = a_trashed a \<and> a_thread a' = a_thread a
      \<and> a_boosted a' = (if low \<and> a_thread a \<noteq> 0 then True else if high \<and> a_thread a \<noteq> 0 then False else a_boosted a)
      \<and> a_msgs a' = a_msgs a @ (if a_boosted a' \<noteq> a_boosted a then [Priority (a_thread a) (a_boosted a')] else [])
          @ (if left = 0 then [OutOfData] else [])"
    using e ring priority others assms(5) by (intro exI [of _ ?r]) (simp add: same_device_def)
  have lt: "unat (a_fill a) < unat (a_num a)" "unat p < unat (a_num a)"
    using assms(1,5) ring_next(2) [OF assms(2)] by (auto simp: ring_filling_def)
  show "unat (a_num a) dvd 2 ^ 32 \<longrightarrow> (left = 0 \<longleftrightarrow> a_fill a = p) \<and> uint left = (uint (a_fill a) - uint p) mod uint (a_num a)"
  proof (intro impI conjI)
    assume d: "unat (a_num a) dvd 2 ^ 32"
    show "left = 0 \<longleftrightarrow> a_fill a = p" unfolding assms(6) by (rule iffI, rule filled_zero [OF d lt]) simp_all
    show "uint left = (uint (a_fill a) - uint p) mod uint (a_num a)"
      unfolding assms(6) by (rule filled_mod [OF d]) (use lt(1) in simp)
  qed
qed

text \<open>One buffer of four left with low mark 4: a boost; with high mark 1 and no missing data: back to normal; none
  left: out of data.\<close>

lemma dart_event_correct_witness:
  "(\<exists>a'. dart_event (demo\<lparr>a_thread := 5, a_nomore := False\<rparr>) 0 9 True = Some a' \<and> a_boosted a'
      \<and> a_msgs a' = a_msgs demo @ [Priority 5 True] \<and> a_fill a' = 2)
   \<and> (\<exists>a'. dart_event (demo\<lparr>a_thread := 5, a_boosted := True, a_high := 1\<rparr>) 0 9 True = Some a' \<and> \<not> a_boosted a'
      \<and> a_msgs a' = a_msgs demo @ [Priority 5 False])
   \<and> (\<exists>a'. dart_event demo 1 9 True = Some a' \<and> a_play a' = 2 \<and> a_fill a' = 3 \<and> a_nomore a' \<and> ring_ok a'
      \<and> a_msgs a' = a_msgs demo @ [OutOfData])"
proof (intro conjI)
  obtain bufs ps where b: "a_bufs demo = Some bufs" "a_pos demo = Some ps"
    using demo_status(2) by (auto simp: ring_ok_def)
  have r: "ring_filling demo" using demo_status(2) ring_ok_filling by blast
  have left: "(a_fill demo - (0 + 1) mod a_num demo) mod a_num demo = 1" "(a_fill demo - (1 + 1) mod a_num demo) mod a_num demo = 0"
    by (simp_all add: demo_opened)
  have f: "ring_filling (demo\<lparr>a_thread := 5, a_nomore := False\<rparr>)" "ring_filling (demo\<lparr>a_thread := 5, a_boosted := True, a_high := 1\<rparr>)"
    using r by (simp_all add: ring_filling_def buffer_ok_def)
  have lt: "unat (0 :: ulong) < unat (a_num demo)" "unat (1 :: ulong) < unat (a_num demo)" by (simp_all add: demo_opened)
  show "\<exists>a'. dart_event (demo\<lparr>a_thread := 5, a_nomore := False\<rparr>) 0 9 True = Some a' \<and> a_boosted a'
      \<and> a_msgs a' = a_msgs demo @ [Priority 5 True] \<and> a_fill a' = 2"
    using dart_event_correct [OF f(1) _ _ _ refl refl refl refl, of 0 bufs ps 9] b left lt(1) demo_boosted
    by (auto simp: demo_opened demo_fields)
  show "\<exists>a'. dart_event (demo\<lparr>a_thread := 5, a_boosted := True, a_high := 1\<rparr>) 0 9 True = Some a' \<and> \<not> a_boosted a'
      \<and> a_msgs a' = a_msgs demo @ [Priority 5 False]"
    using dart_event_correct [OF f(2) _ _ _ refl refl refl refl, of 0 bufs ps 9] b left lt(1)
    by (auto simp: demo_opened demo_fields)
  show "\<exists>a'. dart_event demo 1 9 True = Some a' \<and> a_play a' = 2 \<and> a_fill a' = 3 \<and> a_nomore a' \<and> ring_ok a'
      \<and> a_msgs a' = a_msgs demo @ [OutOfData]"
    using dart_event_correct [OF r lt(2) b refl refl refl refl, of 9] left demo_boosted
    by (auto simp: demo_opened demo_fields)
qed

text \<open>C5: one call of \<open>output_play_samples\<close> on an open device of the same format, with every order of events
  while it waits: buffers that are played, trashes, the start of a close, and the processor being given to
  the thread. The call waits only when the ring is full after the buffer for the samples has been
  reserved. If it need not wait, or goes on because a buffer has become free before a close, the samples
  are treated in the state \<open>d\<close> at that moment: they are discarded when the buffers have been trashed
  before or during the wait, refused when they are longer than a buffer, and otherwise stored in the
  reserved buffer with their position (\<open>samples_taken\<close>). If a close has started, nothing is stored and the
  result is 0. It still waits only if it was never given the processor after a buffer was played or a close
  started. In a full ring of a power of two buffers that is played in order, the samples go to a buffer that is not the one
  played next; after a trash during the wait they are dropped and the ring stays silent.\<close>

theorem play_samples_correct:
  assumes "opened a" and "fmt = a_info a" and "buf \<noteq> []" and "valid_events a es"
  shows "((a_fill a + 1) mod a_num a \<noteq> a_play a \<longrightarrow>
      (\<exists>a' n. output_play_samples env a tid fmt buf pos es = Some (a', Some n) \<and> opened a'
        \<and> samples_taken (play_begun a tid) (a_fill a) buf pos a' n))
    \<and> ((a_fill a + 1) mod a_num a = a_play a \<longrightarrow>
      (\<exists>es1 es2 d. es = es1 @ es2 \<and> run_events es1 (play_begun a tid) = Some d \<and> same_device a d \<and> ring_filling d
        \<and> (a_trashed d \<longleftrightarrow> a_trashed a \<or> (\<exists>q. Trashing q \<in> set es1))
        \<and> (output_play_samples env a tid fmt buf pos es = Some (d, None) \<and> es2 = []
             \<and> (\<forall>xs ys e. es = xs @ Woken # ys \<and> e \<in> set xs \<longrightarrow> \<not> is_played e \<and> e \<noteq> Closing)
           \<or> output_play_samples env a tid fmt buf pos es = Some (d, Some 0) \<and> Closing \<in> set es1 \<and> closing d
           \<or> (\<exists>a' n. output_play_samples env a tid fmt buf pos es = Some (a', Some n) \<and> Closing \<notin> set es1
                \<and> a_fill d \<noteq> a_play d \<and> samples_taken d (a_fill a) buf pos a' n \<and> opened a'))))
    \<and> ((a_fill a + 1) mod a_num a = a_play a \<and> unat (a_num a) dvd 2 ^ 32 \<and> es = Played (a_play a) t # Woken # es' \<longrightarrow>
      (\<exists>d a' n. output_play_samples env a tid fmt buf pos es = Some (a', Some n) \<and> samples_taken d (a_fill a) buf pos a' n
        \<and> a_trashed d = a_trashed a \<and> a_fill a' = (a_fill a + 1) mod a_num a
        \<and> a_play a' = (a_play a + 1) mod a_num a \<and> a_play a' \<noteq> a_fill a))
    \<and> ((a_fill a + 1) mod a_num a = a_play a \<and> es = Trashing q # Played (a_play a) t # Woken # es' \<longrightarrow>
      (\<exists>a' bufs. output_play_samples env a tid fmt buf pos es = Some (a', Some (int (length buf))) \<and> \<not> a_trashed a'
        \<and> a_bufs a' = Some bufs
        \<and> (\<forall>i < unat (a_num a). b_mem (bufs ! i) = Some (replicate (unat (a_bufsize a)) NUL))))"
proof -
  have o: "a_status a = DEVICE_OPENED" "ring_ok a" "unat (a_bufsize a) < 2 ^ 31" using assms(1) by (auto simp: opened_def)
  let ?c = "play_begun a tid"
  have n: "3 \<le> unat (a_num a)" "unat (a_fill a) < unat (a_num a)" "unat (a_play a) < unat (a_num a)"
    using o(2) by (auto simp: ring_ok_def)
  have rc: "ring_filling ?c" by (rule play_begun_ring [OF o(2)])
  have vc: "valid_events ?c es" using assms(4) by (simp add: valid_events_def)
  have sc: "a_status ?c = DEVICE_OPENED" "same_device a ?c" using o(1) by (simp_all add: same_device_def)
  note go = play_samples_go_on [OF o assms(2,3)]
  note full = play_samples_full [OF assms(1-3) vc]
  show ?thesis
  proof (intro conjI impI)
    assume "(a_fill a + 1) mod a_num a \<noteq> a_play a"
    then have "wait_played es ?c = Some (GoOn ?c)" "a_fill ?c \<noteq> a_play ?c" by (simp_all add: wait_played_def)
    from go [OF this(1) rc sc(2,1) this(2)]
    show "\<exists>a' n. output_play_samples env a tid fmt buf pos es = Some (a', Some n) \<and> opened a'
        \<and> samples_taken ?c (a_fill a) buf pos a' n" .
  next
    assume "(a_fill a + 1) mod a_num a = a_play a"
    from full [OF this] show "\<exists>es1 es2 d. es = es1 @ es2 \<and> run_events es1 (play_begun a tid) = Some d \<and> same_device a d \<and> ring_filling d
        \<and> (a_trashed d \<longleftrightarrow> a_trashed a \<or> (\<exists>q. Trashing q \<in> set es1))
        \<and> (output_play_samples env a tid fmt buf pos es = Some (d, None) \<and> es2 = []
             \<and> (\<forall>xs ys e. es = xs @ Woken # ys \<and> e \<in> set xs \<longrightarrow> \<not> is_played e \<and> e \<noteq> Closing)
           \<or> output_play_samples env a tid fmt buf pos es = Some (d, Some 0) \<and> Closing \<in> set es1 \<and> closing d
           \<or> (\<exists>a' n. output_play_samples env a tid fmt buf pos es = Some (a', Some n) \<and> Closing \<notin> set es1
                \<and> a_fill d \<noteq> a_play d \<and> samples_taken d (a_fill a) buf pos a' n \<and> opened a'))" .
  next
    assume e: "(a_fill a + 1) mod a_num a = a_play a \<and> unat (a_num a) dvd 2 ^ 32 \<and> es = Played (a_play a) t # Woken # es'"
    obtain d where d: "wait_played es ?c = Some (GoOn d)" "ring_filling d" "same_device a d" "a_status d = DEVICE_OPENED"
      "a_fill d = a_play a" "a_play d = (a_play a + 1) mod a_num a" "a_trashed d = a_trashed a"
      using wait_in_order [OF o(1,2), where t = t and tid = tid and es' = es'] e by blast
    have "2 \<le> unat (a_num a)" using n(1) by simp
    then have fp: "a_fill d \<noteq> a_play d" using d(5,6) ring_next_neq [OF n(3)] by simp
    obtain a' k where a': "output_play_samples env a tid fmt buf pos es = Some (a', Some k)" "samples_taken d (a_fill a) buf pos a' k"
      using go [OF d(1-4) fp] by blast
    have "unat (a_fill a) < unat (a_num d)" using n(2) d(3) by (simp add: same_device_def)
    note t = taken_ring [OF d(2) this a'(2)]
    have "(a_play a + 1) mod a_num a \<noteq> a_fill a"
    proof
      assume "(a_play a + 1) mod a_num a = a_fill a"
      then have "unat (a_fill a) = (unat (a_play a) + 1) mod unat (a_num a)" "unat (a_play a) = (unat (a_fill a) + 1) mod unat (a_num a)"
        using ring_next(1) [OF n(3)] ring_next(1) [OF n(2)] e by auto
      then show False using n(1-3) by (auto simp: mod_if split: if_splits)
    qed
    then show "\<exists>d a' n. output_play_samples env a tid fmt buf pos es = Some (a', Some n) \<and> samples_taken d (a_fill a) buf pos a' n
        \<and> a_trashed d = a_trashed a \<and> a_fill a' = (a_fill a + 1) mod a_num a
        \<and> a_play a' = (a_play a + 1) mod a_num a \<and> a_play a' \<noteq> a_fill a"
      using a' t(4,5) d(5-7) e by (intro exI [of _ d] exI [of _ a'] exI [of _ k]) simp
  next
    assume e: "(a_fill a + 1) mod a_num a = a_play a \<and> es = Trashing q # Played (a_play a) t # Woken # es'"
    obtain d bufs where d: "wait_played es ?c = Some (GoOn d)" "ring_filling d" "same_device a d" "a_status d = DEVICE_OPENED"
      "a_fill d \<noteq> a_play d" "a_trashed d" "a_bufs d = Some bufs"
      "\<And>i. i < unat (a_num a) \<Longrightarrow> b_mem (bufs ! i) = Some (replicate (unat (a_bufsize a)) NUL)"
      using wait_trashed [OF o(1,2), where q = q and t = t and tid = tid and es' = es'] e by blast
    obtain a' k where "output_play_samples env a tid fmt buf pos es = Some (a', Some k)" "samples_taken d (a_fill a) buf pos a' k"
      using go [OF d(1-5)] by blast
    then show "\<exists>a' bufs. output_play_samples env a tid fmt buf pos es = Some (a', Some (int (length buf))) \<and> \<not> a_trashed a'
        \<and> a_bufs a' = Some bufs
        \<and> (\<forall>i < unat (a_num a). b_mem (bufs ! i) = Some (replicate (unat (a_bufsize a)) NUL))"
      using d(6,7,8) by (auto simp: samples_taken_def)
  qed
qed

text \<open>A ring of four buffers: there is room; then it is full (buffer 3 is next), the call waits, is stopped by a
  close, or drops its samples after a trash.\<close>

lemma play_samples_correct_witness:
  "(\<exists>a'. output_play_samples demo_env demo 1 demo_format ''ab'' 7 [] = Some (a', Some 2) \<and> opened a' \<and> a_fill a' = 3
      \<and> map_option (\<lambda>bufs. b_mem (bufs ! 2)) (a_bufs a') = Some (Some ''ab''))
   \<and> (\<exists>a'. output_play_samples demo_env (demo\<lparr>a_fill := 3\<rparr>) 1 demo_format ''ab'' 7 [Closing, Woken] = Some (a', Some 0) \<and> closing a')
   \<and> (\<exists>a' n. output_play_samples demo_env (demo\<lparr>a_fill := 3\<rparr>) 1 demo_format ''ab'' 7 [Played 0 5, Woken] = Some (a', Some n)
      \<and> a_play a' = 1 \<and> a_fill a' = 0)
   \<and> (\<exists>a'. output_play_samples demo_env (demo\<lparr>a_fill := 3\<rparr>) 1 demo_format ''ab'' 7 [Trashing 9, Played 0 5, Woken] = Some (a', Some 2)
      \<and> \<not> a_trashed a')"
proof (intro conjI)
  let ?f = "demo\<lparr>a_fill := 3\<rparr>"
  have f: "opened ?f" using demo_opened demo_status by (auto simp: opened_def ring_ok_def buffer_ok_def)
  have i: "demo_format = a_info demo" "demo_format = a_info ?f" by (simp_all add: demo_opened)
  have full: "(a_fill ?f + 1) mod a_num ?f = a_play ?f" "(a_fill demo + 1) mod a_num demo \<noteq> a_play demo"
    by (simp_all add: demo_opened)
  have b: "''ab'' \<noteq> []" by simp
  have v: "valid_events demo []" "valid_events ?f [Closing, Woken]" "valid_events ?f [Played 0 5, Woken]"
    "valid_events ?f [Trashing 9, Played 0 5, Woken]"
    by (simp_all add: valid_events_def demo_opened)
  obtain bufs where bufs: "a_bufs demo = Some bufs" "4 \<le> length bufs"
    using demo_status(2) by (auto simp: ring_ok_def demo_opened)
  have "buffer_ok demo (bufs ! 2)" using demo_status(2) bufs by (auto simp: ring_ok_def demo_opened)
  then obtain m where m: "b_mem (bufs ! 2) = Some m" "length m = 2" by (auto simp: buffer_ok_def demo_fields)
  obtain a' n where "output_play_samples demo_env demo 1 demo_format ''ab'' 7 [] = Some (a', Some n)" "opened a'"
    "samples_taken (play_begun demo 1) (a_fill demo) ''ab'' 7 a' n"
    using play_samples_correct [OF demo_opened(1) i(1) b v(1), of demo_env 1 7, THEN conjunct1, THEN mp, OF full(2)] by blast
  then show "\<exists>a'. output_play_samples demo_env demo 1 demo_format ''ab'' 7 [] = Some (a', Some 2) \<and> opened a' \<and> a_fill a' = 3
      \<and> map_option (\<lambda>bufs. b_mem (bufs ! 2)) (a_bufs a') = Some (Some ''ab'')"
    using bufs m by (auto simp: samples_taken_def demo_opened demo_fields)
  obtain es1 es2 d where d: "[Closing, Woken] = es1 @ es2" "run_events es1 (play_begun ?f 1) = Some d"
    and out: "(\<forall>xs ys e. [Closing, Woken] = xs @ Woken # ys \<and> e \<in> set xs \<longrightarrow> \<not> is_played e \<and> e \<noteq> Closing)
      \<or> output_play_samples demo_env ?f 1 demo_format ''ab'' 7 [Closing, Woken] = Some (d, Some 0) \<and> closing d
      \<or> Closing \<notin> set es1 \<and> a_fill d \<noteq> a_play d"
    using play_samples_correct [OF f i(2) b v(2), of demo_env 1 7, THEN conjunct2, THEN conjunct1, THEN mp, OF full(1)] by blast
  have "\<not> (\<forall>xs ys e. [Closing, Woken] = xs @ Woken # ys \<and> e \<in> set xs \<longrightarrow> \<not> is_played e \<and> e \<noteq> Closing)"
  proof
    assume "\<forall>xs ys e. [Closing, Woken] = xs @ Woken # ys \<and> e \<in> set xs \<longrightarrow> \<not> is_played e \<and> e \<noteq> Closing"
    from this [rule_format, of "[Closing]" "[]" Closing] show False by simp
  qed
  moreover have "\<not> (Closing \<notin> set es1 \<and> a_fill d \<noteq> a_play d)"
    using d full(1) by (cases es1) auto
  ultimately show "\<exists>a'. output_play_samples demo_env ?f 1 demo_format ''ab'' 7 [Closing, Woken] = Some (a', Some 0) \<and> closing a'"
    using out by blast
  have p: "(a_fill ?f + 1) mod a_num ?f = a_play ?f \<and> unat (a_num ?f) dvd 2 ^ 32
      \<and> [Played 0 5, Woken] = Played (a_play ?f) 5 # Woken # []"
    using full(1) by (simp add: demo_opened)
  obtain d a' n where "output_play_samples demo_env ?f 1 demo_format ''ab'' 7 [Played 0 5, Woken] = Some (a', Some n)"
    "samples_taken d (a_fill ?f) ''ab'' 7 a' n" "a_trashed d = a_trashed ?f" "a_fill a' = (a_fill ?f + 1) mod a_num ?f"
    "a_play a' = (a_play ?f + 1) mod a_num ?f"
    using play_samples_correct [OF f i(2) b v(3), of demo_env 1 7 5 "[]", THEN conjunct2, THEN conjunct2, THEN conjunct1, THEN mp, OF p] by blast
  moreover have "a_fill ?f + 1 = 4 \<and> a_play ?f = 0 \<and> a_num ?f = 4" by (simp add: demo_opened)
  ultimately have o: "output_play_samples demo_env ?f 1 demo_format ''ab'' 7 [Played 0 5, Woken] = Some (a', Some n)"
    "a_fill a' = 0" "a_play a' = 1" by simp_all
  then show "\<exists>a' n. output_play_samples demo_env ?f 1 demo_format ''ab'' 7 [Played 0 5, Woken] = Some (a', Some n)
      \<and> a_play a' = 1 \<and> a_fill a' = 0" by blast
  have q: "(a_fill ?f + 1) mod a_num ?f = a_play ?f \<and> [Trashing 9, Played 0 5, Woken] = Trashing 9 # Played (a_play ?f) 5 # Woken # []"
    using full(1) by (simp add: demo_opened)
  show "\<exists>a'. output_play_samples demo_env ?f 1 demo_format ''ab'' 7 [Trashing 9, Played 0 5, Woken] = Some (a', Some 2)
      \<and> \<not> a_trashed a'"
    using play_samples_correct [OF f i(2) b v(4), of demo_env 1 7 5 "[]" 9, THEN conjunct2, THEN conjunct2, THEN conjunct2, THEN mp, OF q] by auto
qed

text \<open>C6: \<open>output_playing_samples\<close> finds the bytes that are heard now: from the current offset on it copies what waits in the
  ring, in playing order and up to the requested length, and fills up with zeros; the unsigned
  comparison of its offset never makes it leave the buffers.\<close>

theorem playing_samples_correct:
  assumes "opened a" and "a_bufs a = Some bufs" and "\<not> a_nomore a" and "a_noprecpos a \<or> fst (output_position env) = 0"
  shows "output_playing_samples env a len =
      Some (Some (take len (drop (play_offset env a) (waiting_bytes a bufs (a_play a)) @ replicate len NUL)))"
proof -
  have o: "ring_ok a" "unat (a_bufsize a) < 2 ^ 31" "a_status a = DEVICE_OPENED" using assms(1) by (auto simp: opened_def)
  show ?thesis using playing_samples_value [OF o(1,2) assms(2), of env len] assms(3,4) o(3) by auto
qed

definition demo_bufs :: "mix_buffer list" where
  "demo_bufs = [\<lparr>b_mem = Some ''ab'', b_len = 2\<rparr>, \<lparr>b_mem = Some ''cd'', b_len = 2\<rparr>,
     \<lparr>b_mem = Some ''ef'', b_len = 2\<rparr>, \<lparr>b_mem = Some ''gh'', b_len = 2\<rparr>]"

definition demo_heard :: os2audio where
  "demo_heard = demo\<lparr>a_bufs := Some demo_bufs, a_play := 2, a_fill := 1, a_nomore := False, a_noprecpos := True\<rparr>"

lemma demo_heard_sel:
  "a_bufs demo_heard = Some demo_bufs" "a_play demo_heard = 2" "a_fill demo_heard = 1" "\<not> a_nomore demo_heard"
  "a_noprecpos demo_heard" "a_num demo_heard = 4" "a_bufsize demo_heard = 2" "a_status demo_heard = DEVICE_OPENED"
  by (simp_all add: demo_heard_def demo_opened demo_fields demo_status)

lemma demo_heard_opened: "opened demo_heard"
proof -
  have "(case a_pos demo_heard of None \<Rightarrow> False | Some ps \<Rightarrow> 4 \<le> length ps)" by code_simp
  then obtain ps where ps: "a_pos demo_heard = Some ps" "4 \<le> length ps" by (auto split: option.splits)
  have "\<forall>b \<in> set demo_bufs. buffer_ok demo_heard b"
    by (simp add: demo_bufs_def buffer_ok_def demo_heard_sel(7))
  moreover have "length demo_bufs = 4" by (simp add: demo_bufs_def)
  ultimately show ?thesis using ps by (auto simp: opened_def ring_ok_def demo_heard_sel)
qed

lemma playing_samples_correct_witness:
  "output_playing_samples demo_env demo_heard 5 = Some (Some (''efgh'' @ [NUL]))"
proof -
  from playing_samples_correct [OF demo_heard_opened demo_heard_sel(1,4) disjI1 [OF demo_heard_sel(5)], of demo_env 5]
  have "output_playing_samples demo_env demo_heard 5 =
    Some (Some (take 5 (drop (play_offset demo_env demo_heard) (waiting_bytes demo_heard demo_bufs 2) @ replicate 5 NUL)))"
    by (simp only: demo_heard_sel(2))
  also have "take 5 (drop (play_offset demo_env demo_heard) (waiting_bytes demo_heard demo_bufs 2) @ replicate 5 NUL) = ''efgh'' @ [NUL]"
    by code_simp
  finally show ?thesis .
qed

text \<open>C12: \<open>output_trash_buffers\<close> silences every buffer, sets every position and fills again behind the playing buffer. It
  also does so while the device is being closed, because its test is bitwise; between the release of the
  mixer's memory and the end of \<open>output_close\<close> it writes to freed memory.\<close>

theorem trash_correct:
  assumes "opened a \<or> closing a" and "mixer_contract env"
  shows "(\<exists>a' bufs. output_trash_buffers a pos = Some a' \<and> ring_ok a' \<and> a_status a' = a_status a
      \<and> a_fill a' = (a_play a + 1) mod a_num a \<and> a_trashed a' \<and> output_playing_data a' \<and> a_bufs a' = Some bufs
      \<and> (\<forall>i < unat (a_num a). b_mem (bufs ! i) = Some (replicate (unat (a_bufsize a)) NUL))
      \<and> a_pos a' = map_option (\<lambda>ps. replicate (unat (a_num a)) pos @ drop (unat (a_num a)) ps) (a_pos a))
    \<and> (closing a \<and> LOUSHORT (rc env McBufFree) = 0 \<longrightarrow> output_trash_buffers (close_commands env a) pos = None)
    \<and> output_trash_buffers (close_end (close_commands env a)) pos = Some (close_end (close_commands env a))"
proof (intro conjI impI)
  have r: "ring_filling a" "a_status a = DEVICE_OPENED \<or> a_status a = DEVICE_CLOSING"
    using assms(1) by (auto simp: opened_def closing_def ring_ok_filling)
  from trash_ring [OF r, of pos] show "\<exists>a' bufs. output_trash_buffers a pos = Some a' \<and> ring_ok a' \<and> a_status a' = a_status a
      \<and> a_fill a' = (a_play a + 1) mod a_num a \<and> a_trashed a' \<and> output_playing_data a' \<and> a_bufs a' = Some bufs
      \<and> (\<forall>i < unat (a_num a). b_mem (bufs ! i) = Some (replicate (unat (a_bufsize a)) NUL))
      \<and> a_pos a' = map_option (\<lambda>ps. replicate (unat (a_num a)) pos @ drop (unat (a_num a)) ps) (a_pos a)"
    unfolding output_playing_data_def by blast
  show "output_trash_buffers (close_end (close_commands env a)) pos = Some (close_end (close_commands env a))"
    by (simp add: output_trash_buffers_def device_defs)
  assume c: "closing a \<and> LOUSHORT (rc env McBufFree) = 0"
  obtain bufs ps where b: "a_bufs a = Some bufs" "a_pos a = Some ps" "unat (a_num a) \<le> length bufs" "0 < unat (a_num a)"
    using r(1) by (auto simp: ring_filling_def)
  have s: "a_status (close_commands env a) = DEVICE_CLOSING" "a_num (close_commands env a) = a_num a"
    "a_bufs (close_commands env a) = Some (map (\<lambda>b. b\<lparr>b_mem := None\<rparr>) bufs)"
    "a_pos (close_commands env a) = Some ps"
    using c b by (auto simp: close_commands_def Let_def free_mem_def closing_def check_def output_error_def say_def)
  have "trash_loop (Suc n) sz pos (map (\<lambda>b. b\<lparr>b_mem := None\<rparr>) bufs) ps = None" if "n < length bufs" for n sz
    using that
  proof (induction n)
    case 0
    then show ?case by (simp add: fill_mem_def)
  next
    case (Suc n)
    then have "trash_loop (Suc n) sz pos (map (\<lambda>b. b\<lparr>b_mem := None\<rparr>) bufs) ps = None" by simp
    then show ?case by (subst trash_loop.simps(2)) (simp del: trash_loop.simps)
  qed
  from this [of "unat (a_num a) - 1"] have "trash_loop (unat (a_num a)) sz pos (map (\<lambda>b. b\<lparr>b_mem := None\<rparr>) bufs) ps = None" for sz
    using b(3,4) by (simp del: trash_loop.simps)
  then show "output_trash_buffers (close_commands env a) pos = None"
    using s by (simp add: output_trash_buffers_def device_defs)
qed

lemma trash_correct_witness:
  "\<exists>a. close_begin demo = Some a \<and> output_trash_buffers a 3 \<noteq> None \<and> output_trash_buffers (close_commands demo_env a) 3 = None"
proof -
  obtain a where a: "close_begin demo = Some a" by (simp add: close_begin_def demo_status)
  then have d: "a = demo\<lparr>a_status := DEVICE_CLOSING, a_played := True\<rparr>" by (simp add: close_begin_def demo_status)
  have "ring_filling demo" "unat (a_bufsize demo) < 2 ^ 31" using demo_opened(1) by (auto simp: opened_def ring_ok_filling)
  then have c: "closing a" unfolding d by (simp add: closing_def ring_filling_def buffer_ok_def)
  have "LOUSHORT (rc demo_env McBufFree) = 0" by code_simp
  with trash_correct [OF disjI2 [OF c] demo_contract, of 3] show ?thesis using a c by auto
qed

text \<open>The number of filled buffers is computed modulo \<open>2\<^sup>3\<^sup>2\<close> first, so it is wrong across the end of a ring whose size
  does not divide \<open>2\<^sup>3\<^sup>2\<close>: in a ring of 200 buffers with 104 filled ones \<open>dart_event\<close> finds none, reports
  that the data ran out and throws them away.\<close>

lemma filled_count_wraps:
  assumes "a_num a = 200" and "unat (a_fill a) + 96 = unat c + 1" and "unat c + 1 < 200"
  shows "(uint (a_fill a) - (uint c + 1)) mod 200 = 104
    \<and> filled_buffers (a\<lparr>a_play := (c + 1) mod a_num a\<rparr>) = 0
    \<and> a_fill (dart_indices a c t) = (c + 2) mod a_num a
    \<and> OutOfData \<in> set (a_msgs (dart_indices a c t))"
proof -
  have c1: "unat (c + 1) = unat c + 1" using assms(3) by (simp add: unat_word_ariths)
  have "unat ((c + 1) mod 200) = unat (c + 1)" using assms(3) by (simp add: unat_mod c1)
  then have p: "(c + 1) mod a_num a = c + 1" unfolding assms(1) by (rule unsigned_word_eqI)
  have "unat (a_fill a + 96) = unat (c + 1)" using assms(2,3) by (simp add: unat_word_ariths)
  then have c: "c + 1 = a_fill a + 96" by (metis unsigned_word_eqI)
  have z: "(a_fill a - (c + 1)) mod 200 = 0" unfolding c by simp
  have m: "OutOfData \<in> set (a_msgs (dart_indices a c t))"
    using z p assms(1) by (simp add: dart_indices_def Let_def filled_buffers_def say_def)
  have f: "a_fill (dart_indices a c t) = (c + 1 + 1) mod a_num a"
    unfolding dart_indices_fill p using z assms(1) by simp
  have "int (unat (a_fill a)) + 96 = int (unat c) + 1" using assms(2) by linarith
  then have i: "uint (a_fill a) - (uint c + 1) = - 96" by (simp add: uint_nat [symmetric])
  have "(- 96 :: int) mod 200 = 104" by simp
  then show ?thesis unfolding i using z f m p assms(1) by (simp add: filled_buffers_def add.assoc)
qed

lemma filled_count_wraps_witness:
  "OutOfData \<in> set (a_msgs (dart_indices (output_init\<lparr>a_num := 200, a_fill := 4\<rparr>) 99 0))"
  using filled_count_wraps [of "output_init\<lparr>a_num := 200, a_fill := 4\<rparr>" 99 0] by simp

end
