(* ===== verification/Snprintf.thy ===== *)
theory Snprintf
  imports CPrelude
begin

text \<open>
  \<^verbatim>\<open>src/utils/snprintf.c\<close>: the formatted output that the program brings along for compilers without
  \<open>snprintf\<close>. \<open>dopr\<close> is a state machine over the format string; each of its states is a definition.
  The formatting functions hand one character after the other to \<open>dopr_outch\<close>.

  \<open>int\<close>, \<open>long\<close> and pointers have 32 bits; the signed overflow of a field width is undefined in C
  and the value \<open>None\<close> here, as is an argument of the wrong type. The decimal digits of a
  floating point number are part of the argument, see \<open>fp_value\<close>.
\<close>

unbundle bit_operations_syntax

section \<open>Constants and arguments\<close>

datatype dp_state = DP_S_DEFAULT | DP_S_FLAGS | DP_S_MIN | DP_S_DOT | DP_S_MAX | DP_S_MOD | DP_S_CONV | DP_S_DONE

datatype dp_cflags = DP_C_NONE | DP_C_SHORT | DP_C_LONG | DP_C_LDOUBLE | DP_C_LLONG

type_synonym flags = "32 word"

definition DP_F_MINUS :: flags where "DP_F_MINUS = 1"
definition DP_F_PLUS :: flags where "DP_F_PLUS = 2"
definition DP_F_SPACE :: flags where "DP_F_SPACE = 4"
definition DP_F_NUM :: flags where "DP_F_NUM = 8"
definition DP_F_ZERO :: flags where "DP_F_ZERO = 16"
definition DP_F_UP :: flags where "DP_F_UP = 32"
definition DP_F_UNSIGNED :: flags where "DP_F_UNSIGNED = 64"

lemmas dp_flags = DP_F_MINUS_def DP_F_PLUS_def DP_F_SPACE_def DP_F_NUM_def DP_F_ZERO_def DP_F_UP_def DP_F_UNSIGNED_def

definition has :: "flags \<Rightarrow> flags \<Rightarrow> bool" where
  "has w b \<longleftrightarrow> w AND b \<noteq> 0"

text \<open>A floating point argument: whether it is negative, and the contents of \<open>iconvert\<close> and \<open>fconvert\<close> (least
  significant digit first) that the conversion computes for a number of places.\<close>

record fp_value =
  fp_neg :: bool
  fp_digits :: "int \<Rightarrow> string \<times> string"

datatype arg = AInt "32 word" | ALLong "64 word" | AStr "string option" | APtr "32 word" | ADbl fp_value | ACount nat

section \<open>Output\<close>

type_synonym out = "store \<times> nat"

definition dopr_outch :: "ptr \<Rightarrow> nat \<Rightarrow> char \<Rightarrow> out \<Rightarrow> out option" where
  "dopr_outch buf maxlen c = (\<lambda>(h, currlen).
     if currlen < maxlen then map_option (\<lambda>h. (h, currlen + 1)) (st h (padd buf currlen) c)
     else Some (h, currlen + 1))"

text \<open>A loop that hands over one character after the other.\<close>

fun outs :: "ptr \<Rightarrow> nat \<Rightarrow> string \<Rightarrow> out \<Rightarrow> out option" where
  "outs buf maxlen [] ou = Some ou"
| "outs buf maxlen (c # s) ou = do { ou \<leftarrow> dopr_outch buf maxlen c ou; outs buf maxlen s ou }"

fun pad_loop :: "ptr \<Rightarrow> nat \<Rightarrow> nat \<Rightarrow> int \<Rightarrow> int \<Rightarrow> out \<Rightarrow> (out \<times> int) option" where
  "pad_loop buf maxlen 0 cnt mx ou = Some (ou, cnt)"
| "pad_loop buf maxlen (Suc padlen) cnt mx ou =
     (if cnt < mx then do { ou \<leftarrow> dopr_outch buf maxlen (CHR '' '') ou; pad_loop buf maxlen padlen (cnt + 1) mx ou }
      else Some (ou, cnt))"

fun copy_loop :: "ptr \<Rightarrow> nat \<Rightarrow> string \<Rightarrow> int \<Rightarrow> int \<Rightarrow> out \<Rightarrow> (out \<times> int) option" where
  "copy_loop buf maxlen [] cnt mx ou = Some (ou, cnt)"
| "copy_loop buf maxlen (c # s) cnt mx ou =
     (if cnt < mx then do { ou \<leftarrow> dopr_outch buf maxlen c ou; copy_loop buf maxlen s (cnt + 1) mx ou }
      else Some (ou, cnt))"

definition fmtstr :: "ptr \<Rightarrow> nat \<Rightarrow> string \<Rightarrow> flags \<Rightarrow> int \<Rightarrow> int \<Rightarrow> out \<Rightarrow> out option" where
  "fmtstr buf maxlen value flags mn mx ou =
     (let padlen = mn - int (length value);
          padlen = (if padlen < 0 then 0 else padlen);
          padlen = (if has flags DP_F_MINUS then - padlen else padlen)
      in do { (ou, cnt) \<leftarrow> pad_loop buf maxlen (nat padlen) 0 mx ou;
              (ou, cnt) \<leftarrow> copy_loop buf maxlen value cnt mx ou;
              (ou, cnt) \<leftarrow> pad_loop buf maxlen (nat (- padlen)) cnt mx ou;
              Some ou })"

section \<open>Numbers\<close>

definition digit_char :: "bool \<Rightarrow> 32 word \<Rightarrow> char" where
  "digit_char caps d = (if caps then ''0123456789ABCDEF'' else ''0123456789abcdef'') ! unat d"

text \<open>The loop that fills \<open>convert\<close>, with the number of places that are left.\<close>

fun convert_loop :: "nat \<Rightarrow> bool \<Rightarrow> 32 word \<Rightarrow> 32 word \<Rightarrow> string" where
  "convert_loop 0 caps base uvalue = []"
| "convert_loop (Suc k) caps base uvalue =
     digit_char caps (uvalue mod base)
     # (if uvalue div base \<noteq> 0 then convert_loop k caps base (uvalue div base) else [])"

definition fmtint :: "ptr \<Rightarrow> nat \<Rightarrow> 32 word \<Rightarrow> 32 word \<Rightarrow> int \<Rightarrow> int \<Rightarrow> flags \<Rightarrow> out \<Rightarrow> out option" where
  "fmtint buf maxlen value base mn mx flags ou =
     (let mx = (if mx < 0 then 0 else mx);
          neg = (\<not> has flags DP_F_UNSIGNED \<and> sint value < 0);
          uvalue = (if neg then - value else value);
          sign = (if has flags DP_F_UNSIGNED then []
                  else if neg then ''-''
                  else if has flags DP_F_PLUS then ''+''
                  else if has flags DP_F_SPACE then '' '' else []);
          convert = take 19 (convert_loop 20 (has flags DP_F_UP) base uvalue);
          place = int (length convert);
          zpadlen = mx - place;
          spadlen = mn - max mx place - int (length sign);
          zpadlen = (if zpadlen < 0 then 0 else zpadlen);
          spadlen = (if spadlen < 0 then 0 else spadlen);
          (zpadlen, spadlen) = (if has flags DP_F_ZERO then (max zpadlen spadlen, 0) else (zpadlen, spadlen));
          spadlen = (if has flags DP_F_MINUS then - spadlen else spadlen)
      in do { ou \<leftarrow> outs buf maxlen (replicate (nat spadlen) (CHR '' '')) ou;
              ou \<leftarrow> outs buf maxlen sign ou;
              ou \<leftarrow> outs buf maxlen (replicate (nat zpadlen) (CHR ''0'')) ou;
              ou \<leftarrow> outs buf maxlen (rev convert) ou;
              outs buf maxlen (replicate (nat (- spadlen)) (CHR '' '')) ou })"

definition fmtfp :: "ptr \<Rightarrow> nat \<Rightarrow> fp_value \<Rightarrow> int \<Rightarrow> int \<Rightarrow> flags \<Rightarrow> out \<Rightarrow> out option" where
  "fmtfp buf maxlen fvalue mn mx flags ou =
     (let mx = (if mx < 0 then 6 else mx);
          sign = (if fp_neg fvalue then ''-''
                  else if has flags DP_F_PLUS then ''+''
                  else if has flags DP_F_SPACE then '' '' else []);
          mx = (if mx > 16 then 16 else mx);
          (iconvert, fconvert) = fp_digits fvalue mx;
          padlen = mn - int (length iconvert) - mx - 1 - int (length sign);
          zpadlen = mx - int (length fconvert);
          zpadlen = (if zpadlen < 0 then 0 else zpadlen);
          padlen = (if padlen < 0 then 0 else padlen);
          padlen = (if has flags DP_F_MINUS then - padlen else padlen)
      in do {
        (ou, padlen, sign) \<leftarrow>
          (if has flags DP_F_ZERO \<and> padlen > 0
           then do { ou \<leftarrow> outs buf maxlen sign ou;
                     let padlen = padlen - int (length sign);
                     ou \<leftarrow> outs buf maxlen (replicate (nat padlen) (CHR ''0'')) ou;
                     Some (ou, min padlen 0, []) }
           else Some (ou, padlen, sign));
        ou \<leftarrow> outs buf maxlen (replicate (nat padlen) (CHR '' '')) ou;
        ou \<leftarrow> outs buf maxlen sign ou;
        ou \<leftarrow> outs buf maxlen (rev iconvert) ou;
        ou \<leftarrow> (if mx > 0
               then do { ou \<leftarrow> outs buf maxlen ''.'' ou;
                         ou \<leftarrow> outs buf maxlen (replicate (nat zpadlen) (CHR ''0'')) ou;
                         outs buf maxlen (rev fconvert) ou }
               else Some ou);
        outs buf maxlen (replicate (nat (- padlen)) (CHR '' '')) ou })"

section \<open>The state machine\<close>

record dstate =
  d_state :: dp_state
  d_ch :: char
  d_fmt :: string
  d_min :: int
  d_max :: int
  d_flags :: flags
  d_cflags :: dp_cflags
  d_args :: "arg list"
  d_out :: out
  d_counts :: "(nat \<times> nat) list"

text \<open>\<open>ch = *format++\<close>: \<open>d_fmt\<close> is what follows, with the terminator; behind it nothing can be read.\<close>

definition next_ch :: "dstate \<Rightarrow> dstate option" where
  "next_ch s = (case d_fmt s of [] \<Rightarrow> None | c # f \<Rightarrow> Some (s\<lparr>d_ch := c, d_fmt := f\<rparr>))"

fun va_int :: "arg list \<Rightarrow> (32 word \<times> arg list) option" where
  "va_int (AInt v # args) = Some (v, args)"
| "va_int _ = None"

text \<open>An integer argument; a \<open>long long\<close> is passed on as a \<open>long\<close>.\<close>

fun va_value :: "dp_cflags \<Rightarrow> arg list \<Rightarrow> (32 word \<times> arg list) option" where
  "va_value DP_C_LLONG (ALLong v # args) = Some (ucast v, args)"
| "va_value DP_C_LLONG _ = None"
| "va_value _ args = va_int args"

definition dp_default :: "ptr \<Rightarrow> nat \<Rightarrow> dstate \<Rightarrow> dstate option" where
  "dp_default buf maxlen s =
     do { s \<leftarrow> (if d_ch s = CHR ''%'' then Some (s\<lparr>d_state := DP_S_FLAGS\<rparr>)
                else map_option (\<lambda>ou. s\<lparr>d_out := ou\<rparr>) (dopr_outch buf maxlen (d_ch s) (d_out s)));
          next_ch s }"

fun flag_of :: "char \<Rightarrow> flags option" where
  "flag_of c = (if c = CHR ''-'' then Some DP_F_MINUS
                else if c = CHR ''+'' then Some DP_F_PLUS
                else if c = CHR '' '' then Some DP_F_SPACE
                else if c = CHR ''#'' then Some DP_F_NUM
                else if c = CHR ''0'' then Some DP_F_ZERO else None)"

declare flag_of.simps [simp del]

definition dp_flags_state :: "dstate \<Rightarrow> dstate option" where
  "dp_flags_state s =
     (case flag_of (d_ch s) of
        Some b \<Rightarrow> next_ch (s\<lparr>d_flags := d_flags s OR b\<rparr>)
      | None \<Rightarrow> Some (s\<lparr>d_state := DP_S_MIN\<rparr>))"

definition INT_MAX :: int where "INT_MAX = 2147483647"

definition add_digit :: "int \<Rightarrow> char \<Rightarrow> int option" where
  "add_digit n c = (let m = 10 * n + int (ccode c - 48) in if m \<le> INT_MAX then Some m else None)"

definition dp_min :: "dstate \<Rightarrow> dstate option" where
  "dp_min s =
     (if isdigit (d_ch s) then do { m \<leftarrow> add_digit (d_min s) (d_ch s); next_ch (s\<lparr>d_min := m\<rparr>) }
      else if d_ch s = CHR ''*''
      then do { (v, args) \<leftarrow> va_int (d_args s); next_ch (s\<lparr>d_min := sint v, d_args := args, d_state := DP_S_DOT\<rparr>) }
      else Some (s\<lparr>d_state := DP_S_DOT\<rparr>))"

definition dp_dot :: "dstate \<Rightarrow> dstate option" where
  "dp_dot s =
     (if d_ch s = CHR ''.'' then next_ch (s\<lparr>d_state := DP_S_MAX\<rparr>) else Some (s\<lparr>d_state := DP_S_MOD\<rparr>))"

definition dp_max :: "dstate \<Rightarrow> dstate option" where
  "dp_max s =
     (if isdigit (d_ch s)
      then do { m \<leftarrow> add_digit (if d_max s < 0 then 0 else d_max s) (d_ch s); next_ch (s\<lparr>d_max := m\<rparr>) }
      else if d_ch s = CHR ''*''
      then do { (v, args) \<leftarrow> va_int (d_args s); next_ch (s\<lparr>d_max := sint v, d_args := args, d_state := DP_S_MOD\<rparr>) }
      else Some (s\<lparr>d_state := DP_S_MOD\<rparr>))"

definition dp_mod :: "dstate \<Rightarrow> dstate option" where
  "dp_mod s =
     map_option (\<lambda>s. s\<lparr>d_state := DP_S_CONV\<rparr>)
       (if d_ch s = CHR ''h'' then next_ch (s\<lparr>d_cflags := DP_C_SHORT\<rparr>)
        else if d_ch s = CHR ''l''
        then do { s \<leftarrow> next_ch (s\<lparr>d_cflags := DP_C_LONG\<rparr>);
                  if d_ch s = CHR ''l'' then next_ch (s\<lparr>d_cflags := DP_C_LLONG\<rparr>) else Some s }
        else if d_ch s = CHR ''L'' then next_ch (s\<lparr>d_cflags := DP_C_LDOUBLE\<rparr>)
        else Some s)"

text \<open>The conversions: integers, strings and the others.\<close>

definition conv_int :: "ptr \<Rightarrow> nat \<Rightarrow> 32 word \<Rightarrow> flags \<Rightarrow> dstate \<Rightarrow> dstate option" where
  "conv_int buf maxlen base fl s =
     do { (v, args) \<leftarrow> va_value (d_cflags s) (d_args s);
          let fl = d_flags s OR fl;
          ou \<leftarrow> fmtint buf maxlen v base (d_min s) (d_max s) fl (d_out s);
          Some (s\<lparr>d_flags := fl, d_args := args, d_out := ou\<rparr>) }"

definition conv_fp :: "ptr \<Rightarrow> nat \<Rightarrow> dstate \<Rightarrow> dstate option" where
  "conv_fp buf maxlen s =
     (case d_args s of
        ADbl v # args \<Rightarrow> map_option (\<lambda>ou. s\<lparr>d_args := args, d_out := ou\<rparr>)
                            (fmtfp buf maxlen v (d_min s) (d_max s) (d_flags s) (d_out s))
      | _ \<Rightarrow> None)"

definition conv_str :: "ptr \<Rightarrow> nat \<Rightarrow> dstate \<Rightarrow> dstate option" where
  "conv_str buf maxlen s =
     (case d_args s of
        AStr p # args \<Rightarrow>
          (let value = (case p of None \<Rightarrow> ''(NULL)'' | Some v \<Rightarrow> v);
               mx = (if d_max s = -1 then int (length value) else d_max s);
               mx = (if d_min s > 0 \<and> mx \<ge> 0 \<and> d_min s > mx then d_min s else mx)
           in map_option (\<lambda>ou. s\<lparr>d_args := args, d_out := ou\<rparr>)
                (fmtstr buf maxlen value (d_flags s) (d_min s) mx (d_out s)))
      | _ \<Rightarrow> None)"

definition conv_other :: "ptr \<Rightarrow> nat \<Rightarrow> dstate \<Rightarrow> dstate option" where
  "conv_other buf maxlen s =
     (let ch = d_ch s in
      if ch = CHR ''c''
      then do { (v, args) \<leftarrow> va_int (d_args s);
                ou \<leftarrow> dopr_outch buf maxlen (char_of (unat v)) (d_out s);
                Some (s\<lparr>d_args := args, d_out := ou\<rparr>) }
      else if ch = CHR ''p''
      then (case d_args s of
              APtr v # args \<Rightarrow> map_option (\<lambda>ou. s\<lparr>d_args := args, d_out := ou\<rparr>)
                                  (fmtint buf maxlen v 16 (d_min s) (d_max s) (d_flags s) (d_out s))
            | _ \<Rightarrow> None)
      else if ch = CHR ''n''
      then (case d_args s of
              ACount p # args \<Rightarrow> Some (s\<lparr>d_args := args, d_counts := d_counts s @ [(p, snd (d_out s))]\<rparr>)
            | _ \<Rightarrow> None)
      else if ch = CHR ''%'' then map_option (\<lambda>ou. s\<lparr>d_out := ou\<rparr>) (dopr_outch buf maxlen ch (d_out s))
      else if ch = CHR ''w'' then next_ch s
      else Some s)"

definition convert_arg :: "ptr \<Rightarrow> nat \<Rightarrow> dstate \<Rightarrow> dstate option" where
  "convert_arg buf maxlen s =
     (let ch = d_ch s in
      if ch = CHR ''d'' \<or> ch = CHR ''i'' then conv_int buf maxlen 10 0 s
      else if ch = CHR ''o'' then conv_int buf maxlen 8 DP_F_UNSIGNED s
      else if ch = CHR ''u'' then conv_int buf maxlen 10 DP_F_UNSIGNED s
      else if ch = CHR ''X'' then conv_int buf maxlen 16 (DP_F_UP OR DP_F_UNSIGNED) s
      else if ch = CHR ''x'' then conv_int buf maxlen 16 DP_F_UNSIGNED s
      else if ch \<in> {CHR ''f'', CHR ''e'', CHR ''g'', CHR ''E'', CHR ''G''} then conv_fp buf maxlen s
      else if ch = CHR ''s'' then conv_str buf maxlen s
      else conv_other buf maxlen s)"

definition dp_conv :: "ptr \<Rightarrow> nat \<Rightarrow> dstate \<Rightarrow> dstate option" where
  "dp_conv buf maxlen s =
     do { s \<leftarrow> convert_arg buf maxlen s;
          s \<leftarrow> next_ch s;
          Some (s\<lparr>d_state := DP_S_DEFAULT, d_flags := 0, d_cflags := DP_C_NONE, d_min := 0, d_max := -1\<rparr>) }"

definition dopr_step :: "ptr \<Rightarrow> nat \<Rightarrow> dstate \<Rightarrow> dstate option" where
  "dopr_step buf maxlen s =
     (let s = (if d_ch s = NUL then s\<lparr>d_state := DP_S_DONE\<rparr> else s) in
      case d_state s of
        DP_S_DEFAULT \<Rightarrow> dp_default buf maxlen s
      | DP_S_FLAGS \<Rightarrow> dp_flags_state s
      | DP_S_MIN \<Rightarrow> dp_min s
      | DP_S_DOT \<Rightarrow> dp_dot s
      | DP_S_MAX \<Rightarrow> dp_max s
      | DP_S_MOD \<Rightarrow> dp_mod s
      | DP_S_CONV \<Rightarrow> dp_conv buf maxlen s
      | DP_S_DONE \<Rightarrow> Some s)"

text \<open>Every step reads a character or comes closer to the conversion.\<close>

fun state_rank :: "dp_state \<Rightarrow> nat" where
  "state_rank DP_S_DEFAULT = 7"
| "state_rank DP_S_FLAGS = 6"
| "state_rank DP_S_MIN = 5"
| "state_rank DP_S_DOT = 4"
| "state_rank DP_S_MAX = 3"
| "state_rank DP_S_MOD = 2"
| "state_rank DP_S_CONV = 1"
| "state_rank DP_S_DONE = 0"

definition to_do :: "dstate \<Rightarrow> nat" where
  "to_do s = (if d_state s = DP_S_DONE then 0 else 8 * length (d_fmt s) + state_rank (d_state s))"

lemma next_chD: "next_ch s = Some s' \<Longrightarrow> \<exists>c f. d_fmt s = c # f \<and> s' = s\<lparr>d_ch := c, d_fmt := f\<rparr>"
  by (auto simp: next_ch_def split: list.splits)

lemma convert_arg_fmt:
  "convert_arg buf maxlen s = Some s' \<Longrightarrow> length (d_fmt s') \<le> length (d_fmt s)"
  by (auto simp: convert_arg_def conv_int_def conv_fp_def conv_str_def conv_other_def Let_def dest!: next_chD
      split: if_splits bind_splits list.splits arg.splits)

lemma dopr_step_less: "dopr_step buf maxlen s = Some s' \<Longrightarrow> d_state s \<noteq> DP_S_DONE \<Longrightarrow> to_do s' < to_do s"
proof (cases "d_ch s = NUL")
  case True
  assume "dopr_step buf maxlen s = Some s'" "d_state s \<noteq> DP_S_DONE"
  then show ?thesis using True by (cases "d_state s") (auto simp: dopr_step_def to_do_def Let_def)
next
  case False
  assume a: "dopr_step buf maxlen s = Some s'" "d_state s \<noteq> DP_S_DONE"
  show ?thesis
  proof (cases "d_state s")
    case DP_S_DEFAULT
    then show ?thesis using a False
      by (auto simp: dopr_step_def dp_default_def to_do_def Let_def dest!: next_chD split: bind_splits if_splits)
  next
    case DP_S_FLAGS
    then show ?thesis using a False
      by (auto simp: dopr_step_def dp_flags_state_def to_do_def Let_def dest!: next_chD split: option.splits)
  next
    case DP_S_MIN
    then show ?thesis using a False
      by (auto simp: dopr_step_def dp_min_def to_do_def Let_def dest!: next_chD split: bind_splits if_splits)
  next
    case DP_S_DOT
    then show ?thesis using a False
      by (auto simp: dopr_step_def dp_dot_def to_do_def Let_def dest!: next_chD split: if_splits)
  next
    case DP_S_MAX
    then show ?thesis using a False
      by (auto simp: dopr_step_def dp_max_def to_do_def Let_def dest!: next_chD split: bind_splits if_splits)
  next
    case DP_S_MOD
    then show ?thesis using a False
      by (auto simp: dopr_step_def dp_mod_def to_do_def Let_def dest!: next_chD split: bind_splits if_splits)
  next
    case DP_S_CONV
    then show ?thesis using a False convert_arg_fmt
      by (fastforce simp: dopr_step_def dp_conv_def to_do_def Let_def dest!: next_chD split: bind_splits)
  next
    case DP_S_DONE
    then show ?thesis using a by simp
  qed
qed

function dopr_loop :: "ptr \<Rightarrow> nat \<Rightarrow> dstate \<Rightarrow> dstate option" where
  "dopr_loop buf maxlen s =
     (if d_state s = DP_S_DONE then Some s
      else (case dopr_step buf maxlen s of None \<Rightarrow> None | Some s' \<Rightarrow> dopr_loop buf maxlen s'))"
  by auto
termination
  by (relation "measure (\<lambda>(buf, maxlen, s). to_do s)") (auto simp: dopr_step_less)

declare dopr_loop.simps [simp del]

definition dopr_start :: "store \<Rightarrow> string \<Rightarrow> arg list \<Rightarrow> dstate option" where
  "dopr_start h fmt args =
     next_ch \<lparr>d_state = DP_S_DEFAULT, d_ch = NUL, d_fmt = fmt @ [NUL], d_min = 0, d_max = -1, d_flags = 0,
       d_cflags = DP_C_NONE, d_args = args, d_out = (h, 0), d_counts = []\<rparr>"

text \<open>\<open>dopr\<close>: the store, the number of characters, and what \<open>%n\<close> has stored.\<close>

definition dopr :: "store \<Rightarrow> ptr \<Rightarrow> nat \<Rightarrow> string \<Rightarrow> arg list \<Rightarrow> (store \<times> nat \<times> (nat \<times> nat) list) option" where
  "dopr h buf maxlen fmt args =
     do { s \<leftarrow> dopr_start h fmt args;
          s \<leftarrow> dopr_loop buf maxlen s;
          let (h, currlen) = d_out s;
          h \<leftarrow> (if maxlen \<noteq> 0
                then (if currlen < maxlen - 1 then st h (padd buf currlen) NUL
                      else if maxlen > 0 then st h (padd buf (maxlen - 1)) NUL else Some h)
                else Some h);
          Some (h, currlen, d_counts s) }"

definition vsnprintf :: "store \<Rightarrow> ptr \<Rightarrow> nat \<Rightarrow> string \<Rightarrow> arg list \<Rightarrow> (store \<times> nat \<times> (nat \<times> nat) list) option" where
  "vsnprintf h str count fmt args = dopr h str count fmt args"

definition snprintf :: "store \<Rightarrow> ptr \<Rightarrow> nat \<Rightarrow> string \<Rightarrow> arg list \<Rightarrow> (store \<times> nat \<times> (nat \<times> nat) list) option" where
  "snprintf h str count fmt args = vsnprintf h str count fmt args"

text \<open>\<open>vasprintf\<close> with \<open>vsnprintf\<close> as a parameter: the first call writes nothing; \<open>malloc\<close> yields the
  object \<open>ob\<close> or fails. The result is the store, the pointer that was stored, if any, and the returned
  number.\<close>

definition vasprintf_with ::
  "(store \<Rightarrow> ptr \<Rightarrow> nat \<Rightarrow> string \<Rightarrow> arg list \<Rightarrow> (store \<times> nat \<times> (nat \<times> nat) list) option) \<Rightarrow>
   nat option \<Rightarrow> char \<Rightarrow> store \<Rightarrow> string \<Rightarrow> arg list \<Rightarrow> (store \<times> ptr option \<times> int) option" where
  "vasprintf_with vsn ob garbage h format ap =
     do { (h, n, counts) \<leftarrow> vsn h (0, 0) 0 format ap;
          let ret = sint (word_of_nat n :: 32 word);
          if ret \<le> 0 then Some (h, None, ret)
          else (case ob of
                  None \<Rightarrow> Some (h, None, -1)
                | Some p \<Rightarrow>
                    do { (h, n, counts) \<leftarrow> vsn (h(p := replicate (nat ret + 1) garbage)) (p, 0) (nat ret + 1) format ap;
                         Some (h, Some (p, 0), sint (word_of_nat n :: 32 word)) }) }"

definition vasprintf :: "nat option \<Rightarrow> char \<Rightarrow> store \<Rightarrow> string \<Rightarrow> arg list \<Rightarrow> (store \<times> ptr option \<times> int) option" where
  "vasprintf ob garbage h format ap = vasprintf_with vsnprintf ob garbage h format ap"

text \<open>\<open>asprintf\<close> clears the pointer first, so that it is \<open>NULL\<close> where \<open>vasprintf\<close> stores none.\<close>

definition asprintf :: "nat option \<Rightarrow> char \<Rightarrow> store \<Rightarrow> string \<Rightarrow> arg list \<Rightarrow> (store \<times> ptr option \<times> int) option" where
  "asprintf ob garbage h format ap = vasprintf ob garbage h format ap"

section \<open>What is printed\<close>

text \<open>The text of one conversion. The field of a string is cut at \<open>mx\<close> characters, padding included.\<close>

definition int_text :: "32 word \<Rightarrow> 32 word \<Rightarrow> int \<Rightarrow> int \<Rightarrow> flags \<Rightarrow> string" where
  "int_text value base mn mx flags =
     (let neg = (\<not> has flags DP_F_UNSIGNED \<and> sint value < 0);
          sign = (if has flags DP_F_UNSIGNED then [] else if neg then ''-'' else if has flags DP_F_PLUS then ''+''
                  else if has flags DP_F_SPACE then '' '' else []);
          digits = rev (take 19 (convert_loop 20 (has flags DP_F_UP) base (if neg then - value else value)));
          zeros = nat mx - length digits;
          blanks = nat mn - length sign - (zeros + length digits)
      in if has flags DP_F_ZERO then sign @ replicate (max zeros blanks) (CHR ''0'') @ digits
         else if has flags DP_F_MINUS then sign @ replicate zeros (CHR ''0'') @ digits @ replicate blanks (CHR '' '')
         else replicate blanks (CHR '' '') @ sign @ replicate zeros (CHR ''0'') @ digits)"

definition str_text :: "string \<Rightarrow> int \<Rightarrow> int \<Rightarrow> flags \<Rightarrow> string" where
  "str_text value mn mx flags =
     (let blanks = replicate (nat mn - length value) (CHR '' '')
      in take (nat mx) (if has flags DP_F_MINUS then value @ blanks else blanks @ value))"

definition fp_text :: "fp_value \<Rightarrow> int \<Rightarrow> int \<Rightarrow> flags \<Rightarrow> string" where
  "fp_text v mn mx flags =
     (let places = min 16 (if mx < 0 then 6 else mx);
          sign = (if fp_neg v then ''-'' else if has flags DP_F_PLUS then ''+''
                  else if has flags DP_F_SPACE then '' '' else []);
          (iconvert, fconvert) = fp_digits v places;
          number = rev iconvert @ (if places > 0
            then ''.'' @ replicate (nat places - length fconvert) (CHR ''0'') @ rev fconvert else []);
          pad = nat (mn - int (length iconvert) - places - 1 - int (length sign))
      in if has flags DP_F_MINUS then sign @ number @ replicate pad (CHR '' '')
         else if has flags DP_F_ZERO then sign @ replicate (pad - length sign) (CHR ''0'') @ number
         else replicate pad (CHR '' '') @ sign @ number)"

text \<open>The output so far is \<open>t\<close>: as much of it as fits is in the buffer.\<close>

definition written :: "store \<Rightarrow> ptr \<Rightarrow> nat \<Rightarrow> string \<Rightarrow> out" where
  "written h buf maxlen t = (put h buf (take maxlen t), length t)"

lemma outch_written:
  assumes "fits h buf maxlen"
  shows "dopr_outch buf maxlen c (written h buf maxlen t) = Some (written h buf maxlen (t @ [c]))"
proof (cases "length t < maxlen")
  case True
  have f: "fits h buf (length t + 1)" using fits_mono [OF assms] True by simp
  then have "fits h buf (length t)" by (rule fits_mono) simp
  then have "fits (put h buf t) (padd buf (length t)) 1" using fits_padd [OF f] by simp
  then have "st (put h buf t) (padd buf (length t)) c = Some (put h buf (t @ [c]))"
    using put_append [of h buf t "[c]"] f by (simp add: st_put)
  then show ?thesis using True by (simp add: dopr_outch_def written_def)
qed (simp add: dopr_outch_def written_def)

lemma outs_written:
  assumes "fits h buf maxlen"
  shows "outs buf maxlen s (written h buf maxlen t) = Some (written h buf maxlen (t @ s))"
  by (induction s arbitrary: t) (simp_all add: outch_written [OF assms])

lemma outs_append: "outs buf maxlen (s @ t) ou = do { ou \<leftarrow> outs buf maxlen s ou; outs buf maxlen t ou }"
  by (induction s arbitrary: ou) (auto split: bind_splits)

lemma pad_loop_outs:
  "pad_loop buf maxlen p cnt mx ou =
     (let k = min p (nat (mx - cnt))
      in map_option (\<lambda>ou. (ou, cnt + int k)) (outs buf maxlen (replicate k (CHR '' '')) ou))"
proof (induction p arbitrary: cnt ou)
  case (Suc p)
  show ?case
  proof (cases "cnt < mx")
    case True
    then have "min (Suc p) (nat (mx - cnt)) = Suc (min p (nat (mx - (cnt + 1))))" by linarith
    then show ?thesis using True Suc.IH [of "cnt + 1"]
      by (auto simp: Let_def algebra_simps map_option_case split: bind_splits option.splits)
  qed simp
qed simp

lemma copy_loop_outs:
  "copy_loop buf maxlen s cnt mx ou =
     (let k = min (length s) (nat (mx - cnt))
      in map_option (\<lambda>ou. (ou, cnt + int k)) (outs buf maxlen (take k s) ou))"
proof (induction s arbitrary: cnt ou)
  case (Cons c s)
  show ?case
  proof (cases "cnt < mx")
    case True
    then have "min (length (c # s)) (nat (mx - cnt)) = Suc (min (length s) (nat (mx - (cnt + 1))))" by (simp; linarith)
    then show ?thesis using True Cons.IH [of "cnt + 1"]
      by (auto simp: Let_def algebra_simps map_option_case split: bind_splits option.splits)
  qed simp
qed simp

lemma fmtstr_text:
  assumes "fits h buf maxlen"
  shows "fmtstr buf maxlen value flags mn mx (written h buf maxlen t)
    = Some (written h buf maxlen (t @ str_text value mn mx flags))"
proof -
  let ?b = "CHR '' ''"
  define p where "p = nat mn - length value"
  have p: "(if mn - int (length value) < 0 then 0 else mn - int (length value)) = int p"
    unfolding p_def by (cases "0 \<le> mn") (auto simp: nat_diff_distrib)
  have nd: "nat (mx - int k) = nat mx - k" for k by (cases "0 \<le> mx") (auto simp: nat_diff_distrib)
  show ?thesis
  proof (cases "has flags DP_F_MINUS")
    case True
    have "fmtstr buf maxlen value flags mn mx (written h buf maxlen t)
      = Some (written h buf maxlen (t @ take (min (length value) (nat mx)) value
          @ replicate (min p (nat (mx - int (min (length value) (nat mx))))) ?b))"
      unfolding fmtstr_def Let_def p using True by (simp add: Let_def pad_loop_outs copy_loop_outs outs_written [OF assms])
    also have "take (min (length value) (nat mx)) value @ replicate (min p (nat (mx - int (min (length value) (nat mx))))) ?b
      = str_text value mn mx flags"
      using True nd by (simp add: str_text_def Let_def p_def) (auto simp: min_def)
    finally show ?thesis by simp
  next
    case False
    have "fmtstr buf maxlen value flags mn mx (written h buf maxlen t)
      = Some (written h buf maxlen (t @ replicate (min p (nat mx)) ?b
          @ take (min (length value) (nat (mx - int (min p (nat mx))))) value))"
      unfolding fmtstr_def Let_def p using False by (simp add: Let_def pad_loop_outs copy_loop_outs outs_written [OF assms])
    also have "replicate (min p (nat mx)) ?b @ take (min (length value) (nat (mx - int (min p (nat mx))))) value
      = str_text value mn mx flags"
      using False nd by (simp add: str_text_def Let_def p_def) (auto simp: min_def)
    finally show ?thesis by simp
  qed
qed


lemma fmtint_text:
  assumes "fits h buf maxlen"
  shows "fmtint buf maxlen value base mn mx flags (written h buf maxlen t)
    = Some (written h buf maxlen (t @ int_text value base mn mx flags))"
proof -
  let ?neg = "\<not> has flags DP_F_UNSIGNED \<and> sint value < 0"
  obtain sign where sign: "sign = (if has flags DP_F_UNSIGNED then [] else if ?neg then ''-''
    else if has flags DP_F_PLUS then ''+'' else if has flags DP_F_SPACE then '' '' else [])" by simp
  obtain conv where conv: "conv = take 19 (convert_loop 20 (has flags DP_F_UP) base (if ?neg then - value else value))" by simp
  define z where "z = nat mx - length conv"
  define b where "b = nat mn - length sign - (z + length conv)"
  have z: "(if (if mx < 0 then 0 else mx) - int (length conv) < 0 then 0 else (if mx < 0 then 0 else mx) - int (length conv)) = int z"
    unfolding z_def by auto
  have "max (if mx < 0 then 0 else mx) (int (length conv)) = int (z + length conv)" unfolding z_def by auto
  then have b: "(if mn - max (if mx < 0 then 0 else mx) (int (length conv)) - int (length sign) < 0 then 0
    else mn - max (if mx < 0 then 0 else mx) (int (length conv)) - int (length sign)) = int b"
    unfolding b_def by auto
  have "fmtint buf maxlen value base mn mx flags (written h buf maxlen t) =
    Some (written h buf maxlen (t @ (if has flags DP_F_ZERO then sign @ replicate (max z b) (CHR ''0'') @ rev conv
         else if has flags DP_F_MINUS then sign @ replicate z (CHR ''0'') @ rev conv @ replicate b (CHR '' '')
         else replicate b (CHR '' '') @ sign @ replicate z (CHR ''0'') @ rev conv)))"
    unfolding fmtint_def Let_def sign [symmetric] conv [symmetric] z b
    by (auto simp: outs_written [OF assms] max_def)
  also have "(if has flags DP_F_ZERO then sign @ replicate (max z b) (CHR ''0'') @ rev conv
         else if has flags DP_F_MINUS then sign @ replicate z (CHR ''0'') @ rev conv @ replicate b (CHR '' '')
         else replicate b (CHR '' '') @ sign @ replicate z (CHR ''0'') @ rev conv) = int_text value base mn mx flags"
    unfolding int_text_def Let_def sign [symmetric] conv [symmetric] by (simp add: z_def b_def)
  finally show ?thesis .
qed

lemma fmtfp_text:
  assumes "fits h buf maxlen"
  shows "fmtfp buf maxlen v mn mx flags (written h buf maxlen t)
    = Some (written h buf maxlen (t @ fp_text v mn mx flags))"
proof -
  obtain sign where sign: "sign = (if fp_neg v then ''-'' else if has flags DP_F_PLUS then ''+''
    else if has flags DP_F_SPACE then '' '' else [])" by simp
  obtain m where m: "m = (if (if mx < 0 then 6 else mx) > 16 then 16 else (if mx < 0 then 6 else mx))" by simp
  have m': "min 16 (if mx < 0 then 6 else mx) = m" "0 \<le> m" unfolding m by auto
  obtain ic fc where d: "fp_digits v m = (ic, fc)" by fastforce
  define q where "q = nat (mn - int (length ic) - m - 1 - int (length sign))"
  have q: "(if mn - int (length ic) - m - 1 - int (length sign) < 0 then 0 else mn - int (length ic) - m - 1 - int (length sign)) = int q"
    unfolding q_def by auto
  define z where "z = nat m - length fc"
  have z: "(if m - int (length fc) < 0 then 0 else m - int (length fc)) = int z" unfolding z_def using m'(2) by auto
  have ls: "length sign \<le> 1" unfolding sign by auto
  show ?thesis
    unfolding fmtfp_def fp_text_def Let_def sign [symmetric] m [symmetric] m'(1) d prod.case q z
      q_def [symmetric] z_def [symmetric]
    using ls by (auto simp: outs_written [OF assms] outch_written [OF assms] nat_diff_distrib' min_def)
qed

section \<open>The whole format\<close>

fun parse_flags :: "string \<Rightarrow> flags \<Rightarrow> flags \<times> string" where
  "parse_flags [] fl = (fl, [])"
| "parse_flags (c # f) fl = (case flag_of c of Some b \<Rightarrow> parse_flags f (fl OR b) | None \<Rightarrow> (fl, c # f))"

fun parse_digits :: "string \<Rightarrow> int \<Rightarrow> (int \<times> string) option" where
  "parse_digits [] n = Some (n, [])"
| "parse_digits (c # f) n =
     (if isdigit c then (case add_digit (if n < 0 then 0 else n) c of None \<Rightarrow> None | Some m \<Rightarrow> parse_digits f m)
      else Some (n, c # f))"

text \<open>A number: digits, or a star that takes an argument instead.\<close>

definition parse_number :: "string \<Rightarrow> int \<Rightarrow> arg list \<Rightarrow> (int \<times> string \<times> arg list) option" where
  "parse_number f n args =
     do { (n, f) \<leftarrow> parse_digits f n;
          case f of
            c # f' \<Rightarrow> if c = CHR ''*'' then map_option (\<lambda>(v, args). (sint v, f', args)) (va_int args) else Some (n, f, args)
          | [] \<Rightarrow> Some (n, f, args) }"

definition parse_precision :: "string \<Rightarrow> arg list \<Rightarrow> (int \<times> string \<times> arg list) option" where
  "parse_precision f args =
     (case f of c # f' \<Rightarrow> if c = CHR ''.'' then parse_number f' (-1) args else Some (-1, f, args) | [] \<Rightarrow> Some (-1, f, args))"

fun parse_modifier :: "string \<Rightarrow> dp_cflags \<times> string" where
  "parse_modifier [] = (DP_C_NONE, [])"
| "parse_modifier (c # f) =
     (if c = CHR ''h'' then (DP_C_SHORT, f)
      else if c = CHR ''l'' then (case f of d # g \<Rightarrow> if d = CHR ''l'' then (DP_C_LLONG, g) else (DP_C_LONG, f) | [] \<Rightarrow> (DP_C_LONG, f))
      else if c = CHR ''L'' then (DP_C_LDOUBLE, f) else (DP_C_NONE, c # f))"

definition conversion_other ::
  "char \<Rightarrow> flags \<Rightarrow> int \<Rightarrow> int \<Rightarrow> arg list \<Rightarrow> nat \<Rightarrow> (string \<times> (nat \<times> nat) list \<times> arg list) option" where
  "conversion_other ch fl mn mx args n =
     (if ch = CHR ''c'' then map_option (\<lambda>(v, args). ([char_of (unat v)], [], args)) (va_int args)
      else if ch = CHR ''p''
      then (case args of APtr v # args \<Rightarrow> Some (int_text v 16 mn mx fl, [], args) | _ \<Rightarrow> None)
      else if ch = CHR ''n'' then (case args of ACount p # args \<Rightarrow> Some ([], [(p, n)], args) | _ \<Rightarrow> None)
      else if ch = CHR ''%'' then Some (''%'', [], args)
      else Some ([], [], args))"

definition conversion ::
  "char \<Rightarrow> flags \<Rightarrow> int \<Rightarrow> int \<Rightarrow> dp_cflags \<Rightarrow> arg list \<Rightarrow> nat \<Rightarrow> (string \<times> (nat \<times> nat) list \<times> arg list) option" where
  "conversion ch fl mn mx cf args n =
     (let int_conv = (\<lambda>base b. map_option (\<lambda>(v, args). (int_text v base mn mx (fl OR b), [], args)) (va_value cf args)) in
      if ch = CHR ''d'' \<or> ch = CHR ''i'' then int_conv 10 0
      else if ch = CHR ''o'' then int_conv 8 DP_F_UNSIGNED
      else if ch = CHR ''u'' then int_conv 10 DP_F_UNSIGNED
      else if ch = CHR ''X'' then int_conv 16 (DP_F_UP OR DP_F_UNSIGNED)
      else if ch = CHR ''x'' then int_conv 16 DP_F_UNSIGNED
      else if ch \<in> {CHR ''f'', CHR ''e'', CHR ''g'', CHR ''E'', CHR ''G''}
      then (case args of ADbl v # args \<Rightarrow> Some (fp_text v mn mx fl, [], args) | _ \<Rightarrow> None)
      else if ch = CHR ''s''
      then (case args of
              AStr p # args \<Rightarrow>
                (let value = (case p of None \<Rightarrow> ''(NULL)'' | Some v \<Rightarrow> v);
                     mx = (if mx = -1 then int (length value) else mx)
                 in Some (str_text value mn (if mx \<ge> 0 then max mn mx else mx) fl, [], args))
            | _ \<Rightarrow> None)
      else conversion_other ch fl mn mx args n)"

lemma parse_flags_length: "parse_flags f fl = (fl', f') \<Longrightarrow> length f' \<le> length f \<and> set f' \<subseteq> set f"
  by (induction f fl rule: parse_flags.induct) (auto split: option.splits)

lemma parse_digits_length: "parse_digits f n = Some (n', f') \<Longrightarrow> length f' \<le> length f \<and> set f' \<subseteq> set f"
  by (induction f n rule: parse_digits.induct) (auto split: option.splits if_splits)

lemma parse_number_length: "parse_number f n args = Some (n', f', args') \<Longrightarrow> length f' \<le> length f \<and> set f' \<subseteq> set f"
  using parse_digits_length [of f n]
  by (fastforce simp: parse_number_def split: bind_splits list.splits if_splits)

lemma parse_precision_length: "parse_precision f args = Some (n', f', args') \<Longrightarrow> length f' \<le> length f \<and> set f' \<subseteq> set f"
  by (auto simp: parse_precision_def split: list.splits if_splits dest!: parse_number_length)

lemma parse_modifier_length: "parse_modifier f = (cf, f') \<Longrightarrow> length f' \<le> length f \<and> set f' \<subseteq> set f"
  by (cases f rule: parse_modifier.cases) (auto split: list.splits if_splits)

text \<open>A directive behind its \<open>%\<close>: flags, width, precision, modifier, the rest from the conversion on and the
  remaining arguments.\<close>

definition directive :: "string \<Rightarrow> arg list \<Rightarrow> (flags \<times> int \<times> int \<times> dp_cflags \<times> string \<times> arg list) option" where
  "directive f args =
     (let (fl, f) = parse_flags f 0
      in do { (mn, f, args) \<leftarrow> parse_number f 0 args;
              (mx, f, args) \<leftarrow> parse_precision f args;
              let (cf, f) = parse_modifier f;
              Some (fl, mn, mx, cf, f, args) })"

lemma directive_length:
  "directive f args = Some (fl, mn, mx, cf, f', args') \<Longrightarrow> length f' \<le> length f \<and> set f' \<subseteq> set f"
  by (auto simp: directive_def Let_def split: prod.splits bind_splits dest!: parse_flags_length parse_number_length
      parse_precision_length parse_modifier_length)

text \<open>The text that a format prints when \<open>n\<close> characters have been printed, and what \<open>%n\<close> stores.\<close>

function render :: "string \<Rightarrow> arg list \<Rightarrow> nat \<Rightarrow> (string \<times> (nat \<times> nat) list) option" where
  "render [] args n = Some ([], [])"
| "render (c # f) args n =
     (if c \<noteq> CHR ''%'' then map_option (\<lambda>(t, cs). (c # t, cs)) (render f args (n + 1))
      else (case directive f args of
              None \<Rightarrow> None
            | Some (fl, mn, mx, cf, f', args) \<Rightarrow>
                (case f' of
                   [] \<Rightarrow> Some ([], [])
                 | k # g \<Rightarrow>
                     if k = CHR ''w'' then (case g of [] \<Rightarrow> None | _ # g \<Rightarrow> render g args n)
                     else (case conversion k fl mn mx cf args n of
                             None \<Rightarrow> None
                           | Some (t, cs, args) \<Rightarrow>
                               map_option (\<lambda>(t', cs'). (t @ t', cs @ cs')) (render g args (n + length t))))))"
  by pat_completeness auto
termination
  by (relation "measure (\<lambda>(f, args, n). length f)") (auto dest!: directive_length)

text \<open>The state of the machine at a place of the format.\<close>

definition mk :: "dp_state \<Rightarrow> string \<Rightarrow> flags \<Rightarrow> int \<Rightarrow> int \<Rightarrow> dp_cflags \<Rightarrow> arg list \<Rightarrow> out \<Rightarrow> (nat \<times> nat) list \<Rightarrow> dstate" where
  "mk q f fl mn mx cf args ou cs =
     \<lparr>d_state = q, d_ch = hd (f @ [NUL]), d_fmt = tl (f @ [NUL]), d_min = mn, d_max = mx, d_flags = fl, d_cflags = cf,
       d_args = args, d_out = ou, d_counts = cs\<rparr>"

lemma next_ch_mk [simp]: "next_ch (mk q (c # f) fl mn mx cf args ou cs) = Some (mk q f fl mn mx cf args ou cs)"
  by (cases f) (simp_all add: next_ch_def mk_def)

lemma next_ch_mk_end [simp]: "next_ch (mk q [] fl mn mx cf args ou cs) = None"
  by (simp add: next_ch_def mk_def)

lemma mk_sel [simp]:
  "d_state (mk q f fl mn mx cf args ou cs) = q" "d_ch (mk q (c # f) fl mn mx cf args ou cs) = c"
  "d_ch (mk q [] fl mn mx cf args ou cs) = NUL" "d_min (mk q f fl mn mx cf args ou cs) = mn"
  "d_max (mk q f fl mn mx cf args ou cs) = mx" "d_flags (mk q f fl mn mx cf args ou cs) = fl"
  "d_cflags (mk q f fl mn mx cf args ou cs) = cf" "d_args (mk q f fl mn mx cf args ou cs) = args"
  "d_out (mk q f fl mn mx cf args ou cs) = ou" "d_counts (mk q f fl mn mx cf args ou cs) = cs"
  by (simp_all add: mk_def)

lemma mk_upd [simp]:
  "(mk q f fl mn mx cf args ou cs)\<lparr>d_state := q'\<rparr> = mk q' f fl mn mx cf args ou cs"
  "(mk q f fl mn mx cf args ou cs)\<lparr>d_flags := fl'\<rparr> = mk q f fl' mn mx cf args ou cs"
  "(mk q f fl mn mx cf args ou cs)\<lparr>d_min := mn'\<rparr> = mk q f fl mn' mx cf args ou cs"
  "(mk q f fl mn mx cf args ou cs)\<lparr>d_max := mx'\<rparr> = mk q f fl mn mx' cf args ou cs"
  "(mk q f fl mn mx cf args ou cs)\<lparr>d_cflags := cf'\<rparr> = mk q f fl mn mx cf' args ou cs"
  "(mk q f fl mn mx cf args ou cs)\<lparr>d_args := args'\<rparr> = mk q f fl mn mx cf args' ou cs"
  "(mk q f fl mn mx cf args ou cs)\<lparr>d_out := ou'\<rparr> = mk q f fl mn mx cf args ou' cs"
  "(mk q f fl mn mx cf args ou cs)\<lparr>d_counts := cs'\<rparr> = mk q f fl mn mx cf args ou cs'"
  by (simp_all add: mk_def)

text \<open>One round, and the end of the format.\<close>

lemma loop_round:
  "NUL \<noteq> c \<Longrightarrow> q \<noteq> DP_S_DONE \<Longrightarrow> dopr_loop buf maxlen (mk q (c # f) fl mn mx cf args ou cs)
    = (case (case q of
        DP_S_DEFAULT \<Rightarrow> dp_default buf maxlen (mk q (c # f) fl mn mx cf args ou cs)
      | DP_S_FLAGS \<Rightarrow> dp_flags_state (mk q (c # f) fl mn mx cf args ou cs)
      | DP_S_MIN \<Rightarrow> dp_min (mk q (c # f) fl mn mx cf args ou cs)
      | DP_S_DOT \<Rightarrow> dp_dot (mk q (c # f) fl mn mx cf args ou cs)
      | DP_S_MAX \<Rightarrow> dp_max (mk q (c # f) fl mn mx cf args ou cs)
      | DP_S_MOD \<Rightarrow> dp_mod (mk q (c # f) fl mn mx cf args ou cs)
      | DP_S_CONV \<Rightarrow> dp_conv buf maxlen (mk q (c # f) fl mn mx cf args ou cs)
      | DP_S_DONE \<Rightarrow> Some (mk q (c # f) fl mn mx cf args ou cs)) of
        None \<Rightarrow> None | Some s \<Rightarrow> dopr_loop buf maxlen s)"
  by (subst dopr_loop.simps) (auto simp: dopr_step_def Let_def)

lemma loop_end:
  "dopr_loop buf maxlen (mk q [] fl mn mx cf args ou cs) = Some (mk DP_S_DONE [] fl mn mx cf args ou cs)"
proof -
  have fin: "dopr_loop buf maxlen (mk DP_S_DONE [] fl mn mx cf args ou cs) = Some (mk DP_S_DONE [] fl mn mx cf args ou cs)"
    by (subst dopr_loop.simps) simp
  show ?thesis by (cases "q = DP_S_DONE") (simp add: fin, subst dopr_loop.simps, simp add: dopr_step_def Let_def fin)
qed

lemma loop_flags:
  "NUL \<notin> set f \<Longrightarrow> dopr_loop buf maxlen (mk DP_S_FLAGS f fl mn mx cf args ou cs)
    = (let (fl', f') = parse_flags f fl in dopr_loop buf maxlen (mk DP_S_MIN f' fl' mn mx cf args ou cs))"
proof (induction f fl rule: parse_flags.induct)
  case (2 c f fl)
  then show ?case by (cases "flag_of c") (simp_all add: loop_round dp_flags_state_def)
qed (simp add: loop_end)


lemma loop_digits_min:
  "NUL \<notin> set f \<Longrightarrow> dopr_loop buf maxlen (mk DP_S_MIN f fl mn mx cf args ou cs)
    = (case parse_digits f mn of None \<Rightarrow> None | Some (mn', f') \<Rightarrow> dopr_loop buf maxlen (mk DP_S_MIN f' fl mn' mx cf args ou cs))"
  if "0 \<le> mn" for mn
  using that
proof (induction f mn rule: parse_digits.induct)
  case (2 c f n)
  show ?case
  proof (cases "isdigit c")
    case True
    then show ?thesis using 2 by (auto simp: loop_round dp_min_def add_digit_def Let_def not_less split: option.splits)
  qed simp
qed simp

lemma parse_digits_end: "parse_digits f n = Some (n', f') \<Longrightarrow> f' = [] \<or> \<not> isdigit (hd f')"
  by (induction f n rule: parse_digits.induct) (auto split: if_splits option.splits)

lemma loop_min:
  assumes "NUL \<notin> set f"
  shows "dopr_loop buf maxlen (mk DP_S_MIN f fl 0 mx cf args ou cs)
    = (case parse_number f 0 args of None \<Rightarrow> None
       | Some (mn', f', args') \<Rightarrow> dopr_loop buf maxlen (mk DP_S_DOT f' fl mn' mx cf args' ou cs))"
proof (cases "parse_digits f 0")
  case None
  then show ?thesis using loop_digits_min [OF _ assms] by (simp add: parse_number_def)
next
  case (Some r)
  obtain n g where r: "parse_digits f 0 = Some (n, g)" using Some by (cases r) auto
  have N: "NUL \<notin> set g" using parse_digits_length [OF r] assms by blast
  have l: "dopr_loop buf maxlen (mk DP_S_MIN f fl 0 mx cf args ou cs) = dopr_loop buf maxlen (mk DP_S_MIN g fl n mx cf args ou cs)"
    using loop_digits_min [OF _ assms] r by simp
  show ?thesis
  proof (cases g)
    case Nil
    then show ?thesis using l r by (simp add: parse_number_def loop_end)
  next
    case (Cons c g')
    then have "\<not> isdigit c" "NUL \<noteq> c" using parse_digits_end [OF r] N by auto
    then show ?thesis using l r Cons
      by (auto simp: parse_number_def loop_round dp_min_def split: option.splits bind_splits)
  qed
qed

lemma loop_digits_max:
  "NUL \<notin> set f \<Longrightarrow> dopr_loop buf maxlen (mk DP_S_MAX f fl mn mx cf args ou cs)
    = (case parse_digits f mx of None \<Rightarrow> None | Some (mx', f') \<Rightarrow> dopr_loop buf maxlen (mk DP_S_MAX f' fl mn mx' cf args ou cs))"
proof (induction f mx rule: parse_digits.induct)
  case (2 c f n)
  show ?case
  proof (cases "isdigit c")
    case True
    then show ?thesis using 2 by (auto simp: loop_round dp_max_def split: option.splits)
  qed simp
qed simp

lemma loop_max:
  assumes "NUL \<notin> set f"
  shows "dopr_loop buf maxlen (mk DP_S_MAX f fl mn mx cf args ou cs)
    = (case parse_number f mx args of None \<Rightarrow> None
       | Some (mx', f', args') \<Rightarrow> dopr_loop buf maxlen (mk DP_S_MOD f' fl mn mx' cf args' ou cs))"
proof (cases "parse_digits f mx")
  case None
  then show ?thesis using loop_digits_max [OF assms] by (simp add: parse_number_def)
next
  case (Some r)
  obtain n g where r: "parse_digits f mx = Some (n, g)" using Some by (cases r) auto
  have N: "NUL \<notin> set g" using parse_digits_length [OF r] assms by blast
  have l: "dopr_loop buf maxlen (mk DP_S_MAX f fl mn mx cf args ou cs) = dopr_loop buf maxlen (mk DP_S_MAX g fl mn n cf args ou cs)"
    using loop_digits_max [OF assms] r by simp
  show ?thesis
  proof (cases g)
    case Nil
    then show ?thesis using l r by (simp add: parse_number_def loop_end)
  next
    case (Cons c g')
    then have "\<not> isdigit c" "NUL \<noteq> c" using parse_digits_end [OF r] N by auto
    then show ?thesis using l r Cons
      by (auto simp: parse_number_def loop_round dp_max_def split: option.splits bind_splits)
  qed
qed

lemma loop_dot:
  assumes "NUL \<notin> set f"
  shows "dopr_loop buf maxlen (mk DP_S_DOT f fl mn (-1) cf args ou cs)
    = (case parse_precision f args of None \<Rightarrow> None
       | Some (mx', f', args') \<Rightarrow> dopr_loop buf maxlen (mk DP_S_MOD f' fl mn mx' cf args' ou cs))"
  using assms by (cases f) (auto simp: parse_precision_def loop_end loop_round dp_dot_def loop_max split: option.splits)

lemma loop_mod:
  assumes "NUL \<notin> set f"
  shows "dopr_loop buf maxlen (mk DP_S_MOD f fl mn mx DP_C_NONE args ou cs)
    = (let (cf', f') = parse_modifier f in dopr_loop buf maxlen (mk DP_S_CONV f' fl mn mx cf' args ou cs))"
proof (cases f)
  case (Cons c g)
  then show ?thesis using assms
    by (cases g) (auto simp: loop_end loop_round dp_mod_def)
qed (simp add: loop_end)

lemma loop_directive:
  assumes "NUL \<notin> set f"
  shows "dopr_loop buf maxlen (mk DP_S_FLAGS f 0 0 (-1) DP_C_NONE args ou cs)
    = (case directive f args of None \<Rightarrow> None
       | Some (fl, mn, mx, cf, f', args') \<Rightarrow> dopr_loop buf maxlen (mk DP_S_CONV f' fl mn mx cf args' ou cs))"
proof -
  obtain fl f1 where 1: "parse_flags f 0 = (fl, f1)" by fastforce
  have N1: "NUL \<notin> set f1" using parse_flags_length [OF 1] assms by blast
  show ?thesis
  proof (cases "parse_number f1 0 args")
    case None
    then show ?thesis using 1 by (simp add: directive_def loop_flags [OF assms] loop_min [OF N1])
  next
    case (Some r)
    obtain mn f2 args2 where 2: "parse_number f1 0 args = Some (mn, f2, args2)" using Some by (cases r) auto
    have N2: "NUL \<notin> set f2" using parse_number_length [OF 2] N1 by blast
    show ?thesis
    proof (cases "parse_precision f2 args2")
      case None
      then show ?thesis using 1 2 by (simp add: directive_def loop_flags [OF assms] loop_min [OF N1] loop_dot [OF N2])
    next
      case (Some r)
      obtain mx f3 args3 where 3: "parse_precision f2 args2 = Some (mx, f3, args3)" using Some by (cases r) auto
      have N3: "NUL \<notin> set f3" using parse_precision_length [OF 3] N2 by blast
      show ?thesis using 1 2 3
        by (simp add: directive_def loop_flags [OF assms] loop_min [OF N1] loop_dot [OF N2] loop_mod [OF N3] split: prod.splits)
    qed
  qed
qed

text \<open>A conversion hands over its text.\<close>

lemma if_both: "(A \<Longrightarrow> F X = G x) \<Longrightarrow> (\<not> A \<Longrightarrow> F Y = G y) \<Longrightarrow> F (if A then X else Y) = G (if A then x else y)"
  by simp

lemma convert_arg_conversion:
  assumes "fits h buf maxlen" and "c \<noteq> CHR ''w''"
  shows "map_option (\<lambda>s. s\<lparr>d_flags := 0\<rparr>) (convert_arg buf maxlen (mk DP_S_CONV (c # f) fl mn mx cf args (written h buf maxlen t) cs))
    = map_option (\<lambda>(tx, cs', args'). mk DP_S_CONV (c # f) 0 mn mx cf args' (written h buf maxlen (t @ tx)) (cs @ cs'))
        (conversion c fl mn mx cf args (length t))"
proof -
  let ?s = "mk DP_S_CONV (c # f) fl mn mx cf args (written h buf maxlen t) cs"
  define F :: "dstate option \<Rightarrow> dstate option" where "F = map_option (\<lambda>s. s\<lparr>d_flags := 0\<rparr>)"
  define G where "G = map_option (\<lambda>(tx, cs', args'). mk DP_S_CONV (c # f) 0 mn mx cf args' (written h buf maxlen (t @ tx)) (cs @ cs'))"
  note txts = fmtint_text [OF assms(1)] fmtfp_text [OF assms(1)] fmtstr_text [OF assms(1)] outch_written [OF assms(1)]
  have ints: "F (conv_int buf maxlen base b ?s)
    = G (map_option (\<lambda>(v, args). (int_text v base mn mx (fl OR b), [], args)) (va_value cf args))" for base b
    unfolding F_def G_def by (auto simp: conv_int_def txts Let_def split: bind_splits option.splits)
  have fp: "F (conv_fp buf maxlen ?s) = G (case args of ADbl v # args \<Rightarrow> Some (fp_text v mn mx fl, [], args) | _ \<Rightarrow> None)"
    unfolding F_def G_def by (auto simp: conv_fp_def txts split: list.splits arg.splits)
  have mx: "(if 0 < mn \<and> m \<ge> 0 \<and> mn > m then mn else m) = (if m \<ge> 0 then max mn m else m)" for m by auto
  have str: "F (conv_str buf maxlen ?s)
    = G (case args of AStr p # args \<Rightarrow>
                (let value = (case p of None \<Rightarrow> ''(NULL)'' | Some v \<Rightarrow> v);
                     mx = (if mx = -1 then int (length value) else mx)
                 in Some (str_text value mn (if mx \<ge> 0 then max mn mx else mx) fl, [], args)) | _ \<Rightarrow> None)"
    unfolding F_def G_def conv_str_def Let_def mk_sel mx by (auto simp: txts Let_def split: list.splits arg.splits)
  have other: "F (conv_other buf maxlen ?s) = G (conversion_other c fl mn mx args (length t))"
    unfolding conv_other_def conversion_other_def Let_def mk_sel
    apply (rule if_both, (simp add: F_def G_def txts split: bind_splits option.splits; fastforce)[1])
    apply (rule if_both, (simp add: F_def G_def txts split: list.splits arg.splits)[1])
    apply (rule if_both, (simp add: F_def G_def written_def [of _ _ _ t] split: list.splits arg.splits)[1])
    apply (rule if_both, (simp add: F_def G_def txts)[1])
    using assms(2) by (simp add: F_def G_def)
  show ?thesis
    unfolding F_def [symmetric] G_def [symmetric] convert_arg_def conversion_def Let_def mk_sel
    by (rule if_both, rule ints)+ (rule if_both, rule fp, rule if_both, rule str [unfolded Let_def], rule other)
qed

lemma loop_conv:
  assumes "fits h buf maxlen" and "NUL \<notin> set (c # f)" and "c \<noteq> CHR ''w''"
  shows "dopr_loop buf maxlen (mk DP_S_CONV (c # f) fl mn mx cf args (written h buf maxlen t) cs)
    = (case conversion c fl mn mx cf args (length t) of None \<Rightarrow> None
       | Some (tx, cs', args') \<Rightarrow>
           dopr_loop buf maxlen (mk DP_S_DEFAULT f 0 0 (-1) DP_C_NONE args' (written h buf maxlen (t @ tx)) (cs @ cs')))"
proof -
  let ?s = "mk DP_S_CONV (c # f) fl mn mx cf args (written h buf maxlen t) cs"
  note e = convert_arg_conversion [OF assms(1,3), of f fl mn mx cf args t cs]
  have step: "dp_conv buf maxlen ?s
    = (case map_option (\<lambda>s. s\<lparr>d_flags := 0\<rparr>) (convert_arg buf maxlen ?s) of None \<Rightarrow> None
       | Some s \<Rightarrow> map_option (\<lambda>s. s\<lparr>d_state := DP_S_DEFAULT, d_flags := 0, d_cflags := DP_C_NONE, d_min := 0, d_max := -1\<rparr>) (next_ch s))"
    by (auto simp: dp_conv_def next_ch_def split: bind_splits option.splits list.splits)
  show ?thesis using assms(2)
    by (auto simp: loop_round step e split: option.splits)
qed


lemma loop_w:
  assumes "NUL \<notin> set f"
  shows "dopr_loop buf maxlen (mk DP_S_CONV (CHR ''w'' # f) fl mn mx cf args ou cs)
    = (case f of [] \<Rightarrow> None | _ # g \<Rightarrow> dopr_loop buf maxlen (mk DP_S_DEFAULT g 0 0 (-1) DP_C_NONE args ou cs))"
  by (cases f) (simp_all add: loop_round dp_conv_def convert_arg_def conv_other_def Let_def)

text \<open>What the machine has printed when it stops.\<close>

abbreviation result :: "dstate option \<Rightarrow> (out \<times> (nat \<times> nat) list) option" where
  "result \<equiv> map_option (\<lambda>s. (d_out s, d_counts s))"

lemma loop_render:
  assumes "fits h buf maxlen"
  shows "NUL \<notin> set f \<Longrightarrow> result (dopr_loop buf maxlen (mk DP_S_DEFAULT f 0 0 (-1) DP_C_NONE args (written h buf maxlen t) cs))
    = map_option (\<lambda>(tx, cs'). (written h buf maxlen (t @ tx), cs @ cs')) (render f args (length t))"
proof (induction "length f" arbitrary: f args t cs rule: less_induct)
  case less
  show ?case
  proof (cases f)
    case Nil
    then show ?thesis by (simp add: loop_end)
  next
    case (Cons c g)
    have N: "NUL \<noteq> c" "NUL \<notin> set g" using less.prems Cons by auto
    show ?thesis
    proof (cases "c = CHR ''%''")
      case False
      have "result (dopr_loop buf maxlen (mk DP_S_DEFAULT f 0 0 (-1) DP_C_NONE args (written h buf maxlen t) cs))
        = result (dopr_loop buf maxlen (mk DP_S_DEFAULT g 0 0 (-1) DP_C_NONE args (written h buf maxlen (t @ [c])) cs))"
        using False N Cons by (simp add: loop_round dp_default_def outch_written [OF assms])
      then show ?thesis using less.hyps [of g args "t @ [c]" cs] False N Cons
        by (simp add: option.map_comp comp_def case_prod_unfold)
    next
      case True
      have l: "dopr_loop buf maxlen (mk DP_S_DEFAULT f 0 0 (-1) DP_C_NONE args (written h buf maxlen t) cs)
        = dopr_loop buf maxlen (mk DP_S_FLAGS g 0 0 (-1) DP_C_NONE args (written h buf maxlen t) cs)"
        using True N Cons by (simp add: loop_round dp_default_def)
      show ?thesis
      proof (cases "directive g args")
        case None
        then show ?thesis using l loop_directive [OF N(2)] True Cons by simp
      next
        case (Some r)
        obtain fl mn mx cf f' args' where d: "directive g args = Some (fl, mn, mx, cf, f', args')" using Some by (cases r) auto
        have l2: "dopr_loop buf maxlen (mk DP_S_DEFAULT f 0 0 (-1) DP_C_NONE args (written h buf maxlen t) cs)
          = dopr_loop buf maxlen (mk DP_S_CONV f' fl mn mx cf args' (written h buf maxlen t) cs)"
          using l loop_directive [OF N(2)] d by simp
        have f': "length f' \<le> length g" "NUL \<notin> set f'" using directive_length [OF d] N(2) by auto
        show ?thesis
        proof (cases f')
          case Nil
          then show ?thesis using l2 d True Cons by (simp add: loop_end)
        next
          case k: (Cons k e)
          show ?thesis
          proof (cases "k = CHR ''w''")
            case w: True
            have Ne: "NUL \<notin> set e" using f'(2) k by simp
            show ?thesis
            proof (cases e)
              case Nil
              then show ?thesis using l2 d True Cons k w loop_w [OF Ne] by simp
            next
              case e: (Cons x e')
              have "length e' < length f" "NUL \<notin> set e'" using f' k e Cons by auto
              from less.hyps [OF this, of args' t cs] show ?thesis using l2 d True Cons k w e loop_w [OF Ne] by simp
            qed
          next
            case False
            note c = loop_conv [OF assms f'(2) [unfolded k] False]
            show ?thesis
            proof (cases "conversion k fl mn mx cf args' (length t)")
              case None
              then show ?thesis using l2 d True Cons k False c by simp
            next
              case (Some r)
              obtain tx cs' args2 where r: "conversion k fl mn mx cf args' (length t) = Some (tx, cs', args2)"
                using Some by (cases r) auto
              have "length e < length f" "NUL \<notin> set e" using f' k Cons by auto
              from less.hyps [OF this, of args2 "t @ tx" "cs @ cs'"] show ?thesis
                using l2 d True Cons k False c r by (simp add: option.map_comp comp_def case_prod_unfold)
            qed
          qed
        qed
      qed
    qed
  qed
qed

lemma dopr_start_mk: "dopr_start h f args = Some (mk DP_S_DEFAULT f 0 0 (-1) DP_C_NONE args (h, 0) [])"
  by (cases f) (simp_all add: dopr_start_def next_ch_def mk_def)

lemma put_put_same: "fits h p 1 \<Longrightarrow> put (put h p [x]) p [c] = put h p [c]"
  by (auto simp: put_def fits_def fun_eq_iff)

text \<open>The buffer holds as much of the text as fits, with a terminator.\<close>

definition truncated :: "nat \<Rightarrow> string \<Rightarrow> string" where
  "truncated maxlen tx = (if maxlen = 0 then [] else take (maxlen - 1) tx @ [NUL])"

lemma dopr_render:
  assumes "fits h buf maxlen" and "NUL \<notin> set fmt"
  shows "dopr h buf maxlen fmt args
    = map_option (\<lambda>(tx, cs). (put h buf (truncated maxlen tx), length tx, cs)) (render fmt args 0)"
proof -
  have w: "written h buf maxlen [] = (h, 0)" by (simp add: written_def)
  note r = loop_render [OF assms, of args "[]" "[]", unfolded w]
  have fin: "(if maxlen \<noteq> 0 then (if length tx < maxlen - 1 then st (put h buf (take maxlen tx)) (padd buf (length tx)) NUL
      else if maxlen > 0 then st (put h buf (take maxlen tx)) (padd buf (maxlen - 1)) NUL else Some (put h buf (take maxlen tx)))
      else Some (put h buf (take maxlen tx))) = Some (put h buf (truncated maxlen tx))" for tx
  proof (cases "maxlen = 0")
    case False
    let ?k = "min (length tx) (maxlen - 1)"
    have fk: "fits h buf (?k + 1)" by (rule fits_mono [OF assms(1)]) (use False in auto)
    show ?thesis
    proof (cases "length tx < maxlen - 1")
      case True
      have ft: "fits h buf (length tx)" by (rule fits_mono [OF fk]) (use True in auto)
      then have "fits (put h buf tx) (padd buf (length tx)) 1" using fits_padd [of h buf "length tx" 1] fk True by simp
      then have "st (put h buf tx) (padd buf (length tx)) NUL = Some (put h buf (tx @ [NUL]))"
        using put_append [of h buf tx "[NUL]"] fk True by (simp add: st_put)
      then show ?thesis using True False by (simp add: truncated_def)
    next
      case len: False
      let ?m = "maxlen - 1" and ?t = "take maxlen tx"
      have fm: "fits h buf (length ?t)" by (rule fits_mono [OF assms(1)]) simp
      have "fits (put h buf ?t) (padd buf ?m) 1" using fits_padd [of h buf ?m 1] assms(1) False fm by simp
      moreover have "put (put h buf ?t) (padd buf ?m) [NUL] = put h buf (take ?m tx @ [NUL])"
      proof -
        have lm: "length (take ?m tx) = ?m" using len by simp
        have f1: "fits h buf (length (take ?m tx) + 1)" using assms(1) False lm by simp
        have f2: "fits h buf (length (take ?m tx))" by (rule fits_mono [OF f1]) simp
        have e: "put (put h buf (take ?m tx)) (padd buf ?m) [c] = put h buf (take ?m tx @ [c])" for c
          using put_append [of h buf "take ?m tx" "[c]"] f1 lm by simp
        have f3: "fits (put h buf (take ?m tx)) (padd buf ?m) 1" using fits_padd [of h buf ?m 1] f1 f2 lm by simp
        show ?thesis
        proof (cases "length tx = ?m")
          case True
          then show ?thesis using e by simp
        next
          case more: False
          then have "?t = take ?m tx @ [tx ! ?m]" using len False take_Suc_conv_app_nth [of ?m tx] by simp
          then have "put h buf ?t = put (put h buf (take ?m tx)) (padd buf ?m) [tx ! ?m]" using e by simp
          then show ?thesis using put_put_same [OF f3] e by simp
        qed
      qed
      ultimately show ?thesis using len False by (simp add: st_put truncated_def)
    qed
  qed (simp add: truncated_def)
  show ?thesis
  proof (cases "render fmt args 0")
    case None
    then show ?thesis using r by (simp add: dopr_def dopr_start_mk)
  next
    case (Some p)
    obtain tx cs where p: "render fmt args 0 = Some (tx, cs)" using Some by (cases p) auto
    then obtain s where "dopr_loop buf maxlen (mk DP_S_DEFAULT fmt 0 0 (-1) DP_C_NONE args (h, 0) []) = Some s"
      "d_out s = (put h buf (take maxlen tx), length tx)" "d_counts s = cs"
      using r by (auto simp: written_def)
    then show ?thesis using p fin [of tx] by (simp add: dopr_def dopr_start_mk)
  qed
qed


section \<open>Allocating the text\<close>

text \<open>What \<open>vasprintf\<close> needs of a formatter: it truncates, terminates and returns the full length.\<close>

locale formatter =
  fixes vsn :: "store \<Rightarrow> ptr \<Rightarrow> nat \<Rightarrow> string \<Rightarrow> arg list \<Rightarrow> (store \<times> nat \<times> (nat \<times> nat) list) option"
    and text_of :: "string \<Rightarrow> arg list \<Rightarrow> (string \<times> (nat \<times> nat) list) option"
  assumes vsn_text: "fits h buf n \<Longrightarrow> NUL \<notin> set fmt \<Longrightarrow>
    vsn h buf n fmt args = map_option (\<lambda>(tx, cs). (put h buf (truncated n tx), length tx, cs)) (text_of fmt args)"
begin

lemma allocated:
  assumes "text_of fmt ap = Some (tx, cs)" and "NUL \<notin> set fmt" and "length tx < 2 ^ 31"
  shows "vasprintf_with vsn ob g h fmt ap =
    (if tx = [] then Some (h, None, 0)
     else case ob of None \<Rightarrow> Some (h, None, -1)
        | Some p \<Rightarrow> Some (h(p := tx @ [NUL]), Some (p, 0), int (length tx)))"
proof -
  have len: "sint (word_of_nat (length tx) :: 32 word) = int (length tx)"
    using assms(3) by (simp add: signed_of_nat signed_take_bit_int_eq_self)
  have first: "vsn h (0, 0) 0 fmt ap = Some (h, length tx, cs)"
    using vsn_text [OF _ assms(2), of h "(0, 0)" 0 ap] assms(1) by (simp add: fits_def truncated_def)
  have second: "vsn (h(p := replicate (length tx + 1) g)) (p, 0) (length tx + 1) fmt ap
    = Some (h(p := tx @ [NUL]), length tx, cs)" for p
  proof -
    have "put (h(p := replicate (length tx + 1) g)) (p, 0) (truncated (length tx + 1) tx) = h(p := tx @ [NUL])"
      by (simp add: put_def truncated_def fun_eq_iff)
    then show ?thesis
      using vsn_text [OF _ assms(2), of "h(p := replicate (length tx + 1) g)" "(p, 0)" "length tx + 1" ap] assms(1)
      by (simp add: fits_def)
  qed
  show ?thesis using first second len by (auto simp: vasprintf_with_def Let_def split: option.splits)
qed

end

lemma vsnprintf_render:
  "fits h buf n \<Longrightarrow> NUL \<notin> set fmt \<Longrightarrow>
    vsnprintf h buf n fmt args = map_option (\<lambda>(tx, cs). (put h buf (truncated n tx), length tx, cs)) (render fmt args 0)"
  by (simp add: vsnprintf_def dopr_render)

interpretation printf: formatter vsnprintf "\<lambda>fmt args. render fmt args 0"
  by unfold_locales (rule vsnprintf_render)

section \<open>Numbers are read back\<close>

definition digit_value :: "char \<Rightarrow> nat" where
  "digit_value c = (if isdigit c then ccode c - 48 else if islower c then ccode c - 87 else ccode c - 55)"

definition read_number :: "nat \<Rightarrow> string \<Rightarrow> nat" where
  "read_number base s = foldl (\<lambda>n c. n * base + digit_value c) 0 s"

lemma digit_value_char: "unat d < 16 \<Longrightarrow> digit_value (digit_char caps d) = unat d"
proof -
  assume d: "unat d < 16"
  have all: "\<forall>n < 16. digit_value (''0123456789ABCDEF'' ! n) = n \<and> digit_value (''0123456789abcdef'' ! n) = n"
    by (simp add: All_less_Suc numeral_eq_Suc; code_simp)
  then show ?thesis using d by (simp add: digit_char_def)
qed


lemma read_number_snoc: "read_number b (s @ [c]) = read_number b s * b + digit_value c"
  by (simp add: read_number_def)

lemma convert_loop_value:
  assumes "2 \<le> unat base" and "unat base \<le> 16"
  shows "unat u < unat base ^ m \<Longrightarrow> 1 \<le> m \<Longrightarrow> m \<le> k \<Longrightarrow>
    read_number (unat base) (rev (convert_loop k caps base u)) = unat u
    \<and> length (convert_loop k caps base u) \<le> m \<and> convert_loop k caps base u \<noteq> []
    \<and> (u \<noteq> 0 \<longrightarrow> digit_value (last (convert_loop k caps base u)) \<noteq> 0)"
proof (induction m arbitrary: u k)
  case (Suc m)
  obtain k' where k: "k = Suc k'" using Suc.prems(3) by (cases k) auto
  have md: "unat (u mod base) = unat u mod unat base" "unat (u div base) = unat u div unat base"
    by (simp_all add: unat_mod unat_div)
  have lt: "unat (u mod base) < 16" using assms md(1) by (metis le_trans less_le_trans mod_less_divisor not_numeral_le_zero gr0I)
  note dv = digit_value_char [OF lt, of caps]
  show ?case
  proof (cases "u div base = 0")
    case True
    then have "unat u div unat base = 0" using md(2) by simp
    then have "unat u < unat base" using assms(1) by (simp add: div_eq_0_iff)
    then have e: "unat (u mod base) = unat u" using md(1) by simp
    then show ?thesis using True k dv by (auto simp: read_number_def unat_eq_0)
  next
    case False
    have "unat u div unat base < unat base ^ m"
      using Suc.prems(1) assms(1) by (simp add: less_mult_imp_div_less mult.commute)
    moreover have "1 \<le> m"
    proof (rule ccontr)
      assume "\<not> 1 \<le> m"
      then have "m = 0" by simp
      then have "unat u div unat base = 0" using calculation by simp
      then show False using False md(2) by (metis unat_eq_0)
    qed
    ultimately have "read_number (unat base) (rev (convert_loop k' caps base (u div base))) = unat (u div base)
      \<and> length (convert_loop k' caps base (u div base)) \<le> m \<and> convert_loop k' caps base (u div base) \<noteq> []
      \<and> (u div base \<noteq> 0 \<longrightarrow> digit_value (last (convert_loop k' caps base (u div base))) \<noteq> 0)"
      using Suc.IH [of "u div base" k'] Suc.prems(3) k md(2) by simp
    moreover have "unat (u div base) * unat base + unat (u mod base) = unat u" using md by simp
    ultimately show ?thesis using False k dv by (simp add: read_number_snoc)
  qed
qed simp

text \<open>The digits of every 32 bit number fit into \<open>convert\<close>.\<close>

lemma convert_digits:
  assumes "base = 8 \<or> base = 10 \<or> base = 16"
  shows "read_number (unat base) (rev (take 19 (convert_loop 20 caps base u))) = unat u
    \<and> (u \<noteq> 0 \<longrightarrow> digit_value (hd (rev (take 19 (convert_loop 20 caps base u)))) \<noteq> 0)
    \<and> length (take 19 (convert_loop 20 caps base u)) \<in> {1..11}"
proof -
  have b: "2 \<le> unat base" "unat base \<le> 16" "8 \<le> unat base" using assms by auto
  have "unat u < 2 ^ 32" using unsigned_less [of u] by simp
  also have "(2::nat) ^ 32 \<le> 8 ^ 11" by simp
  also have "(8::nat) ^ 11 \<le> unat base ^ 11" using b(3) by (rule power_mono) simp
  finally have "unat u < unat base ^ 11" .
  from convert_loop_value [OF b(1,2) this, of 20 caps] show ?thesis
    by (auto simp: hd_rev Suc_le_eq)
qed

section \<open>Properties\<close>

text \<open>C13: \<open>vsnprintf\<close>, the state machine with its loops over characters, prints exactly the text that the
  format describes when it is read directive by directive, truncated to the buffer and terminated, and returns
  the length of the whole text; it never stores outside the \<open>n\<close> bytes of the buffer.\<close>

theorem vsnprintf_correct:
  assumes "fits h buf n" and "NUL \<notin> set fmt"
  shows "vsnprintf h buf n fmt args = map_option (\<lambda>(tx, cs). (put h buf (truncated n tx), length tx, cs)) (render fmt args 0)
    \<and> (\<forall>tx cs. render fmt args 0 = Some (tx, cs) \<and> 0 < n \<and> NUL \<notin> set tx \<longrightarrow>
        cstr (put h buf (truncated n tx)) buf = Some (take (n - 1) tx))"
proof (intro conjI allI impI)
  show "vsnprintf h buf n fmt args = map_option (\<lambda>(tx, cs). (put h buf (truncated n tx), length tx, cs)) (render fmt args 0)"
    using dopr_render [OF assms] by (simp add: vsnprintf_def)
  fix tx cs assume a: "render fmt args 0 = Some (tx, cs) \<and> 0 < n \<and> NUL \<notin> set tx"
  have "fits h buf (Suc (length (take (n - 1) tx)))" by (rule fits_mono [OF assms(1)]) (use a in auto)
  then show "cstr (put h buf (truncated n tx)) buf = Some (take (n - 1) tx)"
    using cstr_put_same [of h buf "take (n - 1) tx"] a in_set_takeD [of NUL "n - 1" tx] by (auto simp: truncated_def)
qed

lemma vsnprintf_correct_witness:
  "\<exists>h'. vsnprintf (\<lambda>_. replicate 8 NUL) (0, 0) 6 ''%s=%-4d|'' [AStr (Some ''ab''), AInt (- 7)] = Some (h', 8, [])
    \<and> cstr h' (0, 0) = Some ''ab=-7''"
proof -
  have r: "render ''%s=%-4d|'' [AStr (Some ''ab''), AInt (- 7)] 0 = Some (''ab=-7  |'', [])" by code_simp
  show ?thesis
    using vsnprintf_correct [of "\<lambda>_. replicate 8 NUL" "(0, 0)" 6 "''%s=%-4d|''" "[AStr (Some ''ab''), AInt (- 7)]"] r
    by (simp add: fits_def)
qed

text \<open>C16: the digits that \<open>fmtint\<close> prints in base 8, 10 or 16 read back as the number (its absolute value behind a
  sign), without a leading zero of their own, and the field is at least as wide as asked for unless zeros are
  asked for together with a precision.\<close>

theorem fmtint_reads_back:
  assumes "fits h buf n" and "base = 8 \<or> base = 10 \<or> base = 16"
    and "neg = (\<not> has flags DP_F_UNSIGNED \<and> sint value < 0)" and "av = (if neg then - value else value)"
  shows "\<exists>pre sign zeros digits post.
      fmtint buf n value base mn mx flags (written h buf n t) = Some (written h buf n (t @ pre @ sign @ zeros @ digits @ post))
    \<and> set pre \<subseteq> {CHR '' ''} \<and> set post \<subseteq> {CHR '' ''} \<and> set zeros \<subseteq> {CHR ''0''}
    \<and> (sign = ''-'' \<longleftrightarrow> neg) \<and> length sign \<le> 1
    \<and> read_number (unat base) digits = unat av \<and> (av \<noteq> 0 \<longrightarrow> digit_value (hd digits) \<noteq> 0)
    \<and> (\<not> has flags DP_F_ZERO \<or> mx \<le> int (length digits) \<longrightarrow>
        length (pre @ sign @ zeros @ digits @ post) = max (nat mn) (length sign + max (nat mx) (length digits)))"
proof -
  obtain sign where sign: "sign = (if has flags DP_F_UNSIGNED then [] else if neg then ''-'' else if has flags DP_F_PLUS then ''+''
    else if has flags DP_F_SPACE then '' '' else [])" by simp
  obtain digits where digits: "digits = rev (take 19 (convert_loop 20 (has flags DP_F_UP) base av))" by simp
  have rd: "read_number (unat base) digits = unat av" "av \<noteq> 0 \<longrightarrow> digit_value (hd digits) \<noteq> 0"
    using convert_digits [OF assms(2)] unfolding digits by blast+
  define z where "z = nat mx - length digits"
  define b where "b = nat mn - length sign - (z + length digits)"
  have itx: "int_text value base mn mx flags = (if has flags DP_F_ZERO then sign @ replicate (max z b) (CHR ''0'') @ digits
         else if has flags DP_F_MINUS then sign @ replicate z (CHR ''0'') @ digits @ replicate b (CHR '' '')
         else replicate b (CHR '' '') @ sign @ replicate z (CHR ''0'') @ digits)"
    unfolding int_text_def Let_def assms(3) [symmetric] assms(4) [symmetric] sign [symmetric] digits [symmetric]
      z_def [symmetric] b_def [symmetric] by (rule refl)
  note e = fmtint_text [OF assms(1), of "value" base mn mx flags t, unfolded itx]
  have s: "(sign = ''-'') = neg" "length sign \<le> 1" using assms(3) unfolding sign by auto
  have len: "length sign + z + length digits + b = max (nat mn) (length sign + max (nat mx) (length digits))"
    unfolding z_def b_def by (simp add: max_def; linarith)
  have zero: "mx \<le> int (length digits) \<Longrightarrow> z = 0" unfolding z_def by simp
  have sets: "set (replicate k c) \<subseteq> {c}" for k and c :: char by auto
  show ?thesis
  proof (cases "has flags DP_F_ZERO")
    case True
    then have "fmtint buf n value base mn mx flags (written h buf n t)
      = Some (written h buf n (t @ [] @ sign @ replicate (max z b) (CHR ''0'') @ digits @ []))" using e by simp
    moreover have "length ([] @ sign @ replicate (max z b) (CHR ''0'') @ digits @ [])
        = max (nat mn) (length sign + max (nat mx) (length digits))" if "mx \<le> int (length digits)"
      using len zero [OF that] by simp
    ultimately show ?thesis using s rd sets True by (metis empty_set empty_subsetI)
  next
    case False
    define pre where "pre = (if has flags DP_F_MINUS then [] else replicate b (CHR '' ''))"
    define post where "post = (if has flags DP_F_MINUS then replicate b (CHR '' '') else [])"
    have "fmtint buf n value base mn mx flags (written h buf n t)
      = Some (written h buf n (t @ pre @ sign @ replicate z (CHR ''0'') @ digits @ post))"
      using e False by (simp add: pre_def post_def)
    moreover have "length (pre @ sign @ replicate z (CHR ''0'') @ digits @ post)
        = max (nat mn) (length sign + max (nat mx) (length digits))"
      using len by (simp add: pre_def post_def)
    moreover have "set pre \<subseteq> {CHR '' ''}" "set post \<subseteq> {CHR '' ''}" by (auto simp: pre_def post_def)
    ultimately show ?thesis using s rd sets [of z "CHR ''0''"] by blast
  qed
qed

lemma fmtint_reads_back_witness:
  "\<exists>pre sign zeros digits post. fmtint (0, 0) 9 (- 42) 10 6 0 0 (written (\<lambda>_. replicate 9 NUL) (0, 0) 9 [])
      = Some (written (\<lambda>_. replicate 9 NUL) (0, 0) 9 (pre @ sign @ zeros @ digits @ post))
    \<and> sign = ''-'' \<and> read_number 10 digits = 42 \<and> length (pre @ sign @ zeros @ digits @ post) = max 6 (1 + max 0 (length digits))"
proof -
  have "\<not> has 0 DP_F_UNSIGNED \<and> sint (- 42 :: 32 word) < 0" "\<not> has 0 DP_F_ZERO" by code_simp+
  then show ?thesis
    using fmtint_reads_back [of "\<lambda>_. replicate 9 NUL" "(0, 0)" 9 10 True 0 "- 42" 42 6 0 "[]"]
    by (fastforce simp: fits_def)
qed

text \<open>C17: \<open>asprintf\<close> prints the whole text into a new object that is just large enough and returns its length; without
  memory it returns -1; for an empty text it returns 0 and stores no pointer.\<close>

theorem asprintf_correct:
  assumes "render fmt ap 0 = Some (tx, cs)" and "NUL \<notin> set fmt" and "length tx < 2 ^ 31"
  shows "asprintf ob g h fmt ap =
    (if tx = [] then Some (h, None, 0)
     else case ob of None \<Rightarrow> Some (h, None, -1)
        | Some p \<Rightarrow> Some (h(p := tx @ [NUL]), Some (p, 0), int (length tx)))"
  unfolding asprintf_def vasprintf_def by (rule printf.allocated [OF assms])

lemma asprintf_correct_witness:
  "asprintf (Some 3) NUL (\<lambda>_. []) ''%u%%'' [AInt 50] = Some ((\<lambda>_. [])(3 := ''50%'' @ [NUL]), Some (3, 0), 3)"
proof -
  have "render ''%u%%'' [AInt 50] 0 = Some (''50%'', [])" by code_simp
  from asprintf_correct [OF this, of "Some 3" NUL "\<lambda>_. []"] show ?thesis by simp
qed

text \<open>Where the formatter differs from the C standard: a precision below the width of a string is raised to the width, a
  negative precision of a string prints nothing, zeros requested for a number with a precision make the field
  too short, a \<open>long long\<close> loses its upper half, a pointer above 2 GB is printed negative, and a \<open>%w\<close> at the end
  of the format is read past its terminator.\<close>

lemma printf_quirks:
  "render ''%5.3s'' [AStr (Some ''abcdef'')] 0 = Some (''abcde'', [])
    \<and> render ''%.*s'' [AInt (- 5), AStr (Some ''abc'')] 0 = Some ([], [])
    \<and> render ''%08.3d'' [AInt 42] 0 = Some (''0000042'', [])
    \<and> render ''%lld'' [ALLong 0x100000000] 0 = Some (''0'', [])
    \<and> render ''%p'' [APtr 0x80000000] 0 = Some (''-80000000'', [])
    \<and> vsnprintf (\<lambda>_. replicate 8 NUL) (0, 0) 8 ''%w'' [] = None"
  by (intro conjI; code_simp)

end
