(* ===== verification/Strptime.thy ===== *)
theory Strptime
  imports CPrelude
begin

text \<open>
  \<^verbatim>\<open>src/utils/strptime.c\<close>: parsing of dates and times by a format, as it is built here: without
  \<open>_NL_CURRENT\<close>, so that only the names and formats of the C locale are used and \<open>decided\<close> is always \<open>raw\<close>.

  The pointer \<open>rp\<close> is the rest of the input. A returned \<open>NULL\<close> is \<open>Inl\<close> with what has been stored in
  \<open>*tm\<close> until then. \<open>localtime\<close> is a parameter; so is the value of the variable \<open>secs\<close>, which the code does
  not initialise.
\<close>

section \<open>Tables and formats\<close>

definition weekday_name :: "string list" where
  "weekday_name = [''Sunday'', ''Monday'', ''Tuesday'', ''Wednesday'', ''Thursday'', ''Friday'', ''Saturday'']"

definition ab_weekday_name :: "string list" where
  "ab_weekday_name = [''Sun'', ''Mon'', ''Tue'', ''Wed'', ''Thu'', ''Fri'', ''Sat'']"

definition month_name :: "string list" where
  "month_name = [''January'', ''February'', ''March'', ''April'', ''May'', ''June'',
     ''July'', ''August'', ''September'', ''October'', ''November'', ''December'']"

definition ab_month_name :: "string list" where
  "ab_month_name = [''Jan'', ''Feb'', ''Mar'', ''Apr'', ''May'', ''Jun'',
     ''Jul'', ''Aug'', ''Sep'', ''Oct'', ''Nov'', ''Dec'']"

definition HERE_D_T_FMT :: string where "HERE_D_T_FMT = ''%a %b %e %H:%M:%S %Y''"
definition HERE_D_FMT :: string where "HERE_D_FMT = ''%m/%d/%y''"
definition HERE_AM_STR :: string where "HERE_AM_STR = ''AM''"
definition HERE_PM_STR :: string where "HERE_PM_STR = ''PM''"
definition HERE_T_FMT_AMPM :: string where "HERE_T_FMT_AMPM = ''%I:%M:%S %p''"
definition HERE_T_FMT :: string where "HERE_T_FMT = ''%H:%M:%S''"

lemmas here_defs = HERE_D_T_FMT_def HERE_D_FMT_def HERE_AM_STR_def HERE_PM_STR_def HERE_T_FMT_AMPM_def HERE_T_FMT_def

record tm =
  tm_sec :: int
  tm_min :: int
  tm_hour :: int
  tm_mday :: int
  tm_mon :: int
  tm_year :: int
  tm_wday :: int
  tm_yday :: int

text \<open>The local variables of a call.\<close>

record parse_state =
  p_rp :: string
  p_tm :: tm
  p_have_I :: bool
  p_is_pm :: bool

type_synonym parsed = "tm + parse_state"

section \<open>Matching\<close>

definition match_string :: "string \<Rightarrow> string \<Rightarrow> string option" where
  "match_string cs1 s2 = (if strnicmp_eq cs1 s2 (length cs1) then Some (drop (length cs1) s2) else None)"

fun skip_space :: "string \<Rightarrow> string" where
  "skip_space [] = []"
| "skip_space (c # r) = (if isspace c then skip_space r else c # r)"

definition digit_of :: "char \<Rightarrow> nat" where
  "digit_of c = ccode c - 48"

text \<open>\<open>get_number(from, to)\<close>: the loop goes on while another digit might fit.\<close>

fun number_loop :: "nat \<Rightarrow> nat \<Rightarrow> string \<Rightarrow> nat \<times> string" where
  "number_loop to v [] = (v, [])"
| "number_loop to v (c # r) =
     (let v = v * 10 + digit_of c
      in if v * 10 \<le> to \<and> isdigit (deref r) then number_loop to v r else (v, r))"

definition get_number :: "nat \<Rightarrow> nat \<Rightarrow> string \<Rightarrow> (nat \<times> string) option" where
  "get_number from to rp =
     (if \<not> isdigit (deref rp) then None
      else (let (v, rp) = number_loop to 0 rp in if v < from \<or> v > to then None else Some (v, rp)))"

text \<open>A directive that matches a number and stores it.\<close>

definition number_field :: "nat \<Rightarrow> nat \<Rightarrow> (nat \<Rightarrow> parse_state \<Rightarrow> parse_state) \<Rightarrow> parse_state \<Rightarrow> parsed" where
  "number_field from to store s =
     (case get_number from to (p_rp s) of
        None \<Rightarrow> Inl (p_tm s)
      | Some (v, rp) \<Rightarrow> Inr (store v (s\<lparr>p_rp := rp\<rparr>)))"

definition put_tm :: "(tm \<Rightarrow> tm) \<Rightarrow> parse_state \<Rightarrow> parse_state" where
  "put_tm f s = s\<lparr>p_tm := f (p_tm s)\<rparr>"

text \<open>The loop over the names of a table and its abbreviations: \<open>cnt\<close> and the rest of the input.\<close>

fun match_names :: "string list \<Rightarrow> string list \<Rightarrow> nat \<Rightarrow> string \<Rightarrow> (nat \<times> string) option" where
  "match_names (n # ns) (a # as) cnt rp =
     (case match_string n rp of
        Some rp' \<Rightarrow> Some (cnt, rp')
      | None \<Rightarrow> (case match_string a rp of Some rp' \<Rightarrow> Some (cnt, rp') | None \<Rightarrow> match_names ns as (cnt + 1) rp))"
| "match_names _ _ cnt rp = None"

definition match_weekday :: "parse_state \<Rightarrow> parsed" where
  "match_weekday s =
     (case match_names weekday_name ab_weekday_name 0 (p_rp s) of
        None \<Rightarrow> Inl (p_tm s)
      | Some (cnt, rp) \<Rightarrow> Inr (put_tm (\<lambda>t. t\<lparr>tm_wday := int cnt\<rparr>) (s\<lparr>p_rp := rp\<rparr>)))"

definition match_month :: "parse_state \<Rightarrow> parsed" where
  "match_month s =
     (case match_names month_name ab_month_name 0 (p_rp s) of
        None \<Rightarrow> Inl (p_tm s)
      | Some (cnt, rp) \<Rightarrow> Inr (put_tm (\<lambda>t. t\<lparr>tm_mon := int cnt\<rparr>) (s\<lparr>p_rp := rp\<rparr>)))"

definition match_am_pm :: "parse_state \<Rightarrow> parsed" where
  "match_am_pm s =
     (case match_string HERE_AM_STR (p_rp s) of
        Some rp \<Rightarrow> Inr (s\<lparr>p_rp := rp\<rparr>)
      | None \<Rightarrow> (case match_string HERE_PM_STR (p_rp s) of
                   Some rp \<Rightarrow> Inr (s\<lparr>p_rp := rp, p_is_pm := True\<rparr>)
                 | None \<Rightarrow> Inl (p_tm s)))"

text \<open>\<open>%s\<close>: the seconds are added to what the variable \<open>secs\<close> happens to hold, a \<open>time_t\<close> of 32 bits that
  wraps around.\<close>

fun secs_loop :: "32 word \<Rightarrow> string \<Rightarrow> 32 word \<times> string" where
  "secs_loop secs [] = (secs, [])"
| "secs_loop secs (c # r) =
     (let secs = secs * 10 + of_nat (digit_of c) in if isdigit (deref r) then secs_loop secs r else (secs, r))"

definition match_seconds :: "(32 word \<Rightarrow> tm option) \<Rightarrow> 32 word \<Rightarrow> parse_state \<Rightarrow> parsed" where
  "match_seconds localtime secs0 s =
     (if \<not> isdigit (deref (p_rp s)) then Inl (p_tm s)
      else (let (secs, rp) = secs_loop secs0 (p_rp s)
            in case localtime secs of
                 None \<Rightarrow> Inl (p_tm s)
               | Some t \<Rightarrow> Inr (s\<lparr>p_rp := rp, p_tm := t\<rparr>)))"

fun skip_digits :: "string \<Rightarrow> string" where
  "skip_digits [] = []"
| "skip_digits (c # r) = (if isdigit c then skip_digits r else c # r)"

section \<open>Directives\<close>

text \<open>The directives without a modifier that do not call \<open>strptime_internal\<close> again; in the code's order, those of
  dates, of times, and the others.\<close>

definition date_directive :: "char \<Rightarrow> (parse_state \<Rightarrow> parsed) option" where
  "date_directive c =
     (if c = CHR ''a'' \<or> c = CHR ''A'' then Some match_weekday
      else if c = CHR ''b'' \<or> c = CHR ''B'' \<or> c = CHR ''h'' then Some match_month
      else if c = CHR ''C'' then Some (number_field 0 99 (\<lambda>v s. s))
      else if c = CHR ''d'' \<or> c = CHR ''e'' then Some (number_field 1 31 (\<lambda>v. put_tm (\<lambda>t. t\<lparr>tm_mday := int v\<rparr>)))
      else if c = CHR ''j'' then Some (number_field 1 366 (\<lambda>v. put_tm (\<lambda>t. t\<lparr>tm_yday := int v - 1\<rparr>)))
      else if c = CHR ''m'' then Some (number_field 1 12 (\<lambda>v. put_tm (\<lambda>t. t\<lparr>tm_mon := int v - 1\<rparr>)))
      else if c = CHR ''u'' then Some (number_field 1 7 (\<lambda>v. put_tm (\<lambda>t. t\<lparr>tm_wday := int (v mod 7)\<rparr>)))
      else if c = CHR ''g'' then Some (number_field 0 99 (\<lambda>v s. s))
      else if c = CHR ''G''
      then Some (\<lambda>s. if isdigit (deref (p_rp s)) then Inr (s\<lparr>p_rp := skip_digits (p_rp s)\<rparr>) else Inl (p_tm s))
      else if c = CHR ''U'' \<or> c = CHR ''V'' \<or> c = CHR ''W'' then Some (number_field 0 53 (\<lambda>v s. s))
      else if c = CHR ''w'' then Some (number_field 0 6 (\<lambda>v. put_tm (\<lambda>t. t\<lparr>tm_wday := int v\<rparr>)))
      else if c = CHR ''y''
      then Some (number_field 0 99 (\<lambda>v. put_tm (\<lambda>t. t\<lparr>tm_year := (if v \<ge> 50 then int v else int v + 100)\<rparr>)))
      else if c = CHR ''Y'' then Some (number_field 0 2036 (\<lambda>v. put_tm (\<lambda>t. t\<lparr>tm_year := int v - 1900\<rparr>)))
      else None)"

definition time_directive :: "(32 word \<Rightarrow> tm option) \<Rightarrow> 32 word \<Rightarrow> char \<Rightarrow> (parse_state \<Rightarrow> parsed) option" where
  "time_directive localtime secs0 c =
     (if c = CHR ''H''
      then Some (number_field 0 23 (\<lambda>v s. put_tm (\<lambda>t. t\<lparr>tm_hour := int v\<rparr>) (s\<lparr>p_have_I := False\<rparr>)))
      else if c = CHR ''I''
      then Some (number_field 1 12 (\<lambda>v s. put_tm (\<lambda>t. t\<lparr>tm_hour := int (v mod 12)\<rparr>) (s\<lparr>p_have_I := True\<rparr>)))
      else if c = CHR ''M'' then Some (number_field 0 59 (\<lambda>v. put_tm (\<lambda>t. t\<lparr>tm_min := int v\<rparr>)))
      else if c = CHR ''p'' then Some match_am_pm
      else if c = CHR ''s'' then Some (match_seconds localtime secs0)
      else if c = CHR ''S'' then Some (number_field 0 61 (\<lambda>v. put_tm (\<lambda>t. t\<lparr>tm_sec := int v\<rparr>)))
      else None)"

definition other_directive :: "char \<Rightarrow> parse_state \<Rightarrow> parsed" where
  "other_directive c s =
     (if c = CHR ''%''
      then (if deref (p_rp s) \<noteq> CHR ''%'' then Inl (p_tm s) else Inr (s\<lparr>p_rp := tl (p_rp s)\<rparr>))
      else if c = CHR ''n'' \<or> c = CHR ''t'' then Inr (s\<lparr>p_rp := skip_space (p_rp s)\<rparr>)
      else if c = CHR ''Z'' then Inr s
      else Inl (p_tm s))"

definition plain_directive :: "(32 word \<Rightarrow> tm option) \<Rightarrow> 32 word \<Rightarrow> char \<Rightarrow> parse_state \<Rightarrow> parsed" where
  "plain_directive localtime secs0 c s =
     (case date_directive c of
        Some f \<Rightarrow> f s
      | None \<Rightarrow> (case time_directive localtime secs0 c of Some f \<Rightarrow> f s | None \<Rightarrow> other_directive c s))"

text \<open>The directives behind the modifier \<open>O\<close>.\<close>

definition alt_directive :: "char \<Rightarrow> parse_state \<Rightarrow> parsed" where
  "alt_directive c s =
     (if c = CHR ''d'' \<or> c = CHR ''e'' then number_field 1 31 (\<lambda>v. put_tm (\<lambda>t. t\<lparr>tm_mday := int v\<rparr>)) s
      else if c = CHR ''H''
      then number_field 0 23 (\<lambda>v s. put_tm (\<lambda>t. t\<lparr>tm_hour := int v\<rparr>) (s\<lparr>p_have_I := False\<rparr>)) s
      else if c = CHR ''I''
      then number_field 1 12 (\<lambda>v s. put_tm (\<lambda>t. t\<lparr>tm_hour := int v - 1\<rparr>) (s\<lparr>p_have_I := True\<rparr>)) s
      else if c = CHR ''m'' then number_field 1 12 (\<lambda>v. put_tm (\<lambda>t. t\<lparr>tm_mon := int v - 1\<rparr>)) s
      else if c = CHR ''M'' then number_field 0 59 (\<lambda>v. put_tm (\<lambda>t. t\<lparr>tm_min := int v\<rparr>)) s
      else if c = CHR ''S'' then number_field 0 61 (\<lambda>v. put_tm (\<lambda>t. t\<lparr>tm_sec := int v\<rparr>)) s
      else if c = CHR ''U'' \<or> c = CHR ''V'' \<or> c = CHR ''W'' then number_field 0 53 (\<lambda>v s. s) s
      else if c = CHR ''w'' then number_field 0 6 (\<lambda>v. put_tm (\<lambda>t. t\<lparr>tm_wday := int v\<rparr>)) s
      else if c = CHR ''y'' then number_field 0 99 (\<lambda>v s. s) s
      else Inl (p_tm s))"

text \<open>The directives that parse another format.\<close>

definition recursive_format :: "char \<Rightarrow> string option" where
  "recursive_format c =
     (if c = CHR ''c'' then Some HERE_D_T_FMT
      else if c = CHR ''x'' \<or> c = CHR ''D'' then Some HERE_D_FMT
      else if c = CHR ''r'' then Some HERE_T_FMT_AMPM
      else if c = CHR ''R'' then Some ''%H:%M''
      else if c = CHR ''X'' \<or> c = CHR ''T'' then Some HERE_T_FMT
      else None)"

text \<open>Behind \<open>%\<close>: an \<open>E\<close> is skipped before some directives and is an error before all others.\<close>

definition skip_E :: "string \<Rightarrow> string option" where
  "skip_E f =
     (if deref f = CHR ''E''
      then (if deref (tl f) \<in> {CHR ''c'', CHR ''C'', CHR ''y'', CHR ''Y'', CHR ''x'', CHR ''X''} then Some (tl f) else None)
      else Some f)"

text \<open>The end of \<open>strptime_internal\<close>.\<close>

definition finish :: "parse_state \<Rightarrow> parse_state" where
  "finish s = (if p_have_I s \<and> p_is_pm s then put_tm (\<lambda>t. t\<lparr>tm_hour := tm_hour t + 12\<rparr>) s else s)"

text \<open>The characters that start another call weigh more than all that its format holds.\<close>

definition weight :: "string \<Rightarrow> nat" where
  "weight f = length f + 100 * length (filter (\<lambda>c. recursive_format c \<noteq> None) f)"

lemma recursive_format_percent [simp]: "recursive_format (CHR ''%'') = None"
  by (simp add: recursive_format_def)

lemma weight_simps [simp]:
  "weight [] = 0" "weight (c # f) = 1 + (if recursive_format c \<noteq> None then 100 else 0) + weight f"
  by (simp_all add: weight_def)

lemma weight_recursive: "recursive_format c = Some g \<Longrightarrow> weight g < 100"
  by (auto simp: recursive_format_def here_defs weight_def split: if_splits)

lemma weight_recursive': "recursive_format c = Some g \<Longrightarrow> 101 + m \<le> n \<Longrightarrow> weight g < Suc n"
  using weight_recursive [of c g] by linarith

lemma weight_tl: "weight (tl g) \<le> weight g"
  by (cases g) auto

lemma skip_E_weight: "skip_E f = Some (c # g) \<Longrightarrow> weight (c # g) \<le> weight f"
  by (cases f) (auto simp: skip_E_def split: if_splits)

function parse_loop :: "(32 word \<Rightarrow> tm option) \<Rightarrow> 32 word \<Rightarrow> string \<Rightarrow> parse_state \<Rightarrow> parsed" where
  "parse_loop localtime secs0 [] s = Inr s"
| "parse_loop localtime secs0 (c # f) s =
     (if isspace c then parse_loop localtime secs0 f (s\<lparr>p_rp := skip_space (p_rp s)\<rparr>)
      else if c \<noteq> CHR ''%''
      then (if deref (p_rp s) \<noteq> c then Inl (p_tm s) else parse_loop localtime secs0 f (s\<lparr>p_rp := tl (p_rp s)\<rparr>))
      else (case skip_E f of
              None \<Rightarrow> Inl (p_tm s)
            | Some [] \<Rightarrow> Inl (p_tm s)
            | Some (k # g) \<Rightarrow>
                (case recursive_format k of
                   Some new_fmt \<Rightarrow>
                     (case parse_loop localtime secs0 new_fmt
                             \<lparr>p_rp = p_rp s, p_tm = p_tm s, p_have_I = False, p_is_pm = False\<rparr> of
                        Inl t \<Rightarrow> Inl t
                      | Inr s' \<Rightarrow> parse_loop localtime secs0 g (s\<lparr>p_rp := p_rp s', p_tm := p_tm (finish s')\<rparr>))
                 | None \<Rightarrow>
                     if k = CHR ''O''
                     then (case alt_directive (deref g) s of
                             Inl t \<Rightarrow> Inl t
                           | Inr s \<Rightarrow> parse_loop localtime secs0 (tl g) s)
                     else (case plain_directive localtime secs0 k s of
                             Inl t \<Rightarrow> Inl t
                           | Inr s \<Rightarrow> parse_loop localtime secs0 g s))))"
  by pat_completeness auto
termination
  by (relation "measure (\<lambda>(lt, secs0, f, s). weight f)")
    (auto dest!: skip_E_weight intro!: le_less_trans [OF weight_tl] dest: weight_recursive')

definition strptime_internal ::
  "(32 word \<Rightarrow> tm option) \<Rightarrow> 32 word \<Rightarrow> string \<Rightarrow> string \<Rightarrow> tm \<Rightarrow> tm + string \<times> tm" where
  "strptime_internal localtime secs0 buf format tm =
     (case parse_loop localtime secs0 format \<lparr>p_rp = buf, p_tm = tm, p_have_I = False, p_is_pm = False\<rparr> of
        Inl t \<Rightarrow> Inl t
      | Inr s \<Rightarrow> Inr (p_rp s, p_tm (finish s)))"

definition strptime :: "(32 word \<Rightarrow> tm option) \<Rightarrow> 32 word \<Rightarrow> string \<Rightarrow> string \<Rightarrow> tm \<Rightarrow> tm + string \<times> tm" where
  "strptime localtime secs0 buf format tm = strptime_internal localtime secs0 buf format tm"


declare parse_loop.simps(2) [simp del]

section \<open>Numbers\<close>

lemma digit_of_bound: "isdigit c \<Longrightarrow> digit_of c \<le> 9"
  by (auto simp: isdigit_def digit_of_def)

definition digit :: "nat \<Rightarrow> char" where
  "digit n = char_of (48 + n)"

lemma digit_digit: "n \<le> 9 \<Longrightarrow> isdigit (digit n) \<and> digit_of (digit n) = n"
  by (simp add: isdigit_def digit_of_def digit_def ccode_def)

definition two :: "nat \<Rightarrow> string" where
  "two n = [digit (n div 10), digit (n mod 10)]"

definition four :: "nat \<Rightarrow> string" where
  "four n = two (n div 100) @ two (n mod 100)"

text \<open>Numbers of two and of four digits are read back when no other digit follows.\<close>

lemma get_two:
  assumes "from \<le> n" and "n \<le> to" and "n < 100" and "10 \<le> to \<or> n < 10" and "\<not> isdigit (deref r)"
  shows "get_number from to (two n @ r) = Some (n, r)"
proof -
  have d: "isdigit (digit (n div 10))" "isdigit (digit (n mod 10))" "digit_of (digit (n div 10)) = n div 10"
    "digit_of (digit (n mod 10)) = n mod 10" using digit_digit assms(3) by auto
  have "n div 10 * 10 \<le> to" using assms(2) by (meson div_times_less_eq_dividend le_trans)
  then show ?thesis using d assms(1,2,5) by (simp add: get_number_def two_def Let_def)
qed

lemma get_four:
  assumes "from \<le> n" and "n \<le> to" and "n < 10000" and "\<not> isdigit (deref r)"
  shows "get_number from to (four n @ r) = Some (n, r)"
proof -
  define q1 q2 q3 where "q1 = n div 10" and "q2 = q1 div 10" and "q3 = q2 div 10"
  note q = this
  have e: "n div 100 = q2" "n mod 100 div 10 = q1 mod 10" "n mod 100 mod 10 = n mod 10"
    using div_mult2_eq [of n 10 10] mod_mult2_eq [of n 10 10] by (simp_all add: q)
  have f: "four n = [digit q3, digit (q2 mod 10), digit (q1 mod 10), digit (n mod 10)]"
    unfolding four_def two_def e q(3) by simp
  have "q3 = n div 1000" by (simp add: q div_mult2_eq [symmetric])
  then have q3: "q3 \<le> 9" using assms(3) by simp
  have d: "isdigit (digit q3)" "isdigit (digit (q2 mod 10))" "isdigit (digit (q1 mod 10))" "isdigit (digit (n mod 10))"
    "digit_of (digit q3) = q3" "digit_of (digit (q2 mod 10)) = q2 mod 10" "digit_of (digit (q1 mod 10)) = q1 mod 10"
    "digit_of (digit (n mod 10)) = n mod 10"
    using digit_digit q3 by auto
  have v: "q3 * 10 + q2 mod 10 = q2" "q2 * 10 + q1 mod 10 = q1" "q1 * 10 + n mod 10 = n"
    unfolding q by simp_all
  have "q1 * 10 \<le> to" "q2 * 10 \<le> to" "q3 * 10 \<le> to" using v assms(2) by linarith+
  then show ?thesis using d assms(1,2,4) v by (simp add: get_number_def f Let_def)
qed

text \<open>What a number leaves of the input, and its range.\<close>

lemma number_loop_suffix: "isdigit (deref rp) \<Longrightarrow> number_loop to v rp = (n, rp') \<Longrightarrow> \<exists>p. p \<noteq> [] \<and> rp = p @ rp'"
proof (induction to v rp rule: number_loop.induct)
  case (2 to v c r)
  show ?case
  proof (cases "(v * 10 + digit_of c) * 10 \<le> to \<and> isdigit (deref r)")
    case True
    then obtain p where "r = p @ rp'" using 2 by (auto simp: Let_def)
    then show ?thesis by (intro exI [of _ "c # p"]) simp
  next
    case False
    then show ?thesis using 2(3) by (intro exI [of _ "[c]"]) (simp add: Let_def split: if_splits)
  qed
qed simp

lemma get_number_range: "get_number from to rp = Some (n, rp') \<Longrightarrow> from \<le> n \<and> n \<le> to"
  by (auto simp: get_number_def Let_def split: if_splits prod.splits)

lemma get_number_suffix: "get_number from to rp = Some (n, rp') \<Longrightarrow> \<exists>p. rp = p @ rp'"
  using number_loop_suffix by (fastforce simp: get_number_def Let_def split: if_splits prod.splits)


section \<open>Steps of the loop\<close>

lemma loop_plain:
  "recursive_format k = None \<Longrightarrow> k \<noteq> CHR ''O'' \<Longrightarrow> k \<noteq> CHR ''E'' \<Longrightarrow>
    parse_loop lt g (CHR ''%'' # k # f) s
      = (case plain_directive lt g k s of Inl t \<Rightarrow> Inl t | Inr s \<Rightarrow> parse_loop lt g f s)"
  by (simp add: parse_loop.simps(2) skip_E_def isspace_def ccode_def)

lemma loop_recursive:
  "recursive_format k = Some f' \<Longrightarrow> k \<noteq> CHR ''E'' \<Longrightarrow>
    parse_loop lt g (CHR ''%'' # k # f) s
      = (case strptime_internal lt g (p_rp s) f' (p_tm s) of
           Inl t \<Rightarrow> Inl t | Inr (rp, t) \<Rightarrow> parse_loop lt g f (s\<lparr>p_rp := rp, p_tm := t\<rparr>))"
  by (simp add: parse_loop.simps(2) skip_E_def isspace_def ccode_def strptime_internal_def finish_def put_tm_def split: sum.splits)

lemma loop_space: "isspace c \<Longrightarrow> parse_loop lt g (c # f) s = parse_loop lt g f (s\<lparr>p_rp := skip_space (p_rp s)\<rparr>)"
  by (simp add: parse_loop.simps(2))

lemma loop_char:
  "\<not> isspace c \<Longrightarrow> c \<noteq> CHR ''%'' \<Longrightarrow> parse_loop lt g (c # f) s
    = (if deref (p_rp s) \<noteq> c then Inl (p_tm s) else parse_loop lt g f (s\<lparr>p_rp := tl (p_rp s)\<rparr>))"
  by (simp add: parse_loop.simps(2))

lemma space_blank: "isspace (CHR '' '')" "\<not> isspace (CHR '':'')" "\<not> isspace (CHR ''/'')" "\<not> isspace (CHR ''-'')"
  by code_simp+

lemma directives:
  "plain_directive lt g (CHR ''a'') = match_weekday" "plain_directive lt g (CHR ''b'') = match_month"
  "plain_directive lt g (CHR ''e'') = number_field 1 31 (\<lambda>v. put_tm (\<lambda>t. t\<lparr>tm_mday := int v\<rparr>))"
  "plain_directive lt g (CHR ''H'') = number_field 0 23 (\<lambda>v s. put_tm (\<lambda>t. t\<lparr>tm_hour := int v\<rparr>) (s\<lparr>p_have_I := False\<rparr>))"
  "plain_directive lt g (CHR ''M'') = number_field 0 59 (\<lambda>v. put_tm (\<lambda>t. t\<lparr>tm_min := int v\<rparr>))"
  "plain_directive lt g (CHR ''S'') = number_field 0 61 (\<lambda>v. put_tm (\<lambda>t. t\<lparr>tm_sec := int v\<rparr>))"
  "plain_directive lt g (CHR ''Y'') = number_field 0 2036 (\<lambda>v. put_tm (\<lambda>t. t\<lparr>tm_year := int v - 1900\<rparr>))"
  by (rule ext, simp add: plain_directive_def date_directive_def time_directive_def)+

lemma skip_space_digit: "n \<le> 9 \<Longrightarrow> skip_space (digit n # r) = digit n # r"
  using digit_digit [of n] by (auto simp: isspace_def isdigit_def)

lemma skip_space_two: "n < 100 \<Longrightarrow> skip_space (two n @ r) = two n @ r"
  unfolding two_def using skip_space_digit [of "n div 10" "digit (n mod 10) # r"] by (simp del: skip_space.simps)

lemma skip_space_four: "n < 10000 \<Longrightarrow> skip_space (four n @ r) = four n @ r"
  using skip_space_two [of "n div 100" "two (n mod 100) @ r"] by (simp add: four_def)

text \<open>A name before a blank is found whatever follows.\<close>

lemma strnicmp_blank:
  "CHR '' '' \<notin> set t \<Longrightarrow> strnicmp_eq t (x @ CHR '' '' # r) (length t) \<longleftrightarrow> strnicmp_eq t x (length t)"
proof (induction t arbitrary: x)
  case (Cons c t)
  have "\<not> isalpha (CHR '' '')" by code_simp
  then have ne: "toupper c \<noteq> toupper (CHR '' '')" using toupper_other [of "CHR '' ''" c] Cons.prems by auto
  show ?case
  proof (cases x)
    case Nil
    then show ?thesis using ne by simp
  next
    case x: (Cons d x')
    then show ?thesis using Cons.IH [of x'] Cons.prems by simp
  qed
qed simp

lemma strnicmp_length: "strnicmp_eq t x (length t) \<Longrightarrow> length t \<le> length x"
  by (induction t x "length t" rule: strnicmp_eq.induct) auto

lemma match_string_blank:
  assumes "CHR '' '' \<notin> set t"
  shows "match_string t (x @ CHR '' '' # r) = map_option (\<lambda>z. z @ CHR '' '' # r) (match_string t x)"
  unfolding match_string_def strnicmp_blank [OF assms] using strnicmp_length [of t x] by simp

lemma match_names_blank:
  "CHR '' '' \<notin> \<Union> (set ` set ns) \<Longrightarrow> CHR '' '' \<notin> \<Union> (set ` set as) \<Longrightarrow>
    match_names ns as cnt (x @ CHR '' '' # r) = map_option (\<lambda>(n, z). (n, z @ CHR '' '' # r)) (match_names ns as cnt x)"
proof (induction ns as cnt x rule: match_names.induct)
  case (1 n ns a as cnt rp)
  have n: "CHR '' '' \<notin> set n" "CHR '' '' \<notin> set a" using "1.prems" by simp_all
  show ?case
  proof (cases "match_string n rp")
    case None
    then show ?thesis using 1 by (cases "match_string a rp") (simp_all add: match_string_blank [OF n(1)] match_string_blank [OF n(2)])
  next
    case (Some z)
    then show ?thesis by (simp add: match_string_blank [OF n(1)])
  qed
qed simp_all

text \<open>\<open>toupper\<close> on the bits of a character, to compute with it.\<close>

lemma toupper_bits [code]:
  "toupper (Char b0 b1 b2 b3 b4 b5 b6 b7) =
    Char b0 b1 b2 b3 b4 (b5 \<and> \<not> (b6 \<and> \<not> b7 \<and> (b0 \<or> b1 \<or> b2 \<or> b3 \<or> b4) \<and> \<not> (b4 \<and> b3 \<and> (b2 \<or> b1 \<and> b0)))) b6 b7"
proof -
  have "ccode (toupper (Char b0 b1 b2 b3 b4 b5 b6 b7)) = ccode (Char b0 b1 b2 b3 b4 (b5 \<and> \<not> (b6 \<and> \<not> b7
    \<and> (b0 \<or> b1 \<or> b2 \<or> b3 \<or> b4) \<and> \<not> (b4 \<and> b3 \<and> (b2 \<or> b1 \<and> b0)))) b6 b7)"
    unfolding ccode_toupper islower_def
    unfolding ccode_def of_char_Char
    by (cases b0; cases b1; cases b2; cases b3; cases b4; cases b5; cases b6; cases b7; simp)
  then show ?thesis by (simp only: ccode_inject)
qed

lemma match_weekday_ab:
  assumes "w < 7"
  shows "match_names weekday_name ab_weekday_name 0 (ab_weekday_name ! w @ CHR '' '' # r) = Some (w, CHR '' '' # r)"
proof -
  have "list_all (\<lambda>w. match_names weekday_name ab_weekday_name 0 (ab_weekday_name ! w) = Some (w, [])) [0..<7]"
    by code_simp
  then have "match_names weekday_name ab_weekday_name 0 (ab_weekday_name ! w) = Some (w, [])"
    using assms by (simp add: list_all_iff)
  moreover have "CHR '' '' \<notin> \<Union> (set ` set weekday_name)" "CHR '' '' \<notin> \<Union> (set ` set ab_weekday_name)"
    by (simp_all add: weekday_name_def ab_weekday_name_def)
  ultimately show ?thesis by (simp add: match_names_blank)
qed

lemma match_month_ab:
  assumes "m < 12"
  shows "match_names month_name ab_month_name 0 (ab_month_name ! m @ CHR '' '' # r) = Some (m, CHR '' '' # r)"
proof -
  have "list_all (\<lambda>m. match_names month_name ab_month_name 0 (ab_month_name ! m) = Some (m, [])) [0..<12]"
    by code_simp
  then have "match_names month_name ab_month_name 0 (ab_month_name ! m) = Some (m, [])"
    using assms by (simp add: list_all_iff)
  moreover have "CHR '' '' \<notin> \<Union> (set ` set month_name)" "CHR '' '' \<notin> \<Union> (set ` set ab_month_name)"
    by (simp_all add: month_name_def ab_month_name_def)
  ultimately show ?thesis by (simp add: match_names_blank)
qed


section \<open>The date format of C\<close>

text \<open>The text that \<open>asctime\<close> produces, without its newline.\<close>

definition asctime :: "nat \<Rightarrow> nat \<Rightarrow> nat \<Rightarrow> nat \<Rightarrow> nat \<Rightarrow> nat \<Rightarrow> nat \<Rightarrow> string" where
  "asctime wday mon mday hour mn sec year =
     ab_weekday_name ! wday @ CHR '' '' # ab_month_name ! mon @ CHR '' ''
     # (if mday < 10 then [CHR '' '', digit mday] else two mday) @ CHR '' '' # two hour @ CHR '':'' # two mn @ CHR '':''
     # two sec @ CHR '' '' # four year"

lemma get_one: "1 \<le> n \<Longrightarrow> n \<le> 9 \<Longrightarrow> get_number 1 31 (digit n # CHR '' '' # r) = Some (n, CHR '' '' # r)"
  using digit_digit [of n] by (simp add: get_number_def isdigit_def ccode_def)

lemma not_digit [simp]: "\<not> isdigit (CHR '' '')" "\<not> isdigit (CHR '':'')"
  by code_simp+

lemma parse_asctime:
  assumes "wday < 7" and "mon < 12" and "1 \<le> mday" and "mday \<le> 31" and "hour \<le> 23" and "mn \<le> 59" and "sec \<le> 61"
    and "year \<le> 2036" and "\<not> isdigit (deref rest)"
  shows "strptime_internal lt g (asctime wday mon mday hour mn sec year @ rest) HERE_D_T_FMT t
    = Inr (rest, t\<lparr>tm_sec := int sec, tm_min := int mn, tm_hour := int hour, tm_mday := int mday, tm_mon := int mon,
        tm_year := int year - 1900, tm_wday := int wday\<rparr>)"
proof -
  obtain dt where dt: "dt = (if mday < 10 then [CHR '' '', digit mday] else two mday)" by simp
  have day: "get_number 1 31 (skip_space (CHR '' '' # dt @ CHR '' '' # r)) = Some (mday, CHR '' '' # r)" for r
  proof (cases "mday < 10")
    case True
    then show ?thesis using assms(3) skip_space_digit [of mday] by (simp del: One_nat_def add: dt get_one space_blank)
  next
    case False
    then show ?thesis using assms(3,4) skip_space_two [of mday] get_two [of 1 mday 31] by (simp add: dt space_blank)
  qed
  have rec: "recursive_format (CHR ''a'') = None" "recursive_format (CHR ''b'') = None" "recursive_format (CHR ''e'') = None"
    "recursive_format (CHR ''H'') = None" "recursive_format (CHR ''M'') = None" "recursive_format (CHR ''S'') = None"
    "recursive_format (CHR ''Y'') = None" by (simp_all add: recursive_format_def)
  have sp: "skip_space (CHR '' '' # ab_month_name ! mon @ r) = ab_month_name ! mon @ r" for r
  proof -
    have "list_all (\<lambda>m. ab_month_name ! m \<noteq> [] \<and> \<not> isspace (hd (ab_month_name ! m))) [0..<12]" by code_simp
    then have "ab_month_name ! mon \<noteq> [] \<and> \<not> isspace (hd (ab_month_name ! mon))" using assms(2) by (simp add: list_all_iff)
    then show ?thesis by (cases "ab_month_name ! mon") (simp_all add: space_blank)
  qed
  have nums: "get_number 0 23 (two hour @ CHR '':'' # r) = Some (hour, CHR '':'' # r)"
    "get_number 0 59 (two mn @ CHR '':'' # r) = Some (mn, CHR '':'' # r)"
    "get_number 0 61 (two sec @ CHR '' '' # r) = Some (sec, CHR '' '' # r)"
    "get_number 0 2036 (four year @ rest) = Some (year, rest)" for r
    using assms(5-9) by (simp_all add: get_two get_four)
  have sps: "skip_space (CHR '' '' # two hour @ r) = two hour @ r" "skip_space (CHR '' '' # four year @ rest) = four year @ rest" for r
    using assms(5,8) by (simp_all add: skip_space_two skip_space_four space_blank)
  note week = match_weekday_ab [OF assms(1)] and month = match_month_ab [OF assms(2)]
  show ?thesis
    unfolding strptime_internal_def asctime_def HERE_D_T_FMT_def dt [symmetric]
    by (simp del: skip_space.simps One_nat_def add: loop_plain rec loop_space loop_char space_blank directives match_weekday_def match_month_def
        week month put_tm_def number_field_def sp day nums sps finish_def append_assoc)
qed


section \<open>Never beyond the input\<close>

definition tail_of :: "string \<Rightarrow> string \<Rightarrow> bool" where
  "tail_of r s \<longleftrightarrow> (\<exists>p. s = p @ r)"

lemma tail_of_refl [simp]: "tail_of s s"
  by (simp add: tail_of_def)

lemma tail_of_trans [trans]: "tail_of r s \<Longrightarrow> tail_of s u \<Longrightarrow> tail_of r u"
  unfolding tail_of_def by (metis append_assoc)

lemma tail_of_tl [simp]: "tail_of (tl s) s"
  by (cases s) (auto simp: tail_of_def)

lemma tail_of_drop [simp]: "tail_of (drop n s) s"
  by (metis append_take_drop_id tail_of_def)

lemma tail_of_Cons: "tail_of r s \<Longrightarrow> tail_of r (c # s)"
  unfolding tail_of_def by (metis append_Cons)

lemma skip_space_tail [simp]: "tail_of (skip_space s) s"
  by (induction s) (auto simp: tail_of_Cons)

lemma skip_digits_tail [simp]: "tail_of (skip_digits s) s"
  by (induction s) (auto simp: tail_of_Cons)

lemma get_number_tail: "get_number from to s = Some (n, r) \<Longrightarrow> tail_of r s"
  using get_number_suffix by (auto simp: tail_of_def)

lemma match_string_tail: "match_string a s = Some r \<Longrightarrow> tail_of r s"
  by (auto simp: match_string_def split: if_splits)

lemma match_names_tail: "match_names ns as cnt s = Some (n, r) \<Longrightarrow> tail_of r s"
  by (induction ns as cnt s rule: match_names.induct) (auto dest: match_string_tail split: option.splits)

lemma match_names_range: "match_names ns as cnt s = Some (n, r) \<Longrightarrow> cnt \<le> n \<and> n < cnt + length ns"
  by (induction ns as cnt s rule: match_names.induct) (auto split: option.splits)

lemma match_names_bounds: "match_names ns as cnt s = Some (n, r) \<Longrightarrow> tail_of r s \<and> cnt \<le> n \<and> n < cnt + length ns"
  using match_names_tail match_names_range by blast

lemma secs_loop_tail: "secs_loop n s = (m, r) \<Longrightarrow> tail_of r s"
proof (induction n s rule: secs_loop.induct)
  case (2 n c s)
  then show ?case by (auto simp: Let_def tail_of_Cons split: if_splits)
qed simp

text \<open>Fields in their ranges: those of a calendar date, with seconds up to 61, the years that \<open>%Y\<close> and \<open>%y\<close> can store and
  hours up to a given one.\<close>

definition tm_within :: "int \<Rightarrow> tm \<Rightarrow> bool" where
  "tm_within h t \<longleftrightarrow> 0 \<le> tm_sec t \<and> tm_sec t \<le> 61 \<and> 0 \<le> tm_min t \<and> tm_min t \<le> 59 \<and> 0 \<le> tm_hour t \<and> tm_hour t \<le> h
     \<and> 1 \<le> tm_mday t \<and> tm_mday t \<le> 31 \<and> 0 \<le> tm_mon t \<and> tm_mon t \<le> 11 \<and> -1900 \<le> tm_year t \<and> tm_year t \<le> 149
     \<and> 0 \<le> tm_wday t \<and> tm_wday t \<le> 6 \<and> 0 \<le> tm_yday t \<and> tm_yday t \<le> 365"

definition tm_ok :: "tm \<Rightarrow> bool" where
  "tm_ok t \<longleftrightarrow> tm_within 23 t"

lemmas tm_ok_defs = tm_ok_def tm_within_def

text \<open>A format in which no character can start another call or store a whole time. While it is parsed, an hour
  that was read by \<open>%I\<close> stays below twelve until the end, where \<open>PM\<close> is added.\<close>

definition simple :: "string \<Rightarrow> bool" where
  "simple f \<longleftrightarrow> (\<forall>c \<in> set f. recursive_format c = None \<and> c \<noteq> CHR ''s'')"

definition st_ok :: "bool \<Rightarrow> parse_state \<Rightarrow> bool" where
  "st_ok b s \<longleftrightarrow> tm_ok (p_tm s) \<and> (b \<longrightarrow> p_have_I s \<longrightarrow> tm_hour (p_tm s) \<le> 11)"

lemma recursive_simple: "recursive_format c = Some f \<Longrightarrow> simple f"
proof -
  have "\<forall>x \<in> set [HERE_D_T_FMT, HERE_D_FMT, HERE_T_FMT_AMPM, ''%H:%M'', HERE_T_FMT]. simple x"
    unfolding simple_def by code_simp
  then show "recursive_format c = Some f \<Longrightarrow> simple f" by (simp add: recursive_format_def split: if_splits)
qed

lemma st_ok_tm: "st_ok b s \<Longrightarrow> tm_ok (p_tm s)"
  by (simp add: st_ok_def)

lemma st_ok_rp [simp]: "st_ok b (s\<lparr>p_rp := r\<rparr>) = st_ok b s"
  by (simp add: st_ok_def)

text \<open>A directive moves towards the end of the input and keeps the fields in their ranges.\<close>

definition steps_ok :: "bool \<Rightarrow> parse_state \<Rightarrow> parsed \<Rightarrow> bool" where
  "steps_ok b s r \<longleftrightarrow> (case r of Inl t \<Rightarrow> tm_ok t | Inr s' \<Rightarrow> tail_of (p_rp s') (p_rp s) \<and> st_ok b s')"

lemma number_field_ok:
  assumes "st_ok b s" and "\<And>v s'. from \<le> v \<Longrightarrow> v \<le> to \<Longrightarrow> st_ok b s' \<Longrightarrow>
    p_rp (store v s') = p_rp s' \<and> st_ok b (store v s')"
  shows "steps_ok b s (number_field from to store s)"
proof (cases "get_number from to (p_rp s)")
  case None
  then show ?thesis using assms(1) by (simp add: number_field_def steps_ok_def st_ok_tm)
next
  case (Some r)
  then obtain v rp where r: "get_number from to (p_rp s) = Some (v, rp)" by (cases r) auto
  then show ?thesis using assms(1) assms(2) [of v "s\<lparr>p_rp := rp\<rparr>"] get_number_range [OF r] get_number_tail [OF r]
    by (simp add: number_field_def steps_ok_def)
qed

definition directive_ok :: "bool \<Rightarrow> parse_state \<Rightarrow> (parse_state \<Rightarrow> parsed) option \<Rightarrow> bool" where
  "directive_ok b s d \<longleftrightarrow> (case d of None \<Rightarrow> True | Some f \<Rightarrow> steps_ok b s (f s))"

lemma directive_ok_intros:
  "directive_ok b s None" "steps_ok b s (f s) \<Longrightarrow> directive_ok b s (Some f)"
  "(A \<Longrightarrow> directive_ok b s x) \<Longrightarrow> (\<not> A \<Longrightarrow> directive_ok b s y) \<Longrightarrow> directive_ok b s (if A then x else y)"
  by (simp_all add: directive_ok_def)

lemma st_ok_fields [simp]:
  "st_ok b s \<Longrightarrow> -1900 \<le> y \<Longrightarrow> y \<le> 149 \<Longrightarrow> st_ok b (put_tm (\<lambda>t. t\<lparr>tm_year := y\<rparr>) s)"
  "st_ok b s \<Longrightarrow> 1 \<le> y \<Longrightarrow> y \<le> 31 \<Longrightarrow> st_ok b (put_tm (\<lambda>t. t\<lparr>tm_mday := y\<rparr>) s)"
  "st_ok b s \<Longrightarrow> 0 \<le> y \<Longrightarrow> y \<le> 365 \<Longrightarrow> st_ok b (put_tm (\<lambda>t. t\<lparr>tm_yday := y\<rparr>) s)"
  "st_ok b s \<Longrightarrow> 0 \<le> y \<Longrightarrow> y \<le> 11 \<Longrightarrow> st_ok b (put_tm (\<lambda>t. t\<lparr>tm_mon := y\<rparr>) s)"
  "st_ok b s \<Longrightarrow> 0 \<le> y \<Longrightarrow> y \<le> 6 \<Longrightarrow> st_ok b (put_tm (\<lambda>t. t\<lparr>tm_wday := y\<rparr>) s)"
  "st_ok b s \<Longrightarrow> 0 \<le> y \<Longrightarrow> y \<le> 59 \<Longrightarrow> st_ok b (put_tm (\<lambda>t. t\<lparr>tm_min := y\<rparr>) s)"
  "st_ok b s \<Longrightarrow> 0 \<le> y \<Longrightarrow> y \<le> 61 \<Longrightarrow> st_ok b (put_tm (\<lambda>t. t\<lparr>tm_sec := y\<rparr>) s)"
  "st_ok b s \<Longrightarrow> 0 \<le> y \<Longrightarrow> y \<le> 23 \<Longrightarrow> st_ok b (put_tm (\<lambda>t. t\<lparr>tm_hour := y\<rparr>) (s\<lparr>p_have_I := False\<rparr>))"
  "st_ok b s \<Longrightarrow> 0 \<le> y \<Longrightarrow> y \<le> 11 \<Longrightarrow> st_ok b (put_tm (\<lambda>t. t\<lparr>tm_hour := y\<rparr>) (s\<lparr>p_have_I := True\<rparr>))"
  by (simp_all add: st_ok_def put_tm_def tm_ok_defs)

lemma put_tm_rp [simp]: "p_rp (put_tm f s) = p_rp s"
  by (simp add: put_tm_def)

lemma mod_twelve: "int (v mod 12) \<le> 11" "int (v mod 7) \<le> 6"
  by presburger+

lemma plain_directive_ok:
  assumes "st_ok b s" and "\<And>n t. lt n = Some t \<Longrightarrow> tm_ok t" and "b \<Longrightarrow> k \<noteq> CHR ''s''"
  shows "steps_ok b s (plain_directive lt g k s)"
proof -
  have weekday: "steps_ok b s (match_weekday s)"
    using assms(1) by (auto simp: steps_ok_def match_weekday_def weekday_name_def st_ok_tm
      dest!: match_names_bounds split: option.splits)
  have month: "steps_ok b s (match_month s)"
    using assms(1) by (auto simp: steps_ok_def match_month_def month_name_def st_ok_tm
      dest!: match_names_bounds split: option.splits)
  have am_pm: "steps_ok b s (match_am_pm s)"
    using assms(1) by (auto simp: steps_ok_def match_am_pm_def st_ok_def dest: match_string_tail split: option.splits)
  have secs: "steps_ok b s (match_seconds lt g s)" if "\<not> b"
    using assms(1,2) that
    by (auto simp: steps_ok_def match_seconds_def st_ok_def Let_def dest: secs_loop_tail split: option.splits prod.splits)
  have digits: "steps_ok b s (if isdigit (deref (p_rp s)) then Inr (s\<lparr>p_rp := skip_digits (p_rp s)\<rparr>) else Inl (p_tm s))"
    using assms(1) by (simp add: steps_ok_def st_ok_tm)
  note field = number_field_ok [OF assms(1)]
  have date: "directive_ok b s (date_directive k)"
    unfolding date_directive_def
    by (intro directive_ok_intros weekday month digits field) (use mod_twelve in \<open>auto simp: of_nat_diff\<close>)
  have time: "directive_ok b s (time_directive lt g k)"
    unfolding time_directive_def
    by (intro directive_ok_intros am_pm secs field) (use assms(3) mod_twelve in auto)
  have other: "steps_ok b s (other_directive k s)"
    using assms(1) by (simp add: other_directive_def steps_ok_def st_ok_tm)
  show ?thesis using date time other by (simp add: plain_directive_def directive_ok_def split: option.splits)
qed

lemma alt_directive_ok: "st_ok b s \<Longrightarrow> steps_ok b s (alt_directive k s)"
proof -
  assume t: "st_ok b s"
  have if_ok: "steps_ok b s x \<Longrightarrow> steps_ok b s y \<Longrightarrow> steps_ok b s (if A then x else y)" for A x y by simp
  have "steps_ok b s (Inl (p_tm s))" using t by (simp add: steps_ok_def st_ok_tm)
  then show ?thesis unfolding alt_directive_def
    by (intro if_ok number_field_ok t) auto
qed

lemma finish_rp [simp]: "p_rp (finish s) = p_rp s"
  by (simp add: finish_def)

lemma finish_simple: "st_ok True s \<Longrightarrow> tm_ok (p_tm (finish s))"
  by (simp add: st_ok_def finish_def put_tm_def tm_ok_defs)

lemma finish_any: "st_ok b s \<Longrightarrow> tm_within 35 (p_tm (finish s))"
  by (simp add: st_ok_def finish_def put_tm_def tm_ok_defs)

lemma steps_ok_trans: "steps_ok b s' r \<Longrightarrow> tail_of (p_rp s') (p_rp s) \<Longrightarrow> steps_ok b s r"
  using tail_of_trans by (auto simp: steps_ok_def split: sum.splits)

lemma skip_E_simple: "simple f \<Longrightarrow> skip_E f = Some g \<Longrightarrow> simple g"
proof -
  assume f: "simple f" and "skip_E f = Some g"
  then have "g = f \<or> g = tl f" by (metis skip_E_def option.inject option.distinct(1))
  moreover have "simple (tl f)" using f by (cases f) (auto simp: simple_def)
  ultimately show "simple g" using f by blast
qed

lemma simple_Cons: "simple (c # f) \<longleftrightarrow> recursive_format c = None \<and> c \<noteq> CHR ''s'' \<and> simple f"
  by (auto simp: simple_def)

lemma simple_tl: "simple f \<Longrightarrow> simple (tl f)"
  by (cases f) (auto simp: simple_def)

lemma parse_loop_ok:
  "(\<And>n t. lt n = Some t \<Longrightarrow> tm_ok t) \<Longrightarrow> st_ok b s \<Longrightarrow> (b \<Longrightarrow> simple f) \<Longrightarrow> steps_ok b s (parse_loop lt g f s)"
proof (induction lt g f s arbitrary: b rule: parse_loop.induct)
  case (1 lt g s)
  then show ?case by (simp add: steps_ok_def)
next
  case (2 lt g c f s)
  note lt = "2.prems"(1) and t = "2.prems"(2) and sim = "2.prems"(3)
  have sf: "b \<Longrightarrow> simple f" using sim by (simp add: simple_Cons)
  have fail: "steps_ok b s (Inl (p_tm s))" using t by (simp add: steps_ok_def st_ok_tm)
  show ?case
  proof (cases "isspace c \<or> c \<noteq> CHR ''%''")
    case True
    show ?thesis
    proof (cases "isspace c")
      case sp: True
      let ?s1 = "s\<lparr>p_rp := skip_space (p_rp s)\<rparr>"
      have "steps_ok b ?s1 (parse_loop lt g f ?s1)" using "2.IH"(1) [OF sp lt _ sf] t by simp
      then have "steps_ok b s (parse_loop lt g f ?s1)" by (rule steps_ok_trans) simp
      then show ?thesis using sp by (simp add: loop_space)
    next
      case sp: False
      show ?thesis
      proof (cases "deref (p_rp s) \<noteq> c")
        case False
        let ?s1 = "s\<lparr>p_rp := tl (p_rp s)\<rparr>"
        have "steps_ok b ?s1 (parse_loop lt g f ?s1)" using "2.IH"(2) [OF sp _ _ lt _ sf] True sp False t by simp
        then have "steps_ok b s (parse_loop lt g f ?s1)" by (rule steps_ok_trans) simp
        then show ?thesis using sp True False by (simp add: loop_char)
      qed (use sp True fail in \<open>simp add: loop_char\<close>)
    qed
  next
    case False
    then have c: "\<not> isspace c" "\<not> c \<noteq> CHR ''%''" by auto
    show ?thesis
    proof (cases "skip_E f")
      case None
      then show ?thesis using c fail by (simp add: parse_loop.simps(2))
    next
      case e: (Some f')
      show ?thesis
      proof (cases f')
        case Nil
        then show ?thesis using c fail e by (simp add: parse_loop.simps(2))
      next
        case kg: (Cons k h)
        have sk: "b \<Longrightarrow> simple (k # h)" using skip_E_simple [OF sf e] kg by simp
        have sh: "b \<Longrightarrow> simple h" "b \<Longrightarrow> simple (tl h)" using sk simple_tl [of h] by (simp_all add: simple_Cons)
        show ?thesis
        proof (cases "recursive_format k")
          case rec: (Some nf)
          let ?s0 = "\<lparr>p_rp = p_rp s, p_tm = p_tm s, p_have_I = False, p_is_pm = False\<rparr>"
          have ih: "steps_ok True ?s0 (parse_loop lt g nf ?s0)" using "2.IH"(5) [where b = True, OF c e kg rec lt] recursive_simple [OF rec] t by (simp add: st_ok_def)
          show ?thesis
          proof (cases "parse_loop lt g nf ?s0")
            case (Inl u)
            then show ?thesis using ih c e kg rec by (simp add: parse_loop.simps(2) steps_ok_def)
          next
            case (Inr s')
            let ?s1 = "s\<lparr>p_rp := p_rp s', p_tm := p_tm (finish s')\<rparr>"
            have s': "tail_of (p_rp s') (p_rp s)" "st_ok True s'" using ih Inr by (simp_all add: steps_ok_def)
            have nb: "\<not> b" using sk rec by (auto simp: simple_Cons)
            then have "st_ok b ?s1" using finish_simple [OF s'(2)] by (simp add: st_ok_def)
            then have "steps_ok b ?s1 (parse_loop lt g h ?s1)" using "2.IH"(6) [OF c e kg rec Inr lt] nb by simp
            then have "steps_ok b s (parse_loop lt g h ?s1)" by (rule steps_ok_trans) (simp add: s'(1))
            then show ?thesis using c e kg rec Inr by (simp add: parse_loop.simps(2))
          qed
        next
          case rec: None
          define d where "d = (if k = CHR ''O'' then alt_directive (deref h) s else plain_directive lt g k s)"
          have d: "steps_ok b s d" unfolding d_def using alt_directive_ok [OF t] plain_directive_ok [OF t lt] sk by (simp add: simple_Cons)
          show ?thesis
          proof (cases d)
            case (Inl u)
            then show ?thesis using d c e kg rec by (auto simp: parse_loop.simps(2) steps_ok_def d_def split: if_splits)
          next
            case (Inr s')
            have s': "tail_of (p_rp s') (p_rp s)" "st_ok b s'" using d Inr by (simp_all add: steps_ok_def)
            have "steps_ok b s' (parse_loop lt g (if k = CHR ''O'' then tl h else h) s')"
            proof (cases "k = CHR ''O''")
              case True
              then show ?thesis using "2.IH"(3) [OF c e kg rec True _ lt s'(2) sh(2)] Inr by (simp add: d_def)
            next
              case False
              then show ?thesis using "2.IH"(4) [OF c e kg rec False _ lt s'(2) sh(1)] Inr by (simp add: d_def)
            qed
            then have "steps_ok b s (parse_loop lt g (if k = CHR ''O'' then tl h else h) s')"
              by (rule steps_ok_trans) (rule s'(1))
            then show ?thesis using c e kg rec Inr by (auto simp: parse_loop.simps(2) d_def split: if_splits)
          qed
        qed
      qed
    qed
  qed
qed

section \<open>Properties\<close>

text \<open>C14: \<open>strptime\<close> reads the dates that \<open>asctime\<close> writes: for every weekday, month, day, time and year that
  the parser supports, \<open>%c\<close> takes the whole text and stores all seven fields.\<close>

theorem strptime_asctime:
  assumes "wday < 7" and "mon < 12" and "1 \<le> mday" and "mday \<le> 31" and "hour \<le> 23" and "mn \<le> 59" and "sec \<le> 61"
    and "year \<le> 2036" and "\<not> isdigit (deref rest)"
  shows "strptime localtime secs0 (asctime wday mon mday hour mn sec year @ rest) ''%c'' t
    = Inr (rest, t\<lparr>tm_sec := int sec, tm_min := int mn, tm_hour := int hour, tm_mday := int mday, tm_mon := int mon,
        tm_year := int year - 1900, tm_wday := int wday\<rparr>)"
proof -
  have r: "recursive_format (CHR ''c'') = Some HERE_D_T_FMT" by (simp add: recursive_format_def)
  show ?thesis
    unfolding strptime_def strptime_internal_def [where format = "''%c''"]
    by (simp add: loop_recursive [OF r] parse_asctime [OF assms] finish_def)
qed

definition tm0 :: tm where
  "tm0 = \<lparr>tm_sec = 0, tm_min = 0, tm_hour = 0, tm_mday = 1, tm_mon = 0, tm_year = 0, tm_wday = 0, tm_yday = 0\<rparr>"

lemma strptime_asctime_witness:
  "strptime (\<lambda>_. None) 0 (''Wed Jun  9 04:05:06 1993'' @ ''!'') ''%c'' tm0
    = Inr (''!'', tm0\<lparr>tm_sec := 6, tm_min := 5, tm_hour := 4, tm_mday := 9, tm_mon := 5, tm_year := 93, tm_wday := 3\<rparr>)"
proof -
  have "asctime 3 5 9 4 5 6 1993 = ''Wed Jun  9 04:05:06 1993''" "\<not> isdigit (deref ''!'')" by code_simp+
  then show ?thesis using strptime_asctime [of 3 5 9 4 5 6 1993 "''!''" "\<lambda>_. None" 0 tm0] by simp
qed

text \<open>The twelve hours of \<open>PM\<close> are also added to an hour that \<open>%R\<close> has stored behind \<open>%I\<close>.\<close>

lemma late_hour:
  "\<exists>u. strptime localtime secs0 ''1 PM 23:00'' ''%I %p %R'' t = Inr ([], u) \<and> tm_hour u = 35"
proof -
  have "strptime localtime secs0 ''1 PM 23:00'' ''%I %p %R'' t = Inr ([], t\<lparr>tm_hour := 1, tm_hour := 23, tm_min := 0,
      tm_hour := tm_hour (t\<lparr>tm_hour := 1, tm_hour := 23, tm_min := 0\<rparr>) + 12\<rparr>)"
    by code_simp
  then show ?thesis by simp
qed



text \<open>Where the parser goes wrong: leading zeros do not count as digits, so that \<open>0103\<close> read as month and day
  is the third of October; \<open>%OI\<close> stores 12 o'clock as 11; the twelve hours of \<open>PM\<close> are also added to an
  hour of \<open>%R\<close>; and \<open>%s\<close> depends on what its variable happened to hold.\<close>

lemma strptime_quirks:
  "(\<exists>u. strptime (\<lambda>_. None) 0 ''0103'' ''%m%d'' tm0 = Inr ([], u) \<and> tm_mon u = 9 \<and> tm_mday u = 3)
    \<and> (\<exists>u. strptime (\<lambda>_. None) 0 ''12'' ''%OI'' tm0 = Inr ([], u) \<and> tm_hour u = 11)
    \<and> (\<exists>u. strptime (\<lambda>_. None) 0 ''1 PM 23:00'' ''%I %p %R'' tm0 = Inr ([], u) \<and> tm_hour u = 35)
    \<and> strptime (\<lambda>n. Some (tm0\<lparr>tm_sec := sint n\<rparr>)) 0 ''5'' ''%s'' tm0 \<noteq> strptime (\<lambda>n. Some (tm0\<lparr>tm_sec := sint n\<rparr>)) 1 ''5'' ''%s'' tm0"
proof (intro conjI)
  have month: "strptime (\<lambda>_. None) 0 ''0103'' ''%m%d'' tm0 = Inr ([], tm0\<lparr>tm_mon := 9, tm_mday := 3\<rparr>)" by code_simp
  then show "\<exists>u. strptime (\<lambda>_. None) 0 ''0103'' ''%m%d'' tm0 = Inr ([], u) \<and> tm_mon u = 9 \<and> tm_mday u = 3" by simp
  have "strptime (\<lambda>_. None) 0 ''12'' ''%OI'' tm0 = Inr ([], tm0\<lparr>tm_hour := 11\<rparr>)" by code_simp
  then show "\<exists>u. strptime (\<lambda>_. None) 0 ''12'' ''%OI'' tm0 = Inr ([], u) \<and> tm_hour u = 11" by simp
  have "strptime (\<lambda>_. None) 0 ''1 PM 23:00'' ''%I %p %R'' tm0 = Inr ([], tm0\<lparr>tm_hour := 35\<rparr>)" by code_simp
  then show "\<exists>u. strptime (\<lambda>_. None) 0 ''1 PM 23:00'' ''%I %p %R'' tm0 = Inr ([], u) \<and> tm_hour u = 35" by simp
  show "strptime (\<lambda>n. Some (tm0\<lparr>tm_sec := sint n\<rparr>)) 0 ''5'' ''%s'' tm0 \<noteq> strptime (\<lambda>n. Some (tm0\<lparr>tm_sec := sint n\<rparr>)) 1 ''5'' ''%s'' tm0"
    by code_simp
qed

end
