(* ===== verification/Cgi.thy ===== *)
theory Cgi
  imports FileUtil "HOL-Library.Sublist"
begin

text \<open>
  The form and URL helpers of the CD player plug-in, \<open>plug-ins/cddaplay/ciscgi\<close>: \<open>urldcode.c\<close>
  decodes the escapes of a URL in place, \<open>urlncode.c\<close> encodes a string into a buffer of a given
  size, \<open>urlvalue.c\<close> escapes a string for an HTML form, \<open>cgiupper.c\<close> converts the field names of
  a query to upper case and \<open>cgifldld.c\<close> loads the value of a field.

  \<open>cddb.cpp\<close> sends its queries through \<open>urlncode\<close>. The theorems state what each function stores
  and returns, that the buffers are respected, and that a value that is encoded into a query is
  found again by \<open>cgifldld\<close> and decoded by \<open>urldcode\<close>.
\<close>

section \<open>urldcode.c\<close>

text \<open>The loop over source \<open>s\<close> and destination \<open>t\<close>, which point into the same string. The inner
  option is \<open>None\<close> where the code returns 0 from inside the loop.\<close>

function urldcode_loop :: "store \<Rightarrow> ptr \<Rightarrow> ptr \<Rightarrow> (store \<times> ptr option) option" where
  "urldcode_loop h s t =
     (case ld h s of
        None \<Rightarrow> None
      | Some c \<Rightarrow>
          if c = NUL then Some (h, Some t)
          else if c = CHR ''%'' then
            (case ld h (padd s 1) of
               None \<Rightarrow> None
             | Some c1 \<Rightarrow>
                 if c1 = NUL then Some (h, None)
                 else case strchr xdigits (toupper c1) of
                    None \<Rightarrow> Some (h, None)
                  | Some i \<Rightarrow>
                      (case ld h (padd s 2) of
                         None \<Rightarrow> None
                       | Some c2 \<Rightarrow>
                           if c2 = NUL then Some (h, None)
                           else case strchr xdigits (toupper c2) of
                              None \<Rightarrow> Some (h, None)
                            | Some j \<Rightarrow>
                                (case st h t (char_of (i * 16 + j)) of
                                   None \<Rightarrow> None
                                 | Some h' \<Rightarrow> urldcode_loop h' (padd s 3) (padd t 1))))
          else
            (case st h t (if c = CHR ''+'' then CHR '' '' else c) of
               None \<Rightarrow> None
             | Some h' \<Rightarrow> urldcode_loop h' (padd s 1) (padd t 1)))"
  by pat_completeness auto

lemma urldcode_less:
  "ld h s = Some c \<Longrightarrow> st h t d = Some h' \<Longrightarrow> 0 < k \<Longrightarrow>
   length (h' (fst s)) - (snd s + k) < length (h (fst s)) - snd s"
  using ld_room [of h s c] st_length [of h t d h' "fst s"] by auto

termination urldcode_loop
  by (relation "measure (\<lambda>(h, s, t). length (h (fst s)) - snd s)") (auto simp del: ld.simps st.simps dest: urldcode_less)

declare urldcode_loop.simps [simp del]

text \<open>The result is the length of the decoded string, or 0 for a null pointer or a wrong escape.\<close>

definition urldcode :: "store \<Rightarrow> ptr option \<Rightarrow> (store \<times> nat) option" where
  "urldcode h str =
     (case str of
        None \<Rightarrow> Some (h, 0)
      | Some p \<Rightarrow>
          do { (h', r) \<leftarrow> urldcode_loop h p p;
               case r of
                 None \<Rightarrow> Some (h', 0)
               | Some t \<Rightarrow> do { h'' \<leftarrow> st h' t NUL; Some (h'', snd t - snd p) } })"

section \<open>urlncode.c\<close>

definition ENCLIST :: string where
  "ENCLIST = [CHR ''!'', CHR 0x22, CHR ''#'', CHR ''$'', CHR ''%'', CHR ''&'', CHR 0x27, CHR ''('', CHR '')'',
     CHR '','', CHR '':'', CHR '';'', CHR ''<'', CHR ''='', CHR ''>'', CHR ''?'', CHR ''{'', CHR 0x5C, CHR ''}'',
     CHR ''~'', CHR ''+'']"

text \<open>\<open>(int)*s\<close> for a signed \<open>char\<close>, and the division by repeated subtraction.\<close>

definition char_int :: "char \<Rightarrow> int" where
  "char_int c = (if ccode c < 128 then int (ccode c) else int (ccode c) - 256)"

function sixteens :: "int \<Rightarrow> nat \<Rightarrow> nat \<times> int" where
  "sixteens n a = (if 16 \<le> n then sixteens (n - 16) (Suc a) else (a, n))"
  by pat_completeness auto
termination
  by (relation "measure (\<lambda>(n, a). nat n)") auto

declare sixteens.simps [simp del]

text \<open>\<open>CONVERT[i]\<close>.\<close>

definition convert_at :: "int \<Rightarrow> char option" where
  "convert_at i = (if 0 \<le> i then sat xdigits (nat i) else None)"

text \<open>\<open>*t++ = c\<close> for several characters.\<close>

fun emits :: "store \<Rightarrow> ptr \<Rightarrow> string \<Rightarrow> (store \<times> ptr) option" where
  "emits h t [] = Some (h, t)"
| "emits h t (c # cs) = do { h' \<leftarrow> st h t c; emits h' (padd t 1) cs }"

text \<open>The loop: the result is the store, the place behind the last character, and the used bytes, or
  \<open>None\<close> in place of them where the code gives up.\<close>

function urlncode_loop :: "store \<Rightarrow> ptr \<Rightarrow> ptr \<Rightarrow> nat \<Rightarrow> int \<Rightarrow> (store \<times> ptr \<times> nat option) option" where
  "urlncode_loop h s t used sz =
     (case ld h s of
        None \<Rightarrow> None
      | Some c \<Rightarrow>
          if c = NUL then Some (h, t, Some used)
          else if sz \<le> int used + 1 then Some (h, t, None)
          else if c = CHR '' '' then
            (case st h t (CHR ''+'') of
               None \<Rightarrow> None
             | Some h' \<Rightarrow> urlncode_loop h' (padd s 1) (padd t 1) (used + 1) sz)
          else if strchr ENCLIST c = None then
            (case st h t c of
               None \<Rightarrow> None
             | Some h' \<Rightarrow> urlncode_loop h' (padd s 1) (padd t 1) (used + 1) sz)
          else if sz \<le> int used + 4 then Some (h, t, None)
          else
            (case sixteens (char_int c) 0 of (a, n) \<Rightarrow>
               (case (convert_at (int a), convert_at n) of
                  (Some x, Some y) \<Rightarrow>
                    (case st h t (CHR ''%'') of
                       None \<Rightarrow> None
                     | Some h1 \<Rightarrow>
                         (case st h1 (padd t 1) x of
                            None \<Rightarrow> None
                          | Some h2 \<Rightarrow>
                              (case st h2 (padd t 2) y of
                                 None \<Rightarrow> None
                               | Some h3 \<Rightarrow> urlncode_loop h3 (padd s 1) (padd t 3) (used + 3) sz)))
                | _ \<Rightarrow> None)))"
  by pat_completeness auto

termination urlncode_loop
  by (relation "measure (\<lambda>(h, s, t, used, sz). length (h (fst s)) - snd s)")
    (auto simp: st_length simp del: ld.simps st.simps dest!: ld_room)

declare urlncode_loop.simps [simp del]

definition urlncode :: "store \<Rightarrow> ptr \<Rightarrow> ptr option \<Rightarrow> int \<Rightarrow> (store \<times> nat) option" where
  "urlncode h src dst sz =
     (case dst of
        None \<Rightarrow> Some (h, 0)
      | Some d \<Rightarrow>
          do { (h', t, r) \<leftarrow> urlncode_loop h src d 0 sz;
               h'' \<leftarrow> st h' t NUL;
               case r of None \<Rightarrow> Some (h'', 0) | Some used \<Rightarrow> Some (h'', used) })"

section \<open>urlvalue.c\<close>

text \<open>What one character becomes.\<close>

definition html_char :: "char \<Rightarrow> string" where
  "html_char c =
     (if c = CHR ''>'' then ''&gt;'' else if c = CHR ''<'' then ''&lt;''
      else if c = CHR 0x22 then ''&quot;'' else [c])"

text \<open>The result of the loop is the place of the terminator, or \<open>None\<close> where the code returns 1; then
  nothing terminates what has been written.\<close>

function urlvalue_loop :: "store \<Rightarrow> ptr \<Rightarrow> ptr \<Rightarrow> nat \<Rightarrow> int \<Rightarrow> (store \<times> ptr option) option" where
  "urlvalue_loop h s t used sz =
     (case ld h s of
        None \<Rightarrow> None
      | Some c \<Rightarrow>
          if c = NUL then Some (h, Some t)
          else if sz \<le> int used + int (length (html_char c)) then Some (h, None)
          else
            (case emits h t (html_char c) of
               None \<Rightarrow> None
             | Some (h', t') \<Rightarrow> urlvalue_loop h' (padd s 1) t' (used + length (html_char c)) sz))"
  by pat_completeness auto

lemma emits_length: "emits h t cs = Some (h', t') \<Longrightarrow> length (h' ob) = length (h ob)"
  by (induction h t cs rule: emits.induct) (auto simp: st_length simp del: st.simps split: bind_splits)

termination urlvalue_loop
  by (relation "measure (\<lambda>(h, s, t, used, sz). length (h (fst s)) - snd s)")
    (auto simp: emits_length simp del: ld.simps dest!: ld_room)

declare urlvalue_loop.simps [simp del]

definition CIS_NOERROR :: int where "CIS_NOERROR = 0"

definition urlvalue :: "store \<Rightarrow> ptr \<Rightarrow> ptr \<Rightarrow> int \<Rightarrow> (store \<times> int) option" where
  "urlvalue h src dst sz =
     do { (h', r) \<leftarrow> urlvalue_loop h src dst 0 sz;
          case r of None \<Rightarrow> Some (h', 1) | Some t \<Rightarrow> do { h'' \<leftarrow> st h' t NUL; Some (h'', CIS_NOERROR) } }"

section \<open>cgiupper.c\<close>

function cgiupper_loop :: "store \<Rightarrow> ptr \<Rightarrow> bool \<Rightarrow> store option" where
  "cgiupper_loop h s tag =
     (case ld h s of
        None \<Rightarrow> None
      | Some c \<Rightarrow>
          if c = NUL then Some h
          else
            (case (if tag then st h s (toupper c) else Some h) of
               None \<Rightarrow> None
             | Some h' \<Rightarrow>
                 (case ld h' s of
                    None \<Rightarrow> None
                  | Some d \<Rightarrow>
                      cgiupper_loop h' (padd s 1)
                        (if d = CHR ''&'' then True else if d = CHR ''='' then False else tag))))"
  by pat_completeness auto
termination
  by (relation "measure (\<lambda>(h, s, tag). length (h (fst s)) - snd s)")
    (auto simp: st_length simp del: st.simps ld.simps dest!: ld_room split: if_splits)

declare cgiupper_loop.simps [simp del]

definition cgiupper :: "store \<Rightarrow> ptr \<Rightarrow> store option" where
  "cgiupper h s = cgiupper_loop h s True"

section \<open>cgifldld.c\<close>

fun strstr :: "string \<Rightarrow> string \<Rightarrow> nat option" where
  "strstr s t =
     (if prefix t s then Some 0 else case s of [] \<Rightarrow> None | _ # s' \<Rightarrow> map_option Suc (strstr s' t))"

declare strstr.simps [simp del]

text \<open>The search: \<open>z\<close> is the offset where \<open>strstr\<close> starts. Searching behind the terminator is
  undefined.\<close>

function find_field :: "string \<Rightarrow> string \<Rightarrow> nat \<Rightarrow> nat option option" where
  "find_field src name z =
     (if length src < z then None
      else case strstr (drop z src) name of
        None \<Rightarrow> Some None
      | Some k \<Rightarrow>
          if (z + k = 0 \<or> src ! (z + k - 1) = CHR ''&'') \<and> deref (drop (z + k + length name) src) = CHR ''=''
          then Some (Some (z + k))
          else find_field src name (z + k + 1))"
  by pat_completeness auto
termination
  by (relation "measure (\<lambda>(src, name, z). Suc (length src) - z)") auto

declare find_field.simps [simp del]

function copy_value :: "store \<Rightarrow> ptr \<Rightarrow> ptr \<Rightarrow> (store \<times> ptr) option" where
  "copy_value h s t =
     (case ld h s of
        None \<Rightarrow> None
      | Some c \<Rightarrow>
          if c = NUL \<or> c = CHR ''&'' then Some (h, t)
          else (case st h t c of None \<Rightarrow> None | Some h' \<Rightarrow> copy_value h' (padd s 1) (padd t 1)))"
  by pat_completeness auto
termination
  by (relation "measure (\<lambda>(h, s, t). length (h (fst s)) - snd s)")
    (auto simp: st_length simp del: st.simps ld.simps dest!: ld_room)

declare copy_value.simps [simp del]

definition cgifldld :: "store \<Rightarrow> ptr \<Rightarrow> ptr \<Rightarrow> ptr \<Rightarrow> store option" where
  "cgifldld h src name dst =
     do { x \<leftarrow> cstr h src;
          n \<leftarrow> cstr h name;
          f \<leftarrow> find_field x n 0;
          (h', t) \<leftarrow> (case f of
                      None \<Rightarrow> Some (h, dst)
                    | Some s \<Rightarrow> copy_value h (padd src (s + length n + 1)) dst);
          st h' t NUL }"

section \<open>What is decoded\<close>

fun form_decode :: "string \<Rightarrow> string option" where
  "form_decode [] = Some []"
| "form_decode (c # s) =
     (if c = CHR ''%'' then
        (case s of
           a # b # t \<Rightarrow>
             (case (hex_digit a, hex_digit b) of
                (Some i, Some j) \<Rightarrow> map_option (Cons (char_of (i * 16 + j))) (form_decode t)
              | _ \<Rightarrow> None)
         | _ \<Rightarrow> None)
      else map_option (Cons (if c = CHR ''+'' then CHR '' '' else c)) (form_decode s))"

text \<open>What the loop has done when it stops: everything decoded, or a part of it and a wrong escape.\<close>

definition decoded :: "store \<Rightarrow> ptr \<Rightarrow> string \<Rightarrow> (store \<times> ptr option) option \<Rightarrow> bool" where
  "decoded h t x r \<longleftrightarrow>
     (case form_decode x of
        Some y \<Rightarrow> r = Some (put h t y, Some (padd t (length y)))
      | None \<Rightarrow> \<exists>y. r = Some (put h t y, None) \<and> length y \<le> length x)"

lemma form_decode_length: "form_decode x = Some y \<Longrightarrow> length y \<le> length x"
proof (induction x arbitrary: y rule: form_decode.induct)
  case (2 c s)
  then show ?case
    by (fastforce split: if_splits list.splits option.splits)
qed simp

lemma decoded_step:
  assumes "decoded (put h t [d]) (padd t 1) x' r" and "fits h t (Suc (length x'))"
    and "form_decode x = map_option (Cons d) (form_decode x')" and "length x' < length x"
  shows "decoded h t x r"
proof (cases "form_decode x'")
  case None
  then obtain y where "r = Some (put (put h t [d]) (padd t 1) y, None)" "length y \<le> length x'"
    using assms(1) by (auto simp: decoded_def)
  moreover have "put (put h t [d]) (padd t 1) y = put h t (d # y)"
    using assms(2) calculation(2) by (intro put_Cons) (auto elim: fits_mono)
  ultimately show ?thesis using None assms(3,4) by (auto simp: decoded_def intro!: exI [of _ "d # y"])
next
  case (Some y)
  then have "r = Some (put (put h t [d]) (padd t 1) y, Some (padd (padd t 1) (length y)))"
    using assms(1) by (auto simp: decoded_def)
  moreover have "put (put h t [d]) (padd t 1) y = put h t (d # y)"
    using assms(2) form_decode_length [OF Some] by (intro put_Cons) (auto elim: fits_mono)
  ultimately show ?thesis using Some assms(3) by (simp add: decoded_def)
qed

lemma decoded_fails: "form_decode x = None \<Longrightarrow> decoded h t x (Some (h, None))"
  by (auto simp: decoded_def intro!: exI [of _ "[]"])

lemma urldcode_loop_decoded:
  "cstr h s = Some x \<Longrightarrow> upward t s \<Longrightarrow> fits h t (length x) \<Longrightarrow> decoded h t x (urldcode_loop h s t)"
proof (induction "length x" arbitrary: x h s t rule: less_induct)
  case less
  note ld = cstr_ld [OF less.prems(1)]
  show ?case
  proof (cases x)
    case Nil
    then show ?thesis using ld by (subst urldcode_loop.simps) (simp add: decoded_def)
  next
    case (Cons c u)
    have cN: "c \<noteq> NUL" using cstr_NUL [OF less.prems(1)] Cons by auto
    have ldc: "ld h s = Some c" using ld Cons by simp
    have f1: "fits h t 1" using less.prems(3) Cons by (auto elim: fits_mono)
    have rest: "decoded h t x (urldcode_loop (put h t [d]) (padd s k) (padd t 1))"
      if d: "form_decode x = map_option (Cons d) (form_decode (drop k x))" and k: "0 < k" "k \<le> length x" for d k
    proof -
      note z = sdecode_step [OF less.prems(1,2) f1 k]
      have l: "length (drop k x) < length x" using k by simp
      have f: "fits h t (1 + length (drop k x))" using less.prems(3) k by (auto elim: fits_mono)
      from less.hyps [OF l z(1) [of d] z(2)] fits_padd [OF f] f1
      have "decoded (put h t [d]) (padd t 1) (drop k x) (urldcode_loop (put h t [d]) (padd s k) (padd t 1))"
        by simp
      then show ?thesis using decoded_step d l f by simp
    qed
    show ?thesis
    proof (cases "c = CHR ''%''")
      case False
      then show ?thesis
        using ldc cN st_put [OF f1] rest [of "if c = CHR ''+'' then CHR '' '' else c" 1] Cons
        by (subst urldcode_loop.simps) simp
    next
      case True
      have ld1: "ld h (padd s 1) = Some (deref u)"
        using cstr_ld [OF cstr_padd [OF less.prems(1), of 1]] Cons by (auto split: list.splits)
      show ?thesis
      proof (cases "hex_digit (deref u)")
        case None
        then have "form_decode x = None" using Cons True by (auto split: list.splits)
        moreover have "urldcode_loop h s t = Some (h, None)"
          using ldc True ld1 None by (subst urldcode_loop.simps) (auto simp: hex_digit_def simp del: strchr.simps split: if_splits)
        ultimately show ?thesis using decoded_fails by simp
      next
        case (Some i)
        then obtain a v where u: "u = a # v" by (cases u) (auto simp: hex_digit_def)
        have ld2: "ld h (padd s 2) = Some (deref v)"
          using cstr_ld [OF cstr_padd [OF less.prems(1), of 2]] Cons u by (auto split: list.splits)
        have i: "a \<noteq> NUL" "strchr xdigits (toupper a) = Some i"
          using Some u by (auto simp: hex_digit_def simp del: strchr.simps split: if_splits)
        show ?thesis
        proof (cases "hex_digit (deref v)")
          case None
          then have "form_decode x = None" using Cons True u by (auto split: list.splits option.splits)
          moreover have "urldcode_loop h s t = Some (h, None)"
            using ldc True ld1 ld2 None u i
            by (subst urldcode_loop.simps) (auto simp: hex_digit_def simp del: strchr.simps split: if_splits)
          ultimately show ?thesis using decoded_fails by simp
        next
          case (Some j)
          then obtain b w where v: "v = b # w" by (cases v) (auto simp: hex_digit_def)
          have j: "b \<noteq> NUL" "strchr xdigits (toupper b) = Some j"
            using Some v by (auto simp: hex_digit_def simp del: strchr.simps split: if_splits)
          have "urldcode_loop h s t = urldcode_loop (put h t [char_of (i * 16 + j)]) (padd s 3) (padd t 1)"
            using ldc True ld1 ld2 u v i j st_put [OF f1] by (subst urldcode_loop.simps) simp
          moreover have "hex_digit a = Some i" "hex_digit b = Some j"
            using i j by (simp_all add: hex_digit_def del: strchr.simps)
          ultimately show ?thesis
            using rest [of "char_of (i * 16 + j)" 3] Cons u v True by simp
        qed
      qed
    qed
  qed
qed

lemma upward_refl [simp]: "upward p p"
  by (simp add: upward_def)

section \<open>What is encoded\<close>

definition escaped :: "char \<Rightarrow> bool" where
  "escaped c \<longleftrightarrow> c \<in> set ENCLIST"

definition enc_char :: "char \<Rightarrow> string" where
  "enc_char c =
     (if c = CHR '' '' then ''+''
      else if escaped c then [CHR ''%'', xdigits ! (ccode c div 16), xdigits ! (ccode c mod 16)]
      else [c])"

definition form_encode :: "string \<Rightarrow> string" where
  "form_encode x = concat (map enc_char x)"

lemma form_encode_simps [simp]: "form_encode [] = []" "form_encode (c # x) = enc_char c @ form_encode x"
  by (simp_all add: form_encode_def)

lemma enc_char_length: "length (enc_char c) = (if c \<noteq> CHR '' '' \<and> escaped c then 3 else 1)"
  by (simp add: enc_char_def)

lemma form_encode_pos: "x \<noteq> [] \<Longrightarrow> 0 < length (form_encode x)"
  by (cases x) (simp_all add: enc_char_length)

text \<open>When a string still fits behind \<open>used\<close> bytes: the text and its terminator must fit, and one
  more byte when the last character is escaped.\<close>

definition enc_ok :: "nat \<Rightarrow> int \<Rightarrow> string \<Rightarrow> bool" where
  "enc_ok used sz x \<longleftrightarrow>
     x = [] \<or> int used + int (length (form_encode x)) + (if escaped (last x) then 1 else 0) < sz"

lemma blank_not_escaped [simp]: "\<not> escaped (CHR '' '')"
  by (simp add: escaped_def ENCLIST_def)

lemma escaped_code:
  assumes "escaped c"
  shows "ccode c < 128" and "c \<noteq> CHR '' ''"
proof -
  have "list_all (\<lambda>c. ccode c < 128) ENCLIST" by code_simp
  then show "ccode c < 128" using assms by (simp add: escaped_def list_all_iff)
  show "c \<noteq> CHR '' ''" using assms by auto
qed

lemma sixteens_div_mod: "0 \<le> n \<Longrightarrow> sixteens n a = (a + nat (n div 16), n mod 16)"
proof (induction n a rule: sixteens.induct)
  case (1 n a)
  show ?case
  proof (cases "16 \<le> n")
    case True
    have "nat (n div 16) = Suc (nat ((n - 16) div 16))" using True by (simp add: div_add_self2 [of 16 "n - 16", symmetric])
    moreover have "(n - 16) mod 16 = n mod 16" by (simp add: mod_diff_right_eq [symmetric])
    ultimately show ?thesis using 1 True by (subst sixteens.simps) simp
  next
    case False
    then show ?thesis using 1 by (subst sixteens.simps) simp
  qed
qed

lemma convert_at_nat: "i < 16 \<Longrightarrow> convert_at (int i) = Some (xdigits ! i)"
  by (simp add: convert_at_def sat_def deref_drop)

lemma escaped_digits:
  assumes "escaped c"
  shows "sixteens (char_int c) 0 = (ccode c div 16, int (ccode c mod 16))"
  using escaped_code(1) [OF assms]
  by (simp add: char_int_def sixteens_div_mod nat_div_distrib zmod_int)

lemma strchr_ENCLIST: "c \<noteq> NUL \<Longrightarrow> strchr ENCLIST c = None \<longleftrightarrow> \<not> escaped c"
  by (simp add: strchr_None escaped_def)

text \<open>One round of the loop.\<close>

lemma urlncode_round:
  assumes "ld h s = Some c" and "c \<noteq> NUL" and "int used + 1 < sz" and "escaped c \<Longrightarrow> int used + 4 < sz"
    and "fits h t (length (enc_char c))"
  shows "urlncode_loop h s t used sz
    = urlncode_loop (put h t (enc_char c)) (padd s 1) (padd t (length (enc_char c))) (used + length (enc_char c)) sz"
proof (cases "escaped c")
  case False
  then have l: "length (enc_char c) = 1" by (simp add: enc_char_length)
  then have "st h t d = Some (put h t [d])" for d using assms(5) by (intro st_put) simp
  then show ?thesis
    using assms(1-3) False strchr_ENCLIST [OF assms(2)]
    by (subst urlncode_loop.simps) (simp add: enc_char_def)
next
  case True
  define x y where "x = xdigits ! (ccode c div 16)" and "y = xdigits ! (ccode c mod 16)"
  have e: "enc_char c = [CHR ''%'', x, y]"
    using True escaped_code [OF True] by (simp add: enc_char_def x_def y_def)
  have f: "fits h t 3" using assms(5) e by (simp add: numeral_3_eq_3)
  have s1: "st h t (CHR ''%'') = Some (put h t [CHR ''%''])"
    using f by (intro st_put) (auto elim: fits_mono)
  have s2: "st (put h t [CHR ''%'']) (padd t 1) x = Some (put h t [CHR ''%'', x])"
    using st_put_snoc [of h t "[CHR ''%'']" x] fits_mono [OF f, of 2] by (simp add: numeral_2_eq_2)
  have s3: "st (put h t [CHR ''%'', x]) (padd t 2) y = Some (put h t [CHR ''%'', x, y])"
    using st_put_snoc [of h t "[CHR ''%'', x]" y] f by (simp add: numeral_2_eq_2 numeral_3_eq_3)
  have d: "convert_at (int (ccode c div 16)) = Some x" "convert_at (int (ccode c mod 16)) = Some y"
    using escaped_code(1) [OF True] by (simp_all add: convert_at_nat x_def y_def del: of_nat_div of_nat_mod)
  obtain k where k: "strchr ENCLIST c = Some k" using True strchr_ENCLIST [OF assms(2)] by fastforce
  have l: "length (enc_char c) = 3" using e by simp
  show ?thesis
    unfolding l unfolding e
    using assms(1-4) True k escaped_digits [OF True] d s1 s2 s3 escaped_code(2) [OF True]
    by (subst urlncode_loop.simps) (simp del: of_nat_div of_nat_mod)
qed

lemma urlncode_stops:
  assumes "ld h s = Some c" and "c \<noteq> NUL" and "sz \<le> int used + 1 \<or> (escaped c \<and> sz \<le> int used + 4)"
  shows "urlncode_loop h s t used sz = Some (h, t, None)"
  using assms strchr_ENCLIST [OF assms(2)] by (subst urlncode_loop.simps) (auto dest: escaped_code)

definition enc_room :: "nat \<Rightarrow> int \<Rightarrow> string \<Rightarrow> nat" where
  "enc_room used sz x = max 1 (min (Suc (length (form_encode x))) (nat (sz - int used)))"

lemma enc_ok_Cons:
  "enc_ok used sz (c # x) \<longleftrightarrow>
     int used + 1 < sz \<and> (escaped c \<longrightarrow> int used + 4 < sz) \<and> enc_ok (used + length (enc_char c)) sz x"
proof (cases "x = []")
  case False
  then have "1 \<le> int (length (form_encode x))"
    using form_encode_pos [OF False] by linarith
  then show ?thesis
    using False by (auto simp: enc_ok_def enc_char_length)
qed (auto simp: enc_ok_def enc_char_length)

lemma enc_room_Cons:
  assumes "int used + 1 < sz" and "escaped c \<Longrightarrow> int used + 4 < sz"
  shows "length (enc_char c) + enc_room (used + length (enc_char c)) sz x \<le> enc_room used sz (c # x)"
  using assms by (auto simp: enc_room_def enc_char_length)

lemma urlncode_loop_encodes:
  "cstr h s = Some x \<Longrightarrow> fst s \<noteq> fst t \<Longrightarrow> fits h t (enc_room used sz x) \<Longrightarrow>
   \<exists>x1. prefix x1 x \<and> (x1 = x \<longleftrightarrow> enc_ok used sz x)
     \<and> urlncode_loop h s t used sz
       = Some (put h t (form_encode x1), padd t (length (form_encode x1)),
               if x1 = x then Some (used + length (form_encode x)) else None)
     \<and> Suc (length (form_encode x1)) \<le> enc_room used sz x"
proof (induction x arbitrary: h s t used)
  case Nil
  then have "ld h s = Some NUL" using cstr_ld by fastforce
  then have "urlncode_loop h s t used sz = Some (h, t, Some used)"
    by (subst urlncode_loop.simps) simp
  then show ?case by (auto simp: enc_ok_def enc_room_def)
next
  case (Cons c x)
  have cN: "c \<noteq> NUL" using cstr_NUL [OF Cons.prems(1)] by auto
  have ld: "ld h s = Some c" using cstr_ld [OF Cons.prems(1)] by simp
  show ?case
  proof (cases "int used + 1 < sz \<and> (escaped c \<longrightarrow> int used + 4 < sz)")
    case False
    then have "urlncode_loop h s t used sz = Some (h, t, None)"
      by (intro urlncode_stops [OF ld cN]) linarith
    moreover have "\<not> enc_ok used sz (c # x)" using False enc_ok_Cons by blast
    ultimately show ?thesis
      by (intro exI [of _ "[]"]) (simp add: enc_room_def)
  next
    case True
    let ?e = "enc_char c" and ?l = "length (enc_char c)"
    have r: "?l + enc_room (used + ?l) sz x \<le> enc_room used sz (c # x)"
      using True by (intro enc_room_Cons) auto
    then have f: "fits h t (?l + enc_room (used + ?l) sz x)" using Cons.prems(3) by (rule fits_mono [rotated])
    then have fl: "fits h t ?l" by (rule fits_mono) simp
    have "cstr (put h t ?e) (padd s 1) = Some x"
      using cstr_padd [OF Cons.prems(1), of 1] Cons.prems(2)
      by (subst cstr_put_apart) (use fl in \<open>auto simp: apart_def\<close>)
    then obtain x1 where x1: "prefix x1 x" "x1 = x \<longleftrightarrow> enc_ok (used + ?l) sz x"
      "urlncode_loop (put h t ?e) (padd s 1) (padd t ?l) (used + ?l) sz
       = Some (put (put h t ?e) (padd t ?l) (form_encode x1), padd (padd t ?l) (length (form_encode x1)),
               if x1 = x then Some (used + ?l + length (form_encode x)) else None)"
      "Suc (length (form_encode x1)) \<le> enc_room (used + ?l) sz x"
      using Cons.IH [of "put h t ?e" "padd s 1" "padd t ?l" "used + ?l"] Cons.prems(2) fits_padd [OF f] fl by auto
    have "put (put h t ?e) (padd t ?l) (form_encode x1) = put h t (form_encode (c # x1))"
      using f x1(4) by (simp add: put_append [OF fits_mono [OF f]])
    moreover have "enc_ok used sz (c # x) \<longleftrightarrow> x1 = x" using True x1(2) enc_ok_Cons by blast
    ultimately show ?thesis
      using urlncode_round [OF ld cN _ _ fl] True x1(1,3,4) r
      by (intro exI [of _ "c # x1"]) (simp add: add.assoc)
  qed
qed

section \<open>Decoding what was encoded\<close>

lemma hex_digit_xdigits: "i < 16 \<Longrightarrow> hex_digit (xdigits ! i) = Some i"
proof -
  have "list_all (\<lambda>i. hex_digit (xdigits ! i) = Some i) [0..<16]" by code_simp
  then show "i < 16 \<Longrightarrow> ?thesis" by (simp add: list_all_iff)
qed

lemma form_decode_escape:
  assumes "escaped c"
  shows "form_decode (enc_char c @ y) = map_option (Cons c) (form_decode y)"
proof -
  note e = escaped_code [OF assms]
  have "hex_digit (xdigits ! (ccode c div 16)) = Some (ccode c div 16)"
    "hex_digit (xdigits ! (ccode c mod 16)) = Some (ccode c mod 16)"
    using e(1) by (simp_all add: hex_digit_xdigits)
  moreover have "char_of (ccode c div 16 * 16 + ccode c mod 16) = c"
    unfolding div_mult_mod_eq by (simp add: ccode_def)
  ultimately show ?thesis using e(2) assms by (simp add: enc_char_def)
qed

lemma form_decode_encode: "form_decode (form_encode x) = Some x"
proof (induction x)
  case (Cons c x)
  show ?case
  proof (cases "escaped c")
    case True
    then show ?thesis using Cons by (simp add: form_decode_escape)
  next
    case False
    then have "c \<noteq> CHR ''%''" "c \<noteq> CHR ''+''" by (auto simp: escaped_def ENCLIST_def)
    then show ?thesis using Cons False by (simp add: enc_char_def)
  qed
qed simp

section \<open>HTML escapes\<close>

definition html_escape :: "string \<Rightarrow> string" where
  "html_escape x = concat (map html_char x)"

lemma html_escape_simps [simp]: "html_escape [] = []" "html_escape (c # x) = html_char c @ html_escape x"
  by (simp_all add: html_escape_def)

lemma html_char_pos: "0 < length (html_char c)"
  by (simp add: html_char_def)

lemma emits_put: "fits h t (length cs) \<Longrightarrow> emits h t cs = Some (put h t cs, padd t (length cs))"
proof (induction cs arbitrary: h t)
  case (Cons c cs)
  have f1: "fits h t 1" using Cons.prems by (auto elim: fits_mono)
  have "fits h (padd t 1) (length cs)" using Cons.prems by (intro fits_padd) simp
  then show ?case
    using Cons.IH [of "put h t [c]" "padd t 1"] st_put [OF f1] f1 put_Cons [OF Cons.prems [simplified]] by simp
qed simp

lemma urlvalue_loop_escapes:
  "cstr h s = Some x \<Longrightarrow> fst s \<noteq> fst t \<Longrightarrow> fits h t (min (length (html_escape x)) (nat (sz - int used))) \<Longrightarrow>
   \<exists>x1. prefix x1 x \<and> (x1 = x \<longleftrightarrow> x = [] \<or> int used + int (length (html_escape x)) < sz)
     \<and> urlvalue_loop h s t used sz
       = Some (put h t (html_escape x1), if x1 = x then Some (padd t (length (html_escape x))) else None)
     \<and> length (html_escape x1) \<le> nat (sz - int used)"
proof (induction x arbitrary: h s t used)
  case Nil
  then have "ld h s = Some NUL" using cstr_ld by fastforce
  then have "urlvalue_loop h s t used sz = Some (h, Some t)"
    by (subst urlvalue_loop.simps) simp
  then show ?case by simp
next
  case (Cons c x)
  let ?e = "html_char c" and ?l = "length (html_char c)"
  have cN: "c \<noteq> NUL" using cstr_NUL [OF Cons.prems(1)] by auto
  have ld: "ld h s = Some c" using cstr_ld [OF Cons.prems(1)] by simp
  show ?case
  proof (cases "int used + int ?l < sz")
    case False
    then have "urlvalue_loop h s t used sz = Some (h, None)"
      using ld cN by (subst urlvalue_loop.simps) simp
    then show ?thesis using False by (intro exI [of _ "[]"]) simp
  next
    case True
    have f: "fits h t (?l + min (length (html_escape x)) (nat (sz - int (used + ?l))))"
      using Cons.prems(3) True by (rule_tac fits_mono) auto
    then have fl: "fits h t ?l" by (rule fits_mono) simp
    have "cstr (put h t ?e) (padd s 1) = Some x"
      using cstr_padd [OF Cons.prems(1), of 1] Cons.prems(2)
      by (subst cstr_put_apart) (use fl in \<open>auto simp: apart_def\<close>)
    moreover have "fst (padd s 1) \<noteq> fst (padd t ?l)" using Cons.prems(2) by simp
    moreover have "fits (put h t ?e) (padd t ?l) (min (length (html_escape x)) (nat (sz - int (used + ?l))))"
      using fits_padd [OF f] fl by simp
    ultimately obtain x1 where x1: "prefix x1 x" "x1 = x \<longleftrightarrow> x = [] \<or> int (used + ?l) + int (length (html_escape x)) < sz"
      "urlvalue_loop (put h t ?e) (padd s 1) (padd t ?l) (used + ?l) sz
       = Some (put (put h t ?e) (padd t ?l) (html_escape x1),
               if x1 = x then Some (padd (padd t ?l) (length (html_escape x))) else None)"
      "length (html_escape x1) \<le> nat (sz - int (used + ?l))"
      using Cons.IH [of "put h t ?e" "padd s 1" "padd t ?l" "used + ?l"] by blast
    have "length (html_escape x1) \<le> length (html_escape x)"
      using x1(1) by (auto simp: prefix_def html_escape_def)
    then have "put (put h t ?e) (padd t ?l) (html_escape x1) = put h t (html_escape (c # x1))"
      using f x1(4) by (simp add: put_append [OF fits_mono [OF f]])
    then show ?thesis
      using ld cN True emits_put [OF fl] x1 by (intro exI [of _ "c # x1"]) (subst urlvalue_loop.simps, auto)
  qed
qed

lemma html_escape_clean: "set (html_escape x) \<inter> {CHR ''<'', CHR ''>'', CHR 0x22} = {}"
  by (induction x) (auto simp: html_char_def)

section \<open>Names in upper case\<close>

fun upper_tags :: "bool \<Rightarrow> string \<Rightarrow> string" where
  "upper_tags tag [] = []"
| "upper_tags tag (c # x) =
     (if tag then toupper c else c) # upper_tags (if c = CHR ''&'' then True else if c = CHR ''='' then False else tag) x"

lemma put_same: "ld h s = Some c \<Longrightarrow> put h s [c] = h"
  by (cases s) (auto simp: put_def fun_eq_iff upd_conv_take_nth_drop [symmetric] split: if_splits)

lemma toupper_amp: "toupper c = CHR ''&'' \<longleftrightarrow> c = CHR ''&''" "toupper c = CHR ''='' \<longleftrightarrow> c = CHR ''=''"
proof -
  have "\<not> isalpha (CHR ''&'')" "\<not> isalpha (CHR ''='')" "toupper (CHR ''&'') = CHR ''&''" "toupper (CHR ''='') = CHR ''=''"
    by code_simp+
  then show "toupper c = CHR ''&'' \<longleftrightarrow> c = CHR ''&''" "toupper c = CHR ''='' \<longleftrightarrow> c = CHR ''=''"
    using toupper_other [of "CHR ''&''" c] toupper_other [of "CHR ''=''" c] by simp_all
qed

lemma length_upper_tags [simp]: "length (upper_tags tag x) = length x"
  by (induction tag x rule: upper_tags.induct) simp_all

lemma cgiupper_loop_upper: "cstr h s = Some x \<Longrightarrow> cgiupper_loop h s tag = Some (put h s (upper_tags tag x))"
proof (induction x arbitrary: h s tag)
  case Nil
  then have "ld h s = Some NUL" using cstr_ld by fastforce
  then show ?case by (subst cgiupper_loop.simps) simp
next
  case (Cons c x)
  define d where "d = (if tag then toupper c else c)"
  let ?tag = "if c = CHR ''&'' then True else if c = CHR ''='' then False else tag"
  have cN: "c \<noteq> NUL" using cstr_NUL [OF Cons.prems] by auto
  have ld: "ld h s = Some c" using cstr_ld [OF Cons.prems] by simp
  have f: "fits h s (Suc (length x))" using cstr_fits [OF Cons.prems] by (auto elim: fits_mono)
  have f1: "fits h s 1" using f by (auto elim: fits_mono)
  have "(if tag then st h s (toupper c) else Some h) = Some (put h s [d])"
    using st_put [OF f1] put_same [OF ld] by (simp add: d_def)
  moreover have "ld (put h s [d]) s = Some d"
    using bytes_at_put_same [of h s "[d]"] f1 by (intro bytes_at_ld) simp
  moreover have "(if d = CHR ''&'' then True else if d = CHR ''='' then False else tag) = ?tag"
    using toupper_amp by (simp add: d_def)
  ultimately have "cgiupper_loop h s tag = cgiupper_loop (put h s [d]) (padd s 1) ?tag"
    using ld cN by (subst cgiupper_loop.simps) simp
  also have "\<dots> = Some (put (put h s [d]) (padd s 1) (upper_tags ?tag x))"
    using sdecode_step(1) [OF Cons.prems upward_refl f1, of 1 d] by (intro Cons.IH) simp
  also have "put (put h s [d]) (padd s 1) (upper_tags ?tag x) = put h s (d # upper_tags ?tag x)"
    using f by (intro put_Cons) simp
  finally show ?case by (simp add: d_def)
qed

section \<open>Finding a field\<close>

definition field_at :: "string \<Rightarrow> string \<Rightarrow> nat \<Rightarrow> bool" where
  "field_at x n s \<longleftrightarrow> (s = 0 \<or> x ! (s - 1) = CHR ''&'') \<and> prefix (n @ ''='') (drop s x)"

lemma strstr_None: "strstr s t = None \<Longrightarrow> \<not> prefix t (drop k s)"
proof (induction s arbitrary: k)
  case Nil
  then show ?case by (simp add: strstr.simps [of "[]"] split: if_splits)
next
  case (Cons c s)
  then show ?case by (cases k) (auto simp: strstr.simps [of "c # s"] split: if_splits)
qed

lemma strstr_Some: "strstr s t = Some k \<Longrightarrow> prefix t (drop k s) \<and> (\<forall>j < k. \<not> prefix t (drop j s))"
proof (induction s arbitrary: k)
  case Nil
  then show ?case by (simp add: strstr.simps [of "[]"] split: if_splits)
next
  case (Cons c s)
  then show ?case
    by (auto simp: strstr.simps [of "c # s"] less_Suc_eq_0_disj split: if_splits)
qed

lemma field_at_prefix: "field_at x n s \<Longrightarrow> prefix n (drop s x)"
  by (auto simp: field_at_def dest: append_prefixD)

lemma prefix_eq_deref:
  assumes "prefix n (drop s x)"
  shows "prefix (n @ ''='') (drop s x) \<longleftrightarrow> deref (drop (s + length n) x) = CHR ''=''"
proof -
  obtain y where y: "drop s x = n @ y" using assms by (auto simp: prefix_def)
  then have "drop (length n) (drop s x) = y" by simp
  then have "drop (s + length n) x = y" by (simp add: add.commute)
  then show ?thesis using y by (cases y) auto
qed

text \<open>The search finds the first place of the field.\<close>

lemma find_field_first:
  "n \<noteq> [] \<Longrightarrow> z \<le> length x \<Longrightarrow>
   \<exists>r. find_field x n z = Some r
     \<and> (case r of None \<Rightarrow> \<forall>s \<ge> z. \<not> field_at x n s
        | Some s \<Rightarrow> z \<le> s \<and> field_at x n s \<and> (\<forall>j. z \<le> j \<longrightarrow> j < s \<longrightarrow> \<not> field_at x n j))"
proof (induction x n z rule: find_field.induct)
  case (1 x n z)
  show ?case
  proof (cases "strstr (drop z x) n")
    case None
    have "\<not> field_at x n s" if "z \<le> s" for s
      using strstr_None [OF None, of "s - z"] that by (auto dest: field_at_prefix)
    then show ?thesis using 1(3) None by (subst find_field.simps) simp
  next
    case (Some k)
    note k = strstr_Some [OF Some]
    have before: "\<not> field_at x n j" if "z \<le> j" "j < z + k" for j
    proof -
      from that have "j - z < k" by simp
      then have "\<not> prefix n (drop (j - z) (drop z x))" using k by blast
      then show ?thesis using that by (auto dest: field_at_prefix)
    qed
    have p: "prefix n (drop (z + k) x)" using k by (simp add: add.commute)
    have "z + k < length x" using p 1(2) by (cases "z + k < length x") auto
    define hit where "hit \<longleftrightarrow>
        (z + k = 0 \<or> x ! (z + k - 1) = CHR ''&'') \<and> deref (drop (z + k + length n) x) = CHR ''=''"
    have c: "field_at x n (z + k) \<longleftrightarrow> hit"
      using prefix_eq_deref [OF p] by (simp add: field_at_def hit_def)
    have e: "find_field x n z = (if hit then Some (Some (z + k)) else find_field x n (z + k + 1))"
      using 1(3) Some by (subst find_field.simps) (simp add: hit_def)
    show ?thesis
    proof (cases "field_at x n (z + k)")
      case True
      then show ?thesis using before c e by simp
    next
      case False
      have "\<not> length x < z" using 1(3) by simp
      from 1(1) [OF this Some] False c 1(2) \<open>z + k < length x\<close>
      obtain r where r: "find_field x n (z + k + 1) = Some r"
        "case r of None \<Rightarrow> \<forall>s \<ge> z + k + 1. \<not> field_at x n s
            | Some s \<Rightarrow> z + k + 1 \<le> s \<and> field_at x n s \<and> (\<forall>j. z + k + 1 \<le> j \<longrightarrow> j < s \<longrightarrow> \<not> field_at x n j)"
        unfolding hit_def by (auto simp: not_le)
      have "\<not> field_at x n j" if "z \<le> j" "\<not> z + k + 1 \<le> j" for j
        using before [of j] False that by (cases "j = z + k") auto
      then have "case r of None \<Rightarrow> \<forall>s \<ge> z. \<not> field_at x n s
            | Some s \<Rightarrow> z \<le> s \<and> field_at x n s \<and> (\<forall>j. z \<le> j \<longrightarrow> j < s \<longrightarrow> \<not> field_at x n j)"
        using r(2) by (cases r) (simp_all, blast+)
      then show ?thesis using e False c r(1) by simp
    qed
  qed
qed

lemma field_at_first: "CHR ''&'' \<notin> set f \<Longrightarrow> 0 < s \<Longrightarrow> s \<le> length f \<Longrightarrow> \<not> field_at (f @ r) n s"
proof -
  assume a: "CHR ''&'' \<notin> set f" "0 < s" "s \<le> length f"
  then have l: "s - 1 < length f" by simp
  then have "(f @ r) ! (s - 1) = f ! (s - 1)" by (simp only: nth_append if_True)
  moreover have "f ! (s - 1) \<in> set f" using l by (rule nth_mem)
  ultimately have "(f @ r) ! (s - 1) \<noteq> CHR ''&''" using a(1) by metis
  then show ?thesis using a(2) by (simp add: field_at_def)
qed

lemma field_at_rest: "field_at (f @ CHR ''&'' # q) n (Suc (length f + j)) \<longleftrightarrow> field_at q n j"
  by (cases j) (simp_all add: field_at_def nth_append)

section \<open>Queries\<close>

fun query :: "(string \<times> string) list \<Rightarrow> string" where
  "query [] = []"
| "query ((k, v) # kvs) = k @ CHR ''='' # form_encode v @ (if kvs = [] then [] else CHR ''&'' # query kvs)"

definition name_ok :: "string \<Rightarrow> bool" where
  "name_ok k \<longleftrightarrow> set k \<inter> {CHR ''&'', CHR ''='', NUL} = {}"

lemma set_enc_char: "c \<noteq> NUL \<Longrightarrow> set (enc_char c) \<inter> {CHR ''&'', CHR ''='', NUL} = {}"
proof -
  assume c: "c \<noteq> NUL"
  show ?thesis
  proof (cases "escaped c")
    case True
    have d: "xdigits ! i \<notin> {CHR ''&'', CHR ''='', NUL}" if "i < 16" for i
    proof -
      have "list_all (\<lambda>i. xdigits ! i \<notin> {CHR ''&'', CHR ''='', NUL}) [0..<16]" by code_simp
      then show ?thesis using that by (simp add: list_all_iff)
    qed
    obtain x y where "enc_char c = [CHR ''%'', x, y]" "x \<notin> {CHR ''&'', CHR ''='', NUL}" "y \<notin> {CHR ''&'', CHR ''='', NUL}"
    proof
      show "enc_char c = [CHR ''%'', xdigits ! (ccode c div 16), xdigits ! (ccode c mod 16)]"
        using True escaped_code(2) [OF True] by (simp only: enc_char_def if_True if_False)
    qed (use escaped_code(1) [OF True] in \<open>intro d, simp\<close>)+
    then show ?thesis by simp
  next
    case False
    then have "c \<noteq> CHR ''&''" "c \<noteq> CHR ''=''" by (auto simp: escaped_def ENCLIST_def)
    then show ?thesis using False c by (simp add: enc_char_def)
  qed
qed

lemma set_form_encode: "NUL \<notin> set v \<Longrightarrow> set (form_encode v) \<inter> {CHR ''&'', CHR ''='', NUL} = {}"
proof (induction v)
  case (Cons c v)
  then show ?case using set_enc_char [of c] by auto
qed simp

lemma prefix_name:
  assumes "name_ok n" and "name_ok k"
  shows "prefix (n @ ''='') (k @ CHR ''='' # r) \<longleftrightarrow> n = k"
  using assms
proof (induction n arbitrary: k)
  case Nil
  then show ?case by (cases k) (auto simp: name_ok_def)
next
  case (Cons c n)
  show ?case
  proof (cases k)
    case Nil
    then show ?thesis using Cons.prems by (auto simp: name_ok_def)
  next
    case (Cons d k')
    then show ?thesis using Cons.IH [of k'] Cons.prems by (auto simp: name_ok_def)
  qed
qed

definition pairs_ok :: "(string \<times> string) list \<Rightarrow> bool" where
  "pairs_ok kvs \<longleftrightarrow> (\<forall>(k, v) \<in> set kvs. name_ok k \<and> NUL \<notin> set v)"

lemma pairs_ok_Cons [simp]: "pairs_ok ((k, v) # kvs) \<longleftrightarrow> name_ok k \<and> NUL \<notin> set v \<and> pairs_ok kvs"
  by (auto simp: pairs_ok_def)

lemma field_amp:
  assumes "name_ok k" and "NUL \<notin> set v"
  shows "CHR ''&'' \<notin> set (k @ CHR ''='' # form_encode v)"
  using assms set_form_encode [of v] by (auto simp: name_ok_def)

lemma field_at_head:
  assumes "name_ok n" and "name_ok k"
  shows "field_at (k @ CHR ''='' # r) n 0 \<longleftrightarrow> n = k"
  using prefix_name [OF assms] by (simp add: field_at_def)

lemma field_at_query:
  assumes "name_ok n" and "name_ok k" and "NUL \<notin> set v" and "n \<noteq> k" and "field_at (query ((k, v) # kvs)) n s"
  shows "kvs \<noteq> [] \<and> (\<exists>j. s = Suc (length k + length (form_encode v) + 1 + j) \<and> field_at (query kvs) n j)"
proof -
  let ?f = "k @ CHR ''='' # form_encode v"
  define r where "r = (if kvs = [] then [] else CHR ''&'' # query kvs)"
  have q: "query ((k, v) # kvs) = ?f @ r" by (simp add: r_def)
  have h: "field_at (k @ CHR ''='' # form_encode v @ r) n s" using assms(5) by (simp add: r_def)
  have "s \<noteq> 0"
    using h assms(4) field_at_head [OF assms(1,2), of "form_encode v @ r"] by (rule_tac notI) simp
  then have "0 < s" by simp
  then have s: "length ?f < s"
    using field_at_first [OF field_amp [OF assms(2,3)] \<open>0 < s\<close>, of r n] h
    by (rule_tac ccontr) (simp del: length_append)
  have "kvs \<noteq> []"
  proof
    assume "kvs = []"
    then show False using s assms(5) by (simp add: q r_def field_at_def)
  qed
  moreover obtain j where j: "s = Suc (length ?f + j)" using s less_iff_Suc_add by metis
  moreover have "field_at (query kvs) n j"
    using field_at_rest [of ?f "query kvs" n j] h \<open>kvs \<noteq> []\<close> unfolding j by (simp add: r_def)
  ultimately show ?thesis by (intro conjI exI [of _ j]) simp_all
qed

lemma drop_behind: "drop (Suc (length f + m)) (f @ c # q) = drop m q"
  by simp

text \<open>The first place of a field in a query is where its first pair stands.\<close>

lemma query_first:
  "name_ok n \<Longrightarrow> pairs_ok kvs \<Longrightarrow> field_at (query kvs) n s \<Longrightarrow> \<forall>j < s. \<not> field_at (query kvs) n j \<Longrightarrow>
   \<exists>v r. map_of kvs n = Some v \<and> drop (s + length n + 1) (query kvs) = form_encode v @ r
     \<and> (r = [] \<or> deref r = CHR ''&'')"
proof (induction kvs arbitrary: s)
  case Nil
  then show ?case by (simp add: field_at_def)
next
  case (Cons kv kvs)
  obtain k v where kv: "kv = (k, v)" by (cases kv)
  have ok: "name_ok k" "NUL \<notin> set v" "pairs_ok kvs" using Cons.prems(2) kv by auto
  show ?case
  proof (cases "n = k")
    case True
    have "field_at (query (kv # kvs)) n 0" using field_at_head [OF Cons.prems(1) ok(1)] True kv by simp
    then have "s = 0" using Cons.prems(4) by blast
    then show ?thesis using True kv by simp
  next
    case False
    from field_at_query [OF Cons.prems(1) ok(1,2) False Cons.prems(3) [unfolded kv]]
    obtain j where j: "kvs \<noteq> []" "s = Suc (length k + length (form_encode v) + 1 + j)" "field_at (query kvs) n j"
      by blast
    let ?f = "k @ CHR ''='' # form_encode v"
    have q: "query (kv # kvs) = ?f @ CHR ''&'' # query kvs" using kv j(1) by simp
    have s: "s = Suc (length ?f + j)" using j(2) by simp
    have "\<not> field_at (query kvs) n i" if "i < j" for i
    proof -
      have "Suc (length ?f + i) < s" using that s by simp
      then show ?thesis using Cons.prems(4) field_at_rest [of ?f "query kvs" n i] unfolding q by blast
    qed
    then obtain w r where "map_of kvs n = Some w" "drop (j + length n + 1) (query kvs) = form_encode w @ r"
      "r = [] \<or> deref r = CHR ''&''"
      using Cons.IH [OF Cons.prems(1) ok(3) j(3)] by blast
    moreover have "drop (s + length n + 1) (?f @ CHR ''&'' # query kvs) = drop (j + length n + 1) (query kvs)"
      using drop_behind [of ?f "j + length n + 1"] unfolding s by (simp only: add_Suc add.assoc)
    ultimately show ?thesis using False kv unfolding q by auto
  qed
qed

lemma query_found:
  "name_ok n \<Longrightarrow> pairs_ok kvs \<Longrightarrow> map_of kvs n \<noteq> None \<Longrightarrow> \<exists>s. field_at (query kvs) n s"
proof (induction kvs)
  case (Cons kv kvs)
  obtain k v where kv: "kv = (k, v)" by (cases kv)
  have ok: "name_ok k" "NUL \<notin> set v" "pairs_ok kvs" using Cons.prems(2) kv by auto
  show ?case
  proof (cases "n = k")
    case True
    then show ?thesis using field_at_head [OF Cons.prems(1) ok(1)] kv by auto
  next
    case False
    then obtain s where "field_at (query kvs) n s" using Cons kv ok(3) by auto
    moreover have "kvs \<noteq> []" using Cons.prems(3) kv False by auto
    ultimately show ?thesis
      using field_at_rest [of "k @ CHR ''='' # form_encode v" "query kvs" n s] kv by auto
  qed
qed simp

lemma query_NUL: "pairs_ok kvs \<Longrightarrow> NUL \<notin> set (query kvs)"
proof (induction kvs)
  case (Cons kv kvs)
  obtain k v where kv: "kv = (k, v)" by (cases kv)
  then show ?case using Cons set_form_encode [of v] by (auto simp: name_ok_def)
qed simp

section \<open>Loading a value\<close>

lemma copy_value_put:
  "cstr h s = Some y \<Longrightarrow> fst s \<noteq> fst t \<Longrightarrow> fits h t (length (takeWhile (\<lambda>c. c \<noteq> CHR ''&'') y)) \<Longrightarrow>
   copy_value h s t = Some (put h t (takeWhile (\<lambda>c. c \<noteq> CHR ''&'') y),
     padd t (length (takeWhile (\<lambda>c. c \<noteq> CHR ''&'') y)))"
proof (induction y arbitrary: h s t)
  case Nil
  then have "ld h s = Some NUL" using cstr_ld by fastforce
  then show ?case by (subst copy_value.simps) simp
next
  case (Cons c y)
  have cN: "c \<noteq> NUL" using cstr_NUL [OF Cons.prems(1)] by auto
  have ld: "ld h s = Some c" using cstr_ld [OF Cons.prems(1)] by simp
  show ?case
  proof (cases "c = CHR ''&''")
    case True
    then show ?thesis using ld by (subst copy_value.simps) simp
  next
    case False
    have f: "fits h t (1 + length (takeWhile (\<lambda>c. c \<noteq> CHR ''&'') y))" using Cons.prems(3) False by simp
    then have f1: "fits h t 1" by (rule fits_mono) simp
    have "cstr (put h t [c]) (padd s 1) = Some y"
      using cstr_padd [OF Cons.prems(1), of 1] Cons.prems(2)
      by (subst cstr_put_apart) (use f1 in \<open>auto simp: apart_def\<close>)
    then show ?thesis
      using Cons.IH [of "put h t [c]" "padd s 1" "padd t 1"] Cons.prems(2) ld cN False st_put [OF f1] fits_padd [OF f] f1
        put_Cons [OF f [simplified]]
      by (subst copy_value.simps) simp
  qed
qed

lemma takeWhile_field:
  assumes "NUL \<notin> set v" and "r = [] \<or> deref r = CHR ''&''"
  shows "takeWhile (\<lambda>c. c \<noteq> CHR ''&'') (form_encode v @ r) = form_encode v"
proof -
  have "\<forall>c \<in> set (form_encode v). c \<noteq> CHR ''&''" using set_form_encode [OF assms(1)] by auto
  moreover have "takeWhile (\<lambda>c. c \<noteq> CHR ''&'') r = []" using assms(2) by (cases r) auto
  ultimately show ?thesis by (simp add: takeWhile_append2)
qed

lemma pairs_ok_value: "pairs_ok kvs \<Longrightarrow> map_of kvs n = Some v \<Longrightarrow> NUL \<notin> set v"
  by (auto simp: pairs_ok_def dest: map_of_SomeD)

abbreviation field_value :: "(string \<times> string) list \<Rightarrow> string \<Rightarrow> string" where
  "field_value kvs n \<equiv> (case map_of kvs n of None \<Rightarrow> [] | Some v \<Rightarrow> v)"

lemma cgifldld_value:
  assumes "cstr h src = Some (query kvs)" and "pairs_ok kvs"
    and "cstr h name = Some n" and "name_ok n" and "n \<noteq> []"
    and "fst src \<noteq> fst dst"
    and "fits h dst (Suc (length (form_encode (field_value kvs n))))"
  shows "cgifldld h src name dst = Some (put h dst (form_encode (field_value kvs n) @ [NUL]))"
proof -
  obtain r where r: "find_field (query kvs) n 0 = Some r"
    "case r of None \<Rightarrow> \<forall>s \<ge> 0. \<not> field_at (query kvs) n s
     | Some s \<Rightarrow> 0 \<le> s \<and> field_at (query kvs) n s \<and> (\<forall>j. 0 \<le> j \<longrightarrow> j < s \<longrightarrow> \<not> field_at (query kvs) n j)"
    using find_field_first [OF assms(5), of 0 "query kvs"] by auto
  show ?thesis
  proof (cases r)
    case None
    then have "map_of kvs n = None" using r(2) query_found [OF assms(4,2)] by force
    then show ?thesis
      using None r(1) assms(1,3,7) st_put [of h dst NUL] by (simp add: cgifldld_def)
  next
    case (Some s)
    then obtain v t where v: "map_of kvs n = Some v" "drop (s + length n + 1) (query kvs) = form_encode v @ t"
      "t = [] \<or> deref t = CHR ''&''"
      using query_first [OF assms(4,2), of s] r(2) by auto
    let ?e = "form_encode v"
    have tw: "takeWhile (\<lambda>c. c \<noteq> CHR ''&'') (?e @ t) = ?e"
      by (rule takeWhile_field [OF pairs_ok_value [OF assms(2) v(1)] v(3)])
    have "field_at (query kvs) n s" using r(2) Some by simp
    then have "prefix (n @ ''='') (drop s (query kvs))" by (simp add: field_at_def)
    then have le: "s + length n + 1 \<le> length (query kvs)"
      using assms(5) by (auto dest!: prefix_length_le)
    have "cstr h (padd src (s + length n + 1)) = Some (?e @ t)"
      using cstr_padd [OF assms(1) le] v(2) by simp
    moreover have "fits h dst (length ?e)" using assms(7) v(1) by (auto elim: fits_mono)
    ultimately have "copy_value h (padd src (s + length n + 1)) dst = Some (put h dst ?e, padd dst (length ?e))"
      using copy_value_put [of h "padd src (s + length n + 1)" "?e @ t" dst] assms(6) unfolding tw by simp
    then show ?thesis
      using Some r(1) assms(1,3,7) v(1) st_put_snoc [of h dst ?e NUL] by (simp add: cgifldld_def)
  qed
qed

text \<open>Upper case on a query changes the names only.\<close>

definition upper_names :: "(string \<times> string) list \<Rightarrow> (string \<times> string) list" where
  "upper_names = map (\<lambda>(k, v). (map toupper k, v))"

lemma upper_tags_name: "name_ok k \<Longrightarrow> upper_tags True (k @ x) = map toupper k @ upper_tags True x"
  by (induction k) (auto simp: name_ok_def)

lemma upper_tags_value: "CHR ''&'' \<notin> set v \<Longrightarrow> upper_tags False (v @ x) = v @ upper_tags False x"
  by (induction v) auto

lemma upper_tags_query: "pairs_ok kvs \<Longrightarrow> upper_tags True (query kvs) = query (upper_names kvs)"
proof (induction kvs)
  case (Cons kv kvs)
  obtain k v where kv: "kv = (k, v)" by (cases kv)
  have "CHR ''&'' \<notin> set (form_encode v)" using set_form_encode [of v] Cons.prems kv by auto
  moreover have "toupper (CHR ''='') = CHR ''=''" using toupper_amp(2) by blast
  ultimately show ?case
    using Cons kv upper_tags_value [of "form_encode v" "[]"]
    by (auto simp: upper_names_def upper_tags_name upper_tags_value)
qed (simp add: upper_names_def)

lemma name_ok_upper: "name_ok k \<Longrightarrow> name_ok (map toupper k)"
proof (induction k)
  case (Cons c k)
  have "name_ok (d # k) \<longleftrightarrow> d \<noteq> CHR ''&'' \<and> d \<noteq> CHR ''='' \<and> d \<noteq> NUL \<and> name_ok k" for d k
    by (auto simp: name_ok_def)
  then show ?case using Cons toupper_amp [of c] by simp
qed simp

lemma put_prefix_cstr:
  assumes "cstr h p = Some x" and "length y = length x" and "NUL \<notin> set y"
  shows "cstr (put h p y) p = Some y"
proof -
  obtain t where "bytes_at h p = x @ NUL # t" using assms(1) by (auto simp: cstr_Some_iff)
  moreover have "fits h p (length y)" using cstr_fits [OF assms(1)] assms(2) by (auto elim: fits_mono)
  ultimately show ?thesis using assms by (auto simp: cstr_Some_iff bytes_at_put_same)
qed

section \<open>The properties\<close>

text \<open>C23: \<open>urlncode\<close> stores the encoded string and its length exactly when the text, its terminator and one
  more byte for a last character that is escaped fit into the size (otherwise the encoded beginning,
  terminated, and 0), never writing more than \<open>max 1 size\<close> bytes, and \<open>urldcode\<close> turns a stored
  encoding back into the string and its length.\<close>

theorem urlncode_urldcode:
  assumes "cstr h src = Some x" and "fst src \<noteq> fst dst" and "fits h dst (enc_room 0 sz x)"
  shows "\<exists>x1 h1. prefix x1 x \<and> (x1 = x \<longleftrightarrow> enc_ok 0 sz x)
    \<and> urlncode h src (Some dst) sz = Some (h1, if x1 = x then length (form_encode x) else 0)
    \<and> h1 = put h dst (form_encode x1 @ [NUL]) \<and> Suc (length (form_encode x1)) \<le> enc_room 0 sz x
    \<and> (\<exists>h2. urldcode h1 (Some dst) = Some (h2, length x1) \<and> cstr h2 dst = Some x1)"
proof -
  obtain x1 where x1: "prefix x1 x" "x1 = x \<longleftrightarrow> enc_ok 0 sz x"
    "urlncode_loop h src dst 0 sz = Some (put h dst (form_encode x1), padd dst (length (form_encode x1)),
               if x1 = x then Some (length (form_encode x)) else None)"
    "Suc (length (form_encode x1)) \<le> enc_room 0 sz x"
    using urlncode_loop_encodes [OF assms] by auto
  have f: "fits h dst (Suc (length (form_encode x1)))" by (rule fits_mono [OF assms(3) x1(4)])
  have N: "NUL \<notin> set x1" using cstr_NUL [OF assms(1)] x1(1) by (auto dest: set_mono_prefix)
  define h1 where "h1 = put h dst (form_encode x1 @ [NUL])"
  have e: "urlncode h src (Some dst) sz = Some (h1, if x1 = x then length (form_encode x) else 0)"
    using x1(3) st_put_snoc [OF f, of NUL] by (simp add: urlncode_def h1_def)
  have c: "cstr h1 dst = Some (form_encode x1)"
    unfolding h1_def using f set_form_encode [OF N] by (intro cstr_put_same) auto
  have g: "fits h1 dst (Suc (length (form_encode x1)))" by (rule cstr_fits [OF c])
  have l: "length x1 \<le> length (form_encode x1)" by (rule form_decode_length [OF form_decode_encode])
  have "decoded h1 dst (form_encode x1) (urldcode_loop h1 dst dst)"
    using c g by (intro urldcode_loop_decoded) (auto elim: fits_mono)
  then have "urldcode h1 (Some dst) = Some (put h1 dst (x1 @ [NUL]), length x1)"
    using st_put_snoc [of h1 dst x1 NUL] fits_mono [OF g] l
    by (simp add: decoded_def form_decode_encode urldcode_def)
  moreover have "cstr (put h1 dst (x1 @ [NUL])) dst = Some x1"
    using fits_mono [OF g] l N by (intro cstr_put_same) auto
  ultimately show ?thesis using x1 e h1_def by blast
qed

lemma urlncode_urldcode_witness:
  "\<exists>h1. urlncode (\<lambda>ob. if ob = 0 then ''a&b c'' @ [NUL] else replicate 9 NUL) (0, 0) (Some (1, 0)) 9 = Some (h1, 7)
    \<and> h1 1 = ''a%26b+c'' @ [NUL, NUL] \<and> (\<exists>h2. urldcode h1 (Some (1, 0)) = Some (h2, 5) \<and> cstr h2 (1, 0) = Some ''a&b c'')"
proof -
  let ?h = "\<lambda>ob. if ob = 0 then ''a&b c'' @ [NUL] else replicate 9 NUL"
  have c: "cstr ?h (0, 0) = Some ''a&b c''" by (simp add: cstr_def bytes_at_def)
  have e: "form_encode ''a&b c'' = ''a%26b+c''" by code_simp
  have ok: "enc_ok 0 9 ''a&b c''" by code_simp
  have "fits ?h (1, 0) (enc_room 0 9 ''a&b c'')" by (simp add: fits_def enc_room_def e)
  from urlncode_urldcode [OF c _ this] ok obtain h1 h2 where
    "urlncode ?h (0, 0) (Some (1, 0)) 9 = Some (h1, 7)" "h1 = put ?h (1, 0) (''a%26b+c'' @ [NUL])"
    "urldcode h1 (Some (1, 0)) = Some (h2, 5)" "cstr h2 (1, 0) = Some ''a&b c''"
    by (auto simp: e simp del: form_encode_simps)
  moreover have "put ?h (1, 0) (''a%26b+c'' @ [NUL]) 1 = ''a%26b+c'' @ [NUL, NUL]" by (simp add: put_def)
  ultimately show ?thesis by auto
qed

text \<open>C22: in a query made of encoded name and value pairs \<open>cgifldld\<close> finds the first value of a name
  (nothing when there is none), which \<open>urldcode\<close> turns into the value that was encoded, and
  \<open>cgiupper\<close> changes the query into the one with the names in upper case and the same values.\<close>

theorem form_roundtrip:
  assumes "cstr h src = Some (query kvs)" and "pairs_ok kvs"
    and "cstr h name = Some n" and "name_ok n" and "n \<noteq> []"
    and "fst src \<noteq> fst dst"
    and "fits h dst (Suc (length (form_encode (field_value kvs n))))"
  shows "\<exists>h1 h2 h3. cgifldld h src name dst = Some h1
    \<and> urldcode h1 (Some dst) = Some (h2, length (field_value kvs n)) \<and> cstr h2 dst = Some (field_value kvs n)
    \<and> (\<forall>ob. ob \<noteq> fst dst \<longrightarrow> h2 ob = h ob)
    \<and> cgiupper h src = Some h3 \<and> cstr h3 src = Some (query (upper_names kvs)) \<and> (\<forall>ob. ob \<noteq> fst src \<longrightarrow> h3 ob = h ob)"
proof -
  let ?v = "field_value kvs n" and ?e = "form_encode (field_value kvs n)"
  define h1 where "h1 = put h dst (?e @ [NUL])"
  have N: "NUL \<notin> set ?v" using pairs_ok_value [OF assms(2)] by (auto split: option.split)
  have c: "cstr h1 dst = Some ?e"
    unfolding h1_def using assms(7) set_form_encode [OF N] by (intro cstr_put_same) auto
  have g: "fits h1 dst (Suc (length ?e))" by (rule cstr_fits [OF c])
  have l: "length ?v \<le> length ?e" by (rule form_decode_length [OF form_decode_encode])
  have "decoded h1 dst ?e (urldcode_loop h1 dst dst)"
    using c g by (intro urldcode_loop_decoded) (auto elim: fits_mono)
  then have d: "urldcode h1 (Some dst) = Some (put h1 dst (?v @ [NUL]), length ?v)"
    using st_put_snoc [of h1 dst ?v NUL] fits_mono [OF g] l
    by (simp add: decoded_def form_decode_encode urldcode_def)
  have d': "cstr (put h1 dst (?v @ [NUL])) dst = Some ?v"
    using fits_mono [OF g] l N by (intro cstr_put_same) auto
  have u: "cgiupper h src = Some (put h src (query (upper_names kvs)))"
    using cgiupper_loop_upper [OF assms(1)] upper_tags_query [OF assms(2)] by (simp add: cgiupper_def)
  have "length (query (upper_names kvs)) = length (query kvs)"
    using upper_tags_query [OF assms(2), symmetric] by simp
  moreover have "pairs_ok (upper_names kvs)"
    using assms(2) name_ok_upper by (fastforce simp: pairs_ok_def upper_names_def)
  ultimately have u': "cstr (put h src (query (upper_names kvs))) src = Some (query (upper_names kvs))"
    using query_NUL by (intro put_prefix_cstr [OF assms(1)]) auto
  show ?thesis
    using cgifldld_value [OF assms] d d' u u' by (auto simp: h1_def)
qed

lemma form_roundtrip_witness:
  "\<exists>h1 h2. cgifldld (\<lambda>ob. if ob = 0 then ''q=1&id=a%26b'' @ [NUL] else if ob = 1 then ''id'' @ [NUL] else replicate 6 NUL)
      (0, 0) (1, 0) (2, 0) = Some h1
    \<and> urldcode h1 (Some (2, 0)) = Some (h2, 3) \<and> cstr h2 (2, 0) = Some ''a&b''"
proof -
  let ?h = "\<lambda>ob. if ob = 0 then ''q=1&id=a%26b'' @ [NUL] else if ob = 1 then ''id'' @ [NUL] else replicate 6 NUL"
  let ?kvs = "[(''q'', ''1''), (''id'', ''a&b'')]"
  have q: "query ?kvs = ''q=1&id=a%26b''" by code_simp
  have e: "form_encode ''a&b'' = ''a%26b''" by code_simp
  have "cstr ?h (0, 0) = Some (query ?kvs)" unfolding q by (simp add: cstr_def bytes_at_def)
  moreover have "pairs_ok ?kvs" by (simp add: pairs_ok_def name_ok_def)
  moreover have "cstr ?h (1, 0) = Some ''id''" by (simp add: cstr_def bytes_at_def)
  moreover have "name_ok ''id''" by (simp add: name_ok_def)
  moreover have "fits ?h (2, 0) (Suc (length (form_encode (field_value ?kvs ''id''))))"
    by (simp add: fits_def e del: form_encode_simps)
  moreover have "field_value ?kvs ''id'' = ''a&b''" by simp
  ultimately obtain h1 h2 where "cgifldld ?h (0, 0) (1, 0) (2, 0) = Some h1"
    "urldcode h1 (Some (2, 0)) = Some (h2, length ''a&b'')" "cstr h2 (2, 0) = Some ''a&b''"
    using form_roundtrip [of ?h "(0, 0)" ?kvs "(1, 0)" "''id''" "(2, 0)"] by (simp only: fst_conv) auto
  moreover have "length ''a&b'' = 3" by simp
  ultimately show ?thesis by metis
qed

text \<open>\<open>urlvalue\<close> stores the escaped string, which has no angle bracket or quotation mark, exactly when
  it fits with its terminator into the size; otherwise it returns 1 and leaves the escaped beginning
  without a terminator.\<close>

lemma urlvalue_correct:
  assumes "cstr h src = Some x" and "fst src \<noteq> fst dst"
    and "fits h dst (max 1 (min (Suc (length (html_escape x))) (nat sz)))"
  shows "(x = [] \<or> int (length (html_escape x)) < sz \<longrightarrow>
      (\<exists>h'. urlvalue h src dst sz = Some (h', CIS_NOERROR) \<and> cstr h' dst = Some (html_escape x)
        \<and> set (html_escape x) \<inter> {CHR ''<'', CHR ''>'', CHR 0x22} = {}
        \<and> (\<forall>ob. ob \<noteq> fst dst \<longrightarrow> h' ob = h ob)))
    \<and> (x \<noteq> [] \<and> sz \<le> int (length (html_escape x)) \<longrightarrow>
      (\<exists>x1. strict_prefix x1 x \<and> urlvalue h src dst sz = Some (put h dst (html_escape x1), 1)))"
proof -
  have f0: "fits h dst (min (length (html_escape x)) (nat (sz - int 0)))"
    by (rule fits_mono [OF assms(3)]) simp
  obtain x1 where x1: "prefix x1 x" "x1 = x \<longleftrightarrow> x = [] \<or> int 0 + int (length (html_escape x)) < sz"
    "urlvalue_loop h src dst 0 sz
       = Some (put h dst (html_escape x1), if x1 = x then Some (padd dst (length (html_escape x))) else None)"
    using urlvalue_loop_escapes [OF assms(1,2) f0] by blast
  show ?thesis
  proof (cases "x1 = x")
    case True
    have f: "fits h dst (Suc (length (html_escape x)))"
      by (rule fits_mono [OF assms(3)]) (use True x1(2) in auto)
    have "NUL \<notin> set (html_escape x)"
      using cstr_NUL [OF assms(1)] by (induction x) (auto simp: html_char_def)
    then have "cstr (put h dst (html_escape x @ [NUL])) dst = Some (html_escape x)"
      using f by (intro cstr_put_same) auto
    then show ?thesis
      using True x1(2,3) st_put_snoc [OF f, of NUL] html_escape_clean [of x] by (auto simp: urlvalue_def)
  next
    case False
    then show ?thesis using x1 by (auto simp: urlvalue_def strict_prefix_def)
  qed
qed

lemma urlvalue_correct_witness:
  "\<exists>h'. urlvalue (\<lambda>ob. if ob = 0 then ''a<b'' @ [NUL] else replicate 7 NUL) (0, 0) (1, 0) 7 = Some (h', CIS_NOERROR)
    \<and> cstr h' (1, 0) = Some ''a&lt;b''"
proof -
  let ?h = "\<lambda>ob. if ob = 0 then ''a<b'' @ [NUL] else replicate 7 NUL"
  have e: "html_escape ''a<b'' = ''a&lt;b''" by code_simp
  have "cstr ?h (0, 0) = Some ''a<b''" by (simp add: cstr_def bytes_at_def)
  moreover have "fits ?h (1, 0) (max 1 (min (Suc (length (html_escape ''a<b''))) (nat 7)))"
    unfolding e by (simp add: fits_def)
  ultimately show ?thesis
    using urlvalue_correct [of ?h "(0, 0)" "''a<b''" "(1, 0)" 7] unfolding e by auto
qed

text \<open>Where the helpers surprise: a wrong escape makes \<open>urldcode\<close> return 0 with the string already
  decoded in part; \<open>%00\<close> cuts the string below the returned length; \<open>urlncode\<close> refuses an escape that
  would just fit, and writes a byte even when the size is 0; \<open>urlvalue\<close> does not escape the ampersand,
  so different values get the same text; and \<open>cgifldld\<close> searches behind the end of a record for an
  empty name.\<close>

lemma cgi_quirks:
  "map_option (\<lambda>(h, n). (h 0, n)) (urldcode (\<lambda>_. ''a+b%2'' @ [NUL]) (Some (0, 0))) = Some (''a b%2'' @ [NUL], 0)
   \<and> map_option (\<lambda>(h, n). (cstr h (0, 0), n)) (urldcode (\<lambda>_. ''%00x'' @ [NUL]) (Some (0, 0))) = Some (Some [], 2)
   \<and> map_option snd (urlncode (\<lambda>ob. if ob = 0 then ''?'' @ [NUL] else replicate 4 NUL) (0, 0) (Some (1, 0)) 4) = Some 0
   \<and> map_option (\<lambda>(h, n). (h 1, n)) (urlncode (\<lambda>ob. if ob = 0 then ''a'' @ [NUL] else ''b'') (0, 0) (Some (1, 0)) 0)
     = Some ([NUL], 0)
   \<and> map_option (\<lambda>(h, n). cstr h (1, 0)) (urlvalue (\<lambda>ob. if ob = 0 then ''&lt;'' @ [NUL] else replicate 9 NUL) (0, 0) (1, 0) 9)
     = map_option (\<lambda>(h, n). cstr h (1, 0)) (urlvalue (\<lambda>ob. if ob = 0 then ''<'' @ [NUL] else replicate 9 NUL) (0, 0) (1, 0) 9)
   \<and> cgifldld (\<lambda>ob. if ob = 0 then ''a=1'' @ [NUL] else replicate 9 NUL) (0, 0) (1, 0) (2, 0) = None"
  by code_simp

end
