(* ===== verification/EaDecode.thy ===== *)
theory EaDecode
  imports StrUtils
begin

text \<open>
  The decoder of extended attributes, \<open>utils/eadecode.c\<close>. The value of an attribute is a tree: a
  multi-valued attribute holds further values, which may be multi-valued again. The decoder walks
  through the little-endian \<open>USHORT\<close>s of the value and appends every ASCII leaf to a list of
  strings that are separated by tabs.

  The attribute is only read, so its bytes are a \<open>string\<close> and a pointer into it is an offset;
  reading behind the bytes is \<open>None\<close> (the code does not check for truncated attributes). The
  target string lies in the store. The recursion of \<open>doeadecode\<close> is over a fuel; its depth is below
  the number of bytes, so that the length of the attribute is enough fuel
  (\<open>doeadecode_fuel\<close>). The \<open>EAT_\<close> codes are those of the OS/2 headers.
\<close>

section \<open>Types and reading\<close>

definition EAT_ASCII :: nat where "EAT_ASCII = 0xFFFD"
definition EAT_MVMT :: nat where "EAT_MVMT = 0xFFDF"
definition EAT_MVST :: nat where "EAT_MVST = 0xFFDE"
definition EAT_ASN1 :: nat where "EAT_ASN1 = 0xFFDD"

lemmas EAT_defs = EAT_ASCII_def EAT_MVMT_def EAT_MVST_def EAT_ASN1_def

definition ushort :: "string \<Rightarrow> nat \<Rightarrow> nat option" where
  "ushort bs i = (if i + 1 < length bs then Some (ccode (bs ! i) + 256 * ccode (bs ! (i + 1))) else None)"

definition slice :: "string \<Rightarrow> nat \<Rightarrow> nat \<Rightarrow> string option" where
  "slice bs i n = (if i + n \<le> length bs then Some (take n (drop i bs)) else None)"

section \<open>appendeatype\<close>

abbreviation TAB :: char where "TAB \<equiv> CHR 0x09"

definition appendeatype :: "store \<Rightarrow> ptr \<Rightarrow> nat \<Rightarrow> string \<Rightarrow> (store \<times> bool) option" where
  "appendeatype h dst dstlen src =
     do { curlen \<leftarrow> strnlen h dst dstlen;
          if dstlen \<le> (if curlen \<noteq> 0 then 1 else 0) + curlen + length src + 1 then Some (h, False)
          else do {
            (h, curlen) \<leftarrow> (if curlen \<noteq> 0 then do { h \<leftarrow> st h (padd dst curlen) TAB; Some (h, curlen + 1) }
                           else Some (h, curlen));
            h \<leftarrow> blk_st h (padd dst curlen) src;
            h \<leftarrow> st h (padd dst (curlen + length src)) NUL;
            Some (h, True) } }"

section \<open>doeadecode\<close>

text \<open>\<open>while (count--) if (!step) return FALSE;\<close>\<close>

primrec times :: "nat \<Rightarrow> ('s \<Rightarrow> ('s \<times> bool) option) \<Rightarrow> 's \<Rightarrow> ('s \<times> bool) option" where
  "times 0 f s = Some (s, True)"
| "times (Suc n) f s = do { (s, ok) \<leftarrow> f s; if ok then times n f s else Some (s, False) }"

text \<open>\<open>type = *(*eadata)++;\<close> before the value of a mixed attribute.\<close>

definition typed :: "string \<Rightarrow> (nat \<Rightarrow> store \<times> nat \<Rightarrow> 'r option) \<Rightarrow> store \<times> nat \<Rightarrow> 'r option" where
  "typed bs decode s = do { ty \<leftarrow> ushort bs (snd s); decode ty (fst s, snd s + 2) }"

primrec doeadecode :: "nat \<Rightarrow> string \<Rightarrow> ptr \<Rightarrow> nat \<Rightarrow> nat \<Rightarrow> store \<times> nat \<Rightarrow> ((store \<times> nat) \<times> bool) option" where
  "doeadecode 0 bs dst len ty s = None"
| "doeadecode (Suc f) bs dst len ty s =
     (case s of (h, off) \<Rightarrow>
        if ty = EAT_ASCII then
          do { n \<leftarrow> ushort bs off;
               src \<leftarrow> slice bs (off + 2) n;
               (h, ok) \<leftarrow> appendeatype h dst len src;
               if ok then Some ((h, off + 2 + n), True) else Some ((h, off), False) }
        else if ty = EAT_MVST then
          do { count \<leftarrow> ushort bs (off + 2);
               ty \<leftarrow> ushort bs (off + 4);
               times count (doeadecode f bs dst len ty) (h, off + 6) }
        else if ty = EAT_MVMT then
          do { count \<leftarrow> ushort bs (off + 2);
               times count (typed bs (doeadecode f bs dst len)) (h, off + 4) }
        else if ty = EAT_ASN1 then Some ((h, off), True)
        else do { n \<leftarrow> ushort bs off; Some ((h, off + 2 + n), True) })"

text \<open>\<open>FEA2\<close>: \<open>szName\<close> holds the name, its terminator and the value.\<close>

record fea2 =
  cbName :: nat
  cbValue :: nat
  szName :: string

definition eadecode :: "store \<Rightarrow> ptr \<Rightarrow> nat \<Rightarrow> fea2 \<Rightarrow> (store \<times> bool) option" where
  "eadecode h dst len eadata =
     (if len = 0 then Some (h, False)
      else if cbValue eadata < 2 then do { h \<leftarrow> st h dst NUL; Some (h, True) }
      else do {
        let eas = cbName eadata + 1;
        ty \<leftarrow> ushort (szName eadata) eas;
        ((h, _), ok) \<leftarrow> doeadecode (length (szName eadata)) (szName eadata) dst len ty (h, eas + 2);
        Some (h, ok) })"

section \<open>The fuel is enough\<close>

lemma ushort_inside: "ushort bs i = Some n \<Longrightarrow> i + 1 < length bs"
  by (simp add: ushort_def split: if_splits)

lemma times_mono:
  assumes "\<And>s s' ok. f s = Some (s', ok) \<Longrightarrow> snd s \<le> (snd s' :: nat)"
  shows "times n f s = Some (s', ok) \<Longrightarrow> snd s \<le> snd s'"
proof (induction n arbitrary: s)
  case (Suc n)
  then obtain s1 k where s1: "f s = Some (s1, k)" "(if k then times n f s1 else Some (s1, False)) = Some (s', ok)"
    by (auto split: bind_splits)
  then have "snd s1 \<le> snd s'" using Suc.IH by (auto split: if_splits)
  then show ?case using assms [OF s1(1)] by simp
qed simp

lemma typed_mono:
  assumes "typed bs d s = Some (s', ok)" and "\<And>ty t. d ty t = Some (s', ok) \<Longrightarrow> snd t \<le> snd s'"
  shows "snd s \<le> (snd s' :: nat)"
proof -
  obtain ty where "d ty (fst s, snd s + 2) = Some (s', ok)"
    using assms(1) by (auto simp: typed_def split: bind_splits)
  from assms(2) [OF this] show ?thesis by simp
qed

lemma doeadecode_mono: "doeadecode f bs dst len ty s = Some (s', ok) \<Longrightarrow> snd s \<le> snd s'"
proof (induction f arbitrary: ty s s' ok)
  case (Suc f)
  obtain h off where s: "s = (h, off)" by (cases s)
  have st: "snd t \<le> snd t'" if "times n (doeadecode f bs dst len ty') t = Some (t', k)" for n ty' t t' k
    using that by (rule times_mono [rotated]) (rule Suc.IH)
  have mt: "snd t \<le> snd t'" if "times n (typed bs (doeadecode f bs dst len)) t = Some (t', k)" for n t t' k
    using that by (rule times_mono [rotated]) (erule typed_mono, rule Suc.IH)
  from Suc.prems show ?case
    unfolding s by (auto split: if_splits bind_splits dest!: st mt)
qed simp

lemma times_cong_from:
  assumes "\<And>s. k \<le> snd s \<Longrightarrow> f s = g s" and "\<And>s s' ok. f s = Some (s', ok) \<Longrightarrow> snd s \<le> (snd s' :: nat)"
  shows "k \<le> snd s \<Longrightarrow> times n f s = times n g s"
proof (induction n arbitrary: s)
  case (Suc n)
  have "times n f s1 = times n g s1" if "f s = Some (s1, ok)" for s1 ok
    using assms(2) [OF that] Suc.prems by (intro Suc.IH) simp
  then show ?case
    using assms(1) [OF Suc.prems] by (auto intro!: Option.bind_cong split: prod.splits)
qed simp

text \<open>More fuel than bytes to read makes no difference, also for malformed attributes.\<close>

lemma doeadecode_fuel:
  "length bs < snd s + f \<Longrightarrow> length bs < snd s + g \<Longrightarrow> 0 < f \<Longrightarrow> 0 < g \<Longrightarrow>
   doeadecode f bs dst len ty s = doeadecode g bs dst len ty s"
proof (induction f arbitrary: g ty s)
  case (Suc f)
  obtain g' where g: "g = Suc g'" using Suc.prems(4) by (cases g) auto
  obtain h off where s: "s = (h, off)" by (cases s)
  have IH: "doeadecode f bs dst len ty' t = doeadecode g' bs dst len ty' t"
    if "off + 4 \<le> length bs" "off + 4 \<le> snd t" for ty' t
    using that Suc.prems g s by (intro Suc.IH) auto
  have st: "times n (doeadecode f bs dst len ty') (h, off + 6) = times n (doeadecode g' bs dst len ty') (h, off + 6)"
    if "off + 4 \<le> length bs" for n ty'
    using that by (intro times_cong_from [where k = "off + 4"] IH doeadecode_mono) auto
  have ty: "typed bs (doeadecode f bs dst len) t = typed bs (doeadecode g' bs dst len) t"
    if "off + 4 \<le> length bs" "off + 4 \<le> snd t" for t
    using IH [OF that(1)] that(2) by (cases "ushort bs (snd t)") (simp_all add: typed_def)
  have mt: "times n (typed bs (doeadecode f bs dst len)) (h, off + 4)
      = times n (typed bs (doeadecode g' bs dst len)) (h, off + 4)"
    if "off + 4 \<le> length bs" for n
    by (rule times_cong_from [where k = "off + 4"], rule ty [OF that], assumption)
      (erule typed_mono, erule doeadecode_mono, simp)
  show ?case
  proof (cases "off + 4 \<le> length bs")
    case True
    then show ?thesis
      unfolding g s using st mt by (cases "ushort bs (off + 2)"; cases "ushort bs (off + 4)") simp_all
  next
    case False
    then have "ushort bs (off + 2) = None" by (simp add: ushort_def)
    then show ?thesis unfolding g s by simp
  qed
qed simp

section \<open>The values and their encoding\<close>

datatype ea =
    EaAscii string
  | EaOther nat string           \<comment> \<open>another type: a length and bytes\<close>
  | EaSame nat nat "ea list"     \<comment> \<open>\<open>EAT_MVST\<close>: code page, one type for all, values\<close>
  | EaMixed nat "ea list"        \<comment> \<open>\<open>EAT_MVMT\<close>: code page, values with their types\<close>

fun ea_type :: "ea \<Rightarrow> nat" where
  "ea_type (EaAscii s) = EAT_ASCII"
| "ea_type (EaOther ty s) = ty"
| "ea_type (EaSame cp ty es) = EAT_MVST"
| "ea_type (EaMixed cp es) = EAT_MVMT"

definition put_ushort :: "nat \<Rightarrow> string" where
  "put_ushort n = [char_of (n mod 256), char_of (n div 256)]"

fun ea_body :: "ea \<Rightarrow> string" where
  "ea_body (EaAscii s) = put_ushort (length s) @ s"
| "ea_body (EaOther ty s) = put_ushort (length s) @ s"
| "ea_body (EaSame cp ty es) = put_ushort cp @ put_ushort (length es) @ put_ushort ty @ concat (map ea_body es)"
| "ea_body (EaMixed cp es) = put_ushort cp @ put_ushort (length es)
     @ concat (map (\<lambda>e. put_ushort (ea_type e) @ ea_body e) es)"

fun ea_ok :: "ea \<Rightarrow> bool" where
  "ea_ok (EaAscii s) \<longleftrightarrow> length s < 65536 \<and> NUL \<notin> set s"
| "ea_ok (EaOther ty s) \<longleftrightarrow> length s < 65536 \<and> ty < 65536 \<and> ty \<notin> {EAT_ASCII, EAT_MVST, EAT_MVMT, EAT_ASN1}"
| "ea_ok (EaSame cp ty es) \<longleftrightarrow> cp < 65536 \<and> length es < 65536 \<and> ty < 65536 \<and> ty \<noteq> EAT_ASN1
     \<and> (\<forall>e \<in> set es. ea_type e = ty \<and> ea_ok e)"
| "ea_ok (EaMixed cp es) \<longleftrightarrow> cp < 65536 \<and> length es < 65536 \<and> (\<forall>e \<in> set es. ea_ok e)"

fun ea_texts :: "ea \<Rightarrow> string list" where
  "ea_texts (EaAscii s) = [s]"
| "ea_texts (EaOther ty s) = []"
| "ea_texts (EaSame cp ty es) = concat (map ea_texts es)"
| "ea_texts (EaMixed cp es) = concat (map ea_texts es)"

text \<open>The list of types that is built: each text behind a tab, until one does not fit.\<close>

definition add_type :: "string \<Rightarrow> string \<Rightarrow> string" where
  "add_type cur t = (if cur = [] then t else cur @ TAB # t)"

fun add_types :: "nat \<Rightarrow> string \<Rightarrow> string list \<Rightarrow> string \<times> bool" where
  "add_types len cur [] = (cur, True)"
| "add_types len cur (t # ts) =
     (if length (add_type cur t) + 1 < len then add_types len (add_type cur t) ts else (cur, False))"

lemma add_types_append:
  "add_types len cur (ts @ us) =
     (case add_types len cur ts of (cur', ok) \<Rightarrow> if ok then add_types len cur' us else (cur', False))"
  by (induction len cur ts rule: add_types.induct) auto

lemma add_types_length: "length cur < len \<Longrightarrow> add_types len cur ts = (cur', ok) \<Longrightarrow> length cur' < len"
  by (induction len cur ts rule: add_types.induct) (auto split: if_splits)

lemma add_types_NUL:
  "NUL \<notin> set cur \<Longrightarrow> \<forall>t \<in> set ts. NUL \<notin> set t \<Longrightarrow> add_types len cur ts = (cur', ok) \<Longrightarrow> NUL \<notin> set cur'"
  by (induction len cur ts rule: add_types.induct) (auto simp: add_type_def split: if_splits)

section \<open>Reading back\<close>

lemma ushort_put:
  assumes "n < 65536"
  shows "ushort (a @ put_ushort n @ b) (length a) = Some n"
proof -
  have "ccode (char_of (n mod 256)) = n mod 256" "ccode (char_of (n div 256)) = n div 256"
    using assms by (simp_all add: ccode_def)
  then show ?thesis by (simp add: ushort_def put_ushort_def nth_append)
qed

lemma length_put_ushort [simp]: "length (put_ushort n) = 2"
  by (simp add: put_ushort_def)

text \<open>The string at \<open>dst\<close> is \<open>cur\<close>, and only its object has changed.\<close>

definition types_at :: "store \<Rightarrow> ptr \<Rightarrow> nat \<Rightarrow> string \<Rightarrow> store \<Rightarrow> bool" where
  "types_at h0 dst len cur h \<longleftrightarrow>
     cstr h dst = Some cur \<and> length cur < len \<and> fits h dst len \<and> (\<forall>ob. ob \<noteq> fst dst \<longrightarrow> h ob = h0 ob)"

lemma put_behind:
  assumes "cstr h p = Some x" and "fits h (padd p (length x)) (Suc (length y))"
  shows "bytes_at (put h (padd p (length x)) (y @ [NUL])) p
    = x @ (y @ [NUL]) @ drop (length x + Suc (length y)) (bytes_at h p)"
proof -
  obtain t where t: "bytes_at h p = x @ NUL # t" using assms(1) by (auto simp: cstr_Some_iff)
  have f: "fits h p (length x + Suc (length y))"
    using assms(2) by (cases p) (simp add: fits_def)
  have "blk_ld h p (length x) = Some x"
    using t cstr_fits [OF assms(1)] by (simp add: blk_ld_def fits_def)
  then have "put h p x = h" by (rule blk_ld_put_same)
  then have "put h (padd p (length x)) (y @ [NUL]) = put h p (x @ y @ [NUL])"
    using put_append [of h p x "y @ [NUL]"] f by simp
  then show ?thesis using f by (simp add: bytes_at_put_same)
qed

lemma appendeatype_type:
  assumes "types_at h0 dst len cur h" and "NUL \<notin> set src"
  shows "\<exists>h'. appendeatype h dst len src = Some (h', length (add_type cur src) + 1 < len)
    \<and> types_at h0 dst len (if length (add_type cur src) + 1 < len then add_type cur src else cur) h'"
proof -
  have c: "cstr h dst = Some cur" "length cur < len" "fits h dst len" "\<forall>ob. ob \<noteq> fst dst \<longrightarrow> h ob = h0 ob"
    using assms(1) by (auto simp: types_at_def)
  define d where "d = (if cur = [] then [] else [TAB])"
  have a: "add_type cur src = cur @ d @ src" by (simp add: d_def add_type_def)
  have d: "length d = (if length cur \<noteq> 0 then 1 else 0)" by (simp add: d_def)
  have n: "strnlen h dst len = Some (length cur)" using strnlen_cstr [OF c(1)] c(2) by simp
  show ?thesis
  proof (cases "length (add_type cur src) + 1 < len")
    case False
    then have "len \<le> (if length cur \<noteq> 0 then 1 else 0) + length cur + length src + 1" using a d by simp
    then have "appendeatype h dst len src = Some (h, False)" using n by (simp add: appendeatype_def)
    then show ?thesis using False assms(1) by simp
  next
    case True
    define p where "p = padd dst (length cur)"
    have p_fst: "fst p = fst dst" by (simp add: p_def)
    have fit: "fits h p (length d + length src + 1)"
      unfolding p_def using True a by (intro fits_padd fits_mono [OF c(3)]) simp
    have fds: "fits h p (length d + length src)" using fit by (rule fits_mono) simp
    have fd: "fits h p (length d)" using fit by (rule fits_mono) simp
    have a1: "(if length cur \<noteq> 0 then do { h \<leftarrow> st h p TAB; Some (h, length cur + 1) } else Some (h, length cur))
        = Some (put h p d, length cur + length d)"
      using fd by (auto simp: st_put d_def)
    have "blk_st (put h p d) (padd p (length d)) src = Some (put (put h p d) (padd p (length d)) src)"
      using fits_padd [OF fds] fd by (intro blk_st_put) simp
    also have "put (put h p d) (padd p (length d)) src = put h p (d @ src)"
      using fds by (rule put_append)
    finally have a2: "blk_st (put h p d) (padd dst (length cur + length d)) src = Some (put h p (d @ src))"
      by (simp add: p_def)
    have "fits h (padd p (length (d @ src))) 1" using fit by (intro fits_padd) simp
    then have "st (put h p (d @ src)) (padd p (length (d @ src))) NUL
        = Some (put (put h p (d @ src)) (padd p (length (d @ src))) [NUL])"
      using fds by (intro st_put) simp
    also have "put (put h p (d @ src)) (padd p (length (d @ src))) [NUL] = put h p ((d @ src) @ [NUL])"
      using fit by (intro put_append) simp
    finally have a3: "st (put h p (d @ src)) (padd dst (length cur + length d + length src)) NUL
        = Some (put h p ((d @ src) @ [NUL]))" by (simp add: p_def add.assoc)
    have "\<not> len \<le> (if length cur \<noteq> 0 then 1 else 0) + length cur + length src + 1" using True a d by simp
    then have "appendeatype h dst len src = Some (put h p ((d @ src) @ [NUL]), True)"
      using n a1 a2 a3 unfolding appendeatype_def p_def by simp
    moreover have "types_at h0 dst len (add_type cur src) (put h p ((d @ src) @ [NUL]))"
      using put_behind [OF c(1), of "d @ src"] True a c fit assms(2) cstr_NUL [OF c(1)] put_other p_fst
      by (auto simp: types_at_def cstr_Some_iff p_def [symmetric] d_def)
    ultimately show ?thesis using True by auto
  qed
qed

section \<open>The decoder on encoded values\<close>

definition decodes :: "string \<Rightarrow> store \<Rightarrow> ptr \<Rightarrow> nat \<Rightarrow> (store \<times> nat \<Rightarrow> ((store \<times> nat) \<times> bool) option) \<Rightarrow>
    nat \<Rightarrow> nat \<Rightarrow> string list \<Rightarrow> bool" where
  "decodes bs h0 dst len step off off' ts \<longleftrightarrow>
     (\<forall>h cur. types_at h0 dst len cur h \<longrightarrow>
        (\<exists>h' o'. step (h, off) = Some ((h', o'), snd (add_types len cur ts))
           \<and> types_at h0 dst len (fst (add_types len cur ts)) h'
           \<and> (snd (add_types len cur ts) \<longrightarrow> o' = off')))"

lemma decodes_via:
  "decodes bs h0 dst len step o1 o2 ts \<Longrightarrow> (\<And>h. step' (h, off) = step (h, o1)) \<Longrightarrow> o2 = off' \<Longrightarrow> ts = ts' \<Longrightarrow>
   decodes bs h0 dst len step' off off' ts'"
  by (simp add: decodes_def)

lemma decodes_times:
  "(\<And>e a b. e \<in> set es \<Longrightarrow> bs = a @ enc e @ b \<Longrightarrow> decodes bs h0 dst len step (length a) (length a + length (enc e)) (ea_texts e)) \<Longrightarrow>
   bs = a @ concat (map enc es) @ b \<Longrightarrow>
   decodes bs h0 dst len (times (length es) step) (length a) (length a + length (concat (map enc es))) (concat (map ea_texts es))"
proof (induction es arbitrary: a)
  case Nil
  then show ?case by (auto simp: decodes_def)
next
  case (Cons e es)
  have e: "decodes bs h0 dst len step (length a) (length a + length (enc e)) (ea_texts e)"
    using Cons.prems(2) by (intro Cons.prems(1)) auto
  have es: "decodes bs h0 dst len (times (length es) step) (length (a @ enc e)) (length (a @ enc e) + length (concat (map enc es)))
      (concat (map ea_texts es))"
  proof (rule Cons.IH)
    fix x c d
    assume "x \<in> set es" and "bs = c @ enc x @ d"
    then show "decodes bs h0 dst len step (length c) (length c + length (enc x)) (ea_texts x)"
      using Cons.prems(1) by simp
  qed (use Cons.prems(2) in simp)
  show ?case
    unfolding decodes_def
  proof (intro allI impI)
    fix h cur
    assume "types_at h0 dst len cur h"
    then obtain h1 o1 where h1: "step (h, length a) = Some ((h1, o1), snd (add_types len cur (ea_texts e)))"
      "types_at h0 dst len (fst (add_types len cur (ea_texts e))) h1"
      "snd (add_types len cur (ea_texts e)) \<Longrightarrow> o1 = length a + length (enc e)"
      using e unfolding decodes_def by blast
    obtain cur1 ok1 where c1: "add_types len cur (ea_texts e) = (cur1, ok1)" by fastforce
    show "\<exists>h' o'. times (length (e # es)) step (h, length a)
          = Some ((h', o'), snd (add_types len cur (concat (map ea_texts (e # es)))))
        \<and> types_at h0 dst len (fst (add_types len cur (concat (map ea_texts (e # es))))) h'
        \<and> (snd (add_types len cur (concat (map ea_texts (e # es)))) \<longrightarrow> o' = length a + length (concat (map enc (e # es))))"
    proof (cases ok1)
      case True
      have "types_at h0 dst len cur1 h1" using h1(2) c1 by simp
      then obtain h2 o2 where h2: "times (length es) step (h1, length (a @ enc e))
            = Some ((h2, o2), snd (add_types len cur1 (concat (map ea_texts es))))"
          "types_at h0 dst len (fst (add_types len cur1 (concat (map ea_texts es)))) h2"
          "snd (add_types len cur1 (concat (map ea_texts es))) \<Longrightarrow> o2 = length (a @ enc e) + length (concat (map enc es))"
        using es unfolding decodes_def by blast
      then show ?thesis
        using h1 c1 True by (intro exI [of _ h2] exI [of _ o2]) (simp add: add_types_append)
    next
      case False
      then show ?thesis using h1 c1 by (auto simp: add_types_append)
    qed
  qed
qed

lemma doeadecode_decodes:
  "ea_ok e \<Longrightarrow> bs = a @ ea_body e @ b \<Longrightarrow> length (ea_body e) \<le> f \<Longrightarrow>
   decodes bs h0 dst len (doeadecode f bs dst len (ea_type e)) (length a) (length a + length (ea_body e)) (ea_texts e)"
proof (induction e arbitrary: a b f)
  case (EaAscii s)
  obtain g where f: "f = Suc g" using EaAscii.prems(3) by (cases f) auto
  have u: "ushort bs (length a) = Some (length s)"
    using ushort_put [of "length s" a "s @ b"] EaAscii.prems by simp
  have sl: "slice bs (length a + 2) (length s) = Some s"
    using EaAscii.prems by (simp add: slice_def put_ushort_def)
  show ?case
    unfolding decodes_def f
  proof (intro allI impI)
    fix h cur
    assume t: "types_at h0 dst len cur h"
    obtain h' where "appendeatype h dst len s = Some (h', length (add_type cur s) + 1 < len)"
      "types_at h0 dst len (if length (add_type cur s) + 1 < len then add_type cur s else cur) h'"
      using appendeatype_type [OF t, of s] EaAscii.prems(1) by auto
    then show "\<exists>h' o'. doeadecode (Suc g) bs dst len (ea_type (EaAscii s)) (h, length a)
          = Some ((h', o'), snd (add_types len cur (ea_texts (EaAscii s))))
        \<and> types_at h0 dst len (fst (add_types len cur (ea_texts (EaAscii s)))) h'
        \<and> (snd (add_types len cur (ea_texts (EaAscii s))) \<longrightarrow> o' = length a + length (ea_body (EaAscii s)))"
      using u sl by auto
  qed
next
  case (EaOther ty s)
  obtain g where f: "f = Suc g" using EaOther.prems(3) by (cases f) auto
  have u: "ushort bs (length a) = Some (length s)"
    using ushort_put [of "length s" a "s @ b"] EaOther.prems by simp
  then show ?case
    unfolding decodes_def f using EaOther.prems(1) by auto
next
  case (EaSame cp ty es)
  obtain g where f: "f = Suc g" using EaSame.prems(3) by (cases f) auto
  let ?a = "a @ put_ushort cp @ put_ushort (length es) @ put_ushort ty"
  have bs: "bs = ?a @ concat (map ea_body es) @ b" using EaSame.prems(2) by simp
  have u: "ushort bs (length a + 2) = Some (length es)" "ushort bs (length a + 4) = Some ty"
    using ushort_put [of "length es" "a @ put_ushort cp"] ushort_put [of ty "a @ put_ushort cp @ put_ushort (length es)"]
      EaSame.prems(1) unfolding bs by simp_all
  have dec: "decodes bs h0 dst len (times (length es) (doeadecode g bs dst len ty)) (length ?a)
      (length ?a + length (concat (map ea_body es))) (concat (map ea_texts es))"
  proof (rule decodes_times [OF _ bs])
    fix e a' b'
    assume e: "e \<in> set es" "bs = a' @ ea_body e @ b'"
    have "length (ea_body e) \<le> length (concat (map ea_body es))"
      using e(1) by (auto simp: length_concat intro!: member_le_sum_list)
    then have "length (ea_body e) \<le> g" using EaSame.prems(3) f by simp
    moreover have "ea_type e = ty" "ea_ok e" using e(1) EaSame.prems(1) by auto
    ultimately show "decodes bs h0 dst len (doeadecode g bs dst len ty) (length a') (length a' + length (ea_body e)) (ea_texts e)"
      using EaSame.IH [OF e(1) _ e(2)] by simp
  qed
  then show ?case
    unfolding f using u by (intro decodes_via [OF dec]) (simp_all add: EAT_defs)
next
  case (EaMixed cp es)
  obtain g where f: "f = Suc g" using EaMixed.prems(3) by (cases f) auto
  let ?a = "a @ put_ushort cp @ put_ushort (length es)"
  let ?enc = "\<lambda>e. put_ushort (ea_type e) @ ea_body e"
  have bs: "bs = ?a @ concat (map ?enc es) @ b" using EaMixed.prems(2) by simp
  have u: "ushort bs (length a + 2) = Some (length es)"
    using ushort_put [of "length es" "a @ put_ushort cp"] EaMixed.prems(1) unfolding bs by simp
  have dec: "decodes bs h0 dst len (times (length es) (typed bs (doeadecode g bs dst len))) (length ?a)
      (length ?a + length (concat (map ?enc es))) (concat (map ea_texts es))"
  proof (rule decodes_times [OF _ bs])
    fix e a' b'
    assume e: "e \<in> set es" "bs = a' @ ?enc e @ b'"
    have "length (?enc e) \<le> length (concat (map ?enc es))"
      using e(1) by (auto simp: length_concat intro!: member_le_sum_list)
    then have l: "length (ea_body e) \<le> g" using EaMixed.prems(3) f by simp
    have ok: "ea_ok e" using e(1) EaMixed.prems(1) by auto
    have "ea_type e < 65536" using ok by (cases e) (auto simp: EAT_defs)
    then have "ushort bs (length a') = Some (ea_type e)"
      using ushort_put [of "ea_type e" a' "ea_body e @ b'"] e(2) by simp
    moreover have "decodes bs h0 dst len (doeadecode g bs dst len (ea_type e)) (length (a' @ put_ushort (ea_type e)))
        (length (a' @ put_ushort (ea_type e)) + length (ea_body e)) (ea_texts e)"
      using e(2) l ok by (intro EaMixed.IH [OF e(1), where b = b']) simp_all
    ultimately show "decodes bs h0 dst len (typed bs (doeadecode g bs dst len)) (length a') (length a' + length (?enc e)) (ea_texts e)"
      unfolding decodes_def typed_def by (simp add: add.assoc)
  qed
  then show ?case
    unfolding f using u by (intro decodes_via [OF dec]) (simp_all add: EAT_defs)
qed

section \<open>The properties\<close>

lemma add_type_length: "length cur \<le> length (add_type cur t)"
  by (simp add: add_type_def)

lemma foldl_add_type_length: "length cur \<le> length (foldl add_type cur ts)"
  by (induction ts arbitrary: cur) (auto intro: order_trans [OF add_type_length])

lemma add_types_foldl:
  "\<exists>k \<le> length ts. add_types len cur ts = (foldl add_type cur (take k ts), k = length ts)
     \<and> (k = length ts \<longleftrightarrow> ts = [] \<or> length (foldl add_type cur ts) + 1 < len)
     \<and> (k < length ts \<longrightarrow> len \<le> length (foldl add_type cur (take (Suc k) ts)) + 1)"
proof (induction ts arbitrary: cur)
  case (Cons t ts)
  show ?case
  proof (cases "length (add_type cur t) + 1 < len")
    case True
    obtain k where k: "k \<le> length ts" "add_types len (add_type cur t) ts = (foldl add_type (add_type cur t) (take k ts), k = length ts)"
      "k = length ts \<longleftrightarrow> ts = [] \<or> length (foldl add_type (add_type cur t) ts) + 1 < len"
      "k < length ts \<longrightarrow> len \<le> length (foldl add_type (add_type cur t) (take (Suc k) ts)) + 1"
      using Cons.IH [of "add_type cur t"] by blast
    then show ?thesis using True by (intro exI [of _ "Suc k"]) auto
  next
    case False
    then have "\<not> length (foldl add_type (add_type cur t) ts) + 1 < len"
      using foldl_add_type_length [of "add_type cur t" ts] by linarith
    then show ?thesis using False by (intro exI [of _ 0]) auto
  qed
qed simp

text \<open>C18: \<open>eadecode\<close> on a well-formed attribute, however deeply nested, appends its ASCII leaves in order
  to the target, each behind a tab unless it is the first, as long as they fit with one byte to spare;
  it reports whether all did and changes nothing else.\<close>

theorem eadecode_correct:
  assumes "ea_ok e" and "cbName fea = length nm"
    and "szName fea = nm @ NUL # put_ushort (ea_type e) @ ea_body e @ rest" and "2 \<le> cbValue fea"
    and "cstr h dst = Some cur" and "length cur < len" and "fits h dst len"
  shows "\<exists>h' k. k \<le> length (ea_texts e) \<and> eadecode h dst len fea = Some (h', k = length (ea_texts e))
    \<and> cstr h' dst = Some (foldl add_type cur (take k (ea_texts e)))
    \<and> (k = length (ea_texts e) \<longleftrightarrow> ea_texts e = [] \<or> length (foldl add_type cur (ea_texts e)) + 1 < len)
    \<and> (k < length (ea_texts e) \<longrightarrow> len \<le> length (foldl add_type cur (take (Suc k) (ea_texts e))) + 1)
    \<and> (\<forall>ob. ob \<noteq> fst dst \<longrightarrow> h' ob = h ob)"
proof -
  let ?a = "nm @ NUL # put_ushort (ea_type e)" and ?bs = "szName fea"
  have bs: "?bs = ?a @ ea_body e @ rest" using assms(3) by simp
  have "ea_type e < 65536" using assms(1) by (cases e) (auto simp: EAT_defs)
  then have ty: "ushort ?bs (cbName fea + 1) = Some (ea_type e)"
    using ushort_put [of "ea_type e" "nm @ [NUL]" "ea_body e @ rest"] assms(2,3) by simp
  have "length (ea_body e) \<le> length ?bs" using bs by simp
  from doeadecode_decodes [OF assms(1) bs this]
  have dec: "decodes ?bs h dst len (doeadecode (length ?bs) ?bs dst len (ea_type e)) (length ?a)
      (length ?a + length (ea_body e)) (ea_texts e)" .
  have "types_at h dst len cur h" using assms(5-7) by (simp add: types_at_def)
  with dec obtain h' o' where h': "doeadecode (length ?bs) ?bs dst len (ea_type e) (h, length ?a)
        = Some ((h', o'), snd (add_types len cur (ea_texts e)))"
      "types_at h dst len (fst (add_types len cur (ea_texts e))) h'"
    unfolding decodes_def by blast
  have la: "length ?a = cbName fea + 1 + 2" using assms(2) by simp
  have "len \<noteq> 0" using assms(6) by simp
  then have "eadecode h dst len fea = Some (h', snd (add_types len cur (ea_texts e)))"
    using ty h'(1) assms(4) unfolding la eadecode_def by simp
  then show ?thesis
    using add_types_foldl [of "ea_texts e" len cur] h'(2) unfolding types_at_def by auto
qed

lemma eadecode_correct_witness:
  "\<exists>h'. eadecode (\<lambda>_. replicate 20 NUL) (0, 0) 20
      \<lparr>cbName = 1, cbValue = 27, szName = ''T'' @ NUL # put_ushort EAT_MVMT
         @ ea_body (EaMixed 0 [EaAscii ''Text'', EaSame 0 EAT_ASCII [EaAscii ''C Code'']]) @ []\<rparr> = Some (h', True)
    \<and> cstr h' (0, 0) = Some (''Text'' @ TAB # ''C Code'')"
proof -
  let ?e = "EaMixed 0 [EaAscii ''Text'', EaSame 0 EAT_ASCII [EaAscii ''C Code'']]"
  let ?f = "\<lparr>cbName = 1, cbValue = 27, szName = ''T'' @ NUL # put_ushort EAT_MVMT @ ea_body ?e @ []\<rparr>"
  let ?h = "\<lambda>_::nat. replicate 20 NUL"
  have ok: "ea_ok ?e" by (simp add: EAT_defs)
  have c: "cstr ?h (0, 0) = Some []" by (simp add: cstr_def bytes_at_def)
  have f: "fits ?h (0, 0) 20" by (simp add: fits_def)
  have p1: "cbName ?f = length ''T''" by simp
  have p2: "szName ?f = ''T'' @ NUL # put_ushort (ea_type ?e) @ ea_body ?e @ []"
    by (simp only: fea2.simps ea_type.simps)
  have p3: "2 \<le> cbValue ?f" by simp
  have p4: "length [] < (20 :: nat)" by simp
  have j: "foldl add_type [] (ea_texts ?e) = ''Text'' @ TAB # ''C Code''" by (simp add: add_type_def)
  obtain h' k where k: "k \<le> length (ea_texts ?e)" "eadecode ?h (0, 0) 20 ?f = Some (h', k = length (ea_texts ?e))"
    "cstr h' (0, 0) = Some (foldl add_type [] (take k (ea_texts ?e)))"
    "k = length (ea_texts ?e) \<longleftrightarrow> ea_texts ?e = [] \<or> length (foldl add_type [] (ea_texts ?e)) + 1 < 20"
    using eadecode_correct [OF ok p1 p2 p3 c p4 f] by blast
  have kk: "k = length (ea_texts ?e)" using k(4) unfolding j by simp
  have "eadecode ?h (0, 0) 20 ?f = Some (h', True)" using k(2) by (simp only: kk simp_thms)
  moreover have "cstr h' (0, 0) = Some (''Text'' @ TAB # ''C Code'')" using k(3) by (simp only: kk take_all order_refl j)
  ultimately show ?thesis by (intro exI conjI)
qed

lemma times_2: "times 2 f s = do { (s, ok) \<leftarrow> f s; if ok then times (Suc 0) f s else Some (s, False) }"
  by (simp add: numeral_2_eq_2)

text \<open>Where \<open>eadecode\<close> goes wrong: a list that fits exactly with its terminator is refused, an attribute
  without a value erases the target it should append to, a mixed attribute with an ASN.1 member decodes
  the bytes of that member as the next type, and a truncated attribute is read behind its end.\<close>

lemma eadecode_quirks:
  "map_option snd (eadecode (\<lambda>_. replicate 5 NUL) (0, 0) 5
      \<lparr>cbName = 0, cbValue = 8, szName = NUL # put_ushort EAT_ASCII @ ea_body (EaAscii ''abcd'')\<rparr>) = Some False
   \<and> map_option (\<lambda>(h, ok). (cstr h (0, 0), ok)) (eadecode (\<lambda>_. ''ab'' @ [NUL]) (0, 0) 3
      \<lparr>cbName = 0, cbValue = 0, szName = [NUL]\<rparr>) = Some (Some [], True)
   \<and> map_option (\<lambda>(h, ok). (cstr h (0, 0), ok)) (eadecode (\<lambda>_. replicate 9 NUL) (0, 0) 9
      \<lparr>cbName = 0, cbValue = 18, szName = NUL # put_ushort EAT_MVMT @ put_ushort 0 @ put_ushort 2
         @ put_ushort EAT_ASN1 @ put_ushort 0 @ put_ushort EAT_ASCII @ put_ushort 1 @ ''a''\<rparr>) = Some (Some [], True)
   \<and> eadecode (\<lambda>_. replicate 9 NUL) (0, 0) 9
      \<lparr>cbName = 0, cbValue = 8, szName = NUL # put_ushort EAT_ASCII @ put_ushort 4 @ ''ab''\<rparr> = None"
  by (intro conjI)
    (simp_all add: eadecode_def appendeatype_def ushort_def slice_def put_ushort_def EAT_defs ccode_def typed_def
      cstr_def bytes_at_def strnlen_bytes times_2)

end
