(* ===== verification/Charset.thy ===== *)
theory Charset
  imports StrUtils
begin

unbundle bit_operations_syntax

text \<open>
  The character sets of \<open>utils/charset.c\<close>: the list of code pages and its search, the guess of the
  code page of a string, and the conversion of strings between code pages.

  The conversion itself is done by the Unicode functions of OS/2 (\<open>UniMapCpToUcsCp\<close>,
  \<open>UniCreateUconvObject\<close>, \<open>UniUconvToUcs\<close> and so on), which are parameters of the model, the fields
  of \<open>uconv\<close>: whether they succeed, and what they convert a block of bytes or characters to when the
  target has room for a number of them. The model counts the conversion objects that are left when \<open>ch_convert\<close> returns. Strings lie in the byte store; a \<open>UniChar\<close> is two bytes, low byte
  first.
\<close>

section \<open>The code pages\<close>

definition CH_CP_NONE :: nat where "CH_CP_NONE = 0"

definition ch_list :: "(string \<times> nat) list" where
  "ch_list =
    [(''System default'', CH_CP_NONE),
     (''United States'', 437),
     (''Latin-1 Western Europe (DOS, OS/2)'', 850),
     (''Latin-1 Western Europe (ISO-8859-1, Windows)'', 1004),
     (''Latin-1 Western Europe (Apple)'', 1275),
     (''Latin-2 Eastern Europe (DOS, OS/2)'', 852),
     (''Latin-2 Eastern Europe (ISO-8859-2)'', 912),
     (''Latin-2 Eastern Europe (Windows)'', 1250),
     (''Latin-9 Southeastern Europe (DOS, OS/2)'', 859),
     (''Latin-9 Southeastern Europe (ISO-8859-15)'', 923),
     (''Turkish (DOS, OS/2)'', 857),
     (''Turkish (Windows)'', 1254),
     (''Greek (DOS, OS/2)'', 869),
     (''Greek (ISO-8859-7, Windows)'', 1253),
     (''Baltic (DOS, OS/2)'', 921),
     (''Baltic (Windows)'', 1257),
     (''Estonia (DOS, OS/2)'', 922),
     (''Cyrillic (KOI-8R)'', 878),
     (''Cyrillic (DOS, OS/2)'', 855),
     (''Cyrillic - Russian (DOS, OS/2)'', 866),
     (''Cyrillic - Ukraine (KOI-8U)'', 1125),
     (''Cyrillic - Belarus (DOS, OS/2)'', 1131),
     (''Cyrillic (ISO-8859-5)'', 915),
     (''Cyrillic (Windows)'', 1251),
     (''Arabic (DOS, OS/2)'', 864),
     (''Arabic (Windows)'', 1256),
     (''Hebrew (DOS, OS/2)'', 862),
     (''Hebrew (Windows)'', 1255),
     (''Portuguese (DOS, OS/2)'', 860),
     (''Canadian French (DOS, OS/2)'', 863),
     (''Nordic (DOS, OS/2)'', 865),
     (''Icelandic (DOS, OS/2)'', 861),
     (''Thai (DOS, OS/2)'', 874),
     (''UTF-8 (Unicode)'', 1208),
     (''UCS-2 (UTF-16, Unicode)'', 1200)]"

definition ch_list_size :: nat where "ch_list_size = length ch_list"
definition ch_list_sbcs :: nat where "ch_list_sbcs = length ch_list - 2"
definition ch_list_dbcs :: nat where "ch_list_dbcs = 1"

text \<open>\<open>ch_find\<close>: the index of the entry in place of the pointer.\<close>

fun find_from :: "nat \<Rightarrow> (string \<times> nat) list \<Rightarrow> nat \<Rightarrow> nat option" where
  "find_from i [] codepage = None"
| "find_from i (e # es) codepage = (if snd e = codepage then Some i else find_from (Suc i) es codepage)"

definition ch_find :: "nat \<Rightarrow> nat option" where
  "ch_find codepage = find_from 0 ch_list codepage"

section \<open>The system functions\<close>

datatype uni_rc = ULS_SUCCESS | ULS_BUFFERFULL | ULS_FAILED

record uconv =
  u_default :: nat                                          \<comment> \<open>first code page of \<open>DosQueryCp\<close>\<close>
  u_prepared :: "nat list"                                  \<comment> \<open>all code pages of \<open>DosQueryCp\<close>\<close>
  u_map :: "nat \<Rightarrow> bool"                                    \<comment> \<open>\<open>UniMapCpToUcsCp\<close>\<close>
  u_create :: "nat \<Rightarrow> bool"                                 \<comment> \<open>\<open>UniCreateUconvObject\<close>\<close>
  u_query :: "nat \<Rightarrow> nat option"                            \<comment> \<open>\<open>esid\<close> of \<open>UniQueryUconvObject\<close>\<close>
  u_to :: "nat \<Rightarrow> string \<Rightarrow> nat \<Rightarrow> uni_rc \<times> 16 word list"    \<comment> \<open>\<open>UniUconvToUcs\<close>, \<open>UniStrToUcs\<close>\<close>
  u_from :: "nat \<Rightarrow> 16 word list \<Rightarrow> nat \<Rightarrow> uni_rc \<times> string"  \<comment> \<open>\<open>UniUconvFromUcs\<close>\<close>
  u_type :: "16 word \<Rightarrow> 16 word"                           \<comment> \<open>\<open>itype\<close> of \<open>UniQueryCharType\<close>\<close>
  u_calloc :: bool
  u_signed :: bool                                          \<comment> \<open>whether \<open>char\<close> is signed\<close>

text \<open>\<open>ch_default\<close>, the test whether a code page is usable in \<open>ch_info\<close>, and the attempt to open a
  conversion object, with the number of objects that stay allocated.\<close>

definition ch_default :: "uconv \<Rightarrow> nat" where
  "ch_default u = u_default u"

definition open_uconv :: "uconv \<Rightarrow> nat \<Rightarrow> nat option \<times> nat" where
  "open_uconv u cp =
     (if \<not> u_map u cp then (None, 0)
      else if \<not> u_create u cp then (None, 0)
      else case u_query u cp of None \<Rightarrow> (None, 0) | Some esid \<Rightarrow> (Some esid, 1))"

definition ch_info :: "uconv \<Rightarrow> nat \<Rightarrow> nat option \<times> nat" where
  "ch_info u codepage =
     (let codepage = (if codepage = CH_CP_NONE then ch_default u else codepage)
      in if \<not> u_map u codepage then (None, 0)
         else if \<not> u_create u codepage then (None, 0)
         else (u_query u codepage, 0))"

section \<open>Guessing a code page\<close>

definition weights :: "int list" where
  "weights = [1, 2, 2, 0, 0, -5, 0, 0, 1, 0, 0, 0, 0, -1]"

fun weigh :: "int list \<Rightarrow> 16 word \<Rightarrow> int \<Rightarrow> int" where
  "weigh [] itype result = result"
| "weigh (w # ws) itype result = weigh ws (drop_bit 1 itype) (result + (if bit itype 0 then w else 0))"

definition ch_get_weight :: "uconv \<Rightarrow> 16 word \<Rightarrow> int" where
  "ch_get_weight u uc = (if uc = 0xFFFD then - 10 else weigh weights (u_type u uc) 0)"

text \<open>The value of a string: the sum over the converted characters up to a null character. The array
  \<open>ustring\<close> has 1000 elements, but \<open>UniStrToUcs\<close> is told \<open>sizeof ustring\<close>, 2000; writing behind the array is
  \<open>None\<close>.\<close>

definition string_value :: "uconv \<Rightarrow> 16 word list \<Rightarrow> int" where
  "string_value u us = sum_list (map (ch_get_weight u) (takeWhile (\<lambda>c. c \<noteq> 0) (take 1000 us)))"

record winner =
  max_cp :: nat
  max_value :: int
  max_count :: nat
  n_distinct :: nat

definition update_winner :: "nat \<Rightarrow> int \<Rightarrow> winner \<Rightarrow> winner" where
  "update_winner cp v w =
     (if v > max_value w then w\<lparr>max_cp := cp, max_value := v, max_count := 1\<rparr>
      else if v = max_value w then w\<lparr>max_count := max_count w + 1\<rparr>
      else w)"

text \<open>One code page: it is skipped when it occurred before, or when it cannot be converted.\<close>

definition try_codepage :: "uconv \<Rightarrow> string \<Rightarrow> nat list \<Rightarrow> nat \<Rightarrow> winner \<Rightarrow> winner option" where
  "try_codepage u source before cp w =
     (if cp \<in> set before then Some w
      else let w = w\<lparr>n_distinct := n_distinct w + 1\<rparr>
           in if \<not> u_map u cp \<or> \<not> u_create u cp then Some w
              else case u_to u cp source 2000 of (rc, us) \<Rightarrow>
                if 1000 < length us then None
                else if rc = ULS_FAILED then Some w
                else Some (update_winner cp (string_value u us) w))"

fun detect_loop :: "uconv \<Rightarrow> string \<Rightarrow> nat list \<Rightarrow> nat list \<Rightarrow> winner \<Rightarrow> winner option" where
  "detect_loop u source before [] w = Some w"
| "detect_loop u source before (cp # cps) w =
     do { w \<leftarrow> try_codepage u source before cp w;
          detect_loop u source (before @ [cp]) cps w }"

definition ch_detect :: "uconv \<Rightarrow> nat \<Rightarrow> string \<Rightarrow> nat option" where
  "ch_detect u cp_source source =
     do { let cpage = (if cp_source \<noteq> CH_CP_NONE then cp_source # take 5 (u_prepared u) else take 6 (u_prepared u));
          w \<leftarrow> detect_loop u source [] cpage \<lparr>max_cp = CH_CP_NONE, max_value = 0, max_count = 0, n_distinct = 0\<rparr>;
          Some (if max_count w \<noteq> 1 \<and> max_count w = n_distinct w then CH_CP_NONE else max_cp w) }"

section \<open>Unicode strings in memory\<close>

definition ld16 :: "store \<Rightarrow> ptr \<Rightarrow> 16 word option" where
  "ld16 h p = do { a \<leftarrow> ld h p; b \<leftarrow> ld h (padd p 1); Some (of_nat (ccode a) + 256 * of_nat (ccode b)) }"

definition uni_bytes :: "16 word list \<Rightarrow> string" where
  "uni_bytes us = concat (map (\<lambda>u. [char_of (unat (take_bit 8 u)), char_of (unat (drop_bit 8 u))]) us)"

text \<open>The string of \<open>UniChar\<close>s at a pointer, up to the null character.\<close>

function ustr :: "store \<Rightarrow> ptr \<Rightarrow> 16 word list option" where
  "ustr h p =
     (case ld16 h p of
        None \<Rightarrow> None
      | Some c \<Rightarrow> if c = 0 then Some [] else map_option (Cons c) (ustr h (padd p 2)))"
  by pat_completeness auto
termination
  by (relation "measure (\<lambda>(h, p). length (h (fst p)) - snd p)")
    (auto simp: ld16_def simp del: ld.simps split: bind_splits dest!: ld_room)

declare ustr.simps [simp del]

section \<open>ch_convert\<close>

definition CH_FLAGS_WRITE_BOM :: "32 word" where "CH_FLAGS_WRITE_BOM = 1"

text \<open>The result: the store, the returned pointer, and the conversion objects that are still allocated
  (the temporary buffer is freed on every way out).\<close>

type_synonym converted = "store \<times> ptr option \<times> nat"

definition swap16 :: "16 word \<Rightarrow> 16 word" where
  "swap16 c = ucast (drop_bit 8 (ucast c * 0x10001 :: 32 word))"

text \<open>\<open>size / 2 - 1\<close> on 32 bits.\<close>

definition half_less :: "nat \<Rightarrow> nat" where
  "half_less sz = (sz div 2 + 2 ^ 32 - 1) mod 2 ^ 32"

text \<open>The byte order mark: the new target and size.\<close>

definition write_bom :: "store \<Rightarrow> nat \<Rightarrow> ptr \<Rightarrow> nat \<Rightarrow> (store \<times> ptr \<times> nat) option" where
  "write_bom h cp_target target sz =
     (if cp_target = 1200 then do { h \<leftarrow> blk_st h target (uni_bytes [0xFEFF]); Some (h, padd target 2, sz - 2) }
      else if cp_target = 1208
      then do { h \<leftarrow> blk_st h target [CHR 0xEF, CHR 0xBB, CHR 0xBF]; Some (h, padd target 3, sz - 3) }
      else Some (h, target, sz))"

text \<open>The label \<open>copyDBCS\<close>: \<open>UniStrncpy\<close> pads with null characters.\<close>

definition copyDBCS :: "store \<Rightarrow> ptr \<Rightarrow> ptr \<Rightarrow> nat \<Rightarrow> store option" where
  "copyDBCS h source target sz =
     (if 2 \<le> sz
      then do { us \<leftarrow> ustr h source;
                h \<leftarrow> blk_st h target (uni_bytes (take (sz div 2) (us @ replicate (sz div 2) 0)));
                blk_st h (padd target (2 * (sz div 2 - 1))) (uni_bytes [0]) }
      else Some h)"

text \<open>The second half: from Unicode to the target.\<close>

definition from_unicode :: "uconv \<Rightarrow> store \<Rightarrow> nat \<Rightarrow> 16 word list \<Rightarrow> ptr \<Rightarrow> nat \<Rightarrow> ptr \<Rightarrow> converted option" where
  "from_unicode u h cp_target us target sz target_bak =
     (case open_uconv u cp_target of
        (None, n) \<Rightarrow> Some (h, None, n)
      | (Some esid, n) \<Rightarrow>
          (case u_from u cp_target us (sz - 1) of (rc, xs) \<Rightarrow>
             do { h \<leftarrow> blk_st h target xs;
                  if rc = ULS_FAILED then Some (h, None, n - 1)
                  else do { h \<leftarrow> st h (padd target (length xs)) NUL; Some (h, Some target_bak, n - 1) } }))"

text \<open>The byte order mark of UTF-8, as the compiler's \<open>char\<close> compares.\<close>

definition skip_utf8_bom :: "uconv \<Rightarrow> nat \<Rightarrow> store \<Rightarrow> ptr \<Rightarrow> ptr option" where
  "skip_utf8_bom u cp h source =
     (if cp \<noteq> 1208 \<or> u_signed u then Some source
      else do { a \<leftarrow> ld h source;
                if a \<noteq> CHR 0xEF then Some source
                else do { b \<leftarrow> ld h (padd source 1);
                          if b \<noteq> CHR 0xBB then Some source
                          else do { c \<leftarrow> ld h (padd source 2);
                                    Some (if c = CHR 0xBF then padd source 3 else source) } } })"

text \<open>The conversion of \<open>bytesleft\<close> bytes of the source to Unicode, in place or in a buffer, and on.\<close>

definition via_unicode :: "uconv \<Rightarrow> store \<Rightarrow> nat \<Rightarrow> ptr \<Rightarrow> nat \<Rightarrow> nat \<Rightarrow> bool \<Rightarrow> nat \<Rightarrow> ptr \<Rightarrow> nat \<Rightarrow> ptr \<Rightarrow> converted option" where
  "via_unicode u h cp_source source src_chars bytesleft byteswap cp_target target sz target_bak =
     (if cp_target \<noteq> 1200 \<and> \<not> u_calloc u then Some (h, None, 0)
      else do {
        let cap = (if cp_target = 1200 then half_less sz else src_chars);
        bytes \<leftarrow> blk_ld h source bytesleft;
        let (rc, us) = u_to u cp_source bytes cap;
        h \<leftarrow> (if cp_target = 1200 then blk_st h target (uni_bytes us)
             else if length us \<le> src_chars + 1 then Some h else None);
        if rc = ULS_FAILED then Some (h, None, 0)
        else if cp_target = 1200 then
          do { h \<leftarrow> blk_st h (padd target (2 * ((sz div 2 + 2 ^ 32 - (cap - length us) - 1) mod 2 ^ 32))) (uni_bytes [0]);
               Some (h, Some target_bak, 0) }
        else
          (let buffer = us @ replicate (src_chars + 1 - length us) 0;
               buffer = (if byteswap then map swap16 (take src_chars buffer) @ drop src_chars buffer else buffer)
           in from_unicode u h cp_target (take src_chars buffer) target sz target_bak) })"

definition convert_source :: "uconv \<Rightarrow> store \<Rightarrow> nat \<Rightarrow> ptr \<Rightarrow> nat \<Rightarrow> nat \<Rightarrow> ptr \<Rightarrow> nat \<Rightarrow> ptr \<Rightarrow> converted option" where
  "convert_source u h cp_source source esid cp_target target sz target_bak =
     do { first \<leftarrow> (if cp_source = 1200 then ld16 h source else Some 0);
          if cp_source = 1200 \<and> first \<noteq> 0xFFFE then
            (let source = (if first = 0xFEFF then padd source 2 else source)
             in if cp_source = cp_target
                then do { h \<leftarrow> copyDBCS h source target sz; Some (h, Some target_bak, 0) }
                else do { us \<leftarrow> ustr h source; from_unicode u h cp_target us target sz target_bak })
          else if esid div 256 mod 16 = 2 then
            (let byteswap = (cp_source = 1200);
                 source = (if cp_source = 1200 then padd source 2 else source)
             in if cp_source = cp_target
                then do { h \<leftarrow> copyDBCS h source target sz; Some (h, Some target_bak, 1) }
                else do { us \<leftarrow> ustr h source;
                          via_unicode u h cp_source source (length us) (2 * length us) byteswap cp_target target sz target_bak })
          else
            do { source \<leftarrow> skip_utf8_bom u cp_source h source;
                 if cp_source = cp_target
                 then do { (h, _) \<leftarrow> strlcpy h target source sz; Some (h, Some target_bak, 0) }
                 else do { x \<leftarrow> cstr h source;
                           via_unicode u h cp_source source (length x) (length x) False cp_target target sz target_bak } } }"

definition ch_convert :: "uconv \<Rightarrow> store \<Rightarrow> nat \<Rightarrow> ptr \<Rightarrow> nat \<Rightarrow> ptr \<Rightarrow> nat \<Rightarrow> 32 word \<Rightarrow> converted option" where
  "ch_convert u h cp_source source cp_target target sz flags =
     (let cp_source = (if cp_source = CH_CP_NONE then ch_default u else cp_source);
          cp_target = (if cp_target = CH_CP_NONE then ch_default u else cp_target)
      in case open_uconv u cp_source of
           (None, n) \<Rightarrow> Some (h, None, n)
         | (Some esid, n) \<Rightarrow>
             if flags AND CH_FLAGS_WRITE_BOM \<noteq> 0 \<and> 4 \<le> sz
             then do { (h, t, sz) \<leftarrow> write_bom h cp_target target sz;
                       convert_source u h cp_source source esid cp_target t sz target }
             else if sz = 0 then Some (h, Some target, 0)
             else convert_source u h cp_source source esid cp_target target sz target)"

section \<open>Bytes of Unicode strings\<close>

lemma uni_bytes_simps [simp]:
  "uni_bytes [] = []" "uni_bytes (u # us) = [char_of (unat u mod 256), char_of (unat u div 256)] @ uni_bytes us"
  "uni_bytes (us @ vs) = uni_bytes us @ uni_bytes vs"
  by (simp_all add: uni_bytes_def unsigned_take_bit_eq unsigned_drop_bit_eq take_bit_eq_mod drop_bit_eq_div
      unat_mod_distrib unat_div_distrib)

lemma length_uni_bytes [simp]: "length (uni_bytes us) = 2 * length us"
  by (induction us) simp_all

lemma ld16_uni:
  assumes "bytes_at h p = uni_bytes [c] @ b"
  shows "ld16 h p = Some c"
proof -
  define x y where "x = (char_of (unat c mod 256) :: char)" and "y = (char_of (unat c div 256) :: char)"
  have p: "bytes_at h p = x # y # b" using assms by (simp add: x_def y_def)
  then have "bytes_at h (padd p 1) = y # b" by (simp add: bytes_at_padd)
  moreover have "unat c < 65536" using unsigned_less [of c] by simp
  then have e: "ccode x + 256 * ccode y = unat c" by (simp add: ccode_def x_def y_def)
  have "of_nat (ccode x) + 256 * of_nat (ccode y) = (of_nat (ccode x + 256 * ccode y) :: 16 word)" by simp
  then have "of_nat (ccode x) + 256 * of_nat (ccode y) = c" unfolding e by simp
  ultimately show ?thesis using p by (simp add: ld16_def ld_bytes_at)
qed

lemma ustr_uni:
  "bytes_at h p = uni_bytes (us @ 0 # vs) @ b \<Longrightarrow> ustr h p = Some (takeWhile (\<lambda>c. c \<noteq> 0) us)"
proof (induction us arbitrary: p)
  case Nil
  then have "ld16 h p = Some 0" by (intro ld16_uni [of _ _ _ "uni_bytes vs @ b"]) simp
  then show ?case by (subst ustr.simps) simp
next
  case (Cons c us)
  then have "ld16 h p = Some c" by (intro ld16_uni [of _ _ _ "uni_bytes (us @ 0 # vs) @ b"]) simp
  moreover have "bytes_at h (padd p 2) = uni_bytes (us @ 0 # vs) @ b"
    using Cons.prems by (simp add: bytes_at_padd)
  ultimately show ?case using Cons.IH by (subst ustr.simps) simp
qed

lemma ustr_tail: "ustr h p = Some us \<Longrightarrow> ld16 h p = Some c \<Longrightarrow> c \<noteq> 0 \<Longrightarrow> \<exists>vs. ustr h (padd p 2) = Some vs"
  by (subst (asm) ustr.simps) auto

lemma ustr_Cons: "ustr h p = Some (c # us) \<Longrightarrow> ld16 h p = Some c \<and> c \<noteq> 0 \<and> ustr h (padd p 2) = Some us"
  by (subst (asm) ustr.simps) (auto split: option.splits if_splits)

lemma ustr_no_zero: "ustr h p = Some us \<Longrightarrow> 0 \<notin> set us"
proof (induction us arbitrary: p)
  case (Cons c us)
  have "c \<noteq> 0" "ustr h (padd p 2) = Some us" using ustr_Cons [OF Cons.prems] by simp_all
  then show ?case using Cons.IH [of "padd p 2"] by simp
qed simp

lemma ustr_first: "ustr h p = Some us \<Longrightarrow> ld16 h p \<noteq> None"
  by (subst (asm) ustr.simps) (auto split: option.splits)

lemma ustr_fits: "ustr h p = Some us \<Longrightarrow> fits h p (2 * length us)"
proof (induction us arbitrary: p)
  case Nil
  then obtain c where "ld16 h p = Some c" using ustr_first [OF Nil] by auto
  then have "ld h p \<noteq> None" by (auto simp: ld16_def split: bind_splits)
  then show ?case by (cases p) (auto simp: fits_def split: if_splits)
next
  case (Cons c us)
  have "ustr h (padd p 2) = Some us" using ustr_Cons [OF Cons.prems] by simp
  from Cons.IH [OF this] have "2 * length us = 0 \<or> snd p + 2 + 2 * length us \<le> length (h (fst p))"
    by (simp add: fits_def)
  moreover have "ld h (padd p 1) \<noteq> None"
    using ustr_first [OF Cons.prems] by (auto simp: ld16_def split: bind_splits)
  then have "snd p + 2 \<le> length (h (fst p))"
    by (cases p) (auto split: if_splits)
  ultimately show ?case by (auto simp: fits_def)
qed

section \<open>The second half writes inside the target\<close>

definition uconv_ok :: "uconv \<Rightarrow> bool" where
  "uconv_ok u \<longleftrightarrow>
     (\<forall>cp bs cap. length (snd (u_to u cp bs cap)) \<le> cap) \<and> (\<forall>cp us cap. length (snd (u_from u cp us cap)) \<le> cap)
     \<and> (\<forall>esid. u_query u 1200 = Some esid \<longrightarrow> esid div 256 mod 16 = 2)
     \<and> (\<forall>esid. u_query u 1208 = Some esid \<longrightarrow> esid div 256 mod 16 \<noteq> 2)"

text \<open>A conversion has written at most \<open>sz\<close> bytes from \<open>t\<close> on, with property \<open>P\<close> when it returns a
  pointer.\<close>

definition stays :: "store \<Rightarrow> ptr \<Rightarrow> nat \<Rightarrow> ptr \<Rightarrow> (string \<Rightarrow> bool) \<Rightarrow> (nat \<Rightarrow> bool) \<Rightarrow> converted option \<Rightarrow> bool" where
  "stays h t sz bak P L c \<longleftrightarrow>
     (\<exists>xs r n. c = Some (put h t xs, r, n) \<and> length xs \<le> sz \<and> (r = None \<or> r = Some bak \<and> P xs) \<and> L n)"

lemma staysI:
  "length xs \<le> sz \<Longrightarrow> r = None \<or> r = Some bak \<and> P xs \<Longrightarrow> L n \<Longrightarrow> stays h t sz bak P L (Some (put h t xs, r, n))"
  by (auto simp: stays_def)

lemma stays_nothing: "c = Some (h, None, n) \<Longrightarrow> L n \<Longrightarrow> stays h t sz bak P L c"
  by (auto simp: stays_def intro!: exI [of _ "[]"])

definition zero_ended :: "string \<Rightarrow> bool" where
  "zero_ended xs \<longleftrightarrow> (\<exists>us. xs = uni_bytes (us @ [0]))"

lemma zero_ended_Cons: "zero_ended xs \<Longrightarrow> zero_ended (uni_bytes [c] @ xs)"
  unfolding zero_ended_def by (metis append_Cons append_Nil uni_bytes_simps(3))

lemma copyDBCS_put:
  assumes "ustr h source = Some us" and "fits h target sz" and "2 \<le> sz"
  shows "copyDBCS h source target sz
    = Some (put h target (uni_bytes (take (sz div 2 - 1) (us @ replicate (sz div 2) 0) @ [0])))"
proof -
  obtain m where m: "sz div 2 = Suc m" using assms(3) by (cases "sz div 2") auto
  let ?v = "us @ replicate (sz div 2) 0"
  define w c where "w = take m ?v" and "c = ?v ! m"
  have l: "length w = m" using m by (simp add: w_def)
  have v: "take (Suc m) ?v = w @ [c]"
    unfolding w_def c_def using m by (intro take_Suc_conv_app_nth) simp
  have f: "fits h target (2 * Suc m)" by (rule fits_mono [OF assms(2)]) (use m in presburger)
  have f1: "fits h target (length (uni_bytes w) + length (uni_bytes [0]))"
    and fw: "fits h target (length (uni_bytes w))"
    using f l by (auto elim: fits_mono)
  let ?h = "put h target (uni_bytes (w @ [c]))"
  have b1: "blk_st h target (uni_bytes (take (Suc m) ?v)) = Some ?h"
    unfolding v using f l by (intro blk_st_put) simp
  have h1: "?h = put (put h target (uni_bytes w)) (padd target (2 * m)) (uni_bytes [c])"
    using put_append [of h target "uni_bytes w" "uni_bytes [c]"] f1 l by simp
  have fz: "fits (put h target (uni_bytes w)) (padd target (2 * m)) (Suc (Suc 0))"
    using fits_padd [of h target "2 * m" "Suc (Suc 0)"] f fw by simp
  have "blk_st ?h (padd target (2 * m)) (uni_bytes [0]) = Some (put ?h (padd target (2 * m)) (uni_bytes [0]))"
    unfolding h1 using fz by (intro blk_st_put) simp
  also have "put ?h (padd target (2 * m)) (uni_bytes [0])
      = put (put h target (uni_bytes w)) (padd target (2 * m)) (uni_bytes [0])"
    unfolding h1 using fz by (intro put_overwrite) simp_all
  also have "\<dots> = put h target (uni_bytes (w @ [0]))"
    using put_append [of h target "uni_bytes w" "uni_bytes [0]"] f1 l by simp
  finally show ?thesis
    using assms(1,3) m b1 unfolding copyDBCS_def w_def by simp
qed

lemma from_unicode_stays:
  assumes "uconv_ok u" and "fits h target sz" and "1 \<le> sz"
  shows "stays h target sz bak (\<lambda>xs. NUL \<in> set xs) (\<lambda>n. n = 0) (from_unicode u h cp us target sz bak)"
proof (cases "fst (open_uconv u cp)")
  case None
  then have "from_unicode u h cp us target sz bak = Some (put h target [], None, 0)"
    by (auto simp: from_unicode_def open_uconv_def split: if_splits option.splits)
  then show ?thesis by (auto simp: stays_def intro!: exI [of _ "[]"])
next
  case (Some esid)
  then have o: "open_uconv u cp = (Some esid, 1)"
    by (auto simp: open_uconv_def split: if_splits option.splits)
  obtain rc xs where rc: "u_from u cp us (sz - 1) = (rc, xs)" by fastforce
  have l: "length xs \<le> sz - 1" using assms(1) rc unfolding uconv_ok_def by (metis snd_conv)
  have f: "fits h target (Suc (length xs))" by (rule fits_mono [OF assms(2)]) (use l assms(3) in simp)
  have b: "blk_st h target xs = Some (put h target xs)"
    by (rule blk_st_put) (rule fits_mono [OF f], simp)
  have "from_unicode u h cp us target sz bak
      = (if rc = ULS_FAILED then Some (put h target xs, None, 0) else Some (put h target (xs @ [NUL]), Some bak, 0))"
    using o rc b st_put_snoc [OF f, of NUL] by (simp add: from_unicode_def)
  then show ?thesis using l assms(3) by (auto intro!: staysI)
qed

lemma half_less_eq: "2 \<le> sz \<Longrightarrow> sz < 2 ^ 32 \<Longrightarrow> half_less sz = sz div 2 - 1"
proof -
  assume a: "2 \<le> sz" "sz < 2 ^ 32"
  then obtain m where m: "sz div 2 = Suc m" by (cases "sz div 2") auto
  moreover have "m < 2 ^ 32" using a m by simp
  ultimately show ?thesis by (simp add: half_less_def)
qed

definition terminated :: "nat \<Rightarrow> string \<Rightarrow> bool" where
  "terminated cp xs \<longleftrightarrow> (if cp = 1200 then zero_ended xs else NUL \<in> set xs)"

lemma via_unicode_stays:
  assumes "uconv_ok u" and "fits h target sz" and "1 \<le> sz" and "cp_target = 1200 \<Longrightarrow> 2 \<le> sz" and "sz < 2 ^ 32"
    and "fits h source bytesleft"
  shows "stays h target sz bak (terminated cp_target) (\<lambda>n. n = 0)
    (via_unicode u h cp_source source src_chars bytesleft byteswap cp_target target sz bak)"
proof -
  obtain bytes where bytes: "blk_ld h source bytesleft = Some bytes"
    using assms(6) by (simp add: blk_ld_def fits_def)
  define cap where "cap = (if cp_target = 1200 then half_less sz else src_chars)"
  obtain rc us where rc: "u_to u cp_source bytes cap = (rc, us)" by fastforce
  have l: "length us \<le> cap" using assms(1) rc unfolding uconv_ok_def by (metis snd_conv)
  show ?thesis
  proof (cases "cp_target = 1200")
    case True
    have sz: "2 \<le> sz" using assms(4) True by simp
    have cap: "cap = sz div 2 - 1" using True half_less_eq [OF sz assms(5)] by (simp add: cap_def)
    let ?x = "uni_bytes us"
    have le: "2 * length us + 2 \<le> sz" using l cap sz by linarith
    have f: "fits h target (length ?x + length (uni_bytes [0]))" and f1: "fits h target (length ?x)"
      using assms(2) le by (auto elim!: fits_mono)
    have b: "blk_st h target ?x = Some (put h target ?x)" by (rule blk_st_put [OF f1])
    have idx: "(sz div 2 + 2 ^ 32 - (cap - length us) - 1) mod 2 ^ 32 = length us"
    proof -
      obtain m where m: "sz div 2 = Suc m" using sz by (cases "sz div 2") auto
      have "sz div 2 + 2 ^ 32 - (cap - length us) - 1 = length us + 2 ^ 32"
        using m l cap by simp
      then show ?thesis using le assms(5) by simp
    qed
    have "fits (put h target ?x) (padd target (2 * length us)) (length (uni_bytes [0]))"
      using fits_padd [of h target "length ?x" "length (uni_bytes [0])"] f f1 by simp
    then have "blk_st (put h target ?x) (padd target (2 * length us)) (uni_bytes [0])
        = Some (put (put h target ?x) (padd target (length ?x)) (uni_bytes [0]))"
      by (subst blk_st_put) simp_all
    also have "put (put h target ?x) (padd target (length ?x)) (uni_bytes [0]) = put h target (uni_bytes (us @ [0]))"
      using put_append [OF f] by simp
    finally have z: "blk_st (put h target ?x) (padd target (2 * length us)) (uni_bytes [0])
        = Some (put h target (uni_bytes (us @ [0])))" .
    have "via_unicode u h cp_source source src_chars bytesleft byteswap cp_target target sz bak
        = (if rc = ULS_FAILED then Some (put h target ?x, None, 0)
           else Some (put h target (uni_bytes (us @ [0])), Some bak, 0))"
      using True bytes rc b z idx unfolding via_unicode_def cap_def by (simp del: uni_bytes_simps)
    then show ?thesis
      using True le by (auto simp: terminated_def zero_ended_def simp del: uni_bytes_simps intro!: staysI)
  next
    case False
    have k: "length us \<le> src_chars + 1" using l False by (simp add: cap_def)
    show ?thesis
    proof (cases "u_calloc u \<and> rc \<noteq> ULS_FAILED")
      case True
      define vs where "vs = take src_chars (let buffer = us @ replicate (src_chars + 1 - length us) 0
        in if byteswap then map swap16 (take src_chars buffer) @ drop src_chars buffer else buffer)"
      have "via_unicode u h cp_source source src_chars bytesleft byteswap cp_target target sz bak
          = from_unicode u h cp_target vs target sz bak"
        using False True bytes rc k by (simp add: via_unicode_def cap_def vs_def Let_def)
      then show ?thesis
        using from_unicode_stays [OF assms(1-3)] False unfolding terminated_def by simp
    next
      case False
      then have e: "via_unicode u h cp_source source src_chars bytesleft byteswap cp_target target sz bak = Some (h, None, 0)"
        using \<open>cp_target \<noteq> 1200\<close> bytes rc k by (auto simp: via_unicode_def cap_def)
      show ?thesis by (rule stays_nothing [OF e]) simp
    qed
  qed
qed

text \<open>What of a source string is converted: a UTF-8 byte order mark is skipped, where \<open>char\<close> is unsigned.\<close>

definition without_bom :: "uconv \<Rightarrow> nat \<Rightarrow> string \<Rightarrow> string" where
  "without_bom u cp x =
     (if cp = 1208 \<and> \<not> u_signed u \<and> take 3 x = [CHR 0xEF, CHR 0xBB, CHR 0xBF] then drop 3 x else x)"

lemma skip_utf8_bom_drop:
  assumes "cstr h source = Some x"
  shows "\<exists>k \<le> length x. skip_utf8_bom u cp h source = Some (padd source k) \<and> drop k x = without_bom u cp x"
proof (cases "cp = 1208 \<and> \<not> u_signed u")
  case False
  then show ?thesis by (auto simp: skip_utf8_bom_def without_bom_def intro!: exI [of _ 0])
next
  case True
  have at: "ld h (padd source k) = Some (deref (drop k x))" if "k \<le> length x" for k
    using cstr_ld [OF cstr_padd [OF assms that]] by (auto split: list.splits)
  have at0: "ld h source = Some (deref x)" using at [of 0] by simp
  show ?thesis
  proof (cases "\<exists>y. x = CHR 0xEF # CHR 0xBB # y")
    case bom: True
    then obtain y where x: "x = CHR 0xEF # CHR 0xBB # y" by blast
    have "ld h (padd source 1) = Some (CHR 0xBB)" "ld h (padd source 2) = Some (deref y)"
      using at [of 1] at [of 2] x by simp_all
    then show ?thesis
      using True at0 x
      by (cases y) (auto simp: skip_utf8_bom_def without_bom_def numeral_3_eq_3 intro: exI [of _ 0] exI [of _ 3])
  next
    case no: False
    then have "take 3 x \<noteq> [CHR 0xEF, CHR 0xBB, CHR 0xBF]"
      by (cases x; cases "tl x") (auto simp: numeral_3_eq_3)
    moreover have "skip_utf8_bom u cp h source = Some source"
      using True at0 at [of 1] no by (cases x; cases "tl x") (auto simp: skip_utf8_bom_def)
    ultimately show ?thesis by (auto simp: without_bom_def intro!: exI [of _ 0])
  qed
qed

section \<open>The whole conversion\<close>

abbreviation dbcs :: "nat \<Rightarrow> bool" where "dbcs esid \<equiv> esid div 256 mod 16 = 2"

text \<open>The source string has its terminator, of the size its code page uses.\<close>

definition readable :: "store \<Rightarrow> nat \<Rightarrow> nat \<Rightarrow> ptr \<Rightarrow> bool" where
  "readable h cp esid source \<longleftrightarrow>
     (if cp = 1200 \<or> dbcs esid then ustr h source \<noteq> None else cstr h source \<noteq> None)"

definition ended :: "nat \<Rightarrow> nat \<Rightarrow> nat \<Rightarrow> string \<Rightarrow> bool" where
  "ended cp_source esid cp_target xs \<longleftrightarrow>
     (if cp_target = 1200 \<or> cp_source = cp_target \<and> dbcs esid then zero_ended xs else NUL \<in> set xs)"

text \<open>A wide string is copied unconverted by the jump to \<open>copyDBCS\<close> or, when it is UCS-2 in the native byte order,
  in place. Behind the jump the conversion object is never freed.\<close>

definition copied :: "nat \<Rightarrow> nat \<Rightarrow> nat \<Rightarrow> bool" where
  "copied cp_source esid cp_target \<longleftrightarrow> cp_source = cp_target \<and> dbcs esid"

definition leaked :: "store \<Rightarrow> ptr \<Rightarrow> nat \<Rightarrow> nat \<Rightarrow> nat \<Rightarrow> nat" where
  "leaked h source cp_source esid cp_target =
     (if copied cp_source esid cp_target \<and> (cp_source = 1200 \<longrightarrow> ld16 h source = Some 0xFFFE) then 1 else 0)"

lemma ld16_put_other: "fst p \<noteq> fst target \<Longrightarrow> ld16 (put h target b) p = ld16 h p"
proof -
  assume "fst p \<noteq> fst target"
  then have "ld (put h target b) (padd p k) = ld h (padd p k)" for k
    by (simp add: ld_bytes_at bytes_at_put_other)
  from this [of 0] this [of 1] show ?thesis by (simp add: ld16_def)
qed

lemma leaked_put: "fst source \<noteq> fst target \<Longrightarrow> leaked (put h target b) source s esid t = leaked h source s esid t"
  by (simp add: leaked_def ld16_put_other)

lemma stays_mono:
  "stays h t sz bak P L c \<Longrightarrow> (\<And>xs. P xs \<Longrightarrow> P' xs) \<Longrightarrow> (\<And>n. L n \<Longrightarrow> L' n) \<Longrightarrow> stays h t sz bak P' L' c"
  unfolding stays_def by blast

lemma copyDBCS_stays:
  assumes "ustr h source = Some us" and "fits h target sz" and "2 \<le> sz" and "L n"
  shows "stays h target sz bak zero_ended L (do { h \<leftarrow> copyDBCS h source target sz; Some (h, Some bak, n) })"
proof -
  let ?v = "take (sz div 2 - 1) (us @ replicate (sz div 2) 0)"
  have l: "length (uni_bytes (?v @ [0])) \<le> sz" using assms(3) by (simp add: min_def) presburger
  have "zero_ended (uni_bytes (?v @ [0]))" unfolding zero_ended_def by blast
  then have "stays h target sz bak zero_ended L (Some (put h target (uni_bytes (?v @ [0])), Some bak, n))"
    using l assms(4) by (intro staysI) simp_all
  then show ?thesis unfolding copyDBCS_put [OF assms(1-3)] by simp
qed

lemma convert_source_stays:
  assumes "uconv_ok u" and "readable h cp_source esid source" and "fits h target sz" and "2 \<le> sz \<or> 1 \<le> sz \<and> cp_target \<noteq> 1200 \<and> \<not> (cp_source = cp_target \<and> dbcs esid)"
    and "sz < 2 ^ 32" and "fst source \<noteq> fst target" and "cp_source = 1200 \<Longrightarrow> dbcs esid"
  shows "stays h target sz bak (ended cp_source esid cp_target) (\<lambda>n. n = leaked h source cp_source esid cp_target)
    (convert_source u h cp_source source esid cp_target target sz bak)"
proof -
  have one: "1 \<le> sz" using assms(4) by auto
  have viaP: "stays h target sz bak (ended cp_source esid cp_target) (\<lambda>n. n = leaked h source cp_source esid cp_target)
      (via_unicode u h cp_source s n k bs cp_target target sz bak)" if "fits h s k" and "cp_source \<noteq> cp_target" for s n k bs
    by (rule stays_mono [OF via_unicode_stays [OF assms(1,3) one _ assms(5) that(1)]])
      (use assms(4) that(2) in \<open>auto simp: ended_def terminated_def leaked_def copied_def\<close>)
  show ?thesis
  proof (cases "cp_source = 1200 \<or> dbcs esid")
    case False
    then obtain x where x: "cstr h source = Some x" using assms(2) by (auto simp: readable_def)
    obtain k where k: "k \<le> length x" "skip_utf8_bom u cp_source h source = Some (padd source k)"
      using skip_utf8_bom_drop [OF x] by blast
    let ?s = "padd source k" and ?y = "drop k x"
    have y: "cstr h ?s = Some ?y" by (rule cstr_padd [OF x k(1)])
    show ?thesis
    proof (cases "cp_source = cp_target")
      case True
      have "fits h target (min sz (Suc (length ?y)))" by (rule fits_mono [OF assms(3)]) simp
      then obtain r where "strlcpy h target ?s sz = Some (put h target (take (sz - 1) ?y @ [NUL]), r)"
        using strlcpy_put [OF y, of target sz] assms(6) one by (auto simp: upward_def)
      then have "convert_source u h cp_source source esid cp_target target sz bak
          = Some (put h target (take (sz - 1) ?y @ [NUL]), Some bak, 0)"
        using False True k(2) by (simp add: convert_source_def)
      then show ?thesis
        using one False True by (auto simp: ended_def leaked_def copied_def intro!: staysI)
    next
      case diff: False
      have "convert_source u h cp_source source esid cp_target target sz bak
          = via_unicode u h cp_source ?s (length ?y) (length ?y) False cp_target target sz bak"
        using False diff k(2) y by (simp add: convert_source_def)
      moreover have "fits h ?s (length ?y)" by (rule fits_mono [OF cstr_fits [OF y]]) simp
      ultimately show ?thesis using viaP diff by simp
    qed
  next
    case True
    then have d: "dbcs esid" using assms(7) by blast
    obtain us where us: "ustr h source = Some us" using True assms(2) by (auto simp: readable_def)
    obtain c where c: "ld16 h source = Some c" using ustr_first [OF us] by auto
    define s where "s = (if cp_source = 1200 \<and> (c = 0xFEFF \<or> c = 0xFFFE) then padd source 2 else source)"
    have "\<exists>vs. ustr h s = Some vs"
      using us ustr_tail [OF us c] by (cases "c = 0") (auto simp: s_def)
    then obtain vs where vs: "ustr h s = Some vs" by blast
    show ?thesis
    proof (cases "cp_source = cp_target")
      case same: True
      have two: "2 \<le> sz" using assms(4) d same by blast
      define n where "n = (if cp_source = 1200 \<and> c \<noteq> 0xFFFE then 0 else 1 :: nat)"
      have "convert_source u h cp_source source esid cp_target target sz bak
          = (do { h \<leftarrow> copyDBCS h s target sz; Some (h, Some bak, n) })"
        using True d same c by (auto simp: convert_source_def s_def n_def)
      moreover have "n = leaked h source cp_source esid cp_target" using same d c by (auto simp: leaked_def copied_def n_def)
      moreover have "ended cp_source esid cp_target = zero_ended" using same d by (auto simp: ended_def fun_eq_iff)
      ultimately show ?thesis
        using copyDBCS_stays [OF vs assms(3) two, of "\<lambda>m. m = n" n bak] by (simp only:)
    next
      case diff: False
      show ?thesis
      proof (cases "cp_source = 1200 \<and> c \<noteq> 0xFFFE")
        case True
        then have "convert_source u h cp_source source esid cp_target target sz bak
            = from_unicode u h cp_target vs target sz bak"
          using diff c vs by (auto simp: convert_source_def s_def)
        then show ?thesis
          using stays_mono [OF from_unicode_stays [OF assms(1,3) one]] diff True
          by (auto simp: ended_def leaked_def copied_def)
      next
        case False
        then have "convert_source u h cp_source source esid cp_target target sz bak
            = via_unicode u h cp_source s (length vs) (2 * length vs) (cp_source = 1200) cp_target target sz bak"
          using diff c vs d by (auto simp: convert_source_def s_def)
        then show ?thesis using viaP [OF ustr_fits [OF vs] diff] by simp
      qed
    qed
  qed
qed

lemma put_front_stays:
  assumes "stays (put h t b) (padd t (length b)) sz bak P L c" and "fits h t (length b + sz)"
    and "\<And>xs. P xs \<Longrightarrow> P (b @ xs)"
  shows "stays h t (length b + sz) bak P L c"
proof -
  obtain xs r n where c: "c = Some (put (put h t b) (padd t (length b)) xs, r, n)" "length xs \<le> sz"
    "r = None \<or> r = Some bak \<and> P xs" "L n"
    using assms(1) by (auto simp: stays_def)
  have "fits h t (length b + length xs)" by (rule fits_mono [OF assms(2)]) (use c(2) in simp)
  from put_append [OF this] show ?thesis
    using c assms(3) by (auto simp: stays_def)
qed

lemma readable_put:
  assumes "readable h cp esid source" and "fst source \<noteq> fst target"
  shows "readable (put h target b) cp esid source"
proof -
  have e: "bytes_at (put h target b) (padd source k) = bytes_at h (padd source k)" for k
    using assms(2) by (intro bytes_at_put_other) simp
  have l: "ld (put h target b) (padd source k) = ld h (padd source k)" for k
    unfolding ld_bytes_at e ..
  have "ustr (put h target b) p = ustr h p" if "fst p = fst source" for p
    using that
  proof (induction h p rule: ustr.induct)
    case (1 h p)
    have "ld (put h target b) q = ld h q" if "fst q = fst source" for q
      using assms(2) that by (simp add: ld_bytes_at bytes_at_put_other)
    then have "ld16 (put h target b) p = ld16 h p" using 1(2) by (simp add: ld16_def)
    then show ?case
      using 1 by (subst (1 2) ustr.simps) (auto split: option.splits)
  qed
  then have "ustr (put h target b) source = ustr h source" by simp
  moreover have "cstr (put h target b) source = cstr h source"
    using e [of 0] by (intro cstr_cong) simp
  ultimately show ?thesis using assms(1) by (simp add: readable_def)
qed

text \<open>A target of one byte: a copy of a wide string leaves it alone; a conversion to UCS-2 writes at least two bytes.\<close>

lemma convert_source_one:
  assumes "uconv_ok u" and "readable h s esid source" and "copied s esid t"
  shows "convert_source u h s source esid t target 1 bak = Some (h, Some bak, leaked h source s esid t)"
proof -
  have d: "dbcs esid" and st: "s = t" using assms(3) by (auto simp: copied_def)
  then obtain us where us: "ustr h source = Some us" using assms(2) by (auto simp: readable_def)
  obtain c where c: "ld16 h source = Some c" using ustr_first [OF us] by auto
  show ?thesis using c d st by (auto simp: convert_source_def copyDBCS_def leaked_def copied_def)
qed

lemma blk_st_fits: "blk_st h p xs = Some h' \<Longrightarrow> fits h p (length xs)"
  by (auto simp: blk_st_def fits_def split: if_splits)

lemma via_unicode_one:
  assumes "\<not> fits h target 2" and "length (snd (u_to u cp_source x 0xFFFFFFFF)) \<le> 0xFFFFFFFF"
    and "blk_ld h source bytesleft = Some x"
  shows "via_unicode u h cp_source source src_chars bytesleft byteswap 1200 target 1 bak \<noteq> Some (h', Some bak', n)"
proof
  assume v: "via_unicode u h cp_source source src_chars bytesleft byteswap 1200 target 1 bak = Some (h', Some bak', n)"
  have hl: "half_less 1 = 0xFFFFFFFF" by (simp add: half_less_def)
  obtain rc us where rc: "u_to u cp_source x 0xFFFFFFFF = (rc, us)" by fastforce
  obtain h1 where b: "blk_st h target (uni_bytes us) = Some h1"
    using v assms(3) rc hl by (auto simp: via_unicode_def split: bind_splits if_splits)
  from blk_st_fits [OF b] have "fits h target (2 * length us)" by simp
  then have e: "us = []" using assms(1) fits_mono [of h target "2 * length us" 2] by (cases us) auto
  have h1: "h1 = h" using b e by (auto simp: blk_st_def put_def fun_eq_iff split: if_splits)
  have "\<exists>h2. blk_st h target (uni_bytes [0]) = Some h2"
    using v assms(3) rc hl b e h1 by (auto simp: via_unicode_def split: bind_splits if_splits)
  then obtain h2 where "blk_st h target (uni_bytes [0]) = Some h2" by blast
  from blk_st_fits [OF this] show False using assms(1) by (simp add: numeral_2_eq_2)
qed


section \<open>What the conversion stores\<close>

text \<open>The documented behaviour of \<open>UniUconvFromUcs\<close>: it converts whole characters as long as they fit.\<close>

definition encodes :: "uconv \<Rightarrow> nat \<Rightarrow> (16 word \<Rightarrow> string) \<Rightarrow> bool" where
  "encodes u cp enc \<longleftrightarrow>
     (\<forall>us cap. \<exists>k \<le> length us. u_from u cp us cap
          = (if k = length us then ULS_SUCCESS else ULS_BUFFERFULL, concat (map enc (take k us)))
        \<and> length (concat (map enc (take k us))) \<le> cap
        \<and> (k < length us \<longrightarrow> cap < length (concat (map enc (take (Suc k) us)))))
     \<and> enc 0 = [NUL] \<and> (\<forall>c. c \<noteq> 0 \<longrightarrow> NUL \<notin> set (enc c))"

lemma concat_enc_zeros: "enc 0 = [NUL] \<Longrightarrow> concat (map enc (replicate n 0)) = replicate n NUL"
  by (induction n) simp_all

lemma cstr_put_prefix:
  assumes "fits h p (length (x @ NUL # y))" and "NUL \<notin> set x"
  shows "cstr (put h p (x @ NUL # y)) p = Some x"
proof -
  have "bytes_at (put h p (x @ NUL # y)) p = (x @ NUL # y) @ drop (length (x @ NUL # y)) (bytes_at h p)"
    using assms(1) by (rule bytes_at_put_same)
  then show ?thesis using assms(2) by (auto simp: cstr_Some_iff)
qed

text \<open>Unicode characters padded with null characters, as the temporary buffer holds them.\<close>

lemma from_unicode_text:
  assumes "encodes u cp enc" and "0 \<notin> set us" and "fits h target sz" and "1 \<le> sz"
    and "fst (open_uconv u cp) \<noteq> None"
  shows "\<exists>h' k. k \<le> length us \<and> from_unicode u h cp (us @ replicate m 0) target sz bak = Some (h', Some bak, 0)
    \<and> cstr h' target = Some (concat (map enc (take k us))) \<and> length (concat (map enc (take k us))) < sz
    \<and> (k < length us \<longrightarrow> sz \<le> length (concat (map enc (take (Suc k) us))))
    \<and> (\<forall>ob. ob \<noteq> fst target \<longrightarrow> h' ob = h ob)"
proof -
  obtain esid where o: "open_uconv u cp = (Some esid, 1)"
    using assms(5) by (auto simp: open_uconv_def split: if_splits option.splits)
  let ?vs = "us @ replicate m 0"
  obtain k where k: "k \<le> length ?vs"
    "u_from u cp ?vs (sz - 1) = (if k = length ?vs then ULS_SUCCESS else ULS_BUFFERFULL, concat (map enc (take k ?vs)))"
    "length (concat (map enc (take k ?vs))) \<le> sz - 1"
    "k < length ?vs \<Longrightarrow> sz - 1 < length (concat (map enc (take (Suc k) ?vs)))"
    using assms(1) unfolding encodes_def by meson
  have e0: "enc 0 = [NUL]" using assms(1) by (simp add: encodes_def)
  let ?k = "min k (length us)"
  let ?x = "concat (map enc (take ?k us))"
  have t: "concat (map enc (take k ?vs)) = ?x @ replicate (min m (k - length us)) NUL"
  proof -
    have "take k ?vs = take ?k us @ replicate (min m (k - length us)) 0"
      by (cases "k \<le> length us") (simp_all add: min.commute)
    then show ?thesis using concat_enc_zeros [of enc, OF e0] by simp
  qed
  have xs: "concat (map enc (take k ?vs)) @ [NUL] = ?x @ NUL # replicate (min m (k - length us)) NUL"
    unfolding t by (simp add: replicate_append_same)
  have enc: "c \<in> set us \<Longrightarrow> NUL \<notin> set (enc c)" for c
    using assms(1,2) by (cases "c = 0") (auto simp: encodes_def)
  have N: "NUL \<notin> set ?x" using enc by (auto dest: in_set_takeD)
  have f: "fits h target (Suc (length (concat (map enc (take k ?vs)))))"
    by (rule fits_mono [OF assms(3)]) (use k(3) assms(4) in simp)
  have f': "fits h target (length (?x @ NUL # replicate (min m (k - length us)) NUL))"
    using f unfolding xs [symmetric] by simp
  let ?h = "put h target (concat (map enc (take k ?vs)) @ [NUL])"
  have "from_unicode u h cp ?vs target sz bak = Some (?h, Some bak, 0)"
    using o k(2) blk_st_put [OF fits_mono [OF f]] st_put_snoc [OF f, of NUL]
    unfolding from_unicode_def by (simp del: take_append map_append concat_append)
  moreover have "cstr ?h target = Some ?x"
    unfolding xs using f' N by (rule cstr_put_prefix)
  moreover have "length ?x < sz" using k(3) assms(4) unfolding t by simp
  moreover have "?k < length us \<longrightarrow> sz \<le> length (concat (map enc (take (Suc ?k) us)))"
    using k(4) by (auto simp: min_def not_le)
  moreover have "\<forall>ob. ob \<noteq> fst target \<longrightarrow> ?h ob = h ob" by simp
  ultimately show ?thesis by (intro exI [of _ ?h] exI [of _ ?k]) simp
qed

text \<open>C20: between two different byte code pages, when the source converts to the characters \<open>us\<close>,
  \<open>ch_convert\<close> stores their encoding in the target code page, all of it when it is shorter than the
  size and otherwise the longest run of whole characters, terminated.\<close>

theorem ch_convert_text:
  assumes "fst (open_uconv u cs) = Some esid" and "\<not> dbcs esid" and "cs \<noteq> 1200" and "cs \<noteq> CH_CP_NONE"
    and "fst (open_uconv u ct) \<noteq> None" and "ct \<noteq> 1200" and "ct \<noteq> CH_CP_NONE" and "cs \<noteq> ct" and "u_calloc u"
    and "cstr h source = Some x" and "fst source \<noteq> fst target"
    and "u_to u cs (without_bom u cs x) (length (without_bom u cs x)) = (ULS_SUCCESS, us)"
    and "length us \<le> length (without_bom u cs x)" and "0 \<notin> set us" and "encodes u ct enc"
    and "fits h target sz" and "1 \<le> sz" and "flags AND CH_FLAGS_WRITE_BOM = 0"
  shows "\<exists>h' k. k \<le> length us \<and> ch_convert u h cs source ct target sz flags = Some (h', Some target, 0)
    \<and> cstr h' target = Some (concat (map enc (take k us))) \<and> length (concat (map enc (take k us))) < sz
    \<and> (k < length us \<longrightarrow> sz \<le> length (concat (map enc (take (Suc k) us))))
    \<and> (\<forall>ob. ob \<noteq> fst target \<longrightarrow> h' ob = h ob)"
proof -
  let ?y = "without_bom u cs x"
  obtain k where k: "k \<le> length x" "skip_utf8_bom u cs h source = Some (padd source k)" "drop k x = ?y"
    using skip_utf8_bom_drop [OF assms(10)] by blast
  have y: "cstr h (padd source k) = Some ?y" using cstr_padd [OF assms(10) k(1)] k(3) by simp
  have b: "blk_ld h (padd source k) (length ?y) = Some ?y"
    using y cstr_fits [OF y] by (auto simp: cstr_Some_iff blk_ld_def fits_def)
  have o: "open_uconv u cs = (Some esid, 1)"
    using assms(1) by (auto simp: open_uconv_def split: if_splits option.splits)
  define m where "m = length ?y - length us"
  have buf: "take (length ?y) (us @ replicate (length ?y + 1 - length us) 0) = us @ replicate m 0"
    using assms(13) by (simp add: m_def min_def)
  have "ch_convert u h cs source ct target sz flags = convert_source u h cs source esid ct target sz target"
    using o assms(4,7,17,18) by (simp add: ch_convert_def Let_def)
  also have "\<dots> = via_unicode u h cs (padd source k) (length ?y) (length ?y) False ct target sz target"
    using assms(2,3,8) k(2) y by (simp add: convert_source_def)
  also have "\<dots> = from_unicode u h ct (us @ replicate m 0) target sz target"
    unfolding buf [symmetric] using assms(6,9,12,13) b by (simp add: via_unicode_def Let_def)
  finally have "ch_convert u h cs source ct target sz flags = from_unicode u h ct (us @ replicate m 0) target sz target" .
  then show ?thesis
    using from_unicode_text [OF assms(15,14,16,17,5), of m target] by simp
qed

section \<open>What is detected\<close>

definition usable :: "uconv \<Rightarrow> string \<Rightarrow> nat \<Rightarrow> bool" where
  "usable u source cp \<longleftrightarrow> u_map u cp \<and> u_create u cp \<and> fst (u_to u cp source 2000) \<noteq> ULS_FAILED"

definition rating :: "uconv \<Rightarrow> string \<Rightarrow> nat \<Rightarrow> int" where
  "rating u source cp = string_value u (snd (u_to u cp source 2000))"

text \<open>The winner among the code pages tried so far.\<close>

definition winner_of :: "(nat \<Rightarrow> bool) \<Rightarrow> (nat \<Rightarrow> int) \<Rightarrow> nat set \<Rightarrow> winner \<Rightarrow> bool" where
  "winner_of U R D w \<longleftrightarrow>
     finite D \<and> n_distinct w = card D \<and> 0 \<le> max_value w \<and> (\<forall>c \<in> D. U c \<longrightarrow> R c \<le> max_value w)
     \<and> (max_value w = 0 \<longrightarrow> max_cp w = CH_CP_NONE)
     \<and> (0 < max_value w \<longrightarrow> max_cp w \<in> D \<and> U (max_cp w) \<and> R (max_cp w) = max_value w
          \<and> max_count w = card {c \<in> D. U c \<and> R c = max_value w})"

lemma winner_of_update:
  assumes "winner_of U R D w" and "cp \<notin> D"
  shows "winner_of U R (insert cp D)
    (if U cp then update_winner cp (R cp) (w\<lparr>n_distinct := n_distinct w + 1\<rparr>)
     else w\<lparr>n_distinct := n_distinct w + 1\<rparr>)"
proof -
  have w: "finite D" "n_distinct w = card D" "0 \<le> max_value w" "\<And>c. c \<in> D \<Longrightarrow> U c \<Longrightarrow> R c \<le> max_value w"
    using assms(1) by (auto simp: winner_of_def)
  let ?S = "\<lambda>D v. {c \<in> D. U c \<and> R c = v}"
  consider "\<not> U cp" | "U cp" "max_value w < R cp" | "U cp" "R cp = max_value w"
    | "U cp" "R cp < max_value w" by linarith
  then show ?thesis
  proof cases
    case 1
    then have "?S (insert cp D) v = ?S D v" for v by auto
    then show ?thesis using 1 assms by (auto simp: winner_of_def)
  next
    case 2
    then have "?S (insert cp D) (R cp) = {cp}" using w(4) by force
    then show ?thesis using 2 assms w by (fastforce simp: winner_of_def update_winner_def)
  next
    case 3
    then have "?S (insert cp D) (max_value w) = insert cp (?S D (max_value w))" by auto
    then show ?thesis using 3 assms by (auto simp: winner_of_def update_winner_def)
  next
    case 4
    then have "?S (insert cp D) (max_value w) = ?S D (max_value w)" by auto
    then show ?thesis using 4 assms by (auto simp: winner_of_def update_winner_def)
  qed
qed

lemma detect_loop_winner:
  assumes "\<And>cp. length (snd (u_to u cp source 2000)) \<le> 1000"
  shows "winner_of (usable u source) (rating u source) (set before) w \<Longrightarrow>
   \<exists>w'. detect_loop u source before cps w = Some w'
     \<and> winner_of (usable u source) (rating u source) (set (before @ cps)) w'"
proof (induction cps arbitrary: before w)
  case (Cons cp cps)
  have "\<exists>w1. try_codepage u source before cp w = Some w1
      \<and> winner_of (usable u source) (rating u source) (set (before @ [cp])) w1"
  proof (cases "cp \<in> set before")
    case True
    then show ?thesis using Cons.prems by (simp add: try_codepage_def insert_absorb)
  next
    case False
    let ?w = "w\<lparr>n_distinct := n_distinct w + 1\<rparr>"
    have "try_codepage u source before cp w
        = Some (if usable u source cp then update_winner cp (rating u source cp) ?w else ?w)"
      using False assms [of cp]
      by (auto simp: try_codepage_def usable_def rating_def Let_def not_less [symmetric] split: prod.splits)
    then show ?thesis using winner_of_update [OF Cons.prems False] by simp
  qed
  then show ?case using Cons.IH by fastforce
qed simp

text \<open>C21: for strings that convert to at most 1000 characters \<open>ch_detect\<close> names a usable code page, of those
  prepared or given, with the highest positive rating; it names none exactly when no rating is positive or
  there are several code pages which all rate the same.\<close>

theorem ch_detect_correct:
  assumes "\<And>cp. length (snd (u_to u cp source 2000)) \<le> 1000"
    and "cps = (if cp_source \<noteq> CH_CP_NONE then cp_source # take 5 (u_prepared u) else take 6 (u_prepared u))"
    and "CH_CP_NONE \<notin> set cps"
  shows "\<exists>r. ch_detect u cp_source source = Some r
    \<and> (r \<noteq> CH_CP_NONE \<longrightarrow> r \<in> set cps \<and> usable u source r \<and> 0 < rating u source r
         \<and> (\<forall>c \<in> set cps. usable u source c \<longrightarrow> rating u source c \<le> rating u source r))
    \<and> (r = CH_CP_NONE \<longleftrightarrow> (\<forall>c \<in> set cps. usable u source c \<longrightarrow> rating u source c \<le> 0)
         \<or> 2 \<le> card (set cps) \<and> (\<forall>c \<in> set cps. usable u source c)
           \<and> (\<forall>c \<in> set cps. \<forall>d \<in> set cps. rating u source c = rating u source d))"
proof -
  let ?w0 = "\<lparr>max_cp = CH_CP_NONE, max_value = 0, max_count = 0, n_distinct = 0\<rparr>"
  have "winner_of (usable u source) (rating u source) (set []) ?w0" by (simp add: winner_of_def)
  from detect_loop_winner [OF assms(1) this, of cps] obtain w where
    w: "detect_loop u source [] cps ?w0 = Some w" "winner_of (usable u source) (rating u source) (set cps) w"
    by auto
  let ?r = "if max_count w \<noteq> 1 \<and> max_count w = n_distinct w then CH_CP_NONE else max_cp w"
  have r: "ch_detect u cp_source source = Some ?r"
    using w(1) unfolding ch_detect_def assms(2) [symmetric] by (simp add: Let_def)
  have le: "\<forall>c \<in> set cps. usable u source c \<longrightarrow> rating u source c \<le> max_value w" and pos: "0 \<le> max_value w"
    using w(2) by (auto simp: winner_of_def)
  show ?thesis
  proof (cases "max_value w = 0")
    case True
    then have "?r = CH_CP_NONE" using w(2) by (simp add: winner_of_def)
    then show ?thesis using r le True by simp
  next
    case False
    let ?S = "{c \<in> set cps. usable u source c \<and> rating u source c = max_value w}"
    have m: "max_cp w \<in> ?S" "max_count w = card ?S" "n_distinct w = card (set cps)" "0 < max_value w"
      using w(2) False pos by (auto simp: winner_of_def)
    then have ne: "max_cp w \<noteq> CH_CP_NONE" using assms(3) by auto
    show ?thesis
    proof (cases "max_count w \<noteq> 1 \<and> max_count w = n_distinct w")
      case True
      then have S: "?S = set cps" using m(2,3) by (intro card_subset_eq) auto
      have all: "usable u source c \<and> rating u source c = max_value w" if "c \<in> set cps" for c
        using S that by blast
      have "card (set cps) \<noteq> 0" using m(1) by auto
      then have "2 \<le> card (set cps)" using True m(3) by linarith
      moreover have "?r = CH_CP_NONE" using True by simp
      ultimately show ?thesis using r all by (intro exI [of _ ?r]) simp
    next
      case no: False
      have "\<not> (\<forall>c \<in> set cps. usable u source c \<longrightarrow> rating u source c \<le> 0)" using m(1,4) by force
      moreover have "\<not> (2 \<le> card (set cps) \<and> (\<forall>c \<in> set cps. usable u source c)
           \<and> (\<forall>c \<in> set cps. \<forall>d \<in> set cps. rating u source c = rating u source d))"
      proof
        assume a: "2 \<le> card (set cps) \<and> (\<forall>c \<in> set cps. usable u source c)
           \<and> (\<forall>c \<in> set cps. \<forall>d \<in> set cps. rating u source c = rating u source d)"
        moreover have "rating u source c = max_value w" if "c \<in> set cps" for c
        proof -
          have "rating u source c = rating u source (max_cp w)" using a m(1) that by blast
          then show ?thesis using m(1) by simp
        qed
        ultimately have "?S = set cps" by auto
        then show False using no m(2,3) a by simp
      qed
      moreover have "ch_detect u cp_source source = Some (max_cp w)" using r unfolding if_not_P [OF no] .
      moreover have "max_cp w \<in> set cps \<and> usable u source (max_cp w) \<and> 0 < rating u source (max_cp w)
         \<and> (\<forall>c \<in> set cps. usable u source c \<longrightarrow> rating u source c \<le> rating u source (max_cp w))"
        using m(1,4) le by simp
      ultimately show ?thesis using ne by blast
    qed
  qed
qed

section \<open>A concrete converter\<close>

text \<open>Latin-1 and UTF-8, to show that the hypotheses can hold.\<close>

fun fitting :: "(16 word \<Rightarrow> string) \<Rightarrow> 16 word list \<Rightarrow> nat \<Rightarrow> uni_rc \<times> string" where
  "fitting enc [] cap = (ULS_SUCCESS, [])"
| "fitting enc (c # us) cap =
     (if length (enc c) \<le> cap
      then (case fitting enc us (cap - length (enc c)) of (rc, xs) \<Rightarrow> (rc, enc c @ xs))
      else (ULS_BUFFERFULL, []))"

lemma fitting_prefix:
  "\<exists>k \<le> length us. fitting enc us cap = (if k = length us then ULS_SUCCESS else ULS_BUFFERFULL, concat (map enc (take k us)))
     \<and> length (concat (map enc (take k us))) \<le> cap
     \<and> (k < length us \<longrightarrow> cap < length (concat (map enc (take (Suc k) us))))"
proof (induction us arbitrary: cap)
  case (Cons c us)
  show ?case
  proof (cases "length (enc c) \<le> cap")
    case True
    obtain k where "k \<le> length us"
      "fitting enc us (cap - length (enc c)) = (if k = length us then ULS_SUCCESS else ULS_BUFFERFULL, concat (map enc (take k us)))"
      "length (concat (map enc (take k us))) \<le> cap - length (enc c)"
      "k < length us \<longrightarrow> cap - length (enc c) < length (concat (map enc (take (Suc k) us)))"
      using Cons.IH by blast
    then show ?thesis using True by (intro exI [of _ "Suc k"]) auto
  next
    case False
    then show ?thesis by (intro exI [of _ 0]) auto
  qed
qed simp

definition latin1 :: "16 word \<Rightarrow> string" where
  "latin1 c = [if unat c < 256 then char_of (unat c) else CHR ''?'']"

definition utf8 :: "16 word \<Rightarrow> string" where
  "utf8 c =
     (let n = unat c
      in if n < 128 then [char_of n]
         else if n < 2048 then [char_of (192 + n div 64), char_of (128 + n mod 64)]
         else [char_of (224 + n div 4096), char_of (128 + n div 64 mod 64), char_of (128 + n mod 64)])"

definition demo_uconv :: uconv where
  "demo_uconv = \<lparr>u_default = 850, u_prepared = [850, 1208], u_map = (\<lambda>_. True), u_create = (\<lambda>_. True),
     u_query = (\<lambda>cp. Some (if cp = 1200 then 0x200 else 0x100)),
     u_to = (\<lambda>cp bs cap. (if length bs \<le> cap then ULS_SUCCESS else ULS_BUFFERFULL, map (\<lambda>c. of_nat (ccode c)) (take cap bs))),
     u_from = (\<lambda>cp. fitting (if cp = 1208 then utf8 else latin1)),
     u_type = (\<lambda>c. if 97 \<le> c \<and> c \<le> 122 then 2 else 0), u_calloc = True, u_signed = True\<rparr>"

lemma char_of_NUL: "0 < n \<Longrightarrow> n < 256 \<Longrightarrow> NUL \<noteq> char_of (n :: nat)"
proof
  assume n: "0 < n" "n < 256" "NUL = char_of n"
  then have "of_char (char_of n :: char) = (0 :: nat)" by (simp flip: n(3))
  then show False using n by simp
qed

lemma utf8_encodes: "encodes demo_uconv 1208 utf8"
proof -
  have "NUL \<notin> set (utf8 c)" if "c \<noteq> 0" for c
  proof -
    have "0 < unat c" using that by (simp add: unat_gt_0)
    moreover have "unat c < 65536" using unsigned_less [of c] by simp
    moreover from this have "unat c div 4096 < 16" by (simp add: div_less_iff_less_mult)
    ultimately show ?thesis
      by (auto simp: utf8_def Let_def char_of_NUL div_less_iff_less_mult)
  qed
  moreover have "utf8 0 = [NUL]" by code_simp
  ultimately show ?thesis
    using fitting_prefix [of _ utf8] by (simp add: encodes_def demo_uconv_def)
qed

lemma demo_uconv_ok: "uconv_ok demo_uconv"
proof -
  have "length (snd (fitting enc us cap)) \<le> cap" for enc us cap
    using fitting_prefix [of us enc cap] by auto
  then show ?thesis by (simp add: uconv_ok_def demo_uconv_def)
qed

section \<open>Witnesses\<close>

lemma ch_convert_text_witness:
  "\<exists>h'. ch_convert demo_uconv (\<lambda>ob. if ob = 0 then [CHR ''a'', CHR 0xE9, NUL] else replicate 4 NUL)
      850 (0, 0) 1208 (1, 0) 4 0 = Some (h', Some (1, 0), 0)
    \<and> cstr h' (1, 0) = Some [CHR ''a'', CHR 0xC3, CHR 0xA9]"
proof -
  let ?h = "\<lambda>ob :: nat. if ob = 0 then [CHR ''a'', CHR 0xE9, NUL] else replicate 4 NUL"
  let ?x = "[CHR ''a'', CHR 0xE9]" and ?us = "[0x61, 0xE9] :: 16 word list"
  have e: "concat (map utf8 ?us) = [CHR ''a'', CHR 0xC3, CHR 0xA9]" by code_simp
  have "\<exists>h' k. k \<le> length ?us \<and> ch_convert demo_uconv ?h 850 (0, 0) 1208 (1, 0) 4 0 = Some (h', Some (1, 0), 0)
    \<and> cstr h' (1, 0) = Some (concat (map utf8 (take k ?us))) \<and> length (concat (map utf8 (take k ?us))) < 4
    \<and> (k < length ?us \<longrightarrow> 4 \<le> length (concat (map utf8 (take (Suc k) ?us))))
    \<and> (\<forall>ob. ob \<noteq> fst (1 :: nat, 0 :: nat) \<longrightarrow> h' ob = ?h ob)"
    by (rule ch_convert_text [where esid = 256 and x = ?x])
      (simp_all add: utf8_encodes, simp_all add: demo_uconv_def open_uconv_def CH_CP_NONE_def without_bom_def cstr_def
        bytes_at_def fits_def ccode_def)
  then obtain h' k where k: "k \<le> length ?us" "ch_convert demo_uconv ?h 850 (0, 0) 1208 (1, 0) 4 0 = Some (h', Some (1, 0), 0)"
    "cstr h' (1, 0) = Some (concat (map utf8 (take k ?us)))"
    "k < length ?us \<longrightarrow> 4 \<le> length (concat (map utf8 (take (Suc k) ?us)))"
    by blast
  have "length (concat (map utf8 (take (Suc 0) ?us))) = 1" "length (concat (map utf8 (take (Suc (Suc 0)) ?us))) = 3"
    by code_simp+
  moreover have "k = 0 \<or> k = 1 \<or> k = 2" using k(1) by auto
  ultimately have "k = 2" using k(4) by auto
  then have "take k ?us = ?us" by simp
  then show ?thesis using k(2,3) e by auto
qed


lemma ch_detect_correct_witness: "ch_detect demo_uconv 0 ''abc'' = Some 0"
proof -
  have r: "rating demo_uconv ''abc'' c = 6" for c by code_simp
  have u: "usable demo_uconv ''abc'' c" for c by (simp add: usable_def demo_uconv_def)
  have l: "length (snd (u_to demo_uconv cp ''abc'' 2000)) \<le> 1000" for cp by (simp add: demo_uconv_def)
  have "\<exists>r. ch_detect demo_uconv 0 ''abc'' = Some r
    \<and> (r \<noteq> CH_CP_NONE \<longrightarrow> r \<in> set [850, 1208] \<and> usable demo_uconv ''abc'' r \<and> 0 < rating demo_uconv ''abc'' r
         \<and> (\<forall>c \<in> set [850, 1208]. usable demo_uconv ''abc'' c \<longrightarrow> rating demo_uconv ''abc'' c \<le> rating demo_uconv ''abc'' r))
    \<and> (r = CH_CP_NONE \<longleftrightarrow> (\<forall>c \<in> set [850, 1208]. usable demo_uconv ''abc'' c \<longrightarrow> rating demo_uconv ''abc'' c \<le> 0)
         \<or> 2 \<le> card (set [850, 1208 :: nat]) \<and> (\<forall>c \<in> set [850, 1208]. usable demo_uconv ''abc'' c)
           \<and> (\<forall>c \<in> set [850, 1208]. \<forall>d \<in> set [850, 1208]. rating demo_uconv ''abc'' c = rating demo_uconv ''abc'' d))"
    by (rule ch_detect_correct [OF l]) (simp_all add: demo_uconv_def CH_CP_NONE_def)
  then obtain r' where "ch_detect demo_uconv 0 ''abc'' = Some r'" "r' = CH_CP_NONE" by (auto simp: r u)
  then show ?thesis by (simp add: CH_CP_NONE_def)
qed

text \<open>Where \<open>ch_convert\<close> and \<open>ch_detect\<close> go wrong: a size of one for a UCS-2 target wraps to four
  thousand million characters and is overrun; a byte swapped UCS-2 string is copied to UCS-2 without
  swapping and leaves a conversion object behind; with a signed \<open>char\<close> the UTF-8 byte order mark is
  never skipped; and a string of more than 1000 characters overruns the array of \<open>ch_detect\<close>.\<close>

lemma charset_quirks:
  "ch_convert demo_uconv (\<lambda>ob. if ob = 0 then ''ab'' @ [NUL] else [NUL]) 850 (0, 0) 1200 (1, 0) 1 0 = None
   \<and> map_option (\<lambda>(h, r, n). (h 1, n)) (ch_convert demo_uconv
        (\<lambda>ob. if ob = 0 then [CHR 0xFE, CHR 0xFF, NUL, CHR ''a'', NUL, NUL] else replicate 4 NUL) 1200 (0, 0) 1200 (1, 0) 4 0)
      = Some ([NUL, CHR ''a'', NUL, NUL], 1)
   \<and> map_option (\<lambda>(h, r, n). cstr h (1, 0)) (ch_convert demo_uconv
        (\<lambda>ob. if ob = 0 then [CHR 0xEF, CHR 0xBB, CHR 0xBF, CHR ''a'', NUL] else replicate 5 NUL) 1208 (0, 0) 1208 (1, 0) 5 0)
      = Some (Some [CHR 0xEF, CHR 0xBB, CHR 0xBF, CHR ''a''])
   \<and> ch_detect demo_uconv 0 (replicate 1001 (CHR ''a'')) = None"
proof (intro conjI)
  show "ch_detect demo_uconv 0 (replicate 1001 (CHR ''a'')) = None"
    by (simp add: ch_detect_def demo_uconv_def CH_CP_NONE_def try_codepage_def Let_def)
  show "ch_convert demo_uconv (\<lambda>ob. if ob = 0 then ''ab'' @ [NUL] else [NUL]) 850 (0, 0) 1200 (1, 0) 1 0 = None"
    by (simp add: ch_convert_def demo_uconv_def CH_CP_NONE_def open_uconv_def convert_source_def skip_utf8_bom_def
        via_unicode_def half_less_def cstr_def bytes_at_def blk_ld_def blk_st_def Let_def)
qed (code_simp)+

end
