(* ===== verification/OggBase.thy ===== *)
theory OggBase
  imports Main "HOL-Library.Word" "HOL-Library.Monad_Syntax"
begin

unbundle bit_operations_syntax

text \<open>
  What the theories of the Ogg library (\<^verbatim>\<open>src/ogg123\<close>) share: bytes, blocks of memory with checked
  accesses, the allocator, and little-endian numbers.

  A block of memory is the list of its elements and an access outside the block is \<open>None\<close>. The
  allocator is a parameter: for a number of elements it gives a block with arbitrary content, or
  \<open>None\<close> when memory is short. \<open>long\<close> and \<open>int\<close> have 32 bits.
\<close>

type_synonym byte = "8 word"

definition LONG_MAX :: int where
  "LONG_MAX = 2147483647"

section \<open>Blocks of memory\<close>

definition rd :: "'a list \<Rightarrow> int \<Rightarrow> 'a option" where
  "rd xs i = (if 0 \<le> i \<and> i < int (length xs) then Some (xs ! nat i) else None)"

definition wr :: "'a list \<Rightarrow> int \<Rightarrow> 'a \<Rightarrow> 'a list option" where
  "wr xs i x = (if 0 \<le> i \<and> i < int (length xs) then Some (xs[nat i := x]) else None)"

definition rd_blk :: "'a list \<Rightarrow> int \<Rightarrow> int \<Rightarrow> 'a list option" where
  "rd_blk xs i n =
    (if 0 \<le> i \<and> 0 \<le> n \<and> i + n \<le> int (length xs) then Some (take (nat n) (drop (nat i) xs)) else None)"

definition wr_blk :: "'a list \<Rightarrow> int \<Rightarrow> 'a list \<Rightarrow> 'a list option" where
  "wr_blk xs i ys =
    (if 0 \<le> i \<and> i + int (length ys) \<le> int (length xs)
     then Some (take (nat i) xs @ ys @ drop (nat i + length ys) xs) else None)"

lemma rd_nat: "i < length xs \<Longrightarrow> rd xs (int i) = Some (xs ! i)"
  by (simp add: rd_def)

lemma wr_nat: "i < length xs \<Longrightarrow> wr xs (int i) x = Some (xs[i := x])"
  by (simp add: wr_def)

lemma rd_blk_nat: "i + n \<le> length xs \<Longrightarrow> rd_blk xs (int i) (int n) = Some (take n (drop i xs))"
  by (simp add: rd_blk_def)

lemma wr_blk_nat:
  "i + length ys \<le> length xs \<Longrightarrow> wr_blk xs (int i) ys = Some (take i xs @ ys @ drop (i + length ys) xs)"
  by (simp add: wr_blk_def)

text \<open>\<open>malloc\<close> and \<open>realloc\<close>; \<open>realloc\<close> keeps what fits.\<close>

type_synonym 'a alloc = "int \<Rightarrow> 'a list option"

definition alloc_ok :: "'a alloc \<Rightarrow> bool" where
  "alloc_ok al \<longleftrightarrow> (\<forall>n blk. al n = Some blk \<longrightarrow> int (length blk) = max 0 n)"

definition realloc :: "'a alloc \<Rightarrow> 'a list \<Rightarrow> int \<Rightarrow> 'a list option" where
  "realloc al xs n = (case al n of None \<Rightarrow> None
    | Some blk \<Rightarrow> Some (take (nat n) xs @ drop (length xs) blk))"

lemma realloc_Some:
  assumes "alloc_ok al" and "al n = Some blk" and "int (length xs) \<le> n"
  shows "\<exists>ys. realloc al xs n = Some (xs @ ys) \<and> int (length (xs @ ys)) = n"
proof -
  have "int (length blk) = n" using assms by (auto simp: alloc_ok_def)
  then show ?thesis using assms(2,3) by (simp add: realloc_def)
qed

section \<open>Integer division as in C\<close>

definition div8 :: "int \<Rightarrow> int" where
  "div8 n = (if n < 0 then - ((- n) div 8) else n div 8)"

lemma div8_nat [simp]: "div8 (int n) = int (n div 8)"
  by (simp add: div8_def zdiv_int)

section \<open>Bits of words\<close>

lemma bit_ucast_byte: "bit (ucast w :: byte) j \<longleftrightarrow> j < 8 \<and> bit (w :: 'a::len word) j"
  by (simp add: bit_ucast_iff)

end
