(* ===== verification/OggBits.thy ===== *)
theory OggBits
  imports OggBase
begin

unbundle bit_operations_syntax

text \<open>
  \<^verbatim>\<open>src/ogg123/src/bitwise.c\<close>: packing of words of any width up to 32 bits into bytes. The comment
  header that \<^verbatim>\<open>vcedit.c\<close> writes is packed with these functions, and Vorbis headers are read with them. There are two
  families, with the least and with the most significant bit first.

  A buffer is the structure \<open>oggpack_buffer\<close>: the block, the position of the next bit and the number
  of allocated bytes. The pointer \<open>ptr\<close> is an offset into the block, or \<open>NULL\<close> after an error.
  \<open>unsigned long\<close> is a 32 bit word, and so is a \<open>long\<close> that is returned (with \<open>-1\<close> for an error).
\<close>

record oggpack_buffer =
  endbyte :: int
  endbit :: int
  pk_buffer :: "byte list option"
  pk_ptr :: "int option"
  pk_storage :: int

definition BUFFER_INCREMENT :: int where
  "BUFFER_INCREMENT = 256"

definition mask_tab :: "32 word list" where
  "mask_tab =
    [0x00000000, 0x00000001, 0x00000003, 0x00000007, 0x0000000f,
     0x0000001f, 0x0000003f, 0x0000007f, 0x000000ff, 0x000001ff,
     0x000003ff, 0x000007ff, 0x00000fff, 0x00001fff, 0x00003fff,
     0x00007fff, 0x0000ffff, 0x0001ffff, 0x0003ffff, 0x0007ffff,
     0x000fffff, 0x001fffff, 0x003fffff, 0x007fffff, 0x00ffffff,
     0x01ffffff, 0x03ffffff, 0x07ffffff, 0x0fffffff, 0x1fffffff,
     0x3fffffff, 0x7fffffff, 0xffffffff]"

definition mask8B :: "byte list" where
  "mask8B = [0x00, 0x80, 0xc0, 0xe0, 0xf0, 0xf8, 0xfc, 0xfe, 0xff]"

text \<open>\<open>b->ptr[k]\<close>, as a value and as a target.\<close>

definition pk_get :: "oggpack_buffer \<Rightarrow> int \<Rightarrow> byte option" where
  "pk_get b k = do { bs \<leftarrow> pk_buffer b; p \<leftarrow> pk_ptr b; rd bs (p + k) }"

definition pk_set :: "oggpack_buffer \<Rightarrow> int \<Rightarrow> byte \<Rightarrow> oggpack_buffer option" where
  "pk_set b k c = do { bs \<leftarrow> pk_buffer b; p \<leftarrow> pk_ptr b; bs' \<leftarrow> wr bs (p + k) c;
    Some (b\<lparr>pk_buffer := Some bs'\<rparr>) }"

text \<open>A shift of an \<open>unsigned long\<close> by 32 is undefined.\<close>

definition shl32 :: "32 word \<Rightarrow> int \<Rightarrow> 32 word option" where
  "shl32 v k = (if 0 \<le> k \<and> k < 32 then Some (push_bit (nat k) v) else None)"

definition shr32 :: "32 word \<Rightarrow> int \<Rightarrow> 32 word option" where
  "shr32 v k = (if 0 \<le> k \<and> k < 32 then Some (drop_bit (nat k) v) else None)"

section \<open>Writing\<close>

definition oggpack_writeclear :: "oggpack_buffer \<Rightarrow> oggpack_buffer" where
  "oggpack_writeclear b =
    \<lparr>endbyte = 0, endbit = 0, pk_buffer = None, pk_ptr = None, pk_storage = 0\<rparr>"

definition oggpack_writeinit :: "byte alloc \<Rightarrow> oggpack_buffer option" where
  "oggpack_writeinit al = do {
     blk \<leftarrow> al BUFFER_INCREMENT;
     bs \<leftarrow> wr blk 0 0;
     Some \<lparr>endbyte = 0, endbit = 0, pk_buffer = Some bs, pk_ptr = Some 0,
       pk_storage = BUFFER_INCREMENT\<rparr> }"

definition oggpack_writecheck :: "oggpack_buffer \<Rightarrow> int" where
  "oggpack_writecheck b = (if pk_ptr b = None \<or> pk_storage b = 0 then -1 else 0)"

text \<open>Both truncations differ only in the mask of the last byte.\<close>

definition writetrunc :: "(nat \<Rightarrow> byte) \<Rightarrow> oggpack_buffer \<Rightarrow> int \<Rightarrow> oggpack_buffer option" where
  "writetrunc msk b bits =
    (let bytes = bits div 8 in
     if pk_ptr b \<noteq> None then do {
       let bits = bits - bytes * 8;
       let b = b\<lparr>pk_ptr := Some bytes, endbit := bits, endbyte := bytes\<rparr>;
       c \<leftarrow> pk_get b 0;
       pk_set b 0 (c AND msk (nat bits)) }
     else Some b)"

definition oggpack_writetrunc :: "oggpack_buffer \<Rightarrow> int \<Rightarrow> oggpack_buffer option" where
  "oggpack_writetrunc = writetrunc (\<lambda>n. ucast (mask_tab ! n))"

definition oggpackB_writetrunc :: "oggpack_buffer \<Rightarrow> int \<Rightarrow> oggpack_buffer option" where
  "oggpackB_writetrunc = writetrunc (\<lambda>n. mask8B ! n)"

text \<open>Room for five more bytes: \<open>Inl\<close> is the buffer with which the function returns early.\<close>

definition pk_expand :: "byte alloc \<Rightarrow> oggpack_buffer \<Rightarrow> oggpack_buffer + oggpack_buffer" where
  "pk_expand al b =
    (if endbyte b \<ge> pk_storage b - 4 then
       (if pk_ptr b = None then Inl b
        else if pk_storage b > LONG_MAX - BUFFER_INCREMENT then Inl (oggpack_writeclear b)
        else (case realloc al (case pk_buffer b of None \<Rightarrow> [] | Some bs \<Rightarrow> bs) (pk_storage b + BUFFER_INCREMENT) of
            None \<Rightarrow> Inl (oggpack_writeclear b)
          | Some bs \<Rightarrow> Inr (b\<lparr>pk_buffer := Some bs, pk_storage := pk_storage b + BUFFER_INCREMENT,
              pk_ptr := Some (endbyte b)\<rparr>)))
     else Inr b)"

definition pk_advance :: "oggpack_buffer \<Rightarrow> int \<Rightarrow> oggpack_buffer" where
  "pk_advance b bits = b\<lparr>endbyte := endbyte b + div8 bits, pk_ptr := map_option (\<lambda>p. p + div8 bits) (pk_ptr b),
     endbit := bits mod 8\<rparr>"

text \<open>The bytes behind the first one; \<open>put b k\<close> stores byte \<open>k\<close>.\<close>

definition spill :: "(oggpack_buffer \<Rightarrow> int \<Rightarrow> oggpack_buffer option) \<Rightarrow> int \<Rightarrow> oggpack_buffer \<Rightarrow> oggpack_buffer option" where
  "spill put bits b =
    (if bits \<ge> 8 then do {
       b \<leftarrow> put b 1;
       if bits \<ge> 16 then do {
         b \<leftarrow> put b 2;
         if bits \<ge> 24 then do {
           b \<leftarrow> put b 3;
           if bits \<ge> 32 then put b 4 else Some b }
         else Some b }
       else Some b }
     else Some b)"

definition put_lsb :: "32 word \<Rightarrow> oggpack_buffer \<Rightarrow> int \<Rightarrow> oggpack_buffer option" where
  "put_lsb v b k = (let e = endbit b in
     if k = 4 \<and> e = 0 then pk_set b 4 0
     else do { x \<leftarrow> shr32 v (8 * k - e); pk_set b k (ucast x) })"

definition write_lsb :: "oggpack_buffer \<Rightarrow> 32 word \<Rightarrow> int \<Rightarrow> oggpack_buffer option" where
  "write_lsb b v bits = do {
     c \<leftarrow> pk_get b 0;
     x \<leftarrow> shl32 v (endbit b);
     b \<leftarrow> pk_set b 0 (c OR ucast x);
     b \<leftarrow> spill (put_lsb v) bits b;
     Some (pk_advance b bits) }"

definition oggpack_write :: "byte alloc \<Rightarrow> oggpack_buffer \<Rightarrow> 32 word \<Rightarrow> int \<Rightarrow> oggpack_buffer option" where
  "oggpack_write al b v bits =
    (if bits < 0 \<or> bits > 32 then Some (oggpack_writeclear b)
     else (case pk_expand al b of
         Inl b \<Rightarrow> Some b
       | Inr b \<Rightarrow> write_lsb b (v AND mask_tab ! nat bits) (bits + endbit b)))"

definition put_msb :: "32 word \<Rightarrow> oggpack_buffer \<Rightarrow> int \<Rightarrow> oggpack_buffer option" where
  "put_msb v b k = (let e = endbit b in
     if k = 4 then (if e \<noteq> 0 then do { x \<leftarrow> shl32 v (8 - e); pk_set b 4 (ucast x) } else pk_set b 4 0)
     else do { x \<leftarrow> shr32 v (24 - 8 * k + e); pk_set b k (ucast x) })"

definition write_msb :: "oggpack_buffer \<Rightarrow> 32 word \<Rightarrow> int \<Rightarrow> oggpack_buffer option" where
  "write_msb b v bits = do {
     c \<leftarrow> pk_get b 0;
     x \<leftarrow> shr32 v (24 + endbit b);
     b \<leftarrow> pk_set b 0 (c OR ucast x);
     b \<leftarrow> spill (put_msb v) bits b;
     Some (pk_advance b bits) }"

definition oggpackB_write :: "byte alloc \<Rightarrow> oggpack_buffer \<Rightarrow> 32 word \<Rightarrow> int \<Rightarrow> oggpack_buffer option" where
  "oggpackB_write al b v bits =
    (if bits < 0 \<or> bits > 32 then Some (oggpack_writeclear b)
     else (case pk_expand al b of
         Inl b \<Rightarrow> Some b
       | Inr b \<Rightarrow> do {
           v \<leftarrow> shl32 (v AND mask_tab ! nat bits) (32 - bits);
           write_msb b v (bits + endbit b) }))"

definition oggpack_writealign :: "byte alloc \<Rightarrow> oggpack_buffer \<Rightarrow> oggpack_buffer option" where
  "oggpack_writealign al b = (let bits = 8 - endbit b in
     if bits < 8 then oggpack_write al b 0 bits else Some b)"

definition oggpackB_writealign :: "byte alloc \<Rightarrow> oggpack_buffer \<Rightarrow> oggpack_buffer option" where
  "oggpackB_writealign al b = (let bits = 8 - endbit b in
     if bits < 8 then oggpackB_write al b 0 bits else Some b)"

text \<open>Copying bits from another block; \<open>w\<close> is one of the two writers.\<close>

type_synonym writer = "oggpack_buffer \<Rightarrow> 32 word \<Rightarrow> int \<Rightarrow> oggpack_buffer option"

fun copy_bytes :: "writer \<Rightarrow> oggpack_buffer \<Rightarrow> byte list \<Rightarrow> oggpack_buffer option" where
  "copy_bytes w b [] = Some b"
| "copy_bytes w b (c # cs) = do { b \<leftarrow> w b (ucast c) 8; copy_bytes w b cs }"

definition copy_expand :: "byte alloc \<Rightarrow> oggpack_buffer \<Rightarrow> int \<Rightarrow> oggpack_buffer option" where
  "copy_expand al b pbytes =
    (if endbyte b + pbytes \<ge> pk_storage b then
       (if pk_ptr b = None then None
        else if pk_storage b > endbyte b + pbytes + BUFFER_INCREMENT then None
        else (case realloc al (case pk_buffer b of None \<Rightarrow> [] | Some bs \<Rightarrow> bs) (endbyte b + pbytes + BUFFER_INCREMENT) of
            None \<Rightarrow> None
          | Some bs \<Rightarrow> Some (b\<lparr>pk_storage := endbyte b + pbytes + BUFFER_INCREMENT, pk_buffer := Some bs,
              pk_ptr := Some (endbyte b)\<rparr>)))
     else Some b)"

definition copy_aligned :: "oggpack_buffer \<Rightarrow> byte list \<Rightarrow> oggpack_buffer option" where
  "copy_aligned b cs = do {
     bs \<leftarrow> pk_buffer b;
     p \<leftarrow> pk_ptr b;
     bs \<leftarrow> wr_blk bs p cs;
     pk_set (b\<lparr>pk_buffer := Some bs, pk_ptr := Some (p + int (length cs)), endbyte := endbyte b + int (length cs)\<rparr>) 0 0 }"

definition oggpack_writecopy_helper ::
    "byte alloc \<Rightarrow> oggpack_buffer \<Rightarrow> byte list \<Rightarrow> int \<Rightarrow> writer \<Rightarrow> bool \<Rightarrow> oggpack_buffer option" where
  "oggpack_writecopy_helper al b source bits w msb =
    (let bytes = div8 bits; pbytes = div8 (endbit b + bits); bits = bits - bytes * 8 in
     case copy_expand al b pbytes of
       None \<Rightarrow> Some (oggpack_writeclear b)
     | Some b \<Rightarrow> do {
         cs \<leftarrow> rd_blk source 0 bytes;
         b \<leftarrow> (if endbit b \<noteq> 0 then copy_bytes w b cs else copy_aligned b cs);
         if bits \<noteq> 0 then do {
           c \<leftarrow> rd source bytes;
           if msb then w b (ucast (drop_bit (nat (8 - bits)) c)) bits
           else w b (ucast c) bits }
         else Some b })"

definition oggpack_writecopy :: "byte alloc \<Rightarrow> oggpack_buffer \<Rightarrow> byte list \<Rightarrow> int \<Rightarrow> oggpack_buffer option" where
  "oggpack_writecopy al b source bits = oggpack_writecopy_helper al b source bits (oggpack_write al) False"

definition oggpackB_writecopy :: "byte alloc \<Rightarrow> oggpack_buffer \<Rightarrow> byte list \<Rightarrow> int \<Rightarrow> oggpack_buffer option" where
  "oggpackB_writecopy al b source bits = oggpack_writecopy_helper al b source bits (oggpackB_write al) True"

definition oggpack_reset :: "oggpack_buffer \<Rightarrow> oggpack_buffer option" where
  "oggpack_reset b = (if pk_ptr b = None then Some b
     else pk_set (b\<lparr>pk_ptr := Some 0, endbit := 0, endbyte := 0\<rparr>) 0 0)"

section \<open>Reading\<close>

definition oggpack_readinit :: "byte list \<Rightarrow> int \<Rightarrow> oggpack_buffer" where
  "oggpack_readinit buf bytes =
    \<lparr>endbyte = 0, endbit = 0, pk_buffer = Some buf, pk_ptr = Some 0, pk_storage = bytes\<rparr>"

text \<open>Whether \<open>bits\<close> bits (counted from the start of the current byte) go beyond the end.\<close>

definition beyond :: "oggpack_buffer \<Rightarrow> int \<Rightarrow> bool" where
  "beyond b bits \<longleftrightarrow> endbyte b > pk_storage b - (bits + 7) div 8"

text \<open>The first byte \<open>r\<close> and as many of the following ones as the bits reach into.\<close>

definition gather :: "(int \<Rightarrow> 32 word option) \<Rightarrow> int \<Rightarrow> 32 word \<Rightarrow> 32 word option" where
  "gather part bits r =
    (if bits > 8 then do {
       x \<leftarrow> part 1;
       let r = r OR x;
       if bits > 16 then do {
         x \<leftarrow> part 2;
         let r = r OR x;
         if bits > 24 then do {
           x \<leftarrow> part 3;
           let r = r OR x;
           if bits > 32 then do { x \<leftarrow> part 4; Some (r OR x) }
           else Some r }
         else Some r }
       else Some r }
     else Some r)"

definition part_lsb :: "oggpack_buffer \<Rightarrow> int \<Rightarrow> 32 word option" where
  "part_lsb b k =
    (if k = 4 \<and> endbit b = 0 then Some 0
     else do { c \<leftarrow> pk_get b k; shl32 (ucast c) (8 * k - endbit b) })"

definition gather_lsb :: "oggpack_buffer \<Rightarrow> int \<Rightarrow> 32 word option" where
  "gather_lsb b bits = do {
     c \<leftarrow> pk_get b 0;
     gather (part_lsb b) bits (ucast (drop_bit (nat (endbit b)) c)) }"

definition oggpack_look :: "oggpack_buffer \<Rightarrow> int \<Rightarrow> 32 word option" where
  "oggpack_look b bits =
    (if bits < 0 \<or> bits > 32 then Some (-1)
     else (let m = mask_tab ! nat bits; bits = bits + endbit b in
       if endbyte b \<ge> pk_storage b - 4 \<and> beyond b bits then Some (-1)
       else if endbyte b \<ge> pk_storage b - 4 \<and> bits = 0 then Some 0
       else do { r \<leftarrow> gather_lsb b bits; Some (m AND r) }))"

definition part_msb :: "oggpack_buffer \<Rightarrow> int \<Rightarrow> 32 word option" where
  "part_msb b k =
    (if k = 4 \<and> endbit b = 0 then Some 0
     else do { c \<leftarrow> pk_get b k;
       if k = 4 then Some (ucast (drop_bit (nat (8 - endbit b)) c))
       else shl32 (ucast c) (24 - 8 * k + endbit b) })"

definition gather_msb :: "oggpack_buffer \<Rightarrow> int \<Rightarrow> 32 word option" where
  "gather_msb b bits = do {
     r \<leftarrow> part_msb b 0;
     gather (part_msb b) bits r }"

definition oggpackB_look :: "oggpack_buffer \<Rightarrow> int \<Rightarrow> 32 word option" where
  "oggpackB_look b bits =
    (let m = 32 - bits in
     if m < 0 \<or> m > 32 then Some (-1)
     else (let bits = bits + endbit b in
       if endbyte b \<ge> pk_storage b - 4 \<and> beyond b bits then Some (-1)
       else if endbyte b \<ge> pk_storage b - 4 \<and> bits = 0 then Some 0
       else do { r \<leftarrow> gather_msb b bits;
         Some (drop_bit (nat ((m + 1) div 2)) (drop_bit (nat (m div 2)) r)) }))"

definition oggpack_look1 :: "oggpack_buffer \<Rightarrow> 32 word option" where
  "oggpack_look1 b = (if endbyte b \<ge> pk_storage b then Some (-1)
     else do { c \<leftarrow> pk_get b 0; Some (ucast (drop_bit (nat (endbit b)) c AND 1)) })"

definition oggpackB_look1 :: "oggpack_buffer \<Rightarrow> 32 word option" where
  "oggpackB_look1 b = (if endbyte b \<ge> pk_storage b then Some (-1)
     else do { c \<leftarrow> pk_get b 0; Some (ucast (drop_bit (nat (7 - endbit b)) c AND 1)) })"

text \<open>The state after an access beyond the end.\<close>

definition pk_overflow :: "oggpack_buffer \<Rightarrow> oggpack_buffer" where
  "pk_overflow b = b\<lparr>pk_ptr := None, endbyte := pk_storage b, endbit := 1\<rparr>"

definition oggpack_adv :: "oggpack_buffer \<Rightarrow> int \<Rightarrow> oggpack_buffer" where
  "oggpack_adv b bits = (let bits = bits + endbit b in
     if beyond b bits then pk_overflow b else pk_advance b bits)"

definition oggpack_adv1 :: "oggpack_buffer \<Rightarrow> oggpack_buffer" where
  "oggpack_adv1 b = (let b = b\<lparr>endbit := endbit b + 1\<rparr> in
     if endbit b > 7 then b\<lparr>endbit := 0, pk_ptr := map_option (\<lambda>p. p + 1) (pk_ptr b), endbyte := endbyte b + 1\<rparr>
     else b)"

definition oggpack_read :: "oggpack_buffer \<Rightarrow> int \<Rightarrow> (oggpack_buffer \<times> 32 word) option" where
  "oggpack_read b bits =
    (if bits < 0 \<or> bits > 32 then Some (pk_overflow b, -1)
     else (let m = mask_tab ! nat bits; bits = bits + endbit b in
       if endbyte b \<ge> pk_storage b - 4 \<and> beyond b bits then Some (pk_overflow b, -1)
       else if endbyte b \<ge> pk_storage b - 4 \<and> bits = 0 then Some (b, 0)
       else do { r \<leftarrow> gather_lsb b bits; Some (pk_advance b bits, r AND m) }))"

definition oggpackB_read :: "oggpack_buffer \<Rightarrow> int \<Rightarrow> (oggpack_buffer \<times> 32 word) option" where
  "oggpackB_read b bits =
    (let m = 32 - bits in
     if m < 0 \<or> m > 32 then Some (pk_overflow b, -1)
     else (let bits = bits + endbit b in
       if endbyte b + 4 \<ge> pk_storage b \<and> beyond b bits then Some (pk_overflow b, -1)
       else if endbyte b + 4 \<ge> pk_storage b \<and> bits = 0 then Some (b, 0)
       else do { r \<leftarrow> gather_msb b bits;
         Some (pk_advance b bits, drop_bit (nat ((m + 1) div 2)) (drop_bit (nat (m div 2)) r)) }))"

definition oggpack_read1 :: "oggpack_buffer \<Rightarrow> (oggpack_buffer \<times> 32 word) option" where
  "oggpack_read1 b = (if endbyte b \<ge> pk_storage b then Some (pk_overflow b, -1)
     else do { c \<leftarrow> pk_get b 0;
       Some (oggpack_adv1 b, ucast (drop_bit (nat (endbit b)) c AND 1)) })"

definition oggpackB_read1 :: "oggpack_buffer \<Rightarrow> (oggpack_buffer \<times> 32 word) option" where
  "oggpackB_read1 b = (if endbyte b \<ge> pk_storage b then Some (pk_overflow b, -1)
     else do { c \<leftarrow> pk_get b 0;
       Some (oggpack_adv1 b, ucast (drop_bit (nat (7 - endbit b)) c AND 1)) })"

definition oggpack_bytes :: "oggpack_buffer \<Rightarrow> int" where
  "oggpack_bytes b = endbyte b + (endbit b + 7) div 8"

definition oggpack_bits :: "oggpack_buffer \<Rightarrow> int" where
  "oggpack_bits b = endbyte b * 8 + endbit b"

definition oggpack_get_buffer :: "oggpack_buffer \<Rightarrow> byte list option" where
  "oggpack_get_buffer b = pk_buffer b"


section \<open>Bits and bytes\<close>

text \<open>
  The bits of a block in the order in which they are packed: \<open>f\<close> maps the position within a byte
  to the number of the bit, \<open>lsb\<close> for the first family and \<open>msb\<close> for the second.
\<close>

definition lsb :: "nat \<Rightarrow> nat" where
  "lsb j = j"

definition msb :: "nat \<Rightarrow> nat" where
  "msb j = 7 - j"

definition gbit :: "(nat \<Rightarrow> nat) \<Rightarrow> byte list \<Rightarrow> nat \<Rightarrow> bool" where
  "gbit f bs i = bit (bs ! (i div 8)) (f (i mod 8))"

definition bits_of :: "(nat \<Rightarrow> nat) \<Rightarrow> byte list \<Rightarrow> bool list" where
  "bits_of f bs = map (gbit f bs) [0..<8 * length bs]"

text \<open>The bits of a value of \<open>n\<close> bits, in both orders.\<close>

definition lsb_value :: "32 word \<Rightarrow> nat \<Rightarrow> bool list" where
  "lsb_value v n = map (bit v) [0..<n]"

definition msb_value :: "32 word \<Rightarrow> nat \<Rightarrow> bool list" where
  "msb_value v n = map (bit v) (rev [0..<n])"

text \<open>A buffer with its position at bit \<open>e\<close> of byte \<open>p\<close>.\<close>

definition pk :: "byte list \<Rightarrow> nat \<Rightarrow> nat \<Rightarrow> oggpack_buffer" where
  "pk bs p e = \<lparr>endbyte = int p, endbit = int e, pk_buffer = Some bs, pk_ptr = Some (int p),
     pk_storage = int (length bs)\<rparr>"

lemma pk_sel [simp]:
  "endbyte (pk bs p e) = int p" "endbit (pk bs p e) = int e" "pk_buffer (pk bs p e) = Some bs"
  "pk_ptr (pk bs p e) = Some (int p)" "pk_storage (pk bs p e) = int (length bs)"
  by (simp_all add: pk_def)

lemma pk_inject [simp]: "pk bs p e = pk bs' p' e' \<longleftrightarrow> bs = bs' \<and> p = p' \<and> e = e'"
  by (auto simp: pk_def)

lemma pk_get_pk: "0 \<le> k \<Longrightarrow> int p + k < int (length bs) \<Longrightarrow> pk_get (pk bs p e) k = Some (bs ! (p + nat k))"
  by (simp add: pk_get_def rd_def nat_add_distrib)

lemma pk_set_pk: "0 \<le> k \<Longrightarrow> int p + k < int (length bs) \<Longrightarrow>
    pk_set (pk bs p e) k c = Some (pk (bs[p + nat k := c]) p e)"
  by (simp add: pk_set_def wr_def nat_add_distrib pk_def)

lemma pk_advance_pk: "pk_advance (pk bs p e) (int n) = pk bs (p + n div 8) (n mod 8)"
  by (simp add: pk_advance_def pk_def zmod_int)

lemma mask_tab_nth: "n \<le> 32 \<Longrightarrow> mask_tab ! n = mask n"
proof -
  have "\<forall>n \<in> set [0..<33]. mask_tab ! n = mask n"
    by (simp add: upt_rec mask_tab_def mask_numeral mask_Suc_double)
  then show "n \<le> 32 \<Longrightarrow> mask_tab ! n = mask n" by simp
qed

lemma bit_masked: "n \<le> 32 \<Longrightarrow> bit (v AND mask_tab ! n) i \<longleftrightarrow> i < n \<and> bit (v :: 32 word) i"
  by (auto simp: mask_tab_nth bit_simps)


section \<open>What writing does to the block\<close>

text \<open>\<open>nb k\<close> is stored at \<open>p + k\<close> for \<open>k \<le> N\<close>.\<close>

definition spread :: "byte list \<Rightarrow> nat \<Rightarrow> (nat \<Rightarrow> byte) \<Rightarrow> nat \<Rightarrow> byte list \<Rightarrow> bool" where
  "spread bs p nb N bs' \<longleftrightarrow> length bs' = length bs \<and>
     (\<forall>q < length bs. bs' ! q = (if p \<le> q \<and> q \<le> p + N then nb (q - p) else bs ! q))"

lemma spread_0: "spread bs p nb 0 (bs[p := nb 0])"
  by (auto simp: spread_def nth_list_update)

lemma spread_Suc: "spread bs p nb N bs' \<Longrightarrow> spread bs p nb (Suc N) (bs'[p + Suc N := nb (Suc N)])"
  by (auto simp: spread_def nth_list_update le_Suc_eq)

lemma spill_pk:
  assumes put: "\<And>xs k. length xs = length bs \<Longrightarrow> 1 \<le> k \<Longrightarrow> k \<le> 4 \<Longrightarrow>
      put (pk xs p e) (int k) = Some (pk (xs[p + k := nb k]) p e)"
    and t: "t < 40"
  shows "\<exists>bs'. spill put (int t) (pk (bs[p := nb 0]) p e) = Some (pk bs' p e) \<and> spread bs p nb (t div 8) bs'"
proof -
  let ?x0 = "bs[p := nb 0]"
  let ?x1 = "?x0[p + Suc 0 := nb (Suc 0)]"
  let ?x2 = "?x1[p + Suc (Suc 0) := nb (Suc (Suc 0))]"
  let ?x3 = "?x2[p + Suc (Suc (Suc 0)) := nb (Suc (Suc (Suc 0)))]"
  let ?x4 = "?x3[p + Suc (Suc (Suc (Suc 0))) := nb (Suc (Suc (Suc (Suc 0))))]"
  have puts: "length xs = length bs \<Longrightarrow> put (pk xs p e) 1 = Some (pk (xs[p + Suc 0 := nb (Suc 0)]) p e)"
    "length xs = length bs \<Longrightarrow> put (pk xs p e) 2 = Some (pk (xs[p + Suc (Suc 0) := nb (Suc (Suc 0))]) p e)"
    "length xs = length bs \<Longrightarrow> put (pk xs p e) 3 = Some (pk (xs[p + Suc (Suc (Suc 0)) := nb (Suc (Suc (Suc 0)))]) p e)"
    "length xs = length bs \<Longrightarrow> put (pk xs p e) 4 = Some (pk (xs[p + Suc (Suc (Suc (Suc 0))) := nb (Suc (Suc (Suc (Suc 0))))]) p e)" for xs
    using put [of xs 1] put [of xs 2] put [of xs 3] put [of xs 4] by (simp_all add: eval_nat_numeral)
  have s: "spread bs p nb 1 ?x1" "spread bs p nb 2 ?x2" "spread bs p nb 3 ?x3" "spread bs p nb 4 ?x4"
    using spread_Suc [OF spread_0] spread_Suc [OF spread_Suc [OF spread_0]]
      spread_Suc [OF spread_Suc [OF spread_Suc [OF spread_0]]]
      spread_Suc [OF spread_Suc [OF spread_Suc [OF spread_Suc [OF spread_0]]]]
    by (simp_all add: eval_nat_numeral)
  consider "t < 8" | "8 \<le> t" "t < 16" | "16 \<le> t" "t < 24" | "24 \<le> t" "t < 32" | "32 \<le> t"
    by linarith
  then show ?thesis
  proof cases
    case 1
    then have "t div 8 = 0" by simp
    then show ?thesis using 1 spread_0 [of bs p nb] by (auto simp: spill_def)
  next
    case 2
    then have "t div 8 = 1" by linarith
    then show ?thesis using 2 s(1) by (intro exI [of _ ?x1]) (simp add: spill_def puts)
  next
    case 3
    then have "t div 8 = 2" by linarith
    then show ?thesis using 3 s(2) by (intro exI [of _ ?x2]) (simp add: spill_def puts)
  next
    case 4
    then have "t div 8 = 3" by linarith
    then show ?thesis using 4 s(3) by (intro exI [of _ ?x3]) (simp add: spill_def puts)
  next
    case 5
    then have "t div 8 = 4" using t by linarith
    then show ?thesis using 5 s(4) by (intro exI [of _ ?x4]) (simp add: spill_def puts)
  qed
qed


definition lsb_byte :: "byte list \<Rightarrow> nat \<Rightarrow> nat \<Rightarrow> 32 word \<Rightarrow> nat \<Rightarrow> byte" where
  "lsb_byte bs p e v k = (if k = 0 then bs ! p OR ucast (push_bit e v) else ucast (drop_bit (8 * k - e) v))"

definition msb_byte :: "byte list \<Rightarrow> nat \<Rightarrow> nat \<Rightarrow> 32 word \<Rightarrow> nat \<Rightarrow> byte" where
  "msb_byte bs p e v k = (if k = 0 then bs ! p OR ucast (drop_bit (24 + e) v)
     else if k = 4 then (if e = 0 then 0 else ucast (push_bit (8 - e) v)) else ucast (drop_bit (24 - 8 * k + e) v))"

lemma write_lsb_pk:
  assumes p: "p + 4 < length bs" and e: "e < 8" and t: "t < 40"
  shows "\<exists>bs'. write_lsb (pk bs p e) v (int t) = Some (pk bs' (p + t div 8) (t mod 8))
    \<and> spread bs p (lsb_byte bs p e v) (t div 8) bs'"
proof -
  have put: "put_lsb v (pk xs p e) (int k) = Some (pk (xs[p + k := lsb_byte bs p e v k]) p e)"
    if "length xs = length bs" "1 \<le> k" "k \<le> 4" for xs k
  proof -
    have "0 \<le> 8 * int k - int e" "nat (8 * int k - int e) = 8 * k - e" using that e by linarith+
    moreover have "8 * int k - int e < 32" if "\<not> (k = 4 \<and> e = 0)" using that \<open>k \<le> 4\<close> by linarith
    ultimately show ?thesis
      using that p by (auto simp: put_lsb_def Let_def pk_set_pk lsb_byte_def shr32_def)
  qed
  have "pk_set (pk bs p e) 0 ((bs ! p) OR ucast (push_bit e v)) = Some (pk (bs[p := lsb_byte bs p e v 0]) p e)"
    using p by (simp add: pk_set_pk lsb_byte_def)
  then show ?thesis
    using spill_pk [of bs "put_lsb v" p e "lsb_byte bs p e v", OF put t] p e
    by (auto simp: write_lsb_def pk_get_pk shl32_def pk_advance_pk)
qed

lemma write_msb_pk:
  assumes p: "p + 4 < length bs" and e: "e < 8" and t: "t < 40"
  shows "\<exists>bs'. write_msb (pk bs p e) v (int t) = Some (pk bs' (p + t div 8) (t mod 8))
    \<and> spread bs p (msb_byte bs p e v) (t div 8) bs'"
proof -
  have put: "put_msb v (pk xs p e) (int k) = Some (pk (xs[p + k := msb_byte bs p e v k]) p e)"
    if "length xs = length bs" "1 \<le> k" "k \<le> 4" for xs k
  proof (cases "k = 4")
    case True
    have "nat (8 - int e) = 8 - e" using e by linarith
    then show ?thesis
      using True that p e by (auto simp: put_msb_def Let_def pk_set_pk msb_byte_def shl32_def)
  next
    case False
    then have "0 \<le> 24 - 8 * int k + int e" "24 - 8 * int k + int e < 32"
      "nat (24 - 8 * int k + int e) = 24 - 8 * k + e" using that e by linarith+
    then show ?thesis
      using False that p e by (auto simp: put_msb_def Let_def pk_set_pk msb_byte_def shr32_def)
  qed
  have "nat (24 + int e) = 24 + e" by linarith
  moreover have "pk_set (pk bs p e) 0 ((bs ! p) OR ucast (drop_bit (24 + e) v)) = Some (pk (bs[p := msb_byte bs p e v 0]) p e)"
    using p by (simp add: pk_set_pk msb_byte_def)
  ultimately show ?thesis
    using spill_pk [of bs "put_msb v" p e "msb_byte bs p e v", OF put t] p e
    by (auto simp: write_msb_def pk_get_pk shr32_def pk_advance_pk)
qed


text \<open>The unused bits of the last byte are zero.\<close>

definition clean :: "(nat \<Rightarrow> nat) \<Rightarrow> byte list \<Rightarrow> nat \<Rightarrow> nat \<Rightarrow> bool" where
  "clean f bs p e \<longleftrightarrow> (\<forall>j. e \<le> j \<and> j < 8 \<longrightarrow> \<not> bit (bs ! p) (f j))"

lemma lsb_byte_bit:
  assumes "e < 8" "clean lsb bs p e" "j < 8"
  shows "bit (lsb_byte bs p e v k) (lsb j) \<longleftrightarrow>
    (if 8 * k + j < e then bit (bs ! p) (lsb j) else bit v (8 * k + j - e))"
  using assms by (auto simp: lsb_byte_def lsb_def clean_def bit_simps)

lemma msb_byte_bit:
  assumes "e < 8" "clean msb bs p e" "j < 8" "k \<le> 4"
  shows "bit (msb_byte bs p e v k) (msb j) \<longleftrightarrow>
    (if 8 * k + j < e then bit (bs ! p) (msb j) else 8 * k + j - e < 32 \<and> bit v (31 - (8 * k + j - e)))"
proof (cases "k = 0")
  case True
  have "24 + e + (7 - j) = 31 - (j - e)" if "e \<le> j" using that assms by linarith
  moreover have "\<not> 24 + e + (7 - j) < 32" if "j < e" using that assms by linarith
  moreover have "\<not> bit v (24 + e + (7 - j))" if "j < e"
    using that assms by (auto dest!: bit_imp_le_length)
  ultimately show ?thesis
    using True assms by (auto simp: msb_byte_def msb_def clean_def bit_simps)
next
  case False
  show ?thesis
  proof (cases "k = 4")
    case True
    have "\<not> 8 - e \<le> 7 - j" if "e \<le> j" using that assms by linarith
    moreover have "7 - j - (8 - e) = 31 - (32 + j - e)" "8 - e \<le> 7 - j" if "j < e" using that assms by linarith+
    ultimately show ?thesis
      using True assms by (cases "j < e") (auto simp: msb_byte_def msb_def bit_simps)
  next
    case k: False
    then have "24 - 8 * k + e + (7 - j) = 31 - (8 * k + j - e)" "8 * k + j - e < 32" "\<not> 8 * k + j < e"
      using False assms by linarith+
    then show ?thesis
      using k False assms by (auto simp: msb_byte_def msb_def bit_simps)
  qed
qed

text \<open>Where the bits of the block come from after a write.\<close>

lemma spread_gbit:
  assumes sp: "spread bs p nb N bs'" and p: "p + N < length bs"
    and nb: "\<And>k j. k \<le> N \<Longrightarrow> j < 8 \<Longrightarrow>
      bit (nb k) (f j) \<longleftrightarrow> (if 8 * k + j < e then bit (bs ! p) (f j) else vb (8 * k + j - e))"
    and e: "e < 8" and i: "i < 8 * (p + N + 1)"
  shows "gbit f bs' i \<longleftrightarrow> (if i < 8 * p + e then gbit f bs i else vb (i - (8 * p + e)))"
proof -
  let ?q = "i div 8" and ?j = "i mod 8"
  have ij: "i = 8 * ?q + ?j" "?j < 8" by simp_all
  have q: "?q \<le> p + N" using less_mult_imp_div_less [of i "p + N + 1" 8] i by (simp add: mult.commute)
  have bs': "bs' ! ?q = (if p \<le> ?q then nb (?q - p) else bs ! ?q)"
    using sp q p by (simp add: spread_def)
  show ?thesis
  proof (cases "p \<le> ?q")
    case True
    have "8 * (?q - p) + ?j < e \<longleftrightarrow> i < 8 * p + e" "8 * (?q - p) + ?j - e = i - (8 * p + e)"
      using ij True by linarith+
    moreover have "?q = p" if "i < 8 * p + e" using that ij True e by linarith
    ultimately show ?thesis
      using True bs' nb [of "?q - p" ?j] q ij(2) by (auto simp: gbit_def)
  next
    case False
    then have "i < 8 * p + e" using ij by linarith
    then show ?thesis using False bs' by (simp add: gbit_def)
  qed
qed


section \<open>Writing appends bits\<close>

definition packed :: "(nat \<Rightarrow> nat) \<Rightarrow> oggpack_buffer \<Rightarrow> bool list \<Rightarrow> bool" where
  "packed f b xs \<longleftrightarrow> (\<exists>bs p e. b = pk bs p e \<and> p < length bs \<and> length bs \<le> p + 260 \<and> e < 8
     \<and> clean f bs p e \<and> xs = map (gbit f bs) [0..<8 * p + e])"

lemma spread_packed:
  assumes sp: "spread bs p nb ((n + e) div 8) bs'" and p: "p + 4 < length bs" "length bs \<le> p + 260" and n: "n \<le> 32"
    and nb: "\<And>k j. k \<le> (n + e) div 8 \<Longrightarrow> j < 8 \<Longrightarrow>
      bit (nb k) (f j) \<longleftrightarrow> (if 8 * k + j < e then bit (bs ! p) (f j) else vb (8 * k + j - e))"
    and e: "e < 8" and vb: "\<And>m. n \<le> m \<Longrightarrow> \<not> vb m"
  shows "packed f (pk bs' (p + (n + e) div 8) ((n + e) mod 8)) (map (gbit f bs) [0..<8 * p + e] @ map vb [0..<n])"
proof -
  let ?N = "(n + e) div 8" and ?e = "(n + e) mod 8"
  have N: "?N \<le> 4" "p + ?N < length bs" using n e p(1) by linarith+
  have g: "gbit f bs' i \<longleftrightarrow> (if i < 8 * p + e then gbit f bs i else vb (i - (8 * p + e)))"
    if "i < 8 * (p + ?N + 1)" for i
    using spread_gbit [OF sp N(2) nb e that] .
  have len: "8 * (p + ?N) + ?e = (8 * p + e) + n" by (simp add: algebra_simps)
  have lt: "(8 * p + e) + n < 8 * (p + ?N + 1)" 
  proof -
    have "8 * (p + ?N) + ?e < 8 * (p + ?N) + 8" by simp
    then show ?thesis using len by (simp only: distrib_left mult_1_right)
  qed
  have "clean f bs' (p + ?N) ?e"
    unfolding clean_def
  proof (intro allI impI)
    fix j assume j: "?e \<le> j \<and> j < 8"
    let ?i = "8 * (p + ?N) + j"
    have i: "?i div 8 = p + ?N" "?i mod 8 = j"
      using j div_mult_self4 [of 8 "p + ?N" j] mod_mult_self4 [of 8 "p + ?N" j] by (simp_all only: div_less mod_less)
    have "8 * p + e + n \<le> ?i" "?i < 8 * (p + ?N + 1)" using j len by (linarith, simp)
    then have "\<not> gbit f bs' ?i"
      using g [of ?i] vb [of "?i - (8 * p + e)"] by simp
    then show "\<not> bit (bs' ! (p + ?N)) (f j)" unfolding gbit_def i by this
  qed
  moreover have "length bs' = length bs" using sp by (simp add: spread_def)
  moreover have "map (gbit f bs') [0..<8 * (p + ?N) + ?e] = map (gbit f bs) [0..<8 * p + e] @ map vb [0..<n]"
  proof -
    have "map (gbit f bs') [0..<8 * p + e] = map (gbit f bs) [0..<8 * p + e]"
      using g lt by (intro map_cong) auto
    moreover have "map (gbit f bs') [8 * p + e..<8 * p + e + n] = map vb [0..<n]"
      using g lt by (intro nth_equalityI) auto
    ultimately show ?thesis
      unfolding len by (simp add: upt_add_eq_append [of 0])
  qed
  ultimately show ?thesis
    using N(2) p(2) by (auto simp: packed_def)
qed

text \<open>The buffer has been cleared because the memory for more bytes could not be had.\<close>

definition out_of_memory :: "byte alloc \<Rightarrow> oggpack_buffer \<Rightarrow> bool" where
  "out_of_memory al b \<longleftrightarrow> pk_storage b > LONG_MAX - BUFFER_INCREMENT \<or> al (pk_storage b + BUFFER_INCREMENT) = None"

definition memory_short :: "byte alloc \<Rightarrow> nat \<Rightarrow> bool" where
  "memory_short al n \<longleftrightarrow> (\<exists>m \<le> LONG_MAX. al m = None) \<or> 8 * (LONG_MAX - 516) < int n"

lemma out_of_memory_short:
  assumes "packed f b xs" and "out_of_memory al b"
  shows "memory_short al (length xs)"
proof -
  obtain bs p e where b: "b = pk bs p e" "length bs \<le> p + 260" "xs = map (gbit f bs) [0..<8 * p + e]"
    using assms(1) by (auto simp: packed_def)
  show ?thesis
    using assms(2) b unfolding out_of_memory_def memory_short_def BUFFER_INCREMENT_def
    by (cases "pk_storage b > LONG_MAX - 256") (auto intro!: exI [of _ "pk_storage b + 256"])
qed

lemma memory_short_mono: "memory_short al m \<Longrightarrow> m \<le> n \<Longrightarrow> memory_short al n"
  by (auto simp: memory_short_def)

lemma pk_expand_packed:
  assumes "alloc_ok al" and "packed f b xs"
  shows "(\<exists>bs p e. pk_expand al b = Inr (pk bs p e) \<and> p + 4 < length bs \<and> length bs \<le> p + 260
      \<and> e < 8 \<and> clean f bs p e \<and> xs = map (gbit f bs) [0..<8 * p + e])
    \<or> (pk_expand al b = Inl (oggpack_writeclear b) \<and> out_of_memory al b)"
proof -
  obtain bs p e where b: "b = pk bs p e" "p < length bs" "e < 8" "clean f bs p e"
    "xs = map (gbit f bs) [0..<8 * p + e]" "length bs \<le> p + 260"
    using assms(2) by (auto simp: packed_def)
  show ?thesis
  proof (cases "endbyte b \<ge> pk_storage b - 4")
    case False
    then show ?thesis using b by (auto simp: pk_expand_def)
  next
    case True
    show ?thesis
    proof (cases "out_of_memory al b")
      case oom: True
      then have "pk_expand al b = Inl (oggpack_writeclear b)"
        using True b(1) by (auto simp: pk_expand_def out_of_memory_def realloc_def split: option.splits)
      then show ?thesis using oom by blast
    next
      case oom: False
      then obtain blk where "al (pk_storage b + BUFFER_INCREMENT) = Some blk"
        by (auto simp: out_of_memory_def)
      then obtain ys where ys: "realloc al bs (pk_storage b + BUFFER_INCREMENT) = Some (bs @ ys)"
        "int (length (bs @ ys)) = pk_storage b + BUFFER_INCREMENT"
        using realloc_Some [OF assms(1), of "pk_storage b + BUFFER_INCREMENT" blk bs] b(1)
        by (auto simp: BUFFER_INCREMENT_def)
      have "pk_expand al b = Inr (pk (bs @ ys) p e)"
        using True oom b(1) ys by (simp add: pk_expand_def out_of_memory_def pk_def)
      moreover have "p + 4 < length (bs @ ys)" "length (bs @ ys) \<le> p + 260"
        using ys(2) b(1,2) True by (simp_all add: BUFFER_INCREMENT_def)
      moreover have "clean f (bs @ ys) p e" using b(2,4) by (simp add: clean_def nth_append)
      moreover have "map (gbit f (bs @ ys)) [0..<8 * p + e] = map (gbit f bs) [0..<8 * p + e]"
        using b(2,3) by (intro map_cong) (auto simp: gbit_def nth_append)
      ultimately show ?thesis using b(3,5) by metis
    qed
  qed
qed


lemma write_cleared:
  "oggpack_write al (oggpack_writeclear b) v n = Some (oggpack_writeclear b)"
  "oggpackB_write al (oggpack_writeclear b) v n = Some (oggpack_writeclear b)"
  by (simp_all add: oggpack_write_def oggpackB_write_def pk_expand_def oggpack_writeclear_def)

lemma writeclear_const: "oggpack_writeclear b = oggpack_writeclear b'"
  by (simp add: oggpack_writeclear_def)

lemma oggpack_write_packed:
  assumes "alloc_ok al" and "packed lsb b xs" and n: "n \<le> 32"
  shows "(\<exists>b'. oggpack_write al b v (int n) = Some b' \<and> packed lsb b' (xs @ lsb_value v n))
    \<or> (oggpack_write al b v (int n) = Some (oggpack_writeclear b) \<and> out_of_memory al b)"
  using pk_expand_packed [OF assms(1,2)]
proof (elim disjE exE conjE)
  fix bs p e
  assume ex: "pk_expand al b = Inr (pk bs p e)" and p: "p + 4 < length bs" "length bs \<le> p + 260" and e: "e < 8"
    and c: "clean lsb bs p e" and xs: "xs = map (gbit lsb bs) [0..<8 * p + e]"
  let ?v = "v AND mask_tab ! n"
  obtain bs' where w: "write_lsb (pk bs p e) ?v (int (n + e)) = Some (pk bs' (p + (n + e) div 8) ((n + e) mod 8))"
    and sp: "spread bs p (lsb_byte bs p e ?v) ((n + e) div 8) bs'"
    using write_lsb_pk [OF p(1) e, of "n + e"] n e by auto
  have "packed lsb (pk bs' (p + (n + e) div 8) ((n + e) mod 8)) (xs @ map (bit ?v) [0..<n])"
    unfolding xs by (rule spread_packed [OF sp p n _ e]) (simp_all add: lsb_byte_bit e c bit_masked n)
  moreover have "map (bit ?v) [0..<n] = lsb_value v n"
    using n by (simp add: lsb_value_def bit_masked)
  ultimately show ?thesis
    using ex w n by (auto simp: oggpack_write_def)
qed (use n in \<open>auto simp: oggpack_write_def\<close>)

lemma oggpackB_write_packed:
  assumes "alloc_ok al" and "packed msb b xs" and n: "n \<le> 32" "0 < n"
  shows "(\<exists>b'. oggpackB_write al b v (int n) = Some b' \<and> packed msb b' (xs @ msb_value v n))
    \<or> (oggpackB_write al b v (int n) = Some (oggpack_writeclear b) \<and> out_of_memory al b)"
  using pk_expand_packed [OF assms(1,2)]
proof (elim disjE exE conjE)
  fix bs p e
  assume ex: "pk_expand al b = Inr (pk bs p e)" and p: "p + 4 < length bs" "length bs \<le> p + 260" and e: "e < 8"
    and c: "clean msb bs p e" and xs: "xs = map (gbit msb bs) [0..<8 * p + e]"
  let ?v = "push_bit (32 - n) (v AND mask_tab ! n)"
  let ?vb = "\<lambda>m. m < 32 \<and> bit ?v (31 - m)"
  obtain bs' where w: "write_msb (pk bs p e) ?v (int (n + e)) = Some (pk bs' (p + (n + e) div 8) ((n + e) mod 8))"
    and sp: "spread bs p (msb_byte bs p e ?v) ((n + e) div 8) bs'"
    using write_msb_pk [OF p(1) e, of "n + e"] n e by auto
  have vb: "?vb m \<longleftrightarrow> m < n \<and> bit v (n - 1 - m)" for m
  proof -
    have "31 - m - (32 - n) = n - 1 - m" "32 - n \<le> 31 - m \<longleftrightarrow> m < n" if "m < 32" using n that by linarith+
    moreover have "bit ?v (31 - m) \<longleftrightarrow> 32 - n \<le> 31 - m \<and> bit (v AND mask_tab ! n) (31 - m - (32 - n))"
      by (auto simp: bit_push_bit_iff simp del: push_bit_and)
    ultimately show ?thesis using n by (auto simp: bit_masked)
  qed
  have "packed msb (pk bs' (p + (n + e) div 8) ((n + e) mod 8)) (xs @ map ?vb [0..<n])"
    unfolding xs
  proof (rule spread_packed [OF sp p n(1) _ e])
    fix k j assume "k \<le> (n + e) div 8" "j < (8::nat)"
    moreover have "(n + e) div 8 \<le> 4" using n e by linarith
    ultimately show "bit (msb_byte bs p e ?v k) (msb j) \<longleftrightarrow>
        (if 8 * k + j < e then bit (bs ! p) (msb j) else ?vb (8 * k + j - e))"
      using msb_byte_bit [OF e c] by simp
  next
    show "\<not> ?vb m" if "n \<le> m" for m using that unfolding vb by simp
  qed
  moreover have "map ?vb [0..<n] = msb_value v n"
    unfolding vb msb_value_def by (rule nth_equalityI) (simp_all add: rev_nth)
  moreover have "nat (32 - int n) = 32 - n" by simp
  ultimately show ?thesis
    using ex w n by (auto simp: oggpackB_write_def shl32_def)
qed (use n in \<open>auto simp: oggpackB_write_def\<close>)

lemma oggpack_writeinit_packed:
  "alloc_ok al \<Longrightarrow> oggpack_writeinit al = Some b \<Longrightarrow> packed f b []"
proof -
  assume "alloc_ok al" "oggpack_writeinit al = Some b"
  then obtain blk where blk: "al 256 = Some blk"
    by (auto simp: oggpack_writeinit_def BUFFER_INCREMENT_def bind_eq_Some_conv)
  moreover have "int (length blk) = max 0 256"
    using \<open>alloc_ok al\<close> blk unfolding alloc_ok_def by blast
  ultimately have blk: "al 256 = Some blk" "length blk = 256" by simp_all
  have "b = pk (blk[0 := 0]) 0 0"
    using blk \<open>oggpack_writeinit al = Some b\<close>
    by (auto simp: oggpack_writeinit_def BUFFER_INCREMENT_def wr_def pk_def split: if_splits)
  then show ?thesis using blk(2) by (auto simp: packed_def clean_def)
qed


section \<open>Reading takes bits off\<close>

definition reading :: "(nat \<Rightarrow> nat) \<Rightarrow> oggpack_buffer \<Rightarrow> bool list \<Rightarrow> bool" where
  "reading f b xs \<longleftrightarrow> (\<exists>bs p e. b = pk bs p e \<and> e < 8 \<and> 8 * p + e \<le> 8 * length bs
     \<and> xs = map (gbit f bs) [8 * p + e..<8 * length bs])"

definition lsb_num :: "bool list \<Rightarrow> 32 word" where
  "lsb_num xs = horner_sum of_bool 2 xs"

definition msb_num :: "bool list \<Rightarrow> 32 word" where
  "msb_num xs = horner_sum of_bool 2 (rev xs)"

lemma bit_lsb_num: "bit (lsb_num xs) i \<longleftrightarrow> i < 32 \<and> i < length xs \<and> xs ! i"
  by (auto simp: lsb_num_def bit_horner_sum_bit_word_iff)

lemma bit_msb_num: "bit (msb_num xs) i \<longleftrightarrow> i < 32 \<and> i < length xs \<and> xs ! (length xs - 1 - i)"
  by (auto simp: msb_num_def bit_horner_sum_bit_word_iff rev_nth)

lemma ex_le_Suc: "(\<exists>k \<le> Suc n. P k) \<longleftrightarrow> P (Suc n) \<or> (\<exists>k \<le> n. P k)"
  by (auto simp: le_Suc_eq)

lemma gather_Some:
  assumes part: "\<And>k. 1 \<le> k \<Longrightarrow> k \<le> K \<Longrightarrow> part (int k) = Some (x k)" and K: "K = (t - 1) div 8" and t: "t < 40"
  shows "\<exists>r. gather part (int t) (x 0) = Some r \<and> (\<forall>i. bit r i \<longleftrightarrow> (\<exists>k \<le> K. bit (x k) i))"
proof -
  have p1: "part 1 = Some (x (Suc 0))" if "1 \<le> K" using part [of 1] that by simp
  have p2: "part 2 = Some (x (Suc (Suc 0)))" if "2 \<le> K" using part [of 2] that by (simp add: numeral_2_eq_2)
  have p3: "part 3 = Some (x (Suc (Suc (Suc 0))))" if "3 \<le> K" using part [of 3] that by (simp add: numeral_3_eq_3)
  have p4: "part 4 = Some (x (Suc (Suc (Suc (Suc 0)))))" if "4 \<le> K" using part [of 4] that by (simp add: eval_nat_numeral)
  consider "t \<le> 8" "K = 0" | "8 < t" "t \<le> 16" "K = Suc 0" | "16 < t" "t \<le> 24" "K = Suc (Suc 0)"
    | "24 < t" "t \<le> 32" "K = Suc (Suc (Suc 0))" | "32 < t" "K = Suc (Suc (Suc (Suc 0)))"
    using t unfolding K by linarith
  then show ?thesis
  proof cases
    case 1
    then show ?thesis by (simp add: gather_def)
  next
    case 2
    then show ?thesis using p1 by (simp add: gather_def bit_or_iff ex_le_Suc disj_ac)
  next
    case 3
    then show ?thesis using p1 p2 by (simp add: gather_def bit_or_iff ex_le_Suc disj_ac)
  next
    case 4
    then show ?thesis using p1 p2 p3 by (simp add: gather_def bit_or_iff ex_le_Suc disj_ac)
  next
    case 5
    then show ?thesis using p1 p2 p3 p4 by (simp add: gather_def bit_or_iff ex_le_Suc disj_ac)
  qed
qed


definition part_bits :: "(nat \<Rightarrow> nat) \<Rightarrow> byte list \<Rightarrow> nat \<Rightarrow> nat \<Rightarrow> (nat \<Rightarrow> nat) \<Rightarrow> nat \<Rightarrow> 32 word \<Rightarrow> bool" where
  "part_bits f bs p e g k x \<longleftrightarrow> (\<forall>i < 32. bit x (g i) \<longleftrightarrow>
     8 * k \<le> i + e \<and> i + e < 8 * k + 8 \<and> bit (bs ! (p + k)) (f (i + e - 8 * k)))"

text \<open>When every part holds the bits of its byte, bit \<open>i\<close> of the gathered word is the bit of the
  block at \<open>i\<close> bits behind the position.\<close>

lemma part_bits_gbit:
  assumes "\<And>k. k \<le> K \<Longrightarrow> part_bits f bs p e g k (x k)" and "i < 32" and "(i + e) div 8 \<le> K"
  shows "(\<exists>k \<le> K. bit (x k) (g i)) \<longleftrightarrow> gbit f bs (8 * p + e + i)"
proof -
  let ?k = "(i + e) div 8"
  have k: "8 * k \<le> i + e \<and> i + e < 8 * k + 8 \<longleftrightarrow> k = ?k" for k by linarith
  have "(8 * p + e + i) div 8 = p + ?k" "(8 * p + e + i) mod 8 = i + e - 8 * ?k"
    using div_mult_self4 [of 8 p "i + e"] mod_mult_self4 [of 8 p "i + e"] minus_mult_div_eq_mod [of "i + e" 8]
    by (simp_all add: ac_simps)
  then have "gbit f bs (8 * p + e + i) \<longleftrightarrow> bit (bs ! (p + ?k)) (f (i + e - 8 * ?k))"
    by (simp add: gbit_def)
  moreover have "bit (x k) (g i) \<longleftrightarrow> k = ?k \<and> bit (bs ! (p + k)) (f (i + e - 8 * k))" if "k \<le> K" for k
    using assms(1) [OF that] assms(2) k [of k] unfolding part_bits_def by blast
  ultimately show ?thesis using assms(3) by blast
qed

lemma gather_lsb_pk:
  assumes t: "t < 40" and e: "e < 8" and p: "p + (t - 1) div 8 < length bs"
  shows "\<exists>r. gather_lsb (pk bs p e) (int t) = Some r \<and>
    (\<forall>i < 32. i + e < max 1 t \<longrightarrow> (bit r i \<longleftrightarrow> gbit lsb bs (8 * p + e + i)))"
proof -
  let ?K = "(t - 1) div 8"
  let ?x = "\<lambda>k. if k = 0 then ucast (drop_bit e (bs ! p)) else if k = 4 \<and> e = 0 then 0
    else push_bit (8 * k - e) (ucast (bs ! (p + k))) :: 32 word"
  have K: "?K \<le> 4" using t by linarith
  have part: "part_lsb (pk bs p e) (int k) = Some (?x k)" if "1 \<le> k" "k \<le> ?K" for k
  proof -
    have "p + k < length bs" using p that(2) by linarith
    moreover have "nat (8 * int k - int e) = 8 * k - e" "0 \<le> 8 * int k - int e" using that e by linarith+
    moreover have "8 * int k - int e < 32" if "\<not> (k = 4 \<and> e = 0)" using that \<open>k \<le> ?K\<close> K e by linarith
    ultimately show ?thesis
      using that by (auto simp: part_lsb_def pk_get_pk shl32_def)
  qed
  have bits: "part_bits lsb bs p e (\<lambda>i. i) k (?x k)" if "k \<le> ?K" for k
  proof -
    have "k \<le> 4" using that K by linarith
    have "8 * k - e \<le> i \<longleftrightarrow> 8 * k \<le> i + e" "i - (8 * k - e) = i + e - 8 * k" if "0 < k" for i
      using that e by linarith+
    then show ?thesis
      using e \<open>k \<le> 4\<close>
      by (auto simp: part_bits_def lsb_def bit_simps ac_simps dest: bit_imp_le_length)
  qed
  from gather_Some [where x = ?x, OF part refl t]
  obtain r where r: "gather (part_lsb (pk bs p e)) (int t) (?x 0) = Some r"
    "\<forall>i. bit r i \<longleftrightarrow> (\<exists>k \<le> ?K. bit (?x k) i)" by auto
  have "bit r i \<longleftrightarrow> gbit lsb bs (8 * p + e + i)" if i: "i < 32" "i + e < max 1 t" for i
  proof -
    have "(i + e) div 8 \<le> ?K" using i(2) by (intro div_le_mono) linarith
    then show ?thesis
      using part_bits_gbit [where x = ?x, OF bits i(1)] r(2) by blast
  qed
  moreover have "p < length bs" using p by linarith
  ultimately show ?thesis
    using r(1) by (auto simp: gather_lsb_def pk_get_pk)
qed

lemma gather_msb_pk:
  assumes t: "t < 40" and e: "e < 8" and p: "p + (t - 1) div 8 < length bs"
  shows "\<exists>r. gather_msb (pk bs p e) (int t) = Some r \<and>
    (\<forall>i < 32. i + e < max 1 t \<longrightarrow> (bit r (31 - i) \<longleftrightarrow> gbit msb bs (8 * p + e + i)))"
proof -
  let ?K = "(t - 1) div 8"
  let ?x = "\<lambda>k. if k = 4 then (if e = 0 then 0 else ucast (drop_bit (8 - e) (bs ! (p + k))))
    else push_bit (24 - 8 * k + e) (ucast (bs ! (p + k))) :: 32 word"
  have K: "?K \<le> 4" using t by linarith
  have part: "part_msb (pk bs p e) (int k) = Some (?x k)" if "k \<le> ?K" for k
  proof -
    have "p + k < length bs" using p that by linarith
    moreover have "nat (24 - 8 * int k + int e) = 24 - 8 * k + e" "0 \<le> 24 - 8 * int k + int e"
      "24 - 8 * int k + int e < 32" if "k \<noteq> 4" using that \<open>k \<le> ?K\<close> K e by linarith+
    moreover have "nat (8 - int e) = 8 - e" using e by linarith
    ultimately show ?thesis
      by (auto simp: part_msb_def pk_get_pk shl32_def)
  qed
  have bits: "part_bits msb bs p e (\<lambda>i. 31 - i) k (?x k)" if "k \<le> ?K" for k
    unfolding part_bits_def
  proof (intro allI impI)
    fix i :: nat assume i: "i < 32"
    have k: "k \<le> 4" using that K by linarith
    show "bit (?x k) (31 - i) \<longleftrightarrow>
        8 * k \<le> i + e \<and> i + e < 8 * k + 8 \<and> bit (bs ! (p + k)) (msb (i + e - 8 * k))"
    proof (cases "k = 4")
      case True
      have s: "31 - i + (8 - e) = 39 - (i + e)" "31 - i < 32" "i + e < 40" using e i by linarith+
      show ?thesis
      proof (cases "32 \<le> i + e")
        case ge: True
        then have "39 - (i + e) = 7 - (i + e - 32)" "e \<noteq> 0" using i by linarith+
        then show ?thesis using True ge s by (simp add: msb_def bit_simps add.commute)
      next
        case False
        then have "\<not> bit (bs ! (p + 4)) (39 - (i + e))" by (auto dest: bit_imp_le_length)
        then show ?thesis using True False s by (simp add: bit_simps add.commute)
      qed
    next
      case False
      have "24 - 8 * k + e \<le> 31 - i \<longleftrightarrow> i + e < 8 * k + 8" using k False e i by linarith
      moreover have "31 - i - (24 - 8 * k + e) = 7 - (i + e - 8 * k)" if "8 * k \<le> i + e" "i + e < 8 * k + 8"
        using that k False by linarith
      moreover have "\<not> 31 - i - (24 - 8 * k + e) < 8" if "\<not> 8 * k \<le> i + e"
        using that k False e i by linarith
      moreover have "bit (?x k) (31 - i) \<longleftrightarrow> 24 - 8 * k + e \<le> 31 - i \<and> bit (bs ! (p + k)) (31 - i - (24 - 8 * k + e))"
        using False by (auto simp: bit_push_bit_iff bit_ucast_iff dest: bit_imp_le_length)
      moreover have "\<not> bit (bs ! (p + k)) (31 - i - (24 - 8 * k + e))" if "\<not> 8 * k \<le> i + e"
        using calculation(3) [OF that] by (auto dest: bit_imp_le_length)
      ultimately show ?thesis
        unfolding msb_def by (cases "8 * k \<le> i + e"; cases "i + e < 8 * k + 8") (simp_all only: simp_thms)
    qed
  qed
  from gather_Some [where x = ?x, OF part refl t]
  obtain r where r: "gather (part_msb (pk bs p e)) (int t) (?x 0) = Some r"
    "\<forall>i. bit r i \<longleftrightarrow> (\<exists>k \<le> ?K. bit (?x k) i)" by auto
  have "bit r (31 - i) \<longleftrightarrow> gbit msb bs (8 * p + e + i)" if i: "i < 32" "i + e < max 1 t" for i
  proof -
    have "(i + e) div 8 \<le> ?K" using i(2) by (intro div_le_mono) linarith
    then show ?thesis
      using part_bits_gbit [where x = ?x, OF bits i(1)] r(2) by blast
  qed
  then show ?thesis
    using r(1) part [of 0] by (auto simp: gather_msb_def)
qed


lemma beyond_pk:
  assumes "8 * p + e \<le> 8 * length bs"
  shows "beyond (pk bs p e) (int n + int e) \<longleftrightarrow> 8 * length bs - (8 * p + e) < n"
proof -
  have "beyond (pk bs p e) (int n + int e) \<longleftrightarrow> int (8 * length bs) - int (8 * p + e) < int n"
    unfolding beyond_def pk_sel by linarith
  then show ?thesis using assms by linarith
qed

lemma nth_gbits: "i < n \<Longrightarrow> a + n \<le> m \<Longrightarrow> take n (map (gbit f bs) [a..<m]) ! i = gbit f bs (a + i)"
  by simp

text \<open>The position behind \<open>n\<close> more bits.\<close>

lemma reading_advance:
  assumes "8 * p + e + n \<le> 8 * length bs"
  shows "reading f (pk_advance (pk bs p e) (int n + int e)) (drop n (map (gbit f bs) [8 * p + e..<8 * length bs]))"
proof -
  have adv: "pk_advance (pk bs p e) (int n + int e) = pk bs (p + (n + e) div 8) ((n + e) mod 8)"
    using pk_advance_pk [of bs p e "n + e"] by simp
  have pos: "8 * (p + (n + e) div 8) + (n + e) mod 8 = 8 * p + e + n" by (simp add: algebra_simps)
  show ?thesis
    unfolding reading_def adv
    by (rule exI [of _ bs], rule exI [of _ "p + (n + e) div 8"], rule exI [of _ "(n + e) mod 8"])
      (use assms in \<open>simp add: pos drop_map del: distrib_left_numeral\<close>)
qed

lemma room_for_read:
  assumes "8 * p + e + n \<le> 8 * length bs" "e < 8" "n \<le> 32" "n + e \<noteq> 0 \<or> p < length bs"
  shows "p + (n + e - 1) div 8 < length bs"
  using assms by (cases "n + e = 0") (simp, linarith)

lemma oggpack_read_reading:
  assumes "reading lsb b xs" and n: "n \<le> 32"
  shows "if n \<le> length xs then
      (\<exists>b'. oggpack_read b (int n) = Some (b', lsb_num (take n xs)) \<and> reading lsb b' (drop n xs))
      \<and> oggpack_look b (int n) = Some (lsb_num (take n xs))
    else oggpack_read b (int n) = Some (pk_overflow b, -1) \<and> oggpack_look b (int n) = Some (-1)"
proof -
  obtain bs p e where b: "b = pk bs p e" "e < 8" "8 * p + e \<le> 8 * length bs"
    "xs = map (gbit lsb bs) [8 * p + e..<8 * length bs]"
    using assms(1) by (auto simp: reading_def)
  note bey = beyond_pk [OF b(3), of n]
  show ?thesis
  proof (cases "n \<le> length xs")
    case False
    then have out: "beyond b (int n + int e)" using bey b by simp
    moreover from out have "endbyte b \<ge> pk_storage b - 4"
      using n b(2) unfolding beyond_def b(1) pk_sel by linarith
    ultimately show ?thesis
      using False n b(1) by (simp add: oggpack_read_def oggpack_look_def Let_def)
  next
    case True
    then have fit: "8 * p + e + n \<le> 8 * length bs" and inside: "\<not> beyond b (int n + int e)"
      using bey b by auto
    show ?thesis
    proof (cases "endbyte b \<ge> pk_storage b - 4 \<and> int n + int e = 0")
      case zero: True
      then have n0: "n = 0" "e = 0" by simp_all
      then show ?thesis
        using zero b(1) inside assms(1)
        by (simp add: n0 oggpack_read_def oggpack_look_def lsb_num_def)
    next
      case nonzero: False
      have "p + (n + e - 1) div 8 < length bs"
        by (rule room_for_read [OF fit b(2) n]) (use nonzero b(1) in auto)
      then obtain r where r: "gather_lsb b (int n + int e) = Some r"
        "\<forall>i < 32. i + e < max 1 (n + e) \<longrightarrow> (bit r i \<longleftrightarrow> gbit lsb bs (8 * p + e + i))"
        using gather_lsb_pk [of "n + e" e p bs] n b(1,2) by auto
      have "r AND mask_tab ! n = lsb_num (take n xs)"
      proof (rule bit_word_eqI)
        fix i assume "i < LENGTH(32)"
        then show "bit (r AND mask_tab ! n) i \<longleftrightarrow> bit (lsb_num (take n xs)) i"
          using r(2) n True fit by (auto simp: bit_masked bit_lsb_num b(4) simp del: take_map)
      qed
      then show ?thesis
        using True r(1) inside nonzero n b reading_advance [OF fit, of lsb]
        by (auto simp: oggpack_read_def oggpack_look_def Let_def and.commute)
    qed
  qed
qed


lemma halves: "n \<le> 32 \<Longrightarrow> nat ((33 - int n) div 2) + nat ((32 - int n) div 2) = 32 - n"
  by linarith

lemma oggpackB_read_reading:
  assumes "reading msb b xs" and n: "n \<le> 32"
  shows "if n \<le> length xs then
      (\<exists>b'. oggpackB_read b (int n) = Some (b', msb_num (take n xs)) \<and> reading msb b' (drop n xs))
      \<and> oggpackB_look b (int n) = Some (msb_num (take n xs))
    else oggpackB_read b (int n) = Some (pk_overflow b, -1) \<and> oggpackB_look b (int n) = Some (-1)"
proof -
  obtain bs p e where b: "b = pk bs p e" "e < 8" "8 * p + e \<le> 8 * length bs"
    "xs = map (gbit msb bs) [8 * p + e..<8 * length bs]"
    using assms(1) by (auto simp: reading_def)
  note bey = beyond_pk [OF b(3), of n]
  have main: "endbyte b \<ge> pk_storage b - 4 \<longleftrightarrow> endbyte b + 4 \<ge> pk_storage b" by linarith
  show ?thesis
  proof (cases "n \<le> length xs")
    case False
    then have out: "beyond b (int n + int e)" using bey b by simp
    moreover from out have "endbyte b \<ge> pk_storage b - 4"
      using n b(2) unfolding beyond_def b(1) pk_sel by linarith
    ultimately show ?thesis
      using False n b(1) main by (simp add: oggpackB_read_def oggpackB_look_def Let_def)
  next
    case True
    then have fit: "8 * p + e + n \<le> 8 * length bs" and inside: "\<not> beyond b (int n + int e)"
      using bey b by auto
    show ?thesis
    proof (cases "endbyte b \<ge> pk_storage b - 4 \<and> int n + int e = 0")
      case zero: True
      then have n0: "n = 0" "e = 0" by simp_all
      then show ?thesis
        using zero b(1) inside assms(1) main
        by (simp add: n0 oggpackB_read_def oggpackB_look_def msb_num_def)
    next
      case nonzero: False
      have "p + (n + e - 1) div 8 < length bs"
        by (rule room_for_read [OF fit b(2) n]) (use nonzero b(1) in auto)
      then obtain r where r: "gather_msb b (int n + int e) = Some r"
        "\<forall>i < 32. i + e < max 1 (n + e) \<longrightarrow> (bit r (31 - i) \<longleftrightarrow> gbit msb bs (8 * p + e + i))"
        using gather_msb_pk [of "n + e" e p bs] n b(1,2) by auto
      have "drop_bit (32 - n) r = msb_num (take n xs)"
      proof (rule bit_word_eqI)
        fix i assume i: "i < LENGTH(32)"
        show "bit (drop_bit (32 - n) r) i \<longleftrightarrow> bit (msb_num (take n xs)) i"
        proof (cases "i < n")
          case True
          then have "bit (drop_bit (32 - n) r) i \<longleftrightarrow> bit r (31 - (n - 1 - i))"
            using n by (simp add: bit_drop_bit_eq)
          also have "\<dots> \<longleftrightarrow> gbit msb bs (8 * p + e + (n - 1 - i))"
            using r(2) [rule_format, of "n - 1 - i"] True n by simp
          also have "\<dots> \<longleftrightarrow> bit (msb_num (take n xs)) i"
            using True n \<open>n \<le> length xs\<close> i fit by (simp add: bit_msb_num b(4) del: take_map)
          finally show ?thesis .
        next
          case False
          then have "\<not> bit r (32 - n + i)" using n by (auto dest: bit_imp_le_length)
          then show ?thesis using False by (auto simp: bit_drop_bit_eq bit_msb_num)
        qed
      qed
      then show ?thesis
        using True r(1) inside nonzero n b main reading_advance [OF fit, of msb]
        by (auto simp: oggpackB_read_def oggpackB_look_def Let_def halves [OF n])
    qed
  qed
qed

section \<open>Single bits\<close>

lemma adv1_pk:
  assumes "e < 8" "8 * p + e < 8 * length bs"
  shows "reading f (oggpack_adv1 (pk bs p e)) (map (gbit f bs) [8 * p + e + 1..<8 * length bs])"
proof (cases "e = 7")
  case True
  then have "oggpack_adv1 (pk bs p e) = pk bs (p + 1) 0"
    by (simp add: oggpack_adv1_def pk_def)
  then show ?thesis
    using assms True unfolding reading_def
    by (intro exI [of _ bs] exI [of _ "p + 1"] exI [of _ 0]) simp
next
  case False
  then have "oggpack_adv1 (pk bs p e) = pk bs p (e + 1)"
    using assms(1) by (simp add: oggpack_adv1_def pk_def)
  then show ?thesis
    using assms False unfolding reading_def
    by (intro exI [of _ bs] exI [of _ p] exI [of _ "e + 1"]) simp
qed

lemma read1_reading:
  assumes "reading lsb b xs"
  shows "oggpack_read1 b = Some (case xs of [] \<Rightarrow> (pk_overflow b, -1) | x # _ \<Rightarrow> (oggpack_adv1 b, of_bool x))
    \<and> oggpack_look1 b = Some (case xs of [] \<Rightarrow> -1 | x # _ \<Rightarrow> of_bool x)
    \<and> (xs \<noteq> [] \<longrightarrow> reading lsb (oggpack_adv1 b) (tl xs))"
proof -
  obtain bs p e where b: "b = pk bs p e" "e < 8" "8 * p + e \<le> 8 * length bs"
    "xs = map (gbit lsb bs) [8 * p + e..<8 * length bs]"
    using assms by (auto simp: reading_def)
  have bit0: "ucast (drop_bit e (bs ! p) AND 1) = (of_bool (gbit lsb bs (8 * p + e)) :: 32 word)"
    using b(2) by (intro bit_word_eqI) (auto simp: bit_simps gbit_def lsb_def)
  show ?thesis
  proof (cases "8 * p + e < 8 * length bs")
    case True
    then have "xs = gbit lsb bs (8 * p + e) # map (gbit lsb bs) [8 * p + e + 1..<8 * length bs]"
      using b(4) by (simp add: upt_conv_Cons)
    moreover have "p < length bs" using True by linarith
    ultimately show ?thesis
      using b adv1_pk [OF b(2) True, of lsb] bit0
      by (simp add: oggpack_read1_def oggpack_look1_def pk_get_pk)
  next
    case False
    then have "xs = []" "length bs \<le> p" using b(2-4) by (simp, linarith)
    then show ?thesis using b(1) by (simp add: oggpack_read1_def oggpack_look1_def)
  qed
qed


section \<open>What has been written is read back\<close>

fun write_all :: "writer \<Rightarrow> oggpack_buffer \<Rightarrow> (32 word \<times> nat) list \<Rightarrow> oggpack_buffer option" where
  "write_all w b [] = Some b"
| "write_all w b ((v, n) # items) = do { b \<leftarrow> w b v (int n); write_all w b items }"

fun read_all :: "(oggpack_buffer \<Rightarrow> int \<Rightarrow> (oggpack_buffer \<times> 32 word) option) \<Rightarrow> oggpack_buffer \<Rightarrow>
    nat list \<Rightarrow> (oggpack_buffer \<times> 32 word list) option" where
  "read_all r b [] = Some (b, [])"
| "read_all r b (n # ns) = do { (b, v) \<leftarrow> r b (int n); (b, vs) \<leftarrow> read_all r b ns; Some (b, v # vs) }"

text \<open>The bits of all items, one after the other.\<close>

definition item_bits :: "(32 word \<Rightarrow> nat \<Rightarrow> bool list) \<Rightarrow> (32 word \<times> nat) list \<Rightarrow> bool list" where
  "item_bits val items = concat (map (\<lambda>(v, n). val v n) items)"

lemma item_bits_simps [simp]:
  "item_bits val [] = []" "item_bits val ((v, n) # items) = val v n @ item_bits val items"
  by (simp_all add: item_bits_def)

text \<open>The contract of the two writers and of the two readers.\<close>

locale bit_packer =
  fixes f :: "nat \<Rightarrow> nat" and val :: "32 word \<Rightarrow> nat \<Rightarrow> bool list" and num :: "bool list \<Rightarrow> 32 word"
    and w :: "byte alloc \<Rightarrow> writer" and r :: "oggpack_buffer \<Rightarrow> int \<Rightarrow> (oggpack_buffer \<times> 32 word) option"
    and least :: nat
  assumes w_packed: "alloc_ok al \<Longrightarrow> packed f b xs \<Longrightarrow> n \<le> 32 \<Longrightarrow> least \<le> n \<Longrightarrow>
      (\<exists>b'. w al b v (int n) = Some b' \<and> packed f b' (xs @ val v n))
      \<or> (w al b v (int n) = Some (oggpack_writeclear b) \<and> out_of_memory al b)"
    and w_cleared: "w al (oggpack_writeclear b) v k = Some (oggpack_writeclear b)"
    and r_reading: "reading f b xs \<Longrightarrow> n \<le> 32 \<Longrightarrow> n \<le> length xs \<Longrightarrow>
      \<exists>b'. r b (int n) = Some (b', num (take n xs)) \<and> reading f b' (drop n xs)"
    and val_length: "length (val v n) = n"
    and num_val: "n \<le> 32 \<Longrightarrow> num (val v n) = take_bit n v"
begin

lemma write_all_cleared: "write_all (w al) (oggpack_writeclear b) items = Some (oggpack_writeclear b)"
  by (induction items) (auto simp: w_cleared)

lemma write_all_packed:
  assumes "alloc_ok al" and "packed f b xs" and "\<forall>(v, n) \<in> set items. least \<le> n \<and> n \<le> 32"
  shows "(\<exists>b'. write_all (w al) b items = Some b' \<and> packed f b' (xs @ item_bits val items))
    \<or> (write_all (w al) b items = Some (oggpack_writeclear b)
       \<and> memory_short al (length xs + length (item_bits val items)))"
  using assms(2,3)
proof (induction items arbitrary: b xs)
  case (Cons it items)
  obtain v n where it: "it = (v, n)" by force
  from w_packed [OF assms(1) Cons.prems(1), of n v] Cons.prems(2) it
  consider b' where "w al b v (int n) = Some b'" "packed f b' (xs @ val v n)"
    | "w al b v (int n) = Some (oggpack_writeclear b)" "out_of_memory al b" by auto
  then show ?case
  proof cases
    case 1
    then show ?thesis
      using Cons.IH [OF 1(2)] Cons.prems(2) writeclear_const [of b' b] by (auto simp: it ac_simps)
  next
    case 2
    then have "memory_short al (length xs)" using out_of_memory_short [OF Cons.prems(1)] by simp
    then have "memory_short al (length xs + length (item_bits val (it # items)))"
      by (rule memory_short_mono) simp
    then show ?thesis using 2(1) by (simp add: it write_all_cleared)
  qed
qed auto

lemma read_all_reading:
  assumes "reading f b (item_bits val items @ zs)" and "\<forall>(v, n) \<in> set items. n \<le> 32"
  shows "\<exists>b'. read_all r b (map snd items) = Some (b', map (\<lambda>(v, n). take_bit n v) items) \<and> reading f b' zs"
  using assms
proof (induction items arbitrary: b)
  case (Cons it items)
  obtain v n where it: "it = (v, n)" by force
  have "n \<le> 32" using Cons.prems(2) it by simp
  moreover have "reading f b (val v n @ item_bits val items @ zs)" using Cons.prems(1) it by simp
  ultimately obtain b' where "r b (int n) = Some (b', num (take n (val v n @ item_bits val items @ zs)))"
    "reading f b' (drop n (val v n @ item_bits val items @ zs))"
    using r_reading [of b "val v n @ item_bits val items @ zs" n] val_length [of v n] by auto
  then have b': "r b (int n) = Some (b', take_bit n v)" "reading f b' (item_bits val items @ zs)"
    using val_length [of v n] num_val [OF \<open>n \<le> 32\<close>] by simp_all
  show ?case using Cons.IH [OF b'(2)] Cons.prems(2) b'(1) by (auto simp: it)
qed auto

end

lemma lsb_num_value: "n \<le> 32 \<Longrightarrow> lsb_num (lsb_value v n) = take_bit n v"
  by (rule bit_word_eqI) (auto simp: bit_lsb_num lsb_value_def bit_take_bit_iff)

lemma msb_num_value: "n \<le> 32 \<Longrightarrow> msb_num (msb_value v n) = take_bit n v"
proof (rule bit_word_eqI)
  fix i assume "n \<le> 32" "i < LENGTH(32)"
  then show "bit (msb_num (msb_value v n)) i \<longleftrightarrow> bit (take_bit n v) i"
    by (cases "i < n") (auto simp: bit_msb_num msb_value_def bit_take_bit_iff rev_nth)
qed

interpretation lsbp: bit_packer lsb lsb_value lsb_num oggpack_write oggpack_read 0
proof (unfold_locales, goal_cases)
  case (1 al b xs n v)
  then show ?case using oggpack_write_packed [OF 1(1,2,3)] by simp
next
  case (3 b xs n)
  then show ?case using oggpack_read_reading [OF 3(1,2)] by simp
qed (simp_all add: write_cleared lsb_value_def lsb_num_value [unfolded lsb_value_def])

interpretation msbp: bit_packer msb msb_value msb_num oggpackB_write oggpackB_read 1
proof (unfold_locales, goal_cases)
  case (1 al b xs n v)
  then show ?case using oggpackB_write_packed [OF 1(1,2,3)] by simp
next
  case (3 b xs n)
  then show ?case using oggpackB_read_reading [OF 3(1,2)] by simp
qed (simp_all add: write_cleared msb_value_def msb_num_value [unfolded msb_value_def])


text \<open>A written buffer, read from its start.\<close>

lemma packed_bytes:
  assumes "packed f b xs"
  shows "\<exists>bs zs. oggpack_get_buffer b = Some bs \<and> 0 \<le> oggpack_bytes b \<and> oggpack_bytes b \<le> int (length bs)
    \<and> oggpack_bits b = int (length xs) \<and> oggpack_writecheck b = 0
    \<and> reading f (oggpack_readinit (take (nat (oggpack_bytes b)) bs) (oggpack_bytes b)) (xs @ zs)
    \<and> length zs < 8 \<and> True \<notin> set zs"
proof -
  obtain bs p e where b: "b = pk bs p e" "p < length bs" "e < 8" "clean f bs p e"
    "xs = map (gbit f bs) [0..<8 * p + e]"
    using assms by (auto simp: packed_def)
  let ?n = "p + (e + 7) div 8" and ?zs = "map (gbit f bs) [8 * p + e..<8 * (p + (e + 7) div 8)]"
  have bytes: "oggpack_bytes b = int ?n" by (simp add: oggpack_bytes_def b(1) zdiv_int)
  have "(e + 7) div 8 = (if e = 0 then 0 else 1)"
  proof (cases "e = 0")
    case False
    then have "(e + 7) div 8 = 1" using b(3) by linarith
    then show ?thesis using False by simp
  qed simp
  then have n: "?n \<le> length bs" "8 * p + e \<le> 8 * ?n" "8 * ?n - (8 * p + e) < 8" "8 * ?n \<le> 8 * p + 8"
    using b(2,3) by auto
  have "gbit f (take ?n bs) i = gbit f bs i" if "i < 8 * ?n" for i
    using less_mult_imp_div_less [of i ?n 8] that by (simp add: gbit_def mult.commute)
  then have "map (gbit f (take ?n bs)) [0..<8 * ?n] = map (gbit f bs) [0..<8 * ?n]"
    by (intro map_cong) auto
  also have "\<dots> = xs @ ?zs"
    using upt_add_eq_append [of 0 "8 * p + e" "8 * ?n - (8 * p + e)"] n(2)
    unfolding b(5) map_append [symmetric] by simp
  finally have "map (gbit f (take ?n bs)) [0..<8 * ?n] = xs @ ?zs" .
  moreover have "oggpack_readinit (take ?n bs) (int ?n) = pk (take ?n bs) 0 0"
    using n(1) by (simp add: oggpack_readinit_def pk_def)
  ultimately have "reading f (oggpack_readinit (take (nat (oggpack_bytes b)) bs) (oggpack_bytes b)) (xs @ ?zs)"
    using n(1) unfolding reading_def bytes nat_int
    by (intro exI [of _ "take ?n bs"] exI [of _ 0]) (simp add: min_absorb2)
  moreover have "True \<notin> set ?zs"
  proof
    assume "True \<in> set ?zs"
    then obtain i where i: "8 * p + e \<le> i" "i < 8 * ?n" "gbit f bs i" by auto
    then have "i div 8 = p" using n(4) by linarith
    moreover have "e \<le> i mod 8" using i(1) calculation minus_mult_div_eq_mod [of i 8] by linarith
    ultimately have "i div 8 = p" "e \<le> i mod 8" by simp_all
    then show False using i(3) b(4) by (simp add: gbit_def clean_def)
  qed
  moreover have "oggpack_bits b = int (length xs)" "oggpack_writecheck b = 0"
    using b(1,2,5) by (auto simp: oggpack_bits_def oggpack_writecheck_def)
  moreover have "oggpack_get_buffer b = Some bs" by (simp add: oggpack_get_buffer_def b(1))
  ultimately show ?thesis using n bytes by (intro exI [of _ bs] exI [of _ ?zs]) auto
qed

definition reads_back :: "byte alloc \<Rightarrow> writer \<Rightarrow> (oggpack_buffer \<Rightarrow> int \<Rightarrow> (oggpack_buffer \<times> 32 word) option) \<Rightarrow>
    oggpack_buffer \<Rightarrow> (32 word \<times> nat) list \<Rightarrow> bool" where
  "reads_back al w r b items \<longleftrightarrow> (\<exists>b'. write_all w b items = Some b' \<and>
     (oggpack_writecheck b' = 0 \<or> memory_short al (sum_list (map snd items))) \<and>
     (oggpack_writecheck b' = 0 \<longrightarrow> (\<exists>bs b''. oggpack_get_buffer b' = Some bs \<and> oggpack_bytes b' \<le> int (length bs) \<and>
        oggpack_bits b' = int (sum_list (map snd items)) \<and>
        read_all r (oggpack_readinit (take (nat (oggpack_bytes b')) bs) (oggpack_bytes b')) (map snd items)
          = Some (b'', map (\<lambda>(v, n). take_bit n v) items))))"

context bit_packer
begin

lemma length_item_bits: "length (item_bits val items) = sum_list (map snd items)"
  by (induction items) (auto simp: val_length)

lemma roundtrip:
  assumes "alloc_ok al" and "oggpack_writeinit al = Some b" and "\<forall>(v, n) \<in> set items. least \<le> n \<and> n \<le> 32"
  shows "reads_back al (w al) r b items"
  using write_all_packed [OF assms(1) oggpack_writeinit_packed [OF assms(1,2)] assms(3)]
proof (elim disjE exE conjE)
  fix b' assume b': "write_all (w al) b items = Some b'" "packed f b' ([] @ item_bits val items)"
  obtain bs zs where "oggpack_get_buffer b' = Some bs" "oggpack_bytes b' \<le> int (length bs)"
    "oggpack_bits b' = int (length (item_bits val items))" "oggpack_writecheck b' = 0"
    "reading f (oggpack_readinit (take (nat (oggpack_bytes b')) bs) (oggpack_bytes b')) (item_bits val items @ zs)"
    using packed_bytes [OF b'(2)] by auto
  moreover have "\<forall>(v, n) \<in> set items. n \<le> 32" using assms(3) by auto
  ultimately show ?thesis
    using b'(1) read_all_reading unfolding reads_back_def length_item_bits [symmetric] by blast
next
  assume "write_all (w al) b items = Some (oggpack_writeclear b)"
    "memory_short al (length [] + length (item_bits val items))"
  moreover have "oggpack_writecheck (oggpack_writeclear b) \<noteq> 0"
    by (simp add: oggpack_writecheck_def oggpack_writeclear_def)
  ultimately show ?thesis
    unfolding reads_back_def length_item_bits [symmetric] by auto
qed

end

text \<open>C29: Values of up to 32 bits that are packed one after the other, in either bit order, fill exactly
  the bytes that \<open>oggpack_bytes\<close> reports, and reading the same widths from these bytes gives back
  each value cut to its width. Only when memory runs short or the buffer would exceed the \<open>long\<close>
  range, the writer is cleared for good, which \<open>oggpack_writecheck\<close> reports. No access leaves the allocated block.\<close>

theorem oggpack_roundtrip:
  assumes "alloc_ok al" and "oggpack_writeinit al = Some b" and "\<forall>(v, n) \<in> set items. 1 \<le> n \<and> n \<le> 32"
  shows "reads_back al (oggpack_write al) oggpack_read b items
    \<and> reads_back al (oggpackB_write al) oggpackB_read b items"
proof
  have "\<forall>(v, n) \<in> set items. 0 \<le> n \<and> n \<le> 32" using assms(3) by auto
  then show "reads_back al (oggpack_write al) oggpack_read b items"
    by (rule lsbp.roundtrip [OF assms(1,2)])
  show "reads_back al (oggpackB_write al) oggpackB_read b items"
    by (rule msbp.roundtrip [OF assms])
qed

definition demo_alloc :: "byte alloc" where
  "demo_alloc n = Some (replicate (nat n) 0xAA)"

lemma demo_alloc_ok: "alloc_ok demo_alloc"
  by (auto simp: alloc_ok_def demo_alloc_def)

lemma demo_init: "oggpack_writeinit demo_alloc = Some (pk ((replicate 256 0xAA)[0 := 0]) 0 0)"
  by (simp add: oggpack_writeinit_def demo_alloc_def wr_def pk_def BUFFER_INCREMENT_def)

theorem oggpack_roundtrip_witness:
  "reads_back demo_alloc (oggpack_write demo_alloc) oggpack_read (pk ((replicate 256 0xAA)[0 := 0]) 0 0)
     [(5, 3), (0xDEADBEEF, 32), (1, 1)]
   \<and> reads_back demo_alloc (oggpackB_write demo_alloc) oggpackB_read (pk ((replicate 256 0xAA)[0 := 0]) 0 0)
     [(5, 3), (0xDEADBEEF, 32), (1, 1)]"
  by (rule oggpack_roundtrip [OF demo_alloc_ok demo_init]) simp

text \<open>After an access beyond the end every further read fails in the same way.\<close>

lemma pk_overflow_idem [simp]: "pk_overflow (pk_overflow b) = pk_overflow b"
  by (simp add: pk_overflow_def)

lemma read_overflow:
  assumes "0 \<le> n" "n \<le> 32"
  shows "oggpack_read (pk_overflow b) n = Some (pk_overflow b, -1)"
    and "oggpackB_read (pk_overflow b) n = Some (pk_overflow b, -1)"
proof -
  have "(n + 1 + 7) div 8 > 0" using assms by linarith
  then have "beyond (pk_overflow b) (n + 1)" by (simp add: beyond_def pk_overflow_def)
  then show "oggpack_read (pk_overflow b) n = Some (pk_overflow b, -1)"
    "oggpackB_read (pk_overflow b) n = Some (pk_overflow b, -1)"
    using assms by (simp_all add: oggpack_read_def oggpackB_read_def Let_def) (simp_all add: pk_overflow_def)
qed

text \<open>C33: Reading up to 32 bits of a packet never leaves its bytes: when that many bits are left, they
  are taken off the front (the first one being the lowest, or the highest, of the value), and
  looking at them leaves the position; otherwise \<open>-1\<close> is returned, now and by every later read.\<close>

theorem oggpack_read_safe:
  assumes "reading lsb b xs" and "reading msb c ys" and "n \<le> 32"
  shows "(if n \<le> length xs
      then (\<exists>b'. oggpack_read b (int n) = Some (b', lsb_num (take n xs)) \<and> reading lsb b' (drop n xs))
        \<and> oggpack_look b (int n) = Some (lsb_num (take n xs))
      else oggpack_read b (int n) = Some (pk_overflow b, -1) \<and> oggpack_look b (int n) = Some (-1)
        \<and> (\<forall>k \<in> {0..32}. oggpack_read (pk_overflow b) k = Some (pk_overflow b, -1)))
    \<and> (if n \<le> length ys
      then (\<exists>c'. oggpackB_read c (int n) = Some (c', msb_num (take n ys)) \<and> reading msb c' (drop n ys))
        \<and> oggpackB_look c (int n) = Some (msb_num (take n ys))
      else oggpackB_read c (int n) = Some (pk_overflow c, -1) \<and> oggpackB_look c (int n) = Some (-1)
        \<and> (\<forall>k \<in> {0..32}. oggpackB_read (pk_overflow c) k = Some (pk_overflow c, -1)))"
  using oggpack_read_reading [OF assms(1,3)] oggpackB_read_reading [OF assms(2,3)] read_overflow
  by (simp split: if_splits)

lemma reading_readinit: "reading f (oggpack_readinit bs (int (length bs))) (bits_of f bs)"
  unfolding reading_def by (intro exI [of _ bs] exI [of _ 0]) (simp add: oggpack_readinit_def pk_def bits_of_def)

lemma length_bits_of [simp]: "length (bits_of f bs) = 8 * length bs"
  by (simp add: bits_of_def)

theorem oggpack_read_safe_witness:
  "(\<exists>b'. oggpack_read (oggpack_readinit [0xB5, 0x03] 2) 9 = Some (b', 0x1B5))
   \<and> oggpackB_look (oggpack_readinit [0xB5, 0x03] 2) 9 = Some (msb_num (take 9 (bits_of msb [0xB5, 0x03])))
   \<and> oggpack_read (oggpack_readinit [0xB5, 0x03] 2) 17 = Some (pk_overflow (oggpack_readinit [0xB5, 0x03] 2), -1)"
proof -
  have "lsb_num (take 9 (bits_of lsb [0xB5, 0x03])) = 0x1B5"
    by (simp add: bits_of_def upt_rec gbit_def lsb_def lsb_num_def)
  then show ?thesis
    using oggpack_read_safe [OF reading_readinit [of lsb "[0xB5, 0x03]"] reading_readinit [of msb "[0xB5, 0x03]"], of 9]
      oggpack_read_safe [OF reading_readinit [of lsb "[0xB5, 0x03]"] reading_readinit [of msb "[0xB5, 0x03]"], of 17]
    by auto
qed

end
