(* ===== verification/OggFraming.thy ===== *)
theory OggFraming
  imports OggBase
begin

unbundle bit_operations_syntax

text \<open>
  \<^verbatim>\<open>src/ogg123/src/framing.c\<close>: the framing of packets into the pages of an Ogg stream and back. An
  encoder cuts each packet into segments of at most 255 bytes and puts them into pages with a
  checksum; \<open>ogg_sync_*\<close> finds the pages in a sequence of bytes, and a decoder joins their segments
  to packets again. This theory holds the data and the operations.

  A page or packet that the code describes by pointers into the memory of the stream is the list of
  its bytes here, as all callers use it before the next call for the same stream. The blocks of a
  stream are lists as long as the allocated memory, with arbitrary content behind the fill mark.
  Lacing values, serial and page numbers are 32 bit words, positions 64 bit words.
\<close>

section \<open>Pages\<close>

record ogg_page =
  pg_header :: "byte list"
  pg_body :: "byte list"

record ogg_packet =
  op_packet :: "byte list"
  op_bos :: bool
  op_eos :: bool
  op_granulepos :: "64 word"
  op_packetno :: "64 word"

text \<open>Little-endian numbers.\<close>

fun le_bytes :: "nat \<Rightarrow> 'a::len word \<Rightarrow> byte list" where
  "le_bytes 0 w = []"
| "le_bytes (Suc n) w = ucast (w AND 0xff) # le_bytes n (drop_bit 8 w)"

fun le_num :: "byte list \<Rightarrow> 'a::len word" where
  "le_num [] = 0"
| "le_num (b # bs) = push_bit 8 (le_num bs) OR ucast b"

definition ogg_page_version :: "ogg_page \<Rightarrow> byte option" where
  "ogg_page_version og = rd (pg_header og) 4"

definition ogg_page_continued :: "ogg_page \<Rightarrow> bool option" where
  "ogg_page_continued og = do { c \<leftarrow> rd (pg_header og) 5; Some (c AND 0x01 \<noteq> 0) }"

definition ogg_page_bos :: "ogg_page \<Rightarrow> bool option" where
  "ogg_page_bos og = do { c \<leftarrow> rd (pg_header og) 5; Some (c AND 0x02 \<noteq> 0) }"

definition ogg_page_eos :: "ogg_page \<Rightarrow> bool option" where
  "ogg_page_eos og = do { c \<leftarrow> rd (pg_header og) 5; Some (c AND 0x04 \<noteq> 0) }"

definition ogg_page_granulepos :: "ogg_page \<Rightarrow> 64 word option" where
  "ogg_page_granulepos og = do { bs \<leftarrow> rd_blk (pg_header og) 6 8; Some (le_num bs) }"

definition ogg_page_serialno :: "ogg_page \<Rightarrow> 32 word option" where
  "ogg_page_serialno og = do { bs \<leftarrow> rd_blk (pg_header og) 14 4; Some (le_num bs) }"

definition ogg_page_pageno :: "ogg_page \<Rightarrow> 32 word option" where
  "ogg_page_pageno og = do { bs \<leftarrow> rd_blk (pg_header og) 18 4; Some (le_num bs) }"

definition ogg_page_packets :: "ogg_page \<Rightarrow> int option" where
  "ogg_page_packets og = do {
     n \<leftarrow> rd (pg_header og) 26;
     segs \<leftarrow> rd_blk (pg_header og) 27 (uint n);
     Some (int (length (filter (\<lambda>v. v < 255) segs))) }"

section \<open>The checksum\<close>

definition crc_lookup :: "32 word list" where
  "crc_lookup =
    [0x00000000, 0x04c11db7, 0x09823b6e, 0x0d4326d9, 0x130476dc, 0x17c56b6b, 0x1a864db2, 0x1e475005,
     0x2608edb8, 0x22c9f00f, 0x2f8ad6d6, 0x2b4bcb61, 0x350c9b64, 0x31cd86d3, 0x3c8ea00a, 0x384fbdbd,
     0x4c11db70, 0x48d0c6c7, 0x4593e01e, 0x4152fda9, 0x5f15adac, 0x5bd4b01b, 0x569796c2, 0x52568b75,
     0x6a1936c8, 0x6ed82b7f, 0x639b0da6, 0x675a1011, 0x791d4014, 0x7ddc5da3, 0x709f7b7a, 0x745e66cd,
     0x9823b6e0, 0x9ce2ab57, 0x91a18d8e, 0x95609039, 0x8b27c03c, 0x8fe6dd8b, 0x82a5fb52, 0x8664e6e5,
     0xbe2b5b58, 0xbaea46ef, 0xb7a96036, 0xb3687d81, 0xad2f2d84, 0xa9ee3033, 0xa4ad16ea, 0xa06c0b5d,
     0xd4326d90, 0xd0f37027, 0xddb056fe, 0xd9714b49, 0xc7361b4c, 0xc3f706fb, 0xceb42022, 0xca753d95,
     0xf23a8028, 0xf6fb9d9f, 0xfbb8bb46, 0xff79a6f1, 0xe13ef6f4, 0xe5ffeb43, 0xe8bccd9a, 0xec7dd02d,
     0x34867077, 0x30476dc0, 0x3d044b19, 0x39c556ae, 0x278206ab, 0x23431b1c, 0x2e003dc5, 0x2ac12072,
     0x128e9dcf, 0x164f8078, 0x1b0ca6a1, 0x1fcdbb16, 0x018aeb13, 0x054bf6a4, 0x0808d07d, 0x0cc9cdca,
     0x7897ab07, 0x7c56b6b0, 0x71159069, 0x75d48dde, 0x6b93dddb, 0x6f52c06c, 0x6211e6b5, 0x66d0fb02,
     0x5e9f46bf, 0x5a5e5b08, 0x571d7dd1, 0x53dc6066, 0x4d9b3063, 0x495a2dd4, 0x44190b0d, 0x40d816ba,
     0xaca5c697, 0xa864db20, 0xa527fdf9, 0xa1e6e04e, 0xbfa1b04b, 0xbb60adfc, 0xb6238b25, 0xb2e29692,
     0x8aad2b2f, 0x8e6c3698, 0x832f1041, 0x87ee0df6, 0x99a95df3, 0x9d684044, 0x902b669d, 0x94ea7b2a,
     0xe0b41de7, 0xe4750050, 0xe9362689, 0xedf73b3e, 0xf3b06b3b, 0xf771768c, 0xfa325055, 0xfef34de2,
     0xc6bcf05f, 0xc27dede8, 0xcf3ecb31, 0xcbffd686, 0xd5b88683, 0xd1799b34, 0xdc3abded, 0xd8fba05a,
     0x690ce0ee, 0x6dcdfd59, 0x608edb80, 0x644fc637, 0x7a089632, 0x7ec98b85, 0x738aad5c, 0x774bb0eb,
     0x4f040d56, 0x4bc510e1, 0x46863638, 0x42472b8f, 0x5c007b8a, 0x58c1663d, 0x558240e4, 0x51435d53,
     0x251d3b9e, 0x21dc2629, 0x2c9f00f0, 0x285e1d47, 0x36194d42, 0x32d850f5, 0x3f9b762c, 0x3b5a6b9b,
     0x0315d626, 0x07d4cb91, 0x0a97ed48, 0x0e56f0ff, 0x1011a0fa, 0x14d0bd4d, 0x19939b94, 0x1d528623,
     0xf12f560e, 0xf5ee4bb9, 0xf8ad6d60, 0xfc6c70d7, 0xe22b20d2, 0xe6ea3d65, 0xeba91bbc, 0xef68060b,
     0xd727bbb6, 0xd3e6a601, 0xdea580d8, 0xda649d6f, 0xc423cd6a, 0xc0e2d0dd, 0xcda1f604, 0xc960ebb3,
     0xbd3e8d7e, 0xb9ff90c9, 0xb4bcb610, 0xb07daba7, 0xae3afba2, 0xaafbe615, 0xa7b8c0cc, 0xa379dd7b,
     0x9b3660c6, 0x9ff77d71, 0x92b45ba8, 0x9675461f, 0x8832161a, 0x8cf30bad, 0x81b02d74, 0x857130c3,
     0x5d8a9099, 0x594b8d2e, 0x5408abf7, 0x50c9b640, 0x4e8ee645, 0x4a4ffbf2, 0x470cdd2b, 0x43cdc09c,
     0x7b827d21, 0x7f436096, 0x7200464f, 0x76c15bf8, 0x68860bfd, 0x6c47164a, 0x61043093, 0x65c52d24,
     0x119b4be9, 0x155a565e, 0x18197087, 0x1cd86d30, 0x029f3d35, 0x065e2082, 0x0b1d065b, 0x0fdc1bec,
     0x3793a651, 0x3352bbe6, 0x3e119d3f, 0x3ad08088, 0x2497d08d, 0x2056cd3a, 0x2d15ebe3, 0x29d4f654,
     0xc5a92679, 0xc1683bce, 0xcc2b1d17, 0xc8ea00a0, 0xd6ad50a5, 0xd26c4d12, 0xdf2f6bcb, 0xdbee767c,
     0xe3a1cbc1, 0xe760d676, 0xea23f0af, 0xeee2ed18, 0xf0a5bd1d, 0xf464a0aa, 0xf9278673, 0xfde69bc4,
     0x89b8fd09, 0x8d79e0be, 0x803ac667, 0x84fbdbd0, 0x9abc8bd5, 0x9e7d9662, 0x933eb0bb, 0x97ffad0c,
     0xafb010b1, 0xab710d06, 0xa6322bdf, 0xa2f33668, 0xbcb4666d, 0xb8757bda, 0xb5365d03, 0xb1f740b4]"

text \<open>The function that computes the table, which the code shows in a comment.\<close>

definition crc_round :: "32 word \<Rightarrow> 32 word" where
  "crc_round r = (if r AND 0x80000000 \<noteq> 0 then push_bit 1 r XOR 0x04c11db7 else push_bit 1 r)"

fun crc_rounds :: "nat \<Rightarrow> 32 word \<Rightarrow> 32 word" where
  "crc_rounds 0 r = r"
| "crc_rounds (Suc n) r = crc_rounds n (crc_round r)"

definition ogg_crc_entry :: "nat \<Rightarrow> 32 word" where
  "ogg_crc_entry i = crc_rounds 8 (push_bit 24 (of_nat i))"

definition crc_step :: "32 word \<Rightarrow> byte \<Rightarrow> 32 word" where
  "crc_step reg c = push_bit 8 reg XOR crc_lookup ! unat ((drop_bit 24 reg AND 0xff) XOR ucast c)"

definition page_crc :: "ogg_page \<Rightarrow> 32 word" where
  "page_crc og = fold (\<lambda>c reg. crc_step reg c) (pg_body og) (fold (\<lambda>c reg. crc_step reg c) (pg_header og) 0)"

definition ogg_page_checksum_set :: "ogg_page \<Rightarrow> ogg_page option" where
  "ogg_page_checksum_set og = do {
     h \<leftarrow> wr_blk (pg_header og) 22 [0, 0, 0, 0];
     let og = og\<lparr>pg_header := h\<rparr>;
     h \<leftarrow> wr_blk h 22 (le_bytes 4 (page_crc og));
     Some (og\<lparr>pg_header := h\<rparr>) }"

section \<open>The state of a logical stream\<close>

record ogg_stream_state =
  os_body :: "byte list option"
  os_body_storage :: int
  os_body_fill :: int
  os_body_returned :: int
  os_lacing :: "32 word list option"
  os_granule :: "64 word list option"
  os_lacing_storage :: int
  os_lacing_fill :: int
  os_lacing_packet :: int
  os_lacing_returned :: int
  os_header :: "byte list"
  os_header_fill :: int
  os_eos :: bool
  os_bos :: bool
  os_serialno :: "32 word"
  os_pageno :: "32 word"
  os_packetno :: "64 word"
  os_granulepos :: "64 word"

text \<open>The memory that the allocator finds for the three blocks.\<close>

record ogg_mem =
  mem_body :: "byte alloc"
  mem_lacing :: "32 word alloc"
  mem_granule :: "64 word alloc"

definition ogg_stream_zero :: "ogg_stream_state" where
  "ogg_stream_zero = \<lparr>os_body = None, os_body_storage = 0, os_body_fill = 0, os_body_returned = 0,
     os_lacing = None, os_granule = None, os_lacing_storage = 0, os_lacing_fill = 0,
     os_lacing_packet = 0, os_lacing_returned = 0, os_header = replicate 282 0, os_header_fill = 0,
     os_eos = False, os_bos = False, os_serialno = 0, os_pageno = 0, os_packetno = 0, os_granulepos = 0\<rparr>"

definition ogg_stream_clear :: "ogg_stream_state \<Rightarrow> ogg_stream_state" where
  "ogg_stream_clear os = ogg_stream_zero"

definition ogg_stream_init :: "ogg_mem \<Rightarrow> 32 word \<Rightarrow> ogg_stream_state \<times> int" where
  "ogg_stream_init mem serialno =
    (case (mem_body mem (16 * 1024), mem_lacing mem 1024, mem_granule mem 1024) of
       (Some b, Some l, Some g) \<Rightarrow>
         (ogg_stream_zero\<lparr>os_body_storage := 16 * 1024, os_lacing_storage := 1024, os_body := Some b,
            os_lacing := Some l, os_granule := Some g, os_serialno := serialno\<rparr>, 0)
     | _ \<Rightarrow> (ogg_stream_zero, -1))"

definition ogg_stream_check :: "ogg_stream_state \<Rightarrow> bool" where
  "ogg_stream_check os \<longleftrightarrow> os_body os \<noteq> None"

text \<open>Both functions return whether there is an error; then the stream has been cleared.\<close>

definition os_body_expand :: "ogg_mem \<Rightarrow> ogg_stream_state \<Rightarrow> int \<Rightarrow> ogg_stream_state \<times> bool" where
  "os_body_expand mem os needed =
    (if os_body_storage os - needed \<le> os_body_fill os then
       (if os_body_storage os > LONG_MAX - needed then (ogg_stream_clear os, True)
        else (let storage = os_body_storage os + needed;
                storage = (if storage < LONG_MAX - 1024 then storage + 1024 else storage) in
          (case realloc (mem_body mem) (case os_body os of None \<Rightarrow> [] | Some b \<Rightarrow> b) storage of
             None \<Rightarrow> (ogg_stream_clear os, True)
           | Some b \<Rightarrow> (os\<lparr>os_body_storage := storage, os_body := Some b\<rparr>, False))))
     else (os, False))"

definition os_lacing_expand :: "ogg_mem \<Rightarrow> ogg_stream_state \<Rightarrow> int \<Rightarrow> ogg_stream_state \<times> bool" where
  "os_lacing_expand mem os needed =
    (if os_lacing_storage os - needed \<le> os_lacing_fill os then
       (if os_lacing_storage os > LONG_MAX - needed then (ogg_stream_clear os, True)
        else (let storage = os_lacing_storage os + needed;
                storage = (if storage < LONG_MAX - 32 then storage + 32 else storage) in
          (case (realloc (mem_lacing mem) (case os_lacing os of None \<Rightarrow> [] | Some l \<Rightarrow> l) storage,
                 realloc (mem_granule mem) (case os_granule os of None \<Rightarrow> [] | Some g \<Rightarrow> g) storage) of
             (Some l, Some g) \<Rightarrow>
               (os\<lparr>os_lacing := Some l, os_granule := Some g, os_lacing_storage := storage\<rparr>, False)
           | _ \<Rightarrow> (ogg_stream_clear os, True))))
     else (os, False))"


section \<open>Encoding\<close>

text \<open>Data that has been handed out is removed from the front of the body.\<close>

definition shift_body :: "ogg_stream_state \<Rightarrow> ogg_stream_state option" where
  "shift_body os =
    (let br = os_body_returned os in
     if br \<noteq> 0 then do {
       b \<leftarrow> os_body os;
       let fill = os_body_fill os - br;
       b \<leftarrow> (if fill \<noteq> 0 then do { xs \<leftarrow> rd_blk b br fill; wr_blk b 0 xs } else Some b);
       Some (os\<lparr>os_body := Some b, os_body_fill := fill, os_body_returned := 0\<rparr>) }
     else Some os)"

definition append_body :: "ogg_stream_state \<Rightarrow> byte list \<Rightarrow> ogg_stream_state option" where
  "append_body os xs = do {
     b \<leftarrow> os_body os;
     b \<leftarrow> wr_blk b (os_body_fill os) xs;
     Some (os\<lparr>os_body := Some b, os_body_fill := os_body_fill os + int (length xs)\<rparr>) }"

fun append_bodies :: "ogg_stream_state \<Rightarrow> byte list list \<Rightarrow> ogg_stream_state option" where
  "append_bodies os [] = Some os"
| "append_bodies os (xs # xss) = do { os \<leftarrow> append_body os xs; append_bodies os xss }"

text \<open>The length of the packet, or \<open>None\<close> when it exceeds \<open>LONG_MAX\<close>.\<close>

fun iov_bytes :: "int \<Rightarrow> byte list list \<Rightarrow> int option" where
  "iov_bytes bytes [] = Some bytes"
| "iov_bytes bytes (v # vs) =
    (if int (length v) > LONG_MAX then None
     else if bytes > LONG_MAX - int (length v) then None
     else iov_bytes (bytes + int (length v)) vs)"

definition store_lacing :: "ogg_stream_state \<Rightarrow> int \<Rightarrow> 64 word \<Rightarrow> ogg_stream_state option" where
  "store_lacing os bytes granulepos =
    (let n = nat (bytes div 255) in do {
       l \<leftarrow> os_lacing os;
       g \<leftarrow> os_granule os;
       l \<leftarrow> wr_blk l (os_lacing_fill os) (replicate n 255 @ [of_int (bytes mod 255)]);
       g \<leftarrow> wr_blk g (os_lacing_fill os) (replicate n (os_granulepos os) @ [granulepos]);
       v \<leftarrow> rd l (os_lacing_fill os);
       l \<leftarrow> wr l (os_lacing_fill os) (v OR 0x100);
       Some (os\<lparr>os_lacing := Some l, os_granule := Some g, os_granulepos := granulepos,
         os_lacing_fill := os_lacing_fill os + int n + 1\<rparr>) })"

definition ogg_stream_iovecin :: "ogg_mem \<Rightarrow> ogg_stream_state \<Rightarrow> byte list list \<Rightarrow> bool \<Rightarrow> 64 word \<Rightarrow>
    (ogg_stream_state \<times> int) option" where
  "ogg_stream_iovecin mem os iov e_o_s granulepos =
    (if \<not> ogg_stream_check os then Some (os, -1)
     else (case iov_bytes 0 iov of
         None \<Rightarrow> Some (os, -1)
       | Some bytes \<Rightarrow> do {
           os \<leftarrow> shift_body os;
           let (os, err) = os_body_expand mem os bytes;
           if err then Some (os, -1) else do {
             let (os, err) = os_lacing_expand mem os (bytes div 255 + 1);
             if err then Some (os, -1) else do {
               os \<leftarrow> append_bodies os iov;
               os \<leftarrow> store_lacing os bytes granulepos;
               Some (os\<lparr>os_packetno := os_packetno os + 1, os_eos := os_eos os \<or> e_o_s\<rparr>, 0) } } }))"

definition ogg_stream_packetin :: "ogg_mem \<Rightarrow> ogg_stream_state \<Rightarrow> ogg_packet \<Rightarrow> (ogg_stream_state \<times> int) option" where
  "ogg_stream_packetin mem os op = ogg_stream_iovecin mem os [op_packet op] (op_eos op) (op_granulepos op)"

text \<open>How many segments go into the page: the initial page holds the first packet only.\<close>

fun first_vals :: "32 word list \<Rightarrow> nat" where
  "first_vals [] = 0"
| "first_vals (l # ls) = (if l AND 0xff < 255 then 1 else Suc (first_vals ls))"

text \<open>Any other page; the result says also whether the nominal size is reached, and its position.\<close>

fun page_vals :: "int \<Rightarrow> (32 word \<times> 64 word) list \<Rightarrow> nat \<Rightarrow> int \<Rightarrow> int \<Rightarrow> int \<Rightarrow> 64 word \<Rightarrow> nat \<times> bool \<times> 64 word" where
  "page_vals nfill [] vals acc packets_done just g = (vals, False, g)"
| "page_vals nfill ((l, gr) # ls) vals acc packets_done just g =
    (if acc > nfill \<and> just \<ge> 4 then (vals, True, g)
     else let acc = acc + uint (l AND 0xff) in
       if l AND 0xff < 255 then page_vals nfill ls (vals + 1) acc (packets_done + 1) (packets_done + 1) gr
       else page_vals nfill ls (vals + 1) acc packets_done 0 g)"

definition choose_vals :: "ogg_stream_state \<Rightarrow> int \<Rightarrow> bool \<Rightarrow> (32 word \<times> 64 word) list \<Rightarrow> nat \<times> bool \<times> 64 word" where
  "choose_vals os nfill force ls =
    (if \<not> os_bos os then (first_vals (map fst ls), force, 0)
     else let (vals, full, g) = page_vals nfill ls 0 0 0 0 (-1) in
       (vals, force \<or> full \<or> vals = 255, g))"

definition page_flags :: "ogg_stream_state \<Rightarrow> 32 word \<Rightarrow> nat \<Rightarrow> byte" where
  "page_flags os l0 vals =
     (if l0 AND 0x100 = 0 then 0x01 else 0) OR (if \<not> os_bos os then 0x02 else 0)
     OR (if os_eos os \<and> os_lacing_fill os = int vals then 0x04 else 0)"

definition page_header :: "byte \<Rightarrow> 64 word \<Rightarrow> 32 word \<Rightarrow> 32 word \<Rightarrow> byte list \<Rightarrow> byte list" where
  "page_header flags granulepos serialno pageno segs =
     [0x4f, 0x67, 0x67, 0x53, 0, flags] @ le_bytes 8 granulepos @ le_bytes 4 serialno @ le_bytes 4 pageno
     @ [0, 0, 0, 0, of_nat (length segs)] @ segs"

definition ogg_stream_flush_i :: "ogg_stream_state \<Rightarrow> bool \<Rightarrow> int \<Rightarrow>
    (ogg_stream_state \<times> ogg_page option) option" where
  "ogg_stream_flush_i os force nfill =
    (let maxvals = (if os_lacing_fill os > 255 then 255 else os_lacing_fill os) in
     if \<not> ogg_stream_check os \<or> maxvals = 0 then Some (os, None)
     else do {
       l \<leftarrow> os_lacing os;
       g \<leftarrow> os_granule os;
       ls \<leftarrow> rd_blk l 0 maxvals;
       gs \<leftarrow> rd_blk g 0 maxvals;
       let (vals, force, granule_pos) = choose_vals os nfill force (zip ls gs);
       if \<not> force then Some (os, None)
       else do {
         l0 \<leftarrow> rd l 0;
         let flags = page_flags os l0 vals;
         let pageno = (if os_pageno os = -1 then 0 else os_pageno os);
         vs \<leftarrow> rd_blk l 0 (int vals);
         let segs = map (\<lambda>v. ucast (v AND 0xff)) vs;
         let bytes = sum_list (map uint segs);
         b \<leftarrow> os_body os;
         body \<leftarrow> rd_blk b (os_body_returned os) bytes;
         page \<leftarrow> ogg_page_checksum_set
           \<lparr>pg_header = page_header flags granule_pos (os_serialno os) pageno segs, pg_body = body\<rparr>;
         h \<leftarrow> wr_blk (os_header os) 0 (pg_header page);
         let fill = os_lacing_fill os - int vals;
         l_rest \<leftarrow> rd_blk l (int vals) fill;
         g_rest \<leftarrow> rd_blk g (int vals) fill;
         l \<leftarrow> wr_blk l 0 l_rest;
         g \<leftarrow> wr_blk g 0 g_rest;
         Some (os\<lparr>os_bos := True, os_pageno := pageno + 1, os_header := h, os_header_fill := int vals + 27,
             os_lacing := Some l, os_granule := Some g, os_lacing_fill := fill,
             os_body_returned := os_body_returned os + bytes\<rparr>, Some page) } })"

definition ogg_stream_flush_fill :: "ogg_stream_state \<Rightarrow> int \<Rightarrow> (ogg_stream_state \<times> ogg_page option) option" where
  "ogg_stream_flush_fill os nfill = ogg_stream_flush_i os True nfill"

definition ogg_stream_flush :: "ogg_stream_state \<Rightarrow> (ogg_stream_state \<times> ogg_page option) option" where
  "ogg_stream_flush os = ogg_stream_flush_i os True 4096"

definition ogg_stream_pageout_fill :: "ogg_stream_state \<Rightarrow> int \<Rightarrow> (ogg_stream_state \<times> ogg_page option) option" where
  "ogg_stream_pageout_fill os nfill =
    (if \<not> ogg_stream_check os then Some (os, None)
     else ogg_stream_flush_i os ((os_eos os \<and> os_lacing_fill os \<noteq> 0) \<or> (os_lacing_fill os \<noteq> 0 \<and> \<not> os_bos os)) nfill)"

definition ogg_stream_pageout :: "ogg_stream_state \<Rightarrow> (ogg_stream_state \<times> ogg_page option) option" where
  "ogg_stream_pageout os =
    (if \<not> ogg_stream_check os then Some (os, None)
     else ogg_stream_flush_i os ((os_eos os \<and> os_lacing_fill os \<noteq> 0) \<or> (os_lacing_fill os \<noteq> 0 \<and> \<not> os_bos os)) 4096)"

definition ogg_stream_eos :: "ogg_stream_state \<Rightarrow> bool" where
  "ogg_stream_eos os \<longleftrightarrow> \<not> ogg_stream_check os \<or> os_eos os"

section \<open>Synchronisation\<close>

record ogg_sync_state =
  sy_data :: "byte list option"
  sy_storage :: int
  sy_fill :: int
  sy_returned :: int
  sy_unsynced :: bool
  sy_headerbytes :: int
  sy_bodybytes :: int

definition ogg_sync_init :: "ogg_sync_state" where
  "ogg_sync_init = \<lparr>sy_data = None, sy_storage = 0, sy_fill = 0, sy_returned = 0, sy_unsynced = False,
     sy_headerbytes = 0, sy_bodybytes = 0\<rparr>"

definition ogg_sync_clear :: "ogg_sync_state \<Rightarrow> ogg_sync_state" where
  "ogg_sync_clear oy = ogg_sync_init"

definition ogg_sync_check :: "ogg_sync_state \<Rightarrow> bool" where
  "ogg_sync_check oy \<longleftrightarrow> sy_storage oy \<ge> 0"

text \<open>Space that has been returned is cleared out of the buffer.\<close>

definition sync_shift :: "ogg_sync_state \<Rightarrow> ogg_sync_state option" where
  "sync_shift oy =
    (if sy_returned oy \<noteq> 0 then
       (let fill = sy_fill oy - sy_returned oy in
        if fill > 0 then do {
          d \<leftarrow> sy_data oy;
          xs \<leftarrow> rd_blk d (sy_returned oy) fill;
          d \<leftarrow> wr_blk d 0 xs;
          Some (oy\<lparr>sy_data := Some d, sy_fill := fill, sy_returned := 0\<rparr>) }
        else Some (oy\<lparr>sy_fill := fill, sy_returned := 0\<rparr>))
     else Some oy)"

text \<open>The result says whether a pointer to \<open>data + fill\<close> is returned.\<close>

definition ogg_sync_buffer :: "byte alloc \<Rightarrow> ogg_sync_state \<Rightarrow> int \<Rightarrow> (ogg_sync_state \<times> bool) option" where
  "ogg_sync_buffer al oy sz =
    (if \<not> ogg_sync_check oy then Some (oy, False)
     else do {
       oy \<leftarrow> sync_shift oy;
       if sz > sy_storage oy - sy_fill oy then
         (let newsize = sz + sy_fill oy + 4096 in
          case realloc al (case sy_data oy of None \<Rightarrow> [] | Some d \<Rightarrow> d) newsize of
            None \<Rightarrow> Some (ogg_sync_clear oy, False)
          | Some d \<Rightarrow> Some (oy\<lparr>sy_data := Some d, sy_storage := newsize\<rparr>, True))
       else Some (oy, True) })"

definition ogg_sync_wrote :: "ogg_sync_state \<Rightarrow> int \<Rightarrow> ogg_sync_state \<times> int" where
  "ogg_sync_wrote oy bytes =
    (if \<not> ogg_sync_check oy then (oy, -1)
     else if sy_fill oy + bytes > sy_storage oy then (oy, -1)
     else (oy\<lparr>sy_fill := sy_fill oy + bytes\<rparr>, 0))"

text \<open>The reader stores its bytes at the pointer that \<open>ogg_sync_buffer\<close> has returned.\<close>

definition sync_store :: "ogg_sync_state \<Rightarrow> byte list \<Rightarrow> ogg_sync_state option" where
  "sync_store oy xs = do {
     d \<leftarrow> sy_data oy;
     d \<leftarrow> wr_blk d (sy_fill oy) xs;
     Some (oy\<lparr>sy_data := Some d\<rparr>) }"


fun memchr :: "byte list \<Rightarrow> byte \<Rightarrow> nat option" where
  "memchr [] c = None"
| "memchr (b # bs) c = (if b = c then Some 0 else map_option Suc (memchr bs c))"

abbreviation sy_bytes :: "ogg_sync_state \<Rightarrow> byte list" where
  "sy_bytes oy \<equiv> (case sy_data oy of None \<Rightarrow> [] | Some d \<Rightarrow> d)"

text \<open>The page at the read position does not verify: go to the next possible start of a page.\<close>

definition sync_fail :: "ogg_sync_state \<Rightarrow> (ogg_sync_state \<times> int \<times> ogg_page option) option" where
  "sync_fail oy = do {
     let page = sy_returned oy;
     xs \<leftarrow> rd_blk (sy_bytes oy) (page + 1) (sy_fill oy - page - 1);
     let nxt = (case memchr xs 0x4f of None \<Rightarrow> sy_fill oy | Some i \<Rightarrow> page + 1 + int i);
     Some (oy\<lparr>sy_headerbytes := 0, sy_bodybytes := 0, sy_returned := nxt\<rparr>, page - nxt, None) }"

text \<open>The whole page is there when its length is known and its checksum is right. (The code computes
  the checksum in place and puts the old one back when they differ.)\<close>

definition sync_verify :: "ogg_sync_state \<Rightarrow> (ogg_sync_state \<times> int \<times> ogg_page option) option" where
  "sync_verify oy =
    (if sy_bodybytes oy + sy_headerbytes oy > sy_fill oy - sy_returned oy then Some (oy, 0, None)
     else do {
       h \<leftarrow> rd_blk (sy_bytes oy) (sy_returned oy) (sy_headerbytes oy);
       body \<leftarrow> rd_blk (sy_bytes oy) (sy_returned oy + sy_headerbytes oy) (sy_bodybytes oy);
       let og = \<lparr>pg_header = h, pg_body = body\<rparr>;
       og' \<leftarrow> ogg_page_checksum_set og;
       if take 4 (drop 22 (pg_header og')) \<noteq> take 4 (drop 22 h) then sync_fail oy
       else let bytes = sy_headerbytes oy + sy_bodybytes oy in
         Some (oy\<lparr>sy_unsynced := False, sy_returned := sy_returned oy + bytes, sy_headerbytes := 0,
           sy_bodybytes := 0\<rparr>, bytes, Some og) })"

definition ogg_sync_pageseek :: "ogg_sync_state \<Rightarrow> (ogg_sync_state \<times> int \<times> ogg_page option) option" where
  "ogg_sync_pageseek oy =
    (let page = sy_returned oy; bytes = sy_fill oy - page in
     if \<not> ogg_sync_check oy then Some (oy, 0, None)
     else if sy_headerbytes oy = 0 then
       (if bytes < 27 then Some (oy, 0, None)
        else do {
          cap \<leftarrow> rd_blk (sy_bytes oy) page 4;
          if cap \<noteq> [0x4f, 0x67, 0x67, 0x53] then sync_fail oy
          else do {
            n \<leftarrow> rd (sy_bytes oy) (page + 26);
            if bytes < uint n + 27 then Some (oy, 0, None)
            else do {
              segs \<leftarrow> rd_blk (sy_bytes oy) (page + 27) (uint n);
              sync_verify (oy\<lparr>sy_bodybytes := sy_bodybytes oy + sum_list (map uint segs),
                sy_headerbytes := uint n + 27\<rparr>) } } })
     else sync_verify oy)"

text \<open>The loop of \<open>ogg_sync_pageout\<close>; the fuel is the number of buffered bytes.\<close>

fun pageout_loop :: "nat \<Rightarrow> ogg_sync_state \<Rightarrow> (ogg_sync_state \<times> int \<times> ogg_page option) option" where
  "pageout_loop 0 oy = None"
| "pageout_loop (Suc fuel) oy = do {
     (oy, ret, og) \<leftarrow> ogg_sync_pageseek oy;
     if ret > 0 then Some (oy, 1, og)
     else if ret = 0 then Some (oy, 0, None)
     else if \<not> sy_unsynced oy then Some (oy\<lparr>sy_unsynced := True\<rparr>, -1, None)
     else pageout_loop fuel oy }"

definition ogg_sync_pageout :: "ogg_sync_state \<Rightarrow> (ogg_sync_state \<times> int \<times> ogg_page option) option" where
  "ogg_sync_pageout oy =
    (if \<not> ogg_sync_check oy then Some (oy, 0, None)
     else pageout_loop (nat (sy_fill oy - sy_returned oy) + 1) oy)"

definition ogg_sync_reset :: "ogg_sync_state \<Rightarrow> ogg_sync_state \<times> int" where
  "ogg_sync_reset oy =
    (if \<not> ogg_sync_check oy then (oy, -1)
     else (oy\<lparr>sy_fill := 0, sy_returned := 0, sy_unsynced := False, sy_headerbytes := 0, sy_bodybytes := 0\<rparr>, 0))"

section \<open>Decoding\<close>

definition shift_lacing :: "ogg_stream_state \<Rightarrow> ogg_stream_state option" where
  "shift_lacing os =
    (let lr = os_lacing_returned os; rest = os_lacing_fill os - lr in
     if lr \<noteq> 0 then do {
       l \<leftarrow> os_lacing os;
       g \<leftarrow> os_granule os;
       (l, g) \<leftarrow> (if rest \<noteq> 0 then do {
           ls \<leftarrow> rd_blk l lr rest;
           gs \<leftarrow> rd_blk g lr rest;
           l \<leftarrow> wr_blk l 0 ls;
           g \<leftarrow> wr_blk g 0 gs;
           Some (l, g) } else Some (l, g));
       Some (os\<lparr>os_lacing := Some l, os_granule := Some g, os_lacing_fill := rest,
         os_lacing_packet := os_lacing_packet os - lr, os_lacing_returned := 0\<rparr>) }
     else Some os)"

text \<open>A page out of sequence: the partial packet is dropped, and a gap is noted.\<close>

definition note_gap :: "ogg_stream_state \<Rightarrow> 32 word \<Rightarrow> ogg_stream_state option" where
  "note_gap os pageno =
    (if pageno \<noteq> os_pageno os then do {
       l \<leftarrow> os_lacing os;
       ls \<leftarrow> rd_blk l (os_lacing_packet os) (os_lacing_fill os - os_lacing_packet os);
       let os = os\<lparr>os_body_fill := os_body_fill os - sum_list (map (\<lambda>v. uint (v AND 0xff)) ls),
         os_lacing_fill := os_lacing_packet os\<rparr>;
       if os_pageno os \<noteq> -1 then do {
         l \<leftarrow> wr l (os_lacing_fill os) 0x400;
         Some (os\<lparr>os_lacing := Some l, os_lacing_fill := os_lacing_fill os + 1,
           os_lacing_packet := os_lacing_packet os + 1\<rparr>) }
       else Some os }
     else Some os)"

text \<open>The segments that belong to a packet whose start is missing, and their bytes.\<close>

fun skip_segs :: "byte list \<Rightarrow> nat \<times> int" where
  "skip_segs [] = (0, 0)"
| "skip_segs (v # vs) =
    (if v < 255 then (1, uint v) else let (n, b) = skip_segs vs in (Suc n, uint v + b))"

fun store_segs :: "ogg_stream_state \<Rightarrow> bool \<Rightarrow> int \<Rightarrow> byte list \<Rightarrow> (ogg_stream_state \<times> int) option" where
  "store_segs os bos saved [] = Some (os, saved)"
| "store_segs os bos saved (v # vs) = do {
     l \<leftarrow> os_lacing os;
     g \<leftarrow> os_granule os;
     l \<leftarrow> wr l (os_lacing_fill os) (ucast v OR (if bos then 0x100 else 0));
     g \<leftarrow> wr g (os_lacing_fill os) (-1);
     let saved = (if v < 255 then os_lacing_fill os else saved);
     let os = os\<lparr>os_lacing := Some l, os_granule := Some g, os_lacing_fill := os_lacing_fill os + 1\<rparr>;
     let os = (if v < 255 then os\<lparr>os_lacing_packet := os_lacing_fill os\<rparr> else os);
     store_segs os False saved vs }"

definition pagein_segs :: "ogg_stream_state \<Rightarrow> bool \<Rightarrow> bool \<Rightarrow> 64 word \<Rightarrow> 32 word \<Rightarrow> byte list \<Rightarrow>
    (ogg_stream_state \<times> int) option" where
  "pagein_segs os bos eos granulepos pageno segs = do {
     (os, saved) \<leftarrow> store_segs os bos (-1) segs;
     os \<leftarrow> (if saved \<noteq> -1 then do {
         g \<leftarrow> os_granule os;
         g \<leftarrow> wr g saved granulepos;
         Some (os\<lparr>os_granule := Some g\<rparr>) } else Some os);
     os \<leftarrow> (if eos then
         (let os = os\<lparr>os_eos := True\<rparr> in
          if os_lacing_fill os > 0 then do {
            l \<leftarrow> os_lacing os;
            v \<leftarrow> rd l (os_lacing_fill os - 1);
            l \<leftarrow> wr l (os_lacing_fill os - 1) (v OR 0x200);
            Some (os\<lparr>os_lacing := Some l\<rparr>) }
          else Some os)
       else Some os);
     Some (os\<lparr>os_pageno := pageno + 1\<rparr>, 0) }"

text \<open>Whether the start of the packet that is continued on the page is missing.\<close>

definition start_missing :: "ogg_stream_state \<Rightarrow> bool option" where
  "start_missing os =
    (if os_lacing_fill os < 1 then Some True
     else do { l \<leftarrow> os_lacing os; v \<leftarrow> rd l (os_lacing_fill os - 1); Some (v = 0x400) })"

definition ogg_stream_pagein :: "ogg_mem \<Rightarrow> ogg_stream_state \<Rightarrow> ogg_page \<Rightarrow> (ogg_stream_state \<times> int) option" where
  "ogg_stream_pagein mem os og = do {
     version \<leftarrow> ogg_page_version og;
     continued \<leftarrow> ogg_page_continued og;
     bos \<leftarrow> ogg_page_bos og;
     eos \<leftarrow> ogg_page_eos og;
     granulepos \<leftarrow> ogg_page_granulepos og;
     serialno \<leftarrow> ogg_page_serialno og;
     pageno \<leftarrow> ogg_page_pageno og;
     segments \<leftarrow> rd (pg_header og) 26;
     if \<not> ogg_stream_check os then Some (os, -1)
     else do {
       os \<leftarrow> shift_body os;
       os \<leftarrow> shift_lacing os;
       if serialno \<noteq> os_serialno os then Some (os, -1)
       else if version > 0 then Some (os, -1)
       else do {
         let (os, err) = os_lacing_expand mem os (uint segments + 1);
         if err then Some (os, -1)
         else do {
           os \<leftarrow> note_gap os pageno;
           segs \<leftarrow> rd_blk (pg_header og) 27 (uint segments);
           missing \<leftarrow> (if continued then start_missing os else Some False);
           let (segptr, skipped) = (if missing then skip_segs segs else (0, 0));
           body \<leftarrow> rd_blk (pg_body og) skipped (int (length (pg_body og)) - skipped);
           let (os, err) = (if body \<noteq> [] then os_body_expand mem os (int (length body)) else (os, False));
           if err then Some (os, -1)
           else do {
             os \<leftarrow> (if body \<noteq> [] then append_body os body else Some os);
             pagein_segs os (bos \<and> \<not> missing) eos granulepos pageno (drop segptr segs) } } } } }"

definition ogg_stream_reset :: "ogg_stream_state \<Rightarrow> ogg_stream_state \<times> int" where
  "ogg_stream_reset os =
    (if \<not> ogg_stream_check os then (os, -1)
     else (os\<lparr>os_body_fill := 0, os_body_returned := 0, os_lacing_fill := 0, os_lacing_packet := 0,
       os_lacing_returned := 0, os_header_fill := 0, os_eos := False, os_bos := False, os_pageno := -1,
       os_packetno := 0, os_granulepos := 0\<rparr>, 0))"

definition ogg_stream_reset_serialno :: "ogg_stream_state \<Rightarrow> 32 word \<Rightarrow> ogg_stream_state \<times> int" where
  "ogg_stream_reset_serialno os serialno =
    (if \<not> ogg_stream_check os then (os, -1)
     else let (os, r) = ogg_stream_reset os in (os\<lparr>os_serialno := serialno\<rparr>, 0))"

text \<open>The segments of the packet at the front: their number, their bytes and whether one ends the
  stream.\<close>

fun packet_segs :: "32 word list \<Rightarrow> (nat \<times> int \<times> bool) option" where
  "packet_segs [] = None"
| "packet_segs (v # vs) =
    (if v AND 0xff = 255 then do {
       (n, bytes, eos) \<leftarrow> packet_segs vs;
       Some (Suc n, 255 + bytes, v AND 0x200 \<noteq> 0 \<or> eos) }
     else Some (1, uint (v AND 0xff), v AND 0x200 \<noteq> 0))"

definition packetout :: "ogg_stream_state \<Rightarrow> bool \<Rightarrow> bool \<Rightarrow> (ogg_stream_state \<times> int \<times> ogg_packet option) option" where
  "packetout os op adv =
    (let ptr = os_lacing_returned os in
     if os_lacing_packet os \<le> ptr then Some (os, 0, None)
     else do {
       l \<leftarrow> os_lacing os;
       v \<leftarrow> rd l ptr;
       if v AND 0x400 \<noteq> 0 then
         Some (os\<lparr>os_lacing_returned := ptr + 1, os_packetno := os_packetno os + 1\<rparr>, -1, None)
       else if \<not> op \<and> \<not> adv then Some (os, 1, None)
       else do {
         (n, bytes, eos) \<leftarrow> packet_segs (drop (nat ptr) l);
         let bos = (v AND 0x100 \<noteq> 0);
         let last_seg = ptr + int n - 1;
         p \<leftarrow> (if op then do {
             b \<leftarrow> os_body os;
             data \<leftarrow> rd_blk b (os_body_returned os) bytes;
             g \<leftarrow> os_granule os;
             gp \<leftarrow> rd g last_seg;
             Some (Some \<lparr>op_packet = data, op_bos = bos, op_eos = eos, op_granulepos = gp,
               op_packetno = os_packetno os\<rparr>) } else Some None);
         Some (if adv then os\<lparr>os_body_returned := os_body_returned os + bytes,
             os_lacing_returned := last_seg + 1, os_packetno := os_packetno os + 1\<rparr> else os, 1, p) } })"

definition ogg_stream_packetout :: "ogg_stream_state \<Rightarrow> (ogg_stream_state \<times> int \<times> ogg_packet option) option" where
  "ogg_stream_packetout os = (if \<not> ogg_stream_check os then Some (os, 0, None) else packetout os True True)"

definition ogg_stream_packetpeek :: "ogg_stream_state \<Rightarrow> bool \<Rightarrow> (ogg_stream_state \<times> int \<times> ogg_packet option) option" where
  "ogg_stream_packetpeek os op = (if \<not> ogg_stream_check os then Some (os, 0, None) else packetout os op False)"

end
