(* ===== verification/OggCrc.thy ===== *)
theory OggCrc
  imports OggFraming
begin

unbundle bit_operations_syntax

text \<open>
  The checksum of Ogg pages (\<^verbatim>\<open>src/ogg123/src/framing.c\<close>). The table of the code is the one that the
  function in its comment computes, the loop over the table is polynomial division bit by bit, and
  the checksum finds every damage that is confined to 32 adjacent bits and does not cross a border of
  the checksum field.
\<close>

section \<open>The table\<close>

lemma crc_round_eq: "crc_round r = push_bit 1 r XOR (if bit r 31 then 0x04c11db7 else 0)"
  using and_exp_eq_0_iff_not_bit [of r 31] by (simp add: crc_round_def)

lemma xor_same: "(x XOR p) XOR p = (x :: 32 word)"
  "(x XOR p) XOR y = (x XOR y) XOR p" "x XOR (y XOR p) = (x XOR y) XOR p"
  by (rule bit_word_eqI, auto simp: bit_xor_iff)+

lemma xor_cancel: "x XOR p = y XOR p \<longleftrightarrow> x = (y :: 32 word)"
proof
  assume "x XOR p = y XOR p"
  then have "(x XOR p) XOR p = (y XOR p) XOR p" by simp
  then show "x = y" by (simp only: xor_same(1))
qed simp

lemma crc_round_xor: "crc_round (r XOR s) = crc_round r XOR crc_round s"
  by (cases "bit r 31"; cases "bit s 31") (simp_all only: crc_round_eq bit_xor_iff push_bit_xor xor_same xor.right_neutral simp_thms if_True if_False)

lemma crc_rounds_xor: "crc_rounds n (r XOR s) = crc_rounds n r XOR crc_rounds n s"
  by (induction n arbitrary: r s) (simp_all add: crc_round_xor)

lemma crc_rounds_add: "crc_rounds (m + n) r = crc_rounds n (crc_rounds m r)"
  by (induction m arbitrary: r) simp_all

lemma crc_rounds_Suc: "crc_rounds (Suc n) r = crc_round (crc_rounds n r)"
  using crc_rounds_add [of n 1 r] by simp

text \<open>As long as no bit has reached the top, the rounds only shift.\<close>

lemma crc_rounds_shift:
  assumes "\<And>i. 32 - n \<le> i \<Longrightarrow> \<not> bit r i" and "n \<le> 32"
  shows "crc_rounds n r = push_bit n r"
  using assms
proof (induction n arbitrary: r)
  case (Suc n)
  have "\<not> bit r 31" using Suc.prems by simp
  then have "crc_round r = push_bit 1 r" by (simp add: crc_round_eq)
  moreover have "crc_rounds n (push_bit 1 r) = push_bit n (push_bit 1 r)"
    using Suc.prems by (intro Suc.IH) (auto simp: bit_push_bit_iff simp del: push_bit_of_1 push_bit_Suc)
  ultimately show ?case by (simp add: push_bit_push_bit)
qed simp

lemma crc_table_rec:
  "concat (map (\<lambda>t. [crc_round t, crc_round t XOR 0x04c11db7]) (take 128 crc_lookup)) = crc_lookup"
  by (simp add: crc_lookup_def crc_round_def)

lemma length_crc_lookup: "length crc_lookup = 256"
  by (simp add: crc_lookup_def)


text \<open>Entry \<open>2 i\<close> is one round of entry \<open>i\<close>, and entry \<open>2 i + 1\<close> differs from it by the polynomial.\<close>

lemma nth_pairs: "i < length xs \<Longrightarrow> concat (map (\<lambda>x. [f x, g x]) xs) ! (2 * i) = f (xs ! i)
    \<and> concat (map (\<lambda>x. [f x, g x]) xs) ! Suc (2 * i) = g (xs ! i)"
proof (induction xs arbitrary: i)
  case (Cons x xs)
  then show ?case by (cases i) auto
qed simp

lemma crc_entry_rec:
  assumes "i < 128"
  shows "ogg_crc_entry (2 * i) = crc_round (ogg_crc_entry i)"
    and "ogg_crc_entry (Suc (2 * i)) = crc_round (ogg_crc_entry i) XOR 0x04c11db7"
proof -
  let ?w = "of_nat i :: 32 word"
  have b: "\<not> bit ?w k" if "7 \<le> k" for k
  proof -
    have "i < 2 ^ k" using assms power_increasing [OF that, of "2 :: nat"] by simp
    then have "\<not> bit i k" by (simp add: bit_iff_odd)
    then show ?thesis by (simp add: bit_of_nat_iff)
  qed
  have rnd: "crc_rounds 8 (crc_round x) = crc_round (crc_rounds 8 x)" for x
    by (metis crc_rounds_Suc crc_rounds.simps(2))
  have w2: "of_nat (2 * i) = push_bit 1 ?w" by (simp add: push_bit_eq_mult mult.commute)
  have "push_bit 24 (push_bit 1 ?w) = push_bit 1 (push_bit 24 ?w)"
    by (simp only: push_bit_push_bit add.commute)
  moreover have "\<not> bit (push_bit 24 ?w) 31" using b [of 7] by (simp add: bit_push_bit_iff)
  ultimately have "push_bit 24 (push_bit 1 ?w) = crc_round (push_bit 24 ?w)"
    by (simp only: crc_round_eq if_False xor.right_neutral)
  then show even: "ogg_crc_entry (2 * i) = crc_round (ogg_crc_entry i)"
    unfolding ogg_crc_entry_def w2 using rnd by simp
  have "push_bit 1 ?w + 1 = push_bit 1 ?w XOR 1"
    by (simp add: xor_one_eq)
  then have "of_nat (Suc (2 * i)) = push_bit 1 ?w XOR (1 :: 32 word)"
    using w2 by (simp add: add.commute mult.commute)
  then have "ogg_crc_entry (Suc (2 * i)) = ogg_crc_entry (2 * i) XOR crc_rounds 8 (push_bit 24 1)"
    unfolding ogg_crc_entry_def w2 by (simp only: push_bit_xor crc_rounds_xor)
  moreover have "crc_rounds 7 (push_bit 24 1) = push_bit 7 (push_bit 24 1)"
  proof (rule crc_rounds_shift)
    show "\<not> bit (push_bit 24 1 :: 32 word) k" if "32 - 7 \<le> k" for k
      unfolding bit_push_bit_iff bit_1_iff using that by auto
  qed simp
  then have "crc_rounds 8 (push_bit 24 1) = 0x04c11db7"
    using crc_rounds_Suc [of 7 "push_bit 24 1"] by (simp add: crc_round_eq)
  ultimately show "ogg_crc_entry (Suc (2 * i)) = crc_round (ogg_crc_entry i) XOR 0x04c11db7"
    by (simp add: even)
qed

lemma crc_lookup_entry:
  assumes "i < 256"
  shows "crc_lookup ! i = ogg_crc_entry i"
  using assms
proof (induction i rule: less_induct)
  case (less i)
  show ?case
  proof (cases "i = 0")
    case True
    have "crc_rounds n 0 = 0" for n by (induction n) (simp_all add: crc_round_eq)
    moreover have "crc_lookup ! 0 = 0" by (simp add: crc_lookup_def)
    ultimately show ?thesis using True by (simp add: ogg_crc_entry_def)
  next
    case False
    let ?j = "i div 2"
    have j: "?j < i" "?j < 128" using False less.prems by linarith+
    then have "?j < length (take 128 crc_lookup)" by (simp add: length_crc_lookup)
    from nth_pairs [OF this, of crc_round "\<lambda>t. crc_round t XOR 0x04c11db7"]
    have "crc_lookup ! (2 * ?j) = crc_round (crc_lookup ! ?j)"
      "crc_lookup ! Suc (2 * ?j) = crc_round (crc_lookup ! ?j) XOR 0x04c11db7"
      unfolding crc_table_rec using j(2) by simp_all
    moreover have "crc_lookup ! ?j = ogg_crc_entry ?j" using less.IH j by simp
    moreover have "i = 2 * ?j \<or> i = Suc (2 * ?j)" by linarith
    ultimately show ?thesis using crc_entry_rec [OF j(2)] by metis
  qed
qed

section \<open>The loop over the table is polynomial division\<close>

lemma bits_high_low: "(r :: 32 word) = push_bit 24 (drop_bit 24 r) XOR take_bit 24 r"
  by (rule bit_word_eqI) (auto simp: bit_simps)

lemma crc_step_rounds: "crc_step reg c = crc_rounds 8 (reg XOR push_bit 24 (ucast c))"
proof -
  let ?x = "(drop_bit 24 reg AND 0xff) XOR (ucast c :: 32 word)"
  have m: "(0xff :: 32 word) = mask 8" by (simp add: mask_numeral)
  have "?x = ucast (ucast (drop_bit 24 reg) XOR c)"
    by (rule bit_word_eqI) (auto simp: m bit_simps dest: bit_imp_le_length)
  moreover have "unat (ucast b :: 32 word) < 256" for b :: byte
    using le_less_trans [OF take_bit_nat_less_eq_self [of 32 "unat b"], of 256] unsigned_less [of b, where ?'a = nat]
    by (simp add: unsigned_ucast_eq)
  ultimately have "unat ?x < 256" by metis
  then have t: "crc_lookup ! unat ?x = crc_rounds 8 (push_bit 24 ?x)"
    by (simp add: crc_lookup_entry ogg_crc_entry_def)
  have "reg XOR push_bit 24 (ucast c) = push_bit 24 ?x XOR take_bit 24 reg"
    by (rule bit_word_eqI) (auto simp: m bit_simps dest: bit_imp_le_length)
  moreover have "crc_rounds 8 (take_bit 24 reg) = push_bit 8 reg"
  proof -
    have "crc_rounds 8 (take_bit 24 reg) = push_bit 8 (take_bit 24 reg)"
      by (rule crc_rounds_shift) (auto simp: bit_take_bit_iff)
    also have "\<dots> = push_bit 8 reg" by (rule bit_word_eqI) (auto simp: bit_simps)
    finally show ?thesis .
  qed
  ultimately show ?thesis
    unfolding crc_step_def t by (simp add: crc_rounds_xor xor.commute)
qed


section \<open>Damaged pages\<close>

lemma crc_round_inject: "crc_round r = crc_round s \<longleftrightarrow> r = s"
proof
  assume eq: "crc_round r = crc_round s"
  have "bit (crc_round x) 0 \<longleftrightarrow> bit x 31" for x
    by (simp add: crc_round_eq bit_xor_iff bit_0 even_xor_iff)
  then have top: "bit r 31 \<longleftrightarrow> bit s 31" using eq by metis
  then have "push_bit 1 r = push_bit 1 s" using eq by (simp only: crc_round_eq xor_cancel)
  then have low: "bit r i \<longleftrightarrow> bit s i" if "i < 31" for i
    using that bit_push_bit_iff [of 1 r "Suc i"] bit_push_bit_iff [of 1 s "Suc i"] by simp
  show "r = s"
  proof (rule bit_word_eqI)
    fix i assume "i < LENGTH(32)"
    then have "i < 31 \<or> i = 31" by auto
    then show "bit r i \<longleftrightarrow> bit s i" using low top by blast
  qed
qed simp

lemma crc_rounds_inject: "crc_rounds n r = crc_rounds n s \<longleftrightarrow> r = s"
  by (induction n arbitrary: r s) (simp_all add: crc_round_inject)

abbreviation crc :: "byte list \<Rightarrow> 32 word \<Rightarrow> 32 word" where
  "crc xs reg \<equiv> fold (\<lambda>c reg. crc_step reg c) xs reg"

lemma crc_step_inject: "crc_step r c = crc_step s c \<longleftrightarrow> r = s"
  by (simp only: crc_step_rounds crc_rounds_inject xor_cancel)

lemma crc_inject: "crc xs r = crc xs s \<longleftrightarrow> r = s"
  by (induction xs arbitrary: r s) (simp_all add: crc_step_inject)

text \<open>The same division bit by bit, the highest bit of every byte first.\<close>

definition byte_bits :: "byte \<Rightarrow> bool list" where
  "byte_bits c = map (bit c) [7, 6, 5, 4, 3, 2, 1, 0]"

abbreviation msg_bits :: "byte list \<Rightarrow> bool list" where
  "msg_bits xs \<equiv> concat (map byte_bits xs)"

fun crc_bits :: "bool list \<Rightarrow> 32 word \<Rightarrow> 32 word" where
  "crc_bits [] reg = reg"
| "crc_bits (b # bs) reg = crc_bits bs (crc_round (reg XOR (if b then push_bit 31 1 else 0)))"

lemma crc_bits_append: "crc_bits (xs @ ys) reg = crc_bits ys (crc_bits xs reg)"
  by (induction xs arbitrary: reg) simp_all

lemma crc_bits_inject: "crc_bits xs r = crc_bits xs s \<longleftrightarrow> r = s"
  by (induction xs arbitrary: r s) (simp_all only: crc_bits.simps crc_round_inject xor_cancel)

text \<open>Up to 32 bits enter the register as one word, the first of them at the top.\<close>

fun be_word :: "bool list \<Rightarrow> nat \<Rightarrow> 32 word" where
  "be_word [] k = 0"
| "be_word (b # bs) k = (if b then push_bit k 1 else 0) XOR be_word bs (k - 1)"

lemma bit_one_at: "bit (if b then push_bit k 1 else 0 :: 32 word) i \<longleftrightarrow> b \<and> i = k \<and> k < 32"
  by (auto simp: bit_simps)

lemma bit_be_word:
  "length bs \<le> Suc k \<Longrightarrow> k \<le> 31 \<Longrightarrow> bit (be_word bs k) i \<longleftrightarrow> i \<le> k \<and> k - i < length bs \<and> bs ! (k - i)"
proof (induction bs arbitrary: k)
  case (Cons b bs)
  show ?case
  proof (cases k)
    case 0
    then show ?thesis using Cons.prems by (auto simp: bit_one_at bit_xor_iff)
  next
    case (Suc k')
    have "bit (be_word bs k') i \<longleftrightarrow> i \<le> k' \<and> k' - i < length bs \<and> bs ! (k' - i)"
      using Cons.prems by (intro Cons.IH) (simp_all add: Suc)
    then show ?thesis using Cons.prems
      by (simp only: be_word.simps bit_xor_iff bit_one_at Suc diff_Suc_1) (auto simp: nth_Cons' Suc_diff_le le_Suc_eq)
  qed
qed simp

lemma be_word_shift: "length bs \<le> k \<Longrightarrow> k \<le> 31 \<Longrightarrow> be_word bs k = push_bit 1 (be_word bs (k - 1))"
proof (induction bs arbitrary: k)
  case (Cons b bs)
  then obtain k' where k: "k = Suc k'" by (cases k) auto
  have "be_word bs (k - 1) = push_bit 1 (be_word bs (k - 1 - 1))"
    using Cons.prems by (intro Cons.IH) auto
  moreover have "(if b then push_bit k 1 else 0) = push_bit 1 (if b then push_bit k' 1 else (0 :: 32 word))"
    by (simp only: k push_bit_push_bit if_distrib [of "push_bit 1"] push_bit_of_0) simp
  ultimately show ?case by (simp only: k be_word.simps push_bit_xor diff_Suc_1)
qed simp

lemma crc_be_word:
  "length bs \<le> 32 \<Longrightarrow> crc_bits bs reg = crc_rounds (length bs) (reg XOR be_word bs 31)"
proof (induction bs arbitrary: reg)
  case (Cons b bs)
  let ?b = "if b then push_bit 31 1 else 0 :: 32 word"
  have "be_word bs 31 = push_bit 1 (be_word bs 30)"
    using be_word_shift [of bs 31] Cons.prems by simp
  also have "\<dots> = crc_round (be_word bs 30)"
  proof -
    have "\<not> bit (be_word bs 30) 31" using bit_be_word [of bs 30 31] Cons.prems by simp
    then show ?thesis by (simp add: crc_round_eq)
  qed
  finally have "crc_round (reg XOR ?b) XOR be_word bs 31 = crc_round (reg XOR be_word (b # bs) 31)"
    by (simp add: crc_round_xor xor.assoc)
  then show ?case
    using Cons.IH [of "crc_round (reg XOR ?b)"] Cons.prems by simp
qed simp

lemma be_word_inject:
  assumes "length bs = length cs" and "length bs \<le> 32" and "be_word bs 31 = be_word cs 31"
  shows "bs = cs"
proof (rule nth_equalityI)
  fix i assume "i < length bs"
  then show "bs ! i \<longleftrightarrow> cs ! i"
    using bit_be_word [of bs 31 "31 - i"] bit_be_word [of cs 31 "31 - i"] assms by simp
qed (rule assms(1))

lemma length_byte_bits [simp]: "length (byte_bits c) = 8"
  by (simp add: byte_bits_def)

lemma byte_bits_not_Nil [simp]: "byte_bits c \<noteq> []"
  by (simp add: byte_bits_def)

lemma byte_bits_inject: "byte_bits c = byte_bits d \<longleftrightarrow> c = d"
proof
  assume eq: "byte_bits c = byte_bits d"
  show "c = d"
  proof (rule bit_word_eqI)
    fix i assume "i < LENGTH(8)"
    then have "i \<in> {7, 6, 5, 4, 3, 2, 1, 0}" by auto
    then show "bit c i \<longleftrightarrow> bit d i" using eq unfolding byte_bits_def list.map list.inject by blast
  qed
qed simp

lemma bits_inject: "msg_bits xs = msg_bits ys \<longleftrightarrow> xs = ys"
proof
  assume "msg_bits xs = msg_bits ys"
  then show "xs = ys"
  proof (induction xs arbitrary: ys)
    case Nil
    then show ?case by (cases ys) (auto dest: arg_cong [of _ _ length])
  next
    case (Cons x xs)
    then show ?case by (cases ys) (auto simp: byte_bits_inject dest: arg_cong [of "[]" _ length])
  qed
qed simp

lemma length_bits [simp]: "length (msg_bits xs) = 8 * length xs"
  by (induction xs) simp_all

lemma crc_step_bits: "crc_step reg c = crc_bits (byte_bits c) reg"
proof -
  have m: "byte_bits c = map (\<lambda>j. bit c (7 - j)) [0..<8]" by (simp add: byte_bits_def upt_rec)
  have n: "byte_bits c ! j \<longleftrightarrow> bit c (7 - j)" if "j < 8" for j using that by (simp add: m)
  have "be_word (byte_bits c) 31 = push_bit 24 (ucast c)"
  proof (rule bit_word_eqI)
    fix i assume i: "i < LENGTH(32)"
    show "bit (be_word (byte_bits c) 31) i \<longleftrightarrow> bit (push_bit 24 (ucast c) :: 32 word) i"
    proof (cases "24 \<le> i")
      case True
      then have "31 - i < 8" "7 - (31 - i) = i - 24" using i by auto
      then show ?thesis using bit_be_word [of "byte_bits c" 31 i] n True i by (auto simp: bit_push_bit_iff bit_ucast_iff)
    next
      case False
      then have "\<not> 31 - i < 8" by simp
      with False show ?thesis using bit_be_word [of "byte_bits c" 31 i] by (simp add: bit_push_bit_iff)
    qed
  qed
  then show ?thesis using crc_be_word [of "byte_bits c" reg] by (simp add: crc_step_rounds)
qed

lemma crc_bits_eq: "crc xs reg = crc_bits (msg_bits xs) reg"
  by (induction xs arbitrary: reg) (simp_all add: crc_step_bits crc_bits_append)

lemma crc_burst:
  assumes "msg_bits xs = u @ v @ w" and "msg_bits ys = u @ v' @ w"
    and "length v = length v'" and "length v \<le> 32" and "v \<noteq> v'"
  shows "crc xs r \<noteq> crc ys r"
proof -
  have "be_word v 31 \<noteq> be_word v' 31" using be_word_inject [of v v'] assms(3-5) by auto
  then have "crc_bits u r XOR be_word v 31 \<noteq> crc_bits u r XOR be_word v' 31"
    by (simp only: xor.commute [of "crc_bits u r"] xor_cancel not_False_eq_True)
  then show ?thesis
    using assms by (simp add: crc_bits_eq crc_bits_append crc_bits_inject crc_be_word crc_rounds_inject)
qed


text \<open>A page is intact when its checksum field is what \<open>ogg_page_checksum_set\<close> would store.\<close>

definition page_intact :: "ogg_page \<Rightarrow> bool" where
  "page_intact og \<longleftrightarrow> ogg_page_checksum_set og = Some og"

definition zero_field :: "byte list \<Rightarrow> byte list" where
  "zero_field xs = take 22 xs @ [0, 0, 0, 0] @ drop 26 xs"

definition crc_field :: "byte list \<Rightarrow> byte list" where
  "crc_field xs = take 4 (drop 22 xs)"

lemma le_num_bytes: "le_num (le_bytes n (w :: 'a::len word)) = take_bit (8 * n) w"
proof (induction n arbitrary: w)
  case (Suc n)
  have m: "(0xff :: 'a word) = mask 8" by (simp add: mask_numeral)
  have "ucast (ucast (w AND 0xff) :: byte) = take_bit 8 w"
    unfolding m by (rule bit_word_eqI) (auto simp: bit_simps)
  then show ?case
    by (simp add: Suc) (rule bit_word_eqI, auto simp: bit_simps)
qed simp

lemma length_le_bytes [simp]: "length (le_bytes n w) = n"
  by (induction n arbitrary: w) auto

lemma le_bytes_4_inject: "le_bytes 4 (v :: 32 word) = le_bytes 4 w \<longleftrightarrow> v = w"
proof
  assume "le_bytes 4 v = le_bytes 4 w"
  then have "(le_num (le_bytes 4 v) :: 32 word) = le_num (le_bytes 4 w)" by simp
  then have "take_bit 32 v = take_bit 32 w" by (simp only: le_num_bytes) simp
  then show "v = w" by (simp add: take_bit_word_eq_self)
qed simp

lemma split_field: "26 \<le> length xs \<Longrightarrow> take 22 xs @ crc_field xs @ drop 26 xs = xs"
proof -
  assume "26 \<le> length xs"
  have "drop 26 xs = drop 4 (drop 22 xs)" by simp
  then show ?thesis
    unfolding crc_field_def by (simp only: append_take_drop_id)
qed

lemma checksum_set_eq:
  assumes "26 \<le> length (pg_header og)"
  shows "ogg_page_checksum_set og = Some (og\<lparr>pg_header := take 22 (pg_header og)
    @ le_bytes 4 (crc (zero_field (pg_header og @ pg_body og)) 0) @ drop 26 (pg_header og)\<rparr>)"
proof -
  let ?h = "pg_header og"
  have "wr_blk ?h 22 [0, 0, 0, 0] = Some (zero_field ?h)"
    using assms by (simp add: wr_blk_def zero_field_def)
  moreover have "wr_blk (zero_field ?h) 22 (le_bytes 4 x) = Some (take 22 ?h @ le_bytes 4 x @ drop 26 ?h)" for x :: "32 word"
    using assms by (simp add: wr_blk_def zero_field_def min_absorb2)
  moreover have "crc (pg_body og) (crc (zero_field ?h) 0) = crc (zero_field (?h @ pg_body og)) 0"
    using assms by (simp add: zero_field_def)
  ultimately show ?thesis
    by (simp add: ogg_page_checksum_set_def page_crc_def)
qed

lemma page_intact_iff:
  assumes "26 \<le> length (pg_header og)"
  shows "page_intact og \<longleftrightarrow>
    crc_field (pg_header og @ pg_body og) = le_bytes 4 (crc (zero_field (pg_header og @ pg_body og)) 0)"
proof -
  let ?h = "pg_header og"
  have "crc_field (?h @ pg_body og) = crc_field ?h" using assms by (simp add: crc_field_def)
  moreover have "og\<lparr>pg_header := x\<rparr> = og \<longleftrightarrow> x = ?h" for x
    by (cases og) auto
  moreover have "take 22 ?h @ x @ drop 26 ?h = ?h \<longleftrightarrow> crc_field ?h = x" if "length x = 4" for x
  proof -
    have "take 22 ?h @ x @ drop 26 ?h = take 22 ?h @ crc_field ?h @ drop 26 ?h \<longleftrightarrow> x = crc_field ?h"
      using that assms by (simp add: crc_field_def)
    then show ?thesis unfolding split_field [OF assms] by auto
  qed
  ultimately show ?thesis
    unfolding page_intact_def checksum_set_eq [OF assms] by simp
qed


lemma take_bits: "take (8 * n) (msg_bits xs) = msg_bits (take n xs)"
  by (induction xs arbitrary: n) (auto simp: take_Cons split: nat.splits)

lemma drop_bits: "drop (8 * n) (msg_bits xs) = msg_bits (drop n xs)"
  by (induction xs arbitrary: n) (auto simp: drop_Cons split: nat.splits)

lemma bits_zero_field: "msg_bits (zero_field xs) = take 176 (msg_bits xs) @ msg_bits [0, 0, 0, 0] @ drop 208 (msg_bits xs)"
  using take_bits [of 22 xs] drop_bits [of 26 xs] by (simp add: zero_field_def)

lemma bits_crc_field: "msg_bits (crc_field xs) = take 32 (drop 176 (msg_bits xs))"
  using take_bits [of 4 "drop 22 xs"] drop_bits [of 22 xs] by (simp add: crc_field_def)

text \<open>Both of these pages are intact; the second one differs in bytes 21 to 24.\<close>

lemma crc_field_border:
  "\<forall>xs \<in> {[0, 198, 207, 70], [76, 37, 216, 108]}.
    page_intact \<lparr>pg_header = [79, 103, 103, 83, 0, 2, 0, 0, 0, 0, 0, 0, 0, 0, 7, 0, 0, 0, 0, 0, 0] @ xs @ [235, 1, 1], pg_body = [9]\<rparr>"
  unfolding page_intact_def by code_simp



lemma checksum_set_intact:
  assumes "26 \<le> length (pg_header og)"
  shows "\<exists>og'. ogg_page_checksum_set og = Some og' \<and> page_intact og' \<and> pg_body og' = pg_body og
    \<and> length (pg_header og') = length (pg_header og)"
proof -
  let ?x = "le_bytes 4 (crc (zero_field (pg_header og @ pg_body og)) 0)"
  let ?og = "og\<lparr>pg_header := take 22 (pg_header og) @ ?x @ drop 26 (pg_header og)\<rparr>"
  have len: "length (pg_header ?og) = length (pg_header og)" using assms by simp
  have "zero_field (pg_header ?og @ pg_body ?og) = zero_field (pg_header og @ pg_body og)"
    "crc_field (pg_header ?og @ pg_body ?og) = ?x"
    using assms by (simp_all add: zero_field_def crc_field_def min_absorb2)
  then have "page_intact ?og" using len assms by (simp add: page_intact_iff)
  then show ?thesis using checksum_set_eq [OF assms] len by auto
qed


end
