(* ===== verification/OggSync.thy ===== *)
theory OggSync
  imports OggCrc
begin

unbundle bit_operations_syntax

text \<open>
  Finding the pages in a sequence of bytes: the functions \<open>ogg_sync_*\<close> of \<^verbatim>\<open>src/ogg123/src/framing.c\<close>
  refine the specification \<open>seek\<close>, which says what is at the head of the unread bytes: a page, a
  number of bytes that start no page, or too few bytes to tell.
\<close>

definition page_bytes :: "ogg_page \<Rightarrow> byte list" where
  "page_bytes og = pg_header og @ pg_body og"

definition OggS :: "byte list" where
  "OggS = [0x4f, 0x67, 0x67, 0x53]"

text \<open>Lengths that the header at the start of a sequence of bytes announces.\<close>

definition head_len :: "byte list \<Rightarrow> nat" where
  "head_len xs = 27 + unat (xs ! 26)"

definition body_len :: "byte list \<Rightarrow> nat" where
  "body_len xs = sum_list (map unat (take (unat (xs ! 26)) (drop 27 xs)))"

definition page_wf :: "ogg_page \<Rightarrow> bool" where
  "page_wf og \<longleftrightarrow> 27 \<le> length (pg_header og) \<and> take 4 (pg_header og) = OggS
     \<and> length (pg_header og) = head_len (pg_header og) \<and> length (pg_body og) = body_len (pg_header og)
     \<and> page_intact og"

datatype seek = Wait | Skip nat | Page ogg_page

definition skip_to_O :: "byte list \<Rightarrow> nat" where
  "skip_to_O xs = (case memchr (tl xs) 0x4f of None \<Rightarrow> length xs | Some i \<Rightarrow> Suc i)"

definition head_page :: "byte list \<Rightarrow> ogg_page" where
  "head_page xs = \<lparr>pg_header = take (head_len xs) xs, pg_body = take (body_len xs) (drop (head_len xs) xs)\<rparr>"

definition seek :: "byte list \<Rightarrow> seek" where
  "seek xs =
    (if length xs < 27 then Wait
     else if take 4 xs \<noteq> OggS then Skip (skip_to_O xs)
     else if length xs < head_len xs then Wait
     else if length xs < head_len xs + body_len xs then Wait
     else if page_intact (head_page xs) then Page (head_page xs)
     else Skip (skip_to_O xs))"

section \<open>What the specification promises\<close>

lemma memchr_Some: "memchr xs c = Some i \<Longrightarrow> i < length xs \<and> xs ! i = c \<and> (\<forall>j < i. xs ! j \<noteq> c)"
proof (induction xs arbitrary: i)
  case (Cons x xs)
  then show ?case by (auto split: if_splits simp: nth_Cons split: nat.splits)
qed simp

lemma memchr_None: "memchr xs c = None \<longleftrightarrow> c \<notin> set xs"
  by (induction xs) auto

lemma skip_to_O_bounds: "xs \<noteq> [] \<Longrightarrow> 0 < skip_to_O xs \<and> skip_to_O xs \<le> length xs"
  using memchr_Some [of "tl xs" "0x4f"] by (auto simp: skip_to_O_def split: option.splits)

lemma skip_to_O_first: "0 < j \<Longrightarrow> j < skip_to_O xs \<Longrightarrow> j < length xs \<Longrightarrow> xs ! j \<noteq> 0x4f"
proof -
  assume j: "0 < j" "j < skip_to_O xs" "j < length xs"
  then have t: "xs ! j = tl xs ! (j - 1)" "j - 1 < length (tl xs)" by (simp_all add: nth_tl)
  show ?thesis
  proof (cases "memchr (tl xs) 0x4f")
    case None
    then show ?thesis using t by (metis memchr_None nth_mem)
  next
    case (Some i)
    then have "j - 1 < i" using j by (auto simp: skip_to_O_def)
    then show ?thesis using memchr_Some [OF Some] t(1) by simp
  qed
qed

lemma head_len_append: "27 \<le> length xs \<Longrightarrow> head_len (xs @ ys) = head_len xs"
  by (simp add: head_len_def nth_append)

lemma body_len_append: "27 \<le> length xs \<Longrightarrow> head_len xs \<le> length xs \<Longrightarrow> body_len (xs @ ys) = body_len xs"
  by (simp add: body_len_def head_len_def nth_append)

lemma page_wf_head:
  assumes "page_wf og"
  shows "head_len (page_bytes og @ zs) = length (pg_header og)"
    and "body_len (page_bytes og @ zs) = length (pg_body og)"
    and "take 4 (page_bytes og @ zs) = OggS"
  using assms by (simp_all add: page_wf_def page_bytes_def head_len_append body_len_append)

lemma seek_page: "page_wf og \<Longrightarrow> seek (page_bytes og @ zs) = Page og"
proof -
  assume wf: "page_wf og"
  have "head_page (page_bytes og @ zs) = og"
    using page_wf_head [OF wf, of zs] by (simp add: head_page_def page_bytes_def)
  then show ?thesis
    using wf page_wf_head [OF wf, of zs] by (simp add: seek_def page_wf_def page_bytes_def)
qed

text \<open>A proper prefix of a page is waited for.\<close>

lemma seek_prefix:
  assumes "page_wf og" and "page_bytes og = xs @ ys" and "ys \<noteq> []"
  shows "seek xs = Wait"
proof (cases "length xs < 27")
  case False
  have "take 4 xs = OggS" "head_len xs = length (pg_header og)"
    using page_wf_head [OF assms(1), of "[]"] False assms(2) head_len_append [of xs ys] by simp_all
  moreover have "length xs < length (pg_header og) + length (pg_body og)"
    using arg_cong [OF assms(2), of length] assms(3) by (simp add: page_bytes_def)
  moreover have "body_len xs = length (pg_body og)" if "head_len xs \<le> length xs"
    using page_wf_head(2) [OF assms(1), of "[]"] False assms(2) body_len_append [of xs ys] that by simp
  ultimately show ?thesis by (auto simp: seek_def)
qed (simp add: seek_def)

lemma seek_Page:
  assumes "seek xs = Page og"
  shows "page_wf og \<and> (\<exists>ys. xs = page_bytes og @ ys)"
proof -
  have xs: "27 \<le> length xs" "take 4 xs = OggS" "head_len xs + body_len xs \<le> length xs"
    "page_intact (head_page xs)" and og: "og = head_page xs"
    using assms by (auto simp: seek_def split: if_splits)
  let ?h = "take (head_len xs) xs"
  have "27 \<le> head_len xs" by (simp add: head_len_def)
  then have h: "head_len ?h = head_len xs" "body_len ?h = body_len xs" "take 4 ?h = OggS" "length ?h = head_len xs"
    using xs by (simp_all add: head_len_def body_len_def min_absorb1 drop_take)
  have "xs = page_bytes og @ drop (head_len xs + body_len xs) xs"
    unfolding og head_page_def page_bytes_def
    by (simp add: add.commute [of "head_len xs"] flip: drop_drop)
  then show ?thesis
    using xs h \<open>27 \<le> head_len xs\<close> by (auto simp: page_wf_def og head_page_def)
qed

text \<open>The skipped bytes start no page, whatever follows.\<close>

lemma seek_Skip:
  assumes "seek xs = Skip n"
  shows "0 < n \<and> n \<le> length xs \<and> (\<forall>j < n. \<forall>og ys zs. page_wf og \<longrightarrow> drop j xs @ ys \<noteq> page_bytes og @ zs)"
proof (intro conjI allI impI notI)
  have n: "n = skip_to_O xs" "xs \<noteq> []" using assms by (auto simp: seek_def split: if_splits)
  then show "0 < n" "n \<le> length xs" using skip_to_O_bounds [of xs] by auto
  fix j og ys zs assume j: "j < n" and wf: "page_wf og" and d: "drop j xs @ ys = page_bytes og @ zs"
  show False
  proof (cases "j = 0")
    case True
    then have "xs @ ys = page_bytes og @ zs" using d by simp
    then obtain us where "xs = page_bytes og @ us \<or> page_bytes og = xs @ us" by (metis append_eq_append_conv2)
    moreover have "xs \<noteq> page_bytes og @ us" for us using seek_page [OF wf, of us] assms by auto
    moreover have "page_bytes og \<noteq> xs @ us" for us
    proof (cases "us = []")
      case True
      then show ?thesis using seek_page [OF wf, of "[]"] assms by auto
    next
      case False
      then show ?thesis using seek_prefix [OF wf _ False, of xs] assms by auto
    qed
    ultimately show False by blast
  next
    case False
    have jl: "j < length xs" using j \<open>n \<le> length xs\<close> by simp
    have "hd (take 4 (page_bytes og @ zs)) = 0x4f"
      using page_wf_head(3) [OF wf, of zs] by (simp add: OggS_def)
    then have "hd (page_bytes og @ zs) = 0x4f" by (cases "page_bytes og @ zs") auto
    then have "hd (drop j xs) = 0x4f" using d jl by (metis hd_append drop_eq_Nil not_le)
    then have "xs ! j = 0x4f" using jl by (simp add: hd_drop_conv_nth)
    then show False using skip_to_O_first [of j xs] False j n jl by simp
  qed
qed


section \<open>The operations implement the specification\<close>

text \<open>\<open>sync_ok oy xs\<close>: the bytes that have not been returned yet are \<open>xs\<close>, and remembered lengths are those
  of the header at their head.\<close>

definition sync_ok :: "ogg_sync_state \<Rightarrow> byte list \<Rightarrow> bool" where
  "sync_ok oy xs \<longleftrightarrow> (\<exists>r d. sy_bytes oy = d \<and> sy_returned oy = int r \<and> sy_fill oy = int (r + length xs)
     \<and> sy_storage oy = int (length d) \<and> r + length xs \<le> length d
     \<and> take (length xs) (drop r d) = xs
     \<and> (sy_headerbytes oy = 0 \<and> sy_bodybytes oy = 0
        \<or> 27 \<le> length xs \<and> take 4 xs = OggS \<and> head_len xs \<le> length xs
          \<and> sy_headerbytes oy = int (head_len xs) \<and> sy_bodybytes oy = int (body_len xs)))"

lemma sync_init_ok: "sync_ok ogg_sync_init []"
  by (simp add: sync_ok_def ogg_sync_init_def)

lemma sync_ok_check: "sync_ok oy xs \<Longrightarrow> ogg_sync_check oy"
  by (auto simp: sync_ok_def ogg_sync_check_def)

lemma sum_uint: "sum_list (map uint (xs :: byte list)) = int (sum_list (map unat xs))"
  by (induction xs) simp_all

lemma rd_slice:
  assumes "take n (drop r d) = xs" and "n = length xs" and "i < n"
  shows "rd d (int r + int i) = Some (xs ! i)"
proof -
  have "length xs \<le> length d - r" using arg_cong [OF assms(1), of length] assms(2) by simp
  then have "r + i < length d" using assms(2,3) by linarith
  moreover have "d ! (r + i) = xs ! i"
    using arg_cong [OF assms(1), of "\<lambda>l. l ! i"] assms(2,3) calculation by simp
  ultimately show ?thesis by (simp add: rd_def nat_add_distrib)
qed

lemma rd_blk_slice:
  assumes "take n (drop r d) = xs" and "n = length xs" and "r + n \<le> length d" and "i + k \<le> n"
  shows "rd_blk d (int r + int i) (int k) = Some (take k (drop i xs))"
proof -
  have "take k (drop i xs) = take k (drop i (take n (drop r d)))" using assms(1) by simp
  also have "\<dots> = take k (drop (r + i) d)"
    using assms(2,4) by (simp add: drop_take add.commute)
  finally have "take k (drop i xs) = take k (drop (r + i) d)" .
  then show ?thesis using assms(3,4) by (simp add: rd_blk_def nat_add_distrib)
qed

lemma slice_drop: "take (length xs) (drop r d) = xs \<Longrightarrow> take (length xs - n) (drop (r + n) d) = drop n xs"
  by (metis add.commute drop_drop drop_take)

definition seek_result :: "ogg_sync_state \<Rightarrow> byte list \<Rightarrow> seek \<Rightarrow> (ogg_sync_state \<times> int \<times> ogg_page option) \<Rightarrow> bool" where
  "seek_result oy xs s res \<longleftrightarrow> (case res of (oy', ret, og) \<Rightarrow> sy_storage oy' = sy_storage oy \<and>
     (case s of
        Wait \<Rightarrow> ret = 0 \<and> og = None \<and> sync_ok oy' xs \<and> sy_unsynced oy' = sy_unsynced oy
      | Skip n \<Rightarrow> ret = - int n \<and> og = None \<and> sync_ok oy' (drop n xs) \<and> sy_unsynced oy' = sy_unsynced oy
      | Page p \<Rightarrow> ret = int (length (page_bytes p)) \<and> og = Some p
          \<and> sync_ok oy' (drop (length (page_bytes p)) xs) \<and> \<not> sy_unsynced oy'))"

lemma sync_fail_result:
  assumes ok: "sync_ok oy xs" and "xs \<noteq> []"
  shows "\<exists>res. sync_fail oy = Some res \<and> seek_result oy xs (Skip (skip_to_O xs)) res"
proof -
  let ?n = "skip_to_O xs"
  obtain r where r: "sy_returned oy = int r" "sy_fill oy = int (r + length xs)"
    "sy_storage oy = int (length (sy_bytes oy))" "r + length xs \<le> length (sy_bytes oy)"
    "take (length xs) (drop r (sy_bytes oy)) = xs"
    using ok by (auto simp: sync_ok_def)
  have n: "0 < ?n" "?n \<le> length xs" using skip_to_O_bounds [OF assms(2)] by auto
  have "rd_blk (sy_bytes oy) (int r + 1) (int (length xs - 1)) = Some (tl xs)"
    using rd_blk_slice [OF r(5) refl r(4), of 1 "length xs - 1"] assms(2)
    by (simp add: Suc_leI drop_Suc)
  moreover have "sy_fill oy - sy_returned oy - 1 = int (length xs - 1)"
    using r(1,2) assms(2) by (cases xs) auto
  moreover have "(case memchr (tl xs) 0x4f of None \<Rightarrow> sy_fill oy | Some i \<Rightarrow> int r + 1 + int i)
      = int r + int ?n"
    using r(1,2) by (auto simp: skip_to_O_def split: option.splits)
  ultimately have "sync_fail oy = Some (oy\<lparr>sy_headerbytes := 0, sy_bodybytes := 0, sy_returned := int (r + ?n)\<rparr>,
      - int ?n, None)"
    using r(1) by (simp add: sync_fail_def Let_def)
  moreover have "sync_ok (oy\<lparr>sy_headerbytes := 0, sy_bodybytes := 0, sy_returned := int (r + ?n)\<rparr>) (drop ?n xs)"
    using slice_drop [OF r(5)] r n unfolding sync_ok_def
    by (intro exI [of _ "r + ?n"] exI [of _ "sy_bytes oy"]) simp
  ultimately show ?thesis by (simp add: seek_result_def)
qed


text \<open>Advancing behind a whole page.\<close>

lemma sync_ok_advance:
  assumes "sync_ok oy xs" and "n \<le> length xs"
  shows "sync_ok (oy\<lparr>sy_unsynced := u, sy_returned := sy_returned oy + int n, sy_headerbytes := 0, sy_bodybytes := 0\<rparr>)
    (drop n xs)"
proof -
  obtain r where r: "sy_returned oy = int r" "sy_fill oy = int (r + length xs)"
    "sy_storage oy = int (length (sy_bytes oy))" "r + length xs \<le> length (sy_bytes oy)"
    "take (length xs) (drop r (sy_bytes oy)) = xs"
    using assms(1) by (auto simp: sync_ok_def)
  then show ?thesis
    using slice_drop [of xs r "sy_bytes oy" n] assms(2) unfolding sync_ok_def
    by (intro exI [of _ "r + n"] exI [of _ "sy_bytes oy"]) simp
qed

lemma page_eta: "\<lparr>pg_header = pg_header og, pg_body = pg_body og\<rparr> = (og :: ogg_page)"
  by simp

lemma sync_verify_result:
  assumes ok: "sync_ok oy xs" and len: "27 \<le> length xs" "take 4 xs = OggS" "head_len xs \<le> length xs"
    and hb: "sy_headerbytes oy = int (head_len xs)" "sy_bodybytes oy = int (body_len xs)"
  shows "\<exists>res. sync_verify oy = Some res \<and> seek_result oy xs (seek xs) res"
proof -
  obtain r where r: "sy_returned oy = int r" "sy_fill oy = int (r + length xs)"
    "r + length xs \<le> length (sy_bytes oy)" "take (length xs) (drop r (sy_bytes oy)) = xs"
    using ok by (auto simp: sync_ok_def)
  show ?thesis
  proof (cases "length xs < head_len xs + body_len xs")
    case True
    then have "sync_verify oy = Some (oy, 0, None)" "seek xs = Wait"
      using r(1,2) hb len by (auto simp: sync_verify_def seek_def)
    then show ?thesis using ok by (simp add: seek_result_def)
  next
    case False
    let ?p = "head_page xs"
    have "rd_blk (sy_bytes oy) (int r + int 0) (int (head_len xs)) = Some (take (head_len xs) (drop 0 xs))"
      "rd_blk (sy_bytes oy) (int r + int (head_len xs)) (int (body_len xs)) = Some (pg_body ?p)"
      using rd_blk_slice [OF r(4) refl r(3), of 0 "head_len xs"]
        rd_blk_slice [OF r(4) refl r(3), of "head_len xs" "body_len xs"] False len(3)
      by (simp_all add: head_page_def)
    then have blks: "rd_blk (sy_bytes oy) (int r) (int (head_len xs)) = Some (pg_header ?p)"
      "rd_blk (sy_bytes oy) (int r + int (head_len xs)) (int (body_len xs)) = Some (pg_body ?p)"
      by (simp_all add: head_page_def)
    have h: "26 \<le> length (pg_header ?p)" using len by (simp add: head_page_def head_len_def)
    obtain og' where og': "ogg_page_checksum_set ?p = Some og'"
      "take 4 (drop 22 (pg_header og')) = take 4 (drop 22 (pg_header ?p)) \<longleftrightarrow> page_intact ?p"
    proof -
      let ?x = "le_bytes 4 (crc (zero_field (pg_header ?p @ pg_body ?p)) 0)"
      have "take 4 (drop 22 (take 22 (pg_header ?p) @ ?x @ drop 26 (pg_header ?p))) = ?x"
        using h by (simp add: min_absorb2)
      moreover have "crc_field (pg_header ?p @ pg_body ?p) = take 4 (drop 22 (pg_header ?p))"
        using h by (simp add: crc_field_def)
      ultimately show thesis
        using that checksum_set_eq [OF h] page_intact_iff [OF h] by auto
    qed
    show ?thesis
    proof (cases "page_intact ?p")
      case True
      have n: "length (page_bytes ?p) = head_len xs + body_len xs"
        using False by (simp add: head_page_def page_bytes_def)
      have "sync_verify oy = Some (oy\<lparr>sy_unsynced := False, sy_returned := sy_returned oy + int (head_len xs + body_len xs),
          sy_headerbytes := 0, sy_bodybytes := 0\<rparr>, int (head_len xs + body_len xs), Some ?p)"
        using r(1,2) hb False blks og' True by (simp add: sync_verify_def Let_def page_eta)
      moreover have "seek xs = Page ?p" using True False len by (simp add: seek_def)
      moreover note sync_ok_advance [OF ok, of "head_len xs + body_len xs" False]
      ultimately show ?thesis using n False by (simp add: seek_result_def)
    next
      case bad: False
      have "sync_verify oy = sync_fail oy"
        using r(1,2) hb False blks og' bad by (simp add: sync_verify_def Let_def page_eta)
      moreover have "seek xs = Skip (skip_to_O xs)" using bad False len by (simp add: seek_def)
      moreover have "xs \<noteq> []" using len(1) by auto
      ultimately show ?thesis using sync_fail_result [OF ok] by simp
    qed
  qed
qed

lemma ogg_sync_pageseek_result:
  assumes ok: "sync_ok oy xs"
  shows "\<exists>res. ogg_sync_pageseek oy = Some res \<and> seek_result oy xs (seek xs) res"
proof -
  obtain r where r: "sy_returned oy = int r" "sy_fill oy = int (r + length xs)"
    "r + length xs \<le> length (sy_bytes oy)" "take (length xs) (drop r (sy_bytes oy)) = xs"
    and cached: "sy_headerbytes oy = 0 \<and> sy_bodybytes oy = 0
        \<or> 27 \<le> length xs \<and> take 4 xs = OggS \<and> head_len xs \<le> length xs
          \<and> sy_headerbytes oy = int (head_len xs) \<and> sy_bodybytes oy = int (body_len xs)"
    using ok by (auto simp: sync_ok_def)
  have bytes: "sy_fill oy - sy_returned oy = int (length xs)" using r by simp
  show ?thesis
  proof (cases "sy_headerbytes oy = 0")
    case False
    then have "ogg_sync_pageseek oy = sync_verify oy"
      using sync_ok_check [OF ok] by (simp add: ogg_sync_pageseek_def)
    then show ?thesis using cached False sync_verify_result [OF ok] by auto
  next
    case fresh: True
    moreover have "0 < head_len xs" by (simp add: head_len_def)
    ultimately have b0: "sy_bodybytes oy = 0" using cached by linarith
    show ?thesis
    proof (cases "length xs < 27")
      case True
      then show ?thesis
        using fresh ok sync_ok_check [OF ok] bytes
        by (simp add: ogg_sync_pageseek_def seek_def seek_result_def)
    next
      case long: False
      then have cap: "rd_blk (sy_bytes oy) (int r) 4 = Some (take 4 xs)"
        "rd (sy_bytes oy) (int r + 26) = Some (xs ! 26)"
        using rd_blk_slice [OF r(4) refl r(3), of 0 4] rd_slice [OF r(4) refl, of 26] by simp_all
      have n: "uint (xs ! 26) + 27 = int (head_len xs)" by (simp add: head_len_def)
      show ?thesis
      proof (cases "take 4 xs = OggS")
        case False
        have "ogg_sync_pageseek oy = sync_fail oy" "seek xs = Skip (skip_to_O xs)"
          using False long fresh sync_ok_check [OF ok] bytes cap r(1)
          by (simp_all add: ogg_sync_pageseek_def seek_def OggS_def)
        moreover have "xs \<noteq> []" using long by auto
        ultimately show ?thesis using sync_fail_result [OF ok] by simp
      next
        case magic: True
        show ?thesis
        proof (cases "length xs < head_len xs")
          case True
          then show ?thesis
            using long fresh sync_ok_check [OF ok] bytes cap r(1) magic n ok
            by (simp add: ogg_sync_pageseek_def seek_def OggS_def seek_result_def)
        next
          case False
          let ?oy = "oy\<lparr>sy_bodybytes := int (body_len xs), sy_headerbytes := int (head_len xs)\<rparr>"
          have "rd_blk (sy_bytes oy) (int r + 27) (uint (xs ! 26)) = Some (take (unat (xs ! 26)) (drop 27 xs))"
            using rd_blk_slice [OF r(4) refl r(3), of 27 "unat (xs ! 26)"] False by (simp add: head_len_def)
          then have "ogg_sync_pageseek oy = sync_verify ?oy"
            using long fresh b0 sync_ok_check [OF ok] bytes cap r(1) magic n False
            by (simp add: ogg_sync_pageseek_def OggS_def body_len_def sum_uint)
          moreover have "sync_ok ?oy xs"
            using ok long magic False unfolding sync_ok_def by auto
          moreover have "seek_result oy xs s res \<longleftrightarrow> seek_result ?oy xs s res" for s res
            by (simp add: seek_result_def split: seek.splits)
          ultimately show ?thesis
            using sync_verify_result [of ?oy xs] long magic False by simp
        qed
      qed
    qed
  qed
qed


text \<open>The abstract \<open>ogg_sync_pageout\<close>: a first loss of synchronisation is reported, further ones are not.\<close>

function scan :: "bool \<Rightarrow> byte list \<Rightarrow> int \<times> ogg_page option \<times> bool \<times> byte list" where
  "scan unsynced xs = (case seek xs of
     Wait \<Rightarrow> (0, None, unsynced, xs)
   | Page og \<Rightarrow> (1, Some og, False, drop (length (page_bytes og)) xs)
   | Skip n \<Rightarrow> if unsynced then scan True (drop n xs) else (-1, None, True, drop n xs))"
  by pat_completeness auto
termination
  by (relation "measure (\<lambda>(u, xs). length xs)") (use seek_Skip in fastforce)+

declare scan.simps [simp del]

lemma pageout_loop_result:
  assumes "sync_ok oy xs" and "length xs < fuel"
  shows "\<exists>oy' ret og. pageout_loop fuel oy = Some (oy', ret, og) \<and> sy_storage oy' = sy_storage oy \<and>
    (case scan (sy_unsynced oy) xs of (ret', og', u, ys) \<Rightarrow> ret = ret' \<and> og = og' \<and> sy_unsynced oy' = u \<and> sync_ok oy' ys)"
  using assms
proof (induction fuel arbitrary: oy xs)
  case (Suc fuel)
  obtain oy1 ret og where seek: "ogg_sync_pageseek oy = Some (oy1, ret, og)" "seek_result oy xs (seek xs) (oy1, ret, og)"
    using ogg_sync_pageseek_result [OF Suc.prems(1)] by auto
  show ?case
  proof (cases "seek xs")
    case Wait
    then show ?thesis using seek by (simp add: seek_result_def scan.simps [of _ xs])
  next
    case (Page p)
    then have "page_wf p" using seek_Page by blast
    then have "page_bytes p \<noteq> []" by (auto simp: page_wf_def page_bytes_def)
    then show ?thesis using seek Page by (simp add: seek_result_def scan.simps [of _ xs])
  next
    case (Skip n)
    then have n: "0 < n" "n \<le> length xs" using seek_Skip by blast+
    have res: "ret = - int n" "sync_ok oy1 (drop n xs)" "sy_unsynced oy1 = sy_unsynced oy" "sy_storage oy1 = sy_storage oy"
      using seek(2) Skip by (simp_all add: seek_result_def)
    show ?thesis
    proof (cases "sy_unsynced oy")
      case True
      have "length (drop n xs) < fuel" using n Suc.prems(2) by simp
      from Suc.IH [OF res(2) this] show ?thesis
        using True res n seek(1) Skip by (simp add: scan.simps [of _ xs])
    next
      case False
      have "sync_ok (oy1\<lparr>sy_unsynced := True\<rparr>) (drop n xs)"
        using res(2) by (simp add: sync_ok_def)
      then show ?thesis using False res n seek(1) Skip by (simp add: scan.simps [of _ xs])
    qed
  qed
qed simp

lemma ogg_sync_pageout_result:
  assumes "sync_ok oy xs"
  shows "\<exists>oy' ret og. ogg_sync_pageout oy = Some (oy', ret, og) \<and> sy_storage oy' = sy_storage oy \<and>
    (case scan (sy_unsynced oy) xs of (ret', og', u, ys) \<Rightarrow> ret = ret' \<and> og = og' \<and> sy_unsynced oy' = u \<and> sync_ok oy' ys)"
proof -
  have "nat (sy_fill oy - sy_returned oy) = length xs" using assms by (auto simp: sync_ok_def)
  then show ?thesis
    using pageout_loop_result [OF assms, of "length xs + 1"] sync_ok_check [OF assms]
    by (simp add: ogg_sync_pageout_def)
qed

section \<open>Filling the buffer\<close>

lemma sync_shift_ok:
  assumes "sync_ok oy xs"
  shows "\<exists>oy'. sync_shift oy = Some oy' \<and> sync_ok oy' xs \<and> sy_returned oy' = 0 \<and> sy_fill oy' = int (length xs)
    \<and> sy_storage oy' = sy_storage oy \<and> sy_unsynced oy' = sy_unsynced oy"
proof -
  obtain r d where r: "sy_bytes oy = d" "sy_returned oy = int r" "sy_fill oy = int (r + length xs)"
    "sy_storage oy = int (length d)" "r + length xs \<le> length d" "take (length xs) (drop r d) = xs"
    and hb: "sy_headerbytes oy = 0 \<and> sy_bodybytes oy = 0
        \<or> 27 \<le> length xs \<and> take 4 xs = OggS \<and> head_len xs \<le> length xs
          \<and> sy_headerbytes oy = int (head_len xs) \<and> sy_bodybytes oy = int (body_len xs)"
    using assms by (auto simp: sync_ok_def)
  consider "r = 0" | "r \<noteq> 0" "xs = []" | "r \<noteq> 0" "xs \<noteq> []" by blast
  then show ?thesis
  proof cases
    case 1
    then show ?thesis using r(2,3) assms by (simp add: sync_shift_def)
  next
    case 2
    then have "sync_shift oy = Some (oy\<lparr>sy_fill := 0, sy_returned := 0\<rparr>)"
      using r by (simp add: sync_shift_def)
    moreover have "sync_ok (oy\<lparr>sy_fill := 0, sy_returned := 0\<rparr>) xs"
      using 2 r hb unfolding sync_ok_def by (intro exI [of _ 0] exI [of _ d]) simp
    ultimately show ?thesis using 2 by simp
  next
    case 3
    then have data: "sy_data oy = Some d" using r(1,5) by (cases "sy_data oy") auto
    let ?d = "xs @ drop (length xs) d"
    have "rd_blk d (int r) (int (length xs)) = Some xs"
      using r(5,6) by (simp add: rd_blk_def)
    moreover have "wr_blk d 0 xs = Some ?d"
      using r(5) by (simp add: wr_blk_def)
    ultimately have "sync_shift oy = Some (oy\<lparr>sy_data := Some ?d, sy_fill := int (length xs), sy_returned := 0\<rparr>)"
      using 3 r(2,3) data by (simp add: sync_shift_def)
    moreover have "sync_ok (oy\<lparr>sy_data := Some ?d, sy_fill := int (length xs), sy_returned := 0\<rparr>) xs"
      using r(4,5) hb unfolding sync_ok_def by (intro exI [of _ 0] exI [of _ ?d]) simp
    ultimately show ?thesis by simp
  qed
qed

lemma ogg_sync_buffer_ok:
  assumes ok: "sync_ok oy xs" and al: "alloc_ok al" and sz: "0 \<le> sz"
  shows "\<exists>oy' b. ogg_sync_buffer al oy sz = Some (oy', b)
    \<and> (b \<longrightarrow> sync_ok oy' xs \<and> sy_fill oy' + sz \<le> sy_storage oy' \<and> sy_unsynced oy' = sy_unsynced oy)
    \<and> (\<not> b \<longrightarrow> al (sz + int (length xs) + 4096) = None \<and> oy' = ogg_sync_init)"
proof -
  obtain oy1 where oy1: "sync_shift oy = Some oy1" "sync_ok oy1 xs" "sy_returned oy1 = 0"
    "sy_fill oy1 = int (length xs)" "sy_unsynced oy1 = sy_unsynced oy"
    using sync_shift_ok [OF ok] by auto
  let ?new = "sz + int (length xs) + 4096"
  show ?thesis
  proof (cases "sz > sy_storage oy1 - sy_fill oy1")
    case False
    then have "ogg_sync_buffer al oy sz = Some (oy1, True)"
      using oy1 sync_ok_check [OF ok] by (simp add: ogg_sync_buffer_def)
    then show ?thesis using False oy1 by auto
  next
    case grow: True
    show ?thesis
    proof (cases "al ?new")
      case None
      then show ?thesis
        using grow oy1 sync_ok_check [OF ok]
        by (auto simp: ogg_sync_buffer_def realloc_def ogg_sync_clear_def ac_simps)
    next
      case (Some blk)
      have st: "sy_storage oy1 = int (length (sy_bytes oy1))" "length xs \<le> length (sy_bytes oy1)"
        "take (length xs) (sy_bytes oy1) = xs"
        using oy1(2-4) by (auto simp: sync_ok_def)
      then have "int (length (sy_bytes oy1)) \<le> ?new" using grow oy1(4) by linarith
      then obtain ys where ys: "realloc al (sy_bytes oy1) ?new = Some (sy_bytes oy1 @ ys)"
        "int (length (sy_bytes oy1 @ ys)) = ?new"
        using realloc_Some [OF al Some] by blast
      let ?oy = "oy1\<lparr>sy_data := Some (sy_bytes oy1 @ ys), sy_storage := ?new\<rparr>"
      have "ogg_sync_buffer al oy sz = Some (?oy, True)"
        using grow oy1 ys(1) sync_ok_check [OF ok] by (simp add: ogg_sync_buffer_def ac_simps)
      moreover have "sync_ok ?oy xs"
        using oy1(2-4) st(2,3) ys(2) unfolding sync_ok_def by auto
      ultimately show ?thesis using oy1(4,5) sz by auto
    qed
  qed
qed

text \<open>The bytes that are stored and announced are appended.\<close>

lemma sync_store_ok:
  assumes ok: "sync_ok oy xs" and room: "sy_fill oy + int (length ys) \<le> sy_storage oy" and pos: "0 < sy_storage oy"
  shows "\<exists>oy1 oy2. sync_store oy ys = Some oy1 \<and> ogg_sync_wrote oy1 (int (length ys)) = (oy2, 0)
    \<and> sync_ok oy2 (xs @ ys) \<and> sy_unsynced oy2 = sy_unsynced oy \<and> sy_storage oy2 = sy_storage oy"
proof -
  obtain r d where r: "sy_bytes oy = d" "sy_returned oy = int r" "sy_fill oy = int (r + length xs)"
    "sy_storage oy = int (length d)" "r + length xs \<le> length d" "take (length xs) (drop r d) = xs"
    and hb: "sy_headerbytes oy = 0 \<and> sy_bodybytes oy = 0
        \<or> 27 \<le> length xs \<and> take 4 xs = OggS \<and> head_len xs \<le> length xs
          \<and> sy_headerbytes oy = int (head_len xs) \<and> sy_bodybytes oy = int (body_len xs)"
    using ok by (auto simp: sync_ok_def)
  have data: "sy_data oy \<noteq> None" using pos r(1,4) by (cases "sy_data oy") auto
  have le: "r + length xs + length ys \<le> length d" using room r(3,4) by simp
  let ?d = "take (r + length xs) d @ ys @ drop (r + length xs + length ys) d"
  have "wr_blk d (int (r + length xs)) ys = Some ?d"
    using wr_blk_nat [of "r + length xs" ys d] le by simp
  then have s: "sync_store oy ys = Some (oy\<lparr>sy_data := Some ?d\<rparr>)"
    using data r(1,3) by (auto simp: sync_store_def)
  let ?oy = "oy\<lparr>sy_data := Some ?d, sy_fill := int (r + length (xs @ ys))\<rparr>"
  have w: "ogg_sync_wrote (oy\<lparr>sy_data := Some ?d\<rparr>) (int (length ys)) = (?oy, 0)"
    using r(3,4) le by (simp add: ogg_sync_wrote_def ogg_sync_check_def)
  have "take r d @ xs = take (r + length xs) d" using r(6) by (simp add: take_add)
  then have "?d = (take r d @ xs) @ ys @ drop (r + length xs + length ys) d" by simp
  then have "take (length (xs @ ys)) (drop r ?d) = xs @ ys" using r(5) by simp
  moreover have "27 \<le> length xs \<and> head_len xs \<le> length xs \<longrightarrow>
      head_len (xs @ ys) = head_len xs \<and> body_len (xs @ ys) = body_len xs"
    by (simp add: head_len_append body_len_append)
  ultimately have "sync_ok ?oy (xs @ ys)"
    using r hb le unfolding sync_ok_def by (intro exI [of _ r] exI [of _ ?d]) auto
  then show ?thesis using s w by auto
qed


text \<open>C32: \<open>ogg_sync_pageseek\<close> finds exactly the pages: at any position it returns the intact page that
  starts there, or asks for more bytes, or skips bytes none of which starts a page, whatever bytes \<open>ys\<close> will
  follow those in the buffer, so that no page is lost whose first bytes are in the buffer already;
  a page that is only partly there is waited for, and a page that follows in the buffer is found as
  it was written.\<close>

theorem ogg_sync_finds_pages:
  assumes "sync_ok oy xs"
  shows "(\<exists>oy' ret og. ogg_sync_pageseek oy = Some (oy', ret, og) \<and>
      (if ret > 0 then (\<exists>p ys. og = Some p \<and> page_wf p \<and> xs = page_bytes p @ ys
           \<and> ret = int (length (page_bytes p)) \<and> sync_ok oy' ys)
       else if ret = 0 then og = None \<and> sync_ok oy' xs
       else og = None \<and> nat (- ret) \<le> length xs \<and> sync_ok oy' (drop (nat (- ret)) xs)
         \<and> (\<forall>j < nat (- ret). \<forall>p ys zs. page_wf p \<longrightarrow> drop j xs @ ys \<noteq> page_bytes p @ zs))
      \<and> (\<forall>p zs. page_wf p \<longrightarrow> xs = page_bytes p @ zs \<longrightarrow> og = Some p)
      \<and> (\<forall>p zs. page_wf p \<longrightarrow> page_bytes p = xs @ zs \<longrightarrow> zs \<noteq> [] \<longrightarrow> ret = 0))"
proof -
  obtain oy' ret og where seek: "ogg_sync_pageseek oy = Some (oy', ret, og)" "seek_result oy xs (seek xs) (oy', ret, og)"
    using ogg_sync_pageseek_result [OF assms] by auto
  have found: "seek xs = Page p" if "page_wf p" "xs = page_bytes p @ zs" for p zs
    using seek_page [OF that(1)] that(2) by simp
  have waits: "seek xs = Wait" if "page_wf p" "page_bytes p = xs @ zs" "zs \<noteq> []" for p zs
    using seek_prefix [OF that] .
  have conv: "(\<forall>p zs. page_wf p \<longrightarrow> xs = page_bytes p @ zs \<longrightarrow> og = Some p)
      \<and> (\<forall>p zs. page_wf p \<longrightarrow> page_bytes p = xs @ zs \<longrightarrow> zs \<noteq> [] \<longrightarrow> ret = 0)"
  proof (intro conjI allI impI)
    fix p zs assume "page_wf p" "xs = page_bytes p @ zs"
    then have "seek xs = Page p" by (rule found)
    then show "og = Some p" using seek(2) by (simp add: seek_result_def)
  next
    fix p zs assume "page_wf p" "page_bytes p = xs @ zs" "zs \<noteq> []"
    then have "seek xs = Wait" by (rule waits)
    then show "ret = 0" using seek(2) by (simp add: seek_result_def)
  qed
  have main: "if ret > 0 then (\<exists>p ys. og = Some p \<and> page_wf p \<and> xs = page_bytes p @ ys
           \<and> ret = int (length (page_bytes p)) \<and> sync_ok oy' ys)
       else if ret = 0 then og = None \<and> sync_ok oy' xs
       else og = None \<and> nat (- ret) \<le> length xs \<and> sync_ok oy' (drop (nat (- ret)) xs)
         \<and> (\<forall>j < nat (- ret). \<forall>p ys zs. page_wf p \<longrightarrow> drop j xs @ ys \<noteq> page_bytes p @ zs)"
  proof (cases "seek xs")
    case Wait
    then show ?thesis using seek(2) by (simp add: seek_result_def)
  next
    case (Skip n)
    from seek_Skip [OF Skip] have "0 < n" "n \<le> length xs"
      "\<forall>j < n. \<forall>p ys zs. page_wf p \<longrightarrow> drop j xs @ ys \<noteq> page_bytes p @ zs" by simp_all
    then show ?thesis using seek(2) Skip by (simp add: seek_result_def)
  next
    case (Page p)
    obtain ys where p: "page_wf p" "xs = page_bytes p @ ys" using seek_Page [OF Page] by blast
    then have "page_bytes p \<noteq> []" by (auto simp: page_wf_def page_bytes_def)
    moreover have "ret = int (length (page_bytes p))" "og = Some p" "sync_ok oy' ys"
      using seek(2) Page p(2) by (simp_all add: seek_result_def)
    ultimately show ?thesis using p by simp
  qed
  from seek(1) main conv show ?thesis by blast
qed

text \<open>A page with one segment, in a buffer of its length.\<close>

definition sealed_header :: "byte \<Rightarrow> 64 word \<Rightarrow> 32 word \<Rightarrow> 32 word \<Rightarrow> byte list \<Rightarrow> byte list \<Rightarrow> byte list" where
  "sealed_header flags g serialno pageno segs x =
     (OggS @ [0, flags] @ le_bytes 8 g @ le_bytes 4 serialno @ le_bytes 4 pageno) @ x @ of_nat (length segs) # segs"

lemma seal_page:
  "\<exists>x. ogg_page_checksum_set \<lparr>pg_header = page_header flags g serialno pageno segs, pg_body = body\<rparr>
      = Some \<lparr>pg_header = sealed_header flags g serialno pageno segs x, pg_body = body\<rparr>
    \<and> length x = 4 \<and> page_intact \<lparr>pg_header = sealed_header flags g serialno pageno segs x, pg_body = body\<rparr>"
proof -
  let ?p = "\<lparr>pg_header = page_header flags g serialno pageno segs, pg_body = body\<rparr>"
  let ?a = "OggS @ [0, flags] @ le_bytes 8 g @ le_bytes 4 serialno @ le_bytes 4 pageno"
  have h: "pg_header ?p = ?a @ [0, 0, 0, 0] @ of_nat (length segs) # segs"
    by (simp add: page_header_def OggS_def)
  have a: "length ?a = 22" by (simp add: OggS_def)
  have len: "26 \<le> length (pg_header ?p)" unfolding h length_append [of ?a] a by simp
  have "take 22 (pg_header ?p) = ?a" "drop 26 (pg_header ?p) = of_nat (length segs) # segs"
    unfolding h using a by simp_all
  then obtain x where x: "ogg_page_checksum_set ?p = Some \<lparr>pg_header = sealed_header flags g serialno pageno segs x, pg_body = body\<rparr>"
    "length x = 4"
    using checksum_set_eq [OF len] by (simp add: sealed_header_def)
  then show ?thesis using checksum_set_intact [OF len] by auto
qed

lemma sealed_header_parts:
  assumes "length x = 4" and "length segs \<le> 255"
  shows "length (sealed_header flags g serialno pageno segs x) = 27 + length segs"
    and "sealed_header flags g serialno pageno segs x ! 26 = of_nat (length segs)"
    and "drop 27 (sealed_header flags g serialno pageno segs x) = segs"
    and "take 4 (sealed_header flags g serialno pageno segs x) = OggS"
    and "unat (sealed_header flags g serialno pageno segs x ! 26) = length segs"
proof -
  obtain ys where h: "sealed_header flags g serialno pageno segs x = ys @ of_nat (length segs) # segs"
    and ys: "length ys = 26"
    using that [of "(OggS @ [0, flags] @ le_bytes 8 g @ le_bytes 4 serialno @ le_bytes 4 pageno) @ x"] assms(1)
    by (simp add: sealed_header_def OggS_def)
  show "length (sealed_header flags g serialno pageno segs x) = 27 + length segs"
    "drop 27 (sealed_header flags g serialno pageno segs x) = segs"
    using ys by (simp_all add: h)
  show n: "sealed_header flags g serialno pageno segs x ! 26 = of_nat (length segs)"
    using ys by (simp add: h nth_append)
  show "unat (sealed_header flags g serialno pageno segs x ! 26) = length segs"
    unfolding n using assms(2) by (simp add: unat_of_nat)
  show "take 4 (sealed_header flags g serialno pageno segs x) = OggS"
    by (simp add: sealed_header_def OggS_def)
qed

lemma page_wf_sealed:
  assumes "length x = 4" and "length segs \<le> 255" and "length body = sum_list (map unat segs)"
    and "page_intact \<lparr>pg_header = sealed_header flags g serialno pageno segs x, pg_body = body\<rparr>"
  shows "page_wf \<lparr>pg_header = sealed_header flags g serialno pageno segs x, pg_body = body\<rparr>"
  using assms sealed_header_parts [OF assms(1,2)]
  by (simp add: page_wf_def head_len_def body_len_def)

definition demo_page :: "byte list \<Rightarrow> ogg_page" where
  "demo_page x = \<lparr>pg_header = sealed_header 2 0 7 0 [3] x, pg_body = [1, 2, 3]\<rparr>"

lemma demo_page_wf: "\<exists>x. length x = 4 \<and> page_wf (demo_page x)"
  using seal_page [of 2 0 7 0 "[3]" "[1, 2, 3]"] page_wf_sealed [of _ "[3]" "[1, 2, 3]"]
  by (auto simp: demo_page_def)

theorem ogg_sync_finds_pages_witness:
  "\<exists>x oy'. page_wf (demo_page x) \<and>
     ogg_sync_pageseek (ogg_sync_init\<lparr>sy_data := Some (page_bytes (demo_page x)), sy_storage := 31, sy_fill := 31\<rparr>)
       = Some (oy', 31, Some (demo_page x))"
proof -
  obtain x where x: "length x = 4" "page_wf (demo_page x)" using demo_page_wf by blast
  have len: "length (page_bytes (demo_page x)) = 31"
    using sealed_header_parts(1) [OF x(1), of "[3]"] by (simp add: page_bytes_def demo_page_def)
  let ?oy = "ogg_sync_init\<lparr>sy_data := Some (page_bytes (demo_page x)), sy_storage := 31, sy_fill := 31\<rparr>"
  have "sync_ok ?oy (page_bytes (demo_page x))"
    using len by (simp add: sync_ok_def ogg_sync_init_def)
  from ogg_sync_finds_pages [OF this] obtain oy' ret og where seek: "ogg_sync_pageseek ?oy = Some (oy', ret, og)"
    and found: "\<forall>p zs. page_wf p \<longrightarrow> page_bytes (demo_page x) = page_bytes p @ zs \<longrightarrow> og = Some p"
    and ret: "if ret > 0 then (\<exists>p ys. og = Some p \<and> page_wf p \<and> page_bytes (demo_page x) = page_bytes p @ ys
           \<and> ret = int (length (page_bytes p)) \<and> sync_ok oy' ys)
       else if ret = 0 then og = None \<and> sync_ok oy' (page_bytes (demo_page x))
       else og = None \<and> nat (- ret) \<le> length (page_bytes (demo_page x))
         \<and> sync_ok oy' (drop (nat (- ret)) (page_bytes (demo_page x)))
         \<and> (\<forall>j < nat (- ret). \<forall>p ys zs. page_wf p \<longrightarrow> drop j (page_bytes (demo_page x)) @ ys \<noteq> page_bytes p @ zs)"
    by (elim exE conjE) (rule that)
  have og: "og = Some (demo_page x)" using found x(2) by (metis append_Nil2)
  then have "ret = 31" using ret len by (auto split: if_splits)
  then show ?thesis using seek og x(2) by blast
qed

end
