(* ===== verification/OggEncode.thy ===== *)
theory OggEncode
  imports OggSync
begin

unbundle bit_operations_syntax

text \<open>
  Encoding (\<^verbatim>\<open>src/ogg123/src/framing.c\<close>): what \<open>ogg_stream_packetin\<close> and the functions that flush pages do to
  the queue of segments that a stream holds. A segment is the mark of a packet start, its at most
  255 bytes, and a position.
\<close>

section \<open>Segments\<close>

type_synonym segment = "bool \<times> byte list \<times> 64 word"

abbreviation seg_first :: "segment \<Rightarrow> bool" where "seg_first s \<equiv> fst s"
abbreviation seg_data :: "segment \<Rightarrow> byte list" where "seg_data s \<equiv> fst (snd s)"
abbreviation seg_gran :: "segment \<Rightarrow> 64 word" where "seg_gran s \<equiv> snd (snd s)"

text \<open>A packet is cut into segments of 255 bytes and a shorter, possibly empty one.\<close>

function chunks :: "byte list \<Rightarrow> byte list list" where
  "chunks p = (if length p < 255 then [p] else take 255 p # chunks (drop 255 p))"
  by pat_completeness auto
termination
  by (relation "measure length") auto

declare chunks.simps [simp del]

definition seg_list :: "byte list \<Rightarrow> 64 word \<Rightarrow> 64 word \<Rightarrow> segment list" where
  "seg_list p g0 g = (let cs = chunks p in
     map (\<lambda>i. (i = 0, cs ! i, if Suc i < length cs then g0 else g)) [0..<length cs])"

definition lace :: "segment \<Rightarrow> 32 word" where
  "lace s = of_nat (length (seg_data s)) OR (if seg_first s then 0x100 else 0)"

lemma chunks_props:
  "concat (chunks p) = p \<and> length (chunks p) = Suc (length p div 255)
   \<and> (\<forall>i < length p div 255. length (chunks p ! i) = 255)
   \<and> length (chunks p ! (length p div 255)) = length p mod 255"
proof (induction p rule: chunks.induct)
  case (1 p)
  show ?case
  proof (cases "length p < 255")
    case True
    then show ?thesis by (simp add: chunks.simps [of p])
  next
    case False
    then have c: "chunks p = take 255 p # chunks (drop 255 p)" by (simp add: chunks.simps [of p])
    have len: "length p div 255 = Suc ((length p - 255) div 255)" "length p mod 255 = (length p - 255) mod 255"
      using False by (simp_all add: le_div_geq le_mod_geq)
    show ?thesis
      using 1 False unfolding c len
      by (auto simp: nth_Cons' less_Suc_eq_0_disj)
  qed
qed

lemma chunks_le: "d \<in> set (chunks p) \<Longrightarrow> length d \<le> 255"
proof (induction p rule: chunks.induct)
  case (1 p)
  then show ?case by (cases "length p < 255") (auto simp: chunks.simps [of p])
qed

lemma chunks_nonempty [simp]: "chunks p \<noteq> []"
  by (simp add: chunks.simps [of p])

lemma seg_list_data: "map seg_data (seg_list p g0 g) = chunks p"
  by (auto simp: seg_list_def Let_def comp_def intro: nth_equalityI)

lemma seg_list_first: "map seg_first (seg_list p g0 g) = True # replicate (length p div 255) False"
proof (rule nth_equalityI)
  fix i assume "i < length (map seg_first (seg_list p g0 g))"
  then show "map seg_first (seg_list p g0 g) ! i = (True # replicate (length p div 255) False) ! i"
    using chunks_props [of p] by (cases i) (simp_all add: seg_list_def Let_def del: upt_Suc)
qed (use chunks_props [of p] in \<open>simp add: seg_list_def Let_def\<close>)

lemma length_seg_list: "length (seg_list p g0 g) = Suc (length p div 255)"
  using chunks_props [of p] by (simp add: seg_list_def Let_def)

lemma seg_list_le: "s \<in> set (seg_list p g0 g) \<Longrightarrow> length (seg_data s) \<le> 255"
proof -
  assume "s \<in> set (seg_list p g0 g)"
  then have "seg_data s \<in> set (map seg_data (seg_list p g0 g))" by force
  then show ?thesis unfolding seg_list_data by (rule chunks_le)
qed

lemma map_lace_seg_list:
  "map lace (seg_list p g0 g) =
     (replicate (length p div 255) 255 @ [of_nat (length p mod 255)])
       [0 := (replicate (length p div 255) 255 @ [of_nat (length p mod 255)]) ! 0 OR 0x100]"
proof (rule nth_equalityI)
  fix i assume "i < length (map lace (seg_list p g0 g))"
  then have i: "i \<le> length p div 255" by (simp add: length_seg_list)
  have c: "length (chunks p ! i) = (if i < length p div 255 then 255 else length p mod 255)"
    using chunks_props [of p] i by auto
  have "map lace (seg_list p g0 g) ! i = of_nat (length (chunks p ! i)) OR (if i = 0 then 0x100 else 0)"
    using i chunks_props [of p] by (simp add: seg_list_def Let_def lace_def del: upt_Suc)
  then show "map lace (seg_list p g0 g) ! i =
     (replicate (length p div 255) 255 @ [of_nat (length p mod 255)])
       [0 := (replicate (length p div 255) 255 @ [of_nat (length p mod 255)]) ! 0 OR 0x100] ! i"
    using i c by (cases "i = 0") (auto simp: nth_append)
qed (simp add: length_seg_list)

lemma map_gran_seg_list:
  "map seg_gran (seg_list p g0 g) = replicate (length p div 255) g0 @ [g]"
  using chunks_props [of p]
  by (auto simp: seg_list_def Let_def comp_def nth_append intro!: nth_equalityI simp del: upt_Suc)

lemma lace_parts:
  assumes "length (seg_data s) \<le> 255"
  shows "lace s AND 0xff = of_nat (length (seg_data s))"
    and "lace s AND 0x100 = 0 \<longleftrightarrow> \<not> seg_first s"
    and "uint (lace s AND 0xff) = int (length (seg_data s))"
    and "lace s AND 0xff < 255 \<longleftrightarrow> length (seg_data s) < 255"
    and "ucast (lace s AND 0xff) = (of_nat (length (seg_data s)) :: byte)"
proof -
  let ?n = "length (seg_data s)"
  have m: "(0xff :: 32 word) = mask 8" "(0x100 :: 32 word) = push_bit 8 1" by (simp_all add: mask_numeral)
  have n: "take_bit 8 (of_nat ?n :: 32 word) = of_nat ?n"
  proof -
    have "take_bit 8 ?n = ?n" using assms by (simp add: take_bit_nat_eq_self_iff)
    then show ?thesis by (simp flip: of_nat_take_bit)
  qed
  have nb: "\<not> bit (of_nat ?n :: 32 word) i" if "8 \<le> i" for i
    by (metis bit_take_bit_iff leD n that)
  show a: "lace s AND 0xff = of_nat ?n"
  proof -
    have "of_nat ?n AND 0xff = (of_nat ?n :: 32 word)" using n by (simp only: m take_bit_eq_mask)
    then show ?thesis by (simp add: lace_def bit.conj_disj_distrib2)
  qed
  have "bit (lace s) 8 \<longleftrightarrow> seg_first s"
    using nb [of 8] by (simp add: lace_def bit_or_iff)
  then show "lace s AND 0x100 = 0 \<longleftrightarrow> \<not> seg_first s"
    using and_exp_eq_0_iff_not_bit [of "lace s" 8] by simp
  show "uint (lace s AND 0xff) = int ?n"
    unfolding a using assms by (simp add: unsigned_of_nat take_bit_nat_eq_self_iff)
  then show "lace s AND 0xff < 255 \<longleftrightarrow> ?n < 255"
    by (simp add: word_less_def)
  show "ucast (lace s AND 0xff) = (of_nat ?n :: byte)"
  proof -
    have "take_bit 32 ?n = ?n" using assms by (simp add: take_bit_nat_eq_self_iff)
    then show ?thesis unfolding a by (simp add: unsigned_of_nat)
  qed
qed


section \<open>The queue of segments of a stream\<close>

abbreviation all_data :: "segment list \<Rightarrow> byte list" where
  "all_data segs \<equiv> concat (map seg_data segs)"

text \<open>The body holds \<open>xs\<close> behind the returned bytes.\<close>

definition body_ok :: "ogg_stream_state \<Rightarrow> byte list \<Rightarrow> bool" where
  "body_ok os xs \<longleftrightarrow> (\<exists>b r. os_body os = Some b \<and> os_body_storage os = int (length b)
     \<and> os_body_returned os = int r \<and> os_body_fill os = int (r + length xs) \<and> r + length xs \<le> length b
     \<and> take (length xs) (drop r b) = xs)"

text \<open>The queue of segments, as part of the lacing arrays.\<close>

definition lacing_ok :: "ogg_stream_state \<Rightarrow> nat \<Rightarrow> 32 word list \<Rightarrow> 64 word list \<Rightarrow> bool" where
  "lacing_ok os r ls gs \<longleftrightarrow> (\<exists>l g. os_lacing os = Some l \<and> os_granule os = Some g
     \<and> os_lacing_storage os = int (length l) \<and> length g = length l
     \<and> os_lacing_returned os = int r \<and> os_lacing_fill os = int (r + length ls) \<and> r + length ls \<le> length l
     \<and> length gs = length ls \<and> take (length ls) (drop r l) = ls \<and> take (length ls) (drop r g) = gs)"

definition enc_ok :: "ogg_stream_state \<Rightarrow> segment list \<Rightarrow> bool" where
  "enc_ok os segs \<longleftrightarrow> body_ok os (all_data segs) \<and> lacing_ok os 0 (map lace segs) (map seg_gran segs)
   \<and> (\<forall>s \<in> set segs. length (seg_data s) \<le> 255) \<and> length (os_header os) = 282"

definition mem_ok :: "ogg_mem \<Rightarrow> bool" where
  "mem_ok mem \<longleftrightarrow> alloc_ok (mem_body mem) \<and> alloc_ok (mem_lacing mem) \<and> alloc_ok (mem_granule mem)"

lemma body_ok_check: "body_ok os xs \<Longrightarrow> ogg_stream_check os"
  by (auto simp: body_ok_def ogg_stream_check_def)

lemma enc_ok_check: "enc_ok os segs \<Longrightarrow> ogg_stream_check os"
  using body_ok_check by (auto simp: enc_ok_def)

lemma alloc_ok_length: "alloc_ok al \<Longrightarrow> al n = Some blk \<Longrightarrow> 0 \<le> n \<Longrightarrow> int (length blk) = n"
  unfolding alloc_ok_def by (metis max.absorb2)

lemma ogg_stream_init_ok:
  assumes "mem_ok mem" and "ogg_stream_init mem serialno = (os, 0)"
  shows "enc_ok os [] \<and> os_bos os = False \<and> os_eos os = False \<and> os_pageno os = 0 \<and> os_serialno os = serialno
    \<and> os_lacing_packet os = 0 \<and> os_lacing_returned os = 0 \<and> os_granulepos os = 0 \<and> os_packetno os = 0
    \<and> os_body_storage os = 16384 \<and> os_lacing_storage os = 1024"
proof -
  obtain b l g where al: "mem_body mem (16 * 1024) = Some b" "mem_lacing mem 1024 = Some l" "mem_granule mem 1024 = Some g"
    and os: "os = ogg_stream_zero\<lparr>os_body_storage := 16 * 1024, os_lacing_storage := 1024, os_body := Some b,
      os_lacing := Some l, os_granule := Some g, os_serialno := serialno\<rparr>"
    using assms(2) by (auto simp: ogg_stream_init_def split: option.splits)
  have "int (length b) = 16 * 1024" "int (length l) = 1024" "int (length g) = 1024"
    using assms(1) al by (auto simp: mem_ok_def dest: alloc_ok_length)
  then show ?thesis
    by (auto simp: os enc_ok_def body_ok_def lacing_ok_def ogg_stream_zero_def)
qed

text \<open>Both expansions leave everything as it is, except the room.\<close>

lemma os_body_expand_ok:
  assumes ok: "body_ok os xs" and al: "alloc_ok (mem_body mem)" and n: "0 \<le> needed"
  shows "(\<exists>os'. os_body_expand mem os needed = (os', False) \<and> body_ok os' xs
      \<and> os_body_fill os' + needed \<le> os_body_storage os' \<and> os_body_returned os' = os_body_returned os
      \<and> (\<exists>b st. os' = os\<lparr>os_body := Some b, os_body_storage := st\<rparr>))
    \<or> os_body_expand mem os needed = (ogg_stream_zero, True)"
proof -
  obtain b r where b: "os_body os = Some b" "os_body_storage os = int (length b)"
     "os_body_returned os = int r" "os_body_fill os = int (r + length xs)" "r + length xs \<le> length b"
     "take (length xs) (drop r b) = xs"
    using ok by (auto simp: body_ok_def)
  show ?thesis
  proof (cases "os_body_storage os - needed \<le> os_body_fill os")
    case False
    moreover have ex: "\<exists>b st. os = os\<lparr>os_body := Some b, os_body_storage := st\<rparr>"
      using b(1) by (intro exI [of _ b] exI [of _ "os_body_storage os"]) simp
    ultimately show ?thesis using ok by (intro disjI1 exI [of _ os] conjI ex) (simp_all add: os_body_expand_def)
  next
    case True
    let ?st = "if os_body_storage os + needed < LONG_MAX - 1024 then os_body_storage os + needed + 1024
      else os_body_storage os + needed"
    show ?thesis
    proof (cases "os_body_storage os > LONG_MAX - needed \<or> mem_body mem ?st = None")
      case True
      then show ?thesis
        using \<open>os_body_storage os - needed \<le> os_body_fill os\<close>
        by (auto simp: os_body_expand_def Let_def realloc_def ogg_stream_clear_def split: option.splits)
    next
      case False
      then obtain blk where blk: "mem_body mem ?st = Some blk" by auto
      have "int (length b) \<le> ?st" using b(2) n by auto
      then obtain ys where ys: "realloc (mem_body mem) b ?st = Some (b @ ys)" "int (length (b @ ys)) = ?st"
        using realloc_Some [OF al blk] by blast
      let ?os = "os\<lparr>os_body := Some (b @ ys), os_body_storage := ?st\<rparr>"
      have "os_body_expand mem os needed = (?os, False)"
        using True False b(1) ys(1) by (simp add: os_body_expand_def Let_def)
      moreover have "body_ok ?os xs"
        using b ys(2) unfolding body_ok_def by (intro exI [of _ "b @ ys"] exI [of _ r]) simp
      moreover have "os_body_fill os + needed \<le> ?st" using b(2,4,5) by auto
      ultimately show ?thesis by auto
    qed
  qed
qed


lemma os_lacing_expand_ok:
  assumes ok: "lacing_ok os r ls gs" and mem: "mem_ok mem" and n: "0 \<le> needed"
  shows "(\<exists>os'. os_lacing_expand mem os needed = (os', False) \<and> lacing_ok os' r ls gs
      \<and> os_lacing_fill os' + needed \<le> os_lacing_storage os'
      \<and> (\<exists>l g st. os' = os\<lparr>os_lacing := Some l, os_granule := Some g, os_lacing_storage := st\<rparr>))
    \<or> os_lacing_expand mem os needed = (ogg_stream_zero, True)"
proof -
  obtain l g where l: "os_lacing os = Some l" "os_granule os = Some g"
     "os_lacing_storage os = int (length l)" "length g = length l" "os_lacing_returned os = int r"
     "os_lacing_fill os = int (r + length ls)" "r + length ls \<le> length l"
     "length gs = length ls" "take (length ls) (drop r l) = ls" "take (length ls) (drop r g) = gs"
    using ok by (auto simp: lacing_ok_def)
  have al: "alloc_ok (mem_lacing mem)" "alloc_ok (mem_granule mem)" using mem by (simp_all add: mem_ok_def)
  show ?thesis
  proof (cases "os_lacing_storage os - needed \<le> os_lacing_fill os")
    case False
    moreover have ex: "\<exists>l g st. os = os\<lparr>os_lacing := Some l, os_granule := Some g, os_lacing_storage := st\<rparr>"
      using l(1,2) by (intro exI [of _ l] exI [of _ g] exI [of _ "os_lacing_storage os"]) simp
    ultimately show ?thesis
      using ok by (intro disjI1 exI [of _ os] conjI ex) (simp_all add: os_lacing_expand_def)
  next
    case True
    let ?st = "if os_lacing_storage os + needed < LONG_MAX - 32 then os_lacing_storage os + needed + 32
      else os_lacing_storage os + needed"
    show ?thesis
    proof (cases "os_lacing_storage os > LONG_MAX - needed \<or> mem_lacing mem ?st = None \<or> mem_granule mem ?st = None")
      case True
      then show ?thesis
        using \<open>os_lacing_storage os - needed \<le> os_lacing_fill os\<close>
        by (auto simp: os_lacing_expand_def Let_def realloc_def ogg_stream_clear_def split: option.splits)
    next
      case False
      then obtain blk blk' where blk: "mem_lacing mem ?st = Some blk" "mem_granule mem ?st = Some blk'" by auto
      have le: "int (length l) \<le> ?st" "int (length g) \<le> ?st" using l(3,4) n by auto
      obtain ys where ys: "realloc (mem_lacing mem) l ?st = Some (l @ ys)" "int (length (l @ ys)) = ?st"
        using realloc_Some [OF al(1) blk(1) le(1)] by blast
      obtain zs where zs: "realloc (mem_granule mem) g ?st = Some (g @ zs)" "int (length (g @ zs)) = ?st"
        using realloc_Some [OF al(2) blk(2) le(2)] by blast
      let ?os = "os\<lparr>os_lacing := Some (l @ ys), os_granule := Some (g @ zs), os_lacing_storage := ?st\<rparr>"
      have "os_lacing_expand mem os needed = (?os, False)"
        using True False l(1,2) ys(1) zs(1) by (simp add: os_lacing_expand_def Let_def)
      moreover have "length (g @ zs) = length (l @ ys)" using ys(2) zs(2) by linarith
      then have "lacing_ok ?os r ls gs"
        using l ys(2) unfolding lacing_ok_def by (intro exI [of _ "l @ ys"] exI [of _ "g @ zs"]) simp
      moreover have "os_lacing_fill os + needed \<le> ?st" using l(3,6,7) by auto
      ultimately show ?thesis by auto
    qed
  qed
qed

text \<open>The expansion of the blocks fails only when the allocator does or at the end of the \<open>long\<close> range.\<close>

definition mem_fails :: "ogg_mem \<Rightarrow> bool" where
  "mem_fails mem \<longleftrightarrow> (\<exists>n. mem_body mem n = None \<or> mem_lacing mem n = None \<or> mem_granule mem n = None)"

lemma os_body_expand_room:
  assumes "os_body_expand mem os needed = (os', err)" and "0 \<le> needed"
  shows "(err \<longrightarrow> mem_fails mem \<or> os_body_storage os > LONG_MAX - needed)
    \<and> (\<not> err \<longrightarrow> os_body_storage os' \<le> max (os_body_storage os) (os_body_fill os + 2 * needed + 1024)
        \<and> os_lacing_storage os' = os_lacing_storage os)"
  using assms by (auto simp: os_body_expand_def Let_def mem_fails_def realloc_def max_def split: if_splits option.splits)

lemma os_lacing_expand_room:
  assumes "os_lacing_expand mem os needed = (os', err)" and "0 \<le> needed"
  shows "(err \<longrightarrow> mem_fails mem \<or> os_lacing_storage os > LONG_MAX - needed)
    \<and> (\<not> err \<longrightarrow> os_lacing_storage os' \<le> max (os_lacing_storage os) (os_lacing_fill os + 2 * needed + 32)
        \<and> os_body_storage os' = os_body_storage os)"
  using assms by (auto simp: os_lacing_expand_def Let_def mem_fails_def realloc_def max_def split: if_splits option.splits)

lemma shift_body_ok:
  assumes "body_ok os xs"
  shows "\<exists>os'. shift_body os = Some os' \<and> body_ok os' xs \<and> os_body_returned os' = 0
    \<and> (\<exists>b n. os' = os\<lparr>os_body := b, os_body_fill := n, os_body_returned := 0\<rparr>)"
proof -
  obtain b r where b: "os_body os = Some b" "os_body_storage os = int (length b)"
     "os_body_returned os = int r" "os_body_fill os = int (r + length xs)" "r + length xs \<le> length b"
     "take (length xs) (drop r b) = xs"
    using assms by (auto simp: body_ok_def)
  let ?b = "if xs = [] then b else xs @ drop (length xs) b"
  let ?os = "os\<lparr>os_body := Some ?b, os_body_fill := int (length xs), os_body_returned := 0\<rparr>"
  have "rd_blk b (int r) (int (length xs)) = Some xs" "wr_blk b 0 xs = Some (xs @ drop (length xs) b)"
    using b(5,6) by (simp_all add: rd_blk_def wr_blk_def)
  moreover have "os = os\<lparr>os_body := Some b, os_body_fill := int (length xs), os_body_returned := 0\<rparr>" if "r = 0"
    using that b(1,3,4) by simp
  ultimately have "shift_body os = Some (if r = 0 then os else ?os)"
    using b(1,3,4) by (auto simp: shift_body_def)
  moreover have "body_ok ?os xs"
    using b(2,5) unfolding body_ok_def by (intro exI [of _ ?b] exI [of _ 0]) auto
  moreover have "\<exists>b n. os = os\<lparr>os_body := b, os_body_fill := n, os_body_returned := 0\<rparr>" if "r = 0"
    using that b(3) by (intro exI [of _ "os_body os"] exI [of _ "os_body_fill os"]) simp
  ultimately show ?thesis
    using assms b(3) by (cases "r = 0") auto
qed

lemma append_body_ok:
  assumes ok: "body_ok os xs" and room: "os_body_fill os + int (length ys) \<le> os_body_storage os"
  shows "\<exists>os'. append_body os ys = Some os' \<and> body_ok os' (xs @ ys) \<and> os_body_returned os' = os_body_returned os
    \<and> (\<exists>b n. os' = os\<lparr>os_body := b, os_body_fill := n\<rparr>)"
proof -
  obtain b r where b: "os_body os = Some b" "os_body_storage os = int (length b)"
     "os_body_returned os = int r" "os_body_fill os = int (r + length xs)" "r + length xs \<le> length b"
     "take (length xs) (drop r b) = xs"
    using ok by (auto simp: body_ok_def)
  have le: "r + length xs + length ys \<le> length b" using room b(2,4) by simp
  let ?b = "take (r + length xs) b @ ys @ drop (r + length xs + length ys) b"
  have "wr_blk b (int (r + length xs)) ys = Some ?b"
    using wr_blk_nat [of "r + length xs" ys b] le by simp
  then have "append_body os ys = Some (os\<lparr>os_body := Some ?b, os_body_fill := os_body_fill os + int (length ys)\<rparr>)"
    using b(1,4) by (simp add: append_body_def)
  moreover have "take r b @ xs = take (r + length xs) b" using b(6) by (simp add: take_add)
  then have "?b = (take r b @ xs) @ ys @ drop (r + length xs + length ys) b" by simp
  then have "take (length (xs @ ys)) (drop r ?b) = xs @ ys" using b(5) by simp
  ultimately show ?thesis
    using b le unfolding body_ok_def by auto
qed


section \<open>A packet is appended\<close>

lemma take_wr_blk: "take (n + length ys) (take n l @ ys @ drop (n + length ys) l) = take n l @ ys"
  if "n + length ys \<le> length l"
  using that by simp

lemma store_lacing_ok:
  assumes ok: "lacing_ok os 0 (map lace segs) (map seg_gran segs)"
    and room: "os_lacing_fill os + int (length p div 255) + 1 \<le> os_lacing_storage os"
  shows "\<exists>os'. store_lacing os (int (length p)) g = Some os'
    \<and> lacing_ok os' 0 (map lace (segs @ seg_list p (os_granulepos os) g)) (map seg_gran (segs @ seg_list p (os_granulepos os) g))
    \<and> (\<exists>l gr n. os' = os\<lparr>os_lacing := l, os_granule := gr, os_granulepos := g, os_lacing_fill := n\<rparr>)"
proof -
  obtain l gr where l: "os_lacing os = Some l" "os_granule os = Some gr"
     "os_lacing_storage os = int (length l)" "length gr = length l" "os_lacing_returned os = 0"
     "os_lacing_fill os = int (length segs)" "length segs \<le> length l"
     "take (length segs) l = map lace segs" "take (length segs) gr = map seg_gran segs"
    using ok by (auto simp: lacing_ok_def)
  let ?n = "length p div 255" and ?m = "length segs"
  let ?ls = "replicate ?n 255 @ [of_nat (length p mod 255)] :: 32 word list"
  let ?gs = "replicate ?n (os_granulepos os) @ [g]"
  let ?new = "seg_list p (os_granulepos os) g"
  have le: "?m + Suc ?n \<le> length l" using room l(3,6) by linarith
  have n: "nat (int (length p) div 255) = ?n" "of_int (int (length p) mod 255) = (of_nat (length p mod 255) :: 32 word)"
  proof -
    have z: "int (length p) mod 255 = int (length p mod 255)" "int (length p) div 255 = int (length p div 255)"
      by (simp_all add: zmod_int zdiv_int)
    show "nat (int (length p) div 255) = ?n" unfolding z by (rule nat_int)
    show "of_int (int (length p) mod 255) = (of_nat (length p mod 255) :: 32 word)"
      unfolding z by (rule of_int_of_nat_eq)
  qed
  let ?l1 = "take ?m l @ ?ls @ drop (?m + length ?ls) l"
  let ?g1 = "take ?m gr @ ?gs @ drop (?m + length ?gs) gr"
  have w1: "wr_blk l (int ?m) ?ls = Some ?l1" "wr_blk gr (int ?m) ?gs = Some ?g1"
    using le l(4) by (simp_all add: wr_blk_nat)
  have v: "rd ?l1 (int ?m) = Some (?ls ! 0)"
    using le l(7) by (simp add: rd_def nth_append)
  have upd: "?l1[?m := ?ls ! 0 OR 0x100] = take ?m l @ map lace ?new @ drop (?m + length ?ls) l"
    using l(7) by (simp add: map_lace_seg_list list_update_append)
  have w2: "wr ?l1 (int ?m) (?ls ! 0 OR 0x100) = Some (take ?m l @ map lace ?new @ drop (?m + length ?ls) l)"
    using le upd by (simp add: wr_def)
  have "store_lacing os (int (length p)) g = Some (os\<lparr>os_lacing := Some (take ?m l @ map lace ?new @ drop (?m + length ?ls) l),
      os_granule := Some ?g1, os_granulepos := g, os_lacing_fill := int ?m + int ?n + 1\<rparr>)"
    using l(1,2,6) w1 v w2 n by (simp add: store_lacing_def Let_def)
  moreover have "lacing_ok (os\<lparr>os_lacing := Some (take ?m l @ map lace ?new @ drop (?m + length ?ls) l),
      os_granule := Some ?g1, os_granulepos := g, os_lacing_fill := int ?m + int ?n + 1\<rparr>) 0
      (map lace (segs @ ?new)) (map seg_gran (segs @ ?new))"
    using le l unfolding lacing_ok_def
    by (intro exI [of _ "take ?m l @ map lace ?new @ drop (?m + length ?ls) l"] exI [of _ ?g1])
      (simp add: length_seg_list map_gran_seg_list)
  ultimately show ?thesis by blast
qed

text \<open>An error is reported only when memory is short or the buffers exceed the \<open>long\<close> range.\<close>

definition packetin_short :: "ogg_mem \<Rightarrow> ogg_stream_state \<Rightarrow> int \<Rightarrow> bool" where
  "packetin_short mem os n \<longleftrightarrow> mem_fails mem \<or> os_body_storage os > LONG_MAX - n
     \<or> os_lacing_storage os > LONG_MAX - (n div 255 + 1)"

lemma ogg_stream_packetin_ok:
  assumes ok: "enc_ok os segs" and mem: "mem_ok mem"
  shows "\<exists>os' ret. ogg_stream_packetin mem os op = Some (os', ret) \<and>
    (ret = 0 \<and> enc_ok os' (segs @ seg_list (op_packet op) (os_granulepos os) (op_granulepos op))
       \<and> os_bos os' = os_bos os \<and> os_eos os' = (os_eos os \<or> op_eos op) \<and> os_pageno os' = os_pageno os
       \<and> os_serialno os' = os_serialno os \<and> os_granulepos os' = op_granulepos op
       \<and> os_body_storage os' \<le> max (os_body_storage os) (int (length (all_data segs)) + 2 * int (length (op_packet op)) + 1024)
       \<and> os_lacing_storage os' \<le> max (os_lacing_storage os) (int (length segs) + 2 * int (length (op_packet op) div 255) + 34)
     \<or> ret = -1 \<and> (os' = os \<and> int (length (op_packet op)) > LONG_MAX
         \<or> os' = ogg_stream_zero \<and> packetin_short mem os (int (length (op_packet op)))))"
proof -
  let ?p = "op_packet op"
  note check = enc_ok_check [OF ok]
  have body: "body_ok os (all_data segs)" and lac: "lacing_ok os 0 (map lace segs) (map seg_gran segs)"
    and le: "\<forall>s \<in> set segs. length (seg_data s) \<le> 255" "length (os_header os) = 282"
    using ok by (simp_all add: enc_ok_def)
  show ?thesis
  proof (cases "int (length ?p) > LONG_MAX")
    case True
    then show ?thesis using check by (simp add: ogg_stream_packetin_def ogg_stream_iovecin_def)
  next
    case False
    then have iov: "iov_bytes 0 [?p] = Some (int (length ?p))" by simp
    obtain os1 b n where os1: "shift_body os = Some os1" "body_ok os1 (all_data segs)"
      "os1 = os\<lparr>os_body := b, os_body_fill := n, os_body_returned := 0\<rparr>"
      using shift_body_ok [OF body] by blast
    have al: "alloc_ok (mem_body mem)" using mem by (simp add: mem_ok_def)
    consider (err) "os_body_expand mem os1 (int (length ?p)) = (ogg_stream_zero, True)"
      | (ok) os2 b2 st2 where "os_body_expand mem os1 (int (length ?p)) = (os2, False)" "body_ok os2 (all_data segs)"
        "os_body_fill os2 + int (length ?p) \<le> os_body_storage os2"
        "os2 = os1\<lparr>os_body := Some b2, os_body_storage := st2\<rparr>"
      using os_body_expand_ok [OF os1(2) al, of "int (length ?p)"] by auto
    then show ?thesis
    proof cases
      case err
      then have "packetin_short mem os (int (length ?p))"
        using os_body_expand_room [OF err] by (auto simp: packetin_short_def os1(3))
      then show ?thesis
        using err check iov os1(1) by (simp add: ogg_stream_packetin_def ogg_stream_iovecin_def)
    next
      case body2: ok
      have "lacing_ok os2 0 (map lace segs) (map seg_gran segs)"
        using lac by (simp add: body2(4) os1(3) lacing_ok_def)
      from os_lacing_expand_ok [OF this mem, of "int (length ?p) div 255 + 1"]
      consider (err) "os_lacing_expand mem os2 (int (length ?p) div 255 + 1) = (ogg_stream_zero, True)"
        | (ok) os3 l3 g3 st3 where "os_lacing_expand mem os2 (int (length ?p) div 255 + 1) = (os3, False)"
          "lacing_ok os3 0 (map lace segs) (map seg_gran segs)"
          "os_lacing_fill os3 + (int (length ?p) div 255 + 1) \<le> os_lacing_storage os3"
          "os3 = os2\<lparr>os_lacing := Some l3, os_granule := Some g3, os_lacing_storage := st3\<rparr>"
        by auto
      then show ?thesis
      proof cases
        case err
        then have "packetin_short mem os (int (length ?p))"
          using os_lacing_expand_room [OF err] by (auto simp: packetin_short_def body2(4) os1(3))
        then show ?thesis
          using err check iov os1(1) body2(1) by (simp add: ogg_stream_packetin_def ogg_stream_iovecin_def)
      next
        case lac3: ok
        have "body_ok os3 (all_data segs)" "os_body_fill os3 + int (length ?p) \<le> os_body_storage os3"
          using body2(2,3) by (simp_all add: lac3(4) body_ok_def)
        then obtain os4 b4 n4 where os4: "append_body os3 ?p = Some os4" "body_ok os4 (all_data segs @ ?p)"
          "os4 = os3\<lparr>os_body := b4, os_body_fill := n4\<rparr>"
          using append_body_ok by blast
        have lac4: "lacing_ok os4 0 (map lace segs) (map seg_gran segs)"
          "os_lacing_fill os4 + int (length ?p div 255) + 1 \<le> os_lacing_storage os4"
          using lac3(2,3) by (simp_all add: os4(3) lacing_ok_def zdiv_int)
        have gp: "os_granulepos os4 = os_granulepos os"
          by (simp add: os4(3) lac3(4) body2(4) os1(3))
        obtain os5 l5 g5 n5 where os5: "store_lacing os4 (int (length ?p)) (op_granulepos op) = Some os5"
          "lacing_ok os5 0 (map lace (segs @ seg_list ?p (os_granulepos os) (op_granulepos op)))
             (map seg_gran (segs @ seg_list ?p (os_granulepos os) (op_granulepos op)))"
          "os5 = os4\<lparr>os_lacing := l5, os_granule := g5, os_granulepos := op_granulepos op, os_lacing_fill := n5\<rparr>"
          using store_lacing_ok [OF lac4, of "op_granulepos op"] unfolding gp by blast
        let ?os = "os5\<lparr>os_packetno := os_packetno os5 + 1, os_eos := os_eos os5 \<or> op_eos op\<rparr>"
        have run: "ogg_stream_packetin mem os op = Some (?os, 0)"
          using check iov os1(1) body2(1) lac3(1) os4(1) os5(1)
          by (simp add: ogg_stream_packetin_def ogg_stream_iovecin_def)
        have "all_data (seg_list ?p (os_granulepos os) (op_granulepos op)) = ?p"
          using chunks_props [of ?p] by (simp add: seg_list_data)
        then have "body_ok ?os (all_data (segs @ seg_list ?p (os_granulepos os) (op_granulepos op)))"
          using os4(2) by (simp add: os5(3) body_ok_def)
        moreover have "lacing_ok ?os 0 (map lace (segs @ seg_list ?p (os_granulepos os) (op_granulepos op)))
             (map seg_gran (segs @ seg_list ?p (os_granulepos os) (op_granulepos op)))"
          using os5(2) by (simp add: lacing_ok_def)
        ultimately have "enc_ok ?os (segs @ seg_list ?p (os_granulepos os) (op_granulepos op))"
          using le seg_list_le [of _ ?p] by (auto simp: enc_ok_def os5(3) os4(3) lac3(4) body2(4) os1(3))
        moreover have "os_body_storage ?os \<le> max (os_body_storage os) (int (length (all_data segs)) + 2 * int (length ?p) + 1024)"
          using os_body_expand_room [OF body2(1)] os1(2) by (auto simp: os5(3) os4(3) lac3(4) body2(4) os1(3) body_ok_def)
        moreover have "os_lacing_storage ?os \<le> max (os_lacing_storage os) (int (length segs) + 2 * int (length ?p div 255) + 34)"
          using os_lacing_expand_room [OF lac3(1)] lac by (auto simp: os5(3) os4(3) lac3(4) body2(4) os1(3) lacing_ok_def zdiv_int)
        ultimately show ?thesis
          using run by (simp add: os5(3) os4(3) lac3(4) body2(4) os1(3))
      qed
    qed
  qed
qed

section \<open>A page is flushed\<close>

text \<open>Flags and position of a page, and the page of a list of segments.\<close>

definition flag_byte :: "bool \<Rightarrow> bool \<Rightarrow> bool \<Rightarrow> byte" where
  "flag_byte cont bos eos = (if cont then 0x01 else 0) OR (if bos then 0x02 else 0) OR (if eos then 0x04 else 0)"

abbreviation seg_short :: "segment \<Rightarrow> bool" where "seg_short s \<equiv> length (seg_data s) < 255"

fun last_gran :: "64 word \<Rightarrow> segment list \<Rightarrow> 64 word" where
  "last_gran g [] = g"
| "last_gran g (s # ss) = last_gran (if seg_short s then seg_gran s else g) ss"

definition seg_table :: "segment list \<Rightarrow> byte list" where
  "seg_table segs = map (\<lambda>s. of_nat (length (seg_data s))) segs"

definition page_of :: "byte \<Rightarrow> 64 word \<Rightarrow> 32 word \<Rightarrow> 32 word \<Rightarrow> segment list \<Rightarrow> ogg_page \<Rightarrow> bool" where
  "page_of flags g serialno pageno segs p \<longleftrightarrow> (\<exists>x. length x = 4 \<and> page_intact p
     \<and> p = \<lparr>pg_header = sealed_header flags g serialno pageno (seg_table segs) x, pg_body = all_data segs\<rparr>)"

abbreviation next_pageno :: "ogg_stream_state \<Rightarrow> 32 word" where
  "next_pageno os \<equiv> if os_pageno os = -1 then 0 else os_pageno os"

lemma seg_table_sum:
  assumes "\<forall>s \<in> set segs. length (seg_data s) \<le> 255"
  shows "sum_list (map unat (seg_table segs)) = length (all_data segs)"
  using assms by (induction segs) (auto simp: seg_table_def unat_of_nat)

lemma page_of_wf:
  assumes "page_of flags g serialno pageno segs p" and "length segs \<le> 255"
    and "\<forall>s \<in> set segs. length (seg_data s) \<le> 255"
  shows "page_wf p"
  using assms seg_table_sum [OF assms(3)] page_wf_sealed [of _ "seg_table segs" "all_data segs"]
  by (auto simp: page_of_def) (simp add: seg_table_def)

text \<open>The choice of the segments: at least one, and at most 255.\<close>

lemma first_vals_props:
  assumes "ss \<noteq> []" and "\<forall>s \<in> set ss. length (seg_data s) \<le> 255"
  shows "0 < first_vals (map lace ss) \<and> first_vals (map lace ss) \<le> length ss
    \<and> (\<forall>i < first_vals (map lace ss) - 1. length (seg_data (ss ! i)) = 255)
    \<and> (first_vals (map lace ss) < length ss \<longrightarrow> seg_short (ss ! (first_vals (map lace ss) - 1)))"
  using assms
proof (induction ss)
  case (Cons s ss)
  have l: "lace s AND 0xff < 255 \<longleftrightarrow> seg_short s" "length (seg_data s) \<le> 255"
    using Cons.prems lace_parts(4) [of s] by auto
  show ?case
  proof (cases "seg_short s \<or> ss = []")
    case True
    then show ?thesis using l by (cases "seg_short s") auto
  next
    case False
    then have "length (seg_data s) = 255" using l(2) by simp
    then show ?thesis using Cons l False by (auto simp: nth_Cons' not_less)
  qed
qed simp

lemma page_vals_props:
  assumes "\<forall>s \<in> set ss. length (seg_data s) \<le> 255"
    and "page_vals nfill (zip (map lace ss) (map seg_gran ss)) n acc pd just g = (vals, full, g')"
  shows "n \<le> vals \<and> vals \<le> n + length ss \<and> g' = last_gran g (take (vals - n) ss)
    \<and> (ss \<noteq> [] \<and> just < 4 \<longrightarrow> n < vals) \<and> (\<not> full \<longrightarrow> vals = n + length ss)"
  using assms
proof (induction ss arbitrary: n acc pd just g)
  case (Cons s ss)
  have l: "lace s AND 0xff < 255 \<longleftrightarrow> seg_short s"
    using Cons.prems(1) lace_parts(4) [of s] by auto
  show ?case
  proof (cases "acc > nfill \<and> just \<ge> 4")
    case True
    then show ?thesis using Cons.prems(2) by auto
  next
    case False
    obtain acc' pd' just' where rec: "page_vals nfill (zip (map lace ss) (map seg_gran ss)) (n + 1) acc' pd' just'
        (if seg_short s then seg_gran s else g) = (vals, full, g')"
      using Cons.prems(2) False l by (auto simp: Let_def split: if_splits)
    have "Suc n \<le> vals \<and> vals \<le> Suc n + length ss
        \<and> g' = last_gran (if seg_short s then seg_gran s else g) (take (vals - Suc n) ss)
        \<and> (\<not> full \<longrightarrow> vals = Suc n + length ss)"
      using Cons.IH [OF _ rec] Cons.prems(1) by auto
    moreover then have "vals - n = Suc (vals - Suc n)" by linarith
    ultimately show ?thesis by auto
  qed
qed auto


definition page_gran :: "bool \<Rightarrow> segment list \<Rightarrow> 64 word" where
  "page_gran bos segs = (if bos then last_gran (-1) segs else 0)"

text \<open>The number of segments for the initial page: those of the first packet.\<close>

definition initial_cut :: "segment list \<Rightarrow> nat \<Rightarrow> bool" where
  "initial_cut segs k \<longleftrightarrow> (\<forall>i < k - 1. length (seg_data (segs ! i)) = 255)
     \<and> (k < length segs \<and> k < 255 \<longrightarrow> seg_short (segs ! (k - 1)))"

lemma choose_vals_props:
  assumes "segs \<noteq> []" and "\<forall>s \<in> set segs. length (seg_data s) \<le> 255" and "ss = take 255 segs"
    and "choose_vals os nfill force (zip (map lace ss) (map seg_gran ss)) = (k, force', g)"
  shows "0 < k \<and> k \<le> 255 \<and> k \<le> length segs \<and> g = page_gran (os_bos os) (take k segs)
    \<and> (\<not> os_bos os \<longrightarrow> initial_cut segs k) \<and> (force \<longrightarrow> force')"
proof -
  have ss: "ss \<noteq> []" "\<forall>s \<in> set ss. length (seg_data s) \<le> 255" "length ss = min 255 (length segs)"
    using assms(1-3) by (auto dest: in_set_takeD)
  have fst: "map fst (zip (map lace ss) (map seg_gran ss)) = map lace ss" by simp
  have "0 < k \<and> k \<le> length ss \<and> g = page_gran (os_bos os) (take k ss)
    \<and> (\<not> os_bos os \<longrightarrow> (\<forall>i < k - 1. length (seg_data (ss ! i)) = 255) \<and> (k < length ss \<longrightarrow> seg_short (ss ! (k - 1))))
    \<and> (force \<longrightarrow> force')"
  proof (cases "os_bos os")
    case True
    obtain full where p: "page_vals nfill (zip (map lace ss) (map seg_gran ss)) 0 0 0 0 (-1) = (k, full, g)"
      "force' = (force \<or> full \<or> k = 255)"
      using assms(4) True by (auto simp: choose_vals_def split: prod.splits)
    show ?thesis
      using page_vals_props [OF ss(2) p(1)] p(2) ss(1) True by (auto simp: page_gran_def)
  next
    case False
    then have "k = first_vals (map lace ss)" "force' = force" "g = 0"
      using assms(4) unfolding choose_vals_def fst by auto
    then show ?thesis using first_vals_props [OF ss(1,2)] False by (simp add: page_gran_def)
  qed
  then show ?thesis
    using ss(3) assms(3) by (auto simp: initial_cut_def min_absorb1)
qed

lemma page_flags_eq:
  assumes "segs \<noteq> []" and "\<forall>s \<in> set segs. length (seg_data s) \<le> 255" and "os_lacing_fill os = int (length segs)"
  shows "page_flags os (lace (hd segs)) k
    = flag_byte (\<not> seg_first (hd segs)) (\<not> os_bos os) (os_eos os \<and> k = length segs)"
  using assms lace_parts(2) [of "hd segs"] by (auto simp: page_flags_def flag_byte_def)

lemma seg_table_lace:
  assumes "\<forall>s \<in> set segs. length (seg_data s) \<le> 255"
  shows "map (\<lambda>v. ucast (v AND 0xff)) (map lace segs) = seg_table segs"
  using assms lace_parts(5) by (auto simp: seg_table_def)

lemma sum_uint_table: "sum_list (map uint (xs :: byte list)) = int (sum_list (map unat xs))"
  by (rule sum_uint)

definition flushed :: "ogg_stream_state \<Rightarrow> segment list \<Rightarrow> nat \<Rightarrow> ogg_stream_state \<Rightarrow> ogg_page \<Rightarrow> bool" where
  "flushed os segs k os' p \<longleftrightarrow> 0 < k \<and> k \<le> 255 \<and> k \<le> length segs
     \<and> page_of (flag_byte (\<not> seg_first (hd segs)) (\<not> os_bos os) (os_eos os \<and> k = length segs))
         (page_gran (os_bos os) (take k segs)) (os_serialno os) (next_pageno os) (take k segs) p
     \<and> (\<not> os_bos os \<longrightarrow> initial_cut segs k)
     \<and> enc_ok os' (drop k segs) \<and> os_bos os' \<and> os_pageno os' = next_pageno os + 1
     \<and> os_serialno os' = os_serialno os \<and> os_eos os' = os_eos os \<and> os_granulepos os' = os_granulepos os
     \<and> os_body_storage os' = os_body_storage os \<and> os_lacing_storage os' = os_lacing_storage os"

lemma ogg_stream_flush_i_ok:
  assumes ok: "enc_ok os segs"
  shows "\<exists>os' pg. ogg_stream_flush_i os force nfill = Some (os', pg) \<and>
    (case pg of None \<Rightarrow> os' = os \<and> (segs = [] \<or> \<not> force) | Some p \<Rightarrow> \<exists>k. flushed os segs k os' p)"
proof (cases "segs = []")
  case True
  then have "os_lacing_fill os = 0" using ok by (auto simp: enc_ok_def lacing_ok_def)
  then show ?thesis using True by (simp add: ogg_stream_flush_i_def)
next
  case False
  have data: "\<forall>s \<in> set segs. length (seg_data s) \<le> 255" "length (os_header os) = 282"
    using ok by (simp_all add: enc_ok_def)
  obtain b r where b: "os_body os = Some b" "os_body_storage os = int (length b)" "os_body_returned os = int r"
     "os_body_fill os = int (r + length (all_data segs))" "r + length (all_data segs) \<le> length b"
     "take (length (all_data segs)) (drop r b) = all_data segs"
    using ok by (auto simp: enc_ok_def body_ok_def)
  obtain l gr where l: "os_lacing os = Some l" "os_granule os = Some gr"
     "os_lacing_storage os = int (length l)" "length gr = length l" "os_lacing_returned os = 0"
     "os_lacing_fill os = int (length segs)" "length segs \<le> length l"
     "take (length segs) l = map lace segs" "take (length segs) gr = map seg_gran segs"
    using ok by (auto simp: enc_ok_def lacing_ok_def)
  let ?ss = "take 255 segs"
  obtain m where maxvals: "(if os_lacing_fill os > 255 then 255 else os_lacing_fill os) = int m"
    and m: "m \<noteq> 0" "m \<le> length segs" "take m segs = ?ss"
  proof (rule that [of "min 255 (length segs)"])
    show "(if os_lacing_fill os > 255 then 255 else os_lacing_fill os) = int (min 255 (length segs))"
      unfolding l(6) by auto
    show "take (min 255 (length segs)) segs = ?ss" by (simp add: min_def)
  qed (use False in auto)
  have blk: "rd_blk l 0 (int k) = Some (map lace (take k segs))" "rd_blk gr 0 (int k) = Some (map seg_gran (take k segs))"
    if "k \<le> length segs" for k
  proof -
    have "take k l = take k (take (length segs) l)" "take k gr = take k (take (length segs) gr)"
      using that by (simp_all add: min_absorb1)
    then show "rd_blk l 0 (int k) = Some (map lace (take k segs))" "rd_blk gr 0 (int k) = Some (map seg_gran (take k segs))"
      using that l(4,7,8,9) by (simp_all add: rd_blk_def take_map)
  qed
  obtain k force' g where ch: "choose_vals os nfill force (zip (map lace ?ss) (map seg_gran ?ss)) = (k, force', g)"
    by (metis prod_cases3)
  note k = choose_vals_props [OF False data(1) refl ch]
  note unf = ogg_stream_flush_i_def maxvals enc_ok_check [OF ok] l(1,2) blk [OF m(2), unfolded m(3)] ch Let_def
  show ?thesis
  proof (cases force')
    case False
    then have "ogg_stream_flush_i os force nfill = Some (os, None)"
      using m(1) by (simp add: unf)
    then show ?thesis using False k by auto
  next
    case True
    let ?seg = "take k segs" and ?rest = "drop k segs"
    have seg: "\<forall>s \<in> set ?seg. length (seg_data s) \<le> 255" "length ?seg = k"
      using data(1) k by (auto dest: in_set_takeD)
    have split: "all_data segs = all_data ?seg @ all_data ?rest" "map lace segs = map lace ?seg @ map lace ?rest"
      "map seg_gran segs = map seg_gran ?seg @ map seg_gran ?rest"
      by (simp_all flip: map_append concat_append)
    define pg where "pg = next_pageno os"
    let ?fl = "flag_byte (\<not> seg_first (hd segs)) (\<not> os_bos os) (os_eos os \<and> k = length segs)"
    obtain x where x: "ogg_page_checksum_set \<lparr>pg_header = page_header ?fl g (os_serialno os) pg (seg_table ?seg), pg_body = all_data ?seg\<rparr>
        = Some \<lparr>pg_header = sealed_header ?fl g (os_serialno os) pg (seg_table ?seg) x, pg_body = all_data ?seg\<rparr>"
      "length x = 4" "page_intact \<lparr>pg_header = sealed_header ?fl g (os_serialno os) pg (seg_table ?seg) x, pg_body = all_data ?seg\<rparr>"
      using seal_page by blast
    let ?h = "sealed_header ?fl g (os_serialno os) pg (seg_table ?seg) x"
    let ?p = "\<lparr>pg_header = ?h, pg_body = all_data ?seg\<rparr>"
    have hlen: "length ?h = 27 + k"
      using sealed_header_parts(1) [OF x(2), of "seg_table ?seg"] k seg(2) by (simp add: seg_table_def)
    have l0: "rd l 0 = Some (lace (hd segs))"
    proof -
      have "l ! 0 = take (length segs) l ! 0" using False by simp
      also have "\<dots> = lace (hd segs)" using False unfolding l(8) by (simp add: hd_conv_nth)
      finally show ?thesis using False l(7) by (auto simp: rd_def)
    qed
    have body: "rd_blk b (int r) (int (length (all_data ?seg))) = Some (all_data ?seg)"
    proof -
      have "length (all_data segs) = length (all_data ?seg) + length (all_data ?rest)"
        using arg_cong [OF split(1), of length] by simp
      then have "take (length (all_data ?seg)) (drop r b)
          = take (length (all_data ?seg)) (take (length (all_data segs)) (drop r b))"
        by (simp add: min_absorb1)
      also have "\<dots> = all_data ?seg" unfolding b(6) unfolding split(1) by simp
      finally have "take (length (all_data ?seg)) (drop r b) = all_data ?seg" .
      moreover have "r + length (all_data ?seg) \<le> length b"
        using b(5) \<open>length (all_data segs) = _\<close> by linarith
      ultimately show ?thesis by (simp add: rd_blk_def)
    qed
    have sum: "sum_list (map uint (seg_table ?seg)) = int (length (all_data ?seg))"
      by (simp only: sum_uint_table seg_table_sum [OF seg(1)])
    have hdr: "wr_blk (os_header os) 0 ?h = Some (?h @ drop (27 + k) (os_header os))"
      using data(2) hlen k by (simp add: wr_blk_def)
    define n where "n = length segs - k"
    have rests: "rd_blk l (int k) (int n) = Some (map lace ?rest)" "rd_blk gr (int k) (int n) = Some (map seg_gran ?rest)"
    proof -
      have "take (length segs - k) (drop k l) = drop k (take (length segs) l)"
        "take (length segs - k) (drop k gr) = drop k (take (length segs) gr)"
        by (simp_all add: drop_take)
      then show "rd_blk l (int k) (int n) = Some (map lace ?rest)" "rd_blk gr (int k) (int n) = Some (map seg_gran ?rest)"
        using k l(4,7,8,9) by (simp_all add: rd_blk_def drop_map nat_diff_distrib n_def)
    qed
    have fill: "os_lacing_fill os - int k = int n" using l(6) k by (simp add: n_def)
    have wrs: "wr_blk l 0 (map lace ?rest) = Some (map lace ?rest @ drop n l)"
      "wr_blk gr 0 (map seg_gran ?rest) = Some (map seg_gran ?rest @ drop n gr)"
      using l(4,7) by (simp_all add: wr_blk_def n_def)
    let ?os = "os\<lparr>os_bos := True, os_pageno := pg + 1, os_header := ?h @ drop (27 + k) (os_header os), os_header_fill := int k + 27,
      os_lacing := Some (map lace ?rest @ drop n l), os_granule := Some (map seg_gran ?rest @ drop n gr),
      os_lacing_fill := int n, os_body_returned := int r + int (length (all_data ?seg))\<rparr>"
    have flags: "page_flags os (lace (hd segs)) k = ?fl"
      by (rule page_flags_eq [OF False data(1) l(6)])
    have "ogg_stream_flush_i os force nfill = Some (?os, Some ?p)"
      using m(1) True l0 flags blk(1) [of k] k seg_table_lace [OF seg(1)] sum b(1,3) body x(1) hdr fill rests wrs
      by (simp add: unf del: map_map flip: pg_def)
    moreover have "body_ok ?os (all_data ?rest)"
    proof -
      have len: "length (all_data segs) = length (all_data ?seg) + length (all_data ?rest)"
        using arg_cong [OF split(1), of length] by simp
      have "take (length (all_data ?rest)) (drop (r + length (all_data ?seg)) b)
          = drop (length (all_data ?seg)) (take (length (all_data segs)) (drop r b))"
        unfolding len by (simp add: drop_take add.commute)
      also have "\<dots> = all_data ?rest" unfolding b(6) unfolding split(1) by simp
      finally show ?thesis
        using b(1-5) len unfolding body_ok_def
        by (intro exI [of _ b] exI [of _ "r + length (all_data ?seg)"]) simp
    qed
    moreover have "lacing_ok ?os 0 (map lace ?rest) (map seg_gran ?rest)"
      using l(3,4,5,7) k unfolding lacing_ok_def n_def
      by (intro exI [of _ "map lace ?rest @ drop (length segs - k) l"] exI [of _ "map seg_gran ?rest @ drop (length segs - k) gr"]) simp
    ultimately have "enc_ok ?os ?rest" "ogg_stream_flush_i os force nfill = Some (?os, Some ?p)"
      using data hlen k by (auto simp: enc_ok_def dest: in_set_dropD)
    moreover have "page_of ?fl (page_gran (os_bos os) ?seg) (os_serialno os) pg ?seg ?p"
      using x(2,3) k unfolding page_of_def by auto
    ultimately have "flushed os segs k ?os ?p"
      using k by (simp add: flushed_def pg_def)
    then show ?thesis
      using \<open>ogg_stream_flush_i os force nfill = Some (?os, Some ?p)\<close> by auto
  qed
qed

text \<open>What the four functions that flush have in common, and when they return no page.\<close>

definition flush_result :: "ogg_stream_state \<Rightarrow> segment list \<Rightarrow> bool \<Rightarrow> (ogg_stream_state \<times> ogg_page option) option \<Rightarrow> bool" where
  "flush_result os segs force res \<longleftrightarrow> (\<exists>os' pg. res = Some (os', pg) \<and>
     (case pg of None \<Rightarrow> os' = os \<and> (segs = [] \<or> \<not> force) | Some p \<Rightarrow> \<exists>k. flushed os segs k os' p))"

lemma flush_result_weaken:
  assumes "flush_result os segs f res" and "segs \<noteq> [] \<Longrightarrow> f' \<Longrightarrow> f"
  shows "flush_result os segs f' res"
proof -
  obtain os' pg where r: "res = Some (os', pg)"
    "case pg of None \<Rightarrow> os' = os \<and> (segs = [] \<or> \<not> f) | Some p \<Rightarrow> \<exists>k. flushed os segs k os' p"
    using assms(1) by (auto simp: flush_result_def)
  then show ?thesis using assms(2) by (cases pg) (auto simp: flush_result_def)
qed

lemma flush_results:
  assumes "enc_ok os segs"
  shows "flush_result os segs True (ogg_stream_flush os)"
    and "flush_result os segs True (ogg_stream_flush_fill os nfill)"
    and "flush_result os segs (os_eos os \<or> \<not> os_bos os) (ogg_stream_pageout os)"
    and "flush_result os segs (os_eos os \<or> \<not> os_bos os) (ogg_stream_pageout_fill os nfill)"
proof -
  have fill: "os_lacing_fill os = int (length segs)"
    using assms by (auto simp: enc_ok_def lacing_ok_def)
  have all: "flush_result os segs f (ogg_stream_flush_i os f n)" for f n
    using ogg_stream_flush_i_ok [OF assms, of f n] by (simp add: flush_result_def)
  have weak: "flush_result os segs (os_eos os \<or> \<not> os_bos os)
      (ogg_stream_flush_i os ((os_eos os \<and> os_lacing_fill os \<noteq> 0) \<or> (os_lacing_fill os \<noteq> 0 \<and> \<not> os_bos os)) n)" for n
    by (rule flush_result_weaken [OF all]) (use fill in auto)
  show "flush_result os segs True (ogg_stream_flush os)" "flush_result os segs True (ogg_stream_flush_fill os nfill)"
    using all by (simp_all add: ogg_stream_flush_def ogg_stream_flush_fill_def)
  show "flush_result os segs (os_eos os \<or> \<not> os_bos os) (ogg_stream_pageout os)"
    "flush_result os segs (os_eos os \<or> \<not> os_bos os) (ogg_stream_pageout_fill os nfill)"
    using weak enc_ok_check [OF assms] by (simp_all add: ogg_stream_pageout_def ogg_stream_pageout_fill_def)
qed

end
