(* ===== verification/OggDecode.thy ===== *)
theory OggDecode
  imports OggEncode
begin

unbundle bit_operations_syntax

text \<open>
  Decoding (\<^verbatim>\<open>src/ogg123/src/framing.c\<close>): what \<open>ogg_stream_pagein\<close> does to the queue of segments of a decoder,
  and how \<open>ogg_stream_packetout\<close> joins the segments at its head to a packet.
\<close>

section \<open>Segments of a decoder\<close>

record dseg =
  d_bos :: bool
  d_eos :: bool
  d_data :: "byte list"
  d_gran :: "64 word"

definition dlace :: "dseg \<Rightarrow> 32 word" where
  "dlace d = of_nat (length (d_data d)) OR (if d_bos d then 0x100 else 0) OR (if d_eos d then 0x200 else 0)"

abbreviation d_short :: "dseg \<Rightarrow> bool" where "d_short d \<equiv> length (d_data d) < 255"

lemma small_bits:
  assumes "n \<le> 255"
  shows "take_bit 8 (of_nat n :: 32 word) = of_nat n" and "8 \<le> i \<Longrightarrow> \<not> bit (of_nat n :: 32 word) i"
proof -
  have "take_bit 8 n = n" using assms by (simp add: take_bit_nat_eq_self_iff)
  then show t: "take_bit 8 (of_nat n :: 32 word) = of_nat n" by (simp flip: of_nat_take_bit)
  show "\<not> bit (of_nat n :: 32 word) i" if "8 \<le> i"
    using that bit_take_bit_iff [of 8 "of_nat n :: 32 word" i] unfolding t by simp
qed

lemma dlace_parts:
  assumes "length (d_data d) \<le> 255"
  shows "dlace d AND 0xff = of_nat (length (d_data d))"
    and "dlace d AND 0x100 = 0 \<longleftrightarrow> \<not> d_bos d" and "dlace d AND 0x200 = 0 \<longleftrightarrow> \<not> d_eos d"
    and "dlace d AND 0x400 = 0"
    and "uint (dlace d AND 0xff) = int (length (d_data d))"
    and "dlace d AND 0xff = 255 \<longleftrightarrow> \<not> d_short d"
    and "dlace d OR 0x200 = dlace (d\<lparr>d_eos := True\<rparr>)"
proof -
  let ?n = "length (d_data d)"
  have m: "(0xff :: 32 word) = mask 8" by (simp add: mask_numeral)
  note b = small_bits [OF assms]
  have "of_nat ?n AND 0xff = (of_nat ?n :: 32 word)" using b(1) by (simp only: m take_bit_eq_mask)
  then show a: "dlace d AND 0xff = of_nat ?n"
    by (simp add: dlace_def bit.conj_disj_distrib2)
  have "bit (dlace d) 8 \<longleftrightarrow> d_bos d" "bit (dlace d) 9 \<longleftrightarrow> d_eos d" "\<not> bit (dlace d) 10"
    using b(2) [of 8] b(2) [of 9] b(2) [of 10] by (simp_all add: dlace_def bit_or_iff)
  then show "dlace d AND 0x100 = 0 \<longleftrightarrow> \<not> d_bos d" "dlace d AND 0x200 = 0 \<longleftrightarrow> \<not> d_eos d" "dlace d AND 0x400 = 0"
    using and_exp_eq_0_iff_not_bit [of "dlace d" 8] and_exp_eq_0_iff_not_bit [of "dlace d" 9]
      and_exp_eq_0_iff_not_bit [of "dlace d" 10] by simp_all
  show u: "uint (dlace d AND 0xff) = int ?n"
    unfolding a using assms by (simp add: unsigned_of_nat take_bit_nat_eq_self_iff)
  then have "dlace d AND 0xff = 255 \<longleftrightarrow> int ?n = 255"
    unfolding word_uint_eq_iff [of "dlace d AND 0xff" 255] by simp
  then show "dlace d AND 0xff = 255 \<longleftrightarrow> \<not> d_short d" using assms by auto
  show "dlace d OR 0x200 = dlace (d\<lparr>d_eos := True\<rparr>)"
    by (simp add: dlace_def or.assoc)
qed

text \<open>The number of segments up to the end of the last complete packet.\<close>

fun complete :: "dseg list \<Rightarrow> nat" where
  "complete [] = 0"
| "complete (d # ds) = (if 0 < complete ds then Suc (complete ds) else if d_short d then 1 else 0)"

lemma complete_le: "complete ds \<le> length ds"
  by (induction ds) auto

lemma complete_0: "complete ds = 0 \<longleftrightarrow> (\<forall>d \<in> set ds. \<not> d_short d)"
  by (induction ds) auto

lemma complete_append: "complete (xs @ ys) = (if 0 < complete ys then length xs + complete ys else complete xs)"
  by (induction xs) auto

lemma complete_drop: "n \<le> complete ds \<Longrightarrow> complete (drop n ds) = complete ds - n"
proof (induction ds arbitrary: n)
  case (Cons d ds)
  then show ?case by (cases n) (auto split: if_splits)
qed simp

definition dec_ok :: "ogg_stream_state \<Rightarrow> dseg list \<Rightarrow> bool" where
  "dec_ok os ds \<longleftrightarrow> (\<exists>r. body_ok os (concat (map d_data ds)) \<and> lacing_ok os r (map dlace ds) (map d_gran ds)
     \<and> os_lacing_packet os = int (r + complete ds) \<and> (\<forall>d \<in> set ds. length (d_data d) \<le> 255))"

lemma dec_ok_check: "dec_ok os ds \<Longrightarrow> ogg_stream_check os"
  using body_ok_check by (auto simp: dec_ok_def)

lemma ogg_stream_init_dec_ok:
  "mem_ok mem \<Longrightarrow> ogg_stream_init mem serialno = (os, 0) \<Longrightarrow> dec_ok os []"
  using ogg_stream_init_ok [of mem serialno os] by (auto simp: enc_ok_def dec_ok_def)

section \<open>A packet is taken out\<close>

text \<open>The segments of the first packet.\<close>

fun first_len :: "dseg list \<Rightarrow> nat" where
  "first_len [] = 0"
| "first_len (d # ds) = (if d_short d then 1 else Suc (first_len ds))"

lemma first_len_le: "0 < complete ds \<Longrightarrow> 0 < first_len ds \<and> first_len ds \<le> complete ds"
  by (induction ds) (auto split: if_splits)

definition join :: "ogg_stream_state \<Rightarrow> dseg list \<Rightarrow> ogg_packet" where
  "join os ds = \<lparr>op_packet = concat (map d_data ds), op_bos = d_bos (hd ds), op_eos = (\<exists>d \<in> set ds. d_eos d),
     op_granulepos = d_gran (List.last ds), op_packetno = os_packetno os\<rparr>"

lemma packet_segs_ok:
  assumes "0 < complete ds" and "\<forall>d \<in> set ds. length (d_data d) \<le> 255"
  shows "packet_segs (map dlace ds @ zs) = Some (first_len ds, int (length (concat (map d_data (take (first_len ds) ds)))),
    \<exists>d \<in> set (take (first_len ds) ds). d_eos d)"
  using assms
proof (induction ds)
  case (Cons d ds)
  have d: "length (d_data d) \<le> 255" using Cons.prems(2) by simp
  note p = dlace_parts [OF d]
  show ?case
  proof (cases "d_short d")
    case True
    then show ?thesis using p by simp
  next
    case False
    then have "0 < complete ds" using Cons.prems(1) by (auto split: if_splits)
    then show ?thesis using Cons.IH Cons.prems(2) False p d by auto
  qed
qed simp

lemma packetout_ok:
  assumes ok: "dec_ok os ds"
  shows "if complete ds = 0 then ogg_stream_packetout os = Some (os, 0, None)
    else \<exists>os'. ogg_stream_packetout os = Some (os', 1, Some (join os (take (first_len ds) ds)))
      \<and> dec_ok os' (drop (first_len ds) ds) \<and> os_packetno os' = os_packetno os + 1
      \<and> os_pageno os' = os_pageno os \<and> os_serialno os' = os_serialno os
      \<and> os_body_storage os' = os_body_storage os \<and> os_lacing_storage os' = os_lacing_storage os"
proof -
  obtain r where body: "body_ok os (concat (map d_data ds))" and lac: "lacing_ok os r (map dlace ds) (map d_gran ds)"
    and pk: "os_lacing_packet os = int (r + complete ds)" and small: "\<forall>d \<in> set ds. length (d_data d) \<le> 255"
    using ok by (auto simp: dec_ok_def)
  obtain l g where l: "os_lacing os = Some l" "os_granule os = Some g" "os_lacing_storage os = int (length l)"
     "length g = length l" "os_lacing_returned os = int r" "os_lacing_fill os = int (r + length ds)"
     "r + length ds \<le> length l" "take (length ds) (drop r l) = map dlace ds" "take (length ds) (drop r g) = map d_gran ds"
    using lac by (auto simp: lacing_ok_def)
  obtain b rb where b: "os_body os = Some b" "os_body_storage os = int (length b)" "os_body_returned os = int rb"
     "os_body_fill os = int (rb + length (concat (map d_data ds)))" "rb + length (concat (map d_data ds)) \<le> length b"
     "take (length (concat (map d_data ds))) (drop rb b) = concat (map d_data ds)"
    using body by (auto simp: body_ok_def)
  show ?thesis
  proof (cases "complete ds = 0")
    case True
    then have "ogg_stream_packetout os = Some (os, 0, None)"
      using dec_ok_check [OF ok] l(5) pk by (simp add: ogg_stream_packetout_def packetout_def)
    then show ?thesis using True by simp
  next
    case False
    let ?n = "first_len ds"
    let ?ds = "take ?n ds"
    have n: "0 < ?n" "?n \<le> complete ds" "?n \<le> length ds"
      using first_len_le [of ds] False complete_le [of ds] by auto
    then have ne: "ds \<noteq> []" by auto
    obtain l' where drop_l: "drop r l = map dlace ds @ l'"
      using append_take_drop_id [of "length ds" "drop r l"] unfolding l(8) by metis
    obtain g' where drop_g: "drop r g = map d_gran ds @ g'"
      using append_take_drop_id [of "length ds" "drop r g"] unfolding l(9) by metis
    have v: "rd l (int r) = Some (dlace (hd ds))"
    proof -
      have "l ! r = drop r l ! 0" using l(7) ne by (cases ds) auto
      also have "\<dots> = dlace (hd ds)" unfolding drop_l using ne by (cases ds) auto
      finally show ?thesis using l(7) ne by (cases ds) (auto simp: rd_def)
    qed
    have gp: "rd g (int r + int ?n - 1) = Some (d_gran (List.last ?ds))"
    proof -
      have lt: "?n - 1 < length ds" using n by linarith
      have "g ! (r + (?n - 1)) = drop r g ! (?n - 1)" using l(4,7) n by simp
      also have "\<dots> = d_gran (ds ! (?n - 1))" unfolding drop_g using lt by (simp add: nth_append)
      also have "ds ! (?n - 1) = List.last ?ds" using n ne by (simp add: last_conv_nth)
      finally have "g ! (r + (?n - 1)) = d_gran (List.last ?ds)" .
      moreover have "int r + int ?n - 1 = int (r + (?n - 1))" using n by simp
      moreover have "r + (?n - 1) < length g" using l(4,7) n by linarith
      ultimately show ?thesis by (simp only: rd_nat)
    qed
    have split: "concat (map d_data ds) = concat (map d_data ?ds) @ concat (map d_data (drop ?n ds))"
      by (simp flip: map_append concat_append)
    let ?k = "length (concat (map d_data ?ds))"
    have len: "length (concat (map d_data ds)) = ?k + length (concat (map d_data (drop ?n ds)))"
      using arg_cong [OF split, of length] by simp
    have data: "rd_blk b (int rb) (int ?k) = Some (concat (map d_data ?ds))"
    proof -
      have "take ?k (drop rb b) = take ?k (take (length (concat (map d_data ds))) (drop rb b))"
        using len by (simp add: min_absorb1)
      also have "\<dots> = concat (map d_data ?ds)" unfolding b(6) unfolding split by simp
      finally have "take ?k (drop rb b) = concat (map d_data ?ds)" .
      moreover have "rb + ?k \<le> length b" using b(5) len by linarith
      ultimately show ?thesis by (simp add: rd_blk_def)
    qed
    have hd: "length (d_data (hd ds)) \<le> 255" using small ne by (cases ds) auto
    note hp = dlace_parts [OF hd]
    have segs: "packet_segs (drop (nat (int r)) l) = Some (?n, int ?k, \<exists>d \<in> set ?ds. d_eos d)"
      using packet_segs_ok [of ds l'] False small drop_l by simp
    have bos: "hd ?ds = hd ds" using n(1) ne by (cases ?n; cases ds) auto
    let ?os = "os\<lparr>os_body_returned := int rb + int ?k, os_lacing_returned := int r + int ?n, os_packetno := os_packetno os + 1\<rparr>"
    have "ogg_stream_packetout os = Some (?os, 1, Some (join os ?ds))"
      using dec_ok_check [OF ok] l(1,2,5) b(1,3) pk False v hp(2,4) segs data gp bos
      by (simp add: ogg_stream_packetout_def packetout_def join_def)
    moreover have "dec_ok ?os (drop ?n ds)"
    proof -
      let ?rest = "concat (map d_data (drop ?n ds))"
      have "take (length ?rest) (drop (rb + ?k) b) = drop ?k (take (?k + length ?rest) (drop rb b))"
        by (simp add: drop_take add.commute)
      also have "\<dots> = ?rest" unfolding len [symmetric] b(6) unfolding split by simp
      finally have "body_ok ?os ?rest"
        using b(1-5) len unfolding body_ok_def by (intro exI [of _ b] exI [of _ "rb + ?k"]) simp
      moreover have "lacing_ok ?os (r + ?n) (map dlace (drop ?n ds)) (map d_gran (drop ?n ds))"
      proof -
        have "take (length ds - ?n) (drop (r + ?n) l) = drop ?n (take (length ds) (drop r l))"
          "take (length ds - ?n) (drop (r + ?n) g) = drop ?n (take (length ds) (drop r g))"
          by (simp_all add: drop_take add.commute)
        then have "take (length ds - ?n) (drop (r + ?n) l) = map dlace (drop ?n ds)"
          "take (length ds - ?n) (drop (r + ?n) g) = map d_gran (drop ?n ds)"
          unfolding l(8,9) by (simp_all add: drop_map)
        then show ?thesis
          using l(1-7) n(3) unfolding lacing_ok_def by (intro exI [of _ l] exI [of _ g]) simp
      qed
      ultimately show ?thesis
        using pk n complete_drop [OF n(2)] small unfolding dec_ok_def
        by (intro exI [of _ "r + ?n"]) (auto dest: in_set_dropD)
    qed
    ultimately show ?thesis using False by simp
  qed
qed


section \<open>A page is taken in\<close>

text \<open>The fields of a page that an encoder has sealed.\<close>

lemma flag_byte_bits:
  "flag_byte c b e AND 0x01 \<noteq> 0 \<longleftrightarrow> c" "flag_byte c b e AND 0x02 \<noteq> 0 \<longleftrightarrow> b" "flag_byte c b e AND 0x04 \<noteq> 0 \<longleftrightarrow> e"
  by (cases c; cases b; cases e; simp add: flag_byte_def)+

lemma rd_blk_append:
  assumes "length as = n" and "length bs = m"
  shows "rd_blk (as @ bs @ cs) (int n) (int m) = Some bs"
  using assms by (simp add: rd_blk_def)

lemma sealed_fields:
  fixes g :: "64 word" and serialno pageno :: "32 word"
  assumes "length x = 4" and "length segs \<le> 255"
    and og_def: "og = \<lparr>pg_header = sealed_header (flag_byte c b e) g serialno pageno segs x, pg_body = body\<rparr>"
  shows "ogg_page_version og = Some 0" and "ogg_page_continued og = Some c" and "ogg_page_bos og = Some b"
    and "ogg_page_eos og = Some e" and "ogg_page_granulepos og = Some g" and "ogg_page_serialno og = Some serialno"
    and "ogg_page_pageno og = Some pageno" and "rd (pg_header og) 26 = Some (of_nat (length segs))"
    and "rd_blk (pg_header og) 27 (uint (of_nat (length segs) :: byte)) = Some segs"
proof -
  let ?h = "sealed_header (flag_byte c b e) g serialno pageno segs x"
  have h1: "?h = (OggS @ [0, flag_byte c b e]) @ le_bytes 8 g @ (le_bytes 4 serialno @ le_bytes 4 pageno @ x @ of_nat (length segs) # segs)"
    and h2: "?h = (OggS @ [0, flag_byte c b e] @ le_bytes 8 g) @ le_bytes 4 serialno @ (le_bytes 4 pageno @ x @ of_nat (length segs) # segs)"
    and h3: "?h = (OggS @ [0, flag_byte c b e] @ le_bytes 8 g @ le_bytes 4 serialno) @ le_bytes 4 pageno @ (x @ of_nat (length segs) # segs)"
    by (simp_all add: sealed_header_def)
  have len: "length ?h = 27 + length segs" "?h ! 26 = of_nat (length segs)" "drop 27 ?h = segs"
    "uint (of_nat (length segs) :: byte) = int (length segs)"
    using sealed_header_parts [OF assms(1,2), of "flag_byte c b e" g serialno pageno] assms(2)
    by (simp_all add: unsigned_of_nat take_bit_nat_eq_self_iff)
  have "?h ! 4 = 0" "?h ! 5 = flag_byte c b e" by (simp_all add: h1 OggS_def)
  then have rd: "rd ?h 4 = Some 0" "rd ?h 5 = Some (flag_byte c b e)" using len(1) by (simp_all add: rd_def)
  then show "ogg_page_version og = Some 0" "ogg_page_continued og = Some c" "ogg_page_bos og = Some b" "ogg_page_eos og = Some e"
    by (simp_all add: og_def ogg_page_version_def ogg_page_continued_def ogg_page_bos_def ogg_page_eos_def flag_byte_bits)
  have "rd_blk ?h 6 8 = Some (le_bytes 8 g)" "rd_blk ?h 14 4 = Some (le_bytes 4 serialno)" "rd_blk ?h 18 4 = Some (le_bytes 4 pageno)"
    using rd_blk_append [of "OggS @ [0, flag_byte c b e]" 6 "le_bytes 8 g" 8]
      rd_blk_append [of "OggS @ [0, flag_byte c b e] @ le_bytes 8 g" 14 "le_bytes 4 serialno" 4]
      rd_blk_append [of "OggS @ [0, flag_byte c b e] @ le_bytes 8 g @ le_bytes 4 serialno" 18 "le_bytes 4 pageno" 4]
    unfolding h1 by (simp_all add: OggS_def)
  then show "ogg_page_granulepos og = Some g" "ogg_page_serialno og = Some serialno" "ogg_page_pageno og = Some pageno"
    using le_num_bytes [of 8 g] le_num_bytes [of 4 serialno] le_num_bytes [of 4 pageno]
    by (simp_all add: og_def ogg_page_granulepos_def ogg_page_serialno_def ogg_page_pageno_def take_bit_word_eq_self)
  show "rd (pg_header og) 26 = Some (of_nat (length segs))"
    "rd_blk (pg_header og) 27 (uint (of_nat (length segs) :: byte)) = Some segs"
    using len by (simp_all add: og_def rd_def rd_blk_def)
qed

text \<open>The segments that a page adds to the queue: the mark of the first packet, the position on the
  last complete packet, and the mark of the end.\<close>

fun fresh :: "bool \<Rightarrow> segment list \<Rightarrow> dseg list" where
  "fresh bos [] = []"
| "fresh bos (s # ss) = \<lparr>d_bos = bos, d_eos = False, d_data = seg_data s, d_gran = -1\<rparr> # fresh False ss"

definition set_gran :: "64 word \<Rightarrow> dseg list \<Rightarrow> dseg list" where
  "set_gran g ds = (if complete ds = 0 then ds else ds[complete ds - 1 := (ds ! (complete ds - 1))\<lparr>d_gran := g\<rparr>])"

definition mark_eos :: "dseg list \<Rightarrow> dseg list" where
  "mark_eos ds = ds[length ds - 1 := (ds ! (length ds - 1))\<lparr>d_eos := True\<rparr>]"

definition recv :: "bool \<Rightarrow> bool \<Rightarrow> 64 word \<Rightarrow> segment list \<Rightarrow> dseg list" where
  "recv bos eos g segs = (let ds = set_gran g (fresh bos segs) in if eos then mark_eos ds else ds)"

lemma length_fresh [simp]: "length (fresh bos segs) = length segs"
  by (induction segs arbitrary: bos) auto

lemma fresh_data [simp]: "map d_data (fresh bos segs) = map seg_data segs"
  by (induction segs arbitrary: bos) auto

lemma fresh_gran: "map d_gran (fresh bos segs) = replicate (length segs) (-1)"
  by (induction segs arbitrary: bos) auto

lemma complete_data: "map d_data xs = map d_data ys \<Longrightarrow> complete xs = complete ys"
proof (induction xs arbitrary: ys)
  case (Cons x xs)
  then obtain y ys' where ys: "ys = y # ys'" by (cases ys) auto
  then have "complete xs = complete ys'" "d_data x = d_data y" using Cons by auto
  then show ?case by (simp add: ys)
qed simp

lemma complete_fresh: "complete (fresh bos segs) = complete (fresh False segs)"
  by (rule complete_data) simp

lemma shift_lacing_ok:
  assumes "lacing_ok os r ls gs"
  shows "\<exists>os'. shift_lacing os = Some os' \<and> lacing_ok os' 0 ls gs \<and> os_lacing_packet os' = os_lacing_packet os - int r
    \<and> (\<exists>l g n p. os' = os\<lparr>os_lacing := l, os_granule := g, os_lacing_fill := n, os_lacing_packet := p, os_lacing_returned := 0\<rparr>)"
proof -
  obtain l g where l: "os_lacing os = Some l" "os_granule os = Some g" "os_lacing_storage os = int (length l)"
     "length g = length l" "os_lacing_returned os = int r" "os_lacing_fill os = int (r + length ls)"
     "r + length ls \<le> length l" "length gs = length ls" "take (length ls) (drop r l) = ls" "take (length ls) (drop r g) = gs"
    using assms by (auto simp: lacing_ok_def)
  show ?thesis
  proof (cases "r = 0")
    case True
    have "\<exists>l g n p. os = os\<lparr>os_lacing := l, os_granule := g, os_lacing_fill := n, os_lacing_packet := p, os_lacing_returned := 0\<rparr>"
      using l(5) True by (intro exI [of _ "os_lacing os"] exI [of _ "os_granule os"] exI [of _ "os_lacing_fill os"] exI [of _ "os_lacing_packet os"]) simp
    then show ?thesis using True assms l(5) by (intro exI [of _ os]) (simp add: shift_lacing_def)
  next
    case False
    let ?l = "if ls = [] then l else ls @ drop (length ls) l" and ?g = "if ls = [] then g else gs @ drop (length ls) g"
    let ?os = "os\<lparr>os_lacing := Some ?l, os_granule := Some ?g, os_lacing_fill := int (length ls),
      os_lacing_packet := os_lacing_packet os - int r, os_lacing_returned := 0\<rparr>"
    have "rd_blk l (int r) (int (length ls)) = Some ls" "rd_blk g (int r) (int (length ls)) = Some gs"
      "wr_blk l 0 ls = Some (ls @ drop (length ls) l)" "wr_blk g 0 gs = Some (gs @ drop (length ls) g)"
      using l(4,7-10) by (simp_all add: rd_blk_def wr_blk_def)
    then have "shift_lacing os = Some ?os"
      using l(1,2,5,6) False by (simp add: shift_lacing_def)
    moreover have "lacing_ok ?os 0 ls gs"
      using l(3,4,7,8) unfolding lacing_ok_def by (intro exI [of _ ?l] exI [of _ ?g]) auto
    ultimately show ?thesis by auto
  qed
qed

lemma push_lacing:
  assumes "lacing_ok os 0 ls gs" and "os_lacing_fill os < os_lacing_storage os"
  shows "\<exists>l g l' g'. os_lacing os = Some l \<and> os_granule os = Some g \<and> wr l (os_lacing_fill os) v = Some l'
    \<and> wr g (os_lacing_fill os) w = Some g'
    \<and> lacing_ok (os\<lparr>os_lacing := Some l', os_granule := Some g', os_lacing_fill := os_lacing_fill os + 1\<rparr>) 0 (ls @ [v]) (gs @ [w])"
proof -
  obtain l g where l: "os_lacing os = Some l" "os_granule os = Some g" "os_lacing_storage os = int (length l)"
     "length g = length l" "os_lacing_returned os = 0" "os_lacing_fill os = int (length ls)"
     "length ls \<le> length l" "length gs = length ls" "take (length ls) l = ls" "take (length ls) g = gs"
    using assms(1) by (auto simp: lacing_ok_def)
  have n: "length ls < length l" using assms(2) l(3,6) by simp
  have "take (Suc (length ls)) (l[length ls := v]) = ls @ [v]" "take (Suc (length ls)) (g[length ls := w]) = gs @ [w]"
    using n l(4,9,10) by (simp_all add: take_Suc_conv_app_nth)
  then have "lacing_ok (os\<lparr>os_lacing := Some (l[length ls := v]), os_granule := Some (g[length ls := w]), os_lacing_fill := os_lacing_fill os + 1\<rparr>)
      0 (ls @ [v]) (gs @ [w])"
    using l n unfolding lacing_ok_def
    by (intro exI [of _ "l[length ls := v]"] exI [of _ "g[length ls := w]"]) simp
  then show ?thesis
    using l n wr_nat [OF n, of v] wr_nat [of "length ls" g w] by simp
qed

lemma table_entry:
  assumes "length (seg_data s) \<le> 255"
  shows "(of_nat (length (seg_data s)) :: byte) < 255 \<longleftrightarrow> seg_short s"
    and "ucast (of_nat (length (seg_data s)) :: byte) = (of_nat (length (seg_data s)) :: 32 word)"
    and "uint (of_nat (length (seg_data s)) :: byte) = int (length (seg_data s))"
proof -
  have "take_bit 8 (length (seg_data s)) = length (seg_data s)"
    using assms by (simp add: take_bit_nat_eq_self_iff)
  then show "(of_nat (length (seg_data s)) :: byte) < 255 \<longleftrightarrow> seg_short s"
    "ucast (of_nat (length (seg_data s)) :: byte) = (of_nat (length (seg_data s)) :: 32 word)"
    "uint (of_nat (length (seg_data s)) :: byte) = int (length (seg_data s))"
    using assms by (simp_all add: word_less_nat_alt unat_of_nat unsigned_of_nat)
qed

lemma store_segs_ok:
  assumes "lacing_ok os 0 ls gs" and "os_lacing_fill os + int (length segs) \<le> os_lacing_storage os"
    and "\<forall>s \<in> set segs. length (seg_data s) \<le> 255"
  shows "\<exists>os' l g n. store_segs os bos saved (seg_table segs)
      = Some (os', if complete (fresh bos segs) = 0 then saved else int (length ls + complete (fresh bos segs)) - 1)
    \<and> lacing_ok os' 0 (ls @ map dlace (fresh bos segs)) (gs @ replicate (length segs) (-1))
    \<and> os' = os\<lparr>os_lacing := l, os_granule := g, os_lacing_fill := n, os_lacing_packet :=
        (if complete (fresh bos segs) = 0 then os_lacing_packet os else int (length ls + complete (fresh bos segs)))\<rparr>"
  using assms
proof (induction segs arbitrary: os bos saved ls gs)
  case Nil
  then show ?case
    by (intro exI [of _ os] exI [of _ "os_lacing os"] exI [of _ "os_granule os"] exI [of _ "os_lacing_fill os"])
      (simp add: seg_table_def)
next
  case (Cons s ss)
  have small: "length (seg_data s) \<le> 255" using Cons.prems(3) by simp
  note te = table_entry [OF small]
  let ?v = "ucast (of_nat (length (seg_data s)) :: byte) OR (if bos then 0x100 else 0) :: 32 word"
  have fill: "os_lacing_fill os = int (length ls)" using Cons.prems(1) by (auto simp: lacing_ok_def)
  have room: "os_lacing_fill os < os_lacing_storage os" using Cons.prems(2) by simp
  obtain l g l' g' where p: "os_lacing os = Some l" "os_granule os = Some g" "wr l (os_lacing_fill os) ?v = Some l'"
    "wr g (os_lacing_fill os) (-1) = Some g'"
    "lacing_ok (os\<lparr>os_lacing := Some l', os_granule := Some g', os_lacing_fill := os_lacing_fill os + 1\<rparr>) 0 (ls @ [?v]) (gs @ [-1])"
    using push_lacing [OF Cons.prems(1) room] by blast
  define os1 where "os1 = os\<lparr>os_lacing := Some l', os_granule := Some g', os_lacing_fill := os_lacing_fill os + 1,
    os_lacing_packet := (if seg_short s then os_lacing_fill os + 1 else os_lacing_packet os)\<rparr>"
  have v: "?v = dlace \<lparr>d_bos = bos, d_eos = False, d_data = seg_data s, d_gran = -1\<rparr>"
    unfolding te(2) by (simp add: dlace_def)
  have ok1: "lacing_ok os1 0 (ls @ [?v]) (gs @ [-1])" using p(5) by (simp add: os1_def lacing_ok_def)
  have step: "store_segs os bos saved (seg_table (s # ss))
      = store_segs os1 False (if seg_short s then os_lacing_fill os else saved) (seg_table ss)"
    using p(1-4) te(1) by (simp add: seg_table_def os1_def)
  have "os_lacing_fill os1 + int (length ss) \<le> os_lacing_storage os1" "\<forall>s \<in> set ss. length (seg_data s) \<le> 255"
    using Cons.prems(2,3) by (simp_all add: os1_def)
  from Cons.IH [OF ok1 this, of False "if seg_short s then os_lacing_fill os else saved"]
  obtain os' l g n where r: "store_segs os1 False (if seg_short s then os_lacing_fill os else saved) (seg_table ss)
      = Some (os', if complete (fresh False ss) = 0 then (if seg_short s then os_lacing_fill os else saved)
          else int (length (ls @ [?v]) + complete (fresh False ss)) - 1)"
    "lacing_ok os' 0 ((ls @ [?v]) @ map dlace (fresh False ss)) ((gs @ [-1]) @ replicate (length ss) (-1))"
    "os' = os1\<lparr>os_lacing := l, os_granule := g, os_lacing_fill := n, os_lacing_packet :=
        (if complete (fresh False ss) = 0 then os_lacing_packet os1 else int (length (ls @ [?v]) + complete (fresh False ss)))\<rparr>"
    by blast
  have "lacing_ok os' 0 (ls @ map dlace (fresh bos (s # ss))) (gs @ replicate (length (s # ss)) (-1))"
    using r(2) by (simp add: v)
  moreover have "os' = os\<lparr>os_lacing := l, os_granule := g, os_lacing_fill := n, os_lacing_packet :=
        (if complete (fresh bos (s # ss)) = 0 then os_lacing_packet os else int (length ls + complete (fresh bos (s # ss))))\<rparr>"
    using r(3) fill by (simp add: os1_def)
  moreover have "store_segs os bos saved (seg_table (s # ss))
      = Some (os', if complete (fresh bos (s # ss)) = 0 then saved else int (length ls + complete (fresh bos (s # ss))) - 1)"
    using r(1) fill by (simp add: step)
  ultimately show ?case by blast
qed


lemma lacing_update:
  assumes "lacing_ok os 0 ls gs" and "i < length ls"
  shows "\<exists>l l'. os_lacing os = Some l \<and> rd l (int i) = Some (ls ! i) \<and> wr l (int i) v = Some l'
      \<and> lacing_ok (os\<lparr>os_lacing := Some l'\<rparr>) 0 (ls[i := v]) gs"
    and "\<exists>g g'. os_granule os = Some g \<and> wr g (int i) w = Some g'
      \<and> lacing_ok (os\<lparr>os_granule := Some g'\<rparr>) 0 ls (gs[i := w])"
proof -
  obtain l g where l: "os_lacing os = Some l" "os_granule os = Some g" "os_lacing_storage os = int (length l)"
     "length g = length l" "os_lacing_returned os = 0" "os_lacing_fill os = int (length ls)"
     "length ls \<le> length l" "length gs = length ls" "take (length ls) l = ls" "take (length ls) g = gs"
    using assms(1) by (auto simp: lacing_ok_def)
  have i: "i < length l" "i < length g" using assms(2) l(4,7) by simp_all
  have li: "l ! i = ls ! i" using nth_take [OF assms(2), of l] unfolding l(9) by simp
  have "take (length ls) (l[i := v]) = ls[i := v]" "take (length ls) (g[i := w]) = gs[i := w]"
    by (simp_all add: take_update_swap l(9,10))
  then have "lacing_ok (os\<lparr>os_lacing := Some (l[i := v])\<rparr>) 0 (ls[i := v]) gs"
    "lacing_ok (os\<lparr>os_granule := Some (g[i := w])\<rparr>) 0 ls (gs[i := w])"
    using l by (simp_all add: lacing_ok_def)
  then show "\<exists>l l'. os_lacing os = Some l \<and> rd l (int i) = Some (ls ! i) \<and> wr l (int i) v = Some l'
      \<and> lacing_ok (os\<lparr>os_lacing := Some l'\<rparr>) 0 (ls[i := v]) gs"
    "\<exists>g g'. os_granule os = Some g \<and> wr g (int i) w = Some g'
      \<and> lacing_ok (os\<lparr>os_granule := Some g'\<rparr>) 0 ls (gs[i := w])"
    using l(1,2) i li rd_nat [OF i(1)] wr_nat [OF i(1), of v] wr_nat [OF i(2), of w] by auto
qed

lemma map_update_same: "i < length xs \<Longrightarrow> f y = f (xs ! i) \<Longrightarrow> map f (xs[i := y]) = map f xs"
  by (metis length_map list_update_same_conv map_update nth_map)

lemma complete_index: "0 < complete ds \<Longrightarrow> complete ds - Suc 0 < length ds"
  using complete_le [of ds] by linarith

lemma set_gran_data [simp]: "map d_data (set_gran g ds) = map d_data ds" "map dlace (set_gran g ds) = map dlace ds"
  "length (set_gran g ds) = length ds"
  unfolding set_gran_def by (auto intro!: map_update_same dest: complete_index simp: dlace_def)

lemma set_gran_gran: "map d_gran (set_gran g ds) = (if complete ds = 0 then map d_gran ds else (map d_gran ds)[complete ds - 1 := g])"
  by (simp add: set_gran_def map_update)

lemma mark_eos_data [simp]: "map d_data (mark_eos ds) = map d_data ds" "map d_gran (mark_eos ds) = map d_gran ds"
  "length (mark_eos ds) = length ds"
  by (cases "ds = []"; auto simp: mark_eos_def intro!: map_update_same)+

lemma mark_eos_lace:
  assumes "ds \<noteq> []" and "\<forall>d \<in> set ds. length (d_data d) \<le> 255"
  shows "map dlace (mark_eos ds) = (map dlace ds)[length ds - 1 := map dlace ds ! (length ds - 1) OR 0x200]"
  using assms dlace_parts(7) [of "ds ! (length ds - 1)"] by (simp add: mark_eos_def map_update)

lemma recv_data [simp]: "map d_data (recv bos eos g segs) = map seg_data segs" "length (recv bos eos g segs) = length segs"
  by (simp_all add: recv_def Let_def)

lemma small_data: "\<forall>s \<in> set segs. length (seg_data s) \<le> 255 \<Longrightarrow> map d_data ds = map seg_data segs \<Longrightarrow>
  \<forall>d \<in> set ds. length (d_data d) \<le> 255"
  by (metis (no_types, lifting) image_iff list.set_map)

lemma pagein_segs_ok:
  assumes body: "body_ok os (concat (map d_data ds) @ all_data segs)" and lac: "lacing_ok os 0 (map dlace ds) (map d_gran ds)"
    and pk: "os_lacing_packet os = int (complete ds)" and small: "\<forall>d \<in> set ds. length (d_data d) \<le> 255"
      "\<forall>s \<in> set segs. length (seg_data s) \<le> 255" and ne: "segs \<noteq> []"
    and room: "os_lacing_fill os + int (length segs) \<le> os_lacing_storage os"
  shows "\<exists>os'. pagein_segs os bos eos g pageno (seg_table segs) = Some (os', 0) \<and> dec_ok os' (ds @ recv bos eos g segs)
    \<and> os_pageno os' = pageno + 1 \<and> os_serialno os' = os_serialno os \<and> os_packetno os' = os_packetno os
    \<and> os_body_storage os' = os_body_storage os \<and> os_lacing_storage os' = os_lacing_storage os"
proof -
  let ?F = "fresh bos segs"
  let ?n = "length ds"
  obtain os1 l1 g1 n1 where st: "store_segs os bos (-1) (seg_table segs)
      = Some (os1, if complete ?F = 0 then -1 else int (?n + complete ?F) - 1)"
    "lacing_ok os1 0 (map dlace (ds @ ?F)) (map d_gran (ds @ ?F))"
    "os1 = os\<lparr>os_lacing := l1, os_granule := g1, os_lacing_fill := n1, os_lacing_packet :=
        (if complete ?F = 0 then os_lacing_packet os else int (?n + complete ?F))\<rparr>"
    using store_segs_ok [OF lac room small(2), of bos "-1"]
    by (simp only: length_map map_append fresh_gran) blast
  let ?saved = "if complete ?F = 0 then -1 else int (?n + complete ?F) - 1"
  have pk1: "os_lacing_packet os1 = int (complete (ds @ ?F))"
    using pk by (simp add: st(3) complete_append)
  have cF: "complete ?F \<le> length ?F" by (rule complete_le)
  obtain os2 gr2 where gr: "(if ?saved \<noteq> -1 then do {
         gr \<leftarrow> os_granule os1; gr \<leftarrow> wr gr ?saved g; Some (os1\<lparr>os_granule := Some gr\<rparr>) } else Some os1) = Some os2"
    "lacing_ok os2 0 (map dlace (ds @ set_gran g ?F)) (map d_gran (ds @ set_gran g ?F))" "os2 = os1\<lparr>os_granule := gr2\<rparr>"
  proof (cases "complete ?F = 0")
    case True
    then show thesis using that [of os1 "os_granule os1"] st(2) by (simp add: set_gran_gran)
  next
    case False
    let ?i = "?n + complete ?F - 1"
    have i: "?i < length (map dlace (ds @ ?F))" "?saved = int ?i" "?saved \<noteq> -1" using False cF by auto
    obtain gr gr' where w: "os_granule os1 = Some gr" "wr gr (int ?i) g = Some gr'"
      "lacing_ok (os1\<lparr>os_granule := Some gr'\<rparr>) 0 (map dlace (ds @ ?F)) ((map d_gran (ds @ ?F))[?i := g])"
      using lacing_update(2) [OF st(2) i(1), of g] by blast
    have "(map d_gran (ds @ ?F))[?i := g] = map d_gran (ds @ set_gran g ?F)"
      using False by (cases "complete ?F") (simp_all add: set_gran_gran list_update_append)
    then show thesis using that [of "os1\<lparr>os_granule := Some gr'\<rparr>" "Some gr'"] w i(2,3) by simp
  qed
  let ?D = "set_gran g ?F"
  have neD: "?D \<noteq> []" using ne by (metis length_0_conv length_fresh set_gran_data(3))
  have smallD: "\<forall>d \<in> set ?D. length (d_data d) \<le> 255" by (rule small_data [OF small(2)]) simp
  obtain os3 l3 where eo: "(if eos then
         (let os = os2\<lparr>os_eos := True\<rparr> in
          if os_lacing_fill os > 0 then do {
            l \<leftarrow> os_lacing os;
            v \<leftarrow> rd l (os_lacing_fill os - 1);
            l \<leftarrow> wr l (os_lacing_fill os - 1) (v OR 0x200);
            Some (os\<lparr>os_lacing := Some l\<rparr>) }
          else Some os)
       else Some os2) = Some os3"
    "lacing_ok os3 0 (map dlace (ds @ recv bos eos g segs)) (map d_gran (ds @ recv bos eos g segs))"
    "os3 = os2\<lparr>os_eos := os_eos os2 \<or> eos, os_lacing := l3\<rparr>"
  proof (cases eos)
    case False
    then show thesis using that [of os2 "os_lacing os2"] gr(2) by (simp add: recv_def Let_def)
  next
    case True
    let ?os = "os2\<lparr>os_eos := True\<rparr>"
    let ?i = "?n + length ?F - 1"
    have ok: "lacing_ok ?os 0 (map dlace (ds @ ?D)) (map d_gran (ds @ ?D))" using gr(2) by (simp add: lacing_ok_def)
    have i: "?i < length (map dlace (ds @ ?D))" using ne by simp
    have f: "os_lacing_fill ?os = int ?i + 1" using ok ne by (cases segs) (auto simp: lacing_ok_def)
    obtain l l' where w: "os_lacing ?os = Some l" "rd l (int ?i) = Some (map dlace (ds @ ?D) ! ?i)"
      "wr l (int ?i) (map dlace (ds @ ?D) ! ?i OR 0x200) = Some l'"
      "lacing_ok (?os\<lparr>os_lacing := Some l'\<rparr>) 0 ((map dlace (ds @ ?D))[?i := map dlace (ds @ ?D) ! ?i OR 0x200]) (map d_gran (ds @ ?D))"
      using lacing_update(1) [OF ok i] by blast
    let ?v = "map dlace (ds @ ?D) ! ?i"
    have upd: "(map dlace (ds @ ?D))[?i := ?v OR 0x200] = map dlace (ds @ recv bos eos g segs)"
      using ne mark_eos_lace [OF neD smallD] True
      by (cases "length segs") (simp_all add: list_update_append nth_append recv_def Let_def)
    have gran: "map d_gran (ds @ ?D) = map d_gran (ds @ recv bos eos g segs)"
      using True by (simp add: recv_def Let_def)
    show thesis
    proof (rule that)
      show "lacing_ok (?os\<lparr>os_lacing := Some l'\<rparr>) 0 (map dlace (ds @ recv bos eos g segs)) (map d_gran (ds @ recv bos eos g segs))"
        using w(4) unfolding upd gran .
      have "os_lacing_fill ?os - 1 = int ?i" "os_lacing_fill ?os > 0" using f by simp_all
      then show "(if eos then
         (let os = os2\<lparr>os_eos := True\<rparr> in
          if os_lacing_fill os > 0 then do {
            l \<leftarrow> os_lacing os;
            v \<leftarrow> rd l (os_lacing_fill os - 1);
            l \<leftarrow> wr l (os_lacing_fill os - 1) (v OR 0x200);
            Some (os\<lparr>os_lacing := Some l\<rparr>) }
          else Some os)
       else Some os2) = Some (?os\<lparr>os_lacing := Some l'\<rparr>)"
        unfolding Let_def using True w(1-3) by (simp only: if_True option.simps bind.simps)
    qed (use True in simp)
  qed
  let ?os = "os3\<lparr>os_pageno := pageno + 1\<rparr>"
  have "pagein_segs os bos eos g pageno (seg_table segs) = Some (?os, 0)"
    using st(1) gr(1) eo(1) by (simp add: pagein_segs_def del: of_nat_add)
  moreover have "dec_ok ?os (ds @ recv bos eos g segs)"
  proof -
    have c: "complete (recv bos eos g segs) = complete ?F" by (rule complete_data) simp
    have "body_ok ?os (concat (map d_data (ds @ recv bos eos g segs)))"
      using body by (simp add: eo(3) gr(3) st(3) body_ok_def)
    moreover have "lacing_ok ?os 0 (map dlace (ds @ recv bos eos g segs)) (map d_gran (ds @ recv bos eos g segs))"
      using eo(2) by (simp add: lacing_ok_def)
    moreover have "os_lacing_packet ?os = int (complete (ds @ recv bos eos g segs))"
      using pk1 by (simp add: eo(3) gr(3) complete_append c)
    moreover have "\<forall>d \<in> set (ds @ recv bos eos g segs). length (d_data d) \<le> 255"
      using small(1) small_data [OF small(2), of "recv bos eos g segs"] by auto
    ultimately show ?thesis unfolding dec_ok_def by (intro exI [of _ 0]) simp
  qed
  ultimately show ?thesis by (simp add: eo(3) gr(3) st(3))
qed


lemma body_data_le:
  assumes "length segs \<le> 255" and "\<forall>s \<in> set segs. length (seg_data s) \<le> 255"
  shows "length (all_data segs) \<le> 65025"
proof -
  have "length (all_data segs) \<le> 255 * length segs" using assms(2) by (induction segs) auto
  then show ?thesis using assms(1) by linarith
qed

text \<open>Storing the body, which may be empty.\<close>

lemma store_body:
  assumes ok: "body_ok os xs" and al: "alloc_ok (mem_body mem)"
  shows "(\<exists>os1 os2. (if ys \<noteq> [] then os_body_expand mem os (int (length ys)) else (os, False)) = (os1, False)
      \<and> (if ys \<noteq> [] then append_body os1 ys else Some os1) = Some os2 \<and> body_ok os2 (xs @ ys)
      \<and> os_body_storage os2 \<le> max (os_body_storage os) (os_body_fill os + 2 * int (length ys) + 1024)
      \<and> (\<exists>b st n. os2 = os\<lparr>os_body := b, os_body_storage := st, os_body_fill := n\<rparr>))
    \<or> (if ys \<noteq> [] then os_body_expand mem os (int (length ys)) else (os, False)) = (ogg_stream_zero, True)
      \<and> (mem_fails mem \<or> os_body_storage os > LONG_MAX - int (length ys))"
proof (cases "ys = []")
  case True
  have "\<exists>b st n. os = os\<lparr>os_body := b, os_body_storage := st, os_body_fill := n\<rparr>"
    by (intro exI [of _ "os_body os"] exI [of _ "os_body_storage os"] exI [of _ "os_body_fill os"]) simp
  then show ?thesis using True ok by simp
next
  case False
  obtain os1 err where e: "os_body_expand mem os (int (length ys)) = (os1, err)" by fastforce
  note room = os_body_expand_room [OF e]
  consider "os1 = ogg_stream_zero" "err" | b st where "\<not> err" "body_ok os1 xs" "os1 = os\<lparr>os_body := b, os_body_storage := st\<rparr>"
      "os_body_fill os1 + int (length ys) \<le> os_body_storage os1"
    using os_body_expand_ok [OF ok al, of "int (length ys)"] e by auto
  then show ?thesis
  proof cases
    case 1
    then show ?thesis using e False room by simp
  next
    case 2
    obtain os2 b' n where "append_body os1 ys = Some os2" "body_ok os2 (xs @ ys)" "os2 = os1\<lparr>os_body := b', os_body_fill := n\<rparr>"
      using append_body_ok [OF 2(2,4)] by blast
    moreover have "\<exists>b st n. os2 = os\<lparr>os_body := b, os_body_storage := st, os_body_fill := n\<rparr>"
      using 2(3) calculation(3) by (intro exI [of _ b'] exI [of _ st] exI [of _ n]) simp
    ultimately show ?thesis using e False room 2(1,3) by simp
  qed
qed

text \<open>An error is reported only when memory is short or the buffers exceed the \<open>long\<close> range.\<close>

definition pagein_short :: "ogg_mem \<Rightarrow> ogg_stream_state \<Rightarrow> bool" where
  "pagein_short mem os \<longleftrightarrow> mem_fails mem \<or> os_body_storage os > LONG_MAX - 65025 \<or> os_lacing_storage os > LONG_MAX - 256"

lemma ogg_stream_pagein_ok:
  assumes ok: "dec_ok os ds" and mem: "mem_ok mem"
    and pg: "page_of (flag_byte c b e) g (os_serialno os) (os_pageno os) segs p"
    and n: "segs \<noteq> []" "length segs \<le> 255" and small: "\<forall>s \<in> set segs. length (seg_data s) \<le> 255"
    and cont: "c \<Longrightarrow> ds \<noteq> []"
  shows "\<exists>os' ret. ogg_stream_pagein mem os p = Some (os', ret) \<and>
    (ret = 0 \<and> dec_ok os' (ds @ recv b e g segs) \<and> os_pageno os' = os_pageno os + 1
       \<and> os_serialno os' = os_serialno os \<and> os_packetno os' = os_packetno os
       \<and> os_body_storage os' \<le> max (os_body_storage os) (int (length (concat (map d_data ds))) + 131074)
       \<and> os_lacing_storage os' \<le> max (os_lacing_storage os) (int (length ds) + 544)
     \<or> ret = -1 \<and> os' = ogg_stream_zero \<and> pagein_short mem os)"
proof -
  obtain x where x: "length x = 4" and p: "p = \<lparr>pg_header = sealed_header (flag_byte c b e) g (os_serialno os) (os_pageno os) (seg_table segs) x, pg_body = all_data segs\<rparr>"
    using pg by (auto simp: page_of_def)
  have tab: "length (seg_table segs) = length segs" by (simp add: seg_table_def)
  have tab255: "length (seg_table segs) \<le> 255" using n(2) tab by simp
  have u: "uint (of_nat (length segs) :: byte) = int (length segs)"
    using n(2) by (simp add: unsigned_of_nat take_bit_nat_eq_self_iff)
  note f = sealed_fields [OF x tab255 p, unfolded tab u]
  have pbody: "pg_body p = all_data segs" by (simp add: p)
  obtain r where body: "body_ok os (concat (map d_data ds))" and lac: "lacing_ok os r (map dlace ds) (map d_gran ds)"
    and pk: "os_lacing_packet os = int (r + complete ds)" and dsmall: "\<forall>d \<in> set ds. length (d_data d) \<le> 255"
    using ok by (auto simp: dec_ok_def)
  obtain os1 b1 n1 where s1: "shift_body os = Some os1" "body_ok os1 (concat (map d_data ds))"
    "os1 = os\<lparr>os_body := b1, os_body_fill := n1, os_body_returned := 0\<rparr>"
    using shift_body_ok [OF body] by blast
  have "lacing_ok os1 r (map dlace ds) (map d_gran ds)" using lac by (simp add: s1(3) lacing_ok_def)
  from shift_lacing_ok [OF this]
  obtain os2 l2 g2 n2 p2 where s2: "shift_lacing os1 = Some os2" "lacing_ok os2 0 (map dlace ds) (map d_gran ds)"
    "os_lacing_packet os2 = int (complete ds)"
    "os2 = os1\<lparr>os_lacing := l2, os_granule := g2, os_lacing_fill := n2, os_lacing_packet := p2, os_lacing_returned := 0\<rparr>"
    using pk by (auto simp: s1(3))
  have fill2: "os_lacing_fill os2 = int (length ds)" using s2(2) by (auto simp: lacing_ok_def)
  obtain os3 err where e: "os_lacing_expand mem os2 (int (length segs) + 1) = (os3, err)" by fastforce
  note room3 = os_lacing_expand_room [OF e]
  have st: "os_serialno os2 = os_serialno os" "os_lacing_storage os2 = os_lacing_storage os" "os_body_storage os2 = os_body_storage os"
    by (simp_all add: s2(4) s1(3))
  consider (err) "os3 = ogg_stream_zero" "err"
    | (ok) l3 g3 st3 where "\<not> err" "lacing_ok os3 0 (map dlace ds) (map d_gran ds)"
      "os_lacing_fill os3 + (int (length segs) + 1) \<le> os_lacing_storage os3"
      "os3 = os2\<lparr>os_lacing := l3, os_granule := g3, os_lacing_storage := st3\<rparr>"
    using os_lacing_expand_ok [OF s2(2) mem, of "int (length segs) + 1"] e by auto
  then show ?thesis
  proof cases
    case err
    have "pagein_short mem os" using room3 err(2) n(2) st by (auto simp: pagein_short_def)
    then show ?thesis
      using err e f dec_ok_check [OF ok] s1(1) s2(1) st(1) u by (simp add: ogg_stream_pagein_def)
  next
    case ok3: ok
    let ?D = "concat (map d_data ds)" and ?B = "all_data segs"
    have v: "note_gap os3 (os_pageno os) = Some os3" by (simp add: note_gap_def ok3(4) s2(4) s1(3))
    have miss: "(if c then start_missing os3 else Some False) = Some False"
    proof (cases c)
      case True
      then have ne: "ds \<noteq> []" by (rule cont)
      then obtain i where len: "length ds = Suc i" by (cases ds) auto
      then have i: "i < length (map dlace ds)" by simp
      obtain l where l: "os_lacing os3 = Some l" "rd l (int i) = Some (map dlace ds ! i)"
        using lacing_update(1) [OF ok3(2) i] by blast
      have "length (d_data (ds ! i)) \<le> 255" using dsmall i by simp
      then have "map dlace ds ! i \<noteq> 0x400" using dlace_parts(4) [of "ds ! i"] i by auto
      moreover have "os_lacing_fill os3 = int i + 1" using ok3(2) len by (auto simp: lacing_ok_def)
      ultimately show ?thesis using True l by (simp add: start_missing_def)
    qed simp
    have blk: "rd_blk ?B 0 (int (length ?B) - 0) = Some ?B" by (simp add: rd_blk_def)
    have body3: "body_ok os3 ?D" "os_body_storage os3 = os_body_storage os" "os_body_fill os3 = int (length ?D)"
      using s1(2) by (auto simp: ok3(4) s2(4) s1(3) body_ok_def)
    have B: "length ?B \<le> 65025" by (rule body_data_le [OF n(2) small])
    have run: "ogg_stream_pagein mem os p = (let (os4, err) = (if ?B \<noteq> [] then os_body_expand mem os3 (int (length ?B)) else (os3, False)) in
        if err then Some (os4, -1) else do {
          os5 \<leftarrow> (if ?B \<noteq> [] then append_body os4 ?B else Some os4);
          pagein_segs os5 b e g (os_pageno os) (seg_table segs) })"
      using ok3(1) e f dec_ok_check [OF ok] s1(1) s2(1) st(1) u v miss blk
      by (simp add: ogg_stream_pagein_def pbody case_prod_unfold Let_def)
    have lac_room: "os_lacing_storage os3 \<le> max (os_lacing_storage os) (int (length ds) + 544)"
      using room3 ok3(1) fill2 n(2) st(2) by auto
    have al: "alloc_ok (mem_body mem)" using mem by (simp add: mem_ok_def)
    from store_body [OF body3(1) al, of ?B]
    show ?thesis
    proof
      assume "\<exists>os1 os2. (if ?B \<noteq> [] then os_body_expand mem os3 (int (length ?B)) else (os3, False)) = (os1, False)
        \<and> (if ?B \<noteq> [] then append_body os1 ?B else Some os1) = Some os2 \<and> body_ok os2 (?D @ ?B)
        \<and> os_body_storage os2 \<le> max (os_body_storage os3) (os_body_fill os3 + 2 * int (length ?B) + 1024)
        \<and> (\<exists>b st n. os2 = os3\<lparr>os_body := b, os_body_storage := st, os_body_fill := n\<rparr>)"
      then obtain os4 os5 b5 st5 n5 where s5: "(if ?B \<noteq> [] then os_body_expand mem os3 (int (length ?B)) else (os3, False)) = (os4, False)"
        "(if ?B \<noteq> [] then append_body os4 ?B else Some os4) = Some os5" "body_ok os5 (?D @ ?B)"
        "os_body_storage os5 \<le> max (os_body_storage os3) (os_body_fill os3 + 2 * int (length ?B) + 1024)"
        "os5 = os3\<lparr>os_body := b5, os_body_storage := st5, os_body_fill := n5\<rparr>"
        by blast
      have "lacing_ok os5 0 (map dlace ds) (map d_gran ds)" "os_lacing_packet os5 = int (complete ds)"
        "os_lacing_fill os5 + int (length segs) \<le> os_lacing_storage os5"
        using ok3(2,3) s2(3) by (simp_all add: s5(5) lacing_ok_def ok3(4))
      from pagein_segs_ok [OF s5(3) this(1,2) dsmall small n(1) this(3), of b e g "os_pageno os"]
      obtain os6 where s6: "pagein_segs os5 b e g (os_pageno os) (seg_table segs) = Some (os6, 0)" "dec_ok os6 (ds @ recv b e g segs)"
        "os_pageno os6 = os_pageno os + 1" "os_serialno os6 = os_serialno os5" "os_packetno os6 = os_packetno os5"
        "os_body_storage os6 = os_body_storage os5" "os_lacing_storage os6 = os_lacing_storage os5"
        by blast
      have "ogg_stream_pagein mem os p = Some (os6, 0)" unfolding run Let_def s5(1) using s5(2) s6(1) by simp
      moreover have "os_body_storage os6 \<le> max (os_body_storage os) (int (length ?D) + 131074)"
        using s5(4) body3(2,3) B s6(6) by (simp add: max_def split: if_splits)
      moreover have "os_lacing_storage os6 \<le> max (os_lacing_storage os) (int (length ds) + 544)"
        using lac_room s6(7) by (simp add: s5(5))
      ultimately show ?thesis
        using s6(2-5) by (simp add: s5(5) ok3(4) s2(4) s1(3))
    next
      assume short: "(if ?B \<noteq> [] then os_body_expand mem os3 (int (length ?B)) else (os3, False)) = (ogg_stream_zero, True)
        \<and> (mem_fails mem \<or> os_body_storage os3 > LONG_MAX - int (length ?B))"
      then have "ogg_stream_pagein mem os p = Some (ogg_stream_zero, -1)" unfolding run Let_def by simp
      moreover have "pagein_short mem os" using short B body3(2) by (auto simp: pagein_short_def)
      ultimately show ?thesis by simp
    qed
  qed
qed

end
