(* ===== verification/OggStream.thy ===== *)
theory OggStream
  imports OggDecode
begin

unbundle bit_operations_syntax

text \<open>
  The layers of \<^verbatim>\<open>src/ogg123/src/framing.c\<close> together: an encoder that is given packets and asked for pages
  in any order of calls, a channel that delivers the bytes of the pages in pieces of any size, and a
  reader that finds the pages and takes the packets out of them, as the test at the end of
  \<^verbatim>\<open>framing.c\<close> does. The packets that come out are those that went in.
\<close>

section \<open>The encoder\<close>

datatype enc_cmd = PacketIn ogg_packet | PageOut | PageOutFill int | Flush | FlushFill int

fun page_cmd :: "enc_cmd \<Rightarrow> ogg_stream_state \<Rightarrow> (ogg_stream_state \<times> ogg_page option) option" where
  "page_cmd PageOut os = ogg_stream_pageout os"
| "page_cmd (PageOutFill n) os = ogg_stream_pageout_fill os n"
| "page_cmd (FlushFill n) os = ogg_stream_flush_fill os n"
| "page_cmd _ os = ogg_stream_flush os"

text \<open>The pages, and whether every packet was accepted.\<close>

fun enc_run :: "ogg_mem \<Rightarrow> ogg_stream_state \<Rightarrow> enc_cmd list \<Rightarrow> (ogg_stream_state \<times> ogg_page list \<times> bool) option" where
  "enc_run mem os [] = Some (os, [], True)"
| "enc_run mem os (c # cs) = (case c of
     PacketIn op \<Rightarrow> do {
       (os, ret) \<leftarrow> ogg_stream_packetin mem os op;
       if ret \<noteq> 0 then Some (os, [], False) else enc_run mem os cs }
   | _ \<Rightarrow> do {
       (os, pg) \<leftarrow> page_cmd c os;
       (os, pgs, ok) \<leftarrow> enc_run mem os cs;
       Some (os, (case pg of None \<Rightarrow> pgs | Some p \<Rightarrow> p # pgs), ok) })"

fun packets_in :: "enc_cmd list \<Rightarrow> ogg_packet list" where
  "packets_in [] = []"
| "packets_in (PacketIn op # cs) = op # packets_in cs"
| "packets_in (_ # cs) = packets_in cs"

text \<open>All segments of a list of packets.\<close>

fun stream_segs :: "64 word \<Rightarrow> ogg_packet list \<Rightarrow> segment list" where
  "stream_segs g [] = []"
| "stream_segs g (op # ops) = seg_list (op_packet op) g (op_granulepos op) @ stream_segs (op_granulepos op) ops"

text \<open>The pages with number \<open>i\<close> and up hold the given blocks of segments; the flag of a block says
  whether its page ends the stream. The initial page ends with the first packet.\<close>

definition page_at :: "32 word \<Rightarrow> nat \<Rightarrow> segment list \<Rightarrow> bool \<Rightarrow> ogg_page \<Rightarrow> bool" where
  "page_at serialno i ss e p \<longleftrightarrow> ss \<noteq> [] \<and> length ss \<le> 255 \<and> (\<forall>s \<in> set ss. length (seg_data s) \<le> 255)
     \<and> (i = 0 \<longrightarrow> (\<forall>s \<in> set (butlast ss). \<not> seg_short s))
     \<and> page_of (flag_byte (\<not> seg_first (hd ss)) (i = 0) e) (page_gran (i \<noteq> 0) ss) serialno (of_nat i) ss p"

fun paged :: "32 word \<Rightarrow> nat \<Rightarrow> (segment list \<times> bool) list \<Rightarrow> ogg_page list \<Rightarrow> bool" where
  "paged serialno i [] [] = True"
| "paged serialno i ((ss, e) # bs) (p # ps) = (page_at serialno i ss e p \<and> paged serialno (Suc i) bs ps)"
| "paged serialno i _ _ = False"

lemma paged_length: "paged serialno i bs ps \<Longrightarrow> length bs = length ps"
  by (induction serialno i bs ps rule: paged.induct) auto

lemma paged_nonempty: "paged serialno i bs ps \<Longrightarrow> b \<in> set bs \<Longrightarrow> fst b \<noteq> []"
  by (induction serialno i bs ps rule: paged.induct) (auto simp: page_at_def)

definition enc_at :: "ogg_stream_state \<Rightarrow> segment list \<Rightarrow> 32 word \<Rightarrow> nat \<Rightarrow> bool" where
  "enc_at os segs serialno i \<longleftrightarrow> enc_ok os segs \<and> os_serialno os = serialno \<and> os_bos os = (i \<noteq> 0) \<and> os_pageno os = of_nat i"

lemma page_cmd_step:
  assumes at: "enc_at os segs serialno i" and c: "\<nexists>op. c = PacketIn op" and i: "i < 2 ^ 32 - 1"
  shows "\<exists>os' pg. page_cmd c os = Some (os', pg) \<and> (case pg of
      None \<Rightarrow> os' = os
    | Some p \<Rightarrow> \<exists>k. 0 < k \<and> k \<le> length segs \<and> page_at serialno i (take k segs) (os_eos os \<and> k = length segs) p
        \<and> enc_at os' (drop k segs) serialno (Suc i) \<and> os_eos os' = os_eos os \<and> os_granulepos os' = os_granulepos os)"
proof -
  have ok: "enc_ok os segs" using at by (simp add: enc_at_def)
  obtain f where "flush_result os segs f (page_cmd c os)"
    using flush_results [OF ok] c by (cases c) auto
  then obtain os' pg where r: "page_cmd c os = Some (os', pg)"
    "case pg of None \<Rightarrow> os' = os \<and> (segs = [] \<or> \<not> f) | Some p \<Rightarrow> \<exists>k. flushed os segs k os' p"
    by (auto simp: flush_result_def)
  show ?thesis
  proof (cases pg)
    case None
    then show ?thesis using r by simp
  next
    case (Some p)
    then obtain k where fl: "flushed os segs k os' p" using r(2) by auto
    have k: "0 < k" "k \<le> 255" "k \<le> length segs" using fl by (auto simp: flushed_def)
    have neg: "(of_nat i :: 32 word) \<noteq> -1"
    proof
      assume "(of_nat i :: 32 word) = -1"
      then have "unat (of_nat i :: 32 word) = unat (-1 :: 32 word)" by simp
      moreover have "unat (of_nat i :: 32 word) = i" using i by (simp add: unat_of_nat)
      ultimately show False using i by (simp add: unsigned_minus_1_eq_mask mask_eq_exp_minus_1)
    qed
    have hd: "hd (take k segs) = hd segs" using k by (cases segs; cases k) auto
    have cut: "i = 0 \<longrightarrow> (\<forall>s \<in> set (butlast (take k segs)). \<not> seg_short s)"
    proof (intro impI ballI)
      fix s assume "i = 0" and s: "s \<in> set (butlast (take k segs))"
      then have "initial_cut segs k" using fl at by (simp add: flushed_def enc_at_def)
      moreover obtain j where "j < k - 1" "s = segs ! j"
        using s k by (auto simp: in_set_conv_nth nth_butlast min_absorb1)
      ultimately show "\<not> seg_short s" by (simp add: initial_cut_def)
    qed
    have "page_at serialno i (take k segs) (os_eos os \<and> k = length segs) p"
      using fl at k neg hd cut ok unfolding page_at_def
      by (auto simp: flushed_def enc_at_def enc_ok_def dest: in_set_takeD)
    moreover have "enc_at os' (drop k segs) serialno (Suc i)"
      using fl at neg by (simp add: flushed_def enc_at_def add.commute)
    ultimately show ?thesis using r(1) Some fl k by (auto simp: flushed_def)
  qed
qed

lemma stream_segs_Nil: "stream_segs g ops = [] \<Longrightarrow> ops = []"
  by (cases ops) (auto simp: seg_list_def Let_def)

text \<open>At most the last packet ends the stream.\<close>

fun eos_once :: "bool \<Rightarrow> enc_cmd list \<Rightarrow> bool" where
  "eos_once eos [] = True"
| "eos_once eos (PacketIn op # cs) = (\<not> eos \<and> eos_once (op_eos op) cs)"
| "eos_once eos (_ # cs) = eos_once eos cs"

lemma eos_once_True: "eos_once True cs \<Longrightarrow> packets_in cs = []"
proof (induction cs)
  case (Cons c cs)
  then show ?case by (cases c) auto
qed simp

definition eos_marks :: "(segment list \<times> bool) list \<Rightarrow> bool \<Rightarrow> bool" where
  "eos_marks bs e \<longleftrightarrow> (\<forall>b \<in> set (butlast bs). \<not> snd b) \<and> (bs \<noteq> [] \<longrightarrow> snd (List.last bs) = e)"

lemma page_cmd_other: "\<nexists>op. c = PacketIn op \<Longrightarrow> enc_run mem os (c # cs) = do {
       (os, pg) \<leftarrow> page_cmd c os;
       (os, pgs, ok) \<leftarrow> enc_run mem os cs;
       Some (os, (case pg of None \<Rightarrow> pgs | Some p \<Rightarrow> p # pgs), ok) } \<and> packets_in (c # cs) = packets_in cs
     \<and> eos_once e (c # cs) = eos_once e cs"
  by (cases c) auto

text \<open>However the calls are ordered, the pages hold the segments of the packets in order; what has not
  been put into a page is still in the queue.\<close>

definition enc_result :: "ogg_stream_state \<Rightarrow> ogg_page list \<Rightarrow> segment list \<Rightarrow> 32 word \<Rightarrow> nat \<Rightarrow> ogg_packet list \<Rightarrow> bool \<Rightarrow> 64 word \<Rightarrow> bool" where
  "enc_result os' pages segs serialno i ops eos g \<longleftrightarrow> (\<exists>segs' bs. enc_at os' segs' serialno (i + length pages)
     \<and> paged serialno i bs pages \<and> concat (map fst bs) @ segs' = segs @ stream_segs g ops
     \<and> os_eos os' = (eos \<or> (\<exists>op \<in> set ops. op_eos op)) \<and> (segs' = [] \<longrightarrow> eos_marks bs (os_eos os')))"

lemma enc_run_result:
  assumes "mem_ok mem" and "enc_at os segs serialno i" and "eos_once (os_eos os) cs" and "enc_run mem os cs = Some (os', pages, True)"
    and "i + length pages < 2 ^ 32 - 1"
  shows "enc_result os' pages segs serialno i (packets_in cs) (os_eos os) (os_granulepos os)"
  using assms(2-)
proof (induction cs arbitrary: os segs i pages)
  case Nil
  then show ?case
    unfolding enc_result_def by (intro exI [of _ segs] exI [of _ "[]"]) (simp add: eos_marks_def)
next
  case (Cons c cs)
  show ?case
  proof (cases "\<exists>op. c = PacketIn op")
    case True
    then obtain op where c: "c = PacketIn op" by blast
    have ok: "enc_ok os segs" using Cons.prems(1) by (simp add: enc_at_def)
    have eos: "\<not> os_eos os" "eos_once (op_eos op) cs" using Cons.prems(2) c by auto
    let ?new = "seg_list (op_packet op) (os_granulepos os) (op_granulepos op)"
    obtain os1 ret where r: "ogg_stream_packetin mem os op = Some (os1, ret)" using ogg_stream_packetin_ok [OF ok assms(1)] by blast
    then have ret: "ret = 0" "enc_run mem os1 cs = Some (os', pages, True)"
      using Cons.prems(3) c by (auto split: if_splits)
    have os1: "enc_ok os1 (segs @ ?new)" "os_bos os1 = os_bos os" "os_eos os1 = op_eos op" "os_pageno os1 = os_pageno os"
      "os_serialno os1 = os_serialno os" "os_granulepos os1 = op_granulepos op"
      using ogg_stream_packetin_ok [OF ok assms(1), of op] r ret(1) eos(1) by auto
    have at1: "enc_at os1 (segs @ ?new) serialno i" using Cons.prems(1) os1 by (simp add: enc_at_def)
    have "eos_once (os_eos os1) cs" using eos(2) os1(3) by simp
    from Cons.IH [OF at1 this ret(2) Cons.prems(4)]
    show ?thesis using os1(3,6) eos(1) by (simp add: enc_result_def c)
  next
    case False
    note other = page_cmd_other [OF False]
    have "i < 2 ^ 32 - 1" using Cons.prems(4) by simp
    from page_cmd_step [OF Cons.prems(1) False this]
    obtain os1 pg where r: "page_cmd c os = Some (os1, pg)"
      "case pg of None \<Rightarrow> os1 = os | Some p \<Rightarrow> \<exists>k. 0 < k \<and> k \<le> length segs \<and> page_at serialno i (take k segs) (os_eos os \<and> k = length segs) p
        \<and> enc_at os1 (drop k segs) serialno (Suc i) \<and> os_eos os1 = os_eos os \<and> os_granulepos os1 = os_granulepos os"
      by blast
    obtain pgs where pgs: "enc_run mem os1 cs = Some (os', pgs, True)" "pages = (case pg of None \<Rightarrow> pgs | Some p \<Rightarrow> p # pgs)"
      using Cons.prems(3) other [of mem os cs] r(1) by (auto split: bind_splits)
    have once: "eos_once (os_eos os) cs" using Cons.prems(2) other by simp
    show ?thesis
    proof (cases pg)
      case None
      then show ?thesis
        using Cons.IH [OF _ once, of segs i pgs] Cons.prems(1,4) r(2) pgs other by simp
    next
      case (Some p)
      then obtain k where k: "0 < k" "k \<le> length segs" "page_at serialno i (take k segs) (os_eos os \<and> k = length segs) p"
        "enc_at os1 (drop k segs) serialno (Suc i)" "os_eos os1 = os_eos os" "os_granulepos os1 = os_granulepos os"
        using r(2) by auto
      have "Suc i + length pgs < 2 ^ 32 - 1" using Cons.prems(4) pgs(2) Some by simp
      with Cons.IH [OF k(4) _ pgs(1)] once k(5)
      have "enc_result os' pgs (drop k segs) serialno (Suc i) (packets_in cs) (os_eos os) (os_granulepos os)"
        using k(6) by simp
      then obtain segs' bs where IH: "enc_at os' segs' serialno (Suc i + length pgs)" "paged serialno (Suc i) bs pgs"
        "concat (map fst bs) @ segs' = drop k segs @ stream_segs (os_granulepos os) (packets_in cs)"
        "os_eos os' = (os_eos os \<or> (\<exists>op \<in> set (packets_in cs). op_eos op))" "segs' = [] \<longrightarrow> eos_marks bs (os_eos os')"
        unfolding enc_result_def by blast
      let ?e = "os_eos os \<and> k = length segs"
      have marks: "eos_marks ((take k segs, ?e) # bs) (os_eos os')" if "segs' = []"
      proof (cases "bs = []")
        case True
        then have "drop k segs = []" "stream_segs (os_granulepos os) (packets_in cs) = []" using IH(3) that by auto
        then have "k = length segs" "packets_in cs = []"
          using k(2) stream_segs_Nil by auto
        then show ?thesis using True IH(4) by (simp add: eos_marks_def)
      next
        case False
        have "\<not> ?e"
        proof
          assume e: "?e"
          then have "packets_in cs = []" using eos_once_True once by metis
          then have "concat (map fst bs) = []" using IH(3) e that by simp
          moreover obtain b bs' where "bs = b # bs'" using False by (cases bs) auto
          ultimately show False using paged_nonempty [OF IH(2), of b] by simp
        qed
        then show ?thesis using IH(5) that False by (auto simp: eos_marks_def)
      qed
      have "paged serialno i ((take k segs, ?e) # bs) pages" using k(3) IH(2) pgs(2) Some by simp
      moreover have "concat (map fst ((take k segs, ?e) # bs)) @ segs' = segs @ stream_segs (os_granulepos os) (packets_in cs)"
        using IH(3) by simp
      moreover have "enc_at os' segs' serialno (i + length pages)" using IH(1) pgs(2) Some by simp
      moreover have "packets_in (c # cs) = packets_in cs" using other by blast
      moreover have "segs' = [] \<longrightarrow> eos_marks ((take k segs, ?e) # bs) (os_eos os')" using marks by simp
      ultimately show ?thesis
        unfolding enc_result_def using IH(4) by metis
    qed
  qed
qed

section \<open>The decoder\<close>

text \<open>Taking all complete packets; the fuel is the number of segments.\<close>

fun drain :: "nat \<Rightarrow> ogg_stream_state \<Rightarrow> (ogg_stream_state \<times> ogg_packet list) option" where
  "drain fuel os = do {
     (os, ret, op) \<leftarrow> ogg_stream_packetout os;
     if ret = 0 then Some (os, [])
     else (case fuel of 0 \<Rightarrow> None
       | Suc fuel \<Rightarrow> do {
           (os, ops) \<leftarrow> drain fuel os;
           Some (os, (case op of None \<Rightarrow> ops | Some p \<Rightarrow> p # ops)) }) }"

declare drain.simps [simp del]

text \<open>The pages at the head of the buffer: the fuel is the number of bytes. The result says whether there
  was no error.\<close>

fun read_pages :: "nat \<Rightarrow> ogg_mem \<Rightarrow> ogg_sync_state \<Rightarrow> ogg_stream_state \<Rightarrow>
    (ogg_sync_state \<times> ogg_stream_state \<times> ogg_packet list \<times> bool) option" where
  "read_pages fuel mem oy os = do {
     (oy, ret, og) \<leftarrow> ogg_sync_pageout oy;
     if ret = 0 then Some (oy, os, [], True)
     else (case fuel of 0 \<Rightarrow> None
       | Suc fuel \<Rightarrow> (case og of None \<Rightarrow> read_pages fuel mem oy os
         | Some p \<Rightarrow> do {
             (os, ret) \<leftarrow> ogg_stream_pagein mem os p;
             if ret \<noteq> 0 then Some (oy, os, [], False)
             else do {
               (os, ops) \<leftarrow> drain (nat (os_lacing_fill os)) os;
               (oy, os, ops', ok) \<leftarrow> read_pages fuel mem oy os;
               Some (oy, os, ops @ ops', ok) } })) }"

declare read_pages.simps [simp del]

text \<open>The bytes arrive in pieces.\<close>

fun demux :: "byte alloc \<Rightarrow> ogg_mem \<Rightarrow> ogg_sync_state \<Rightarrow> ogg_stream_state \<Rightarrow> byte list list \<Rightarrow>
    (ogg_sync_state \<times> ogg_stream_state \<times> ogg_packet list \<times> bool) option" where
  "demux al mem oy os [] = Some (oy, os, [], True)"
| "demux al mem oy os (xs # xss) = do {
     (oy, b) \<leftarrow> ogg_sync_buffer al oy (int (length xs));
     if \<not> b then Some (oy, os, [], False)
     else do {
       oy \<leftarrow> sync_store oy xs;
       let (oy, ret) = ogg_sync_wrote oy (int (length xs));
       if ret \<noteq> 0 then Some (oy, os, [], False)
       else do {
         (oy, os, ops, ok) \<leftarrow> read_pages (nat (sy_fill oy)) mem oy os;
         if \<not> ok then Some (oy, os, ops, False)
         else do {
           (oy, os, ops', ok) \<leftarrow> demux al mem oy os xss;
           Some (oy, os, ops @ ops', ok) } } } }"

section \<open>Segments and packets\<close>

text \<open>The segments of each complete packet, and those of the packet at the end that is not complete.\<close>

fun grp :: "dseg list \<Rightarrow> dseg list \<Rightarrow> dseg list list" where
  "grp acc [] = []"
| "grp acc (d # ds) = (if d_short d then (acc @ [d]) # grp [] ds else grp (acc @ [d]) ds)"

fun part :: "dseg list \<Rightarrow> dseg list \<Rightarrow> dseg list" where
  "part acc [] = acc"
| "part acc (d # ds) = (if d_short d then part [] ds else part (acc @ [d]) ds)"

lemma grp_append: "grp acc (xs @ ys) = grp acc xs @ grp (part acc xs) ys"
  by (induction xs arbitrary: acc) auto

lemma part_append: "part acc (xs @ ys) = part (part acc xs) ys"
  by (induction xs arbitrary: acc) auto

lemma grp_complete:
  "0 < complete ds \<Longrightarrow> grp acc ds = (acc @ take (first_len ds) ds) # grp [] (drop (first_len ds) ds)
     \<and> part acc ds = part [] (drop (first_len ds) ds)"
  by (induction ds arbitrary: acc) (auto split: if_splits)

lemma grp_incomplete: "complete ds = 0 \<Longrightarrow> grp acc ds = [] \<and> part acc ds = acc @ ds"
  by (induction ds arbitrary: acc) (auto split: if_splits)

lemma part_long: "\<forall>d \<in> set acc. \<not> d_short d \<Longrightarrow> \<forall>d \<in> set (part acc ds). \<not> d_short d"
proof (induction ds arbitrary: acc)
  case (Cons d ds)
  have "\<forall>d \<in> set (part [] ds). \<not> d_short d" by (rule Cons.IH) simp
  moreover have "\<forall>d \<in> set (part (acc @ [d]) ds). \<not> d_short d" if "\<not> d_short d"
    by (rule Cons.IH) (use Cons.prems that in auto)
  ultimately show ?case by (cases "d_short d") simp_all
qed simp

definition packet_of :: "nat \<Rightarrow> dseg list \<Rightarrow> ogg_packet" where
  "packet_of n ds = \<lparr>op_packet = concat (map d_data ds), op_bos = d_bos (hd ds), op_eos = (\<exists>d \<in> set ds. d_eos d),
     op_granulepos = d_gran (List.last ds), op_packetno = of_nat n\<rparr>"

fun packets_of :: "nat \<Rightarrow> dseg list list \<Rightarrow> ogg_packet list" where
  "packets_of n [] = []"
| "packets_of n (g # gs) = packet_of n g # packets_of (Suc n) gs"

lemma packets_of_append: "packets_of n (gs @ hs) = packets_of n gs @ packets_of (n + length gs) hs"
  by (induction gs arbitrary: n) auto

lemma length_packets_of [simp]: "length (packets_of n gs) = length gs"
  by (induction gs arbitrary: n) auto

lemma nth_packets_of: "i < length gs \<Longrightarrow> packets_of n gs ! i = packet_of (n + i) (gs ! i)"
  by (induction gs arbitrary: n i) (auto simp: nth_Cons split: nat.splits)

text \<open>What the decoder keeps: its expected page, its counter of packets, and buffers that have not grown
  near the end of the \<open>long\<close> range.\<close>

definition dec_at :: "ogg_stream_state \<Rightarrow> dseg list \<Rightarrow> 32 word \<Rightarrow> nat \<Rightarrow> nat \<Rightarrow> bool" where
  "dec_at os ds serialno i n \<longleftrightarrow> dec_ok os ds \<and> os_serialno os = serialno \<and> os_pageno os = of_nat i \<and> os_packetno os = of_nat n
     \<and> os_body_storage os \<le> 2000200000 \<and> os_lacing_storage os \<le> 2000200000"

lemma drain_result:
  assumes "dec_at os ds serialno i n" and "length ds \<le> fuel"
  shows "\<exists>os'. drain fuel os = Some (os', packets_of n (grp [] ds)) \<and> dec_at os' (part [] ds) serialno i (n + length (grp [] ds))"
  using assms
proof (induction fuel arbitrary: os ds n)
  case (0 os ds n)
  then have "ds = []" "complete ds = 0" by auto
  then show ?case
    using packetout_ok [of os ds] 0 by (simp add: drain.simps [of 0] dec_at_def)
next
  case (Suc fuel os ds n)
  have ok: "dec_ok os ds" using Suc.prems(1) by (simp add: dec_at_def)
  show ?case
  proof (cases "complete ds = 0")
    case True
    then show ?thesis
      using packetout_ok [OF ok] Suc.prems(1) grp_incomplete [OF True, of "[]"] by (simp add: drain.simps [of "Suc fuel"])
  next
    case False
    let ?k = "first_len ds"
    obtain os1 where r: "ogg_stream_packetout os = Some (os1, 1, Some (join os (take ?k ds)))"
      "dec_ok os1 (drop ?k ds)" "os_packetno os1 = os_packetno os + 1" "os_pageno os1 = os_pageno os" "os_serialno os1 = os_serialno os"
      "os_body_storage os1 = os_body_storage os" "os_lacing_storage os1 = os_lacing_storage os"
      using packetout_ok [OF ok] False by auto
    have j: "join os (take ?k ds) = packet_of n (take ?k ds)"
      using Suc.prems(1) by (simp add: join_def packet_of_def dec_at_def)
    have "dec_at os1 (drop ?k ds) serialno i (Suc n)"
      using r(2-7) Suc.prems(1) by (simp add: dec_at_def add.commute)
    moreover have "length (drop ?k ds) \<le> fuel" using first_len_le [of ds] False Suc.prems(2) by auto
    ultimately obtain os' where "drain fuel os1 = Some (os', packets_of (Suc n) (grp [] (drop ?k ds)))"
      "dec_at os' (part [] (drop ?k ds)) serialno i (Suc n + length (grp [] (drop ?k ds)))"
      using Suc.IH by blast
    then show ?thesis
      using r(1) j grp_complete [of ds "[]"] False by (simp add: drain.simps [of "Suc fuel"])
  qed
qed

text \<open>What the decoder gets from the pages with number \<open>i\<close> and up.\<close>

fun recvs :: "nat \<Rightarrow> (segment list \<times> bool) list \<Rightarrow> dseg list" where
  "recvs i [] = []"
| "recvs i ((ss, e) # bs) = recv (i = 0) e (page_gran (i \<noteq> 0) ss) ss @ recvs (Suc i) bs"

lemma recvs_data: "map d_data (recvs i bs) = map seg_data (concat (map fst bs))"
  by (induction i bs rule: recvs.induct) auto

lemma recvs_append: "recvs i (bs @ cs) = recvs i bs @ recvs (i + length bs) cs"
  by (induction i bs rule: recvs.induct) auto

text \<open>A segment starts a packet just when the one before it ended one.\<close>

fun marked :: "bool \<Rightarrow> segment list \<Rightarrow> bool" where
  "marked b [] = True"
| "marked b (s # ss) = (seg_first s = b \<and> marked (seg_short s) ss)"

lemma marked_append: "marked b (xs @ ys) \<Longrightarrow> xs \<noteq> [] \<Longrightarrow> marked (seg_short (List.last xs)) ys"
  by (induction xs arbitrary: b) (auto split: if_splits)

lemma marked_packet:
  assumes "ss \<noteq> []" and "\<forall>s \<in> set (butlast ss). \<not> seg_short s" and "seg_short (List.last ss)"
    and "\<forall>s \<in> set (tl ss). \<not> seg_first s" and "marked True rest"
  shows "marked (seg_first (hd ss)) (ss @ rest)"
  using assms
proof (induction ss)
  case (Cons s ss)
  show ?case
  proof (cases ss)
    case Nil
    then show ?thesis using Cons.prems by simp
  next
    case (Cons s' ss')
    then have "marked (seg_first (hd ss)) (ss @ rest)" using Cons.prems Cons.IH by auto
    then show ?thesis using Cons Cons.prems by auto
  qed
qed simp

lemma part_Nil: "ds \<noteq> [] \<Longrightarrow> part acc ds = [] \<longleftrightarrow> d_short (List.last ds)"
proof (induction ds arbitrary: acc)
  case (Cons d ds)
  then show ?case by (cases "ds = []") auto
qed simp

lemma grp_long:
  assumes "\<forall>d \<in> set acc. \<not> d_short d"
  shows "grp [] (acc @ ds) = grp acc ds" and "part [] (acc @ ds) = part acc ds"
  using assms complete_0 [of acc] grp_incomplete [of acc "[]"] by (simp_all add: grp_append part_append)

lemma part_size: "length (concat (map d_data (part acc ds))) \<le> length (concat (map d_data acc)) + length (concat (map d_data ds))"
proof (induction ds arbitrary: acc)
  case (Cons d ds)
  show ?case using Cons.IH [of "[]"] Cons.IH [of "acc @ [d]"] by (cases "d_short d") simp_all
qed simp

lemma long_length: "\<forall>d \<in> set ds. \<not> d_short d \<Longrightarrow> length ds \<le> length (concat (map d_data ds))"
  by (induction ds) auto

lemma last_recv: "segs \<noteq> [] \<Longrightarrow> d_data (List.last (recv b e g segs)) = seg_data (List.last segs)"
  using arg_cong [OF recv_data(1) [of b e g segs], of List.last] recv_data(2) [of b e g segs]
  by (metis last_map length_0_conv)

text \<open>One page.\<close>

lemma page_at_pagein:
  assumes at: "dec_at os ds serialno i n" and mem: "mem_ok mem" "\<not> mem_fails mem" and pg: "page_at serialno i ss e p"
    and cont: "seg_first (hd ss) = (ds = [])" and long: "\<forall>d \<in> set ds. \<not> d_short d"
    and size: "length (concat (map d_data ds)) \<le> 2000000000"
  defines "D \<equiv> recv (i = 0) e (page_gran (i \<noteq> 0) ss) ss"
  shows "\<exists>os1 os2. ogg_stream_pagein mem os p = Some (os1, 0)
    \<and> drain (nat (os_lacing_fill os1)) os1 = Some (os2, packets_of n (grp ds D))
    \<and> dec_at os2 (part ds D) serialno (Suc i) (n + length (grp ds D))"
proof -
  have ok: "dec_ok os ds" "os_serialno os = serialno" "os_pageno os = of_nat i" "os_packetno os = of_nat n"
    "os_body_storage os \<le> 2000200000" "os_lacing_storage os \<le> 2000200000"
    using at by (simp_all add: dec_at_def)
  have p: "ss \<noteq> []" "length ss \<le> 255" "\<forall>s \<in> set ss. length (seg_data s) \<le> 255"
    "page_of (flag_byte (\<not> seg_first (hd ss)) (i = 0) e) (page_gran (i \<noteq> 0) ss) (os_serialno os) (os_pageno os) ss p"
    using pg ok(2,3) by (simp_all add: page_at_def)
  have "\<not> pagein_short mem os" using mem(2) ok(5,6) by (simp add: pagein_short_def LONG_MAX_def)
  moreover have "\<not> seg_first (hd ss) \<Longrightarrow> ds \<noteq> []" using cont by simp
  ultimately obtain os1 where r: "ogg_stream_pagein mem os p = Some (os1, 0)" "dec_ok os1 (ds @ D)"
    "os_pageno os1 = os_pageno os + 1" "os_serialno os1 = os_serialno os" "os_packetno os1 = os_packetno os"
    "os_body_storage os1 \<le> max (os_body_storage os) (int (length (concat (map d_data ds))) + 131074)"
    "os_lacing_storage os1 \<le> max (os_lacing_storage os) (int (length ds) + 544)"
    using ogg_stream_pagein_ok [OF ok(1) mem(1) p(4,1,2,3)] unfolding D_def by blast
  have "int (length ds) \<le> 2000000000" using long_length [OF long] size by linarith
  then have "dec_at os1 (ds @ D) serialno (Suc i) n"
    using r(2-7) ok(2-6) size by (auto simp: dec_at_def add.commute max_def split: if_splits)
  moreover have "length (ds @ D) \<le> nat (os_lacing_fill os1)"
    using r(2) by (auto simp: dec_ok_def lacing_ok_def)
  ultimately show ?thesis
    using drain_result [of os1 "ds @ D" serialno "Suc i" n] r(1) grp_long [OF long] by simp
qed

lemma paged_drop: "paged serialno i bs pgs \<Longrightarrow> paged serialno (i + k) (drop k bs) (drop k pgs)"
proof (induction serialno i bs pgs arbitrary: k rule: paged.induct)
  case (2 serialno i ss e bs p ps)
  then show ?case by (cases k) auto
qed auto

lemma page_at_wf: "page_at serialno i ss e p \<Longrightarrow> page_wf p"
  using page_of_wf by (auto simp: page_at_def)

lemma page_at_body: "page_at serialno i ss e p \<Longrightarrow> length (all_data ss) < length (page_bytes p)"
  using page_at_wf [of serialno i ss e p] by (auto simp: page_at_def page_of_def page_bytes_def page_wf_def)

lemma scan_Wait: "seek xs = Wait \<Longrightarrow> scan u xs = (0, None, u, xs)"
  by (simp add: scan.simps [of _ xs])

lemma scan_page: "page_wf p \<Longrightarrow> scan u (page_bytes p @ zs) = (1, Some p, False, zs)"
  by (simp add: scan.simps [of _ "page_bytes p @ zs"] seek_page)

text \<open>What is read of the pages whose bytes are in the buffer.\<close>

definition read_result :: "ogg_sync_state \<Rightarrow> byte list \<Rightarrow> ogg_page list \<Rightarrow> (segment list \<times> bool) list \<Rightarrow> dseg list \<Rightarrow> 32 word \<Rightarrow> nat \<Rightarrow> nat \<Rightarrow> nat \<Rightarrow>
    (ogg_sync_state \<times> ogg_stream_state \<times> ogg_packet list \<times> bool) option \<Rightarrow> bool" where
  "read_result oy ys pgs bs ds serialno i n k res \<longleftrightarrow> (let D = recvs i (take k bs) in k \<le> length pgs \<and>
     (\<exists>oy' os' xs. res = Some (oy', os', packets_of n (grp ds D), True) \<and> sync_ok oy' xs \<and> \<not> sy_unsynced oy' \<and> seek xs = Wait
        \<and> xs @ ys = concat (map page_bytes (drop k pgs)) \<and> dec_at os' (part ds D) serialno (i + k) (n + length (grp ds D))
        \<and> sy_storage oy' = sy_storage oy))"

definition budget :: "dseg list \<Rightarrow> ogg_page list \<Rightarrow> bool" where
  "budget ds pgs \<longleftrightarrow> length (concat (map d_data ds)) + length (concat (map page_bytes pgs)) \<le> 2000000000"

definition pending :: "dseg list \<Rightarrow> (segment list \<times> bool) list \<Rightarrow> ogg_page list \<Rightarrow> bool" where
  "pending ds bs pgs \<longleftrightarrow> (\<forall>d \<in> set ds. \<not> d_short d) \<and> marked (ds = []) (concat (map fst bs)) \<and> budget ds pgs"

lemma pending_page:
  assumes "pending ds ((ss, e) # bs) (p # pgs)" and pg: "page_at serialno i ss e p" and "D = recv b e g ss"
  shows "seg_first (hd ss) = (ds = [])" and "length (concat (map d_data ds)) \<le> 2000000000" and "pending (part ds D) bs pgs"
proof -
  have ss: "ss \<noteq> []" using pg by (simp add: page_at_def)
  have m: "marked (ds = []) (ss @ concat (map fst bs))" using assms(1) by (simp add: pending_def)
  then show "seg_first (hd ss) = (ds = [])" using ss by (cases ss) auto
  show "length (concat (map d_data ds)) \<le> 2000000000" using assms(1) by (simp add: pending_def budget_def)
  have "D \<noteq> []" using assms(3) ss recv_data(2) [of b e g ss] by (metis length_0_conv)
  then have "part ds D = [] \<longleftrightarrow> seg_short (List.last ss)" using part_Nil [of D ds] last_recv [OF ss] assms(3) by simp
  moreover have "marked (seg_short (List.last ss)) (concat (map fst bs))" by (rule marked_append [OF m ss])
  moreover have "length (concat (map d_data D)) < length (page_bytes p)" using page_at_body [OF pg] assms(3) by simp
  ultimately show "pending (part ds D) bs pgs"
    using assms(1) part_long [of ds D] part_size [of ds D] by (simp add: pending_def budget_def)
qed

lemma read_pages_result:
  assumes "mem_ok mem" and "\<not> mem_fails mem"
  shows "\<lbrakk>sync_ok oy xs; \<not> sy_unsynced oy; xs @ ys = concat (map page_bytes pgs); paged serialno i bs pgs; dec_at os ds serialno i n;
    pending ds bs pgs; length xs \<le> fuel\<rbrakk>
    \<Longrightarrow> \<exists>k. read_result oy ys pgs bs ds serialno i n k (read_pages fuel mem oy os) \<and> pending (part ds (recvs i (take k bs))) (drop k bs) (drop k pgs)"
proof (induction pgs arbitrary: fuel oy xs os ds i n bs)
  case Nil
  then have xs: "xs = []" "ys = []" "bs = []" by (auto elim: paged.elims)
  have "seek xs = Wait" by (simp add: xs seek_def)
  then show ?case
    using ogg_sync_pageout_result [OF Nil.prems(1)] Nil.prems scan_Wait [of xs "sy_unsynced oy"] xs
    by (intro exI [of _ 0]) (auto simp: read_result_def read_pages.simps [of fuel])
next
  case (Cons p pgs)
  obtain ss e bs' where bs: "bs = (ss, e) # bs'" and pg: "page_at serialno i ss e p" and rest: "paged serialno (Suc i) bs' pgs"
    using Cons.prems(4) by (cases "(serialno, i, bs, p # pgs)" rule: paged.cases) auto
  have wf: "page_wf p" by (rule page_at_wf [OF pg])
  show ?case
  proof (cases "length xs < length (page_bytes p)")
    case True
    then have "page_bytes p = xs @ drop (length xs) (page_bytes p)"
      using Cons.prems(3) by (metis append_eq_append_conv_if append_take_drop_id less_imp_le_nat list.simps(9) concat.simps(2))
    then have "seek xs = Wait" by (rule seek_prefix [OF wf]) (use True in simp)
    then show ?thesis
      using ogg_sync_pageout_result [OF Cons.prems(1)] Cons.prems scan_Wait [of xs "sy_unsynced oy"]
      by (intro exI [of _ 0]) (auto simp: read_result_def read_pages.simps [of fuel])
  next
    case False
    let ?n = "length (page_bytes p)"
    have "take ?n xs = page_bytes p"
      using arg_cong [OF Cons.prems(3), of "take ?n"] False by simp
    then have "xs = page_bytes p @ drop ?n xs" using append_take_drop_id [of ?n xs] by simp
    then obtain zs where xs: "xs = page_bytes p @ zs" by blast
    then have zs: "zs @ ys = concat (map page_bytes pgs)" using Cons.prems(3) by simp
    have "page_bytes p \<noteq> []" using wf by (auto simp: page_wf_def page_bytes_def)
    then obtain f where f: "fuel = Suc f" "length zs \<le> f" using Cons.prems(7) xs by (cases fuel) (auto simp: Suc_le_eq neq_Nil_conv)
    obtain oy1 where oy1: "ogg_sync_pageout oy = Some (oy1, 1, Some p)" "sync_ok oy1 zs" "\<not> sy_unsynced oy1" "sy_storage oy1 = sy_storage oy"
      using ogg_sync_pageout_result [OF Cons.prems(1)] scan_page [OF wf, of "sy_unsynced oy" zs] xs by auto
    let ?D = "recv (i = 0) e (page_gran (i \<noteq> 0) ss) ss"
    have pd: "pending ds ((ss, e) # bs') (p # pgs)" using Cons.prems(6) bs by simp
    note pend = pending_page [OF pd pg refl]
    have long: "\<forall>d \<in> set ds. \<not> d_short d" using pd by (simp add: pending_def)
    obtain os1 os2 where r: "ogg_stream_pagein mem os p = Some (os1, 0)"
      "drain (nat (os_lacing_fill os1)) os1 = Some (os2, packets_of n (grp ds ?D))"
      "dec_at os2 (part ds ?D) serialno (Suc i) (n + length (grp ds ?D))"
      using page_at_pagein [OF Cons.prems(5) assms pg pend(1) long pend(2)] by blast
    from Cons.IH [OF oy1(2,3) zs rest r(3) pend(3) f(2)]
    obtain k where k: "read_result oy1 ys pgs bs' (part ds ?D) serialno (Suc i) (n + length (grp ds ?D)) k (read_pages f mem oy1 os2)"
      "pending (part (part ds ?D) (recvs (Suc i) (take k bs'))) (drop k bs') (drop k pgs)"
      by blast
    have "read_result oy ys (p # pgs) bs ds serialno i n (Suc k) (read_pages fuel mem oy os)"
      using k(1) oy1(1,4) r(1,2) f(1)
      by (auto simp: read_result_def Let_def read_pages.simps [of "Suc f"] bs grp_append part_append packets_of_append add.assoc)
    then show ?thesis using k(2) bs by (intro exI [of _ "Suc k"]) (simp add: part_append)
  qed
qed

text \<open>All pieces.\<close>

definition al_total :: "byte alloc \<Rightarrow> bool" where
  "al_total al \<longleftrightarrow> alloc_ok al \<and> (\<forall>n. al n \<noteq> None)"

lemma demux_result:
  assumes "mem_ok mem" and "\<not> mem_fails mem" and "al_total al"
  shows "\<lbrakk>sync_ok oy xs; \<not> sy_unsynced oy; seek xs = Wait; xs @ concat xss = concat (map page_bytes pgs); [] \<notin> set xss;
    paged serialno i bs pgs; dec_at os ds serialno i n; pending ds bs pgs\<rbrakk>
    \<Longrightarrow> \<exists>oy' os'. demux al mem oy os xss = Some (oy', os', packets_of n (grp ds (recvs i bs)), True)
      \<and> dec_at os' (part ds (recvs i bs)) serialno (i + length pgs) (n + length (grp ds (recvs i bs)))"
proof (induction xss arbitrary: oy xs os ds i n bs pgs)
  case Nil
  have "pgs = []"
  proof (cases pgs)
    case (Cons p pgs')
    then obtain ss e where "page_at serialno i ss e p" using Nil.prems(6) by (cases "(serialno, i, bs, pgs)" rule: paged.cases) auto
    then have "page_wf p" by (rule page_at_wf)
    then have "seek xs = Page p" using seek_page [of p "concat (map page_bytes pgs')"] Nil.prems(4) Cons by simp
    then show ?thesis using Nil.prems(3) by simp
  qed simp
  then have "bs = []" using paged_length [OF Nil.prems(6)] by simp
  then show ?case using Nil.prems(7) \<open>pgs = []\<close> by simp
next
  case (Cons ys xss)
  have al: "alloc_ok al" "\<And>n. al n \<noteq> None" using assms(3) by (auto simp: al_total_def)
  have ne: "ys \<noteq> []" "[] \<notin> set xss" using Cons.prems(5) by auto
  obtain oy1 where b: "ogg_sync_buffer al oy (int (length ys)) = Some (oy1, True)" "sync_ok oy1 xs"
    "sy_fill oy1 + int (length ys) \<le> sy_storage oy1" "\<not> sy_unsynced oy1"
    using ogg_sync_buffer_ok [OF Cons.prems(1) al(1) of_nat_0_le_iff [of "length ys"]] Cons.prems(2)
      al(2) [of "int (length ys) + int (length xs) + 4096"] by auto
  have "0 < sy_storage oy1" using b(2,3) ne(1) by (cases ys) (auto simp: sync_ok_def)
  then obtain oy2 oy3 where s: "sync_store oy1 ys = Some oy2" "ogg_sync_wrote oy2 (int (length ys)) = (oy3, 0)"
    "sync_ok oy3 (xs @ ys)" "\<not> sy_unsynced oy3"
    using sync_store_ok [OF b(2,3)] b(4) by auto
  have all: "(xs @ ys) @ concat xss = concat (map page_bytes pgs)" using Cons.prems(4) by simp
  have fuel: "length (xs @ ys) \<le> nat (sy_fill oy3)" using s(3) by (auto simp: sync_ok_def)
  from read_pages_result [OF assms(1,2) s(3,4) all Cons.prems(6,7,8) fuel]
  obtain k where k: "read_result oy3 (concat xss) pgs bs ds serialno i n k (read_pages (nat (sy_fill oy3)) mem oy3 os)"
    "pending (part ds (recvs i (take k bs))) (drop k bs) (drop k pgs)" by blast
  let ?D = "recvs i (take k bs)"
  obtain oy4 os4 zs where r: "k \<le> length pgs" "read_pages (nat (sy_fill oy3)) mem oy3 os = Some (oy4, os4, packets_of n (grp ds ?D), True)"
    "sync_ok oy4 zs" "\<not> sy_unsynced oy4" "seek zs = Wait" "zs @ concat xss = concat (map page_bytes (drop k pgs))"
    "dec_at os4 (part ds ?D) serialno (i + k) (n + length (grp ds ?D))"
    using k(1) by (auto simp: read_result_def Let_def)
  have "paged serialno (i + k) (drop k bs) (drop k pgs)" by (rule paged_drop [OF Cons.prems(6)])
  from Cons.IH [OF r(3-6) ne(2) this r(7) k(2)]
  obtain oy5 os5 where i: "demux al mem oy4 os4 xss = Some (oy5, os5, packets_of (n + length (grp ds ?D)) (grp (part ds ?D) (recvs (i + k) (drop k bs))), True)"
    "dec_at os5 (part (part ds ?D) (recvs (i + k) (drop k bs))) serialno (i + k + length (drop k pgs))
      (n + length (grp ds ?D) + length (grp (part ds ?D) (recvs (i + k) (drop k bs))))" by blast
  have len: "length (take k bs) = k" using r(1) paged_length [OF Cons.prems(6)] by simp
  have split: "recvs i bs = ?D @ recvs (i + k) (drop k bs)"
    using recvs_append [of i "take k bs" "drop k bs"] len by simp
  have "demux al mem oy os (ys # xss) = Some (oy5, os5, packets_of n (grp ds (recvs i bs)), True)"
    using b(1) s(1,2) r(2) i(1) by (simp add: split grp_append packets_of_append)
  moreover have "dec_at os5 (part ds (recvs i bs)) serialno (i + length pgs) (n + length (grp ds (recvs i bs)))"
    using i(2) r(1) by (simp add: split grp_append part_append add.assoc)
  ultimately show ?case by blast
qed

section \<open>The packets that come out\<close>

lemma chunks_shape: "(\<forall>c \<in> set (butlast (chunks p)). length c = 255) \<and> length (List.last (chunks p)) < 255"
proof (induction p rule: chunks.induct)
  case (1 p)
  show ?case
  proof (cases "length p < 255")
    case True
    then show ?thesis by (simp add: chunks.simps [of p])
  next
    case False
    then have c: "chunks p = take 255 p # chunks (drop 255 p)" by (simp add: chunks.simps [of p])
    have "length (take 255 p) = 255" using False by simp
    then show ?thesis using 1 [OF False] unfolding c by auto
  qed
qed

fun seg_lists :: "64 word \<Rightarrow> ogg_packet list \<Rightarrow> segment list list" where
  "seg_lists g [] = []"
| "seg_lists g (op # ops) = seg_list (op_packet op) g (op_granulepos op) # seg_lists (op_granulepos op) ops"

lemma stream_segs_concat: "stream_segs g ops = concat (seg_lists g ops)"
  by (induction g ops rule: stream_segs.induct) auto

lemma length_seg_lists [simp]: "length (seg_lists g ops) = length ops"
  by (induction g ops rule: seg_lists.induct) auto

text \<open>The shape of the segments of one packet.\<close>

definition packet_shape :: "segment list \<Rightarrow> bool" where
  "packet_shape ss \<longleftrightarrow> ss \<noteq> [] \<and> (\<forall>s \<in> set (butlast ss). \<not> seg_short s) \<and> seg_short (List.last ss)"

lemma seg_list_nonempty [simp]: "seg_list p g0 g \<noteq> []"
  using length_seg_list [of p g0 g] by auto

lemma seg_list_shape: "packet_shape (seg_list p g0 g)"
proof -
  let ?ss = "seg_list p g0 g"
  have "map (length \<circ> seg_data) (butlast ?ss) = map length (butlast (chunks p))"
    using arg_cong [OF seg_list_data [of p g0 g], of "\<lambda>cs. map length (butlast cs)"] by (simp add: map_butlast)
  then have "\<forall>s \<in> set (butlast ?ss). length (seg_data s) = 255"
    using chunks_shape [of p] by (metis (no_types, lifting) comp_apply image_eqI image_iff list.set_map)
  moreover have "length (seg_data (List.last ?ss)) = length (List.last (chunks p))"
    by (metis last_map seg_list_data seg_list_nonempty)
  ultimately show ?thesis using chunks_shape [of p] by (simp add: packet_shape_def)
qed

lemma seg_list_last: "seg_gran (List.last (seg_list p g0 g)) = g"
  by (metis last_map last_snoc map_gran_seg_list seg_list_nonempty)

lemma seg_list_marks: "seg_first (hd (seg_list p g0 g))" "\<forall>s \<in> set (tl (seg_list p g0 g)). \<not> seg_first s"
proof -
  obtain s ss where ss: "seg_list p g0 g = s # ss" using seg_list_nonempty by (cases "seg_list p g0 g") auto
  then have "seg_first s" "map seg_first ss = replicate (length p div 255) False"
    using seg_list_first [of p g0 g] by auto
  then have "\<forall>x \<in> set ss. \<not> seg_first x" by (metis image_eqI in_set_replicate list.set_map)
  with ss \<open>seg_first s\<close> show "seg_first (hd (seg_list p g0 g))" "\<forall>s \<in> set (tl (seg_list p g0 g)). \<not> seg_first s" by simp_all
qed

lemma marked_stream: "marked True (stream_segs g ops)"
proof (induction g ops rule: stream_segs.induct)
  case (2 g op ops)
  let ?ss = "seg_list (op_packet op) g (op_granulepos op)"
  have "marked (seg_first (hd ?ss)) (?ss @ stream_segs (op_granulepos op) ops)"
    using marked_packet [of ?ss] seg_list_shape [of "op_packet op" g "op_granulepos op"] seg_list_marks(2) 2
    by (simp add: packet_shape_def)
  then show ?case by (simp add: seg_list_marks(1))
qed simp

text \<open>Segments that correspond to those of packets are grouped to these packets.\<close>

lemma grp_packet:
  "list_all2 (\<lambda>d s. d_data d = seg_data s) D ss \<Longrightarrow> packet_shape ss \<Longrightarrow> grp acc (D @ E) = (acc @ D) # grp [] E \<and> part acc (D @ E) = part [] E"
proof (induction D ss arbitrary: acc rule: list_all2_induct)
  case Nil
  then show ?case by (simp add: packet_shape_def)
next
  case (Cons d D s ss)
  show ?case
  proof (cases "ss = []")
    case True
    then show ?thesis using Cons by (simp add: packet_shape_def)
  next
    case False
    then have "packet_shape ss" "\<not> d_short d" using Cons.prems Cons.hyps(1) by (auto simp: packet_shape_def)
    then show ?thesis using Cons.IH by simp
  qed
qed

lemma grp_packets:
  assumes "\<And>d s. R d s \<Longrightarrow> d_data d = seg_data s"
  shows "list_all2 R D (concat Ss) \<Longrightarrow> \<forall>ss \<in> set Ss. packet_shape ss \<Longrightarrow>
    list_all2 (list_all2 R) (grp [] D) Ss \<and> D = concat (grp [] D) \<and> part [] D = []"
proof (induction Ss arbitrary: D)
  case (Cons ss Ss)
  obtain D1 D2 where D: "D = D1 @ D2" "list_all2 R D1 ss" "list_all2 R D2 (concat Ss)"
    using Cons.prems(1) by (auto simp: list_all2_append2)
  have "list_all2 (\<lambda>d s. d_data d = seg_data s) D1 ss" by (rule list_all2_mono [OF D(2)]) (rule assms)
  then show ?case
    using grp_packet [of D1 ss "[]" D2] Cons.IH [OF D(3)] Cons.prems(2) D(1,2) by simp
qed simp

text \<open>The marks and positions on what is received.\<close>

lemma last_gran_complete:
  "last_gran g0 ss = (if complete (fresh b ss) = 0 then g0 else seg_gran (ss ! (complete (fresh b ss) - 1)))"
proof (induction ss arbitrary: g0 b)
  case (Cons s ss)
  show ?case unfolding last_gran.simps Cons [where b = False] by auto
qed simp

lemma complete_last: "ds \<noteq> [] \<Longrightarrow> d_short (List.last ds) \<Longrightarrow> complete ds = length ds"
proof (induction ds)
  case (Cons d ds)
  then show ?case by (cases "ds = []") auto
qed simp

definition from_seg :: "bool \<Rightarrow> dseg \<Rightarrow> segment \<Rightarrow> bool" where
  "from_seg initial d s \<longleftrightarrow> d_data d = seg_data s \<and> (d_gran d = -1 \<or> d_gran d = (if initial then 0 else seg_gran s))"

lemma recv_from_seg: "list_all2 (from_seg z) (recv b e (page_gran (\<not> z) ss) ss) ss"
proof -
  let ?g = "page_gran (\<not> z) ss"
  have "from_seg z (recv b e ?g ss ! j) (ss ! j)" if j: "j < length ss" for j
  proof -
    have "d_data (recv b e ?g ss ! j) = seg_data (ss ! j)"
      using j recv_data [of b e ?g ss] by (metis nth_map)
    moreover have "map d_gran (recv b e ?g ss) = (if complete (fresh b ss) = 0 then replicate (length ss) (-1)
        else (replicate (length ss) (-1))[complete (fresh b ss) - 1 := ?g])"
      by (simp add: recv_def Let_def set_gran_gran fresh_gran)
    then have "d_gran (recv b e ?g ss ! j) = (if complete (fresh b ss) = 0 then replicate (length ss) (-1)
        else (replicate (length ss) (-1))[complete (fresh b ss) - 1 := ?g]) ! j"
      using j by (simp flip: nth_map [of j _ d_gran] del: nth_map)
    then have "d_gran (recv b e ?g ss ! j) = (if complete (fresh b ss) \<noteq> 0 \<and> complete (fresh b ss) - 1 = j then ?g else -1)"
      using j by (cases "complete (fresh b ss) - 1 = j") (auto simp: nth_list_update_neq)
    moreover have "complete (fresh b ss) \<noteq> 0 \<Longrightarrow> ?g = (if z then 0 else seg_gran (ss ! (complete (fresh b ss) - 1)))"
      using last_gran_complete [of "-1" ss b] by (simp add: page_gran_def)
    ultimately show ?thesis by (auto simp: from_seg_def)
  qed
  then show ?thesis by (simp add: list_all2_conv_all_nth)
qed

lemma recvs_from_seg: "0 < i \<Longrightarrow> list_all2 (from_seg False) (recvs i bs) (concat (map fst bs))"
proof (induction i bs rule: recvs.induct)
  case (2 i ss e bs)
  then show ?case using recv_from_seg [of False False e ss] by (simp add: list_all2_appendI)
qed simp

lemma fresh_flags: "map d_eos (fresh b ss) = replicate (length ss) False"
  "ss \<noteq> [] \<Longrightarrow> map d_bos (fresh b ss) = b # replicate (length ss - 1) False"
proof -
  show "map d_eos (fresh b ss) = replicate (length ss) False" by (induction ss arbitrary: b) auto
  have "map d_bos (fresh False ss) = replicate (length ss) False" for ss by (induction ss) auto
  then show "ss \<noteq> [] \<Longrightarrow> map d_bos (fresh b ss) = b # replicate (length ss - 1) False" by (cases ss) auto
qed

lemma set_gran_flags: "map d_bos (set_gran g ds) = map d_bos ds" "map d_eos (set_gran g ds) = map d_eos ds"
  unfolding set_gran_def by (auto intro!: map_update_same dest: complete_index)

lemma mark_eos_flags: "map d_bos (mark_eos ds) = map d_bos ds" "map d_eos (mark_eos ds) = (map d_eos ds)[length ds - 1 := True]"
proof -
  show "map d_bos (mark_eos ds) = map d_bos ds"
    unfolding mark_eos_def by (cases "ds = []") (auto intro!: map_update_same)
  show "map d_eos (mark_eos ds) = (map d_eos ds)[length ds - 1 := True]"
    by (simp add: mark_eos_def map_update)
qed

lemma recv_Nil [simp]: "recv b e g ss = [] \<longleftrightarrow> ss = []"
  by (metis length_0_conv recv_data(2))

lemma recvs_nonempty: "\<forall>b \<in> set bs. fst b \<noteq> [] \<Longrightarrow> bs \<noteq> [] \<Longrightarrow> recvs i bs \<noteq> []"
  by (cases bs) auto

lemma replicate_update_last: "(replicate (Suc n) y)[n := x] = replicate n y @ [x]"
  by (induction n) auto

lemma replicate_join: "replicate n y @ [y] @ replicate m y = replicate (Suc n + m) y"
  by (induction n) auto

lemma recv_flags:
  assumes "ss \<noteq> []"
  shows "map d_bos (recv b e g ss) = b # replicate (length ss - 1) False"
    and "map d_eos (recv b e g ss) = replicate (length ss - 1) False @ [e]"
proof -
  show "map d_bos (recv b e g ss) = b # replicate (length ss - 1) False"
    using fresh_flags(2) [OF assms] by (simp add: recv_def Let_def set_gran_flags mark_eos_flags)
  obtain n where n: "length ss = Suc n" using assms by (cases ss) auto
  show "map d_eos (recv b e g ss) = replicate (length ss - 1) False @ [e]"
    using replicate_update_last [of n False True] replicate_join [of n False 0] n
    by (cases e) (simp_all add: recv_def Let_def set_gran_flags mark_eos_flags fresh_flags(1))
qed

lemma recvs_bos:
  assumes "\<forall>b \<in> set bs. fst b \<noteq> []"
  shows "0 < i \<Longrightarrow> map d_bos (recvs i bs) = replicate (length (recvs i bs)) False"
    and "bs \<noteq> [] \<Longrightarrow> map d_bos (recvs 0 bs) = True # replicate (length (recvs 0 bs) - 1) False"
proof -
  have later: "0 < i \<Longrightarrow> map d_bos (recvs i bs) = replicate (length (recvs i bs)) False" if "\<forall>b \<in> set bs. fst b \<noteq> []" for i bs
    using that
  proof (induction i bs rule: recvs.induct)
    case (2 i ss e bs)
    then obtain n where "length ss = Suc n" by (cases ss) auto
    then show ?case using 2 recv_flags(1) [of ss False e] by (simp add: replicate_add)
  qed simp
  then show "0 < i \<Longrightarrow> map d_bos (recvs i bs) = replicate (length (recvs i bs)) False" using assms .
  assume "bs \<noteq> []"
  then obtain ss e bs' where bs: "bs = (ss, e) # bs'" by (cases bs) auto
  then have ss: "ss \<noteq> []" using assms by simp
  then obtain n where "length ss = Suc n" by (cases ss) auto
  then show "map d_bos (recvs 0 bs) = True # replicate (length (recvs 0 bs) - 1) False"
    using later [of bs' "Suc 0"] assms recv_flags(1) [OF ss, of True e] by (simp add: bs replicate_add)
qed

lemma recvs_eos:
  "\<lbrakk>\<forall>b \<in> set bs. fst b \<noteq> []; eos_marks bs E; bs \<noteq> []\<rbrakk> \<Longrightarrow>
    map d_eos (recvs i bs) = replicate (length (recvs i bs) - 1) False @ [E]"
proof (induction i bs rule: recvs.induct)
  case (2 i ss e bs)
  then have ss: "ss \<noteq> []" by simp
  then obtain n where n: "length ss = Suc n" by (cases ss) auto
  show ?case
  proof (cases "bs = []")
    case True
    then show ?thesis using 2 recv_flags(2) [OF ss] by (simp add: eos_marks_def)
  next
    case False
    then obtain m where m: "length (recvs (Suc i) bs) = Suc m"
      using 2(2) recvs_nonempty [of bs "Suc i"] by (cases "recvs (Suc i) bs") auto
    have e: "\<not> e" "eos_marks bs E" using 2(3) False by (auto simp: eos_marks_def)
    have "map d_eos (recvs i ((ss, e) # bs)) = (replicate n False @ [False] @ replicate m False) @ [E]"
      using 2(1) [OF _ e(2) False] 2(2) recv_flags(2) [OF ss, of "i = 0" False] n m e(1) by simp
    moreover have "length (recvs i ((ss, e) # bs)) - 1 = Suc n + m" using n m by simp
    ultimately show ?thesis unfolding replicate_join by simp
  qed
qed simp

text \<open>The packets \<open>qs\<close> are the packets \<open>ps\<close>. A position is delivered with the last packet that ends on a
  page; that of the initial page is 0.\<close>

definition delivered :: "ogg_packet list \<Rightarrow> ogg_packet list \<Rightarrow> bool" where
  "delivered ps qs \<longleftrightarrow> length qs = length ps \<and> (\<forall>m < length ps.
     op_packet (qs ! m) = op_packet (ps ! m) \<and> op_packetno (qs ! m) = of_nat m
     \<and> op_bos (qs ! m) = (m = 0) \<and> op_eos (qs ! m) = op_eos (ps ! m)
     \<and> (op_granulepos (qs ! m) = op_granulepos (ps ! m) \<or> op_granulepos (qs ! m) = -1
        \<or> m = 0 \<and> op_granulepos (qs ! m) = 0))"

lemma list_all2_split:
  "list_all2 (\<lambda>x y. length x = length y) Gs Ss \<Longrightarrow> list_all2 R (concat Gs) (concat Ss) \<Longrightarrow> list_all2 (list_all2 R) Gs Ss"
  by (induction Gs Ss rule: list_all2_induct) (auto simp: list_all2_append)

lemma nth_seg_lists: "m < length ps \<Longrightarrow> \<exists>g0. seg_lists g ps ! m = seg_list (op_packet (ps ! m)) g0 (op_granulepos (ps ! m))"
  by (induction g ps arbitrary: m rule: seg_lists.induct) (auto simp: nth_Cons split: nat.splits)

lemma seg_lists_shape: "\<forall>ss \<in> set (seg_lists g ps). packet_shape ss"
  by (induction g ps rule: seg_lists.induct) (auto simp: seg_list_shape)

text \<open>The marks of the first and the last segment, seen on a partition.\<close>

lemma first_marks:
  assumes "map f (concat Gs) = True # replicate k False" and "\<forall>G \<in> set Gs. G \<noteq> []" and "m < length Gs"
  shows "f (hd (Gs ! m)) = (m = 0)"
proof -
  obtain G Gs' where Gs: "Gs = G # Gs'" using assms(3) by (cases Gs) auto
  obtain x xs where G: "G = x # xs" using assms(2) Gs by (cases G) auto
  have x: "f x" and "map f (xs @ concat Gs') = replicate k False" using assms(1) Gs G by auto
  then have none: "\<forall>y \<in> set (xs @ concat Gs'). \<not> f y" by (metis image_eqI in_set_replicate list.set_map)
  show ?thesis
  proof (cases m)
    case 0
    then show ?thesis using x Gs G by simp
  next
    case (Suc j)
    then have "Gs ! m \<in> set Gs'" "Gs ! m \<noteq> []" using assms(2,3) Gs by auto
    then have "hd (Gs ! m) \<in> set (concat Gs')" using hd_in_set by fastforce
    then show ?thesis using none Suc by simp
  qed
qed

lemma last_marks:
  assumes "map f (concat Gs) = replicate k False @ [E]" and "\<forall>G \<in> set Gs. G \<noteq> []" and "m < length Gs"
  shows "(\<exists>x \<in> set (Gs ! m). f x) = (Suc m = length Gs \<and> E)"
proof -
  obtain Gs' G where Gs: "Gs = Gs' @ [G]" using assms(3) by (cases Gs rule: rev_cases) auto
  obtain xs x where G: "G = xs @ [x]" using assms(2) Gs by (cases G rule: rev_cases) auto
  have "f x = E" and "map f (concat Gs' @ xs) = replicate k False" using assms(1) Gs G by auto
  then have none: "\<forall>y \<in> set (concat Gs' @ xs). \<not> f y" by (metis image_eqI in_set_replicate list.set_map)
  show ?thesis
  proof (cases "m < length Gs'")
    case True
    then have "Gs ! m \<in> set Gs'" using Gs by (simp add: nth_append)
    then show ?thesis using none True Gs by auto
  next
    case False
    then have "m = length Gs'" using assms(3) Gs by simp
    then show ?thesis using none \<open>f x = E\<close> Gs G by auto
  qed
qed

lemma from_seg_data: "from_seg z d s \<Longrightarrow> d_data d = seg_data s"
  by (simp add: from_seg_def)

lemma group_data:
  assumes "list_all2 R G (seg_list p g0 g)" and "\<And>d s. R d s \<Longrightarrow> d_data d = seg_data s"
  shows "concat (map d_data G) = p" and "G \<noteq> []" and "R (List.last G) (List.last (seg_list p g0 g))"
proof -
  have "list_all2 (\<lambda>d s. d_data d = seg_data s) G (seg_list p g0 g)" by (rule list_all2_mono [OF assms(1)]) (rule assms(2))
  then have "map d_data G = map seg_data (seg_list p g0 g)" by (simp add: list_all2_conv_all_nth list_eq_iff_nth_eq)
  then show "concat (map d_data G) = p" using chunks_props [of p] by (simp add: seg_list_data)
  show ne: "G \<noteq> []" using assms(1) by auto
  have "length G = length (seg_list p g0 g)" using assms(1) by (rule list_all2_lengthD)
  then show "R (List.last G) (List.last (seg_list p g0 g))"
    using assms(1) ne by (simp add: last_conv_nth list_all2_conv_all_nth)
qed

text \<open>The initial page ends within the first packet.\<close>

lemma initial_within:
  assumes "ss @ rest = S @ suf" and "\<forall>s \<in> set (butlast ss). \<not> seg_short s" and "packet_shape S"
  shows "length ss \<le> length S"
proof (rule ccontr)
  assume "\<not> ?thesis"
  then have len: "length S < length ss" by simp
  have S: "S \<noteq> []" "seg_short (List.last S)" using assms(3) by (auto simp: packet_shape_def)
  let ?j = "length S - 1"
  have "?j < length S" "?j < length ss" "?j < length ss - 1" using len S(1) by (auto simp: less_diff_conv)
  then have "ss ! ?j = (ss @ rest) ! ?j" "(S @ suf) ! ?j = S ! ?j" "ss ! ?j \<in> set (butlast ss)"
    by (auto simp: nth_append in_set_conv_nth nth_butlast intro!: exI [of _ ?j])
  then have "ss ! ?j = List.last S" using assms(1) S(1) by (simp add: last_conv_nth)
  then show False using assms(2) S(2) \<open>ss ! ?j \<in> set (butlast ss)\<close> by metis
qed

lemma recvs_delivered:
  assumes pg: "paged serialno 0 bs pgs" and segs: "concat (map fst bs) = stream_segs g ps"
    and eos: "eos_marks bs (\<exists>op \<in> set ps. op_eos op)" "\<forall>op \<in> set (butlast ps). \<not> op_eos op"
  shows "delivered ps (packets_of 0 (grp [] (recvs 0 bs)))"
proof (cases bs)
  case Nil
  then have "ps = []" using segs stream_segs_Nil [of g ps] by simp
  then show ?thesis using Nil by (simp add: delivered_def)
next
  case (Cons b bs')
  obtain ss e where b: "b = (ss, e)" by (cases b)
  have ne: "\<forall>b \<in> set bs. fst b \<noteq> []" using paged_nonempty [OF pg] by blast
  have ss: "ss \<noteq> []" using ne Cons b by simp
  have at0: "\<forall>s \<in> set (butlast ss). \<not> seg_short s"
    using pg Cons b by (cases pgs) (auto simp: page_at_def)
  let ?A = "recv True e (page_gran False ss) ss" and ?B = "recvs (Suc 0) bs'" and ?Ss = "seg_lists g ps"
  let ?D = "recvs 0 bs" and ?R = "\<lambda>d s. from_seg True d s \<or> from_seg False d s"
  have D: "?D = ?A @ ?B" unfolding Cons b by simp
  have S: "ss @ concat (map fst bs') = concat ?Ss" using segs by (simp add: Cons b stream_segs_concat)
  have R0: "list_all2 (from_seg True) ?A ss" using recv_from_seg [of True True e ss] by simp
  have R1: "list_all2 (from_seg False) ?B (concat (map fst bs'))" by (rule recvs_from_seg) simp
  have "list_all2 ?R ?A ss" by (rule list_all2_mono [OF R0]) simp
  moreover have "list_all2 ?R ?B (concat (map fst bs'))" by (rule list_all2_mono [OF R1]) simp
  ultimately have "list_all2 ?R ?D (concat ?Ss)"
    unfolding D S [symmetric] by (rule list_all2_appendI)
  moreover define Gs where "Gs = grp [] ?D"
  ultimately have Gs: "list_all2 (list_all2 ?R) Gs ?Ss" "?D = concat Gs"
    using grp_packets [of ?R ?D ?Ss] seg_lists_shape by (auto dest: from_seg_data)
  have len: "length Gs = length ps" using list_all2_lengthD [OF Gs(1)] by simp
  obtain p ps' where ps: "ps = p # ps'" using S ss by (cases ps) auto
  obtain G Gs' where G: "Gs = G # Gs'" using len ps by (cases Gs) auto
  let ?S = "seg_list (op_packet p) g (op_granulepos p)"
  have Ss: "?Ss = ?S # seg_lists (op_granulepos p) ps'" by (simp add: ps)
  have within: "length ss \<le> length ?S"
    by (rule initial_within [of ss "concat (map fst bs')" ?S "concat (seg_lists (op_granulepos p) ps')"])
      (use S at0 in \<open>simp_all add: Ss seg_list_shape\<close>)
  have later: "list_all2 (list_all2 (from_seg False)) Gs' (seg_lists (op_granulepos p) ps')"
  proof (rule list_all2_split)
    have "list_all2 (list_all2 ?R) Gs' (seg_lists (op_granulepos p) ps')" using Gs(1) by (simp add: G Ss)
    then show "list_all2 (\<lambda>x y. length x = length y) Gs' (seg_lists (op_granulepos p) ps')"
      by (rule list_all2_mono) (rule list_all2_lengthD)
    let ?k = "length ?S - length ss"
    have lG: "length G = length ?S" using Gs(1) list_all2_lengthD by (auto simp: G Ss)
    have "drop ?k ?B = drop (length ?S) ?D" using within by (simp add: D)
    also have "\<dots> = concat Gs'" unfolding Gs(2) using lG by (simp add: G)
    finally have 1: "drop ?k ?B = concat Gs'" .
    have "drop ?k (concat (map fst bs')) = drop (length ?S) (ss @ concat (map fst bs'))" using within by simp
    also have "\<dots> = concat (seg_lists (op_granulepos p) ps')" unfolding S by (simp add: Ss)
    finally have 2: "drop ?k (concat (map fst bs')) = concat (seg_lists (op_granulepos p) ps')" .
    show "list_all2 (from_seg False) (concat Gs') (concat (seg_lists (op_granulepos p) ps'))"
      using list_all2_dropI [OF R1, of ?k] unfolding 1 2 .
  qed
  have Gne: "\<forall>G \<in> set Gs. G \<noteq> []"
  proof
    fix G assume "G \<in> set Gs"
    then obtain m where "m < length ps" "G = Gs ! m" using len by (auto simp: in_set_conv_nth)
    then show "G \<noteq> []" using Gs(1) nth_seg_lists [of m ps g] by (auto simp: list_all2_conv_all_nth)
  qed
  have "\<forall>m < length ps. op_packet (packet_of m (Gs ! m)) = op_packet (ps ! m) \<and> op_packetno (packet_of m (Gs ! m)) = of_nat m
     \<and> op_bos (packet_of m (Gs ! m)) = (m = 0) \<and> op_eos (packet_of m (Gs ! m)) = op_eos (ps ! m)
     \<and> (op_granulepos (packet_of m (Gs ! m)) = op_granulepos (ps ! m) \<or> op_granulepos (packet_of m (Gs ! m)) = -1
        \<or> m = 0 \<and> op_granulepos (packet_of m (Gs ! m)) = 0)"
  proof (intro allI impI)
    fix m assume m: "m < length ps"
    obtain g0 where g0: "?Ss ! m = seg_list (op_packet (ps ! m)) g0 (op_granulepos (ps ! m))" using nth_seg_lists [OF m] by blast
    have RG: "list_all2 ?R (Gs ! m) (seg_list (op_packet (ps ! m)) g0 (op_granulepos (ps ! m)))"
      using list_all2_nthD [OF Gs(1), of m] m len g0 by simp
    have Rd: "\<And>d s. ?R d s \<Longrightarrow> d_data d = seg_data s" by (auto dest: from_seg_data)
    note gd = group_data [OF RG Rd]
    have bos: "d_bos (hd (Gs ! m)) = (m = 0)"
      by (rule first_marks [of d_bos Gs "length ?D - 1"]) (use recvs_bos(2) [OF ne] Cons Gs(2) Gne m len in simp_all)
    have "(\<exists>d \<in> set (Gs ! m). d_eos d) = (Suc m = length Gs \<and> (\<exists>op \<in> set ps. op_eos op))"
      by (rule last_marks [of d_eos Gs "length ?D - 1"]) (use recvs_eos [OF ne eos(1), of 0] Cons Gs(2) Gne m len in simp_all)
    moreover have "\<dots> = op_eos (ps ! m)"
    proof (cases "Suc m = length ps")
      case True
      then have "List.last ps = ps ! m" "ps = butlast ps @ [ps ! m]" using ps append_butlast_last_id [of ps]
        by (auto simp: last_conv_nth simp flip: True)
      then have "set ps = insert (ps ! m) (set (butlast ps))" by (metis Un_insert_right list.simps(15) set_append sup_bot_right empty_set)
      then show ?thesis using True eos(2) len by auto
    next
      case False
      then have "ps ! m \<in> set (butlast ps)" using m by (auto simp: in_set_conv_nth nth_butlast intro!: exI [of _ m])
      then show ?thesis using eos(2) False len by auto
    qed
    ultimately have e: "(\<exists>d \<in> set (Gs ! m). d_eos d) = op_eos (ps ! m)" by simp
    have gr: "d_gran (List.last (Gs ! m)) = op_granulepos (ps ! m) \<or> d_gran (List.last (Gs ! m)) = -1
        \<or> m = 0 \<and> d_gran (List.last (Gs ! m)) = 0"
    proof (cases m)
      case 0
      then show ?thesis using gd(3) by (auto simp: from_seg_def seg_list_last)
    next
      case (Suc j)
      then have "list_all2 (from_seg False) (Gs ! m) (seg_list (op_packet (ps ! m)) g0 (op_granulepos (ps ! m)))"
        using list_all2_nthD [OF later, of j] m len g0 by (simp add: G ps Ss)
      from group_data(3) [OF this from_seg_data [of False]] show ?thesis by (auto simp: from_seg_def seg_list_last)
    qed
    show "op_packet (packet_of m (Gs ! m)) = op_packet (ps ! m) \<and> op_packetno (packet_of m (Gs ! m)) = of_nat m
     \<and> op_bos (packet_of m (Gs ! m)) = (m = 0) \<and> op_eos (packet_of m (Gs ! m)) = op_eos (ps ! m)
     \<and> (op_granulepos (packet_of m (Gs ! m)) = op_granulepos (ps ! m) \<or> op_granulepos (packet_of m (Gs ! m)) = -1
        \<or> m = 0 \<and> op_granulepos (packet_of m (Gs ! m)) = 0)"
      using gd(1) bos e gr by (simp add: packet_of_def)
  qed
  then show ?thesis
    using len by (simp add: delivered_def nth_packets_of flip: Gs_def)
qed


section \<open>Packets in, packets out\<close>

lemma init_at:
  assumes "mem_ok mem" and "ogg_stream_init mem serialno = (os, 0)"
  shows "enc_at os [] serialno 0" and "dec_at os [] serialno 0 0" and "\<not> os_eos os" and "os_granulepos os = 0"
  using ogg_stream_init_ok [OF assms] ogg_stream_init_dec_ok [OF assms] by (simp_all add: enc_at_def dec_at_def)

lemma eos_once_butlast: "eos_once e cs \<Longrightarrow> \<forall>op \<in> set (butlast (packets_in cs)). \<not> op_eos op"
proof (induction cs arbitrary: e)
  case (Cons c cs)
  show ?case
  proof (cases c)
    case (PacketIn op)
    then have IH: "\<forall>op \<in> set (butlast (packets_in cs)). \<not> op_eos op" using Cons by auto
    have "packets_in cs = []" if "op_eos op" using Cons.prems PacketIn that eos_once_True [of cs] by simp
    then show ?thesis using IH PacketIn by auto
  qed (use Cons in auto)
qed simp

lemma pages_count: "paged serialno i bs pgs \<Longrightarrow> length pgs \<le> length (concat (map page_bytes pgs))"
proof (induction serialno i bs pgs rule: paged.induct)
  case (2 serialno i ss e bs p ps)
  then have "0 < length (page_bytes p)" "length ps \<le> length (concat (map page_bytes ps))"
    using page_at_body [of serialno i ss e p] 2 by auto
  then show ?case by (simp del: length_greater_0_conv)
qed auto

text \<open>C30: The library as a whole: give an encoder packets, the last one marked as the end, and ask it for
  pages in any order of \<open>ogg_stream_packetin\<close>, \<open>ogg_stream_pageout\<close>, \<open>ogg_stream_flush\<close> and their variants until
  nothing is left; then whatever pieces the bytes of the pages arrive in, \<open>ogg_sync_pageout\<close>,
  \<open>ogg_stream_pagein\<close> and \<open>ogg_stream_packetout\<close> give back exactly these packets, in order, numbered, with the
  marks of the beginning and the end. With enough memory no call fails.\<close>

theorem ogg_packets_roundtrip:
  assumes "mem_ok enc_mem" and "mem_ok dec_mem" and "\<not> mem_fails dec_mem" and "al_total al"
    and "ogg_stream_init enc_mem serialno = (os, 0)" and "ogg_stream_init dec_mem serialno = (od, 0)"
    and "enc_run enc_mem os cmds = Some (os', pages, True)" and "os_lacing_fill os' = 0" and "eos_once False cmds"
    and "length pages < 2 ^ 32 - 1"
    and "concat pieces = concat (map page_bytes pages)" and "[] \<notin> set pieces" and "length (concat pieces) \<le> 2000000000"
  shows "\<exists>oy od' packets. demux al dec_mem ogg_sync_init od pieces = Some (oy, od', packets, True)
    \<and> delivered (packets_in cmds) packets"
proof -
  let ?ps = "packets_in cmds"
  note e = init_at [OF assms(1,5)] and d = init_at(2) [OF assms(2,6)]
  have "eos_once (os_eos os) cmds" "0 + length pages < 2 ^ 32 - 1" using e(3) assms(9,10) by simp_all
  from enc_run_result [OF assms(1) e(1) this(1) assms(7) this(2)]
  obtain segs' bs where r: "enc_at os' segs' serialno (0 + length pages)" "paged serialno 0 bs pages"
    "concat (map fst bs) @ segs' = [] @ stream_segs (os_granulepos os) ?ps"
    "os_eos os' = (os_eos os \<or> (\<exists>op \<in> set ?ps. op_eos op))" "segs' = [] \<longrightarrow> eos_marks bs (os_eos os')"
    unfolding enc_result_def by blast
  have "segs' = []" using r(1) assms(8) by (auto simp: enc_at_def enc_ok_def lacing_ok_def)
  then have segs: "concat (map fst bs) = stream_segs 0 ?ps" and eos: "eos_marks bs (\<exists>op \<in> set ?ps. op_eos op)"
    using r(3-5) e(3,4) by auto
  have "pending [] bs pages"
    using marked_stream [of 0 ?ps] segs assms(11,13) by (simp add: pending_def budget_def)
  moreover have "[] @ concat pieces = concat (map page_bytes pages)" using assms(11) by simp
  moreover have "seek [] = Wait" "\<not> sy_unsynced ogg_sync_init" by (simp_all add: seek_def ogg_sync_init_def)
  ultimately obtain oy od' where "demux al dec_mem ogg_sync_init od pieces = Some (oy, od', packets_of 0 (grp [] (recvs 0 bs)), True)"
    using demux_result [OF assms(2,3,4) sync_init_ok _ _ _ assms(12) r(2) d] by blast
  moreover have "delivered ?ps (packets_of 0 (grp [] (recvs 0 bs)))"
    using recvs_delivered [OF r(2) segs eos] eos_once_butlast [OF assms(9)] by blast
  ultimately show ?thesis by blast
qed

text \<open>With enough memory an encoder accepts each packet, and the page it is asked for then holds all of a
  short packet.\<close>

lemma packet_to_page:
  assumes mem: "mem_ok mem" "\<not> mem_fails mem" and at: "enc_at os [] serialno i" and i: "i < 1000"
    and st: "os_body_storage os \<le> 100000" "os_lacing_storage os \<le> 100000" and p: "length (op_packet op) < 255"
  shows "\<exists>os1 os2 pg. ogg_stream_packetin mem os op = Some (os1, 0) \<and> ogg_stream_flush os1 = Some (os2, Some pg)
    \<and> enc_at os2 [] serialno (Suc i) \<and> os_body_storage os2 \<le> 100000 \<and> os_lacing_storage os2 \<le> 100000
    \<and> os_eos os2 = (os_eos os \<or> op_eos op) \<and> length (page_bytes pg) \<le> 600"
proof -
  have ok: "enc_ok os []" using at by (simp add: enc_at_def)
  let ?p = "op_packet op"
  have div: "length ?p div 255 = 0" using p by simp
  have "int (length ?p) div 255 = int (length ?p div 255)" by (simp add: zdiv_int)
  then have "\<not> packetin_short mem os (int (length ?p))" "\<not> int (length ?p) > LONG_MAX"
    using mem(2) st p div by (auto simp: packetin_short_def LONG_MAX_def)
  then obtain os1 where r: "ogg_stream_packetin mem os op = Some (os1, 0)"
    "enc_ok os1 (seg_list ?p (os_granulepos os) (op_granulepos op))" "os_bos os1 = os_bos os" "os_eos os1 = (os_eos os \<or> op_eos op)"
    "os_pageno os1 = os_pageno os" "os_serialno os1 = os_serialno os"
    "os_body_storage os1 \<le> max (os_body_storage os) (2 * int (length ?p) + 1024)" "os_lacing_storage os1 \<le> max (os_lacing_storage os) 34"
    using ogg_stream_packetin_ok [OF ok mem(1), of op] div by auto
  let ?ss = "seg_list ?p (os_granulepos os) (op_granulepos op)"
  have len: "length ?ss = 1" using length_seg_list [of ?p] div by simp
  have at1: "enc_at os1 ?ss serialno i" using r at by (simp add: enc_at_def)
  have fr: "flush_result os1 ?ss True (ogg_stream_flush os1)" by (rule flush_results(1) [OF r(2)])
  have "i < 2 ^ 32 - 1" using i by simp
  from page_cmd_step [OF at1 _ this, of Flush]
  obtain os2 pg where f: "ogg_stream_flush os1 = Some (os2, pg)" "case pg of None \<Rightarrow> os2 = os1
    | Some p \<Rightarrow> \<exists>k. 0 < k \<and> k \<le> length ?ss \<and> page_at serialno i (take k ?ss) (os_eos os1 \<and> k = length ?ss) p
        \<and> enc_at os2 (drop k ?ss) serialno (Suc i) \<and> os_eos os2 = os_eos os1 \<and> os_granulepos os2 = os_granulepos os1" by auto
  obtain p where pg: "pg = Some p" using fr f(1) len by (cases pg) (auto simp: flush_result_def)
  then obtain k where k: "0 < k" "k \<le> length ?ss" "page_at serialno i (take k ?ss) (os_eos os1 \<and> k = length ?ss) p"
    "enc_at os2 (drop k ?ss) serialno (Suc i)" "os_eos os2 = os_eos os1" using f(2) by auto
  then have "k = 1" using len by simp
  then have at2: "enc_at os2 [] serialno (Suc i)" using k(4) len by simp
  obtain k' where "flushed os1 ?ss k' os2 p" using fr f(1) pg by (auto simp: flush_result_def)
  then have "os_body_storage os2 = os_body_storage os1" "os_lacing_storage os2 = os_lacing_storage os1" by (simp_all add: flushed_def)
  then have st2: "os_body_storage os2 \<le> 100000" "os_lacing_storage os2 \<le> 100000"
    using r(7,8) st p by (auto simp: max_def split: if_splits)
  have "length (page_bytes p) \<le> 600"
  proof -
    have pa: "page_at serialno i ?ss (os_eos os1 \<and> k = length ?ss) p" using k(3) \<open>k = 1\<close> len by simp
    then obtain x where x: "length x = 4" "p = \<lparr>pg_header = sealed_header (flag_byte (\<not> seg_first (hd ?ss)) (i = 0) (os_eos os1 \<and> k = length ?ss))
        (page_gran (i \<noteq> 0) ?ss) serialno (of_nat i) (seg_table ?ss) x, pg_body = all_data ?ss\<rparr>"
      unfolding page_at_def page_of_def by blast
    have "length (all_data ?ss) = length ?p" using chunks_props [of ?p] by (simp add: seg_list_data)
    then show ?thesis
      using x sealed_header_parts(1) [OF x(1), of "seg_table ?ss"] len p by (simp add: page_bytes_def seg_table_def)
  qed
  then show ?thesis using r(1,4) f(1) pg at2 st2 k(5) by auto
qed

definition demo_mem :: ogg_mem where
  "demo_mem = \<lparr>mem_body = \<lambda>n. Some (replicate (nat n) 0), mem_lacing = \<lambda>n. Some (replicate (nat n) 0),
     mem_granule = \<lambda>n. Some (replicate (nat n) 0)\<rparr>"

definition demo_packets :: "ogg_packet list" where
  "demo_packets = [\<lparr>op_packet = [1, 2, 3], op_bos = True, op_eos = False, op_granulepos = 0, op_packetno = 0\<rparr>,
     \<lparr>op_packet = [], op_bos = False, op_eos = True, op_granulepos = 7, op_packetno = 1\<rparr>]"

lemma demo_mem_ok: "mem_ok demo_mem" "\<not> mem_fails demo_mem" "al_total (mem_body demo_mem)"
  by (simp_all add: demo_mem_def mem_ok_def mem_fails_def al_total_def alloc_ok_def)

theorem ogg_packets_roundtrip_witness:
  "\<exists>os os' pages oy od' packets. ogg_stream_init demo_mem 5 = (os, 0)
    \<and> enc_run demo_mem os [PacketIn (demo_packets ! 0), Flush, PacketIn (demo_packets ! 1), Flush] = Some (os', pages, True)
    \<and> length pages = 2
    \<and> demux (mem_body demo_mem) demo_mem ogg_sync_init os (map (\<lambda>b. [b]) (concat (map page_bytes pages))) = Some (oy, od', packets, True)
    \<and> delivered demo_packets packets"
proof -
  let ?cmds = "[PacketIn (demo_packets ! 0), Flush, PacketIn (demo_packets ! 1), Flush]"
  obtain os where os: "ogg_stream_init demo_mem 5 = (os, 0)" by (simp add: ogg_stream_init_def demo_mem_def)
  note at = init_at [OF demo_mem_ok(1) os]
  have st: "os_body_storage os \<le> 100000" "os_lacing_storage os \<le> 100000"
    using ogg_stream_init_ok [OF demo_mem_ok(1) os] by simp_all
  have small: "length (op_packet (demo_packets ! 0)) < 255" "length (op_packet (demo_packets ! 1)) < 255"
    by (simp_all add: demo_packets_def)
  obtain os1 os2 p1 where 1: "ogg_stream_packetin demo_mem os (demo_packets ! 0) = Some (os1, 0)" "ogg_stream_flush os1 = Some (os2, Some p1)"
    "enc_at os2 [] 5 (Suc 0)" "os_body_storage os2 \<le> 100000" "os_lacing_storage os2 \<le> 100000" "length (page_bytes p1) \<le> 600"
    using packet_to_page [OF demo_mem_ok(1,2) at(1) _ st small(1)] by auto
  obtain os3 os4 p2 where 2: "ogg_stream_packetin demo_mem os2 (demo_packets ! 1) = Some (os3, 0)" "ogg_stream_flush os3 = Some (os4, Some p2)"
    "enc_at os4 [] 5 (Suc (Suc 0))" "length (page_bytes p2) \<le> 600"
    using packet_to_page [OF demo_mem_ok(1,2) 1(3) _ 1(4,5) small(2)] by auto
  have run: "enc_run demo_mem os ?cmds = Some (os4, [p1, p2], True)" using 1(1,2) 2(1,2) by simp
  have fill: "os_lacing_fill os4 = 0" using 2(3) by (auto simp: enc_at_def enc_ok_def lacing_ok_def)
  have once: "eos_once False ?cmds" by (simp add: demo_packets_def)
  let ?bytes = "concat (map page_bytes [p1, p2])"
  have pieces: "concat (map (\<lambda>b. [b]) ?bytes) = ?bytes" "[] \<notin> set (map (\<lambda>b. [b]) ?bytes)" by auto
  have len: "length (concat (map (\<lambda>b. [b]) ?bytes)) \<le> 2000000000" unfolding pieces(1) using 1(6) 2(4) by simp
  have two: "length [p1, p2] < 2 ^ 32 - 1" by simp
  from ogg_packets_roundtrip [OF demo_mem_ok(1,1,2,3) os os run fill once two pieces len]
  obtain oy od' packets where "demux (mem_body demo_mem) demo_mem ogg_sync_init os (map (\<lambda>b. [b]) ?bytes) = Some (oy, od', packets, True)"
    "delivered (packets_in ?cmds) packets" by blast
  moreover have "packets_in ?cmds = demo_packets" by (simp add: demo_packets_def)
  ultimately show ?thesis using os run by (intro exI conjI) auto
qed

end
