(* ===== verification/OggAny.thy ===== *)
theory OggAny
  imports OggStream
begin

unbundle bit_operations_syntax

text \<open>
  \<^verbatim>\<open>src/ogg123/src/framing.c\<close>, decoding of any pages: pages that are missing, repeated, out of order or
  of a foreign encoder. The state of the decoder stays consistent, and no access leaves its blocks.

  \<open>OggDecode\<close> says what comes out when the pages of an encoder arrive in order; here the queue of
  segments may hold a mark of a gap (\<open>0x400\<close>), packets may be cut off, and flags may be arbitrary.
\<close>

text \<open>The bytes of a segment.\<close>

definition vlen :: "32 word \<Rightarrow> nat" where
  "vlen v = unat (v AND 0xff)"

abbreviation lens :: "32 word list \<Rightarrow> nat" where
  "lens ls \<equiv> sum_list (map vlen ls)"

text \<open>A queue of segments, of which the first \<open>k\<close> belong to complete packets, for a body of \<open>n\<close> bytes.\<close>

definition queue_ok :: "32 word list \<Rightarrow> nat \<Rightarrow> nat \<Rightarrow> bool" where
  "queue_ok ls k n \<longleftrightarrow> lens ls = n \<and> (\<forall>v \<in> set ls. v AND 0x400 \<noteq> 0 \<longrightarrow> vlen v = 0) \<and> k \<le> length ls
     \<and> (0 < k \<longrightarrow> vlen (ls ! (k - 1)) < 255)"

definition dec_any :: "ogg_stream_state \<Rightarrow> bool" where
  "dec_any os \<longleftrightarrow> (\<exists>xs ls gs r k. body_ok os xs \<and> lacing_ok os r ls gs
     \<and> os_lacing_packet os = int (r + k) \<and> queue_ok ls k (length xs))"

text \<open>The decoder is consistent, or it has been cleared.\<close>

definition dec_safe :: "ogg_stream_state \<Rightarrow> bool" where
  "dec_safe os \<longleftrightarrow> dec_any os \<or> os = ogg_stream_zero"

lemma dec_any_check: "dec_any os \<Longrightarrow> ogg_stream_check os"
  using body_ok_check by (auto simp: dec_any_def)

lemma vlen_uint: "uint (v AND 0xff) = int (vlen v)"
  by (simp add: vlen_def)

lemma vlen_le: "vlen v \<le> 255"
proof -
  have "v AND 0xff \<le> (0xff :: 32 word)" by (rule word_and_le1)
  then have "unat (v AND 0xff) \<le> unat (0xff :: 32 word)" by (simp only: word_le_nat_alt)
  then show ?thesis by (simp add: vlen_def)
qed

lemma init_dec_any:
  assumes "mem_ok mem" and "ogg_stream_init mem serialno = (os, 0)"
  shows "dec_any os"
proof -
  have "dec_ok os []" by (rule ogg_stream_init_dec_ok [OF assms])
  then obtain r where "body_ok os []" "lacing_ok os r [] []" "os_lacing_packet os = int r"
    by (auto simp: dec_ok_def)
  then show ?thesis
    unfolding dec_any_def by (intro exI [of _ "[]"] exI [of _ r] exI [of _ "0::nat"]) (simp add: queue_ok_def)
qed

section \<open>A packet is taken out\<close>

lemma packet_segs_any:
  assumes "k < length ls" and "vlen (ls ! k) < 255"
  shows "\<exists>n eos. packet_segs (ls @ zs) = Some (n, int (lens (take n ls)), eos) \<and> 0 < n \<and> n \<le> Suc k"
  using assms
proof (induction ls arbitrary: k)
  case (Cons v vs)
  show ?case
  proof (cases "v AND 0xff = 255")
    case True
    then have "vlen v = 255" by (simp add: vlen_def)
    then obtain k' where k: "k = Suc k'" using Cons.prems(2) by (cases k) auto
    then obtain n eos where "packet_segs (vs @ zs) = Some (n, int (lens (take n vs)), eos)" "0 < n" "n \<le> Suc k'"
      using Cons.IH [of k'] Cons.prems by auto
    then show ?thesis using True k \<open>vlen v = 255\<close> by (intro exI [of _ "Suc n"]) simp
  next
    case False
    then show ?thesis by (intro exI [of _ "1::nat"]) (simp add: vlen_uint)
  qed
qed simp

text \<open>The number of segments that wait for \<open>ogg_stream_packetout\<close>.\<close>

definition waiting :: "ogg_stream_state \<Rightarrow> nat" where
  "waiting os = nat (os_lacing_packet os - os_lacing_returned os)"

text \<open>All segments that are held.\<close>

definition queued :: "ogg_stream_state \<Rightarrow> nat" where
  "queued os = nat (os_lacing_fill os - os_lacing_returned os)"

lemma queued_lacing: "lacing_ok os r ls gs \<Longrightarrow> queued os = length ls"
  by (auto simp: lacing_ok_def queued_def)

lemma queue_drop:
  assumes "queue_ok ls k (length xs)" and "n \<le> k"
  shows "queue_ok (drop n ls) (k - n) (length (drop (lens (take n ls)) xs))"
proof -
  have "lens (take n ls) + lens (drop n ls) = lens ls"
    unfolding sum_list_append [symmetric] map_append [symmetric] by simp
  then show ?thesis
    using assms unfolding queue_ok_def by (auto dest: in_set_dropD)
qed

lemma body_drop:
  assumes "body_ok os xs" and "m \<le> length xs"
  shows "body_ok (os\<lparr>os_body_returned := os_body_returned os + int m\<rparr>) (drop m xs)"
proof -
  obtain b r where b: "os_body os = Some b" "os_body_storage os = int (length b)"
     "os_body_returned os = int r" "os_body_fill os = int (r + length xs)" "r + length xs \<le> length b"
     "take (length xs) (drop r b) = xs"
    using assms(1) by (auto simp: body_ok_def)
  have "drop m xs = drop m (take (length xs) (drop r b))" using b(6) by simp
  also have "\<dots> = take (length xs - m) (drop (r + m) b)" by (simp add: drop_take add.commute)
  finally have e: "drop m xs = take (length xs - m) (drop (r + m) b)" .
  have "take (length (drop m xs)) (drop (r + m) b) = drop m xs"
    unfolding length_drop by (rule e [symmetric])
  then show ?thesis using b assms(2) unfolding body_ok_def by (intro exI [of _ b] exI [of _ "r + m"]) auto
qed

lemma lacing_drop:
  assumes "lacing_ok os r ls gs" and "n \<le> length ls"
  shows "lacing_ok (os\<lparr>os_lacing_returned := int (r + n)\<rparr>) (r + n) (drop n ls) (drop n gs)"
proof -
  obtain l g where l: "os_lacing os = Some l" "os_granule os = Some g"
     "os_lacing_storage os = int (length l)" "length g = length l"
     "os_lacing_fill os = int (r + length ls)" "r + length ls \<le> length l"
     "length gs = length ls" "take (length ls) (drop r l) = ls" "take (length ls) (drop r g) = gs"
    using assms(1) by (auto simp: lacing_ok_def)
  have e: "take (length ls - n) (drop (r + n) l) = drop n ls" "take (length ls - n) (drop (r + n) g) = drop n gs"
    using drop_take [of n "length ls" "drop r l"] drop_take [of n "length ls" "drop r g"] unfolding l(8,9)
    by (simp_all add: add.commute)
  have "take (length (drop n ls)) (drop (r + n) l) = drop n ls" "take (length (drop n ls)) (drop (r + n) g) = drop n gs"
    unfolding length_drop by (rule e)+
  then show ?thesis using l assms(2) unfolding lacing_ok_def by (intro exI [of _ l] exI [of _ g]) auto
qed

lemma packetout_any:
  assumes "dec_any os"
  shows "\<exists>os' ret p. ogg_stream_packetout os = Some (os', ret, p) \<and> dec_any os'
    \<and> os_serialno os' = os_serialno os
    \<and> (ret = 0 \<and> os' = os \<and> waiting os = 0 \<or> waiting os' < waiting os \<and> queued os' < queued os
       \<and> (ret = -1 \<or> ret = 1 \<and> p \<noteq> None))"
proof -
  obtain xs ls gs r k where body: "body_ok os xs" and lac: "lacing_ok os r ls gs"
    and pk: "os_lacing_packet os = int (r + k)" and q: "queue_ok ls k (length xs)"
    using assms by (auto simp: dec_any_def)
  obtain l g where l: "os_lacing os = Some l" "os_granule os = Some g" "length g = length l" "os_lacing_returned os = int r"
     "r + length ls \<le> length l" "take (length ls) (drop r l) = ls"
    using lac by (auto simp: lacing_ok_def)
  have k: "k \<le> length ls" using q by (simp add: queue_ok_def)
  have chk: "ogg_stream_check os" by (rule dec_any_check [OF assms])
  have w: "waiting os = k" using pk l(4) by (simp add: waiting_def)
  have kfill: "int (r + k) \<le> os_lacing_fill os" using lac k by (auto simp: lacing_ok_def)
  show ?thesis
  proof (cases "k = 0")
    case True
    then show ?thesis using assms chk pk l(4) w by (simp add: ogg_stream_packetout_def packetout_def)
  next
    case False
    then have kl: "k - 1 < length ls" "vlen (ls ! (k - 1)) < 255" using k q by (auto simp: queue_ok_def)
    obtain v vs where ls: "ls = v # vs" using kl(1) by (cases ls) auto
    have dl: "drop r l = ls @ drop (length ls) (drop r l)"
      using append_take_drop_id [of "length ls" "drop r l"] l(6) by simp
    then have "drop r l = v # (vs @ drop (length ls) (drop r l))" using ls by simp
    then have v: "rd l (int r) = Some v" using l(5) ls by (simp add: rd_def) (metis nth_via_drop)
    show ?thesis
    proof (cases "v AND 0x400 \<noteq> 0")
      case True
      let ?os = "os\<lparr>os_lacing_returned := int (r + 1), os_packetno := os_packetno os + 1\<rparr>"
      have z: "vlen v = 0" using q True ls by (auto simp: queue_ok_def)
      have "queue_ok (drop 1 ls) (k - 1) (length xs)"
        using queue_drop [OF q, of 1] False ls z by simp
      moreover have "lacing_ok ?os (r + 1) (drop 1 ls) (drop 1 gs)"
        using lacing_drop [OF lac, of 1] ls by (simp add: lacing_ok_def)
      moreover have "body_ok ?os xs" using body by (simp add: body_ok_def)
      moreover have "os_lacing_packet ?os = int (r + 1 + (k - 1))" using pk False by simp
      ultimately have "dec_any ?os" unfolding dec_any_def by blast
      moreover have "ogg_stream_packetout os = Some (?os, -1, None)"
        using chk pk l(1,4) v True False by (simp add: ogg_stream_packetout_def packetout_def add.commute)
      moreover have "waiting ?os < waiting os" "queued ?os < queued os"
        using w pk False kfill l(4) by (simp_all add: waiting_def queued_def)
      ultimately show ?thesis by (intro exI [of _ ?os] exI [of _ "-1"] exI [of _ None]) simp
    next
      case nohole: False
      obtain n eos where n: "packet_segs (drop r l) = Some (n, int (lens (take n ls)), eos)" "0 < n" "n \<le> k"
        using packet_segs_any [OF kl, of "drop (length ls) (drop r l)"] dl False by auto
      let ?m = "lens (take n ls)"
      have "lens (take n ls) + lens (drop n ls) = lens ls"
        unfolding sum_list_append [symmetric] map_append [symmetric] by simp
      then have m: "?m \<le> length xs" using q by (simp add: queue_ok_def)
      obtain b rb where b: "os_body os = Some b" "os_body_returned os = int rb" "rb + length xs \<le> length b"
        using body by (auto simp: body_ok_def)
      have data: "rd_blk b (int rb) (int ?m) = Some (take ?m (drop rb b))"
        using b(3) m by (intro rd_blk_nat) simp
      have gp: "rd g (int r + int n - 1) = Some (g ! (r + n - 1))"
        using rd_nat [of "r + n - 1" g] l(3,5) n(2,3) k by (simp add: of_nat_diff)
      let ?os = "os\<lparr>os_body_returned := os_body_returned os + int ?m, os_lacing_returned := int (r + n),
        os_packetno := os_packetno os + 1\<rparr>"
      let ?p = "\<lparr>op_packet = take ?m (drop rb b), op_bos = (v AND 0x100 \<noteq> 0), op_eos = eos,
        op_granulepos = g ! (r + n - 1), op_packetno = os_packetno os\<rparr>"
      have "ogg_stream_packetout os = Some (?os, 1, Some ?p)"
        using chk pk l(1,2,4) v nohole False n(1) b(1,2) data gp
        by (simp add: ogg_stream_packetout_def packetout_def Let_def)
      moreover have "queue_ok (drop n ls) (k - n) (length (drop ?m xs))" by (rule queue_drop [OF q n(3)])
      moreover have "lacing_ok ?os (r + n) (drop n ls) (drop n gs)"
        using lacing_drop [OF lac, of n] n(3) k by (simp add: lacing_ok_def)
      moreover have "body_ok ?os (drop ?m xs)" using body_drop [OF body m] by (simp add: body_ok_def)
      moreover have "os_lacing_packet ?os = int (r + n + (k - n))" using pk n(3) by simp
      ultimately have "ogg_stream_packetout os = Some (?os, 1, Some ?p)" "dec_any ?os"
        unfolding dec_any_def by blast+
      moreover have "waiting ?os < waiting os" "queued ?os < queued os"
        using w pk n(2,3) kfill l(4) by (simp_all add: waiting_def queued_def)
      ultimately show ?thesis by (intro exI [of _ ?os] exI [of _ 1] exI [of _ "Some ?p"]) simp
    qed
  qed
qed


section \<open>A page is taken in\<close>

text \<open>The state while a page is taken in: everything that was returned has been removed.\<close>

definition dec_mid :: "ogg_stream_state \<Rightarrow> byte list \<Rightarrow> 32 word list \<Rightarrow> 64 word list \<Rightarrow> nat \<Rightarrow> nat \<Rightarrow> bool" where
  "dec_mid os xs ls gs k n \<longleftrightarrow> body_ok os xs \<and> lacing_ok os 0 ls gs \<and> os_lacing_packet os = int k \<and> queue_ok ls k n"

lemma queue_snoc:
  assumes "queue_ok ls k n" and "w AND 0x400 = 0"
  shows "queue_ok (ls @ [w]) (if vlen w < 255 then Suc (length ls) else k) (n + vlen w)"
  using assms by (auto simp: queue_ok_def nth_append)

lemma queue_gap: "queue_ok ls k n \<Longrightarrow> queue_ok (take k ls) k (lens (take k ls))"
  by (auto simp: queue_ok_def dest: in_set_takeD)

lemma queue_hole: "queue_ok ls (length ls) n \<Longrightarrow> queue_ok (ls @ [0x400]) (Suc (length ls)) n"
  by (auto simp: queue_ok_def vlen_def)

lemma body_take:
  assumes "body_ok os xs" and "m \<le> length xs"
  shows "body_ok (os\<lparr>os_body_fill := os_body_fill os - int (length xs - m)\<rparr>) (take m xs)"
proof -
  obtain b r where b: "os_body os = Some b" "os_body_storage os = int (length b)"
     "os_body_returned os = int r" "os_body_fill os = int (r + length xs)" "r + length xs \<le> length b"
     "take (length xs) (drop r b) = xs"
    using assms(1) by (auto simp: body_ok_def)
  have "take m (take (length xs) (drop r b)) = take m (drop r b)" using assms(2) by (simp add: min_def)
  then have "take m (drop r b) = take m xs" using b(6) by simp
  then show ?thesis
    using b assms(2) unfolding body_ok_def by (intro exI [of _ b] exI [of _ r]) (simp add: min_def of_nat_diff)
qed

lemma lacing_take:
  assumes "lacing_ok os 0 ls gs" and "k \<le> length ls"
  shows "lacing_ok (os\<lparr>os_lacing_fill := int k\<rparr>) 0 (take k ls) (take k gs)"
proof -
  obtain l g where l: "os_lacing os = Some l" "os_granule os = Some g" "os_lacing_storage os = int (length l)"
     "length g = length l" "os_lacing_returned os = 0" "length ls \<le> length l"
     "length gs = length ls" "take (length ls) l = ls" "take (length ls) g = gs"
    using assms(1) by (auto simp: lacing_ok_def)
  have "take k (take (length ls) l) = take k l" "take k (take (length ls) g) = take k g"
    using assms(2) by (simp_all add: min_def)
  then have "take k l = take k ls" "take k g = take k gs" unfolding l(8,9) by simp_all
  then show ?thesis
    using l assms(2) unfolding lacing_ok_def by (intro exI [of _ l] exI [of _ g]) (simp add: min_def)
qed

lemma note_gap_any:
  assumes ok: "dec_mid os xs ls gs k (length xs)" and room: "os_lacing_fill os < os_lacing_storage os"
  shows "\<exists>os' xs' ls' gs' k'. note_gap os pageno = Some os' \<and> dec_mid os' xs' ls' gs' k' (length xs')
    \<and> os_lacing_fill os' \<le> os_lacing_fill os + 1 \<and> os_lacing_storage os' = os_lacing_storage os
    \<and> os_body_storage os' = os_body_storage os \<and> os_serialno os' = os_serialno os"
proof (cases "pageno = os_pageno os")
  case True
  then show ?thesis
    using ok by (intro exI [of _ os] exI [of _ xs] exI [of _ ls] exI [of _ gs] exI [of _ k]) (simp add: note_gap_def)
next
  case False
  have body: "body_ok os xs" and lac: "lacing_ok os 0 ls gs" and pk: "os_lacing_packet os = int k"
    and q: "queue_ok ls k (length xs)" using ok by (simp_all add: dec_mid_def)
  have k: "k \<le> length ls" using q by (simp add: queue_ok_def)
  obtain l where l: "os_lacing os = Some l" "os_lacing_fill os = int (length ls)" "length ls \<le> length l" "take (length ls) l = ls"
    using lac by (auto simp: lacing_ok_def)
  let ?m = "lens (take k ls)"
  have sum: "?m + lens (drop k ls) = length xs"
    using q unfolding queue_ok_def sum_list_append [symmetric] map_append [symmetric] by simp
  have "rd_blk l (int k) (int (length ls - k)) = Some (take (length ls - k) (drop k l))"
    using l(3) k by (intro rd_blk_nat) simp
  also have "take (length ls - k) (drop k l) = drop k ls" using drop_take [of k "length ls" l] l(4) by simp
  finally have blk: "rd_blk l (int k) (int (length ls) - int k) = Some (drop k ls)" using k by (simp add: of_nat_diff)
  have cut: "sum_list (map (\<lambda>v. uint (v AND 0xff)) (drop k ls)) = int (length xs - ?m)"
  proof -
    have "sum_list (map (\<lambda>v. uint (v AND 0xff)) ys) = int (lens ys)" for ys :: "32 word list"
      by (induction ys) (simp_all add: vlen_uint)
    then show ?thesis using sum by simp
  qed
  let ?os = "os\<lparr>os_body_fill := os_body_fill os - int (length xs - ?m), os_lacing_fill := int k\<rparr>"
  have m: "?m \<le> length xs" using sum by linarith
  have mid: "dec_mid ?os (take ?m xs) (take k ls) (take k gs) k (length (take ?m xs))"
    using body_take [OF body m] lacing_take [OF lac k] queue_gap [OF q] pk m
    by (simp add: dec_mid_def body_ok_def lacing_ok_def min_def)
  have gap: "note_gap os pageno = (if os_pageno os \<noteq> -1 then do {
      l \<leftarrow> wr l (int k) 0x400;
      Some (?os\<lparr>os_lacing := Some l, os_lacing_fill := int k + 1, os_lacing_packet := int k + 1\<rparr>) } else Some ?os)"
    using False l(1,2) pk blk by (simp add: note_gap_def Let_def cut)
  show ?thesis
  proof (cases "os_pageno os = -1")
    case True
    then show ?thesis
      using mid gap k l(2)
      by (intro exI [of _ ?os] exI [of _ "take ?m xs"] exI [of _ "take k ls"] exI [of _ "take k gs"] exI [of _ k]) simp
  next
    case pn: False
    have room': "os_lacing_fill ?os < os_lacing_storage ?os" using room k l(2) by simp
    have lac': "lacing_ok ?os 0 (take k ls) (take k gs)" using mid by (simp add: dec_mid_def)
    obtain g2 where g2: "os_granule ?os = Some g2" using lac' by (auto simp: lacing_ok_def)
    obtain l2 l' g' where pl: "os_lacing ?os = Some l2" "os_granule ?os = Some g2" "wr l2 (os_lacing_fill ?os) 0x400 = Some l'"
      "wr g2 (os_lacing_fill ?os) (g2 ! k) = Some g'"
      "lacing_ok (?os\<lparr>os_lacing := Some l', os_granule := Some g', os_lacing_fill := os_lacing_fill ?os + 1\<rparr>) 0
        (take k ls @ [0x400]) (take k gs @ [g2 ! k])"
      using push_lacing [OF lac' room', of "0x400" "g2 ! k"] g2 by auto
    have g': "g' = g2" using pl(4) by (auto simp: wr_def split: if_splits)
    let ?os' = "?os\<lparr>os_lacing := Some l', os_lacing_fill := int k + 1, os_lacing_packet := int k + 1\<rparr>"
    have "lacing_ok ?os' 0 (take k ls @ [0x400]) (take k gs @ [g2 ! k])"
      using pl(2,5) k unfolding g' by (simp add: lacing_ok_def min_absorb2)
    moreover have "queue_ok (take k ls @ [0x400]) (Suc k) (length (take ?m xs))"
    proof -
      have "length (take k ls) = k" using k by simp
      then show ?thesis using queue_hole [of "take k ls" "length (take ?m xs)"] mid by (simp only: dec_mid_def)
    qed
    moreover have "body_ok ?os' (take ?m xs)" using mid by (simp add: dec_mid_def body_ok_def)
    ultimately have "dec_mid ?os' (take ?m xs) (take k ls @ [0x400]) (take k gs @ [g2 ! k]) (Suc k) (length (take ?m xs))"
      by (simp add: dec_mid_def)
    moreover have "note_gap os pageno = Some ?os'" using gap pn pl(1,3) l(1) by simp
    ultimately show ?thesis
      using k l(2)
      by (intro exI [of _ ?os'] exI [of _ "take ?m xs"] exI [of _ "take k ls @ [0x400]"] exI [of _ "take k gs @ [g2 ! k]"] exI [of _ "Suc k"]) simp
  qed
qed


lemma byte_in_word:
  "(ucast (v :: byte) OR (if bos then 0x100 else 0)) AND 0xff = (ucast v :: 32 word)"
  "(ucast (v :: byte) OR (if bos then 0x100 else 0)) AND 0x400 = (0 :: 32 word)"
proof -
  have m: "(0xff :: 32 word) = mask 8" by (simp add: mask_eq_exp_minus_1)
  have h: "bit (0x100 :: int) i \<longleftrightarrow> i = 8" "bit (0x400 :: int) i \<longleftrightarrow> i = 10" for i
    using bit_exp_iff [where 'a = int, of 8 i] bit_exp_iff [where 'a = int, of 10 i] by simp_all
  show "(ucast (v :: byte) OR (if bos then 0x100 else 0)) AND 0xff = (ucast v :: 32 word)"
    unfolding m by (rule bit_word_eqI) (auto simp: bit_simps h dest: bit_imp_le_length)
  show "(ucast (v :: byte) OR (if bos then 0x100 else 0)) AND 0x400 = (0 :: 32 word)"
    unfolding m by (rule bit_word_eqI) (auto simp: bit_simps h dest: bit_imp_le_length)
qed

lemma seg_val:
  "vlen (ucast (v :: byte) OR (if bos then 0x100 else 0)) = unat v"
  "(ucast (v :: byte) OR (if bos then 0x100 else 0)) AND 0x400 = (0 :: 32 word)"
proof -
  have "unat (ucast v :: 32 word) = unat v"
    using unsigned_less [of v, where 'a = nat] by (simp add: unsigned_ucast_eq take_bit_nat_eq_self_iff)
  then show "vlen (ucast v OR (if bos then 0x100 else 0)) = unat v"
    by (simp only: vlen_def byte_in_word)
qed (rule byte_in_word)

lemma store_segs_any:
  assumes "lacing_ok os 0 ls gs" and "os_lacing_packet os = int k" and "queue_ok ls k n"
    and "os_lacing_fill os + int (length segs) \<le> os_lacing_storage os" and "saved < os_lacing_fill os" and "- 1 \<le> saved"
  shows "\<exists>os' saved' ls' gs' k'. store_segs os bos saved segs = Some (os', saved') \<and> lacing_ok os' 0 ls' gs'
    \<and> os_lacing_packet os' = int k' \<and> queue_ok ls' k' (n + sum_list (map unat segs))
    \<and> saved' < os_lacing_fill os' \<and> - 1 \<le> saved' \<and> length ls' = length ls + length segs
    \<and> (\<exists>l g f p. os' = os\<lparr>os_lacing := l, os_granule := g, os_lacing_fill := f, os_lacing_packet := p\<rparr>)"
  using assms
proof (induction segs arbitrary: os bos saved ls gs k n)
  case Nil
  have "\<exists>l g f p. os = os\<lparr>os_lacing := l, os_granule := g, os_lacing_fill := f, os_lacing_packet := p\<rparr>"
    by (intro exI [of _ "os_lacing os"] exI [of _ "os_granule os"] exI [of _ "os_lacing_fill os"] exI [of _ "os_lacing_packet os"]) simp
  then show ?case
    using Nil.prems by (intro exI [of _ os] exI [of _ saved] exI [of _ ls] exI [of _ gs] exI [of _ k]) simp
next
  case (Cons v vs)
  let ?w = "ucast v OR (if bos then 0x100 else 0) :: 32 word"
  have room: "os_lacing_fill os < os_lacing_storage os" using Cons.prems(4) by simp
  obtain l g l' g' where pl: "os_lacing os = Some l" "os_granule os = Some g" "wr l (os_lacing_fill os) ?w = Some l'"
    "wr g (os_lacing_fill os) (-1) = Some g'"
    "lacing_ok (os\<lparr>os_lacing := Some l', os_granule := Some g', os_lacing_fill := os_lacing_fill os + 1\<rparr>) 0 (ls @ [?w]) (gs @ [-1])"
    using push_lacing [OF Cons.prems(1) room] by blast
  have fill: "os_lacing_fill os = int (length ls)" using Cons.prems(1) by (auto simp: lacing_ok_def)
  let ?saved = "if v < 255 then os_lacing_fill os else saved"
  let ?os = "os\<lparr>os_lacing := Some l', os_granule := Some g', os_lacing_fill := os_lacing_fill os + 1,
    os_lacing_packet := (if v < 255 then os_lacing_fill os + 1 else os_lacing_packet os)\<rparr>"
  let ?k = "if v < 255 then Suc (length ls) else k"
  have v255: "vlen ?w < 255 \<longleftrightarrow> v < 255" by (simp add: seg_val word_less_nat_alt)
  have q: "queue_ok (ls @ [?w]) ?k (n + unat v)"
    using queue_snoc [OF Cons.prems(3) seg_val(2), of v bos] unfolding v255 by (simp only: seg_val(1))
  have lac: "lacing_ok ?os 0 (ls @ [?w]) (gs @ [-1])" using pl(5) by (simp add: lacing_ok_def)
  have pk: "os_lacing_packet ?os = int ?k" using Cons.prems(2) fill by simp
  have r: "os_lacing_fill ?os + int (length vs) \<le> os_lacing_storage ?os" "?saved < os_lacing_fill ?os" "- 1 \<le> ?saved"
    using Cons.prems(4-6) fill by simp_all
  obtain os' saved' ls' gs' k' l2 g2 f2 p2 where IH: "store_segs ?os False ?saved vs = Some (os', saved')"
    "lacing_ok os' 0 ls' gs'" "os_lacing_packet os' = int k'" "queue_ok ls' k' (n + unat v + sum_list (map unat vs))"
    "saved' < os_lacing_fill os'" "- 1 \<le> saved'" "length ls' = length (ls @ [?w]) + length vs"
    "os' = ?os\<lparr>os_lacing := l2, os_granule := g2, os_lacing_fill := f2, os_lacing_packet := p2\<rparr>"
    using Cons.IH [OF lac pk q r, of False] by blast
  have st: "store_segs os bos saved (v # vs) = store_segs ?os False ?saved vs"
    using pl(1-4) by (cases "v < 255") (simp_all add: Let_def)
  have "os' = os\<lparr>os_lacing := l2, os_granule := g2, os_lacing_fill := f2, os_lacing_packet := p2\<rparr>" using IH(8) by simp
  then have f: "\<exists>l g f p. os' = os\<lparr>os_lacing := l, os_granule := g, os_lacing_fill := f, os_lacing_packet := p\<rparr>" by blast
  show ?case
    unfolding st using IH(1-7) f
    by (intro exI [of _ os'] exI [of _ saved'] exI [of _ ls'] exI [of _ gs'] exI [of _ k']) (simp add: add.assoc)
qed

lemma skip_segs_sum:
  "skip_segs segs = (n, b) \<Longrightarrow> n \<le> length segs \<and> b = int (sum_list (map unat (take n segs)))"
proof (induction segs arbitrary: n b)
  case (Cons v vs)
  show ?case
  proof (cases "v < 255")
    case False
    obtain n' b' where "skip_segs vs = (n', b')" by fastforce
    then show ?thesis using Cons False by auto
  qed (use Cons.prems in auto)
qed simp

lemma queue_eos:
  assumes "queue_ok ls k n" and "i < length ls"
  shows "queue_ok (ls[i := ls ! i OR 0x200]) k n"
proof -
  have v: "vlen (w OR 0x200) = vlen w" "(w OR 0x200) AND 0x400 = w AND 0x400" for w :: "32 word"
  proof -
    have "(w OR 0x200) AND 0xff = w AND 0xff" "(w OR 0x200) AND 0x400 = w AND 0x400"
      unfolding and.commute [of _ "0xff"] and.commute [of _ "0x400"] bit.conj_disj_distrib by simp_all
    then show "vlen (w OR 0x200) = vlen w" "(w OR 0x200) AND 0x400 = w AND 0x400" by (simp_all add: vlen_def)
  qed
  have "map vlen (ls[i := ls ! i OR 0x200]) = map vlen ls"
    by (rule map_update_same [OF assms(2)]) (rule v(1))
  moreover have "vlen (ls[i := ls ! i OR 0x200] ! j) = vlen (ls ! j)" if "j < length ls" for j
    using that v(1) by (cases "i = j") simp_all
  moreover have "\<forall>w \<in> set (ls[i := ls ! i OR 0x200]). w AND 0x400 \<noteq> 0 \<longrightarrow> vlen w = 0"
    using assms v set_update_subset_insert [of ls i "ls ! i OR 0x200"] unfolding queue_ok_def by fastforce
  ultimately show ?thesis using assms(1) unfolding queue_ok_def by auto
qed


lemma pagein_segs_any:
  assumes body: "body_ok os xs" and lac: "lacing_ok os 0 ls gs" and pk: "os_lacing_packet os = int k"
    and q: "queue_ok ls k n" and n: "n + sum_list (map unat segs) = length xs"
    and room: "os_lacing_fill os + int (length segs) \<le> os_lacing_storage os"
  shows "\<exists>os'. pagein_segs os bos eos g pageno segs = Some (os', 0) \<and> dec_any os' \<and> os_serialno os' = os_serialno os
    \<and> queued os' = length ls + length segs"
proof -
  have "- 1 < os_lacing_fill os" using lac by (auto simp: lacing_ok_def)
  then obtain os1 saved ls1 gs1 k1 l1 g1 f1 p1 where st: "store_segs os bos (-1) segs = Some (os1, saved)" "lacing_ok os1 0 ls1 gs1"
    "os_lacing_packet os1 = int k1" "queue_ok ls1 k1 (length xs)" "saved < os_lacing_fill os1" "- 1 \<le> saved"
    "length ls1 = length ls + length segs" "os1 = os\<lparr>os_lacing := l1, os_granule := g1, os_lacing_fill := f1, os_lacing_packet := p1\<rparr>"
    using store_segs_any [OF lac pk q room, of "-1" bos] unfolding n by auto
  have fill: "os_lacing_fill os1 = int (length ls1)" using st(2) by (auto simp: lacing_ok_def)
  obtain os2 gr2 gs2 where gr: "(if saved \<noteq> -1 then do {
         gr \<leftarrow> os_granule os1; gr \<leftarrow> wr gr saved g; Some (os1\<lparr>os_granule := Some gr\<rparr>) } else Some os1) = Some os2"
    "lacing_ok os2 0 ls1 gs2" "os2 = os1\<lparr>os_granule := gr2\<rparr>"
  proof (cases "saved = -1")
    case True
    then show thesis using that [of os1 gs1 "os_granule os1"] st(2) by simp
  next
    case False
    then have s: "nat saved < length ls1" "saved = int (nat saved)" using st(5,6) fill by auto
    obtain gr gr' where w: "os_granule os1 = Some gr" "wr gr saved g = Some gr'"
      "lacing_ok (os1\<lparr>os_granule := Some gr'\<rparr>) 0 ls1 (gs1[nat saved := g])"
      using lacing_update(2) [OF st(2) s(1), of g] s(2) by auto
    then show thesis using that [of "os1\<lparr>os_granule := Some gr'\<rparr>" "gs1[nat saved := g]" "Some gr'"] False by simp
  qed
  obtain os3 l3 ls3 e3 where eo: "(if eos then
         (let os = os2\<lparr>os_eos := True\<rparr> in
          if os_lacing_fill os > 0 then do {
            l \<leftarrow> os_lacing os;
            v \<leftarrow> rd l (os_lacing_fill os - 1);
            l \<leftarrow> wr l (os_lacing_fill os - 1) (v OR 0x200);
            Some (os\<lparr>os_lacing := Some l\<rparr>) }
          else Some os)
       else Some os2) = Some os3"
    "lacing_ok os3 0 ls3 gs2" "queue_ok ls3 k1 (length xs)" "length ls3 = length ls1" "os3 = os2\<lparr>os_eos := e3, os_lacing := l3\<rparr>"
  proof (cases "eos \<and> ls1 \<noteq> []")
    case False
    let ?os = "if eos then os2\<lparr>os_eos := True\<rparr> else os2"
    have "lacing_ok ?os 0 ls1 gs2" using gr(2) by (simp add: lacing_ok_def)
    moreover have "?os = os2\<lparr>os_eos := eos \<or> os_eos os2, os_lacing := os_lacing os2\<rparr>" by simp
    moreover have "os_lacing_fill os2 = 0" if eos using False that fill by (simp add: gr(3))
    ultimately show thesis using that [of ?os ls1 "os_lacing os2" "eos \<or> os_eos os2"] st(4) by (auto simp: Let_def)
  next
    case True
    let ?os = "os2\<lparr>os_eos := True\<rparr>"
    let ?i = "length ls1 - 1"
    have i: "?i < length ls1" "os_lacing_fill ?os - 1 = int ?i" "os_lacing_fill ?os > 0"
      using True fill by (auto simp: gr(3) of_nat_diff Suc_le_eq)
    have lac: "lacing_ok ?os 0 ls1 gs2" using gr(2) by (simp add: lacing_ok_def)
    obtain l l' where w: "os_lacing ?os = Some l" "rd l (int ?i) = Some (ls1 ! ?i)" "wr l (int ?i) (ls1 ! ?i OR 0x200) = Some l'"
      "lacing_ok (?os\<lparr>os_lacing := Some l'\<rparr>) 0 (ls1[?i := ls1 ! ?i OR 0x200]) gs2"
      using lacing_update(1) [OF lac i(1), of "ls1 ! ?i OR 0x200"] by blast
    show thesis
      using that [OF _ w(4) queue_eos [OF st(4) i(1)], of "Some l'" True] True w(1-3) i(2,3) by (simp add: Let_def)
  qed
  let ?os = "os3\<lparr>os_pageno := pageno + 1\<rparr>"
  have "pagein_segs os bos eos g pageno segs = Some (?os, 0)"
    using st(1) gr(1) eo(1) by (simp add: pagein_segs_def)
  moreover have "body_ok ?os xs" using body by (simp add: eo(5) gr(3) st(8) body_ok_def)
  moreover have "lacing_ok ?os 0 ls3 gs2" using eo(2) by (simp add: lacing_ok_def)
  moreover have "os_lacing_packet ?os = int (0 + k1)" using st(3) by (simp add: eo(5) gr(3))
  moreover have "os_serialno ?os = os_serialno os" by (simp add: eo(5) gr(3) st(8))
  moreover have "queued ?os = length ls + length segs"
    using queued_lacing [OF \<open>lacing_ok ?os 0 ls3 gs2\<close>] eo(4) st(7) by simp
  ultimately show ?thesis using eo(3) unfolding dec_any_def by blast
qed

lemma page_fields:
  assumes "page_wf p"
  obtains version continued bos eos g serialno pageno segs where
    "ogg_page_version p = Some version" "ogg_page_continued p = Some continued" "ogg_page_bos p = Some bos"
    "ogg_page_eos p = Some eos" "ogg_page_granulepos p = Some g" "ogg_page_serialno p = Some serialno"
    "ogg_page_pageno p = Some pageno" "rd (pg_header p) 26 = Some (of_nat (length segs))" "length segs \<le> 255"
    "rd_blk (pg_header p) 27 (int (length segs)) = Some segs" "length (pg_body p) = sum_list (map unat segs)"
    "length (pg_header p) = 27 + length segs"
proof -
  let ?h = "pg_header p" and ?n = "unat (pg_header p ! 26)"
  have h: "27 \<le> length ?h" "length ?h = 27 + ?n" "length (pg_body p) = sum_list (map unat (take ?n (drop 27 ?h)))"
    using assms by (auto simp: page_wf_def head_len_def body_len_def)
  let ?segs = "take ?n (drop 27 ?h)"
  have n: "length ?segs = ?n" "?n \<le> 255" using h(2) unsigned_less [of "?h ! 26", where 'a = nat] by simp_all
  have "rd_blk ?h 27 (int ?n) = Some ?segs" using rd_blk_nat [of 27 ?n ?h] h(2) by simp
  moreover have "rd ?h 26 = Some (of_nat ?n)" using rd_nat [of 26 ?h] h(1) by simp
  moreover have "rd ?h 4 \<noteq> None" "rd ?h 5 \<noteq> None" "rd_blk ?h 6 8 \<noteq> None" "rd_blk ?h 14 4 \<noteq> None" "rd_blk ?h 18 4 \<noteq> None"
    using h(1) by (simp_all add: rd_def rd_blk_def)
  ultimately show thesis
    using that [of _ _ _ _ _ _ _ ?segs] h(2,3) n
    by (auto simp: ogg_page_version_def ogg_page_continued_def ogg_page_bos_def ogg_page_eos_def
        ogg_page_granulepos_def ogg_page_serialno_def ogg_page_pageno_def)
qed


lemma pagein_any:
  assumes ok: "dec_any os" and mem: "mem_ok mem" and pg: "page_wf p"
  shows "\<exists>os' ret. ogg_stream_pagein mem os p = Some (os', ret) \<and>
    (ret \<in> {0, -1} \<and> dec_any os' \<and> os_serialno os' = os_serialno os \<and> queued os' + 26 \<le> queued os + length (pg_header p)
     \<or> ret = -1 \<and> os' = ogg_stream_zero)"
proof -
  obtain version continued bos eos g serialno pageno segs where f:
    "ogg_page_version p = Some version" "ogg_page_continued p = Some continued" "ogg_page_bos p = Some bos"
    "ogg_page_eos p = Some eos" "ogg_page_granulepos p = Some g" "ogg_page_serialno p = Some serialno"
    "ogg_page_pageno p = Some pageno" "rd (pg_header p) 26 = Some (of_nat (length segs))" "length segs \<le> 255"
    "rd_blk (pg_header p) 27 (int (length segs)) = Some segs" "length (pg_body p) = sum_list (map unat segs)"
    "length (pg_header p) = 27 + length segs"
    by (rule page_fields [OF pg])
  have u: "uint (of_nat (length segs) :: byte) = int (length segs)"
    using f(9) by (simp add: unsigned_of_nat take_bit_nat_eq_self_iff)
  obtain xs ls gs r k where body: "body_ok os xs" and lac: "lacing_ok os r ls gs"
    and pk: "os_lacing_packet os = int (r + k)" and q: "queue_ok ls k (length xs)"
    using ok by (auto simp: dec_any_def)
  obtain os1 b1 n1 where s1: "shift_body os = Some os1" "body_ok os1 xs"
    "os1 = os\<lparr>os_body := b1, os_body_fill := n1, os_body_returned := 0\<rparr>"
    using shift_body_ok [OF body] by blast
  have "lacing_ok os1 r ls gs" using lac by (simp add: s1(3) lacing_ok_def)
  from shift_lacing_ok [OF this]
  obtain os2 l2 g2 n2 p2 where s2: "shift_lacing os1 = Some os2" "lacing_ok os2 0 ls gs" "os_lacing_packet os2 = int k"
    "os2 = os1\<lparr>os_lacing := l2, os_granule := g2, os_lacing_fill := n2, os_lacing_packet := p2, os_lacing_returned := 0\<rparr>"
    using pk by (auto simp: s1(3))
  have body2: "body_ok os2 xs" using s1(2) by (simp add: s2(4) body_ok_def)
  have any2: "dec_any os2"
    unfolding dec_any_def using body2 s2(2,3) q
    by (intro exI [of _ xs] exI [of _ ls] exI [of _ gs] exI [of _ "0::nat"] exI [of _ k]) simp
  have ser2: "os_serialno os2 = os_serialno os" by (simp add: s2(4) s1(3))
  note run0 = f s1(1) s2(1) dec_any_check [OF ok]
  show ?thesis
  proof (cases "serialno \<noteq> os_serialno os2 \<or> version > 0")
    case True
    then have "ogg_stream_pagein mem os p = Some (os2, -1)"
      using run0 by (auto simp: ogg_stream_pagein_def)
    moreover have "queued os2 = queued os" using queued_lacing [OF lac] queued_lacing [OF s2(2)] by simp
    ultimately show ?thesis using any2 ser2 f(12) by simp
  next
    case same: False
    obtain os3 err where e: "os_lacing_expand mem os2 (int (length segs) + 1) = (os3, err)" by fastforce
    consider (err) "os3 = ogg_stream_zero" "err"
      | (ok) l3 g3 st3 where "\<not> err" "lacing_ok os3 0 ls gs"
        "os_lacing_fill os3 + (int (length segs) + 1) \<le> os_lacing_storage os3"
        "os3 = os2\<lparr>os_lacing := l3, os_granule := g3, os_lacing_storage := st3\<rparr>"
      using os_lacing_expand_ok [OF s2(2) mem, of "int (length segs) + 1"] e by auto
    then show ?thesis
    proof cases
      case err
      then show ?thesis using same e run0 u by (simp add: ogg_stream_pagein_def)
    next
      case ok3: ok
      have mid3: "dec_mid os3 xs ls gs k (length xs)"
        using body2 ok3(2) s2(3) q by (simp add: dec_mid_def ok3(4) body_ok_def)
      have "os_lacing_fill os3 < os_lacing_storage os3" using ok3(3) by linarith
      from note_gap_any [OF mid3 this, of pageno]
      obtain os4 xs4 ls4 gs4 k4 where s4: "note_gap os3 pageno = Some os4" "dec_mid os4 xs4 ls4 gs4 k4 (length xs4)"
        "os_lacing_fill os4 \<le> os_lacing_fill os3 + 1" "os_lacing_storage os4 = os_lacing_storage os3"
        "os_serialno os4 = os_serialno os3" by blast
      have room4: "os_lacing_fill os4 + int (length segs) \<le> os_lacing_storage os4" using s4(3,4) ok3(3) by linarith
      have mid4: "body_ok os4 xs4" "lacing_ok os4 0 ls4 gs4" "os_lacing_packet os4 = int k4" "queue_ok ls4 k4 (length xs4)"
        using s4(2) by (simp_all add: dec_mid_def)
      have "\<exists>m. (if continued then start_missing os4 else Some False) = Some m"
      proof (cases "continued \<and> os_lacing_fill os4 \<ge> 1")
        case True
        then have i: "length ls4 - 1 < length ls4" "os_lacing_fill os4 - 1 = int (length ls4 - 1)"
          using mid4(2) by (auto simp: lacing_ok_def of_nat_diff)
        obtain l where "os_lacing os4 = Some l" "rd l (int (length ls4 - 1)) = Some (ls4 ! (length ls4 - 1))"
          using lacing_update(1) [OF mid4(2) i(1)] by blast
        then show ?thesis using True i(2) by (simp add: start_missing_def)
      qed (auto simp: start_missing_def)
      then obtain missing where miss: "(if continued then start_missing os4 else Some False) = Some missing" by blast
      obtain n b where sk: "(if missing then skip_segs segs else (0, 0)) = (n, b)" by fastforce
      have nb: "n \<le> length segs" "b = int (sum_list (map unat (take n segs)))"
        using skip_segs_sum [of segs n b] sk by (cases missing; simp)+
      have sum: "sum_list (map unat (take n segs)) + sum_list (map unat (drop n segs)) = length (pg_body p)"
        unfolding f(11) sum_list_append [symmetric] map_append [symmetric] by simp
      let ?c = "sum_list (map unat (take n segs))"
      let ?body = "drop ?c (pg_body p)"
      have blk: "rd_blk (pg_body p) b (int (length (pg_body p)) - b) = Some ?body"
        using rd_blk_nat [of ?c "length (pg_body p) - ?c" "pg_body p"] sum by (simp add: nb(2) of_nat_diff)
      have run: "ogg_stream_pagein mem os p = (let (os5, err) = (if ?body \<noteq> [] then os_body_expand mem os4 (int (length ?body)) else (os4, False)) in
          if err then Some (os5, -1) else do {
            os6 \<leftarrow> (if ?body \<noteq> [] then append_body os5 ?body else Some os5);
            pagein_segs os6 (bos \<and> \<not> missing) eos g pageno (drop n segs) })"
        using same run0 u e ok3(1) s4(1) miss sk blk
        by (simp add: ogg_stream_pagein_def case_prod_unfold Let_def)
      have al: "alloc_ok (mem_body mem)" using mem by (simp add: mem_ok_def)
      from store_body [OF mid4(1) al, of ?body]
      show ?thesis
      proof
        assume "\<exists>os1 os2. (if ?body \<noteq> [] then os_body_expand mem os4 (int (length ?body)) else (os4, False)) = (os1, False)
          \<and> (if ?body \<noteq> [] then append_body os1 ?body else Some os1) = Some os2 \<and> body_ok os2 (xs4 @ ?body)
          \<and> os_body_storage os2 \<le> max (os_body_storage os4) (os_body_fill os4 + 2 * int (length ?body) + 1024)
          \<and> (\<exists>b st n. os2 = os4\<lparr>os_body := b, os_body_storage := st, os_body_fill := n\<rparr>)"
        then obtain os5 os6 b6 st6 n6 where s6: "(if ?body \<noteq> [] then os_body_expand mem os4 (int (length ?body)) else (os4, False)) = (os5, False)"
          "(if ?body \<noteq> [] then append_body os5 ?body else Some os5) = Some os6" "body_ok os6 (xs4 @ ?body)"
          "os6 = os4\<lparr>os_body := b6, os_body_storage := st6, os_body_fill := n6\<rparr>"
          by blast
        have lac6: "lacing_ok os6 0 ls4 gs4" "os_lacing_packet os6 = int k4"
          "os_lacing_fill os6 + int (length (drop n segs)) \<le> os_lacing_storage os6"
          using mid4(2,3) room4 nb(1) by (simp_all add: s6(4) lacing_ok_def)
        have len: "length xs4 + sum_list (map unat (drop n segs)) = length (xs4 @ ?body)" using sum by simp
        obtain os7 where "pagein_segs os6 (bos \<and> \<not> missing) eos g pageno (drop n segs) = Some (os7, 0)" "dec_any os7"
          "os_serialno os7 = os_serialno os6" "queued os7 = length ls4 + length (drop n segs)"
          using pagein_segs_any [OF s6(3) lac6(1,2) mid4(4) len lac6(3)] by blast
        moreover have "length ls4 \<le> length ls + 1"
          using s4(3) mid4(2) ok3(2) by (auto simp: lacing_ok_def)
        then have "length ls4 + length (drop n segs) + 26 \<le> queued os + length (pg_header p)"
          using queued_lacing [OF lac] f(12) by simp
        moreover have "os_serialno os6 = os_serialno os" using s4(5) ser2 by (simp add: s6(4) ok3(4))
        ultimately show ?thesis unfolding run Let_def s6(1) using s6(2) by simp
      next
        assume "(if ?body \<noteq> [] then os_body_expand mem os4 (int (length ?body)) else (os4, False)) = (ogg_stream_zero, True)
          \<and> (mem_fails mem \<or> os_body_storage os4 > LONG_MAX - int (length ?body))"
        then show ?thesis unfolding run Let_def by simp
      qed
    qed
  qed
qed


section \<open>Any bytes\<close>

lemma zero_stream:
  "ogg_stream_packetout ogg_stream_zero = Some (ogg_stream_zero, 0, None)"
  "page_wf p \<Longrightarrow> ogg_stream_pagein mem ogg_stream_zero p = Some (ogg_stream_zero, -1)"
proof -
  have z: "\<not> ogg_stream_check ogg_stream_zero" by (simp add: ogg_stream_check_def ogg_stream_zero_def)
  show "ogg_stream_packetout ogg_stream_zero = Some (ogg_stream_zero, 0, None)"
    by (simp add: ogg_stream_packetout_def z)
  show "ogg_stream_pagein mem ogg_stream_zero p = Some (ogg_stream_zero, -1)" if pg: "page_wf p"
    by (rule page_fields [OF pg]) (simp add: ogg_stream_pagein_def z)
qed

lemma zero_queued: "queued ogg_stream_zero = 0"
  by (simp add: queued_def ogg_stream_zero_def)

lemma packetout_safe:
  assumes "dec_safe os"
  shows "\<exists>os' ret p. ogg_stream_packetout os = Some (os', ret, p) \<and> dec_safe os'
    \<and> (ret = 0 \<and> os' = os \<or> waiting os' < waiting os \<and> queued os' < queued os \<and> (ret = -1 \<or> ret = 1 \<and> p \<noteq> None))"
proof (cases "dec_any os")
  case True
  from packetout_any [OF this] show ?thesis unfolding dec_safe_def by auto
next
  case False
  then have "os = ogg_stream_zero" using assms by (simp add: dec_safe_def)
  then show ?thesis using zero_stream(1) unfolding dec_safe_def by auto
qed

lemma pagein_safe:
  assumes "dec_safe os" and "mem_ok mem" and "page_wf p"
  shows "\<exists>os' ret. ogg_stream_pagein mem os p = Some (os', ret) \<and> dec_safe os' \<and> ret \<in> {0, -1}
    \<and> queued os' + 26 \<le> queued os + length (pg_header p)"
proof (cases "dec_any os")
  case True
  have "26 \<le> length (pg_header p)" using assms(3) by (simp add: page_wf_def)
  then show ?thesis
    using pagein_any [OF True assms(2,3)] unfolding dec_safe_def by (auto simp: zero_queued)
next
  case False
  then have "os = ogg_stream_zero" using assms(1) by (simp add: dec_safe_def)
  moreover have "26 \<le> length (pg_header p)" using assms(3) by (simp add: page_wf_def)
  ultimately show ?thesis using zero_stream(2) [OF assms(3)] unfolding dec_safe_def by (auto simp: zero_queued)
qed

lemma drain_safe: "dec_safe os \<Longrightarrow> waiting os \<le> fuel \<Longrightarrow> \<exists>os' ops. drain fuel os = Some (os', ops) \<and> dec_safe os'"
proof (induction fuel arbitrary: os)
  case 0
  then obtain p where "ogg_stream_packetout os = Some (os, 0, p)" using packetout_safe [of os] by auto
  then show ?case using 0(1) by (simp add: drain.simps [of 0])
next
  case (Suc fuel)
  obtain os1 ret p where 1: "ogg_stream_packetout os = Some (os1, ret, p)" "dec_safe os1"
    "ret = 0 \<and> os1 = os \<or> ret \<noteq> 0 \<and> waiting os1 < waiting os"
    using packetout_safe [OF Suc.prems(1)] by fastforce
  show ?case
  proof (cases "ret = 0")
    case True
    then show ?thesis using 1 by (simp add: drain.simps [of "Suc fuel"])
  next
    case False
    then obtain os2 ops where "drain fuel os1 = Some (os2, ops)" "dec_safe os2"
      using Suc.IH [OF 1(2)] 1(3) Suc.prems(2) by auto
    then show ?thesis using 1(1) False by (simp add: drain.simps [of "Suc fuel"])
  qed
qed

lemma waiting_fill: "dec_safe os \<Longrightarrow> waiting os \<le> nat (os_lacing_fill os)"
  by (auto simp: dec_safe_def dec_any_def lacing_ok_def queue_ok_def waiting_def ogg_stream_zero_def)

lemma scan_consumes: "scan u xs = (ret, og, u', ys) \<Longrightarrow>
    ret = 0 \<and> og = None \<and> length ys \<le> length xs \<or> ret = -1 \<and> og = None \<and> length ys < length xs
    \<or> ret = 1 \<and> (\<exists>p. og = Some p \<and> page_wf p \<and> length ys + length (page_bytes p) \<le> length xs)"
proof (induction u xs rule: scan.induct)
  case (1 u xs)
  show ?case
  proof (cases "seek xs")
    case Wait
    then show ?thesis using 1(2) by (simp add: scan.simps [of u])
  next
    case (Page p)
    then have "page_wf p" "\<exists>zs. xs = page_bytes p @ zs" using seek_Page by blast+
    then show ?thesis using 1(2) Page by (auto simp: scan.simps [of u])
  next
    case (Skip n)
    then have n: "0 < n" "n \<le> length xs" using seek_Skip by blast+
    show ?thesis
    proof (cases u)
      case True
      then have e: "scan True (drop n xs) = (ret, og, u', ys)" using 1(2) Skip True by (simp add: scan.simps [of True xs])
      show ?thesis using 1(1) [OF Skip True e] n by auto
    next
      case False
      then show ?thesis using 1(2) Skip n by (auto simp: scan.simps [of False xs])
    qed
  qed
qed

lemma page_wf_long: "page_wf p \<Longrightarrow> 27 \<le> length (page_bytes p)"
  by (simp add: page_wf_def page_bytes_def)

lemma pageout_scan:
  assumes "sync_ok oy xs"
  obtains oy1 ret og u ys where "ogg_sync_pageout oy = Some (oy1, ret, og)" "scan (sy_unsynced oy) xs = (ret, og, u, ys)"
    "sync_ok oy1 ys" "sy_storage oy1 = sy_storage oy"
  using ogg_sync_pageout_result [OF assms] by (cases "scan (sy_unsynced oy) xs") auto

lemma read_pages_safe:
  assumes "mem_ok mem"
  shows "sync_ok oy xs \<Longrightarrow> dec_safe os \<Longrightarrow> length xs \<le> fuel \<Longrightarrow>
    \<exists>oy' os' ops ok ys. read_pages fuel mem oy os = Some (oy', os', ops, ok) \<and> sync_ok oy' ys \<and> dec_safe os'
      \<and> sy_storage oy' = sy_storage oy"
proof (induction fuel arbitrary: oy xs os)
  case 0
  obtain oy1 ret og u ys where p: "ogg_sync_pageout oy = Some (oy1, ret, og)" "scan (sy_unsynced oy) xs = (ret, og, u, ys)"
    "sync_ok oy1 ys" "sy_storage oy1 = sy_storage oy"
    by (rule pageout_scan [OF 0(1)])
  have "ret = 0" using scan_consumes [OF p(2)] 0(3) page_wf_long by fastforce
  then show ?case using p 0(2) by (auto simp: read_pages.simps [of 0])
next
  case (Suc fuel)
  obtain oy1 ret og u ys where p: "ogg_sync_pageout oy = Some (oy1, ret, og)" "scan (sy_unsynced oy) xs = (ret, og, u, ys)"
    "sync_ok oy1 ys" "sy_storage oy1 = sy_storage oy"
    by (rule pageout_scan [OF Suc.prems(1)])
  note sc = scan_consumes [OF p(2)]
  show ?case
  proof (cases "ret = 0")
    case True
    then show ?thesis using p Suc.prems(2) by (auto simp: read_pages.simps [of "Suc fuel"])
  next
    case ret: False
    then have len: "length ys \<le> fuel" using sc Suc.prems(3) page_wf_long by fastforce
    show ?thesis
    proof (cases og)
      case None
      then show ?thesis
        using Suc.IH [OF p(3) Suc.prems(2) len] p(1,4) ret by (simp add: read_pages.simps [of "Suc fuel"])
    next
      case (Some pg)
      then have "page_wf pg" using sc by blast
      then obtain os1 r1 where 1: "ogg_stream_pagein mem os pg = Some (os1, r1)" "dec_safe os1"
        using pagein_safe [OF Suc.prems(2) assms] by blast
      show ?thesis
      proof (cases "r1 = 0")
        case False
        then show ?thesis using p Some ret 1 by (auto simp: read_pages.simps [of "Suc fuel"])
      next
        case True
        obtain os2 ops where 2: "drain (nat (os_lacing_fill os1)) os1 = Some (os2, ops)" "dec_safe os2"
          using drain_safe [OF 1(2) waiting_fill [OF 1(2)]] by blast
        show ?thesis
          using Suc.IH [OF p(3) 2(2) len] p(1,4) Some ret True 1(1) 2(1)
          by (auto simp: read_pages.simps [of "Suc fuel"])
      qed
    qed
  qed
qed

text \<open>C34: Any bytes are safe to decode: whatever a file holds and in whatever pieces it arrives, the search for
  pages, the decoder of a logical stream and the loops of their client return, without an access outside a block.
  The pages may be damaged, missing, repeated, out of order, of another stream or encoder, or have any flags.
  The decoder stays consistent, or has been cleared after a shortage of memory.\<close>

theorem ogg_any_bytes_safe:
  assumes "mem_ok mem" and "alloc_ok al"
  shows "\<lbrakk>sync_ok oy xs; dec_safe os; [] \<notin> set xss\<rbrakk>
    \<Longrightarrow> \<exists>oy' os' ops ok. demux al mem oy os xss = Some (oy', os', ops, ok) \<and> dec_safe os'"
proof (induction xss arbitrary: oy xs os)
  case (Cons ys xss)
  have ne: "ys \<noteq> []" "[] \<notin> set xss" using Cons.prems(3) by auto
  obtain oy1 b where b: "ogg_sync_buffer al oy (int (length ys)) = Some (oy1, b)"
    "b \<longrightarrow> sync_ok oy1 xs \<and> sy_fill oy1 + int (length ys) \<le> sy_storage oy1"
    using ogg_sync_buffer_ok [OF Cons.prems(1) assms(2) of_nat_0_le_iff [of "length ys"]] by blast
  show ?case
  proof (cases b)
    case False
    then show ?thesis
      using b(1) Cons.prems(2) by (intro exI [of _ oy1] exI [of _ os] exI [of _ "[]"] exI [of _ False]) simp
  next
    case True
    then have b1: "sync_ok oy1 xs" "sy_fill oy1 + int (length ys) \<le> sy_storage oy1" using b(2) by auto
    have "0 < sy_storage oy1" using b1 ne(1) by (cases ys) (auto simp: sync_ok_def)
    then obtain oy2 oy3 where s: "sync_store oy1 ys = Some oy2" "ogg_sync_wrote oy2 (int (length ys)) = (oy3, 0)"
      "sync_ok oy3 (xs @ ys)"
      using sync_store_ok [OF b1] by blast
    have fuel: "length (xs @ ys) \<le> nat (sy_fill oy3)" using s(3) by (auto simp: sync_ok_def)
    obtain oy4 os4 ops ok zs where r: "read_pages (nat (sy_fill oy3)) mem oy3 os = Some (oy4, os4, ops, ok)"
      "sync_ok oy4 zs" "dec_safe os4"
      using read_pages_safe [OF assms(1) s(3) Cons.prems(2) fuel] by blast
    show ?thesis
      using Cons.IH [OF r(2,3) ne(2)] b(1) True s(1,2) r(1,3) by (cases ok) auto
  qed
qed (simp, rule exI [of _ True], simp)

theorem ogg_any_bytes_safe_witness:
  "\<exists>os. ogg_stream_init demo_mem 5 = (os, 0)
    \<and> (\<exists>oy' os' ops ok. demux (mem_body demo_mem) demo_mem ogg_sync_init os [[0x4f, 0x67], replicate 300 0xff, OggS] = Some (oy', os', ops, ok)
        \<and> dec_safe os')"
proof -
  obtain os where os: "ogg_stream_init demo_mem 5 = (os, 0)" by (simp add: ogg_stream_init_def demo_mem_def)
  have "dec_safe os" using init_dec_any [OF demo_mem_ok(1) os] by (simp add: dec_safe_def)
  moreover have "[] \<notin> set [[0x4f, 0x67], replicate 300 0xff, OggS]" by (simp add: OggS_def)
  moreover have "alloc_ok (mem_body demo_mem)" using demo_mem_ok(1) by (simp add: mem_ok_def)
  ultimately show ?thesis
    using ogg_any_bytes_safe [OF demo_mem_ok(1) _ sync_init_ok] os by blast
qed

end
