(* ===== verification/VorbisComment.thy ===== *)
theory VorbisComment
  imports OggBase
begin

unbundle bit_operations_syntax

text \<open>
  \<^verbatim>\<open>src/vrb123/lib/info.c\<close>, first part: the comments (tags) of a Vorbis stream in memory. The Ogg
  plug-in shows them with \<open>vorbis_comment_query\<close> and edits them with \<open>vorbis_comment_clear_tag\<close>,
  which the project has added to the library, and \<open>vorbis_comment_add_tag\<close>.

  A pointer to an array or a string is \<open>None\<close> for \<open>NULL\<close> or the block that it points to, with the
  \<open>NUL\<close> at the end of a string. Sizes are taken modulo the range of a \<open>size_t\<close> of 32 bits. The three
  allocators give blocks of characters, of pointers and of \<open>int\<close>s, or \<open>None\<close>.
\<close>

record mem =
  chars :: "byte alloc"
  ptrs :: "byte list option alloc"
  ints :: "int alloc"

record vorbis_comment =
  vc_user :: "byte list option list option"
  vc_lens :: "int list option"
  vc_comments :: int
  vc_vendor :: "byte list option"

section \<open>Strings\<close>

text \<open>The characters in front of the \<open>NUL\<close>.\<close>

definition cstring :: "byte list \<Rightarrow> byte list option" where
  "cstring blk = (if 0 \<in> set blk then Some (takeWhile (\<lambda>c. c \<noteq> 0) blk) else None)"

definition toupper_byte :: "byte \<Rightarrow> byte" where
  "toupper_byte c = (if 0x61 \<le> c \<and> c \<le> 0x7A then c - 0x20 else c)"

text \<open>\<open>tag=\<close> with its \<open>NUL\<close>.\<close>

definition full_tag :: "byte list \<Rightarrow> byte list option" where
  "full_tag tag = do { t \<leftarrow> cstring tag; Some (t @ [0x3D, 0]) }"

section \<open>Comments in memory\<close>

definition vorbis_comment_init :: vorbis_comment where
  "vorbis_comment_init = \<lparr>vc_user = None, vc_lens = None, vc_comments = 0, vc_vendor = None\<rparr>"

text \<open>A block of \<open>n\<close> elements of four bytes.\<close>

definition elems :: "int \<Rightarrow> int" where
  "elems n = n mod 2 ^ 30"

definition regrow :: "'a alloc \<Rightarrow> 'a list option \<Rightarrow> int \<Rightarrow> 'a list option" where
  "regrow al p n = realloc al (case p of None \<Rightarrow> [] | Some blk \<Rightarrow> blk) (elems n)"

definition vorbis_comment_add :: "mem \<Rightarrow> vorbis_comment \<Rightarrow> byte list \<Rightarrow> vorbis_comment option" where
  "vorbis_comment_add m vc comment = (let n = vc_comments vc in
     if n + 2 > LONG_MAX then None else do {
       us \<leftarrow> regrow (ptrs m) (vc_user vc) (n + 2);
       ls \<leftarrow> regrow (ints m) (vc_lens vc) (n + 2);
       s \<leftarrow> cstring comment;
       ls \<leftarrow> wr ls n (int (length s));
       blk \<leftarrow> chars m (int (length s) + 1);
       blk \<leftarrow> wr_blk blk 0 (s @ [0]);
       us \<leftarrow> wr us n (Some blk);
       us \<leftarrow> wr us (n + 1) None;
       Some (vc\<lparr>vc_user := Some us, vc_lens := Some ls, vc_comments := n + 1\<rparr>) })"

definition vorbis_comment_add_tag :: "mem \<Rightarrow> vorbis_comment \<Rightarrow> byte list \<Rightarrow> byte list \<Rightarrow> vorbis_comment option" where
  "vorbis_comment_add_tag m vc tag contents = do {
     t \<leftarrow> cstring tag;
     c \<leftarrow> cstring contents;
     vorbis_comment_add m vc (t @ [0x3D] @ c @ [0]) }"

text \<open>Whether the first \<open>n\<close> characters from position \<open>c\<close> on differ.\<close>

fun tagcompare_loop :: "byte list \<Rightarrow> byte list \<Rightarrow> nat \<Rightarrow> nat \<Rightarrow> bool option" where
  "tagcompare_loop s1 s2 c 0 = Some False"
| "tagcompare_loop s1 s2 c (Suc n) = do {
     x \<leftarrow> rd s1 (int c);
     y \<leftarrow> rd s2 (int c);
     if toupper_byte x \<noteq> toupper_byte y then Some True else tagcompare_loop s1 s2 (Suc c) n }"

definition tagcompare :: "byte list \<Rightarrow> byte list \<Rightarrow> int \<Rightarrow> bool option" where
  "tagcompare s1 s2 n = tagcompare_loop s1 s2 0 (nat n)"

text \<open>The string \<open>vc->user_comments[i]\<close>.\<close>

definition user_comment :: "vorbis_comment \<Rightarrow> int \<Rightarrow> byte list option" where
  "user_comment vc i = do { us \<leftarrow> vc_user vc; p \<leftarrow> rd us i; p }"

text \<open>The pointer that a query returns is the number of the comment and an offset; \<open>NULL\<close> is \<open>None\<close>.\<close>

function query_loop :: "vorbis_comment \<Rightarrow> byte list \<Rightarrow> int \<Rightarrow> int \<Rightarrow> int \<Rightarrow> int \<Rightarrow> (int \<times> int) option option" where
  "query_loop vc fulltag taglen k i found =
    (if i < vc_comments vc then do {
       s \<leftarrow> user_comment vc i;
       differ \<leftarrow> tagcompare s fulltag taglen;
       if \<not> differ then
         (if k = found then Some (Some (i, taglen)) else query_loop vc fulltag taglen k (i + 1) (found + 1))
       else query_loop vc fulltag taglen k (i + 1) found }
     else Some None)"
  by pat_completeness auto

termination by (relation "measure (\<lambda>(vc, fulltag, taglen, k, i, found). nat (vc_comments vc - i))") auto

definition vorbis_comment_query :: "vorbis_comment \<Rightarrow> byte list \<Rightarrow> int \<Rightarrow> (int \<times> int) option option" where
  "vorbis_comment_query vc tag k = do {
     fulltag \<leftarrow> full_tag tag;
     query_loop vc fulltag (int (length fulltag) - 1) k 0 0 }"

function count_loop :: "vorbis_comment \<Rightarrow> byte list \<Rightarrow> int \<Rightarrow> int \<Rightarrow> int \<Rightarrow> int option" where
  "count_loop vc fulltag taglen i k =
    (if i < vc_comments vc then do {
       s \<leftarrow> user_comment vc i;
       differ \<leftarrow> tagcompare s fulltag taglen;
       count_loop vc fulltag taglen (i + 1) (if differ then k else k + 1) }
     else Some k)"
  by pat_completeness auto

termination by (relation "measure (\<lambda>(vc, fulltag, taglen, i, k). nat (vc_comments vc - i))") auto

definition vorbis_comment_query_count :: "vorbis_comment \<Rightarrow> byte list \<Rightarrow> int option" where
  "vorbis_comment_query_count vc tag = do {
     fulltag \<leftarrow> full_tag tag;
     count_loop vc fulltag (int (length fulltag) - 1) 0 0 }"

text \<open>\<open>memmove\<close> of \<open>n\<close> elements from \<open>i + 1\<close> to \<open>i\<close>.\<close>

definition close_gap :: "'a list \<Rightarrow> int \<Rightarrow> int \<Rightarrow> 'a list option" where
  "close_gap xs i n = do { ys \<leftarrow> rd_blk xs (i + 1) n; wr_blk xs i ys }"

fun clear_loop :: "vorbis_comment \<Rightarrow> byte list \<Rightarrow> int \<Rightarrow> nat \<Rightarrow> int \<Rightarrow> (vorbis_comment \<times> int) option" where
  "clear_loop vc fulltag taglen 0 k = Some (vc, k)"
| "clear_loop vc fulltag taglen (Suc i) k = do {
     s \<leftarrow> user_comment vc (int i);
     differ \<leftarrow> tagcompare s fulltag taglen;
     if \<not> differ then do {
       us \<leftarrow> vc_user vc;
       us \<leftarrow> close_gap us (int i) (vc_comments vc - int i);
       ls \<leftarrow> vc_lens vc;
       ls \<leftarrow> close_gap ls (int i) (vc_comments vc - int i);
       clear_loop (vc\<lparr>vc_user := Some us, vc_lens := Some ls, vc_comments := vc_comments vc - 1\<rparr>)
         fulltag taglen i (k + 1) }
     else clear_loop vc fulltag taglen i k }"

definition vorbis_comment_clear_tag :: "mem \<Rightarrow> vorbis_comment \<Rightarrow> byte list \<Rightarrow> (vorbis_comment \<times> int) option" where
  "vorbis_comment_clear_tag m vc tag = do {
     fulltag \<leftarrow> full_tag tag;
     (vc, k) \<leftarrow> clear_loop vc fulltag (int (length fulltag) - 1) (nat (vc_comments vc)) 0;
     if k \<noteq> 0 then
       Some (vc\<lparr>vc_user := regrow (ptrs m) (vc_user vc) (vc_comments vc + 1),
                vc_lens := regrow (ints m) (vc_lens vc) (vc_comments vc + 1)\<rparr>, k)
     else Some (vc, k) }"

text \<open>All strings are released; each pointer up to the count is looked at.\<close>

definition vorbis_comment_clear :: "vorbis_comment \<Rightarrow> vorbis_comment option" where
  "vorbis_comment_clear vc =
    (case vc_user vc of
       None \<Rightarrow> Some vorbis_comment_init
     | Some us \<Rightarrow> if vc_comments vc \<le> int (length us) then Some vorbis_comment_init else None)"

declare query_loop.simps [simp del] count_loop.simps [simp del]

section \<open>The comments as a list\<close>

text \<open>The structure holds the texts \<open>cs\<close>.\<close>

definition holds :: "vorbis_comment \<Rightarrow> byte list list \<Rightarrow> bool" where
  "holds vc cs \<longleftrightarrow> vc_comments vc = int (length cs) \<and>
     (case vc_user vc of None \<Rightarrow> cs = [] | Some us \<Rightarrow> \<exists>r. us = map (\<lambda>c. Some (c @ [0])) cs @ None # r) \<and>
     (case vc_lens vc of None \<Rightarrow> cs = [] | Some ls \<Rightarrow> \<exists>x r. ls = map (\<lambda>c. int (length c)) cs @ x # r)"

text \<open>Whether a text is a value of the tag.\<close>

definition has_tag :: "byte list \<Rightarrow> byte list \<Rightarrow> bool" where
  "has_tag t c \<longleftrightarrow> map toupper_byte (take (length t + 1) c) = map toupper_byte (t @ [0x3D])"

definition mem_good :: "mem \<Rightarrow> bool" where
  "mem_good m \<longleftrightarrow> alloc_ok (chars m) \<and> alloc_ok (ptrs m) \<and> alloc_ok (ints m) \<and>
     (\<forall>n \<le> LONG_MAX. chars m n \<noteq> None \<and> ptrs m n \<noteq> None \<and> ints m n \<noteq> None)"

lemma cstring_NUL: "0 \<notin> set s \<Longrightarrow> cstring (s @ 0 # r) = Some s"
  by (induction s) (auto simp: cstring_def split: if_splits)

lemma cstring_Some: "cstring blk = Some s \<Longrightarrow> 0 \<notin> set s \<and> (\<exists>r. blk = s @ 0 # r)"
proof -
  assume a: "cstring blk = Some s"
  then have z: "0 \<in> set blk" and s: "s = takeWhile (\<lambda>c. c \<noteq> 0) blk"
    by (auto simp: cstring_def split: if_splits)
  have "dropWhile (\<lambda>c. c \<noteq> 0) blk \<noteq> []" using z by (simp add: dropWhile_eq_Nil_conv)
  then obtain x r where x: "dropWhile (\<lambda>c. c \<noteq> 0) blk = x # r" by (cases "dropWhile (\<lambda>c. c \<noteq> 0) blk") auto
  then have "x = 0" using hd_dropWhile [of "\<lambda>c. c \<noteq> 0" blk] by simp
  moreover have "blk = s @ x # r" using takeWhile_dropWhile_id [of "\<lambda>c. c \<noteq> 0" blk] x s by simp
  moreover have "0 \<notin> set s" using s by (auto dest: set_takeWhileD)
  ultimately show ?thesis by blast
qed


lemma regrow_prefix:
  assumes "alloc_ok al" and "al (int k) \<noteq> None" and k: "k < 2 ^ 30" and "length xs \<le> k"
    and "p = Some (xs @ r) \<or> p = None \<and> xs = []"
  shows "\<exists>r'. regrow al p (int k) = Some (xs @ r') \<and> length r' = k - length xs"
proof -
  obtain blk where blk: "al (int k) = Some blk" using assms(2) by blast
  then have "length blk = k" using assms(1) by (force simp: alloc_ok_def)
  moreover have "elems (int k) = int k" using k by (simp add: elems_def)
  ultimately have "regrow al p (int k) =
      Some (xs @ take (k - length xs) r @ drop (length xs + length r) blk)" if "p = Some (xs @ r)"
    using that blk assms(4) by (simp add: regrow_def realloc_def)
  moreover have "regrow al p (int k) = Some blk" if "p = None"
    using that blk \<open>elems (int k) = int k\<close> \<open>length blk = k\<close> by (simp add: regrow_def realloc_def)
  ultimately show ?thesis
    using assms(4,5) \<open>length blk = k\<close> by auto
qed

lemma holds_user: "holds vc cs \<Longrightarrow> i < length cs \<Longrightarrow> user_comment vc (int i) = Some (cs ! i @ [0])"
  by (auto simp: holds_def user_comment_def rd_def nth_append split: option.splits)

lemma holds_arrays:
  assumes "holds vc cs"
  shows "\<exists>r. vc_user vc = Some (map (\<lambda>c. Some (c @ [0])) cs @ r) \<or> vc_user vc = None \<and> cs = []"
    and "\<exists>r. vc_lens vc = Some (map (\<lambda>c. int (length c)) cs @ r) \<or> vc_lens vc = None \<and> cs = []"
  using assms by (auto simp: holds_def split: option.splits)

lemma mem_good_Some: "mem_good m \<Longrightarrow> k < 2 ^ 31 \<Longrightarrow>
    chars m (int k) \<noteq> None \<and> ptrs m (int k) \<noteq> None \<and> ints m (int k) \<noteq> None"
  by (simp add: mem_good_def LONG_MAX_def)

lemma block_of: "alloc_ok al \<Longrightarrow> al (int k) \<noteq> None \<Longrightarrow> \<exists>blk. al (int k) = Some blk \<and> length blk = k"
  by (force simp: alloc_ok_def)

lemma add_holds:
  assumes m: "mem_good m" and vc: "holds vc cs" and s: "cstring s = Some c"
    and n: "length cs + 2 < 2 ^ 30" and c: "length c + 1 < 2 ^ 31"
  shows "\<exists>vc'. vorbis_comment_add m vc s = Some vc' \<and> holds vc' (cs @ [c]) \<and> vc_vendor vc' = vc_vendor vc"
proof -
  let ?n = "length cs"
  have ok: "alloc_ok (chars m)" "alloc_ok (ptrs m)" "alloc_ok (ints m)" using m by (auto simp: mem_good_def)
  have k: "ptrs m (int (?n + 2)) \<noteq> None" "ints m (int (?n + 2)) \<noteq> None" "chars m (int (length c + 1)) \<noteq> None"
    using mem_good_Some [OF m, of "?n + 2"] mem_good_Some [OF m, of "length c + 1"] n c by auto
  obtain ru where u: "vc_user vc = Some (map (\<lambda>c. Some (c @ [0])) cs @ ru) \<or> vc_user vc = None \<and> cs = []"
    using holds_arrays(1) [OF vc] by blast
  obtain rl where l: "vc_lens vc = Some (map (\<lambda>c. int (length c)) cs @ rl) \<or> vc_lens vc = None \<and> cs = []"
    using holds_arrays(2) [OF vc] by blast
  obtain ru' where u': "regrow (ptrs m) (vc_user vc) (int (?n + 2)) = Some (map (\<lambda>c. Some (c @ [0])) cs @ ru')" "length ru' = 2"
    using regrow_prefix [OF ok(2) k(1) n, of "map (\<lambda>c. Some (c @ [0])) cs" "vc_user vc" ru] u by auto
  obtain rl' where l': "regrow (ints m) (vc_lens vc) (int (?n + 2)) = Some (map (\<lambda>c. int (length c)) cs @ rl')" "length rl' = 2"
    using regrow_prefix [OF ok(3) k(2) n, of "map (\<lambda>c. int (length c)) cs" "vc_lens vc" rl] l by auto
  obtain u0 u1 where ru': "ru' = [u0, u1]" using u'(2) by (auto simp: length_Suc_conv numeral_2_eq_2)
  obtain l0 l1 where rl': "rl' = [l0, l1]" using l'(2) by (auto simp: length_Suc_conv numeral_2_eq_2)
  obtain blk where blk: "chars m (int (length c + 1)) = Some blk" "length blk = length c + 1"
    using block_of [OF ok(1) k(3)] by blast
  have w: "wr_blk blk 0 (c @ [0]) = Some (c @ [0])"
    using blk(2) by (simp add: wr_blk_def)
  have wl: "wr (map (\<lambda>c. int (length c)) cs @ rl') (int ?n) (int (length c))
      = Some (map (\<lambda>c. int (length c)) (cs @ [c]) @ [l1])"
    using wr_nat [of ?n "map (\<lambda>c. int (length c)) cs @ rl'"] by (simp add: rl' list_update_append)
  have wu: "wr (map (\<lambda>c. Some (c @ [0])) cs @ ru') (int ?n) (Some (c @ [0]))
      = Some (map (\<lambda>c. Some (c @ [0])) (cs @ [c]) @ [u1])"
    using wr_nat [of ?n "map (\<lambda>c. Some (c @ [0])) cs @ ru'"] by (simp add: ru' list_update_append)
  have wu': "wr (map (\<lambda>c. Some (c @ [0])) (cs @ [c]) @ [u1]) (int ?n + 1) None
      = Some (map (\<lambda>c. Some (c @ [0])) (cs @ [c]) @ [None])"
    using wr_nat [of "?n + 1" "map (\<lambda>c. Some (c @ [0])) (cs @ [c]) @ [u1]"]
    by (simp add: list_update_append add.commute)
  have n': "vc_comments vc = int ?n" using vc by (simp add: holds_def)
  have "\<not> int ?n + 2 > LONG_MAX" using n by (simp add: LONG_MAX_def)
  then have "vorbis_comment_add m vc s = Some (vc\<lparr>vc_user := Some (map (\<lambda>c. Some (c @ [0])) (cs @ [c]) @ [None]),
      vc_lens := Some (map (\<lambda>c. int (length c)) (cs @ [c]) @ [l1]), vc_comments := int ?n + 1\<rparr>)"
    using u'(1) l'(1) blk(1) w wl wu wu' s
    by (simp add: vorbis_comment_add_def Let_def n' add.commute)
  then show ?thesis by (auto simp: holds_def)
qed

lemma toupper_byte_0: "toupper_byte x = 0 \<longleftrightarrow> x = 0"
proof -
  have "x - 0x20 \<noteq> 0" if "0x61 \<le> x"
  proof
    assume "x - 0x20 = 0"
    then have "x = 0x20" by simp
    then show False using that by simp
  qed
  then show ?thesis by (auto simp: toupper_byte_def)
qed

lemma tagcompare_loop_eq:
  assumes "0 \<notin> set t" and "k \<le> length c" and "k \<le> length t" and "n = length t - k"
  shows "tagcompare_loop (c @ [0]) (t @ [0]) k n =
    Some (map toupper_byte (take n (drop k c)) \<noteq> map toupper_byte (drop k t))"
  using assms(2-)
proof (induction n arbitrary: k)
  case (Suc n)
  then have k: "k < length t" by simp
  then have y: "rd (t @ [0]) (int k) = Some (t ! k)" "t ! k \<noteq> 0"
    using assms(1) by (auto simp: rd_def nth_append in_set_conv_nth)
  have t: "drop k t = t ! k # drop (Suc k) t" using k by (simp add: Cons_nth_drop_Suc)
  show ?case
  proof (cases "k = length c")
    case True
    then have "rd (c @ [0]) (int k) = Some 0" by (simp add: rd_def)
    then show ?thesis using y toupper_byte_0 [of 0] toupper_byte_0 [of "t ! k"] True t by auto
  next
    case False
    then have c: "k < length c" "drop k c = c ! k # drop (Suc k) c"
      using Suc.prems(1) by (simp_all add: Cons_nth_drop_Suc)
    then have x: "rd (c @ [0]) (int k) = Some (c ! k)" by (simp add: rd_def nth_append)
    have IH: "tagcompare_loop (c @ [0]) (t @ [0]) (Suc k) n =
        Some (map toupper_byte (take n (drop (Suc k) c)) \<noteq> map toupper_byte (drop (Suc k) t))"
      using c(1) k Suc.prems(3) by (intro Suc.IH) simp_all
    show ?thesis
      using x y c(2) t IH by simp
  qed
qed simp

lemma tagcompare_eq:
  assumes "0 \<notin> set t"
  shows "tagcompare (c @ [0]) (t @ [0x3D, 0]) (int (length t) + 1) = Some (\<not> has_tag t c)"
proof -
  have "nat (int (length t) + 1) = length (t @ [0x3D])" by simp
  then show ?thesis
    using tagcompare_loop_eq [of "t @ [0x3D]" 0 c "length (t @ [0x3D])"] assms
    by (simp add: tagcompare_def has_tag_def)
qed

text \<open>The numbers of the comments with the tag, from \<open>i\<close> on.\<close>

definition tagged :: "byte list \<Rightarrow> byte list list \<Rightarrow> nat \<Rightarrow> nat list" where
  "tagged t cs i = filter (\<lambda>j. has_tag t (cs ! j)) [i..<length cs]"

lemma tagged_step:
  "i < length cs \<Longrightarrow> tagged t cs i = (if has_tag t (cs ! i) then i # tagged t cs (Suc i) else tagged t cs (Suc i))"
  "length cs \<le> i \<Longrightarrow> tagged t cs i = []"
  by (simp_all add: tagged_def upt_conv_Cons)

lemma length_tagged: "length (tagged t cs 0) = length (filter (has_tag t) cs)"
proof -
  have "filter (has_tag t) cs = map (\<lambda>i. cs ! i) (tagged t cs 0)"
    using filter_map [of "has_tag t" "\<lambda>i. cs ! i" "[0..<length cs]"] by (simp add: map_nth tagged_def o_def)
  then show ?thesis by simp
qed

lemma query_loop_eq:
  assumes "holds vc cs" and "0 \<notin> set t"
  shows "query_loop vc (t @ [0x3D, 0]) (int (length t) + 1) k (int i) found =
    Some (if found \<le> k \<and> nat (k - found) < length (tagged t cs i)
          then Some (int (tagged t cs i ! nat (k - found)), int (length t) + 1) else None)"
proof (induction "length cs - i" arbitrary: i found)
  case 0
  then have "length cs \<le> i" by simp
  then show ?case using assms(1) by (simp add: query_loop.simps [of vc] tagged_step holds_def)
next
  case (Suc d)
  then have i: "i < length cs" "d = length cs - Suc i" by simp_all
  have step: "query_loop vc (t @ [0x3D, 0]) (int (length t) + 1) k (int i) found =
      (if has_tag t (cs ! i) then
         (if k = found then Some (Some (int i, int (length t) + 1))
          else query_loop vc (t @ [0x3D, 0]) (int (length t) + 1) k (int (Suc i)) (found + 1))
       else query_loop vc (t @ [0x3D, 0]) (int (length t) + 1) k (int (Suc i)) found)"
    using i(1) assms holds_user [OF assms(1) i(1)] tagcompare_eq [OF assms(2), of "cs ! i"]
    by (subst query_loop.simps) (simp add: holds_def add.commute)
  have "nat (k - found) = Suc (nat (k - (found + 1)))" if "found \<le> k" "k \<noteq> found" using that by linarith
  then show ?case
    unfolding step using Suc.hyps(1) [OF i(2)] tagged_step(1) [OF i(1), of t] by auto
qed

lemma count_loop_eq:
  assumes "holds vc cs" and "0 \<notin> set t"
  shows "count_loop vc (t @ [0x3D, 0]) (int (length t) + 1) (int i) k = Some (k + int (length (tagged t cs i)))"
proof (induction "length cs - i" arbitrary: i k)
  case 0
  then have "length cs \<le> i" by simp
  then show ?case using assms(1) by (simp add: count_loop.simps [of vc] tagged_step holds_def)
next
  case (Suc d)
  then have i: "i < length cs" "d = length cs - Suc i" by simp_all
  have step: "count_loop vc (t @ [0x3D, 0]) (int (length t) + 1) (int i) k =
      count_loop vc (t @ [0x3D, 0]) (int (length t) + 1) (int (Suc i)) (if has_tag t (cs ! i) then k + 1 else k)"
    using i(1) assms holds_user [OF assms(1) i(1)] tagcompare_eq [OF assms(2), of "cs ! i"]
    by (subst count_loop.simps) (simp add: holds_def add.commute)
  show ?case
    unfolding step using Suc.hyps(1) [OF i(2)] tagged_step(1) [OF i(1), of t] by simp
qed

lemma close_gap_eq:
  "length B = n \<Longrightarrow> close_gap (A @ x # B @ C) (int (length A)) (int n) = Some (A @ B @ last (x # B) # C)"
proof -
  assume n: "length B = n"
  have "rd_blk (A @ x # B @ C) (int (length A) + 1) (int n) = Some B"
    using rd_blk_nat [of "Suc (length A)" n "A @ x # B @ C"] n by (simp add: add.commute)
  moreover have "wr_blk (A @ x # B @ C) (int (length A)) B = Some (A @ B @ drop n (x # B @ C))"
    using wr_blk_nat [of "length A" B "A @ x # B @ C"] n by simp
  moreover have "drop n (x # B @ C) = last (x # B) # C"
    using n by (cases B rule: rev_cases) (auto simp: drop_Cons')
  ultimately show ?thesis by (simp add: close_gap_def)
qed

definition same_arrays :: "vorbis_comment \<Rightarrow> vorbis_comment \<Rightarrow> bool" where
  "same_arrays vc vc' \<longleftrightarrow> vc_vendor vc' = vc_vendor vc \<and>
     (vc_user vc' = None \<longleftrightarrow> vc_user vc = None) \<and> (vc_lens vc' = None \<longleftrightarrow> vc_lens vc = None)"

lemma clear_loop_eq:
  assumes t: "0 \<notin> set t" and "holds vc cs" and "i \<le> length cs"
  shows "\<exists>vc'. clear_loop vc (t @ [0x3D, 0]) (int (length t) + 1) i k =
      Some (vc', k + int (length (filter (has_tag t) (take i cs))))
    \<and> holds vc' (filter (\<lambda>c. \<not> has_tag t c) (take i cs) @ drop i cs) \<and> same_arrays vc vc'"
  using assms(2-)
proof (induction i arbitrary: vc cs k)
  case (Suc i)
  define c where "c = cs ! i"
  have i: "i < length cs" using Suc.prems(2) by simp
  have tk: "take (Suc i) cs = take i cs @ [c]" "cs = take i cs @ c # drop (Suc i) cs"
    using i by (simp_all add: take_Suc_conv_app_nth c_def id_take_nth_drop)
  note uc = holds_user [OF Suc.prems(1) i] tagcompare_eq [OF t, of "cs ! i"]
  show ?case
  proof (cases "has_tag t c")
    case False
    then show ?thesis
      using uc Suc.IH [OF Suc.prems(1), of k] i tk(1) by (auto simp: c_def Cons_nth_drop_Suc)
  next
    case True
    let ?cs = "take i cs @ drop (Suc i) cs"
    let ?u = "\<lambda>c. Some (c @ [0 :: byte])" and ?l = "\<lambda>c. int (length (c :: byte list))"
    obtain r x r' where us: "vc_user vc = Some (map ?u cs @ None # r)" and ls: "vc_lens vc = Some (map ?l cs @ x # r')"
      using Suc.prems(1) i by (auto simp: holds_def split: option.splits)
    have n: "vc_comments vc = int (length cs)" using Suc.prems(1) by (simp add: holds_def)
    have len: "length (map ?u (drop (Suc i) cs) @ [None]) = length cs - i"
      "length (map ?l (drop (Suc i) cs) @ [x]) = length cs - i" using i by auto
    have d: "int (length cs) - int i = int (length cs - i)" using i by simp
    have us': "map ?u cs @ None # r = map ?u (take i cs) @ ?u c # (map ?u (drop (Suc i) cs) @ [None]) @ r"
      by (subst tk(2)) simp
    have ls': "map ?l cs @ x # r' = map ?l (take i cs) @ ?l c # (map ?l (drop (Suc i) cs) @ [x]) @ r'"
      by (subst tk(2)) simp
    have li: "length (map ?u (take i cs)) = i" "length (map ?l (take i cs)) = i" using i by simp_all
    have gu: "close_gap (map ?u cs @ None # r) (int i) (int (length cs) - int i) = Some (map ?u ?cs @ None # None # r)"
      using close_gap_eq [OF len(1), of "map ?u (take i cs)" "?u c" r] unfolding d us' li by simp
    have gl: "close_gap (map ?l cs @ x # r') (int i) (int (length cs) - int i) = Some (map ?l ?cs @ x # x # r')"
      using close_gap_eq [OF len(2), of "map ?l (take i cs)" "?l c" r'] unfolding d ls' li by simp
    let ?vc = "vc\<lparr>vc_user := Some (map ?u ?cs @ None # None # r), vc_lens := Some (map ?l ?cs @ x # x # r'),
      vc_comments := vc_comments vc - 1\<rparr>"
    have h: "holds ?vc ?cs" using n i by (auto simp: holds_def)
    have le: "i \<le> length ?cs" and v: "same_arrays ?vc vc' \<longleftrightarrow> same_arrays vc vc'" for vc'
      using i us ls by (simp_all add: same_arrays_def)
    have t1: "take i ?cs = take i cs" "drop i ?cs = drop (Suc i) cs" using i by simp_all
    have step: "clear_loop vc (t @ [0x3D, 0]) (int (length t) + 1) (Suc i) k =
        clear_loop ?vc (t @ [0x3D, 0]) (int (length t) + 1) i (k + 1)"
      using uc True us ls gu gl n by (simp add: c_def add.commute)
    obtain vc' where vc': "clear_loop ?vc (t @ [0x3D, 0]) (int (length t) + 1) i (k + 1) =
        Some (vc', k + 1 + int (length (filter (has_tag t) (take i cs))))"
      "holds vc' (filter (\<lambda>c. \<not> has_tag t c) (take i cs) @ drop (Suc i) cs)" "same_arrays vc vc'"
      using Suc.IH [OF h le, of "k + 1"] unfolding t1 v by blast
    have "filter (\<lambda>c. \<not> has_tag t c) (take (Suc i) cs) = filter (\<lambda>c. \<not> has_tag t c) (take i cs)"
      "int (length (filter (has_tag t) (take (Suc i) cs))) = 1 + int (length (filter (has_tag t) (take i cs)))"
      using True by (simp_all add: tk(1))
    then show ?thesis
      unfolding step using vc' by (intro exI [of _ vc']) (simp add: add.assoc)
  qed
qed (simp add: same_arrays_def)


lemma clear_tag_holds:
  assumes m: "mem_good m" and vc: "holds vc cs" and tag: "cstring tag = Some t" and n: "length cs + 2 < 2 ^ 30"
  shows "\<exists>vc'. vorbis_comment_clear_tag m vc tag = Some (vc', int (length (filter (has_tag t) cs)))
    \<and> holds vc' (filter (\<lambda>c. \<not> has_tag t c) cs) \<and> vc_vendor vc' = vc_vendor vc"
proof -
  let ?r = "filter (\<lambda>c. \<not> has_tag t c) cs" and ?k = "int (length (filter (has_tag t) cs))"
  have t: "0 \<notin> set t" using cstring_Some [OF tag] by simp
  obtain vc' where vc': "clear_loop vc (t @ [0x3D, 0]) (int (length t) + 1) (length cs) 0 = Some (vc', ?k)"
    "holds vc' ?r" "same_arrays vc vc'"
    using clear_loop_eq [OF t vc order_refl, of 0] by auto
  have eq: "vorbis_comment_clear_tag m vc tag = (if ?k \<noteq> 0
      then Some (vc'\<lparr>vc_user := regrow (ptrs m) (vc_user vc') (vc_comments vc' + 1),
                vc_lens := regrow (ints m) (vc_lens vc') (vc_comments vc' + 1)\<rparr>, ?k)
      else Some (vc', ?k))"
    using vc vc'(1) tag by (simp add: vorbis_comment_clear_tag_def full_tag_def holds_def add.commute)
  show ?thesis
  proof (cases "?k = 0")
    case False
    have len1: "length ?r + 1 < 2 ^ 30" using n length_filter_le [of "\<lambda>c. \<not> has_tag t c" cs] by linarith
    then have len: "length ?r + 1 < 2 ^ 30" "length ?r + 1 < 2 ^ 31" by simp_all
    have ok: "alloc_ok (ptrs m)" "alloc_ok (ints m)" using m by (auto simp: mem_good_def)
    have k: "ptrs m (int (length ?r + 1)) \<noteq> None" "ints m (int (length ?r + 1)) \<noteq> None"
      using mem_good_Some [OF m len(2)] by auto
    have "cs \<noteq> []" using False by auto
    then have "vc_user vc' \<noteq> None" "vc_lens vc' \<noteq> None"
      using vc vc'(3) by (auto simp: holds_def same_arrays_def)
    then obtain r x r' where r: "vc_user vc' = Some ((map (\<lambda>c. Some (c @ [0])) ?r @ [None]) @ r)"
      "vc_lens vc' = Some ((map (\<lambda>c. int (length c)) ?r @ [x]) @ r')"
      using vc'(2) by (auto simp: holds_def)
    have n': "vc_comments vc' + 1 = int (length ?r + 1)" using vc'(2) by (simp add: holds_def)
    have "regrow (ptrs m) (vc_user vc') (int (length ?r + 1)) = Some (map (\<lambda>c. Some (c @ [0])) ?r @ [None])"
      using regrow_prefix [OF ok(1) k(1) len(1) _ disjI1 [OF r(1)]] by auto
    moreover have "regrow (ints m) (vc_lens vc') (int (length ?r + 1)) = Some (map (\<lambda>c. int (length c)) ?r @ [x])"
      using regrow_prefix [OF ok(2) k(2) len(1) _ disjI1 [OF r(2)]] by auto
    ultimately show ?thesis
      using eq False n' vc'(2,3) by (simp add: holds_def same_arrays_def add.commute)
  qed (use eq vc' in \<open>simp add: same_arrays_def\<close>)
qed

text \<open>C35: The tags of a Vorbis stream behave as a list of texts \<open>tag=value\<close>: adding a tag appends one, a query finds the
  \<open>k\<close>-th text of the tag in the order of the list (upper and lower case being the same) and points
  behind its \<open>=\<close>, the count is the number of these texts, and clearing a tag removes exactly these,
  keeps all others in their order, and returns how many it removed. No access leaves an array or a string.\<close>

theorem comment_tags:
  assumes "mem_good m" and "holds vc cs" and "cstring tag = Some t" and "cstring contents = Some v"
    and "length cs + 2 < 2 ^ 30" and "length t + length v + 2 < 2 ^ 31"
  shows "(\<exists>vc'. vorbis_comment_add_tag m vc tag contents = Some vc' \<and> holds vc' (cs @ [t @ [0x3D] @ v])
        \<and> vc_vendor vc' = vc_vendor vc)
    \<and> (\<forall>k. vorbis_comment_query vc tag k = Some (if 0 \<le> k \<and> nat k < length (tagged t cs 0)
        then Some (int (tagged t cs 0 ! nat k), int (length t) + 1) else None))
    \<and> vorbis_comment_query_count vc tag = Some (int (length (filter (has_tag t) cs)))
    \<and> (\<exists>vc'. vorbis_comment_clear_tag m vc tag = Some (vc', int (length (filter (has_tag t) cs)))
        \<and> holds vc' (filter (\<lambda>c. \<not> has_tag t c) cs) \<and> vc_vendor vc' = vc_vendor vc)"
proof (intro conjI)
  have t: "0 \<notin> set t" and v: "0 \<notin> set v" using cstring_Some [OF assms(3)] cstring_Some [OF assms(4)] by auto
  have "cstring (t @ [0x3D] @ v @ [0]) = Some (t @ [0x3D] @ v)"
    using cstring_NUL [of "t @ [0x3D] @ v" "[]"] t v by simp
  then show "\<exists>vc'. vorbis_comment_add_tag m vc tag contents = Some vc' \<and> holds vc' (cs @ [t @ [0x3D] @ v])
      \<and> vc_vendor vc' = vc_vendor vc"
    using add_holds [OF assms(1,2) _ assms(5), of "t @ [0x3D] @ v @ [0]" "t @ [0x3D] @ v"] assms(3,4,6)
    by (simp add: vorbis_comment_add_tag_def)
  show "\<forall>k. vorbis_comment_query vc tag k = Some (if 0 \<le> k \<and> nat k < length (tagged t cs 0)
        then Some (int (tagged t cs 0 ! nat k), int (length t) + 1) else None)"
    using query_loop_eq [OF assms(2) t, of _ 0 0] assms(3)
    by (simp add: vorbis_comment_query_def full_tag_def add.commute)
  show "vorbis_comment_query_count vc tag = Some (int (length (filter (has_tag t) cs)))"
    using count_loop_eq [OF assms(2) t, of 0 0] assms(3)
    by (simp add: vorbis_comment_query_count_def full_tag_def length_tagged add.commute)
  show "\<exists>vc'. vorbis_comment_clear_tag m vc tag = Some (vc', int (length (filter (has_tag t) cs)))
      \<and> holds vc' (filter (\<lambda>c. \<not> has_tag t c) cs) \<and> vc_vendor vc' = vc_vendor vc"
    using assms by (intro clear_tag_holds)
qed

definition tag_mem :: mem where
  "tag_mem = \<lparr>chars = (\<lambda>n. Some (replicate (nat n) 0xAA)), ptrs = (\<lambda>n. Some (replicate (nat n) (Some [0xAA]))),
     ints = (\<lambda>n. Some (replicate (nat n) (-1)))\<rparr>"

lemma tag_mem_good: "mem_good tag_mem"
  by (auto simp: mem_good_def tag_mem_def alloc_ok_def)

text \<open>The texts \<open>a=1\<close>, \<open>b=2\<close>, \<open>A=3\<close> and the tag \<open>a\<close>.\<close>

definition demo_comments :: vorbis_comment where
  "demo_comments = \<lparr>vc_user = Some [Some [0x61, 0x3D, 0x31, 0], Some [0x62, 0x3D, 0x32, 0], Some [0x41, 0x3D, 0x33, 0], None],
     vc_lens = Some [3, 3, 3, 0], vc_comments = 3, vc_vendor = Some [0x56, 0]\<rparr>"

lemma demo_holds: "holds demo_comments [[0x61, 0x3D, 0x31], [0x62, 0x3D, 0x32], [0x41, 0x3D, 0x33]]"
  by (simp add: holds_def demo_comments_def)

theorem comment_tags_witness:
  "vorbis_comment_query demo_comments [0x61, 0] 1 = Some (Some (2, 2))
   \<and> vorbis_comment_query_count demo_comments [0x61, 0] = Some 2
   \<and> (\<exists>vc'. vorbis_comment_clear_tag tag_mem demo_comments [0x61, 0] = Some (vc', 2) \<and> holds vc' [[0x62, 0x3D, 0x32]])"
  using comment_tags [OF tag_mem_good demo_holds, of "[0x61, 0]" "[0x61]" "[0x34, 0]" "[0x34]"]
  by (auto simp: cstring_def has_tag_def toupper_byte_def tagged_def upt_rec)

end
