(* ===== verification/VorbisHeader.thy ===== *)
theory VorbisHeader
  imports VorbisComment OggBits OggFraming
begin

unbundle bit_operations_syntax

text \<open>
  \<^verbatim>\<open>src/vrb123/lib/info.c\<close>, second part, and \<open>_commentheader_out\<close> of
  \<^verbatim>\<open>src/plug-ins/oggplay/vcedit.c\<close>: the header packets of a Vorbis stream. The first holds the
  parameters of the stream, the second the comments; the third one with the code books is left to
  a parameter.
\<close>

definition OV_EFAULT :: int where "OV_EFAULT = -129"
definition OV_ENOTVORBIS :: int where "OV_ENOTVORBIS = -132"
definition OV_EBADHEADER :: int where "OV_EBADHEADER = -133"
definition OV_EVERSION :: int where "OV_EVERSION = -134"

section \<open>Header packets\<close>

definition v_writestring :: "byte alloc \<Rightarrow> oggpack_buffer \<Rightarrow> byte list \<Rightarrow> int \<Rightarrow> oggpack_buffer option" where
  "v_writestring al b s bytes = do { cs \<leftarrow> rd_blk s 0 bytes; copy_bytes (oggpack_write al) b cs }"

text \<open>\<open>buf\<close> from position \<open>i\<close> on.\<close>

fun readstring_loop :: "oggpack_buffer \<Rightarrow> byte list option \<Rightarrow> nat \<Rightarrow> nat \<Rightarrow> (oggpack_buffer \<times> byte list option) option" where
  "readstring_loop b buf i 0 = Some (b, buf)"
| "readstring_loop b buf i (Suc n) = do {
     (b, v) \<leftarrow> oggpack_read b 8;
     blk \<leftarrow> buf;
     blk \<leftarrow> wr blk (int i) (ucast v);
     readstring_loop b (Some blk) (Suc i) n }"

definition v_readstring :: "oggpack_buffer \<Rightarrow> byte list option \<Rightarrow> int \<Rightarrow> (oggpack_buffer \<times> byte list option) option" where
  "v_readstring b buf bytes = readstring_loop b buf 0 (nat bytes)"

definition calloc :: "'a alloc \<Rightarrow> 'a \<Rightarrow> int \<Rightarrow> 'a list option" where
  "calloc al z n = map_option (\<lambda>blk. replicate (length blk) z) (al n)"

definition vorbis_preamble :: "byte list" where
  "vorbis_preamble = [0x76, 0x6F, 0x72, 0x62, 0x69, 0x73]"

text \<open>\<open>oggpack_read\<close> into an \<open>int\<close> or a \<open>long\<close>.\<close>

definition read_int :: "oggpack_buffer \<Rightarrow> int \<Rightarrow> (oggpack_buffer \<times> int) option" where
  "read_int b n = map_option (\<lambda>(b, v). (b, sint v)) (oggpack_read b n)"

subsection \<open>The comment header\<close>

text \<open>One comment, then all; \<open>False\<close> is the jump to \<open>err_out\<close>.\<close>

definition unpack_one :: "mem \<Rightarrow> vorbis_comment \<Rightarrow> oggpack_buffer \<Rightarrow> int \<Rightarrow>
    (vorbis_comment \<times> oggpack_buffer \<times> bool) option" where
  "unpack_one m vc b i = do {
     (b, len) \<leftarrow> read_int b 32;
     if len < 0 then Some (vc, b, False)
     else if len > pk_storage b - oggpack_bytes b then Some (vc, b, False)
     else do {
       ls \<leftarrow> vc_lens vc;
       ls \<leftarrow> wr ls i len;
       us \<leftarrow> vc_user vc;
       (b, p) \<leftarrow> v_readstring b (calloc (chars m) 0 (len + 1)) len;
       us \<leftarrow> wr us i p;
       Some (vc\<lparr>vc_lens := Some ls, vc_user := Some us\<rparr>, b, True) } }"

fun unpack_loop :: "mem \<Rightarrow> vorbis_comment \<Rightarrow> oggpack_buffer \<Rightarrow> nat \<Rightarrow> nat \<Rightarrow>
    (vorbis_comment \<times> oggpack_buffer \<times> bool) option" where
  "unpack_loop m vc b i 0 = Some (vc, b, True)"
| "unpack_loop m vc b i (Suc n) = do {
     (vc, b, ok) \<leftarrow> unpack_one m vc b (int i);
     if ok then unpack_loop m vc b (Suc i) n else Some (vc, b, False) }"

definition unpack_fields :: "mem \<Rightarrow> vorbis_comment \<Rightarrow> oggpack_buffer \<Rightarrow> (vorbis_comment \<times> oggpack_buffer \<times> bool) option" where
  "unpack_fields m vc b = do {
     (b, vendorlen) \<leftarrow> read_int b 32;
     if vendorlen < 0 then Some (vc, b, False)
     else if vendorlen > pk_storage b - 8 then Some (vc, b, False)
     else do {
       (b, vendor) \<leftarrow> v_readstring b (calloc (chars m) 0 (vendorlen + 1)) vendorlen;
       let vc = vc\<lparr>vc_vendor := vendor\<rparr>;
       (b, i) \<leftarrow> read_int b 32;
       if i < 0 then Some (vc, b, False)
       else if i > (pk_storage b - oggpack_bytes b) div 4 then Some (vc, b, False)
       else do {
         let vc = vc\<lparr>vc_comments := i, vc_user := calloc (ptrs m) None (elems (i + 1)),
           vc_lens := calloc (ints m) 0 (elems (i + 1))\<rparr>;
         (vc, b, ok) \<leftarrow> unpack_loop m vc b 0 (nat i);
         if ok then do { (b, v) \<leftarrow> oggpack_read b 1; Some (vc, b, v = 1) }
         else Some (vc, b, False) } } }"

definition vorbis_unpack_comment :: "mem \<Rightarrow> vorbis_comment \<Rightarrow> oggpack_buffer \<Rightarrow> (vorbis_comment \<times> int) option" where
  "vorbis_unpack_comment m vc b = do {
     (vc, b, ok) \<leftarrow> unpack_fields m vc b;
     if ok then Some (vc, 0)
     else do { vc \<leftarrow> vorbis_comment_clear vc; Some (vc, OV_EBADHEADER) } }"

text \<open>Packing; the first definition is what \<open>_commentheader_out\<close> and \<open>_vorbis_pack_comment\<close> do alike.\<close>

fun pack_comments :: "byte alloc \<Rightarrow> vorbis_comment \<Rightarrow> oggpack_buffer \<Rightarrow> nat \<Rightarrow> nat \<Rightarrow> oggpack_buffer option" where
  "pack_comments al vc b i 0 = Some b"
| "pack_comments al vc b i (Suc n) = do {
     us \<leftarrow> vc_user vc;
     p \<leftarrow> rd us (int i);
     b \<leftarrow> (case p of
         Some s \<Rightarrow> do {
           ls \<leftarrow> vc_lens vc;
           len \<leftarrow> rd ls (int i);
           b \<leftarrow> oggpack_write al b (of_int len) 32;
           v_writestring al b s len }
       | None \<Rightarrow> oggpack_write al b 0 32);
     pack_comments al vc b (Suc i) n }"

definition pack_comment_header :: "byte alloc \<Rightarrow> oggpack_buffer \<Rightarrow> vorbis_comment \<Rightarrow> byte list \<Rightarrow> oggpack_buffer option" where
  "pack_comment_header al b vc vendor = do {
     b \<leftarrow> oggpack_write al b 3 8;
     b \<leftarrow> v_writestring al b vorbis_preamble 6;
     v \<leftarrow> cstring vendor;
     b \<leftarrow> oggpack_write al b (of_nat (length v)) 32;
     b \<leftarrow> v_writestring al b vendor (int (length v));
     b \<leftarrow> oggpack_write al b (of_int (vc_comments vc)) 32;
     b \<leftarrow> pack_comments al vc b 0 (nat (vc_comments vc));
     oggpack_write al b 1 1 }"

text \<open>The packet with a copy of the packed bytes.\<close>

definition packed_packet :: "byte alloc \<Rightarrow> oggpack_buffer \<Rightarrow> byte list option" where
  "packed_packet al b = (let n = oggpack_bytes b in
     if n = 0 then Some [] else do {
       blk \<leftarrow> al n;
       bs \<leftarrow> oggpack_get_buffer b;
       cs \<leftarrow> rd_blk bs 0 n;
       wr_blk blk 0 cs })"

text \<open>The member \<open>packetno\<close> is not set by \<open>vcedit.c\<close>; \<open>old\<close> is its content.\<close>

definition commentheader_out :: "mem \<Rightarrow> vorbis_comment \<Rightarrow> byte list \<Rightarrow> 64 word \<Rightarrow> ogg_packet option" where
  "commentheader_out m vc vendor old = do {
     b \<leftarrow> oggpack_writeinit (chars m);
     b \<leftarrow> pack_comment_header (chars m) b vc vendor;
     p \<leftarrow> packed_packet (chars m) b;
     Some \<lparr>op_packet = p, op_bos = False, op_eos = False, op_granulepos = 0, op_packetno = old\<rparr> }"

text \<open>The encoder writes its own vendor string.\<close>

definition ENCODE_VENDOR_STRING :: "byte list" where
  "ENCODE_VENDOR_STRING =
    [0x58, 0x69, 0x70, 0x68, 0x2E, 0x4F, 0x72, 0x67, 0x20, 0x6C, 0x69, 0x62, 0x56, 0x6F, 0x72, 0x62, 0x69, 0x73,
     0x20, 0x49, 0x20, 0x32, 0x30, 0x31, 0x35, 0x30, 0x31, 0x30, 0x35, 0x20, 0x28, 0xE2, 0x9B, 0x84, 0xE2, 0x9B,
     0x84, 0xE2, 0x9B, 0x84, 0xE2, 0x9B, 0x84, 0x29, 0]"

definition vorbis_pack_comment :: "byte alloc \<Rightarrow> oggpack_buffer \<Rightarrow> vorbis_comment \<Rightarrow> oggpack_buffer option" where
  "vorbis_pack_comment al b vc = pack_comment_header al b vc ENCODE_VENDOR_STRING"

definition vorbis_commentheader_out :: "mem \<Rightarrow> vorbis_comment \<Rightarrow> ogg_packet option" where
  "vorbis_commentheader_out m vc = do {
     b \<leftarrow> oggpack_writeinit (chars m);
     b \<leftarrow> vorbis_pack_comment (chars m) b vc;
     p \<leftarrow> packed_packet (chars m) b;
     Some \<lparr>op_packet = p, op_bos = False, op_eos = False, op_granulepos = 0, op_packetno = 1\<rparr> }"


subsection \<open>The identification header\<close>

text \<open>
  Of the structure \<open>codec_setup_info\<close> the sizes of the blocks, the number of code books, and the modes (of
  each of the 64 the flag of its block size, or \<open>NULL\<close>); the rest is filled and used by the codec only.
\<close>

record codec_setup_info =
  blocksize0 :: int
  blocksize1 :: int
  ci_books :: int
  ci_modes :: int
  ci_mode_param :: "bool option list"

definition codec_setup_zero :: codec_setup_info where
  "codec_setup_zero = \<lparr>blocksize0 = 0, blocksize1 = 0, ci_books = 0, ci_modes = 0, ci_mode_param = replicate 64 None\<rparr>"

record vorbis_info =
  vi_version :: int
  vi_channels :: int
  vi_rate :: int
  vi_upper :: int
  vi_nominal :: int
  vi_lower :: int
  vi_window :: int
  vi_setup :: "codec_setup_info option"

definition vorbis_info_zero :: "codec_setup_info option \<Rightarrow> vorbis_info" where
  "vorbis_info_zero ci = \<lparr>vi_version = 0, vi_channels = 0, vi_rate = 0, vi_upper = 0, vi_nominal = 0,
     vi_lower = 0, vi_window = 0, vi_setup = ci\<rparr>"

text \<open>The parameter tells whether \<open>calloc\<close> finds the memory.\<close>

definition vorbis_info_init :: "bool \<Rightarrow> vorbis_info" where
  "vorbis_info_init mem_ok =
    vorbis_info_zero (if mem_ok then Some codec_setup_zero else None)"

definition vorbis_info_clear :: "vorbis_info \<Rightarrow> vorbis_info" where
  "vorbis_info_clear vi = vorbis_info_zero None"

definition vorbis_info_blocksize :: "vorbis_info \<Rightarrow> bool \<Rightarrow> int" where
  "vorbis_info_blocksize vi zo =
    (case vi_setup vi of Some ci \<Rightarrow> (if zo then blocksize1 ci else blocksize0 ci) | None \<Rightarrow> -1)"

text \<open>\<open>1 << k\<close> of an \<open>int\<close>.\<close>

definition shl_one :: "int \<Rightarrow> int option" where
  "shl_one k = (if 0 \<le> k \<and> k < 31 then Some (2 ^ nat k) else None)"

definition info_valid :: "vorbis_info \<Rightarrow> codec_setup_info \<Rightarrow> bool" where
  "info_valid vi ci \<longleftrightarrow> \<not> vi_rate vi < 1 \<and> \<not> vi_channels vi < 1 \<and> \<not> blocksize0 ci < 64 \<and>
     \<not> blocksize1 ci < blocksize0 ci \<and> \<not> blocksize1 ci > 8192"

definition vorbis_unpack_info :: "vorbis_info \<Rightarrow> oggpack_buffer \<Rightarrow> (vorbis_info \<times> int) option" where
  "vorbis_unpack_info vi b =
    (case vi_setup vi of
       None \<Rightarrow> Some (vi, OV_EFAULT)
     | Some ci \<Rightarrow> do {
         (b, v) \<leftarrow> read_int b 32;
         let vi = vi\<lparr>vi_version := v\<rparr>;
         if v \<noteq> 0 then Some (vi, OV_EVERSION)
         else do {
           (b, ch) \<leftarrow> read_int b 8;
           (b, ra) \<leftarrow> read_int b 32;
           (b, up) \<leftarrow> read_int b 32;
           (b, no) \<leftarrow> read_int b 32;
           (b, lo) \<leftarrow> read_int b 32;
           (b, k0) \<leftarrow> read_int b 4;
           b0 \<leftarrow> shl_one k0;
           (b, k1) \<leftarrow> read_int b 4;
           b1 \<leftarrow> shl_one k1;
           let ci = ci\<lparr>blocksize0 := b0, blocksize1 := b1\<rparr>;
           let vi = vi\<lparr>vi_channels := ch, vi_rate := ra, vi_upper := up, vi_nominal := no, vi_lower := lo,
             vi_setup := Some ci\<rparr>;
           if \<not> info_valid vi ci then Some (vorbis_info_clear vi, OV_EBADHEADER)
           else do {
             (b, v) \<leftarrow> oggpack_read b 1;
             if v \<noteq> 1 then Some (vorbis_info_clear vi, OV_EBADHEADER)
             else Some (vi, 0) } } })"

text \<open>Number of bits of a word.\<close>

function ov_ilog_loop :: "32 word \<Rightarrow> int \<Rightarrow> int" where
  "ov_ilog_loop v ret = (if v \<noteq> 0 then ov_ilog_loop (drop_bit 1 v) (ret + 1) else ret)"
  by pat_completeness auto

termination
proof (relation "measure (\<lambda>(v, ret). unat v)")
  fix v :: "32 word" and ret :: int
  assume "v \<noteq> 0"
  then have "unat v div 2 < unat v" by (simp add: unat_gt_0)
  then show "((drop_bit 1 v, ret + 1), (v, ret)) \<in> measure (\<lambda>(v, ret). unat v)"
    by (simp add: drop_bit_eq_div unat_div)
qed simp

definition ov_ilog :: "32 word \<Rightarrow> int" where
  "ov_ilog v = ov_ilog_loop v 0"

definition vorbis_pack_info :: "byte alloc \<Rightarrow> oggpack_buffer \<Rightarrow> vorbis_info \<Rightarrow> (oggpack_buffer \<times> int) option" where
  "vorbis_pack_info al b vi =
    (case vi_setup vi of
       None \<Rightarrow> Some (b, OV_EFAULT)
     | Some ci \<Rightarrow>
         if blocksize0 ci < 64 \<or> blocksize1 ci < blocksize0 ci then Some (b, OV_EFAULT)
         else do {
           b \<leftarrow> oggpack_write al b 1 8;
           b \<leftarrow> v_writestring al b vorbis_preamble 6;
           b \<leftarrow> oggpack_write al b 0 32;
           b \<leftarrow> oggpack_write al b (of_int (vi_channels vi)) 8;
           b \<leftarrow> oggpack_write al b (of_int (vi_rate vi)) 32;
           b \<leftarrow> oggpack_write al b (of_int (vi_upper vi)) 32;
           b \<leftarrow> oggpack_write al b (of_int (vi_nominal vi)) 32;
           b \<leftarrow> oggpack_write al b (of_int (vi_lower vi)) 32;
           b \<leftarrow> oggpack_write al b (of_int (ov_ilog (of_int (blocksize0 ci - 1)))) 4;
           b \<leftarrow> oggpack_write al b (of_int (ov_ilog (of_int (blocksize1 ci - 1)))) 4;
           b \<leftarrow> oggpack_write al b 1 1;
           Some (b, 0) })"

text \<open>The size of the block of an audio packet (\<^verbatim>\<open>synthesis.c\<close>).\<close>

definition OV_ENOTAUDIO :: int where "OV_ENOTAUDIO = -135"
definition OV_EBADPACKET :: int where "OV_EBADPACKET = -136"

definition vorbis_packet_blocksize :: "vorbis_info \<Rightarrow> ogg_packet \<Rightarrow> int option" where
  "vorbis_packet_blocksize vi op =
    (case vi_setup vi of
       None \<Rightarrow> Some OV_EFAULT
     | Some ci \<Rightarrow>
         if ci_modes ci \<le> 0 then Some OV_EFAULT
         else do {
           let b = oggpack_readinit (op_packet op) (int (length (op_packet op)));
           (b, v) \<leftarrow> oggpack_read b 1;
           if v \<noteq> 0 then Some OV_ENOTAUDIO
           else do {
             (b, mode) \<leftarrow> read_int b (ov_ilog (of_int (ci_modes ci - 1)));
             if mode = -1 then Some OV_EBADPACKET
             else do {
               p \<leftarrow> rd (ci_mode_param ci) mode;
               case p of None \<Rightarrow> Some OV_EBADPACKET
               | Some flag \<Rightarrow> Some (if flag then blocksize1 ci else blocksize0 ci) } } })"

subsection \<open>Which header a packet is\<close>

definition vorbis_synthesis_idheader :: "ogg_packet option \<Rightarrow> bool option" where
  "vorbis_synthesis_idheader opt =
    (case opt of
       None \<Rightarrow> Some False
     | Some op \<Rightarrow>
         (let b = oggpack_readinit (op_packet op) (int (length (op_packet op))) in
          if \<not> op_bos op then Some False
          else do {
            (b, v) \<leftarrow> oggpack_read b 8;
            if v \<noteq> 1 then Some False
            else do {
              (b, buffer) \<leftarrow> v_readstring b (Some (replicate 6 0)) 6;
              Some (buffer = Some vorbis_preamble) } }))"

text \<open>The code books are read by the parameter \<open>unpack_books\<close>.\<close>

definition vorbis_synthesis_headerin ::
    "(vorbis_info \<Rightarrow> oggpack_buffer \<Rightarrow> (vorbis_info \<times> int) option) \<Rightarrow> mem \<Rightarrow> vorbis_info \<Rightarrow> vorbis_comment \<Rightarrow>
     ogg_packet option \<Rightarrow> (vorbis_info \<times> vorbis_comment \<times> int) option" where
  "vorbis_synthesis_headerin unpack_books m vi vc opt =
    (case opt of
       None \<Rightarrow> Some (vi, vc, OV_EBADHEADER)
     | Some op \<Rightarrow> do {
         let b = oggpack_readinit (op_packet op) (int (length (op_packet op)));
         (b, packtype) \<leftarrow> read_int b 8;
         (b, buffer) \<leftarrow> v_readstring b (Some (replicate 6 0)) 6;
         if buffer \<noteq> Some vorbis_preamble then Some (vi, vc, OV_ENOTVORBIS)
         else if packtype = 1 then
           (if \<not> op_bos op then Some (vi, vc, OV_EBADHEADER)
            else if vi_rate vi \<noteq> 0 then Some (vi, vc, OV_EBADHEADER)
            else do { (vi, ret) \<leftarrow> vorbis_unpack_info vi b; Some (vi, vc, ret) })
         else if packtype = 3 then
           (if vi_rate vi = 0 then Some (vi, vc, OV_EBADHEADER)
            else if vc_vendor vc \<noteq> None then Some (vi, vc, OV_EBADHEADER)
            else do { (vc, ret) \<leftarrow> vorbis_unpack_comment m vc b; Some (vi, vc, ret) })
         else if packtype = 5 then
           (if vi_rate vi = 0 \<or> vc_vendor vc = None then Some (vi, vc, OV_EBADHEADER)
            else (case vi_setup vi of
                None \<Rightarrow> Some (vi, vc, OV_EFAULT)
              | Some ci \<Rightarrow> if ci_books ci > 0 then Some (vi, vc, OV_EBADHEADER)
                  else do { (vi, ret) \<leftarrow> unpack_books vi b; Some (vi, vc, ret) }))
         else Some (vi, vc, OV_EBADHEADER) })"

declare ov_ilog_loop.simps [simp del]

section \<open>Packing\<close>

definition str_items :: "byte list \<Rightarrow> (32 word \<times> nat) list" where
  "str_items cs = map (\<lambda>c. (ucast c, 8)) cs"

lemma copy_bytes_items: "copy_bytes w b cs = write_all w b (str_items cs)"
  by (induction cs arbitrary: b) (simp_all add: str_items_def)

lemma write_all_append: "write_all w b (xs @ ys) = Option.bind (write_all w b xs) (\<lambda>b. write_all w b ys)"
  by (induction w b xs rule: write_all.induct) (auto simp: bind_assoc intro!: Option.bind_cong)

lemma write_all_one: "w b v (int n) = write_all w b [(v, n)]"
  by simp

text \<open>What a comment header holds.\<close>

definition comment_items :: "byte list \<Rightarrow> (32 word \<times> nat) list" where
  "comment_items c = (of_nat (length c), 32) # str_items c"

definition header_items :: "byte list \<Rightarrow> byte list list \<Rightarrow> (32 word \<times> nat) list" where
  "header_items v cs = (3, 8) # str_items vorbis_preamble @ comment_items v @
     (of_nat (length cs), 32) # concat (map comment_items cs) @ [(1, 1)]"

lemma v_writestring_items:
  "v_writestring al b (c @ r) (int (length c)) = write_all (oggpack_write al) b (str_items c)"
  using rd_blk_nat [of 0 "length c" "c @ r"] by (simp add: v_writestring_def copy_bytes_items)

lemma pack_comments_items:
  assumes "holds vc cs" and "i + n = length cs"
  shows "pack_comments al vc b i n = write_all (oggpack_write al) b (concat (map comment_items (drop i cs)))"
  using assms(2)
proof (induction n arbitrary: i b)
  case (Suc n)
  then have i: "i < length cs" by simp
  then obtain us r x r' where us: "vc_user vc = Some us" "us = map (\<lambda>c. Some (c @ [0])) cs @ None # r"
    and ls: "vc_lens vc = Some (map (\<lambda>c. int (length c)) cs @ x # r')"
    using assms(1) by (auto simp: holds_def split: option.splits)
  have "rd us (int i) = Some (Some (cs ! i @ [0]))"
    "rd (map (\<lambda>c. int (length c)) cs @ x # r') (int i) = Some (int (length (cs ! i)))"
    using i us(2) by (simp_all add: rd_def nth_append)
  moreover have "drop i cs = cs ! i # drop (Suc i) cs" using i by (simp add: Cons_nth_drop_Suc)
  moreover have "write_all (oggpack_write al) b (comment_items (cs ! i)) = Option.bind
      (oggpack_write al b (of_nat (length (cs ! i))) 32) (\<lambda>b. v_writestring al b (cs ! i @ [0]) (int (length (cs ! i))))" for b
    by (simp add: comment_items_def v_writestring_items)
  moreover have "pack_comments al vc b (Suc i) n = write_all (oggpack_write al) b (concat (map comment_items (drop (Suc i) cs)))" for b
    using Suc.prems by (intro Suc.IH) simp
  ultimately show ?case
    using us(1) ls by (simp add: write_all_append bind_assoc)
qed simp

lemma pack_header_items:
  assumes "holds vc cs" and "cstring vendor = Some v"
  shows "pack_comment_header al b vc vendor = write_all (oggpack_write al) b (header_items v cs)"
proof -
  obtain r where r: "vendor = v @ r" using cstring_Some [OF assms(2)] by blast
  have p: "v_writestring al b vorbis_preamble 6 = write_all (oggpack_write al) b (str_items vorbis_preamble)" for b
    using v_writestring_items [of al b vorbis_preamble "[]"] by (simp add: vorbis_preamble_def)
  have n: "vc_comments vc = int (length cs)" using assms(1) by (simp add: holds_def)
  show ?thesis
    using pack_comments_items [OF assms(1), of 0 "length cs" al] assms(2)
    by (simp add: pack_comment_header_def header_items_def comment_items_def p n r v_writestring_items write_all_append bind_assoc)
qed


lemma bytes_of_bits: "oggpack_bytes b = (oggpack_bits b + 7) div 8"
  by (simp add: oggpack_bytes_def oggpack_bits_def)

text \<open>The packet with the packed bits, for a reader.\<close>

lemma packed_packet_good:
  assumes m: "mem_good m" and b: "packed lsb b xs" and n: "int (length xs) + 7 \<le> 8 * LONG_MAX"
  shows "\<exists>p zs. packed_packet (chars m) b = Some p \<and> reading lsb (oggpack_readinit p (int (length p))) (xs @ zs)
    \<and> length p = (length xs + 7) div 8"
proof -
  obtain bs zs where bs: "oggpack_get_buffer b = Some bs" "oggpack_bytes b \<le> int (length bs)"
    "oggpack_bits b = int (length xs)"
    "reading lsb (oggpack_readinit (take (nat (oggpack_bytes b)) bs) (oggpack_bytes b)) (xs @ zs)"
    using packed_bytes [OF b] by blast
  let ?n = "(length xs + 7) div 8"
  have k: "oggpack_bytes b = int ?n" using bs(3) by (simp add: bytes_of_bits zdiv_int)
  then have le: "?n \<le> length bs" using bs(2) by simp
  let ?p = "take ?n bs"
  have "int ?n \<le> LONG_MAX" using n by linarith
  then have "chars m (int ?n) \<noteq> None" "alloc_ok (chars m)" using m by (auto simp: mem_good_def)
  then obtain blk where blk: "chars m (int ?n) = Some blk" "length blk = ?n" using block_of by blast
  have "rd_blk bs 0 (int ?n) = Some ?p" "wr_blk blk 0 ?p = Some ?p"
    using rd_blk_nat [of 0 ?n bs] le blk(2) by (simp_all add: wr_blk_def)
  then have "packed_packet (chars m) b = Some ?p"
    using k blk(1) bs(1) by (cases "?n = 0") (simp_all add: packed_packet_def)
  moreover have "reading lsb (oggpack_readinit ?p (int (length ?p))) (xs @ zs)"
    using bs(4) le unfolding k by simp
  ultimately show ?thesis using le by (intro exI [of _ ?p]) auto
qed

text \<open>Enough memory is found for all items.\<close>

lemma write_all_good:
  assumes m: "mem_good m" and n: "int (sum_list (map snd items)) \<le> 8 * (LONG_MAX - 516)"
    and i: "\<forall>(v, n) \<in> set items. n \<le> 32"
  shows "\<exists>b0 b'. oggpack_writeinit (chars m) = Some b0 \<and> write_all (oggpack_write (chars m)) b0 items = Some b'
    \<and> packed lsb b' (item_bits lsb_value items)"
proof -
  have ok: "alloc_ok (chars m)" using m by (simp add: mem_good_def)
  obtain blk where "chars m 256 = Some blk" "length blk = 256"
    using block_of [OF ok, of 256] m by (auto simp: mem_good_def LONG_MAX_def)
  then have "\<exists>b0. oggpack_writeinit (chars m) = Some b0"
    by (cases blk) (simp_all add: oggpack_writeinit_def BUFFER_INCREMENT_def wr_def)
  then obtain b0 where b0: "oggpack_writeinit (chars m) = Some b0" by blast
  have "\<not> memory_short (chars m) (length [] + length (item_bits lsb_value items))"
    using m n unfolding memory_short_def mem_good_def lsbp.length_item_bits by auto
  then show ?thesis
    using lsbp.write_all_packed [OF ok oggpack_writeinit_packed [OF ok b0], of items] i b0 by auto
qed


section \<open>Unpacking\<close>

lemma read_storage: "oggpack_read b n = Some (b', v) \<Longrightarrow> pk_storage b' = pk_storage b"
  by (auto simp: oggpack_read_def pk_overflow_def pk_advance_def Let_def bind_eq_Some_conv split: if_splits)

lemma read_val:
  assumes "reading lsb b (lsb_value v n @ zs)" and "n \<le> 32"
  shows "\<exists>b'. oggpack_read b (int n) = Some (b', take_bit n v) \<and> reading lsb b' zs \<and> pk_storage b' = pk_storage b"
proof -
  have "length (lsb_value v n) = n" by (simp add: lsb_value_def)
  then obtain b' where "oggpack_read b (int n) = Some (b', take_bit n v)" "reading lsb b' zs"
    using oggpack_read_reading [OF assms] lsb_num_value [OF assms(2), of v] by auto
  then show ?thesis using read_storage by blast
qed

text \<open>The number of bytes that are left.\<close>

lemma reading_room:
  assumes "reading f b xs"
  shows "pk_storage b - oggpack_bytes b = int (length xs div 8)"
proof -
  obtain bs p e where b: "b = pk bs p e" "e < 8" "8 * p + e \<le> 8 * length bs" "length xs = 8 * length bs - (8 * p + e)"
    using assms by (auto simp: reading_def)
  have "p + (e + 7) div 8 + length xs div 8 = length bs"
    using b(2,3,4) by (cases "e = 0") auto
  then have "int (p + (e + 7) div 8 + length xs div 8) = int (length bs)" by simp
  then have "int p + (int e + 7) div 8 + int (length xs) div 8 = int (length bs)" by (simp add: zdiv_int)
  then show ?thesis by (simp add: b(1) oggpack_bytes_def zdiv_int)
qed

lemma byte_item: "ucast (take_bit 8 (ucast c :: 32 word)) = (c :: byte)"
  by (rule bit_word_eqI) (simp add: bit_simps)

lemma readstring_loop_items:
  assumes "reading lsb b (item_bits lsb_value (str_items cs) @ zs)" and "i + length cs \<le> length blk"
  shows "\<exists>b'. readstring_loop b (Some blk) i (length cs) = Some (b', Some (take i blk @ cs @ drop (i + length cs) blk))
    \<and> reading lsb b' zs \<and> pk_storage b' = pk_storage b"
  using assms
proof (induction cs arbitrary: b i blk)
  case (Cons c cs)
  obtain b1 where b1: "oggpack_read b 8 = Some (b1, take_bit 8 (ucast c))"
    "reading lsb b1 (item_bits lsb_value (str_items cs) @ zs)" "pk_storage b1 = pk_storage b"
    using read_val [of b "ucast c" 8 "item_bits lsb_value (str_items cs) @ zs"] Cons.prems(1)
    by (auto simp: str_items_def)
  have w: "wr blk (int i) c = Some (blk[i := c])" using Cons.prems(2) by (intro wr_nat) simp
  have "take (Suc i) (blk[i := c]) = take i blk @ [c]" "drop (Suc i + length cs) (blk[i := c]) = drop (i + length (c # cs)) blk"
    using Cons.prems(2) by (simp_all add: take_Suc_conv_app_nth)
  then show ?case
    using Cons.IH [OF b1(2), of "Suc i" "blk[i := c]"] Cons.prems(2) b1 w byte_item [of c] by auto
qed (simp add: str_items_def)

lemma v_readstring_items:
  assumes "reading lsb b (item_bits lsb_value (str_items cs) @ zs)" and "length cs \<le> length blk"
  shows "\<exists>b'. v_readstring b (Some blk) (int (length cs)) = Some (b', Some (cs @ drop (length cs) blk))
    \<and> reading lsb b' zs \<and> pk_storage b' = pk_storage b"
  using readstring_loop_items [OF assms(1), of 0 blk] assms(2) by (simp add: v_readstring_def)

lemma sint_nat32: "n < 2 ^ 31 \<Longrightarrow> sint (take_bit 32 (of_nat n) :: 32 word) = int n"
proof -
  assume n: "n < 2 ^ 31"
  have "sint (of_nat n :: 32 word) = signed_take_bit 31 (int n)"
    by (simp add: signed_of_nat)
  also have "\<dots> = int n" using n by (simp add: signed_take_bit_int_eq_self)
  finally show ?thesis by (simp add: take_bit_word_eq_self)
qed

lemma read_int_nat:
  assumes "reading lsb b (lsb_value (of_nat n) 32 @ zs)" and "n < 2 ^ 31"
  shows "\<exists>b'. read_int b 32 = Some (b', int n) \<and> reading lsb b' zs \<and> pk_storage b' = pk_storage b"
  using read_val [of b "of_nat n" 32 zs] assms sint_nat32 [OF assms(2)] by (auto simp: read_int_def)

text \<open>A \<open>calloc\<close>ed string of \<open>n\<close> characters and a \<open>NUL\<close>.\<close>

lemma calloc_good:
  assumes "alloc_ok al" and "al (int n) \<noteq> None"
  shows "calloc al z (int n) = Some (replicate n z)"
  using block_of [OF assms] by (auto simp: calloc_def)

lemma read_text:
  assumes m: "mem_good m" and "reading lsb b (item_bits lsb_value (str_items c) @ zs)" and n: "length c + 1 < 2 ^ 31"
  shows "\<exists>b'. v_readstring b (calloc (chars m) 0 (int (length c) + 1)) (int (length c)) = Some (b', Some (c @ [0]))
    \<and> reading lsb b' zs \<and> pk_storage b' = pk_storage b"
proof -
  have "calloc (chars m) 0 (int (length c + 1)) = Some (replicate (length c + 1) 0)"
    using mem_good_Some [OF m n] m by (intro calloc_good) (auto simp: mem_good_def)
  then have "calloc (chars m) 0 (int (length c) + 1) = Some (replicate (length c) 0 @ [0])"
    by (simp add: replicate_append_same add.commute)
  then show ?thesis
    using v_readstring_items [OF assms(2), of "replicate (length c) 0 @ [0]"] by simp
qed


text \<open>The arrays while the first \<open>i\<close> comments of \<open>cs\<close> have been read.\<close>

definition filled :: "vorbis_comment \<Rightarrow> byte list list \<Rightarrow> nat \<Rightarrow> byte list option \<Rightarrow> bool" where
  "filled vc cs i v \<longleftrightarrow> vc_comments vc = int (length cs) \<and> vc_vendor vc = v \<and>
     vc_user vc = Some (map (\<lambda>c. Some (c @ [0])) (take i cs) @ replicate (length cs - i + 1) None) \<and>
     vc_lens vc = Some (map (\<lambda>c. int (length c)) (take i cs) @ replicate (length cs - i + 1) 0)"

lemma unpack_one_item:
  assumes m: "mem_good m" and vc: "filled vc cs i v" and i: "i < length cs" and n: "length (cs ! i) + 1 < 2 ^ 31"
    and b: "reading lsb b (item_bits lsb_value (comment_items (cs ! i)) @ zs)"
  shows "\<exists>vc' b'. unpack_one m vc b (int i) = Some (vc', b', True) \<and> filled vc' cs (Suc i) v \<and> reading lsb b' zs"
proof -
  let ?c = "cs ! i" and ?u = "\<lambda>c. Some (c @ [0 :: byte])" and ?l = "\<lambda>c. int (length (c :: byte list))"
  have "reading lsb b (lsb_value (of_nat (length ?c)) 32 @ item_bits lsb_value (str_items ?c) @ zs)"
    using b by (simp add: comment_items_def)
  then obtain b1 where b1: "read_int b 32 = Some (b1, int (length ?c))" "reading lsb b1 (item_bits lsb_value (str_items ?c) @ zs)"
    using read_int_nat n by fastforce
  obtain b2 where b2: "v_readstring b1 (calloc (chars m) 0 (int (length ?c) + 1)) (int (length ?c)) = Some (b2, Some (?c @ [0]))"
    "reading lsb b2 zs"
    using read_text [OF m b1(2) n] by blast
  have "length (item_bits lsb_value (str_items ?c)) = 8 * length ?c"
    by (simp add: lsbp.length_item_bits str_items_def o_def sum_list_triv)
  then have room: "\<not> int (length ?c) > pk_storage b1 - oggpack_bytes b1"
    using reading_room [OF b1(2)] by simp
  have r: "replicate (length cs - i + 1) x = x # replicate (length cs - Suc i + 1) x" for x :: 'a
    using i by (simp add: Suc_diff_Suc flip: replicate_Suc)
  have lu: "length (map ?u (take i cs)) = i" "length (map ?l (take i cs)) = i" using i by simp_all
  have wu: "wr (map ?u (take i cs) @ None # replicate (length cs - Suc i + 1) None) (int i) (?u ?c)
      = Some (map ?u (take (Suc i) cs) @ replicate (length cs - Suc i + 1) None)"
    using i wr_nat [of i "map ?u (take i cs) @ None # replicate (length cs - Suc i + 1) None"]
    by (simp add: list_update_append take_Suc_conv_app_nth)
  have wl: "wr (map ?l (take i cs) @ 0 # replicate (length cs - Suc i + 1) 0) (int i) (?l ?c)
      = Some (map ?l (take (Suc i) cs) @ replicate (length cs - Suc i + 1) 0)"
    using i wr_nat [of i "map ?l (take i cs) @ 0 # replicate (length cs - Suc i + 1) 0"]
    by (simp add: list_update_append take_Suc_conv_app_nth)
  have us: "vc_user vc = Some (map ?u (take i cs) @ None # replicate (length cs - Suc i + 1) None)"
    "vc_lens vc = Some (map ?l (take i cs) @ 0 # replicate (length cs - Suc i + 1) 0)"
    using vc r unfolding filled_def by metis+
  let ?vc = "vc\<lparr>vc_lens := Some (map ?l (take (Suc i) cs) @ replicate (length cs - Suc i + 1) 0),
    vc_user := Some (map ?u (take (Suc i) cs) @ replicate (length cs - Suc i + 1) None)\<rparr>"
  have "unpack_one m vc b (int i) = Some (?vc, b2, True)"
    using b1(1) b2(1) room us wu wl by (simp add: unpack_one_def)
  moreover have "filled ?vc cs (Suc i) v" using vc by (simp add: filled_def)
  ultimately show ?thesis using b2(2) by blast
qed

lemma unpack_loop_items:
  assumes "mem_good m" and "filled vc cs i v" and "i + n = length cs" and "\<forall>c \<in> set cs. length c + 1 < 2 ^ 31"
    and "reading lsb b (item_bits lsb_value (concat (map comment_items (drop i cs))) @ zs)"
  shows "\<exists>vc' b'. unpack_loop m vc b i n = Some (vc', b', True) \<and> filled vc' cs (length cs) v \<and> reading lsb b' zs"
  using assms(2,3,5)
proof (induction n arbitrary: vc b i)
  case (Suc n)
  then have i: "i < length cs" by simp
  have "drop i cs = cs ! i # drop (Suc i) cs" using i by (simp add: Cons_nth_drop_Suc)
  then have "reading lsb b (item_bits lsb_value (comment_items (cs ! i)) @
      item_bits lsb_value (concat (map comment_items (drop (Suc i) cs))) @ zs)"
    using Suc.prems(3) by (simp add: item_bits_def)
  then obtain vc1 b1 where 1: "unpack_one m vc b (int i) = Some (vc1, b1, True)" "filled vc1 cs (Suc i) v"
    "reading lsb b1 (item_bits lsb_value (concat (map comment_items (drop (Suc i) cs))) @ zs)"
    using unpack_one_item [OF assms(1) Suc.prems(1) i] assms(4) i by fastforce
  show ?case using Suc.IH [OF 1(2) _ 1(3)] Suc.prems(2) 1(1) by simp
qed simp


text \<open>The bytes of a comment header in front of its last bit.\<close>

definition header_size :: "byte list \<Rightarrow> byte list list \<Rightarrow> nat" where
  "header_size v cs = 15 + length v + sum_list (map (\<lambda>c. 4 + length c) cs)"

lemma sum_str_items [simp]: "sum_list (map snd (str_items c)) = 8 * length c"
  by (simp add: str_items_def o_def sum_list_triv)

lemma sum_comment_items: "sum_list (map snd (concat (map comment_items cs))) = 8 * sum_list (map (\<lambda>c. 4 + length c) cs)"
  by (induction cs) (simp_all add: comment_items_def)

lemma sum_header_items: "sum_list (map snd (header_items v cs)) = 8 * header_size v cs + 1"
  by (simp add: header_items_def header_size_def sum_comment_items) (simp add: comment_items_def vorbis_preamble_def)

lemma header_items_width: "\<forall>(w, n) \<in> set (header_items v cs). n \<le> 32"
  by (auto simp: header_items_def comment_items_def str_items_def)

lemma item_bits_append [simp]: "item_bits val (xs @ ys) = item_bits val xs @ item_bits val ys"
  by (simp add: item_bits_def)

lemma commentheader_out_bits:
  assumes m: "mem_good m" and vc: "holds vc cs" and v: "cstring vendor = Some v"
    and n: "int (header_size v cs) < LONG_MAX - 516"
  shows "\<exists>p zs. commentheader_out m vc vendor old =
      Some \<lparr>op_packet = p, op_bos = False, op_eos = False, op_granulepos = 0, op_packetno = old\<rparr>
    \<and> reading lsb (oggpack_readinit p (int (length p))) (item_bits lsb_value (header_items v cs) @ zs)
    \<and> length p = header_size v cs + 1"
proof -
  have "int (sum_list (map snd (header_items v cs))) \<le> 8 * (LONG_MAX - 516)"
    using n by (simp add: sum_header_items)
  then obtain b0 b where b: "oggpack_writeinit (chars m) = Some b0"
    "write_all (oggpack_write (chars m)) b0 (header_items v cs) = Some b"
    "packed lsb b (item_bits lsb_value (header_items v cs))"
    using write_all_good [OF m _ header_items_width] by blast
  have len: "length (item_bits lsb_value (header_items v cs)) = 8 * header_size v cs + 1"
    by (simp add: lsbp.length_item_bits sum_header_items)
  show ?thesis
    using packed_packet_good [OF m b(3)] b(1,2) pack_header_items [OF vc v] n
    by (auto simp: commentheader_out_def len)
qed

text \<open>From the length of the vendor string on.\<close>

lemma unpack_comment_bits:
  assumes m: "mem_good m" and n: "int (header_size v cs) < LONG_MAX - 516" and st: "pk_storage b = int (header_size v cs) + 1"
    and b: "reading lsb b (item_bits lsb_value (comment_items v @ (of_nat (length cs), 32) #
      concat (map comment_items cs) @ [(1, 1)]) @ zs)"
  shows "\<exists>vc'. vorbis_unpack_comment m vc b = Some (vc', 0) \<and> holds vc' cs \<and> vc_vendor vc' = Some (v @ [0])"
proof -
  let ?cb = "item_bits lsb_value (concat (map comment_items cs))"
  have "length cs * 4 \<le> sum_list (map (\<lambda>c. 4 + length c) cs)"
    by (induction cs) auto
  then have cs: "length cs < 2 ^ 29" "4 * length cs \<le> sum_list (map (\<lambda>c. 4 + length c) cs)"
    using n by (simp_all add: header_size_def LONG_MAX_def)
  have v: "length v + 1 < 2 ^ 31" using n by (simp add: header_size_def LONG_MAX_def)
  have "4 + length c \<le> sum_list (map (\<lambda>c. 4 + length c) cs)" if "c \<in> set cs" for c
    using that by (intro member_le_sum_list) auto
  then have c: "\<forall>c \<in> set cs. length c + 1 < 2 ^ 31"
    using n by (fastforce simp: header_size_def LONG_MAX_def)
  have "reading lsb b (lsb_value (of_nat (length v)) 32 @ item_bits lsb_value (str_items v) @
      lsb_value (of_nat (length cs)) 32 @ ?cb @ lsb_value 1 1 @ zs)"
    using b by (simp add: comment_items_def)
  then obtain b1 where b1: "read_int b 32 = Some (b1, int (length v))"
    "reading lsb b1 (item_bits lsb_value (str_items v) @ lsb_value (of_nat (length cs)) 32 @ ?cb @ lsb_value 1 1 @ zs)"
    "pk_storage b1 = pk_storage b"
    using read_int_nat [of b "length v"] v by auto
  obtain b2 where b2: "v_readstring b1 (calloc (chars m) 0 (int (length v) + 1)) (int (length v)) = Some (b2, Some (v @ [0]))"
    "reading lsb b2 (lsb_value (of_nat (length cs)) 32 @ ?cb @ lsb_value 1 1 @ zs)"
    using read_text [OF m b1(2) v] by blast
  obtain b3 where b3: "read_int b2 32 = Some (b3, int (length cs))" "reading lsb b3 (?cb @ lsb_value 1 1 @ zs)"
    using read_int_nat [OF b2(2)] cs(1) by auto
  have "length ?cb = 8 * sum_list (map (\<lambda>c. 4 + length c) cs)"
    by (simp add: lsbp.length_item_bits sum_comment_items)
  then have room: "\<not> int (length cs) > (pk_storage b3 - oggpack_bytes b3) div 4"
    using reading_room [OF b3(2)] cs(2) by simp
  have e: "elems (int (length cs) + 1) = int (length cs + 1)" using cs(1) by (simp add: elems_def)
  have g: "calloc (ptrs m) None (int (length cs + 1)) = Some (replicate (length cs + 1) None)"
    "calloc (ints m) 0 (int (length cs + 1)) = Some (replicate (length cs + 1) 0)"
    using m cs(1) by (intro calloc_good; simp add: mem_good_def LONG_MAX_def)+
  let ?vc = "vc\<lparr>vc_vendor := Some (v @ [0]), vc_comments := int (length cs), vc_user := Some (replicate (length cs + 1) None),
    vc_lens := Some (replicate (length cs + 1) 0)\<rparr>"
  have "filled ?vc cs 0 (Some (v @ [0]))" by (simp add: filled_def)
  then obtain vc' b4 where b4: "unpack_loop m ?vc b3 0 (length cs) = Some (vc', b4, True)"
    "filled vc' cs (length cs) (Some (v @ [0]))" "reading lsb b4 (lsb_value 1 1 @ zs)"
    using unpack_loop_items [OF m _ _ c, of ?vc 0 "Some (v @ [0])" "length cs" b3 "lsb_value 1 1 @ zs"] b3(2) by auto
  obtain b5 where "oggpack_read b4 1 = Some (b5, 1)"
    using read_val [OF b4(3)] by auto
  moreover have "\<not> int (length v) > pk_storage b1 - 8"
    using st b1(3) by (simp add: header_size_def)
  ultimately have "vorbis_unpack_comment m vc b = Some (vc', 0)"
    using b1(1) b2(1) b3(1) b4(1) room e g by (simp add: vorbis_unpack_comment_def unpack_fields_def Let_def)
  moreover have "holds vc' cs" using b4(2) by (simp add: filled_def holds_def)
  ultimately show ?thesis using b4(2) by (simp add: filled_def)
qed


text \<open>The type of the packet and the word \<open>vorbis\<close>.\<close>

lemma read_preamble:
  assumes "reading lsb b (item_bits lsb_value ((w, 8) # str_items vorbis_preamble) @ zs)"
  shows "\<exists>b1 b2. read_int b 8 = Some (b1, sint (take_bit 8 w))
    \<and> v_readstring b1 (Some (replicate 6 0)) 6 = Some (b2, Some vorbis_preamble)
    \<and> reading lsb b2 zs \<and> pk_storage b2 = pk_storage b"
proof -
  have "reading lsb b (lsb_value w 8 @ item_bits lsb_value (str_items vorbis_preamble) @ zs)" using assms by simp
  then obtain b1 where b1: "oggpack_read b 8 = Some (b1, take_bit 8 w)"
    "reading lsb b1 (item_bits lsb_value (str_items vorbis_preamble) @ zs)" "pk_storage b1 = pk_storage b"
    using read_val [of b w 8] by auto
  have "length vorbis_preamble = 6" by (simp add: vorbis_preamble_def)
  then show ?thesis
    using v_readstring_items [OF b1(2), of "replicate 6 0"] b1(1,3) by (auto simp: read_int_def)
qed

text \<open>C36: The comment header that the tag editor packs is the packet of the size \<open>header_size + 1\<close> from which
  the library reads back the vendor string and the same texts in the same order, whatever bytes they hold.
  The length checks of the reader never refuse it.\<close>

theorem comment_header_roundtrip:
  assumes "mem_good m" and "holds vc cs" and "cstring vendor = Some v" and "int (header_size v cs) < LONG_MAX - 516"
    and "vi_rate vi \<noteq> 0" and "vc_vendor old = None"
  shows "\<exists>op vc'. commentheader_out m vc vendor no = Some op \<and> length (op_packet op) = header_size v cs + 1
    \<and> vorbis_synthesis_headerin books m vi old (Some op) = Some (vi, vc', 0)
    \<and> holds vc' cs \<and> vc_vendor vc' = Some (v @ [0])"
proof -
  obtain p zs where p: "commentheader_out m vc vendor no =
      Some \<lparr>op_packet = p, op_bos = False, op_eos = False, op_granulepos = 0, op_packetno = no\<rparr>"
    "reading lsb (oggpack_readinit p (int (length p))) (item_bits lsb_value (header_items v cs) @ zs)"
    "length p = header_size v cs + 1"
    using commentheader_out_bits [OF assms(1,2,3,4)] by blast
  let ?r = "comment_items v @ (of_nat (length cs), 32) # concat (map comment_items cs) @ [(1, 1)]"
  have "header_items v cs = ((3, 8) # str_items vorbis_preamble) @ ?r" by (simp add: header_items_def)
  then have "reading lsb (oggpack_readinit p (int (length p)))
      (item_bits lsb_value ((3, 8) # str_items vorbis_preamble) @ (item_bits lsb_value ?r @ zs))"
    using p(2) by (simp only: item_bits_append append_assoc)
  from read_preamble [OF this] obtain b1 b2
    where b: "read_int (oggpack_readinit p (int (length p))) 8 = Some (b1, sint (take_bit 8 3 :: 32 word))"
      "v_readstring b1 (Some (replicate 6 0)) 6 = Some (b2, Some vorbis_preamble)"
      "reading lsb b2 (item_bits lsb_value ?r @ zs)" "pk_storage b2 = int (length p)"
    by (auto simp: oggpack_readinit_def)
  obtain vc' where "vorbis_unpack_comment m old b2 = Some (vc', 0)" "holds vc' cs" "vc_vendor vc' = Some (v @ [0])"
    using unpack_comment_bits [OF assms(1,4) _ b(3)] b(4) p(3) by auto
  then show ?thesis
    using p(1,3) b(1,2) assms(5,6) by (simp add: vorbis_synthesis_headerin_def)
qed

definition demo_info :: vorbis_info where
  "demo_info = \<lparr>vi_version = 0, vi_channels = 2, vi_rate = 44100, vi_upper = -1, vi_nominal = 128000, vi_lower = -1,
     vi_window = 0, vi_setup = Some (codec_setup_zero\<lparr>blocksize0 := 256, blocksize1 := 2048\<rparr>)\<rparr>"

theorem comment_header_roundtrip_witness:
  "\<exists>op vc'. commentheader_out tag_mem demo_comments [0x56, 0] 1 = Some op \<and> length (op_packet op) = 38
    \<and> vorbis_synthesis_headerin (\<lambda>vi b. None) tag_mem demo_info vorbis_comment_init (Some op) = Some (demo_info, vc', 0)
    \<and> holds vc' [[0x61, 0x3D, 0x31], [0x62, 0x3D, 0x32], [0x41, 0x3D, 0x33]]
    \<and> vc_vendor vc' = Some [0x56, 0]"
proof -
  have "cstring [0x56, 0] = Some [0x56]" by (simp add: cstring_def)
  moreover have "header_size [0x56] [[0x61, 0x3D, 0x31], [0x62, 0x3D, 0x32], [0x41, 0x3D, 0x33]] = 37"
    by (simp add: header_size_def)
  ultimately show ?thesis
    using comment_header_roundtrip [OF tag_mem_good demo_holds, of "[0x56, 0]" "[0x56]" demo_info vorbis_comment_init 1 "\<lambda>vi b. None"]
    by (simp add: demo_info_def vorbis_comment_init_def LONG_MAX_def)
qed

section \<open>The identification header\<close>

lemma ov_ilog_loop_pow: "k < 32 \<Longrightarrow> ov_ilog_loop (mask k) r = r + int k"
proof (induction k arbitrary: r)
  case (Suc k)
  have "(mask (Suc k) :: 32 word) \<noteq> 0" by (simp add: mask_eq_0_iff)
  moreover have "drop_bit 1 (mask (Suc k) :: 32 word) = mask k"
    using Suc.prems by (intro bit_word_eqI) (auto simp: bit_simps)
  ultimately show ?case using Suc by (subst ov_ilog_loop.simps) simp
qed (simp add: ov_ilog_loop.simps)

lemma ov_ilog_pow: "k < 32 \<Longrightarrow> ov_ilog (of_int (2 ^ k - 1)) = int k"
  using ov_ilog_loop_pow [of k 0] by (simp add: ov_ilog_def mask_eq_exp_minus_1)

text \<open>The parameters that fit into the header.\<close>

definition info_fits :: "vorbis_info \<Rightarrow> bool" where
  "info_fits vi \<longleftrightarrow> vi_version vi = 0 \<and> vi_channels vi \<in> {1..255} \<and> vi_rate vi \<in> {1..2 ^ 31 - 1} \<and>
     (\<forall>x \<in> {vi_upper vi, vi_nominal vi, vi_lower vi}. - (2 ^ 31) \<le> x \<and> x < 2 ^ 31) \<and>
     (\<exists>ci j k. vi_setup vi = Some ci \<and> blocksize0 ci = 2 ^ j \<and> blocksize1 ci = 2 ^ k \<and> 6 \<le> j \<and> j \<le> k \<and> k \<le> 13)"

definition info_items :: "vorbis_info \<Rightarrow> nat \<Rightarrow> nat \<Rightarrow> (32 word \<times> nat) list" where
  "info_items vi j k = [(0, 32), (of_int (vi_channels vi), 8), (of_int (vi_rate vi), 32), (of_int (vi_upper vi), 32),
     (of_int (vi_nominal vi), 32), (of_int (vi_lower vi), 32), (of_nat j, 4), (of_nat k, 4), (1, 1)]"


lemma pack_info_items:
  assumes "vi_setup vi = Some ci" "blocksize0 ci = 2 ^ j" "blocksize1 ci = 2 ^ k" "6 \<le> j" "j \<le> k" "k \<le> 13"
  shows "vorbis_pack_info al b vi = Option.bind
    (write_all (oggpack_write al) b ((1, 8) # str_items vorbis_preamble @ info_items vi j k)) (\<lambda>b. Some (b, 0))"
proof -
  have "\<not> (2::int) ^ j < 64" using power_increasing [OF assms(4), of "2::int"] by simp
  moreover have "\<not> (2::int) ^ k < 2 ^ j" using power_increasing [OF assms(5), of "2::int"] by simp
  moreover have "v_writestring al b vorbis_preamble 6 = write_all (oggpack_write al) b (str_items vorbis_preamble)" for b
    using v_writestring_items [of al b vorbis_preamble "[]"] by (simp add: vorbis_preamble_def)
  moreover have "ov_ilog (of_int (2 ^ j - 1)) = int j" "ov_ilog (of_int (2 ^ k - 1)) = int k"
    using assms ov_ilog_pow [of j] ov_ilog_pow [of k] by simp_all
  ultimately show ?thesis
    using assms(1,2,3) by (simp add: vorbis_pack_info_def info_items_def write_all_append bind_assoc)
qed

lemma sint_of_int32: "- (2 ^ 31) \<le> x \<Longrightarrow> x < 2 ^ 31 \<Longrightarrow> sint (take_bit 32 (of_int x) :: 32 word) = x"
  by (simp add: take_bit_word_eq_self signed_of_int signed_take_bit_int_eq_self)

lemma sint_small:
  assumes "k < 32" and "x < 2 ^ k"
  shows "sint (take_bit k (of_nat x) :: 32 word) = int x"
proof -
  have "take_bit k x = x" using assms(2) by (simp add: take_bit_nat_eq_self)
  then have "take_bit k (of_nat x :: 32 word) = of_nat x" by (metis take_bit_of_nat)
  moreover have "x < 2 ^ 31" using assms power_increasing [of k 31 "2::nat"] by linarith
  ultimately show ?thesis using sint_nat32 [of x] by (simp add: take_bit_word_eq_self)
qed

lemma read_int_item:
  assumes "reading lsb b (lsb_value w n @ zs)" and "n \<le> 32" and "sint (take_bit n w) = x"
  shows "\<exists>b'. read_int b (int n) = Some (b', x) \<and> reading lsb b' zs"
  using read_val [OF assms(1,2)] assms(3) by (auto simp: read_int_def)

lemma unpack_info_bits:
  assumes fits: "info_fits vi" and ci: "vi_setup vi = Some ci" "blocksize0 ci = 2 ^ j" "blocksize1 ci = 2 ^ k"
      "6 \<le> j" "j \<le> k" "k \<le> 13"
    and new: "vi_setup vi0 = Some ci0" and b: "reading lsb b (item_bits lsb_value (info_items vi j k) @ zs)"
  shows "vorbis_unpack_info vi0 b = Some (vi\<lparr>vi_window := vi_window vi0,
    vi_setup := Some (ci0\<lparr>blocksize0 := blocksize0 ci, blocksize1 := blocksize1 ci\<rparr>)\<rparr>, 0)"
proof -
  have r: "\<forall>x \<in> {vi_rate vi, vi_upper vi, vi_nominal vi, vi_lower vi}. sint (take_bit 32 (of_int x) :: 32 word) = x"
    using fits by (auto simp: info_fits_def intro!: sint_of_int32)
  have ch: "sint (take_bit 8 (of_int (vi_channels vi)) :: 32 word) = vi_channels vi"
  proof -
    have "0 \<le> vi_channels vi" "nat (vi_channels vi) < 2 ^ 8" using fits by (auto simp: info_fits_def)
    then show ?thesis using sint_small [of 8 "nat (vi_channels vi)"] by simp
  qed
  have jk: "sint (take_bit 4 (of_nat j) :: 32 word) = int j" "sint (take_bit 4 (of_nat k) :: 32 word) = int k"
    using ci by (auto intro!: sint_small)
  note b = b [unfolded info_items_def item_bits_simps append_assoc append_Nil append_Nil2]
  obtain b1 where b1: "read_int b 32 = Some (b1, 0)"
    and r1: "reading lsb b1 (lsb_value (of_int (vi_channels vi)) 8 @ lsb_value (of_int (vi_rate vi)) 32 @
      lsb_value (of_int (vi_upper vi)) 32 @ lsb_value (of_int (vi_nominal vi)) 32 @ lsb_value (of_int (vi_lower vi)) 32 @
      lsb_value (of_nat j) 4 @ lsb_value (of_nat k) 4 @ lsb_value 1 1 @ zs)"
    using read_int_item [OF b, of 0] by auto
  obtain b2 where b2: "read_int b1 8 = Some (b2, vi_channels vi)"
    and r2: "reading lsb b2 (lsb_value (of_int (vi_rate vi)) 32 @
      lsb_value (of_int (vi_upper vi)) 32 @ lsb_value (of_int (vi_nominal vi)) 32 @ lsb_value (of_int (vi_lower vi)) 32 @
      lsb_value (of_nat j) 4 @ lsb_value (of_nat k) 4 @ lsb_value 1 1 @ zs)"
    using read_int_item [OF r1 _ ch] by auto
  obtain b3 where b3: "read_int b2 32 = Some (b3, vi_rate vi)"
    and r3: "reading lsb b3 (
      lsb_value (of_int (vi_upper vi)) 32 @ lsb_value (of_int (vi_nominal vi)) 32 @ lsb_value (of_int (vi_lower vi)) 32 @
      lsb_value (of_nat j) 4 @ lsb_value (of_nat k) 4 @ lsb_value 1 1 @ zs)"
    using read_int_item [OF r2, of "vi_rate vi"] r by auto
  obtain b4 where b4: "read_int b3 32 = Some (b4, vi_upper vi)"
    and r4: "reading lsb b4 (lsb_value (of_int (vi_nominal vi)) 32 @ lsb_value (of_int (vi_lower vi)) 32 @
      lsb_value (of_nat j) 4 @ lsb_value (of_nat k) 4 @ lsb_value 1 1 @ zs)"
    using read_int_item [OF r3, of "vi_upper vi"] r by auto
  obtain b5 where b5: "read_int b4 32 = Some (b5, vi_nominal vi)"
    and r5: "reading lsb b5 (lsb_value (of_int (vi_lower vi)) 32 @
      lsb_value (of_nat j) 4 @ lsb_value (of_nat k) 4 @ lsb_value 1 1 @ zs)"
    using read_int_item [OF r4, of "vi_nominal vi"] r by auto
  obtain b6 where b6: "read_int b5 32 = Some (b6, vi_lower vi)"
    and r6: "reading lsb b6 (lsb_value (of_nat j) 4 @ lsb_value (of_nat k) 4 @ lsb_value 1 1 @ zs)"
    using read_int_item [OF r5, of "vi_lower vi"] r by auto
  obtain b7 where b7: "read_int b6 4 = Some (b7, int j)" and r7: "reading lsb b7 (lsb_value (of_nat k) 4 @ lsb_value 1 1 @ zs)"
    using read_int_item [OF r6 _ jk(1)] by auto
  obtain b8 where b8: "read_int b7 4 = Some (b8, int k)" and r8: "reading lsb b8 (lsb_value 1 1 @ zs)"
    using read_int_item [OF r7 _ jk(2)] by auto
  obtain b9 where b9: "oggpack_read b8 1 = Some (b9, 1)" using read_val [OF r8] by auto
  have sh: "shl_one (int j) = Some (blocksize0 ci)" "shl_one (int k) = Some (blocksize1 ci)"
    using ci by (simp_all add: shl_one_def)
  have "(2::int) ^ 6 \<le> 2 ^ j" "(2::int) ^ j \<le> 2 ^ k" "(2::int) ^ k \<le> 2 ^ 13"
    using power_increasing [OF ci(4), of "2::int"] power_increasing [OF ci(5), of "2::int"]
      power_increasing [OF ci(6), of "2::int"] by simp_all
  then have ok: "info_valid (vi0\<lparr>vi_version := 0, vi_channels := vi_channels vi, vi_rate := vi_rate vi, vi_upper := vi_upper vi,
      vi_nominal := vi_nominal vi, vi_lower := vi_lower vi,
      vi_setup := Some (ci0\<lparr>blocksize0 := blocksize0 ci, blocksize1 := blocksize1 ci\<rparr>)\<rparr>)
      (ci0\<lparr>blocksize0 := blocksize0 ci, blocksize1 := blocksize1 ci\<rparr>)"
    using fits ci by (simp add: info_valid_def info_fits_def)
  have "vi_version vi = 0" using fits by (simp add: info_fits_def)
  then show ?thesis
    using new b1 b2 b3 b4 b5 b6 b7 b8 b9 sh ok by (simp add: vorbis_unpack_info_def)
qed


lemma sum_info_items: "sum_list (map snd ((1, 8) # str_items vorbis_preamble @ info_items vi j k)) = 233"
  by (simp add: info_items_def vorbis_preamble_def)

text \<open>C38: The identification header that is packed for parameters in range is a packet of 30 bytes, is
  recognised as such, and reading it into a fresh structure gives the same parameters back; without the
  flag of the first page it is refused.\<close>

theorem info_header_roundtrip:
  assumes "mem_good m" and "info_fits vi" and "vi_rate vi0 = 0" and "vi_setup vi0 = Some ci0"
  shows "\<exists>b0 b p ci. oggpack_writeinit (chars m) = Some b0 \<and> vorbis_pack_info (chars m) b0 vi = Some (b, 0)
    \<and> packed_packet (chars m) b = Some p \<and> length p = 30 \<and> vi_setup vi = Some ci
    \<and> (\<forall>op. op_packet op = p \<longrightarrow>
        vorbis_synthesis_idheader (Some op) = Some (op_bos op)
        \<and> vorbis_synthesis_headerin books m vi0 vc (Some op) =
          (if op_bos op then Some (vi\<lparr>vi_window := vi_window vi0,
             vi_setup := Some (ci0\<lparr>blocksize0 := blocksize0 ci, blocksize1 := blocksize1 ci\<rparr>)\<rparr>, vc, 0)
           else Some (vi0, vc, OV_EBADHEADER)))"
proof -
  obtain ci j k where ci: "vi_setup vi = Some ci" "blocksize0 ci = 2 ^ j" "blocksize1 ci = 2 ^ k" "6 \<le> j" "j \<le> k" "k \<le> 13"
    using assms(2) by (auto simp: info_fits_def)
  let ?pre = "(1, 8) # str_items vorbis_preamble"
  let ?items = "?pre @ info_items vi j k"
  have sum: "sum_list (map snd ?items) = 233" using sum_info_items by simp
  have "\<forall>(w, n) \<in> set ?items. n \<le> 32" by (auto simp: info_items_def str_items_def)
  moreover have "int (sum_list (map snd ?items)) \<le> 8 * (LONG_MAX - 516)" unfolding sum by (simp add: LONG_MAX_def)
  ultimately obtain b0 b where b: "oggpack_writeinit (chars m) = Some b0" "write_all (oggpack_write (chars m)) b0 ?items = Some b"
    "packed lsb b (item_bits lsb_value ?items)"
    using write_all_good [OF assms(1)] by blast
  have len: "length (item_bits lsb_value ?items) = 233" unfolding lsbp.length_item_bits by (rule sum)
  obtain p zs where p: "packed_packet (chars m) b = Some p" "length p = 30"
    and r: "reading lsb (oggpack_readinit p (int (length p))) (item_bits lsb_value ?items @ zs)"
    using packed_packet_good [OF assms(1) b(3)] unfolding len by (auto simp: LONG_MAX_def)
  have "reading lsb (oggpack_readinit p (int (length p))) (item_bits lsb_value ?pre @ item_bits lsb_value (info_items vi j k) @ zs)"
    using r by (simp only: item_bits_append append_assoc)
  from read_preamble [OF this] obtain b1 b2 where b1: "read_int (oggpack_readinit p (int (length p))) 8 = Some (b1, 1)"
    "v_readstring b1 (Some (replicate 6 0)) 6 = Some (b2, Some vorbis_preamble)"
    "reading lsb b2 (item_bits lsb_value (info_items vi j k) @ zs)" by auto
  obtain x where x: "oggpack_read (oggpack_readinit p (int (length p))) 8 = Some (b1, x)" "sint x = 1"
    using b1(1) by (auto simp: read_int_def)
  have "x = 1" using arg_cong [OF x(2), of "of_int :: int \<Rightarrow> 32 word"] by simp
  then have "vorbis_synthesis_idheader (Some op) = Some (op_bos op)" if "op_packet op = p" for op
    using x(1) b1(2) that by (simp add: vorbis_synthesis_idheader_def)
  moreover note unpack_info_bits [OF assms(2) ci assms(4) b1(3)]
  ultimately show ?thesis
    using b(1,2) p ci(1) pack_info_items [OF ci, of "chars m" b0] b1(1,2) assms(3)
    by (intro exI [of _ b0] exI [of _ b] exI [of _ p] exI [of _ ci]) (simp add: vorbis_synthesis_headerin_def)
qed

theorem info_header_roundtrip_witness:
  "\<exists>b0 b p. oggpack_writeinit (chars tag_mem) = Some b0 \<and> vorbis_pack_info (chars tag_mem) b0 demo_info = Some (b, 0)
    \<and> packed_packet (chars tag_mem) b = Some p \<and> length p = 30
    \<and> vorbis_synthesis_headerin (\<lambda>vi b. None) tag_mem (vorbis_info_init True) vorbis_comment_init
        (Some \<lparr>op_packet = p, op_bos = True, op_eos = False, op_granulepos = 0, op_packetno = 0\<rparr>)
      = Some (demo_info, vorbis_comment_init, 0)"
proof -
  have "info_fits demo_info"
    unfolding info_fits_def demo_info_def
    by (simp, rule exI [of _ "8::nat"], simp, rule exI [of _ "11::nat"], simp)
  then show ?thesis
    using info_header_roundtrip [OF tag_mem_good, of demo_info "vorbis_info_init True"
        codec_setup_zero "\<lambda>vi b. None" vorbis_comment_init]
    by (fastforce simp: vorbis_info_init_def vorbis_info_zero_def demo_info_def)
qed


text \<open>At most \<open>k\<close> bits are left.\<close>

definition avail :: "oggpack_buffer \<Rightarrow> nat \<Rightarrow> bool" where
  "avail b k \<longleftrightarrow> (\<exists>xs. reading lsb b xs \<and> length xs \<le> k) \<or> (\<exists>b0. b = pk_overflow b0)"

lemma read_int_avail:
  assumes "avail b k" and "n \<le> 32"
  shows "\<exists>b' v. read_int b (int n) = Some (b', v) \<and> avail b' (k - n) \<and> (k < n \<longrightarrow> v = -1)"
  using assms(1) unfolding avail_def
proof (elim disjE exE conjE)
  fix xs assume xs: "reading lsb b xs" "length xs \<le> k"
  show "\<exists>b' v. read_int b (int n) = Some (b', v) \<and> ((\<exists>xs. reading lsb b' xs \<and> length xs \<le> k - n) \<or> (\<exists>b0. b' = pk_overflow b0))
      \<and> (k < n \<longrightarrow> v = -1)"
  proof (cases "n \<le> length xs")
    case True
    then obtain b' where "oggpack_read b (int n) = Some (b', lsb_num (take n xs))" "reading lsb b' (drop n xs)"
      using oggpack_read_reading [OF xs(1) assms(2)] by auto
    moreover have "length (drop n xs) \<le> k - n" using xs(2) by simp
    ultimately show ?thesis using True xs(2) by (force simp: read_int_def)
  next
    case False
    then show ?thesis using oggpack_read_reading [OF xs(1) assms(2)] by (auto simp: read_int_def)
  qed
next
  fix b0 assume "b = pk_overflow b0"
  then show "\<exists>b' v. read_int b (int n) = Some (b', v) \<and> ((\<exists>xs. reading lsb b' xs \<and> length xs \<le> k - n) \<or> (\<exists>b0. b' = pk_overflow b0))
      \<and> (k < n \<longrightarrow> v = -1)"
    using read_overflow(1) [of "int n" b0] assms(2) by (auto simp: read_int_def)
qed

text \<open>A header that ends in front of the sizes of the blocks shifts by \<open>-1\<close>.\<close>

lemma unpack_info_short:
  assumes "reading lsb b (lsb_value 0 32 @ xs)" and "length xs < 140" and "vi_setup vi = Some ci"
  shows "vorbis_unpack_info vi b = None"
proof -
  obtain b1 where b1: "read_int b 32 = Some (b1, 0)" "avail b1 139"
    using read_int_item [OF assms(1), of 0] assms(2) by (fastforce simp: avail_def)
  obtain b2 ch where b2: "read_int b1 8 = Some (b2, ch)" "avail b2 131" using read_int_avail [OF b1(2), of 8] by auto
  obtain b3 ra where b3: "read_int b2 32 = Some (b3, ra)" "avail b3 99" using read_int_avail [OF b2(2), of 32] by auto
  obtain b4 up where b4: "read_int b3 32 = Some (b4, up)" "avail b4 67" using read_int_avail [OF b3(2), of 32] by auto
  obtain b5 no where b5: "read_int b4 32 = Some (b5, no)" "avail b5 35" using read_int_avail [OF b4(2), of 32] by auto
  obtain b6 lo where b6: "read_int b5 32 = Some (b6, lo)" "avail b6 3" using read_int_avail [OF b5(2), of 32] by auto
  obtain b7 where b7: "read_int b6 4 = Some (b7, -1)" using read_int_avail [OF b6(2), of 4] by auto
  show ?thesis
    using assms(3) b1(1) b2(1) b3(1) b4(1) b5(1) b6(1) b7 by (simp add: vorbis_unpack_info_def shl_one_def)
qed


section \<open>Any packet\<close>

text \<open>The reader is within the packet or has run over its end.\<close>

definition reader_ok :: "oggpack_buffer \<Rightarrow> int \<Rightarrow> bool" where
  "reader_ok b st \<longleftrightarrow> ((\<exists>xs. reading lsb b xs) \<or> (\<exists>b0. b = pk_overflow b0)) \<and> pk_storage b = st"

lemma reader_read:
  assumes "reader_ok b st" and "n \<le> 32"
  shows "\<exists>b' v. oggpack_read b (int n) = Some (b', v) \<and> reader_ok b' st"
proof -
  have "\<exists>b' v. oggpack_read b (int n) = Some (b', v) \<and> ((\<exists>xs. reading lsb b' xs) \<or> (\<exists>b0. b' = pk_overflow b0))"
    using assms(1) unfolding reader_ok_def
  proof (elim conjE disjE exE)
    fix xs assume xs: "reading lsb b xs"
    show ?thesis using oggpack_read_reading [OF xs assms(2)] by (cases "n \<le> length xs") auto
  next
    fix b0 assume "b = pk_overflow b0"
    then show ?thesis using read_overflow(1) [of "int n" b0] assms(2) by auto
  qed
  then show ?thesis using assms(1) read_storage unfolding reader_ok_def by metis
qed

lemma reader_read_int: "reader_ok b st \<Longrightarrow> \<exists>b' v. read_int b 32 = Some (b', v) \<and> reader_ok b' st \<and> v < 2 ^ 31"
  using reader_read [of b st 32] sint_lt [of "_ :: 32 word"] by (fastforce simp: read_int_def)

lemma reader_bytes:
  assumes "reader_ok b st" and "0 \<le> st" shows "0 \<le> oggpack_bytes b"
  using assms(1) unfolding reader_ok_def
proof (elim conjE disjE exE)
  fix xs assume "reading lsb b xs"
  then show ?thesis by (auto simp: reading_def oggpack_bytes_def)
next
  fix b0 assume "b = pk_overflow b0" "pk_storage b = st"
  then show ?thesis using assms(2) by (simp add: oggpack_bytes_def pk_overflow_def)
qed

lemma readstring_loop_any:
  assumes "reader_ok b st" and "i + n \<le> length blk"
  shows "\<exists>b' cs. readstring_loop b (Some blk) i n = Some (b', Some (take i blk @ cs @ drop (i + n) blk))
    \<and> length cs = n \<and> reader_ok b' st"
  using assms
proof (induction n arbitrary: b i blk)
  case (Suc n)
  obtain b1 v where b1: "oggpack_read b 8 = Some (b1, v)" "reader_ok b1 st"
    using reader_read [OF Suc.prems(1), of 8] by auto
  let ?c = "ucast v :: byte"
  have w: "wr blk (int i) ?c = Some (blk[i := ?c])" using Suc.prems(2) by (intro wr_nat) simp
  have eq: "take (Suc i) (blk[i := ?c]) = take i blk @ [?c]" "drop (Suc i + n) (blk[i := ?c]) = drop (i + Suc n) blk"
    using Suc.prems(2) by (simp_all add: take_Suc_conv_app_nth)
  obtain b' cs where "readstring_loop b1 (Some (blk[i := ?c])) (Suc i) n =
      Some (b', Some (take (Suc i) (blk[i := ?c]) @ cs @ drop (Suc i + n) (blk[i := ?c])))" "length cs = n" "reader_ok b' st"
    using Suc.IH [OF b1(2), of "Suc i" "blk[i := ?c]"] Suc.prems(2) by auto
  then show ?case
    using b1(1) w unfolding eq by (intro exI [of _ b'] exI [of _ "?c # cs"]) simp
qed simp

text \<open>A string of the length \<open>len\<close> read into a fresh block.\<close>

lemma read_text_any:
  assumes m: "mem_good m" and b: "reader_ok b st" and len: "0 \<le> len" "len + 1 \<le> LONG_MAX"
  shows "\<exists>b' c. v_readstring b (calloc (chars m) 0 (len + 1)) len = Some (b', Some (c @ [0]))
    \<and> int (length c) = len \<and> reader_ok b' st"
proof -
  define n where "n = nat len"
  then have n: "len = int n" "n + 1 < 2 ^ 31" using len by (auto simp: LONG_MAX_def)
  have "calloc (chars m) 0 (int (n + 1)) = Some (replicate (n + 1) 0)"
    using mem_good_Some [OF m n(2)] m by (intro calloc_good) (auto simp: mem_good_def)
  then have "calloc (chars m) 0 (len + 1) = Some (replicate n 0 @ [0])"
    by (simp add: n(1) replicate_append_same add.commute)
  then show ?thesis
    using readstring_loop_any [OF b, of 0 n "replicate n 0 @ [0]"] by (auto simp: v_readstring_def n(1))
qed

lemma unpack_one_any:
  assumes m: "mem_good m" and vc: "filled vc cs i v" and i: "i < length cs" and b: "reader_ok b st" and st: "0 \<le> st" "st < LONG_MAX"
  shows "\<exists>vc' b' ok. unpack_one m vc b (int i) = Some (vc', b', ok) \<and> reader_ok b' st
    \<and> (if ok then \<exists>c. filled vc' (cs[i := c]) (Suc i) v else vc' = vc)"
proof -
  let ?u = "\<lambda>c. Some (c @ [0 :: byte])" and ?l = "\<lambda>c. int (length (c :: byte list))"
  obtain b1 len where b1: "read_int b 32 = Some (b1, len)" "reader_ok b1 st" using reader_read_int [OF b] by blast
  show ?thesis
  proof (cases "len < 0 \<or> len > pk_storage b1 - oggpack_bytes b1")
    case True
    then show ?thesis using b1 by (auto simp: unpack_one_def)
  next
    case False
    then have "0 \<le> len" "len + 1 \<le> LONG_MAX" using b1(2) reader_bytes [OF b1(2) st(1)] st(2) by (auto simp: reader_ok_def)
    then obtain b2 c where b2: "v_readstring b1 (calloc (chars m) 0 (len + 1)) len = Some (b2, Some (c @ [0]))"
      "int (length c) = len" "reader_ok b2 st"
      using read_text_any [OF m b1(2)] by blast
    have r: "replicate (length cs - i + 1) x = x # replicate (length cs - Suc i + 1) x" for x :: 'a
      using i by (simp add: Suc_diff_Suc flip: replicate_Suc)
    have us: "vc_user vc = Some (map ?u (take i cs) @ None # replicate (length cs - Suc i + 1) None)"
      "vc_lens vc = Some (map ?l (take i cs) @ 0 # replicate (length cs - Suc i + 1) 0)"
      using vc r unfolding filled_def by metis+
    have t: "take (Suc i) (cs[i := c]) = take i cs @ [c]" using i by (simp add: take_Suc_conv_app_nth)
    have wu: "wr (map ?u (take i cs) @ None # replicate (length cs - Suc i + 1) None) (int i) (?u c)
        = Some (map ?u (take (Suc i) (cs[i := c])) @ replicate (length cs - Suc i + 1) None)"
      using i wr_nat [of i "map ?u (take i cs) @ None # replicate (length cs - Suc i + 1) None"]
      unfolding t by (simp add: list_update_append)
    have wl: "wr (map ?l (take i cs) @ 0 # replicate (length cs - Suc i + 1) 0) (int i) (?l c)
        = Some (map ?l (take (Suc i) (cs[i := c])) @ replicate (length cs - Suc i + 1) 0)"
      using i wr_nat [of i "map ?l (take i cs) @ 0 # replicate (length cs - Suc i + 1) 0"]
      unfolding t by (simp add: list_update_append)
    let ?vc = "vc\<lparr>vc_lens := Some (map ?l (take (Suc i) (cs[i := c])) @ replicate (length cs - Suc i + 1) 0),
      vc_user := Some (map ?u (take (Suc i) (cs[i := c])) @ replicate (length cs - Suc i + 1) None)\<rparr>"
    have "unpack_one m vc b (int i) = Some (?vc, b2, True)"
      using b1(1) b2(1,2) False us wu wl by (simp add: unpack_one_def)
    moreover have "filled ?vc (cs[i := c]) (Suc i) v" using vc by (simp add: filled_def)
    ultimately show ?thesis using b2(3) by auto
  qed
qed

lemma filled_clear: "filled vc cs i v \<Longrightarrow> vorbis_comment_clear vc = Some vorbis_comment_init"
  by (simp add: filled_def vorbis_comment_clear_def)

lemma unpack_loop_any:
  assumes "mem_good m" and "filled vc cs i v" and "i + n = length cs" and "reader_ok b st" and "0 \<le> st" "st < LONG_MAX"
  shows "\<exists>vc' b' ok. unpack_loop m vc b i n = Some (vc', b', ok) \<and> reader_ok b' st
    \<and> vorbis_comment_clear vc' = Some vorbis_comment_init \<and> (ok \<longrightarrow> (\<exists>cs'. filled vc' cs' (length cs') v))"
  using assms(2,3,4)
proof (induction n arbitrary: vc b cs i)
  case 0
  then show ?case using filled_clear by fastforce
next
  case (Suc n)
  obtain vc1 b1 ok where 1: "unpack_one m vc b (int i) = Some (vc1, b1, ok)" "reader_ok b1 st"
    "if ok then \<exists>c. filled vc1 (cs[i := c]) (Suc i) v else vc1 = vc"
    using unpack_one_any [OF assms(1) Suc.prems(1) _ Suc.prems(3) assms(5,6)] Suc.prems(2) by auto
  show ?case
  proof (cases ok)
    case True
    then obtain c where "filled vc1 (cs[i := c]) (Suc i) v" using 1(3) by auto
    then show ?thesis using Suc.IH [OF _ _ 1(2)] Suc.prems(2) 1(1) True by force
  next
    case False
    then show ?thesis using 1 filled_clear [OF Suc.prems(1)] by auto
  qed
qed


lemma unpack_comment_any:
  assumes m: "mem_good m" and vc: "vc_user vc = None" and b: "reader_ok b st" and st: "0 \<le> st" "st < LONG_MAX"
  shows "\<exists>vc'. vorbis_unpack_comment m vc b = Some (vc', OV_EBADHEADER) \<and> vc' = vorbis_comment_init
    \<or> vorbis_unpack_comment m vc b = Some (vc', 0) \<and> (\<exists>cs v. holds vc' cs \<and> vc_vendor vc' = Some (v @ [0]))"
proof -
  have clear: "vorbis_comment_clear (vc\<lparr>vc_vendor := v\<rparr>) = Some vorbis_comment_init" for v
    using vc by (simp add: vorbis_comment_clear_def)
  have clear0: "vorbis_comment_clear vc = Some vorbis_comment_init"
    using vc by (simp add: vorbis_comment_clear_def)
  obtain b1 len where b1: "read_int b 32 = Some (b1, len)" "reader_ok b1 st" using reader_read_int [OF b] by blast
  have sb1: "pk_storage b1 = st" using b1(2) by (simp add: reader_ok_def)
  show ?thesis
  proof (cases "len < 0 \<or> len > st - 8")
    case True
    then show ?thesis
      using b1(1) sb1 clear0 by (auto simp: vorbis_unpack_comment_def unpack_fields_def)
  next
    case False
    then obtain b2 v where b2: "v_readstring b1 (calloc (chars m) 0 (len + 1)) len = Some (b2, Some (v @ [0]))" "reader_ok b2 st"
      using read_text_any [OF m b1(2), of len] st(2) by auto
    obtain b3 i where b3: "read_int b2 32 = Some (b3, i)" "reader_ok b3 st" using reader_read_int [OF b2(2)] by blast
    have sb3: "pk_storage b3 = st" using b3(2) by (simp add: reader_ok_def)
    show ?thesis
    proof (cases "i < 0 \<or> i > (st - oggpack_bytes b3) div 4")
      case True
      then show ?thesis
        using b1(1) b2(1) b3(1) sb1 sb3 False clear by (auto simp: vorbis_unpack_comment_def unpack_fields_def Let_def)
    next
      case small: False
      define n where "n = nat i"
      have "4 * i \<le> st" using small reader_bytes [OF b3(2) st(1)] by auto
      then have n: "i = int n" "n + 1 < 2 ^ 30" using small st(2) by (auto simp: n_def LONG_MAX_def)
      have g: "calloc (ptrs m) None (int (n + 1)) = Some (replicate (n + 1) None)"
        "calloc (ints m) 0 (int (n + 1)) = Some (replicate (n + 1) 0)"
        using m n(2) by (intro calloc_good; simp add: mem_good_def LONG_MAX_def)+
      have e: "elems (i + 1) = int (n + 1)" using n by (simp add: elems_def)
      let ?vc = "vc\<lparr>vc_vendor := Some (v @ [0]), vc_comments := i, vc_user := Some (replicate (n + 1) None),
        vc_lens := Some (replicate (n + 1) 0)\<rparr>"
      have "filled ?vc (replicate n []) 0 (Some (v @ [0]))" by (simp add: filled_def n(1))
      then obtain vc' b4 ok where l: "unpack_loop m ?vc b3 0 n = Some (vc', b4, ok)" "reader_ok b4 st"
        "vorbis_comment_clear vc' = Some vorbis_comment_init" "ok \<longrightarrow> (\<exists>cs'. filled vc' cs' (length cs') (Some (v @ [0])))"
        using unpack_loop_any [OF m _ _ b3(2) st, of ?vc "replicate n []" 0 "Some (v @ [0])" n] by auto
      obtain b5 x where b5: "oggpack_read b4 1 = Some (b5, x)" using reader_read [OF l(2), of 1] by auto
      have eq: "vorbis_unpack_comment m vc b = (if ok \<and> x = 1 then Some (vc', 0) else Some (vorbis_comment_init, OV_EBADHEADER))"
        using b1(1) b2(1) b3(1) sb1 sb3 False small l(1,3) b5 g e n(1)
        by (auto simp: vorbis_unpack_comment_def unpack_fields_def Let_def)
      have "\<exists>cs v. holds vc' cs \<and> vc_vendor vc' = Some (v @ [0])" if ok
        using l(4) that by (force simp: filled_def holds_def)
      then show ?thesis unfolding eq by auto
    qed
  qed
qed

lemma first_byte:
  assumes "p \<noteq> []"
  shows "\<exists>b xs. oggpack_read (oggpack_readinit p (int (length p))) 8 = Some (b, ucast (hd p)) \<and> reading lsb b xs"
proof -
  have "8 \<le> length (bits_of lsb p)" using assms by (cases p) simp_all
  then obtain b where b: "oggpack_read (oggpack_readinit p (int (length p))) 8 = Some (b, lsb_num (take 8 (bits_of lsb p)))"
    "reading lsb b (drop 8 (bits_of lsb p))"
    using oggpack_read_reading [OF reading_readinit [of lsb p], of 8] by auto
  have "lsb_num (take 8 (bits_of lsb p)) = ucast (hd p)"
  proof (rule bit_word_eqI)
    fix i assume "i < LENGTH(32)"
    then show "bit (lsb_num (take 8 (bits_of lsb p))) i \<longleftrightarrow> bit (ucast (hd p) :: 32 word) i"
      using assms by (cases "i < 8")
        (auto simp: bit_lsb_num bits_of_def gbit_def lsb_def hd_conv_nth bit_simps length_greater_0_conv [symmetric] simp del: length_greater_0_conv dest: bit_imp_le_length)
  qed
  then show ?thesis using b by auto
qed


text \<open>C37: A packet of another stream or a damaged comment header is harmless: on any bytes of the type of a comment header
  the parser stays within the packet and its own blocks and returns; it either gives a list of texts, each in a
  string of its recorded length, and a vendor string, or reports the error and leaves the comments as they were or empty.\<close>

theorem comment_header_safe:
  assumes "mem_good m" and "op_packet op = 3 # p" and "int (length p) + 1 < LONG_MAX" and "vc_user vc = None"
  shows "\<exists>vc' ret. vorbis_synthesis_headerin books m vi vc (Some op) = Some (vi, vc', ret)
    \<and> (ret = 0 \<and> (\<exists>cs v. holds vc' cs \<and> vc_vendor vc' = Some (v @ [0]))
       \<or> ret \<in> {OV_EBADHEADER, OV_ENOTVORBIS} \<and> vc' \<in> {vc, vorbis_comment_init})"
proof -
  let ?p = "3 # p"
  let ?st = "int (length ?p)"
  obtain b xs where b: "oggpack_read (oggpack_readinit ?p ?st) 8 = Some (b, ucast (hd ?p))" "reading lsb b xs"
    using first_byte [of ?p] by auto
  have st: "pk_storage b = ?st" using read_storage [OF b(1)] by (simp add: oggpack_readinit_def)
  have b1: "read_int (oggpack_readinit ?p ?st) 8 = Some (b, 3)" using b(1) by (simp add: read_int_def)
  have "reader_ok b ?st" using b(2) st by (auto simp: reader_ok_def)
  then obtain b2 s where b2: "v_readstring b (Some (replicate 6 0)) 6 = Some (b2, Some s)" "reader_ok b2 ?st"
    using readstring_loop_any [of b ?st 0 6 "replicate 6 0"] by (auto simp: v_readstring_def)
  obtain vc' where vc': "vorbis_unpack_comment m vc b2 = Some (vc', OV_EBADHEADER) \<and> vc' = vorbis_comment_init
    \<or> vorbis_unpack_comment m vc b2 = Some (vc', 0) \<and> (\<exists>cs v. holds vc' cs \<and> vc_vendor vc' = Some (v @ [0]))"
    using unpack_comment_any [OF assms(1,4) b2(2)] assms(3) by auto
  have eq: "vorbis_synthesis_headerin books m vi vc (Some op) =
      (if s \<noteq> vorbis_preamble then Some (vi, vc, OV_ENOTVORBIS)
       else if vi_rate vi = 0 \<or> vc_vendor vc \<noteq> None then Some (vi, vc, OV_EBADHEADER)
       else do { (vc, ret) \<leftarrow> vorbis_unpack_comment m vc b2; Some (vi, vc, ret) })"
    using b1 b2(1) assms(2) by (simp add: vorbis_synthesis_headerin_def)
  show ?thesis
    using vc' unfolding eq by (auto simp: OV_EBADHEADER_def)
qed

theorem comment_header_safe_witness:
  "\<exists>vc' ret. vorbis_synthesis_headerin (\<lambda>vi b. None) tag_mem demo_info vorbis_comment_init
      (Some \<lparr>op_packet = [3, 0x76, 0xFF], op_bos = False, op_eos = False, op_granulepos = 0, op_packetno = 1\<rparr>)
      = Some (demo_info, vc', ret)"
  using comment_header_safe [OF tag_mem_good, of
      "\<lparr>op_packet = [3, 0x76, 0xFF], op_bos = False, op_eos = False, op_granulepos = 0, op_packetno = 1\<rparr>" "[0x76, 0xFF]"
      vorbis_comment_init "\<lambda>vi b. None" demo_info]
  by (fastforce simp: LONG_MAX_def vorbis_comment_init_def)

end
