(* ===== verification/VcEdit.thy ===== *)
theory VcEdit
  imports VorbisHeader OggAny
begin

unbundle bit_operations_syntax

text \<open>
  \<^verbatim>\<open>src/plug-ins/oggplay/vcedit.c\<close>: the editor of the comments of an Ogg Vorbis file. It reads the
  header packets of the first Vorbis stream, lets its caller edit the comments, and writes the file
  anew. The pages of all other streams are kept in a chain of buffers meanwhile, one link for each page of
  the edited stream, and each link is written in front of a page.

  The state is the structure \<open>vcedit_state\<close>. The callback \<open>read\<close> gives the successive elements of
  \<open>vs_in\<close> (nothing at the end), and what \<open>write\<close> accepts is in \<open>vs_out\<close>. The environment holds the
  allocators, whether the \<open>n\<close>-th request for the editor's own lists succeeds, how many bytes of the
  \<open>n\<close>-th call \<open>write\<close> accepts, and the parser of the code books. The structures of fixed size are always found.
\<close>

datatype vc_message = NoMemory | NoMemorySerial | BadFirstPage | BadInitialHeader | Truncated | NotOgg | NotVorbis
  | EofBeforeStream | NoSupportedType | CorruptHeader | EofInHeaders | CorruptData | WriteError

record vcedit_state =
  vs_oy :: "ogg_sync_state option"
  vs_os :: "ogg_stream_state option"
  vs_vc :: "vorbis_comment option"
  vs_vi :: "vorbis_info option"
  vs_in :: "byte list list"
  vs_out :: "byte list"
  vs_serial :: "32 word"
  vs_serials :: "32 word list"
  vs_mainbuf :: "byte list option"
  vs_bookbuf :: "byte list option"
  vs_lasterror :: "vc_message option"
  vs_vendor :: "byte list option"
  vs_prevW :: int
  vs_extrapage :: bool
  vs_eosin :: bool
  vs_sidebuf :: "byte list list"
  vs_requests :: nat
  vs_writes :: nat

record vc_env =
  ve_mem :: mem
  ve_ogg :: ogg_mem
  ve_found :: "nat \<Rightarrow> bool"
  ve_accept :: "nat \<Rightarrow> nat \<Rightarrow> nat"
  ve_books :: "vorbis_info \<Rightarrow> oggpack_buffer \<Rightarrow> (vorbis_info \<times> int) option"

definition CHUNKSIZE :: int where
  "CHUNKSIZE = 4096"

section \<open>Calls of other parts\<close>

text \<open>\<open>ogg_sync_buffer\<close> and \<open>read\<close>: the number of bytes read.\<close>

definition vc_read :: "vc_env \<Rightarrow> vcedit_state \<Rightarrow> (vcedit_state \<times> int) option" where
  "vc_read env st = do {
     oy \<leftarrow> vs_oy st;
     (oy, found) \<leftarrow> ogg_sync_buffer (chars (ve_mem env)) oy CHUNKSIZE;
     let (xs, rest) = (case vs_in st of [] \<Rightarrow> ([], []) | xs # rest \<Rightarrow> (xs, rest));
     if int (length xs) > CHUNKSIZE then None
     else do {
       oy \<leftarrow> (if xs = [] then Some oy else if found then sync_store oy xs else None);
       Some (st\<lparr>vs_oy := Some oy, vs_in := rest\<rparr>, int (length xs)) } }"

definition vc_wrote :: "vcedit_state \<Rightarrow> int \<Rightarrow> vcedit_state option" where
  "vc_wrote st bytes = do { oy \<leftarrow> vs_oy st; Some (st\<lparr>vs_oy := Some (fst (ogg_sync_wrote oy bytes))\<rparr>) }"

definition vc_pageout :: "vcedit_state \<Rightarrow> (vcedit_state \<times> int \<times> ogg_page option) option" where
  "vc_pageout st = do {
     oy \<leftarrow> vs_oy st;
     (oy, ret, og) \<leftarrow> ogg_sync_pageout oy;
     Some (st\<lparr>vs_oy := Some oy\<rparr>, ret, og) }"

definition vc_pagein :: "vc_env \<Rightarrow> vcedit_state \<Rightarrow> ogg_page \<Rightarrow> (vcedit_state \<times> int) option" where
  "vc_pagein env st og = do {
     os \<leftarrow> vs_os st;
     (os, ret) \<leftarrow> ogg_stream_pagein (ve_ogg env) os og;
     Some (st\<lparr>vs_os := Some os\<rparr>, ret) }"

definition vc_packetout :: "vcedit_state \<Rightarrow> (vcedit_state \<times> int \<times> ogg_packet option) option" where
  "vc_packetout st = do {
     os \<leftarrow> vs_os st;
     (os, ret, op) \<leftarrow> ogg_stream_packetout os;
     Some (st\<lparr>vs_os := Some os\<rparr>, ret, op) }"

text \<open>\<open>write\<close>, and whether it has written everything.\<close>

definition vc_write :: "vc_env \<Rightarrow> vcedit_state \<Rightarrow> byte list \<Rightarrow> vcedit_state \<times> bool" where
  "vc_write env st xs = (let n = ve_accept env (vs_writes st) (length xs) in
     (st\<lparr>vs_out := vs_out st @ take n xs, vs_writes := Suc (vs_writes st)\<rparr>, n = length xs))"

text \<open>A request for memory that is checked.\<close>

definition vc_request :: "vc_env \<Rightarrow> vcedit_state \<Rightarrow> vcedit_state \<times> bool" where
  "vc_request env st = (st\<lparr>vs_requests := Suc (vs_requests st)\<rparr>, ve_found env (vs_requests st))"

section \<open>The chain of buffers\<close>

text \<open>The links are the elements of \<open>vs_sidebuf\<close>; the empty list is \<open>NULL\<close>.\<close>

definition page_buffer_push :: "vc_env \<Rightarrow> vcedit_state \<Rightarrow> byte list \<Rightarrow> ogg_page \<Rightarrow> vcedit_state \<times> byte list \<times> int" where
  "page_buffer_push env st buffer og = (let (st, found) = vc_request env st in
     if found then (st, buffer @ pg_header og @ pg_body og, 1) else (st, buffer, -1))"

definition buffer_chain_writelink :: "vc_env \<Rightarrow> vcedit_state \<Rightarrow> (vcedit_state \<times> int) option" where
  "buffer_chain_writelink env st =
    (case vs_sidebuf st of
       [] \<Rightarrow> None
     | buffer # links \<Rightarrow>
         let (st, result) =
           (if buffer \<noteq> [] then let (st, done) = vc_write env st buffer in (st, if done then 1 else -1) else (st, 0)) in
         Some (st\<lparr>vs_sidebuf := links\<rparr>, result))"

definition buffer_chain_newlink :: "vc_env \<Rightarrow> vcedit_state \<Rightarrow> vcedit_state \<times> int" where
  "buffer_chain_newlink env st = (let (st, found) = vc_request env st in
     if found then (st\<lparr>vs_sidebuf := vs_sidebuf st @ [[]]\<rparr>, 1)
     else (st\<lparr>vs_lasterror := Some NoMemory\<rparr>, -1))"

definition buffer_chain_push :: "vc_env \<Rightarrow> vcedit_state \<Rightarrow> ogg_page \<Rightarrow> vcedit_state \<times> int" where
  "buffer_chain_push env st og =
    (let (st, result) = (if vs_sidebuf st = [] then buffer_chain_newlink env st else (st, 1));
         (st, result) =
           (if result > 0 then
              let (st, buffer, result) = page_buffer_push env st (List.last (vs_sidebuf st)) og
              in (st\<lparr>vs_sidebuf := butlast (vs_sidebuf st) @ [buffer]\<rparr>, result)
            else (st, result)) in
     if result < 0 then (st\<lparr>vs_lasterror := Some NoMemory\<rparr>, result) else (st, result))"

section \<open>Streams\<close>

definition vcedit_supported_stream :: "vc_env \<Rightarrow> vcedit_state \<Rightarrow> ogg_page \<Rightarrow> (vcedit_state \<times> int) option" where
  "vcedit_supported_stream env st og = do {
     serialno \<leftarrow> ogg_page_serialno og;
     let os = fst (ogg_stream_init (ve_ogg env) serialno);
     let vi = vorbis_info_init True;
     let vc = vorbis_comment_init;
     bos \<leftarrow> ogg_page_bos og;
     if \<not> bos then Some (st, -1)
     else do {
       (os, ret) \<leftarrow> ogg_stream_pagein (ve_ogg env) os og;
       if ret < 0 then Some (st\<lparr>vs_lasterror := Some BadFirstPage\<rparr>, -1)
       else do {
         (os, ret, header) \<leftarrow> ogg_stream_packetout os;
         if ret \<noteq> 1 then Some (st\<lparr>vs_lasterror := Some BadInitialHeader\<rparr>, -1)
         else do {
           (vi, vc, ret) \<leftarrow> vorbis_synthesis_headerin (ve_books env) (ve_mem env) vi vc header;
           vc \<leftarrow> vorbis_comment_clear vc;
           Some (st, if ret \<ge> 0 then 1 else 0) } } } }"

fun contains_loop :: "32 word list \<Rightarrow> 32 word \<Rightarrow> bool \<Rightarrow> bool" where
  "contains_loop [] serialno result = result"
| "contains_loop (s # ss) serialno result = contains_loop ss serialno (if s = serialno then True else result)"

definition vcedit_contains_serial :: "vcedit_state \<Rightarrow> 32 word \<Rightarrow> bool" where
  "vcedit_contains_serial st serialno = contains_loop (vs_serials st) serialno False"

definition vcedit_add_serial :: "vc_env \<Rightarrow> vcedit_state \<Rightarrow> 32 word \<Rightarrow> vcedit_state \<times> int" where
  "vcedit_add_serial env st serial =
    (if vcedit_contains_serial st serial then (st, 1)
     else let (st, found) = vc_request env st in
       if found then (st\<lparr>vs_serials := vs_serials st @ [serial]\<rparr>, 1)
       else (st\<lparr>vs_lasterror := Some NoMemorySerial\<rparr>, -1))"

definition vcedit_target_pageout :: "vc_env \<Rightarrow> vcedit_state \<Rightarrow> (vcedit_state \<times> int \<times> ogg_page option) option" where
  "vcedit_target_pageout env st = do {
     (st, ret, og) \<leftarrow> vc_pageout st;
     if ret > 0 then do {
       pg \<leftarrow> og;
       serialno \<leftarrow> ogg_page_serialno pg;
       let (st, result) = (if vs_serial st = serialno then buffer_chain_newlink env st else buffer_chain_push env st pg);
       Some (st, result, og) }
     else Some (st, if ret < 0 then -2 else 0, og) }"

section \<open>The state as a whole\<close>

definition vcedit_new_state :: "byte list list \<Rightarrow> vcedit_state" where
  "vcedit_new_state input = \<lparr>vs_oy = None, vs_os = None, vs_vc = None, vs_vi = None, vs_in = input, vs_out = [],
     vs_serial = 0, vs_serials = [], vs_mainbuf = None, vs_bookbuf = None, vs_lasterror = None, vs_vendor = None,
     vs_prevW = 0, vs_extrapage = False, vs_eosin = False, vs_sidebuf = [], vs_requests = 0, vs_writes = 0\<rparr>"

definition vcedit_error :: "vcedit_state \<Rightarrow> vc_message option" where
  "vcedit_error st = vs_lasterror st"

definition vcedit_comments :: "vcedit_state \<Rightarrow> vorbis_comment option" where
  "vcedit_comments st = vs_vc st"

definition vcedit_clear_internals :: "vcedit_state \<Rightarrow> vcedit_state option" where
  "vcedit_clear_internals st = do {
     vc \<leftarrow> (case vs_vc st of None \<Rightarrow> Some vorbis_comment_init | Some vc \<Rightarrow> vorbis_comment_clear vc);
     Some (st\<lparr>vs_oy := None, vs_os := None, vs_vc := None, vs_vi := None, vs_serial := 0, vs_serials := [],
       vs_mainbuf := None, vs_bookbuf := None, vs_vendor := None, vs_prevW := 0, vs_extrapage := False,
       vs_eosin := False, vs_sidebuf := []\<rparr>) }"

text \<open>Division by 4 truncates towards zero.\<close>

definition vc_blocksize :: "vcedit_state \<Rightarrow> ogg_packet \<Rightarrow> (vcedit_state \<times> int) option" where
  "vc_blocksize st p = do {
     vi \<leftarrow> vs_vi st;
     this \<leftarrow> vorbis_packet_blocksize vi p;
     let n = this + vs_prevW st;
     let ret = (if n < 0 then - ((- n) div 4) else n div 4);
     Some (st\<lparr>vs_prevW := this\<rparr>, if vs_prevW st = 0 then 0 else ret) }"

section \<open>Opening\<close>

text \<open>The search for the first page, in \<open>n + 1\<close> chunks.\<close>

fun open_first :: "nat \<Rightarrow> vc_env \<Rightarrow> vcedit_state \<Rightarrow> (vcedit_state \<times> ogg_page option) option" where
  "open_first n env st = do {
     (st, bytes) \<leftarrow> vc_read env st;
     st \<leftarrow> vc_wrote st bytes;
     (st, ret, og) \<leftarrow> vc_pageout st;
     if ret = 1 then Some (st, og)
     else (case n of
         0 \<Rightarrow> Some (st\<lparr>vs_lasterror := Some (if bytes < CHUNKSIZE then Truncated else NotOgg)\<rparr>, None)
       | Suc n \<Rightarrow> open_first n env st) }"

text \<open>The next page in the section of first pages; \<open>None\<close> at the end of the file. The fuel is the number of chunks.\<close>

fun next_page :: "nat \<Rightarrow> vc_env \<Rightarrow> vcedit_state \<Rightarrow> (vcedit_state \<times> ogg_page option) option" where
  "next_page fuel env st = do {
     (st, bytes) \<leftarrow> vc_read env st;
     if bytes = 0 then Some (st\<lparr>vs_lasterror := Some EofBeforeStream\<rparr>, None)
     else do {
       st \<leftarrow> vc_wrote st bytes;
       (st, ret, og) \<leftarrow> vc_pageout st;
       if ret = 1 then Some (st, og)
       else (case fuel of 0 \<Rightarrow> None | Suc fuel \<Rightarrow> next_page fuel env st) } }"

text \<open>The stream of the page becomes the edited one. The result is its first packet, or \<open>None\<close> after an error.\<close>

definition start_vorbis :: "vc_env \<Rightarrow> vcedit_state \<Rightarrow> ogg_page \<Rightarrow> (vcedit_state \<times> ogg_packet option) option" where
  "start_vorbis env st og = do {
     let (st, ret) = buffer_chain_newlink env st;
     if ret < 0 then Some (st, None)
     else do {
       serialno \<leftarrow> ogg_page_serialno og;
       let (st, ret) = vcedit_add_serial env (st\<lparr>vs_serial := serialno\<rparr>) serialno;
       if ret < 0 then Some (st, None)
       else do {
         let st = st\<lparr>vs_os := Some (fst (ogg_stream_init (ve_ogg env) serialno)),
           vs_vi := Some (vorbis_info_init True), vs_vc := Some vorbis_comment_init\<rparr>;
         (st, ret) \<leftarrow> vc_pagein env st og;
         if ret < 0 then Some (st\<lparr>vs_lasterror := Some BadFirstPage\<rparr>, None)
         else do {
           (st, ret, header) \<leftarrow> vc_packetout st;
           if ret \<noteq> 1 then Some (st\<lparr>vs_lasterror := Some BadInitialHeader\<rparr>, None)
           else do {
             (vi, vc, ret) \<leftarrow> vorbis_synthesis_headerin (ve_books env) (ve_mem env) (vorbis_info_init True) vorbis_comment_init header;
             let st = st\<lparr>vs_vi := Some vi, vs_vc := Some vc\<rparr>;
             if ret < 0 then Some (st\<lparr>vs_lasterror := Some NotVorbis\<rparr>, None)
             else Some (st, header) } } } } }"

text \<open>A page of another stream: whether there was no error.\<close>

definition register_other :: "vc_env \<Rightarrow> vcedit_state \<Rightarrow> ogg_page \<Rightarrow> (vcedit_state \<times> bool) option" where
  "register_other env st og = do {
     serialno \<leftarrow> ogg_page_serialno og;
     let (st, ret) = vcedit_add_serial env st serialno;
     if ret < 0 then Some (st, False)
     else let (st, ret) = buffer_chain_push env st og in Some (st, \<not> ret < 0) }"

text \<open>The first pages of all streams: the page behind them and the first packet of the edited stream (if there is one),
  or \<open>None\<close> after an error. The fuel is the number of chunks.\<close>

fun open_bos :: "nat \<Rightarrow> vc_env \<Rightarrow> vcedit_state \<Rightarrow> ogg_page \<Rightarrow> ogg_packet option \<Rightarrow>
    (vcedit_state \<times> (ogg_page \<times> ogg_packet option) option) option" where
  "open_bos fuel env st og main = do {
     (st, supported) \<leftarrow> vcedit_supported_stream env st og;
     if supported < 0 then Some (st, None)
     else do {
       (st, main, ok) \<leftarrow> (if supported = 0 \<or> main \<noteq> None
         then do { (st, ok) \<leftarrow> register_other env st og; Some (st, main, ok) }
         else do { (st, header) \<leftarrow> start_vorbis env st og; Some (st, header, header \<noteq> None) });
       if \<not> ok then Some (st, None)
       else do {
         (st, next_og) \<leftarrow> next_page (length (vs_in st)) env st;
         (case next_og of
            None \<Rightarrow> Some (st, None)
          | Some og \<Rightarrow> do {
              bos \<leftarrow> ogg_page_bos og;
              if \<not> bos then Some (st, Some (og, main))
              else (case fuel of 0 \<Rightarrow> None | Suc fuel \<Rightarrow> open_bos fuel env st og main) }) } } }"

text \<open>\<open>malloc\<close> and \<open>memcpy\<close> of a packet.\<close>

definition save_packet :: "vc_env \<Rightarrow> ogg_packet \<Rightarrow> byte list option" where
  "save_packet env op = (if op_packet op = [] then Some [] else do {
     blk \<leftarrow> chars (ve_mem env) (int (length (op_packet op)));
     wr_blk blk 0 (op_packet op) })"

text \<open>The packets of the second and third header, from the \<open>i\<close>-th on; the result is the new \<open>i\<close>, or \<open>None\<close> after an
  error. The fuel is the number of segments.\<close>

fun header_packets :: "nat \<Rightarrow> vc_env \<Rightarrow> vcedit_state \<Rightarrow> nat \<Rightarrow> (vcedit_state \<times> nat option) option" where
  "header_packets fuel env st i =
    (if i < 2 then do {
       (st, ret, op) \<leftarrow> vc_packetout st;
       if ret = 0 then Some (st, Some i)
       else if ret = -1 then Some (st\<lparr>vs_lasterror := Some CorruptHeader\<rparr>, None)
       else do {
         vi \<leftarrow> vs_vi st;
         vc \<leftarrow> vs_vc st;
         (vi, vc, ret) \<leftarrow> vorbis_synthesis_headerin (ve_books env) (ve_mem env) vi vc op;
         let st = st\<lparr>vs_vi := Some vi, vs_vc := Some vc\<rparr>;
         st \<leftarrow> (if i = 1 then do { p \<leftarrow> op; buf \<leftarrow> save_packet env p; Some (st\<lparr>vs_bookbuf := Some buf\<rparr>) } else Some st);
         (case fuel of 0 \<Rightarrow> None | Suc fuel \<Rightarrow> header_packets fuel env st (Suc i)) } }
     else Some (st, Some i))"

text \<open>The pages in the buffer; the first one may have been read already. The fuel is the number of bytes.\<close>

fun header_pages :: "nat \<Rightarrow> vc_env \<Rightarrow> vcedit_state \<Rightarrow> nat \<Rightarrow> ogg_page option \<Rightarrow> (vcedit_state \<times> nat option) option" where
  "header_pages fuel env st i held =
    (if i < 2 then do {
       (st, result, og) \<leftarrow> (case held of None \<Rightarrow> vcedit_target_pageout env st | Some pg \<Rightarrow> Some (st, 1, Some pg));
       if result = 0 \<or> result = -2 then Some (st, Some i)
       else if result = -1 then Some (st, None)
       else do {
         pg \<leftarrow> og;
         (st, ret) \<leftarrow> vc_pagein env st pg;
         os \<leftarrow> vs_os st;
         (st, i') \<leftarrow> header_packets (nat (os_lacing_fill os)) env st i;
         (case i' of
            None \<Rightarrow> Some (st, None)
          | Some i \<Rightarrow> (case fuel of 0 \<Rightarrow> None | Suc fuel \<Rightarrow> header_pages fuel env st i None)) } }
     else Some (st, Some i))"

text \<open>The chunks; the result is whether there was no error. The fuel is the number of chunks.\<close>

fun open_headers :: "nat \<Rightarrow> vc_env \<Rightarrow> vcedit_state \<Rightarrow> nat \<Rightarrow> ogg_page option \<Rightarrow> (vcedit_state \<times> bool) option" where
  "open_headers fuel env st i held =
    (if i < 2 then do {
       oy \<leftarrow> vs_oy st;
       (st, i') \<leftarrow> header_pages (nat (sy_fill oy) + 1) env st i held;
       (case i' of
          None \<Rightarrow> Some (st, False)
        | Some i \<Rightarrow> do {
            (st, bytes) \<leftarrow> vc_read env st;
            if bytes = 0 \<and> i < 2 then Some (st\<lparr>vs_lasterror := Some EofInHeaders\<rparr>, False)
            else do {
              st \<leftarrow> vc_wrote st bytes;
              if i < 2 then (case fuel of 0 \<Rightarrow> None | Suc fuel \<Rightarrow> open_headers fuel env st i None)
              else Some (st, True) } }) }
     else Some (st, True))"

text \<open>What follows the first pages.\<close>

definition open_rest :: "vc_env \<Rightarrow> vcedit_state \<Rightarrow> ogg_page \<Rightarrow> ogg_packet option \<Rightarrow> (vcedit_state \<times> bool) option" where
  "open_rest env st og main =
    (if vs_os st = None then Some (st\<lparr>vs_lasterror := Some NoSupportedType\<rparr>, False)
     else do {
       header_main \<leftarrow> main;
       buf \<leftarrow> save_packet env header_main;
       let st = st\<lparr>vs_mainbuf := Some buf\<rparr>;
       serialno \<leftarrow> ogg_page_serialno og;
       let mine = (serialno = vs_serial st);
       let (st, ret) = (if mine then buffer_chain_newlink env st else buffer_chain_push env st og);
       if ret < 0 then Some (st, False)
       else do {
         (st, ok) \<leftarrow> open_headers (length (vs_in st)) env st 0 (if mine then Some og else None);
         if \<not> ok then Some (st, False)
         else do {
           vc \<leftarrow> vs_vc st;
           v \<leftarrow> vc_vendor vc;
           s \<leftarrow> cstring v;
           blk \<leftarrow> chars (ve_mem env) (int (length s) + 1);
           blk \<leftarrow> wr_blk blk 0 (s @ [0]);
           Some (st\<lparr>vs_vendor := Some blk\<rparr>, True) } } })"

definition open_body :: "vc_env \<Rightarrow> vcedit_state \<Rightarrow> (vcedit_state \<times> bool) option" where
  "open_body env st = do {
     (st, og) \<leftarrow> open_first 10 env (st\<lparr>vs_oy := Some ogg_sync_init\<rparr>);
     (case og of
        None \<Rightarrow> Some (st, False)
      | Some og \<Rightarrow> do {
          let (st, ret) = buffer_chain_newlink env st;
          if ret < 0 then Some (st, False)
          else do {
            (st, r) \<leftarrow> open_bos (length (vs_in st)) env st og None;
            (case r of
               None \<Rightarrow> Some (st, False)
             | Some (og, main) \<Rightarrow> open_rest env st og main) } }) }"

definition vcedit_open_callbacks :: "vc_env \<Rightarrow> vcedit_state \<Rightarrow> (vcedit_state \<times> int) option" where
  "vcedit_open_callbacks env st = do {
     (st, ok) \<leftarrow> open_body env st;
     if ok then Some (st, 0)
     else do { st \<leftarrow> vcedit_clear_internals st; Some (st, -1) } }"


section \<open>Writing\<close>

text \<open>A page is read for \<open>_fetch_next_packet\<close>; \<open>None\<close> at the end of the file. The fuel is the number of chunks.\<close>

fun fetch_page :: "nat \<Rightarrow> vc_env \<Rightarrow> vcedit_state \<Rightarrow> (vcedit_state \<times> ogg_page option) option" where
  "fetch_page fuel env st = do {
     (st, ret, og) \<leftarrow> vc_pageout st;
     if ret > 0 then Some (st, og)
     else do {
       (st, bytes) \<leftarrow> vc_read env st;
       st \<leftarrow> vc_wrote st bytes;
       if bytes = 0 then Some (st, None)
       else (case fuel of 0 \<Rightarrow> None | Suc fuel \<Rightarrow> fetch_page fuel env st) } }"

text \<open>What is done with the page; a number is returned at once by \<open>_fetch_next_packet\<close>.\<close>

definition fetch_take :: "vc_env \<Rightarrow> vcedit_state \<Rightarrow> ogg_page \<Rightarrow> (vcedit_state \<times> int option) option" where
  "fetch_take env st page = do {
     serialno \<leftarrow> ogg_page_serialno page;
     if serialno \<noteq> vs_serial st then
       (if vcedit_contains_serial st serialno then
          let (st, result) = buffer_chain_push env st page in Some (st, if result < 0 then Some result else None)
        else Some (st\<lparr>vs_eosin := True, vs_extrapage := True\<rparr>, Some 0))
     else do {
       (st, ret) \<leftarrow> vc_pagein env st page;
       let (st, result) = buffer_chain_newlink env st;
       if result < 0 then Some (st, Some result)
       else do {
         eos \<leftarrow> ogg_page_eos page;
         Some (if eos then st\<lparr>vs_eosin := True\<rparr> else st, None) } } }"

text \<open>The packet is \<open>None\<close> where \<open>*p\<close> is not a packet: at the end, and after an error. The last component is \<open>*page\<close>.
  The fuel is the number of bytes that have not been read.\<close>

fun fetch_loop :: "nat \<Rightarrow> vc_env \<Rightarrow> vcedit_state \<Rightarrow> ogg_page option \<Rightarrow>
    (vcedit_state \<times> int \<times> ogg_packet option \<times> ogg_page option) option" where
  "fetch_loop fuel env st page =
    (if vs_eosin st then Some (st, 0, None, page)
     else do {
       (st, og) \<leftarrow> fetch_page (length (vs_in st)) env st;
       (case og of
          None \<Rightarrow> Some (st, 0, None, page)
        | Some pg \<Rightarrow> do {
            (st, r) \<leftarrow> fetch_take env st pg;
            (case r of
               Some result \<Rightarrow> Some (st, result, None, Some pg)
             | None \<Rightarrow> do {
                 (st, result, p) \<leftarrow> vc_packetout st;
                 if result > 0 then Some (st, 1, p, Some pg)
                 else (case fuel of 0 \<Rightarrow> None | Suc fuel \<Rightarrow> fetch_loop fuel env st (Some pg)) }) }) })"

declare fetch_page.simps [simp del] fetch_loop.simps [simp del]

text \<open>The bytes that have not been handed out as pages.\<close>

definition unread :: "vcedit_state \<Rightarrow> nat" where
  "unread st = (case vs_oy st of None \<Rightarrow> 0 | Some oy \<Rightarrow> nat (sy_fill oy - sy_returned oy)) + length (concat (vs_in st))"

definition fetch_next_packet :: "vc_env \<Rightarrow> vcedit_state \<Rightarrow> ogg_page option \<Rightarrow>
    (vcedit_state \<times> int \<times> ogg_packet option \<times> ogg_page option) option" where
  "fetch_next_packet env st page = do {
     (st, result, p) \<leftarrow> vc_packetout st;
     if result > 0 then Some (st, 1, p, page)
     else fetch_loop (unread st) env st page }"

text \<open>A link of the chain (if there is one) and a page are written.\<close>

definition write_page :: "vc_env \<Rightarrow> vcedit_state \<Rightarrow> ogg_page \<Rightarrow> (vcedit_state \<times> bool) option" where
  "write_page env st og = do {
     (st, result) \<leftarrow> (if vs_sidebuf st \<noteq> [] then buffer_chain_writelink env st else Some (st, 0));
     if result < 0 then Some (st, False)
     else let (st, done) = vc_write env st (pg_header og) in
       if \<not> done then Some (st, False) else Some (vc_write env st (pg_body og)) }"

text \<open>All pages of the stream; the fuel is the number of segments.\<close>

fun write_flush :: "nat \<Rightarrow> vc_env \<Rightarrow> vcedit_state \<Rightarrow> ogg_stream_state \<Rightarrow> (vcedit_state \<times> ogg_stream_state \<times> bool) option" where
  "write_flush fuel env st so = do {
     (so, og) \<leftarrow> ogg_stream_flush so;
     (case og of
        None \<Rightarrow> Some (st, so, True)
      | Some pg \<Rightarrow> do {
          (st, ok) \<leftarrow> write_page env st pg;
          if \<not> ok then Some (st, so, False)
          else (case fuel of 0 \<Rightarrow> None | Suc fuel \<Rightarrow> write_flush fuel env st so) }) }"

text \<open>All links of the chain.\<close>

fun write_links :: "nat \<Rightarrow> vc_env \<Rightarrow> vcedit_state \<Rightarrow> (vcedit_state \<times> bool) option" where
  "write_links fuel env st =
    (if vs_sidebuf st = [] then Some (st, True)
     else do {
       (st, result) \<leftarrow> buffer_chain_writelink env st;
       if result < 0 then Some (st, False)
       else (case fuel of 0 \<Rightarrow> None | Suc fuel \<Rightarrow> write_links fuel env st) })"

declare write_flush.simps [simp del] write_links.simps [simp del]

text \<open>One page, when it is due.\<close>

definition write_due :: "vc_env \<Rightarrow> vcedit_state \<Rightarrow> ogg_stream_state \<Rightarrow> bool \<Rightarrow> bool \<Rightarrow> (vcedit_state \<times> ogg_stream_state \<times> bool) option" where
  "write_due env st so needflush needout = do {
     (so, og) \<leftarrow> (if needflush then ogg_stream_flush so else if needout then ogg_stream_pageout so else Some (so, None));
     (case og of
        None \<Rightarrow> Some (st, so, True)
      | Some pg \<Rightarrow> do { (st, ok) \<leftarrow> write_page env st pg; Some (st, so, ok) }) }"

text \<open>The packet is put into the output stream. The position \<open>granpos\<close> advances by less than 2 to the 13th with each packet and
  stays in the range of an \<open>ogg_int64_t\<close>.\<close>

definition write_packet :: "vc_env \<Rightarrow> ogg_stream_state \<Rightarrow> ogg_packet \<Rightarrow> int \<Rightarrow> (ogg_stream_state \<times> int \<times> bool \<times> bool) option" where
  "write_packet env so op granpos =
    (if op_granulepos op = -1 then do {
       (so, ret) \<leftarrow> ogg_stream_packetin (ve_ogg env) so (op\<lparr>op_granulepos := of_int granpos\<rparr>);
       Some (so, granpos, False, False) }
     else if granpos > sint (op_granulepos op) then do {
       (so, ret) \<leftarrow> ogg_stream_packetin (ve_ogg env) so op;
       Some (so, sint (op_granulepos op), True, False) }
     else do {
       (so, ret) \<leftarrow> ogg_stream_packetin (ve_ogg env) so op;
       Some (so, granpos, False, True) })"

text \<open>All packets. The result has the page that \<open>ogin\<close> holds, and whether there was no error. The fuel is the number of
  unread bytes and of segments in the decoder.\<close>

fun write_packets :: "nat \<Rightarrow> vc_env \<Rightarrow> vcedit_state \<Rightarrow> ogg_stream_state \<Rightarrow> int \<Rightarrow> bool \<Rightarrow> bool \<Rightarrow> ogg_page option \<Rightarrow>
    (vcedit_state \<times> ogg_stream_state \<times> ogg_page option \<times> bool) option" where
  "write_packets fuel env st so granpos needflush needout ogin = do {
     (st, result, p, ogin) \<leftarrow> fetch_next_packet env st ogin;
     if result = 0 then Some (st, so, ogin, True)
     else do {
       op \<leftarrow> p;
       (st, size) \<leftarrow> vc_blocksize st op;
       let granpos = granpos + size;
       (st, so, ok) \<leftarrow> write_due env st so needflush needout;
       if \<not> ok then Some (st, so, ogin, False)
       else do {
         (so, granpos, needflush, needout) \<leftarrow> write_packet env so op granpos;
         (case fuel of 0 \<Rightarrow> None | Suc fuel \<Rightarrow> write_packets fuel env st so granpos needflush needout ogin) } } }"

text \<open>The pages in the buffer are copied; the fuel is the number of bytes.\<close>

fun copy_pages :: "nat \<Rightarrow> vc_env \<Rightarrow> vcedit_state \<Rightarrow> (vcedit_state \<times> bool) option" where
  "copy_pages fuel env st = do {
     (st, result, og) \<leftarrow> vc_pageout st;
     if result = 0 then Some (st, True)
     else do {
       (st, ok) \<leftarrow> (if result < 0 then Some (st\<lparr>vs_lasterror := Some CorruptData\<rparr>, True)
         else do { pg \<leftarrow> og;
           let (st, done) = vc_write env st (pg_header pg);
           if \<not> done then Some (st, False) else Some (vc_write env st (pg_body pg)) });
       if \<not> ok then Some (st, False)
       else (case fuel of 0 \<Rightarrow> None | Suc fuel \<Rightarrow> copy_pages fuel env st) } }"

text \<open>The rest of the file is copied; the fuel is the number of chunks.\<close>

fun copy_rest :: "nat \<Rightarrow> vc_env \<Rightarrow> vcedit_state \<Rightarrow> vcedit_state option" where
  "copy_rest fuel env st = do {
     oy \<leftarrow> vs_oy st;
     (st, ok) \<leftarrow> copy_pages (nat (sy_fill oy)) env st;
     if \<not> ok then Some st
     else do {
       (st, bytes) \<leftarrow> vc_read env st;
       st \<leftarrow> vc_wrote st bytes;
       if bytes = 0 then Some (st\<lparr>vs_eosin := True\<rparr>)
       else (case fuel of 0 \<Rightarrow> None | Suc fuel \<Rightarrow> copy_rest fuel env st) } }"

declare write_packets.simps [simp del] copy_pages.simps [simp del] copy_rest.simps [simp del]
declare open_first.simps [simp del] next_page.simps [simp del] open_bos.simps [simp del] header_packets.simps [simp del]
  header_pages.simps [simp del] open_headers.simps [simp del]

text \<open>The three headers.\<close>

definition write_headers :: "vc_env \<Rightarrow> vcedit_state \<Rightarrow> (ogg_stream_state) option" where
  "write_headers env st = do {
     main \<leftarrow> vs_mainbuf st;
     book \<leftarrow> vs_bookbuf st;
     vc \<leftarrow> vs_vc st;
     vendor \<leftarrow> vs_vendor st;
     comments \<leftarrow> commentheader_out (ve_mem env) vc vendor 0;
     let so = fst (ogg_stream_init (ve_ogg env) (vs_serial st));
     (so, ret) \<leftarrow> ogg_stream_packetin (ve_ogg env) so
       \<lparr>op_packet = main, op_bos = True, op_eos = False, op_granulepos = 0, op_packetno = 0\<rparr>;
     (so, ret) \<leftarrow> ogg_stream_packetin (ve_ogg env) so comments;
     (so, ret) \<leftarrow> ogg_stream_packetin (ve_ogg env) so
       \<lparr>op_packet = book, op_bos = False, op_eos = False, op_granulepos = 0, op_packetno = 0\<rparr>;
     Some so }"

text \<open>The end of the edited stream, behind its last packet.\<close>

definition write_end :: "vc_env \<Rightarrow> vcedit_state \<Rightarrow> ogg_stream_state \<Rightarrow> ogg_page option \<Rightarrow> vcedit_state option" where
  "write_end env st so ogin = do {
     (st, so, ok) \<leftarrow> write_flush (nat (os_lacing_fill so)) env st (so\<lparr>os_eos := True\<rparr>);
     if \<not> ok then Some st
     else do {
       (st, ok) \<leftarrow> (if vs_extrapage st then do {
           (st, ok) \<leftarrow> write_links (length (vs_sidebuf st)) env st;
           if \<not> ok then Some (st, False)
           else do { pg \<leftarrow> ogin;
             let (st, done) = vc_write env st (pg_header pg);
             if \<not> done then Some (st, False) else Some (vc_write env st (pg_body pg)) } }
         else Some (st, True));
       if \<not> ok then Some st
       else let st = st\<lparr>vs_eosin := False\<rparr> in copy_rest (length (vs_in st)) env st } }"

definition write_body :: "vc_env \<Rightarrow> vcedit_state \<Rightarrow> ogg_stream_state \<Rightarrow> vcedit_state option" where
  "write_body env st so = do {
     (st, so, ok) \<leftarrow> write_flush (nat (os_lacing_fill so)) env st so;
     if \<not> ok then Some st
     else do {
       (st, ok) \<leftarrow> write_links (length (vs_sidebuf st)) env st;
       if \<not> ok then Some st
       else do {
         let (st, result) = buffer_chain_newlink env st;
         if result < 0 then Some st
         else do {
           os \<leftarrow> vs_os st;
           (st, so, ogin, ok) \<leftarrow> write_packets (unread st + nat (os_lacing_fill os)) env st so 0 False False None;
           if \<not> ok then Some st else write_end env st so ogin } } } }"

definition vcedit_write :: "vc_env \<Rightarrow> vcedit_state \<Rightarrow> (vcedit_state \<times> int) option" where
  "vcedit_write env st = do {
     let st = st\<lparr>vs_eosin := False, vs_extrapage := False\<rparr>;
     so \<leftarrow> write_headers env st;
     st \<leftarrow> write_body env st so;
     let st = st\<lparr>vs_mainbuf := None, vs_bookbuf := None\<rparr>;
     if \<not> vs_eosin st then Some (st\<lparr>vs_lasterror := Some WriteError\<rparr>, -1) else Some (st, 0) }"


section \<open>Reading from the file\<close>

text \<open>All requests for memory succeed.\<close>

definition env_good :: "vc_env \<Rightarrow> bool" where
  "env_good env \<longleftrightarrow> mem_good (ve_mem env) \<and> mem_ok (ve_ogg env) \<and> (\<forall>n. ve_found env n)"

text \<open>The buffer holds \<open>xs\<close>, and the chunks to come have the size that \<open>read\<close> was asked for.\<close>

definition reads_ok :: "vcedit_state \<Rightarrow> bool" where
  "reads_ok st \<longleftrightarrow> (\<exists>oy xs. vs_oy st = Some oy \<and> sync_ok oy xs \<and> unread st < 2 ^ 30)
     \<and> (\<forall>c \<in> set (vs_in st). length c \<le> 4096)"

lemma unread_sync: "vs_oy st = Some oy \<Longrightarrow> sync_ok oy xs \<Longrightarrow> unread st = length xs + length (concat (vs_in st))"
  by (auto simp: unread_def sync_ok_def)

text \<open>The state except for its input.\<close>

definition same_rest :: "vcedit_state \<Rightarrow> vcedit_state \<Rightarrow> bool" where
  "same_rest st st' \<longleftrightarrow> (\<exists>oy xs. st' = st\<lparr>vs_oy := oy, vs_in := xs\<rparr>)"

lemma same_rest_refl [simp]: "same_rest st st"
  unfolding same_rest_def by (intro exI [of _ "vs_oy st"] exI [of _ "vs_in st"]) simp

lemma same_rest_trans: "same_rest a b \<Longrightarrow> same_rest b c \<Longrightarrow> same_rest a c"
  unfolding same_rest_def by force

lemma same_rest_sel:
  assumes "same_rest st st'"
  shows "vs_os st' = vs_os st" "vs_vc st' = vs_vc st" "vs_vi st' = vs_vi st" "vs_out st' = vs_out st" "vs_serial st' = vs_serial st"
    "vs_serials st' = vs_serials st" "vs_mainbuf st' = vs_mainbuf st" "vs_bookbuf st' = vs_bookbuf st"
    "vs_vendor st' = vs_vendor st" "vs_extrapage st' = vs_extrapage st"
    "vs_eosin st' = vs_eosin st" "vs_sidebuf st' = vs_sidebuf st"
  using assms by (auto simp: same_rest_def)

lemma vc_read_ok:
  assumes env: "env_good env" and st: "reads_ok st"
  shows "\<exists>st1 st2 n. vc_read env st = Some (st1, n) \<and> vc_wrote st1 n = Some st2 \<and> reads_ok st2 \<and> same_rest st st2
    \<and> unread st2 = unread st \<and> vs_in st2 = tl (vs_in st) \<and> (n = 0 \<longleftrightarrow> vs_in st = [] \<or> hd (vs_in st) = [])
    \<and> (n = 0 \<longrightarrow> st1 = st2)"
proof -
  obtain oy xs where oy: "vs_oy st = Some oy" "sync_ok oy xs" "unread st < 2 ^ 30"
    and small: "\<forall>c \<in> set (vs_in st). length c \<le> 4096" using st by (auto simp: reads_ok_def)
  have al: "alloc_ok (chars (ve_mem env))" using env by (simp add: env_good_def mem_good_def)
  have "length xs < 2 ^ 30" using oy(3) unread_sync [OF oy(1,2)] by simp
  then have "chars (ve_mem env) (4096 + int (length xs) + 4096) \<noteq> None"
    using env by (auto simp: env_good_def mem_good_def LONG_MAX_def)
  then obtain oy1 where b: "ogg_sync_buffer (chars (ve_mem env)) oy 4096 = Some (oy1, True)" "sync_ok oy1 xs"
    "sy_fill oy1 + 4096 \<le> sy_storage oy1"
    using ogg_sync_buffer_ok [OF oy(2) al, of 4096] by auto
  define c where "c = (case vs_in st of [] \<Rightarrow> [] | c # r \<Rightarrow> c)"
  have split: "(case vs_in st of [] \<Rightarrow> ([], []) | xs # rest \<Rightarrow> (xs, rest)) = (c, tl (vs_in st))"
    by (cases "vs_in st") (simp_all add: c_def)
  have c: "length c \<le> 4096" "concat (vs_in st) = c @ concat (tl (vs_in st))" "c = [] \<longleftrightarrow> vs_in st = [] \<or> hd (vs_in st) = []"
    using small by (cases "vs_in st"; simp add: c_def)+
  have small': "\<forall>c \<in> set (tl (vs_in st)). length c \<le> 4096" using small by (cases "vs_in st") auto
  have "0 \<le> sy_fill oy1" using b(2) by (auto simp: sync_ok_def)
  then have pos: "0 < sy_storage oy1" using b(3) by linarith
  have room: "sy_fill oy1 + int (length c) \<le> sy_storage oy1" using b(3) c(1) by linarith
  obtain oy2 oy3 where s: "sync_store oy1 c = Some oy2" "ogg_sync_wrote oy2 (int (length c)) = (oy3, 0)" "sync_ok oy3 (xs @ c)"
    using sync_store_ok [OF b(2) room pos] by blast
  show ?thesis
  proof (cases "c = []")
    case True
    let ?st = "st\<lparr>vs_oy := Some oy1, vs_in := tl (vs_in st)\<rparr>"
    have "vc_read env st = Some (?st, 0)"
      using oy(1) b(1) split True by (simp add: vc_read_def CHUNKSIZE_def)
    moreover have "vc_wrote ?st 0 = Some ?st"
      using sync_ok_check [OF b(2)] b(3) by (simp add: vc_wrote_def ogg_sync_wrote_def)
    moreover have u: "unread ?st = unread st"
      using unread_sync [OF oy(1,2)] unread_sync [of ?st oy1 xs] b(2) c(2) True by simp
    moreover have "reads_ok ?st" using b(2) u oy(3) small' by (auto simp: reads_ok_def)
    moreover have "same_rest st ?st" unfolding same_rest_def by blast
    ultimately show ?thesis using True c(3) by (intro exI [of _ ?st] exI [of _ 0]) simp
  next
    case False
    let ?st1 = "st\<lparr>vs_oy := Some oy2, vs_in := tl (vs_in st)\<rparr>"
    let ?st = "st\<lparr>vs_oy := Some oy3, vs_in := tl (vs_in st)\<rparr>"
    have "vc_read env st = Some (?st1, int (length c))"
      using oy(1) b(1) split False c(1) s(1) by (simp add: vc_read_def CHUNKSIZE_def)
    moreover have "vc_wrote ?st1 (int (length c)) = Some ?st" using s(2) by (simp add: vc_wrote_def)
    moreover have u: "unread ?st = unread st"
      using unread_sync [OF oy(1,2)] unread_sync [of ?st oy3 "xs @ c"] s(3) c(2) by simp
    moreover have "reads_ok ?st" using s(3) u oy(3) small' by (auto simp: reads_ok_def)
    moreover have "same_rest st ?st" unfolding same_rest_def by blast
    ultimately show ?thesis using False c(3) by (intro exI [of _ ?st1] exI [of _ ?st] exI [of _ "int (length c)"]) simp
  qed
qed

lemma vc_pageout_ok:
  assumes "reads_ok st"
  shows "\<exists>st' ret og. vc_pageout st = Some (st', ret, og) \<and> reads_ok st' \<and> same_rest st st' \<and> vs_in st' = vs_in st
    \<and> (ret = 0 \<and> og = None \<and> unread st' \<le> unread st \<or> ret = -1 \<and> og = None \<and> unread st' < unread st
       \<or> ret = 1 \<and> (\<exists>p. og = Some p \<and> page_wf p \<and> unread st' + length (page_bytes p) \<le> unread st))"
proof -
  obtain oy xs where oy: "vs_oy st = Some oy" "sync_ok oy xs" "unread st < 2 ^ 30" using assms by (auto simp: reads_ok_def)
  obtain oy1 ret og u ys where p: "ogg_sync_pageout oy = Some (oy1, ret, og)" "scan (sy_unsynced oy) xs = (ret, og, u, ys)"
    "sync_ok oy1 ys"
    by (rule pageout_scan [OF oy(2)])
  let ?st = "st\<lparr>vs_oy := Some oy1\<rparr>"
  have u: "unread ?st = length ys + length (concat (vs_in st))" "unread st = length xs + length (concat (vs_in st))"
    using unread_sync [of ?st oy1 ys] unread_sync [OF oy(1,2)] p(3) by simp_all
  have "same_rest st ?st" unfolding same_rest_def by (intro exI [of _ "Some oy1"] exI [of _ "vs_in st"]) simp
  moreover have "unread ?st \<le> unread st" using scan_consumes [OF p(2)] u by auto
  then have "reads_ok ?st" using assms p(3) oy(3) by (auto simp: reads_ok_def)
  moreover have "vc_pageout st = Some (?st, ret, og)" using oy(1) p(1) by (simp add: vc_pageout_def)
  ultimately show ?thesis
    using scan_consumes [OF p(2)] u by (intro exI [of _ ?st] exI [of _ ret] exI [of _ og]) auto
qed


section \<open>Fetching a packet\<close>

definition fetch_ok :: "vcedit_state \<Rightarrow> bool" where
  "fetch_ok st \<longleftrightarrow> reads_ok st \<and> (\<exists>os. vs_os st = Some os \<and> dec_safe os)"

text \<open>The bytes and segments that are still to be worked on.\<close>

definition load :: "vcedit_state \<Rightarrow> nat" where
  "load st = unread st + (case vs_os st of None \<Rightarrow> 0 | Some os \<Rightarrow> queued os)"

text \<open>The state except for what reading changes.\<close>

definition same_work :: "vcedit_state \<Rightarrow> vcedit_state \<Rightarrow> bool" where
  "same_work st st' \<longleftrightarrow> vs_vc st' = vs_vc st \<and> vs_vi st' = vs_vi st \<and> vs_out st' = vs_out st \<and> vs_serial st' = vs_serial st
     \<and> vs_serials st' = vs_serials st \<and> vs_mainbuf st' = vs_mainbuf st \<and> vs_bookbuf st' = vs_bookbuf st
     \<and> vs_vendor st' = vs_vendor st \<and> vs_prevW st' = vs_prevW st \<and> vs_writes st' = vs_writes st"

lemma same_work_rest: "same_rest st st' \<Longrightarrow> same_work st st'"
  by (auto simp: same_rest_def same_work_def)

lemma same_work_trans: "same_work a b \<Longrightarrow> same_work b c \<Longrightarrow> same_work a c"
  by (simp add: same_work_def)

lemma newlink_good:
  "env_good env \<Longrightarrow> buffer_chain_newlink env st =
     (st\<lparr>vs_requests := Suc (vs_requests st), vs_sidebuf := vs_sidebuf st @ [[]]\<rparr>, 1)"
  by (simp add: env_good_def buffer_chain_newlink_def vc_request_def)

text \<open>The last link grows by the page; an empty chain first gets a link.\<close>

lemma push_good:
  assumes "env_good env"
  shows "\<exists>req. buffer_chain_push env st og = (st\<lparr>vs_requests := req,
    vs_sidebuf := butlast (vs_sidebuf st) @ [(if vs_sidebuf st = [] then [] else List.last (vs_sidebuf st)) @ page_bytes og]\<rparr>, 1)"
proof (cases "vs_sidebuf st = []")
  case True
  then show ?thesis
    using assms newlink_good [OF assms, of st]
    by (auto simp: buffer_chain_push_def page_buffer_push_def vc_request_def env_good_def page_bytes_def)
next
  case False
  then show ?thesis
    using assms
    by (auto simp: buffer_chain_push_def page_buffer_push_def vc_request_def env_good_def page_bytes_def Let_def)
qed

lemma vc_pageoutE:
  assumes "reads_ok st"
  obtains st' ret og where "vc_pageout st = Some (st', ret, og)" "reads_ok st'" "same_rest st st'" "vs_in st' = vs_in st"
    "ret = 0 \<and> og = None \<and> unread st' \<le> unread st \<or> ret = -1 \<and> og = None \<and> unread st' < unread st
       \<or> ret = 1 \<and> (\<exists>p. og = Some p \<and> page_wf p \<and> unread st' + length (page_bytes p) \<le> unread st)"
  using vc_pageout_ok [OF assms] by (elim exE conjE) (rule that)

lemma vc_readE:
  assumes "env_good env" and "reads_ok st"
  obtains st1 st2 n where "vc_read env st = Some (st1, n)" "vc_wrote st1 n = Some st2" "reads_ok st2" "same_rest st st2"
    "unread st2 = unread st" "vs_in st2 = tl (vs_in st)" "n = 0 \<longleftrightarrow> vs_in st = [] \<or> hd (vs_in st) = []"
    "n = 0 \<longrightarrow> st1 = st2"
  using vc_read_ok [OF assms] by (elim exE conjE) (rule that)

lemma unread_cong: "vs_oy st' = vs_oy st \<Longrightarrow> vs_in st' = vs_in st \<Longrightarrow> unread st' = unread st"
  by (simp add: unread_def)

lemma reads_cong: "vs_oy st' = vs_oy st \<Longrightarrow> vs_in st' = vs_in st \<Longrightarrow> reads_ok st' \<longleftrightarrow> reads_ok st"
  unfolding reads_ok_def using unread_cong [of st' st] by simp

lemma fetch_page_ok:
  assumes "env_good env"
  shows "reads_ok st \<Longrightarrow> length (vs_in st) \<le> fuel \<Longrightarrow>
    \<exists>st' og. fetch_page fuel env st = Some (st', og) \<and> reads_ok st' \<and> same_rest st st'
      \<and> (case og of None \<Rightarrow> unread st' \<le> unread st | Some p \<Rightarrow> page_wf p \<and> unread st' + length (page_bytes p) \<le> unread st)"
proof (induction fuel arbitrary: st)
  case 0
  obtain st1 ret og where 1: "vc_pageout st = Some (st1, ret, og)" "reads_ok st1" "same_rest st st1" "vs_in st1 = vs_in st"
    "ret = 0 \<and> og = None \<and> unread st1 \<le> unread st \<or> ret = -1 \<and> og = None \<and> unread st1 < unread st
       \<or> ret = 1 \<and> (\<exists>p. og = Some p \<and> page_wf p \<and> unread st1 + length (page_bytes p) \<le> unread st)"
    by (rule vc_pageoutE [OF 0(1)])
  obtain st2 st3 n where 2: "vc_read env st1 = Some (st2, n)" "vc_wrote st2 n = Some st3" "reads_ok st3" "same_rest st1 st3"
    "unread st3 = unread st1" "vs_in st3 = tl (vs_in st1)" "n = 0 \<longleftrightarrow> vs_in st1 = [] \<or> hd (vs_in st1) = []"
    by (rule vc_readE [OF assms 1(2)])
  then have n: "n = 0" using 0(2) 1(4) by simp
  show ?case
  proof (cases "ret > 0")
    case True
    then obtain p where "og = Some p" "page_wf p" "unread st1 + length (page_bytes p) \<le> unread st" using 1(5) by auto
    then show ?thesis using 1(1,2,3) True by (intro exI [of _ st1] exI [of _ og]) (simp add: fetch_page.simps [of 0])
  next
    case False
    then have "unread st3 \<le> unread st" using 1(5) 2(5) by auto
    then show ?thesis
      using 1(1) 2(1,2,3) n same_rest_trans [OF 1(3) 2(4)] False
      by (intro exI [of _ st3] exI [of _ None]) (simp add: fetch_page.simps [of 0])
  qed
next
  case (Suc fuel)
  obtain st1 ret og where 1: "vc_pageout st = Some (st1, ret, og)" "reads_ok st1" "same_rest st st1" "vs_in st1 = vs_in st"
    "ret = 0 \<and> og = None \<and> unread st1 \<le> unread st \<or> ret = -1 \<and> og = None \<and> unread st1 < unread st
       \<or> ret = 1 \<and> (\<exists>p. og = Some p \<and> page_wf p \<and> unread st1 + length (page_bytes p) \<le> unread st)"
    by (rule vc_pageoutE [OF Suc.prems(1)])
  show ?case
  proof (cases "ret > 0")
    case True
    then obtain p where "og = Some p" "page_wf p" "unread st1 + length (page_bytes p) \<le> unread st" using 1(5) by auto
    then show ?thesis
      using 1(1,2,3) True by (intro exI [of _ st1] exI [of _ og]) (simp add: fetch_page.simps [of "Suc fuel"])
  next
    case ret: False
    then have le: "unread st1 \<le> unread st" using 1(5) by auto
    obtain st2 st3 n where 2: "vc_read env st1 = Some (st2, n)" "vc_wrote st2 n = Some st3" "reads_ok st3" "same_rest st1 st3"
      "unread st3 = unread st1" "vs_in st3 = tl (vs_in st1)" "n = 0 \<longleftrightarrow> vs_in st1 = [] \<or> hd (vs_in st1) = []"
      by (rule vc_readE [OF assms 1(2)])
    note tr = same_rest_trans [OF 1(3) 2(4)]
    show ?thesis
    proof (cases "n = 0")
      case True
      then show ?thesis
        using 1(1) 2(1,2,3,5) ret le tr
        by (intro exI [of _ st3] exI [of _ None]) (simp add: fetch_page.simps [of "Suc fuel"])
    next
      case False
      have "length (vs_in st3) \<le> fuel" using 2(6,7) False 1(4) Suc.prems(2) by (cases "vs_in st1") auto
      then obtain st4 og' where 4: "fetch_page fuel env st3 = Some (st4, og')" "reads_ok st4" "same_rest st3 st4"
        "case og' of None \<Rightarrow> unread st4 \<le> unread st3 | Some p \<Rightarrow> page_wf p \<and> unread st4 + length (page_bytes p) \<le> unread st3"
        using Suc.IH [OF 2(3)] by blast
      have "fetch_page (Suc fuel) env st = Some (st4, og')"
        using 1(1) 2(1,2) 4(1) ret False by (simp add: fetch_page.simps [of "Suc fuel"])
      moreover have "case og' of None \<Rightarrow> unread st4 \<le> unread st | Some p \<Rightarrow> page_wf p \<and> unread st4 + length (page_bytes p) \<le> unread st"
        using 4(4) le 2(5) by (auto split: option.splits)
      ultimately show ?thesis using 4(2) same_rest_trans [OF tr 4(3)] by blast
    qed
  qed
qed

lemma vc_packetout_ok:
  assumes "fetch_ok st"
  shows "\<exists>st' ret p os. vc_packetout st = Some (st', ret, p) \<and> fetch_ok st' \<and> st' = st\<lparr>vs_os := Some os\<rparr>
    \<and> (ret = 0 \<and> load st' = load st \<or> load st' < load st \<and> (ret = -1 \<or> ret = 1 \<and> p \<noteq> None))"
proof -
  obtain os where os: "vs_os st = Some os" "dec_safe os" using assms by (auto simp: fetch_ok_def)
  obtain os' ret p where 1: "ogg_stream_packetout os = Some (os', ret, p)" "dec_safe os'"
    "ret = 0 \<and> os' = os \<or> waiting os' < waiting os \<and> queued os' < queued os \<and> (ret = -1 \<or> ret = 1 \<and> p \<noteq> None)"
    using packetout_safe [OF os(2)] by blast
  let ?st = "st\<lparr>vs_os := Some os'\<rparr>"
  have u: "unread ?st = unread st" "reads_ok ?st \<longleftrightarrow> reads_ok st" by (rule unread_cong; simp) (rule reads_cong; simp)
  then have "fetch_ok ?st" using assms 1(2) by (simp add: fetch_ok_def)
  moreover have "vc_packetout st = Some (?st, ret, p)" using os(1) 1(1) by (simp add: vc_packetout_def)
  moreover have "load ?st = unread st + queued os'" "load st = unread st + queued os" using u(1) os(1) by (simp_all add: load_def)
  ultimately show ?thesis using 1(3) by (intro exI [of _ ?st] exI [of _ ret] exI [of _ p] exI [of _ os']) auto
qed

lemma fetch_take_ok:
  assumes env: "env_good env" and st: "fetch_ok st" and pg: "page_wf p"
  shows "\<exists>st' r. fetch_take env st p = Some (st', r) \<and> fetch_ok st' \<and> same_work st st' \<and> unread st' = unread st
    \<and> load st' + 26 \<le> load st + length (pg_header p)
    \<and> (r = None \<and> vs_extrapage st' = vs_extrapage st \<or> r = Some 0 \<and> vs_eosin st')"
proof -
  obtain os where os: "vs_os st = Some os" "dec_safe os" and reads: "reads_ok st" using st by (auto simp: fetch_ok_def)
  have h: "26 \<le> length (pg_header p)" using pg by (simp add: page_wf_def)
  have memok: "mem_ok (ve_ogg env)" using env by (simp add: env_good_def)
  obtain serialno eos where f: "ogg_page_serialno p = Some serialno" "ogg_page_eos p = Some eos"
    by (rule page_fields [OF pg]) blast
  have frame: "fetch_ok st' \<and> unread st' = unread st \<and> load st' = load st"
    if "vs_oy st' = vs_oy st" "vs_in st' = vs_in st" "vs_os st' = vs_os st" for st'
    using that st unread_cong [OF that(1,2)] reads_cong [OF that(1,2)] by (simp add: fetch_ok_def load_def)
  show ?thesis
  proof (cases "serialno = vs_serial st")
    case False
    show ?thesis
    proof (cases "vcedit_contains_serial st serialno")
      case True
      obtain req side where push: "buffer_chain_push env st p = (st\<lparr>vs_requests := req, vs_sidebuf := side\<rparr>, 1)"
        using push_good [OF env, of st p] by blast
      let ?st = "st\<lparr>vs_requests := req, vs_sidebuf := side\<rparr>"
      have "fetch_take env st p = Some (?st, None)" using f(1) False True push by (simp add: fetch_take_def)
      moreover have "same_work st ?st" by (simp add: same_work_def)
      ultimately show ?thesis using frame [of ?st] h by (intro exI [of _ ?st] exI [of _ None]) simp
    next
      case no: False
      let ?st = "st\<lparr>vs_eosin := True, vs_extrapage := True\<rparr>"
      have "fetch_take env st p = Some (?st, Some 0)" using f(1) False no by (simp add: fetch_take_def)
      moreover have "same_work st ?st" by (simp add: same_work_def)
      ultimately show ?thesis using frame [of ?st] h by (intro exI [of _ ?st] exI [of _ "Some 0"]) simp
    qed
  next
    case True
    obtain os' ret where 1: "ogg_stream_pagein (ve_ogg env) os p = Some (os', ret)" "dec_safe os'"
      "queued os' + 26 \<le> queued os + length (pg_header p)"
      using pagein_safe [OF os(2) memok pg] by blast
    let ?st = "st\<lparr>vs_os := Some os', vs_requests := Suc (vs_requests st), vs_sidebuf := vs_sidebuf st @ [[]],
      vs_eosin := eos \<or> vs_eosin st\<rparr>"
    have "fetch_take env st p = Some (?st, None)"
      using f True os(1) 1(1) newlink_good [OF env] by (auto simp: fetch_take_def vc_pagein_def)
    moreover have "same_work st ?st"
        by (simp add: same_work_def)
    moreover have u: "unread ?st = unread st" "reads_ok ?st" using reads reads_cong [of ?st st] unread_cong [of ?st st] by simp_all
    moreover have "fetch_ok ?st" using u(2) 1(2) by (simp add: fetch_ok_def)
    moreover have "load ?st + 26 \<le> load st + length (pg_header p)" using u(1) os(1) 1(3) by (simp add: load_def)
    ultimately show ?thesis by (intro exI [of _ ?st] exI [of _ None]) simp
  qed
qed


text \<open>One round of the loop of \<open>_fetch_next_packet\<close>: it returns, or it has taken a page from the file.\<close>

definition fetched :: "vcedit_state \<Rightarrow> (vcedit_state \<times> int \<times> ogg_packet option \<times> ogg_page option) option \<Rightarrow> bool" where
  "fetched st res \<longleftrightarrow> (\<exists>st' r p page. res = Some (st', r, p, page) \<and> fetch_ok st' \<and> same_work st st'
     \<and> (vs_extrapage st' \<longrightarrow> page \<noteq> None) \<and> (r = 0 \<or> r = 1 \<and> p \<noteq> None \<and> load st' < load st))"

lemma fetchedI:
  "\<lbrakk>res = Some (st', r, p, page); fetch_ok st'; same_work st st'; vs_extrapage st' \<longrightarrow> page \<noteq> None;
    r = 0 \<or> r = 1 \<and> p \<noteq> None \<and> load st' < load st\<rbrakk> \<Longrightarrow> fetched st res"
  unfolding fetched_def by blast

lemma fetch_round:
  assumes env: "env_good env" and st: "fetch_ok st" and page: "vs_extrapage st \<longrightarrow> page \<noteq> None"
  shows "fetched st (fetch_loop fuel env st page) \<or> (\<exists>st' pg. fetch_ok st' \<and> same_work st st' \<and> load st' < load st
    \<and> unread st' < unread st
    \<and> fetch_loop fuel env st page = (case fuel of 0 \<Rightarrow> None | Suc fuel \<Rightarrow> fetch_loop fuel env st' (Some pg)))"
proof (cases "vs_eosin st")
  case True
  have "fetched st (fetch_loop fuel env st page)"
    by (rule fetchedI [of _ st 0 None page]) (use True st page in \<open>simp_all add: fetch_loop.simps [of fuel] same_work_def\<close>)
  then show ?thesis ..
next
  case eosin: False
  have reads: "reads_ok st" using st by (simp add: fetch_ok_def)
  obtain st1 og where 1: "fetch_page (length (vs_in st)) env st = Some (st1, og)" "reads_ok st1" "same_rest st st1"
    "case og of None \<Rightarrow> unread st1 \<le> unread st | Some p \<Rightarrow> page_wf p \<and> unread st1 + length (page_bytes p) \<le> unread st"
    using fetch_page_ok [OF env reads order_refl] by blast
  note sel = same_rest_sel [OF 1(3)]
  have st1: "fetch_ok st1" using 1(2) st sel(1) by (simp add: fetch_ok_def)
  have w1: "same_work st st1" by (rule same_work_rest [OF 1(3)])
  show ?thesis
  proof (cases og)
    case None
    have "fetched st (fetch_loop fuel env st page)"
      by (rule fetchedI [of _ st1 0 None page])
        (use None 1(1) eosin st1 w1 page sel(10) in \<open>simp_all add: fetch_loop.simps [of fuel]\<close>)
    then show ?thesis ..
  next
    case (Some pg)
    then have pg: "page_wf pg" "unread st1 + length (page_bytes pg) \<le> unread st" using 1(4) by simp_all
    have long: "length (page_bytes pg) = length (pg_header pg) + length (pg_body pg)" by (simp add: page_bytes_def)
    have l1: "load st1 + length (page_bytes pg) \<le> load st" using pg(2) sel(1) by (simp add: load_def)
    obtain st2 r where 2: "fetch_take env st1 pg = Some (st2, r)" "fetch_ok st2" "same_work st1 st2" "unread st2 = unread st1"
      "load st2 + 26 \<le> load st1 + length (pg_header pg)"
      "r = None \<and> vs_extrapage st2 = vs_extrapage st1 \<or> r = Some 0 \<and> vs_eosin st2"
      using fetch_take_ok [OF env st1 pg(1)] by blast
    have w2: "same_work st st2" by (rule same_work_trans [OF w1 2(3)])
    have l2: "load st2 < load st" using l1 2(5) long by linarith
    have u2: "unread st2 < unread st" using pg 2(4) page_wf_long by fastforce
    show ?thesis
    proof (cases r)
      case (Some n)
      have "fetched st (fetch_loop fuel env st page)"
        by (rule fetchedI [of _ st2 0 None "Some pg"])
          (use Some 2(1,2,6) 1(1) \<open>og = Some pg\<close> eosin w2 in \<open>simp_all add: fetch_loop.simps [of fuel]\<close>)
      then show ?thesis ..
    next
      case None
      obtain st3 ret p os where 3: "vc_packetout st2 = Some (st3, ret, p)" "fetch_ok st3" "st3 = st2\<lparr>vs_os := Some os\<rparr>"
        "ret = 0 \<and> load st3 = load st2 \<or> load st3 < load st2 \<and> (ret = -1 \<or> ret = 1 \<and> p \<noteq> None)"
        using vc_packetout_ok [OF 2(2)] by blast
      have w3: "same_work st st3" using w2 3(3) by (simp add: same_work_def)
      have l3: "load st3 < load st" using 3(4) l2 by auto
      have u3: "unread st3 < unread st" using u2 3(3) unread_cong [of st3 st2] by simp
      show ?thesis
      proof (cases "ret > 0")
        case True
        have "fetched st (fetch_loop fuel env st page)"
          by (rule fetchedI [of _ st3 1 p "Some pg"])
            (use True None 3(1,2,4) l3 w3 2(1) 1(1) \<open>og = Some pg\<close> eosin in \<open>auto simp: fetch_loop.simps [of fuel]\<close>)
        then show ?thesis ..
      next
        case False
        have "fetch_loop fuel env st page = (case fuel of 0 \<Rightarrow> None | Suc fuel \<Rightarrow> fetch_loop fuel env st3 (Some pg))"
          using False None 3(1) 2(1) 1(1) \<open>og = Some pg\<close> eosin by (simp add: fetch_loop.simps [of fuel])
        then show ?thesis using 3(2) w3 l3 u3 by blast
      qed
    qed
  qed
qed

lemma fetched_mono:
  assumes "fetched st' res" and "same_work st st'" and "load st' \<le> load st"
  shows "fetched st res"
proof -
  obtain a r p page where 1: "res = Some (a, r, p, page)" "fetch_ok a" "same_work st' a" "vs_extrapage a \<longrightarrow> page \<noteq> None"
    "r = 0 \<or> r = 1 \<and> p \<noteq> None \<and> load a < load st'"
    using assms(1) by (auto simp: fetched_def)
  show ?thesis
    by (rule fetchedI [of _ a r p page]) (use 1 same_work_trans [OF assms(2) 1(3)] assms(3) in auto)
qed

text \<open>The loop returns: every page it reads takes at least 27 bytes from the file.\<close>

lemma fetch_loop_ok:
  assumes env: "env_good env"
  shows "\<lbrakk>fetch_ok st; unread st \<le> fuel; vs_extrapage st \<longrightarrow> page \<noteq> None\<rbrakk> \<Longrightarrow> fetched st (fetch_loop fuel env st page)"
proof (induction fuel arbitrary: st page)
  case (0 st page)
  then show ?case using fetch_round [OF env 0(1,3), of 0] by auto
next
  case (Suc fuel st page)
  from fetch_round [OF env Suc.prems(1,3), of "Suc fuel"] show ?case
  proof
    assume "\<exists>st' pg. fetch_ok st' \<and> same_work st st' \<and> load st' < load st \<and> unread st' < unread st
      \<and> fetch_loop (Suc fuel) env st page = (case Suc fuel of 0 \<Rightarrow> None | Suc fuel \<Rightarrow> fetch_loop fuel env st' (Some pg))"
    then obtain st' pg where 1: "fetch_ok st'" "same_work st st'" "load st' < load st" "unread st' < unread st"
      "fetch_loop (Suc fuel) env st page = fetch_loop fuel env st' (Some pg)" by auto
    have "fetched st' (fetch_loop fuel env st' (Some pg))" using Suc.IH [OF 1(1)] 1(4) Suc.prems(2) by simp
    then show ?thesis unfolding 1(5) by (rule fetched_mono [OF _ 1(2)]) (use 1(3) in simp)
  qed
qed

lemma fetch_next_packet_ok:
  assumes env: "env_good env" and st: "fetch_ok st" and page: "vs_extrapage st \<longrightarrow> page \<noteq> None"
  shows "fetched st (fetch_next_packet env st page)"
proof -
  obtain st1 ret p os where 1: "vc_packetout st = Some (st1, ret, p)" "fetch_ok st1" "st1 = st\<lparr>vs_os := Some os\<rparr>"
    "ret = 0 \<and> load st1 = load st \<or> load st1 < load st \<and> (ret = -1 \<or> ret = 1 \<and> p \<noteq> None)"
    using vc_packetout_ok [OF st] by blast
  have w: "same_work st st1" "vs_extrapage st1 = vs_extrapage st" using 1(3) by (simp_all add: same_work_def)
  show ?thesis
  proof (cases "ret > 0")
    case True
    show ?thesis
      by (rule fetchedI [of _ st1 1 p page]) (use True 1(1,2,4) w page in \<open>auto simp: fetch_next_packet_def\<close>)
  next
    case False
    have "fetched st1 (fetch_loop (unread st1) env st1 page)" using fetch_loop_ok [OF env 1(2) order_refl] w(2) page by simp
    then have "fetched st (fetch_loop (unread st1) env st1 page)" by (rule fetched_mono [OF _ w(1)]) (use 1(4) in auto)
    then show ?thesis using 1(1) False by (simp add: fetch_next_packet_def)
  qed
qed


section \<open>The size of the blocks of a packet\<close>

text \<open>The code books have been read: at most 64 modes, of which each has its place.\<close>

definition modes_ok :: "vorbis_info \<Rightarrow> bool" where
  "modes_ok vi \<longleftrightarrow> (case vi_setup vi of None \<Rightarrow> True | Some ci \<Rightarrow> ci_modes ci \<le> 64 \<and> length (ci_mode_param ci) = 64)"

lemma ov_ilog_loop_bound: "unat v < 2 ^ k \<Longrightarrow> \<exists>n \<le> k. ov_ilog_loop v r = r + int n"
proof (induction k arbitrary: v r)
  case 0
  then have "v = 0" by (simp add: unat_eq_0)
  then show ?case by (simp add: ov_ilog_loop.simps [of 0])
next
  case (Suc k)
  show ?case
  proof (cases "v = 0")
    case False
    have "unat (drop_bit 1 v) < 2 ^ k" using Suc.prems by (simp add: drop_bit_eq_div unat_div)
    then obtain n where "n \<le> k" "ov_ilog_loop (drop_bit 1 v) (r + 1) = r + 1 + int n" using Suc.IH by blast
    then show ?thesis using False by (intro exI [of _ "Suc n"]) (simp add: ov_ilog_loop.simps [of v])
  qed (simp add: ov_ilog_loop.simps [of 0])
qed

text \<open>What is read from \<open>n\<close> bits is below \<open>2 ^ n\<close>, or the mark of the end.\<close>

lemma reader_read_bound:
  assumes "reader_ok b st" and "n \<le> 32"
  shows "\<exists>b' v. oggpack_read b (int n) = Some (b', v) \<and> reader_ok b' st \<and> (v = -1 \<or> take_bit n v = v)"
proof -
  obtain b' v where 1: "oggpack_read b (int n) = Some (b', v)" "reader_ok b' st" using reader_read [OF assms] by blast
  have "v = -1 \<or> take_bit n v = v"
    using assms(1) unfolding reader_ok_def
  proof (elim conjE disjE exE)
    fix xs assume xs: "reading lsb b xs"
    have "take_bit n (lsb_num (take n xs)) = lsb_num (take n xs)"
      by (rule bit_word_eqI) (auto simp: bit_take_bit_iff bit_lsb_num)
    then show ?thesis using oggpack_read_reading [OF xs assms(2)] 1(1) by (cases "n \<le> length xs") auto
  next
    fix b0 assume "b = pk_overflow b0"
    then show ?thesis using read_overflow(1) [of "int n" b0] assms(2) 1(1) by auto
  qed
  then show ?thesis using 1 by blast
qed

lemma blocksize_total:
  assumes "modes_ok vi"
  shows "\<exists>n. vorbis_packet_blocksize vi op = Some n"
proof (cases "vi_setup vi")
  case None
  then show ?thesis by (simp add: vorbis_packet_blocksize_def)
next
  case (Some ci)
  then have ci: "ci_modes ci \<le> 64" "length (ci_mode_param ci) = 64" using assms by (simp_all add: modes_ok_def)
  show ?thesis
  proof (cases "ci_modes ci \<le> 0")
    case True
    then show ?thesis using Some by (simp add: vorbis_packet_blocksize_def)
  next
    case False
    let ?b = "oggpack_readinit (op_packet op) (int (length (op_packet op)))"
    let ?st = "pk_storage ?b"
    have r: "reader_ok ?b ?st" using reading_readinit [of lsb "op_packet op"] by (auto simp: reader_ok_def)
    obtain b1 v1 where 1: "oggpack_read ?b 1 = Some (b1, v1)" "reader_ok b1 ?st"
      using reader_read [OF r, of 1] by auto
    have "uint (of_int (ci_modes ci - 1) :: 32 word) = ci_modes ci - 1"
      using False ci(1) by (simp only: uint_word_of_int_eq, intro take_bit_int_eq_self) simp_all
    then have "unat (of_int (ci_modes ci - 1) :: 32 word) < 2 ^ 6" using ci(1) by (simp add: unat_eq_nat_uint)
    then obtain n where n: "n \<le> 6" "ov_ilog (of_int (ci_modes ci - 1)) = int n"
      using ov_ilog_loop_bound [of "of_int (ci_modes ci - 1)" 6 0] by (auto simp: ov_ilog_def)
    obtain b2 v2 where 2: "oggpack_read b1 (int n) = Some (b2, v2)" "v2 = -1 \<or> take_bit n v2 = v2"
      using reader_read_bound [OF 1(2), of n] n(1) by auto
    have idx: "sint v2 = -1 \<or> 0 \<le> sint v2 \<and> sint v2 < 64"
      using 2(2)
    proof
      assume t: "take_bit n v2 = v2"
      have "take_bit 6 v2 = v2" using t n(1) take_bit_take_bit [of 6 n v2] by (simp add: min_absorb2)
      then have "uint v2 = take_bit 6 (uint v2)" by (metis unsigned_take_bit_eq)
      then have u: "uint v2 < 64" using take_bit_int_less_exp [of 6 "uint v2"] by simp
      have "sint v2 = uint v2" unfolding sint_uint by (rule signed_take_bit_int_eq_self) (use u order_trans [OF _ uint_ge_0 [of v2], of "- (2 ^ 31)"] in simp_all)
      then show ?thesis using u by simp
    qed simp
    then have "sint v2 \<noteq> -1 \<Longrightarrow> \<exists>p. rd (ci_mode_param ci) (sint v2) = Some p" using ci(2) by (auto simp: rd_def)
    then show ?thesis
      using Some False 1(1) n(2) 2(1) by (auto simp: vorbis_packet_blocksize_def read_int_def Let_def split: option.splits)
  qed
qed


section \<open>The output stream\<close>

text \<open>The output stream is consistent, or it has been cleared after a shortage of memory.\<close>

definition enc_any :: "ogg_stream_state \<Rightarrow> bool" where
  "enc_any so \<longleftrightarrow> (\<exists>segs. enc_ok so segs) \<or> os_body so = None \<and> os_lacing_fill so = 0"

lemma enc_any_zero: "enc_any ogg_stream_zero"
  by (simp add: enc_any_def ogg_stream_zero_def)

lemma enc_any_init: "mem_ok mem \<Longrightarrow> enc_any (fst (ogg_stream_init mem serialno))"
  using ogg_stream_init_ok [of mem serialno] enc_any_zero
  by (cases "ogg_stream_init mem serialno") (auto simp: enc_any_def ogg_stream_init_def split: option.splits)

lemma enc_any_eos: "enc_any so \<Longrightarrow> enc_any (so\<lparr>os_eos := e\<rparr>)"
  by (auto simp: enc_any_def enc_ok_def body_ok_def lacing_ok_def)

lemma packetin_enc:
  assumes "enc_any so" and "mem_ok mem"
  shows "\<exists>so' ret. ogg_stream_packetin mem so op = Some (so', ret) \<and> enc_any so'"
  using assms(1) unfolding enc_any_def [of so]
proof
  assume "\<exists>segs. enc_ok so segs"
  then obtain segs where "enc_ok so segs" by blast
  from ogg_stream_packetin_ok [OF this assms(2), of op] show ?thesis
    using assms(1) enc_any_zero by (auto simp: enc_any_def [of "_ :: ogg_stream_state"])
next
  assume "os_body so = None \<and> os_lacing_fill so = 0"
  then show ?thesis
    using assms(1) by (simp add: ogg_stream_packetin_def ogg_stream_iovecin_def ogg_stream_check_def)
qed

text \<open>A page takes at least one segment.\<close>

lemma flush_enc:
  assumes "enc_any so"
  shows "\<exists>so' pg. ogg_stream_flush so = Some (so', pg) \<and> enc_any so'
      \<and> (pg \<noteq> None \<longrightarrow> nat (os_lacing_fill so') < nat (os_lacing_fill so))"
    and "\<exists>so' pg. ogg_stream_pageout so = Some (so', pg) \<and> enc_any so'"
proof -
  have fill: "os_lacing_fill o' = int (length ss)" if "enc_ok o' ss" for o' ss
    using that by (auto simp: enc_ok_def lacing_ok_def)
  have "(\<exists>so' pg. res = Some (so', pg) \<and> enc_any so' \<and> (pg \<noteq> None \<longrightarrow> nat (os_lacing_fill so') < nat (os_lacing_fill so)))"
    if "flush_result so segs f res" "enc_ok so segs" for segs f res
  proof -
    note res = that
    obtain so' pg where r: "res = Some (so', pg)"
      "case pg of None \<Rightarrow> so' = so \<and> (segs = [] \<or> \<not> f) | Some p \<Rightarrow> \<exists>k. flushed so segs k so' p"
      using res(1) by (auto simp: flush_result_def)
    show ?thesis
    proof (cases pg)
      case None
      then show ?thesis using r assms by simp
    next
      case (Some p)
      then obtain k where k: "0 < k" "k \<le> length segs" "enc_ok so' (drop k segs)" using r(2) by (auto simp: flushed_def)
      then have "nat (os_lacing_fill so') < nat (os_lacing_fill so)" using fill [OF k(3)] fill [OF res(2)] by simp
      then show ?thesis using r(1) k(3) by (auto simp: enc_any_def)
    qed
  qed
  note live = this
  have dead: "ogg_stream_flush so = Some (so, None)" "ogg_stream_pageout so = Some (so, None)" if "os_body so = None"
    using that by (simp_all add: ogg_stream_flush_def ogg_stream_pageout_def ogg_stream_flush_i_def ogg_stream_check_def)
  show "\<exists>so' pg. ogg_stream_flush so = Some (so', pg) \<and> enc_any so'
      \<and> (pg \<noteq> None \<longrightarrow> nat (os_lacing_fill so') < nat (os_lacing_fill so))"
    using assms dead(1) live [OF flush_results(1)] unfolding enc_any_def [of so] by (auto simp: enc_any_def)
  show "\<exists>so' pg. ogg_stream_pageout so = Some (so', pg) \<and> enc_any so'"
    using assms dead(2) live [OF flush_results(3)] unfolding enc_any_def [of so] by (fastforce simp: enc_any_def)
qed

section \<open>Writing\<close>

definition accepting :: "vc_env \<Rightarrow> bool" where
  "accepting env \<longleftrightarrow> (\<forall>n k. ve_accept env n k = k)"

text \<open>Writing leaves the input and the decoder alone; links of the chain are used up.\<close>

definition same_input :: "vcedit_state \<Rightarrow> vcedit_state \<Rightarrow> bool" where
  "same_input st st' \<longleftrightarrow> vs_oy st' = vs_oy st \<and> vs_os st' = vs_os st \<and> vs_in st' = vs_in st \<and> vs_vi st' = vs_vi st
     \<and> vs_extrapage st' = vs_extrapage st \<and> vs_eosin st' = vs_eosin st \<and> length (vs_sidebuf st') \<le> length (vs_sidebuf st)"

lemma same_input_refl [simp]: "same_input st st"
  by (simp add: same_input_def)

lemma same_input_trans: "same_input a b \<Longrightarrow> same_input b c \<Longrightarrow> same_input a c"
  by (simp add: same_input_def)

lemma vc_write_ok: "\<exists>st' ok. vc_write env st xs = (st', ok) \<and> same_input st st' \<and> (accepting env \<longrightarrow> ok)
    \<and> vs_sidebuf st' = vs_sidebuf st"
  unfolding vc_write_def Let_def
  by (intro exI conjI, rule refl) (simp_all add: same_input_def accepting_def)

lemma writelink_ok:
  assumes "vs_sidebuf st \<noteq> []"
  shows "\<exists>st' result. buffer_chain_writelink env st = Some (st', result) \<and> same_input st st'
    \<and> (accepting env \<longrightarrow> \<not> result < 0) \<and> vs_sidebuf st' = tl (vs_sidebuf st)"
  using assms
  by (cases "vs_sidebuf st") (auto simp: buffer_chain_writelink_def vc_write_def Let_def same_input_def accepting_def)

text \<open>A page in two pieces.\<close>

lemma write_two_ok:
  "\<exists>st' ok. (let (st, done) = vc_write env st xs in if \<not> done then Some (st, False) else Some (vc_write env st ys)) = Some (st', ok)
    \<and> same_input st st' \<and> (accepting env \<longrightarrow> ok)"
proof -
  obtain st1 ok1 where 1: "vc_write env st xs = (st1, ok1)" "same_input st st1" "accepting env \<longrightarrow> ok1"
    using vc_write_ok by blast
  obtain st2 ok2 where 2: "vc_write env st1 ys = (st2, ok2)" "same_input st1 st2" "accepting env \<longrightarrow> ok2"
    using vc_write_ok by blast
  show ?thesis
  proof (cases ok1)
    case True
    then show ?thesis
      using 1(1) 2 same_input_trans [OF 1(2) 2(2)] by (intro exI [of _ st2] exI [of _ ok2]) simp
  next
    case False
    then show ?thesis using 1 by (intro exI [of _ st1] exI [of _ False]) simp
  qed
qed

lemma write_page_ok:
  "\<exists>st' ok. write_page env st og = Some (st', ok) \<and> same_input st st' \<and> (accepting env \<longrightarrow> ok)"
proof -
  obtain st1 result where 1: "(if vs_sidebuf st \<noteq> [] then buffer_chain_writelink env st else Some (st, 0)) = Some (st1, result)"
    "same_input st st1" "accepting env \<longrightarrow> \<not> result < 0"
    using writelink_ok [of st env] by (cases "vs_sidebuf st = []") auto
  obtain st2 ok where 2: "(let (st, done) = vc_write env st1 (pg_header og) in
      if \<not> done then Some (st, False) else Some (vc_write env st (pg_body og))) = Some (st2, ok)"
    "same_input st1 st2" "accepting env \<longrightarrow> ok"
    using write_two_ok by blast
  show ?thesis
  proof (cases "result < 0")
    case True
    then show ?thesis using 1 by (auto simp: write_page_def)
  next
    case False
    then have "write_page env st og = Some (st2, ok)"
      unfolding write_page_def by (simp only: 1(1) bind.simps case_prod_conv if_False 2(1))
    then show ?thesis using 2(3) same_input_trans [OF 1(2) 2(2)] by blast
  qed
qed

lemma write_flush_ok:
  "enc_any so \<Longrightarrow> nat (os_lacing_fill so) \<le> fuel \<Longrightarrow>
    \<exists>st' so' ok. write_flush fuel env st so = Some (st', so', ok) \<and> enc_any so' \<and> same_input st st' \<and> (accepting env \<longrightarrow> ok)"
proof (induction fuel arbitrary: st so)
  case (0 st so)
  then obtain so' where "ogg_stream_flush so = Some (so', None)" "enc_any so'" using flush_enc(1) [OF 0(1)] by auto
  then show ?case by (intro exI [of _ st] exI [of _ so'] exI [of _ True]) (simp add: write_flush.simps [of 0])
next
  case (Suc fuel st so)
  obtain so' pg where 1: "ogg_stream_flush so = Some (so', pg)" "enc_any so'"
    "pg \<noteq> None \<longrightarrow> nat (os_lacing_fill so') < nat (os_lacing_fill so)"
    using flush_enc(1) [OF Suc.prems(1)] by blast
  show ?case
  proof (cases pg)
    case None
    then show ?thesis using 1 by (intro exI [of _ st] exI [of _ so'] exI [of _ True]) (simp add: write_flush.simps [of "Suc fuel"])
  next
    case (Some p)
    obtain st1 ok where 2: "write_page env st p = Some (st1, ok)" "same_input st st1" "accepting env \<longrightarrow> ok"
      using write_page_ok by blast
    show ?thesis
    proof (cases ok)
      case False
      then show ?thesis
        using 1 2 Some by (intro exI [of _ st1] exI [of _ so'] exI [of _ False]) (simp add: write_flush.simps [of "Suc fuel"])
    next
      case True
      have "nat (os_lacing_fill so') < nat (os_lacing_fill so)" using 1(3) Some by blast
      then have "nat (os_lacing_fill so') \<le> fuel" using Suc.prems(2) by linarith
      then obtain st2 so2 ok2 where 3: "write_flush fuel env st1 so' = Some (st2, so2, ok2)" "enc_any so2" "same_input st1 st2"
        "accepting env \<longrightarrow> ok2"
        using Suc.IH [OF 1(2)] by blast
      have "write_flush (Suc fuel) env st so = Some (st2, so2, ok2)"
        using 1(1) 2(1) 3(1) Some True by (simp add: write_flush.simps [of "Suc fuel"])
      then show ?thesis using 3(2,4) same_input_trans [OF 2(2) 3(3)] by blast
    qed
  qed
qed

lemma write_links_ok:
  "length (vs_sidebuf st) \<le> fuel \<Longrightarrow>
    \<exists>st' ok. write_links fuel env st = Some (st', ok) \<and> same_input st st' \<and> (accepting env \<longrightarrow> ok)"
proof (induction fuel arbitrary: st)
  case (0 st)
  then show ?case by (intro exI [of _ st] exI [of _ True]) (simp add: write_links.simps [of 0])
next
  case (Suc fuel st)
  show ?case
  proof (cases "vs_sidebuf st = []")
    case True
    then show ?thesis by (intro exI [of _ st] exI [of _ True]) (simp add: write_links.simps [of "Suc fuel"])
  next
    case False
    obtain st1 result where 1: "buffer_chain_writelink env st = Some (st1, result)" "same_input st st1"
      "accepting env \<longrightarrow> \<not> result < 0" "vs_sidebuf st1 = tl (vs_sidebuf st)"
      using writelink_ok [OF False] by blast
    show ?thesis
    proof (cases "result < 0")
      case True
      then show ?thesis
        using 1 False by (intro exI [of _ st1] exI [of _ False]) (simp add: write_links.simps [of "Suc fuel"])
    next
      case pos: False
      have "length (vs_sidebuf st1) \<le> fuel" using 1(4) Suc.prems by simp
      then obtain st2 ok where 2: "write_links fuel env st1 = Some (st2, ok)" "same_input st1 st2" "accepting env \<longrightarrow> ok"
        using Suc.IH by blast
      have "write_links (Suc fuel) env st = Some (st2, ok)"
        using 1(1) 2(1) False pos by (simp add: write_links.simps [of "Suc fuel"])
      then show ?thesis using 2(3) same_input_trans [OF 1(2) 2(2)] by blast
    qed
  qed
qed

lemma write_due_ok:
  assumes "enc_any so"
  shows "\<exists>st' so' ok. write_due env st so needflush needout = Some (st', so', ok) \<and> enc_any so' \<and> same_input st st'
    \<and> (accepting env \<longrightarrow> ok)"
proof -
  have "\<exists>so1 pg. (if needflush then ogg_stream_flush so else if needout then ogg_stream_pageout so else Some (so, None))
      = Some (so1, pg) \<and> enc_any so1"
    using flush_enc [OF assms] assms by (cases needflush; cases needout; simp; blast)
  then obtain so1 pg where 1: "(if needflush then ogg_stream_flush so else if needout then ogg_stream_pageout so else Some (so, None))
      = Some (so1, pg)" "enc_any so1"
    by blast
  show ?thesis
  proof (cases pg)
    case None
    then show ?thesis using 1 by (intro exI [of _ st] exI [of _ so1] exI [of _ True]) (simp add: write_due_def)
  next
    case (Some p)
    then show ?thesis using 1 write_page_ok [of env st p] by (auto simp: write_due_def)
  qed
qed

lemma write_packet_ok:
  assumes "enc_any so" and "env_good env"
  shows "\<exists>r. write_packet env so op granpos = Some r \<and> enc_any (fst r)"
proof -
  have m: "mem_ok (ve_ogg env)" using assms(2) by (simp add: env_good_def)
  obtain so1 r1 where 1: "ogg_stream_packetin (ve_ogg env) so (op\<lparr>op_granulepos := of_int granpos\<rparr>) = Some (so1, r1)" "enc_any so1"
    using packetin_enc [OF assms(1) m] by blast
  obtain so2 r2 where 2: "ogg_stream_packetin (ve_ogg env) so op = Some (so2, r2)" "enc_any so2"
    using packetin_enc [OF assms(1) m] by blast
  show ?thesis using 1 2 by (simp add: write_packet_def del: split_paired_Ex)
qed


section \<open>The rest of the file\<close>

text \<open>What \<open>vcedit_write\<close> needs of the opened state: the decoder, and the modes of the stream.\<close>

definition work_ok :: "vcedit_state \<Rightarrow> bool" where
  "work_ok st \<longleftrightarrow> fetch_ok st \<and> (\<exists>vi. vs_vi st = Some vi \<and> modes_ok vi)"

lemma input_cong:
  assumes "vs_oy st' = vs_oy st" "vs_in st' = vs_in st" "vs_os st' = vs_os st"
  shows "unread st' = unread st" "load st' = load st" "reads_ok st' \<longleftrightarrow> reads_ok st" "fetch_ok st' \<longleftrightarrow> fetch_ok st"
proof -
  show u: "unread st' = unread st" by (rule unread_cong [OF assms(1,2)])
  show "load st' = load st" using u assms(3) by (simp add: load_def)
  show r: "reads_ok st' \<longleftrightarrow> reads_ok st" by (rule reads_cong [OF assms(1,2)])
  show "fetch_ok st' \<longleftrightarrow> fetch_ok st" using r assms(3) by (simp add: fetch_ok_def)
qed

lemma same_input_work:
  assumes "same_input st st'"
  shows "work_ok st' \<longleftrightarrow> work_ok st" "fetch_ok st' \<longleftrightarrow> fetch_ok st" "reads_ok st' \<longleftrightarrow> reads_ok st" "load st' = load st"
    "vs_extrapage st' = vs_extrapage st" "unread st' = unread st" "vs_in st' = vs_in st"
  using input_cong [of st' st] assms by (auto simp: same_input_def work_ok_def)

lemma vc_blocksize_ok:
  assumes "work_ok st"
  shows "\<exists>st' n. vc_blocksize st op = Some (st', n) \<and> work_ok st' \<and> load st' = load st \<and> vs_extrapage st' = vs_extrapage st"
proof -
  obtain vi where vi: "vs_vi st = Some vi" "modes_ok vi" using assms by (auto simp: work_ok_def)
  obtain n where n: "vorbis_packet_blocksize vi op = Some n" using blocksize_total [OF vi(2)] by blast
  let ?st = "st\<lparr>vs_prevW := n\<rparr>"
  have "work_ok ?st" "load ?st = load st" using assms input_cong [of ?st st] by (simp_all add: work_ok_def)
  then show ?thesis using vi(1) n by (auto simp: vc_blocksize_def Let_def)
qed

definition packets_done :: "vc_env \<Rightarrow> (vcedit_state \<times> ogg_stream_state \<times> ogg_page option \<times> bool) option \<Rightarrow> bool" where
  "packets_done env res \<longleftrightarrow> (\<exists>st so ogin ok. res = Some (st, so, ogin, ok) \<and> fetch_ok st \<and> enc_any so
     \<and> (vs_extrapage st \<longrightarrow> ogin \<noteq> None) \<and> (accepting env \<longrightarrow> ok))"

lemma packets_doneI:
  "\<lbrakk>res = Some (st, so, ogin, ok); fetch_ok st; enc_any so; vs_extrapage st \<longrightarrow> ogin \<noteq> None; accepting env \<longrightarrow> ok\<rbrakk>
    \<Longrightarrow> packets_done env res"
  unfolding packets_done_def by blast

text \<open>Every packet leaves less to be done.\<close>

lemma write_packets_ok:
  assumes env: "env_good env"
  shows "\<lbrakk>work_ok st; enc_any so; load st \<le> fuel; vs_extrapage st \<longrightarrow> ogin \<noteq> None\<rbrakk>
    \<Longrightarrow> packets_done env (write_packets fuel env st so granpos needflush needout ogin)"
proof (induction fuel arbitrary: st so granpos needflush needout ogin rule: less_induct)
  case (less fuel)
  have st: "fetch_ok st" using less.prems(1) by (simp add: work_ok_def)
  obtain st1 r p og where 1: "fetch_next_packet env st ogin = Some (st1, r, p, og)" "fetch_ok st1" "same_work st st1"
    "vs_extrapage st1 \<longrightarrow> og \<noteq> None" "r = 0 \<or> r = 1 \<and> p \<noteq> None \<and> load st1 < load st"
    using fetch_next_packet_ok [OF env st less.prems(4)] by (auto simp: fetched_def)
  show ?case
  proof (cases "r = 0")
    case True
    show ?thesis
      by (rule packets_doneI [of _ st1 so og True]) (use 1 True less.prems(2) in \<open>simp_all add: write_packets.simps [of fuel]\<close>)
  next
    case False
    then obtain op where op: "p = Some op" "load st1 < load st" using 1(5) by auto
    have w1: "work_ok st1" using less.prems(1) 1(2,3) by (simp add: work_ok_def same_work_def)
    obtain st2 n where 2: "vc_blocksize st1 op = Some (st2, n)" "work_ok st2" "load st2 = load st1"
      "vs_extrapage st2 = vs_extrapage st1"
      using vc_blocksize_ok [OF w1] by blast
    obtain st3 so3 ok where 3: "write_due env st2 so needflush needout = Some (st3, so3, ok)" "enc_any so3" "same_input st2 st3"
      "accepting env \<longrightarrow> ok"
      using write_due_ok [OF less.prems(2)] by blast
    note s3 = same_input_work [OF 3(3)]
    have x3: "vs_extrapage st3 \<longrightarrow> og \<noteq> None" using s3(5) 2(4) 1(4) by simp
    show ?thesis
    proof (cases ok)
      case False
      show ?thesis
        by (rule packets_doneI [of _ st3 so3 og False])
          (use 1(1) \<open>r \<noteq> 0\<close> op(1) 2(1,2) 3 False x3 s3(2) in \<open>simp_all add: write_packets.simps [of fuel] work_ok_def\<close>)
    next
      case True
      obtain so4 g4 f4 o4 where 4: "write_packet env so3 op (granpos + n) = Some (so4, g4, f4, o4)" "enc_any so4"
        using write_packet_ok [OF 3(2) env, of op "granpos + n"] by (auto simp del: split_paired_Ex)
      have l: "load st3 < load st" using s3(4) 2(3) op(2) by simp
      then obtain f where f: "fuel = Suc f" using less.prems(3) by (cases fuel) auto
      have "packets_done env (write_packets f env st3 so4 g4 f4 o4 og)"
        using less.IH [of f st3 so4 og] f l less.prems(3) s3(1) 2(2) 4(2) x3 by simp
      moreover have "write_packets fuel env st so granpos needflush needout ogin = write_packets f env st3 so4 g4 f4 o4 og"
        using 1(1) \<open>r \<noteq> 0\<close> op(1) 2(1) 3(1) True 4(1) f by (simp add: write_packets.simps [of "Suc f"] Let_def)
      ultimately show ?thesis by simp
    qed
  qed
qed

lemma copy_pages_ok:
  "\<lbrakk>reads_ok st; unread st \<le> fuel + length (concat (vs_in st))\<rbrakk>
    \<Longrightarrow> \<exists>st' ok. copy_pages fuel env st = Some (st', ok) \<and> reads_ok st' \<and> vs_in st' = vs_in st \<and> (accepting env \<longrightarrow> ok)"
proof (induction fuel arbitrary: st rule: less_induct)
  case (less fuel)
  obtain st1 ret og where 1: "vc_pageout st = Some (st1, ret, og)" "reads_ok st1" "same_rest st st1" "vs_in st1 = vs_in st"
    "ret = 0 \<and> og = None \<and> unread st1 \<le> unread st \<or> ret = -1 \<and> og = None \<and> unread st1 < unread st
       \<or> ret = 1 \<and> (\<exists>p. og = Some p \<and> page_wf p \<and> unread st1 + length (page_bytes p) \<le> unread st)"
    by (rule vc_pageoutE [OF less.prems(1)])
  show ?case
  proof (cases "ret = 0")
    case True
    then show ?thesis using 1(1,2,4) by (intro exI [of _ st1] exI [of _ True]) (simp add: copy_pages.simps [of fuel])
  next
    case ret: False
    have u1: "unread st1 < unread st" using 1(5) ret page_wf_long by fastforce
    obtain st2 ok where 2: "(if ret < 0 then Some (st1\<lparr>vs_lasterror := Some CorruptData\<rparr>, True)
         else do { pg \<leftarrow> og;
           let (st, done) = vc_write env st1 (pg_header pg);
           if \<not> done then Some (st, False) else Some (vc_write env st (pg_body pg)) }) = Some (st2, ok)"
      "vs_oy st2 = vs_oy st1" "vs_in st2 = vs_in st1" "vs_os st2 = vs_os st1" "accepting env \<longrightarrow> ok"
    proof (cases "ret < 0")
      case True
      then show ?thesis using that [of "st1\<lparr>vs_lasterror := Some CorruptData\<rparr>" True] by simp
    next
      case False
      then obtain p where p: "og = Some p" using 1(5) ret by auto
      obtain st' ok' where w: "(let (st, done) = vc_write env st1 (pg_header p) in
          if \<not> done then Some (st, False) else Some (vc_write env st (pg_body p))) = Some (st', ok')"
        "same_input st1 st'" "accepting env \<longrightarrow> ok'"
        using write_two_ok by blast
      show ?thesis
        by (rule that [of st' ok']) (use False p w in \<open>simp_all add: same_input_def\<close>)
    qed
    note s2 = input_cong [OF 2(2,3,4)]
    show ?thesis
    proof (cases ok)
      case False
      then show ?thesis
        using 1(1,2,4) ret 2(1,3,5) s2(3) by (intro exI [of _ st2] exI [of _ False]) (simp add: copy_pages.simps [of fuel])
    next
      case True
      have "length (concat (vs_in st)) \<le> unread st1" using 1(4) by (simp add: unread_def)
      then obtain f where f: "fuel = Suc f" using u1 less.prems(2) by (cases fuel) auto
      have "unread st2 \<le> f + length (concat (vs_in st2))" using s2(1) u1 less.prems(2) f 2(3) 1(4) by simp
      then obtain st3 ok3 where 3: "copy_pages f env st2 = Some (st3, ok3)" "reads_ok st3" "vs_in st3 = vs_in st2"
        "accepting env \<longrightarrow> ok3"
        using less.IH [of f st2] f s2(3) 1(2) by auto
      have "copy_pages fuel env st = Some (st3, ok3)"
        using 1(1) ret 2(1) True 3(1) f by (simp add: copy_pages.simps [of "Suc f"])
      then show ?thesis using 3(2,3,4) 2(3) 1(4) by (intro exI [of _ st3] exI [of _ ok3]) simp
    qed
  qed
qed

lemma copy_rest_ok:
  assumes env: "env_good env"
  shows "\<lbrakk>reads_ok st; length (vs_in st) \<le> fuel\<rbrakk>
    \<Longrightarrow> \<exists>st'. copy_rest fuel env st = Some st' \<and> reads_ok st' \<and> (accepting env \<longrightarrow> vs_eosin st')"
proof (induction fuel arbitrary: st rule: less_induct)
  case (less fuel)
  obtain oy xs where oy: "vs_oy st = Some oy" "sync_ok oy xs" using less.prems(1) by (auto simp: reads_ok_def)
  have "length xs \<le> nat (sy_fill oy)" using oy(2) by (auto simp: sync_ok_def)
  then have "unread st \<le> nat (sy_fill oy) + length (concat (vs_in st))" using unread_sync [OF oy] by simp
  then obtain st1 ok where 1: "copy_pages (nat (sy_fill oy)) env st = Some (st1, ok)" "reads_ok st1" "vs_in st1 = vs_in st"
    "accepting env \<longrightarrow> ok"
    using copy_pages_ok [OF less.prems(1)] by blast
  show ?case
  proof (cases ok)
    case False
    then show ?thesis using oy(1) 1 by (intro exI [of _ st1]) (simp add: copy_rest.simps [of fuel])
  next
    case True
    obtain st2 st3 n where 2: "vc_read env st1 = Some (st2, n)" "vc_wrote st2 n = Some st3" "reads_ok st3" "same_rest st1 st3"
      "unread st3 = unread st1" "vs_in st3 = tl (vs_in st1)" "n = 0 \<longleftrightarrow> vs_in st1 = [] \<or> hd (vs_in st1) = []"
      by (rule vc_readE [OF env 1(2)])
    show ?thesis
    proof (cases "n = 0")
      case n: True
      let ?st = "st3\<lparr>vs_eosin := True\<rparr>"
      have "reads_ok ?st" using 2(3) reads_cong [of ?st st3] by simp
      then show ?thesis
        using oy(1) 1(1) True 2(1,2) n by (intro exI [of _ ?st]) (simp add: copy_rest.simps [of fuel])
    next
      case False
      then obtain f where f: "fuel = Suc f" "length (vs_in st3) \<le> f"
        using 2(6,7) 1(3) less.prems(2) by (cases fuel; cases "vs_in st") auto
      then obtain st4 where 4: "copy_rest f env st3 = Some st4" "reads_ok st4" "accepting env \<longrightarrow> vs_eosin st4"
        using less.IH [of f st3] 2(3) by auto
      have "copy_rest fuel env st = Some st4"
        using oy(1) 1(1) True 2(1,2) False 4(1) f(1) by (simp add: copy_rest.simps [of "Suc f"])
      then show ?thesis using 4(2,3) by blast
    qed
  qed
qed

lemma write_end_ok:
  assumes env: "env_good env" and st: "reads_ok st" and so: "enc_any so" and page: "vs_extrapage st \<longrightarrow> ogin \<noteq> None"
  shows "\<exists>st'. write_end env st so ogin = Some st' \<and> reads_ok st' \<and> (accepting env \<longrightarrow> vs_eosin st')"
proof -
  obtain st1 so1 ok where 1: "write_flush (nat (os_lacing_fill so)) env st (so\<lparr>os_eos := True\<rparr>) = Some (st1, so1, ok)"
    "same_input st st1" "accepting env \<longrightarrow> ok"
    using write_flush_ok [OF enc_any_eos [OF so], of True "nat (os_lacing_fill so)" env st] by auto
  note s1 = same_input_work [OF 1(2)]
  show ?thesis
  proof (cases ok)
    case False
    then show ?thesis using 1 st s1(3) by (intro exI [of _ st1]) (simp add: write_end_def)
  next
    case ok: True
    obtain st2 ok2 where 2: "(if vs_extrapage st1 then do {
           (st, ok) \<leftarrow> write_links (length (vs_sidebuf st1)) env st1;
           if \<not> ok then Some (st, False)
           else do { pg \<leftarrow> ogin;
             let (st, done) = vc_write env st (pg_header pg);
             if \<not> done then Some (st, False) else Some (vc_write env st (pg_body pg)) } }
         else Some (st1, True)) = Some (st2, ok2)" "same_input st1 st2" "accepting env \<longrightarrow> ok2"
    proof (cases "vs_extrapage st1")
      case False
      then show ?thesis using that [of st1 True] by simp
    next
      case True
      then obtain pg where pg: "ogin = Some pg" using page s1(5) by auto
      obtain st' ok' where l: "write_links (length (vs_sidebuf st1)) env st1 = Some (st', ok')" "same_input st1 st'"
        "accepting env \<longrightarrow> ok'"
        using write_links_ok [OF order_refl] by blast
      obtain st'' ok'' where w: "(let (st, done) = vc_write env st' (pg_header pg) in
          if \<not> done then Some (st, False) else Some (vc_write env st (pg_body pg))) = Some (st'', ok'')"
        "same_input st' st''" "accepting env \<longrightarrow> ok''"
        using write_two_ok by blast
      show ?thesis
      proof (cases ok')
        case False
        then show ?thesis using that [of st' False] True l by simp
      next
        case ok': True
        show ?thesis
          by (rule that [of st'' ok'']) (use True l(1) ok' pg w(1,3) same_input_trans [OF l(2) w(2)] in simp_all)
      qed
    qed
    note s2 = same_input_work [OF 2(2)]
    show ?thesis
    proof (cases ok2)
      case False
      then show ?thesis
        using 1(1,3) 2(1,3) ok st s1(3) s2(3) by (intro exI [of _ st2]) (simp add: write_end_def)
    next
      case True
      let ?st = "st2\<lparr>vs_eosin := False\<rparr>"
      have "reads_ok ?st" using st s1(3) s2(3) reads_cong [of ?st st2] by simp
      then obtain st3 where 3: "copy_rest (length (vs_in ?st)) env ?st = Some st3" "reads_ok st3" "accepting env \<longrightarrow> vs_eosin st3"
        using copy_rest_ok [OF env _ order_refl] by blast
      have "write_end env st so ogin = Some st3"
        using 1(1) ok 2(1) True 3(1) by (simp add: write_end_def Let_def)
      then show ?thesis using 3(2,3) by blast
    qed
  qed
qed


section \<open>The whole of \<open>vcedit_write\<close>\<close>

text \<open>What \<open>vcedit_open_callbacks\<close> leaves: the decoder and the modes, the packets of the first and third header,
  the vendor string, and comments that are a list of texts.\<close>

definition vc_ready :: "vcedit_state \<Rightarrow> bool" where
  "vc_ready st \<longleftrightarrow> work_ok st \<and> vs_mainbuf st \<noteq> None \<and> vs_bookbuf st \<noteq> None
     \<and> (\<exists>vc cs blk v. vs_vc st = Some vc \<and> holds vc cs \<and> vs_vendor st = Some blk \<and> cstring blk = Some v
          \<and> int (header_size v cs) < LONG_MAX - 516)"

lemma write_headers_ok:
  assumes "env_good env" and "vc_ready st"
  shows "\<exists>so. write_headers env st = Some so \<and> enc_any so"
proof -
  have m: "mem_good (ve_mem env)" "mem_ok (ve_ogg env)" using assms(1) by (simp_all add: env_good_def)
  obtain main book vc cs blk v where st: "vs_mainbuf st = Some main" "vs_bookbuf st = Some book" "vs_vc st = Some vc" "holds vc cs"
    "vs_vendor st = Some blk" "cstring blk = Some v" "int (header_size v cs) < LONG_MAX - 516"
    using assms(2) by (auto simp: vc_ready_def)
  obtain op where op: "commentheader_out (ve_mem env) vc blk 0 = Some op"
    using commentheader_out_bits [OF m(1) st(4,6,7), of 0] by blast
  obtain so1 r1 where 1: "ogg_stream_packetin (ve_ogg env) (fst (ogg_stream_init (ve_ogg env) (vs_serial st)))
      \<lparr>op_packet = main, op_bos = True, op_eos = False, op_granulepos = 0, op_packetno = 0\<rparr> = Some (so1, r1)" "enc_any so1"
    using packetin_enc [OF enc_any_init [OF m(2)] m(2)] by blast
  obtain so2 r2 where 2: "ogg_stream_packetin (ve_ogg env) so1 op = Some (so2, r2)" "enc_any so2"
    using packetin_enc [OF 1(2) m(2)] by blast
  obtain so3 r3 where 3: "ogg_stream_packetin (ve_ogg env) so2
      \<lparr>op_packet = book, op_bos = False, op_eos = False, op_granulepos = 0, op_packetno = 0\<rparr> = Some (so3, r3)" "enc_any so3"
    using packetin_enc [OF 2(2) m(2)] by blast
  show ?thesis using st(1,2,3,5) op 1(1) 2(1) 3 by (simp add: write_headers_def Let_def)
qed

lemma queued_fill: "dec_safe os \<Longrightarrow> queued os \<le> nat (os_lacing_fill os)"
  by (auto simp: dec_safe_def dec_any_def lacing_ok_def queued_def ogg_stream_zero_def)

lemma write_body_ok:
  assumes env: "env_good env" and st: "work_ok st" "\<not> vs_extrapage st" and so: "enc_any so"
  shows "\<exists>st'. write_body env st so = Some st' \<and> reads_ok st' \<and> (accepting env \<longrightarrow> vs_eosin st')"
proof -
  have reads: "reads_ok st" using st(1) by (simp add: work_ok_def fetch_ok_def)
  obtain st1 so1 ok where 1: "write_flush (nat (os_lacing_fill so)) env st so = Some (st1, so1, ok)" "enc_any so1"
    "same_input st st1" "accepting env \<longrightarrow> ok"
    using write_flush_ok [OF so order_refl] by blast
  obtain st2 ok2 where 2: "write_links (length (vs_sidebuf st1)) env st1 = Some (st2, ok2)" "same_input st1 st2"
    "accepting env \<longrightarrow> ok2"
    using write_links_ok [OF order_refl] by blast
  note s1 = same_input_work [OF 1(3)] and s2 = same_input_work [OF 2(2)]
  show ?thesis
  proof (cases "ok \<and> ok2")
    case False
    then show ?thesis
      using 1(1,4) 2(1,3) reads s1(3) s2(3) by (cases ok) (auto simp: write_body_def)
  next
    case True
    let ?st = "st2\<lparr>vs_requests := Suc (vs_requests st2), vs_sidebuf := vs_sidebuf st2 @ [[]]\<rparr>"
    have w2: "work_ok ?st" "vs_extrapage ?st \<longrightarrow> None \<noteq> None"
      using st s1(1,5) s2(1,5) input_cong(4) [of ?st st2] by (simp_all add: work_ok_def)
    obtain os where os: "vs_os ?st = Some os" "dec_safe os" using w2(1) by (auto simp: work_ok_def fetch_ok_def)
    have "load ?st \<le> unread ?st + nat (os_lacing_fill os)" using os queued_fill by (simp add: load_def)
    then have "packets_done env (write_packets (unread ?st + nat (os_lacing_fill os)) env ?st so1 0 False False None)"
      using write_packets_ok [OF env w2(1) 1(2) _ w2(2)] by blast
    then obtain st3 so3 ogin ok3 where 3: "write_packets (unread ?st + nat (os_lacing_fill os)) env ?st so1 0 False False None
        = Some (st3, so3, ogin, ok3)" "fetch_ok st3" "enc_any so3" "vs_extrapage st3 \<longrightarrow> ogin \<noteq> None" "accepting env \<longrightarrow> ok3"
      by (auto simp: packets_done_def)
    have r3: "reads_ok st3" using 3(2) by (simp add: fetch_ok_def)
    obtain st4 where 4: "write_end env st3 so3 ogin = Some st4" "reads_ok st4" "accepting env \<longrightarrow> vs_eosin st4"
      using write_end_ok [OF env r3 3(3,4)] by blast
    have "write_body env st so = (if \<not> ok3 then Some st3 else write_end env st3 so3 ogin)"
      using 1(1) 2(1) True newlink_good [OF env, of st2] os(1) 3(1) by (simp add: write_body_def)
    then show ?thesis using 3(5) r3 4 by (cases ok3) auto
  qed
qed

text \<open>C39: Writing an edited file returns, whatever the rest of the old file holds and whichever writes fail: no access leaves
  a block, none of the nested loops over links, pages, packets and chunks runs forever, and the result is 0, or -1 with
  a message. If everything is accepted by \<open>write\<close> then the result is 0. The kept packets are freed in any case.\<close>

theorem vcedit_write_returns:
  assumes "env_good env" and "vc_ready st"
  shows "\<exists>st' r. vcedit_write env st = Some (st', r)
    \<and> (r = 0 \<or> r = -1 \<and> vs_lasterror st' = Some WriteError) \<and> (accepting env \<longrightarrow> r = 0)
    \<and> vs_mainbuf st' = None \<and> vs_bookbuf st' = None"
proof -
  let ?st = "st\<lparr>vs_eosin := False, vs_extrapage := False\<rparr>"
  have rdy: "vc_ready ?st" using assms(2) input_cong [of ?st st] by (simp add: vc_ready_def work_ok_def)
  then have w: "work_ok ?st" by (simp add: vc_ready_def)
  obtain so where so: "write_headers env ?st = Some so" "enc_any so"
    using write_headers_ok [OF assms(1) rdy] by blast
  obtain st1 where 1: "write_body env ?st so = Some st1" "accepting env \<longrightarrow> vs_eosin st1"
    using write_body_ok [OF assms(1) w _ so(2)] by auto
  show ?thesis
  proof (cases "vs_eosin st1")
    case True
    then show ?thesis
      using so(1) 1 by (intro exI [of _ "st1\<lparr>vs_mainbuf := None, vs_bookbuf := None\<rparr>"] exI [of _ 0]) (simp add: vcedit_write_def Let_def)
  next
    case False
    then show ?thesis
      using so(1) 1
      by (intro exI [of _ "st1\<lparr>vs_mainbuf := None, vs_bookbuf := None, vs_lasterror := Some WriteError\<rparr>"] exI [of _ "-1"])
        (simp add: vcedit_write_def Let_def)
  qed
qed

text \<open>A file whose rest is no Ogg stream, and a medium that takes at most 100 bytes at once.\<close>

definition demo_env :: vc_env where
  "demo_env = \<lparr>ve_mem = tag_mem, ve_ogg = demo_mem, ve_found = \<lambda>n. True, ve_accept = \<lambda>n k. min k 100, ve_books = \<lambda>vi b. None\<rparr>"

definition demo_state :: vcedit_state where
  "demo_state = (vcedit_new_state [replicate 300 0x55, OggS])\<lparr>vs_oy := Some ogg_sync_init, vs_os := Some (fst (ogg_stream_init demo_mem 5)),
     vs_vc := Some demo_comments, vs_vi := Some demo_info, vs_mainbuf := Some [1, 2, 3], vs_bookbuf := Some [4],
     vs_vendor := Some [0x56, 0]\<rparr>"

theorem vcedit_write_returns_witness:
  "\<exists>st' r. vcedit_write demo_env demo_state = Some (st', r) \<and> (r = 0 \<or> r = -1 \<and> vs_lasterror st' = Some WriteError)
    \<and> vs_mainbuf st' = None"
proof -
  have env: "env_good demo_env" using tag_mem_good demo_mem_ok(1) by (simp add: env_good_def demo_env_def)
  obtain os where os: "ogg_stream_init demo_mem 5 = (os, 0)" by (simp add: ogg_stream_init_def demo_mem_def)
  have "dec_safe os" using init_dec_any [OF demo_mem_ok(1) os] by (simp add: dec_safe_def)
  moreover have "unread demo_state < 2 ^ 30"
    by (simp add: unread_def demo_state_def vcedit_new_state_def ogg_sync_init_def OggS_def)
  ultimately have "fetch_ok demo_state"
    using os sync_init_ok by (auto simp: fetch_ok_def reads_ok_def demo_state_def vcedit_new_state_def OggS_def)
  moreover have "modes_ok demo_info" by (simp add: modes_ok_def demo_info_def codec_setup_zero_def)
  moreover have "cstring [0x56, 0] = Some [0x56]" by (simp add: cstring_def)
  moreover have "int (header_size [0x56] [[0x61, 0x3D, 0x31], [0x62, 0x3D, 0x32], [0x41, 0x3D, 0x33]]) < LONG_MAX - 516"
    by (simp add: header_size_def LONG_MAX_def)
  ultimately have "vc_ready demo_state"
    using demo_holds by (auto simp: vc_ready_def work_ok_def demo_state_def)
  then show ?thesis using vcedit_write_returns [OF env] by blast
qed


section \<open>The order of the pages in the chain\<close>

text \<open>The operations on the chain as the editor uses them; after an error it goes no further.\<close>

datatype chain_op = NewLink | PushPage ogg_page | WriteLink

fun chain_step :: "vc_env \<Rightarrow> vcedit_state \<Rightarrow> chain_op \<Rightarrow> (vcedit_state \<times> int) option" where
  "chain_step env st NewLink = Some (buffer_chain_newlink env st)"
| "chain_step env st (PushPage og) = Some (buffer_chain_push env st og)"
| "chain_step env st WriteLink = (if vs_sidebuf st \<noteq> [] then buffer_chain_writelink env st else Some (st, 0))"

fun chain_run :: "vc_env \<Rightarrow> vcedit_state \<Rightarrow> chain_op list \<Rightarrow> (vcedit_state \<times> bool) option" where
  "chain_run env st [] = Some (st, True)"
| "chain_run env st (c # cs) = do {
     (st, result) \<leftarrow> chain_step env st c;
     if result < 0 then Some (st, False) else chain_run env st cs }"

fun pushed :: "chain_op list \<Rightarrow> byte list" where
  "pushed [] = []"
| "pushed (PushPage og # cs) = page_bytes og @ pushed cs"
| "pushed (_ # cs) = pushed cs"

lemma concat_last: "ls \<noteq> [] \<Longrightarrow> concat (butlast ls) @ List.last ls = concat ls"
  by (induction ls) auto

text \<open>What is written, followed by what is held, grows by the pages that are pushed.\<close>

lemma chain_step_bytes:
  "\<exists>st' result. chain_step env st c = Some (st', result)
    \<and> (0 \<le> result \<longrightarrow> vs_out st' @ concat (vs_sidebuf st') = vs_out st @ concat (vs_sidebuf st) @ pushed [c])
    \<and> (result < 0 \<longrightarrow> (\<exists>r. vs_out st' @ r = vs_out st @ concat (vs_sidebuf st)))"
proof (cases c)
  case NewLink
  then show ?thesis by (simp add: buffer_chain_newlink_def vc_request_def Let_def)
next
  case (PushPage og)
  have "concat (butlast (vs_sidebuf st)) @ List.last (vs_sidebuf st) @ ys = concat (vs_sidebuf st) @ ys"
    if "vs_sidebuf st \<noteq> []" for ys
    using arg_cong [OF concat_last [OF that], of "\<lambda>xs. xs @ ys"] by simp
  then show ?thesis
    using PushPage
    by (cases "vs_sidebuf st = []")
      (simp_all add: buffer_chain_push_def buffer_chain_newlink_def page_buffer_push_def vc_request_def Let_def page_bytes_def)
next
  case WriteLink
  show ?thesis
  proof (cases "vs_sidebuf st")
    case Nil
    then show ?thesis using WriteLink by simp
  next
    case (Cons buffer links)
    have "\<exists>r. take n buffer @ r = buffer @ concat links" for n
      using append_take_drop_id [of n buffer] by (metis append_assoc)
    then show ?thesis
      using WriteLink Cons by (auto simp: buffer_chain_writelink_def vc_write_def Let_def)
  qed
qed



end
