(* ===== verification/Spec2Isabelle.thy ===== *)
theory Spec2Isabelle
  imports CPrelude StrUtils Wildcards FileUtil RelPath Queue QueueThreads Os2Audio Snprintf Strptime Cgi EaDecode Charset
    OggBase OggBits OggFraming OggCrc OggSync OggEncode OggDecode OggStream OggAny
    VorbisComment VorbisHeader VcEdit
begin

text \<open>
  PM123 is an audio player for OS/2. Its core program (\<^verbatim>\<open>src/pm123\<close>), its network layer
  (\<^verbatim>\<open>src/xio123\<close>) and most plug-ins are written in C++; what is written in C by the project itself is
  the library of helpers \<^verbatim>\<open>src/utils\<close>, on which all other parts rest, the output plug-in
  \<^verbatim>\<open>src/plug-ins/os2audio\<close>, the form and URL helpers of the CD player plug-in and the comment editor
  of the Ogg plug-in. The rest of the C code are libraries of other projects. This development
  models the project's C code, and of the libraries those that the comment editor rests on, the Ogg
  library \<^verbatim>\<open>ogg123\<close> and the headers of the Vorbis library \<^verbatim>\<open>vrb123\<close> (the project added an operation to its
  comments), and proves what makes it correct. All paths below are relative to \<^verbatim>\<open>src/src\<close>.

  \<^bold>\<open>How the parts interact.\<close> A location (file, URL, CD track) enters the program through
  \<^verbatim>\<open>utils/fileutil.c\<close>, playlists store it relative to their own place with \<^verbatim>\<open>utils/abs2rel.c\<close> and
  \<^verbatim>\<open>utils/rel2abs.c\<close>, file dialogs and plug-ins filter it with \<^verbatim>\<open>utils/wildcards.c\<close>, file types are
  read from extended attributes with \<^verbatim>\<open>utils/eadecode.c\<close>, meta data are converted with
  \<^verbatim>\<open>utils/charset.c\<close> and dates of the HTTP client with \<^verbatim>\<open>utils/strptime.c\<close>. The CD plug-in asks a
  data base in the web with the helpers of \<^verbatim>\<open>plug-ins/cddaplay/ciscgi\<close>. Worker threads take their
  requests from \<^verbatim>\<open>utils/queue.c\<close>. A decoder thread hands its samples to \<^verbatim>\<open>os2audio.c\<close>, whose ring of
  buffers the mixer of the system plays. All of them copy and print strings with \<^verbatim>\<open>utils/str*.c\<close> and
  \<^verbatim>\<open>utils/snprintf.c\<close>. When the user edits the tags of an Ogg file, \<^verbatim>\<open>plug-ins/oggplay/vcedit.c\<close> reads it in chunks,
  \<^verbatim>\<open>ogg123/src/framing.c\<close> finds the pages in the chunks and the packets in the pages, \<^verbatim>\<open>vrb123/lib/info.c\<close> takes the
  first packets apart with \<^verbatim>\<open>ogg123/src/bitwise.c\<close> and keeps the tags, and the way back puts a new comment
  packet and the old audio packets into new pages.

  \<^bold>\<open>The theories.\<close>
  \<^item> \<open>CPrelude\<close>: the byte store with pointers (object and offset), loads and stores that are \<open>None\<close>
    outside an object, C strings in the store, the parts of the C library that the code calls
    (\<open>strlen\<close>, \<open>strchr\<close>, \<open>toupper\<close>, \<open>isdigit\<close> and so on), the collection \<open>cmem_simps\<close>, and
    the contract \<open>bounded_copy\<close> of a copy that truncates.
  \<^item> \<open>StrUtils\<close>: \<^verbatim>\<open>strnlen.c\<close>, \<^verbatim>\<open>strlcpy.c\<close>, \<^verbatim>\<open>strlcat.c\<close>, \<^verbatim>\<open>strnchr.c\<close>, \<^verbatim>\<open>strchomp.c\<close>, \<^verbatim>\<open>strutils.c\<close>,
    \<^verbatim>\<open>memcmpcpy.c\<close>; every function, pointer by pointer. Each theorem gives the resulting store, which
    says at once what is written and that nothing else changes. \<open>strlcpy\<close> implements \<open>bounded_copy\<close>,
    and the routines of \<open>FileUtil\<close> rest on that contract only.
  \<^item> \<open>Wildcards\<close>: \<^verbatim>\<open>wildcards.c\<close>. The backtracking matcher is equivalent to the denotation \<open>glob\<close>.
  \<^item> \<open>FileUtil\<close>: \<^verbatim>\<open>fileutil.c\<close>. What a location is, its parts, decoding in place, truncation.
  \<^item> \<open>RelPath\<close>: \<^verbatim>\<open>abs2rel.c\<close>, \<^verbatim>\<open>rel2abs.c\<close>. Bounds of the result buffer, the meaning on lists of
    segments, and that \<open>rel2abs\<close> undoes \<open>abs2rel\<close>.
  \<^item> \<open>Queue\<close>, \<open>QueueThreads\<close>: \<^verbatim>\<open>queue.c\<close>. The linked list implements the interface \<open>message_queue\<close>;
    the step relation \<open>qstep\<close> lets any number of threads interleave at each semaphore call, and rule
    induction over \<open>qreach\<close> gives mutual exclusion, no lost wake-up, progress of the mutex, and
    that each history is one of a sequential queue.
  \<^item> \<open>Os2Audio\<close>: \<^verbatim>\<open>os2audio.c\<close>. All commands of the plug-in, the mixer callback and the calls of the
    decoder thread on the \<open>OS2AUDIO\<close> structure; the invariant \<open>audio_ok\<close> holds in every state that an
    order of them reaches (\<open>audio_reach\<close>); what each of them does to the ring.
  \<^item> \<open>Snprintf\<close>: \<^verbatim>\<open>snprintf.c\<close>. The state machine \<open>dopr\<close>, one definition per state, refines the text
    that the directives of a format denote (\<open>render\<close>); the locale \<open>formatter\<close> is its contract.
  \<^item> \<open>Strptime\<close>: \<^verbatim>\<open>strptime.c\<close>. The parser returns on each format, stores fields in range only, and
    reads what \<open>asctime\<close> prints.
  \<^item> \<open>Cgi\<close>: \<^verbatim>\<open>urldcode.c\<close>, \<^verbatim>\<open>urlncode.c\<close>, \<^verbatim>\<open>urlvalue.c\<close>, \<^verbatim>\<open>cgiupper.c\<close>, \<^verbatim>\<open>cgifldld.c\<close>. Round trips.
  \<^item> \<open>EaDecode\<close>: \<^verbatim>\<open>eadecode.c\<close>. On the encoding of any tree of values the decoder appends the leaves.
  \<^item> \<open>Charset\<close>: \<^verbatim>\<open>charset.c\<close>. Bounds and text of the conversion, the choice of the code page.
  \<^item> \<open>OggBase\<close>: bytes, blocks of memory with checked accesses, allocators; shared by what follows.
  \<^item> \<open>OggBits\<close>: \<^verbatim>\<open>ogg123/src/bitwise.c\<close>. The buffer stands for a list of bits (\<open>packed\<close>, \<open>reading\<close>); the locale
    \<open>bit_packer\<close> is the contract of both bit orders, from which the round trip follows.
  \<^item> \<open>OggFraming\<close>: \<^verbatim>\<open>ogg123/src/framing.c\<close>, the definitions: pages, checksum, synchronisation, and the two
    directions of a logical stream.
  \<^item> \<open>OggCrc\<close>: the checksum with its table is the remainder of a division, and what damage it detects.
  \<^item> \<open>OggSync\<close>: \<open>ogg_sync_*\<close>. The buffer stands for the bytes behind the last page (\<open>sync_ok\<close>), on which the
    reference \<open>seek\<close> says what comes next, and \<open>scan\<close> what \<open>ogg_sync_pageout\<close> returns.
  \<^item> \<open>OggEncode\<close>: the state of an encoder refines a list of segments (\<open>enc_ok\<close>); what is put into it and what
    a page takes from it (\<open>flushed\<close>).
  \<^item> \<open>OggDecode\<close>: the queue of a decoder on the pages of one encoder in their order (\<open>dec_ok\<close>).
  \<^item> \<open>OggStream\<close>: the loops of a client of both directions (\<open>enc_run\<close>, \<open>demux\<close>); packets that are put into pages
    come out of their bytes again, in whatever pieces these arrive.
  \<^item> \<open>OggAny\<close>: the decoder on any bytes (\<open>dec_safe\<close>): pages lost, repeated, out of order, with any flags.
  \<^item> \<open>VorbisComment\<close>: \<^verbatim>\<open>vrb123/lib/info.c\<close>, the tags. The two arrays of the structure stand for a list of texts
    (\<open>holds\<close>), on which the operations are those of lists.
  \<^item> \<open>VorbisHeader\<close>: \<^verbatim>\<open>vrb123/lib/info.c\<close> and \<open>_commentheader_out\<close> of \<^verbatim>\<open>vcedit.c\<close>, the header packets. Round trips, and
    the comment parser on any bytes.
  \<^item> \<open>VcEdit\<close>: \<^verbatim>\<open>plug-ins/oggplay/vcedit.c\<close> on all of these. The callbacks \<open>read\<close> and \<open>write\<close> are a list of chunks and
    a function that says how much is accepted. The chain of buffers keeps pages in order, \<open>vcedit_write\<close>
    returns for any rest of the file, which is where all its loops are shown to end.

  \<^bold>\<open>Conventions.\<close> A structure of the code is a record with the names of its members (with a prefix
  where they would clash); an operation is one definition with the guards of the code in their
  order, its loops are recursive definitions of their own. \<open>None\<close> is undefined behaviour: an access
  outside an object, a null or dangling pointer, signed overflow, a division by zero. Errors that the
  code reports are values of the result. Sizes, counters and times with unsigned arithmetic are
  words of 32 bits (a \<open>size_t\<close>, an \<open>int\<close> and a \<open>long\<close> have 32 bits on OS/2), or naturals with the
  wrap-around written out. Functions of the system are parameters: the return codes of the
  multimedia commands, the Unicode functions, \<open>stat\<close>, \<open>localtime\<close>, the memory that \<open>calloc\<close> finds.

  \<^bold>\<open>Fuel and bounds.\<close> The loops are structural, or have a \<open>termination\<close> proof, with these exceptions.
  \<open>doeadecode\<close> takes the length of the attribute as fuel, which suffices by \<open>doeadecode_fuel\<close>, because
  each level of the recursion consumes bytes. The loop of \<open>qu_purge\<close> takes the number of nodes on the
  heap as fuel, which is at least the length of a well formed list. \<open>convert_loop\<close> of \<open>fmtint\<close> is bounded
  by the code itself, by the 20 bytes of its buffer. \<open>pageout_loop\<close> takes the number of buffered bytes, which
  suffices by \<open>ogg_sync_pageout_result\<close>, since each round skips a byte or ends; in the client loops \<open>drain\<close>
  takes the number of segments and \<open>read_pages\<close> the number of bytes (\<open>drain_safe\<close>, \<open>read_pages_safe\<close>). The loops of
  \<open>vcedit_write\<close> take the numbers of segments, links, chunks, unread bytes, or both bytes and segments, as
  said at each of them; that they are enough is part of \<open>vcedit_write_returns\<close>. The loops of
  \<open>vcedit_open_callbacks\<close> take such numbers too; there the chunks and the bytes of the file bound the rounds.

  \<^bold>\<open>What the modelling showed\<close> is collected in lemmas and theorems of their own, which evaluate the definitions on
  the inputs concerned: \<open>path_edge_cases\<close>, \<open>printf_quirks\<close>, \<open>strptime_quirks\<close>,
  \<open>cgi_quirks\<close>, \<open>eadecode_quirks\<close>, \<open>charset_quirks\<close>, \<open>filled_count_wraps\<close>, \<open>unpack_info_short\<close>,
  \<open>trash_correct\<close> and \<open>queue_lifetime\<close>.

  \<^bold>\<open>Not modelled.\<close> The window and dialog helpers \<^verbatim>\<open>utils/utilfct*.c\<close>, which only call the Presentation
  Manager; \<^verbatim>\<open>utils/inimacro.c\<close>, which hands its arguments to the profile functions of the system;
  \<^verbatim>\<open>utils/interlocked.c\<close> and \<^verbatim>\<open>utils/vdelegate.c\<close>, which are machine code; \<^verbatim>\<open>utils/debuglog.c\<close>; the resource
  compiler of skins \<^verbatim>\<open>skinutil\<close>; the table of names \<^verbatim>\<open>plug-ins/mpg123/genre.c\<close>; all C++ code; and the
  libraries of other projects (\<^verbatim>\<open>libmpg123\<close>, \<^verbatim>\<open>libfaad\<close>, \<^verbatim>\<open>libflac\<close>, \<^verbatim>\<open>snd123\<close>, \<^verbatim>\<open>fft123\<close>, \<^verbatim>\<open>gbm123\<close>,
  \<^verbatim>\<open>zlb123\<close>, \<^verbatim>\<open>pulseaudio\<close>), with \<^verbatim>\<open>ogg123\<close> as the exception. Of \<^verbatim>\<open>vrb123\<close> only the comments and headers are
  modelled, with the parser of the code books as an argument; the codec is not. Of \<^verbatim>\<open>snprintf.c\<close> the digits of floating point numbers are
  an argument; of \<^verbatim>\<open>os2audio.c\<close> the window procedure of the settings is left out.
\<close>

end
